(* ===== verification/ME_Prelude.thy ===== *)
theory ME_Prelude
  imports Main "HOL-Library.Word" "HOL-Library.Monad_Syntax"
begin

unbundle bit_operations_syntax

text \<open>
  Shared vocabulary of the development.

  \<^item> Machine integers: \<open>u8\<close>, \<open>u16\<close>, \<open>u32\<close>, \<open>u64\<close> are the C types
    \<^verbatim>\<open>uint8_t\<close> to \<^verbatim>\<open>uint64_t\<close>; addition, subtraction and multiplication wrap.
  \<^item> Assertions: the sources are full of \<^verbatim>\<open>assert\<close> (two per function).  A function that
    contains assertions returns an \<open>option\<close>: \<open>None\<close> is the aborted program.
    Assertions that a pointer parameter is not \<^verbatim>\<open>NULL\<close> are true by construction,
    because the model passes the object itself.
  \<^item> C arrays are functions on \<open>nat\<close> indices; the number of cells in use is a separate
    field, as in the code, and the invariants bound every index that is read or written.
  \<^item> Loops that return from their body are \<open>for_return\<close>.

  The rest of the theory is the generic lemmas on those.
\<close>

named_theorems asserts \<open>unfolding rules for assertions in the option monad\<close>
named_theorems eval_loops \<open>unrolling of loops with a numeral bound, for concrete runs\<close>
named_theorems arr \<open>how array updates act on the list of the cells in use\<close>

type_synonym u8 = "8 word"
type_synonym u16 = "16 word"
type_synonym u32 = "32 word"
type_synonym u64 = "64 word"

subsection \<open>Assertions\<close>

definition assert_that :: "bool \<Rightarrow> unit option" where
  "assert_that b = (if b then Some () else None)"

lemma assert_that_True [simp, asserts]: "b \<Longrightarrow> assert_that b = Some ()"
  by (simp add: assert_that_def)

lemma assert_that_False [simp, asserts]: "\<not> b \<Longrightarrow> assert_that b = None"
  by (simp add: assert_that_def)

lemma bind_assert_that [asserts]:
  "Option.bind (assert_that b) f = (if b then f () else None)"
  by (simp add: assert_that_def)

lemma bind_assert_that_Some:
  "Option.bind (assert_that b) f = Some r \<longleftrightarrow> b \<and> f () = Some r"
  by (simp add: assert_that_def)

subsection \<open>Loops with an early return\<close>

text \<open>
  \<open>for_return n i f\<close> runs the body \<open>f\<close> at \<open>i, i + 1, \<dots>, i + n - 1\<close> and returns what
  the first body that returns gives; \<open>None\<close> when the loop runs to its end.
\<close>

fun for_return :: "nat \<Rightarrow> nat \<Rightarrow> (nat \<Rightarrow> 'r option) \<Rightarrow> 'r option" where
  "for_return 0 i f = None"
| "for_return (Suc n) i f = (case f i of Some r \<Rightarrow> Some r | None \<Rightarrow> for_return n (Suc i) f)"

lemma for_return_numeral [eval_loops]:
  "for_return (numeral k) i f =
     (case f i of Some r \<Rightarrow> Some r | None \<Rightarrow> for_return (pred_numeral k) (Suc i) f)"
  by (simp add: numeral_eq_Suc)

lemma for_return_None:
  "for_return n i f = None \<longleftrightarrow> (\<forall>k. i \<le> k \<and> k < i + n \<longrightarrow> f k = None)"
proof (induction n arbitrary: i)
  case 0
  show ?case by auto
next
  case (Suc n)
  have "(\<forall>k. i \<le> k \<and> k < i + Suc n \<longrightarrow> f k = None) \<longleftrightarrow>
        f i = None \<and> (\<forall>k. Suc i \<le> k \<and> k < Suc i + n \<longrightarrow> f k = None)"
    by (metis add_Suc add_Suc_right le_SucE le_refl less_add_Suc1 not_less_eq_eq Suc_leD le_neq_implies_less Suc_leI)
  then show ?case
    by (simp add: Suc.IH split: option.splits)
qed

lemma for_return_Some:
  "for_return n i f = Some r \<longleftrightarrow>
     (\<exists>k. i \<le> k \<and> k < i + n \<and> f k = Some r \<and> (\<forall>j. i \<le> j \<and> j < k \<longrightarrow> f j = None))"
proof (induction n arbitrary: i)
  case 0
  show ?case by simp
next
  case (Suc n)
  show ?case
  proof (cases "f i")
    case None
    have "(\<exists>k\<ge>Suc i. k < Suc i + n \<and> f k = Some r \<and> (\<forall>j. Suc i \<le> j \<and> j < k \<longrightarrow> f j = None)) \<longleftrightarrow>
          (\<exists>k\<ge>i. k < i + Suc n \<and> f k = Some r \<and> (\<forall>j. i \<le> j \<and> j < k \<longrightarrow> f j = None))"
      (is "?A \<longleftrightarrow> ?B")
    proof
      assume ?A
      with None show ?B
        by (metis Suc_leD add_Suc add_Suc_right le_antisym not_less_eq_eq)
    next
      assume ?B
      with None show ?A
        by (metis Suc_leI add_Suc add_Suc_right le_neq_implies_less option.distinct(1) Suc_leD)
    qed
    with None Suc.IH show ?thesis by simp
  next
    case (Some x)
    have "k = i" if "i \<le> k" "\<forall>j. i \<le> j \<and> j < k \<longrightarrow> f j = None" for k
      using that Some by (metis le_neq_implies_less le_refl option.distinct(1))
    with Some show ?thesis by force
  qed
qed

lemma for_return_map:
  "for_return n i (\<lambda>k. map_option g (f k)) = map_option g (for_return n i f)"
  by (induction n arbitrary: i) (auto split: option.splits)

subsection \<open>Arrays\<close>

text \<open>The first \<open>n\<close> cells of an array, as a list.\<close>

definition arr_list :: "(nat \<Rightarrow> 'a) \<Rightarrow> nat \<Rightarrow> 'a list" where
  "arr_list a n = map a [0..<n]"

text \<open>
  The two \<^verbatim>\<open>memmove\<close> patterns of the sources on an array with \<open>n\<close> used cells:
  \<^verbatim>\<open>memmove(&a[p + 1], &a[p], (n - p) * sizeof a[0])\<close> and
  \<^verbatim>\<open>memmove(&a[p], &a[p + 1], (n - p - 1) * sizeof a[0])\<close>.
\<close>

definition arr_shift_up :: "(nat \<Rightarrow> 'a) \<Rightarrow> nat \<Rightarrow> nat \<Rightarrow> (nat \<Rightarrow> 'a)" where
  "arr_shift_up a p n = (\<lambda>i. if p < i \<and> i \<le> n then a (i - 1) else a i)"

definition arr_shift_down :: "(nat \<Rightarrow> 'a) \<Rightarrow> nat \<Rightarrow> nat \<Rightarrow> (nat \<Rightarrow> 'a)" where
  "arr_shift_down a p n = (\<lambda>i. if p \<le> i \<and> i < n - 1 then a (Suc i) else a i)"

lemma length_arr_list [simp]: "length (arr_list a n) = n"
  by (simp add: arr_list_def)

lemma nth_arr_list [simp]: "i < n \<Longrightarrow> arr_list a n ! i = a i"
  by (simp add: arr_list_def)

lemma arr_list_0 [simp]: "arr_list a 0 = []"
  by (simp add: arr_list_def)

lemma arr_list_Suc: "arr_list a (Suc n) = arr_list a n @ [a n]"
  by (simp add: arr_list_def)

lemma arr_list_eq_Nil [simp]: "arr_list a n = [] \<longleftrightarrow> n = 0"
  by (simp add: arr_list_def)

lemma set_arr_list: "set (arr_list a n) = a ` {..<n}"
  by (simp add: arr_list_def atLeast_upt)

lemma map_arr_list: "map f (arr_list a n) = arr_list (f \<circ> a) n"
  by (simp add: arr_list_def)

lemma arr_list_update [arr]: "arr_list (a(i := x)) n = (arr_list a n)[i := x]"
  by (rule nth_equalityI) (auto simp: nth_list_update)

lemma arr_list_shift_up [arr]:
  "p \<le> n \<Longrightarrow> arr_list ((arr_shift_up a p n)(p := x)) (Suc n)
     = take p (arr_list a n) @ x # drop p (arr_list a n)"
  by (rule nth_equalityI)
     (auto simp: nth_append arr_shift_up_def nth_Cons' min_def less_Suc_eq_le)

lemma arr_list_shift_down [arr]:
  "p < n \<Longrightarrow> arr_list (arr_shift_down a p n) (n - 1)
     = take p (arr_list a n) @ drop (Suc p) (arr_list a n)"
  by (rule nth_equalityI) (auto simp: nth_append arr_shift_down_def min_def)

lemma arr_list_cong: "(\<And>i. i < n \<Longrightarrow> a i = b i) \<Longrightarrow> arr_list a n = arr_list b n"
  by (simp add: arr_list_def)

subsection \<open>Lists of lists\<close>

lemma in_concat_nth: "i < length xss \<Longrightarrow> x \<in> set (xss ! i) \<Longrightarrow> x \<in> set (concat xss)"
  by (auto intro!: bexI [of _ "xss ! i"])

lemma distinct_concat_nth:
  "distinct (concat xss) \<Longrightarrow> i < length xss \<Longrightarrow> j < length xss \<Longrightarrow> i \<noteq> j \<Longrightarrow> x \<in> set (xss ! i) \<Longrightarrow>
     x \<notin> set (xss ! j)"
proof (induction xss arbitrary: i j)
  case (Cons xs xss)
  show ?case
  proof (cases i)
    case 0
    with Cons.prems obtain k where k: "j = Suc k" "k < length xss" by (cases j) auto
    with 0 Cons.prems in_concat_nth [of k xss x] show ?thesis by auto
  next
    case (Suc k)
    with Cons.prems Cons.IH [of k "j - 1"] in_concat_nth [of k xss x] show ?thesis by (cases j) auto
  qed
qed simp

lemma concat_split: "i < length xss \<Longrightarrow> concat xss = concat (take i xss) @ xss ! i @ concat (drop (Suc i) xss)"
  by (subst id_take_nth_drop [of i xss]) simp_all

subsection \<open>C strings\<close>

text \<open>
  A \<^verbatim>\<open>char\<close> array that holds a string is modelled by the characters before its
  terminator.  \<open>copy_until_nul n s\<close> is the bounded copy loop of the sources: it stops
  after \<open>n\<close> characters or at a NUL.
\<close>

fun copy_until_nul :: "nat \<Rightarrow> char list \<Rightarrow> char list" where
  "copy_until_nul 0 s = []"
| "copy_until_nul (Suc n) [] = []"
| "copy_until_nul (Suc n) (c # s) = (if c = CHR 0x00 then [] else c # copy_until_nul n s)"

definition c_string :: "char list \<Rightarrow> bool" where
  "c_string s = (CHR 0x00 \<notin> set s)"

lemma copy_until_nul_takeWhile:
  "copy_until_nul n s = take n (takeWhile (\<lambda>c. c \<noteq> CHR 0x00) s)"
  by (induction n s rule: copy_until_nul.induct) auto

lemma copy_until_nul_c_string: "c_string s \<Longrightarrow> copy_until_nul n s = take n s"
  unfolding copy_until_nul_takeWhile c_string_def by (subst takeWhile_eq_all_conv [THEN iffD2]) auto

lemma length_copy_until_nul: "length (copy_until_nul n s) \<le> n"
  by (simp add: copy_until_nul_takeWhile)

lemma c_string_copy_until_nul [simp]: "c_string (copy_until_nul n s)"
  by (auto simp: c_string_def copy_until_nul_takeWhile dest!: in_set_takeD set_takeWhileD)

lemma c_string_take: "c_string s \<Longrightarrow> c_string (take n s)"
  by (auto simp: c_string_def dest: in_set_takeD)

subsection \<open>Words\<close>

lemma unat_and_mask: "unat (x AND mask n) = unat x mod 2 ^ n"
  by (metis take_bit_eq_mask take_bit_eq_mod unsigned_take_bit_eq)

end
