(* ===== verification/ME_Messages.thy ===== *)
theory ME_Messages
  imports ME_Prelude
begin

text \<open>
  \<^verbatim>\<open>include/protocol/message_types.h\<close>: the message structures, the tagged unions
  \<^verbatim>\<open>input_msg_t\<close> and \<^verbatim>\<open>output_msg_t\<close> and the functions that build and inspect them.
  Padding bytes are left out.  A union with its tag is a datatype with one constructor
  per tag; the \<open>OTHER\<close> constructors are the tags no macro names, which the code handles
  in its \<^verbatim>\<open>default\<close> branches.  Symbols are C strings.
\<close>

subsection \<open>Constants\<close>

abbreviation MAX_SYMBOL_LENGTH :: nat where
  "MAX_SYMBOL_LENGTH \<equiv> 16"

abbreviation SIDE_BUY :: u8 where
  "SIDE_BUY \<equiv> 66"

abbreviation SIDE_SELL :: u8 where
  "SIDE_SELL \<equiv> 83"

abbreviation ORDER_TYPE_MARKET :: u8 where
  "ORDER_TYPE_MARKET \<equiv> 0"

abbreviation ORDER_TYPE_LIMIT :: u8 where
  "ORDER_TYPE_LIMIT \<equiv> 1"

subsection \<open>Input messages\<close>

record new_order_msg_t =
  no_user_id :: u32
  no_user_order_id :: u32
  no_price :: u32
  no_quantity :: u32
  no_side :: u8
  no_symbol :: string

record cancel_msg_t =
  cm_user_id :: u32
  cm_user_order_id :: u32
  cm_symbol :: string

datatype input_msg_t =
    INPUT_MSG_NEW_ORDER new_order_msg_t
  | INPUT_MSG_CANCEL cancel_msg_t
  | INPUT_MSG_FLUSH
  | INPUT_MSG_OTHER u8

fun input_msg_type :: "input_msg_t \<Rightarrow> u8" where
  "input_msg_type (INPUT_MSG_NEW_ORDER _) = 0"
| "input_msg_type (INPUT_MSG_CANCEL _) = 1"
| "input_msg_type INPUT_MSG_FLUSH = 2"
| "input_msg_type (INPUT_MSG_OTHER t) = t"

subsection \<open>Output messages\<close>

record ack_msg_t =
  ack_user_id :: u32
  ack_user_order_id :: u32
  ack_symbol :: string

record cancel_ack_msg_t =
  ca_user_id :: u32
  ca_user_order_id :: u32
  ca_symbol :: string

record trade_msg_t =
  tr_user_id_buy :: u32
  tr_user_order_id_buy :: u32
  tr_user_id_sell :: u32
  tr_user_order_id_sell :: u32
  tr_price :: u32
  tr_quantity :: u32
  tr_buy_client_id :: u32
  tr_sell_client_id :: u32
  tr_symbol :: string

record top_of_book_msg_t =
  tob_price :: u32
  tob_total_quantity :: u32
  tob_side :: u8
  tob_symbol :: string

datatype output_msg_t =
    OUTPUT_MSG_ACK ack_msg_t
  | OUTPUT_MSG_CANCEL_ACK cancel_ack_msg_t
  | OUTPUT_MSG_TRADE trade_msg_t
  | OUTPUT_MSG_TOP_OF_BOOK top_of_book_msg_t
  | OUTPUT_MSG_OTHER u8

fun output_msg_type :: "output_msg_t \<Rightarrow> u8" where
  "output_msg_type (OUTPUT_MSG_ACK _) = 0"
| "output_msg_type (OUTPUT_MSG_CANCEL_ACK _) = 1"
| "output_msg_type (OUTPUT_MSG_TRADE _) = 2"
| "output_msg_type (OUTPUT_MSG_TOP_OF_BOOK _) = 3"
| "output_msg_type (OUTPUT_MSG_OTHER t) = t"

subsection \<open>Validation\<close>

definition side_is_valid :: "u8 \<Rightarrow> bool" where
  "side_is_valid side = (side = SIDE_BUY \<or> side = SIDE_SELL)"

definition input_msg_type_is_valid :: "u8 \<Rightarrow> bool" where
  "input_msg_type_is_valid t = (t \<le> 2)"

definition output_msg_type_is_valid :: "u8 \<Rightarrow> bool" where
  "output_msg_type_is_valid t = (t \<le> 3)"

subsection \<open>Building messages\<close>

definition msg_copy_symbol :: "string \<Rightarrow> nat \<Rightarrow> string option" where
  "msg_copy_symbol src dest_size = do {
     assert_that (0 < dest_size);
     Some (copy_until_nul (dest_size - 1) src)
   }"

definition make_new_order_msg :: "new_order_msg_t \<Rightarrow> input_msg_t option" where
  "make_new_order_msg msg = do {
     assert_that (side_is_valid (no_side msg));
     Some (INPUT_MSG_NEW_ORDER msg)
   }"

definition make_cancel_msg :: "cancel_msg_t \<Rightarrow> input_msg_t option" where
  "make_cancel_msg msg = do {
     assert_that (cm_user_id msg \<noteq> 0);
     Some (INPUT_MSG_CANCEL msg)
   }"

definition make_flush_msg :: "input_msg_t" where
  "make_flush_msg = INPUT_MSG_FLUSH"

definition make_ack_msg :: "string \<Rightarrow> u32 \<Rightarrow> u32 \<Rightarrow> output_msg_t option" where
  "make_ack_msg symbol user_id user_order_id = do {
     assert_that (copy_until_nul 1 symbol \<noteq> []);
     s \<leftarrow> msg_copy_symbol symbol MAX_SYMBOL_LENGTH;
     Some (OUTPUT_MSG_ACK \<lparr>ack_user_id = user_id, ack_user_order_id = user_order_id,
                            ack_symbol = s\<rparr>)
   }"

definition make_cancel_ack_msg :: "string \<Rightarrow> u32 \<Rightarrow> u32 \<Rightarrow> output_msg_t option" where
  "make_cancel_ack_msg symbol user_id user_order_id = do {
     assert_that (copy_until_nul 1 symbol \<noteq> []);
     s \<leftarrow> msg_copy_symbol symbol MAX_SYMBOL_LENGTH;
     Some (OUTPUT_MSG_CANCEL_ACK \<lparr>ca_user_id = user_id, ca_user_order_id = user_order_id,
                                   ca_symbol = s\<rparr>)
   }"

definition make_trade_msg ::
  "string \<Rightarrow> u32 \<Rightarrow> u32 \<Rightarrow> u32 \<Rightarrow> u32 \<Rightarrow> u32 \<Rightarrow> u32 \<Rightarrow> trade_msg_t option" where
  "make_trade_msg symbol user_id_buy user_order_id_buy user_id_sell user_order_id_sell
      price quantity = do {
     assert_that (quantity > 0);
     s \<leftarrow> msg_copy_symbol symbol MAX_SYMBOL_LENGTH;
     Some \<lparr>tr_user_id_buy = user_id_buy, tr_user_order_id_buy = user_order_id_buy,
           tr_user_id_sell = user_id_sell, tr_user_order_id_sell = user_order_id_sell,
           tr_price = price, tr_quantity = quantity,
           tr_buy_client_id = 0, tr_sell_client_id = 0, tr_symbol = s\<rparr>
   }"

definition make_top_of_book_msg ::
  "string \<Rightarrow> u8 \<Rightarrow> u32 \<Rightarrow> u32 \<Rightarrow> output_msg_t option" where
  "make_top_of_book_msg symbol side price total_quantity = do {
     assert_that (side_is_valid side);
     s \<leftarrow> msg_copy_symbol symbol 15;
     Some (OUTPUT_MSG_TOP_OF_BOOK \<lparr>tob_price = price, tob_total_quantity = total_quantity,
                                    tob_side = side, tob_symbol = s\<rparr>)
   }"

definition make_top_of_book_eliminated_msg :: "string \<Rightarrow> u8 \<Rightarrow> output_msg_t option" where
  "make_top_of_book_eliminated_msg symbol side = do {
     assert_that (side_is_valid side);
     make_top_of_book_msg symbol side 0 0
   }"

definition top_of_book_is_eliminated :: "top_of_book_msg_t \<Rightarrow> bool option" where
  "top_of_book_is_eliminated msg = do {
     assert_that (side_is_valid (tob_side msg));
     Some (tob_price msg = 0 \<and> tob_total_quantity msg = 0)
   }"

subsection \<open>Inspecting input messages\<close>

text \<open>The inner \<open>option\<close> is the \<^verbatim>\<open>NULL\<close> a flush message has for its symbol.\<close>

definition input_msg_get_symbol :: "input_msg_t \<Rightarrow> string option option" where
  "input_msg_get_symbol msg = do {
     assert_that (input_msg_type_is_valid (input_msg_type msg));
     Some (case msg of
             INPUT_MSG_NEW_ORDER m \<Rightarrow> Some (no_symbol m)
           | INPUT_MSG_CANCEL m \<Rightarrow> Some (cm_symbol m)
           | INPUT_MSG_FLUSH \<Rightarrow> None
           | INPUT_MSG_OTHER _ \<Rightarrow> None)
   }"

definition input_msg_get_user_id :: "input_msg_t \<Rightarrow> u32 option" where
  "input_msg_get_user_id msg = do {
     assert_that (input_msg_type_is_valid (input_msg_type msg));
     Some (case msg of
             INPUT_MSG_NEW_ORDER m \<Rightarrow> no_user_id m
           | INPUT_MSG_CANCEL m \<Rightarrow> cm_user_id m
           | INPUT_MSG_FLUSH \<Rightarrow> 0
           | INPUT_MSG_OTHER _ \<Rightarrow> 0)
   }"

subsection \<open>Facts\<close>

text \<open>
  The predicate the book keeps of its symbol: a C string that fits the
  \<^verbatim>\<open>char symbol[16]\<close> field and is not empty.
\<close>

definition symbol_ok :: "string \<Rightarrow> bool" where
  "symbol_ok s = (c_string s \<and> s \<noteq> [] \<and> length s < MAX_SYMBOL_LENGTH)"

lemma copy_until_nul_symbol_ok:
  "symbol_ok s \<Longrightarrow> copy_until_nul 15 s = s"
  by (simp add: symbol_ok_def copy_until_nul_c_string)

lemma copy_first_symbol_ok:
  "symbol_ok s \<Longrightarrow> copy_until_nul (Suc 0) s \<noteq> []"
  by (simp add: symbol_ok_def copy_until_nul_c_string)

lemma msg_copy_symbol_Some: "0 < n \<Longrightarrow> msg_copy_symbol s n = Some (copy_until_nul (n - 1) s)"
  by (simp add: msg_copy_symbol_def asserts)

lemma make_ack_msg_ok:
  "symbol_ok s \<Longrightarrow> make_ack_msg s u i =
     Some (OUTPUT_MSG_ACK \<lparr>ack_user_id = u, ack_user_order_id = i, ack_symbol = s\<rparr>)"
  by (simp add: make_ack_msg_def msg_copy_symbol_def copy_until_nul_symbol_ok
        copy_first_symbol_ok asserts)

lemma make_cancel_ack_msg_ok:
  "symbol_ok s \<Longrightarrow> make_cancel_ack_msg s u i =
     Some (OUTPUT_MSG_CANCEL_ACK \<lparr>ca_user_id = u, ca_user_order_id = i, ca_symbol = s\<rparr>)"
  by (simp add: make_cancel_ack_msg_def msg_copy_symbol_def copy_until_nul_symbol_ok
        copy_first_symbol_ok asserts)

lemma make_trade_msg_ok:
  "symbol_ok s \<Longrightarrow> 0 < q \<Longrightarrow> make_trade_msg s ub ib us is p q =
     Some \<lparr>tr_user_id_buy = ub, tr_user_order_id_buy = ib, tr_user_id_sell = us,
           tr_user_order_id_sell = is, tr_price = p, tr_quantity = q,
           tr_buy_client_id = 0, tr_sell_client_id = 0, tr_symbol = s\<rparr>"
  by (simp add: make_trade_msg_def msg_copy_symbol_def copy_until_nul_symbol_ok asserts)

lemma make_top_of_book_msg_ok:
  "side_is_valid sd \<Longrightarrow> make_top_of_book_msg s sd p q =
     Some (OUTPUT_MSG_TOP_OF_BOOK \<lparr>tob_price = p, tob_total_quantity = q, tob_side = sd,
                                    tob_symbol = copy_until_nul 14 s\<rparr>)"
  by (simp add: make_top_of_book_msg_def msg_copy_symbol_def asserts)

lemma side_is_valid_simps [simp]: "side_is_valid SIDE_BUY" "side_is_valid SIDE_SELL"
  by (simp_all add: side_is_valid_def)

lemmas make_msg_ok = make_ack_msg_ok make_cancel_ack_msg_ok make_trade_msg_ok
  make_top_of_book_msg_ok

end
