(* ===== verification/ME_Order.thy ===== *)
theory ME_Order
  imports ME_Messages
begin

text \<open>
  \<^verbatim>\<open>include/core/order.h\<close>: the order structure and its operations.  An order lives in
  the memory pool, so a pointer to an order is \<open>None\<close> (\<^verbatim>\<open>NULL\<close>) or the index of its
  slot.  The timestamp that \<^verbatim>\<open>order_get_current_timestamp\<close> reads from the hardware clock
  is an argument of the operations that store it.
\<close>

type_synonym order_ptr = "nat option"

record order_t =
  o_user_id :: u32
  o_user_order_id :: u32
  o_price :: u32
  o_quantity :: u32
  o_remaining_qty :: u32
  o_side :: u8
  o_type :: u8
  o_client_id :: u32
  o_timestamp :: u64
  o_next :: order_ptr
  o_prev :: order_ptr

definition order_init :: "new_order_msg_t \<Rightarrow> u64 \<Rightarrow> order_t option" where
  "order_init msg timestamp = do {
     assert_that (no_quantity msg > 0);
     let order = \<lparr>o_user_id = no_user_id msg, o_user_order_id = no_user_order_id msg,
                  o_price = no_price msg, o_quantity = no_quantity msg,
                  o_remaining_qty = no_quantity msg, o_side = no_side msg,
                  o_type = (if no_price msg = 0 then ORDER_TYPE_MARKET else ORDER_TYPE_LIMIT),
                  o_client_id = 0, o_timestamp = timestamp, o_next = None, o_prev = None\<rparr>;
     assert_that (o_remaining_qty order = o_quantity order);
     assert_that ((o_type order = ORDER_TYPE_MARKET) = (o_price order = 0));
     Some order
   }"

definition order_is_filled :: "order_t \<Rightarrow> bool option" where
  "order_is_filled order = do {
     assert_that (o_remaining_qty order \<le> o_quantity order);
     Some (o_remaining_qty order = 0)
   }"

definition order_fill :: "order_t \<Rightarrow> u32 \<Rightarrow> (u32 \<times> order_t) option" where
  "order_fill order qty = do {
     assert_that (qty > 0);
     assert_that (o_remaining_qty order \<ge> qty);
     let prev_remaining = o_remaining_qty order;
     let filled = (if qty < o_remaining_qty order then qty else o_remaining_qty order);
     let order' = order\<lparr>o_remaining_qty := o_remaining_qty order - filled\<rparr>;
     assert_that (o_remaining_qty order' = prev_remaining - filled);
     Some (filled, order')
   }"

definition order_get_priority :: "order_t \<Rightarrow> bool \<Rightarrow> int option" where
  "order_get_priority order is_bid = do {
     assert_that (o_type order = ORDER_TYPE_MARKET \<or> o_price order > 0);
     Some (if is_bid then - uint (o_price order) else uint (o_price order))
   }"

subsection \<open>Facts\<close>

text \<open>The payload of an order: what it says, without its place in a list.\<close>

definition strip :: "order_t \<Rightarrow> order_t" where
  "strip ord = ord\<lparr>o_next := None, o_prev := None\<rparr>"

lemma strip_simps [simp]:
  "o_user_id (strip ord) = o_user_id ord" "o_user_order_id (strip ord) = o_user_order_id ord"
  "o_price (strip ord) = o_price ord" "o_quantity (strip ord) = o_quantity ord"
  "o_remaining_qty (strip ord) = o_remaining_qty ord" "o_side (strip ord) = o_side ord"
  "o_type (strip ord) = o_type ord" "o_client_id (strip ord) = o_client_id ord"
  "o_timestamp (strip ord) = o_timestamp ord" "o_next (strip ord) = None" "o_prev (strip ord) = None"
  "strip (strip ord) = strip ord" "strip (ord\<lparr>o_next := p\<rparr>) = strip ord"
  "strip (ord\<lparr>o_prev := p\<rparr>) = strip ord"
  by (simp_all add: strip_def)

lemma strip_remaining [simp]:
  "strip (ord\<lparr>o_remaining_qty := q\<rparr>) = (strip ord)\<lparr>o_remaining_qty := q\<rparr>"
  by (simp add: strip_def)

definition order_of_msg :: "new_order_msg_t \<Rightarrow> u32 \<Rightarrow> u64 \<Rightarrow> order_t" where
  "order_of_msg msg client_id timestamp =
     \<lparr>o_user_id = no_user_id msg, o_user_order_id = no_user_order_id msg,
      o_price = no_price msg, o_quantity = no_quantity msg,
      o_remaining_qty = no_quantity msg, o_side = no_side msg,
      o_type = (if no_price msg = 0 then ORDER_TYPE_MARKET else ORDER_TYPE_LIMIT),
      o_client_id = client_id, o_timestamp = timestamp, o_next = None, o_prev = None\<rparr>"

lemma order_of_msg_simps [simp]:
  "o_user_id (order_of_msg m c t) = no_user_id m"
  "o_user_order_id (order_of_msg m c t) = no_user_order_id m"
  "o_price (order_of_msg m c t) = no_price m"
  "o_quantity (order_of_msg m c t) = no_quantity m"
  "o_remaining_qty (order_of_msg m c t) = no_quantity m"
  "o_side (order_of_msg m c t) = no_side m"
  "o_client_id (order_of_msg m c t) = c"
  "o_type (order_of_msg m c t) = (if no_price m = 0 then ORDER_TYPE_MARKET else ORDER_TYPE_LIMIT)"
  "strip (order_of_msg m c t) = order_of_msg m c t"
  by (simp_all add: order_of_msg_def strip_def)

lemma order_init_ok:
  "0 < no_quantity msg \<Longrightarrow> \<exists>ord. order_init msg t = Some ord \<and>
     ord\<lparr>o_client_id := c\<rparr> = order_of_msg msg c t"
  by (simp add: order_init_def order_of_msg_def asserts)

lemma order_fill_ok:
  "0 < q \<Longrightarrow> q \<le> o_remaining_qty ord \<Longrightarrow>
     order_fill ord q = Some (q, ord\<lparr>o_remaining_qty := o_remaining_qty ord - q\<rparr>)"
  by (auto simp: order_fill_def asserts)

lemma order_fill_bounds:
  assumes "order_fill ord q = Some (f, ord')"
  shows "f = q \<and> unat (o_remaining_qty ord') + unat q = unat (o_remaining_qty ord)
         \<and> o_quantity ord' = o_quantity ord"
proof -
  have "0 < q" and le: "q \<le> o_remaining_qty ord"
    using assms by (auto simp: order_fill_def asserts split: if_splits)
  with assms have "f = q" "ord' = ord\<lparr>o_remaining_qty := o_remaining_qty ord - q\<rparr>"
    by (auto simp: order_fill_ok)
  with le show ?thesis by (simp add: unat_sub word_le_nat_alt)
qed

text \<open>
  Between two orders of one side, the smaller priority value is the better price: the
  higher price for bids, the lower price for asks.
\<close>

lemma order_priority_order:
  assumes "order_get_priority a is_bid = Some x" and "order_get_priority b is_bid = Some y"
  shows "x < y \<longleftrightarrow> (if is_bid then o_price a > o_price b else o_price a < o_price b)"
  using assms by (auto simp: order_get_priority_def asserts word_less_def split: if_splits)

end
