(* ===== verification/ME_Open_Addressing.thy ===== *)
theory ME_Open_Addressing
  imports ME_Prelude
begin

text \<open>
  Linear probing with a bounded probe sequence, the scheme of the three hash tables of
  the engine (\<^verbatim>\<open>order_map_t\<close>, \<^verbatim>\<open>order_symbol_map_t\<close>, \<^verbatim>\<open>symbol_map_t\<close>).  The two loops are
  given here for any slot type: \<open>oa_find\<close> stops at the key or at a slot that was never
  used, \<open>oa_place\<close> stops at the key or at a slot that can be reused.  The locale
  \<open>open_table\<close> holds the facts about them that the tables share, and \<open>bounded_map\<close> is
  the contract the tables offer their clients.
\<close>

definition oa_find ::
  "('s \<Rightarrow> 'k) \<Rightarrow> 'k \<Rightarrow> ('k \<Rightarrow> nat \<Rightarrow> nat) \<Rightarrow> nat \<Rightarrow> (nat \<Rightarrow> 's) \<Rightarrow> 'k \<Rightarrow> nat option" where
  "oa_find key never probe maxp slots k =
     (case for_return maxp 0 (\<lambda>i.
             if key (slots (probe k i)) = k then Some (Some (probe k i))
             else if key (slots (probe k i)) = never then Some None
             else None)
      of Some r \<Rightarrow> r | None \<Rightarrow> None)"

definition oa_place ::
  "('s \<Rightarrow> 'k) \<Rightarrow> ('k \<Rightarrow> bool) \<Rightarrow> ('k \<Rightarrow> nat \<Rightarrow> nat) \<Rightarrow> nat \<Rightarrow> (nat \<Rightarrow> 's) \<Rightarrow> 'k \<Rightarrow> nat option" where
  "oa_place key free probe maxp slots k =
     for_return maxp 0 (\<lambda>i.
       if free (key (slots (probe k i))) \<or> key (slots (probe k i)) = k
       then Some (probe k i) else None)"

text \<open>
  Every key in the table is found by its own probe sequence, with no never-used slot on
  the way; and no key is stored twice.
\<close>

definition oa_reach ::
  "('s \<Rightarrow> 'k) \<Rightarrow> 'k \<Rightarrow> ('k \<Rightarrow> bool) \<Rightarrow> ('k \<Rightarrow> nat \<Rightarrow> nat) \<Rightarrow> nat \<Rightarrow> nat \<Rightarrow> (nat \<Rightarrow> 's) \<Rightarrow> bool" where
  "oa_reach key never free probe maxp nslots slots \<longleftrightarrow>
     (\<forall>idx < nslots. \<not> free (key (slots idx)) \<longrightarrow>
        (\<exists>i<maxp. idx = probe (key (slots idx)) i \<and>
           (\<forall>j<i. key (slots (probe (key (slots idx)) j)) \<noteq> never)))"

definition oa_unique :: "('s \<Rightarrow> 'k) \<Rightarrow> ('k \<Rightarrow> bool) \<Rightarrow> nat \<Rightarrow> (nat \<Rightarrow> 's) \<Rightarrow> bool" where
  "oa_unique key free nslots slots \<longleftrightarrow>
     (\<forall>i < nslots. \<forall>j < nslots. \<not> free (key (slots i)) \<and> key (slots i) = key (slots j) \<longrightarrow> i = j)"

definition oa_live :: "('s \<Rightarrow> 'k) \<Rightarrow> ('k \<Rightarrow> bool) \<Rightarrow> nat \<Rightarrow> (nat \<Rightarrow> 's) \<Rightarrow> nat set" where
  "oa_live key free nslots slots = {i. i < nslots \<and> \<not> free (key (slots i))}"

subsection \<open>Facts about probing\<close>

locale open_table =
  fixes key :: "'s \<Rightarrow> 'k"
    and never :: 'k
    and free :: "'k \<Rightarrow> bool"
    and probe :: "'k \<Rightarrow> nat \<Rightarrow> nat"
    and maxp nslots :: nat
  assumes probe_bound: "probe k i < nslots"
    and free_never: "free never"
begin

abbreviation find where "find \<equiv> oa_find key never probe maxp"
abbreviation place where "place \<equiv> oa_place key free probe maxp"
abbreviation reach where "reach \<equiv> oa_reach key never free probe maxp nslots"
abbreviation unique where "unique \<equiv> oa_unique key free nslots"
abbreviation live where "live \<equiv> oa_live key free nslots"

lemma find_Some:
  "find slots k = Some idx \<longleftrightarrow>
     (\<exists>i<maxp. idx = probe k i \<and> key (slots idx) = k \<and>
        (\<forall>j<i. key (slots (probe k j)) \<noteq> k \<and> key (slots (probe k j)) \<noteq> never))"
proof -
  let ?body = "\<lambda>i. if key (slots (probe k i)) = k then Some (Some (probe k i))
                   else if key (slots (probe k i)) = never then Some None else None"
  have "find slots k = Some idx \<longleftrightarrow> for_return maxp 0 ?body = Some (Some idx)"
    by (auto simp: oa_find_def split: option.splits)
  also have "\<dots> \<longleftrightarrow> (\<exists>i<maxp. ?body i = Some (Some idx) \<and> (\<forall>j<i. ?body j = None))"
    by (simp add: for_return_Some)
  also have "\<dots> \<longleftrightarrow> (\<exists>i<maxp. idx = probe k i \<and> key (slots idx) = k \<and>
        (\<forall>j<i. key (slots (probe k j)) \<noteq> k \<and> key (slots (probe k j)) \<noteq> never))"
  proof -
    have "?body i = Some (Some idx) \<longleftrightarrow> idx = probe k i \<and> key (slots idx) = k" for i by auto
    moreover have "?body j = None \<longleftrightarrow> key (slots (probe k j)) \<noteq> k \<and> key (slots (probe k j)) \<noteq> never" for j
      by simp
    ultimately show ?thesis by (simp only: conj_assoc)
  qed
  finally show ?thesis .
qed

lemma place_Some:
  "place slots k = Some idx \<longleftrightarrow>
     (\<exists>i<maxp. idx = probe k i \<and> (free (key (slots idx)) \<or> key (slots idx) = k) \<and>
        (\<forall>j<i. \<not> free (key (slots (probe k j))) \<and> key (slots (probe k j)) \<noteq> k))"
proof -
  let ?body = "\<lambda>i. if free (key (slots (probe k i))) \<or> key (slots (probe k i)) = k
                   then Some (probe k i) else None"
  have "?body i = Some idx \<longleftrightarrow> idx = probe k i \<and> (free (key (slots idx)) \<or> key (slots idx) = k)" for i
    by auto
  moreover have "?body j = None \<longleftrightarrow> \<not> free (key (slots (probe k j))) \<and> key (slots (probe k j)) \<noteq> k" for j
    by simp
  moreover have "place slots k = Some idx \<longleftrightarrow> (\<exists>i<maxp. ?body i = Some idx \<and> (\<forall>j<i. ?body j = None))"
    by (simp add: oa_place_def for_return_Some)
  ultimately show ?thesis by (simp only: conj_assoc)
qed

lemma find_bound: "find slots k = Some idx \<Longrightarrow> idx < nslots"
  by (auto simp: find_Some probe_bound)

lemma find_key: "find slots k = Some idx \<Longrightarrow> key (slots idx) = k"
  by (auto simp: find_Some)

lemma place_bound: "place slots k = Some idx \<Longrightarrow> idx < nslots"
  by (auto simp: place_Some probe_bound)

lemma find_complete:
  assumes "reach slots" and "idx < nslots" and "key (slots idx) = k" and "\<not> free k"
  shows "\<exists>idx'. find slots k = Some idx'"
proof -
  obtain i where i: "i < maxp" "idx = probe k i" "\<forall>j<i. key (slots (probe k j)) \<noteq> never"
    using assms by (auto simp: oa_reach_def)
  define m where "m = (LEAST m. key (slots (probe k m)) = k)"
  have m: "key (slots (probe k m)) = k" "m \<le> i"
    using i assms(3) by (auto simp: m_def intro: LeastI Least_le)
  moreover have "\<forall>j<m. key (slots (probe k j)) \<noteq> k"
    unfolding m_def using not_less_Least by blast
  moreover have "\<forall>j<m. key (slots (probe k j)) \<noteq> never"
    using i(3) m(2) by auto
  ultimately show ?thesis
    using i(1) by (auto simp: find_Some intro!: exI [of _ m])
qed

lemma find_None:
  assumes "reach slots" and "\<not> free k"
  shows "find slots k = None \<longleftrightarrow> (\<forall>idx < nslots. key (slots idx) \<noteq> k)"
  using find_complete [OF assms(1) _ _ assms(2)] find_key find_bound
  by (metis not_Some_eq)

lemma find_unique:
  assumes "reach slots" and "unique slots" and "\<not> free k"
  shows "find slots k = Some idx \<longleftrightarrow> idx < nslots \<and> key (slots idx) = k"
proof
  assume r: "idx < nslots \<and> key (slots idx) = k"
  then obtain idx' where f: "find slots k = Some idx'"
    using find_complete [OF assms(1) _ _ assms(3)] by blast
  with r find_bound [OF f] find_key [OF f] assms(2,3) have "idx = idx'"
    by (auto simp: oa_unique_def)
  with f show "find slots k = Some idx" by simp
qed (auto intro: find_bound find_key)

subsubsection \<open>Writing a slot\<close>

text \<open>Storing a live key where \<open>place\<close> says keeps every key reachable.\<close>

lemma reach_place:
  assumes r: "reach slots" and p: "place slots k = Some idx" and k: "key s = k" "\<not> free k"
  shows "reach (slots(idx := s))"
  unfolding oa_reach_def
proof (intro allI impI)
  fix m
  assume m: "m < nslots" "\<not> free (key ((slots(idx := s)) m))"
  have ne: "k \<noteq> never" using k free_never by auto
  show "\<exists>i<maxp. m = probe (key ((slots(idx := s)) m)) i \<and>
          (\<forall>j<i. key ((slots(idx := s)) (probe (key ((slots(idx := s)) m)) j)) \<noteq> never)"
  proof (cases "m = idx")
    case True
    obtain i where "i < maxp" "idx = probe k i" "\<forall>j<i. \<not> free (key (slots (probe k j)))"
      using p by (auto simp: place_Some)
    with True k ne free_never show ?thesis by (auto intro!: exI [of _ i])
  next
    case False
    with m r obtain i where "i < maxp" "m = probe (key (slots m)) i"
      "\<forall>j<i. key (slots (probe (key (slots m)) j)) \<noteq> never"
      by (auto simp: oa_reach_def)
    with False k ne show ?thesis by (auto intro!: exI [of _ i])
  qed
qed

text \<open>Turning a slot into a tombstone, a reusable key other than \<open>never\<close>, does too.\<close>

lemma reach_tomb:
  assumes r: "reach slots" and s: "free (key s)" "key s \<noteq> never"
  shows "reach (slots(idx := s))"
  using r s unfolding oa_reach_def by (smt (verit) fun_upd_apply)

text \<open>Neither changes what the search for another key gives.\<close>

lemma find_write_other:
  assumes r: "reach slots" and r': "reach (slots(idx := s))"
    and k': "\<not> free k'" "key s \<noteq> k'" "key (slots idx) \<noteq> k'" "key s \<noteq> never"
  shows "find (slots(idx := s)) k' = find slots k'"
proof (cases "find slots k'")
  case None
  with k' have "find (slots(idx := s)) k' = None"
    by (simp add: find_None [OF r] find_None [OF r'])
  with None show ?thesis by simp
next
  case (Some j)
  then obtain i where "i < maxp" "j = probe k' i" "key (slots j) = k'"
    "\<forall>q<i. key (slots (probe k' q)) \<noteq> k' \<and> key (slots (probe k' q)) \<noteq> never"
    by (auto simp: find_Some)
  with k' have "find (slots(idx := s)) k' = Some j"
    by (auto simp: find_Some intro!: exI [of _ i])
  with Some show ?thesis by simp
qed

lemma find_place_same:
  assumes p: "place slots k = Some idx" and k: "key s = k" "\<not> free k"
  shows "find (slots(idx := s)) k = Some idx"
proof -
  obtain i where i: "i < maxp" "probe k i = idx"
      and before: "\<forall>j<i. \<not> free (key (slots (probe k j))) \<and> key (slots (probe k j)) \<noteq> k"
    using p by (auto simp: place_Some)
  define m where "m = (LEAST m. probe k m = idx)"
  have m: "probe k m = idx" "m \<le> i"
    using i(2) by (auto simp: m_def intro: LeastI Least_le)
  have "probe k j \<noteq> idx" if "j < m" for j
    using that not_less_Least unfolding m_def by blast
  with before m(2) have "\<forall>j<m. key ((slots(idx := s)) (probe k j)) \<noteq> k
                             \<and> key ((slots(idx := s)) (probe k j)) \<noteq> never"
    using free_never by fastforce
  with m(1) i(1) m(2) k(1) show ?thesis
    by (auto simp: find_Some intro!: exI [of _ m])
qed

lemma find_place:
  assumes "reach slots" and "place slots k = Some idx" and "key s = k" and "\<not> free k" and "\<not> free k'"
  shows "find (slots(idx := s)) k' = (if k' = k then Some idx else find slots k')"
proof (cases "k' = k")
  case True
  with assms find_place_same show ?thesis by simp
next
  case False
  have "key (slots idx) \<noteq> k'"
    using assms(2,5) False by (auto simp: place_Some)
  moreover have "key s \<noteq> never"
    using assms(3,4) free_never by auto
  ultimately show ?thesis
    using False assms find_write_other [OF assms(1) reach_place [OF assms(1-4)] assms(5)] by simp
qed

lemma unique_place:
  assumes "reach slots" "unique slots" and "place slots k = Some idx" and "key s = k" and "\<not> free k"
    and "find slots k = None"
  shows "unique (slots(idx := s))"
  using assms(2,4,5) find_None [OF assms(1,5)] assms(6) unfolding oa_unique_def
  by (smt (verit) fun_upd_apply)

lemma unique_tomb: "unique slots \<Longrightarrow> free (key s) \<Longrightarrow> unique (slots(idx := s))"
  unfolding oa_unique_def by (smt (verit) fun_upd_apply)

lemma find_tomb:
  assumes "reach slots" "unique slots" and f: "find slots k = Some idx" and k: "\<not> free k" "\<not> free k'"
    and s: "free (key s)" "key s \<noteq> never"
  shows "find (slots(idx := s)) k' = (if k' = k then None else find slots k')"
proof (cases "k' = k")
  case True
  have r: "reach (slots(idx := s))" using assms(1) s by (rule reach_tomb)
  have "m = idx" if "m < nslots" "key (slots m) = k" for m
    using find_unique [OF assms(1,2) k(1), of m] f that by simp
  then have "\<forall>m < nslots. key ((slots(idx := s)) m) \<noteq> k"
    using k(1) s(1) by auto
  with True k show ?thesis by (simp add: find_None [OF r])
next
  case False
  have "key s \<noteq> k'" using s k by auto
  moreover have "key (slots idx) \<noteq> k'" using find_key [OF f] False by simp
  ultimately have "find (slots(idx := s)) k' = find slots k'"
    using s(2) by (intro find_write_other [OF assms(1) reach_tomb [OF assms(1) s] k(2)])
  with False show ?thesis by simp
qed

text \<open>The slots that hold keys.\<close>

lemma live_finite: "finite (live slots)"
  by (simp add: oa_live_def)

lemma card_live: "card (live slots) \<le> nslots"
  using card_mono [of "{..<nslots}" "live slots"] by (auto simp: oa_live_def)

lemma live_write:
  "idx < nslots \<Longrightarrow> live (slots(idx := s)) = (if free (key s) then live slots - {idx} else insert idx (live slots))"
  by (auto simp: oa_live_def)

text \<open>A search succeeds in placing a key as long as its window has a reusable slot.\<close>

lemma place_None:
  "place slots k = None \<longleftrightarrow>
     (\<forall>i<maxp. \<not> free (key (slots (probe k i))) \<and> key (slots (probe k i)) \<noteq> k)"
  by (auto simp: oa_place_def for_return_None)

lemma place_room:
  "i < maxp \<Longrightarrow> free (key (slots (probe k i))) \<Longrightarrow> \<exists>idx. place slots k = Some idx"
  using place_None [of slots k] by (cases "place slots k") auto

lemma place_absent:
  "reach slots \<Longrightarrow> find slots k = None \<Longrightarrow> \<not> free k \<Longrightarrow> place slots k = Some idx \<Longrightarrow> free (key (slots idx))"
  by (auto simp: place_Some find_None probe_bound)

end

subsection \<open>The contract of a bounded map\<close>

text \<open>
  A map that may refuse a key: \<open>room\<close> says when it does not.  Operations abort
  (\<open>None\<close>) only outside the contract.
\<close>

locale bounded_map =
  fixes ins :: "'m \<Rightarrow> 'k \<Rightarrow> 'v \<Rightarrow> (bool \<times> 'm) option"
    and del :: "'m \<Rightarrow> 'k \<Rightarrow> (bool \<times> 'm) option"
    and get :: "'m \<Rightarrow> 'k \<Rightarrow> 'v option option"
    and alpha :: "'m \<Rightarrow> 'k \<rightharpoonup> 'v"
    and invar :: "'m \<Rightarrow> bool"
    and valid :: "'k \<Rightarrow> bool"
    and room :: "'m \<Rightarrow> 'k \<Rightarrow> bool"
  assumes get_alpha: "invar m \<Longrightarrow> valid k \<Longrightarrow> get m k = Some (alpha m k)"
    and ins_room: "invar m \<Longrightarrow> valid k \<Longrightarrow> alpha m k = None \<Longrightarrow> room m k \<Longrightarrow>
          \<exists>m'. ins m k v = Some (True, m') \<and> invar m' \<and> alpha m' = (alpha m)(k \<mapsto> v)"
    and ins_full: "invar m \<Longrightarrow> valid k \<Longrightarrow> alpha m k = None \<Longrightarrow> \<not> room m k \<Longrightarrow> ins m k v = Some (False, m)"
    and del_alpha: "invar m \<Longrightarrow> valid k \<Longrightarrow>
          \<exists>m'. del m k = Some (alpha m k \<noteq> None, m') \<and> invar m' \<and> alpha m' = (alpha m)(k := None)
            \<and> (\<forall>k'. room m k' \<longrightarrow> room m' k')"
begin

lemma get_after_ins:
  assumes "invar m" "valid k" "alpha m k = None" "ins m k v = Some (True, m')" "valid k'"
  shows "get m' k' = Some (if k' = k then Some v else alpha m k')"
proof (cases "room m k")
  case True
  with ins_room [OF assms(1-3) True, of v] assms(4)
  have "invar m'" "alpha m' = (alpha m)(k \<mapsto> v)" by auto
  with assms(5) show ?thesis by (simp add: get_alpha)
next
  case False
  with ins_full [OF assms(1-3), of v] assms(4) show ?thesis by simp
qed

lemma get_after_del:
  assumes "invar m" "valid k" "del m k = Some (b, m')" "valid k'"
  shows "get m' k' = Some (if k' = k then None else alpha m k') \<and> (b \<longleftrightarrow> alpha m k \<noteq> None)"
  using del_alpha [OF assms(1,2)] assms(3,4) get_alpha by auto

text \<open>Inserting a new key and removing it again gives the map before.\<close>

lemma ins_del:
  assumes "invar m" "valid k" "alpha m k = None" "ins m k v = Some (True, m')"
  shows "\<exists>m''. del m' k = Some (True, m'') \<and> invar m'' \<and> alpha m'' = alpha m"
proof -
  have "invar m'" "alpha m' = (alpha m)(k \<mapsto> v)"
    using ins_room [OF assms(1-3), of v] ins_full [OF assms(1-3), of v] assms(4) by force+
  then show ?thesis
    using del_alpha [of m' k] assms(2,3) by (auto simp: fun_upd_idem)
qed

end

end
