(* ===== verification/ME_Order_Map.thy ===== *)
theory ME_Order_Map
  imports ME_Order ME_Open_Addressing
begin

text \<open>
  The order map of a book (\<^verbatim>\<open>order_map_t\<close> in \<^verbatim>\<open>include/core/order_book.h\<close>, its operations
  in \<^verbatim>\<open>src/core/order_book.c\<close>): from the key made of user and order id to the place of
  the order.  It satisfies the contract \<open>bounded_map\<close>.
\<close>

abbreviation ORDER_MAP_SIZE :: nat where
  "ORDER_MAP_SIZE \<equiv> 16384"

abbreviation ORDER_MAP_MASK :: "'a::len word" where
  "ORDER_MAP_MASK \<equiv> 16383"

abbreviation MAX_PROBE_LENGTH :: nat where
  "MAX_PROBE_LENGTH \<equiv> 128"

abbreviation HASH_SLOT_EMPTY :: u64 where
  "HASH_SLOT_EMPTY \<equiv> 0"

abbreviation HASH_SLOT_TOMBSTONE :: u64 where
  "HASH_SLOT_TOMBSTONE \<equiv> 0xFFFFFFFFFFFFFFFF"

record order_location_t =
  loc_side :: u8
  loc_price :: u32
  loc_order_ptr :: order_ptr

record order_map_slot_t =
  s_key :: u64
  s_location :: order_location_t

record order_map_t =
  m_slots :: "nat \<Rightarrow> order_map_slot_t"
  m_count :: u32
  m_tombstone_count :: u32

subsection \<open>Keys and hashing\<close>

definition make_order_key :: "u32 \<Rightarrow> u32 \<Rightarrow> u64 option" where
  "make_order_key user_id user_order_id = do {
     assert_that (user_id \<noteq> 0 \<or> user_order_id \<noteq> 0);
     let key = push_bit 32 (ucast user_id) OR ucast user_order_id;
     assert_that (key \<noteq> HASH_SLOT_TOMBSTONE);
     Some key
   }"

text \<open>The mixing steps \<open>hash_order_key\<close> shares with \<^verbatim>\<open>me_hash_order_key\<close> of the engine.\<close>

definition mix_order_key :: "u64 \<Rightarrow> u64" where
  "mix_order_key key =
     (let k1 = key XOR drop_bit 33 key;
          k2 = k1 * 0x9E3779B97F4A7C15
      in k2 XOR drop_bit 29 k2)"

definition hash_order_key :: "u64 \<Rightarrow> u32 option" where
  "hash_order_key key = do {
     assert_that (key \<noteq> HASH_SLOT_EMPTY);
     assert_that (key \<noteq> HASH_SLOT_TOMBSTONE);
     Some (ucast (mix_order_key key AND ORDER_MAP_MASK))
   }"

definition order_map_index :: "u32 \<Rightarrow> nat \<Rightarrow> nat" where
  "order_map_index hash i = unat ((hash + of_nat i) AND ORDER_MAP_MASK)"

subsection \<open>Operations\<close>

definition empty_location :: order_location_t where
  "empty_location = \<lparr>loc_side = 0, loc_price = 0, loc_order_ptr = None\<rparr>"

definition order_map_clear :: "order_map_t \<Rightarrow> order_map_t" where
  "order_map_clear mp = mp\<lparr>
     m_slots := (\<lambda>_. \<lparr>s_key = HASH_SLOT_EMPTY, s_location = empty_location\<rparr>),
     m_count := 0, m_tombstone_count := 0\<rparr>"

definition order_map_init :: "order_map_t \<Rightarrow> order_map_t" where
  "order_map_init mp = mp\<lparr>
     m_slots := (\<lambda>_. \<lparr>s_key = HASH_SLOT_EMPTY, s_location = empty_location\<rparr>),
     m_count := 0, m_tombstone_count := 0\<rparr>"

definition order_map_insert ::
  "order_map_t \<Rightarrow> u64 \<Rightarrow> order_location_t \<Rightarrow> (bool \<times> order_map_t) option" where
  "order_map_insert mp key location = do {
     assert_that (key \<noteq> HASH_SLOT_EMPTY);
     assert_that (key \<noteq> HASH_SLOT_TOMBSTONE);
     hash \<leftarrow> hash_order_key key;
     Some (case for_return MAX_PROBE_LENGTH 0 (\<lambda>i.
             let idx = order_map_index hash i; slot = m_slots mp idx in
             if s_key slot = HASH_SLOT_EMPTY \<or> s_key slot = HASH_SLOT_TOMBSTONE then
               Some (True, mp\<lparr>
                 m_tombstone_count := (if s_key slot = HASH_SLOT_TOMBSTONE
                                       then m_tombstone_count mp - 1 else m_tombstone_count mp),
                 m_slots := (m_slots mp)(idx := slot\<lparr>s_key := key, s_location := location\<rparr>),
                 m_count := m_count mp + 1\<rparr>)
             else if s_key slot = key then
               Some (True, mp\<lparr>m_slots := (m_slots mp)(idx := slot\<lparr>s_location := location\<rparr>)\<rparr>)
             else None)
           of Some r \<Rightarrow> r | None \<Rightarrow> (False, mp))
   }"

text \<open>The inner \<open>option\<close> is the slot, \<open>None\<close> for the returned \<^verbatim>\<open>NULL\<close>.\<close>

definition order_map_find :: "order_map_t \<Rightarrow> u64 \<Rightarrow> nat option option" where
  "order_map_find mp key = do {
     assert_that (m_count mp \<le> of_nat ORDER_MAP_SIZE);
     if key = HASH_SLOT_EMPTY \<or> key = HASH_SLOT_TOMBSTONE then Some None
     else do {
       hash \<leftarrow> hash_order_key key;
       Some (case for_return MAX_PROBE_LENGTH 0 (\<lambda>i.
               let idx = order_map_index hash i; slot = m_slots mp idx in
               if s_key slot = key then Some (Some idx)
               else if s_key slot = HASH_SLOT_EMPTY then Some None
               else None)
             of Some r \<Rightarrow> r | None \<Rightarrow> None)
     }
   }"

definition order_map_remove :: "order_map_t \<Rightarrow> u64 \<Rightarrow> (bool \<times> order_map_t) option" where
  "order_map_remove mp key = do {
     assert_that (m_count mp \<le> of_nat ORDER_MAP_SIZE);
     slot \<leftarrow> order_map_find mp key;
     Some (case slot of
             Some idx \<Rightarrow> (True, mp\<lparr>
               m_slots := (m_slots mp)(idx := (m_slots mp idx)\<lparr>s_key := HASH_SLOT_TOMBSTONE\<rparr>),
               m_count := m_count mp - 1,
               m_tombstone_count := m_tombstone_count mp + 1\<rparr>)
           | None \<Rightarrow> (False, mp))
   }"

subsection \<open>Invariant and meaning\<close>

definition key_free :: "u64 \<Rightarrow> bool" where
  "key_free k = (k = HASH_SLOT_EMPTY \<or> k = HASH_SLOT_TOMBSTONE)"

definition order_map_probe :: "u64 \<Rightarrow> nat \<Rightarrow> nat" where
  "order_map_probe key i = order_map_index (ucast (mix_order_key key AND ORDER_MAP_MASK)) i"

definition order_map_ok :: "order_map_t \<Rightarrow> bool" where
  "order_map_ok mp \<longleftrightarrow>
     oa_reach s_key HASH_SLOT_EMPTY key_free order_map_probe MAX_PROBE_LENGTH ORDER_MAP_SIZE (m_slots mp)
     \<and> oa_unique s_key key_free ORDER_MAP_SIZE (m_slots mp)
     \<and> m_count mp = of_nat (card (oa_live s_key key_free ORDER_MAP_SIZE (m_slots mp)))
     \<and> m_tombstone_count mp
         = of_nat (card {i. i < ORDER_MAP_SIZE \<and> s_key (m_slots mp i) = HASH_SLOT_TOMBSTONE})"

definition order_map_lookup :: "order_map_t \<Rightarrow> u64 \<rightharpoonup> order_location_t" where
  "order_map_lookup mp k =
     (if key_free k then None
      else map_option (\<lambda>idx. s_location (m_slots mp idx))
             (oa_find s_key HASH_SLOT_EMPTY order_map_probe MAX_PROBE_LENGTH (m_slots mp) k))"

definition order_map_room :: "order_map_t \<Rightarrow> u64 \<Rightarrow> bool" where
  "order_map_room mp key = list_ex (\<lambda>i. key_free (s_key (m_slots mp (order_map_probe key i)))) [0..<MAX_PROBE_LENGTH]"

definition order_map_get :: "order_map_t \<Rightarrow> u64 \<Rightarrow> order_location_t option option" where
  "order_map_get mp key = do {
     slot \<leftarrow> order_map_find mp key;
     Some (map_option (\<lambda>idx. s_location (m_slots mp idx)) slot)
   }"

subsection \<open>The probe sequence stays inside the table\<close>

lemma and_mask_14: "x AND ORDER_MAP_MASK = x AND mask 14" for x :: "'a::len word"
  by (simp add: mask_eq_exp_minus_1)

lemma order_map_probe_bound: "order_map_probe key i < ORDER_MAP_SIZE"
  unfolding order_map_probe_def order_map_index_def and_mask_14 unat_and_mask by simp

interpretation om: open_table s_key HASH_SLOT_EMPTY key_free order_map_probe MAX_PROBE_LENGTH ORDER_MAP_SIZE
  by unfold_locales (simp_all add: order_map_probe_bound key_free_def)

lemma om_never_tomb: "HASH_SLOT_TOMBSTONE \<noteq> HASH_SLOT_EMPTY"
  by simp

lemma not_key_free: "\<not> key_free k \<longleftrightarrow> k \<noteq> HASH_SLOT_EMPTY \<and> k \<noteq> HASH_SLOT_TOMBSTONE"
  by (simp add: key_free_def)

lemma key_free_simps [simp]: "key_free HASH_SLOT_EMPTY" "key_free HASH_SLOT_TOMBSTONE"
  by (simp_all add: key_free_def)

subsection \<open>The operations in terms of the probing loops\<close>

lemma order_map_find_eq:
  assumes "\<not> key_free k"
  shows "order_map_find mp k = (if m_count mp \<le> of_nat ORDER_MAP_SIZE
           then Some (om.find (m_slots mp) k) else None)"
  using assms unfolding oa_find_def order_map_probe_def
  by (simp add: order_map_find_def asserts not_key_free hash_order_key_def Let_def)

definition order_map_write :: "order_map_t \<Rightarrow> u64 \<Rightarrow> order_location_t \<Rightarrow> nat \<Rightarrow> order_map_t" where
  "order_map_write mp key location idx =
     (let slot = m_slots mp idx in
      if key_free (s_key slot) then mp\<lparr>
         m_tombstone_count := (if s_key slot = HASH_SLOT_TOMBSTONE
                               then m_tombstone_count mp - 1 else m_tombstone_count mp),
         m_slots := (m_slots mp)(idx := slot\<lparr>s_key := key, s_location := location\<rparr>),
         m_count := m_count mp + 1\<rparr>
      else mp\<lparr>m_slots := (m_slots mp)(idx := slot\<lparr>s_location := location\<rparr>)\<rparr>)"

lemma order_map_insert_eq:
  assumes "\<not> key_free k"
  shows "order_map_insert mp k loc =
           Some (case om.place (m_slots mp) k of
                   Some idx \<Rightarrow> (True, order_map_write mp k loc idx) | None \<Rightarrow> (False, mp))"
proof -
  let ?h = "ucast (mix_order_key k AND ORDER_MAP_MASK) :: u32"
  let ?f = "\<lambda>i. if key_free (s_key (m_slots mp (order_map_probe k i))) \<or>
                     s_key (m_slots mp (order_map_probe k i)) = k
                  then Some (order_map_probe k i) else None"
  have "(\<lambda>i. let idx = order_map_index ?h i; slot = m_slots mp idx in
             if s_key slot = HASH_SLOT_EMPTY \<or> s_key slot = HASH_SLOT_TOMBSTONE then
               Some (True, mp\<lparr>
                 m_tombstone_count := (if s_key slot = HASH_SLOT_TOMBSTONE
                                       then m_tombstone_count mp - 1 else m_tombstone_count mp),
                 m_slots := (m_slots mp)(idx := slot\<lparr>s_key := k, s_location := loc\<rparr>),
                 m_count := m_count mp + 1\<rparr>)
             else if s_key slot = k then
               Some (True, mp\<lparr>m_slots := (m_slots mp)(idx := slot\<lparr>s_location := loc\<rparr>)\<rparr>)
             else None)
        = (\<lambda>i. map_option (\<lambda>idx. (True, order_map_write mp k loc idx)) (?f i))"
    by (auto simp: fun_eq_iff Let_def order_map_write_def key_free_def order_map_probe_def)
  with assms show ?thesis
    by (auto simp: order_map_insert_def asserts not_key_free hash_order_key_def for_return_map
          oa_place_def split: option.splits)
qed

lemma order_map_remove_eq:
  assumes "\<not> key_free k" and "m_count mp \<le> of_nat ORDER_MAP_SIZE"
  shows "order_map_remove mp k =
     Some (case om.find (m_slots mp) k of
             Some idx \<Rightarrow> (True, mp\<lparr>
               m_slots := (m_slots mp)(idx := (m_slots mp idx)\<lparr>s_key := HASH_SLOT_TOMBSTONE\<rparr>),
               m_count := m_count mp - 1,
               m_tombstone_count := m_tombstone_count mp + 1\<rparr>)
           | None \<Rightarrow> (False, mp))"
  using assms by (simp add: order_map_remove_def asserts order_map_find_eq)

subsection \<open>Counting\<close>

lemma count_bound: "order_map_ok mp \<Longrightarrow> m_count mp \<le> of_nat ORDER_MAP_SIZE"
proof -
  assume ok: "order_map_ok mp"
  have c: "card (om.live (m_slots mp)) \<le> 16384" by (rule om.card_live)
  then have "unat (of_nat (card (om.live (m_slots mp))) :: u32) = card (om.live (m_slots mp))"
    by (simp add: unat_of_nat)
  with c ok show ?thesis by (simp add: order_map_ok_def word_le_nat_alt)
qed

lemma order_map_find_ok: "order_map_ok mp \<Longrightarrow> \<not> key_free k \<Longrightarrow> order_map_find mp k = Some (om.find (m_slots mp) k)"
  by (simp add: order_map_find_eq count_bound del: of_nat_numeral)

definition tombs :: "(nat \<Rightarrow> order_map_slot_t) \<Rightarrow> nat set" where
  "tombs slots = {i. i < ORDER_MAP_SIZE \<and> s_key (slots i) = HASH_SLOT_TOMBSTONE}"

lemma tombs_finite: "finite (tombs slots)"
  by (simp add: tombs_def)

lemma tombs_write:
  "idx < ORDER_MAP_SIZE \<Longrightarrow> tombs (slots(idx := s)) =
     (if s_key s = HASH_SLOT_TOMBSTONE then insert idx (tombs slots) else tombs slots - {idx})"
  by (auto simp: tombs_def)

lemma of_nat_card_remove: "finite A \<Longrightarrow> x \<in> A \<Longrightarrow> of_nat (card (A - {x})) = (of_nat (card A) - 1 :: u32)"
  using card_Suc_Diff1 [of A x] by (metis add_diff_cancel_left' of_nat_Suc)

lemma of_nat_card_pred: "finite A \<Longrightarrow> x \<in> A \<Longrightarrow> of_nat (card A - Suc 0) = (of_nat (card A) - 1 :: u32)"
  using of_nat_card_remove [of A x] by simp

subsection \<open>The order map is a bounded map\<close>

lemma order_map_ok_clear: "order_map_ok (order_map_clear mp)"
  by (simp add: order_map_ok_def order_map_clear_def oa_reach_def oa_unique_def oa_live_def)

lemma order_map_room_iff:
  "order_map_room mp k \<longleftrightarrow> (\<exists>i<MAX_PROBE_LENGTH. key_free (s_key (m_slots mp (order_map_probe k i))))"
  by (auto simp: order_map_room_def list_ex_iff)

lemma order_map_okD:
  assumes "order_map_ok mp"
  shows "om.reach (m_slots mp)" and "om.unique (m_slots mp)"
    and "m_count mp = of_nat (card (om.live (m_slots mp)))"
    and "m_tombstone_count mp = of_nat (card (tombs (m_slots mp)))"
  using assms by (simp_all add: order_map_ok_def tombs_def)

lemma order_map_lookup_clear: "order_map_lookup (order_map_clear mp) = Map.empty"
proof
  fix k
  have "om.find (m_slots (order_map_clear mp)) k = None" if "\<not> key_free k"
    using that om.find_None [OF order_map_okD(1) [OF order_map_ok_clear] that]
    by (auto simp: order_map_clear_def)
  then show "order_map_lookup (order_map_clear mp) k = None"
    by (simp add: order_map_lookup_def)
qed

lemma order_map_okI:
  assumes "om.reach (m_slots mp)" and "om.unique (m_slots mp)"
    and "m_count mp = of_nat (card (om.live (m_slots mp)))"
    and "m_tombstone_count mp = of_nat (card (tombs (m_slots mp)))"
  shows "order_map_ok mp"
  using assms by (simp add: order_map_ok_def tombs_def)

lemma order_map_write_ok:
  assumes ok: "order_map_ok mp" and k: "\<not> key_free k"
    and absent: "om.find (m_slots mp) k = None" and place: "om.place (m_slots mp) k = Some idx"
  shows "order_map_ok (order_map_write mp k loc idx)"
    and "order_map_lookup (order_map_write mp k loc idx) = (order_map_lookup mp)(k \<mapsto> loc)"
proof -
  define s where "s = (m_slots mp idx)\<lparr>s_key := k, s_location := loc\<rparr>"
  have sk: "s_key s = k" and sl: "s_location s = loc" by (simp_all add: s_def)
  have free: "key_free (s_key (m_slots mp idx))"
    using om.place_absent [OF order_map_okD(1) [OF ok] absent k place] .
  have idx: "idx < ORDER_MAP_SIZE" using place by (rule om.place_bound)
  have slots: "m_slots (order_map_write mp k loc idx) = (m_slots mp)(idx := s)"
    using free by (simp add: order_map_write_def s_def Let_def)
  have notlive: "idx \<notin> om.live (m_slots mp)" using free by (simp add: oa_live_def)
  show "order_map_ok (order_map_write mp k loc idx)"
  proof (rule order_map_okI)
    show "om.reach (m_slots (order_map_write mp k loc idx))"
      unfolding slots using om.reach_place [OF order_map_okD(1) [OF ok] place sk k] .
    show "om.unique (m_slots (order_map_write mp k loc idx))"
      unfolding slots using om.unique_place [OF order_map_okD(1,2) [OF ok] place sk k absent] .
    show "m_count (order_map_write mp k loc idx) = of_nat (card (om.live (m_slots (order_map_write mp k loc idx))))"
      unfolding slots using k notlive free order_map_okD(3) [OF ok]
      by (simp add: om.live_write [OF idx] sk om.live_finite order_map_write_def Let_def)
    show "m_tombstone_count (order_map_write mp k loc idx) = of_nat (card (tombs (m_slots (order_map_write mp k loc idx))))"
    proof (cases "s_key (m_slots mp idx) = HASH_SLOT_TOMBSTONE")
      case True
      then have "idx \<in> tombs (m_slots mp)" using idx by (simp add: tombs_def)
      then show ?thesis unfolding slots using k True order_map_okD(4) [OF ok]
        by (simp add: tombs_write [OF idx] sk not_key_free order_map_write_def Let_def
              of_nat_card_pred [OF tombs_finite])
    next
      case False
      then have "idx \<notin> tombs (m_slots mp)" by (simp add: tombs_def)
      then show ?thesis unfolding slots using k False free order_map_okD(4) [OF ok]
        by (simp add: tombs_write [OF idx] sk not_key_free order_map_write_def Let_def)
    qed
  qed
  show "order_map_lookup (order_map_write mp k loc idx) = (order_map_lookup mp)(k \<mapsto> loc)"
  proof
    fix k'
    show "order_map_lookup (order_map_write mp k loc idx) k' = ((order_map_lookup mp)(k \<mapsto> loc)) k'"
    proof (cases "key_free k'")
      case True
      with k show ?thesis by (auto simp: order_map_lookup_def)
    next
      case False
      have "om.find (m_slots mp) k' \<noteq> Some idx"
        using om.find_key free False by blast
      then have "map_option (\<lambda>i. s_location (((m_slots mp)(idx := s)) i)) (om.find (m_slots mp) k') =
            map_option (\<lambda>i. s_location (m_slots mp i)) (om.find (m_slots mp) k')"
        by (cases "om.find (m_slots mp) k'") auto
      with False k sl show ?thesis
        by (simp add: order_map_lookup_def slots
              om.find_place [OF order_map_okD(1) [OF ok] place sk k False])
    qed
  qed
qed

lemma order_map_lookup_None:
  "\<not> key_free k \<Longrightarrow> order_map_lookup mp k = None \<longleftrightarrow> om.find (m_slots mp) k = None"
  by (simp add: order_map_lookup_def)

lemma order_map_tomb_ok:
  assumes ok: "order_map_ok mp" and k: "\<not> key_free k" and find: "om.find (m_slots mp) k = Some idx"
    and mp': "mp' = mp\<lparr>
               m_slots := (m_slots mp)(idx := (m_slots mp idx)\<lparr>s_key := HASH_SLOT_TOMBSTONE\<rparr>),
               m_count := m_count mp - 1, m_tombstone_count := m_tombstone_count mp + 1\<rparr>"
  shows "order_map_ok mp'" and "order_map_lookup mp' = (order_map_lookup mp)(k := None)"
    and "order_map_room mp k' \<Longrightarrow> order_map_room mp' k'"
proof -
  define s where "s = (m_slots mp idx)\<lparr>s_key := HASH_SLOT_TOMBSTONE\<rparr>"
  have slots: "m_slots mp' = (m_slots mp)(idx := s)" by (simp add: mp' s_def)
  have s: "key_free (s_key s)" "s_key s \<noteq> HASH_SLOT_EMPTY" by (simp_all add: s_def)
  have idx: "idx < ORDER_MAP_SIZE" using find by (rule om.find_bound)
  have key: "s_key (m_slots mp idx) = k" using find by (rule om.find_key)
  have live: "idx \<in> om.live (m_slots mp)" using idx key k by (simp add: oa_live_def)
  have nt: "idx \<notin> tombs (m_slots mp)" using key k by (simp add: tombs_def not_key_free)
  show "order_map_ok mp'"
  proof (rule order_map_okI)
    show "om.reach (m_slots mp')"
      unfolding slots using om.reach_tomb [OF order_map_okD(1) [OF ok] s] .
    show "om.unique (m_slots mp')"
      unfolding slots using om.unique_tomb [OF order_map_okD(2) [OF ok] s(1)] .
    show "m_count mp' = of_nat (card (om.live (m_slots mp')))"
      unfolding slots using live s order_map_okD(3) [OF ok]
      by (simp add: om.live_write [OF idx] mp' of_nat_card_pred [OF om.live_finite live])
    show "m_tombstone_count mp' = of_nat (card (tombs (m_slots mp')))"
      unfolding slots using nt order_map_okD(4) [OF ok]
      by (simp add: tombs_write [OF idx] s_def mp' tombs_finite)
  qed
  show "order_map_lookup mp' = (order_map_lookup mp)(k := None)"
  proof
    fix k'
    show "order_map_lookup mp' k' = ((order_map_lookup mp)(k := None)) k'"
    proof (cases "key_free k'")
      case False
      have "map_option (\<lambda>i. s_location (((m_slots mp)(idx := s)) i)) (om.find (m_slots mp) k') =
            map_option (\<lambda>i. s_location (m_slots mp i)) (om.find (m_slots mp) k')" if "k' \<noteq> k"
        using that om.find_key key by (cases "om.find (m_slots mp) k'") auto
      with False show ?thesis
        by (simp add: order_map_lookup_def slots om.find_tomb [OF order_map_okD(1,2) [OF ok] find k False s])
    qed (simp add: order_map_lookup_def)
  qed
  show "order_map_room mp k' \<Longrightarrow> order_map_room mp' k'"
    unfolding order_map_room_iff slots using s(1) by auto
qed

interpretation order_map: bounded_map order_map_insert order_map_remove order_map_get
  order_map_lookup order_map_ok "\<lambda>k. \<not> key_free k" order_map_room
proof unfold_locales
  fix mp k
  assume ok: "order_map_ok mp" and k: "\<not> key_free k"
  show "order_map_get mp k = Some (order_map_lookup mp k)"
    using k by (simp add: order_map_get_def order_map_find_ok [OF ok k] order_map_lookup_def)
  show "\<exists>m'. order_map_insert mp k v = Some (True, m') \<and> order_map_ok m'
          \<and> order_map_lookup m' = (order_map_lookup mp)(k \<mapsto> v)"
    if lk: "order_map_lookup mp k = None" and room: "order_map_room mp k" for v
  proof -
    obtain i where "i < MAX_PROBE_LENGTH" "key_free (s_key (m_slots mp (order_map_probe k i)))"
      using room by (auto simp: order_map_room_iff)
    then obtain idx where place: "om.place (m_slots mp) k = Some idx"
      using om.place_room by blast
    have absent: "om.find (m_slots mp) k = None"
      using lk k by (simp add: order_map_lookup_None)
    from order_map_write_ok [OF ok k absent place] show ?thesis
      by (simp add: order_map_insert_eq [OF k] place)
  qed
  show "order_map_insert mp k v = Some (False, mp)"
    if "order_map_lookup mp k = None" "\<not> order_map_room mp k" for v
  proof -
    have "\<forall>idx < ORDER_MAP_SIZE. s_key (m_slots mp idx) \<noteq> k"
      using that(1) k om.find_None [OF order_map_okD(1) [OF ok] k] by (simp add: order_map_lookup_None)
    with that(2) have "om.place (m_slots mp) k = None"
      by (auto simp: om.place_None order_map_room_iff order_map_probe_bound)
    then show ?thesis by (simp add: order_map_insert_eq [OF k])
  qed
  show "\<exists>m'. order_map_remove mp k = Some (order_map_lookup mp k \<noteq> None, m') \<and> order_map_ok m'
          \<and> order_map_lookup m' = (order_map_lookup mp)(k := None)
          \<and> (\<forall>k'. order_map_room mp k' \<longrightarrow> order_map_room m' k')"
  proof (cases "om.find (m_slots mp) k")
    case None
    with ok k show ?thesis
      by (auto simp: order_map_remove_eq [OF k count_bound [OF ok]] order_map_lookup_None fun_upd_idem)
  next
    case (Some idx)
    with order_map_tomb_ok [OF ok k Some refl] k show ?thesis
      by (auto simp: order_map_remove_eq [OF k count_bound [OF ok]] order_map_lookup_None simp del: fun_upd_apply)
  qed
qed

subsection \<open>Keys of orders\<close>

definition order_key :: "u32 \<Rightarrow> u32 \<Rightarrow> u64" where
  "order_key user_id user_order_id = push_bit 32 (ucast user_id) OR ucast user_order_id"

definition valid_ids :: "u32 \<Rightarrow> u32 \<Rightarrow> bool" where
  "valid_ids user_id user_order_id \<longleftrightarrow>
     (user_id \<noteq> 0 \<or> user_order_id \<noteq> 0) \<and> \<not> (user_id = 0xFFFFFFFF \<and> user_order_id = 0xFFFFFFFF)"

lemma bit_order_key:
  "bit (order_key u i) n \<longleftrightarrow> (if n < 32 then bit i n else n < 64 \<and> bit u (n - 32))"
  using bit_imp_le_length [of i n] by (auto simp: order_key_def bit_simps)

lemma order_key_inject: "order_key u i = order_key u' i' \<longleftrightarrow> u = u' \<and> i = i'"
proof
  assume eq: "order_key u i = order_key u' i'"
  have "bit i n = bit i' n" if "n < 32" for n
    using that bit_order_key [of u i n] bit_order_key [of u' i' n] eq by simp
  moreover have "bit u n = bit u' n" if "n < 32" for n
    using that bit_order_key [of u i "n + 32"] bit_order_key [of u' i' "n + 32"] eq by simp
  ultimately show "u = u' \<and> i = i'" by (simp add: bit_eq_iff)
qed simp

lemma order_key_0: "order_key u i = 0 \<longleftrightarrow> u = 0 \<and> i = 0"
  using order_key_inject [of u i 0 0] by (simp add: order_key_def)

lemma order_key_max: "order_key u i = 0xFFFFFFFFFFFFFFFF \<longleftrightarrow> u = 0xFFFFFFFF \<and> i = 0xFFFFFFFF"
  using order_key_inject [of u i "0xFFFFFFFF" "0xFFFFFFFF"] by (simp add: order_key_def)

lemma make_order_key_eq:
  "make_order_key u i = (if valid_ids u i then Some (order_key u i) else None)"
  using order_key_max [of u i]
  by (auto simp: make_order_key_def asserts valid_ids_def Let_def order_key_def [symmetric])

lemma order_key_not_free: "valid_ids u i \<Longrightarrow> \<not> key_free (order_key u i)"
  by (auto simp: key_free_def order_key_0 order_key_max valid_ids_def)

end
