(* ===== verification/ME_Symbol_Maps.thy ===== *)
theory ME_Symbol_Maps
  imports ME_Order_Map
begin

text \<open>
  The two hash tables of \<^verbatim>\<open>src/core/matching_engine.c\<close>: symbol to book and order to symbol.
  Both use the probing of \<open>ME_Open_Addressing\<close>.  The table of symbols has no removal, so
  its free slots are the empty ones.
\<close>

abbreviation MAX_SYMBOLS :: nat where
  "MAX_SYMBOLS \<equiv> 64"

abbreviation SYMBOL_MAP_SIZE :: nat where
  "SYMBOL_MAP_SIZE \<equiv> 512"

abbreviation ORDER_SYMBOL_MAP_SIZE :: nat where
  "ORDER_SYMBOL_MAP_SIZE \<equiv> 8192"

abbreviation MAX_SYMBOL_PROBE_LENGTH :: nat where
  "MAX_SYMBOL_PROBE_LENGTH \<equiv> 64"

abbreviation MAX_ORDER_SYMBOL_PROBE_LENGTH :: nat where
  "MAX_ORDER_SYMBOL_PROBE_LENGTH \<equiv> 128"

record symbol_map_slot_t =
  sm_symbol :: string
  sm_book_index :: int

record order_symbol_slot_t =
  os_order_key :: u64
  os_symbol :: string

record symbol_map_t =
  sm_slots :: "nat \<Rightarrow> symbol_map_slot_t"
  sm_count :: u32

record order_symbol_map_t =
  os_slots :: "nat \<Rightarrow> order_symbol_slot_t"
  os_count :: u32
  os_tombstone_count :: u32

subsection \<open>Hashes\<close>

definition me_hash_symbol :: "string \<Rightarrow> u32" where
  "me_hash_symbol symbol =
     fold (\<lambda>c hash. (hash XOR of_char c) * 16777619) (copy_until_nul MAX_SYMBOL_LENGTH symbol) 2166136261 AND 511"

definition me_hash_order_key :: "u64 \<Rightarrow> u32" where
  "me_hash_order_key key =
     (let k1 = key XOR drop_bit 33 key;
          k2 = k1 * 0x9E3779B97F4A7C15;
          k3 = k2 XOR drop_bit 29 k2
      in ucast (k3 AND 8191))"

text \<open>\<^verbatim>\<open>strncmp(a, b, MAX_SYMBOL_LENGTH) == 0\<close>.\<close>

definition symbol_eq :: "string \<Rightarrow> string \<Rightarrow> bool" where
  "symbol_eq a b = (copy_until_nul MAX_SYMBOL_LENGTH a = copy_until_nul MAX_SYMBOL_LENGTH b)"

subsection \<open>Symbol to book\<close>

definition symbol_map_init :: "symbol_map_t \<Rightarrow> symbol_map_t" where
  "symbol_map_init mp = mp\<lparr>sm_slots := (\<lambda>_. \<lparr>sm_symbol = [], sm_book_index = 0\<rparr>), sm_count := 0\<rparr>"

definition symbol_slot_is_empty :: "symbol_map_slot_t \<Rightarrow> bool" where
  "symbol_slot_is_empty slot = (copy_until_nul 1 (sm_symbol slot) = [])"

definition symbol_map_find :: "symbol_map_t \<Rightarrow> string \<Rightarrow> nat option" where
  "symbol_map_find mp symbol =
     (let hash = me_hash_symbol symbol in
      case for_return MAX_SYMBOL_PROBE_LENGTH 0 (\<lambda>i.
             let idx = unat ((hash + of_nat i) AND 511); slot = sm_slots mp idx in
             if symbol_eq (sm_symbol slot) symbol then Some (Some idx)
             else if symbol_slot_is_empty slot then Some None
             else None)
      of Some r \<Rightarrow> r | None \<Rightarrow> None)"

definition symbol_map_insert :: "symbol_map_t \<Rightarrow> string \<Rightarrow> int \<Rightarrow> (nat option \<times> symbol_map_t) option" where
  "symbol_map_insert mp symbol book_index = do {
     assert_that (copy_until_nul 1 symbol \<noteq> []);
     let hash = me_hash_symbol symbol;
     Some (case for_return MAX_SYMBOL_PROBE_LENGTH 0 (\<lambda>i.
             let idx = unat ((hash + of_nat i) AND 511); slot = sm_slots mp idx in
             if symbol_slot_is_empty slot then
               Some (Some idx, mp\<lparr>
                 sm_slots := (sm_slots mp)(idx := slot\<lparr>sm_symbol := copy_until_nul (MAX_SYMBOL_LENGTH - 1) symbol,
                                                       sm_book_index := book_index\<rparr>),
                 sm_count := sm_count mp + 1\<rparr>)
             else if symbol_eq (sm_symbol slot) symbol then
               Some (Some idx, mp\<lparr>sm_slots := (sm_slots mp)(idx := slot\<lparr>sm_book_index := book_index\<rparr>)\<rparr>)
             else None)
           of Some r \<Rightarrow> r | None \<Rightarrow> (None, mp))
   }"

subsection \<open>Order to symbol\<close>

definition order_symbol_map_init :: "order_symbol_map_t \<Rightarrow> order_symbol_map_t" where
  "order_symbol_map_init mp = mp\<lparr>
     os_slots := (\<lambda>_. \<lparr>os_order_key = 0, os_symbol = []\<rparr>), os_count := 0, os_tombstone_count := 0\<rparr>"

definition order_symbol_map_clear :: "order_symbol_map_t \<Rightarrow> order_symbol_map_t" where
  "order_symbol_map_clear mp = mp\<lparr>
     os_slots := (\<lambda>_. \<lparr>os_order_key = 0, os_symbol = []\<rparr>), os_count := 0, os_tombstone_count := 0\<rparr>"

text \<open>The copy of the symbol: \<^verbatim>\<open>strlen\<close>, cut to \<open>MAX_SYMBOL_LENGTH - 2\<close> from 15 characters on.\<close>

definition order_symbol_copy :: "string \<Rightarrow> string" where
  "order_symbol_copy symbol =
     (let len = length symbol;
          len' = (if len \<ge> MAX_SYMBOL_LENGTH - 1 then MAX_SYMBOL_LENGTH - 2 else len)
      in take len' symbol)"

definition order_symbol_map_insert ::
  "order_symbol_map_t \<Rightarrow> u64 \<Rightarrow> string \<Rightarrow> (bool \<times> order_symbol_map_t) option" where
  "order_symbol_map_insert mp key symbol = do {
     assert_that (key \<noteq> 0);
     assert_that (key \<noteq> 0xFFFFFFFFFFFFFFFF);
     let hash = me_hash_order_key key;
     Some (case for_return MAX_ORDER_SYMBOL_PROBE_LENGTH 0 (\<lambda>i.
             let idx = unat ((hash + of_nat i) AND 8191); slot = os_slots mp idx in
             if os_order_key slot = 0 \<or> os_order_key slot = 0xFFFFFFFFFFFFFFFF then
               Some (True, mp\<lparr>
                 os_tombstone_count := (if os_order_key slot = 0xFFFFFFFFFFFFFFFF
                                        then os_tombstone_count mp - 1 else os_tombstone_count mp),
                 os_slots := (os_slots mp)(idx := slot\<lparr>os_order_key := key,
                                                       os_symbol := order_symbol_copy symbol\<rparr>),
                 os_count := os_count mp + 1\<rparr>)
             else if os_order_key slot = key then
               Some (True, mp\<lparr>os_slots := (os_slots mp)(idx := slot\<lparr>os_symbol := order_symbol_copy symbol\<rparr>)\<rparr>)
             else None)
           of Some r \<Rightarrow> r | None \<Rightarrow> (False, mp))
   }"

definition order_symbol_map_find :: "order_symbol_map_t \<Rightarrow> u64 \<Rightarrow> nat option" where
  "order_symbol_map_find mp key =
     (if key = 0 \<or> key = 0xFFFFFFFFFFFFFFFF then None
      else let hash = me_hash_order_key key in
        case for_return MAX_ORDER_SYMBOL_PROBE_LENGTH 0 (\<lambda>i.
               let idx = unat ((hash + of_nat i) AND 8191); slot = os_slots mp idx in
               if os_order_key slot = key then Some (Some idx)
               else if os_order_key slot = 0 then Some None
               else None)
        of Some r \<Rightarrow> r | None \<Rightarrow> None)"

definition order_symbol_map_remove :: "order_symbol_map_t \<Rightarrow> u64 \<Rightarrow> bool \<times> order_symbol_map_t" where
  "order_symbol_map_remove mp key =
     (case order_symbol_map_find mp key of
        Some idx \<Rightarrow> (True, mp\<lparr>
          os_slots := (os_slots mp)(idx := (os_slots mp idx)\<lparr>os_order_key := 0xFFFFFFFFFFFFFFFF\<rparr>),
          os_count := os_count mp - 1, os_tombstone_count := os_tombstone_count mp + 1\<rparr>)
      | None \<Rightarrow> (False, mp))"

subsection \<open>The table of symbols\<close>

definition symbol_probe :: "string \<Rightarrow> nat \<Rightarrow> nat" where
  "symbol_probe s i = unat ((me_hash_symbol s + of_nat i) AND 511)"

definition no_symbol_name :: "string \<Rightarrow> bool" where
  "no_symbol_name s = (s = [])"

lemma and_511: "x AND 511 = x AND mask 9" and and_8191: "y AND 8191 = y AND mask 13" for x y :: "'a::len word"
  by (simp_all add: mask_eq_exp_minus_1)

lemma symbol_probe_eq: "symbol_probe s i = unat (me_hash_symbol s + of_nat i) mod 512"
  unfolding symbol_probe_def and_511 unat_and_mask by simp

interpretation sm: open_table sm_symbol "[]" no_symbol_name symbol_probe MAX_SYMBOL_PROBE_LENGTH SYMBOL_MAP_SIZE
  by unfold_locales (simp_all add: symbol_probe_eq no_symbol_name_def)

definition symbol_map_ok :: "symbol_map_t \<Rightarrow> bool" where
  "symbol_map_ok mp \<longleftrightarrow>
     oa_reach sm_symbol [] no_symbol_name symbol_probe MAX_SYMBOL_PROBE_LENGTH SYMBOL_MAP_SIZE (sm_slots mp)
     \<and> oa_unique sm_symbol no_symbol_name SYMBOL_MAP_SIZE (sm_slots mp)
     \<and> (\<forall>i < SYMBOL_MAP_SIZE. sm_symbol (sm_slots mp i) = [] \<or> symbol_ok (sm_symbol (sm_slots mp i)))
     \<and> sm_count mp = of_nat (card (oa_live sm_symbol no_symbol_name SYMBOL_MAP_SIZE (sm_slots mp)))"

definition symbol_map_lookup :: "symbol_map_t \<Rightarrow> string \<rightharpoonup> int" where
  "symbol_map_lookup mp s = map_option (\<lambda>idx. sm_book_index (sm_slots mp idx)) (symbol_map_find mp s)"

lemma slot_symbol_facts:
  assumes "symbol_map_ok mp" and "i < SYMBOL_MAP_SIZE"
  shows "symbol_slot_is_empty (sm_slots mp i) \<longleftrightarrow> sm_symbol (sm_slots mp i) = []"
    and "symbol_ok s \<Longrightarrow> symbol_eq (sm_symbol (sm_slots mp i)) s \<longleftrightarrow> sm_symbol (sm_slots mp i) = s"
proof -
  have c: "sm_symbol (sm_slots mp i) = [] \<or> symbol_ok (sm_symbol (sm_slots mp i))"
    using assms by (simp add: symbol_map_ok_def)
  then show "symbol_slot_is_empty (sm_slots mp i) \<longleftrightarrow> sm_symbol (sm_slots mp i) = []"
    by (auto simp: symbol_slot_is_empty_def copy_first_symbol_ok)
  have full: "copy_until_nul MAX_SYMBOL_LENGTH t = t" if "symbol_ok t" for t
    using that by (simp add: symbol_ok_def copy_until_nul_c_string)
  have nil: "copy_until_nul MAX_SYMBOL_LENGTH [] = []" by (simp add: copy_until_nul_takeWhile)
  show "symbol_ok s \<Longrightarrow> symbol_eq (sm_symbol (sm_slots mp i)) s \<longleftrightarrow> sm_symbol (sm_slots mp i) = s"
    using c full nil by (auto simp: symbol_eq_def)
qed

lemma symbol_map_find_eq:
  assumes ok: "symbol_map_ok mp" and s: "symbol_ok s"
  shows "symbol_map_find mp s = sm.find (sm_slots mp) s"
proof -
  have "for_return MAX_SYMBOL_PROBE_LENGTH 0 (\<lambda>i.
          if symbol_eq (sm_symbol (sm_slots mp (symbol_probe s i))) s then Some (Some (symbol_probe s i))
          else if symbol_slot_is_empty (sm_slots mp (symbol_probe s i)) then Some None else None)
      = for_return MAX_SYMBOL_PROBE_LENGTH 0 (\<lambda>i.
          if sm_symbol (sm_slots mp (symbol_probe s i)) = s then Some (Some (symbol_probe s i))
          else if sm_symbol (sm_slots mp (symbol_probe s i)) = [] then Some None else None)"
    by (rule arg_cong [of _ _ "for_return MAX_SYMBOL_PROBE_LENGTH 0"], rule ext)
       (simp only: slot_symbol_facts [OF ok sm.probe_bound] s)
  then show ?thesis
    unfolding symbol_map_find_def oa_find_def Let_def symbol_probe_def by simp
qed

lemma symbol_map_find_lookup:
  assumes "symbol_map_ok mp" and "symbol_ok s"
  shows "symbol_map_find mp s = None \<longleftrightarrow> symbol_map_lookup mp s = None"
    and "symbol_map_find mp s = Some idx \<Longrightarrow> symbol_map_lookup mp s = Some (sm_book_index (sm_slots mp idx))"
  by (auto simp: symbol_map_lookup_def)

definition symbol_map_write :: "symbol_map_t \<Rightarrow> string \<Rightarrow> int \<Rightarrow> nat \<Rightarrow> symbol_map_t" where
  "symbol_map_write mp s b idx = mp\<lparr>
     sm_slots := (sm_slots mp)(idx := (sm_slots mp idx)\<lparr>sm_symbol := s, sm_book_index := b\<rparr>),
     sm_count := sm_count mp + 1\<rparr>"

lemma symbol_map_insert_eq:
  assumes ok: "symbol_map_ok mp" and s: "symbol_ok s" and new: "symbol_map_find mp s = None"
  shows "symbol_map_insert mp s b = Some (case sm.place (sm_slots mp) s of
           Some idx \<Rightarrow> (Some idx, symbol_map_write mp s b idx) | None \<Rightarrow> (None, mp))"
proof -
  have sc: "copy_until_nul (MAX_SYMBOL_LENGTH - 1) s = s" using copy_until_nul_symbol_ok [OF s] by simp
  have reach: "sm.reach (sm_slots mp)" and nf: "\<not> no_symbol_name s"
    using ok s by (auto simp: symbol_map_ok_def no_symbol_name_def symbol_ok_def)
  have absent: "sm_symbol (sm_slots mp (symbol_probe s i)) \<noteq> s" for i
    using new sm.find_None [OF reach nf] symbol_map_find_eq [OF ok s] by (simp add: symbol_probe_eq)
  let ?f = "\<lambda>i. if no_symbol_name (sm_symbol (sm_slots mp (symbol_probe s i))) \<or> sm_symbol (sm_slots mp (symbol_probe s i)) = s
                  then Some (symbol_probe s i) else None"
  have "(\<lambda>i. let idx = symbol_probe s i; slot = sm_slots mp idx in
             if symbol_slot_is_empty slot then
               Some (Some idx, mp\<lparr>
                 sm_slots := (sm_slots mp)(idx := slot\<lparr>sm_symbol := copy_until_nul (MAX_SYMBOL_LENGTH - 1) s, sm_book_index := b\<rparr>),
                 sm_count := sm_count mp + 1\<rparr>)
             else if symbol_eq (sm_symbol slot) s then
               Some (Some idx, mp\<lparr>sm_slots := (sm_slots mp)(idx := slot\<lparr>sm_book_index := b\<rparr>)\<rparr>)
             else None)
        = (\<lambda>i. map_option (\<lambda>idx. (Some idx, symbol_map_write mp s b idx)) (?f i))"
    unfolding sc using absent
    by (auto simp: fun_eq_iff Let_def slot_symbol_facts [OF ok] s symbol_probe_eq symbol_map_write_def no_symbol_name_def)
  then show ?thesis
    using copy_first_symbol_ok [OF s]
    unfolding symbol_map_insert_def Let_def symbol_probe_def [symmetric]
    by (auto simp: asserts for_return_map oa_place_def split: option.splits)
qed

lemma symbol_map_write_ok:
  assumes ok: "symbol_map_ok mp" and s: "symbol_ok s" and new: "symbol_map_find mp s = None"
    and pl: "sm.place (sm_slots mp) s = Some idx"
  shows "symbol_map_ok (symbol_map_write mp s b idx)"
    and "symbol_ok t \<Longrightarrow> symbol_map_lookup (symbol_map_write mp s b idx) t = (if t = s then Some b else symbol_map_lookup mp t)"
proof -
  let ?v = "(sm_slots mp idx)\<lparr>sm_symbol := s, sm_book_index := b\<rparr>"
  have reach: "sm.reach (sm_slots mp)" and un: "sm.unique (sm_slots mp)" and nf: "\<not> no_symbol_name s"
    using ok s by (auto simp: symbol_map_ok_def no_symbol_name_def symbol_ok_def)
  have find: "sm.find (sm_slots mp) s = None" using new symbol_map_find_eq [OF ok s] by simp
  have free: "no_symbol_name (sm_symbol (sm_slots mp idx))" by (rule sm.place_absent [OF reach find nf pl])
  have idx: "idx < SYMBOL_MAP_SIZE" by (rule sm.place_bound [OF pl])
  have live: "sm.live ((sm_slots mp)(idx := ?v)) = insert idx (sm.live (sm_slots mp))" "idx \<notin> sm.live (sm_slots mp)"
    using sm.live_write [OF idx, of "sm_slots mp" ?v] nf free by (simp_all add: oa_live_def)
  have "card (sm.live ((sm_slots mp)(idx := ?v))) = Suc (card (sm.live (sm_slots mp)))"
    unfolding live(1) by (rule card_insert_disjoint [OF sm.live_finite live(2)])
  moreover have "sm.reach ((sm_slots mp)(idx := ?v))" by (rule sm.reach_place [OF reach pl _ nf]) simp
  moreover have "sm.unique ((sm_slots mp)(idx := ?v))" by (rule sm.unique_place [OF reach un pl _ nf find]) simp
  ultimately show ok': "symbol_map_ok (symbol_map_write mp s b idx)"
    using ok s by (auto simp: symbol_map_ok_def symbol_map_write_def)
  show "symbol_map_lookup (symbol_map_write mp s b idx) t = (if t = s then Some b else symbol_map_lookup mp t)" if t: "symbol_ok t"
  proof -
    have nt: "\<not> no_symbol_name t" using t by (auto simp: no_symbol_name_def symbol_ok_def)
    have "sm.find ((sm_slots mp)(idx := ?v)) t = (if t = s then Some idx else sm.find (sm_slots mp) t)"
      by (rule sm.find_place [OF reach pl _ nf nt]) simp
    moreover have "sm.find (sm_slots mp) t \<noteq> Some idx" using sm.find_key free nt by blast
    ultimately show ?thesis
      using symbol_map_find_eq [OF ok t] symbol_map_find_eq [OF ok' t]
      by (auto simp: symbol_map_lookup_def symbol_map_write_def split: option.splits)
        (cases "sm.find (sm_slots mp) t"; auto)+
  qed
qed

text \<open>With fewer symbols than a probe window is long, an insertion cannot fail.\<close>

lemma symbol_probe_inj: "inj_on (symbol_probe s) {..<MAX_SYMBOL_PROBE_LENGTH}"
proof (rule inj_onI)
  fix i j
  assume ij: "i \<in> {..<MAX_SYMBOL_PROBE_LENGTH}" "j \<in> {..<MAX_SYMBOL_PROBE_LENGTH}" and eq: "symbol_probe s i = symbol_probe s j"
  have h: "unat (me_hash_symbol s) < 512"
    unfolding me_hash_symbol_def and_511 unat_and_mask by simp
  have "unat (me_hash_symbol s + of_nat k) = unat (me_hash_symbol s) + k" if "k < 64" for k
    using h that by (simp add: unat_word_ariths unat_of_nat)
  with ij eq have "(unat (me_hash_symbol s) + i) mod 512 = (unat (me_hash_symbol s) + j) mod 512"
    by (simp add: symbol_probe_eq)
  then show "i = j" using ij h by (simp add: mod_if split: if_splits)
qed

lemma symbol_map_place_room:
  assumes few: "card (sm.live (sm_slots mp)) < MAX_SYMBOL_PROBE_LENGTH"
  shows "\<exists>idx. sm.place (sm_slots mp) s = Some idx"
proof -
  have "\<not> symbol_probe s ` {..<MAX_SYMBOL_PROBE_LENGTH} \<subseteq> sm.live (sm_slots mp)"
  proof
    assume "symbol_probe s ` {..<MAX_SYMBOL_PROBE_LENGTH} \<subseteq> sm.live (sm_slots mp)"
    then have "card (symbol_probe s ` {..<MAX_SYMBOL_PROBE_LENGTH}) \<le> card (sm.live (sm_slots mp))"
      by (intro card_mono sm.live_finite)
    with few card_image [OF symbol_probe_inj] show False by simp
  qed
  then obtain i where "i < MAX_SYMBOL_PROBE_LENGTH" "no_symbol_name (sm_symbol (sm_slots mp (symbol_probe s i)))"
    by (auto simp: oa_live_def symbol_probe_eq)
  then show ?thesis by (rule sm.place_room)
qed

lemma symbol_map_init_ok: "symbol_map_ok (symbol_map_init mp)" "symbol_ok s \<Longrightarrow> symbol_map_lookup (symbol_map_init mp) s = None"
proof -
  show ok: "symbol_map_ok (symbol_map_init mp)"
    by (simp add: symbol_map_ok_def symbol_map_init_def oa_reach_def oa_unique_def oa_live_def no_symbol_name_def)
  show "symbol_map_lookup (symbol_map_init mp) s = None" if s: "symbol_ok s"
  proof -
    have "\<not> no_symbol_name s" using s by (auto simp: no_symbol_name_def symbol_ok_def)
    then have "sm.find (sm_slots (symbol_map_init mp)) s = None"
      using sm.find_None [of "sm_slots (symbol_map_init mp)" s] ok s
      by (auto simp: symbol_map_ok_def symbol_map_init_def symbol_ok_def)
    then show ?thesis using symbol_map_find_eq [OF ok s] by (simp add: symbol_map_lookup_def)
  qed
qed

subsection \<open>The table of orders\<close>

text \<open>
  A key may be inserted again while an older entry for it still exists behind a
  tombstone, so this table keeps less than \<open>bounded_map\<close>: an insertion may be refused, the
  last insertion of a key is what a search finds, and operations on one key do not
  disturb the others.
\<close>

locale overwriting_map =
  fixes ins :: "'m \<Rightarrow> 'k \<Rightarrow> 'v \<Rightarrow> (bool \<times> 'm) option"
    and del :: "'m \<Rightarrow> 'k \<Rightarrow> bool \<times> 'm"
    and get :: "'m \<Rightarrow> 'k \<Rightarrow> 'v option"
    and stored :: "'v \<Rightarrow> 'v"
    and invar :: "'m \<Rightarrow> bool"
    and valid :: "'k \<Rightarrow> bool"
  assumes ins_get: "invar m \<Longrightarrow> valid k \<Longrightarrow>
        \<exists>ok m'. ins m k v = Some (ok, m') \<and> invar m' \<and> (get m k \<noteq> None \<longrightarrow> ok)
          \<and> (\<forall>k'. valid k' \<longrightarrow> get m' k' = (if ok \<and> k' = k then Some (stored v) else get m k'))"
    and del_get: "invar m \<Longrightarrow> valid k \<Longrightarrow>
        invar (snd (del m k)) \<and> (fst (del m k) \<longleftrightarrow> get m k \<noteq> None)
          \<and> (\<forall>k'. valid k' \<and> k' \<noteq> k \<longrightarrow> get (snd (del m k)) k' = get m k')"
begin

text \<open>What was stored for a key survives insertions and removals of other keys.\<close>

lemma get_stable:
  assumes "invar m" "valid k" "valid k'" "k' \<noteq> k"
  shows "ins m k v = Some (ok, m') \<Longrightarrow> get m' k' = get m k'" and "get (snd (del m k)) k' = get m k'"
  using ins_get [OF assms(1,2), of v] del_get [OF assms(1,2)] assms(3,4) by auto

lemma get_inserted:
  "invar m \<Longrightarrow> valid k \<Longrightarrow> ins m k v = Some (True, m') \<Longrightarrow> get m' k = Some (stored v)"
  using ins_get [of m k v] by auto

end

definition order_symbol_probe :: "u64 \<Rightarrow> nat \<Rightarrow> nat" where
  "order_symbol_probe k i = unat ((me_hash_order_key k + of_nat i) AND 8191)"

lemma order_symbol_probe_bound: "order_symbol_probe k i < ORDER_SYMBOL_MAP_SIZE"
  unfolding order_symbol_probe_def and_8191 unat_and_mask by simp

interpretation os: open_table os_order_key 0 key_free order_symbol_probe MAX_ORDER_SYMBOL_PROBE_LENGTH ORDER_SYMBOL_MAP_SIZE
  by unfold_locales (simp_all add: order_symbol_probe_bound)

definition order_symbol_map_ok :: "order_symbol_map_t \<Rightarrow> bool" where
  "order_symbol_map_ok mp \<longleftrightarrow>
     oa_reach os_order_key 0 key_free order_symbol_probe MAX_ORDER_SYMBOL_PROBE_LENGTH ORDER_SYMBOL_MAP_SIZE (os_slots mp)"

definition order_symbol_get :: "order_symbol_map_t \<Rightarrow> u64 \<Rightarrow> string option" where
  "order_symbol_get mp k = map_option (\<lambda>idx. os_symbol (os_slots mp idx)) (order_symbol_map_find mp k)"

lemma order_symbol_map_find_eq: "\<not> key_free k \<Longrightarrow> order_symbol_map_find mp k = os.find (os_slots mp) k"
  unfolding oa_find_def order_symbol_probe_def
  by (simp add: order_symbol_map_find_def not_key_free Let_def)

definition order_symbol_write :: "order_symbol_map_t \<Rightarrow> u64 \<Rightarrow> string \<Rightarrow> nat \<Rightarrow> order_symbol_map_t" where
  "order_symbol_write mp key s idx =
     (let slot = os_slots mp idx in
      if key_free (os_order_key slot) then mp\<lparr>
         os_tombstone_count := (if os_order_key slot = 0xFFFFFFFFFFFFFFFF
                                then os_tombstone_count mp - 1 else os_tombstone_count mp),
         os_slots := (os_slots mp)(idx := slot\<lparr>os_order_key := key, os_symbol := order_symbol_copy s\<rparr>),
         os_count := os_count mp + 1\<rparr>
      else mp\<lparr>os_slots := (os_slots mp)(idx := slot\<lparr>os_symbol := order_symbol_copy s\<rparr>)\<rparr>)"

lemma order_symbol_map_insert_eq:
  assumes "\<not> key_free k"
  shows "order_symbol_map_insert mp k s = Some (case os.place (os_slots mp) k of
           Some idx \<Rightarrow> (True, order_symbol_write mp k s idx) | None \<Rightarrow> (False, mp))"
proof -
  let ?f = "\<lambda>i. if key_free (os_order_key (os_slots mp (order_symbol_probe k i))) \<or>
                     os_order_key (os_slots mp (order_symbol_probe k i)) = k
                  then Some (order_symbol_probe k i) else None"
  have "(\<lambda>i. let idx = order_symbol_probe k i; slot = os_slots mp idx in
             if os_order_key slot = 0 \<or> os_order_key slot = 0xFFFFFFFFFFFFFFFF then
               Some (True, mp\<lparr>
                 os_tombstone_count := (if os_order_key slot = 0xFFFFFFFFFFFFFFFF
                                        then os_tombstone_count mp - 1 else os_tombstone_count mp),
                 os_slots := (os_slots mp)(idx := slot\<lparr>os_order_key := k, os_symbol := order_symbol_copy s\<rparr>),
                 os_count := os_count mp + 1\<rparr>)
             else if os_order_key slot = k then
               Some (True, mp\<lparr>os_slots := (os_slots mp)(idx := slot\<lparr>os_symbol := order_symbol_copy s\<rparr>)\<rparr>)
             else None)
        = (\<lambda>i. map_option (\<lambda>idx. (True, order_symbol_write mp k s idx)) (?f i))"
    by (auto simp: fun_eq_iff Let_def order_symbol_write_def key_free_def)
  with assms show ?thesis
    unfolding order_symbol_map_insert_def Let_def order_symbol_probe_def [symmetric]
    by (auto simp: asserts not_key_free for_return_map oa_place_def split: option.splits)
qed

lemma order_symbol_write_ok:
  assumes reach: "order_symbol_map_ok mp" and k: "\<not> key_free k" and pl: "os.place (os_slots mp) k = Some idx"
  shows "order_symbol_map_ok (order_symbol_write mp k s idx)"
    and "\<not> key_free k' \<Longrightarrow> order_symbol_get (order_symbol_write mp k s idx) k'
           = (if k' = k then Some (order_symbol_copy s) else order_symbol_get mp k')"
proof -
  define v where "v = (if key_free (os_order_key (os_slots mp idx))
     then (os_slots mp idx)\<lparr>os_order_key := k, os_symbol := order_symbol_copy s\<rparr>
     else (os_slots mp idx)\<lparr>os_symbol := order_symbol_copy s\<rparr>)"
  have slots: "os_slots (order_symbol_write mp k s idx) = (os_slots mp)(idx := v)"
    by (simp add: order_symbol_write_def v_def Let_def)
  have kv: "os_order_key v = k" and sv: "os_symbol v = order_symbol_copy s"
    using pl by (auto simp: v_def os.place_Some)
  have rc: "os.reach (os_slots mp)" using reach by (simp add: order_symbol_map_ok_def)
  show "order_symbol_map_ok (order_symbol_write mp k s idx)"
    unfolding order_symbol_map_ok_def slots by (rule os.reach_place [OF rc pl kv k])
  show "order_symbol_get (order_symbol_write mp k s idx) k' = (if k' = k then Some (order_symbol_copy s) else order_symbol_get mp k')"
    if k': "\<not> key_free k'"
  proof -
    have "os.find ((os_slots mp)(idx := v)) k' = (if k' = k then Some idx else os.find (os_slots mp) k')"
      by (rule os.find_place [OF rc pl kv k k'])
    moreover have "os.find (os_slots mp) k' \<noteq> Some idx" if "k' \<noteq> k"
      using that pl os.find_key [of "os_slots mp" k' idx] k' by (auto simp: os.place_Some)
    ultimately show ?thesis
      using k' sv by (auto simp: order_symbol_get_def order_symbol_map_find_eq slots split: option.splits)
        (cases "os.find (os_slots mp) k'"; auto)+
  qed
qed

interpretation order_symbols: overwriting_map order_symbol_map_insert order_symbol_map_remove order_symbol_get
  order_symbol_copy order_symbol_map_ok "\<lambda>k. \<not> key_free k"
proof unfold_locales
  fix mp :: order_symbol_map_t and k v
  assume ok: "order_symbol_map_ok mp" and k: "\<not> key_free k"
  have rc: "os.reach (os_slots mp)" using ok by (simp add: order_symbol_map_ok_def)
  show "\<exists>b m'. order_symbol_map_insert mp k v = Some (b, m') \<and> order_symbol_map_ok m'
      \<and> (order_symbol_get mp k \<noteq> None \<longrightarrow> b)
      \<and> (\<forall>k'. \<not> key_free k' \<longrightarrow> order_symbol_get m' k' = (if b \<and> k' = k then Some (order_symbol_copy v) else order_symbol_get mp k'))"
  proof (cases "os.place (os_slots mp) k")
    case None
    have "os.find (os_slots mp) k \<noteq> Some j" for j
      using None unfolding os.place_None os.find_Some by blast
    then have "os.find (os_slots mp) k = None" by (metis not_Some_eq)
    then have "order_symbol_get mp k = None"
      by (simp add: order_symbol_get_def order_symbol_map_find_eq [OF k])
    moreover have "order_symbol_map_insert mp k v = Some (False, mp)"
      by (simp add: order_symbol_map_insert_eq [OF k] None)
    ultimately show ?thesis using ok by (intro exI [of _ False] exI [of _ mp]) simp
  next
    case (Some idx)
    with order_symbol_write_ok [OF ok k Some] show ?thesis
      by (intro exI [of _ True] exI [of _ "order_symbol_write mp k v idx"]) (simp add: order_symbol_map_insert_eq [OF k])
  qed
  show "order_symbol_map_ok (snd (order_symbol_map_remove mp k)) \<and> (fst (order_symbol_map_remove mp k) \<longleftrightarrow> order_symbol_get mp k \<noteq> None)
      \<and> (\<forall>k'. \<not> key_free k' \<and> k' \<noteq> k \<longrightarrow> order_symbol_get (snd (order_symbol_map_remove mp k)) k' = order_symbol_get mp k')"
  proof (cases "os.find (os_slots mp) k")
    case None
    with ok show ?thesis by (simp add: order_symbol_map_remove_def order_symbol_map_find_eq [OF k] order_symbol_get_def)
  next
    case (Some idx)
    let ?v = "(os_slots mp idx)\<lparr>os_order_key := 0xFFFFFFFFFFFFFFFF\<rparr>"
    have rc': "os.reach ((os_slots mp)(idx := ?v))" by (rule os.reach_tomb [OF rc]) (simp_all add: key_free_def)
    have "order_symbol_get (snd (order_symbol_map_remove mp k)) k' = order_symbol_get mp k'" if k': "\<not> key_free k'" "k' \<noteq> k" for k'
    proof -
      have ki: "os_order_key (os_slots mp idx) = k" using os.find_key [OF Some] .
      have "os.find ((os_slots mp)(idx := ?v)) k' = os.find (os_slots mp) k'"
        using k' ki by (intro os.find_write_other [OF rc rc']) (auto simp: key_free_def)
      moreover have "os.find (os_slots mp) k' \<noteq> Some idx" using os.find_key [of "os_slots mp" k' idx] ki k' by auto
      ultimately show ?thesis
        using k' Some by (cases "os.find (os_slots mp) k'")
          (auto simp: order_symbol_map_remove_def order_symbol_map_find_eq [OF k] order_symbol_get_def order_symbol_map_find_eq)
    qed
    with Some rc' show ?thesis
      by (simp add: order_symbol_map_remove_def order_symbol_map_find_eq [OF k] order_symbol_get_def order_symbol_map_ok_def)
  qed
qed

lemma order_symbol_map_clear_ok:
  "order_symbol_map_ok (order_symbol_map_clear mp)" "order_symbol_map_ok (order_symbol_map_init mp)"
  "order_symbol_get (order_symbol_map_clear mp) k = None"
proof -
  show ok: "order_symbol_map_ok (order_symbol_map_clear mp)" "order_symbol_map_ok (order_symbol_map_init mp)"
    by (simp_all add: order_symbol_map_ok_def order_symbol_map_clear_def order_symbol_map_init_def oa_reach_def)
  show "order_symbol_get (order_symbol_map_clear mp) k = None"
  proof (cases "key_free k")
    case False
    with os.find_None [of "os_slots (order_symbol_map_clear mp)" k] ok(1) show ?thesis
      by (auto simp: order_symbol_get_def order_symbol_map_find_eq order_symbol_map_ok_def order_symbol_map_clear_def)
  qed (auto simp: order_symbol_get_def order_symbol_map_find_def key_free_def)
qed

lemma order_symbol_copy_short: "length s < 15 \<Longrightarrow> order_symbol_copy s = s"
  by (simp add: order_symbol_copy_def)

end
