(* ===== verification/ME_Pool.thy ===== *)
theory ME_Pool
  imports ME_Order
begin

text \<open>
  The memory pool of \<^verbatim>\<open>src/core/order_book.c\<close> (\<^verbatim>\<open>order_pool_t\<close> in
  \<^verbatim>\<open>include/core/order_book.h\<close>): a fixed array of orders and a stack of free slots.
  The interface its clients rely on is the locale \<open>allocator\<close>; it is interpreted on
  \<open>order_pool_alloc\<close> and \<open>order_pool_free\<close>.
\<close>

abbreviation MAX_ORDERS_IN_POOL :: nat where
  "MAX_ORDERS_IN_POOL \<equiv> 8192"

record order_pool_t =
  p_orders :: "nat \<Rightarrow> order_t"
  p_free_list :: "nat \<Rightarrow> nat"
  p_free_count :: nat
  p_total_allocations :: u32
  p_peak_usage :: u32
  p_allocation_failures :: u32

definition order_pool_init :: "order_pool_t \<Rightarrow> order_pool_t" where
  "order_pool_init pool = pool\<lparr>
     p_free_count := MAX_ORDERS_IN_POOL,
     p_free_list := (\<lambda>i. if i < MAX_ORDERS_IN_POOL then i else p_free_list pool i),
     p_total_allocations := 0, p_peak_usage := 0, p_allocation_failures := 0\<rparr>"

text \<open>\<^verbatim>\<open>memory_pools_t\<close> holds nothing but the order pool.\<close>

definition memory_pools_init :: "order_pool_t \<Rightarrow> order_pool_t option" where
  "memory_pools_init pools = do {
     let pools' = order_pool_init pools;
     assert_that (p_free_count pools' = MAX_ORDERS_IN_POOL);
     Some pools'
   }"

text \<open>The result of an allocation: the slot, \<open>None\<close> being \<^verbatim>\<open>NULL\<close>, and the pool.\<close>

definition order_pool_alloc :: "order_pool_t \<Rightarrow> (order_ptr \<times> order_pool_t) option" where
  "order_pool_alloc pool = do {
     assert_that (p_free_count pool \<le> MAX_ORDERS_IN_POOL);
     if p_free_count pool = 0
     then Some (None, pool\<lparr>p_allocation_failures := p_allocation_failures pool + 1\<rparr>)
     else do {
       let fc = p_free_count pool - 1;
       let index = p_free_list pool fc;
       assert_that (index < MAX_ORDERS_IN_POOL);
       let current_usage = (of_nat (MAX_ORDERS_IN_POOL - fc) :: u32);
       Some (Some index, pool\<lparr>
         p_free_count := fc,
         p_total_allocations := p_total_allocations pool + 1,
         p_peak_usage := (if current_usage > p_peak_usage pool then current_usage
                          else p_peak_usage pool)\<rparr>)
     }
   }"

definition order_pool_free :: "order_pool_t \<Rightarrow> nat \<Rightarrow> order_pool_t option" where
  "order_pool_free pool order = do {
     assert_that (order < MAX_ORDERS_IN_POOL);
     assert_that (p_free_count pool < MAX_ORDERS_IN_POOL);
     Some (pool\<lparr>p_free_list := (p_free_list pool)(p_free_count pool := order),
                p_free_count := p_free_count pool + 1\<rparr>)
   }"

subsection \<open>Invariant\<close>

definition free_slots :: "order_pool_t \<Rightarrow> nat set" where
  "free_slots pool = p_free_list pool ` {..<p_free_count pool}"

definition pool_ok :: "order_pool_t \<Rightarrow> bool" where
  "pool_ok pool \<longleftrightarrow> p_free_count pool \<le> MAX_ORDERS_IN_POOL
     \<and> inj_on (p_free_list pool) {..<p_free_count pool}
     \<and> free_slots pool \<subseteq> {..<MAX_ORDERS_IN_POOL}"

definition allocated :: "order_pool_t \<Rightarrow> nat set" where
  "allocated pool = {..<MAX_ORDERS_IN_POOL} - free_slots pool"

subsection \<open>The allocator interface\<close>

text \<open>
  What the book relies on.  \<open>contents\<close> is the memory the slots stand for: neither
  operation writes it.
\<close>

locale allocator =
  fixes alloc :: "'p \<Rightarrow> (nat option \<times> 'p) option"
    and release :: "'p \<Rightarrow> nat \<Rightarrow> 'p option"
    and used :: "'p \<Rightarrow> nat set"
    and contents :: "'p \<Rightarrow> nat \<Rightarrow> 'c"
    and invar :: "'p \<Rightarrow> bool"
    and capacity :: nat
  assumes used_bound: "invar p \<Longrightarrow> used p \<subseteq> {..<capacity}"
    and alloc_full: "invar p \<Longrightarrow> used p = {..<capacity} \<Longrightarrow>
          \<exists>p'. alloc p = Some (None, p') \<and> invar p' \<and> used p' = used p \<and> contents p' = contents p"
    and alloc_fresh: "invar p \<Longrightarrow> used p \<noteq> {..<capacity} \<Longrightarrow>
          \<exists>i p'. alloc p = Some (Some i, p') \<and> i < capacity \<and> i \<notin> used p \<and> invar p'
               \<and> used p' = insert i (used p) \<and> contents p' = contents p"
    and release_used: "invar p \<Longrightarrow> i \<in> used p \<Longrightarrow>
          \<exists>p'. release p i = Some p' \<and> invar p' \<and> used p' = used p - {i} \<and> contents p' = contents p"
begin

lemma used_finite: "invar p \<Longrightarrow> finite (used p)"
  using used_bound finite_subset by blast

lemma card_used: "invar p \<Longrightarrow> card (used p) \<le> capacity"
  using card_mono [OF _ used_bound] by fastforce

text \<open>An allocation never aborts, and returns \<^verbatim>\<open>NULL\<close> exactly when every slot is used.\<close>

lemma alloc_cases:
  assumes "invar p"
  obtains (full) p' where "used p = {..<capacity}" "alloc p = Some (None, p')" "invar p'"
      "used p' = used p" "contents p' = contents p"
  | (fresh) i p' where "card (used p) < capacity" "alloc p = Some (Some i, p')" "i < capacity"
      "i \<notin> used p" "invar p'" "used p' = insert i (used p)" "contents p' = contents p"
proof (cases "used p = {..<capacity}")
  case True
  with alloc_full [OF assms] full show ?thesis by blast
next
  case False
  have "card (used p) < capacity"
    using psubset_card_mono [of "{..<capacity}" "used p"] used_bound [OF assms] False by auto
  with alloc_fresh [OF assms False] fresh show ?thesis by blast
qed

text \<open>Allocating a slot and releasing it gives the slots in use before.\<close>

lemma alloc_release:
  assumes "invar p" and "alloc p = Some (Some i, p')"
  shows "\<exists>p''. release p' i = Some p'' \<and> invar p'' \<and> used p'' = used p \<and> contents p'' = contents p"
  using assms(1)
proof (cases rule: alloc_cases)
  case (full q)
  with assms(2) show ?thesis by simp
next
  case (fresh j q)
  with assms(2) have "j = i" "q = p'" by simp_all
  with fresh release_used [of p' i] show ?thesis by auto
qed

end

subsection \<open>The pool is an allocator\<close>

lemma pool_ok_init: "pool_ok (order_pool_init pool)"
  by (auto simp: pool_ok_def order_pool_init_def free_slots_def inj_on_def)

lemma allocated_init: "allocated (order_pool_init pool) = {}"
proof -
  have "free_slots (order_pool_init pool) = {..<MAX_ORDERS_IN_POOL}"
    by (force simp: free_slots_def order_pool_init_def)
  then show ?thesis by (simp add: allocated_def)
qed

lemma card_free_slots: "pool_ok pool \<Longrightarrow> card (free_slots pool) = p_free_count pool"
  by (simp add: pool_ok_def free_slots_def card_image)

lemma card_allocated: "pool_ok pool \<Longrightarrow> card (allocated pool) + p_free_count pool = MAX_ORDERS_IN_POOL"
proof -
  assume ok: "pool_ok pool"
  have "card (allocated pool) = card {..<MAX_ORDERS_IN_POOL} - card (free_slots pool)"
    unfolding allocated_def using ok by (intro card_Diff_subset) (auto simp: pool_ok_def free_slots_def)
  with card_free_slots [OF ok] ok show ?thesis by (simp add: pool_ok_def)
qed

lemma free_count_0_iff:
  assumes "pool_ok pool"
  shows "p_free_count pool = 0 \<longleftrightarrow> allocated pool = {..<MAX_ORDERS_IN_POOL}"
proof
  assume "allocated pool = {..<MAX_ORDERS_IN_POOL}"
  then have "card (allocated pool) = MAX_ORDERS_IN_POOL" by (metis card_lessThan)
  with card_allocated [OF assms] show "p_free_count pool = 0" by linarith
qed (simp add: allocated_def free_slots_def)

lemma order_pool_alloc_full:
  assumes "pool_ok pool" and "allocated pool = {..<MAX_ORDERS_IN_POOL}"
  shows "order_pool_alloc pool =
           Some (None, pool\<lparr>p_allocation_failures := p_allocation_failures pool + 1\<rparr>)"
  using assms free_count_0_iff by (simp add: order_pool_alloc_def asserts pool_ok_def)

lemma order_pool_alloc_fresh:
  assumes ok: "pool_ok pool" and room: "allocated pool \<noteq> {..<MAX_ORDERS_IN_POOL}"
  shows "\<exists>i pool'. order_pool_alloc pool = Some (Some i, pool') \<and> i < MAX_ORDERS_IN_POOL
           \<and> i \<notin> allocated pool \<and> pool_ok pool' \<and> allocated pool' = insert i (allocated pool)
           \<and> p_orders pool' = p_orders pool"
proof -
  define fc where "fc = p_free_count pool - 1"
  define i where "i = p_free_list pool fc"
  have fc: "p_free_count pool = Suc fc"
    using free_count_0_iff [OF ok] room by (simp add: fc_def)
  have inj: "inj_on (p_free_list pool) {..<Suc fc}" and sub: "free_slots pool \<subseteq> {..<MAX_ORDERS_IN_POOL}"
    and le: "Suc fc \<le> MAX_ORDERS_IN_POOL"
    using ok fc by (auto simp: pool_ok_def)
  have i: "i \<in> free_slots pool" by (auto simp: free_slots_def fc i_def)
  have fs: "free_slots pool = insert i (p_free_list pool ` {..<fc})"
    by (simp add: free_slots_def fc i_def lessThan_Suc)
  have nin: "i \<notin> p_free_list pool ` {..<fc}"
    using inj unfolding inj_on_def i_def by (metis imageE less_irrefl less_Suc_eq lessThan_iff)
  define pool' where "pool' = snd (the (order_pool_alloc pool))"
  have alloc: "order_pool_alloc pool = Some (Some i, pool')"
    using i sub le by (auto simp: pool'_def order_pool_alloc_def asserts fc Let_def i_def)
  moreover have fs': "free_slots pool' = p_free_list pool ` {..<fc}"
    using i sub le by (auto simp: pool'_def order_pool_alloc_def asserts fc Let_def i_def free_slots_def)
  moreover have "pool_ok pool'"
    using i sub le inj fs fs' by (auto simp: pool'_def order_pool_alloc_def asserts fc Let_def i_def pool_ok_def inj_on_def)
  moreover have "p_orders pool' = p_orders pool"
    using i sub le by (auto simp: pool'_def order_pool_alloc_def asserts fc Let_def i_def)
  ultimately show ?thesis
    using i sub fs nin by (auto simp: allocated_def)
qed

lemma order_pool_free_used:
  assumes ok: "pool_ok pool" and i: "i \<in> allocated pool"
  shows "\<exists>pool'. order_pool_free pool i = Some pool' \<and> pool_ok pool'
           \<and> allocated pool' = allocated pool - {i} \<and> p_orders pool' = p_orders pool"
proof -
  have lt: "i < MAX_ORDERS_IN_POOL" and nin: "i \<notin> free_slots pool"
    using i by (auto simp: allocated_def)
  have "card (allocated pool) > 0"
    using i by (auto simp: card_gt_0_iff allocated_def)
  with card_allocated [OF ok] have fc: "p_free_count pool < MAX_ORDERS_IN_POOL" by linarith
  define pool' where "pool' = the (order_pool_free pool i)"
  have free: "order_pool_free pool i = Some pool'"
    using lt fc by (simp add: pool'_def order_pool_free_def asserts)
  have fs: "free_slots pool' = insert i (free_slots pool)"
    using lt fc by (auto simp: pool'_def order_pool_free_def asserts free_slots_def lessThan_Suc)
  have "pool_ok pool'"
    using ok lt fc nin fs
    by (auto simp: pool_ok_def pool'_def order_pool_free_def asserts free_slots_def inj_on_def less_Suc_eq)
  moreover have "p_orders pool' = p_orders pool"
    using lt fc by (simp add: pool'_def order_pool_free_def asserts)
  ultimately show ?thesis
    using free fs by (auto simp: allocated_def)
qed

interpretation pool: allocator order_pool_alloc order_pool_free allocated p_orders pool_ok MAX_ORDERS_IN_POOL
proof unfold_locales
  fix p
  assume ok: "pool_ok p"
  show "allocated p \<subseteq> {..<MAX_ORDERS_IN_POOL}" by (auto simp: allocated_def)
  show "\<exists>p'. order_pool_alloc p = Some (None, p') \<and> pool_ok p' \<and> allocated p' = allocated p
          \<and> p_orders p' = p_orders p" if "allocated p = {..<MAX_ORDERS_IN_POOL}"
    using order_pool_alloc_full [OF ok that] ok
    by (auto simp: pool_ok_def allocated_def free_slots_def)
  show "\<exists>i p'. order_pool_alloc p = Some (Some i, p') \<and> i < MAX_ORDERS_IN_POOL \<and> i \<notin> allocated p
          \<and> pool_ok p' \<and> allocated p' = insert i (allocated p) \<and> p_orders p' = p_orders p"
    if "allocated p \<noteq> {..<MAX_ORDERS_IN_POOL}"
    by (rule order_pool_alloc_fresh [OF ok that])
  show "\<exists>p'. order_pool_free p i = Some p' \<and> pool_ok p' \<and> allocated p' = allocated p - {i}
          \<and> p_orders p' = p_orders p" if "i \<in> allocated p" for i
    by (rule order_pool_free_used [OF ok that])
qed

lemma pool_orders_update [simp]:
  "allocated (pool\<lparr>p_orders := h\<rparr>) = allocated pool" "pool_ok (pool\<lparr>p_orders := h\<rparr>) = pool_ok pool"
  by (simp_all add: allocated_def free_slots_def pool_ok_def)

end
