(* ===== verification/ME_Order_List.thy ===== *)
theory ME_Order_List
  imports ME_Pool
begin

text \<open>
  The doubly-linked lists of orders of \<^verbatim>\<open>src/core/order_book.c\<close>: \<open>list_append\<close>,
  \<open>list_remove\<close>, \<open>list_free_all\<close>.  The links are stored in the orders, so the lists live
  in the pool's memory \<open>h :: nat \<Rightarrow> order_t\<close>; \<open>dls h hp xs tp\<close> says that the list with head
  \<open>hp\<close> and tail \<open>tp\<close> is the sequence of slots \<open>xs\<close>, in both directions.
\<close>

type_synonym order_heap = "nat \<Rightarrow> order_t"

definition list_append ::
  "order_heap \<Rightarrow> order_ptr \<Rightarrow> order_ptr \<Rightarrow> nat \<Rightarrow> order_heap \<times> order_ptr \<times> order_ptr" where
  "list_append h hp tp order =
     (let h1 = h(order := (h order)\<lparr>o_next := None, o_prev := tp\<rparr>);
          h2 = (case tp of
                  Some old_tail \<Rightarrow> h1(old_tail := (h1 old_tail)\<lparr>o_next := Some order\<rparr>)
                | None \<Rightarrow> h1);
          hp' = (if hp = None then Some order else hp)
      in (h2, hp', Some order))"

definition list_remove ::
  "order_heap \<Rightarrow> order_ptr \<Rightarrow> order_ptr \<Rightarrow> nat \<Rightarrow> order_heap \<times> order_ptr \<times> order_ptr" where
  "list_remove h hp tp order =
     (let prev_order = o_prev (h order);
          next_order = o_next (h order);
          (h1, hp') = (case prev_order of
                         Some p \<Rightarrow> (h(p := (h p)\<lparr>o_next := next_order\<rparr>), hp)
                       | None \<Rightarrow> (h, next_order));
          (h2, tp') = (case next_order of
                         Some n \<Rightarrow> (h1(n := (h1 n)\<lparr>o_prev := prev_order\<rparr>), tp)
                       | None \<Rightarrow> (h1, prev_order))
      in (h2(order := (h2 order)\<lparr>o_next := None, o_prev := None\<rparr>), hp', tp'))"

text \<open>
  The loop of \<open>list_free_all\<close>, with the iterations that are left as its first argument;
  the final assertion fails when none is.
\<close>

fun list_free_all_loop :: "nat \<Rightarrow> order_ptr \<Rightarrow> order_pool_t \<Rightarrow> order_pool_t option" where
  "list_free_all_loop 0 current pool = None"
| "list_free_all_loop (Suc n) None pool = Some pool"
| "list_free_all_loop (Suc n) (Some order) pool = do {
     let next = o_next (p_orders pool order);
     pool' \<leftarrow> order_pool_free pool order;
     list_free_all_loop n next pool'
   }"

definition list_free_all :: "order_ptr \<Rightarrow> order_pool_t \<Rightarrow> order_pool_t option" where
  "list_free_all hp pool = list_free_all_loop MAX_ORDERS_IN_POOL hp pool"

subsection \<open>List segments\<close>

fun seg :: "order_heap \<Rightarrow> order_ptr \<Rightarrow> order_ptr \<Rightarrow> nat list \<Rightarrow> order_ptr \<Rightarrow> order_ptr \<Rightarrow> bool" where
  "seg h pr p [] l q \<longleftrightarrow> p = q \<and> l = pr"
| "seg h pr p (x # xs) l q \<longleftrightarrow> p = Some x \<and> o_prev (h x) = pr \<and> seg h (Some x) (o_next (h x)) xs l q"

definition dls :: "order_heap \<Rightarrow> order_ptr \<Rightarrow> nat list \<Rightarrow> order_ptr \<Rightarrow> bool" where
  "dls h hp xs tp \<longleftrightarrow> seg h None hp xs tp None \<and> distinct xs"

lemma seg_append:
  "seg h pr p (xs @ ys) l q \<longleftrightarrow> (\<exists>m r. seg h pr p xs m r \<and> seg h m r ys l q)"
  by (induction xs arbitrary: pr p) auto

lemma seg_cong:
  "(\<And>x. x \<in> set xs \<Longrightarrow> o_next (h' x) = o_next (h x) \<and> o_prev (h' x) = o_prev (h x)) \<Longrightarrow>
     seg h' pr p xs l q = seg h pr p xs l q"
  by (induction xs arbitrary: pr p) auto

lemma dls_cong:
  "(\<And>x. x \<in> set xs \<Longrightarrow> o_next (h' x) = o_next (h x) \<and> o_prev (h' x) = o_prev (h x)) \<Longrightarrow>
     dls h' hp xs tp = dls h hp xs tp"
  using seg_cong [of xs h' h] by (simp add: dls_def)

lemma dls_Nil [simp]: "dls h hp [] tp \<longleftrightarrow> hp = None \<and> tp = None"
  by (auto simp: dls_def)

lemma dls_head: "dls h hp xs tp \<Longrightarrow> hp = (case xs of [] \<Rightarrow> None | x # _ \<Rightarrow> Some x)"
  by (cases xs) (auto simp: dls_def)

lemma dls_head_None: "dls h hp xs tp \<Longrightarrow> hp = None \<longleftrightarrow> xs = []"
  by (cases xs) (auto simp: dls_def)

lemma dls_next: "dls h hp (x # xs) tp \<Longrightarrow> o_next (h x) = (case xs of [] \<Rightarrow> None | y # _ \<Rightarrow> Some y)"
  by (cases xs) (auto simp: dls_def)

lemma dls_distinct: "dls h hp xs tp \<Longrightarrow> distinct xs"
  by (simp add: dls_def)

lemma seg_snoc:
  "seg h pr p (xs @ [x]) l q \<longleftrightarrow> (\<exists>m. seg h pr p xs m (Some x) \<and> o_prev (h x) = m \<and> l = Some x \<and> q = o_next (h x))"
  by (auto simp: seg_append)

subsection \<open>Appending and removing\<close>

lemma list_append_correct:
  assumes "dls h hp xs tp" and "x \<notin> set xs" and "list_append h hp tp x = (h', hp', tp')"
  shows "dls h' hp' (xs @ [x]) tp'"
    and "strip (h' y) = strip (h y)"
    and "y \<notin> insert x (set xs) \<Longrightarrow> h' y = h y"
proof -
  show "strip (h' y) = strip (h y)"
    using assms(3) by (auto simp: list_append_def Let_def split: option.splits if_splits)
  show "dls h' hp' (xs @ [x]) tp'"
  proof (cases xs rule: rev_cases)
    case Nil
    with assms show ?thesis by (auto simp: list_append_def Let_def dls_def)
  next
    case (snoc ys z)
    with assms have tp: "tp = Some z" and hp: "hp \<noteq> None" and xz: "x \<noteq> z" and xy: "x \<notin> set ys"
      and zy: "z \<notin> set ys"
      by (auto simp: dls_def seg_snoc) (cases ys; auto)
    have h': "h' = (h(x := (h x)\<lparr>o_next := None, o_prev := Some z\<rparr>))(z := (h z)\<lparr>o_next := Some x\<rparr>)"
      and hp': "hp' = hp" and tp': "tp' = Some x"
      using assms(3) tp hp xz by (auto simp: list_append_def Let_def)
    have "seg h' None hp ys (o_prev (h z)) (Some z)"
      using assms(1) snoc xy zy
      by (subst seg_cong [of ys h' h]) (auto simp: dls_def seg_snoc h')
    with assms(1,2) snoc xz show ?thesis
      by (simp add: dls_def seg_append hp' tp') (auto simp: seg_append h')
  qed
  show "y \<notin> insert x (set xs) \<Longrightarrow> h' y = h y"
  proof (cases xs rule: rev_cases)
    case Nil
    with assms show "y \<notin> insert x (set xs) \<Longrightarrow> h' y = h y"
      by (auto simp: list_append_def Let_def dls_def)
  next
    case (snoc ys z)
    with assms show "y \<notin> insert x (set xs) \<Longrightarrow> h' y = h y"
      by (auto simp: list_append_def Let_def dls_def seg_snoc)
  qed
qed

lemma list_remove_correct:
  assumes "dls h hp (xs @ x # ys) tp" and "list_remove h hp tp x = (h', hp', tp')"
  shows "dls h' hp' (xs @ ys) tp'"
    and "strip (h' y) = strip (h y)"
    and "y \<notin> set (xs @ x # ys) \<Longrightarrow> h' y = h y"
proof -
  have dist: "distinct (xs @ x # ys)" using assms(1) by (simp add: dls_def)
  from assms(1) obtain m where seg1: "seg h None hp xs m (Some x)" and prev: "o_prev (h x) = m"
    and seg2: "seg h (Some x) (o_next (h x)) ys tp None"
    by (auto simp: dls_def seg_append)
  show "strip (h' y) = strip (h y)"
    using assms(2) by (auto simp: list_remove_def Let_def split: option.splits if_splits prod.splits)
  show "dls h' hp' (xs @ ys) tp'"
  proof (cases xs rule: rev_cases)
    case Nil
    with seg1 prev have p: "o_prev (h x) = None" by simp
    show ?thesis
    proof (cases ys)
      case Nil
      with assms(2) \<open>xs = []\<close> p seg2 show ?thesis
        by (auto simp: list_remove_def Let_def)
    next
      case (Cons n zs)
      with seg2 have n: "o_next (h x) = Some n" by simp
      have h': "h' = (h(n := (h n)\<lparr>o_prev := None\<rparr>))(x := (h x)\<lparr>o_next := None, o_prev := None\<rparr>)"
        and hp': "hp' = Some n" and tp': "tp' = tp"
        using assms(2) p n dist Cons by (auto simp: list_remove_def Let_def)
      have "seg h' (Some n) (o_next (h n)) zs tp None"
        using seg2 dist Cons by (subst seg_cong [of zs h' h]) (auto simp: h')
      with dist Cons \<open>xs = []\<close> show ?thesis by (auto simp: dls_def hp' tp' h')
    qed
  next
    case (snoc ws p)
    with seg1 prev have p: "o_prev (h x) = Some p" and px: "o_next (h p) = Some x"
      and segw: "seg h None hp ws (o_prev (h p)) (Some p)"
      by (auto simp: seg_snoc)
    show ?thesis
    proof (cases ys)
      case Nil
      with seg2 have n: "o_next (h x) = None" by simp
      have h': "h' = (h(p := (h p)\<lparr>o_next := None\<rparr>))(x := (h x)\<lparr>o_next := None, o_prev := None\<rparr>)"
        and hp': "hp' = hp" and tp': "tp' = Some p"
        using assms(2) p n dist snoc by (auto simp: list_remove_def Let_def)
      have "seg h' None hp ws (o_prev (h p)) (Some p)"
        using segw dist snoc by (subst seg_cong [of ws h' h]) (auto simp: h')
      with dist snoc Nil show ?thesis by (auto simp: dls_def seg_snoc hp' tp' h')
    next
      case (Cons n zs)
      with seg2 have n: "o_next (h x) = Some n" by simp
      have h': "h' = (h(p := (h p)\<lparr>o_next := Some n\<rparr>, n := (h n)\<lparr>o_prev := Some p\<rparr>))
                      (x := (h x)\<lparr>o_next := None, o_prev := None\<rparr>)"
        and hp': "hp' = hp" and tp': "tp' = tp"
        using assms(2) p n dist Cons snoc by (auto simp: list_remove_def Let_def)
      have "seg h' None hp ws (o_prev (h p)) (Some p)"
        using segw dist snoc Cons by (subst seg_cong [of ws h' h]) (auto simp: h')
      moreover have "seg h' (Some n) (o_next (h n)) zs tp None"
        using seg2 dist Cons snoc by (subst seg_cong [of zs h' h]) (auto simp: h')
      ultimately show ?thesis
        using dist snoc Cons by (auto simp: dls_def seg_append hp' tp' h')
    qed
  qed
  show "h' y = h y" if "y \<notin> set (xs @ x # ys)"
  proof -
    have "o_prev (h x) \<noteq> Some y"
      using seg1 prev that by (cases xs rule: rev_cases) (auto simp: seg_snoc)
    moreover have "o_next (h x) \<noteq> Some y"
      using seg2 that by (cases ys) auto
    ultimately show ?thesis
      using assms(2) that by (auto simp: list_remove_def Let_def split: option.splits)
  qed
qed

subsection \<open>Freeing a list\<close>

lemma list_free_all_loop_correct:
  assumes "seg (p_orders pool) pr p xs l None" and "distinct xs" and "pool_ok pool"
    and "set xs \<subseteq> allocated pool" and "length xs < n"
  shows "\<exists>pool'. list_free_all_loop n p pool = Some pool' \<and> pool_ok pool'
           \<and> allocated pool' = allocated pool - set xs \<and> p_orders pool' = p_orders pool"
  using assms
proof (induction xs arbitrary: pr p pool n)
  case Nil
  then show ?case by (cases n) auto
next
  case (Cons x xs)
  then obtain k where n: "n = Suc k" "length xs < k" by (cases n) auto
  from Cons.prems obtain pool1 where p1: "order_pool_free pool x = Some pool1" "pool_ok pool1"
      "allocated pool1 = allocated pool - {x}" "p_orders pool1 = p_orders pool"
    using order_pool_free_used [of pool x] by auto
  have "\<exists>pool'. list_free_all_loop k (o_next (p_orders pool x)) pool1 = Some pool' \<and> pool_ok pool'
           \<and> allocated pool' = allocated pool1 - set xs \<and> p_orders pool' = p_orders pool1"
    using Cons.prems p1 n by (intro Cons.IH) auto
  with Cons.prems p1 n show ?case by auto
qed

lemma list_free_all_correct:
  assumes "dls (p_orders pool) hp xs tp" and "pool_ok pool" and "set xs \<subseteq> allocated pool"
    and "length xs < MAX_ORDERS_IN_POOL"
  shows "\<exists>pool'. list_free_all hp pool = Some pool' \<and> pool_ok pool'
           \<and> allocated pool' = allocated pool - set xs \<and> p_orders pool' = p_orders pool"
  using assms list_free_all_loop_correct [of pool None hp xs tp MAX_ORDERS_IN_POOL]
  by (simp add: dls_def list_free_all_def)

lemma list_free_all_None [simp]: "list_free_all None pool = Some pool"
  by (simp add: list_free_all_def numeral_eq_Suc)

end
