(* ===== verification/ME_Price_Levels.thy ===== *)
theory ME_Price_Levels
  imports ME_Order_List
begin

text \<open>
  The sorted arrays of price levels of \<^verbatim>\<open>src/core/order_book.c\<close>: bids descending, asks
  ascending.  \<open>find_price_level\<close> is a binary search, \<open>insert_price_level\<close> and
  \<open>remove_price_level\<close> shift the array with \<^verbatim>\<open>memmove\<close>.
\<close>

abbreviation MAX_PRICE_LEVELS :: nat where
  "MAX_PRICE_LEVELS \<equiv> 512"

record price_level_t =
  l_price :: u32
  l_total_quantity :: u32
  l_orders_head :: order_ptr
  l_orders_tail :: order_ptr
  l_active :: bool

type_synonym level_array = "nat \<Rightarrow> price_level_t"

text \<open>A level after \<^verbatim>\<open>memset(level, 0, sizeof(price_level_t))\<close>.\<close>

definition zero_level :: price_level_t where
  "zero_level = \<lparr>l_price = 0, l_total_quantity = 0, l_orders_head = None, l_orders_tail = None,
                 l_active = False\<rparr>"

function find_price_level_loop :: "level_array \<Rightarrow> u32 \<Rightarrow> bool \<Rightarrow> int \<Rightarrow> int \<Rightarrow> int" where
  "find_price_level_loop levels price descending left right =
     (if left \<le> right then
        let mid = left + (right - left) div 2 in
        if l_price (levels (nat mid)) = price then mid
        else if descending then
          (if l_price (levels (nat mid)) > price
           then find_price_level_loop levels price descending (mid + 1) right
           else find_price_level_loop levels price descending left (mid - 1))
        else
          (if l_price (levels (nat mid)) < price
           then find_price_level_loop levels price descending (mid + 1) right
           else find_price_level_loop levels price descending left (mid - 1))
      else -1)"
  by pat_completeness auto
termination
  by (relation "measure (\<lambda>(levels, price, descending, left, right). nat (right - left + 1))") auto

declare find_price_level_loop.simps [simp del]

definition find_price_level :: "level_array \<Rightarrow> nat \<Rightarrow> u32 \<Rightarrow> bool \<Rightarrow> int option" where
  "find_price_level levels num_levels price descending = do {
     assert_that (num_levels \<le> MAX_PRICE_LEVELS);
     Some (if num_levels = 0 then -1
           else find_price_level_loop levels price descending 0 (int num_levels - 1))
   }"

definition insert_price_level ::
  "level_array \<Rightarrow> nat \<Rightarrow> u32 \<Rightarrow> bool \<Rightarrow> (level_array \<times> nat \<times> int) option" where
  "insert_price_level levels num_levels price descending = do {
     assert_that (num_levels < MAX_PRICE_LEVELS);
     let insert_pos =
       (case for_return (min num_levels MAX_PRICE_LEVELS) 0 (\<lambda>i.
               if (if descending then price > l_price (levels i) else price < l_price (levels i))
               then Some i else None)
        of Some i \<Rightarrow> i | None \<Rightarrow> num_levels);
     let levels1 = (if insert_pos < num_levels then arr_shift_up levels insert_pos num_levels else levels);
     let levels2 = levels1(insert_pos := zero_level\<lparr>l_price := price, l_total_quantity := 0,
                             l_orders_head := None, l_orders_tail := None, l_active := True\<rparr>);
     Some (levels2, num_levels + 1, int insert_pos)
   }"

definition remove_price_level ::
  "level_array \<Rightarrow> nat \<Rightarrow> nat \<Rightarrow> order_pool_t \<Rightarrow> (level_array \<times> nat \<times> order_pool_t) option" where
  "remove_price_level levels num_levels index pool =
     (if index \<ge> num_levels then Some (levels, num_levels, pool)
      else do {
        pool' \<leftarrow> list_free_all (l_orders_head (levels index)) pool;
        let levels' = (if index < num_levels - 1 then arr_shift_down levels index num_levels else levels);
        Some (levels', num_levels - 1, pool')
      })"

subsection \<open>Price order\<close>

text \<open>\<open>better True\<close> is the order of the bids, \<open>better False\<close> that of the asks.\<close>

definition better :: "bool \<Rightarrow> u32 \<Rightarrow> u32 \<Rightarrow> bool" where
  "better descending p q = (if descending then p > q else p < q)"

lemma better_irrefl [simp]: "\<not> better d p p"
  by (simp add: better_def)

lemma better_trans: "better d p q \<Longrightarrow> better d q r \<Longrightarrow> better d p r"
  by (auto simp: better_def split: if_splits)

lemma better_total: "p \<noteq> q \<Longrightarrow> \<not> better d p q \<Longrightarrow> better d q p"
  by (auto simp: better_def split: if_splits)

lemma better_asym: "better d p q \<Longrightarrow> \<not> better d q p"
  by (auto simp: better_def split: if_splits)

definition levels_sorted :: "bool \<Rightarrow> u32 list \<Rightarrow> bool" where
  "levels_sorted d ps = sorted_wrt (better d) ps"

lemma levels_sorted_distinct: "levels_sorted d ps \<Longrightarrow> distinct ps"
  unfolding levels_sorted_def by (induction ps) auto

subsection \<open>Binary search\<close>

lemma find_price_level_loop_step:
  "find_price_level_loop levels price d left right =
     (if left \<le> right then
        let mid = left + (right - left) div 2; p = l_price (levels (nat mid)) in
        if p = price then mid
        else if better d p price then find_price_level_loop levels price d (mid + 1) right
        else find_price_level_loop levels price d left (mid - 1)
      else -1)"
  by (subst find_price_level_loop.simps) (auto simp: better_def Let_def)

text \<open>
  The search keeps every index that holds the price between its bounds, so it finds the
  price exactly when the array has it.
\<close>

lemma find_price_level_loop_correct:
  assumes "levels_sorted d (map l_price (arr_list levels n))"
    and "0 \<le> left" and "right < int n"
    and "\<And>i. i < n \<Longrightarrow> l_price (levels i) = price \<Longrightarrow> left \<le> int i \<and> int i \<le> right"
  shows "let r = find_price_level_loop levels price d left right in
         (r = -1 \<and> price \<notin> l_price ` levels ` {..<n}) \<or>
         (0 \<le> r \<and> r < int n \<and> l_price (levels (nat r)) = price)"
  using assms
proof (induction "nat (right - left + 1)" arbitrary: left right rule: less_induct)
  case less
  have sorted: "better d (l_price (levels i)) (l_price (levels j))" if "i < j" "j < n" for i j
    using less.prems(1) that by (simp add: levels_sorted_def sorted_wrt_iff_nth_less)
  show ?case
  proof (cases "left \<le> right")
    case False
    then show ?thesis using less.prems(4) by (subst find_price_level_loop_step) force
  next
    case True
    define mid where "mid = left + (right - left) div 2"
    have mid: "left \<le> mid" "mid \<le> right" using True by (auto simp: mid_def)
    have midn: "nat mid < n" "int (nat mid) = mid" using mid less.prems(2,3) by auto
    let ?p = "l_price (levels (nat mid))"
    consider "?p = price" | "?p \<noteq> price" "better d ?p price" | "better d price ?p"
      using better_total by blast
    then show ?thesis
    proof cases
      case 1
      with True mid midn less.prems show ?thesis
        by (subst find_price_level_loop_step) (auto simp: mid_def [symmetric] Let_def)
    next
      case 2
      have "mid + 1 \<le> int i \<and> int i \<le> right" if "i < n" "l_price (levels i) = price" for i
      proof -
        have "\<not> i < nat mid" using sorted [of i "nat mid"] 2 that midn better_asym by auto
        moreover have "i \<noteq> nat mid" using 2 that by auto
        ultimately show ?thesis using less.prems(4) [OF that] midn by linarith
      qed
      with less.hyps [of right "mid + 1"] less.prems mid 2 True show ?thesis
        by (subst find_price_level_loop_step) (auto simp: mid_def [symmetric] Let_def)
    next
      case 3
      have "left \<le> int i \<and> int i \<le> mid - 1" if "i < n" "l_price (levels i) = price" for i
      proof -
        have "\<not> nat mid < i" using sorted [of "nat mid" i] 3 that midn better_asym by auto
        moreover have "i \<noteq> nat mid" using 3 that by auto
        ultimately show ?thesis using less.prems(4) [OF that] midn by linarith
      qed
      with less.hyps [of "mid - 1" left] less.prems mid 3 True better_asym [OF 3] show ?thesis
        by (subst find_price_level_loop_step) (auto simp: mid_def [symmetric] Let_def)
    qed
  qed
qed

lemma find_price_level_correct:
  assumes "n \<le> MAX_PRICE_LEVELS" and "levels_sorted d (map l_price (arr_list levels n))"
  shows "\<exists>r. find_price_level levels n price d = Some r \<and>
          ((r = -1 \<and> (\<forall>i<n. l_price (levels i) \<noteq> price)) \<or>
           (0 \<le> r \<and> nat r < n \<and> l_price (levels (nat r)) = price))"
proof (cases "n = 0")
  case True
  then show ?thesis by (simp add: find_price_level_def asserts)
next
  case False
  with find_price_level_loop_correct [OF assms(2), of 0 "int n - 1" price] assms(1) show ?thesis
    by (auto simp: find_price_level_def asserts Let_def)
qed

subsection \<open>Inserting and removing levels\<close>

definition new_level :: "u32 \<Rightarrow> price_level_t" where
  "new_level price = \<lparr>l_price = price, l_total_quantity = 0, l_orders_head = None,
                      l_orders_tail = None, l_active = True\<rparr>"

definition insert_index :: "bool \<Rightarrow> u32 \<Rightarrow> price_level_t list \<Rightarrow> nat" where
  "insert_index d price ls = length (takeWhile (\<lambda>l. \<not> better d price (l_price l)) ls)"

lemma insert_index_le: "insert_index d price ls \<le> length ls"
  by (simp add: insert_index_def length_takeWhile_le)

lemma for_return_takeWhile:
  "(case for_return n 0 (\<lambda>i. if P (a i) then Some i else None) of Some i \<Rightarrow> i | None \<Rightarrow> n)
     = length (takeWhile (\<lambda>x. \<not> P x) (arr_list a n))"
proof (cases "for_return n 0 (\<lambda>i. if P (a i) then Some i else None)")
  case None
  then have "\<forall>i<n. \<not> P (a i)" by (auto simp: for_return_None split: if_splits)
  then have "takeWhile (\<lambda>x. \<not> P x) (arr_list a n) = arr_list a n"
    by (auto simp: takeWhile_eq_all_conv set_arr_list)
  then have "length (takeWhile (\<lambda>x. \<not> P x) (arr_list a n)) = n" by (metis length_arr_list)
  with None show ?thesis by simp
next
  case (Some i)
  then have "i < n" "P (a i)" "\<forall>j<i. \<not> P (a j)"
    by (auto simp: for_return_Some split: if_splits)
  then have "takeWhile (\<lambda>x. \<not> P x) (arr_list a n) = take i (arr_list a n)"
    by (intro takeWhile_eq_take_P_nth) auto
  with Some \<open>i < n\<close> show ?thesis by simp
qed

lemma insert_price_level_eq:
  fixes levels :: level_array and d :: bool and price :: u32
  assumes "n < MAX_PRICE_LEVELS"
  defines "p \<equiv> insert_index d price (arr_list levels n)"
  shows "\<exists>levels'. insert_price_level levels n price d = Some (levels', Suc n, int p)
           \<and> arr_list levels' (Suc n) = take p (arr_list levels n) @ new_level price # drop p (arr_list levels n)"
proof -
  have p: "p \<le> n" using insert_index_le [of d price "arr_list levels n"] by (simp add: p_def)
  have "(if d then price > l_price (levels i) else price < l_price (levels i)) = better d price (l_price (levels i))" for i
    by (simp add: better_def)
  then have pos: "(case for_return (min n MAX_PRICE_LEVELS) 0 (\<lambda>i.
               if (if d then price > l_price (levels i) else price < l_price (levels i))
               then Some i else None) of Some i \<Rightarrow> i | None \<Rightarrow> n) = p"
    using assms(1) for_return_takeWhile [of n "\<lambda>l. better d price (l_price l)" levels]
    by (simp add: p_def insert_index_def)
  have nl: "zero_level\<lparr>l_price := price, l_total_quantity := 0, l_orders_head := None,
              l_orders_tail := None, l_active := True\<rparr> = new_level price"
    by (simp add: zero_level_def new_level_def)
  define levels1 where "levels1 = (if p < n then arr_shift_up levels p n else levels)"
  have "levels1(p := x) = (arr_shift_up levels p n)(p := x)" if "p = n" for x
    using that by (auto simp: levels1_def arr_shift_up_def fun_eq_iff)
  then have "levels1(p := new_level price) = (arr_shift_up levels p n)(p := new_level price)"
    using p by (cases "p = n") (auto simp: levels1_def)
  with arr_list_shift_up [OF p, of levels "new_level price"]
  have "arr_list (levels1(p := new_level price)) (Suc n)
          = take p (arr_list levels n) @ new_level price # drop p (arr_list levels n)"
    by simp
  moreover have "insert_price_level levels n price d = Some (levels1(p := new_level price), Suc n, int p)"
    using assms(1) unfolding insert_price_level_def pos nl Let_def levels1_def
    by (simp add: asserts)
  ultimately show ?thesis by blast
qed

text \<open>The position keeps the array sorted when the price is new.\<close>

lemma insert_index_sorted:
  fixes ls :: "price_level_t list" and d :: bool and price :: u32
  assumes "levels_sorted d (map l_price ls)" and "price \<notin> l_price ` set ls"
  defines "p \<equiv> insert_index d price ls"
  shows "levels_sorted d (map l_price (take p ls @ new_level price # drop p ls))"
proof -
  have before: "better d (l_price l) price" if "l \<in> set (take p ls)" for l
  proof -
    have "take p ls = takeWhile (\<lambda>l. \<not> better d price (l_price l)) ls"
      by (simp add: p_def insert_index_def takeWhile_eq_take [symmetric])
    with that have "\<not> better d price (l_price l)" "l \<in> set ls"
      by (auto dest: set_takeWhileD)
    with assms(2) show ?thesis by (intro better_total) auto
  qed
  have after: "better d price (l_price l)" if l: "l \<in> set (drop p ls)" for l
  proof -
    have ne: "drop p ls \<noteq> []" using l by auto
    have dw: "drop p ls = dropWhile (\<lambda>l. \<not> better d price (l_price l)) ls"
      by (simp add: p_def insert_index_def dropWhile_eq_drop)
    with ne have first: "better d price (l_price (hd (drop p ls)))"
      using hd_dropWhile by metis
    have "sorted_wrt (better d) (map l_price (drop p ls))"
      using assms(1) sorted_wrt_drop [of "better d" "map l_price ls" p]
      by (simp add: levels_sorted_def drop_map)
    with ne l first show ?thesis
      by (cases "drop p ls") (auto intro: better_trans)
  qed
  have "sorted_wrt (better d) (map l_price (take p ls))" "sorted_wrt (better d) (map l_price (drop p ls))"
    using assms(1) by (simp_all add: levels_sorted_def sorted_wrt_take sorted_wrt_drop take_map [symmetric] drop_map [symmetric])
  moreover have "better d x y" if "x \<in> l_price ` set (take p ls)" "y \<in> l_price ` set (drop p ls)" for x y
    using that before after better_trans by blast
  ultimately show ?thesis
    using before after by (auto simp: levels_sorted_def sorted_wrt_append new_level_def)
qed

lemma remove_price_level_empty:
  assumes "i < n" and "l_orders_head (levels i) = None"
  shows "\<exists>levels'. remove_price_level levels n i pool = Some (levels', n - 1, pool)
           \<and> arr_list levels' (n - 1) = take i (arr_list levels n) @ drop (Suc i) (arr_list levels n)"
proof -
  define levels' where "levels' = (if i < n - 1 then arr_shift_down levels i n else levels)"
  have "arr_list levels' (n - 1) = arr_list (arr_shift_down levels i n) (n - 1)"
    by (rule arr_list_cong) (auto simp: levels'_def arr_shift_down_def)
  with arr_list_shift_down [OF assms(1), of levels] assms show ?thesis
    by (auto simp: remove_price_level_def levels'_def)
qed

end
