(* ===== verification/ME_Order_Book.thy ===== *)
theory ME_Order_Book
  imports ME_Price_Levels ME_Order_Map
begin

text \<open>
  The order book of one symbol: \<^verbatim>\<open>src/core/order_book.c\<close> and \<^verbatim>\<open>include/core/order_book.h\<close>.
  The functions of the source take pointers to the book, through it to the shared memory
  pools, and to the output buffer; here the three objects are the fields of the record
  \<open>ctx\<close>, which every operation takes and returns.

  The source picks the arrays of a side by pointer (\<^verbatim>\<open>levels = book->bids;
  num_levels = &book->num_bid_levels\<close>); the model does it with a flag: \<open>True\<close> is the bid
  side, \<open>False\<close> the ask side, the value of \<^verbatim>\<open>descending\<close> for its array.
\<close>

abbreviation MAX_OUTPUT_MESSAGES :: nat where
  "MAX_OUTPUT_MESSAGES \<equiv> 8192"

abbreviation FLUSH_BATCH_SIZE :: nat where
  "FLUSH_BATCH_SIZE \<equiv> 4096"

abbreviation MAX_MATCH_ITERATIONS :: nat where
  "MAX_MATCH_ITERATIONS \<equiv> 10240"

abbreviation MAX_ORDERS_AT_PRICE_LEVEL :: nat where
  "MAX_ORDERS_AT_PRICE_LEVEL \<equiv> 200"

record flush_state_t =
  fs_current_order :: order_ptr
  fs_current_bid_level :: nat
  fs_current_ask_level :: nat
  fs_in_progress :: bool
  fs_processing_bids :: bool
  fs_bids_done :: bool
  fs_asks_done :: bool

definition zero_flush_state :: flush_state_t where
  "zero_flush_state = \<lparr>fs_current_order = None, fs_current_bid_level = 0, fs_current_ask_level = 0,
     fs_in_progress = False, fs_processing_bids = False, fs_bids_done = False, fs_asks_done = False\<rparr>"

record order_book_t =
  ob_symbol :: string
  ob_bids :: level_array
  ob_asks :: level_array
  ob_num_bid_levels :: nat
  ob_num_ask_levels :: nat
  ob_order_map :: order_map_t
  ob_prev_best_bid_price :: u32
  ob_prev_best_bid_qty :: u32
  ob_prev_best_ask_price :: u32
  ob_prev_best_ask_qty :: u32
  ob_bid_side_ever_active :: bool
  ob_ask_side_ever_active :: bool
  ob_flush_state :: flush_state_t

text \<open>
  The output buffer: the messages in it, oldest first; \<^verbatim>\<open>count\<close> is the length of the
  list.
\<close>

type_synonym output_buffer_t = "output_msg_t list"

record ctx =
  cx_book :: order_book_t
  cx_pool :: order_pool_t
  cx_out :: output_buffer_t

definition output_buffer_init :: output_buffer_t where
  "output_buffer_init = []"

definition output_buffer_has_space :: "output_buffer_t \<Rightarrow> nat \<Rightarrow> bool option" where
  "output_buffer_has_space buf needed = do {
     assert_that (length buf \<le> MAX_OUTPUT_MESSAGES);
     Some (length buf + needed \<le> MAX_OUTPUT_MESSAGES)
   }"

definition output_buffer_add :: "output_buffer_t \<Rightarrow> output_msg_t \<Rightarrow> output_buffer_t option" where
  "output_buffer_add buf msg = do {
     assert_that (length buf \<le> MAX_OUTPUT_MESSAGES);
     Some (if length buf < MAX_OUTPUT_MESSAGES then buf @ [msg] else buf)
   }"

subsection \<open>The two sides of a book\<close>

definition get_levels :: "bool \<Rightarrow> order_book_t \<Rightarrow> level_array" where
  "get_levels bid book = (if bid then ob_bids book else ob_asks book)"

definition get_num :: "bool \<Rightarrow> order_book_t \<Rightarrow> nat" where
  "get_num bid book = (if bid then ob_num_bid_levels book else ob_num_ask_levels book)"

definition set_levels :: "bool \<Rightarrow> level_array \<Rightarrow> order_book_t \<Rightarrow> order_book_t" where
  "set_levels bid levels book = (if bid then book\<lparr>ob_bids := levels\<rparr> else book\<lparr>ob_asks := levels\<rparr>)"

definition set_num :: "bool \<Rightarrow> nat \<Rightarrow> order_book_t \<Rightarrow> order_book_t" where
  "set_num bid n book =
     (if bid then book\<lparr>ob_num_bid_levels := n\<rparr> else book\<lparr>ob_num_ask_levels := n\<rparr>)"

subsection \<open>Memory pool statistics\<close>

record memory_pool_stats_t =
  ms_order_allocations :: u32
  ms_order_peak_usage :: u32
  ms_order_failures :: u32
  ms_hash_count :: u32
  ms_hash_tombstones :: u32
  ms_total_memory_bytes :: nat

text \<open>
  \<^verbatim>\<open>sizeof(order_t)\<close> is 64 (a static assertion of the source) and
  \<^verbatim>\<open>sizeof(order_map_slot_t)\<close> is 24 on the 64-bit targets: an 8-byte key and a location
  of 16 bytes.
\<close>

definition memory_pools_get_stats ::
  "order_pool_t \<Rightarrow> order_book_t option \<Rightarrow> memory_pool_stats_t" where
  "memory_pools_get_stats pools book =
     \<lparr>ms_order_allocations = p_total_allocations pools,
      ms_order_peak_usage = p_peak_usage pools,
      ms_order_failures = p_allocation_failures pools,
      ms_hash_count = (case book of Some b \<Rightarrow> m_count (ob_order_map b) | None \<Rightarrow> 0),
      ms_hash_tombstones = (case book of Some b \<Rightarrow> m_tombstone_count (ob_order_map b) | None \<Rightarrow> 0),
      ms_total_memory_bytes = MAX_ORDERS_IN_POOL * 64 + ORDER_MAP_SIZE * 24\<rparr>"

subsection \<open>Trade execution and matching\<close>

text \<open>
  \<open>execute_trade bid li aggressor passive trade_price c\<close>: the level is cell \<open>li\<close> of the
  arrays of side \<open>bid\<close>.
\<close>

definition execute_trade ::
  "bool \<Rightarrow> nat \<Rightarrow> nat \<Rightarrow> nat \<Rightarrow> u32 \<Rightarrow> ctx \<Rightarrow> (bool \<times> ctx) option" where
  "execute_trade bid li aggressor passive trade_price c = do {
     let book = cx_book c;
     let h = p_orders (cx_pool c);
     let trade_qty = (if o_remaining_qty (h aggressor) < o_remaining_qty (h passive)
                      then o_remaining_qty (h aggressor) else o_remaining_qty (h passive));
     assert_that (trade_qty > 0);
     let (buy, sell) = (if o_side (h aggressor) = SIDE_BUY
                        then (h aggressor, h passive) else (h passive, h aggressor));
     trade_msg \<leftarrow> make_trade_msg (ob_symbol book) (o_user_id buy) (o_user_order_id buy)
                    (o_user_id sell) (o_user_order_id sell) trade_price trade_qty;
     let trade_msg' = trade_msg\<lparr>tr_buy_client_id := o_client_id buy,
                                tr_sell_client_id := o_client_id sell\<rparr>;
     out \<leftarrow> output_buffer_add (cx_out c) (OUTPUT_MSG_TRADE trade_msg');
     (filled_a, agg) \<leftarrow> order_fill (h aggressor) trade_qty;
     let h1 = h(aggressor := agg);
     (filled_p, pas) \<leftarrow> order_fill (h1 passive) trade_qty;
     let h2 = h1(passive := pas);
     let level = get_levels bid book li;
     let level1 = level\<lparr>l_total_quantity := l_total_quantity level - trade_qty\<rparr>;
     passive_filled \<leftarrow> order_is_filled (h2 passive);
     if passive_filled then do {
       key \<leftarrow> make_order_key (o_user_id (h2 passive)) (o_user_order_id (h2 passive));
       (removed, map') \<leftarrow> order_map_remove (ob_order_map book) key;
       let (h3, hd', tl') = list_remove h2 (l_orders_head level1) (l_orders_tail level1) passive;
       let level2 = level1\<lparr>l_orders_head := hd', l_orders_tail := tl'\<rparr>;
       pool' \<leftarrow> order_pool_free ((cx_pool c)\<lparr>p_orders := h3\<rparr>) passive;
       Some (True, \<lparr>cx_book = (set_levels bid ((get_levels bid book)(li := level2)) book)\<lparr>ob_order_map := map'\<rparr>,
                    cx_pool = pool', cx_out = out\<rparr>)
     } else
       Some (False, \<lparr>cx_book = set_levels bid ((get_levels bid book)(li := level1)) book,
                     cx_pool = (cx_pool c)\<lparr>p_orders := h2\<rparr>, cx_out = out\<rparr>)
   }"

text \<open>
  The inner loop of \<open>match_buy_order\<close> and \<open>match_sell_order\<close>: trades with the orders of
  the best level in list order.  The first argument is the number of iterations left
  (\<open>MAX_ORDERS_AT_PRICE_LEVEL - inner_iteration\<close>).
\<close>

fun match_level_loop :: "nat \<Rightarrow> bool \<Rightarrow> nat \<Rightarrow> order_ptr \<Rightarrow> ctx \<Rightarrow> ctx option" where
  "match_level_loop 0 bid order passive c = Some c"
| "match_level_loop (Suc n) bid order passive c =
     (if o_remaining_qty (p_orders (cx_pool c) order) > 0 then
        (case passive of
           None \<Rightarrow> Some c
         | Some passive_order \<Rightarrow> do {
             let next_order = o_next (p_orders (cx_pool c) passive_order);
             (filled, c') \<leftarrow> execute_trade bid 0 order passive_order
                               (l_price (get_levels bid (cx_book c) 0)) c;
             match_level_loop n bid order next_order c'
           })
      else Some c)"

text \<open>
  The outer loop, again with the iterations left, and its final assertion
  (\<open>iteration_count < MAX_MATCH_ITERATIONS\<close>): it fails when no iteration is left, also on
  the \<^verbatim>\<open>break\<close>, which happens after the counter was incremented.
\<close>

fun match_loop :: "nat \<Rightarrow> bool \<Rightarrow> nat \<Rightarrow> ctx \<Rightarrow> ctx option" where
  "match_loop 0 bid order c = None"
| "match_loop (Suc n) bid order c =
     (if o_remaining_qty (p_orders (cx_pool c) order) > 0 \<and> get_num bid (cx_book c) > 0 then
        (let ord = p_orders (cx_pool c) order;
             best_price = l_price (get_levels bid (cx_book c) 0);
             can_match = (o_type ord = ORDER_TYPE_MARKET \<or>
                          (if bid then o_price ord \<le> best_price else o_price ord \<ge> best_price))
         in if \<not> can_match then (if n = 0 then None else Some c)
            else do {
              c1 \<leftarrow> match_level_loop MAX_ORDERS_AT_PRICE_LEVEL bid order
                      (l_orders_head (get_levels bid (cx_book c) 0)) c;
              c2 \<leftarrow> (if l_orders_head (get_levels bid (cx_book c1) 0) = None then do {
                        (levels', num', pool') \<leftarrow>
                          remove_price_level (get_levels bid (cx_book c1)) (get_num bid (cx_book c1)) 0
                            (cx_pool c1);
                        Some (c1\<lparr>cx_book := set_num bid num' (set_levels bid levels' (cx_book c1)),
                                 cx_pool := pool'\<rparr>)
                      } else Some c1);
              match_loop n bid order c2
            })
      else Some c)"

definition match_buy_order :: "nat \<Rightarrow> ctx \<Rightarrow> ctx option" where
  "match_buy_order order c = do {
     assert_that (o_side (p_orders (cx_pool c) order) = SIDE_BUY);
     match_loop MAX_MATCH_ITERATIONS False order c
   }"

definition match_sell_order :: "nat \<Rightarrow> ctx \<Rightarrow> ctx option" where
  "match_sell_order order c = do {
     assert_that (o_side (p_orders (cx_pool c) order) = SIDE_SELL);
     match_loop MAX_MATCH_ITERATIONS True order c
   }"

definition match_order :: "nat \<Rightarrow> ctx \<Rightarrow> ctx option" where
  "match_order order c =
     (if o_side (p_orders (cx_pool c) order) = SIDE_BUY
      then match_buy_order order c else match_sell_order order c)"

subsection \<open>Resting an order\<close>

definition add_order_to_level :: "bool \<Rightarrow> nat \<Rightarrow> nat \<Rightarrow> ctx \<Rightarrow> ctx option" where
  "add_order_to_level bid li order c = do {
     let book = cx_book c;
     let level = get_levels bid book li;
     let (h, hd', tl') = list_append (p_orders (cx_pool c)) (l_orders_head level) (l_orders_tail level) order;
     let level1 = level\<lparr>l_orders_head := hd', l_orders_tail := tl'\<rparr>;
     let level2 = level1\<lparr>l_total_quantity := l_total_quantity level1 + o_remaining_qty (h order)\<rparr>;
     key \<leftarrow> make_order_key (o_user_id (h order)) (o_user_order_id (h order));
     let location = \<lparr>loc_side = o_side (h order), loc_price = o_price (h order), loc_order_ptr = Some order\<rparr>;
     (inserted, map') \<leftarrow> order_map_insert (ob_order_map book) key location;
     assert_that inserted;
     Some (c\<lparr>cx_book := (set_levels bid ((get_levels bid book)(li := level2)) book)\<lparr>ob_order_map := map'\<rparr>,
             cx_pool := (cx_pool c)\<lparr>p_orders := h\<rparr>\<rparr>)
   }"

definition add_to_book :: "nat \<Rightarrow> ctx \<Rightarrow> ctx option" where
  "add_to_book order c = do {
     let ord = p_orders (cx_pool c) order;
     assert_that (o_type ord = ORDER_TYPE_LIMIT);
     assert_that (o_price ord > 0);
     let bid = (o_side ord = SIDE_BUY);
     idx \<leftarrow> find_price_level (get_levels bid (cx_book c)) (get_num bid (cx_book c)) (o_price ord) bid;
     (c1, idx1) \<leftarrow> (if idx = -1 then do {
                      (levels', num', pos) \<leftarrow> insert_price_level (get_levels bid (cx_book c))
                        (get_num bid (cx_book c)) (o_price ord) bid;
                      Some (c\<lparr>cx_book := set_num bid num' (set_levels bid levels' (cx_book c))\<rparr>, pos)
                    } else Some (c, idx));
     assert_that (0 \<le> idx1 \<and> nat idx1 < get_num bid (cx_book c1));
     add_order_to_level bid (nat idx1) order c1
   }"

subsection \<open>Top of book\<close>

definition order_book_get_best_bid_price :: "order_book_t \<Rightarrow> u32 option" where
  "order_book_get_best_bid_price book = do {
     assert_that (ob_num_bid_levels book \<le> MAX_PRICE_LEVELS);
     Some (if ob_num_bid_levels book > 0 then l_price (ob_bids book 0) else 0)
   }"

definition order_book_get_best_ask_price :: "order_book_t \<Rightarrow> u32 option" where
  "order_book_get_best_ask_price book = do {
     assert_that (ob_num_ask_levels book \<le> MAX_PRICE_LEVELS);
     Some (if ob_num_ask_levels book > 0 then l_price (ob_asks book 0) else 0)
   }"

definition order_book_get_best_bid_quantity :: "order_book_t \<Rightarrow> u32 option" where
  "order_book_get_best_bid_quantity book = do {
     assert_that (ob_num_bid_levels book \<le> MAX_PRICE_LEVELS);
     Some (if ob_num_bid_levels book > 0 then l_total_quantity (ob_bids book 0) else 0)
   }"

definition order_book_get_best_ask_quantity :: "order_book_t \<Rightarrow> u32 option" where
  "order_book_get_best_ask_quantity book = do {
     assert_that (ob_num_ask_levels book \<le> MAX_PRICE_LEVELS);
     Some (if ob_num_ask_levels book > 0 then l_total_quantity (ob_asks book 0) else 0)
   }"

text \<open>The message for one side: \<open>(price, qty)\<close> is the current best of the side.\<close>

definition tob_message ::
  "string \<Rightarrow> u8 \<Rightarrow> u32 \<Rightarrow> u32 \<Rightarrow> bool \<Rightarrow> output_buffer_t \<Rightarrow> output_buffer_t option" where
  "tob_message symbol side price qty ever_active out =
     (if price = 0 \<and> ever_active then do {
        msg \<leftarrow> make_top_of_book_eliminated_msg symbol side;
        output_buffer_add out msg
      } else if price > 0 then do {
        msg \<leftarrow> make_top_of_book_msg symbol side price qty;
        output_buffer_add out msg
      } else Some out)"

definition check_tob_changes :: "ctx \<Rightarrow> ctx option" where
  "check_tob_changes c = do {
     let book = cx_book c;
     bid_price \<leftarrow> order_book_get_best_bid_price book;
     bid_qty \<leftarrow> order_book_get_best_bid_quantity book;
     ask_price \<leftarrow> order_book_get_best_ask_price book;
     ask_qty \<leftarrow> order_book_get_best_ask_quantity book;
     let bid_active = (if bid_price > 0 then True else ob_bid_side_ever_active book);
     let ask_active = (if ask_price > 0 then True else ob_ask_side_ever_active book);
     let bid_changed = (bid_price \<noteq> ob_prev_best_bid_price book \<or> bid_qty \<noteq> ob_prev_best_bid_qty book);
     let ask_changed = (ask_price \<noteq> ob_prev_best_ask_price book \<or> ask_qty \<noteq> ob_prev_best_ask_qty book);
     out1 \<leftarrow> (if bid_changed
              then tob_message (ob_symbol book) SIDE_BUY bid_price bid_qty bid_active (cx_out c)
              else Some (cx_out c));
     out2 \<leftarrow> (if ask_changed
              then tob_message (ob_symbol book) SIDE_SELL ask_price ask_qty ask_active out1
              else Some out1);
     Some (c\<lparr>cx_book := book\<lparr>
                ob_bid_side_ever_active := bid_active,
                ob_ask_side_ever_active := ask_active,
                ob_prev_best_bid_price := (if bid_changed then bid_price else ob_prev_best_bid_price book),
                ob_prev_best_bid_qty := (if bid_changed then bid_qty else ob_prev_best_bid_qty book),
                ob_prev_best_ask_price := (if ask_changed then ask_price else ob_prev_best_ask_price book),
                ob_prev_best_ask_qty := (if ask_changed then ask_qty else ob_prev_best_ask_qty book)\<rparr>,
             cx_out := out2\<rparr>)
   }"

subsection \<open>Public operations\<close>

definition order_book_init :: "order_book_t \<Rightarrow> string \<Rightarrow> order_book_t option" where
  "order_book_init book symbol = do {
     let s = copy_until_nul MAX_SYMBOL_LENGTH symbol;
     assert_that (length s < MAX_SYMBOL_LENGTH);
     Some (book\<lparr>ob_symbol := s,
                ob_bids := (\<lambda>_. zero_level), ob_asks := (\<lambda>_. zero_level),
                ob_num_bid_levels := 0, ob_num_ask_levels := 0,
                ob_order_map := order_map_init (ob_order_map book),
                ob_prev_best_bid_price := 0, ob_prev_best_bid_qty := 0,
                ob_prev_best_ask_price := 0, ob_prev_best_ask_qty := 0,
                ob_bid_side_ever_active := False, ob_ask_side_ever_active := False,
                ob_flush_state := zero_flush_state\<rparr>)
   }"

text \<open>Freeing the orders of the first \<open>n\<close> levels, from level \<open>i\<close> on.\<close>

fun free_levels :: "level_array \<Rightarrow> nat \<Rightarrow> nat \<Rightarrow> order_pool_t \<Rightarrow> order_pool_t option" where
  "free_levels levels i 0 pool = Some pool"
| "free_levels levels i (Suc n) pool = do {
     pool' \<leftarrow> list_free_all (l_orders_head (levels i)) pool;
     free_levels levels (Suc i) n pool'
   }"

definition order_book_destroy :: "order_book_t \<Rightarrow> order_pool_t \<Rightarrow> (order_book_t \<times> order_pool_t) option" where
  "order_book_destroy book pool = do {
     pool1 \<leftarrow> free_levels (ob_bids book) 0 (ob_num_bid_levels book) pool;
     pool2 \<leftarrow> free_levels (ob_asks book) 0 (ob_num_ask_levels book) pool1;
     Some (book\<lparr>ob_order_map := order_map_clear (ob_order_map book)\<rparr>, pool2)
   }"

definition order_book_add_order :: "new_order_msg_t \<Rightarrow> u32 \<Rightarrow> u64 \<Rightarrow> ctx \<Rightarrow> ctx option" where
  "order_book_add_order msg client_id timestamp c = do {
     (slot, pool1) \<leftarrow> order_pool_alloc (cx_pool c);
     case slot of
       None \<Rightarrow> Some (c\<lparr>cx_pool := pool1\<rparr>)
     | Some order \<Rightarrow> do {
         ord \<leftarrow> order_init msg timestamp;
         let pool2 = pool1\<lparr>p_orders := (p_orders pool1)(order := ord\<lparr>o_client_id := client_id\<rparr>)\<rparr>;
         ack \<leftarrow> make_ack_msg (ob_symbol (cx_book c)) (o_user_id ord) (o_user_order_id ord);
         out \<leftarrow> output_buffer_add (cx_out c) ack;
         c1 \<leftarrow> match_order order (c\<lparr>cx_pool := pool2, cx_out := out\<rparr>);
         let ord1 = p_orders (cx_pool c1) order;
         c2 \<leftarrow> (if o_remaining_qty ord1 > 0 \<and> o_type ord1 = ORDER_TYPE_LIMIT
                then add_to_book order c1
                else do {
                  pool3 \<leftarrow> order_pool_free (cx_pool c1) order;
                  Some (c1\<lparr>cx_pool := pool3\<rparr>)
                });
         check_tob_changes c2
       }
   }"

definition order_book_cancel_order :: "u32 \<Rightarrow> u32 \<Rightarrow> ctx \<Rightarrow> ctx option" where
  "order_book_cancel_order user_id user_order_id c = do {
     let book = cx_book c;
     key \<leftarrow> make_order_key user_id user_order_id;
     slot \<leftarrow> order_map_find (ob_order_map book) key;
     case slot of
       None \<Rightarrow> do {
         msg \<leftarrow> make_cancel_ack_msg (ob_symbol book) user_id user_order_id;
         out \<leftarrow> output_buffer_add (cx_out c) msg;
         Some (c\<lparr>cx_out := out\<rparr>)
       }
     | Some si \<Rightarrow> do {
         let loc = s_location (m_slots (ob_order_map book) si);
         let bid = (loc_side loc = SIDE_BUY);
         idx \<leftarrow> find_price_level (get_levels bid book) (get_num bid book) (loc_price loc) bid;
         c1 \<leftarrow> (if idx \<noteq> -1 then do {
                  order \<leftarrow> loc_order_ptr loc;
                  let li = nat idx;
                  let level = get_levels bid book li;
                  let h = p_orders (cx_pool c);
                  let level1 = level\<lparr>l_total_quantity := l_total_quantity level - o_remaining_qty (h order)\<rparr>;
                  let (h1, hd', tl') = list_remove h (l_orders_head level1) (l_orders_tail level1) order;
                  let level2 = level1\<lparr>l_orders_head := hd', l_orders_tail := tl'\<rparr>;
                  pool1 \<leftarrow> order_pool_free ((cx_pool c)\<lparr>p_orders := h1\<rparr>) order;
                  let book1 = set_levels bid ((get_levels bid book)(li := level2)) book;
                  if hd' = None then do {
                    (levels', num', pool2) \<leftarrow> remove_price_level (get_levels bid book1) (get_num bid book1) li pool1;
                    Some (c\<lparr>cx_book := set_num bid num' (set_levels bid levels' book1), cx_pool := pool2\<rparr>)
                  } else Some (c\<lparr>cx_book := book1, cx_pool := pool1\<rparr>)
                } else Some c);
         (removed, map') \<leftarrow> order_map_remove (ob_order_map (cx_book c1)) key;
         let c2 = c1\<lparr>cx_book := (cx_book c1)\<lparr>ob_order_map := map'\<rparr>\<rparr>;
         msg \<leftarrow> make_cancel_ack_msg (ob_symbol book) user_id user_order_id;
         out \<leftarrow> output_buffer_add (cx_out c2) msg;
         check_tob_changes (c2\<lparr>cx_out := out\<rparr>)
       }
   }"

subsection \<open>Cancelling the orders of a client\<close>

text \<open>
  The scan of one level: at most \<open>MAX_ORDERS_AT_PRICE_LEVEL\<close> orders are looked at (the
  first argument counts them down); \<open>to_cancel\<close> are the keys collected so far.
\<close>

fun scan_level ::
  "nat \<Rightarrow> order_heap \<Rightarrow> u32 \<Rightarrow> order_ptr \<Rightarrow> (u32 \<times> u32) list \<Rightarrow> (u32 \<times> u32) list" where
  "scan_level 0 h client_id order to_cancel = to_cancel"
| "scan_level (Suc n) h client_id None to_cancel = to_cancel"
| "scan_level (Suc n) h client_id (Some order) to_cancel =
     scan_level n h client_id (o_next (h order))
       (if o_client_id (h order) = client_id \<and> length to_cancel < MAX_ORDERS_IN_POOL
        then to_cancel @ [(o_user_id (h order), o_user_order_id (h order))] else to_cancel)"

definition scan_levels ::
  "order_heap \<Rightarrow> u32 \<Rightarrow> level_array \<Rightarrow> nat \<Rightarrow> (u32 \<times> u32) list \<Rightarrow> (u32 \<times> u32) list" where
  "scan_levels h client_id levels num to_cancel =
     fold (\<lambda>i. scan_level MAX_ORDERS_AT_PRICE_LEVEL h client_id (l_orders_head (levels i)))
       [0..<min num MAX_PRICE_LEVELS] to_cancel"

fun cancel_keys :: "(u32 \<times> u32) list \<Rightarrow> ctx \<Rightarrow> ctx option" where
  "cancel_keys [] c = Some c"
| "cancel_keys ((user_id, user_order_id) # keys) c = do {
     c' \<leftarrow> order_book_cancel_order user_id user_order_id c;
     cancel_keys keys c'
   }"

definition order_book_cancel_client_orders :: "u32 \<Rightarrow> ctx \<Rightarrow> (nat \<times> ctx) option" where
  "order_book_cancel_client_orders client_id c = do {
     let book = cx_book c;
     let h = p_orders (cx_pool c);
     let keys1 = scan_levels h client_id (ob_bids book) (ob_num_bid_levels book) [];
     let keys2 = scan_levels h client_id (ob_asks book) (ob_num_ask_levels book) keys1;
     c' \<leftarrow> cancel_keys keys2 c;
     Some (length keys2, c')
   }"

subsection \<open>Flush\<close>

definition order_book_flush_reset :: "order_book_t \<Rightarrow> order_book_t option" where
  "order_book_flush_reset book = do {
     let book' = book\<lparr>ob_flush_state := zero_flush_state\<rparr>;
     assert_that (\<not> fs_in_progress (ob_flush_state book'));
     Some book'
   }"

definition order_book_flush_in_progress :: "order_book_t \<Rightarrow> bool" where
  "order_book_flush_in_progress book = fs_in_progress (ob_flush_state book)"

text \<open>
  The inner loop of \<open>flush_process_side\<close>.  The first argument is the rest of the budget
  (\<open>budget - processed\<close>); the results are the new rest, the order where the loop stopped
  and the output.
\<close>

fun flush_level_loop ::
  "nat \<Rightarrow> string \<Rightarrow> order_heap \<Rightarrow> order_ptr \<Rightarrow> output_buffer_t \<Rightarrow> (nat \<times> order_ptr \<times> output_buffer_t) option" where
  "flush_level_loop 0 symbol h current_order out = Some (0, current_order, out)"
| "flush_level_loop (Suc budget) symbol h None out = Some (Suc budget, None, out)"
| "flush_level_loop (Suc budget) symbol h (Some order) out = do {
     msg \<leftarrow> make_cancel_ack_msg symbol (o_user_id (h order)) (o_user_order_id (h order));
     out' \<leftarrow> output_buffer_add out msg;
     flush_level_loop budget symbol h (o_next (h order)) out'
   }"

lemma flush_level_loop_stop:
  "flush_level_loop budget symbol h cur out = Some (budget', cur', out') \<Longrightarrow>
     budget' \<le> budget \<and> (cur' \<noteq> None \<longrightarrow> budget' = 0)"
  by (induction budget symbol h cur out rule: flush_level_loop.induct)
     (fastforce simp: bind_eq_Some_conv)+

text \<open>The result is \<open>(current_level, current_order, side_done, budget left, output)\<close>.\<close>

function flush_process_side ::
  "string \<Rightarrow> order_heap \<Rightarrow> level_array \<Rightarrow> nat \<Rightarrow> nat \<Rightarrow> order_ptr \<Rightarrow> bool \<Rightarrow> nat \<Rightarrow> output_buffer_t \<Rightarrow>
   (nat \<times> order_ptr \<times> bool \<times> nat \<times> output_buffer_t) option" where
  "flush_process_side symbol h levels num_levels current_level current_order side_done budget out =
     (if \<not> side_done \<and> 0 < budget then
        if current_level \<ge> num_levels then Some (current_level, current_order, True, budget, out)
        else do {
          let start = (if current_order = None then l_orders_head (levels current_level) else current_order);
          (budget', current_order', out') \<leftarrow> flush_level_loop budget symbol h start out;
          let current_level' = (if current_order' = None then current_level + 1 else current_level);
          flush_process_side symbol h levels num_levels current_level' current_order' side_done budget' out'
        }
      else Some (current_level, current_order, side_done, budget, out))"
  by pat_completeness auto
termination
  by (relation "measure (\<lambda>(symbol, h, levels, num_levels, current_level, current_order, side_done, budget, out).
        (num_levels - current_level) + (if 0 < budget then 1 else 0))")
     (auto dest!: flush_level_loop_stop)

declare flush_process_side.simps [simp del]

text \<open>Emptying the first \<open>n\<close> levels, from level \<open>i\<close> on.\<close>

fun flush_free_levels ::
  "level_array \<Rightarrow> nat \<Rightarrow> nat \<Rightarrow> order_pool_t \<Rightarrow> (level_array \<times> order_pool_t) option" where
  "flush_free_levels levels i 0 pool = Some (levels, pool)"
| "flush_free_levels levels i (Suc n) pool = do {
     pool' \<leftarrow> list_free_all (l_orders_head (levels i)) pool;
     flush_free_levels (levels(i := (levels i)\<lparr>l_orders_head := None, l_orders_tail := None,
                                              l_total_quantity := 0\<rparr>)) (Suc i) n pool'
   }"

definition flush_finalize :: "ctx \<Rightarrow> ctx option" where
  "flush_finalize c = do {
     let book = cx_book c;
     (bids', pool1) \<leftarrow> flush_free_levels (ob_bids book) 0 (ob_num_bid_levels book) (cx_pool c);
     (asks', pool2) \<leftarrow> flush_free_levels (ob_asks book) 0 (ob_num_ask_levels book) pool1;
     let book1 = book\<lparr>ob_bids := bids', ob_num_bid_levels := 0, ob_asks := asks',
                      ob_num_ask_levels := 0, ob_order_map := order_map_clear (ob_order_map book)\<rparr>;
     let book2 = (if ob_bid_side_ever_active book1
                  then book1\<lparr>ob_prev_best_bid_price := 1, ob_prev_best_bid_qty := 1\<rparr> else book1);
     let book3 = (if ob_ask_side_ever_active book2
                  then book2\<lparr>ob_prev_best_ask_price := 1, ob_prev_best_ask_qty := 1\<rparr> else book2);
     c1 \<leftarrow> check_tob_changes (c\<lparr>cx_book := book3, cx_pool := pool2\<rparr>);
     Some (c1\<lparr>cx_book := (cx_book c1)\<lparr>
       ob_prev_best_bid_price := 0, ob_prev_best_bid_qty := 0,
       ob_prev_best_ask_price := 0, ob_prev_best_ask_qty := 0,
       ob_bid_side_ever_active := False, ob_ask_side_ever_active := False,
       ob_flush_state := zero_flush_state\<rparr>\<rparr>)
   }"

definition flush_start :: "flush_state_t \<Rightarrow> flush_state_t" where
  "flush_start st = (if \<not> fs_in_progress st
     then \<lparr>fs_current_order = None, fs_current_bid_level = 0, fs_current_ask_level = 0,
           fs_in_progress = True, fs_processing_bids = True, fs_bids_done = False, fs_asks_done = False\<rparr>
     else st)"

definition order_book_flush :: "ctx \<Rightarrow> (bool \<times> ctx) option" where
  "order_book_flush c = do {
     let book = cx_book c;
     let h = p_orders (cx_pool c);
     let st0 = flush_start (ob_flush_state book);
     (st1, budget1, out1) \<leftarrow>
       (if \<not> fs_bids_done st0 then do {
          (lv, ord, dn, budget, out) \<leftarrow> flush_process_side (ob_symbol book) h (ob_bids book)
             (ob_num_bid_levels book) (fs_current_bid_level st0) (fs_current_order st0)
             (fs_bids_done st0) FLUSH_BATCH_SIZE (cx_out c);
          Some (st0\<lparr>fs_current_bid_level := lv, fs_current_order := (if dn then None else ord),
                    fs_bids_done := dn\<rparr>, budget, out)
        } else Some (st0, FLUSH_BATCH_SIZE, cx_out c));
     (st2, out2) \<leftarrow>
       (if \<not> fs_asks_done st1 \<and> 0 < budget1 then do {
          (lv, ord, dn, budget, out) \<leftarrow> flush_process_side (ob_symbol book) h (ob_asks book)
             (ob_num_ask_levels book) (fs_current_ask_level st1) (fs_current_order st1)
             (fs_asks_done st1) budget1 out1;
          Some (st1\<lparr>fs_current_ask_level := lv, fs_current_order := ord, fs_asks_done := dn\<rparr>, out)
        } else Some (st1, out1));
     let c1 = c\<lparr>cx_book := book\<lparr>ob_flush_state := st2\<rparr>, cx_out := out2\<rparr>;
     if fs_bids_done st2 \<and> fs_asks_done st2 then do {
       c2 \<leftarrow> flush_finalize c1;
       Some (True, c2)
     } else Some (False, c1)
   }"

end
