(* ===== verification/ME_Book_Spec.thy ===== *)
theory ME_Book_Spec
  imports ME_Order_Book
begin

text \<open>
  What an order book promises, without memory: a side is the list of its price levels,
  best first, and a level is its price with the queue of its orders, oldest first.
  Orders carry no links here.  \<open>match_levels\<close> is price-time priority matching,
  \<open>spec_add\<close>, \<open>spec_cancel\<close> and \<open>spec_clear\<close> are the operations on a whole book.  The
  lemmas say what makes matching right: quantity is conserved, orders trade in priority
  order, limits are respected, and the book never stays crossed.
\<close>

type_synonym level = "u32 \<times> order_t list"
type_synonym side = "level list"

subsection \<open>Matching\<close>

definition trade_between :: "string \<Rightarrow> order_t \<Rightarrow> order_t \<Rightarrow> u32 \<Rightarrow> u32 \<Rightarrow> output_msg_t" where
  "trade_between s a x p q =
     (let (buy, sell) = (if o_side a = SIDE_BUY then (a, x) else (x, a)) in
      OUTPUT_MSG_TRADE
        \<lparr>tr_user_id_buy = o_user_id buy, tr_user_order_id_buy = o_user_order_id buy,
         tr_user_id_sell = o_user_id sell, tr_user_order_id_sell = o_user_order_id sell,
         tr_price = p, tr_quantity = q, tr_buy_client_id = o_client_id buy,
         tr_sell_client_id = o_client_id sell, tr_symbol = s\<rparr>)"

abbreviation reduce :: "order_t \<Rightarrow> u32 \<Rightarrow> order_t" where
  "reduce x q \<equiv> x\<lparr>o_remaining_qty := o_remaining_qty x - q\<rparr>"

fun match_queue ::
  "string \<Rightarrow> u32 \<Rightarrow> order_t \<Rightarrow> order_t list \<Rightarrow> order_t \<times> order_t list \<times> output_msg_t list" where
  "match_queue s p a [] = (a, [], [])"
| "match_queue s p a (x # xs) =
     (if o_remaining_qty a = 0 then (a, x # xs, [])
      else let q = min (o_remaining_qty a) (o_remaining_qty x); t = trade_between s a x p q in
        if q = o_remaining_qty x
        then let (a', xs', ts) = match_queue s p (reduce a q) xs in (a', xs', t # ts)
        else (reduce a q, reduce x q # xs, [t]))"

text \<open>\<open>d\<close> is the passive side: \<open>True\<close> for the bids.\<close>

definition can_match :: "bool \<Rightarrow> order_t \<Rightarrow> u32 \<Rightarrow> bool" where
  "can_match d a p = (o_type a = ORDER_TYPE_MARKET \<or> \<not> better d (o_price a) p)"

fun match_levels ::
  "string \<Rightarrow> bool \<Rightarrow> order_t \<Rightarrow> side \<Rightarrow> order_t \<times> side \<times> output_msg_t list" where
  "match_levels s d a [] = (a, [], [])"
| "match_levels s d a ((p, q) # ls) =
     (if o_remaining_qty a = 0 \<or> \<not> can_match d a p then (a, (p, q) # ls, [])
      else let (a', q', ts) = match_queue s p a q in
        if q' = [] then let (a'', ls', ts') = match_levels s d a' ls in (a'', ls', ts @ ts')
        else (a', (p, q') # ls, ts))"

subsection \<open>The book\<close>

fun insert_order :: "bool \<Rightarrow> order_t \<Rightarrow> side \<Rightarrow> side" where
  "insert_order d a [] = [(o_price a, [a])]"
| "insert_order d a ((p, q) # ls) =
     (if p = o_price a then (p, q @ [a]) # ls
      else if better d (o_price a) p then (o_price a, [a]) # (p, q) # ls
      else (p, q) # insert_order d a ls)"

definition has_ids :: "u32 \<Rightarrow> u32 \<Rightarrow> order_t \<Rightarrow> bool" where
  "has_ids u i x \<longleftrightarrow> o_user_id x = u \<and> o_user_order_id x = i"

definition remove_order :: "u32 \<Rightarrow> u32 \<Rightarrow> side \<Rightarrow> side" where
  "remove_order u i ls = filter (\<lambda>l. snd l \<noteq> []) (map (\<lambda>(p, q). (p, filter (\<lambda>x. \<not> has_ids u i x) q)) ls)"

text \<open>The best price of a side with the quantity at it, \<open>(0, 0)\<close> for an empty side.\<close>

definition queue_qty :: "order_t list \<Rightarrow> u32" where
  "queue_qty q = (\<Sum>x\<leftarrow>q. o_remaining_qty x)"

fun best :: "side \<Rightarrow> u32 \<times> u32" where
  "best [] = (0, 0)"
| "best ((p, q) # ls) = (p, queue_qty q)"

record abook =
  ab_symbol :: string
  ab_side :: "bool \<Rightarrow> side"
  ab_prev :: "bool \<Rightarrow> u32 \<times> u32"
  ab_active :: "bool \<Rightarrow> bool"

definition side_char :: "bool \<Rightarrow> u8" where
  "side_char d = (if d then SIDE_BUY else SIDE_SELL)"

definition tob_msg :: "string \<Rightarrow> bool \<Rightarrow> u32 \<times> u32 \<Rightarrow> output_msg_t" where
  "tob_msg s d b = OUTPUT_MSG_TOP_OF_BOOK \<lparr>tob_price = fst b,
     tob_total_quantity = (if fst b = 0 then 0 else snd b),
     tob_side = side_char d, tob_symbol = take 14 s\<rparr>"

text \<open>
  The top-of-book messages of one side: one exactly when the best changed, unless the
  side is empty and never held an order.
\<close>

definition spec_tob_side :: "abook \<Rightarrow> bool \<Rightarrow> output_msg_t list" where
  "spec_tob_side b d =
     (let now = best (ab_side b d) in
      if now \<noteq> ab_prev b d \<and> (fst now > 0 \<or> ab_active b d) then [tob_msg (ab_symbol b) d now] else [])"

definition spec_tob :: "abook \<Rightarrow> abook \<times> output_msg_t list" where
  "spec_tob b = (b\<lparr>ab_prev := (\<lambda>d. best (ab_side b d)),
                   ab_active := (\<lambda>d. fst (best (ab_side b d)) > 0 \<or> ab_active b d)\<rparr>,
                 spec_tob_side b True @ spec_tob_side b False)"

definition ack_of :: "string \<Rightarrow> u32 \<Rightarrow> u32 \<Rightarrow> output_msg_t" where
  "ack_of s u i = OUTPUT_MSG_ACK \<lparr>ack_user_id = u, ack_user_order_id = i, ack_symbol = s\<rparr>"

definition cancel_ack_of :: "string \<Rightarrow> u32 \<Rightarrow> u32 \<Rightarrow> output_msg_t" where
  "cancel_ack_of s u i = OUTPUT_MSG_CANCEL_ACK \<lparr>ca_user_id = u, ca_user_order_id = i, ca_symbol = s\<rparr>"

text \<open>What remains of an order after matching rests if the order has a limit.\<close>

definition rests :: "order_t \<Rightarrow> bool" where
  "rests a \<longleftrightarrow> 0 < o_remaining_qty a \<and> o_type a = ORDER_TYPE_LIMIT"

definition spec_match :: "abook \<Rightarrow> order_t \<Rightarrow> abook \<times> output_msg_t list" where
  "spec_match b a =
     (let d = (o_side a = SIDE_BUY);
          (a', opp, ts) = match_levels (ab_symbol b) (\<not> d) a (ab_side b (\<not> d));
          sides = (ab_side b)((\<not> d) := opp)
      in (b\<lparr>ab_side := (if rests a' then sides(d := insert_order d a' (sides d)) else sides)\<rparr>, ts))"

definition spec_add :: "abook \<Rightarrow> order_t \<Rightarrow> abook \<times> output_msg_t list" where
  "spec_add b a =
     (let (b1, ts) = spec_match b a; (b2, tob) = spec_tob b1
      in (b2, ack_of (ab_symbol b) (o_user_id a) (o_user_order_id a) # ts @ tob))"

definition resting_ids :: "abook \<Rightarrow> u32 \<Rightarrow> u32 \<Rightarrow> bool" where
  "resting_ids b u i \<longleftrightarrow> (\<exists>d. \<exists>l\<in>set (ab_side b d). \<exists>x\<in>set (snd l). has_ids u i x)"

definition spec_cancel :: "abook \<Rightarrow> u32 \<Rightarrow> u32 \<Rightarrow> abook \<times> output_msg_t list" where
  "spec_cancel b u i =
     (if resting_ids b u i then
        let (b', tob) = spec_tob (b\<lparr>ab_side := (\<lambda>d. remove_order u i (ab_side b d))\<rparr>)
        in (b', cancel_ack_of (ab_symbol b) u i # tob)
      else (b, [cancel_ack_of (ab_symbol b) u i]))"

subsection \<open>Well-formed books\<close>

definition resting :: "bool \<Rightarrow> u32 \<Rightarrow> order_t \<Rightarrow> bool" where
  "resting d p x \<longleftrightarrow> o_price x = p \<and> o_side x = side_char d \<and> o_type x = ORDER_TYPE_LIMIT
     \<and> 0 < o_remaining_qty x \<and> o_remaining_qty x \<le> o_quantity x
     \<and> valid_ids (o_user_id x) (o_user_order_id x)"

definition level_wf :: "bool \<Rightarrow> level \<Rightarrow> bool" where
  "level_wf d l \<longleftrightarrow> 0 < fst l \<and> snd l \<noteq> [] \<and> (\<forall>x\<in>set (snd l). resting d (fst l) x)"

definition side_wf :: "bool \<Rightarrow> side \<Rightarrow> bool" where
  "side_wf d ls \<longleftrightarrow> levels_sorted d (map fst ls) \<and> (\<forall>l\<in>set ls. level_wf d l)"

definition prices :: "side \<Rightarrow> u32 set" where
  "prices ls = set (map fst ls)"

lemma prices_simps [simp]: "prices [] = {}" "prices (l # ls) = insert (fst l) (prices ls)"
  "prices (ls @ ls') = prices ls \<union> prices ls'"
  by (auto simp: prices_def)

definition uncrossed :: "(bool \<Rightarrow> side) \<Rightarrow> bool" where
  "uncrossed sides \<longleftrightarrow> (\<forall>b\<in>set (sides True). \<forall>a\<in>set (sides False). fst b < fst a)"

definition flat :: "side \<Rightarrow> order_t list" where
  "flat ls = concat (map snd ls)"

lemma flat_simps [simp]: "flat [] = []" "flat (l # ls) = snd l @ flat ls"
  by (simp_all add: flat_def)

lemma can_match_cong:
  "o_price a' = o_price a \<Longrightarrow> o_type a' = o_type a \<Longrightarrow> can_match d a' p = can_match d a p"
  by (simp add: can_match_def)

subsection \<open>Matching is greedy in priority order\<close>

text \<open>
  The fills of an aggressor that wants \<open>r\<close> shares along a queue: it takes from each order
  what it can until nothing is wanted.  \<open>leftover\<close> is what stays of the queue.
\<close>

fun fills :: "u32 \<Rightarrow> order_t list \<Rightarrow> (order_t \<times> u32) list" where
  "fills r [] = []"
| "fills r (x # xs) = (if r = 0 then [] else
     (x, min r (o_remaining_qty x)) # fills (r - min r (o_remaining_qty x)) xs)"

fun leftover :: "u32 \<Rightarrow> order_t list \<Rightarrow> order_t list" where
  "leftover r [] = []"
| "leftover r (x # xs) = (if r = 0 then x # xs
     else if o_remaining_qty x \<le> r then leftover (r - o_remaining_qty x) xs
     else reduce x r # xs)"

fun wanted :: "u32 \<Rightarrow> order_t list \<Rightarrow> u32" where
  "wanted r [] = r"
| "wanted r (x # xs) = (if r = 0 then 0 else wanted (r - min r (o_remaining_qty x)) xs)"

lemma fills_0 [simp]: "fills 0 q = []" and leftover_0 [simp]: "leftover 0 q = q"
  and wanted_0 [simp]: "wanted 0 q = 0"
  by (cases q; simp)+

lemma fills_append: "fills r (q @ q') = fills r q @ fills (wanted r q) q'"
  by (induction r q rule: fills.induct) auto

lemma wanted_append: "wanted r (q @ q') = wanted (wanted r q) q'"
  by (induction r q rule: fills.induct) auto

lemma leftover_append:
  "leftover r (q @ q') = (if leftover r q = [] then leftover (wanted r q) q' else leftover r q @ q')"
  by (induction r q rule: leftover.induct) (auto simp: min_def)

lemma wanted_leftover: "leftover r q = [] \<or> wanted r q = 0"
  by (induction r q rule: leftover.induct) (auto simp: min_def)

lemma trade_between_rem [simp]:
  "trade_between s (a\<lparr>o_remaining_qty := r\<rparr>) x p q = trade_between s a x p q"
  by (auto simp: trade_between_def Let_def)

lemma match_queue_fills:
  "match_queue s p a q =
     (a\<lparr>o_remaining_qty := wanted (o_remaining_qty a) q\<rparr>, leftover (o_remaining_qty a) q,
      map (\<lambda>(x, n). trade_between s a x p n) (fills (o_remaining_qty a) q))"
proof (induction q arbitrary: a)
  case (Cons x q)
  show ?case
  proof (cases "o_remaining_qty x \<le> o_remaining_qty a")
    case True
    then show ?thesis by (auto simp: Cons.IH Let_def min_def)
  next
    case False
    then show ?thesis by (cases q) (auto simp: Let_def min_def)
  qed
qed simp

definition eligible :: "bool \<Rightarrow> order_t \<Rightarrow> side \<Rightarrow> side" where
  "eligible d a ls = takeWhile (\<lambda>l. can_match d a (fst l)) ls"

lemma can_match_rem [simp]: "can_match d (a\<lparr>o_remaining_qty := r\<rparr>) p = can_match d a p"
  by (simp add: can_match_def)

lemma eligible_rem [simp]: "eligible d (a\<lparr>o_remaining_qty := r\<rparr>) ls = eligible d a ls"
  by (simp add: eligible_def)

definition priced :: "side \<Rightarrow> bool" where
  "priced ls \<longleftrightarrow> (\<forall>l\<in>set ls. \<forall>x\<in>set (snd l). o_price x = fst l)"

lemma fst_fills: "(x, n) \<in> set (fills r q) \<Longrightarrow> x \<in> set q"
  by (induction r q rule: fills.induct) (auto split: if_splits)

lemma match_levels_cases:
  assumes "match_levels s d a ((p, q) # ls) = (a', ls', ts)"
  obtains (stop) "o_remaining_qty a = 0 \<or> \<not> can_match d a p" "a' = a" "ls' = (p, q) # ls" "ts = []"
  | (part) "o_remaining_qty a \<noteq> 0" "can_match d a p" "leftover (o_remaining_qty a) q \<noteq> []"
      "wanted (o_remaining_qty a) q = 0" "a' = a\<lparr>o_remaining_qty := 0\<rparr>"
      "ls' = (p, leftover (o_remaining_qty a) q) # ls"
      "ts = map (\<lambda>(x, n). trade_between s a x p n) (fills (o_remaining_qty a) q)"
  | (full) ts' where "o_remaining_qty a \<noteq> 0" "can_match d a p" "leftover (o_remaining_qty a) q = []"
      "match_levels s d (a\<lparr>o_remaining_qty := wanted (o_remaining_qty a) q\<rparr>) ls = (a', ls', ts')"
      "ts = map (\<lambda>(x, n). trade_between s a x p n) (fills (o_remaining_qty a) q) @ ts'"
proof (cases "o_remaining_qty a = 0 \<or> \<not> can_match d a p")
  case True
  with assms show ?thesis by (intro stop) auto
next
  case run: False
  show ?thesis
  proof (cases "leftover (o_remaining_qty a) q = []")
    case True
    obtain a2 ls2 ts2 where
      "match_levels s d (a\<lparr>o_remaining_qty := wanted (o_remaining_qty a) q\<rparr>) ls = (a2, ls2, ts2)"
      by (metis prod_cases3)
    with assms run True show ?thesis by (intro full [of ts2]) (auto simp: match_queue_fills)
  next
    case False
    with wanted_leftover have "wanted (o_remaining_qty a) q = 0" by blast
    with assms run False show ?thesis by (intro part) (auto simp: match_queue_fills)
  qed
qed

lemma flat_eligible: "flat ls = flat (eligible d a ls) @ flat (drop (length (eligible d a ls)) ls)"
  unfolding eligible_def flat_def
  using takeWhile_dropWhile_id [of "\<lambda>l. can_match d a (fst l)" ls]
  by (simp flip: concat_append map_append dropWhile_eq_drop)

lemma match_levels_fills:
  assumes "priced ls" and "match_levels s d a ls = (a', ls', ts)"
  shows "a' = a\<lparr>o_remaining_qty := wanted (o_remaining_qty a) (flat (eligible d a ls))\<rparr>
       \<and> ts = map (\<lambda>(x, n). trade_between s a x (o_price x) n)
               (fills (o_remaining_qty a) (flat (eligible d a ls)))
       \<and> flat ls' = leftover (o_remaining_qty a) (flat (eligible d a ls))
                  @ flat (drop (length (eligible d a ls)) ls)"
  using assms
proof (induction ls arbitrary: a a' ls' ts)
  case Nil
  then show ?case by (simp add: eligible_def)
next
  case (Cons l ls)
  obtain p q where l: "l = (p, q)" by (cases l)
  have price: "map (\<lambda>(x, n). trade_between s a x p n) (fills (o_remaining_qty a) q)
      = map (\<lambda>(x, n). trade_between s a x (o_price x) n) (fills (o_remaining_qty a) q)"
    using Cons.prems(1) l unfolding priced_def by (auto dest: fst_fills)
  have el: "eligible d a ((p, q) # ls) = (p, q) # eligible d a ls" if "can_match d a p"
    using that by (simp add: eligible_def)
  note append = fills_append wanted_append leftover_append
  from Cons.prems(2) [unfolded l] show ?case
  proof (cases rule: match_levels_cases)
    case stop
    then show ?thesis
      using flat_eligible [of "(p, q) # ls" d a] unfolding l
      by (cases "o_remaining_qty a = 0") (auto simp: eligible_def)
  next
    case part
    then show ?thesis
      using flat_eligible [of ls d a] unfolding l by (simp add: el append price)
  next
    case (full ts')
    have "priced ls" using Cons.prems(1) by (simp add: priced_def)
    from Cons.IH [OF this full(4)] full show ?thesis
      unfolding l by (simp add: el append price)
  qed
qed

subsection \<open>Conservation\<close>

abbreviation qty :: "order_t \<Rightarrow> nat" where
  "qty x \<equiv> unat (o_remaining_qty x)"

lemma unat_diff_min:
  "unat (r - min r n) = unat r - unat n" "unat (min r n) = min (unat r) (unat n)" for r n :: u32
  by (simp_all add: min_def word_le_nat_alt unat_sub)

lemma unat_wanted: "unat (wanted r q) + (\<Sum>(x, n)\<leftarrow>fills r q. unat n) = unat r"
  by (induction r q rule: fills.induct) (auto simp: unat_diff_min)

lemma qty_leftover: "(\<Sum>x\<leftarrow>leftover r q. qty x) + (\<Sum>(x, n)\<leftarrow>fills r q. unat n) = (\<Sum>x\<leftarrow>q. qty x)"
proof (induction r q rule: leftover.induct)
  case (2 r x xs)
  show ?case
  proof (cases "o_remaining_qty x \<le> r")
    case True
    with 2 show ?thesis by (auto simp: min_def)
  next
    case False
    then show ?thesis by (auto simp: min_def unat_sub word_le_nat_alt)
  qed
qed simp

text \<open>Every order that trades is filled, except perhaps the last; nothing trades for zero.\<close>

lemma fills_full:
  "i < length (fills r q) \<Longrightarrow> fst (fills r q ! i) = q ! i \<and>
     (Suc i < length (fills r q) \<longrightarrow> snd (fills r q ! i) = o_remaining_qty (q ! i))"
proof (induction r q arbitrary: i rule: fills.induct)
  case (2 r x xs)
  then show ?case
    by (cases i) (auto simp: min_def split: if_splits)
qed simp

lemma length_fills: "length (fills r q) \<le> length q"
  by (induction r q rule: fills.induct) auto

lemma fills_positive:
  "\<forall>x\<in>set q. 0 < o_remaining_qty x \<Longrightarrow> \<forall>(x, n)\<in>set (fills r q). 0 < n \<and> n \<le> o_remaining_qty x"
proof (induction r q rule: fills.induct)
  case (2 r x xs)
  then show ?case by (cases "r = 0") (auto simp: min_def word_gt_0 split: if_splits)
qed simp

subsection \<open>Matching ends with nothing left to match\<close>

lemma wanted_le: "wanted r q \<le> r"
  using unat_wanted [of r q] by (simp add: word_le_nat_alt)

lemma match_levels_agg:
  "match_levels s d a ls = (a', ls', ts) \<Longrightarrow> \<exists>r\<le>o_remaining_qty a. a' = a\<lparr>o_remaining_qty := r\<rparr>"
proof (induction ls arbitrary: a a' ls' ts)
  case Nil
  then show ?case by (intro exI [of _ "o_remaining_qty a"]) auto
next
  case (Cons l ls)
  obtain p q where l: "l = (p, q)" by (cases l)
  from Cons.prems [unfolded l] show ?case
  proof (cases rule: match_levels_cases)
    case stop
    then show ?thesis by (intro exI [of _ "o_remaining_qty a"]) auto
  next
    case part
    then show ?thesis by (intro exI [of _ 0]) auto
  next
    case (full ts')
    from Cons.IH [OF full(4)] wanted_le [of "o_remaining_qty a" q] show ?thesis
      by (auto intro: order_trans)
  qed
qed

lemma match_levels_exhausts:
  "match_levels s d a ls = (a', ls', ts) \<Longrightarrow>
     o_remaining_qty a' = 0 \<or> ls' = [] \<or> \<not> can_match d a' (fst (hd ls'))"
proof (induction ls arbitrary: a a' ls' ts)
  case (Cons l ls)
  obtain p q where l: "l = (p, q)" by (cases l)
  from Cons.prems [unfolded l] show ?case
  proof (cases rule: match_levels_cases)
    case (full ts')
    from Cons.IH [OF full(4)] show ?thesis .
  qed auto
qed simp

subsection \<open>Well-formedness is kept\<close>

lemma resting_reduce:
  "resting d p x \<Longrightarrow> n < o_remaining_qty x \<Longrightarrow> resting d p (reduce x n)"
  by (auto simp: resting_def word_le_nat_alt word_less_nat_alt unat_sub)

lemma resting_leftover:
  "\<forall>x\<in>set q. resting d p x \<Longrightarrow> x \<in> set (leftover r q) \<Longrightarrow> resting d p x"
  by (induction r q rule: leftover.induct) (auto simp: resting_reduce split: if_splits)

lemma side_wf_Cons:
  "side_wf d (l # ls) \<longleftrightarrow> level_wf d l \<and> (\<forall>p\<in>prices ls. better d (fst l) p) \<and> side_wf d ls"
  by (auto simp: side_wf_def levels_sorted_def prices_def)

lemma side_wf_Nil [simp]: "side_wf d []"
  by (simp add: side_wf_def levels_sorted_def)

lemma match_levels_wf:
  "side_wf d ls \<Longrightarrow> match_levels s d' a ls = (a', ls', ts) \<Longrightarrow>
     side_wf d ls' \<and> prices ls' \<subseteq> prices ls"
proof (induction ls arbitrary: a a' ls' ts)
  case (Cons l ls)
  obtain p q where l: "l = (p, q)" by (cases l)
  from Cons.prems(2) [unfolded l] show ?case
  proof (cases rule: match_levels_cases)
    case stop
    with Cons.prems(1) l show ?thesis by simp
  next
    case part
    have "\<forall>x\<in>set q. resting d p x" "0 < p"
      using Cons.prems(1) l by (auto simp: side_wf_Cons level_wf_def)
    with resting_leftover part have "level_wf d (p, leftover (o_remaining_qty a) q)"
      by (auto simp: level_wf_def)
    with part Cons.prems(1) l show ?thesis by (auto simp: side_wf_Cons)
  next
    case (full ts')
    from Cons.IH [OF _ full(4)] Cons.prems(1) show ?thesis by (auto simp: side_wf_Cons)
  qed
qed simp

lemma insert_order_prices: "prices (insert_order d a ls) = insert (o_price a) (prices ls)"
  by (induction d a ls rule: insert_order.induct) auto

lemma insert_order_wf:
  assumes "side_wf d ls" and "resting d (o_price a) a" and "0 < o_price a"
  shows "side_wf d (insert_order d a ls)"
  using assms
proof (induction d a ls rule: insert_order.induct)
  case (1 d a)
  then show ?case by (simp add: side_wf_Cons level_wf_def)
next
  case (2 d a p q ls)
  note wf = 2(2) and new = 2(3,4)
  consider "p = o_price a" | "p \<noteq> o_price a" "better d (o_price a) p"
    | "p \<noteq> o_price a" "\<not> better d (o_price a) p" "better d p (o_price a)"
    using better_total better_asym by metis
  then show ?case
  proof cases
    case 1
    with wf new show ?thesis by (auto simp: side_wf_Cons level_wf_def)
  next
    case 2
    with wf new show ?thesis by (auto simp: side_wf_Cons level_wf_def dest: better_trans)
  next
    case 3
    with 2(1) wf new have "side_wf d (insert_order d a ls)" by (simp add: side_wf_Cons)
    moreover have "\<forall>p'\<in>prices (insert_order d a ls). better d p p'"
      using wf 3 unfolding insert_order_prices by (simp add: side_wf_Cons)
    ultimately show ?thesis using wf 3 by (simp add: side_wf_Cons)
  qed
qed

lemma remove_order_Cons:
  "remove_order u i ((p, q) # ls) =
     (let q' = filter (\<lambda>x. \<not> has_ids u i x) q in
      (if q' = [] then [] else [(p, q')]) @ remove_order u i ls)"
  by (simp add: remove_order_def Let_def)

lemma remove_order_Nil [simp]: "remove_order u i [] = []"
  by (simp add: remove_order_def)

lemma remove_order_prices: "prices (remove_order u i ls) \<subseteq> prices ls"
  by (force simp: remove_order_def prices_def)

lemma remove_order_wf: "side_wf d ls \<Longrightarrow> side_wf d (remove_order u i ls)"
proof (induction ls)
  case (Cons l ls)
  obtain p q where l: "l = (p, q)" by (cases l)
  let ?q = "filter (\<lambda>x. \<not> has_ids u i x) q"
  have "level_wf d (p, ?q)" if "?q \<noteq> []"
    using that Cons.prems l unfolding side_wf_Cons level_wf_def by simp
  moreover have "\<forall>p'\<in>prices (remove_order u i ls). better d p p'"
    using Cons.prems remove_order_prices [of u i ls] unfolding side_wf_Cons l fst_conv by blast
  ultimately show ?case
    using Cons unfolding side_wf_Cons l remove_order_Cons by (simp add: Let_def side_wf_Cons)
qed simp

subsection \<open>Whole books\<close>

definition book_wf :: "(bool \<Rightarrow> side) \<Rightarrow> bool" where
  "book_wf sides \<longleftrightarrow> (\<forall>d. side_wf d (sides d)) \<and> uncrossed sides"

lemma uncrossed_prices:
  "uncrossed sides \<longleftrightarrow> (\<forall>p\<in>prices (sides True). \<forall>p'\<in>prices (sides False). p < p')"
  by (auto simp: uncrossed_def prices_def)

lemma uncrossed_subset:
  assumes "uncrossed sides" and "\<And>d. prices (sides' d) \<subseteq> prices (sides d)"
  shows "uncrossed sides'"
  using assms unfolding uncrossed_prices by blast

text \<open>An order that could not match to the end has a limit beyond every price left.\<close>

lemma beyond_all_prices:
  assumes wf: "side_wf d ls" and stop: "ls = [] \<or> \<not> can_match d a (fst (hd ls))" and p: "p \<in> prices ls"
  shows "better d (o_price a) p"
proof -
  obtain l ls' where ls: "ls = l # ls'" using p by (cases ls) auto
  with stop have b: "better d (o_price a) (fst l)" by (simp add: can_match_def)
  with p wf better_trans show ?thesis unfolding ls side_wf_Cons by auto
qed

lemma insert_uncrossed:
  assumes un: "uncrossed sides" and beyond: "\<And>p. p \<in> prices (sides (\<not> d)) \<Longrightarrow> better (\<not> d) (o_price a) p"
  shows "uncrossed (sides(d := insert_order d a (sides d)))"
  using un beyond unfolding uncrossed_prices
  by (cases d) (auto simp: insert_order_prices better_def)

definition order_ok :: "order_t \<Rightarrow> bool" where
  "order_ok a \<longleftrightarrow> side_is_valid (o_side a) \<and> 0 < o_remaining_qty a \<and> o_remaining_qty a \<le> o_quantity a
     \<and> valid_ids (o_user_id a) (o_user_order_id a)
     \<and> o_type a = (if o_price a = 0 then ORDER_TYPE_MARKET else ORDER_TYPE_LIMIT)"

lemma resting_order_ok:
  assumes "order_ok a" and "a' = a\<lparr>o_remaining_qty := r\<rparr>" and "r \<le> o_remaining_qty a" and "rests a'"
  shows "resting (o_side a = SIDE_BUY) (o_price a) a'" and "0 < o_price a"
  using assms by (auto simp: order_ok_def rests_def resting_def side_char_def side_is_valid_def
      word_gt_0 split: if_splits)

lemma spec_match_wf:
  assumes wf: "book_wf (ab_side b)" and a: "order_ok a" and m: "spec_match b a = (b', ts)"
  shows "book_wf (ab_side b')"
proof -
  define d where "d = (o_side a = SIDE_BUY)"
  obtain a' opp ts' where ml: "match_levels (ab_symbol b) (\<not> d) a (ab_side b (\<not> d)) = (a', opp, ts')"
    by (metis prod_cases3)
  define sides where "sides = (ab_side b)((\<not> d) := opp)"
  have b': "ab_side b' = (if rests a' then sides(d := insert_order d a' (sides d)) else sides)"
    using m ml by (auto simp: spec_match_def d_def sides_def Let_def)
  have opp: "side_wf (\<not> d) opp" "prices opp \<subseteq> prices (ab_side b (\<not> d))"
    using match_levels_wf [OF _ ml] wf by (auto simp: book_wf_def)
  obtain r where r: "r \<le> o_remaining_qty a" "a' = a\<lparr>o_remaining_qty := r\<rparr>"
    using match_levels_agg [OF ml] by blast
  have un: "uncrossed sides"
    by (rule uncrossed_subset [of "ab_side b"]) (use wf opp(2) in \<open>auto simp: book_wf_def sides_def\<close>)
  have wfs: "side_wf e (sides e)" for e using wf opp by (auto simp: sides_def book_wf_def)
  show ?thesis
  proof (cases "rests a'")
    case True
    note res = resting_order_ok [OF a r(2,1) True, folded d_def]
    have "o_remaining_qty a' \<noteq> 0" using True by (auto simp: rests_def)
    with match_levels_exhausts [OF ml] have stop: "opp = [] \<or> \<not> can_match (\<not> d) a' (fst (hd opp))" by blast
    have "uncrossed (sides(d := insert_order d a' (sides d)))"
      by (rule insert_uncrossed [OF un], rule beyond_all_prices [OF opp(1) stop]) (simp add: sides_def)
    moreover have "side_wf d (insert_order d a' (sides d))"
      using insert_order_wf [OF wfs] res r(2) by simp
    ultimately show ?thesis using wfs True by (simp add: b' book_wf_def)
  qed (use un wfs in \<open>simp add: b' book_wf_def\<close>)
qed

lemma spec_tob_side_eq [simp]: "ab_side (fst (spec_tob b)) = ab_side b"
  by (simp add: spec_tob_def)

lemma spec_add_wf:
  assumes "book_wf (ab_side b)" and "order_ok a"
  shows "book_wf (ab_side (fst (spec_add b a)))"
  using spec_match_wf [OF assms] by (auto simp: spec_add_def spec_tob_def split: prod.splits)

lemma spec_cancel_wf:
  assumes "book_wf (ab_side b)"
  shows "book_wf (ab_side (fst (spec_cancel b u i)))"
proof -
  have "uncrossed (\<lambda>d. remove_order u i (ab_side b d))"
    by (rule uncrossed_subset [of "ab_side b"]) (use assms remove_order_prices in \<open>auto simp: book_wf_def\<close>)
  then have "book_wf (\<lambda>d. remove_order u i (ab_side b d))"
    using assms by (simp add: book_wf_def remove_order_wf)
  with assms show ?thesis
    by (cases "resting_ids b u i") (simp_all add: spec_cancel_def spec_tob_def)
qed

end
