(* ===== verification/ME_Book_Refine.thy ===== *)
theory ME_Book_Refine
  imports ME_Book_Spec
begin

text \<open>
  The order book of the source implements the specification of \<open>ME_Book_Spec\<close>.

  \<open>book_rep c qs\<close> is the representation invariant: \<open>qs\<close> gives, for each side and each
  price level, the slots of the orders in its queue.  \<open>abs_book c qs\<close> is the abstract book.
  For each operation there is a lemma that says that from a represented book it does not
  abort, ends in a represented book, and does to the abstract book and the output what
  the specification says.
\<close>

subsection \<open>Representation\<close>

definition okey :: "order_heap \<Rightarrow> nat \<Rightarrow> u64" where
  "okey h x = order_key (o_user_id (h x)) (o_user_order_id (h x))"

definition loc_of :: "order_heap \<Rightarrow> nat \<Rightarrow> order_location_t" where
  "loc_of h x = \<lparr>loc_side = o_side (h x), loc_price = o_price (h x), loc_order_ptr = Some x\<rparr>"

definition level_rep :: "order_heap \<Rightarrow> bool \<Rightarrow> price_level_t \<Rightarrow> nat list \<Rightarrow> bool" where
  "level_rep h d l q \<longleftrightarrow> dls h (l_orders_head l) q (l_orders_tail l) \<and> 0 < l_price l
     \<and> l_total_quantity l = queue_qty (map h q) \<and> (\<forall>x\<in>set q. resting d (l_price l) (h x))"

definition side_rep :: "order_heap \<Rightarrow> bool \<Rightarrow> level_array \<Rightarrow> nat \<Rightarrow> nat list list \<Rightarrow> bool" where
  "side_rep h d levels n qs \<longleftrightarrow> n \<le> MAX_PRICE_LEVELS
     \<and> list_all2 (level_rep h d) (arr_list levels n) qs
     \<and> levels_sorted d (map l_price (arr_list levels n))"

definition map_rep :: "order_heap \<Rightarrow> order_map_t \<Rightarrow> nat set \<Rightarrow> bool" where
  "map_rep h m S \<longleftrightarrow> order_map_ok m \<and> inj_on (okey h) S
     \<and> (\<forall>k loc. order_map_lookup m k = Some loc \<longleftrightarrow> (\<exists>x\<in>S. k = okey h x \<and> loc = loc_of h x))"

type_synonym queues = "bool \<Rightarrow> nat list list"

definition all_orders :: "queues \<Rightarrow> nat list" where
  "all_orders qs = concat (qs True) @ concat (qs False)"

definition book_ok :: "ctx \<Rightarrow> queues \<Rightarrow> bool" where
  "book_ok c qs \<longleftrightarrow> pool_ok (cx_pool c) \<and> symbol_ok (ob_symbol (cx_book c))
     \<and> length (cx_out c) \<le> MAX_OUTPUT_MESSAGES
     \<and> (\<forall>d. side_rep (p_orders (cx_pool c)) d (get_levels d (cx_book c)) (get_num d (cx_book c)) (qs d))
     \<and> distinct (all_orders qs) \<and> set (all_orders qs) \<subseteq> allocated (cx_pool c)
     \<and> map_rep (p_orders (cx_pool c)) (ob_order_map (cx_book c)) (set (all_orders qs))"

definition book_rep :: "ctx \<Rightarrow> queues \<Rightarrow> bool" where
  "book_rep c qs \<longleftrightarrow> book_ok c qs \<and> (\<forall>d. [] \<notin> set (qs d))"

definition abs_queue :: "order_heap \<Rightarrow> nat list \<Rightarrow> order_t list" where
  "abs_queue h q = map (\<lambda>x. strip (h x)) q"

definition abs_side :: "order_heap \<Rightarrow> level_array \<Rightarrow> nat \<Rightarrow> nat list list \<Rightarrow> side" where
  "abs_side h levels n qs = zip (map l_price (arr_list levels n)) (map (abs_queue h) qs)"

definition abs_sides :: "ctx \<Rightarrow> queues \<Rightarrow> bool \<Rightarrow> side" where
  "abs_sides c qs d =
     abs_side (p_orders (cx_pool c)) (get_levels d (cx_book c)) (get_num d (cx_book c)) (qs d)"

definition abs_book :: "ctx \<Rightarrow> queues \<Rightarrow> abook" where
  "abs_book c qs = \<lparr>ab_symbol = ob_symbol (cx_book c), ab_side = abs_sides c qs,
     ab_prev = (\<lambda>d. if d then (ob_prev_best_bid_price (cx_book c), ob_prev_best_bid_qty (cx_book c))
                    else (ob_prev_best_ask_price (cx_book c), ob_prev_best_ask_qty (cx_book c))),
     ab_active = (\<lambda>d. if d then ob_bid_side_ever_active (cx_book c) else ob_ask_side_ever_active (cx_book c))\<rparr>"

text \<open>What a buffer of limited size keeps of the messages added to it.\<close>

definition emit :: "output_buffer_t \<Rightarrow> output_msg_t list \<Rightarrow> output_buffer_t" where
  "emit out msgs = take MAX_OUTPUT_MESSAGES (out @ msgs)"

lemma emit_Nil [simp]: "length out \<le> MAX_OUTPUT_MESSAGES \<Longrightarrow> emit out [] = out"
  by (simp add: emit_def)

lemma emit_emit [simp]: "emit (emit out a) b = emit out (a @ b)"
  by (cases "length (out @ a) \<le> MAX_OUTPUT_MESSAGES") (simp_all add: emit_def min_def)

lemma length_emit [simp]: "length (emit out a) \<le> MAX_OUTPUT_MESSAGES"
  by (simp add: emit_def)

lemma output_buffer_add_emit:
  "length out \<le> MAX_OUTPUT_MESSAGES \<Longrightarrow> output_buffer_add out m = Some (emit out [m])"
  by (auto simp: output_buffer_add_def emit_def asserts)

subsection \<open>The parts of the book state\<close>

text \<open>The fields of a book that matching and resting do not touch.\<close>

definition meta :: "order_book_t \<Rightarrow> string \<times> (u32 \<times> u32) \<times> (u32 \<times> u32) \<times> bool \<times> bool \<times> flush_state_t" where
  "meta b = (ob_symbol b, (ob_prev_best_bid_price b, ob_prev_best_bid_qty b),
     (ob_prev_best_ask_price b, ob_prev_best_ask_qty b), ob_bid_side_ever_active b,
     ob_ask_side_ever_active b, ob_flush_state b)"

lemma sides_simps [simp]:
  "get_levels d (set_levels d lv b) = lv"
  "get_levels (\<not> d) (set_levels d lv b) = get_levels (\<not> d) b"
  "get_levels d (set_levels (\<not> d) lv b) = get_levels d b"
  "get_levels e (set_num d n b) = get_levels e b"
  "get_num e (set_levels d lv b) = get_num e b"
  "get_num d (set_num d n b) = n"
  "get_num (\<not> d) (set_num d n b) = get_num (\<not> d) b"
  "get_num d (set_num (\<not> d) n b) = get_num d b"
  "ob_order_map (set_levels d lv b) = ob_order_map b"
  "ob_order_map (set_num d n b) = ob_order_map b"
  "get_levels e (b\<lparr>ob_order_map := m\<rparr>) = get_levels e b"
  "get_num e (b\<lparr>ob_order_map := m\<rparr>) = get_num e b"
  "ob_symbol (set_levels d lv b) = ob_symbol b"
  "ob_symbol (set_num d n b) = ob_symbol b"
  "meta (set_levels d lv b) = meta b"
  "meta (set_num d n b) = meta b"
  "meta (b\<lparr>ob_order_map := m\<rparr>) = meta b"
  by (auto simp: get_levels_def set_levels_def get_num_def set_num_def meta_def)

lemma meta_symbol: "meta b' = meta b \<Longrightarrow> ob_symbol b' = ob_symbol b"
  by (simp add: meta_def)

lemma all_bool: "(\<forall>e. P e) \<longleftrightarrow> P d \<and> P (\<not> d)"
  by (cases d) (auto intro: bool.induct simp: all_bool_eq)

lemma all_orders_side:
  "set (all_orders qs) = set (concat (qs d)) \<union> set (concat (qs (\<not> d)))"
  "distinct (all_orders qs) \<longleftrightarrow> distinct (concat (qs d)) \<and> distinct (concat (qs (\<not> d)))
     \<and> set (concat (qs d)) \<inter> set (concat (qs (\<not> d))) = {}"
  "length (all_orders qs) = length (concat (qs d)) + length (concat (qs (\<not> d)))"
  by (cases d; auto simp: all_orders_def)+

subsection \<open>Framing\<close>

lemma level_rep_cong:
  assumes "\<And>x. x \<in> set q \<Longrightarrow> h' x = h x"
  shows "level_rep h' d l q \<longleftrightarrow> level_rep h d l q"
proof -
  have "queue_qty (map h' q) = queue_qty (map h q)" using assms by (simp cong: map_cong)
  moreover have "dls h' hp q tp = dls h hp q tp" for hp tp using assms by (intro dls_cong) auto
  ultimately show ?thesis using assms unfolding level_rep_def by auto
qed

lemma abs_queue_cong:
  "(\<And>x. x \<in> set q \<Longrightarrow> strip (h' x) = strip (h x)) \<Longrightarrow> abs_queue h' q = abs_queue h q"
  by (simp add: abs_queue_def)

lemma side_rep_length: "side_rep h d lv n qs \<Longrightarrow> length qs = n"
  by (auto simp: side_rep_def dest: list_all2_lengthD)

lemma side_rep_level: "side_rep h d lv n qs \<Longrightarrow> i < n \<Longrightarrow> level_rep h d (lv i) (qs ! i)"
  by (auto simp: side_rep_def list_all2_conv_all_nth)

lemma side_rep_frame:
  assumes rep: "side_rep h d lv n qs" and eq: "\<And>x. x \<in> set (concat qs) \<Longrightarrow> h' x = h x"
  shows "side_rep h' d lv n qs" and "abs_side h' lv n qs = abs_side h lv n qs"
proof -
  have "level_rep h' d l q" if "level_rep h d l q" "q \<in> set qs" for l q
    using that eq level_rep_cong [of q h' h d l] by auto
  then have "list_all2 (level_rep h' d) (arr_list lv n) qs"
    using rep unfolding side_rep_def by (auto elim!: list.rel_mono_strong)
  with rep show "side_rep h' d lv n qs" by (simp add: side_rep_def)
  have "h' x = h x" if "x \<in> set q" "q \<in> set qs" for x q using that eq by auto
  then have "map (abs_queue h') qs = map (abs_queue h) qs"
    by (intro map_cong refl abs_queue_cong arg_cong [where f = strip]) auto
  then show "abs_side h' lv n qs = abs_side h lv n qs" unfolding abs_side_def by (rule arg_cong)
qed

text \<open>Rewriting one level.\<close>

lemma side_rep_update:
  assumes rep: "side_rep h d lv n qs" and i: "i < n"
    and l: "level_rep h' d l' q'" "l_price l' = l_price (lv i)"
    and frame: "\<And>j x. j < n \<Longrightarrow> j \<noteq> i \<Longrightarrow> x \<in> set (qs ! j) \<Longrightarrow> h' x = h x"
  shows "side_rep h' d (lv(i := l')) n (qs[i := q'])"
    and "abs_side h' (lv(i := l')) n (qs[i := q']) = (abs_side h lv n qs)[i := (l_price (lv i), abs_queue h' q')]"
proof -
  have len: "length qs = n" using side_rep_length [OF rep] .
  have lv: "level_rep h' d ((lv(i := l')) j) (qs[i := q'] ! j)" if "j < n" for j
    using that len l side_rep_level [OF rep that] frame level_rep_cong [of "qs ! j" h' h]
    by (cases "j = i") auto
  have "map l_price (arr_list (lv(i := l')) n) = map l_price (arr_list lv n)"
    using l(2) by (auto simp: map_arr_list intro!: arr_list_cong)
  with lv len rep show "side_rep h' d (lv(i := l')) n (qs[i := q'])"
    by (simp add: side_rep_def list_all2_conv_all_nth)
  show "abs_side h' (lv(i := l')) n (qs[i := q']) = (abs_side h lv n qs)[i := (l_price (lv i), abs_queue h' q')]"
  proof (rule nth_equalityI)
    fix j
    assume "j < length (abs_side h' (lv(i := l')) n (qs[i := q']))"
    then have "j < n" by (simp add: abs_side_def)
    with len l(2) frame i show "abs_side h' (lv(i := l')) n (qs[i := q']) ! j
        = (abs_side h lv n qs)[i := (l_price (lv i), abs_queue h' q')] ! j"
      by (cases "j = i") (auto simp: abs_side_def intro!: abs_queue_cong)
  qed (simp add: abs_side_def)
qed

text \<open>Removing a level.\<close>

lemma side_rep_delete:
  assumes rep: "side_rep h d lv n qs" and i: "i < n"
    and lv': "arr_list lv' (n - 1) = take i (arr_list lv n) @ drop (Suc i) (arr_list lv n)"
  shows "side_rep h d lv' (n - 1) (take i qs @ drop (Suc i) qs)"
    and "abs_side h lv' (n - 1) (take i qs @ drop (Suc i) qs)
           = take i (abs_side h lv n qs) @ drop (Suc i) (abs_side h lv n qs)"
proof -
  have "sorted_wrt (better d) (take i ps @ drop (Suc i) ps)" if "sorted_wrt (better d) ps" for ps
    using that unfolding sorted_wrt_append
    by (auto simp: sorted_wrt_take sorted_wrt_drop sorted_wrt_iff_nth_less in_set_conv_nth)
  then have "levels_sorted d (map l_price (arr_list lv' (n - 1)))"
    using rep unfolding lv' side_rep_def levels_sorted_def by (simp flip: take_map drop_map)
  moreover have "list_all2 (level_rep h d) (arr_list lv' (n - 1)) (take i qs @ drop (Suc i) qs)"
    using rep unfolding lv' side_rep_def by (auto intro: list_all2_appendI list_all2_takeI list_all2_dropI)
  ultimately show "side_rep h d lv' (n - 1) (take i qs @ drop (Suc i) qs)"
    using rep unfolding side_rep_def by linarith
  show "abs_side h lv' (n - 1) (take i qs @ drop (Suc i) qs)
          = take i (abs_side h lv n qs) @ drop (Suc i) (abs_side h lv n qs)"
    using side_rep_length [OF rep] i unfolding abs_side_def lv'
    by (simp add: take_zip drop_zip take_map drop_map)
qed

text \<open>Inserting an empty level.\<close>

lemma level_rep_new: "0 < price \<Longrightarrow> level_rep h d (new_level price) []"
  by (simp add: level_rep_def new_level_def queue_qty_def)

lemma side_rep_insert:
  assumes rep: "side_rep h d lv n qs" and n: "n < MAX_PRICE_LEVELS" and p: "p \<le> n"
    and lv': "arr_list lv' (Suc n) = take p (arr_list lv n) @ new_level price # drop p (arr_list lv n)"
    and srt: "levels_sorted d (map l_price (take p (arr_list lv n) @ new_level price # drop p (arr_list lv n)))"
    and price: "0 < price"
  shows "side_rep h d lv' (Suc n) (take p qs @ [] # drop p qs)"
    and "abs_side h lv' (Suc n) (take p qs @ [] # drop p qs)
           = take p (abs_side h lv n qs) @ (price, []) # drop p (abs_side h lv n qs)"
proof -
  have "list_all2 (level_rep h d) (arr_list lv' (Suc n)) (take p qs @ [] # drop p qs)"
    using rep level_rep_new [OF price] unfolding lv' side_rep_def
    by (auto intro!: list_all2_appendI list_all2_takeI list_all2_dropI)
  with rep n srt show "side_rep h d lv' (Suc n) (take p qs @ [] # drop p qs)"
    unfolding side_rep_def lv' by simp
  show "abs_side h lv' (Suc n) (take p qs @ [] # drop p qs)
          = take p (abs_side h lv n qs) @ (price, []) # drop p (abs_side h lv n qs)"
    using side_rep_length [OF rep] p unfolding abs_side_def lv'
    by (simp add: take_zip drop_zip take_map drop_map abs_queue_def new_level_def)
qed

subsection \<open>Changing one queue\<close>

lemma queue_qty_simps [simp]:
  "queue_qty [] = 0" "queue_qty (x # q) = o_remaining_qty x + queue_qty q"
  "queue_qty (q @ q') = queue_qty q + queue_qty q'"
  by (simp_all add: queue_qty_def)

lemma resting_strip [simp]: "resting d p (strip x) = resting d p x"
  by (simp add: resting_def)

lemma map_strip_cong:
  assumes "\<And>x. x \<in> set q \<Longrightarrow> strip (h' x) = strip (h x)"
  shows "queue_qty (map h' q) = queue_qty (map h q)" and "\<forall>x\<in>set q. resting d p (h' x) = resting d p (h x)"
proof -
  have *: "o_remaining_qty (h' x) = o_remaining_qty (h x)" "resting d p (h' x) = resting d p (h x)"
    if "x \<in> set q" for x
    using assms [OF that] strip_simps(5) resting_strip by metis+
  then show "\<forall>x\<in>set q. resting d p (h' x) = resting d p (h x)" by blast
  show "queue_qty (map h' q) = queue_qty (map h q)"
    using * by (induction q) auto
qed

text \<open>Filling a part of one order.\<close>

lemma level_rep_fill:
  assumes rep: "level_rep h d l (x # q)" and t: "t < o_remaining_qty (h x)"
    and h': "h' x = reduce (h x) t" "\<And>y. y \<in> set q \<Longrightarrow> h' y = h y"
  shows "level_rep h' d (l\<lparr>l_total_quantity := l_total_quantity l - t\<rparr>) (x # q)"
proof -
  have "x \<notin> set q" using rep by (auto simp: level_rep_def dls_def)
  have "dls h' hp (x # q) tp = dls h hp (x # q) tp" for hp tp
    using h' by (intro dls_cong) auto
  moreover have "queue_qty (map h' q) = queue_qty (map h q)"
    using h'(2) by (intro map_strip_cong(1)) simp
  ultimately show ?thesis
    using rep h' t resting_reduce [of d "l_price l" "h x" t] by (auto simp: level_rep_def)
qed

text \<open>Taking an order out of a queue, when only its remaining quantity may have changed.\<close>

lemma level_rep_remove:
  assumes rep: "level_rep h d l (xs @ x # ys)"
    and h2: "\<And>y. y \<in> set (xs @ ys) \<Longrightarrow> h2 y = h y" "o_next (h2 x) = o_next (h x)" "o_prev (h2 x) = o_prev (h x)"
    and rem: "list_remove h2 (l_orders_head l) (l_orders_tail l) x = (h3, hd', tl')"
  shows "level_rep h3 d (l\<lparr>l_total_quantity := l_total_quantity l - o_remaining_qty (h x),
                          l_orders_head := hd', l_orders_tail := tl'\<rparr>) (xs @ ys)"
    and "\<And>y. strip (h3 y) = strip (h2 y)"
    and "\<And>y. y \<notin> set (xs @ x # ys) \<Longrightarrow> h3 y = h2 y"
proof -
  have "dls h2 (l_orders_head l) (xs @ x # ys) (l_orders_tail l)
      = dls h (l_orders_head l) (xs @ x # ys) (l_orders_tail l)"
    using h2 by (intro dls_cong) auto
  then have dls2: "dls h2 (l_orders_head l) (xs @ x # ys) (l_orders_tail l)"
    using rep by (simp add: level_rep_def)
  note r = list_remove_correct [OF dls2 rem]
  show strip: "\<And>y. strip (h3 y) = strip (h2 y)" by (rule r(2))
  show "\<And>y. y \<notin> set (xs @ x # ys) \<Longrightarrow> h3 y = h2 y" by (rule r(3))
  have st: "strip (h3 y) = strip (h y)" if "y \<in> set (xs @ ys)" for y
    using strip [of y] h2(1) [OF that] by simp
  have "queue_qty (map h3 (xs @ ys)) = queue_qty (map h (xs @ ys))"
    by (rule map_strip_cong(1) [OF st])
  moreover have "\<forall>y\<in>set (xs @ ys). resting d (l_price l) (h3 y)"
    using rep map_strip_cong(2) [of "xs @ ys" h3 h d "l_price l", OF st] by (auto simp: level_rep_def)
  ultimately show "level_rep h3 d (l\<lparr>l_total_quantity := l_total_quantity l - o_remaining_qty (h x),
                          l_orders_head := hd', l_orders_tail := tl'\<rparr>) (xs @ ys)"
    using rep r(1) by (simp add: level_rep_def algebra_simps)
qed

text \<open>Appending an order.\<close>

lemma level_rep_append:
  assumes rep: "level_rep h d l q" and x: "x \<notin> set q" "resting d (l_price l) (h x)"
    and app: "list_append h (l_orders_head l) (l_orders_tail l) x = (h', hd', tl')"
  shows "level_rep h' d (l\<lparr>l_orders_head := hd', l_orders_tail := tl',
                          l_total_quantity := l_total_quantity l + o_remaining_qty (h' x)\<rparr>) (q @ [x])"
    and "\<And>y. strip (h' y) = strip (h y)"
    and "\<And>y. y \<notin> insert x (set q) \<Longrightarrow> h' y = h y"
proof -
  have dls: "dls h (l_orders_head l) q (l_orders_tail l)" using rep by (simp add: level_rep_def)
  note r = list_append_correct [OF dls x(1) app]
  show strip: "\<And>y. strip (h' y) = strip (h y)" by (rule r(2))
  show "\<And>y. y \<notin> insert x (set q) \<Longrightarrow> h' y = h y" by (rule r(3))
  have "queue_qty (map h' q) = queue_qty (map h q)" by (rule map_strip_cong(1) [OF strip])
  moreover have "\<forall>y\<in>set (q @ [x]). resting d (l_price l) (h' y)"
    using rep x(2) map_strip_cong(2) [of "q @ [x]" h' h d "l_price l", OF strip] by (auto simp: level_rep_def)
  ultimately show "level_rep h' d (l\<lparr>l_orders_head := hd', l_orders_tail := tl',
                          l_total_quantity := l_total_quantity l + o_remaining_qty (h' x)\<rparr>) (q @ [x])"
    using rep r(1) by (simp add: level_rep_def)
qed

subsection \<open>The map of the orders\<close>

lemma okey_cong: "strip (h' x) = strip (h x) \<Longrightarrow> okey h' x = okey h x"
  unfolding okey_def by (metis strip_simps(1,2))

lemma loc_of_cong: "strip (h' x) = strip (h x) \<Longrightarrow> loc_of h' x = loc_of h x"
  unfolding loc_of_def by (metis strip_simps(3,6))

lemma okey_reduce: "h' x = reduce (h x) t \<Longrightarrow> okey h' x = okey h x"
  and loc_of_reduce: "h' x = reduce (h x) t \<Longrightarrow> loc_of h' x = loc_of h x"
  by (simp_all add: okey_def loc_of_def)

lemma map_rep_cong:
  assumes "\<And>x. x \<in> S \<Longrightarrow> okey h' x = okey h x \<and> loc_of h' x = loc_of h x"
  shows "map_rep h' m S \<longleftrightarrow> map_rep h m S"
proof -
  have "inj_on (okey h') S = inj_on (okey h) S" using assms by (simp cong: inj_on_cong)
  moreover have "(\<exists>x\<in>S. k = okey h' x \<and> l = loc_of h' x) = (\<exists>x\<in>S. k = okey h x \<and> l = loc_of h x)" for k l
    using assms by (simp cong: bex_cong)
  ultimately show ?thesis by (simp add: map_rep_def)
qed

lemma map_rep_remove:
  assumes rep: "map_rep h m S" and x: "x \<in> S" and ids: "valid_ids (o_user_id (h x)) (o_user_order_id (h x))"
  shows "\<exists>m'. order_map_remove m (okey h x) = Some (True, m') \<and> map_rep h m' (S - {x})
           \<and> (\<forall>k. order_map_room m k \<longrightarrow> order_map_room m' k)"
proof -
  have ok: "order_map_ok m" and inj: "inj_on (okey h) S" using rep by (simp_all add: map_rep_def)
  have look: "order_map_lookup m k = Some l \<longleftrightarrow> (\<exists>y\<in>S. k = okey h y \<and> l = loc_of h y)" for k l
    using rep by (simp add: map_rep_def)
  have found: "order_map_lookup m (okey h x) \<noteq> None" using look x by blast
  obtain m' where m': "order_map_remove m (okey h x) = Some (True, m')" "order_map_ok m'"
    "order_map_lookup m' = (order_map_lookup m)(okey h x := None)" "\<forall>k. order_map_room m k \<longrightarrow> order_map_room m' k"
    using order_map.del_alpha [OF ok order_key_not_free [OF ids]] found by (auto simp: okey_def)
  have "order_map_lookup m' k = Some l \<longleftrightarrow> (\<exists>y\<in>S - {x}. k = okey h y \<and> l = loc_of h y)" for k l
    unfolding m'(3) using look [of k l] inj x by (auto simp: inj_on_def)
  moreover have "inj_on (okey h) (S - {x})" using inj by (rule inj_on_subset) auto
  ultimately show ?thesis using m' by (auto simp: map_rep_def)
qed

lemma map_rep_insert:
  assumes rep: "map_rep h m S" and ids: "valid_ids (o_user_id (h x)) (o_user_order_id (h x))"
    and new: "okey h x \<notin> okey h ` S" and room: "order_map_room m (okey h x)"
  shows "\<exists>m'. order_map_insert m (okey h x) (loc_of h x) = Some (True, m') \<and> map_rep h m' (insert x S)"
proof -
  have ok: "order_map_ok m" and inj: "inj_on (okey h) S" using rep by (simp_all add: map_rep_def)
  have look: "order_map_lookup m k = Some l \<longleftrightarrow> (\<exists>y\<in>S. k = okey h y \<and> l = loc_of h y)" for k l
    using rep by (simp add: map_rep_def)
  have "order_map_lookup m (okey h x) = None"
    using look [of "okey h x"] new by (cases "order_map_lookup m (okey h x)") auto
  from order_map.ins_room [OF ok order_key_not_free [OF ids] this [unfolded okey_def] room [unfolded okey_def]]
  obtain m' where m': "order_map_insert m (okey h x) (loc_of h x) = Some (True, m')" "order_map_ok m'"
    "order_map_lookup m' = (order_map_lookup m)(okey h x \<mapsto> loc_of h x)"
    unfolding okey_def by blast
  have "order_map_lookup m' k = Some l \<longleftrightarrow> (\<exists>y\<in>insert x S. k = okey h y \<and> l = loc_of h y)" for k l
    unfolding m'(3) using look [of k l] new by auto
  moreover have "inj_on (okey h) (insert x S)" using inj new unfolding inj_on_insert by blast
  ultimately show ?thesis using m' by (auto simp: map_rep_def)
qed

end
