(* ===== verification/ME_Book_Match.thy ===== *)
theory ME_Book_Match
  imports ME_Book_Refine
begin

text \<open>
  \<open>execute_trade\<close>, the matching loops and \<open>match_order\<close> refine \<open>match_queue\<close> and
  \<open>match_levels\<close>.  \<open>match_step d a c qs c' qs' ts\<close> collects what every stage of matching
  the order in slot \<open>a\<close> against side \<open>d\<close> keeps; it composes.
\<close>

lemma book_okD:
  assumes "book_ok c qs"
  shows "pool_ok (cx_pool c)" "symbol_ok (ob_symbol (cx_book c))" "length (cx_out c) \<le> MAX_OUTPUT_MESSAGES"
    "side_rep (p_orders (cx_pool c)) d (get_levels d (cx_book c)) (get_num d (cx_book c)) (qs d)"
    "distinct (all_orders qs)" "set (all_orders qs) \<subseteq> allocated (cx_pool c)"
    "map_rep (p_orders (cx_pool c)) (ob_order_map (cx_book c)) (set (all_orders qs))"
  using assms by (simp_all add: book_ok_def)

text \<open>A book of which one side, the map, the pool and the output were replaced.\<close>

lemma book_ok_change:
  fixes c c' :: ctx
  defines "h' \<equiv> p_orders (cx_pool c')" and "b' \<equiv> cx_book c'"
  assumes ok: "book_ok c qs" and pool: "pool_ok (cx_pool c')"
    and meta: "meta b' = meta (cx_book c)"
    and out: "length (cx_out c') \<le> MAX_OUTPUT_MESSAGES"
    and other: "get_levels (\<not> d) b' = get_levels (\<not> d) (cx_book c)" "get_num (\<not> d) b' = get_num (\<not> d) (cx_book c)"
      "\<And>x. x \<in> set (concat (qs (\<not> d))) \<Longrightarrow> h' x = p_orders (cx_pool c) x"
    and side: "side_rep h' d (get_levels d b') (get_num d b') qd"
    and dist: "distinct (concat qd)" "set (concat qd) \<inter> set (concat (qs (\<not> d))) = {}"
    and alloc: "set (concat qd) \<union> set (concat (qs (\<not> d))) \<subseteq> allocated (cx_pool c')"
    and mp: "map_rep h' (ob_order_map b') (set (concat qd) \<union> set (concat (qs (\<not> d))))"
  shows "book_ok c' (qs(d := qd))" and "abs_sides c' (qs(d := qd)) (\<not> d) = abs_sides c qs (\<not> d)"
proof -
  have all: "set (all_orders (qs(d := qd))) = set (concat qd) \<union> set (concat (qs (\<not> d)))"
    using all_orders_side(1) [of "qs(d := qd)" d] by simp
  have "distinct (all_orders (qs(d := qd)))"
    using all_orders_side(2) [of "qs(d := qd)" d] all_orders_side(2) [of qs d] dist book_okD(5) [OF ok] by simp
  moreover have "side_rep h' e (get_levels e b') (get_num e b') ((qs(d := qd)) e)" for e
    using side side_rep_frame(1) [OF book_okD(4) [OF ok, of "\<not> d"] other(3)] other(1,2)
    by (cases "e = d") auto
  ultimately show "book_ok c' (qs(d := qd))"
    using pool out alloc mp meta_symbol [OF meta] book_okD(2) [OF ok]
    by (auto simp: book_ok_def all h'_def b'_def)
  show "abs_sides c' (qs(d := qd)) (\<not> d) = abs_sides c qs (\<not> d)"
    using side_rep_frame(2) [OF book_okD(4) [OF ok, of "\<not> d"] other(3)] other(1,2)
    by (simp add: abs_sides_def h'_def b'_def)
qed

definition agg_ok :: "bool \<Rightarrow> nat \<Rightarrow> ctx \<Rightarrow> queues \<Rightarrow> bool" where
  "agg_ok d a c qs \<longleftrightarrow> a \<in> allocated (cx_pool c) \<and> a \<notin> set (all_orders qs)
     \<and> o_side (p_orders (cx_pool c) a) = side_char (\<not> d)
     \<and> o_remaining_qty (p_orders (cx_pool c) a) \<le> o_quantity (p_orders (cx_pool c) a)"

text \<open>
  The last three conjuncts are the frame: orders outside the book and slots outside its
  orders are untouched, so books that share the pool do not see each other.
\<close>

definition match_step :: "bool \<Rightarrow> nat \<Rightarrow> ctx \<Rightarrow> queues \<Rightarrow> ctx \<Rightarrow> queues \<Rightarrow> output_msg_t list \<Rightarrow> bool" where
  "match_step d a c qs c' qs' ts \<longleftrightarrow> book_ok c' qs' \<and> agg_ok d a c' qs'
     \<and> cx_out c' = emit (cx_out c) ts \<and> meta (cx_book c') = meta (cx_book c)
     \<and> qs' (\<not> d) = qs (\<not> d) \<and> get_num (\<not> d) (cx_book c') = get_num (\<not> d) (cx_book c)
     \<and> abs_sides c' qs' (\<not> d) = abs_sides c qs (\<not> d)
     \<and> set (all_orders qs') \<subseteq> set (all_orders qs)
     \<and> (\<forall>k. order_map_room (ob_order_map (cx_book c)) k \<longrightarrow> order_map_room (ob_order_map (cx_book c')) k)
     \<and> (\<forall>x. okey (p_orders (cx_pool c')) x = okey (p_orders (cx_pool c)) x)
     \<and> (\<forall>x. x \<notin> insert a (set (all_orders qs)) \<longrightarrow>
          p_orders (cx_pool c') x = p_orders (cx_pool c) x)
     \<and> allocated (cx_pool c') = allocated (cx_pool c) - (set (all_orders qs) - set (all_orders qs'))"

lemma match_step_refl: "book_ok c qs \<Longrightarrow> agg_ok d a c qs \<Longrightarrow> match_step d a c qs c qs []"
  by (auto simp: match_step_def book_ok_def)

lemma match_step_trans:
  assumes "match_step d a c qs c1 qs1 ts1" and "match_step d a c1 qs1 c2 qs2 ts2"
  shows "match_step d a c qs c2 qs2 (ts1 @ ts2)"
  using assms unfolding match_step_def by (auto 0 4)

lemma trade_between_strip [simp]:
  "trade_between s (strip a) x p q = trade_between s a x p q"
  "trade_between s a (strip x) p q = trade_between s a x p q"
  by (auto simp: trade_between_def Let_def)

lemma side_char_eq [simp]: "side_char d = SIDE_BUY \<longleftrightarrow> d" "side_char d = SIDE_SELL \<longleftrightarrow> \<not> d"
  by (auto simp: side_char_def)

subsection \<open>One trade\<close>

text \<open>
  The computation of \<open>execute_trade\<close> when its assertions hold: the passive order stays
  in its queue with less quantity, or leaves the queue, the map and the pool.
\<close>

lemma execute_trade_part:
  assumes sym: "symbol_ok (ob_symbol (cx_book c))" and out: "length (cx_out c) \<le> MAX_OUTPUT_MESSAGES"
    and h: "h = p_orders (cx_pool c)" and ne: "x \<noteq> a" and a0: "0 < o_remaining_qty (h a)"
    and lt: "o_remaining_qty (h a) < o_remaining_qty (h x)"
    and xq: "o_remaining_qty (h x) \<le> o_quantity (h x)"
    and t_def: "t = o_remaining_qty (h a)" and lv_def: "lv = get_levels d (cx_book c)"
  shows "execute_trade d 0 a x p c = Some (False,
           \<lparr>cx_book = set_levels d (lv(0 := (lv 0)\<lparr>l_total_quantity := l_total_quantity (lv 0) - t\<rparr>)) (cx_book c),
            cx_pool = (cx_pool c)\<lparr>p_orders := h(a := reduce (h a) t, x := reduce (h x) t)\<rparr>,
            cx_out = emit (cx_out c) [trade_between (ob_symbol (cx_book c)) (h a) (h x) p t]\<rparr>)"
proof -
  have t: "0 < t" "t \<le> o_remaining_qty (h x)" using a0 lt by (simp_all add: t_def)
  have "o_remaining_qty (h x) - t \<le> o_quantity (h x)" "o_remaining_qty (h x) \<noteq> t"
    using xq lt t by (auto simp: word_le_nat_alt unat_sub t_def)
  then show ?thesis
    using sym out ne lt t
    by (auto simp: execute_trade_def Let_def asserts make_trade_msg_ok output_buffer_add_emit order_fill_ok
          order_is_filled_def h [symmetric] t_def [symmetric] lv_def trade_between_def)
qed

lemma execute_trade_full:
  assumes sym: "symbol_ok (ob_symbol (cx_book c))" and out: "length (cx_out c) \<le> MAX_OUTPUT_MESSAGES"
    and h: "h = p_orders (cx_pool c)" and ne: "x \<noteq> a" and x0: "0 < o_remaining_qty (h x)"
    and le: "o_remaining_qty (h x) \<le> o_remaining_qty (h a)"
    and t: "t = o_remaining_qty (h x)" and lv: "lv = get_levels d (cx_book c)"
    and h2: "h2 = h(a := reduce (h a) t, x := reduce (h x) t)"
    and ids: "valid_ids (o_user_id (h x)) (o_user_order_id (h x))"
    and rem: "order_map_remove (ob_order_map (cx_book c)) (okey h x) = Some (True, m')"
    and lr: "list_remove h2 (l_orders_head (lv 0)) (l_orders_tail (lv 0)) x = (h3, hd', tl')"
    and free: "order_pool_free ((cx_pool c)\<lparr>p_orders := h3\<rparr>) x = Some pool'"
  shows "execute_trade d 0 a x p c = Some (True,
           \<lparr>cx_book = (set_levels d (lv(0 := (lv 0)\<lparr>l_total_quantity := l_total_quantity (lv 0) - t,
                        l_orders_head := hd', l_orders_tail := tl'\<rparr>)) (cx_book c))\<lparr>ob_order_map := m'\<rparr>,
            cx_pool = pool',
            cx_out = emit (cx_out c) [trade_between (ob_symbol (cx_book c)) (h a) (h x) p t]\<rparr>)"
proof -
  have min: "(if o_remaining_qty (h a) < o_remaining_qty (h x) then o_remaining_qty (h a) else o_remaining_qty (h x)) = t"
    using le t by auto
  have t': "0 < t" "t \<le> o_remaining_qty (h a)" "t \<le> o_remaining_qty (h x)" using x0 le t by simp_all
  show ?thesis
    using sym out ne t' lr free rem ids
    unfolding execute_trade_def Let_def h [symmetric] min lv [symmetric]
    by (cases "o_side (h a) = SIDE_BUY")
       (simp_all add: asserts make_trade_msg_ok output_buffer_add_emit order_fill_ok order_is_filled_def
          h2 t [symmetric] make_order_key_eq okey_def trade_between_def)
qed

text \<open>The facts the trade lemmas share, for an order \<open>x\<close> at the head of the best level.\<close>

lemma best_level:
  assumes ok: "book_ok c qs" and qs: "qs d = (x # q) # rest" and ag: "agg_ok d a c qs"
  defines "h \<equiv> p_orders (cx_pool c)" and "lv \<equiv> get_levels d (cx_book c)"
  shows "0 < get_num d (cx_book c)" "level_rep h d (lv 0) (x # q)" "resting d (l_price (lv 0)) (h x)"
    "x \<noteq> a" "x \<notin> set q" "a \<notin> set q" "a \<notin> set (concat rest)" "a \<notin> set (concat (qs (\<not> d)))"
    "set (x # q) \<inter> set (concat rest) = {}" "set (x # q) \<inter> set (concat (qs (\<not> d))) = {}"
    "distinct (concat ((x # q) # rest))" "set (concat rest) \<inter> set (concat (qs (\<not> d))) = {}"
    "set (all_orders qs) = insert x (set q \<union> set (concat rest) \<union> set (concat (qs (\<not> d))))"
    "abs_sides c qs d = (l_price (lv 0), abs_queue h (x # q)) # tl (abs_sides c qs d)"
proof -
  have rep: "side_rep h d lv (get_num d (cx_book c)) (qs d)"
    unfolding h_def lv_def using ok by (rule book_okD)
  from side_rep_length [OF rep] qs show n: "0 < get_num d (cx_book c)" by auto
  from side_rep_level [OF rep n] qs show l: "level_rep h d (lv 0) (x # q)" by simp
  then show "resting d (l_price (lv 0)) (h x)" by (simp add: level_rep_def)
  have d: "distinct (concat (qs d))" "set (concat (qs d)) \<inter> set (concat (qs (\<not> d))) = {}"
    using book_okD(5) [OF ok] all_orders_side(2) [of qs d] by auto
  show all: "set (all_orders qs) = insert x (set q \<union> set (concat rest) \<union> set (concat (qs (\<not> d))))"
    using all_orders_side(1) [of qs d] by (auto simp: qs)
  with ag show "x \<noteq> a" "a \<notin> set q" "a \<notin> set (concat rest)" "a \<notin> set (concat (qs (\<not> d)))"
    by (auto simp: agg_ok_def)
  show "x \<notin> set q" "set (x # q) \<inter> set (concat rest) = {}" "set (x # q) \<inter> set (concat (qs (\<not> d))) = {}"
    "distinct (concat ((x # q) # rest))" "set (concat rest) \<inter> set (concat (qs (\<not> d))) = {}"
    using d by (auto simp: qs)
  show "abs_sides c qs d = (l_price (lv 0), abs_queue h (x # q)) # tl (abs_sides c qs d)"
    using n by (cases "get_num d (cx_book c)")
      (auto simp: abs_sides_def abs_side_def qs h_def lv_def arr_list_def upt_rec)
qed

text \<open>How one trade moves the abstract side and the order that trades.\<close>

definition trade_result :: "bool \<Rightarrow> nat \<Rightarrow> ctx \<Rightarrow> queues \<Rightarrow> ctx \<Rightarrow> queues \<Rightarrow> u32 \<Rightarrow> order_t list \<Rightarrow> bool" where
  "trade_result d a c qs c' qs' t Q \<longleftrightarrow>
     match_step d a c qs c' qs' [trade_between (ob_symbol (cx_book c)) (p_orders (cx_pool c) a)
       (p_orders (cx_pool c) (hd (hd (qs d)))) (l_price (get_levels d (cx_book c) 0)) t]
     \<and> strip (p_orders (cx_pool c') a) = reduce (strip (p_orders (cx_pool c) a)) t
     \<and> get_num d (cx_book c') = get_num d (cx_book c)
     \<and> abs_sides c' qs' d = (l_price (get_levels d (cx_book c) 0), Q) # tl (abs_sides c qs d)"

lemma trade_part_step:
  assumes ok: "book_ok c qs" and qs: "qs d = (x # q) # rest" and ag: "agg_ok d a c qs"
    and h: "h = p_orders (cx_pool c)" and a0: "0 < o_remaining_qty (h a)"
    and lt: "o_remaining_qty (h a) < o_remaining_qty (h x)"
  shows "\<exists>c'. execute_trade d 0 a x (l_price (get_levels d (cx_book c) 0)) c = Some (False, c')
           \<and> trade_result d a c qs c' qs (o_remaining_qty (h a)) (reduce (strip (h x)) (o_remaining_qty (h a)) # abs_queue h q)"
proof -
  define t where "t = o_remaining_qty (h a)"
  define lv where "lv = get_levels d (cx_book c)"
  define l' where "l' = (lv 0)\<lparr>l_total_quantity := l_total_quantity (lv 0) - t\<rparr>"
  define h' where "h' = h(a := reduce (h a) t, x := reduce (h x) t)"
  define c' where "c' = \<lparr>cx_book = set_levels d (lv(0 := l')) (cx_book c), cx_pool = (cx_pool c)\<lparr>p_orders := h'\<rparr>,
     cx_out = emit (cx_out c) [trade_between (ob_symbol (cx_book c)) (h a) (h x) (l_price (lv 0)) t]\<rparr>"
  note bl = best_level [OF ok qs ag, folded h lv_def]
  have ex: "execute_trade d 0 a x (l_price (lv 0)) c = Some (False, c')"
    unfolding c'_def l'_def h'_def
    using execute_trade_part [OF book_okD(2,3) [OF ok] h bl(4) a0 lt _ t_def lv_def] bl(3)
    by (simp add: resting_def)
  have hx: "h' x = reduce (h x) t" and hy: "\<And>y. y \<notin> {a, x} \<Longrightarrow> h' y = h y"
    by (auto simp: h'_def)
  have l': "level_rep h' d l' (x # q)" unfolding l'_def
    using bl(5,6) by (intro level_rep_fill [OF bl(2)] lt [folded t_def] hx hy) auto
  have rep: "side_rep h d lv (get_num d (cx_book c)) (qs d)" unfolding h lv_def using ok by (rule book_okD)
  have fr: "h' y = h y" if "j < get_num d (cx_book c)" "j \<noteq> 0" "y \<in> set (qs d ! j)" for j y
  proof -
    have "qs d ! j \<in> set rest" using that side_rep_length [OF rep] by (cases j) (auto simp: qs)
    with that bl(7,9) show ?thesis by (intro hy) auto
  qed
  have lp: "l_price l' = l_price (lv 0)" by (simp add: l'_def)
  have su: "side_rep h' d (lv(0 := l')) (get_num d (cx_book c)) (qs d)"
    "abs_side h' (lv(0 := l')) (get_num d (cx_book c)) (qs d)
       = (l_price (lv 0), abs_queue h' (x # q)) # tl (abs_sides c qs d)"
    using side_rep_update [OF rep bl(1) l' lp fr] bl(14)
    by (simp_all add: qs abs_sides_def h lv_def) (metis list_update_code(2))
  have c': "p_orders (cx_pool c') = h'" "get_levels d (cx_book c') = lv(0 := l')"
    "get_num d (cx_book c') = get_num d (cx_book c)" "ob_order_map (cx_book c') = ob_order_map (cx_book c)"
    "allocated (cx_pool c') = allocated (cx_pool c)" "meta (cx_book c') = meta (cx_book c)"
    "get_num (\<not> d) (cx_book c') = get_num (\<not> d) (cx_book c)"
    "cx_out c' = emit (cx_out c) [trade_between (ob_symbol (cx_book c)) (h a) (h x) (l_price (lv 0)) t]"
    by (simp_all add: c'_def)
  have keys: "okey h' y = okey h y \<and> loc_of h' y = loc_of h y" if "y \<in> set (all_orders qs)" for y
    using that ag by (auto simp: h'_def okey_def loc_of_def agg_ok_def)
  have mp: "map_rep h' (ob_order_map (cx_book c)) (set (all_orders qs))"
    using book_okD(7) [OF ok] map_rep_cong [of "set (all_orders qs)" h' h, OF keys] by (simp add: h)
  have other: "h' y = h y" if "y \<in> set (concat (qs (\<not> d)))" for y
    using that bl(8,10) by (intro hy) auto
  have dist: "distinct (concat (qs d))" "set (concat (qs d)) \<inter> set (concat (qs (\<not> d))) = {}"
    using book_okD(5) [OF ok] all_orders_side(2) [of qs d] by auto
  have "book_ok c' qs \<and> abs_sides c' qs (\<not> d) = abs_sides c qs (\<not> d)"
    using book_ok_change [OF ok, of c' d "qs d", unfolded c', OF _ _ _ _ _ other [unfolded h] su(1) dist]
      book_okD(1,6) [OF ok] mp all_orders_side(1) [of qs d]
    by (simp add: c'_def h [symmetric])
  moreover have "agg_ok d a c' qs"
    using ag bl(4) by (auto simp: agg_ok_def c'_def h'_def h t_def)
  moreover have aq: "abs_queue h' (x # q) = reduce (strip (h x)) t # abs_queue h q"
  proof -
    have "h' y = h y" if "y \<in> set q" for y using that bl(5,6) by (intro hy) auto
    then have "abs_queue h' q = abs_queue h q" by (intro abs_queue_cong arg_cong [where f = strip])
    then show ?thesis by (simp add: abs_queue_def hx)
  qed
  moreover have ha: "strip (h' a) = reduce (strip (h a)) t"
    using bl(4) by (simp add: h'_def)
  moreover have "\<forall>y. okey h' y = okey h y" by (simp add: h'_def okey_def)
  ultimately have "trade_result d a c qs c' qs t (reduce (strip (h x)) t # abs_queue h q)"
    using su(2) bl(13) hy
    unfolding trade_result_def match_step_def abs_sides_def [of c' qs d] c'
    by (simp add: h [symmetric] lv_def [symmetric] qs aq ha)
  with ex show ?thesis by (auto simp: t_def lv_def)
qed

lemma trade_full_step:
  assumes ok: "book_ok c qs" and qs: "qs d = (x # q) # rest" and ag: "agg_ok d a c qs"
    and h: "h = p_orders (cx_pool c)" and le: "o_remaining_qty (h x) \<le> o_remaining_qty (h a)"
  shows "\<exists>c'. execute_trade d 0 a x (l_price (get_levels d (cx_book c) 0)) c = Some (True, c')
           \<and> trade_result d a c qs c' (qs(d := q # rest)) (o_remaining_qty (h x)) (abs_queue h q)"
proof -
  define t where "t = o_remaining_qty (h x)"
  define lv where "lv = get_levels d (cx_book c)"
  define h2 where "h2 = h(a := reduce (h a) t, x := reduce (h x) t)"
  define qs' where "qs' = qs(d := q # rest)"
  note bl = best_level [OF ok qs ag, folded h lv_def]
  have ids: "valid_ids (o_user_id (h x)) (o_user_order_id (h x))" and x0: "0 < o_remaining_qty (h x)"
    using bl(3) by (simp_all add: resting_def)
  obtain h3 hd' tl' where lr: "list_remove h2 (l_orders_head (lv 0)) (l_orders_tail (lv 0)) x = (h3, hd', tl')"
    by (metis prod_cases3)
  define l' where "l' = (lv 0)\<lparr>l_total_quantity := l_total_quantity (lv 0) - t, l_orders_head := hd', l_orders_tail := tl'\<rparr>"
  have h2: "h2 y = h y" if "y \<noteq> a" "y \<noteq> x" for y using that by (simp add: h2_def)
  have lrm: "level_rep h3 d l' q" "\<And>y. strip (h3 y) = strip (h2 y)" "\<And>y. y \<notin> set (x # q) \<Longrightarrow> h3 y = h2 y"
  proof -
    have rep0: "level_rep h d (lv 0) ([] @ x # q)" using bl(2) by simp
    have eq: "h2 y = h y" if "y \<in> set ([] @ q)" for y using that bl(5,6) by (intro h2) auto
    have "o_next (h2 x) = o_next (h x)" "o_prev (h2 x) = o_prev (h x)" by (simp_all add: h2_def)
    note r = level_rep_remove [OF rep0 eq this lr]
    from r(1) show "level_rep h3 d l' q" by (simp add: l'_def t_def)
    show "strip (h3 y) = strip (h2 y)" for y by (rule r(2))
    show "h3 y = h2 y" if "y \<notin> set (x # q)" for y using r(3) [of y] that by simp
  qed
  have hy: "h3 y = h y" if "y \<notin> set (x # q)" "y \<noteq> a" for y using that lrm(3) h2 by auto
  have "x \<in> set (all_orders qs)" using bl(13) by simp
  then obtain m' where rem: "order_map_remove (ob_order_map (cx_book c)) (okey h x) = Some (True, m')"
    and m': "map_rep h m' (set (all_orders qs) - {x})"
      "\<forall>k. order_map_room (ob_order_map (cx_book c)) k \<longrightarrow> order_map_room m' k"
    using map_rep_remove [OF book_okD(7) [OF ok, folded h] _ ids] by blast
  have "x \<in> allocated ((cx_pool c)\<lparr>p_orders := h3\<rparr>)" using \<open>x \<in> set (all_orders qs)\<close> book_okD(6) [OF ok] by auto
  then obtain pool' where free: "order_pool_free ((cx_pool c)\<lparr>p_orders := h3\<rparr>) x = Some pool'"
    and pool': "pool_ok pool'" "allocated pool' = allocated (cx_pool c) - {x}" "p_orders pool' = h3"
    using order_pool_free_used [of "(cx_pool c)\<lparr>p_orders := h3\<rparr>" x] book_okD(1) [OF ok] by auto
  define c' where "c' = \<lparr>cx_book = (set_levels d (lv(0 := l')) (cx_book c))\<lparr>ob_order_map := m'\<rparr>, cx_pool = pool',
     cx_out = emit (cx_out c) [trade_between (ob_symbol (cx_book c)) (h a) (h x) (l_price (lv 0)) t]\<rparr>"
  have ex: "execute_trade d 0 a x (l_price (lv 0)) c = Some (True, c')"
    unfolding c'_def l'_def
    by (rule execute_trade_full [OF book_okD(2,3) [OF ok] h bl(4) x0 le t_def lv_def h2_def ids rem lr free])
  have c': "p_orders (cx_pool c') = h3" "get_levels d (cx_book c') = lv(0 := l')"
    "get_num d (cx_book c') = get_num d (cx_book c)" "ob_order_map (cx_book c') = m'"
    "allocated (cx_pool c') = allocated (cx_pool c) - {x}" "meta (cx_book c') = meta (cx_book c)"
    "get_num (\<not> d) (cx_book c') = get_num (\<not> d) (cx_book c)"
    "cx_out c' = emit (cx_out c) [trade_between (ob_symbol (cx_book c)) (h a) (h x) (l_price (lv 0)) t]"
    by (simp_all add: c'_def pool')
  have rep: "side_rep h d lv (get_num d (cx_book c)) (qs d)" unfolding h lv_def using ok by (rule book_okD)
  have fr: "h3 y = h y" if "j < get_num d (cx_book c)" "j \<noteq> 0" "y \<in> set (qs d ! j)" for j y
  proof -
    have "qs d ! j \<in> set rest" using that side_rep_length [OF rep] by (cases j) (auto simp: qs)
    with that bl(7,9) show ?thesis by (intro hy) auto
  qed
  have lp: "l_price l' = l_price (lv 0)" by (simp add: l'_def)
  have su: "side_rep h3 d (lv(0 := l')) (get_num d (cx_book c)) (q # rest)"
    "abs_side h3 (lv(0 := l')) (get_num d (cx_book c)) (q # rest)
       = (l_price (lv 0), abs_queue h3 q) # tl (abs_sides c qs d)"
    using side_rep_update [OF rep bl(1) lrm(1) lp fr] bl(14)
    by (simp_all add: qs abs_sides_def h lv_def) (metis list_update_code(2))
  have all': "set (all_orders qs) - {x} = set (concat (q # rest)) \<union> set (concat (qs (\<not> d)))"
    using bl(5,9,10,13) by auto
  have keys: "okey h3 y = okey h y \<and> loc_of h3 y = loc_of h y" if "y \<in> set (all_orders qs) - {x}" for y
  proof -
    have "y \<noteq> a" "y \<noteq> x" using that ag by (auto simp: agg_ok_def)
    then have "strip (h3 y) = strip (h y)" using lrm(2) [of y] h2 [of y] by simp
    then show ?thesis using okey_cong loc_of_cong by blast
  qed
  have mp: "map_rep h3 m' (set (all_orders qs) - {x})"
    using m'(1) map_rep_cong [of "set (all_orders qs) - {x}" h3 h, OF keys] by simp
  have other: "h3 y = h y" if "y \<in> set (concat (qs (\<not> d)))" for y
    using that bl(8,10) by (intro hy) auto
  have dist: "distinct (concat (q # rest))" "set (concat (q # rest)) \<inter> set (concat (qs (\<not> d))) = {}"
    using bl(10,11,12) by auto
  have bo: "book_ok c' qs'" "abs_sides c' qs' (\<not> d) = abs_sides c qs (\<not> d)"
    using book_ok_change [OF ok, of c' d "q # rest", unfolded c', OF _ _ _ _ _ other [unfolded h] su(1) dist]
      book_okD(6) [OF ok] pool'(1) mp [unfolded all'] all'
    by (auto simp: c'_def qs'_def)
  have strip_a: "strip (h3 a) = reduce (strip (h a)) t" and a3: "h3 a = reduce (h a) t"
    using lrm(2) [of a] lrm(3) [of a] bl(4,6) by (auto simp: h2_def)
  have allq: "set (all_orders qs') = set (all_orders qs) - {x}"
    unfolding all' using all_orders_side(1) [of qs' d] by (simp add: qs'_def)
  have "agg_ok d a c' qs'"
    using ag bl(4) word_sub_le [OF le] unfolding agg_ok_def c' allq a3 t_def h [symmetric] by auto
  moreover have "abs_queue h3 q = abs_queue h q"
    using lrm(2) h2 bl(5,6) by (intro abs_queue_cong) (metis)
  moreover have "set (all_orders qs) - set (all_orders qs') = {x}"
    unfolding allq using bl(13) by blast
  moreover have "h3 y = h y" if "y \<notin> insert a (set (all_orders qs))" for y
    using that bl(13) by (intro hy) auto
  moreover have "set (all_orders qs') \<subseteq> set (all_orders qs)" unfolding allq by blast
  moreover have "qs' (\<not> d) = qs (\<not> d)" "qs' d = q # rest" by (simp_all add: qs'_def)
  moreover have "okey h3 y = okey h y" for y
    using okey_cong [of h3 y h2, OF lrm(2)] by (simp add: h2_def okey_def)
  ultimately have "trade_result d a c qs c' qs' t (abs_queue h q)"
    using bo su(2) m'(2) strip_a
    unfolding trade_result_def match_step_def abs_sides_def [of c' qs' d] c'
    by (simp add: h [symmetric] lv_def [symmetric] qs)
  with ex show ?thesis by (auto simp: t_def lv_def qs'_def)
qed

subsection \<open>The orders of one level\<close>

definition prepend :: "'m list \<Rightarrow> 'a \<times> 'b \<times> 'm list \<Rightarrow> 'a \<times> 'b \<times> 'm list" where
  "prepend ts r = (fst r, fst (snd r), ts @ snd (snd r))"

lemma prepend_simps [simp]:
  "prepend ts (a, b, us) = (a, b, ts @ us)" "prepend [] r = r" "prepend ts (prepend us r) = prepend (ts @ us) r"
  by (simp_all add: prepend_def)

lemma match_queue_step:
  assumes "o_remaining_qty a \<noteq> 0" and "t = min (o_remaining_qty a) (o_remaining_qty x)"
  shows "match_queue s p a (x # q) = prepend [trade_between s a x p t]
           (if t = o_remaining_qty x then match_queue s p (reduce a t) q else (reduce a t, reduce x t # q, []))"
  using assms by (auto simp: Let_def split: prod.splits)

lemma match_queue_done [simp]: "o_remaining_qty a = 0 \<Longrightarrow> match_queue s p a q = (a, q, [])"
  by (cases q) auto

lemma match_level_loop_done [simp]:
  "o_remaining_qty (p_orders (cx_pool c) a) = 0 \<Longrightarrow> match_level_loop n d a p c = Some c"
  by (cases n) auto

lemma abs_sides_Cons:
  assumes "book_ok c qs" and "qs d = q # rest"
  shows "0 < get_num d (cx_book c)"
    and "abs_sides c qs d = (l_price (get_levels d (cx_book c) 0), abs_queue (p_orders (cx_pool c)) q) # tl (abs_sides c qs d)"
    and "level_rep (p_orders (cx_pool c)) d (get_levels d (cx_book c) 0) q"
proof -
  note rep = book_okD(4) [OF assms(1), of d]
  show n: "0 < get_num d (cx_book c)" using side_rep_length [OF rep] assms(2) by auto
  show "level_rep (p_orders (cx_pool c)) d (get_levels d (cx_book c) 0) q"
    using side_rep_level [OF rep n] assms(2) by simp
  show "abs_sides c qs d = (l_price (get_levels d (cx_book c) 0), abs_queue (p_orders (cx_pool c)) q) # tl (abs_sides c qs d)"
    using n by (cases "get_num d (cx_book c)") (auto simp: abs_sides_def abs_side_def assms(2) arr_list_def upt_rec)
qed

text \<open>
  The state after some trades at the best level: the specification run from there gives
  what it gives from the start.
\<close>

definition level_progress :: "bool \<Rightarrow> nat \<Rightarrow> ctx \<Rightarrow> queues \<Rightarrow> nat list \<Rightarrow> ctx \<Rightarrow> nat list \<Rightarrow> nat list list \<Rightarrow> output_msg_t list \<Rightarrow> bool" where
  "level_progress d a c qs q c' q' rest ts \<longleftrightarrow>
     match_step d a c qs c' (qs(d := q' # rest)) ts
     \<and> get_num d (cx_book c') = get_num d (cx_book c)
     \<and> abs_sides c' (qs(d := q' # rest)) d
         = (l_price (get_levels d (cx_book c) 0), abs_queue (p_orders (cx_pool c')) q') # tl (abs_sides c qs d)
     \<and> (\<exists>r. strip (p_orders (cx_pool c') a) = (strip (p_orders (cx_pool c) a))\<lparr>o_remaining_qty := r\<rparr>)
     \<and> match_queue (ob_symbol (cx_book c)) (l_price (get_levels d (cx_book c) 0))
           (strip (p_orders (cx_pool c) a)) (abs_queue (p_orders (cx_pool c)) q)
         = prepend ts (match_queue (ob_symbol (cx_book c)) (l_price (get_levels d (cx_book c) 0))
             (strip (p_orders (cx_pool c') a)) (abs_queue (p_orders (cx_pool c')) q'))"

lemma level_progress_refl:
  assumes "book_ok c qs" and "qs d = q # rest" and "agg_ok d a c qs"
  shows "level_progress d a c qs q c q rest []"
proof -
  have "qs(d := q # rest) = qs" using assms(2) by auto
  moreover have "\<exists>r. strip z = (strip z)\<lparr>o_remaining_qty := r\<rparr>" for z :: order_t
    by (intro exI [of _ "o_remaining_qty z"]) (simp add: strip_def)
  ultimately show ?thesis
    using assms abs_sides_Cons(2) [OF assms(1,2)] match_step_refl unfolding level_progress_def by auto
qed

lemma match_level_loop_ok:
  assumes "book_ok c qs" and "qs d = q # rest" and "agg_ok d a c qs"
  shows "\<exists>c' q' ts. match_level_loop n d a (case q of [] \<Rightarrow> None | x # _ \<Rightarrow> Some x) c = Some c'
           \<and> level_progress d a c qs q c' q' rest ts
           \<and> (o_remaining_qty (p_orders (cx_pool c') a) = 0 \<or> q' = [] \<or> length q' + n \<le> length q)
           \<and> length q' \<le> length q"
  using assms
proof (induction n arbitrary: c qs q)
  case 0
  with level_progress_refl [OF 0] show ?case by auto
next
  case (Suc n)
  define h where "h = p_orders (cx_pool c)"
  show ?case
  proof (cases "o_remaining_qty (h a) = 0 \<or> q = []")
    case True
    with level_progress_refl [OF Suc.prems] show ?thesis by (auto simp: h_def)
  next
    case False
    then obtain x q1 where q: "q = x # q1" and a0: "0 < o_remaining_qty (h a)"
      by (cases q) (auto simp: word_gt_0)
    define t where "t = min (o_remaining_qty (h a)) (o_remaining_qty (h x))"
    define p where "p = l_price (get_levels d (cx_book c) 0)"
    define s where "s = ob_symbol (cx_book c)"
    have next_x: "o_next (h x) = (case q1 of [] \<Rightarrow> None | y # _ \<Rightarrow> Some y)"
      using abs_sides_Cons(3) [OF Suc.prems(1,2)] unfolding q h_def level_rep_def by (blast dest: dls_next)
    have mq: "match_queue s p (strip (h a)) (abs_queue h (x # q1)) = prepend [trade_between s (h a) (h x) p t]
           (if t = o_remaining_qty (h x) then match_queue s p (reduce (strip (h a)) t) (abs_queue h q1)
            else (reduce (strip (h a)) t, reduce (strip (h x)) t # abs_queue h q1, []))"
      using match_queue_step [of "strip (h a)" t "strip (h x)" s p "abs_queue h q1"] a0
      by (simp add: t_def abs_queue_def word_gt_0)
    have loop: "match_level_loop (Suc n) d a (Some x) c = do {
        (filled, c') \<leftarrow> execute_trade d 0 a x p c; match_level_loop n d a (o_next (h x)) c' }"
      using a0 by (simp add: h_def p_def)
    show ?thesis
    proof (cases "o_remaining_qty (h x) \<le> o_remaining_qty (h a)")
      case True
      then have t: "t = o_remaining_qty (h x)" by (simp add: t_def min_def)
      obtain c1 where ex: "execute_trade d 0 a x p c = Some (True, c1)"
        and tr: "trade_result d a c qs c1 (qs(d := q1 # rest)) t (abs_queue h q1)"
        using trade_full_step [OF Suc.prems(1) Suc.prems(2) [unfolded q] Suc.prems(3) h_def True]
        by (auto simp: p_def t)
      define h1 where "h1 = p_orders (cx_pool c1)"
      from tr have ms1: "match_step d a c qs c1 (qs(d := q1 # rest)) [trade_between s (h a) (h x) p t]"
        and st1: "strip (h1 a) = reduce (strip (h a)) t" and n1: "get_num d (cx_book c1) = get_num d (cx_book c)"
        and as1: "abs_sides c1 (qs(d := q1 # rest)) d = (p, abs_queue h q1) # tl (abs_sides c qs d)"
        unfolding trade_result_def Suc.prems(2) q by (auto simp: h_def h1_def p_def s_def)
      from ms1 have ok1: "book_ok c1 (qs(d := q1 # rest))" and ag1: "agg_ok d a c1 (qs(d := q1 # rest))"
        and s1: "ob_symbol (cx_book c1) = s" by (auto simp: match_step_def s_def dest: meta_symbol)
      have p1: "l_price (get_levels d (cx_book c1) 0) = p" and q1: "abs_queue h1 q1 = abs_queue h q1"
        using abs_sides_Cons(2) [OF ok1, of d q1 rest] as1 by (simp_all add: h1_def)
      obtain c2 q' ts where run: "match_level_loop n d a (case q1 of [] \<Rightarrow> None | x # _ \<Rightarrow> Some x) c1 = Some c2"
        and pr: "level_progress d a c1 (qs(d := q1 # rest)) q1 c2 q' rest ts"
        and bd: "o_remaining_qty (p_orders (cx_pool c2) a) = 0 \<or> q' = [] \<or> length q' + n \<le> length q1"
          "length q' \<le> length q1"
        using Suc.IH [OF ok1 _ ag1, of q1] by (simp only: fun_upd_same) blast
      have "level_progress d a c qs q c2 q' rest (trade_between s (h a) (h x) p t # ts)"
        using pr match_step_trans [OF ms1, of c2 "qs(d := q' # rest)" ts] mq st1 n1 as1 p1 q1 s1
        unfolding level_progress_def q
        by (simp add: h_def [symmetric] h1_def [symmetric] p_def [symmetric] s_def [symmetric] t)
      with run bd loop ex next_x show ?thesis by (auto simp: q)
    next
      case False
      then have lt: "o_remaining_qty (h a) < o_remaining_qty (h x)" and t: "t = o_remaining_qty (h a)" "t \<noteq> o_remaining_qty (h x)"
        by (auto simp: t_def min_def)
      obtain c1 where ex: "execute_trade d 0 a x p c = Some (False, c1)"
        and tr: "trade_result d a c qs c1 qs t (reduce (strip (h x)) t # abs_queue h q1)"
        using trade_part_step [OF Suc.prems(1) Suc.prems(2) [unfolded q] Suc.prems(3) h_def a0 lt]
        by (auto simp: p_def t)
      define h1 where "h1 = p_orders (cx_pool c1)"
      have qs': "qs(d := q # rest) = qs" using Suc.prems(2) by auto
      from tr have ms1: "match_step d a c qs c1 qs [trade_between s (h a) (h x) p t]"
        and st1: "strip (h1 a) = reduce (strip (h a)) t" and n1: "get_num d (cx_book c1) = get_num d (cx_book c)"
        and as1: "abs_sides c1 qs d = (p, reduce (strip (h x)) t # abs_queue h q1) # tl (abs_sides c qs d)"
        unfolding trade_result_def Suc.prems(2) q by (auto simp: h_def h1_def p_def s_def)
      from ms1 have ok1: "book_ok c1 qs" by (simp add: match_step_def)
      have q1: "abs_queue h1 q = reduce (strip (h x)) t # abs_queue h q1"
        using abs_sides_Cons(2) [OF ok1 Suc.prems(2)] as1 by (simp add: h1_def)
      have "o_remaining_qty (strip (h1 a)) = 0" using st1 t by simp
      then have a1: "o_remaining_qty (h1 a) = 0" by simp
      have "level_progress d a c qs q c1 q rest [trade_between s (h a) (h x) p t]"
        using ms1 mq [folded q] st1 n1 as1 q1 t a1 unfolding level_progress_def qs'
        by (simp add: h_def [symmetric] h1_def [symmetric] p_def [symmetric] s_def [symmetric]) auto
      with a1 loop ex show ?thesis by (auto simp: q h1_def)
    qed
  qed
qed

subsection \<open>Removing an empty level\<close>

lemma remove_empty_level:
  assumes ok: "book_ok c qs" and i: "i < length (qs d)" and qi: "qs d ! i = []"
  defines "qd \<equiv> take i (qs d) @ drop (Suc i) (qs d)"
  shows "\<exists>lv'. remove_price_level (get_levels d (cx_book c)) (get_num d (cx_book c)) i pool
            = Some (lv', get_num d (cx_book c) - 1, pool)
          \<and> (\<forall>c'. c' = c\<lparr>cx_book := set_num d (get_num d (cx_book c) - 1) (set_levels d lv' (cx_book c))\<rparr> \<longrightarrow>
               book_ok c' (qs(d := qd)) \<and> set (all_orders (qs(d := qd))) = set (all_orders qs)
               \<and> abs_sides c' (qs(d := qd)) d = take i (abs_sides c qs d) @ drop (Suc i) (abs_sides c qs d)
               \<and> abs_sides c' (qs(d := qd)) (\<not> d) = abs_sides c qs (\<not> d))"
proof -
  let ?lv = "get_levels d (cx_book c)" and ?n = "get_num d (cx_book c)" and ?h = "p_orders (cx_pool c)"
  note rep = book_okD(4) [OF ok, of d]
  have n: "i < ?n" using i side_rep_length [OF rep] by simp
  have "l_orders_head (?lv i) = None"
    using side_rep_level [OF rep n] qi by (simp add: level_rep_def)
  from remove_price_level_empty [of i ?n ?lv pool, OF n this] obtain lv' where
    rm: "remove_price_level ?lv ?n i pool = Some (lv', ?n - 1, pool)"
    and lv': "arr_list lv' (?n - 1) = take i (arr_list ?lv ?n) @ drop (Suc i) (arr_list ?lv ?n)" by blast
  note del = side_rep_delete [OF rep n lv', folded qd_def]
  define c' where "c' = c\<lparr>cx_book := set_num d (?n - 1) (set_levels d lv' (cx_book c))\<rparr>"
  have "qs d = take i (qs d) @ [] # drop (Suc i) (qs d)" using i qi by (metis id_take_nth_drop)
  then have "concat (qs d) = concat (take i (qs d) @ [] # drop (Suc i) (qs d))" by (rule arg_cong)
  then have cc: "concat qd = concat (qs d)" unfolding qd_def by simp
  have all: "set (all_orders (qs(d := qd))) = set (all_orders qs)"
    using all_orders_side(1) [of "qs(d := qd)" d] all_orders_side(1) [of qs d] cc by (simp del: set_concat)
  have dist: "distinct (concat qd)" "set (concat qd) \<inter> set (concat (qs (\<not> d))) = {}"
    using book_okD(5) [OF ok] all_orders_side(2) [of qs d] unfolding cc by auto
  have "book_ok c' (qs(d := qd))" "abs_sides c' (qs(d := qd)) (\<not> d) = abs_sides c qs (\<not> d)"
    using book_ok_change [OF ok, of c' d qd, OF _ _ _ _ _ _ _ dist] del(1) book_okD [OF ok]
    by (simp_all add: c'_def cc all_orders_side(1) [of qs d] del: set_concat)
  moreover have "abs_sides c' (qs(d := qd)) d = take i (abs_sides c qs d) @ drop (Suc i) (abs_sides c qs d)"
    using del(2) by (simp add: c'_def abs_sides_def)
  ultimately show ?thesis using rm all by (auto simp: c'_def)
qed

lemma remove_best_level:
  assumes ok: "book_ok c qs" and qs: "qs d = [] # rest" and ag: "agg_ok d a c qs"
  shows "\<exists>lv' c'. remove_price_level (get_levels d (cx_book c)) (get_num d (cx_book c)) 0 (cx_pool c)
            = Some (lv', get_num d (cx_book c) - 1, cx_pool c)
          \<and> c' = c\<lparr>cx_book := set_num d (get_num d (cx_book c) - 1) (set_levels d lv' (cx_book c)), cx_pool := cx_pool c\<rparr>
          \<and> match_step d a c qs c' (qs(d := rest)) [] \<and> abs_sides c' (qs(d := rest)) d = tl (abs_sides c qs d)"
proof -
  have i: "0 < length (qs d)" "qs d ! 0 = []" using qs by simp_all
  from remove_empty_level [where i = 0, OF ok i] obtain lv' where
    rm: "remove_price_level (get_levels d (cx_book c)) (get_num d (cx_book c)) 0 (cx_pool c)
            = Some (lv', get_num d (cx_book c) - 1, cx_pool c)"
    and st: "\<And>c'. c' = c\<lparr>cx_book := set_num d (get_num d (cx_book c) - 1) (set_levels d lv' (cx_book c))\<rparr> \<Longrightarrow>
          book_ok c' (qs(d := rest)) \<and> set (all_orders (qs(d := rest))) = set (all_orders qs)
          \<and> abs_sides c' (qs(d := rest)) d = drop (Suc 0) (abs_sides c qs d)
          \<and> abs_sides c' (qs(d := rest)) (\<not> d) = abs_sides c qs (\<not> d)"
    unfolding qs by auto
  define c' where "c' = c\<lparr>cx_book := set_num d (get_num d (cx_book c) - 1) (set_levels d lv' (cx_book c)), cx_pool := cx_pool c\<rparr>"
  have "c' = c\<lparr>cx_book := set_num d (get_num d (cx_book c) - 1) (set_levels d lv' (cx_book c))\<rparr>" by (simp add: c'_def)
  note st = st [OF this]
  have "match_step d a c qs c' (qs(d := rest)) []"
    using st ag book_okD(3) [OF ok] by (auto simp: match_step_def agg_ok_def c'_def)
  with rm st c'_def show ?thesis by (auto simp: drop_Suc)
qed

subsection \<open>The matching loop\<close>

lemma match_levels_done [simp]: "o_remaining_qty a = 0 \<Longrightarrow> match_levels s d a ls = (a, ls, [])"
  by (cases ls) auto

lemma match_levels_step:
  assumes "o_remaining_qty a \<noteq> 0" and "can_match d a p"
    and mq: "match_queue s p a q = prepend ts (match_queue s p a1 q1)" and a1: "a1 = a\<lparr>o_remaining_qty := r\<rparr>"
  shows "match_levels s d a ((p, q) # ls) = prepend ts (match_levels s d a1 (if q1 = [] then ls else (p, q1) # ls))"
proof -
  obtain a2 q2 us where m1: "match_queue s p a1 q1 = (a2, q2, us)" by (metis prod_cases3)
  with mq have m: "match_queue s p a q = (a2, q2, ts @ us)" by simp
  consider "q1 = []" | "q1 \<noteq> []" "o_remaining_qty a1 = 0" | "q1 \<noteq> []" "o_remaining_qty a1 \<noteq> 0" by blast
  then show ?thesis
  proof cases
    case 1
    with m1 m assms(1,2) show ?thesis by (auto split: prod.splits)
  next
    case 2
    with m1 m assms(1,2) show ?thesis by auto
  next
    case 3
    have "can_match d a1 p" using assms(2) a1 by simp
    with 3 m1 m assms(1,2) show ?thesis by (auto split: prod.splits)
  qed
qed

text \<open>
  One pass of the outer loop: the bounded inner loop, then the removal of the level if it
  is empty.  Either the order is filled or the side has fewer orders.
\<close>

definition match_pass :: "bool \<Rightarrow> nat \<Rightarrow> ctx \<Rightarrow> ctx option" where
  "match_pass d a c = do {
     c1 \<leftarrow> match_level_loop MAX_ORDERS_AT_PRICE_LEVEL d a (l_orders_head (get_levels d (cx_book c) 0)) c;
     if l_orders_head (get_levels d (cx_book c1) 0) = None then do {
       (levels', num', pool') \<leftarrow> remove_price_level (get_levels d (cx_book c1)) (get_num d (cx_book c1)) 0 (cx_pool c1);
       Some (c1\<lparr>cx_book := set_num d num' (set_levels d levels' (cx_book c1)), cx_pool := pool'\<rparr>)
     } else Some c1
   }"

lemma match_loop_pass:
  assumes "0 < o_remaining_qty (p_orders (cx_pool c) a)" and "0 < get_num d (cx_book c)"
  shows "match_loop (Suc n) d a c =
     (if can_match d (strip (p_orders (cx_pool c) a)) (l_price (get_levels d (cx_book c) 0))
      then Option.bind (match_pass d a c) (match_loop n d a)
      else if n = 0 then None else Some c)"
  using assms
  by (cases d) (auto simp: match_pass_def can_match_def better_def Let_def linorder_not_less intro!: Option.bind_cong)

lemma match_pass_ok:
  assumes ok: "book_ok c qs" and qs: "qs d = q # rest" and ag: "agg_ok d a c qs" and q: "q \<noteq> []"
    and ne: "[] \<notin> set rest"
    and a0: "o_remaining_qty (p_orders (cx_pool c) a) \<noteq> 0"
    and cm: "can_match d (strip (p_orders (cx_pool c) a)) (l_price (get_levels d (cx_book c) 0))"
  shows "\<exists>c' qs' ts. match_pass d a c = Some c' \<and> match_step d a c qs c' qs' ts \<and> [] \<notin> set (qs' d)
     \<and> match_levels (ob_symbol (cx_book c)) d (strip (p_orders (cx_pool c) a)) (abs_sides c qs d)
         = prepend ts (match_levels (ob_symbol (cx_book c)) d (strip (p_orders (cx_pool c') a)) (abs_sides c' qs' d))
     \<and> (o_remaining_qty (p_orders (cx_pool c') a) = 0 \<or> length (concat (qs' d)) < length (concat (qs d)))"
proof -
  let ?s = "ob_symbol (cx_book c)" and ?a = "strip (p_orders (cx_pool c) a)"
    and ?p = "l_price (get_levels d (cx_book c) 0)"
  have hd: "l_orders_head (get_levels d (cx_book c) 0) = (case q of [] \<Rightarrow> None | x # _ \<Rightarrow> Some x)"
    using abs_sides_Cons(3) [of c qs, OF ok qs] by (auto simp: level_rep_def dest: dls_head)
  obtain c1 q1 ts where run: "match_level_loop MAX_ORDERS_AT_PRICE_LEVEL d a (l_orders_head (get_levels d (cx_book c) 0)) c = Some c1"
    and pr: "level_progress d a c qs q c1 q1 rest ts"
    and bd: "o_remaining_qty (p_orders (cx_pool c1) a) = 0 \<or> q1 = [] \<or> length q1 + MAX_ORDERS_AT_PRICE_LEVEL \<le> length q"
    using match_level_loop_ok [OF ok qs ag, of MAX_ORDERS_AT_PRICE_LEVEL] unfolding hd by blast
  define qs1 where "qs1 = qs(d := q1 # rest)"
  let ?a1 = "strip (p_orders (cx_pool c1) a)"
  from pr have ms: "match_step d a c qs c1 qs1 ts"
    and as: "abs_sides c1 qs1 d = (?p, abs_queue (p_orders (cx_pool c1)) q1) # tl (abs_sides c qs d)"
    and mq: "match_queue ?s ?p ?a (abs_queue (p_orders (cx_pool c)) q)
        = prepend ts (match_queue ?s ?p ?a1 (abs_queue (p_orders (cx_pool c1)) q1))"
    and ar: "\<exists>r. ?a1 = ?a\<lparr>o_remaining_qty := r\<rparr>"
    unfolding level_progress_def qs1_def by auto
  have ok1: "book_ok c1 qs1" and ag1: "agg_ok d a c1 qs1" using ms by (auto simp: match_step_def)
  have qs1: "qs1 d = q1 # rest" by (simp add: qs1_def)
  have ml: "match_levels ?s d ?a (abs_sides c qs d) = prepend ts (match_levels ?s d ?a1
      (if q1 = [] then tl (abs_sides c qs d) else abs_sides c1 qs1 d))"
  proof -
    obtain r where r: "?a1 = ?a\<lparr>o_remaining_qty := r\<rparr>" using ar by blast
    have nil: "abs_queue (p_orders (cx_pool c1)) q1 = [] \<longleftrightarrow> q1 = []" by (simp add: abs_queue_def)
    have "o_remaining_qty ?a \<noteq> 0" using a0 by simp
    from match_levels_step [OF this cm mq r, of "tl (abs_sides c qs d)"] show ?thesis
      unfolding nil abs_sides_Cons(2) [OF ok qs, symmetric] as [symmetric] .
  qed
  have nxt: "l_orders_head (get_levels d (cx_book c1) 0) = None \<longleftrightarrow> q1 = []"
    using abs_sides_Cons(3) [OF ok1 qs1] by (auto simp: level_rep_def dest: dls_head_None)
  show ?thesis
  proof (cases "q1 = []")
    case True
    obtain lv' c2 where rm: "remove_price_level (get_levels d (cx_book c1)) (get_num d (cx_book c1)) 0 (cx_pool c1)
            = Some (lv', get_num d (cx_book c1) - 1, cx_pool c1)"
      and c2: "c2 = c1\<lparr>cx_book := set_num d (get_num d (cx_book c1) - 1) (set_levels d lv' (cx_book c1)), cx_pool := cx_pool c1\<rparr>"
      and ms2: "match_step d a c1 qs1 c2 (qs1(d := rest)) []"
      and as2: "abs_sides c2 (qs1(d := rest)) d = tl (abs_sides c1 qs1 d)"
      using remove_best_level [OF ok1 _ ag1] qs1 True by auto
    have "match_pass d a c = Some c2" using run rm nxt True c2 by (simp add: match_pass_def)
    moreover have "p_orders (cx_pool c2) = p_orders (cx_pool c1)" by (simp add: c2)
    moreover have "length (concat rest) < length (concat (qs d))" using qs q by simp
    ultimately show ?thesis
      using match_step_trans [OF ms ms2] ml as2 as True ne
      by (intro exI [of _ c2] exI [of _ "qs1(d := rest)"] exI [of _ ts]) simp
  next
    case False
    have "match_pass d a c = Some c1" using run nxt False by (auto simp: match_pass_def)
    moreover have "[] \<notin> set (qs1 d)" using False ne qs1 by auto
    moreover have "o_remaining_qty (p_orders (cx_pool c1) a) = 0 \<or> length (concat (qs1 d)) < length (concat (qs d))"
      using bd False qs qs1 by auto
    ultimately show ?thesis using ms ml False by auto
  qed
qed

definition match_result :: "bool \<Rightarrow> nat \<Rightarrow> ctx \<Rightarrow> queues \<Rightarrow> ctx \<Rightarrow> queues \<Rightarrow> output_msg_t list \<Rightarrow> bool" where
  "match_result d a c qs c' qs' ts \<longleftrightarrow> match_step d a c qs c' qs' ts \<and> [] \<notin> set (qs' d)
     \<and> match_levels (ob_symbol (cx_book c)) d (strip (p_orders (cx_pool c) a)) (abs_sides c qs d)
         = (strip (p_orders (cx_pool c') a), abs_sides c' qs' d, ts)"

lemma match_loop_ok:
  assumes "book_ok c qs" and "agg_ok d a c qs" and "[] \<notin> set (qs d)"
    and "length (concat (qs d)) + 1 < n \<or> (o_remaining_qty (p_orders (cx_pool c) a) = 0 \<and> 0 < n)"
  shows "\<exists>c' qs' ts. match_loop n d a c = Some c' \<and> match_result d a c qs c' qs' ts"
  using assms
proof (induction n arbitrary: c qs)
  case 0
  then show ?case by simp
next
  case (Suc n)
  let ?a = "strip (p_orders (cx_pool c) a)" and ?s = "ob_symbol (cx_book c)"
  have stop: "match_result d a c qs c qs []" if "match_levels ?s d ?a (abs_sides c qs d) = (?a, abs_sides c qs d, [])"
    using that match_step_refl [OF Suc.prems(1,2)] Suc.prems(3) by (simp add: match_result_def)
  show ?case
  proof (cases "o_remaining_qty (p_orders (cx_pool c) a) = 0")
    case True
    with stop show ?thesis by auto
  next
    case a0: False
    note rep = book_okD(4) [OF Suc.prems(1), of d]
    show ?thesis
    proof (cases "qs d")
      case Nil
      then have "get_num d (cx_book c) = 0" using side_rep_length [OF rep] by simp
      with Nil stop show ?thesis by (auto simp: abs_sides_def abs_side_def)
    next
      case (Cons q rest)
      note ac = abs_sides_Cons [OF Suc.prems(1) Cons]
      have loop: "match_loop (Suc n) d a c =
         (if can_match d ?a (l_price (get_levels d (cx_book c) 0))
          then Option.bind (match_pass d a c) (match_loop n d a)
          else if n = 0 then None else Some c)"
        using a0 ac(1) by (intro match_loop_pass) (simp_all add: word_gt_0)
      show ?thesis
      proof (cases "can_match d ?a (l_price (get_levels d (cx_book c) 0))")
        case False
        then have "match_levels ?s d ?a (abs_sides c qs d) = (?a, abs_sides c qs d, [])"
          by (subst (1 2) ac(2)) simp
        moreover have "n \<noteq> 0" using Suc.prems(4) a0 by auto
        ultimately show ?thesis using stop loop False by auto
      next
        case True
        have "q \<noteq> []" "[] \<notin> set rest" using Suc.prems(3) Cons by auto
        from match_pass_ok [OF Suc.prems(1) Cons Suc.prems(2) this a0 True] obtain c1 qs1 ts where
          pass: "match_pass d a c = Some c1" and ms: "match_step d a c qs c1 qs1 ts" "[] \<notin> set (qs1 d)"
          and ml: "match_levels ?s d ?a (abs_sides c qs d)
             = prepend ts (match_levels ?s d (strip (p_orders (cx_pool c1) a)) (abs_sides c1 qs1 d))"
          and dec: "o_remaining_qty (p_orders (cx_pool c1) a) = 0 \<or> length (concat (qs1 d)) < length (concat (qs d))"
          by blast
        have "length (concat (qs d)) + 1 < Suc n" using Suc.prems(4) a0 by blast
        then have "length (concat (qs1 d)) + 1 < n \<or> (o_remaining_qty (p_orders (cx_pool c1) a) = 0 \<and> 0 < n)"
          using dec by linarith
        moreover have "book_ok c1 qs1" "agg_ok d a c1 qs1" using ms(1) by (simp_all add: match_step_def)
        ultimately obtain c2 qs2 us where run: "match_loop n d a c1 = Some c2" and res: "match_result d a c1 qs1 c2 qs2 us"
          using Suc.IH ms(2) by blast
        have "ob_symbol (cx_book c1) = ?s" using ms(1) by (auto simp: match_step_def dest: meta_symbol)
        with res ml match_step_trans [OF ms(1)] have "match_result d a c qs c2 qs2 (ts @ us)"
          by (auto simp: match_result_def)
        with run pass loop True show ?thesis by auto
      qed
    qed
  qed
qed

text \<open>
  A book has fewer orders than the pool has slots, so the iteration limit of the loops is
  never reached: \<open>match_order\<close> does not abort.
\<close>

lemma orders_bound:
  assumes ok: "book_ok c qs" and ag: "agg_ok d a c qs"
  shows "length (all_orders qs) < MAX_ORDERS_IN_POOL"
proof -
  have "insert a (set (all_orders qs)) \<subseteq> allocated (cx_pool c)"
    using book_okD(6) [OF ok] ag by (auto simp: agg_ok_def)
  then have "card (insert a (set (all_orders qs))) \<le> card (allocated (cx_pool c))"
    by (intro card_mono pool.used_finite book_okD(1) [OF ok])
  also have "\<dots> \<le> MAX_ORDERS_IN_POOL" by (rule pool.card_used [OF book_okD(1) [OF ok]])
  finally show ?thesis
    using ag distinct_card [OF book_okD(5) [OF ok]] by (simp add: agg_ok_def)
qed

lemma match_order_ok:
  assumes rep: "book_rep c qs" and ag: "agg_ok d a c qs"
  shows "\<exists>c' qs' ts. match_order a c = Some c' \<and> book_rep c' qs' \<and> match_result d a c qs c' qs' ts"
proof -
  have ok: "book_ok c qs" and ne: "[] \<notin> set (qs d)" "[] \<notin> set (qs (\<not> d))" using rep by (auto simp: book_rep_def)
  have "length (concat (qs d)) < MAX_ORDERS_IN_POOL"
    using orders_bound [OF ok ag] all_orders_side(3) [of qs d] by linarith
  then have "length (concat (qs d)) + 1 < MAX_MATCH_ITERATIONS" by simp
  with match_loop_ok [OF ok ag ne(1)] obtain c' qs' ts where
    run: "match_loop MAX_MATCH_ITERATIONS d a c = Some c'" and res: "match_result d a c qs c' qs' ts" by blast
  have "match_order a c = match_loop MAX_MATCH_ITERATIONS d a c"
    using ag by (cases d) (auto simp: match_order_def match_buy_order_def match_sell_order_def agg_ok_def side_char_def)
  moreover have "[] \<notin> set (qs' e)" for e
    using res ne(2) by (cases "e = d") (auto simp: match_result_def match_step_def)
  then have "book_rep c' qs'" using res by (simp add: book_rep_def match_result_def match_step_def)
  ultimately show ?thesis using run res by auto
qed

end
