(* ===== verification/ME_Book_Ops.thy ===== *)
theory ME_Book_Ops
  imports ME_Book_Match
begin

text \<open>
  The operations of the book: resting an order, the top of book, adding and cancelling an
  order refine \<open>insert_order\<close>, \<open>spec_tob\<close>, \<open>spec_add\<close> and \<open>spec_cancel\<close>.
\<close>

subsection \<open>Resting an order\<close>

lemma insert_order_found:
  assumes "levels_sorted d (map fst ls)" and "i < length ls" and "fst (ls ! i) = o_price a"
  shows "insert_order d a ls = ls[i := (o_price a, snd (ls ! i) @ [a])]"
  using assms
proof (induction ls arbitrary: i)
  case (Cons l ls)
  obtain p q where l: "l = (p, q)" by (cases l)
  show ?case
  proof (cases i)
    case 0
    with Cons.prems l show ?thesis by auto
  next
    case (Suc j)
    with Cons.prems l have "better d p (o_price a)"
      by (auto simp: levels_sorted_def) (metis nth_mem)
    moreover have "p \<noteq> o_price a" "\<not> better d (o_price a) p"
      using calculation better_asym by auto
    ultimately show ?thesis using Cons.IH [of j] Cons.prems Suc l by (auto simp: levels_sorted_def)
  qed
qed simp

lemma insert_order_new:
  assumes "o_price a \<notin> prices ls" and "p = length (takeWhile (\<lambda>l. \<not> better d (o_price a) (fst l)) ls)"
  shows "insert_order d a ls = take p ls @ (o_price a, [a]) # drop p ls"
  using assms(1) unfolding assms(2) by (induction d a ls rule: insert_order.induct) auto

lemma abs_side_fst: "length qs = n \<Longrightarrow> map fst (abs_side h lv n qs) = map l_price (arr_list lv n)"
  by (simp add: abs_side_def)

lemma abs_sides_facts:
  assumes ok: "book_ok c qs"
  shows "length (abs_sides c qs d) = get_num d (cx_book c)"
    and "map fst (abs_sides c qs d) = map l_price (arr_list (get_levels d (cx_book c)) (get_num d (cx_book c)))"
    and "i < get_num d (cx_book c) \<Longrightarrow>
           abs_sides c qs d ! i = (l_price (get_levels d (cx_book c) i), abs_queue (p_orders (cx_pool c)) (qs d ! i))"
    and "levels_sorted d (map fst (abs_sides c qs d))"
    and "get_num d (cx_book c) \<le> MAX_PRICE_LEVELS" "length (qs d) = get_num d (cx_book c)"
proof -
  note rep = book_okD(4) [OF ok, of d]
  show len: "length (qs d) = get_num d (cx_book c)" by (rule side_rep_length [OF rep])
  then show "length (abs_sides c qs d) = get_num d (cx_book c)" by (simp add: abs_sides_def abs_side_def)
  show f: "map fst (abs_sides c qs d) = map l_price (arr_list (get_levels d (cx_book c)) (get_num d (cx_book c)))"
    unfolding abs_sides_def by (rule abs_side_fst [OF len])
  show "levels_sorted d (map fst (abs_sides c qs d))" "get_num d (cx_book c) \<le> MAX_PRICE_LEVELS"
    using rep unfolding f by (simp_all add: side_rep_def)
  show "abs_sides c qs d ! i = (l_price (get_levels d (cx_book c) i), abs_queue (p_orders (cx_pool c)) (qs d ! i))"
    if "i < get_num d (cx_book c)"
    using that len by (simp add: abs_sides_def abs_side_def)
qed

text \<open>A slot that is in use and not in the book.\<close>

definition outside :: "nat \<Rightarrow> ctx \<Rightarrow> queues \<Rightarrow> bool" where
  "outside a c qs \<longleftrightarrow> a \<in> allocated (cx_pool c) \<and> a \<notin> set (all_orders qs)"

lemma add_order_to_level_ok:
  assumes ok: "book_ok c qs" and i: "i < get_num d (cx_book c)" and a: "outside a c qs"
    and h: "h = p_orders (cx_pool c)" and lv: "lv = get_levels d (cx_book c)"
    and res: "resting d (l_price (lv i)) (h a)"
    and fresh: "okey h a \<notin> okey h ` set (all_orders qs)"
    and room: "order_map_room (ob_order_map (cx_book c)) (okey h a)"
  defines "qs' \<equiv> qs(d := (qs d)[i := qs d ! i @ [a]])"
  shows "\<exists>c'. add_order_to_level d i a c = Some c' \<and> book_ok c' qs'
     \<and> abs_sides c' qs' d = (abs_sides c qs d)[i := (l_price (lv i), abs_queue h (qs d ! i) @ [strip (h a)])]
     \<and> abs_sides c' qs' (\<not> d) = abs_sides c qs (\<not> d)
     \<and> meta (cx_book c') = meta (cx_book c) \<and> cx_out c' = cx_out c
     \<and> set (all_orders qs') = insert a (set (all_orders qs))
     \<and> allocated (cx_pool c') = allocated (cx_pool c)
     \<and> (\<forall>x. x \<notin> insert a (set (all_orders qs)) \<longrightarrow> p_orders (cx_pool c') x = h x)"
proof -
  let ?q = "qs d ! i"
  note rep = book_okD(4) [OF ok, of d, folded h lv]
  have len: "i < length (qs d)" using i side_rep_length [OF rep] by simp
  note cq = concat_split [OF len]
  have qd': "(qs d)[i := ?q @ [a]] = take i (qs d) @ (?q @ [a]) # drop (Suc i) (qs d)"
    using len by (simp add: upd_conv_take_nth_drop)
  have d0: "distinct (concat (qs d))" "set (concat (qs d)) \<inter> set (concat (qs (\<not> d))) = {}"
    using book_okD(5) [OF ok] all_orders_side(2) [of qs d] by auto
  have all: "set (all_orders qs) = set (concat (qs d)) \<union> set (concat (qs (\<not> d)))" by (rule all_orders_side)
  have an: "a \<notin> set (concat (qs d))" "a \<notin> set (concat (qs (\<not> d)))"
    using a all unfolding outside_def by auto
  have aq: "a \<notin> set ?q" using an(1) unfolding cq by simp
  have ids: "valid_ids (o_user_id (h a)) (o_user_order_id (h a))" using res by (simp add: resting_def)
  obtain h' hd' tl' where app: "list_append h (l_orders_head (lv i)) (l_orders_tail (lv i)) a = (h', hd', tl')"
    by (metis prod_cases3)
  define l' where "l' = (lv i)\<lparr>l_orders_head := hd', l_orders_tail := tl',
      l_total_quantity := l_total_quantity (lv i) + o_remaining_qty (h' a)\<rparr>"
  note lr = level_rep_append [OF side_rep_level [OF rep i] aq res app, folded l'_def]
  obtain m' where ins: "order_map_insert (ob_order_map (cx_book c)) (okey h a) (loc_of h a) = Some (True, m')"
    and m': "map_rep h m' (insert a (set (all_orders qs)))"
    using map_rep_insert [OF book_okD(7) [OF ok, folded h] ids fresh room] by blast
  define c' where "c' = c\<lparr>cx_book := (set_levels d (lv(i := l')) (cx_book c))\<lparr>ob_order_map := m'\<rparr>,
     cx_pool := (cx_pool c)\<lparr>p_orders := h'\<rparr>\<rparr>"
  have sa: "o_user_id (h' a) = o_user_id (h a)" "o_user_order_id (h' a) = o_user_order_id (h a)"
    "loc_of h' a = loc_of h a"
    using lr(2) [of a] strip_simps(1,2) loc_of_cong by metis+
  have run: "add_order_to_level d i a c = Some c'"
    using app ins ids sa unfolding add_order_to_level_def Let_def h [symmetric] lv [symmetric] c'_def l'_def
    by (simp add: make_order_key_eq okey_def asserts loc_of_def)
  have fr: "h' y = h y" if "y \<in> set (concat (qs d)) \<Longrightarrow> y \<notin> set ?q" "y \<noteq> a" for y
    using that lr(3) cq by auto
  have fr': "h' y = h y" if "j < get_num d (cx_book c)" "j \<noteq> i" "y \<in> set (qs d ! j)" for j y
  proof (rule fr)
    have jl: "j < length (qs d)" using that side_rep_length [OF rep] by simp
    then have y: "y \<in> set (concat (qs d))" using that(3) by (rule in_concat_nth)
    show "y \<notin> set ?q" using distinct_concat_nth [OF d0(1) jl len that(2,3)] .
    show "y \<noteq> a" using y an(1) by blast
  qed
  have lp: "l_price l' = l_price (lv i)" by (simp add: l'_def)
  note su = side_rep_update [OF rep i lr(1) lp fr']
  have dist: "distinct (concat ((qs d)[i := ?q @ [a]]))"
    "set (concat ((qs d)[i := ?q @ [a]])) \<inter> set (concat (qs (\<not> d))) = {}"
    using d0 an unfolding qd' cq by auto
  have sc: "set (concat ((qs d)[i := ?q @ [a]])) = insert a (set (concat (qs d)))"
    unfolding qd' cq by auto
  have all': "set (all_orders qs') = insert a (set (all_orders qs))"
    unfolding all using all_orders_side(1) [of qs' d] sc by (simp add: qs'_def)
  have keys: "okey h' y = okey h y \<and> loc_of h' y = loc_of h y" for y
    using lr(2) [of y] okey_cong loc_of_cong by blast
  have mp: "map_rep h' m' (set (all_orders qs'))"
    unfolding all' using m' map_rep_cong [of "insert a (set (all_orders qs))" h' h m', OF keys] by simp
  have other: "h' y = h y" if "y \<in> set (concat (qs (\<not> d)))" for y
    using that d0(2) an(2) by (intro fr) auto
  have c': "p_orders (cx_pool c') = h'" "get_levels d (cx_book c') = lv(i := l')"
    "get_num d (cx_book c') = get_num d (cx_book c)" "ob_order_map (cx_book c') = m'"
    "allocated (cx_pool c') = allocated (cx_pool c)" "meta (cx_book c') = meta (cx_book c)" "cx_out c' = cx_out c"
    by (simp_all add: c'_def)
  have "book_ok c' qs' \<and> abs_sides c' qs' (\<not> d) = abs_sides c qs (\<not> d)"
    using book_ok_change [OF ok, of c' d "(qs d)[i := ?q @ [a]]", unfolded c', OF _ _ _ _ _ other [unfolded h] su(1) dist]
      book_okD(1,3,6) [OF ok] mp [unfolded all' all] a
    unfolding sc by (simp add: c'_def qs'_def outside_def all)
  moreover have "abs_sides c' qs' d = (abs_sides c qs d)[i := (l_price (lv i), abs_queue h ?q @ [strip (h a)])]"
    unfolding abs_sides_def c' using su(2) lr(2) by (simp add: qs'_def h lv abs_queue_def)
  moreover have "\<forall>x. x \<notin> insert a (set (all_orders qs)) \<longrightarrow> h' x = h x"
    using fr unfolding all by auto
  ultimately show ?thesis using run all' by (simp add: c')
qed

text \<open>What resting an order needs: a level for its price, room in the map, a new key.\<close>

definition level_room :: "bool \<Rightarrow> u32 \<Rightarrow> abook \<Rightarrow> bool" where
  "level_room d p b \<longleftrightarrow> p \<in> prices (ab_side b d) \<or> length (ab_side b d) < MAX_PRICE_LEVELS"

definition rest_step :: "bool \<Rightarrow> nat \<Rightarrow> ctx \<Rightarrow> queues \<Rightarrow> ctx \<Rightarrow> queues \<Rightarrow> bool" where
  "rest_step d a c qs c' qs' \<longleftrightarrow> book_rep c' qs'
     \<and> abs_sides c' qs' d = insert_order d (strip (p_orders (cx_pool c) a)) (abs_sides c qs d)
     \<and> abs_sides c' qs' (\<not> d) = abs_sides c qs (\<not> d)
     \<and> meta (cx_book c') = meta (cx_book c) \<and> cx_out c' = cx_out c
     \<and> set (all_orders qs') = insert a (set (all_orders qs))
     \<and> allocated (cx_pool c') = allocated (cx_pool c)
     \<and> (\<forall>x. x \<notin> insert a (set (all_orders qs)) \<longrightarrow> p_orders (cx_pool c') x = p_orders (cx_pool c) x)"

lemma new_level_ok:
  assumes ok: "book_ok c qs" and lt: "get_num d (cx_book c) < MAX_PRICE_LEVELS" and price: "0 < price"
    and new: "price \<notin> prices (abs_sides c qs d)"
  shows "\<exists>lv' p c'. insert_price_level (get_levels d (cx_book c)) (get_num d (cx_book c)) price d
            = Some (lv', Suc (get_num d (cx_book c)), int p)
          \<and> c' = c\<lparr>cx_book := set_num d (Suc (get_num d (cx_book c))) (set_levels d lv' (cx_book c))\<rparr>
          \<and> p \<le> get_num d (cx_book c)
          \<and> p = length (takeWhile (\<lambda>l. \<not> better d price (fst l)) (abs_sides c qs d))
          \<and> book_ok c' (qs(d := take p (qs d) @ [] # drop p (qs d)))
          \<and> set (all_orders (qs(d := take p (qs d) @ [] # drop p (qs d)))) = set (all_orders qs)
          \<and> abs_sides c' (qs(d := take p (qs d) @ [] # drop p (qs d))) d
              = take p (abs_sides c qs d) @ (price, []) # drop p (abs_sides c qs d)
          \<and> abs_sides c' (qs(d := take p (qs d) @ [] # drop p (qs d))) (\<not> d) = abs_sides c qs (\<not> d)"
proof -
  let ?lv = "get_levels d (cx_book c)" and ?n = "get_num d (cx_book c)" and ?L = "abs_sides c qs d"
  define p where "p = insert_index d price (arr_list ?lv ?n)"
  define qd where "qd = take p (qs d) @ [] # drop p (qs d)"
  note rep = book_okD(4) [OF ok, of d] and facts = abs_sides_facts [OF ok, where d = d]
  have p: "p \<le> ?n" using insert_index_le [of d price "arr_list ?lv ?n"] by (simp add: p_def)
  have peq: "p = length (takeWhile (\<lambda>l. \<not> better d price (fst l)) ?L)"
  proof -
    have "takeWhile (\<lambda>x. \<not> better d price x) (map fst ?L) = takeWhile (\<lambda>x. \<not> better d price x) (map l_price (arr_list ?lv ?n))"
      using facts(2) by simp
    then show ?thesis unfolding p_def insert_index_def takeWhile_map comp_def by (metis length_map)
  qed
  obtain lv' where ins: "insert_price_level ?lv ?n price d = Some (lv', Suc ?n, int p)"
    and lv': "arr_list lv' (Suc ?n) = take p (arr_list ?lv ?n) @ new_level price # drop p (arr_list ?lv ?n)"
    using insert_price_level_eq [OF lt, of ?lv price d] unfolding p_def by blast
  have "price \<notin> l_price ` set (arr_list ?lv ?n)"
    using new arg_cong [OF facts(2), of set] by (simp add: prices_def)
  then have srt: "levels_sorted d (map l_price (take p (arr_list ?lv ?n) @ new_level price # drop p (arr_list ?lv ?n)))"
    unfolding p_def using facts(2,4) by (intro insert_index_sorted) simp_all
  note new = side_rep_insert [OF rep lt p lv' srt price, folded qd_def]
  define c' where "c' = c\<lparr>cx_book := set_num d (Suc ?n) (set_levels d lv' (cx_book c))\<rparr>"
  have cc: "concat qd = concat (qs d)" unfolding qd_def
    using concat_append [of "take p (qs d)" "drop p (qs d)"] by simp
  have all: "set (all_orders (qs(d := qd))) = set (all_orders qs)"
    using all_orders_side(1) [of "qs(d := qd)" d] all_orders_side(1) [of qs d] cc by (simp del: set_concat)
  have dist: "distinct (concat qd)" "set (concat qd) \<inter> set (concat (qs (\<not> d))) = {}"
    using book_okD(5) [OF ok] all_orders_side(2) [of qs d] unfolding cc by auto
  have "book_ok c' (qs(d := qd))" "abs_sides c' (qs(d := qd)) (\<not> d) = abs_sides c qs (\<not> d)"
    using book_ok_change [OF ok, of c' d qd, OF _ _ _ _ _ _ _ dist] new(1) book_okD [OF ok]
    by (simp_all add: c'_def cc all_orders_side(1) [of qs d] del: set_concat)
  moreover have "abs_sides c' (qs(d := qd)) d = take p ?L @ (price, []) # drop p ?L"
    using new(2) by (simp add: c'_def abs_sides_def)
  ultimately show ?thesis using ins p peq all c'_def unfolding qd_def by blast
qed

lemma add_to_book_ok:
  assumes rep: "book_rep c qs" and a: "outside a c qs"
    and h: "h = p_orders (cx_pool c)" and d: "d = (o_side (h a) = SIDE_BUY)"
    and res: "resting d (o_price (h a)) (h a)" and price: "0 < o_price (h a)"
    and fresh: "okey h a \<notin> okey h ` set (all_orders qs)"
    and room: "order_map_room (ob_order_map (cx_book c)) (okey h a)"
    and lroom: "level_room d (o_price (h a)) (abs_book c qs)"
  shows "\<exists>c' qs'. add_to_book a c = Some c' \<and> rest_step d a c qs c' qs'"
proof -
  let ?p = "o_price (h a)" and ?L = "abs_sides c qs d" and ?n = "get_num d (cx_book c)"
    and ?lv = "get_levels d (cx_book c)"
  have ok: "book_ok c qs" and ne: "[] \<notin> set (qs e)" for e using rep by (auto simp: book_rep_def)
  note facts = abs_sides_facts [OF ok, where d = d]
  have strp: "o_price (strip (h a)) = ?p" by simp
  obtain r where find: "find_price_level ?lv ?n ?p d = Some r"
    and cases: "(r = -1 \<and> (\<forall>i<?n. l_price (?lv i) \<noteq> ?p)) \<or> (0 \<le> r \<and> nat r < ?n \<and> l_price (?lv (nat r)) = ?p)"
    using find_price_level_correct [OF facts(5)] facts(2,4) by metis
  have head: "add_to_book a c = Option.bind (if r = -1 then do {
                      (levels', num', pos) \<leftarrow> insert_price_level ?lv ?n ?p d;
                      Some (c\<lparr>cx_book := set_num d num' (set_levels d levels' (cx_book c))\<rparr>, pos)
                    } else Some (c, r)) (\<lambda>(c1, idx1). do {
     assert_that (0 \<le> idx1 \<and> nat idx1 < get_num d (cx_book c1));
     add_order_to_level d (nat idx1) a c1 })"
    using res price find unfolding add_to_book_def Let_def h [symmetric] d [symmetric]
    by (simp add: asserts resting_def)
  from cases show ?thesis
  proof
    assume A: "0 \<le> r \<and> nat r < ?n \<and> l_price (?lv (nat r)) = ?p"
    define i where "i = nat r"
    have i: "i < ?n" "l_price (?lv i) = ?p" "r = int i" using A by (auto simp: i_def)
    from add_order_to_level_ok [OF ok i(1) a h refl _ fresh room] res i(2) obtain c' where
      run: "add_order_to_level d i a c = Some c'" and st: "book_ok c' (qs(d := (qs d)[i := qs d ! i @ [a]]))"
      "abs_sides c' (qs(d := (qs d)[i := qs d ! i @ [a]])) d = ?L[i := (?p, abs_queue h (qs d ! i) @ [strip (h a)])]"
      "abs_sides c' (qs(d := (qs d)[i := qs d ! i @ [a]])) (\<not> d) = abs_sides c qs (\<not> d)"
      "meta (cx_book c') = meta (cx_book c)" "cx_out c' = cx_out c"
      "set (all_orders (qs(d := (qs d)[i := qs d ! i @ [a]]))) = insert a (set (all_orders qs))"
      "allocated (cx_pool c') = allocated (cx_pool c)"
      "\<forall>x. x \<notin> insert a (set (all_orders qs)) \<longrightarrow> p_orders (cx_pool c') x = h x"
      by auto
    have "insert_order d (strip (h a)) ?L = ?L[i := (?p, abs_queue h (qs d ! i) @ [strip (h a)])]"
      using insert_order_found [OF facts(4), of i "strip (h a)"] facts(1) facts(3) [OF i(1)] i by (simp add: h)
    moreover have "[] \<notin> set ((qs(d := (qs d)[i := qs d ! i @ [a]])) e)" for e
      using ne set_update_subset_insert [of "qs d" i "qs d ! i @ [a]"] by auto
    ultimately have "rest_step d a c qs c' (qs(d := (qs d)[i := qs d ! i @ [a]]))"
      using st by (simp add: rest_step_def book_rep_def h)
    with run head i show ?thesis by (auto simp: asserts)
  next
    assume B: "r = -1 \<and> (\<forall>i<?n. l_price (?lv i) \<noteq> ?p)"
    have new: "?p \<notin> prices ?L" using B unfolding prices_def facts(2) by (auto simp: set_arr_list)
    then have lt: "?n < MAX_PRICE_LEVELS" using lroom facts(1) by (auto simp: level_room_def abs_book_def)
    from new_level_ok [OF ok lt price new] obtain lv' p c1 where
      ins: "insert_price_level ?lv ?n ?p d = Some (lv', Suc ?n, int p)"
      and c1: "c1 = c\<lparr>cx_book := set_num d (Suc ?n) (set_levels d lv' (cx_book c))\<rparr>" and p: "p \<le> ?n"
      and peq: "p = length (takeWhile (\<lambda>l. \<not> better d ?p (fst l)) ?L)"
      and ok1: "book_ok c1 (qs(d := take p (qs d) @ [] # drop p (qs d)))"
      and all1: "set (all_orders (qs(d := take p (qs d) @ [] # drop p (qs d)))) = set (all_orders qs)"
      and as1: "abs_sides c1 (qs(d := take p (qs d) @ [] # drop p (qs d))) d = take p ?L @ (?p, []) # drop p ?L"
      and as1': "abs_sides c1 (qs(d := take p (qs d) @ [] # drop p (qs d))) (\<not> d) = abs_sides c qs (\<not> d)"
      by blast
    define qs1 where "qs1 = qs(d := take p (qs d) @ [] # drop p (qs d))"
    note ok1 = ok1 [folded qs1_def] and all1 = all1 [folded qs1_def] and as1 = as1 [folded qs1_def] as1' [folded qs1_def]
    have pn: "p < get_num d (cx_book c1)" using p by (simp add: c1)
    have pl: "length (take p (qs d)) = p" "length (take p ?L) = p" using p facts(1,6) by simp_all
    have q1: "qs1 d ! p = []" using pl by (simp add: qs1_def nth_append)
    have lp: "l_price (get_levels d (cx_book c1) p) = ?p"
      using abs_sides_facts(3) [OF ok1 pn] pl unfolding as1 by (simp add: nth_append)
    have h1: "h = p_orders (cx_pool c1)" by (simp add: c1 h)
    have a1: "outside a c1 qs1" using a all1 by (simp add: outside_def c1)
    have room1: "order_map_room (ob_order_map (cx_book c1)) (okey h a)" using room by (simp add: c1)
    define qs2 where "qs2 = qs1(d := (qs1 d)[p := qs1 d ! p @ [a]])"
    from add_order_to_level_ok [OF ok1 pn a1 h1 refl _ fresh [folded all1] room1, folded qs2_def] res lp obtain c' where
      run: "add_order_to_level d p a c1 = Some c'" and st: "book_ok c' qs2"
      "abs_sides c' qs2 d = (abs_sides c1 qs1 d)[p := (?p, abs_queue h (qs1 d ! p) @ [strip (h a)])]"
      "abs_sides c' qs2 (\<not> d) = abs_sides c1 qs1 (\<not> d)"
      "meta (cx_book c') = meta (cx_book c1)" "cx_out c' = cx_out c1"
      "set (all_orders qs2) = insert a (set (all_orders qs1))" "allocated (cx_pool c') = allocated (cx_pool c1)"
      "\<forall>x. x \<notin> insert a (set (all_orders qs1)) \<longrightarrow> p_orders (cx_pool c') x = h x"
      by auto
    have upd: "(take p ?L @ (?p, []) # drop p ?L)[p := (?p, [strip (h a)])] = take p ?L @ (?p, [strip (h a)]) # drop p ?L"
      using pl by (simp add: list_update_append)
    have "insert_order d (strip (h a)) ?L = take p ?L @ (?p, [strip (h a)]) # drop p ?L"
      using insert_order_new [of "strip (h a)" ?L p d] new peq by simp
    moreover have "abs_queue h (qs1 d ! p) @ [strip (h a)] = [strip (h a)]" by (simp add: abs_queue_def q1)
    ultimately have "abs_sides c' qs2 d = insert_order d (strip (h a)) ?L"
      using st(2) unfolding as1(1) upd by (simp only: upd)
    moreover have "qs2 d = take p (qs d) @ [a] # drop p (qs d)"
      using pl by (simp add: qs2_def qs1_def nth_append list_update_append)
    then have "[] \<notin> set (qs2 e)" for e
      using ne [of e] in_set_takeD [of "[]" p "qs d"] in_set_dropD [of "[]" p "qs d"]
      by (cases "e = d") (auto simp: qs2_def qs1_def)
    ultimately have "rest_step d a c qs c' qs2"
      using st(1,3-) as1(2) all1 by (simp add: rest_step_def book_rep_def c1 h)
    with run head B ins c1 pn show ?thesis by (auto simp: asserts)
  qed
qed

subsection \<open>The top of book\<close>

lemma best_of_side:
  assumes ok: "book_ok c qs"
  shows "best (abs_sides c qs d) = (if get_num d (cx_book c) > 0
           then (l_price (get_levels d (cx_book c) 0), l_total_quantity (get_levels d (cx_book c) 0)) else (0, 0))"
    and "fst (best (abs_sides c qs d)) = 0 \<longleftrightarrow> get_num d (cx_book c) = 0"
proof -
  note facts = abs_sides_facts [OF ok, where d = d]
  have "best (abs_sides c qs d) = (l_price (get_levels d (cx_book c) 0), l_total_quantity (get_levels d (cx_book c) 0))
      \<and> 0 < l_price (get_levels d (cx_book c) 0)"
    if n: "0 < get_num d (cx_book c)"
  proof -
    obtain q rest where q: "qs d = q # rest" using n facts(6) by (cases "qs d") auto
    have "level_rep (p_orders (cx_pool c)) d (get_levels d (cx_book c) 0) q" by (rule abs_sides_Cons(3) [OF ok q])
    moreover have "queue_qty (abs_queue h q) = queue_qty (map h q)" for h
      by (simp add: abs_queue_def queue_qty_def comp_def)
    ultimately show ?thesis by (subst abs_sides_Cons(2) [OF ok q]) (simp add: level_rep_def)
  qed
  moreover have "abs_sides c qs d = []" if "get_num d (cx_book c) = 0" using that facts(1) by simp
  ultimately show "best (abs_sides c qs d) = (if get_num d (cx_book c) > 0
           then (l_price (get_levels d (cx_book c) 0), l_total_quantity (get_levels d (cx_book c) 0)) else (0, 0))"
    and "fst (best (abs_sides c qs d)) = 0 \<longleftrightarrow> get_num d (cx_book c) = 0"
    by (fastforce simp: word_gt_0)+
qed

lemma tob_message_ok:
  assumes "symbol_ok s" and "length out \<le> MAX_OUTPUT_MESSAGES" and "p = 0 \<longrightarrow> q = 0"
  shows "tob_message s (side_char d) p q act out
           = Some (emit out (if p > 0 \<or> act then [tob_msg s d (p, q)] else []))"
proof -
  have "copy_until_nul 14 s = take 14 s" using assms(1) by (simp add: symbol_ok_def copy_until_nul_c_string)
  then show ?thesis
    using assms(2,3)
    by (auto simp: tob_message_def make_top_of_book_eliminated_msg_def make_top_of_book_msg_ok asserts
          output_buffer_add_emit tob_msg_def side_char_def word_gt_0)
qed

lemma check_tob_changes_ok:
  assumes ok: "book_ok c qs"
  shows "\<exists>c'. check_tob_changes c = Some c' \<and> book_ok c' qs \<and> cx_pool c' = cx_pool c
     \<and> abs_book c' qs = fst (spec_tob (abs_book c qs))
     \<and> cx_out c' = emit (cx_out c) (snd (spec_tob (abs_book c qs)))
     \<and> ob_order_map (cx_book c') = ob_order_map (cx_book c)
     \<and> ob_flush_state (cx_book c') = ob_flush_state (cx_book c)
     \<and> (\<forall>d. get_num d (cx_book c') = get_num d (cx_book c) \<and> get_levels d (cx_book c') = get_levels d (cx_book c))"
proof -
  define b where "b = cx_book c"
  define now where "now d = best (abs_sides c qs d)" for d
  define prev where "prev d = ab_prev (abs_book c qs) d" for d
  define act where "act d \<longleftrightarrow> fst (now d) > 0 \<or> ab_active (abs_book c qs) d" for d
  have np: "ob_num_bid_levels b \<le> MAX_PRICE_LEVELS" "ob_num_ask_levels b \<le> MAX_PRICE_LEVELS"
    using abs_sides_facts(5) [OF ok, where d = True] abs_sides_facts(5) [OF ok, where d = False]
    by (simp_all add: get_num_def b_def)
  have bids: "order_book_get_best_bid_price b = Some (fst (now True))" "order_book_get_best_bid_quantity b = Some (snd (now True))"
    and asks: "order_book_get_best_ask_price b = Some (fst (now False))" "order_book_get_best_ask_quantity b = Some (snd (now False))"
    using np best_of_side(1) [OF ok, of True] best_of_side(1) [OF ok, of False]
    by (simp_all add: order_book_get_best_bid_price_def order_book_get_best_bid_quantity_def
        order_book_get_best_ask_price_def order_book_get_best_ask_quantity_def asserts now_def
        get_num_def get_levels_def b_def)
  have z: "fst (now d) = 0 \<longrightarrow> snd (now d) = 0" for d
    using best_of_side [OF ok, of d] by (auto simp: now_def)
  note sym = book_okD(2) [OF ok, folded b_def]
  have msg: "length out \<le> MAX_OUTPUT_MESSAGES \<Longrightarrow>
      (if fst (now d) \<noteq> fst (prev d) \<or> snd (now d) \<noteq> snd (prev d)
       then tob_message (ob_symbol b) (side_char d) (fst (now d)) (snd (now d)) (act d) out else Some out)
      = Some (emit out (spec_tob_side (abs_book c qs) d))" for d out
    using tob_message_ok [OF sym, of out "fst (now d)" "snd (now d)" d "act d"] z [of d]
    by (auto simp: spec_tob_side_def abs_book_def b_def now_def prev_def act_def prod_eq_iff)
  have sc: "side_char True = SIDE_BUY" "side_char False = SIDE_SELL" by (simp_all add: side_char_def)
  have parts: "(ob_prev_best_bid_price b, ob_prev_best_bid_qty b) = prev True"
    "(ob_prev_best_ask_price b, ob_prev_best_ask_qty b) = prev False"
    "(if fst (now True) > 0 then True else ob_bid_side_ever_active b) = act True"
    "(if fst (now False) > 0 then True else ob_ask_side_ever_active b) = act False"
    by (auto simp: prev_def act_def abs_book_def b_def)
  have prevs: "ob_prev_best_bid_price b = fst (prev True)" "ob_prev_best_bid_qty b = snd (prev True)"
    "ob_prev_best_ask_price b = fst (prev False)" "ob_prev_best_ask_qty b = snd (prev False)"
    using parts(1,2) by (metis fst_conv snd_conv)+
  have upd: "(if fst (now d) \<noteq> fst (prev d) \<or> snd (now d) \<noteq> snd (prev d) then fst (now d) else fst (prev d)) = fst (now d)"
    "(if fst (now d) \<noteq> fst (prev d) \<or> snd (now d) \<noteq> snd (prev d) then snd (now d) else snd (prev d)) = snd (now d)" for d
    by auto
  define b' where "b' = b\<lparr>ob_bid_side_ever_active := act True, ob_ask_side_ever_active := act False,
     ob_prev_best_bid_price := fst (now True), ob_prev_best_bid_qty := snd (now True),
     ob_prev_best_ask_price := fst (now False), ob_prev_best_ask_qty := snd (now False)\<rparr>"
  define out' where "out' = emit (cx_out c) (spec_tob_side (abs_book c qs) True @ spec_tob_side (abs_book c qs) False)"
  have run: "check_tob_changes c = Some (c\<lparr>cx_book := b', cx_out := out'\<rparr>)"
    unfolding check_tob_changes_def Let_def b_def [symmetric] bids asks bind.bind_lunit parts prevs upd b'_def out'_def
      msg [of "cx_out c" True, OF book_okD(3) [OF ok], unfolded sc]
      msg [of "emit (cx_out c) (spec_tob_side (abs_book c qs) True)" False, OF length_emit, unfolded sc] emit_emit ..
  have lv: "get_num d b' = get_num d b" "get_levels d b' = get_levels d b" "ob_order_map b' = ob_order_map b"
    "ob_symbol b' = ob_symbol b" "ob_flush_state b' = ob_flush_state b" for d
    by (auto simp: b'_def get_num_def get_levels_def)
  have "book_ok (c\<lparr>cx_book := b', cx_out := out'\<rparr>) qs"
    using ok lv by (simp add: book_ok_def b_def [symmetric] out'_def)
  have sides: "abs_sides (c\<lparr>cx_book := b', cx_out := out'\<rparr>) qs = abs_sides c qs"
    by (rule ext) (simp add: abs_sides_def lv b_def [symmetric])
  have "abs_book (c\<lparr>cx_book := b', cx_out := out'\<rparr>) qs = fst (spec_tob (abs_book c qs))"
    unfolding abs_book_def sides spec_tob_def
    by (auto simp: b_def [symmetric] b'_def act_def now_def abs_book_def)
  with \<open>book_ok (c\<lparr>cx_book := b', cx_out := out'\<rparr>) qs\<close> show ?thesis
    using run lv by (simp add: spec_tob_def out'_def b_def)
qed

subsection \<open>Adding an order\<close>

lemma abs_book_eq: "meta (cx_book c') = meta (cx_book c) \<Longrightarrow>
     abs_book c' qs' = (abs_book c qs)\<lparr>ab_side := abs_sides c' qs'\<rparr>"
  by (auto simp: abs_book_def meta_def)

lemma abs_sides_eqI:
  assumes "abs_sides c' qs' d = f d" and "abs_sides c' qs' (\<not> d) = f (\<not> d)"
  shows "abs_sides c' qs' = f"
proof
  fix e
  show "abs_sides c' qs' e = f e" using assms by (cases "e = d") auto
qed

lemma book_ok_pool:
  assumes ok: "book_ok c qs" and "pool_ok pool'" and "set (all_orders qs) \<subseteq> allocated pool'"
    and eq: "\<And>x. x \<in> set (all_orders qs) \<Longrightarrow> p_orders pool' x = p_orders (cx_pool c) x"
    and "length out' \<le> MAX_OUTPUT_MESSAGES"
  shows "book_ok (c\<lparr>cx_pool := pool', cx_out := out'\<rparr>) qs"
    and "abs_sides (c\<lparr>cx_pool := pool', cx_out := out'\<rparr>) qs = abs_sides c qs"
proof -
  have e: "p_orders pool' x = p_orders (cx_pool c) x" if "x \<in> set (concat (qs d))" for x d
    using eq [of x] that all_orders_side(1) [of qs d] by blast
  have mp: "map_rep (p_orders pool') (ob_order_map (cx_book c)) (set (all_orders qs))"
    using book_okD(7) [OF ok] map_rep_cong [of "set (all_orders qs)" "p_orders pool'" "p_orders (cx_pool c)"] eq
    by (simp add: okey_def loc_of_def)
  show "book_ok (c\<lparr>cx_pool := pool', cx_out := out'\<rparr>) qs"
    using assms mp side_rep_frame(1) [OF book_okD(4) [OF ok] e] by (simp add: book_ok_def)
  show "abs_sides (c\<lparr>cx_pool := pool', cx_out := out'\<rparr>) qs = abs_sides c qs"
    using side_rep_frame(2) [OF book_okD(4) [OF ok] e] by (simp add: abs_sides_def fun_eq_iff)
qed

lemma resting_ids_orders:
  assumes ok: "book_ok c qs"
  shows "resting_ids (abs_book c qs) u i \<longleftrightarrow>
     (\<exists>x\<in>set (all_orders qs). o_user_id (p_orders (cx_pool c) x) = u \<and> o_user_order_id (p_orders (cx_pool c) x) = i)"
proof -
  let ?h = "p_orders (cx_pool c)"
  have "snd ` set (abs_sides c qs d) = abs_queue ?h ` set (qs d)" for d
  proof -
    have "map snd (abs_sides c qs d) = map (abs_queue ?h) (qs d)"
      using side_rep_length [OF book_okD(4) [OF ok, of d]] by (simp add: abs_sides_def abs_side_def)
    then show ?thesis by (metis set_map)
  qed
  then have "(\<exists>Q\<in>snd ` set (abs_sides c qs d). \<exists>x\<in>set Q. has_ids u i x) \<longleftrightarrow>
      (\<exists>Q\<in>abs_queue ?h ` set (qs d). \<exists>x\<in>set Q. has_ids u i x)" for d
    by (simp only:)
  then show ?thesis
    unfolding resting_ids_def abs_book_def all_orders_def
    by (simp add: abs_queue_def has_ids_def ex_bool_eq) blast
qed

text \<open>
  The slots that other books use: a book operation leaves them, and the set of them, as
  they are.
\<close>

definition others_kept :: "ctx \<Rightarrow> queues \<Rightarrow> ctx \<Rightarrow> queues \<Rightarrow> bool" where
  "others_kept c qs c' qs' \<longleftrightarrow>
     allocated (cx_pool c') - set (all_orders qs') = allocated (cx_pool c) - set (all_orders qs)
     \<and> (\<forall>x\<in>allocated (cx_pool c) - set (all_orders qs). p_orders (cx_pool c') x = p_orders (cx_pool c) x)"

text \<open>What a message needs so that adding its order cannot abort.\<close>

definition add_pre :: "ctx \<Rightarrow> queues \<Rightarrow> new_order_msg_t \<Rightarrow> bool" where
  "add_pre c qs msg \<longleftrightarrow> side_is_valid (no_side msg) \<and> 0 < no_quantity msg
     \<and> valid_ids (no_user_id msg) (no_user_order_id msg)
     \<and> (no_price msg \<noteq> 0 \<longrightarrow>
          \<not> resting_ids (abs_book c qs) (no_user_id msg) (no_user_order_id msg)
          \<and> order_map_room (ob_order_map (cx_book c)) (order_key (no_user_id msg) (no_user_order_id msg))
          \<and> level_room (no_side msg = SIDE_BUY) (no_price msg) (abs_book c qs))"

lemma order_ok_of_msg: "add_pre c qs msg \<Longrightarrow> order_ok (order_of_msg msg client_id ts)"
  by (simp add: add_pre_def order_ok_def)

lemma add_order_match:
  assumes rep: "book_rep c qs" and pre: "add_pre c qs msg"
    and full: "allocated (cx_pool c) \<noteq> {..<MAX_ORDERS_IN_POOL}"
    and d_def: "d = (no_side msg = SIDE_BUY)" and ord_def: "ord = order_of_msg msg client_id ts"
    and ack_def: "ack = ack_of (ob_symbol (cx_book c)) (no_user_id msg) (no_user_order_id msg)"
  shows "\<exists>a c0 c1 qs1 trs. a \<notin> allocated (cx_pool c) \<and> p_orders (cx_pool c0) a = ord
      \<and> abs_sides c0 qs = abs_sides c qs \<and> cx_out c0 = emit (cx_out c) [ack] \<and> cx_book c0 = cx_book c
      \<and> allocated (cx_pool c0) = insert a (allocated (cx_pool c))
      \<and> (\<forall>x. x \<noteq> a \<longrightarrow> p_orders (cx_pool c0) x = p_orders (cx_pool c) x)
      \<and> book_rep c1 qs1 \<and> match_result (\<not> d) a c0 qs c1 qs1 trs
      \<and> order_book_add_order msg client_id ts c = do {
         let ord1 = p_orders (cx_pool c1) a;
         c2 \<leftarrow> (if o_remaining_qty ord1 > 0 \<and> o_type ord1 = ORDER_TYPE_LIMIT
                then add_to_book a c1
                else do {
                  pool3 \<leftarrow> order_pool_free (cx_pool c1) a;
                  Some (c1\<lparr>cx_pool := pool3\<rparr>)
                });
         check_tob_changes c2
       }"
proof -
  have ok: "book_ok c qs" using rep by (simp add: book_rep_def)
  obtain a pool1 where al: "order_pool_alloc (cx_pool c) = Some (Some a, pool1)"
    and a: "a < MAX_ORDERS_IN_POOL" "a \<notin> allocated (cx_pool c)"
    and p1: "pool_ok pool1" "allocated pool1 = insert a (allocated (cx_pool c))" "p_orders pool1 = p_orders (cx_pool c)"
    using order_pool_alloc_fresh [OF book_okD(1) [OF ok] full] by blast
  obtain ord0 where oi: "order_init msg ts = Some ord0" "ord0\<lparr>o_client_id := client_id\<rparr> = ord"
    using order_init_ok [of msg ts client_id] pre by (auto simp: add_pre_def ord_def)
  have ids: "o_user_id ord0 = no_user_id msg" "o_user_order_id ord0 = no_user_order_id msg"
    using arg_cong [OF oi(2), of o_user_id] arg_cong [OF oi(2), of o_user_order_id] by (simp_all add: ord_def)
  define pool2 where "pool2 = pool1\<lparr>p_orders := (p_orders pool1)(a := ord)\<rparr>"
  define c0 where "c0 = c\<lparr>cx_pool := pool2, cx_out := emit (cx_out c) [ack]\<rparr>"
  have an: "a \<notin> set (all_orders qs)" using a(2) book_okD(6) [OF ok] by blast
  have c0: "book_ok c0 qs" "abs_sides c0 qs = abs_sides c qs"
    unfolding c0_def using p1 book_okD(6) [OF ok] an
    by (intro book_ok_pool [OF ok]; auto simp: pool2_def)+
  have h0: "p_orders (cx_pool c0) a = ord" by (simp add: c0_def pool2_def)
  have "agg_ok (\<not> d) a c0 qs"
    using an pre by (auto simp: agg_ok_def c0_def pool2_def p1 ord_def side_char_def d_def add_pre_def side_is_valid_def)
  moreover have rep0: "book_rep c0 qs" using c0(1) rep by (simp add: book_rep_def)
  ultimately obtain c1 qs1 trs where m: "match_order a c0 = Some c1" "book_rep c1 qs1" "match_result (\<not> d) a c0 qs c1 qs1 trs"
    using match_order_ok by blast
  have ackm: "make_ack_msg (ob_symbol (cx_book c)) (no_user_id msg) (no_user_order_id msg) = Some ack"
    using book_okD(2) [OF ok] by (simp add: make_ack_msg_ok ack_def ack_of_def)
  have run: "order_book_add_order msg client_id ts c = do {
         c1 \<leftarrow> match_order a c0;
         let ord1 = p_orders (cx_pool c1) a;
         c2 \<leftarrow> (if o_remaining_qty ord1 > 0 \<and> o_type ord1 = ORDER_TYPE_LIMIT
                then add_to_book a c1
                else do {
                  pool3 \<leftarrow> order_pool_free (cx_pool c1) a;
                  Some (c1\<lparr>cx_pool := pool3\<rparr>)
                });
         check_tob_changes c2
       }"
    unfolding order_book_add_order_def al Let_def
    using output_buffer_add_emit [OF book_okD(3) [OF ok], of ack] ackm ids oi
    by (simp add: c0_def pool2_def)
  have fr: "allocated (cx_pool c0) = insert a (allocated (cx_pool c))"
    "\<forall>x. x \<noteq> a \<longrightarrow> p_orders (cx_pool c0) x = p_orders (cx_pool c) x"
    "cx_out c0 = emit (cx_out c) [ack]" "cx_book c0 = cx_book c"
    by (simp_all add: c0_def pool2_def p1)
  show ?thesis
    by (intro exI conjI, rule a(2), rule h0, rule c0(2), rule fr(3), rule fr(4), rule fr(1), rule fr(2), rule m(2), rule m(3))
       (simp add: run m(1))
qed

lemma spec_match_result:
  assumes m: "match_result (\<not> d) a c0 qs c1 qs1 trs" and side: "d = (o_side ord = SIDE_BUY)"
    and h0: "strip (p_orders (cx_pool c0) a) = ord" and as: "abs_sides c0 qs = abs_sides c qs"
    and bk: "cx_book c0 = cx_book c"
  shows "spec_match (abs_book c qs) ord =
     ((abs_book c qs)\<lparr>ab_side := (if rests (strip (p_orders (cx_pool c1) a))
        then (abs_sides c1 qs1)(d := insert_order d (strip (p_orders (cx_pool c1) a)) (abs_sides c1 qs1 d))
        else abs_sides c1 qs1)\<rparr>, trs)"
proof -
  have ml: "match_levels (ob_symbol (cx_book c)) (\<not> d) ord (abs_sides c qs (\<not> d))
      = (strip (p_orders (cx_pool c1) a), abs_sides c1 qs1 (\<not> d), trs)"
    using m h0 as bk by (simp add: match_result_def)
  have "abs_sides c1 qs1 d = abs_sides c qs d"
    using m as by (simp add: match_result_def match_step_def)
  then have "(abs_sides c qs)((\<not> d) := abs_sides c1 qs1 (\<not> d)) = abs_sides c1 qs1"
    by (auto simp: fun_eq_iff)
  with ml show ?thesis
    unfolding spec_match_def side [symmetric] by (simp add: abs_book_def Let_def)
qed

lemma order_book_add_order_ok:
  assumes rep: "book_rep c qs" and pre: "add_pre c qs msg"
    and full: "allocated (cx_pool c) \<noteq> {..<MAX_ORDERS_IN_POOL}"
  shows "\<exists>c' qs'. order_book_add_order msg client_id ts c = Some c' \<and> book_rep c' qs'
     \<and> (abs_book c' qs', cx_out c') = (let (b, msgs) = spec_add (abs_book c qs) (order_of_msg msg client_id ts)
                                        in (b, emit (cx_out c) msgs))
     \<and> others_kept c qs c' qs' \<and> ob_flush_state (cx_book c') = ob_flush_state (cx_book c)"
proof -
  define d where "d = (no_side msg = SIDE_BUY)"
  define ord where "ord = order_of_msg msg client_id ts"
  define ack where "ack = ack_of (ob_symbol (cx_book c)) (no_user_id msg) (no_user_order_id msg)"
  have ok: "book_ok c qs" using rep by (simp add: book_rep_def)
  from add_order_match [OF rep pre full d_def ord_def ack_def] obtain a c0 c1 qs1 trs where
    a: "a \<notin> allocated (cx_pool c)" and h0: "p_orders (cx_pool c0) a = ord"
    and c0: "abs_sides c0 qs = abs_sides c qs" "cx_out c0 = emit (cx_out c) [ack]" "cx_book c0 = cx_book c"
      "allocated (cx_pool c0) = insert a (allocated (cx_pool c))"
      "\<forall>x. x \<noteq> a \<longrightarrow> p_orders (cx_pool c0) x = p_orders (cx_pool c) x"
    and rep1: "book_rep c1 qs1" and m: "match_result (\<not> d) a c0 qs c1 qs1 trs"
    and run: "order_book_add_order msg client_id ts c = do {
         let ord1 = p_orders (cx_pool c1) a;
         c2 \<leftarrow> (if o_remaining_qty ord1 > 0 \<and> o_type ord1 = ORDER_TYPE_LIMIT
                then add_to_book a c1
                else do {
                  pool3 \<leftarrow> order_pool_free (cx_pool c1) a;
                  Some (c1\<lparr>cx_pool := pool3\<rparr>)
                });
         check_tob_changes c2
       }" by blast
  let ?h1 = "p_orders (cx_pool c1)"
  have side: "d = (o_side ord = SIDE_BUY)" by (simp add: d_def ord_def)
  have ms: "match_step (\<not> d) a c0 qs c1 qs1 trs" using m by (simp add: match_result_def)
  have sm: "spec_match (abs_book c qs) ord =
     ((abs_book c qs)\<lparr>ab_side := (if rests (strip (?h1 a))
        then (abs_sides c1 qs1)(d := insert_order d (strip (?h1 a)) (abs_sides c1 qs1 d))
        else abs_sides c1 qs1)\<rparr>, trs)"
    using h0 by (intro spec_match_result [OF m side _ c0(1,3)]) (simp add: ord_def)
  have an: "a \<notin> set (all_orders qs)" using a book_okD(6) [OF ok] by blast
  have alloc1: "allocated (cx_pool c1) = insert a (allocated (cx_pool c)) - (set (all_orders qs) - set (all_orders qs1))"
    and sub: "set (all_orders qs1) \<subseteq> set (all_orders qs)" and ag1: "agg_ok (\<not> d) a c1 qs1"
    and heap1: "\<And>x. x \<notin> insert a (set (all_orders qs)) \<Longrightarrow> ?h1 x = p_orders (cx_pool c0) x"
    and meta1: "meta (cx_book c1) = meta (cx_book c)" and out1: "cx_out c1 = emit (cx_out c) (ack # trs)"
    using ms c0 by (auto simp: match_step_def)
  have a1: "a \<in> allocated (cx_pool c1)" "a \<notin> set (all_orders qs1)" using ag1 by (auto simp: agg_ok_def)
  have ok1: "book_ok c1 qs1" using rep1 by (simp add: book_rep_def)
  obtain c2 qs2 where c2: "(if o_remaining_qty (?h1 a) > 0 \<and> o_type (?h1 a) = ORDER_TYPE_LIMIT
                then add_to_book a c1
                else do { pool3 \<leftarrow> order_pool_free (cx_pool c1) a; Some (c1\<lparr>cx_pool := pool3\<rparr>) }) = Some c2"
    and rep2: "book_rep c2 qs2" and meta2: "meta (cx_book c2) = meta (cx_book c1)" and out2: "cx_out c2 = cx_out c1"
    and as2: "abs_sides c2 qs2 = ab_side (fst (spec_match (abs_book c qs) ord))"
    and fr2: "allocated (cx_pool c2) - set (all_orders qs2) = allocated (cx_pool c1) - insert a (set (all_orders qs1))"
      "\<And>x. x \<notin> insert a (set (all_orders qs1)) \<Longrightarrow> p_orders (cx_pool c2) x = ?h1 x"
  proof (cases "rests (strip (?h1 a))")
    case True
    have "match_levels (ob_symbol (cx_book c0)) (\<not> d) ord (abs_sides c0 qs (\<not> d))
        = (strip (?h1 a), abs_sides c1 qs1 (\<not> d), trs)"
      using m h0 by (simp add: match_result_def ord_def)
    from match_levels_agg [OF this] obtain r where
      r: "r \<le> o_remaining_qty ord" "strip (?h1 a) = ord\<lparr>o_remaining_qty := r\<rparr>" by blast
    note res = resting_order_ok [OF order_ok_of_msg [OF pre, of client_id ts, folded ord_def] r(2,1) True, folded side]
    have price: "o_price (?h1 a) = o_price ord" "o_side (?h1 a) = o_side ord"
      "okey ?h1 a = order_key (no_user_id msg) (no_user_order_id msg)"
      using arg_cong [OF r(2), of o_price] arg_cong [OF r(2), of o_side]
        arg_cong [OF r(2), of o_user_id] arg_cong [OF r(2), of o_user_order_id]
      by (simp_all add: ord_def okey_def)
    have p0: "no_price msg \<noteq> 0" using res(2) by (auto simp: ord_def)
    have keys: "okey ?h1 x = okey (p_orders (cx_pool c)) x" if "x \<in> set (all_orders qs)" for x
    proof -
      have "x \<noteq> a" using that an by blast
      with c0(5) have "okey (p_orders (cx_pool c0)) x = okey (p_orders (cx_pool c)) x" by (simp add: okey_def)
      with ms show ?thesis by (simp add: match_step_def)
    qed
    have fresh: "okey ?h1 a \<notin> okey ?h1 ` set (all_orders qs1)"
    proof
      assume "okey ?h1 a \<in> okey ?h1 ` set (all_orders qs1)"
      then obtain x where x: "x \<in> set (all_orders qs)" "okey ?h1 a = okey (p_orders (cx_pool c)) x"
        using sub keys by auto
      from x(2) have "o_user_id (p_orders (cx_pool c) x) = no_user_id msg"
        "o_user_order_id (p_orders (cx_pool c) x) = no_user_order_id msg"
        unfolding price(3) by (auto simp: okey_def order_key_inject)
      with x(1) have "resting_ids (abs_book c qs) (no_user_id msg) (no_user_order_id msg)"
        unfolding resting_ids_orders [OF ok] by blast
      with pre p0 show False by (simp add: add_pre_def)
    qed
    have lr: "level_room d (o_price (?h1 a)) (abs_book c1 qs1)"
    proof -
      have "abs_sides c1 qs1 d = abs_sides c qs d" using ms c0(1) by (simp add: match_step_def)
      with pre p0 show ?thesis by (simp add: add_pre_def level_room_def abs_book_def price(1) ord_def d_def)
    qed
    have room: "order_map_room (ob_order_map (cx_book c1)) (okey ?h1 a)"
      using pre p0 ms c0(3) unfolding price(3) by (simp add: add_pre_def match_step_def)
    have d1: "d = (o_side (?h1 a) = SIDE_BUY)" using side price(2) by simp
    have res1: "resting d (o_price (?h1 a)) (?h1 a)" "0 < o_price (?h1 a)" using res price(1) by simp_all
    have "outside a c1 qs1" using a1 by (simp add: outside_def)
    from add_to_book_ok [OF rep1 this refl d1 res1 fresh room lr] obtain c2 qs2 where
      add: "add_to_book a c1 = Some c2" and rs: "rest_step d a c1 qs1 c2 qs2" by blast
    have "abs_sides c2 qs2 = (abs_sides c1 qs1)(d := insert_order d (strip (?h1 a)) (abs_sides c1 qs1 d))"
      using rs by (intro abs_sides_eqI [of c2 qs2 d]) (simp_all add: rest_step_def)
    with True rs add that [of c2 qs2] show ?thesis
      by (auto simp: rests_def rest_step_def sm)
  next
    case False
    obtain pool3 where p3: "order_pool_free (cx_pool c1) a = Some pool3" "pool_ok pool3"
      "allocated pool3 = allocated (cx_pool c1) - {a}" "p_orders pool3 = ?h1"
      using order_pool_free_used [OF book_okD(1) [OF ok1] a1(1)] by blast
    have "book_ok (c1\<lparr>cx_pool := pool3\<rparr>) qs1" "abs_sides (c1\<lparr>cx_pool := pool3\<rparr>) qs1 = abs_sides c1 qs1"
      using book_ok_pool [OF ok1 p3(2), of "cx_out c1"] p3 a1(2) book_okD(3,6) [OF ok1] by auto
    moreover have "allocated (cx_pool c1) - {a} - set (all_orders qs1) = allocated (cx_pool c1) - insert a (set (all_orders qs1))"
      by blast
    ultimately show ?thesis using False rep1 p3 that [of "c1\<lparr>cx_pool := pool3\<rparr>" qs1]
      by (auto simp: rests_def sm book_rep_def)
  qed
  have ok2: "book_ok c2 qs2" using rep2 by (simp add: book_rep_def)
  from check_tob_changes_ok [OF ok2] obtain c3 where tob: "check_tob_changes c2 = Some c3" and ok3: "book_ok c3 qs2"
    and p3: "cx_pool c3 = cx_pool c2" and ab3: "abs_book c3 qs2 = fst (spec_tob (abs_book c2 qs2))"
    and out3: "cx_out c3 = emit (cx_out c2) (snd (spec_tob (abs_book c2 qs2)))"
    and fl3: "ob_flush_state (cx_book c3) = ob_flush_state (cx_book c2)" by blast
  have ab2: "abs_book c2 qs2 = fst (spec_match (abs_book c qs) ord)"
    using abs_book_eq [of c2 c qs2 qs] meta1 meta2 as2 by (simp add: sm)
  have "order_book_add_order msg client_id ts c = Some c3" using run c2 tob by (simp add: Let_def)
  moreover have "book_rep c3 qs2" using ok3 rep2 by (simp add: book_rep_def)
  moreover have "(abs_book c3 qs2, cx_out c3) = (let (b, msgs) = spec_add (abs_book c qs) ord in (b, emit (cx_out c) msgs))"
    using ab3 out3 ab2 out1 out2 sm
    by (simp add: spec_add_def split_beta ack_def ord_def abs_book_def [of c qs])
  moreover have "others_kept c qs c3 qs2"
  proof -
    have "p_orders (cx_pool c2) x = p_orders (cx_pool c) x" if "x \<in> allocated (cx_pool c) - set (all_orders qs)" for x
    proof -
      have "x \<noteq> a" "x \<notin> set (all_orders qs)" "x \<notin> set (all_orders qs1)" using that a sub by auto
      with fr2(2) [of x] heap1 [of x] c0(5) show ?thesis by simp
    qed
    then show ?thesis unfolding others_kept_def p3 fr2(1) alloc1 using a sub by auto
  qed
  moreover have "ob_flush_state (cx_book c3) = ob_flush_state (cx_book c)"
    using fl3 meta1 meta2 by (simp add: meta_def)
  ultimately show ?thesis unfolding ord_def by blast
qed

end
