(* ===== verification/ME_Book_Cancel.thy ===== *)
theory ME_Book_Cancel
  imports ME_Book_Ops
begin

text \<open>
  Cancelling: \<open>order_book_cancel_order\<close> refines \<open>spec_cancel\<close>, and
  \<open>order_book_cancel_client_orders\<close> is a sequence of cancels.
\<close>

subsection \<open>Removing one order, abstractly\<close>

lemma remove_order_append: "remove_order u i (ls @ ls') = remove_order u i ls @ remove_order u i ls'"
  by (simp add: remove_order_def)

lemma remove_order_id:
  "(\<And>l x. l \<in> set ls \<Longrightarrow> snd l \<noteq> [] \<and> (x \<in> set (snd l) \<longrightarrow> \<not> has_ids u i x)) \<Longrightarrow> remove_order u i ls = ls"
proof (induction ls)
  case (Cons l ls)
  obtain p q where l: "l = (p, q)" by (cases l)
  have "filter (\<lambda>x. \<not> has_ids u i x) q = q" "q \<noteq> []"
    using Cons.prems [of l] l by (auto intro: filter_True)
  moreover have "remove_order u i ls = ls" using Cons.prems by (intro Cons.IH) auto
  ultimately show ?case using l by (simp add: remove_order_Cons)
qed simp

lemma remove_order_at:
  assumes j: "j < length ls" "ls ! j = (p, as @ x # bs)" and x: "has_ids u i x"
    and others: "\<And>k y. k < length ls \<Longrightarrow> k \<noteq> j \<Longrightarrow> snd (ls ! k) \<noteq> [] \<and> (y \<in> set (snd (ls ! k)) \<longrightarrow> \<not> has_ids u i y)"
    and same: "\<And>y. y \<in> set (as @ bs) \<Longrightarrow> \<not> has_ids u i y"
  shows "remove_order u i ls = (if as @ bs = [] then take j ls @ drop (Suc j) ls else ls[j := (p, as @ bs)])"
proof -
  have split: "ls = take j ls @ (p, as @ x # bs) # drop (Suc j) ls" using id_take_nth_drop [OF j(1)] j(2) by simp
  have l: "remove_order u i (take j ls) = take j ls"
  proof (rule remove_order_id)
    fix l y
    assume "l \<in> set (take j ls)"
    then obtain k where "k < j" "l = ls ! k" using j(1) by (auto simp: in_set_conv_nth)
    with others [of k y] j(1) show "snd l \<noteq> [] \<and> (y \<in> set (snd l) \<longrightarrow> \<not> has_ids u i y)" by auto
  qed
  have r: "remove_order u i (drop (Suc j) ls) = drop (Suc j) ls"
  proof (rule remove_order_id)
    fix l y
    assume "l \<in> set (drop (Suc j) ls)"
    then obtain k where "Suc j \<le> k" "k < length ls" "l = ls ! k"
      by (metis (no_types, lifting) add.commute in_set_conv_nth le_add1 length_drop less_diff_conv nth_drop order_less_imp_le j(1) Suc_leI)
    with others [of k y] show "snd l \<noteq> [] \<and> (y \<in> set (snd l) \<longrightarrow> \<not> has_ids u i y)" by auto
  qed
  have q: "filter (\<lambda>y. \<not> has_ids u i y) (as @ x # bs) = as @ bs"
    using x same by (simp add: filter_True)
  show ?thesis
    unfolding upd_conv_take_nth_drop [OF j(1)]
    by (subst split) (simp only: remove_order_append remove_order_Cons l r q Let_def if_split append_Nil append_Cons split: if_split, simp)
qed

subsection \<open>Finding the order\<close>

text \<open>A resting order is where the map says: on the side and at the level of its price.\<close>

lemma locate_order:
  assumes ok: "book_ok c qs" and x: "x \<in> set (all_orders qs)"
  defines "h \<equiv> p_orders (cx_pool c)" and "d \<equiv> (o_side (p_orders (cx_pool c) x) = SIDE_BUY)"
  shows "\<exists>j as bs. j < get_num d (cx_book c) \<and> qs d ! j = as @ x # bs
      \<and> l_price (get_levels d (cx_book c) j) = o_price (h x)
      \<and> find_price_level (get_levels d (cx_book c)) (get_num d (cx_book c)) (o_price (h x)) d = Some (int j)
      \<and> valid_ids (o_user_id (h x)) (o_user_order_id (h x))"
proof -
  obtain e where e: "x \<in> set (concat (qs e))" using x unfolding all_orders_def by auto
  then obtain j where j: "j < length (qs e)" "x \<in> set (qs e ! j)" by (metis UN_E in_set_conv_nth set_concat)
  note rep = book_okD(4) [OF ok, of e, folded h_def]
  have jn: "j < get_num e (cx_book c)" using j(1) side_rep_length [OF rep] by simp
  have res: "resting e (l_price (get_levels e (cx_book c) j)) (h x)"
    using side_rep_level [OF rep jn] j(2) by (simp add: level_rep_def)
  then have "d = e" by (simp add: d_def resting_def h_def)
  obtain as bs where q: "qs d ! j = as @ x # bs" using j(2) \<open>d = e\<close> by (auto simp: in_set_conv_decomp)
  note facts = abs_sides_facts [OF ok, where d = d]
  have price: "l_price (get_levels d (cx_book c) j) = o_price (h x)" using res \<open>d = e\<close> by (simp add: resting_def)
  have srt: "levels_sorted d (map l_price (arr_list (get_levels d (cx_book c)) (get_num d (cx_book c))))"
    using facts(2,4) by simp
  from find_price_level_correct [OF facts(5) srt, of "o_price (h x)"] obtain r where
    r: "find_price_level (get_levels d (cx_book c)) (get_num d (cx_book c)) (o_price (h x)) d = Some r"
    "(r = -1 \<and> (\<forall>i<get_num d (cx_book c). l_price (get_levels d (cx_book c) i) \<noteq> o_price (h x))) \<or>
     (0 \<le> r \<and> nat r < get_num d (cx_book c) \<and> l_price (get_levels d (cx_book c) (nat r)) = o_price (h x))"
    by blast
  with jn price \<open>d = e\<close> have r2: "0 \<le> r" "nat r < get_num d (cx_book c)" "l_price (get_levels d (cx_book c) (nat r)) = o_price (h x)"
    by auto
  have "nat r = j"
    using nth_eq_iff_index_eq [OF levels_sorted_distinct [OF srt], of "nat r" j] r2(2,3) jn price \<open>d = e\<close> by simp
  then have "r = int j" using r2(1) by simp
  then show ?thesis using r(1) q jn price res \<open>d = e\<close> by (auto simp: resting_def)
qed

subsection \<open>Taking the order out of the book\<close>

text \<open>
  The common effect of the removal: the order leaves its queue, the pool and the map; an
  empty level goes.
\<close>

definition unlink :: "bool \<Rightarrow> nat \<Rightarrow> nat \<Rightarrow> u64 \<Rightarrow> ctx \<Rightarrow> ctx option" where
  "unlink d j x key c = do {
     let book = cx_book c;
     let level = get_levels d book j;
     let h = p_orders (cx_pool c);
     let level1 = level\<lparr>l_total_quantity := l_total_quantity level - o_remaining_qty (h x)\<rparr>;
     let (h1, hd', tl') = list_remove h (l_orders_head level1) (l_orders_tail level1) x;
     let level2 = level1\<lparr>l_orders_head := hd', l_orders_tail := tl'\<rparr>;
     pool1 \<leftarrow> order_pool_free ((cx_pool c)\<lparr>p_orders := h1\<rparr>) x;
     let book1 = set_levels d ((get_levels d book)(j := level2)) book;
     c1 \<leftarrow> (if hd' = None then do {
              (levels', num', pool2) \<leftarrow> remove_price_level (get_levels d book1) (get_num d book1) j pool1;
              Some (c\<lparr>cx_book := set_num d num' (set_levels d levels' book1), cx_pool := pool2\<rparr>)
            } else Some (c\<lparr>cx_book := book1, cx_pool := pool1\<rparr>));
     (removed, map') \<leftarrow> order_map_remove (ob_order_map (cx_book c1)) key;
     Some (c1\<lparr>cx_book := (cx_book c1)\<lparr>ob_order_map := map'\<rparr>\<rparr>)
   }"

lemma map_commute:
  "(set_levels d lv b)\<lparr>ob_order_map := m\<rparr> = set_levels d lv (b\<lparr>ob_order_map := m\<rparr>)"
  "(set_num d n b)\<lparr>ob_order_map := m\<rparr> = set_num d n (b\<lparr>ob_order_map := m\<rparr>)"
  by (simp_all add: set_levels_def set_num_def)

lemma unlink_queue:
  assumes ok: "book_ok c qs" and j: "j < get_num d (cx_book c)" "qs d ! j = as @ x # bs"
    and h: "h = p_orders (cx_pool c)" and lv: "lv = get_levels d (cx_book c)"
    and lr: "list_remove h (l_orders_head (lv j)) (l_orders_tail (lv j)) x = (h1, hd', tl')"
    and l': "l' = (lv j)\<lparr>l_total_quantity := l_total_quantity (lv j) - o_remaining_qty (h x),
                       l_orders_head := hd', l_orders_tail := tl'\<rparr>"
    and qs': "qs' = qs(d := (qs d)[j := as @ bs])"
  shows "\<exists>pool1 m' c'. order_pool_free ((cx_pool c)\<lparr>p_orders := h1\<rparr>) x = Some pool1
     \<and> order_map_remove (ob_order_map (cx_book c)) (okey h x) = Some (True, m')
     \<and> c' = c\<lparr>cx_book := (set_levels d (lv(j := l')) (cx_book c))\<lparr>ob_order_map := m'\<rparr>, cx_pool := pool1\<rparr>
     \<and> book_ok c' qs'
     \<and> abs_sides c' qs' d = (abs_sides c qs d)[j := (l_price (lv j), abs_queue h (as @ bs))]
     \<and> abs_sides c' qs' (\<not> d) = abs_sides c qs (\<not> d)
     \<and> set (all_orders qs') = set (all_orders qs) - {x}
     \<and> allocated pool1 = allocated (cx_pool c) - {x} \<and> (\<forall>y. y \<notin> set (all_orders qs) \<longrightarrow> p_orders pool1 y = h y)
     \<and> (hd' = None \<longleftrightarrow> as @ bs = [])"
proof -
  note rep = book_okD(4) [OF ok, of d, folded h lv]
  have len: "j < length (qs d)" using j(1) side_rep_length [OF rep] by simp
  note cq = concat_split [OF len]
  have lrep: "level_rep h d (lv j) (as @ x # bs)" using side_rep_level [OF rep j(1)] j(2) by simp
  note lrr = level_rep_remove [OF lrep refl refl refl lr, folded l']
  have d0: "distinct (concat (qs d))" "set (concat (qs d)) \<inter> set (concat (qs (\<not> d))) = {}"
    using book_okD(5) [OF ok] all_orders_side(2) [of qs d] by auto
  have all: "set (all_orders qs) = set (concat (qs d)) \<union> set (concat (qs (\<not> d)))" by (rule all_orders_side)
  have xin: "x \<in> set (concat (qs d))" using cq j(2) by simp
  then have xa: "x \<in> set (all_orders qs)" using all by blast
  have ids: "valid_ids (o_user_id (h x)) (o_user_order_id (h x))" using lrep by (simp add: level_rep_def resting_def)
  obtain m' where rem: "order_map_remove (ob_order_map (cx_book c)) (okey h x) = Some (True, m')"
    and m': "map_rep h m' (set (all_orders qs) - {x})"
    using map_rep_remove [OF book_okD(7) [OF ok, folded h] xa ids] by blast
  have "x \<in> allocated ((cx_pool c)\<lparr>p_orders := h1\<rparr>)" using xa book_okD(6) [OF ok] by auto
  then obtain pool1 where free: "order_pool_free ((cx_pool c)\<lparr>p_orders := h1\<rparr>) x = Some pool1"
    and p1: "pool_ok pool1" "allocated pool1 = allocated (cx_pool c) - {x}" "p_orders pool1 = h1"
    using order_pool_free_used [of "(cx_pool c)\<lparr>p_orders := h1\<rparr>" x] book_okD(1) [OF ok] by auto
  have fr: "h1 y = h y" if "k < get_num d (cx_book c)" "k \<noteq> j" "y \<in> set (qs d ! k)" for k y
  proof (rule lrr(3))
    show "y \<notin> set (as @ x # bs)"
      using distinct_concat_nth [OF d0(1) _ len that(2,3)] that(1) side_rep_length [OF rep] j(2) by simp
  qed
  have lp: "l_price l' = l_price (lv j)" by (simp add: l')
  have su: "side_rep h1 d (lv(j := l')) (get_num d (cx_book c)) ((qs d)[j := as @ bs])"
    "abs_side h1 (lv(j := l')) (get_num d (cx_book c)) ((qs d)[j := as @ bs])
      = (abs_side h lv (get_num d (cx_book c)) (qs d))[j := (l_price (lv j), abs_queue h1 (as @ bs))]"
    using fr by (intro side_rep_update [OF rep j(1) lrr(1) lp]; blast)+
  have qd': "(qs d)[j := as @ bs] = take j (qs d) @ (as @ bs) # drop (Suc j) (qs d)"
    using len by (simp add: upd_conv_take_nth_drop)
  have dist: "distinct (concat ((qs d)[j := as @ bs]))" "set (concat ((qs d)[j := as @ bs])) \<inter> set (concat (qs (\<not> d))) = {}"
    and sc: "set (concat ((qs d)[j := as @ bs])) = set (concat (qs d)) - {x}"
    using d0 unfolding qd' cq j(2) by auto
  have all': "set (all_orders qs') = set (all_orders qs) - {x}"
    using all_orders_side(1) [of qs' d] sc all xin d0(2) by (auto simp: qs')
  have mp: "map_rep h1 m' (set (all_orders qs) - {x})"
    using m' map_rep_cong [of "set (all_orders qs) - {x}" h1 h] lrr(2) okey_cong loc_of_cong by blast
  have other: "h1 y = h y" if "y \<in> set (concat (qs (\<not> d)))" for y
    using that d0(2) cq j(2) by (intro lrr(3)) auto
  define c' where "c' = c\<lparr>cx_book := (set_levels d (lv(j := l')) (cx_book c))\<lparr>ob_order_map := m'\<rparr>, cx_pool := pool1\<rparr>"
  have c': "p_orders (cx_pool c') = h1" "get_levels d (cx_book c') = lv(j := l')"
    "get_num d (cx_book c') = get_num d (cx_book c)" "ob_order_map (cx_book c') = m'"
    "allocated (cx_pool c') = allocated (cx_pool c) - {x}" "meta (cx_book c') = meta (cx_book c)" "cx_out c' = cx_out c"
    by (simp_all add: c'_def p1)
  have un: "set (concat ((qs d)[j := as @ bs])) \<union> set (concat (qs (\<not> d))) = set (all_orders qs) - {x}"
    using sc all xin d0(2) by blast
  have "book_ok c' qs' \<and> abs_sides c' qs' (\<not> d) = abs_sides c qs (\<not> d)"
    using book_ok_change [OF ok, of c' d "(qs d)[j := as @ bs]", unfolded c' un, OF _ _ _ _ _ other [unfolded h] su(1) dist]
      book_okD(3) [OF ok] Diff_mono [OF book_okD(6) [OF ok] subset_refl] mp p1(1) by (simp add: c'_def qs')
  moreover have "abs_sides c' qs' d = (abs_sides c qs d)[j := (l_price (lv j), abs_queue h (as @ bs))]"
    unfolding abs_sides_def c' using su(2) lrr(2) by (simp add: qs' h lv abs_queue_def)
  moreover have "\<forall>y. y \<notin> set (all_orders qs) \<longrightarrow> h1 y = h y"
    using lrr(3) cq j(2) unfolding all by auto
  moreover have "hd' = None \<longleftrightarrow> as @ bs = []"
    using lrr(1) by (auto simp: level_rep_def l' dest: dls_head_None)
  ultimately show ?thesis using free rem all' p1 c'_def by blast
qed

lemma order_book_cancel_order_unlink:
  assumes find: "order_map_find (ob_order_map (cx_book c)) (order_key u i) = Some (Some si)"
    and loc: "s_location (m_slots (ob_order_map (cx_book c)) si) = loc_of (p_orders (cx_pool c)) x"
    and d: "d = (o_side (p_orders (cx_pool c) x) = SIDE_BUY)" and ids: "valid_ids u i"
    and lv: "find_price_level (get_levels d (cx_book c)) (get_num d (cx_book c)) (o_price (p_orders (cx_pool c) x)) d = Some (int j)"
  shows "order_book_cancel_order u i c = do {
     c2 \<leftarrow> unlink d j x (order_key u i) c;
     msg \<leftarrow> make_cancel_ack_msg (ob_symbol (cx_book c)) u i;
     out \<leftarrow> output_buffer_add (cx_out c2) msg;
     check_tob_changes (c2\<lparr>cx_out := out\<rparr>)
   }"
  using find loc lv ids d unfolding order_book_cancel_order_def unlink_def Let_def
  by (simp add: make_order_key_eq loc_of_def split_def Option.bind_assoc cong: if_cong)

lemma abs_book_out [simp]: "abs_book (c\<lparr>cx_out := out\<rparr>) qs = abs_book c qs"
  by (simp add: abs_book_def abs_sides_def fun_eq_iff)

definition unlinked :: "ctx \<Rightarrow> queues \<Rightarrow> nat \<Rightarrow> ctx \<Rightarrow> queues \<Rightarrow> bool" where
  "unlinked c qs x c' qs' \<longleftrightarrow> book_rep c' qs' \<and> meta (cx_book c') = meta (cx_book c) \<and> cx_out c' = cx_out c
     \<and> (\<forall>d. abs_sides c' qs' d = remove_order (o_user_id (p_orders (cx_pool c) x))
              (o_user_order_id (p_orders (cx_pool c) x)) (abs_sides c qs d))
     \<and> set (all_orders qs') = set (all_orders qs) - {x} \<and> others_kept c qs c' qs'"

lemma has_ids_order:
  assumes ok: "book_ok c qs" and "x \<in> set (all_orders qs)" "y \<in> set (all_orders qs)"
  shows "has_ids (o_user_id (p_orders (cx_pool c) x)) (o_user_order_id (p_orders (cx_pool c) x))
           (strip (p_orders (cx_pool c) y)) \<longleftrightarrow> y = x"
proof -
  let ?h = "p_orders (cx_pool c)"
  have "inj_on (okey ?h) (set (all_orders qs))" using book_okD(7) [OF ok] by (simp add: map_rep_def)
  then have "okey ?h y = okey ?h x \<longleftrightarrow> y = x" using assms(2,3) by (auto simp: inj_on_def)
  then show ?thesis by (auto simp: has_ids_def okey_def order_key_inject)
qed

lemma remove_order_side:
  assumes rep: "book_rep c qs" and j: "j < get_num d (cx_book c)" "qs d ! j = as @ x # bs"
  defines "h \<equiv> p_orders (cx_pool c)"
  shows "remove_order (o_user_id (h x)) (o_user_order_id (h x)) (abs_sides c qs d)
           = (if as @ bs = [] then take j (abs_sides c qs d) @ drop (Suc j) (abs_sides c qs d)
              else (abs_sides c qs d)[j := (l_price (get_levels d (cx_book c) j), abs_queue h (as @ bs))])"
    and "remove_order (o_user_id (h x)) (o_user_order_id (h x)) (abs_sides c qs (\<not> d)) = abs_sides c qs (\<not> d)"
proof -
  have ok: "book_ok c qs" and ne: "[] \<notin> set (qs e)" for e using rep by (auto simp: book_rep_def)
  note facts = abs_sides_facts [OF ok, where d = d] and facts' = abs_sides_facts [OF ok, where d = "\<not> d"]
  have len: "j < length (qs d)" using j(1) facts(6) by simp
  have d0: "distinct (concat (qs d))" "set (concat (qs d)) \<inter> set (concat (qs (\<not> d))) = {}"
    using book_okD(5) [OF ok] all_orders_side(2) [of qs d] by auto
  have all: "set (all_orders qs) = set (concat (qs d)) \<union> set (concat (qs (\<not> d)))" by (rule all_orders_side)
  have xq: "x \<in> set (concat (qs d))" using in_concat_nth [OF len, of x] j(2) by simp
  have xa: "x \<in> set (all_orders qs)" using xq all by blast
  note ids = has_ids_order [OF ok xa, folded h_def]
  have other: "\<not> has_ids (o_user_id (h x)) (o_user_order_id (h x)) z"
    if z: "z \<in> set (abs_queue h (qs e ! k))" and k: "k < length (qs e)" and kj: "e = d \<Longrightarrow> k \<noteq> j" for z e k
  proof -
    obtain y where y: "y \<in> set (qs e ! k)" "z = strip (h y)" using z by (auto simp: abs_queue_def)
    have yc: "y \<in> set (concat (qs e))" by (rule in_concat_nth [OF k y(1)])
    have "y \<noteq> x"
    proof (cases "e = d")
      case True
      with distinct_concat_nth [OF d0(1) _ len _ , of k y] k kj y(1) j(2) show ?thesis by auto
    next
      case False
      with yc xq d0(2) show ?thesis by auto
    qed
    moreover have "y \<in> set (all_orders qs)" using yc all_orders_side(1) [of qs e] by blast
    ultimately show ?thesis using ids y(2) by simp
  qed
  have nonempty: "abs_queue h (qs e ! k) \<noteq> []" if "k < length (qs e)" for e k
    using ne [of e] nth_mem [OF that] by (metis abs_queue_def list.map_disc_iff)
  show "remove_order (o_user_id (h x)) (o_user_order_id (h x)) (abs_sides c qs (\<not> d)) = abs_sides c qs (\<not> d)"
  proof (rule remove_order_id)
    fix l z
    assume "l \<in> set (abs_sides c qs (\<not> d))"
    then obtain k where k: "k < get_num (\<not> d) (cx_book c)" "l = abs_sides c qs (\<not> d) ! k"
      using facts'(1) by (metis in_set_conv_nth)
    with facts'(3) [OF k(1)] nonempty [of k "\<not> d"] other [of z "\<not> d" k] facts'(6)
    show "snd l \<noteq> [] \<and> (z \<in> set (snd l) \<longrightarrow> \<not> has_ids (o_user_id (h x)) (o_user_order_id (h x)) z)"
      by (simp add: h_def)
  qed
  have lj: "abs_sides c qs d ! j = (l_price (get_levels d (cx_book c) j), abs_queue h as @ strip (h x) # abs_queue h bs)"
    using facts(3) [OF j(1)] j(2) by (simp add: abs_queue_def h_def)
  have app: "abs_queue h (as @ bs) = abs_queue h as @ abs_queue h bs" and
    nil: "abs_queue h as @ abs_queue h bs = [] \<longleftrightarrow> as @ bs = []" by (simp_all add: abs_queue_def)
  have dj: "distinct (as @ x # bs)" using d0(1) concat_split [OF len] j(2) by auto
  have same: "\<not> has_ids (o_user_id (h x)) (o_user_order_id (h x)) z" if z: "z \<in> set (abs_queue h as @ abs_queue h bs)" for z
  proof -
    obtain y where y: "y \<in> set (as @ bs)" "z = strip (h y)" using z by (auto simp: abs_queue_def)
    have "y \<in> set (qs d ! j)" using y(1) j(2) by auto
    then have "y \<in> set (all_orders qs)" using in_concat_nth [OF len] all by blast
    with ids y dj show ?thesis by auto
  qed
  show "remove_order (o_user_id (h x)) (o_user_order_id (h x)) (abs_sides c qs d)
           = (if as @ bs = [] then take j (abs_sides c qs d) @ drop (Suc j) (abs_sides c qs d)
              else (abs_sides c qs d)[j := (l_price (get_levels d (cx_book c) j), abs_queue h (as @ bs))])"
    unfolding app nil [symmetric]
  proof (rule remove_order_at [OF _ lj])
    show "j < length (abs_sides c qs d)" using j(1) facts(1) by simp
    show "has_ids (o_user_id (h x)) (o_user_order_id (h x)) (strip (h x))" by (simp add: has_ids_def)
    show "\<not> has_ids (o_user_id (h x)) (o_user_order_id (h x)) z" if "z \<in> set (abs_queue h as @ abs_queue h bs)" for z
      by (rule same [OF that])
    show "snd (abs_sides c qs d ! k) \<noteq> [] \<and> (z \<in> set (snd (abs_sides c qs d ! k)) \<longrightarrow>
            \<not> has_ids (o_user_id (h x)) (o_user_order_id (h x)) z)"
      if "k < length (abs_sides c qs d)" "k \<noteq> j" for k z
      using that facts(3) [of k] facts(1,6) nonempty [of k d] other [of z d k] by (simp add: h_def)
  qed
qed

lemma unlink_ok:
  assumes rep: "book_rep c qs" and j: "j < get_num d (cx_book c)" "qs d ! j = as @ x # bs"
  shows "\<exists>c' qs'. unlink d j x (okey (p_orders (cx_pool c)) x) c = Some c' \<and> unlinked c qs x c' qs'"
proof -
  define h where "h = p_orders (cx_pool c)"
  define lv where "lv = get_levels d (cx_book c)"
  have ok: "book_ok c qs" and ne: "[] \<notin> set (qs e)" for e using rep by (auto simp: book_rep_def)
  obtain h1 hd' tl' where lr: "list_remove h (l_orders_head (lv j)) (l_orders_tail (lv j)) x = (h1, hd', tl')"
    by (metis prod_cases3)
  define l' where "l' = (lv j)\<lparr>l_total_quantity := l_total_quantity (lv j) - o_remaining_qty (h x),
                       l_orders_head := hd', l_orders_tail := tl'\<rparr>"
  define qs1 where "qs1 = qs(d := (qs d)[j := as @ bs])"
  from unlink_queue [OF ok j h_def lv_def lr l'_def qs1_def] obtain pool1 m' c1 where
    free: "order_pool_free ((cx_pool c)\<lparr>p_orders := h1\<rparr>) x = Some pool1"
    and rem: "order_map_remove (ob_order_map (cx_book c)) (okey h x) = Some (True, m')"
    and c1: "c1 = c\<lparr>cx_book := (set_levels d (lv(j := l')) (cx_book c))\<lparr>ob_order_map := m'\<rparr>, cx_pool := pool1\<rparr>"
    and ok1: "book_ok c1 qs1"
    and as1: "abs_sides c1 qs1 d = (abs_sides c qs d)[j := (l_price (lv j), abs_queue h (as @ bs))]"
      "abs_sides c1 qs1 (\<not> d) = abs_sides c qs (\<not> d)"
    and all1: "set (all_orders qs1) = set (all_orders qs) - {x}"
    and al1: "allocated pool1 = allocated (cx_pool c) - {x}" and fr1: "\<forall>y. y \<notin> set (all_orders qs) \<longrightarrow> p_orders pool1 y = h y"
    and hd: "hd' = None \<longleftrightarrow> as @ bs = []" by blast
  have jl: "j < length (qs d)" using j(1) abs_sides_facts(6) [OF ok, where d = d] by simp
  have xa: "x \<in> set (all_orders qs)" using in_concat_nth [OF jl, of x] j(2) all_orders_side(1) [of qs d] by auto
  have run: "unlink d j x (okey h x) c = do {
     c1 \<leftarrow> (if hd' = None then do {
              (levels', num', pool2) \<leftarrow> remove_price_level (lv(j := l')) (get_num d (cx_book c)) j pool1;
              Some (c\<lparr>cx_book := set_num d num' (set_levels d levels' (set_levels d (lv(j := l')) (cx_book c))), cx_pool := pool2\<rparr>)
            } else Some (c\<lparr>cx_book := set_levels d (lv(j := l')) (cx_book c), cx_pool := pool1\<rparr>));
     (removed, map') \<leftarrow> order_map_remove (ob_order_map (cx_book c1)) (okey h x);
     Some (c1\<lparr>cx_book := (cx_book c1)\<lparr>ob_order_map := map'\<rparr>\<rparr>)
   }"
    using lr free unfolding unlink_def Let_def h_def [symmetric] lv_def [symmetric] by (simp add: l'_def)
  note ro = remove_order_side [OF rep j, folded h_def lv_def]
  show ?thesis
  proof (cases "as @ bs = []")
    case True
    have q1: "j < length (qs1 d)" "qs1 d ! j = []" using jl True by (simp_all add: qs1_def)
    define qs2 where "qs2 = qs1(d := take j (qs1 d) @ drop (Suc j) (qs1 d))"
    from remove_empty_level [OF ok1 q1, of pool1, folded qs2_def] obtain lv' where
      rm: "remove_price_level (lv(j := l')) (get_num d (cx_book c)) j pool1 = Some (lv', get_num d (cx_book c) - 1, pool1)"
      and st: "\<And>c2. c2 = c1\<lparr>cx_book := set_num d (get_num d (cx_book c) - 1) (set_levels d lv' (cx_book c1))\<rparr> \<Longrightarrow>
           book_ok c2 qs2 \<and> set (all_orders qs2) = set (all_orders qs1)
           \<and> abs_sides c2 qs2 d = take j (abs_sides c1 qs1 d) @ drop (Suc j) (abs_sides c1 qs1 d)
           \<and> abs_sides c2 qs2 (\<not> d) = abs_sides c1 qs1 (\<not> d)"
      by (auto simp: c1)
    define c2 where "c2 = c1\<lparr>cx_book := set_num d (get_num d (cx_book c) - 1) (set_levels d lv' (cx_book c1))\<rparr>"
    note st = st [OF c2_def]
    have "unlink d j x (okey h x) c = Some c2"
      using run hd True rm rem by (simp add: c2_def c1 map_commute)
    moreover have "abs_sides c2 qs2 e = remove_order (o_user_id (h x)) (o_user_order_id (h x)) (abs_sides c qs e)" for e
      using st as1 ro True by (cases "e = d") auto
    moreover have "qs2 d = take j (qs d) @ drop (Suc j) (qs d)" using jl by (simp add: qs2_def qs1_def)
    then have "[] \<notin> set (qs2 e)" for e
      using ne [of e] in_set_takeD [of "[]" j "qs d"] in_set_dropD [of "[]" "Suc j" "qs d"]
      by (cases "e = d") (auto simp: qs2_def qs1_def)
    moreover have "others_kept c qs c2 qs2"
      using st all1 al1 fr1 xa by (auto simp: others_kept_def c2_def c1 h_def)
    ultimately show ?thesis using st all1
      unfolding unlinked_def book_rep_def h_def by (intro exI [of _ c2] exI [of _ qs2]) (simp add: c2_def c1)
  next
    case False
    have "unlink d j x (okey h x) c = Some c1"
      using run hd False rem by (auto simp: c1)
    moreover have "abs_sides c1 qs1 e = remove_order (o_user_id (h x)) (o_user_order_id (h x)) (abs_sides c qs e)" for e
      using as1 ro False by (cases "e = d") auto
    moreover have "[] \<notin> set (qs1 e)" for e
      using ne [of e] False set_update_subset_insert [of "qs d" j "as @ bs"] by (auto simp: qs1_def)
    moreover have "others_kept c qs c1 qs1"
      using all1 al1 fr1 xa by (auto simp: others_kept_def c1 h_def)
    ultimately show ?thesis using ok1 all1
      unfolding unlinked_def book_rep_def h_def by (intro exI [of _ c1] exI [of _ qs1]) (simp add: c1)
  qed
qed

lemma order_book_cancel_order_ok:
  assumes rep: "book_rep c qs" and ids: "valid_ids u i"
  shows "\<exists>c' qs'. order_book_cancel_order u i c = Some c' \<and> book_rep c' qs'
     \<and> (abs_book c' qs', cx_out c') = (let (b, msgs) = spec_cancel (abs_book c qs) u i in (b, emit (cx_out c) msgs))
     \<and> others_kept c qs c' qs' \<and> ob_flush_state (cx_book c') = ob_flush_state (cx_book c)"
proof -
  let ?h = "p_orders (cx_pool c)" and ?m = "ob_order_map (cx_book c)" and ?k = "order_key u i"
  have ok: "book_ok c qs" using rep by (simp add: book_rep_def)
  note sym = book_okD(2) [OF ok]
  note look = book_okD(7) [OF ok, unfolded map_rep_def]
  have find: "order_map_find ?m ?k = Some (om.find (m_slots ?m) ?k)"
    using look order_map_find_ok [OF _ order_key_not_free [OF ids]] by blast
  have lk: "order_map_lookup ?m ?k = map_option (\<lambda>idx. s_location (m_slots ?m idx)) (om.find (m_slots ?m) ?k)"
    using order_key_not_free [OF ids] by (simp add: order_map_lookup_def)
  have ack: "make_cancel_ack_msg (ob_symbol (cx_book c)) u i = Some (cancel_ack_of (ob_symbol (cx_book c)) u i)"
    using sym by (simp add: make_cancel_ack_msg_ok cancel_ack_of_def)
  have ri: "resting_ids (abs_book c qs) u i \<longleftrightarrow> (\<exists>x\<in>set (all_orders qs). okey ?h x = ?k)"
    unfolding resting_ids_orders [OF ok] okey_def order_key_inject by blast
  show ?thesis
  proof (cases "om.find (m_slots ?m) ?k")
    case None
    have "\<not> resting_ids (abs_book c qs) u i"
      unfolding ri using look lk None by (metis option.distinct(1) option.map_disc_iff)
    moreover have "order_book_cancel_order u i c = Some (c\<lparr>cx_out := emit (cx_out c) [cancel_ack_of (ob_symbol (cx_book c)) u i]\<rparr>)"
      using find None ids ack output_buffer_add_emit [OF book_okD(3) [OF ok]]
      by (simp add: order_book_cancel_order_def make_order_key_eq)
    moreover have "book_rep (c\<lparr>cx_out := emit (cx_out c) [cancel_ack_of (ob_symbol (cx_book c)) u i]\<rparr>) qs"
      "abs_book (c\<lparr>cx_out := emit (cx_out c) [cancel_ack_of (ob_symbol (cx_book c)) u i]\<rparr>) qs = abs_book c qs"
      using rep by (simp_all add: book_rep_def book_ok_def)
    ultimately show ?thesis
      by (intro exI [of _ "c\<lparr>cx_out := emit (cx_out c) [cancel_ack_of (ob_symbol (cx_book c)) u i]\<rparr>"] exI [of _ qs])
         (simp add: spec_cancel_def others_kept_def abs_book_def [of c qs])
  next
    case (Some si)
    then have "order_map_lookup ?m ?k = Some (s_location (m_slots ?m si))" using lk by simp
    then obtain x where x: "x \<in> set (all_orders qs)" "?k = okey ?h x" "s_location (m_slots ?m si) = loc_of ?h x"
      using look by blast
    define d where "d = (o_side (?h x) = SIDE_BUY)"
    from locate_order [OF ok x(1), folded d_def] obtain j as bs where
      j: "j < get_num d (cx_book c)" "qs d ! j = as @ x # bs" and
      fl: "find_price_level (get_levels d (cx_book c)) (get_num d (cx_book c)) (o_price (?h x)) d = Some (int j)" by blast
    from unlink_ok [OF rep j] obtain c1 qs1 where ul: "unlink d j x ?k c = Some c1" and un: "unlinked c qs x c1 qs1"
      unfolding x(2) by blast
    have ui: "o_user_id (?h x) = u" "o_user_order_id (?h x) = i" using x(2) by (simp_all add: okey_def order_key_inject)
    have rep1: "book_rep c1 qs1" and out1: "cx_out c1 = cx_out c" and meta1: "meta (cx_book c1) = meta (cx_book c)"
      and as1: "abs_sides c1 qs1 = (\<lambda>d. remove_order u i (abs_sides c qs d))" and ot1: "others_kept c qs c1 qs1"
      using un by (auto simp: unlinked_def ui)
    define c2 where "c2 = c1\<lparr>cx_out := emit (cx_out c) [cancel_ack_of (ob_symbol (cx_book c)) u i]\<rparr>"
    have c2: "book_rep c2 qs1" "abs_book c2 qs1 = (abs_book c qs)\<lparr>ab_side := (\<lambda>d. remove_order u i (abs_sides c qs d))\<rparr>"
      using rep1 abs_book_eq [OF meta1, of qs1 qs] as1
      by (simp_all add: c2_def book_rep_def book_ok_def)
    have ok2: "book_ok c2 qs1" using c2(1) by (simp add: book_rep_def)
    from check_tob_changes_ok [OF ok2] obtain c3 where tob: "check_tob_changes c2 = Some c3" and ok3: "book_ok c3 qs1"
      and p3: "cx_pool c3 = cx_pool c2" and ab3: "abs_book c3 qs1 = fst (spec_tob (abs_book c2 qs1))"
      and out3: "cx_out c3 = emit (cx_out c2) (snd (spec_tob (abs_book c2 qs1)))"
      and fl3: "ob_flush_state (cx_book c3) = ob_flush_state (cx_book c2)" by blast
    have "order_book_cancel_order u i c = Some c3"
      unfolding order_book_cancel_order_unlink [OF find [unfolded Some] x(3) d_def ids fl]
      using ul ack out1 output_buffer_add_emit [OF book_okD(3) [OF ok]] tob by (simp add: c2_def)
    moreover have "book_rep c3 qs1" using ok3 rep1 by (simp add: book_rep_def)
    moreover have "resting_ids (abs_book c qs) u i" unfolding ri using x(1,2) by metis
    then have "(abs_book c3 qs1, cx_out c3) = (let (b, msgs) = spec_cancel (abs_book c qs) u i in (b, emit (cx_out c) msgs))"
      using ab3 out3 unfolding c2(2)
      by (simp add: spec_cancel_def split_beta c2_def abs_book_def [of c qs])
    moreover have "others_kept c qs c3 qs1" using ot1 p3 by (simp add: others_kept_def c2_def)
    moreover have "ob_flush_state (cx_book c3) = ob_flush_state (cx_book c)" using fl3 meta1 by (simp add: c2_def meta_def)
    ultimately show ?thesis by blast
  qed
qed

end
