(* ===== verification/ME_Book_Flush.thy ===== *)
theory ME_Book_Flush
  imports ME_Book_Cancel
begin

text \<open>
  Emptying a book: the batched flush and \<open>order_book_destroy\<close>.  \<open>flush_rest c qs rest\<close>
  says which orders a flush that is under way (or about to start) still has to
  acknowledge: \<open>rest\<close>, bids before asks, best price first, oldest first.
\<close>

subsection \<open>One side\<close>

text \<open>The orders after the position \<open>(current_level, current_order)\<close> of a side.\<close>

definition flush_pos :: "nat list list \<Rightarrow> nat \<Rightarrow> order_ptr \<Rightarrow> nat list \<Rightarrow> bool" where
  "flush_pos qd lev cur rest \<longleftrightarrow>
     (cur = None \<and> rest = concat (drop lev qd)) \<or>
     (\<exists>as x bs. lev < length qd \<and> cur = Some x \<and> qd ! lev = as @ x # bs \<and> rest = x # bs @ concat (drop (Suc lev) qd))"

definition ack_list :: "string \<Rightarrow> order_heap \<Rightarrow> nat list \<Rightarrow> output_msg_t list" where
  "ack_list s h xs = map (\<lambda>x. cancel_ack_of s (o_user_id (h x)) (o_user_order_id (h x))) xs"

lemma ack_list_simps [simp]: "ack_list s h [] = []" "ack_list s h (xs @ ys) = ack_list s h xs @ ack_list s h ys"
  "length (ack_list s h xs) = length xs"
  by (simp_all add: ack_list_def)

lemma flush_level_loop_ok:
  assumes "symbol_ok s" and "length out \<le> MAX_OUTPUT_MESSAGES" and "seg h pr cur q tp None"
  shows "\<exists>cur' pr'. flush_level_loop budget s h cur out
      = Some (budget - length q, cur', emit out (ack_list s h (take budget q)))
      \<and> seg h pr' cur' (drop budget q) tp None"
  using assms(2,3)
proof (induction budget arbitrary: cur out q pr)
  case 0
  then show ?case by auto
next
  case (Suc budget)
  show ?case
  proof (cases q)
    case Nil
    with Suc.prems show ?thesis by auto
  next
    case (Cons x q')
    with Suc.prems(2) have cur: "cur = Some x" and sg: "seg h (Some x) (o_next (h x)) q' tp None" by auto
    let ?m = "cancel_ack_of s (o_user_id (h x)) (o_user_order_id (h x))"
    have step: "flush_level_loop (Suc budget) s h cur out = flush_level_loop budget s h (o_next (h x)) (emit out [?m])"
      using cur assms(1) output_buffer_add_emit [OF Suc.prems(1)]
      by (simp add: make_cancel_ack_msg_ok cancel_ack_of_def)
    from Suc.IH [OF length_emit sg, of out "[?m]"] show ?thesis
      unfolding step Cons by (auto simp: ack_list_def)
  qed
qed

lemma seg_None: "seg h pr None q tp None \<Longrightarrow> q = []"
  by (cases q) auto

lemma seg_Some: "seg h pr (Some x) q tp None \<Longrightarrow> \<exists>q'. q = x # q'"
  by (cases q) auto

lemma seg_suffix: "seg h pr p (as @ x # bs) l None \<Longrightarrow> \<exists>pr'. seg h pr' (Some x) (x # bs) l None"
  by (auto simp: seg_append)

lemma flush_process_side_ok:
  assumes sym: "symbol_ok s" and rep: "side_rep h d lv n qd" and ne: "[] \<notin> set qd"
    and "length out \<le> MAX_OUTPUT_MESSAGES" and "flush_pos qd lev cur rest"
  shows "\<exists>lev' cur'. flush_process_side s h lv n lev cur False budget out
       = Some (lev', cur', length rest < budget, budget - length rest, emit out (ack_list s h (take budget rest)))
     \<and> flush_pos qd lev' cur' (drop budget rest)"
  using assms(4,5)
proof (induction "n - lev" arbitrary: lev cur rest budget out rule: less_induct)
  case less
  have len: "length qd = n" by (rule side_rep_length [OF rep])
  show ?case
  proof (cases "budget = 0")
    case True
    with less.prems show ?thesis by (subst flush_process_side.simps) auto
  next
    case b0: False
    show ?thesis
    proof (cases "lev < n")
      case False
      with less.prems len have "rest = []" "cur = None" by (auto simp: flush_pos_def)
      with False b0 less.prems show ?thesis by (subst flush_process_side.simps) auto
    next
      case lt: True
      define start where "start = (if cur = None then l_orders_head (lv lev) else cur)"
      have dl: "seg h None (l_orders_head (lv lev)) (qd ! lev) (l_orders_tail (lv lev)) None"
        using side_rep_level [OF rep lt] by (simp add: level_rep_def dls_def)
      have "\<exists>q pr. seg h pr start q (l_orders_tail (lv lev)) None \<and> rest = q @ concat (drop (Suc lev) qd)
              \<and> q \<noteq> [] \<and> (\<exists>as. qd ! lev = as @ q)"
      proof (cases cur)
        case None
        then have "rest = qd ! lev @ concat (drop (Suc lev) qd)"
          using less.prems(2) lt len Cons_nth_drop_Suc [of lev qd] by (auto simp: flush_pos_def) (metis concat.simps(2))
        moreover have "qd ! lev \<noteq> []" using ne lt len nth_mem by metis
        ultimately show ?thesis using dl None by (auto simp: start_def)
      next
        case (Some x)
        then obtain as bs where q: "qd ! lev = as @ x # bs" and r: "rest = x # bs @ concat (drop (Suc lev) qd)"
          using less.prems(2) by (auto simp: flush_pos_def)
        from seg_suffix [of h None _ as x bs, OF dl [unfolded q]] obtain pr' where
          "seg h pr' (Some x) (x # bs) (l_orders_tail (lv lev)) None" by blast
        with q r Some show ?thesis by (intro exI [of _ "x # bs"] exI [of _ pr']) (simp add: start_def)
      qed
      then obtain q pr as where sg: "seg h pr start q (l_orders_tail (lv lev)) None"
        and rest: "rest = q @ concat (drop (Suc lev) qd)" and q0: "q \<noteq> []" and qa: "qd ! lev = as @ q" by blast
      obtain cur1 pr1 where loop: "flush_level_loop budget s h start out
          = Some (budget - length q, cur1, emit out (ack_list s h (take budget q)))"
        and sg1: "seg h pr1 cur1 (drop budget q) (l_orders_tail (lv lev)) None"
        using flush_level_loop_ok [OF sym less.prems(1) sg] by blast
      define lev1 where "lev1 = (if cur1 = None then lev + 1 else lev)"
      have step: "flush_process_side s h lv n lev cur False budget out
          = flush_process_side s h lv n lev1 cur1 False (budget - length q) (emit out (ack_list s h (take budget q)))"
        using b0 lt loop by (subst flush_process_side.simps) (simp add: start_def lev1_def)
      show ?thesis
      proof (cases "cur1")
        case None
        then have "drop budget q = []" using seg_None sg1 by blast
        then have bq: "length q \<le> budget" by simp
        have "flush_pos qd (lev + 1) None (concat (drop (Suc lev) qd))" by (simp add: flush_pos_def)
        then obtain lev' cur' where
          "flush_process_side s h lv n (lev + 1) None False (budget - length q) (emit out (ack_list s h (take budget q)))
            = Some (lev', cur', length (concat (drop (Suc lev) qd)) < budget - length q,
                budget - length q - length (concat (drop (Suc lev) qd)),
                emit (emit out (ack_list s h (take budget q))) (ack_list s h (take (budget - length q) (concat (drop (Suc lev) qd)))))"
          "flush_pos qd lev' cur' (drop (budget - length q) (concat (drop (Suc lev) qd)))"
          using less.hyps [OF _ length_emit] lt by (metis Suc_eq_plus1 diff_less_mono2 lessI)
        with step None bq show ?thesis by (simp add: lev1_def rest less_diff_conv add.commute)
      next
        case (Some x)
        then obtain bs where dq: "drop budget q = x # bs" using seg_Some sg1 by blast
        then have bq: "budget < length q" by (metis drop_eq_Nil linorder_not_le list.distinct(1))
        have "qd ! lev = (as @ take budget q) @ x # bs" using qa dq by (metis append_assoc append_take_drop_id)
        then have "flush_pos qd lev (Some x) (drop budget rest)"
          using lt len bq dq unfolding flush_pos_def rest by auto
        with step Some bq show ?thesis
          by (subst (asm) (2) flush_process_side.simps) (simp add: lev1_def rest)
      qed
    qed
  qed
qed

subsection \<open>Freeing all levels\<close>

lemma free_levels_cong:
  "(\<And>k. j \<le> k \<Longrightarrow> lva k = lvb k) \<Longrightarrow> free_levels lva j m pool = free_levels lvb j m pool"
  by (induction m arbitrary: j pool) (auto cong: Option.bind_cong)

lemma flush_free_levels_ok:
  assumes "\<forall>k<n. dls (p_orders pool) (l_orders_head (lv (i + k))) (qd ! k) (l_orders_tail (lv (i + k)))"
    and "length qd = n" and "distinct (concat qd)" and "pool_ok pool" and "set (concat qd) \<subseteq> allocated pool"
    and "\<forall>q\<in>set qd. length q < MAX_ORDERS_IN_POOL"
  shows "\<exists>lv' pool'. flush_free_levels lv i n pool = Some (lv', pool') \<and> free_levels lv i n pool = Some pool'
     \<and> pool_ok pool' \<and> allocated pool' = allocated pool - set (concat qd) \<and> p_orders pool' = p_orders pool"
  using assms
proof (induction n arbitrary: lv i qd pool)
  case 0
  then show ?case by auto
next
  case (Suc n)
  obtain q qs where qd: "qd = q # qs" using Suc.prems(2) by (cases qd) auto
  have d0: "dls (p_orders pool) (l_orders_head (lv i)) q (l_orders_tail (lv i))"
    using Suc.prems(1) [rule_format, of 0] by (simp add: qd)
  obtain pool1 where p1: "list_free_all (l_orders_head (lv i)) pool = Some pool1" "pool_ok pool1"
    "allocated pool1 = allocated pool - set q" "p_orders pool1 = p_orders pool"
    using list_free_all_correct [OF d0 Suc.prems(4)] Suc.prems(5,6) qd by auto
  define lv1 where "lv1 = lv(i := (lv i)\<lparr>l_orders_head := None, l_orders_tail := None, l_total_quantity := 0\<rparr>)"
  have pre: "\<forall>k<n. dls (p_orders pool1) (l_orders_head (lv1 (Suc i + k))) (qs ! k) (l_orders_tail (lv1 (Suc i + k)))"
  proof (intro allI impI)
    fix k
    assume "k < n"
    with Suc.prems(1) [rule_format, of "Suc k"] p1(4)
    show "dls (p_orders pool1) (l_orders_head (lv1 (Suc i + k))) (qs ! k) (l_orders_tail (lv1 (Suc i + k)))"
      by (simp add: qd lv1_def)
  qed
  have rest: "length qs = n" "distinct (concat qs)" "set (concat qs) \<subseteq> allocated pool1"
    "\<forall>q\<in>set qs. length q < MAX_ORDERS_IN_POOL"
    using Suc.prems(2,3,5,6) p1(3) by (auto simp: qd)
  from Suc.IH [OF pre rest(1,2) p1(2) rest(3,4)] obtain lv' pool' where
    f: "flush_free_levels lv1 (Suc i) n pool1 = Some (lv', pool')" "free_levels lv1 (Suc i) n pool1 = Some pool'" "pool_ok pool'"
      "allocated pool' = allocated pool1 - set (concat qs)" "p_orders pool' = p_orders pool1"
    by blast
  have "free_levels lv (Suc i) n pool1 = Some pool'"
    using f(2) free_levels_cong [of "Suc i" lv1 lv] by (simp add: lv1_def)
  with f p1 show ?case by (auto simp: qd lv1_def)
qed

lemma free_side:
  assumes rep: "side_rep (p_orders pool) d lv n qd" and "distinct (concat qd)" and "pool_ok pool"
    and "set (concat qd) \<subseteq> allocated pool" and "\<forall>q\<in>set qd. length q < MAX_ORDERS_IN_POOL"
  shows "\<exists>lv' pool'. flush_free_levels lv 0 n pool = Some (lv', pool') \<and> free_levels lv 0 n pool = Some pool'
     \<and> pool_ok pool' \<and> allocated pool' = allocated pool - set (concat qd) \<and> p_orders pool' = p_orders pool"
  using side_rep_level [OF rep] side_rep_length [OF rep] assms(2-)
  by (intro flush_free_levels_ok) (auto simp: level_rep_def)

text \<open>No level holds all slots of the pool, the case in which \<open>list_free_all\<close> aborts.\<close>

definition small_levels :: "queues \<Rightarrow> bool" where
  "small_levels qs \<longleftrightarrow> (\<forall>d. \<forall>q\<in>set (qs d). length q < MAX_ORDERS_IN_POOL)"

lemma free_both_sides:
  assumes ok: "book_ok c qs" and small: "small_levels qs"
  shows "\<exists>lv1 pool1 lv2 pool2. flush_free_levels (ob_bids (cx_book c)) 0 (ob_num_bid_levels (cx_book c)) (cx_pool c) = Some (lv1, pool1)
     \<and> free_levels (ob_bids (cx_book c)) 0 (ob_num_bid_levels (cx_book c)) (cx_pool c) = Some pool1
     \<and> flush_free_levels (ob_asks (cx_book c)) 0 (ob_num_ask_levels (cx_book c)) pool1 = Some (lv2, pool2)
     \<and> free_levels (ob_asks (cx_book c)) 0 (ob_num_ask_levels (cx_book c)) pool1 = Some pool2
     \<and> pool_ok pool2 \<and> allocated pool2 = allocated (cx_pool c) - set (all_orders qs) \<and> p_orders pool2 = p_orders (cx_pool c)"
proof -
  have d: "distinct (concat (qs True))" "distinct (concat (qs False))" "set (concat (qs True)) \<inter> set (concat (qs False)) = {}"
    using book_okD(5) [OF ok] by (auto simp: all_orders_def)
  have sub: "set (concat (qs True)) \<subseteq> allocated (cx_pool c)" "set (concat (qs False)) \<subseteq> allocated (cx_pool c)"
    using book_okD(6) [OF ok] by (auto simp: all_orders_def)
  have sm: "\<forall>q\<in>set (qs d). length q < MAX_ORDERS_IN_POOL" for d using small by (auto simp: small_levels_def)
  have rep1: "side_rep (p_orders (cx_pool c)) True (ob_bids (cx_book c)) (ob_num_bid_levels (cx_book c)) (qs True)"
    using book_okD(4) [OF ok, of True] by (simp add: get_levels_def get_num_def)
  obtain lv1 pool1 where p1: "flush_free_levels (ob_bids (cx_book c)) 0 (ob_num_bid_levels (cx_book c)) (cx_pool c) = Some (lv1, pool1)"
    "free_levels (ob_bids (cx_book c)) 0 (ob_num_bid_levels (cx_book c)) (cx_pool c) = Some pool1"
    "pool_ok pool1" "allocated pool1 = allocated (cx_pool c) - set (concat (qs True))" "p_orders pool1 = p_orders (cx_pool c)"
    using free_side [OF rep1 d(1) book_okD(1) [OF ok] sub(1) sm] by blast
  have rep2: "side_rep (p_orders pool1) False (ob_asks (cx_book c)) (ob_num_ask_levels (cx_book c)) (qs False)"
    using book_okD(4) [OF ok, of False] p1(5) by (simp add: get_levels_def get_num_def)
  have "set (concat (qs False)) \<subseteq> allocated pool1" using sub(2) d(3) p1(4) by blast
  then obtain lv2 pool2 where p2: "flush_free_levels (ob_asks (cx_book c)) 0 (ob_num_ask_levels (cx_book c)) pool1 = Some (lv2, pool2)"
    "free_levels (ob_asks (cx_book c)) 0 (ob_num_ask_levels (cx_book c)) pool1 = Some pool2"
    "pool_ok pool2" "allocated pool2 = allocated pool1 - set (concat (qs False))" "p_orders pool2 = p_orders pool1"
    using free_side [OF rep2 d(2) p1(3) _ sm] by blast
  have "allocated pool2 = allocated (cx_pool c) - set (all_orders qs)"
    unfolding p2(4) p1(4) all_orders_def by auto
  with p1 p2 show ?thesis by auto
qed

text \<open>Destroying a book gives all its slots back.\<close>

lemma order_book_destroy_ok:
  assumes "book_ok c qs" and "small_levels qs"
  shows "\<exists>b' pool'. order_book_destroy (cx_book c) (cx_pool c) = Some (b', pool') \<and> pool_ok pool'
     \<and> allocated pool' = allocated (cx_pool c) - set (all_orders qs) \<and> p_orders pool' = p_orders (cx_pool c)
     \<and> order_map_lookup (ob_order_map b') = Map.empty"
proof -
  have e: "order_map_lookup (order_map_clear m) = Map.empty" for m
    using order_map_lookup_clear [of m] by auto
  from free_both_sides [OF assms] e show ?thesis by (auto simp: order_book_destroy_def)
qed

subsection \<open>Finalizing\<close>

definition spec_clear :: "abook \<Rightarrow> abook \<times> output_msg_t list" where
  "spec_clear b = (b\<lparr>ab_side := (\<lambda>_. []), ab_prev := (\<lambda>_. (0, 0)), ab_active := (\<lambda>_. False)\<rparr>,
     concat (map (\<lambda>d. if ab_active b d then [tob_msg (ab_symbol b) d (0, 0)] else []) [True, False]))"

lemma book_rep_empty:
  assumes "pool_ok (cx_pool c)" and "symbol_ok (ob_symbol (cx_book c))" and "length (cx_out c) \<le> MAX_OUTPUT_MESSAGES"
    and "ob_num_bid_levels (cx_book c) = 0" and "ob_num_ask_levels (cx_book c) = 0"
    and "order_map_ok (ob_order_map (cx_book c))" and "order_map_lookup (ob_order_map (cx_book c)) = Map.empty"
  shows "book_rep c (\<lambda>_. [])" and "abs_sides c (\<lambda>_. []) = (\<lambda>_. [])"
  using assms
  by (auto simp: book_rep_def book_ok_def side_rep_def get_num_def levels_sorted_def all_orders_def map_rep_def
      abs_sides_def abs_side_def)

lemma flush_finalize_ok:
  assumes ok: "book_ok c qs" and small: "small_levels qs"
  shows "\<exists>c'. flush_finalize c = Some c' \<and> book_rep c' (\<lambda>_. [])
     \<and> (abs_book c' (\<lambda>_. []), cx_out c') = (let (b, msgs) = spec_clear (abs_book c qs) in (b, emit (cx_out c) msgs))
     \<and> others_kept c qs c' (\<lambda>_. []) \<and> \<not> fs_in_progress (ob_flush_state (cx_book c'))"
proof -
  let ?b = "cx_book c"
  obtain lv1 pool1 lv2 pool2 where fr: "flush_free_levels (ob_bids ?b) 0 (ob_num_bid_levels ?b) (cx_pool c) = Some (lv1, pool1)"
    "flush_free_levels (ob_asks ?b) 0 (ob_num_ask_levels ?b) pool1 = Some (lv2, pool2)" "pool_ok pool2"
    "allocated pool2 = allocated (cx_pool c) - set (all_orders qs)" "p_orders pool2 = p_orders (cx_pool c)"
    using free_both_sides [OF assms] by blast
  define b1 where "b1 = ?b\<lparr>ob_bids := lv1, ob_num_bid_levels := 0, ob_asks := lv2,
                      ob_num_ask_levels := 0, ob_order_map := order_map_clear (ob_order_map ?b)\<rparr>"
  define b2 where "b2 = (if ob_bid_side_ever_active b1
                  then b1\<lparr>ob_prev_best_bid_price := 1, ob_prev_best_bid_qty := 1\<rparr> else b1)"
  define b3 where "b3 = (if ob_ask_side_ever_active b2
                  then b2\<lparr>ob_prev_best_ask_price := 1, ob_prev_best_ask_qty := 1\<rparr> else b2)"
  define c1 where "c1 = c\<lparr>cx_book := b3, cx_pool := pool2\<rparr>"
  have b3: "ob_num_bid_levels b3 = 0" "ob_num_ask_levels b3 = 0" "ob_order_map b3 = order_map_clear (ob_order_map ?b)"
    "ob_symbol b3 = ob_symbol ?b" "ob_bid_side_ever_active b3 = ob_bid_side_ever_active ?b"
    "ob_ask_side_ever_active b3 = ob_ask_side_ever_active ?b"
    "ob_bid_side_ever_active ?b \<Longrightarrow> (ob_prev_best_bid_price b3, ob_prev_best_bid_qty b3) = (1, 1)"
    "ob_ask_side_ever_active ?b \<Longrightarrow> (ob_prev_best_ask_price b3, ob_prev_best_ask_qty b3) = (1, 1)"
    by (simp_all add: b3_def b2_def b1_def)
  have rep1: "book_rep c1 (\<lambda>_. [])" "abs_sides c1 (\<lambda>_. []) = (\<lambda>_. [])"
    using book_okD(2,3) [OF ok] fr(3) b3 order_map_ok_clear order_map_lookup_clear
    by (intro book_rep_empty; simp add: c1_def)+
  have tobs: "snd (spec_tob (abs_book c1 (\<lambda>_. []))) = snd (spec_clear (abs_book c qs))"
    using b3(4-8) rep1(2)
    by (auto simp: spec_tob_def spec_clear_def spec_tob_side_def Let_def abs_book_def c1_def)
  have ok1: "book_ok c1 (\<lambda>_. [])" using rep1(1) by (simp add: book_rep_def)
  from check_tob_changes_ok [OF ok1] obtain c2 where tob: "check_tob_changes c1 = Some c2" and ok2: "book_ok c2 (\<lambda>_. [])"
    and p2: "cx_pool c2 = cx_pool c1" and out2: "cx_out c2 = emit (cx_out c1) (snd (spec_clear (abs_book c qs)))"
    and ab2: "abs_book c2 (\<lambda>_. []) = fst (spec_tob (abs_book c1 (\<lambda>_. [])))"
    and m2: "ob_order_map (cx_book c2) = ob_order_map (cx_book c1)"
    unfolding tobs by blast
  define c' where "c' = c2\<lparr>cx_book := (cx_book c2)\<lparr>
       ob_prev_best_bid_price := 0, ob_prev_best_bid_qty := 0,
       ob_prev_best_ask_price := 0, ob_prev_best_ask_qty := 0,
       ob_bid_side_ever_active := False, ob_ask_side_ever_active := False,
       ob_flush_state := zero_flush_state\<rparr>\<rparr>"
  have run: "flush_finalize c = Some c'"
    unfolding flush_finalize_def Let_def fr(1) bind.bind_lunit prod.case fr(2) b1_def [symmetric] b2_def [symmetric]
      b3_def [symmetric] c1_def [symmetric] tob c'_def ..
  have n2: "get_num d (cx_book c2) = 0" for d
    using side_rep_length [OF book_okD(4) [OF ok2, of d]] by simp
  have sym2: "ob_symbol (cx_book c2) = ob_symbol ?b"
    using arg_cong [OF ab2, of ab_symbol] b3(4) by (simp add: spec_tob_def abs_book_def c1_def)
  have rep': "book_rep c' (\<lambda>_. [])" "abs_sides c' (\<lambda>_. []) = (\<lambda>_. [])"
    using book_okD(1,2,3,7) [OF ok2] n2 [of True] n2 [of False] m2 order_map_lookup_clear b3(3)
    by (intro book_rep_empty; simp add: c'_def get_num_def map_rep_def c1_def)+
  moreover have "abs_book c' (\<lambda>_. []) = fst (spec_clear (abs_book c qs))"
    using rep'(2) sym2 by (auto simp: abs_book_def spec_clear_def c'_def)
  moreover have "others_kept c qs c' (\<lambda>_. [])"
    using fr(4,5) p2 by (simp add: others_kept_def c'_def c1_def all_orders_def)
  ultimately show ?thesis using run out2 by (simp add: split_beta c'_def c1_def zero_flush_state_def)
qed

subsection \<open>The batched flush\<close>

definition flush_rest :: "ctx \<Rightarrow> queues \<Rightarrow> nat list \<Rightarrow> bool" where
  "flush_rest c qs rest \<longleftrightarrow>
     (let st = ob_flush_state (cx_book c) in
      if \<not> fs_in_progress st then rest = all_orders qs
      else \<not> fs_asks_done st \<and>
        (if fs_bids_done st then flush_pos (qs False) (fs_current_ask_level st) (fs_current_order st) rest
         else fs_current_ask_level st = 0 \<and>
           (\<exists>restb. flush_pos (qs True) (fs_current_bid_level st) (fs_current_order st) restb
              \<and> rest = restb @ concat (qs False))))"

lemma book_ok_flush_state:
  "book_ok (c\<lparr>cx_book := (cx_book c)\<lparr>ob_flush_state := st\<rparr>, cx_out := out\<rparr>) qs \<longleftrightarrow>
     (length (cx_out c) \<le> MAX_OUTPUT_MESSAGES \<longrightarrow> book_ok c qs) \<and> length out \<le> MAX_OUTPUT_MESSAGES
     \<and> book_ok (c\<lparr>cx_out := []\<rparr>) qs"
  "abs_book (c\<lparr>cx_book := (cx_book c)\<lparr>ob_flush_state := st\<rparr>, cx_out := out\<rparr>) qs = abs_book c qs"
  by (auto simp: book_ok_def get_levels_def get_num_def abs_book_def abs_sides_def fun_eq_iff)

lemma flush_start_facts:
  assumes "flush_rest c qs rest"
  defines "st \<equiv> flush_start (ob_flush_state (cx_book c))"
  shows "fs_in_progress st \<and> \<not> fs_asks_done st \<and>
        (if fs_bids_done st then flush_pos (qs False) (fs_current_ask_level st) (fs_current_order st) rest
         else fs_current_ask_level st = 0 \<and>
           (\<exists>restb. flush_pos (qs True) (fs_current_bid_level st) (fs_current_order st) restb
              \<and> rest = restb @ concat (qs False)))"
  using assms(1) unfolding st_def flush_start_def
  by (auto simp: flush_rest_def Let_def flush_pos_def all_orders_def split: if_splits)

text \<open>The two loops of one call, on the flush state alone.\<close>

definition flush_sides :: "ctx \<Rightarrow> (flush_state_t \<times> output_buffer_t) option" where
  "flush_sides c = do {
     let book = cx_book c;
     let h = p_orders (cx_pool c);
     let st0 = flush_start (ob_flush_state book);
     (st1, budget1, out1) \<leftarrow>
       (if \<not> fs_bids_done st0 then do {
          (lv, ord, dn, budget, out) \<leftarrow> flush_process_side (ob_symbol book) h (ob_bids book)
             (ob_num_bid_levels book) (fs_current_bid_level st0) (fs_current_order st0)
             (fs_bids_done st0) FLUSH_BATCH_SIZE (cx_out c);
          Some (st0\<lparr>fs_current_bid_level := lv, fs_current_order := (if dn then None else ord),
                    fs_bids_done := dn\<rparr>, budget, out)
        } else Some (st0, FLUSH_BATCH_SIZE, cx_out c));
     (if \<not> fs_asks_done st1 \<and> 0 < budget1 then do {
          (lv, ord, dn, budget, out) \<leftarrow> flush_process_side (ob_symbol book) h (ob_asks book)
             (ob_num_ask_levels book) (fs_current_ask_level st1) (fs_current_order st1)
             (fs_asks_done st1) budget1 out1;
          Some (st1\<lparr>fs_current_ask_level := lv, fs_current_order := ord, fs_asks_done := dn\<rparr>, out)
        } else Some (st1, out1))
   }"

lemma order_book_flush_sides:
  "order_book_flush c = do {
     (st2, out2) \<leftarrow> flush_sides c;
     let c1 = c\<lparr>cx_book := (cx_book c)\<lparr>ob_flush_state := st2\<rparr>, cx_out := out2\<rparr>;
     if fs_bids_done st2 \<and> fs_asks_done st2 then do {
       c2 \<leftarrow> flush_finalize c1;
       Some (True, c2)
     } else Some (False, c1)
   }"
  unfolding order_book_flush_def flush_sides_def Let_def Option.bind_assoc split_def ..

lemma flush_asks_ok:
  assumes rep: "book_rep c qs" and out: "length out \<le> MAX_OUTPUT_MESSAGES" and b: "0 < budget"
    and st: "fs_in_progress st" "\<not> fs_asks_done st" "fs_bids_done st"
    and pos: "flush_pos (qs False) (fs_current_ask_level st) (fs_current_order st) rest"
  defines "h \<equiv> p_orders (cx_pool c)"
  shows "\<exists>st2. (if \<not> fs_asks_done st \<and> 0 < budget then do {
          (lv, ord, dn, budget, out) \<leftarrow> flush_process_side (ob_symbol (cx_book c)) h (ob_asks (cx_book c))
             (ob_num_ask_levels (cx_book c)) (fs_current_ask_level st) (fs_current_order st)
             (fs_asks_done st) budget out;
          Some (st\<lparr>fs_current_ask_level := lv, fs_current_order := ord, fs_asks_done := dn\<rparr>, out)
        } else Some (st, out)) = Some (st2, emit out (ack_list (ob_symbol (cx_book c)) h (take budget rest)))
     \<and> fs_in_progress st2 \<and> fs_bids_done st2 \<and> (fs_asks_done st2 \<longleftrightarrow> length rest < budget)
     \<and> flush_pos (qs False) (fs_current_ask_level st2) (fs_current_order st2) (drop budget rest)"
proof -
  have ok: "book_ok c qs" and ne: "[] \<notin> set (qs False)" using rep by (auto simp: book_rep_def)
  have sr: "side_rep h False (ob_asks (cx_book c)) (ob_num_ask_levels (cx_book c)) (qs False)"
    using book_okD(4) [OF ok, of False] by (simp add: get_levels_def get_num_def h_def)
  from flush_process_side_ok [OF book_okD(2) [OF ok] sr ne out pos, of budget] st b show ?thesis by auto
qed

lemma flush_sides_ok:
  assumes rep: "book_rep c qs" and fr: "flush_rest c qs rest"
  defines "h \<equiv> p_orders (cx_pool c)" and "s \<equiv> ob_symbol (cx_book c)"
  shows "\<exists>st2. flush_sides c = Some (st2, emit (cx_out c) (ack_list s h (take FLUSH_BATCH_SIZE rest)))
     \<and> (fs_bids_done st2 \<and> fs_asks_done st2 \<longleftrightarrow> length rest < FLUSH_BATCH_SIZE)
     \<and> (\<not> length rest < FLUSH_BATCH_SIZE \<longrightarrow>
          flush_rest (c\<lparr>cx_book := (cx_book c)\<lparr>ob_flush_state := st2\<rparr>, cx_out := emit (cx_out c) (ack_list s h (take FLUSH_BATCH_SIZE rest))\<rparr>)
            qs (drop FLUSH_BATCH_SIZE rest))"
proof -
  let ?b = "cx_book c" and ?st = "flush_start (ob_flush_state (cx_book c))" and ?B = FLUSH_BATCH_SIZE
  have ok: "book_ok c qs" and ne: "[] \<notin> set (qs True)" using rep by (auto simp: book_rep_def)
  note st = flush_start_facts [OF fr]
  show ?thesis
  proof (cases "fs_bids_done ?st")
    case True
    with st have pos: "flush_pos (qs False) (fs_current_ask_level ?st) (fs_current_order ?st) rest" by simp
    have B: "0 < ?B" by simp
    from flush_asks_ok [OF rep book_okD(3) [OF ok] B _ _ True pos] st True show ?thesis
      unfolding flush_sides_def Let_def h_def s_def by (auto simp: flush_rest_def Let_def)
  next
    case False
    with st obtain restb where a0: "fs_current_ask_level ?st = 0" and pos: "flush_pos (qs True) (fs_current_bid_level ?st) (fs_current_order ?st) restb"
      and rest: "rest = restb @ concat (qs False)" by auto
    have sr: "side_rep h True (ob_bids ?b) (ob_num_bid_levels ?b) (qs True)"
      using book_okD(4) [OF ok, of True] by (simp add: get_levels_def get_num_def h_def)
    from flush_process_side_ok [OF book_okD(2) [OF ok] sr ne book_okD(3) [OF ok] pos, of ?B, folded s_def] obtain lev cur where
      run1: "flush_process_side s h (ob_bids ?b) (ob_num_bid_levels ?b) (fs_current_bid_level ?st) (fs_current_order ?st) False ?B (cx_out c)
        = Some (lev, cur, length restb < ?B, ?B - length restb, emit (cx_out c) (ack_list s h (take ?B restb)))"
      and pos1: "flush_pos (qs True) lev cur (drop ?B restb)" by blast
    define st1 where "st1 = ?st\<lparr>fs_current_bid_level := lev, fs_current_order := (if length restb < ?B then None else cur),
         fs_bids_done := length restb < ?B\<rparr>"
    have fs: "flush_sides c = (if \<not> fs_asks_done st1 \<and> 0 < ?B - length restb then do {
          (lv, ord, dn, budget, out) \<leftarrow> flush_process_side s h (ob_asks ?b)
             (ob_num_ask_levels ?b) (fs_current_ask_level st1) (fs_current_order st1)
             (fs_asks_done st1) (?B - length restb) (emit (cx_out c) (ack_list s h (take ?B restb)));
          Some (st1\<lparr>fs_current_ask_level := lv, fs_current_order := ord, fs_asks_done := dn\<rparr>, out)
        } else Some (st1, emit (cx_out c) (ack_list s h (take ?B restb))))"
      using False run1 unfolding flush_sides_def Let_def h_def [symmetric] s_def [symmetric] st1_def by simp
    show ?thesis
    proof (cases "length restb < ?B")
      case True
      have pos2: "flush_pos (qs False) (fs_current_ask_level st1) (fs_current_order st1) (concat (qs False))"
        using a0 True by (simp add: st1_def flush_pos_def)
      have B: "0 < ?B - length restb" using True by simp
      have f1: "fs_in_progress st1" "\<not> fs_asks_done st1" "fs_bids_done st1" using st True by (simp_all add: st1_def)
      from flush_asks_ok [OF rep length_emit B f1 pos2, of "cx_out c" "ack_list s h (take ?B restb)", folded h_def s_def, folded fs]
      obtain st2 where run2: "flush_sides c = Some (st2, emit (emit (cx_out c) (ack_list s h (take ?B restb)))
            (ack_list s h (take (?B - length restb) (concat (qs False)))))"
        and f2: "fs_in_progress st2" "fs_bids_done st2" "fs_asks_done st2 \<longleftrightarrow> length (concat (qs False)) < ?B - length restb"
        "flush_pos (qs False) (fs_current_ask_level st2) (fs_current_order st2) (drop (?B - length restb) (concat (qs False)))" by blast
      have "ack_list s h (take ?B restb) @ ack_list s h (take (?B - length restb) (concat (qs False))) = ack_list s h (take ?B rest)"
        by (simp add: rest flip: ack_list_simps(2))
      moreover have "length rest < ?B \<longleftrightarrow> length (concat (qs False)) < ?B - length restb" using True by (auto simp: rest)
      moreover have "drop ?B rest = drop (?B - length restb) (concat (qs False))" using True by (simp add: rest)
      ultimately show ?thesis using run2 f2 by (auto simp: flush_rest_def Let_def)
    next
      case nb: False
      then have run2: "flush_sides c = Some (st1, emit (cx_out c) (ack_list s h (take ?B restb)))" using fs by simp
      have "flush_rest (c\<lparr>cx_book := ?b\<lparr>ob_flush_state := st1\<rparr>, cx_out := emit (cx_out c) (ack_list s h (take ?B restb))\<rparr>) qs (drop ?B rest)"
        using st nb pos1 a0 by (auto simp: flush_rest_def Let_def st1_def rest)
      with run2 nb show ?thesis by (auto simp: rest st1_def)
    qed
  qed
qed

lemma order_book_flush_more:
  assumes rep: "book_rep c qs" and fr: "flush_rest c qs rest" and more: "FLUSH_BATCH_SIZE \<le> length rest"
  shows "\<exists>c'. order_book_flush c = Some (False, c') \<and> book_rep c' qs \<and> abs_book c' qs = abs_book c qs
     \<and> cx_pool c' = cx_pool c \<and> flush_rest c' qs (drop FLUSH_BATCH_SIZE rest)
     \<and> cx_out c' = emit (cx_out c) (ack_list (ob_symbol (cx_book c)) (p_orders (cx_pool c)) (take FLUSH_BATCH_SIZE rest))"
proof -
  from flush_sides_ok [OF rep fr] more obtain st2 where
    st: "flush_sides c = Some (st2, emit (cx_out c) (ack_list (ob_symbol (cx_book c)) (p_orders (cx_pool c)) (take FLUSH_BATCH_SIZE rest)))"
    "\<not> (fs_bids_done st2 \<and> fs_asks_done st2)"
    "flush_rest (c\<lparr>cx_book := (cx_book c)\<lparr>ob_flush_state := st2\<rparr>,
       cx_out := emit (cx_out c) (ack_list (ob_symbol (cx_book c)) (p_orders (cx_pool c)) (take FLUSH_BATCH_SIZE rest))\<rparr>)
       qs (drop FLUSH_BATCH_SIZE rest)" by (auto simp: not_less)
  define c' where "c' = c\<lparr>cx_book := (cx_book c)\<lparr>ob_flush_state := st2\<rparr>,
       cx_out := emit (cx_out c) (ack_list (ob_symbol (cx_book c)) (p_orders (cx_pool c)) (take FLUSH_BATCH_SIZE rest))\<rparr>"
  have "order_book_flush c = Some (False, c')"
    unfolding order_book_flush_sides st(1) using st(2) by (auto simp: Let_def c'_def)
  moreover have "book_rep c' qs" "abs_book c' qs = abs_book c qs"
    using rep unfolding c'_def book_rep_def book_ok_flush_state by (auto simp: book_ok_def)
  ultimately show ?thesis using st(3) by (simp add: c'_def)
qed

lemma order_book_flush_last:
  assumes rep: "book_rep c qs" and fr: "flush_rest c qs rest" and small: "small_levels qs"
    and last: "length rest < FLUSH_BATCH_SIZE"
  shows "\<exists>c'. order_book_flush c = Some (True, c') \<and> book_rep c' (\<lambda>_. [])
     \<and> abs_book c' (\<lambda>_. []) = fst (spec_clear (abs_book c qs)) \<and> others_kept c qs c' (\<lambda>_. [])
     \<and> \<not> fs_in_progress (ob_flush_state (cx_book c'))
     \<and> cx_out c' = emit (cx_out c) (ack_list (ob_symbol (cx_book c)) (p_orders (cx_pool c)) rest
                                     @ snd (spec_clear (abs_book c qs)))"
proof -
  from flush_sides_ok [OF rep fr] last obtain st2 where
    st: "flush_sides c = Some (st2, emit (cx_out c) (ack_list (ob_symbol (cx_book c)) (p_orders (cx_pool c)) rest))"
    "fs_bids_done st2 \<and> fs_asks_done st2" by auto
  define c1 where "c1 = c\<lparr>cx_book := (cx_book c)\<lparr>ob_flush_state := st2\<rparr>,
       cx_out := emit (cx_out c) (ack_list (ob_symbol (cx_book c)) (p_orders (cx_pool c)) rest)\<rparr>"
  have c1: "book_ok c1 qs" "abs_book c1 qs = abs_book c qs"
    using rep unfolding c1_def book_rep_def book_ok_flush_state by (auto simp: book_ok_def)
  from flush_finalize_ok [OF c1(1) small] obtain c' where
    fin: "flush_finalize c1 = Some c'" "book_rep c' (\<lambda>_. [])" "others_kept c1 qs c' (\<lambda>_. [])"
      "\<not> fs_in_progress (ob_flush_state (cx_book c'))"
    and eq: "abs_book c' (\<lambda>_. []) = fst (spec_clear (abs_book c qs))"
      "cx_out c' = emit (cx_out c1) (snd (spec_clear (abs_book c qs)))"
    unfolding c1(2) by (auto simp: split_beta)
  have "order_book_flush c = Some (True, c')"
    unfolding order_book_flush_sides st(1) using st(2) fin(1) by (simp add: Let_def c1_def)
  with fin eq show ?thesis by (simp add: c1_def others_kept_def)
qed

text \<open>
  A caller that empties the buffer before each call, as the processor thread does, and
  calls at most \<open>k\<close> times; the result is everything it received and the final state.
\<close>

fun flush_run :: "nat \<Rightarrow> ctx \<Rightarrow> (output_msg_t list \<times> ctx) option" where
  "flush_run 0 c = None"
| "flush_run (Suc k) c = do {
     (finished, c') \<leftarrow> order_book_flush (c\<lparr>cx_out := []\<rparr>);
     if finished then Some (cx_out c', c')
     else do {
       (msgs, c'') \<leftarrow> flush_run k c';
       Some (cx_out c' @ msgs, c'')
     }
   }"

lemma emit_small: "length out + length msgs \<le> MAX_OUTPUT_MESSAGES \<Longrightarrow> emit out msgs = out @ msgs"
  by (simp add: emit_def)

lemma length_spec_clear: "length (snd (spec_clear b)) \<le> 2"
  by (simp add: spec_clear_def)

lemma flush_run_ok:
  assumes "book_rep c qs" and "flush_rest c qs rest" and "small_levels qs"
  shows "\<exists>c'. flush_run (Suc (length rest div FLUSH_BATCH_SIZE)) c
        = Some (ack_list (ob_symbol (cx_book c)) (p_orders (cx_pool c)) rest @ snd (spec_clear (abs_book c qs)), c')
     \<and> book_rep c' (\<lambda>_. []) \<and> abs_book c' (\<lambda>_. []) = fst (spec_clear (abs_book c qs))
     \<and> others_kept c qs c' (\<lambda>_. []) \<and> \<not> fs_in_progress (ob_flush_state (cx_book c'))"
  using assms(1,2)
proof (induction "length rest div FLUSH_BATCH_SIZE" arbitrary: c rest)
  case 0
  let ?c = "c\<lparr>cx_out := []\<rparr>"
  have len: "length rest < FLUSH_BATCH_SIZE" using 0 by (simp add: div_eq_0_iff)
  have rep: "book_rep ?c qs" "flush_rest ?c qs rest"
    using 0 by (simp_all add: book_rep_def book_ok_def flush_rest_def)
  from order_book_flush_last [OF rep assms(3) len] obtain c' where
    c': "order_book_flush ?c = Some (True, c')" "book_rep c' (\<lambda>_. [])"
     "abs_book c' (\<lambda>_. []) = fst (spec_clear (abs_book ?c qs))" "others_kept ?c qs c' (\<lambda>_. [])"
     "\<not> fs_in_progress (ob_flush_state (cx_book c'))"
     "cx_out c' = emit [] (ack_list (ob_symbol (cx_book c)) (p_orders (cx_pool c)) rest @ snd (spec_clear (abs_book c qs)))" by auto
  have "length (ack_list (ob_symbol (cx_book c)) (p_orders (cx_pool c)) rest @ snd (spec_clear (abs_book c qs))) \<le> MAX_OUTPUT_MESSAGES"
    using len length_spec_clear [of "abs_book c qs"] by simp
  then have "cx_out c' = ack_list (ob_symbol (cx_book c)) (p_orders (cx_pool c)) rest @ snd (spec_clear (abs_book c qs))"
    unfolding c'(6) by (subst emit_small) simp_all
  with c' show ?case unfolding 0(1) [symmetric] by (simp add: others_kept_def)
next
  case (Suc k)
  let ?c = "c\<lparr>cx_out := []\<rparr>" and ?B = FLUSH_BATCH_SIZE
  have len: "?B \<le> length rest" using Suc(2) by (metis Zero_not_Suc div_eq_0_iff not_le)
  have rep: "book_rep ?c qs" "flush_rest ?c qs rest"
    using Suc.prems by (simp_all add: book_rep_def book_ok_def flush_rest_def)
  from order_book_flush_more [OF rep len] obtain c1 where
    c1: "order_book_flush ?c = Some (False, c1)" "book_rep c1 qs" "abs_book c1 qs = abs_book c qs" "cx_pool c1 = cx_pool c"
     "flush_rest c1 qs (drop ?B rest)"
     "cx_out c1 = emit [] (ack_list (ob_symbol (cx_book c)) (p_orders (cx_pool c)) (take ?B rest))" by auto
  have out: "cx_out c1 = ack_list (ob_symbol (cx_book c)) (p_orders (cx_pool c)) (take ?B rest)"
    unfolding c1(6) by (subst emit_small) simp_all
  have k: "k = length (drop ?B rest) div ?B" using Suc(2) len by (simp add: le_div_geq)
  have sym: "ob_symbol (cx_book c1) = ob_symbol (cx_book c)" using arg_cong [OF c1(3), of ab_symbol] by (simp add: abs_book_def)
  from Suc(1) [OF k c1(2,5)] obtain c' where
    r: "flush_run (Suc k) c1 = Some (ack_list (ob_symbol (cx_book c)) (p_orders (cx_pool c)) (drop ?B rest) @ snd (spec_clear (abs_book c qs)), c')"
      "book_rep c' (\<lambda>_. [])" "abs_book c' (\<lambda>_. []) = fst (spec_clear (abs_book c qs))"
      "others_kept c1 qs c' (\<lambda>_. [])" "\<not> fs_in_progress (ob_flush_state (cx_book c'))"
    unfolding k [symmetric] sym c1(3,4) by blast
  have step: "flush_run (Suc (Suc k)) c = do { (msgs, c'') \<leftarrow> flush_run (Suc k) c1; Some (cx_out c1 @ msgs, c'') }"
    by (subst flush_run.simps) (simp add: c1(1) del: flush_run.simps)
  have "ack_list (ob_symbol (cx_book c)) (p_orders (cx_pool c)) (take ?B rest)
      @ ack_list (ob_symbol (cx_book c)) (p_orders (cx_pool c)) (drop ?B rest) = ack_list (ob_symbol (cx_book c)) (p_orders (cx_pool c)) rest"
    by (simp flip: ack_list_simps(2))
  with r c1(4) out show ?case unfolding Suc(2) [symmetric] step
    by (simp add: others_kept_def del: flush_run.simps flip: append_assoc)
qed

subsection \<open>A new book\<close>

lemma order_book_init_ok:
  assumes "symbol_ok s" and "pool_ok pool"
  shows "\<exists>b'. order_book_init b s = Some b' \<and> ob_symbol b' = s \<and> book_rep \<lparr>cx_book = b', cx_pool = pool, cx_out = []\<rparr> (\<lambda>_. [])
     \<and> \<not> fs_in_progress (ob_flush_state b')"
proof -
  have cp: "copy_until_nul MAX_SYMBOL_LENGTH s = s" "length s < MAX_SYMBOL_LENGTH"
    using assms(1) by (simp_all add: symbol_ok_def copy_until_nul_c_string)
  define b' where "b' = the (order_book_init b s)"
  have run: "order_book_init b s = Some b'" unfolding b'_def order_book_init_def using cp by (simp add: asserts Let_def)
  have f: "ob_symbol b' = s" "ob_num_bid_levels b' = 0" "ob_num_ask_levels b' = 0"
    "ob_order_map b' = order_map_clear (ob_order_map b)" "\<not> fs_in_progress (ob_flush_state b')"
    using run cp by (auto simp: order_book_init_def asserts Let_def order_map_init_def order_map_clear_def zero_flush_state_def)
  have "book_rep \<lparr>cx_book = b', cx_pool = pool, cx_out = []\<rparr> (\<lambda>_. [])"
    using f assms order_map_ok_clear order_map_lookup_clear by (intro book_rep_empty) simp_all
  with run f show ?thesis by blast
qed

end
