(* ===== verification/ME_Book_Client.thy ===== *)
theory ME_Book_Client
  imports ME_Book_Flush
begin

text \<open>
  \<open>order_book_cancel_client_orders\<close>: the scan collects the keys of the client's orders,
  at most \<open>MAX_ORDERS_AT_PRICE_LEVEL\<close> orders deep at each level, and each key is cancelled.
\<close>

subsection \<open>The scan\<close>

definition client_keys :: "order_heap \<Rightarrow> u32 \<Rightarrow> nat list \<Rightarrow> (u32 \<times> u32) list" where
  "client_keys h cid xs = map (\<lambda>x. (o_user_id (h x), o_user_order_id (h x))) (filter (\<lambda>x. o_client_id (h x) = cid) xs)"

lemma client_keys_simps [simp]:
  "client_keys h cid [] = []" "client_keys h cid (xs @ ys) = client_keys h cid xs @ client_keys h cid ys"
  by (simp_all add: client_keys_def)

lemma length_client_keys: "length (client_keys h cid xs) \<le> length xs"
  by (simp add: client_keys_def)

lemma scan_level_ok:
  "seg h pr cur q tp None \<Longrightarrow> length acc + length q \<le> MAX_ORDERS_IN_POOL \<Longrightarrow>
     scan_level n h cid cur acc = acc @ client_keys h cid (take n q)"
proof (induction n arbitrary: pr cur q acc)
  case (Suc n)
  show ?case
  proof (cases q)
    case Nil
    with Suc.prems show ?thesis by simp
  next
    case (Cons x q')
    let ?acc = "if o_client_id (h x) = cid \<and> length acc < MAX_ORDERS_IN_POOL
        then acc @ [(o_user_id (h x), o_user_order_id (h x))] else acc"
    from Suc.prems Cons have "seg h (Some x) (o_next (h x)) q' tp None" "cur = Some x"
      and len: "length acc + length q' < MAX_ORDERS_IN_POOL" by auto
    moreover have "length ?acc + length q' \<le> MAX_ORDERS_IN_POOL" using len by simp
    ultimately show ?thesis using Suc.IH [of "Some x" "o_next (h x)" q' ?acc] Cons by (simp add: client_keys_def)
  qed
qed simp

definition scanned :: "nat list list \<Rightarrow> nat list" where
  "scanned qd = concat (map (take MAX_ORDERS_AT_PRICE_LEVEL) qd)"

lemma length_scanned: "length (scanned qd) \<le> length (concat qd)"
  by (induction qd) (auto simp: scanned_def)

lemma scan_levels_ok:
  assumes rep: "side_rep h d lv n qd" and len: "length acc + length (concat qd) \<le> MAX_ORDERS_IN_POOL"
  shows "scan_levels h cid lv n acc = acc @ client_keys h cid (scanned qd)"
proof -
  have ln: "length qd = n" "n \<le> MAX_PRICE_LEVELS" using side_rep_length [OF rep] rep by (auto simp: side_rep_def)
  have "fold (\<lambda>i. scan_level MAX_ORDERS_AT_PRICE_LEVEL h cid (l_orders_head (lv i))) [0..<k] acc
      = acc @ client_keys h cid (scanned (take k qd))" if "k \<le> n" for k
    using that
  proof (induction k)
    case 0
    then show ?case by (simp add: scanned_def)
  next
    case (Suc k)
    then have k: "k < length qd" using ln by simp
    have sg: "seg h None (l_orders_head (lv k)) (qd ! k) (l_orders_tail (lv k)) None"
      using side_rep_level [OF rep, of k] Suc.prems by (simp add: level_rep_def dls_def)
    have "length (client_keys h cid (scanned (take k qd))) \<le> length (concat (take k qd))"
      using length_client_keys [of h cid "scanned (take k qd)"] length_scanned [of "take k qd"] by linarith
    moreover have "length (concat (take k qd)) + length (qd ! k) \<le> length (concat qd)"
      using arg_cong [OF concat_split [OF k], of length] by simp
    ultimately have "length (acc @ client_keys h cid (scanned (take k qd))) + length (qd ! k) \<le> MAX_ORDERS_IN_POOL"
      using len by simp
    from scan_level_ok [OF sg this] Suc k show ?case
      by (simp add: take_Suc_conv_app_nth scanned_def)
  qed
  from this [of n] ln show ?thesis by (simp add: scan_levels_def min_absorb1)
qed

subsection \<open>The cancels\<close>

fun spec_cancels :: "abook \<Rightarrow> (u32 \<times> u32) list \<Rightarrow> abook \<times> output_msg_t list" where
  "spec_cancels b [] = (b, [])"
| "spec_cancels b ((u, i) # ks) =
     (let (b1, m1) = spec_cancel b u i; (b2, m2) = spec_cancels b1 ks in (b2, m1 @ m2))"

lemma others_kept_trans: "others_kept c qs c1 qs1 \<Longrightarrow> others_kept c1 qs1 c2 qs2 \<Longrightarrow> others_kept c qs c2 qs2"
  unfolding others_kept_def by auto

lemma cancel_keys_ok:
  assumes "book_rep c qs" and "\<forall>(u, i)\<in>set ks. valid_ids u i"
  shows "\<exists>c' qs'. cancel_keys ks c = Some c' \<and> book_rep c' qs'
     \<and> (abs_book c' qs', cx_out c') = (let (b, msgs) = spec_cancels (abs_book c qs) ks in (b, emit (cx_out c) msgs))
     \<and> others_kept c qs c' qs' \<and> ob_flush_state (cx_book c') = ob_flush_state (cx_book c)"
  using assms
proof (induction ks arbitrary: c qs)
  case Nil
  then have "length (cx_out c) \<le> MAX_OUTPUT_MESSAGES" by (simp add: book_rep_def book_ok_def)
  with Nil show ?case by (intro exI [of _ c] exI [of _ qs]) (simp add: others_kept_def)
next
  case (Cons k ks)
  obtain u i where k: "k = (u, i)" by (cases k)
  from order_book_cancel_order_ok [OF Cons.prems(1), of u i] Cons.prems(2) k obtain c1 qs1 where
    c1: "order_book_cancel_order u i c = Some c1" "book_rep c1 qs1" "others_kept c qs c1 qs1"
      "ob_flush_state (cx_book c1) = ob_flush_state (cx_book c)"
    and e1: "(abs_book c1 qs1, cx_out c1) = (let (b, msgs) = spec_cancel (abs_book c qs) u i in (b, emit (cx_out c) msgs))"
    by auto
  from Cons.IH [OF c1(2)] Cons.prems(2) obtain c2 qs2 where
    c2: "cancel_keys ks c1 = Some c2" "book_rep c2 qs2" "others_kept c1 qs1 c2 qs2"
      "ob_flush_state (cx_book c2) = ob_flush_state (cx_book c1)"
    and e2: "(abs_book c2 qs2, cx_out c2) = (let (b, msgs) = spec_cancels (abs_book c1 qs1) ks in (b, emit (cx_out c1) msgs))"
    by auto
  have "(abs_book c2 qs2, cx_out c2) = (let (b, msgs) = spec_cancels (abs_book c qs) (k # ks) in (b, emit (cx_out c) msgs))"
    using e1 e2 by (auto simp: k split_beta)
  with c1 c2 others_kept_trans [OF c1(3) c2(3)] show ?case by (auto simp: k)
qed

definition scan_keys :: "ctx \<Rightarrow> queues \<Rightarrow> u32 \<Rightarrow> (u32 \<times> u32) list" where
  "scan_keys c qs cid = client_keys (p_orders (cx_pool c)) cid (scanned (qs True) @ scanned (qs False))"

lemma order_ids_valid:
  assumes ok: "book_ok c qs" and x: "x \<in> set (all_orders qs)"
  shows "valid_ids (o_user_id (p_orders (cx_pool c) x)) (o_user_order_id (p_orders (cx_pool c) x))"
  using locate_order [OF ok x] by blast

lemma scanned_subset: "set (scanned qd) \<subseteq> set (concat qd)"
  by (auto simp: scanned_def dest: in_set_takeD)

lemma order_book_cancel_client_orders_ok:
  assumes rep: "book_rep c qs"
  shows "\<exists>c' qs'. order_book_cancel_client_orders cid c = Some (length (scan_keys c qs cid), c') \<and> book_rep c' qs'
     \<and> (abs_book c' qs', cx_out c')
         = (let (b, msgs) = spec_cancels (abs_book c qs) (scan_keys c qs cid) in (b, emit (cx_out c) msgs))
     \<and> others_kept c qs c' qs' \<and> ob_flush_state (cx_book c') = ob_flush_state (cx_book c)"
proof -
  let ?b = "cx_book c" and ?h = "p_orders (cx_pool c)"
  have ok: "book_ok c qs" using rep by (simp add: book_rep_def)
  have "card (set (all_orders qs)) \<le> card (allocated (cx_pool c))"
    by (intro card_mono pool.used_finite book_okD(1,6) [OF ok])
  also have "\<dots> \<le> MAX_ORDERS_IN_POOL" by (rule pool.card_used [OF book_okD(1) [OF ok]])
  finally have len: "length (all_orders qs) \<le> MAX_ORDERS_IN_POOL" using distinct_card [OF book_okD(5) [OF ok]] by simp
  have reps: "side_rep ?h True (ob_bids ?b) (ob_num_bid_levels ?b) (qs True)"
    "side_rep ?h False (ob_asks ?b) (ob_num_ask_levels ?b) (qs False)"
    using book_okD(4) [OF ok, of True] book_okD(4) [OF ok, of False] by (simp_all add: get_levels_def get_num_def)
  define k1 where "k1 = client_keys ?h cid (scanned (qs True))"
  have s1: "scan_levels ?h cid (ob_bids ?b) (ob_num_bid_levels ?b) [] = k1"
    using scan_levels_ok [OF reps(1), of "[]" cid] len by (simp add: all_orders_def k1_def)
  have "length k1 \<le> length (concat (qs True))"
    using length_client_keys [of ?h cid "scanned (qs True)"] length_scanned [of "qs True"] unfolding k1_def by linarith
  then have "length k1 + length (concat (qs False)) \<le> MAX_ORDERS_IN_POOL" using len by (simp add: all_orders_def)
  from scan_levels_ok [OF reps(2) this]
  have s2: "scan_levels ?h cid (ob_asks ?b) (ob_num_ask_levels ?b) k1 = scan_keys c qs cid" by (simp add: scan_keys_def k1_def)
  have "\<forall>(u, i)\<in>set (scan_keys c qs cid). valid_ids u i"
  proof -
    have "set (scanned (qs True) @ scanned (qs False)) \<subseteq> set (all_orders qs)"
      using scanned_subset [of "qs True"] scanned_subset [of "qs False"] unfolding all_orders_def set_append by blast
    then show ?thesis using order_ids_valid [OF ok] unfolding scan_keys_def client_keys_def by fastforce
  qed
  from cancel_keys_ok [OF rep this] obtain c' qs' where
    "cancel_keys (scan_keys c qs cid) c = Some c'" "book_rep c' qs'"
    "(abs_book c' qs', cx_out c') = (let (b, msgs) = spec_cancels (abs_book c qs) (scan_keys c qs cid) in (b, emit (cx_out c) msgs))"
    "others_kept c qs c' qs'" "ob_flush_state (cx_book c') = ob_flush_state (cx_book c)" by blast
  with s1 s2 show ?thesis by (auto simp: order_book_cancel_client_orders_def)
qed

subsection \<open>What is left of the client\<close>

lemma spec_cancel_side: "ab_side (fst (spec_cancel b u i)) d = (if resting_ids b u i then remove_order u i (ab_side b d) else ab_side b d)"
  by (simp add: spec_cancel_def spec_tob_def)

definition in_book :: "abook \<Rightarrow> order_t \<Rightarrow> bool" where
  "in_book b x \<longleftrightarrow> (\<exists>d. \<exists>l\<in>set (ab_side b d). x \<in> set (snd l))"

lemma in_book_cancel: "in_book (fst (spec_cancel b u i)) x \<longleftrightarrow> in_book b x \<and> \<not> has_ids u i x"
proof -
  have rm: "(\<exists>l\<in>set (remove_order u i ls). x \<in> set (snd l)) \<longleftrightarrow> (\<exists>l\<in>set ls. x \<in> set (snd l)) \<and> \<not> has_ids u i x" for ls
    by (force simp: remove_order_def filter_empty_conv)
  show ?thesis
  proof (cases "resting_ids b u i")
    case True
    then show ?thesis unfolding in_book_def spec_cancel_side using rm by simp
  next
    case False
    then have "\<not> has_ids u i x" if "in_book b x" using that unfolding in_book_def resting_ids_def by blast
    with False show ?thesis unfolding in_book_def spec_cancel_side by auto
  qed
qed

lemma in_book_cancels:
  "in_book (fst (spec_cancels b ks)) x \<longleftrightarrow> in_book b x \<and> (\<forall>(u, i)\<in>set ks. \<not> has_ids u i x)"
proof (induction ks arbitrary: b)
  case (Cons k ks)
  then show ?case by (cases k) (auto simp: split_beta in_book_cancel)
qed simp

lemma in_book_orders:
  assumes ok: "book_ok c qs"
  shows "in_book (abs_book c qs) y \<longleftrightarrow> (\<exists>x\<in>set (all_orders qs). y = strip (p_orders (cx_pool c) x))"
proof -
  let ?h = "p_orders (cx_pool c)"
  have "snd ` set (abs_sides c qs d) = abs_queue ?h ` set (qs d)" for d
  proof -
    have "map snd (abs_sides c qs d) = map (abs_queue ?h) (qs d)"
      using side_rep_length [OF book_okD(4) [OF ok, of d]] by (simp add: abs_sides_def abs_side_def)
    then show ?thesis by (metis set_map)
  qed
  then have "(\<exists>Q\<in>snd ` set (abs_sides c qs d). y \<in> set Q) \<longleftrightarrow> (\<exists>Q\<in>abs_queue ?h ` set (qs d). y \<in> set Q)" for d
    by (simp only:)
  then show ?thesis
    unfolding in_book_def abs_book_def all_orders_def by (simp add: abs_queue_def ex_bool_eq) blast
qed

text \<open>When no level is deeper than the scan, no order of the client stays.\<close>

lemma client_gone:
  assumes rep: "book_rep c qs" and shallow: "\<And>d q. q \<in> set (qs d) \<Longrightarrow> length q \<le> MAX_ORDERS_AT_PRICE_LEVEL"
    and y: "in_book (fst (spec_cancels (abs_book c qs) (scan_keys c qs cid))) y"
  shows "in_book (abs_book c qs) y \<and> o_client_id y \<noteq> cid"
proof -
  have ok: "book_ok c qs" using rep by (simp add: book_rep_def)
  have sc: "scanned (qs d) = concat (qs d)" for d
    unfolding scanned_def using shallow [of _ d] by (metis (no_types, lifting) map_idI take_all)
  from y have iy: "in_book (abs_book c qs) y" and nk: "\<forall>(u, i)\<in>set (scan_keys c qs cid). \<not> has_ids u i y"
    by (auto simp: in_book_cancels)
  from iy obtain x where x: "x \<in> set (all_orders qs)" "y = strip (p_orders (cx_pool c) x)"
    unfolding in_book_orders [OF ok] by blast
  have "o_client_id (p_orders (cx_pool c) x) \<noteq> cid"
  proof
    assume "o_client_id (p_orders (cx_pool c) x) = cid"
    with x(1) have "(o_user_id (p_orders (cx_pool c) x), o_user_order_id (p_orders (cx_pool c) x)) \<in> set (scan_keys c qs cid)"
      unfolding scan_keys_def sc client_keys_def all_orders_def by auto
    with nk x(2) show False by (auto simp: has_ids_def)
  qed
  with iy x(2) show ?thesis by simp
qed

end
