(* ===== verification/ME_Matching_Engine.thy ===== *)
theory ME_Matching_Engine
  imports ME_Symbol_Maps ME_Book_Client
begin

text \<open>
  The matching engine of \<^verbatim>\<open>src/core/matching_engine.c\<close>: it owns one order book per symbol
  and routes every input message to the book it concerns.  The engine, the memory pools all
  its books share and the output buffer are the fields of \<open>engine_ctx\<close>; an operation on one
  book runs on the \<open>ctx\<close> made of that book, the pools and the buffer, and its result is
  written back (\<open>on_book\<close>).  \<^verbatim>\<open>engine->pools\<close> is a flag: whether it points to the pools or
  is \<^verbatim>\<open>NULL\<close>.  Messages to \<^verbatim>\<open>stderr\<close> are left out.
\<close>

record matching_engine_t =
  me_symbol_map :: symbol_map_t
  me_order_to_symbol :: order_symbol_map_t
  me_books :: "nat \<Rightarrow> order_book_t"
  me_num_books :: nat
  me_pools :: bool

record engine_ctx =
  en_engine :: matching_engine_t
  en_pool :: order_pool_t
  en_out :: output_buffer_t

subsection \<open>One book of the engine\<close>

definition book_ctx :: "nat \<Rightarrow> engine_ctx \<Rightarrow> ctx" where
  "book_ctx i e = \<lparr>cx_book = me_books (en_engine e) i, cx_pool = en_pool e, cx_out = en_out e\<rparr>"

definition put_ctx :: "nat \<Rightarrow> ctx \<Rightarrow> engine_ctx \<Rightarrow> engine_ctx" where
  "put_ctx i c e = e\<lparr>
     en_engine := (en_engine e)\<lparr>me_books := (me_books (en_engine e))(i := cx_book c)\<rparr>,
     en_pool := cx_pool c, en_out := cx_out c\<rparr>"

definition on_book :: "nat \<Rightarrow> (ctx \<Rightarrow> ctx option) \<Rightarrow> engine_ctx \<Rightarrow> engine_ctx option" where
  "on_book i f e = do { c \<leftarrow> f (book_ctx i e); Some (put_ctx i c e) }"

definition on_book_with :: "nat \<Rightarrow> (ctx \<Rightarrow> ('r \<times> ctx) option) \<Rightarrow> engine_ctx \<Rightarrow> ('r \<times> engine_ctx) option" where
  "on_book_with i f e = do { (r, c) \<leftarrow> f (book_ctx i e); Some (r, put_ctx i c e) }"

definition en_add :: "output_msg_t \<Rightarrow> engine_ctx \<Rightarrow> engine_ctx option" where
  "en_add msg e = do { out \<leftarrow> output_buffer_add (en_out e) msg; Some (e\<lparr>en_out := out\<rparr>) }"

text \<open>
  The loop \<^verbatim>\<open>for (int i = 0; i < engine->num_books && i < MAX_SYMBOLS; i++)\<close> with an
  accumulator.
\<close>

fun book_loop :: "nat list \<Rightarrow> (nat \<Rightarrow> 'a \<Rightarrow> engine_ctx \<Rightarrow> ('a \<times> engine_ctx) option) \<Rightarrow> 'a \<Rightarrow> engine_ctx \<Rightarrow>
    ('a \<times> engine_ctx) option" where
  "book_loop [] f acc e = Some (acc, e)"
| "book_loop (i # is) f acc e = do { (acc', e') \<leftarrow> f i acc e; book_loop is f acc' e' }"

definition book_indices :: "matching_engine_t \<Rightarrow> nat list" where
  "book_indices engine = [0..<min (me_num_books engine) MAX_SYMBOLS]"

subsection \<open>Life cycle\<close>

definition zero_book :: order_book_t where
  "zero_book = \<lparr>ob_symbol = [], ob_bids = (\<lambda>_. zero_level), ob_asks = (\<lambda>_. zero_level),
     ob_num_bid_levels = 0, ob_num_ask_levels = 0,
     ob_order_map = \<lparr>m_slots = (\<lambda>_. \<lparr>s_key = 0, s_location = empty_location\<rparr>), m_count = 0, m_tombstone_count = 0\<rparr>,
     ob_prev_best_bid_price = 0, ob_prev_best_bid_qty = 0, ob_prev_best_ask_price = 0, ob_prev_best_ask_qty = 0,
     ob_bid_side_ever_active = False, ob_ask_side_ever_active = False, ob_flush_state = zero_flush_state\<rparr>"

definition matching_engine_init :: "matching_engine_t \<Rightarrow> matching_engine_t" where
  "matching_engine_init engine = engine\<lparr>
     me_symbol_map := symbol_map_init (me_symbol_map engine),
     me_order_to_symbol := order_symbol_map_init (me_order_to_symbol engine),
     me_books := (\<lambda>_. zero_book), me_num_books := 0, me_pools := True\<rparr>"

definition matching_engine_destroy :: "engine_ctx \<Rightarrow> engine_ctx option" where
  "matching_engine_destroy e = do {
     (u, e') \<leftarrow> book_loop (book_indices (en_engine e)) (\<lambda>i _ e. do {
         (book', pool') \<leftarrow> order_book_destroy (me_books (en_engine e) i) (en_pool e);
         Some ((), put_ctx i \<lparr>cx_book = book', cx_pool = pool', cx_out = en_out e\<rparr> e)
       }) () e;
     Some (e'\<lparr>en_engine := (en_engine e')\<lparr>me_pools := False\<rparr>\<rparr>)
   }"

text \<open>The result is the index of the book, \<open>None\<close> for the returned \<^verbatim>\<open>NULL\<close>.\<close>

definition matching_engine_get_order_book ::
  "matching_engine_t \<Rightarrow> string \<Rightarrow> (nat option \<times> matching_engine_t) option" where
  "matching_engine_get_order_book engine symbol =
     (case symbol_map_find (me_symbol_map engine) symbol of
        Some slot \<Rightarrow> do {
          let book_index = sm_book_index (sm_slots (me_symbol_map engine) slot);
          assert_that (book_index \<ge> 0 \<and> book_index < int (me_num_books engine));
          Some (Some (nat book_index), engine)
        }
      | None \<Rightarrow>
          if me_num_books engine \<ge> MAX_SYMBOLS then Some (None, engine)
          else do {
            let book_index = me_num_books engine;
            assert_that (me_pools engine);
            book \<leftarrow> order_book_init (me_books engine book_index) symbol;
            let engine1 = engine\<lparr>me_books := (me_books engine)(book_index := book),
                                 me_num_books := me_num_books engine + 1\<rparr>;
            (new_slot, symbol_map') \<leftarrow> symbol_map_insert (me_symbol_map engine1) symbol (int book_index);
            let engine2 = engine1\<lparr>me_symbol_map := symbol_map'\<rparr>;
            case new_slot of
              None \<Rightarrow> Some (None, engine2\<lparr>me_num_books := me_num_books engine2 - 1\<rparr>)
            | Some _ \<Rightarrow> Some (Some book_index, engine2)
          })"

subsection \<open>Message handlers\<close>

definition matching_engine_process_new_order ::
  "new_order_msg_t \<Rightarrow> u32 \<Rightarrow> u64 \<Rightarrow> engine_ctx \<Rightarrow> engine_ctx option" where
  "matching_engine_process_new_order msg client_id timestamp e = do {
     (book, engine1) \<leftarrow> matching_engine_get_order_book (en_engine e) (no_symbol msg);
     case book of
       None \<Rightarrow> do {
         ack \<leftarrow> make_ack_msg (no_symbol msg) (no_user_id msg) (no_user_order_id msg);
         en_add ack (e\<lparr>en_engine := engine1\<rparr>)
       }
     | Some i \<Rightarrow> do {
         key \<leftarrow> make_order_key (no_user_id msg) (no_user_order_id msg);
         (inserted, map') \<leftarrow> order_symbol_map_insert (me_order_to_symbol engine1) key (no_symbol msg);
         on_book i (order_book_add_order msg client_id timestamp)
           (e\<lparr>en_engine := engine1\<lparr>me_order_to_symbol := map'\<rparr>\<rparr>)
       }
   }"

definition matching_engine_process_cancel_order :: "cancel_msg_t \<Rightarrow> engine_ctx \<Rightarrow> engine_ctx option" where
  "matching_engine_process_cancel_order msg e = do {
     let engine = en_engine e;
     key \<leftarrow> make_order_key (cm_user_id msg) (cm_user_order_id msg);
     case order_symbol_map_find (me_order_to_symbol engine) key of
       None \<Rightarrow> do {
         cancel_ack \<leftarrow> make_cancel_ack_msg ''UNKNOWN'' (cm_user_id msg) (cm_user_order_id msg);
         en_add cancel_ack e
       }
     | Some entry \<Rightarrow> do {
         let symbol = os_symbol (os_slots (me_order_to_symbol engine) entry);
         case symbol_map_find (me_symbol_map engine) symbol of
           None \<Rightarrow> do {
             cancel_ack \<leftarrow> make_cancel_ack_msg symbol (cm_user_id msg) (cm_user_order_id msg);
             e1 \<leftarrow> en_add cancel_ack e;
             Some (e1\<lparr>en_engine := (en_engine e1)\<lparr>me_order_to_symbol :=
                        snd (order_symbol_map_remove (me_order_to_symbol (en_engine e1)) key)\<rparr>\<rparr>)
           }
         | Some book_slot \<Rightarrow> do {
             let book_index = sm_book_index (sm_slots (me_symbol_map engine) book_slot);
             assert_that (book_index \<ge> 0 \<and> book_index < int (me_num_books engine));
             e1 \<leftarrow> on_book (nat book_index) (order_book_cancel_order (cm_user_id msg) (cm_user_order_id msg)) e;
             Some (e1\<lparr>en_engine := (en_engine e1)\<lparr>me_order_to_symbol :=
                        snd (order_symbol_map_remove (me_order_to_symbol (en_engine e1)) key)\<rparr>\<rparr>)
           }
       }
   }"

definition matching_engine_process_flush_iteration :: "engine_ctx \<Rightarrow> (bool \<times> engine_ctx) option" where
  "matching_engine_process_flush_iteration e =
     book_loop (book_indices (en_engine e)) (\<lambda>i all_done e.
       if order_book_flush_in_progress (me_books (en_engine e) i) then do {
         (book_done, e') \<leftarrow> on_book_with i order_book_flush e;
         Some (if \<not> book_done then False else all_done, e')
       } else Some (all_done, e)) True e"

definition matching_engine_start_flush :: "engine_ctx \<Rightarrow> engine_ctx option" where
  "matching_engine_start_flush e = do {
     (u, e') \<leftarrow> book_loop (book_indices (en_engine e)) (\<lambda>i _ e. do {
         (book_done, e') \<leftarrow> on_book_with i order_book_flush e;
         Some ((), e')
       }) () e;
     Some e'
   }"

definition matching_engine_flush_in_progress :: "matching_engine_t \<Rightarrow> bool" where
  "matching_engine_flush_in_progress engine =
     (\<exists>i\<in>set (book_indices engine). order_book_flush_in_progress (me_books engine i))"

definition matching_engine_process_flush :: "engine_ctx \<Rightarrow> engine_ctx option" where
  "matching_engine_process_flush e = do {
     e1 \<leftarrow> matching_engine_start_flush e;
     Some (e1\<lparr>en_engine := (en_engine e1)\<lparr>me_order_to_symbol :=
                order_symbol_map_clear (me_order_to_symbol (en_engine e1))\<rparr>\<rparr>)
   }"

definition matching_engine_continue_flush :: "engine_ctx \<Rightarrow> (bool \<times> engine_ctx) option" where
  "matching_engine_continue_flush e = matching_engine_process_flush_iteration e"

definition matching_engine_has_flush_in_progress :: "matching_engine_t \<Rightarrow> bool" where
  "matching_engine_has_flush_in_progress engine = matching_engine_flush_in_progress engine"

definition matching_engine_cancel_client_orders :: "u32 \<Rightarrow> engine_ctx \<Rightarrow> (nat \<times> engine_ctx) option" where
  "matching_engine_cancel_client_orders client_id e =
     book_loop (book_indices (en_engine e)) (\<lambda>i total_cancelled e. do {
       (cancelled, e') \<leftarrow> on_book_with i (order_book_cancel_client_orders client_id) e;
       Some (total_cancelled + cancelled, e')
     }) 0 e"

definition matching_engine_process_message ::
  "input_msg_t \<Rightarrow> u32 \<Rightarrow> u64 \<Rightarrow> engine_ctx \<Rightarrow> engine_ctx option" where
  "matching_engine_process_message msg client_id timestamp e =
     (case msg of
        INPUT_MSG_NEW_ORDER m \<Rightarrow> matching_engine_process_new_order m client_id timestamp e
      | INPUT_MSG_CANCEL m \<Rightarrow> matching_engine_process_cancel_order m e
      | INPUT_MSG_FLUSH \<Rightarrow> matching_engine_process_flush e
      | INPUT_MSG_OTHER _ \<Rightarrow> Some e)"

subsection \<open>Invariant\<close>

text \<open>
  \<open>engine_rep e Q\<close>: book \<open>i\<close> represents the queues \<open>Q i\<close>; the orders of different books
  are disjoint and together they are exactly the allocated slots of the pool, so no order
  is lost; the symbol map leads from a symbol to its book.
\<close>

definition engine_rep :: "engine_ctx \<Rightarrow> (nat \<Rightarrow> queues) \<Rightarrow> bool" where
  "engine_rep e Q \<longleftrightarrow>
     (let eng = en_engine e; n = me_num_books eng in
      n \<le> MAX_SYMBOLS \<and> pool_ok (en_pool e) \<and> length (en_out e) \<le> MAX_OUTPUT_MESSAGES
      \<and> me_pools eng
      \<and> symbol_map_ok (me_symbol_map eng) \<and> sm_count (me_symbol_map eng) = of_nat n
      \<and> order_symbol_map_ok (me_order_to_symbol eng)
      \<and> (\<forall>i<n. book_rep (book_ctx i e) (Q i))
      \<and> (\<forall>i<n. \<forall>j<n. i \<noteq> j \<longrightarrow> set (all_orders (Q i)) \<inter> set (all_orders (Q j)) = {})
      \<and> allocated (en_pool e) = (\<Union>i<n. set (all_orders (Q i)))
      \<and> (\<forall>s b. symbol_ok s \<longrightarrow>
           (symbol_map_lookup (me_symbol_map eng) s = Some b \<longleftrightarrow> (\<exists>i<n. b = int i \<and> ob_symbol (me_books eng i) = s))))"

text \<open>The abstract engine: a book for each known symbol.\<close>

definition abs_engine :: "engine_ctx \<Rightarrow> (nat \<Rightarrow> queues) \<Rightarrow> string \<rightharpoonup> abook" where
  "abs_engine e Q s = map_option (\<lambda>b. abs_book (book_ctx (nat b) e) (Q (nat b)))
     (if symbol_ok s then symbol_map_lookup (me_symbol_map (en_engine e)) s else None)"

lemma engine_repD:
  assumes "engine_rep e Q"
  shows "me_num_books (en_engine e) \<le> MAX_SYMBOLS" "pool_ok (en_pool e)" "length (en_out e) \<le> MAX_OUTPUT_MESSAGES"
    "me_pools (en_engine e)" "symbol_map_ok (me_symbol_map (en_engine e))"
    "sm_count (me_symbol_map (en_engine e)) = of_nat (me_num_books (en_engine e))"
    "order_symbol_map_ok (me_order_to_symbol (en_engine e))"
    "i < me_num_books (en_engine e) \<Longrightarrow> book_rep (book_ctx i e) (Q i)"
    "i < me_num_books (en_engine e) \<Longrightarrow> j < me_num_books (en_engine e) \<Longrightarrow> i \<noteq> j \<Longrightarrow>
       set (all_orders (Q i)) \<inter> set (all_orders (Q j)) = {}"
    "allocated (en_pool e) = (\<Union>i<me_num_books (en_engine e). set (all_orders (Q i)))"
    "symbol_ok s \<Longrightarrow> symbol_map_lookup (me_symbol_map (en_engine e)) s = Some b \<longleftrightarrow>
       (\<exists>i<me_num_books (en_engine e). b = int i \<and> ob_symbol (me_books (en_engine e) i) = s)"
  using assms by (simp_all add: engine_rep_def Let_def)

lemma book_ctx_simps [simp]:
  "cx_book (book_ctx i e) = me_books (en_engine e) i" "cx_pool (book_ctx i e) = en_pool e" "cx_out (book_ctx i e) = en_out e"
  by (simp_all add: book_ctx_def)

lemma put_ctx_simps [simp]:
  "me_books (en_engine (put_ctx i c e)) = (me_books (en_engine e))(i := cx_book c)"
  "en_pool (put_ctx i c e) = cx_pool c" "en_out (put_ctx i c e) = cx_out c"
  "me_num_books (en_engine (put_ctx i c e)) = me_num_books (en_engine e)"
  "me_symbol_map (en_engine (put_ctx i c e)) = me_symbol_map (en_engine e)"
  "me_order_to_symbol (en_engine (put_ctx i c e)) = me_order_to_symbol (en_engine e)"
  "me_pools (en_engine (put_ctx i c e)) = me_pools (en_engine e)"
  "book_ctx i (put_ctx i c e) = c"
  by (simp_all add: put_ctx_def book_ctx_def)

text \<open>A book does not notice changes of the pool that leave its orders alone.\<close>

lemma book_frame:
  assumes rep: "book_rep c qs" and b: "cx_book c' = cx_book c"
    and eq: "\<And>x. x \<in> set (all_orders qs) \<Longrightarrow> p_orders (cx_pool c') x = p_orders (cx_pool c) x"
    and p: "pool_ok (cx_pool c')" "set (all_orders qs) \<subseteq> allocated (cx_pool c')" "length (cx_out c') \<le> MAX_OUTPUT_MESSAGES"
  shows "book_rep c' qs" and "abs_book c' qs = abs_book c qs"
proof -
  let ?h = "p_orders (cx_pool c)" and ?h' = "p_orders (cx_pool c')"
  have ok: "book_ok c qs" using rep by (simp add: book_rep_def)
  have eqd: "?h' x = ?h x" if "x \<in> set (concat (qs d))" for x d
    using eq [of x] that all_orders_side(1) [of qs d] by blast
  note fr = side_rep_frame [OF book_okD(4) [OF ok] eqd]
  have "map_rep ?h' (ob_order_map (cx_book c)) (set (all_orders qs))"
    using book_okD(7) [OF ok] eq by (subst map_rep_cong [of _ _ ?h]) (simp_all add: okey_def loc_of_def)
  then show "book_rep c' qs"
    using rep fr(1) p b unfolding book_rep_def book_ok_def by simp
  show "abs_book c' qs = abs_book c qs" using fr(2) b by (simp add: abs_book_def abs_sides_def fun_eq_iff)
qed

text \<open>
  What one book does to the engine: any operation that keeps the book represented and does
  not touch the orders of others keeps the engine, and changes nothing else in it.
\<close>

lemma engine_step:
  assumes rep: "engine_rep e Q" and i: "i < me_num_books (en_engine e)"
    and c': "book_rep c' qs'" "others_kept (book_ctx i e) (Q i) c' qs'" "ob_symbol (cx_book c') = ob_symbol (me_books (en_engine e) i)"
  shows "engine_rep (put_ctx i c' e) (Q(i := qs'))"
    and "j < me_num_books (en_engine e) \<Longrightarrow> j \<noteq> i \<Longrightarrow>
           abs_book (book_ctx j (put_ctx i c' e)) ((Q(i := qs')) j) = abs_book (book_ctx j e) (Q j)"
    and "abs_engine (put_ctx i c' e) (Q(i := qs')) = (abs_engine e Q)(ob_symbol (me_books (en_engine e) i) \<mapsto> abs_book c' qs')"
proof -
  let ?n = "me_num_books (en_engine e)" and ?e' = "put_ctx i c' e" and ?Q' = "Q(i := qs')"
  have ok': "book_ok c' qs'" using c'(1) by (simp add: book_rep_def)
  have rest: "allocated (cx_pool c') - set (all_orders qs') = allocated (en_pool e) - set (all_orders (Q i))"
    and keep: "\<forall>x\<in>allocated (en_pool e) - set (all_orders (Q i)). p_orders (cx_pool c') x = p_orders (en_pool e) x"
    using c'(2) by (simp_all add: others_kept_def)
  have others: "set (all_orders (Q j)) \<subseteq> allocated (en_pool e) - set (all_orders (Q i))" if "j < ?n" "j \<noteq> i" for j
    using engine_repD(9) [OF rep that(1) i that(2)] that(1) unfolding engine_repD(10) [OF rep] by blast
  have fr: "book_rep (book_ctx j ?e') (?Q' j)" "abs_book (book_ctx j ?e') (?Q' j) = abs_book (book_ctx j e) (Q j)"
    if j: "j < ?n" "j \<noteq> i" for j
  proof -
    have sub: "set (all_orders (Q j)) \<subseteq> allocated (cx_pool c')" using others [OF j] rest by blast
    have eq: "p_orders (cx_pool (book_ctx j ?e')) x = p_orders (cx_pool (book_ctx j e)) x" if "x \<in> set (all_orders (Q j))" for x
      using keep others [OF j] that by auto
    note f = book_frame [OF engine_repD(8) [OF rep j(1)] _ eq]
    show "book_rep (book_ctx j ?e') (?Q' j)" "abs_book (book_ctx j ?e') (?Q' j) = abs_book (book_ctx j e) (Q j)"
      using f j sub book_okD(1,3) [OF ok'] by simp_all
  qed
  show "abs_book (book_ctx j ?e') (?Q' j) = abs_book (book_ctx j e) (Q j)" if "j < ?n" "j \<noteq> i" using fr(2) [OF that] .
  have books: "\<forall>j<?n. book_rep (book_ctx j ?e') (?Q' j)" using fr(1) c'(1) by (metis fun_upd_same put_ctx_simps(8))
  have disj: "set (all_orders (?Q' j)) \<inter> set (all_orders (?Q' k)) = {}" if jk: "j < ?n" "k < ?n" "j \<noteq> k" for j k
  proof -
    have "set (all_orders qs') \<inter> set (all_orders (Q m)) = {}" if "m < ?n" "m \<noteq> i" for m
      using others [OF that] rest by blast
    then show ?thesis using jk engine_repD(9) [OF rep jk] by (cases "j = i"; cases "k = i") auto
  qed
  have "(\<Union>j<?n. set (all_orders (?Q' j))) = set (all_orders qs') \<union> (\<Union>j\<in>{..<?n} - {i}. set (all_orders (Q j)))"
    using i by (auto split: if_splits)
  also have "(\<Union>j\<in>{..<?n} - {i}. set (all_orders (Q j))) = allocated (en_pool e) - set (all_orders (Q i))"
    using others unfolding engine_repD(10) [OF rep] by blast
  also have "set (all_orders qs') \<union> \<dots> = allocated (cx_pool c')"
    unfolding rest [symmetric] using book_okD(6) [OF ok'] by blast
  finally have alloc: "allocated (cx_pool c') = (\<Union>j<?n. set (all_orders (?Q' j)))" ..
  have sym: "ob_symbol (me_books (en_engine ?e') j) = ob_symbol (me_books (en_engine e) j)" for j
    using c'(3) by simp
  show "engine_rep ?e' ?Q'"
    unfolding engine_rep_def Let_def sym
    using engine_repD(1-7,11) [OF rep] books disj alloc book_okD(1,3) [OF ok'] by simp
  let ?s = "ob_symbol (me_books (en_engine e) i)"
  have sok: "symbol_ok ?s" using book_okD(2) [of "book_ctx i e" "Q i"] engine_repD(8) [OF rep i] by (simp add: book_rep_def)
  show "abs_engine ?e' ?Q' = (abs_engine e Q)(?s \<mapsto> abs_book c' qs')"
  proof
    fix t
    show "abs_engine ?e' ?Q' t = ((abs_engine e Q)(?s \<mapsto> abs_book c' qs')) t"
    proof (cases "symbol_ok t \<and> symbol_map_lookup (me_symbol_map (en_engine e)) t \<noteq> None")
      case True
      then obtain b where "symbol_ok t" and b: "symbol_map_lookup (me_symbol_map (en_engine e)) t = Some b" by auto
      with engine_repD(11) [OF rep, of t b] obtain k where k: "k < ?n" "b = int k" "ob_symbol (me_books (en_engine e) k) = t" by blast
      have "symbol_map_lookup (me_symbol_map (en_engine e)) ?s = Some (int i)" using engine_repD(11) [OF rep sok] i by blast
      then have "t = ?s \<longleftrightarrow> k = i" using k(2,3) b by (metis nat_int option.inject)
      with k(2) b fr(2) [OF k(1)] \<open>symbol_ok t\<close> show ?thesis by (simp add: abs_engine_def)
    next
      case False
      then have "t \<noteq> ?s" using engine_repD(11) [OF rep sok, of "int i"] i sok by auto
      with False show ?thesis by (auto simp: abs_engine_def)
    qed
  qed
qed

subsection \<open>Finding or creating a book\<close>

lemma known_book:
  assumes rep: "engine_rep e Q" and s: "symbol_ok s" and kn: "abs_engine e Q s = Some b"
  shows "\<exists>i slot. i < me_num_books (en_engine e) \<and> symbol_map_find (me_symbol_map (en_engine e)) s = Some slot
     \<and> sm_book_index (sm_slots (me_symbol_map (en_engine e)) slot) = int i
     \<and> ob_symbol (me_books (en_engine e) i) = s \<and> b = abs_book (book_ctx i e) (Q i)"
proof -
  from kn s obtain k where k: "symbol_map_lookup (me_symbol_map (en_engine e)) s = Some k" "b = abs_book (book_ctx (nat k) e) (Q (nat k))"
    by (auto simp: abs_engine_def)
  with engine_repD(11) [OF rep s, of k] obtain i where "i < me_num_books (en_engine e)" "k = int i" "ob_symbol (me_books (en_engine e) i) = s"
    by blast
  with k show ?thesis by (auto simp: symbol_map_lookup_def)
qed

lemma get_order_book_known:
  assumes rep: "engine_rep e Q" and s: "symbol_ok s" and kn: "abs_engine e Q s = Some b"
  shows "\<exists>i. matching_engine_get_order_book (en_engine e) s = Some (Some i, en_engine e)
     \<and> i < me_num_books (en_engine e) \<and> ob_symbol (me_books (en_engine e) i) = s \<and> b = abs_book (book_ctx i e) (Q i)"
  using known_book [OF assms] by (auto simp: matching_engine_get_order_book_def asserts)

definition empty_abook :: "string \<Rightarrow> abook" where
  "empty_abook s = \<lparr>ab_symbol = s, ab_side = (\<lambda>_. []), ab_prev = (\<lambda>_. (0, 0)), ab_active = (\<lambda>_. False)\<rparr>"

lemma unknown_symbol:
  assumes "engine_rep e Q" and s: "symbol_ok s" and "abs_engine e Q s = None"
  shows "symbol_map_find (me_symbol_map (en_engine e)) s = None"
  using assms by (simp add: abs_engine_def symbol_map_lookup_def)

lemma get_order_book_limit:
  assumes "engine_rep e Q" and "symbol_ok s" and "abs_engine e Q s = None" and "me_num_books (en_engine e) = MAX_SYMBOLS"
  shows "matching_engine_get_order_book (en_engine e) s = Some (None, en_engine e)"
  using unknown_symbol [OF assms(1-3)] assms(4) by (simp add: matching_engine_get_order_book_def)

lemma order_book_init_fields:
  assumes "symbol_ok s"
  shows "\<exists>b'. order_book_init b s = Some b' \<and> ob_symbol b' = s
     \<and> ob_num_bid_levels b' = 0 \<and> ob_num_ask_levels b' = 0 \<and> ob_order_map b' = order_map_clear (ob_order_map b)
     \<and> (ob_prev_best_bid_price b', ob_prev_best_bid_qty b') = (0, 0) \<and> (ob_prev_best_ask_price b', ob_prev_best_ask_qty b') = (0, 0)
     \<and> \<not> ob_bid_side_ever_active b' \<and> \<not> ob_ask_side_ever_active b' \<and> ob_flush_state b' = zero_flush_state"
  using assms
  by (simp add: order_book_init_def asserts symbol_ok_def copy_until_nul_c_string order_map_init_def order_map_clear_def)

lemma of_nat_u32_inject: "x < 2 ^ 32 \<Longrightarrow> y < 2 ^ 32 \<Longrightarrow> (of_nat x :: u32) = of_nat y \<longleftrightarrow> x = y"
  by (simp add: word_of_nat_eq_iff take_bit_nat_eq_self)

lemma get_order_book_new:
  assumes rep: "engine_rep e Q" and s: "symbol_ok s" and new: "abs_engine e Q s = None"
    and lt: "me_num_books (en_engine e) < MAX_SYMBOLS"
  defines "n \<equiv> me_num_books (en_engine e)" and "Q' \<equiv> Q(me_num_books (en_engine e) := (\<lambda>_. []))"
  shows "\<exists>eng'. matching_engine_get_order_book (en_engine e) s = Some (Some n, eng')
     \<and> engine_rep (e\<lparr>en_engine := eng'\<rparr>) Q' \<and> me_num_books eng' = Suc n
     \<and> ob_symbol (me_books eng' n) = s \<and> me_order_to_symbol eng' = me_order_to_symbol (en_engine e)
     \<and> ob_order_map (me_books eng' n) = order_map_clear (ob_order_map (me_books (en_engine e) n))
     \<and> (\<forall>i<n. me_books eng' i = me_books (en_engine e) i) \<and> \<not> fs_in_progress (ob_flush_state (me_books eng' n))
     \<and> abs_engine (e\<lparr>en_engine := eng'\<rparr>) Q' = (abs_engine e Q)(s \<mapsto> empty_abook s)"
proof -
  let ?eng = "en_engine e" and ?sm = "me_symbol_map (en_engine e)"
  obtain b' where b': "order_book_init (me_books ?eng n) s = Some b'" "ob_symbol b' = s"
     "ob_num_bid_levels b' = 0" "ob_num_ask_levels b' = 0" "ob_order_map b' = order_map_clear (ob_order_map (me_books ?eng n))"
     "(ob_prev_best_bid_price b', ob_prev_best_bid_qty b') = (0, 0)" "(ob_prev_best_ask_price b', ob_prev_best_ask_qty b') = (0, 0)"
     "\<not> ob_bid_side_ever_active b'" "\<not> ob_ask_side_ever_active b'" "ob_flush_state b' = zero_flush_state"
    using order_book_init_fields [OF s] by blast
  have find: "symbol_map_find ?sm s = None" by (rule unknown_symbol [OF rep s new])
  note smok = engine_repD(5) [OF rep]
  let ?live = "sm.live (sm_slots ?sm)"
  have "(of_nat (card ?live) :: u32) = of_nat n"
    using smok engine_repD(6) [OF rep] by (simp add: symbol_map_ok_def n_def)
  moreover have "card ?live < 2 ^ 32" "n < 2 ^ 32" using sm.card_live [of "sm_slots ?sm"] lt by (simp_all add: n_def)
  ultimately have "card ?live = n" by (simp add: of_nat_u32_inject)
  then obtain idx where pl: "sm.place (sm_slots ?sm) s = Some idx"
    using symbol_map_place_room [of ?sm s] lt by (auto simp: n_def)
  define sm' where "sm' = symbol_map_write ?sm s (int n) idx"
  note w = symbol_map_write_ok [OF smok s find pl, where b = "int n", folded sm'_def]
  have ins: "symbol_map_insert ?sm s (int n) = Some (Some idx, sm')"
    using symbol_map_insert_eq [OF smok s find, of "int n"] pl by (simp add: sm'_def)
  define eng' where "eng' = ?eng\<lparr>me_books := (me_books ?eng)(n := b'), me_num_books := Suc n, me_symbol_map := sm'\<rparr>"
  have run: "matching_engine_get_order_book ?eng s = Some (Some n, eng')"
    using find lt b'(1) ins engine_repD(4) [OF rep]
    by (simp add: matching_engine_get_order_book_def asserts n_def eng'_def Let_def)
  let ?e' = "e\<lparr>en_engine := eng'\<rparr>"
  have same: "book_ctx i ?e' = book_ctx i e" "Q' i = Q i" if "i < n" for i
    using that by (simp_all add: book_ctx_def eng'_def Q'_def n_def)
  have newb: "book_rep (book_ctx n ?e') (Q' n)" "abs_book (book_ctx n ?e') (Q' n) = empty_abook s"
  proof -
    note em = book_rep_empty [of "book_ctx n ?e'"]
    have p: "pool_ok (cx_pool (book_ctx n ?e'))" "symbol_ok (ob_symbol (cx_book (book_ctx n ?e')))"
      "length (cx_out (book_ctx n ?e')) \<le> MAX_OUTPUT_MESSAGES" "ob_num_bid_levels (cx_book (book_ctx n ?e')) = 0"
      "ob_num_ask_levels (cx_book (book_ctx n ?e')) = 0" "order_map_ok (ob_order_map (cx_book (book_ctx n ?e')))"
      "order_map_lookup (ob_order_map (cx_book (book_ctx n ?e'))) = Map.empty"
      using b' s engine_repD(2,3) [OF rep] order_map_ok_clear order_map_lookup_clear by (simp_all add: eng'_def fun_eq_iff)
    show "book_rep (book_ctx n ?e') (Q' n)" using em(1) [OF p] by (simp add: Q'_def n_def)
    show "abs_book (book_ctx n ?e') (Q' n) = empty_abook s"
      using em(2) [OF p] b' by (auto simp: Q'_def n_def abs_book_def empty_abook_def eng'_def fun_eq_iff)
  qed
  have nil: "set (all_orders (Q' n)) = {}" by (simp add: Q'_def n_def all_orders_def)
  have lk: "symbol_map_lookup sm' t = Some b \<longleftrightarrow> (\<exists>i<Suc n. b = int i \<and> ob_symbol (me_books eng' i) = t)" if t: "symbol_ok t" for t b
  proof -
    have old: "symbol_map_lookup ?sm t = Some b \<longleftrightarrow> (\<exists>i<n. b = int i \<and> ob_symbol (me_books ?eng i) = t)"
      using engine_repD(11) [OF rep t] by (simp add: n_def)
    have "symbol_map_lookup ?sm s = None" using find by (simp add: symbol_map_lookup_def)
    then have ns: "\<not> (\<exists>i<n. ob_symbol (me_books ?eng i) = s)"
      using engine_repD(11) [OF rep s] by (auto simp: n_def)
    show ?thesis using w(2) [OF t] old ns b'(2) by (cases "t = s") (auto simp: less_Suc_eq eng'_def)
  qed
  have all_n: "(\<forall>i<Suc n. P i) \<longleftrightarrow> (\<forall>i<n. P i) \<and> P n" for P by (auto simp: less_Suc_eq)
  have n': "me_num_books (en_engine ?e') = Suc n" by (simp add: eng'_def)
  have "engine_rep ?e' Q'"
    unfolding engine_rep_def Let_def
  proof (intro conjI)
    show "allocated (en_pool ?e') = (\<Union>i<me_num_books (en_engine ?e'). set (all_orders (Q' i)))"
      using engine_repD(10) [OF rep] nil same(2) by (simp add: eng'_def lessThan_Suc n_def)
    show "\<forall>i<me_num_books (en_engine ?e'). book_rep (book_ctx i ?e') (Q' i)"
      unfolding n' all_n using engine_repD(8) [OF rep, folded n_def] same newb(1) by simp
    show "\<forall>i<me_num_books (en_engine ?e'). \<forall>j<me_num_books (en_engine ?e'). i \<noteq> j \<longrightarrow>
        set (all_orders (Q' i)) \<inter> set (all_orders (Q' j)) = {}"
      unfolding n' all_n using engine_repD(9) [OF rep, folded n_def] same(2) nil by simp
    show "\<forall>t b. symbol_ok t \<longrightarrow> (symbol_map_lookup (me_symbol_map (en_engine ?e')) t = Some b \<longleftrightarrow>
        (\<exists>i<me_num_books (en_engine ?e'). b = int i \<and> ob_symbol (me_books (en_engine ?e') i) = t))"
      using lk by (simp add: eng'_def)
    show "sm_count (me_symbol_map (en_engine ?e')) = of_nat (me_num_books (en_engine ?e'))"
      using engine_repD(6) [OF rep] by (simp add: eng'_def sm'_def symbol_map_write_def n_def)
  qed (use engine_repD(2-4,7) [OF rep] w(1) lt in \<open>simp_all add: eng'_def n_def\<close>)
  moreover have "abs_engine ?e' Q' = (abs_engine e Q)(s \<mapsto> empty_abook s)"
  proof
    fix t
    show "abs_engine ?e' Q' t = ((abs_engine e Q)(s \<mapsto> empty_abook s)) t"
    proof (cases "symbol_ok t")
      case True
      have "nat b < n" if "symbol_map_lookup ?sm t = Some b" for b
        using engine_repD(11) [OF rep True, of b] that by (auto simp: n_def)
      with True w(2) [OF True] same newb(2) show ?thesis
        by (cases "symbol_map_lookup ?sm t") (auto simp: abs_engine_def eng'_def book_ctx_def)
    qed (use s in \<open>auto simp: abs_engine_def\<close>)
  qed
  ultimately show ?thesis using run b'(2,5,10) by (simp add: eng'_def zero_flush_state_def)
qed

end
