(* ===== verification/ME_Engine_Refine.thy ===== *)
theory ME_Engine_Refine
  imports ME_Matching_Engine
begin

text \<open>
  The handlers of the matching engine refine operations on the abstract engine, a map from
  symbols to abstract books: a message changes the book of its symbol the way
  \<open>ME_Book_Spec\<close> says and no other book, on every branch of the handlers.
\<close>

subsection \<open>New orders\<close>

text \<open>
  What an order message needs: it is well formed, its symbol is known or can be added, and
  the book of the symbol can take the order.
\<close>

definition engine_add_pre :: "engine_ctx \<Rightarrow> (nat \<Rightarrow> queues) \<Rightarrow> new_order_msg_t \<Rightarrow> bool" where
  "engine_add_pre e Q msg \<longleftrightarrow> symbol_ok (no_symbol msg) \<and> side_is_valid (no_side msg) \<and> 0 < no_quantity msg
     \<and> valid_ids (no_user_id msg) (no_user_order_id msg)
     \<and> (\<forall>i<me_num_books (en_engine e). ob_symbol (me_books (en_engine e) i) = no_symbol msg \<longrightarrow>
          add_pre (book_ctx i e) (Q i) msg)
     \<and> (abs_engine e Q (no_symbol msg) = None \<longrightarrow> me_num_books (en_engine e) < MAX_SYMBOLS)"

definition book_of :: "(string \<rightharpoonup> abook) \<Rightarrow> string \<Rightarrow> abook" where
  "book_of E s = (case E s of Some b \<Rightarrow> b | None \<Rightarrow> empty_abook s)"

definition tracked :: "engine_ctx \<Rightarrow> u32 \<Rightarrow> u32 \<Rightarrow> string option" where
  "tracked e u i = order_symbol_get (me_order_to_symbol (en_engine e)) (order_key u i)"

definition idle :: "engine_ctx \<Rightarrow> bool" where
  "idle e \<longleftrightarrow> (\<forall>i<me_num_books (en_engine e). \<not> fs_in_progress (ob_flush_state (me_books (en_engine e) i)))"

lemma order_map_room_clear: "order_map_room (order_map_clear m) k"
  unfolding order_map_room_iff by (rule exI [of _ 0]) (simp add: order_map_clear_def)

lemma engine_rep_tracking:
  assumes "engine_rep e Q" and "order_symbol_map_ok m"
  shows "engine_rep (e\<lparr>en_engine := (en_engine e)\<lparr>me_order_to_symbol := m\<rparr>\<rparr>) Q"
    and "abs_engine (e\<lparr>en_engine := (en_engine e)\<lparr>me_order_to_symbol := m\<rparr>\<rparr>) Q = abs_engine e Q"
  using assms by (simp_all add: engine_rep_def abs_engine_def fun_eq_iff Let_def book_ctx_def)

lemma engine_rep_out:
  assumes "engine_rep e Q" and "length out \<le> MAX_OUTPUT_MESSAGES"
  shows "engine_rep (e\<lparr>en_out := out\<rparr>) Q" and "abs_engine (e\<lparr>en_out := out\<rparr>) Q = abs_engine e Q"
proof -
  have b: "book_rep (book_ctx i (e\<lparr>en_out := out\<rparr>)) (Q i)" "abs_book (book_ctx i (e\<lparr>en_out := out\<rparr>)) (Q i) = abs_book (book_ctx i e) (Q i)"
    if "i < me_num_books (en_engine e)" for i
    using book_frame [OF engine_repD(8) [OF assms(1) that], of "book_ctx i (e\<lparr>en_out := out\<rparr>)"] engine_repD(2) [OF assms(1)]
      assms(2) book_okD(6) [of "book_ctx i e" "Q i"] engine_repD(8) [OF assms(1) that] by (simp_all add: book_rep_def)
  then show "engine_rep (e\<lparr>en_out := out\<rparr>) Q" using assms by (simp add: engine_rep_def Let_def)
  show "abs_engine (e\<lparr>en_out := out\<rparr>) Q = abs_engine e Q"
  proof
    fix s
    show "abs_engine (e\<lparr>en_out := out\<rparr>) Q s = abs_engine e Q s"
    proof (cases "symbol_ok s \<and> symbol_map_lookup (me_symbol_map (en_engine e)) s \<noteq> None")
      case True
      then obtain k where "symbol_map_lookup (me_symbol_map (en_engine e)) s = Some k" "nat k < me_num_books (en_engine e)"
        using engine_repD(11) [OF assms(1), of s] by fastforce
      with b(2) [of "nat k"] True show ?thesis by (simp add: abs_engine_def)
    qed (auto simp: abs_engine_def)
  qed
qed

lemma ab_symbol_abs [simp]: "ab_symbol (abs_book c qs) = ob_symbol (cx_book c)"
  by (simp add: abs_book_def)

lemma spec_symbol [simp]:
  "ab_symbol (fst (spec_add b x)) = ab_symbol b" "ab_symbol (fst (spec_cancel b u i)) = ab_symbol b"
  by (simp_all add: spec_add_def spec_match_def spec_cancel_def spec_tob_def split_beta Let_def)

text \<open>The book an order goes to, and the engine after it was found or created.\<close>

lemma get_order_book_ok:
  assumes rep: "engine_rep e Q" and pre: "engine_add_pre e Q msg"
  shows "\<exists>i eng' Q'. matching_engine_get_order_book (en_engine e) (no_symbol msg) = Some (Some i, eng')
     \<and> engine_rep (e\<lparr>en_engine := eng'\<rparr>) Q' \<and> i < me_num_books eng' \<and> ob_symbol (me_books eng' i) = no_symbol msg
     \<and> add_pre (book_ctx i (e\<lparr>en_engine := eng'\<rparr>)) (Q' i) msg
     \<and> abs_book (book_ctx i (e\<lparr>en_engine := eng'\<rparr>)) (Q' i) = book_of (abs_engine e Q) (no_symbol msg)
     \<and> abs_engine (e\<lparr>en_engine := eng'\<rparr>) Q' = (abs_engine e Q)(no_symbol msg \<mapsto> book_of (abs_engine e Q) (no_symbol msg))
     \<and> me_order_to_symbol eng' = me_order_to_symbol (en_engine e) \<and> (idle e \<longrightarrow> idle (e\<lparr>en_engine := eng'\<rparr>))"
proof (cases "abs_engine e Q (no_symbol msg)")
  case (Some b)
  have s: "symbol_ok (no_symbol msg)" using pre by (simp add: engine_add_pre_def)
  from get_order_book_known [OF rep s Some] obtain i where
    i: "matching_engine_get_order_book (en_engine e) (no_symbol msg) = Some (Some i, en_engine e)"
      "i < me_num_books (en_engine e)" "ob_symbol (me_books (en_engine e) i) = no_symbol msg" "b = abs_book (book_ctx i e) (Q i)" by blast
  with pre Some rep show ?thesis
    by (intro exI [of _ i] exI [of _ "en_engine e"] exI [of _ Q]) (simp add: engine_add_pre_def book_of_def fun_upd_idem)
next
  case None
  let ?n = "me_num_books (en_engine e)"
  have s: "symbol_ok (no_symbol msg)" and lt: "?n < MAX_SYMBOLS" using pre None by (simp_all add: engine_add_pre_def)
  from get_order_book_new [OF rep s None lt] obtain eng' where
    g: "matching_engine_get_order_book (en_engine e) (no_symbol msg) = Some (Some ?n, eng')"
      "engine_rep (e\<lparr>en_engine := eng'\<rparr>) (Q(?n := (\<lambda>_. [])))" "me_num_books eng' = Suc ?n"
      "ob_symbol (me_books eng' ?n) = no_symbol msg" "me_order_to_symbol eng' = me_order_to_symbol (en_engine e)"
      "ob_order_map (me_books eng' ?n) = order_map_clear (ob_order_map (me_books (en_engine e) ?n))"
      "\<forall>i<?n. me_books eng' i = me_books (en_engine e) i" "\<not> fs_in_progress (ob_flush_state (me_books eng' ?n))"
      "abs_engine (e\<lparr>en_engine := eng'\<rparr>) (Q(?n := (\<lambda>_. []))) = (abs_engine e Q)(no_symbol msg \<mapsto> empty_abook (no_symbol msg))"
    by blast
  let ?e' = "e\<lparr>en_engine := eng'\<rparr>"
  have "abs_engine ?e' (Q(?n := (\<lambda>_. []))) (no_symbol msg) = Some (empty_abook (no_symbol msg))" using g(9) by simp
  from get_order_book_known [OF g(2) s this] obtain j where
    j: "j < me_num_books eng'" "ob_symbol (me_books eng' j) = no_symbol msg"
      "empty_abook (no_symbol msg) = abs_book (book_ctx j ?e') ((Q(?n := (\<lambda>_. []))) j)" by auto
  have "j = ?n"
    using engine_repD(11) [OF g(2) s, of "int j"] engine_repD(11) [OF g(2) s, of "int ?n"] j g(3,4) by auto
  with j have ab: "abs_book (book_ctx ?n ?e') (\<lambda>_. []) = empty_abook (no_symbol msg)" by simp
  have "add_pre (book_ctx ?n ?e') (\<lambda>_. []) msg"
    using pre unfolding add_pre_def ab
    by (simp add: engine_add_pre_def g(6) order_map_room_clear level_room_def empty_abook_def resting_ids_def)
  with g ab None show ?thesis
    by (intro exI [of _ ?n] exI [of _ eng'] exI [of _ "Q(?n := (\<lambda>_. []))"])
       (auto simp: book_of_def idle_def less_Suc_eq)
qed

lemma tracking_insert:
  assumes "engine_rep e Q" and "valid_ids u i"
  shows "\<exists>ok m'. order_symbol_map_insert (me_order_to_symbol (en_engine e)) (order_key u i) s = Some (ok, m')
     \<and> order_symbol_map_ok m'
     \<and> (\<forall>u' i'. valid_ids u' i' \<longrightarrow> order_symbol_get m' (order_key u' i')
          = (if ok \<and> (u', i') = (u, i) then Some (order_symbol_copy s) else tracked e u' i'))"
proof -
  from order_symbols.ins_get [OF engine_repD(7) [OF assms(1)] order_key_not_free [OF assms(2)], of s] obtain ok m' where
    m: "order_symbol_map_insert (me_order_to_symbol (en_engine e)) (order_key u i) s = Some (ok, m')" "order_symbol_map_ok m'"
    "\<forall>k'. \<not> key_free k' \<longrightarrow> order_symbol_get m' k' = (if ok \<and> k' = order_key u i then Some (order_symbol_copy s)
        else order_symbol_get (me_order_to_symbol (en_engine e)) k')" by blast
  then show ?thesis by (intro exI [of _ ok] exI [of _ m'])
      (auto simp: tracked_def order_key_inject dest: order_key_not_free)
qed

definition tracking_after :: "engine_ctx \<Rightarrow> u32 \<Rightarrow> u32 \<Rightarrow> string \<Rightarrow> engine_ctx \<Rightarrow> bool" where
  "tracking_after e u i s e' \<longleftrightarrow> (\<exists>ok m'. order_symbol_map_insert (me_order_to_symbol (en_engine e)) (order_key u i) s = Some (ok, m') \<and> (\<forall>u' i'. valid_ids u' i' \<longrightarrow>
     tracked e' u' i' = (if ok \<and> (u', i') = (u, i) then Some (order_symbol_copy s) else tracked e u' i')))"

text \<open>The whole handler when the pool has a free slot.\<close>

lemma process_new_order_ok:
  assumes rep: "engine_rep e Q" and pre: "engine_add_pre e Q msg"
    and room: "allocated (en_pool e) \<noteq> {..<MAX_ORDERS_IN_POOL}"
  shows "\<exists>e' Q'. matching_engine_process_new_order msg cid ts e = Some e' \<and> engine_rep e' Q'
     \<and> (let (b, msgs) = spec_add (book_of (abs_engine e Q) (no_symbol msg)) (order_of_msg msg cid ts)
        in abs_engine e' Q' = (abs_engine e Q)(no_symbol msg \<mapsto> b) \<and> en_out e' = emit (en_out e) msgs)
     \<and> tracking_after e (no_user_id msg) (no_user_order_id msg) (no_symbol msg) e' \<and> (idle e \<longrightarrow> idle e')"
proof -
  let ?u = "no_user_id msg" and ?o = "no_user_order_id msg" and ?s = "no_symbol msg"
  from get_order_book_ok [OF rep pre] obtain i eng' Q' where
    g: "matching_engine_get_order_book (en_engine e) ?s = Some (Some i, eng')"
     "engine_rep (e\<lparr>en_engine := eng'\<rparr>) Q'" "i < me_num_books eng'" "ob_symbol (me_books eng' i) = ?s"
     "add_pre (book_ctx i (e\<lparr>en_engine := eng'\<rparr>)) (Q' i) msg"
     "abs_book (book_ctx i (e\<lparr>en_engine := eng'\<rparr>)) (Q' i) = book_of (abs_engine e Q) ?s"
     "abs_engine (e\<lparr>en_engine := eng'\<rparr>) Q' = (abs_engine e Q)(?s \<mapsto> book_of (abs_engine e Q) ?s)"
     "me_order_to_symbol eng' = me_order_to_symbol (en_engine e)" "idle e \<longrightarrow> idle (e\<lparr>en_engine := eng'\<rparr>)" by blast
  have ids: "valid_ids ?u ?o" using pre by (simp add: engine_add_pre_def)
  from tracking_insert [OF g(2) ids, of ?s] obtain ok m' where
    m: "order_symbol_map_insert (me_order_to_symbol eng') (order_key ?u ?o) ?s = Some (ok, m')" "order_symbol_map_ok m'"
     "\<forall>u' i'. valid_ids u' i' \<longrightarrow> order_symbol_get m' (order_key u' i')
          = (if ok \<and> (u', i') = (?u, ?o) then Some (order_symbol_copy ?s) else tracked e u' i')"
    by (auto simp: tracked_def g(8))
  define e1 where "e1 = e\<lparr>en_engine := eng'\<lparr>me_order_to_symbol := m'\<rparr>\<rparr>"
  have e1: "engine_rep e1 Q'" "abs_engine e1 Q' = (abs_engine e Q)(?s \<mapsto> book_of (abs_engine e Q) ?s)"
    using engine_rep_tracking [OF g(2) m(2)] g(7) by (simp_all add: e1_def)
  have c1: "book_ctx i e1 = book_ctx i (e\<lparr>en_engine := eng'\<rparr>)" by (simp add: book_ctx_def e1_def)
  have i1: "i < me_num_books (en_engine e1)" "ob_symbol (me_books (en_engine e1) i) = ?s" "en_pool e1 = en_pool e" "en_out e1 = en_out e"
    using g(3,4) by (simp_all add: e1_def)
  have f1: "allocated (cx_pool (book_ctx i e1)) \<noteq> {..<MAX_ORDERS_IN_POOL}" using room i1(3) by simp
  have p1: "add_pre (book_ctx i e1) (Q' i) msg" unfolding c1 by (rule g(5))
  from order_book_add_order_ok [OF engine_repD(8) [OF e1(1) i1(1)] p1 f1, of cid ts] obtain c' qs' where
    c': "order_book_add_order msg cid ts (book_ctx i e1) = Some c'" "book_rep c' qs'"
     "(abs_book c' qs', cx_out c') = (let (b, msgs) = spec_add (abs_book (book_ctx i e1) (Q' i)) (order_of_msg msg cid ts)
                                        in (b, emit (cx_out (book_ctx i e1)) msgs))"
     "others_kept (book_ctx i e1) (Q' i) c' qs'" "ob_flush_state (cx_book c') = ob_flush_state (cx_book (book_ctx i e1))"
    by blast
  have ab: "abs_book c' qs' = fst (spec_add (book_of (abs_engine e Q) ?s) (order_of_msg msg cid ts))"
    and out: "cx_out c' = emit (en_out e) (snd (spec_add (book_of (abs_engine e Q) ?s) (order_of_msg msg cid ts)))"
    using c'(3) g(6) by (simp_all add: c1 [symmetric] split_beta i1(4))
  have "ab_symbol (abs_book c' qs') = ab_symbol (book_of (abs_engine e Q) ?s)" unfolding ab by simp
  also have "\<dots> = ?s" unfolding g(6) [symmetric] using g(4) by simp
  finally have sym: "ob_symbol (cx_book c') = ob_symbol (me_books (en_engine e1) i)" using i1(2) by simp
  note st = engine_step [OF e1(1) i1(1) c'(2,4) sym]
  have run: "matching_engine_process_new_order msg cid ts e = Some (put_ctx i c' e1)"
    using g(1) m(1) ids c'(1) unfolding e1_def
    by (simp add: matching_engine_process_new_order_def make_order_key_eq on_book_def)
  have "idle (put_ctx i c' e1)" if "idle e"
    using g(9) that c'(5) by (auto simp: idle_def e1_def)
  moreover have "tracking_after e ?u ?o ?s (put_ctx i c' e1)"
    using m(1,3) g(8) unfolding tracking_after_def tracked_def e1_def by (intro exI [of _ ok] exI [of _ m']) (simp add: tracked_def)
  ultimately show ?thesis
    using run st(1,3) e1(2) ab out i1(2)
    by (intro exI [of _ "put_ctx i c' e1"] exI [of _ "Q'(i := qs')"]) (simp add: split_beta)
qed

text \<open>At the limit of 64 symbols an order for a new symbol is acknowledged and dropped.\<close>

lemma en_add_ok: "engine_rep e Q \<Longrightarrow> en_add m e = Some (e\<lparr>en_out := emit (en_out e) [m]\<rparr>)"
  by (simp add: en_add_def output_buffer_add_emit engine_repD(3))

lemma process_new_order_limit:
  assumes rep: "engine_rep e Q" and s: "symbol_ok (no_symbol msg)" and new: "abs_engine e Q (no_symbol msg) = None"
    and lim: "me_num_books (en_engine e) = MAX_SYMBOLS"
  shows "matching_engine_process_new_order msg cid ts e
     = Some (e\<lparr>en_out := emit (en_out e) [ack_of (no_symbol msg) (no_user_id msg) (no_user_order_id msg)]\<rparr>)"
  using get_order_book_limit [OF rep s new lim] make_ack_msg_ok [OF s] en_add_ok [OF rep]
  by (simp add: matching_engine_process_new_order_def ack_of_def)

text \<open>With no free slot in the pool the order leaves no trace but its entry in the tracking map.\<close>

lemma engine_rep_pool:
  assumes rep: "engine_rep e Q" and p: "pool_ok p" "allocated p = allocated (en_pool e)" "p_orders p = p_orders (en_pool e)"
  shows "engine_rep (e\<lparr>en_pool := p\<rparr>) Q" and "abs_engine (e\<lparr>en_pool := p\<rparr>) Q = abs_engine e Q"
proof -
  have b: "book_rep (book_ctx i (e\<lparr>en_pool := p\<rparr>)) (Q i)" "abs_book (book_ctx i (e\<lparr>en_pool := p\<rparr>)) (Q i) = abs_book (book_ctx i e) (Q i)"
    if "i < me_num_books (en_engine e)" for i
    using book_frame [OF engine_repD(8) [OF rep that], of "book_ctx i (e\<lparr>en_pool := p\<rparr>)"] engine_repD(3) [OF rep]
      p book_okD(6) [of "book_ctx i e" "Q i"] engine_repD(8) [OF rep that] by (simp_all add: book_rep_def)
  then show "engine_rep (e\<lparr>en_pool := p\<rparr>) Q" using rep p by (simp add: engine_rep_def Let_def)
  have "abs_engine (e\<lparr>en_pool := p\<rparr>) Q s = abs_engine e Q s" for s
  proof (cases "symbol_ok s \<and> symbol_map_lookup (me_symbol_map (en_engine e)) s \<noteq> None")
    case True
    then obtain k where "symbol_map_lookup (me_symbol_map (en_engine e)) s = Some k" "nat k < me_num_books (en_engine e)"
      using engine_repD(11) [OF rep, of s] by fastforce
    with b(2) [of "nat k"] True show ?thesis by (simp add: abs_engine_def)
  qed (auto simp: abs_engine_def)
  then show "abs_engine (e\<lparr>en_pool := p\<rparr>) Q = abs_engine e Q" ..
qed

lemma process_new_order_full:
  assumes rep: "engine_rep e Q" and pre: "engine_add_pre e Q msg" and full: "allocated (en_pool e) = {..<MAX_ORDERS_IN_POOL}"
  shows "\<exists>e' Q'. matching_engine_process_new_order msg cid ts e = Some e' \<and> engine_rep e' Q'
     \<and> abs_engine e' Q' = (abs_engine e Q)(no_symbol msg \<mapsto> book_of (abs_engine e Q) (no_symbol msg))
     \<and> en_out e' = en_out e \<and> p_allocation_failures (en_pool e') = p_allocation_failures (en_pool e) + 1
     \<and> (idle e \<longrightarrow> idle e')"
proof -
  let ?u = "no_user_id msg" and ?o = "no_user_order_id msg" and ?s = "no_symbol msg"
  from get_order_book_ok [OF rep pre] obtain i eng' Q' where
    g: "matching_engine_get_order_book (en_engine e) ?s = Some (Some i, eng')"
     "engine_rep (e\<lparr>en_engine := eng'\<rparr>) Q'" "i < me_num_books eng'"
     "abs_engine (e\<lparr>en_engine := eng'\<rparr>) Q' = (abs_engine e Q)(?s \<mapsto> book_of (abs_engine e Q) ?s)"
     "idle e \<longrightarrow> idle (e\<lparr>en_engine := eng'\<rparr>)" by blast
  have ids: "valid_ids ?u ?o" using pre by (simp add: engine_add_pre_def)
  from tracking_insert [OF g(2) ids, of ?s] obtain ok m' where
    m: "order_symbol_map_insert (me_order_to_symbol eng') (order_key ?u ?o) ?s = Some (ok, m')" "order_symbol_map_ok m'" by auto
  define e1 where "e1 = e\<lparr>en_engine := eng'\<lparr>me_order_to_symbol := m'\<rparr>\<rparr>"
  have e1: "engine_rep e1 Q'" "abs_engine e1 Q' = (abs_engine e Q)(?s \<mapsto> book_of (abs_engine e Q) ?s)"
    using engine_rep_tracking [OF g(2) m(2)] g(4) by (simp_all add: e1_def)
  let ?p = "(en_pool e)\<lparr>p_allocation_failures := p_allocation_failures (en_pool e) + 1\<rparr>"
  have al: "order_pool_alloc (en_pool e) = Some (None, ?p)"
    using order_pool_alloc_full [OF engine_repD(2) [OF rep] full] .
  have "matching_engine_process_new_order msg cid ts e = Some (e1\<lparr>en_pool := ?p\<rparr>)"
    using g(1) m(1) ids al unfolding e1_def
    by (simp add: matching_engine_process_new_order_def make_order_key_eq on_book_def order_book_add_order_def book_ctx_def put_ctx_def)
  moreover have "engine_rep (e1\<lparr>en_pool := ?p\<rparr>) Q'" "abs_engine (e1\<lparr>en_pool := ?p\<rparr>) Q' = abs_engine e1 Q'"
    using engine_rep_pool [OF e1(1), of ?p] engine_repD(2) [OF rep]
    by (simp_all add: e1_def pool_ok_def allocated_def free_slots_def)
  ultimately show ?thesis using e1(2) by (intro exI [of _ "e1\<lparr>en_pool := ?p\<rparr>"] exI [of _ Q'])
    (use g(5) in \<open>simp add: e1_def idle_def\<close>)
qed

subsection \<open>Cancels\<close>

lemma tracked_slot:
  assumes "valid_ids u i"
  shows "order_symbol_map_find (me_order_to_symbol (en_engine e)) (order_key u i) = None \<longleftrightarrow> tracked e u i = None"
    and "order_symbol_map_find (me_order_to_symbol (en_engine e)) (order_key u i) = Some idx \<Longrightarrow>
           tracked e u i = Some (os_symbol (os_slots (me_order_to_symbol (en_engine e)) idx))"
  by (simp_all add: tracked_def order_symbol_get_def)

lemma process_cancel_order_untracked:
  assumes rep: "engine_rep e Q" and ids: "valid_ids (cm_user_id msg) (cm_user_order_id msg)"
    and no: "tracked e (cm_user_id msg) (cm_user_order_id msg) = None"
  shows "matching_engine_process_cancel_order msg e
     = Some (e\<lparr>en_out := emit (en_out e) [cancel_ack_of ''UNKNOWN'' (cm_user_id msg) (cm_user_order_id msg)]\<rparr>)"
proof -
  have "symbol_ok ''UNKNOWN''" by (simp add: symbol_ok_def c_string_def)
  then show ?thesis
    using ids no tracked_slot(1) [OF ids, of e] en_add_ok [OF rep]
    by (simp add: matching_engine_process_cancel_order_def make_order_key_eq make_cancel_ack_msg_ok cancel_ack_of_def)
qed

text \<open>
  The slots that track an order.  There can be more than one: an insertion takes the first free slot of the probe sequence, also one in front of an older entry of
  the same key.  Removing a key drops the entry a search finds, and leaves the entries of all other keys.
\<close>

definition tracking_entries :: "engine_ctx \<Rightarrow> u32 \<Rightarrow> u32 \<Rightarrow> nat set" where
  "tracking_entries e u i =
     {idx. idx < ORDER_SYMBOL_MAP_SIZE \<and> os_order_key (os_slots (me_order_to_symbol (en_engine e)) idx) = order_key u i}"

definition tracking_less :: "engine_ctx \<Rightarrow> u32 \<Rightarrow> u32 \<Rightarrow> engine_ctx \<Rightarrow> bool" where
  "tracking_less e u i e' \<longleftrightarrow> (\<forall>u' i'. valid_ids u' i' \<and> (u', i') \<noteq> (u, i) \<longrightarrow> tracked e' u' i' = tracked e u' i')
     \<and> (\<exists>idx\<in>tracking_entries e u i. tracking_entries e' u i = tracking_entries e u i - {idx})"

lemma tracked_entries:
  assumes "engine_rep e Q" and "valid_ids u i"
  shows "tracked e u i = None \<longleftrightarrow> tracking_entries e u i = {}"
proof -
  let ?m = "me_order_to_symbol (en_engine e)" and ?k = "order_key u i"
  have k: "\<not> key_free ?k" by (rule order_key_not_free [OF assms(2)])
  have "os.reach (os_slots ?m)" using engine_repD(7) [OF assms(1)] by (simp add: order_symbol_map_ok_def)
  from os.find_None [OF this k] show ?thesis
    by (simp add: tracked_def order_symbol_get_def order_symbol_map_find_eq [OF k] tracking_entries_def)
qed

lemma finite_tracking_entries [simp]: "finite (tracking_entries e u i)"
  by (simp add: tracking_entries_def)

lemma tracking_remove:
  assumes "engine_rep e Q" and "valid_ids u i"
  shows "order_symbol_map_ok (snd (order_symbol_map_remove (me_order_to_symbol (en_engine e)) (order_key u i)))"
    and "valid_ids u' i' \<Longrightarrow> (u', i') \<noteq> (u, i) \<Longrightarrow>
      order_symbol_get (snd (order_symbol_map_remove (me_order_to_symbol (en_engine e)) (order_key u i))) (order_key u' i') = tracked e u' i'"
  using order_symbols.del_get [OF engine_repD(7) [OF assms(1)] order_key_not_free [OF assms(2)]] order_key_not_free [of u' i']
  by (auto simp: tracked_def order_key_inject)

lemma tracking_lessI:
  assumes rep: "engine_rep e Q" and ids: "valid_ids u i"
    and f: "order_symbol_map_find (me_order_to_symbol (en_engine e)) (order_key u i) = Some idx"
    and e': "me_order_to_symbol (en_engine e') = snd (order_symbol_map_remove (me_order_to_symbol (en_engine e)) (order_key u i))"
  shows "tracking_less e u i e'"
proof -
  let ?m = "me_order_to_symbol (en_engine e)" and ?k = "order_key u i"
  have k: "\<not> key_free ?k" by (rule order_key_not_free [OF ids])
  have idx: "idx \<in> tracking_entries e u i"
    using f os.find_key [of "os_slots ?m" ?k idx] os.find_bound [of "os_slots ?m" ?k idx] by (simp add: tracking_entries_def order_symbol_map_find_eq [OF k])
  moreover have "tracking_entries e' u i = tracking_entries e u i - {idx}"
    using k by (auto simp: tracking_entries_def e' order_symbol_map_remove_def f key_free_def)
  ultimately show ?thesis using tracking_remove(2) [OF rep ids] unfolding tracking_less_def tracked_def e' by blast
qed

lemma process_cancel_order_ok:
  assumes rep: "engine_rep e Q" and ids: "valid_ids (cm_user_id msg) (cm_user_order_id msg)"
    and tr: "tracked e (cm_user_id msg) (cm_user_order_id msg) = Some s" and kn: "abs_engine e Q s = Some b"
  shows "\<exists>e' Q'. matching_engine_process_cancel_order msg e = Some e' \<and> engine_rep e' Q'
     \<and> (let (b', msgs) = spec_cancel b (cm_user_id msg) (cm_user_order_id msg)
        in abs_engine e' Q' = (abs_engine e Q)(s \<mapsto> b') \<and> en_out e' = emit (en_out e) msgs)
     \<and> tracking_less e (cm_user_id msg) (cm_user_order_id msg) e' \<and> (idle e \<longrightarrow> idle e')"
proof -
  let ?u = "cm_user_id msg" and ?o = "cm_user_order_id msg"
  have s: "symbol_ok s" using kn by (auto simp: abs_engine_def split: if_splits)
  from tr tracked_slot [OF ids, of e] obtain idx where
    f: "order_symbol_map_find (me_order_to_symbol (en_engine e)) (order_key ?u ?o) = Some idx"
      "os_symbol (os_slots (me_order_to_symbol (en_engine e)) idx) = s" by fastforce
  from known_book [OF rep s kn] obtain i slot where
    i: "i < me_num_books (en_engine e)" "symbol_map_find (me_symbol_map (en_engine e)) s = Some slot"
     "sm_book_index (sm_slots (me_symbol_map (en_engine e)) slot) = int i"
     "ob_symbol (me_books (en_engine e) i) = s" "b = abs_book (book_ctx i e) (Q i)" by blast
  from order_book_cancel_order_ok [OF engine_repD(8) [OF rep i(1)] ids] obtain c' qs' where
    c': "order_book_cancel_order ?u ?o (book_ctx i e) = Some c'" "book_rep c' qs'"
     "(abs_book c' qs', cx_out c') = (let (b, msgs) = spec_cancel (abs_book (book_ctx i e) (Q i)) ?u ?o in (b, emit (cx_out (book_ctx i e)) msgs))"
     "others_kept (book_ctx i e) (Q i) c' qs'" "ob_flush_state (cx_book c') = ob_flush_state (cx_book (book_ctx i e))" by blast
  have ab: "abs_book c' qs' = fst (spec_cancel b ?u ?o)" "cx_out c' = emit (en_out e) (snd (spec_cancel b ?u ?o))"
    using c'(3) i(5) by (simp_all add: split_beta)
  have "ab_symbol (abs_book c' qs') = ab_symbol b" unfolding ab by simp
  then have sym: "ob_symbol (cx_book c') = ob_symbol (me_books (en_engine e) i)" using i(5) by simp
  note st = engine_step [OF rep i(1) c'(2,4) sym]
  define m' where "m' = snd (order_symbol_map_remove (me_order_to_symbol (en_engine e)) (order_key ?u ?o))"
  define e1 where "e1 = put_ctx i c' e"
  define e' where "e' = e1\<lparr>en_engine := (en_engine e1)\<lparr>me_order_to_symbol := m'\<rparr>\<rparr>"
  have run: "matching_engine_process_cancel_order msg e = Some e'"
    using f i(1,2,3) c'(1) ids
    by (simp add: matching_engine_process_cancel_order_def make_order_key_eq on_book_def asserts e'_def e1_def m'_def)
  have "engine_rep e' (Q(i := qs'))" "abs_engine e' (Q(i := qs')) = (abs_engine e Q)(s \<mapsto> fst (spec_cancel b ?u ?o))"
    using engine_rep_tracking [OF st(1), of m'] st(3) tracking_remove(1) [OF rep ids] i(4) ab(1) by (simp_all add: e'_def e1_def m'_def)
  moreover have "tracking_less e ?u ?o e'"
    by (rule tracking_lessI [OF rep ids f(1)]) (simp add: e'_def m'_def)
  moreover have "idle e \<longrightarrow> idle e'" using c'(5) by (simp add: idle_def e'_def e1_def)
  ultimately show ?thesis using run ab(2)
    by (intro exI [of _ e'] exI [of _ "Q(i := qs')"]) (simp add: split_beta e'_def e1_def)
qed

text \<open>A cancel for a tracked symbol that has no book is acknowledged and nothing else changes.\<close>

lemma process_cancel_order_no_book:
  assumes rep: "engine_rep e Q" and ids: "valid_ids (cm_user_id msg) (cm_user_order_id msg)"
    and tr: "tracked e (cm_user_id msg) (cm_user_order_id msg) = Some s" and s: "symbol_ok s" and kn: "abs_engine e Q s = None"
  shows "\<exists>e'. matching_engine_process_cancel_order msg e = Some e' \<and> engine_rep e' Q \<and> abs_engine e' Q = abs_engine e Q
     \<and> en_out e' = emit (en_out e) [cancel_ack_of s (cm_user_id msg) (cm_user_order_id msg)]
     \<and> tracking_less e (cm_user_id msg) (cm_user_order_id msg) e' \<and> (idle e \<longrightarrow> idle e')"
proof -
  let ?u = "cm_user_id msg" and ?o = "cm_user_order_id msg"
  from tr tracked_slot [OF ids, of e] obtain idx where
    f: "order_symbol_map_find (me_order_to_symbol (en_engine e)) (order_key ?u ?o) = Some idx"
      "os_symbol (os_slots (me_order_to_symbol (en_engine e)) idx) = s" by fastforce
  define m' where "m' = snd (order_symbol_map_remove (me_order_to_symbol (en_engine e)) (order_key ?u ?o))"
  define e1 where "e1 = e\<lparr>en_out := emit (en_out e) [cancel_ack_of s ?u ?o]\<rparr>"
  define e' where "e' = e1\<lparr>en_engine := (en_engine e1)\<lparr>me_order_to_symbol := m'\<rparr>\<rparr>"
  have "matching_engine_process_cancel_order msg e = Some e'"
    using f ids unknown_symbol [OF rep s kn] make_cancel_ack_msg_ok [OF s] en_add_ok [OF rep]
    by (simp add: matching_engine_process_cancel_order_def make_order_key_eq e'_def e1_def m'_def cancel_ack_of_def Let_def)
  moreover have "engine_rep e1 Q" "abs_engine e1 Q = abs_engine e Q" unfolding e1_def by (rule engine_rep_out [OF rep length_emit])+
  with engine_rep_tracking [of e1 Q m'] tracking_remove(1) [OF rep ids]
  have "engine_rep e' Q" "abs_engine e' Q = abs_engine e Q" by (simp_all add: e'_def m'_def)
  moreover have "tracking_less e ?u ?o e'"
    by (rule tracking_lessI [OF rep ids f(1)]) (simp add: e'_def e1_def m'_def)
  ultimately show ?thesis by (simp add: e'_def e1_def idle_def)
qed

subsection \<open>Loops over the books\<close>

lemma book_loop_append:
  "book_loop (xs @ [i]) f acc e = do { (acc', e') \<leftarrow> book_loop xs f acc e; f i acc' e' }"
  by (induction xs arbitrary: acc e) (auto simp: split_beta bind_eq_Some_conv split: Option.bind_splits)

text \<open>Two states in which a book and its orders are the same.\<close>

definition same_book :: "queues \<Rightarrow> ctx \<Rightarrow> ctx \<Rightarrow> bool" where
  "same_book qs c c' \<longleftrightarrow> cx_book c' = cx_book c
     \<and> (\<forall>x\<in>set (all_orders qs). p_orders (cx_pool c') x = p_orders (cx_pool c) x)"

text \<open>
  An operation the engine runs on each of its books in turn.  \<open>msgs\<close> are the messages it
  emits, \<open>res\<close> its result, \<open>after\<close> the abstract book it leaves and \<open>post\<close> what else is known of the
  new book; all of them depend on the book and its orders only.
\<close>

locale book_operation =
  fixes op :: "ctx \<Rightarrow> ('r \<times> ctx) option"
    and pre :: "ctx \<Rightarrow> queues \<Rightarrow> bool"
    and msgs :: "ctx \<Rightarrow> queues \<Rightarrow> output_msg_t list"
    and res :: "ctx \<Rightarrow> queues \<Rightarrow> 'r"
    and after :: "ctx \<Rightarrow> queues \<Rightarrow> abook"
    and post :: "ctx \<Rightarrow> queues \<Rightarrow> order_book_t \<Rightarrow> queues \<Rightarrow> bool"
  assumes op_ok: "book_rep c qs \<Longrightarrow> pre c qs \<Longrightarrow>
      \<exists>c' qs'. op c = Some (res c qs, c') \<and> book_rep c' qs' \<and> others_kept c qs c' qs'
        \<and> ob_symbol (cx_book c') = ob_symbol (cx_book c) \<and> cx_out c' = emit (cx_out c) (msgs c qs)
        \<and> abs_book c' qs' = after c qs \<and> post c qs (cx_book c') qs'"
    and frame: "book_rep c qs \<Longrightarrow> pre c qs \<Longrightarrow> same_book qs c c' \<Longrightarrow>
      pre c' qs \<and> msgs c' qs = msgs c qs \<and> res c' qs = res c qs \<and> after c' qs = after c qs
        \<and> post c' qs = post c qs"
begin

lemma loop:
  assumes rep: "engine_rep e Q" and pre: "\<forall>i<me_num_books (en_engine e). pre (book_ctx i e) (Q i)"
    and k: "k \<le> me_num_books (en_engine e)"
  shows "\<exists>e' Q'. book_loop [0..<k] (\<lambda>i acc e. do { (r, e') \<leftarrow> on_book_with i op e; Some (comb acc r, e') }) acc e
        = Some (fold (\<lambda>i acc. comb acc (res (book_ctx i e) (Q i))) [0..<k] acc, e')
     \<and> engine_rep e' Q' \<and> (\<forall>i. k \<le> i \<and> i < me_num_books (en_engine e) \<longrightarrow> same_book (Q i) (book_ctx i e) (book_ctx i e') \<and> Q' i = Q i)
     \<and> (\<forall>i<k. abs_book (book_ctx i e') (Q' i) = after (book_ctx i e) (Q i) \<and> post (book_ctx i e) (Q i) (me_books (en_engine e') i) (Q' i))
     \<and> en_out e' = emit (en_out e) (concat (map (\<lambda>i. msgs (book_ctx i e) (Q i)) [0..<k]))
     \<and> me_symbol_map (en_engine e') = me_symbol_map (en_engine e) \<and> me_num_books (en_engine e') = me_num_books (en_engine e)
     \<and> me_order_to_symbol (en_engine e') = me_order_to_symbol (en_engine e)"
  using k
proof (induction k)
  case 0
  with rep engine_repD(3) [OF rep] show ?case by (intro exI [of _ e] exI [of _ Q]) (simp add: same_book_def)
next
  case (Suc k)
  let ?n = "me_num_books (en_engine e)" and ?f = "\<lambda>i acc e. do { (r, e') \<leftarrow> on_book_with i op e; Some (comb acc r, e') }"
  let ?m = "\<lambda>i. msgs (book_ctx i e) (Q i)" and ?acc = "fold (\<lambda>i acc. comb acc (res (book_ctx i e) (Q i))) [0..<k] acc"
  from Suc obtain e1 Q1 where e1: "book_loop [0..<k] ?f acc e = Some (?acc, e1)" "engine_rep e1 Q1"
     "\<And>i. k \<le> i \<Longrightarrow> i < ?n \<Longrightarrow> same_book (Q i) (book_ctx i e) (book_ctx i e1)" "\<And>i. k \<le> i \<Longrightarrow> i < ?n \<Longrightarrow> Q1 i = Q i"
     "\<And>i. i < k \<Longrightarrow> abs_book (book_ctx i e1) (Q1 i) = after (book_ctx i e) (Q i) \<and> post (book_ctx i e) (Q i) (me_books (en_engine e1) i) (Q1 i)"
     "en_out e1 = emit (en_out e) (concat (map ?m [0..<k]))" "me_symbol_map (en_engine e1) = me_symbol_map (en_engine e)"
     "me_num_books (en_engine e1) = ?n" "me_order_to_symbol (en_engine e1) = me_order_to_symbol (en_engine e)" by auto
  have kn: "k < ?n" "k < me_num_books (en_engine e1)" using Suc.prems e1(8) by simp_all
  have repk: "book_rep (book_ctx k e) (Q k)" and rep1: "book_rep (book_ctx k e1) (Q k)"
    using engine_repD(8) [OF rep kn(1)] engine_repD(8) [OF e1(2) kn(2)] e1(4) kn(1) by simp_all
  have prek: "pre (book_ctx k e) (Q k)" using pre kn(1) by blast
  note fr = frame [OF repk prek e1(3) [OF order_refl kn(1)]]
  from op_ok [OF rep1] fr obtain c' qs' where
    c': "op (book_ctx k e1) = Some (res (book_ctx k e) (Q k), c')" "book_rep c' qs'" "others_kept (book_ctx k e1) (Q k) c' qs'"
      "ob_symbol (cx_book c') = ob_symbol (me_books (en_engine e1) k)" "cx_out c' = emit (en_out e1) (?m k)"
      "abs_book c' qs' = after (book_ctx k e) (Q k)" "post (book_ctx k e) (Q k) (cx_book c') qs'" by auto
  define Q2 where "Q2 = Q1(k := qs')"
  let ?e' = "put_ctx k c' e1"
  have ok1: "others_kept (book_ctx k e1) (Q1 k) c' qs'" using c'(3) e1(4) kn(1) by simp
  note st = engine_step [OF e1(2) kn(2) c'(2) ok1 c'(4), folded Q2_def]
  have "book_loop [0..<Suc k] ?f acc e = Some (comb ?acc (res (book_ctx k e) (Q k)), ?e')"
    using e1(1) c'(1) by (simp add: book_loop_append on_book_with_def)
  moreover have "same_book (Q i) (book_ctx i e) (book_ctx i ?e') \<and> Q2 i = Q i" if i: "Suc k \<le> i" "i < ?n" for i
  proof -
    have ki: "k \<le> i" "i \<noteq> k" "i < me_num_books (en_engine e1)" using i e1(8) by simp_all
    have "set (all_orders (Q i)) \<subseteq> allocated (en_pool e1) - set (all_orders (Q k))"
      using engine_repD(9) [OF e1(2) ki(3) kn(2) ki(2)] e1(4) [OF ki(1) i(2)] e1(4) [OF order_refl kn(1)] ki(3)
      unfolding engine_repD(10) [OF e1(2)] by auto
    then have "\<forall>x\<in>set (all_orders (Q i)). p_orders (cx_pool c') x = p_orders (en_pool e1) x"
      using c'(3) by (auto simp: others_kept_def)
    with e1(3,4) [OF ki(1) i(2)] ki(2) show ?thesis by (simp add: same_book_def Q2_def)
  qed
  moreover have "abs_book (book_ctx i ?e') (Q2 i) = after (book_ctx i e) (Q i) \<and> post (book_ctx i e) (Q i) (me_books (en_engine ?e') i) (Q2 i)"
    if "i < Suc k" for i
    using that e1(5) [of i] st(2) [of i] c'(6,7) kn(2) by (cases "i = k") (auto simp: Q2_def)
  moreover have "en_out ?e' = emit (en_out e) (concat (map ?m [0..<Suc k]))" using c'(5) e1(6) by simp
  ultimately show ?case using st(1) e1(7-9) by (intro exI [of _ ?e'] exI [of _ Q2]) simp
qed

end

end
