(* ===== verification/ME_Engine_Flush.thy ===== *)
theory ME_Engine_Flush
  imports ME_Engine_Refine
begin

text \<open>
  The operations of the engine that walk over all its books: cancelling the orders of a
  client, the iterative flush, and destruction.  The first two are instances of
  \<open>book_operation\<close>.
\<close>

subsection \<open>Cancelling the orders of a client\<close>

lemma all_orders_sides: "x \<in> set (concat (qs d)) \<Longrightarrow> x \<in> set (all_orders qs)"
  by (cases d) (simp_all add: all_orders_def)

lemma same_book_abs:
  assumes "book_rep c qs" and "same_book qs c c'"
  shows "abs_book c' qs = abs_book c qs"
proof -
  have ok: "book_ok c qs" using assms(1) by (simp add: book_rep_def)
  have eq: "p_orders (cx_pool c') x = p_orders (cx_pool c) x" if "x \<in> set (concat (qs d))" for x d
    using assms(2) all_orders_sides [of x qs d] that by (simp add: same_book_def)
  from side_rep_frame(2) [OF book_okD(4) [OF ok] eq] assms(2)
  show ?thesis by (simp add: abs_book_def abs_sides_def same_book_def fun_eq_iff)
qed

lemma client_keys_cong: "(\<And>x. x \<in> set xs \<Longrightarrow> h' x = h x) \<Longrightarrow> client_keys h' cid xs = client_keys h cid xs"
  by (induction xs) (auto simp: client_keys_def)

lemma same_book_keys:
  assumes "same_book qs c c'"
  shows "scan_keys c' qs cid = scan_keys c qs cid"
proof -
  have "p_orders (cx_pool c') x = p_orders (cx_pool c) x" if "x \<in> set (scanned (qs True) @ scanned (qs False))" for x
    using assms that scanned_subset [of "qs True"] scanned_subset [of "qs False"] by (auto simp: same_book_def all_orders_def)
  then show ?thesis unfolding scan_keys_def by (rule client_keys_cong)
qed

lemma spec_cancels_symbol [simp]: "ab_symbol (fst (spec_cancels b ks)) = ab_symbol b"
  by (induction ks arbitrary: b) (auto simp: split_beta)

interpretation client_cancel: book_operation "order_book_cancel_client_orders cid" "\<lambda>c qs. True"
  "\<lambda>c qs. snd (spec_cancels (abs_book c qs) (scan_keys c qs cid))" "\<lambda>c qs. length (scan_keys c qs cid)"
  "\<lambda>c qs. fst (spec_cancels (abs_book c qs) (scan_keys c qs cid))" "\<lambda>c qs b' qs'. ob_flush_state b' = ob_flush_state (cx_book c)"
proof unfold_locales
  fix c qs
  assume rep: "book_rep c qs"
  from order_book_cancel_client_orders_ok [OF rep, of cid] obtain c' qs' where
    c': "order_book_cancel_client_orders cid c = Some (length (scan_keys c qs cid), c')" "book_rep c' qs'" "others_kept c qs c' qs'"
     "abs_book c' qs' = fst (spec_cancels (abs_book c qs) (scan_keys c qs cid))"
     "cx_out c' = emit (cx_out c) (snd (spec_cancels (abs_book c qs) (scan_keys c qs cid)))"
     "ob_flush_state (cx_book c') = ob_flush_state (cx_book c)"
    by (auto simp: split_beta)
  have "ab_symbol (abs_book c' qs') = ab_symbol (abs_book c qs)" unfolding c'(4) by simp
  then have "ob_symbol (cx_book c') = ob_symbol (cx_book c)" by simp
  with c' show "\<exists>c' qs'. order_book_cancel_client_orders cid c = Some (length (scan_keys c qs cid), c') \<and> book_rep c' qs'
      \<and> others_kept c qs c' qs' \<and> ob_symbol (cx_book c') = ob_symbol (cx_book c)
      \<and> cx_out c' = emit (cx_out c) (snd (spec_cancels (abs_book c qs) (scan_keys c qs cid)))
      \<and> abs_book c' qs' = fst (spec_cancels (abs_book c qs) (scan_keys c qs cid))
      \<and> ob_flush_state (cx_book c') = ob_flush_state (cx_book c)"
    by blast
qed (simp_all add: same_book_abs same_book_keys same_book_def [THEN iffD1])

lemma book_indices_rep: "engine_rep e Q \<Longrightarrow> book_indices (en_engine e) = [0..<me_num_books (en_engine e)]"
  by (simp add: book_indices_def engine_repD(1) min_absorb1)

lemma no_flush_idle: "engine_rep e Q \<Longrightarrow> \<not> matching_engine_has_flush_in_progress (en_engine e) \<longleftrightarrow> idle e"
  by (auto simp: matching_engine_has_flush_in_progress_def matching_engine_flush_in_progress_def book_indices_rep
      idle_def order_book_flush_in_progress_def)

lemma cancel_client_orders_ok:
  fixes cid :: u32
  assumes rep: "engine_rep e Q"
  defines "n \<equiv> me_num_books (en_engine e)" and "keys \<equiv> (\<lambda>i. scan_keys (book_ctx i e) (Q i) cid)"
  shows "\<exists>e' Q'. matching_engine_cancel_client_orders cid e = Some (sum_list (map (\<lambda>i. length (keys i)) [0..<n]), e')
     \<and> engine_rep e' Q' \<and> me_num_books (en_engine e') = n
     \<and> me_symbol_map (en_engine e') = me_symbol_map (en_engine e) \<and> (idle e \<longrightarrow> idle e')
     \<and> me_order_to_symbol (en_engine e') = me_order_to_symbol (en_engine e)
     \<and> (\<forall>i<n. abs_book (book_ctx i e') (Q' i) = fst (spec_cancels (abs_book (book_ctx i e) (Q i)) (keys i)))
     \<and> en_out e' = emit (en_out e) (concat (map (\<lambda>i. snd (spec_cancels (abs_book (book_ctx i e) (Q i)) (keys i))) [0..<n]))"
proof -
  have fold: "fold (\<lambda>i acc. acc + length (keys i)) xs a = a + sum_list (map (\<lambda>i. length (keys i)) xs)" for xs a
    by (induction xs arbitrary: a) auto
  have nn: "n \<le> me_num_books (en_engine e)" by (simp add: n_def)
  from client_cancel.loop [OF rep _ nn, where cid = cid and comb = "(+)" and acc = 0, folded keys_def]
  obtain e' Q' where "book_loop [0..<n] (\<lambda>i acc e. do { (r, e') \<leftarrow> on_book_with i (order_book_cancel_client_orders cid) e; Some (acc + r, e') }) 0 e
        = Some (fold (\<lambda>i acc. acc + length (keys i)) [0..<n] 0, e')"
     "engine_rep e' Q'" "\<forall>i<n. abs_book (book_ctx i e') (Q' i) = fst (spec_cancels (abs_book (book_ctx i e) (Q i)) (keys i))"
     "en_out e' = emit (en_out e) (concat (map (\<lambda>i. snd (spec_cancels (abs_book (book_ctx i e) (Q i)) (keys i))) [0..<n]))"
     "me_num_books (en_engine e') = n" "me_symbol_map (en_engine e') = me_symbol_map (en_engine e)"
     "me_order_to_symbol (en_engine e') = me_order_to_symbol (en_engine e)"
     "\<forall>i<n. ob_flush_state (me_books (en_engine e') i) = ob_flush_state (me_books (en_engine e) i)"
    unfolding keys_def n_def book_ctx_simps by blast
  moreover from this(5,8) have "idle e \<longrightarrow> idle e'" by (simp add: idle_def n_def)
  ultimately show ?thesis
    unfolding matching_engine_cancel_client_orders_def book_indices_rep [OF rep] n_def [symmetric] fold by auto
qed

subsection \<open>Flush\<close>

definition left_in_side :: "nat list list \<Rightarrow> nat \<Rightarrow> order_ptr \<Rightarrow> nat list" where
  "left_in_side qd lev cur = (case cur of None \<Rightarrow> concat (drop lev qd)
     | Some x \<Rightarrow> dropWhile (\<lambda>y. y \<noteq> x) (qd ! lev) @ concat (drop (Suc lev) qd))"

text \<open>The orders a flush has still to acknowledge.\<close>

definition flush_left :: "flush_state_t \<Rightarrow> queues \<Rightarrow> nat list" where
  "flush_left st qs =
     (if \<not> fs_in_progress st then all_orders qs
      else if fs_bids_done st then left_in_side (qs False) (fs_current_ask_level st) (fs_current_order st)
      else left_in_side (qs True) (fs_current_bid_level st) (fs_current_order st) @ concat (qs False))"

lemma flush_pos_left:
  assumes "flush_pos qd lev cur rest" and "distinct (concat qd)"
  shows "left_in_side qd lev cur = rest"
  using assms(1) unfolding flush_pos_def
proof (elim disjE exE conjE)
  fix as x bs
  assume a: "lev < length qd" "cur = Some x" "qd ! lev = as @ x # bs" "rest = x # bs @ concat (drop (Suc lev) qd)"
  have "distinct (qd ! lev)" using assms(2) a(1) concat_split [of lev qd] by (simp add: distinct_append)
  then have "dropWhile (\<lambda>y. y \<noteq> x) (as @ x # bs) = x # bs" using a(3) by (subst dropWhile_append2) auto
  with a show ?thesis by (simp add: left_in_side_def)
qed (simp add: left_in_side_def)

lemma flush_rest_left:
  assumes "flush_rest c qs rest" and "distinct (all_orders qs)"
  shows "flush_left (ob_flush_state (cx_book c)) qs = rest"
proof -
  have "distinct (concat (qs True))" "distinct (concat (qs False))" using assms(2) by (simp_all add: all_orders_def)
  with assms(1) flush_pos_left show ?thesis
    by (auto simp: flush_rest_def flush_left_def Let_def split: if_splits)
qed

definition flush_ready :: "ctx \<Rightarrow> queues \<Rightarrow> bool" where
  "flush_ready c qs \<longleftrightarrow> small_levels qs \<and> flush_rest c qs (flush_left (ob_flush_state (cx_book c)) qs)"

definition flush_last :: "ctx \<Rightarrow> queues \<Rightarrow> bool" where
  "flush_last c qs \<longleftrightarrow> length (flush_left (ob_flush_state (cx_book c)) qs) < FLUSH_BATCH_SIZE"

definition flush_acks :: "ctx \<Rightarrow> queues \<Rightarrow> output_msg_t list" where
  "flush_acks c qs = ack_list (ob_symbol (cx_book c)) (p_orders (cx_pool c))
      (take FLUSH_BATCH_SIZE (flush_left (ob_flush_state (cx_book c)) qs))
     @ (if flush_last c qs then snd (spec_clear (abs_book c qs)) else [])"

definition flush_after :: "ctx \<Rightarrow> queues \<Rightarrow> abook" where
  "flush_after c qs = (if flush_last c qs then fst (spec_clear (abs_book c qs)) else abs_book c qs)"

definition flush_post :: "ctx \<Rightarrow> queues \<Rightarrow> order_book_t \<Rightarrow> queues \<Rightarrow> bool" where
  "flush_post c qs b' qs' \<longleftrightarrow>
     (if flush_last c qs then qs' = (\<lambda>_. []) \<and> \<not> fs_in_progress (ob_flush_state b')
      else qs' = qs \<and> fs_in_progress (ob_flush_state b')
        \<and> (\<forall>c'. cx_book c' = b' \<longrightarrow> flush_rest c' qs (drop FLUSH_BATCH_SIZE (flush_left (ob_flush_state (cx_book c)) qs))))"

lemma flush_rest_cong: "cx_book c' = cx_book c \<Longrightarrow> flush_rest c' qs rest = flush_rest c qs rest"
  by (simp add: flush_rest_def)

lemma left_in_side_sub: "flush_pos qd lev cur rest \<Longrightarrow> set rest \<subseteq> set (concat qd)"
  unfolding flush_pos_def
proof (elim disjE exE conjE)
  fix as x bs
  assume "lev < length qd" "qd ! lev = as @ x # bs" "rest = x # bs @ concat (drop (Suc lev) qd)"
  then show ?thesis using concat_split [of lev qd] by auto
qed (auto dest: in_set_dropD)

lemma flush_rest_sub:
  assumes "flush_rest c qs rest"
  shows "set rest \<subseteq> set (all_orders qs)"
proof -
  have l: "set r \<subseteq> set (all_orders qs)" if "flush_pos (qs d) lev cur r" for d lev cur r
    using left_in_side_sub [OF that] all_orders_sides by fastforce
  have "set (concat (qs False)) \<subseteq> set (all_orders qs)" by (simp add: all_orders_def)
  moreover from assms consider "rest = all_orders qs" | d lev cur where "flush_pos (qs d) lev cur rest"
    | lev cur restb where "flush_pos (qs True) lev cur restb" "rest = restb @ concat (qs False)"
    by (auto simp: flush_rest_def Let_def split: if_splits)
  then show ?thesis
  proof cases
    case 3
    with l [OF 3(1)] calculation show ?thesis by simp
  qed (use l in simp_all)
qed

lemma spec_clear_symbol [simp]: "ab_symbol (fst (spec_clear b)) = ab_symbol b"
  by (simp add: spec_clear_def)

lemma flush_unfinished: "order_book_flush c = Some (False, c') \<Longrightarrow> fs_in_progress (ob_flush_state (cx_book c'))"
  unfolding order_book_flush_def Let_def
  by (auto simp: bind_eq_Some_conv flush_start_def split: if_splits)

interpretation flush_op: book_operation order_book_flush flush_ready flush_acks flush_last flush_after flush_post
proof unfold_locales
  fix c qs
  assume rep: "book_rep c qs" and ready: "flush_ready c qs"
  let ?left = "flush_left (ob_flush_state (cx_book c)) qs"
  have sm: "small_levels qs" and fr: "flush_rest c qs ?left" using ready by (simp_all add: flush_ready_def)
  show "\<exists>c' qs'. order_book_flush c = Some (flush_last c qs, c') \<and> book_rep c' qs' \<and> others_kept c qs c' qs'
      \<and> ob_symbol (cx_book c') = ob_symbol (cx_book c) \<and> cx_out c' = emit (cx_out c) (flush_acks c qs)
      \<and> abs_book c' qs' = flush_after c qs \<and> flush_post c qs (cx_book c') qs'"
  proof (cases "flush_last c qs")
    case True
    then have "length ?left < FLUSH_BATCH_SIZE" by (simp add: flush_last_def)
    from order_book_flush_last [OF rep fr sm this] obtain c' where
      c': "order_book_flush c = Some (True, c')" "book_rep c' (\<lambda>_. [])" "abs_book c' (\<lambda>_. []) = fst (spec_clear (abs_book c qs))"
       "others_kept c qs c' (\<lambda>_. [])" "\<not> fs_in_progress (ob_flush_state (cx_book c'))"
       "cx_out c' = emit (cx_out c) (ack_list (ob_symbol (cx_book c)) (p_orders (cx_pool c)) ?left @ snd (spec_clear (abs_book c qs)))"
      by blast
    have "ab_symbol (abs_book c' (\<lambda>_. [])) = ab_symbol (abs_book c qs)" unfolding c'(3) by simp
    then have "ob_symbol (cx_book c') = ob_symbol (cx_book c)" by simp
    with c' True \<open>length ?left < FLUSH_BATCH_SIZE\<close> show ?thesis
      by (intro exI [of _ c'] exI [of _ "\<lambda>_. []"]) (simp add: flush_acks_def flush_after_def flush_post_def)
  next
    case False
    then have "FLUSH_BATCH_SIZE \<le> length ?left" by (simp add: flush_last_def)
    from order_book_flush_more [OF rep fr this] obtain c' where
      c': "order_book_flush c = Some (False, c')" "book_rep c' qs" "abs_book c' qs = abs_book c qs" "cx_pool c' = cx_pool c"
       "flush_rest c' qs (drop FLUSH_BATCH_SIZE ?left)"
       "cx_out c' = emit (cx_out c) (ack_list (ob_symbol (cx_book c)) (p_orders (cx_pool c)) (take FLUSH_BATCH_SIZE ?left))"
      by blast
    have "ab_symbol (abs_book c' qs) = ab_symbol (abs_book c qs)" unfolding c'(3) ..
    then have "ob_symbol (cx_book c') = ob_symbol (cx_book c)" by simp
    moreover have "flush_post c qs (cx_book c') qs"
    proof -
      have "flush_rest c2 qs (drop FLUSH_BATCH_SIZE ?left)" if "cx_book c2 = cx_book c'" for c2
        unfolding flush_rest_cong [OF that] by (rule c'(5))
      with False flush_unfinished [OF c'(1)] show ?thesis by (simp add: flush_post_def)
    qed
    ultimately show ?thesis using c'(1-4,6) False
      by (intro exI [of _ c'] exI [of _ qs]) (simp add: flush_acks_def flush_after_def others_kept_def)
  qed
next
  fix c qs c'
  assume rep: "book_rep c qs" and ready: "flush_ready c qs" and same: "same_book qs c c'"
  have b: "cx_book c' = cx_book c" and ab: "abs_book c' qs = abs_book c qs"
    using same same_book_abs [OF rep same] by (simp_all add: same_book_def)
  have "p_orders (cx_pool c') x = p_orders (cx_pool c) x" if "x \<in> set (flush_left (ob_flush_state (cx_book c)) qs)" for x
    using same flush_rest_sub [of c qs] ready that unfolding same_book_def flush_ready_def by blast
  then have acks: "ack_list s (p_orders (cx_pool c')) (take k (flush_left (ob_flush_state (cx_book c)) qs))
      = ack_list s (p_orders (cx_pool c)) (take k (flush_left (ob_flush_state (cx_book c)) qs))" for s k
    by (auto simp: ack_list_def dest: in_set_takeD)
  have last: "flush_last c' qs = flush_last c qs" by (simp add: flush_last_def b)
  show "flush_ready c' qs \<and> flush_acks c' qs = flush_acks c qs \<and> flush_last c' qs = flush_last c qs
      \<and> flush_after c' qs = flush_after c qs \<and> flush_post c' qs = flush_post c qs"
    using ready flush_rest_cong [OF b]
    by (simp add: flush_ready_def flush_acks_def flush_after_def flush_post_def fun_eq_iff b ab acks last)
qed

text \<open>Continuing: a book with no flush in progress is skipped.\<close>

definition flush_step :: "ctx \<Rightarrow> (bool \<times> ctx) option" where
  "flush_step c = (if order_book_flush_in_progress (cx_book c) then order_book_flush c else Some (True, c))"

definition going :: "ctx \<Rightarrow> bool" where
  "going c = order_book_flush_in_progress (cx_book c)"

interpretation flush_cont: book_operation flush_step "\<lambda>c qs. going c \<longrightarrow> flush_ready c qs"
  "\<lambda>c qs. if going c then flush_acks c qs else []" "\<lambda>c qs. going c \<longrightarrow> flush_last c qs"
  "\<lambda>c qs. if going c then flush_after c qs else abs_book c qs"
  "\<lambda>c qs b' qs'. if going c then flush_post c qs b' qs' else qs' = qs \<and> b' = cx_book c"
proof unfold_locales
  fix c qs
  assume rep: "book_rep c qs" and ready: "going c \<longrightarrow> flush_ready c qs"
  have len: "length (cx_out c) \<le> MAX_OUTPUT_MESSAGES" using rep by (simp add: book_rep_def book_ok_def)
  show "\<exists>c' qs'. flush_step c = Some (going c \<longrightarrow> flush_last c qs, c') \<and> book_rep c' qs' \<and> others_kept c qs c' qs'
      \<and> ob_symbol (cx_book c') = ob_symbol (cx_book c) \<and> cx_out c' = emit (cx_out c) (if going c then flush_acks c qs else [])
      \<and> abs_book c' qs' = (if going c then flush_after c qs else abs_book c qs)
      \<and> (if going c then flush_post c qs (cx_book c') qs' else qs' = qs \<and> cx_book c' = cx_book c)"
  proof (cases "going c")
    case True
    with flush_op.op_ok [OF rep] ready show ?thesis unfolding flush_step_def going_def by simp
  next
    case False
    with rep len show ?thesis
      by (intro exI [of _ c] exI [of _ qs]) (simp add: flush_step_def going_def others_kept_def)
  qed
next
  fix c qs c'
  assume rep: "book_rep c qs" and ready: "going c \<longrightarrow> flush_ready c qs" and same: "same_book qs c c'"
  have b: "cx_book c' = cx_book c" using same by (simp add: same_book_def)
  then have g: "going c' = going c" by (simp add: going_def)
  from flush_op.frame [OF rep _ same] ready same_book_abs [OF rep same]
  show "(going c' \<longrightarrow> flush_ready c' qs) \<and> (if going c' then flush_acks c' qs else []) = (if going c then flush_acks c qs else [])
    \<and> (going c' \<longrightarrow> flush_last c' qs) = (going c \<longrightarrow> flush_last c qs)
    \<and> (if going c' then flush_after c' qs else abs_book c' qs) = (if going c then flush_after c qs else abs_book c qs)
    \<and> (\<lambda>b' qs'. if going c' then flush_post c' qs b' qs' else qs' = qs \<and> b' = cx_book c')
      = (\<lambda>b' qs'. if going c then flush_post c qs b' qs' else qs' = qs \<and> b' = cx_book c)"
    unfolding g b by (cases "going c") simp_all
qed

lemma put_ctx_same [simp]: "put_ctx i (book_ctx i e) e = e"
  by (simp add: put_ctx_def book_ctx_def)

lemma flush_iteration_steps:
  "matching_engine_process_flush_iteration e = book_loop (book_indices (en_engine e))
     (\<lambda>i acc e. do { (r, e') \<leftarrow> on_book_with i flush_step e; Some ((if \<not> r then False else acc), e') }) True e"
proof -
  have "(\<lambda>i all_done e. if order_book_flush_in_progress (me_books (en_engine e) i) then do {
         (book_done, e') \<leftarrow> on_book_with i order_book_flush e;
         Some (if \<not> book_done then False else all_done, e')
       } else Some (all_done, e))
      = (\<lambda>i acc e. do { (r, e') \<leftarrow> on_book_with i flush_step e; Some ((if \<not> r then False else acc), e') })"
    by (intro ext) (simp add: on_book_with_def flush_step_def)
  then show ?thesis unfolding matching_engine_process_flush_iteration_def by simp
qed

text \<open>
  The engine while it flushes: every book is either empty or has a flush in progress that
  has at most \<open>m\<close> orders left to acknowledge.
\<close>

definition flushing :: "engine_ctx \<Rightarrow> (nat \<Rightarrow> queues) \<Rightarrow> nat \<Rightarrow> bool" where
  "flushing e Q m \<longleftrightarrow> engine_rep e Q \<and> (\<forall>i<me_num_books (en_engine e).
     if going (book_ctx i e) then flush_ready (book_ctx i e) (Q i)
       \<and> length (flush_left (ob_flush_state (me_books (en_engine e) i)) (Q i)) \<le> m
     else Q i = (\<lambda>_. []))"

lemma flushing_drain: "flushing e Q m \<Longrightarrow> flushing (e\<lparr>en_out := []\<rparr>) Q m"
proof -
  have "flush_ready (book_ctx i (e\<lparr>en_out := []\<rparr>)) qs = flush_ready (book_ctx i e) qs" for i qs
    by (simp add: flush_ready_def flush_rest_def)
  then show "flushing e Q m \<Longrightarrow> flushing (e\<lparr>en_out := []\<rparr>) Q m"
    using engine_rep_out(1) [of e Q "[]"] by (simp add: flushing_def going_def)
qed

text \<open>One batch on a book leaves it empty or with a batch fewer to go.\<close>

lemma flush_post_going:
  assumes rep: "book_rep c qs" and ready: "flush_ready c qs" and len: "length (flush_left (ob_flush_state (cx_book c)) qs) \<le> m"
    and post: "flush_post c qs (cx_book c') qs'"
  shows "if going c' then flush_ready c' qs' \<and> length (flush_left (ob_flush_state (cx_book c')) qs') \<le> m - FLUSH_BATCH_SIZE
           else qs' = (\<lambda>_. [])"
    and "m < FLUSH_BATCH_SIZE \<Longrightarrow> \<not> going c'"
proof -
  have d: "distinct (all_orders qs)" using rep by (simp add: book_rep_def book_ok_def)
  show "if going c' then flush_ready c' qs' \<and> length (flush_left (ob_flush_state (cx_book c')) qs') \<le> m - FLUSH_BATCH_SIZE
           else qs' = (\<lambda>_. [])"
  proof (cases "flush_last c qs")
    case True
    with post show ?thesis by (simp add: flush_post_def going_def order_book_flush_in_progress_def)
  next
    case False
    let ?r = "drop FLUSH_BATCH_SIZE (flush_left (ob_flush_state (cx_book c)) qs)"
    from False post have p: "qs' = qs" "fs_in_progress (ob_flush_state (cx_book c'))" "flush_rest c' qs ?r"
      unfolding flush_post_def by (simp_all only: if_False refl simp_thms)
    from flush_rest_left [OF p(3) d] p ready len show ?thesis
      by (simp add: going_def order_book_flush_in_progress_def flush_ready_def)
  qed
  show "\<not> going c'" if "m < FLUSH_BATCH_SIZE"
  proof -
    have "flush_last c qs" using len that unfolding flush_last_def by linarith
    with post show ?thesis by (simp add: flush_post_def going_def order_book_flush_in_progress_def)
  qed
qed

lemma idle_going: "idle e \<longleftrightarrow> (\<forall>i<me_num_books (en_engine e). \<not> going (book_ctx i e))"
  by (simp add: idle_def going_def order_book_flush_in_progress_def)

lemma continue_flush_ok:
  assumes fl: "flushing e Q m"
  shows "\<exists>b e' Q'. matching_engine_continue_flush e = Some (b, e') \<and> flushing e' Q' (m - FLUSH_BATCH_SIZE)
     \<and> (m < FLUSH_BATCH_SIZE \<longrightarrow> b \<and> idle e') \<and> me_num_books (en_engine e') = me_num_books (en_engine e)
     \<and> me_symbol_map (en_engine e') = me_symbol_map (en_engine e) \<and> me_order_to_symbol (en_engine e') = me_order_to_symbol (en_engine e)"
proof -
  let ?n = "me_num_books (en_engine e)" and ?c = "\<lambda>i. book_ctx i e"
  have rep: "engine_rep e Q" using fl by (simp add: flushing_def)
  have ready: "going (?c i) \<longrightarrow> flush_ready (?c i) (Q i) \<and> length (flush_left (ob_flush_state (cx_book (?c i))) (Q i)) \<le> m"
    and nil: "\<not> going (?c i) \<longrightarrow> Q i = (\<lambda>_. [])" if "i < ?n" for i
    using fl that unfolding flushing_def by (auto split: if_splits)
  have pre: "\<forall>i<?n. going (?c i) \<longrightarrow> flush_ready (?c i) (Q i)" using ready by blast
  let ?done = "\<lambda>i. going (?c i) \<longrightarrow> flush_last (?c i) (Q i)"
  from flush_cont.loop [OF rep pre order_refl, of "\<lambda>acc r. if \<not> r then False else acc" True] obtain e' Q' where
    l: "book_loop [0..<?n] (\<lambda>i acc e. do { (r, e') \<leftarrow> on_book_with i flush_step e; Some ((if \<not> r then False else acc), e') }) True e
        = Some (fold (\<lambda>i acc. if \<not> ?done i then False else acc) [0..<?n] True, e')" "engine_rep e' Q'"
     "\<forall>i<?n. if going (?c i) then flush_post (?c i) (Q i) (me_books (en_engine e') i) (Q' i)
        else Q' i = Q i \<and> me_books (en_engine e') i = cx_book (?c i)"
     "me_symbol_map (en_engine e') = me_symbol_map (en_engine e)" "me_num_books (en_engine e') = ?n"
     "me_order_to_symbol (en_engine e') = me_order_to_symbol (en_engine e)"
    by blast
  have run: "matching_engine_continue_flush e = Some (fold (\<lambda>i acc. if \<not> ?done i then False else acc) [0..<?n] True, e')"
    unfolding matching_engine_continue_flush_def flush_iteration_steps book_indices_rep [OF rep] by (rule l(1))
  have all: "fold (\<lambda>i acc. if \<not> ?done i then False else acc) is a \<longleftrightarrow> a \<and> (\<forall>i\<in>set is. ?done i)" for "is" a
    by (induction "is" arbitrary: a) auto
  have step: "(if going (book_ctx i e') then flush_ready (book_ctx i e') (Q' i)
        \<and> length (flush_left (ob_flush_state (me_books (en_engine e') i)) (Q' i)) \<le> m - FLUSH_BATCH_SIZE
       else Q' i = (\<lambda>_. [])) \<and> (m < FLUSH_BATCH_SIZE \<longrightarrow> \<not> going (book_ctx i e'))" if i: "i < ?n" for i
  proof (cases "going (?c i)")
    case True
    with l(3) i have post: "flush_post (?c i) (Q i) (cx_book (book_ctx i e')) (Q' i)" by simp
    have r: "flush_ready (?c i) (Q i)" "length (flush_left (ob_flush_state (cx_book (?c i))) (Q i)) \<le> m"
      using ready [OF i] True by blast+
    from flush_post_going [OF engine_repD(8) [OF rep i] r post] show ?thesis by (auto split: if_splits)
  next
    case False
    with l(3) i nil [OF i] show ?thesis by (simp add: going_def)
  qed
  have "flushing e' Q' (m - FLUSH_BATCH_SIZE)" "m < FLUSH_BATCH_SIZE \<longrightarrow> idle e'"
    using step l(2,5) by (simp_all add: flushing_def idle_going)
  moreover have "?done i" if "m < FLUSH_BATCH_SIZE" "i < ?n" for i
    using ready [OF that(2)] that(1) by (auto simp: flush_last_def)
  then have "m < FLUSH_BATCH_SIZE \<longrightarrow> fold (\<lambda>i acc. if \<not> ?done i then False else acc) [0..<?n] True" unfolding all by simp
  ultimately show ?thesis using run l(4,5,6) by blast
qed

text \<open>Starting a flush on an idle engine: every book does its first batch.\<close>

lemma length_all_orders: "book_ok c qs \<Longrightarrow> length (all_orders qs) \<le> MAX_ORDERS_IN_POOL"
proof -
  assume ok: "book_ok c qs"
  have "card (set (all_orders qs)) \<le> card (allocated (cx_pool c))"
    by (intro card_mono pool.used_finite book_okD(1,6) [OF ok])
  also have "\<dots> \<le> MAX_ORDERS_IN_POOL" by (rule pool.card_used [OF book_okD(1) [OF ok]])
  finally show ?thesis using distinct_card [OF book_okD(5) [OF ok]] by simp
qed

lemma process_flush_ok:
  assumes rep: "engine_rep e Q" and idle: "idle e" and small: "\<forall>i<me_num_books (en_engine e). small_levels (Q i)"
  shows "\<exists>e' Q'. matching_engine_process_flush e = Some e' \<and> flushing e' Q' (MAX_ORDERS_IN_POOL - FLUSH_BATCH_SIZE)
     \<and> me_num_books (en_engine e') = me_num_books (en_engine e) \<and> me_symbol_map (en_engine e') = me_symbol_map (en_engine e)
     \<and> en_out e' = emit (en_out e) (concat (map (\<lambda>i. flush_acks (book_ctx i e) (Q i)) [0..<me_num_books (en_engine e)]))
     \<and> (\<forall>u i. tracked e' u i = None)"
proof -
  let ?n = "me_num_books (en_engine e)" and ?c = "\<lambda>i. book_ctx i e"
  have left: "flush_left (ob_flush_state (cx_book (?c i))) (Q i) = all_orders (Q i)" if "i < ?n" for i
    using idle that by (simp add: idle_def flush_left_def)
  have ready: "\<forall>i<?n. flush_ready (?c i) (Q i)"
    using small idle left by (simp add: flush_ready_def flush_rest_def idle_def)
  have pre: "\<forall>i<?n. flush_ready (?c i) (Q i)" using ready by blast
  from flush_op.loop [OF rep pre order_refl, of "\<lambda>acc r. ()" "()"] obtain e1 Q' where
    l: "book_loop [0..<?n] (\<lambda>i acc e. do { (r, e') \<leftarrow> on_book_with i order_book_flush e; Some ((), e') }) () e = Some ((), e1)"
     "engine_rep e1 Q'" "\<forall>i<?n. flush_post (?c i) (Q i) (me_books (en_engine e1) i) (Q' i)"
     "en_out e1 = emit (en_out e) (concat (map (\<lambda>i. flush_acks (?c i) (Q i)) [0..<?n]))"
     "me_symbol_map (en_engine e1) = me_symbol_map (en_engine e)" "me_num_books (en_engine e1) = ?n" by auto
  define m' where "m' = order_symbol_map_clear (me_order_to_symbol (en_engine e1))"
  define e' where "e' = e1\<lparr>en_engine := (en_engine e1)\<lparr>me_order_to_symbol := m'\<rparr>\<rparr>"
  have run: "matching_engine_process_flush e = Some e'"
    unfolding matching_engine_process_flush_def matching_engine_start_flush_def book_indices_rep [OF rep] using l(1)
    by (simp add: e'_def m'_def)
  have rep': "engine_rep e' Q'"
    using engine_rep_tracking(1) [OF l(2), of m'] order_symbol_map_clear_ok(1) by (simp add: e'_def m'_def)
  have e': "me_books (en_engine e') = me_books (en_engine e1)" "me_num_books (en_engine e') = ?n" "en_out e' = en_out e1"
    "me_symbol_map (en_engine e') = me_symbol_map (en_engine e)" using l(5,6) by (simp_all add: e'_def)
  have "if going (book_ctx i e') then flush_ready (book_ctx i e') (Q' i)
       \<and> length (flush_left (ob_flush_state (me_books (en_engine e') i)) (Q' i)) \<le> MAX_ORDERS_IN_POOL - FLUSH_BATCH_SIZE
     else Q' i = (\<lambda>_. [])" if i: "i < ?n" for i
  proof -
    have ok: "book_ok (?c i) (Q i)" using engine_repD(8) [OF rep i] by (simp add: book_rep_def)
    have len: "length (flush_left (ob_flush_state (cx_book (?c i))) (Q i)) \<le> MAX_ORDERS_IN_POOL"
      using left [OF i] length_all_orders [OF ok] by simp
    have post: "flush_post (?c i) (Q i) (cx_book (book_ctx i e')) (Q' i)" using l(3) i e'(1) by simp
    have r: "flush_ready (?c i) (Q i)" using ready i by blast
    from flush_post_going(1) [OF engine_repD(8) [OF rep i] r len post] show ?thesis by (auto split: if_splits)
  qed
  with rep' have "flushing e' Q' (MAX_ORDERS_IN_POOL - FLUSH_BATCH_SIZE)" unfolding flushing_def e'(2) by blast
  moreover have "tracked e' u i = None" for u i
    using order_symbol_map_clear_ok(3) by (simp add: tracked_def e'_def m'_def)
  moreover have "en_out e' = emit (en_out e) (concat (map (\<lambda>i. flush_acks (?c i) (Q i)) [0..<?n]))" using e'(3) l(4) by simp
  ultimately show ?thesis using run e'(2,4) by blast
qed

text \<open>
  A flush ends: after \<^verbatim>\<open>matching_engine_process_flush\<close>, two calls of
  \<^verbatim>\<open>matching_engine_continue_flush\<close> suffice, because the pool holds at most two batches of
  orders.  Between the calls the output buffer is drained.
\<close>

lemma flushing_idle:
  assumes fl: "flushing e Q m" and idle: "idle e"
  shows "allocated (en_pool e) = {}" and "abs_engine e Q s = Some b \<Longrightarrow> ab_side b = (\<lambda>_. [])"
proof -
  have rep: "engine_rep e Q" and nil: "\<forall>i<me_num_books (en_engine e). Q i = (\<lambda>_. [])"
    using fl idle by (auto simp: flushing_def idle_going)
  then show "allocated (en_pool e) = {}" using engine_repD(10) [OF rep] by (simp add: all_orders_def)
  assume s: "abs_engine e Q s = Some b"
  then have "symbol_ok s" by (auto simp: abs_engine_def split: if_splits)
  from known_book [OF rep this s] obtain i where i: "i < me_num_books (en_engine e)" "b = abs_book (book_ctx i e) (Q i)" by blast
  with nil show "ab_side b = (\<lambda>_. [])" by (simp add: abs_book_def abs_sides_def abs_side_def fun_eq_iff)
qed

lemma known_symbols:
  "me_symbol_map (en_engine e') = me_symbol_map (en_engine e) \<Longrightarrow> dom (abs_engine e' Q') = dom (abs_engine e Q)"
  by (auto simp: abs_engine_def dom_def)

lemma flush_terminates:
  assumes rep: "engine_rep e Q" and idle: "idle e" and small: "\<forall>i<me_num_books (en_engine e). small_levels (Q i)"
  shows "\<exists>e1 b2 e2 e3 Q3. matching_engine_process_flush e = Some e1
     \<and> matching_engine_continue_flush (e1\<lparr>en_out := []\<rparr>) = Some (b2, e2)
     \<and> matching_engine_continue_flush (e2\<lparr>en_out := []\<rparr>) = Some (True, e3)
     \<and> engine_rep e3 Q3 \<and> \<not> matching_engine_has_flush_in_progress (en_engine e3) \<and> allocated (en_pool e3) = {}
     \<and> dom (abs_engine e3 Q3) = dom (abs_engine e Q)
     \<and> (\<forall>s b. abs_engine e3 Q3 s = Some b \<longrightarrow> ab_side b = (\<lambda>_. []))"
proof -
  from process_flush_ok [OF assms] obtain e1 Q1 where
    e1: "matching_engine_process_flush e = Some e1" "flushing e1 Q1 4096" "me_symbol_map (en_engine e1) = me_symbol_map (en_engine e)"
    by auto
  from continue_flush_ok [OF flushing_drain [OF e1(2)]] obtain b2 e2 Q2 where
    e2: "matching_engine_continue_flush (e1\<lparr>en_out := []\<rparr>) = Some (b2, e2)" "flushing e2 Q2 0" "me_symbol_map (en_engine e2) = me_symbol_map (en_engine e1)"
    by auto
  from continue_flush_ok [OF flushing_drain [OF e2(2)]] obtain e3 Q3 where
    e3: "matching_engine_continue_flush (e2\<lparr>en_out := []\<rparr>) = Some (True, e3)" "flushing e3 Q3 0" "idle e3"
      "me_symbol_map (en_engine e3) = me_symbol_map (en_engine e2)" by auto
  have rep3: "engine_rep e3 Q3" using e3(2) by (simp add: flushing_def)
  have "\<not> matching_engine_has_flush_in_progress (en_engine e3)"
    using e3(3) no_flush_idle [OF rep3] by simp
  with e1 e2 e3 rep3 flushing_idle [OF e3(2,3)] known_symbols [of e3 e Q3 Q] show ?thesis by simp blast
qed

subsection \<open>Initialisation and destruction\<close>

lemma matching_engine_init_ok:
  fixes eng :: matching_engine_t
  assumes "pool_ok pool" and "allocated pool = {}"
  defines "e \<equiv> \<lparr>en_engine = matching_engine_init eng, en_pool = pool, en_out = []\<rparr>"
  shows "engine_rep e Q" and "abs_engine e Q = Map.empty" and "idle e"
proof -
  show "engine_rep e Q"
    using assms(1,2) symbol_map_init_ok order_symbol_map_clear_ok(2)
    by (simp add: engine_rep_def e_def matching_engine_init_def symbol_map_init_def)
  show "abs_engine e Q = Map.empty"
    using symbol_map_init_ok(2) by (auto simp: abs_engine_def e_def matching_engine_init_def fun_eq_iff)
  show "idle e" by (simp add: idle_def e_def matching_engine_init_def)
qed

text \<open>Destroying the engine gives every order back to the pool.\<close>

lemma destroy_loop:
  assumes rep: "engine_rep e Q" and small: "\<forall>i<me_num_books (en_engine e). small_levels (Q i)" and k: "k \<le> me_num_books (en_engine e)"
  shows "\<exists>e'. book_loop [0..<k] (\<lambda>i _ e. do {
         (book', pool') \<leftarrow> order_book_destroy (me_books (en_engine e) i) (en_pool e);
         Some ((), put_ctx i \<lparr>cx_book = book', cx_pool = pool', cx_out = en_out e\<rparr> e)
       }) () e = Some ((), e')
     \<and> pool_ok (en_pool e') \<and> p_orders (en_pool e') = p_orders (en_pool e)
     \<and> allocated (en_pool e') = (\<Union>i\<in>{k..<me_num_books (en_engine e)}. set (all_orders (Q i)))
     \<and> (\<forall>i\<ge>k. me_books (en_engine e') i = me_books (en_engine e) i) \<and> en_out e' = en_out e"
  using k
proof (induction k)
  case 0
  with engine_repD(2,10) [OF rep] show ?case by (simp add: atLeast0LessThan)
next
  case (Suc k)
  let ?n = "me_num_books (en_engine e)" and ?D = "\<lambda>k. \<Union>i\<in>{k..<me_num_books (en_engine e)}. set (all_orders (Q i))"
  let ?f = "\<lambda>i _ e. do {
         (book', pool') \<leftarrow> order_book_destroy (me_books (en_engine e) i) (en_pool e);
         Some ((), put_ctx i \<lparr>cx_book = book', cx_pool = pool', cx_out = en_out e\<rparr> e)
       }"
  from Suc obtain e1 where e1: "book_loop [0..<k] ?f () e = Some ((), e1)" "pool_ok (en_pool e1)"
    "p_orders (en_pool e1) = p_orders (en_pool e)" "allocated (en_pool e1) = ?D k"
    "\<forall>i\<ge>k. me_books (en_engine e1) i = me_books (en_engine e) i" "en_out e1 = en_out e" by auto
  have kn: "k < ?n" using Suc.prems by simp
  have split: "{k..<?n} = insert k {Suc k..<?n}" using kn by auto
  have "book_rep (book_ctx k e1) (Q k)"
    using e1(3-6) engine_repD(3) [OF rep] e1(2) kn
    by (intro book_frame(1) [OF engine_repD(8) [OF rep kn]]) auto
  then have ok: "book_ok (book_ctx k e1) (Q k)" by (simp add: book_rep_def)
  from order_book_destroy_ok [OF ok] small kn obtain b' pool' where
    d: "order_book_destroy (me_books (en_engine e1) k) (en_pool e1) = Some (b', pool')" "pool_ok pool'"
     "allocated pool' = allocated (en_pool e1) - set (all_orders (Q k))" "p_orders pool' = p_orders (en_pool e1)" by auto
  have "set (all_orders (Q i)) \<inter> set (all_orders (Q k)) = {}" if "i \<in> {Suc k..<?n}" for i
    using that kn by (intro engine_repD(9) [OF rep]) auto
  then have "allocated pool' = ?D (Suc k)" unfolding d(3) e1(4) split by blast
  with e1 d show ?case by (simp add: book_loop_append)
qed

lemma matching_engine_destroy_ok:
  assumes rep: "engine_rep e Q" and small: "\<forall>i<me_num_books (en_engine e). small_levels (Q i)"
  shows "\<exists>e'. matching_engine_destroy e = Some e' \<and> pool_ok (en_pool e') \<and> allocated (en_pool e') = {}
     \<and> \<not> me_pools (en_engine e') \<and> en_out e' = en_out e"
proof -
  from destroy_loop [OF rep small order_refl] obtain e1 where
    "book_loop [0..<me_num_books (en_engine e)] (\<lambda>i _ e. do {
         (book', pool') \<leftarrow> order_book_destroy (me_books (en_engine e) i) (en_pool e);
         Some ((), put_ctx i \<lparr>cx_book = book', cx_pool = pool', cx_out = en_out e\<rparr> e)
       }) () e = Some ((), e1)" "pool_ok (en_pool e1)" "allocated (en_pool e1) = {}" "en_out e1 = en_out e" by auto
  then show ?thesis unfolding matching_engine_destroy_def book_indices_rep [OF rep] by simp
qed

end
