(* ===== verification/ME_Engine_Run.thy ===== *)
theory ME_Engine_Run
  imports ME_Engine_Flush
begin

text \<open>
  Runs of the matching engine.  \<open>engine_run f e\<close>: the state \<open>e\<close> is reached from
  \<open>matching_engine_init\<close> by messages, client disconnects, continued flushes and drains of the
  output buffer; \<open>f\<close> says whether a flush was begun and not yet seen to be finished.
  In these runs nothing but the continuation happens while a flush is going on; the processor thread
  (\<^verbatim>\<open>src/threading/processor.c\<close>) keeps to this only when the flush is the last message of its batch.

  The messages are those the engine can take (\<open>admissible\<close>, which only reads the state):
  valid identifiers and symbol, no second resting order with the identifiers of a resting one, and
  room in the fixed tables.  Invalid identifiers and a full array of price levels or order map end in an assertion of the source;
  a second order with the identifiers of a resting one does not: it rests beside the first one, and the order map leads to one of them only.
\<close>

subsection \<open>Which messages the engine can take\<close>

definition book_takes :: "order_book_t \<Rightarrow> new_order_msg_t \<Rightarrow> bool" where
  "book_takes book msg =
     (let d = (no_side msg = SIDE_BUY); key = order_key (no_user_id msg) (no_user_order_id msg) in
      order_map_get (ob_order_map book) key = Some None \<and> order_map_room (ob_order_map book) key
      \<and> (get_num d book < MAX_PRICE_LEVELS
         \<or> find_price_level (get_levels d book) (get_num d book) (no_price msg) d \<noteq> Some (-1)))"

definition takes_new_order :: "engine_ctx \<Rightarrow> new_order_msg_t \<Rightarrow> bool" where
  "takes_new_order e msg =
     (symbol_ok (no_symbol msg) \<and> side_is_valid (no_side msg) \<and> 0 < no_quantity msg
      \<and> valid_ids (no_user_id msg) (no_user_order_id msg)
      \<and> (case symbol_map_lookup (me_symbol_map (en_engine e)) (no_symbol msg) of
           None \<Rightarrow> True
         | Some i \<Rightarrow> no_price msg = 0 \<or> book_takes (me_books (en_engine e) (nat i)) msg))"

fun admissible :: "engine_ctx \<Rightarrow> input_msg_t \<Rightarrow> bool" where
  "admissible e (INPUT_MSG_NEW_ORDER msg) = takes_new_order e msg"
| "admissible e (INPUT_MSG_CANCEL msg) = valid_ids (cm_user_id msg) (cm_user_order_id msg)"
| "admissible e INPUT_MSG_FLUSH = (p_free_count (en_pool e) > 0)"
| "admissible e (INPUT_MSG_OTHER _) = True"

lemma order_map_get_resting:
  assumes rep: "book_rep c qs" and ids: "valid_ids u i"
  shows "order_map_get (ob_order_map (cx_book c)) (order_key u i) = Some None \<longleftrightarrow> \<not> resting_ids (abs_book c qs) u i"
proof -
  have ok: "book_ok c qs" using rep by (simp add: book_rep_def)
  note mr = book_okD(7) [OF ok, unfolded map_rep_def]
  have "order_map_get (ob_order_map (cx_book c)) (order_key u i) = Some (order_map_lookup (ob_order_map (cx_book c)) (order_key u i))"
    using order_map.get_alpha mr order_key_not_free [OF ids] by blast
  moreover have "order_map_lookup (ob_order_map (cx_book c)) (order_key u i) = None \<longleftrightarrow> \<not> resting_ids (abs_book c qs) u i"
  proof -
    let ?l = "order_map_lookup (ob_order_map (cx_book c)) (order_key u i)"
    have "(\<exists>loc. ?l = Some loc) \<longleftrightarrow> (\<exists>x\<in>set (all_orders qs). order_key u i = okey (p_orders (cx_pool c)) x)"
      using mr by blast
    also have "\<dots> \<longleftrightarrow> resting_ids (abs_book c qs) u i"
      unfolding resting_ids_orders [OF ok] okey_def order_key_inject by blast
    finally show ?thesis by (cases ?l) simp_all
  qed
  ultimately show ?thesis by simp
qed

lemma level_room_found:
  assumes rep: "book_rep c qs"
    and room: "get_num d (cx_book c) < MAX_PRICE_LEVELS
        \<or> find_price_level (get_levels d (cx_book c)) (get_num d (cx_book c)) p d \<noteq> Some (-1)"
  shows "level_room d p (abs_book c qs)"
proof -
  let ?lv = "get_levels d (cx_book c)" and ?n = "get_num d (cx_book c)"
  have ok: "book_ok c qs" using rep by (simp add: book_rep_def)
  note facts = abs_sides_facts [OF ok, where d = d]
  have srt: "levels_sorted d (map l_price (arr_list ?lv ?n))" using facts(2,4) by simp
  from find_price_level_correct [OF facts(5) srt, of p] room
  consider "?n < MAX_PRICE_LEVELS" | j where "j < ?n" "l_price (?lv j) = p" by auto
  then show ?thesis
  proof cases
    case 1
    then show ?thesis using facts(1) by (simp add: level_room_def abs_book_def)
  next
    case (2 j)
    then have "p \<in> set (map l_price (arr_list ?lv ?n))" by (force simp: in_set_conv_nth)
    then show ?thesis using facts(2) by (simp add: level_room_def abs_book_def prices_def)
  qed
qed

lemma book_takes_add_pre:
  assumes "book_rep c qs" and "side_is_valid (no_side msg)" and "0 < no_quantity msg"
    and "valid_ids (no_user_id msg) (no_user_order_id msg)"
    and "no_price msg = 0 \<or> book_takes (cx_book c) msg"
  shows "add_pre c qs msg"
  using assms order_map_get_resting [OF assms(1,4)] level_room_found [OF assms(1)]
  by (auto simp: add_pre_def book_takes_def Let_def)

lemma takes_engine_add_pre:
  assumes rep: "engine_rep e Q" and t: "takes_new_order e msg"
    and room: "abs_engine e Q (no_symbol msg) = None \<Longrightarrow> me_num_books (en_engine e) < MAX_SYMBOLS"
  shows "engine_add_pre e Q msg"
proof -
  have s: "symbol_ok (no_symbol msg)" using t by (simp add: takes_new_order_def)
  have "add_pre (book_ctx i e) (Q i) msg"
    if i: "i < me_num_books (en_engine e)" "ob_symbol (me_books (en_engine e) i) = no_symbol msg" for i
  proof -
    have "symbol_map_lookup (me_symbol_map (en_engine e)) (no_symbol msg) = Some (int i)"
      using engine_repD(11) [OF rep s, of "int i"] i by blast
    with t book_takes_add_pre [OF engine_repD(8) [OF rep i(1)], of msg] show ?thesis
      by (auto simp: takes_new_order_def)
  qed
  with t room show ?thesis by (simp add: engine_add_pre_def takes_new_order_def)
qed

subsection \<open>The symbols in the tracking table\<close>

definition symbols_ok :: "order_symbol_map_t \<Rightarrow> bool" where
  "symbols_ok m \<longleftrightarrow> (\<forall>i. \<not> key_free (os_order_key (os_slots m i)) \<longrightarrow> symbol_ok (os_symbol (os_slots m i)))"

definition tracks_symbols :: "engine_ctx \<Rightarrow> bool" where
  "tracks_symbols e \<longleftrightarrow> symbols_ok (me_order_to_symbol (en_engine e))"

lemma symbol_ok_copy: "symbol_ok s \<Longrightarrow> symbol_ok (order_symbol_copy s)"
  by (auto simp: symbol_ok_def order_symbol_copy_def Let_def c_string_def dest: in_set_takeD)

lemma symbols_ok_write: "symbols_ok m \<Longrightarrow> symbol_ok s \<Longrightarrow> symbols_ok (order_symbol_write m k s idx)"
  using symbol_ok_copy [of s] by (simp add: symbols_ok_def order_symbol_write_def Let_def)

lemma tracks_symbols_insert:
  assumes "tracks_symbols e" and "\<not> key_free k" and "symbol_ok s"
    and "order_symbol_map_insert (me_order_to_symbol (en_engine e)) k s = Some (ok, m')"
    and "me_order_to_symbol (en_engine e') = m'"
  shows "tracks_symbols e'"
proof -
  let ?m = "me_order_to_symbol (en_engine e)"
  have "m' = ?m \<or> (\<exists>idx. m' = order_symbol_write ?m k s idx)"
    using assms(4) unfolding order_symbol_map_insert_eq [OF assms(2)] by (auto split: option.splits)
  with assms symbols_ok_write [OF _ assms(3)] show ?thesis by (auto simp: tracks_symbols_def)
qed

lemma tracks_symbols_remove:
  assumes "tracks_symbols e" and "me_order_to_symbol (en_engine e') = snd (order_symbol_map_remove (me_order_to_symbol (en_engine e)) k)"
  shows "tracks_symbols e'"
  using assms by (simp add: tracks_symbols_def symbols_ok_def order_symbol_map_remove_def split: option.splits)

lemma tracks_symbols_same:
  "tracks_symbols e \<Longrightarrow> me_order_to_symbol (en_engine e') = me_order_to_symbol (en_engine e) \<Longrightarrow> tracks_symbols e'"
  by (simp add: tracks_symbols_def)

lemma tracked_symbol_ok:
  assumes "tracks_symbols e" and "valid_ids u i" and "tracked e u i = Some s"
  shows "symbol_ok s"
proof -
  let ?m = "me_order_to_symbol (en_engine e)" and ?k = "order_key u i"
  have k: "\<not> key_free ?k" using order_key_not_free [OF assms(2)] .
  from assms(3) obtain idx where "order_symbol_map_find ?m ?k = Some idx" "s = os_symbol (os_slots ?m idx)"
    by (auto simp: tracked_def order_symbol_get_def)
  with k assms(1) show ?thesis
    using os.find_key [of "os_slots ?m" ?k idx] by (auto simp: order_symbol_map_find_eq tracks_symbols_def symbols_ok_def)
qed

lemma get_order_book_tracking:
  "matching_engine_get_order_book eng s = Some (r, eng') \<Longrightarrow> me_order_to_symbol eng' = me_order_to_symbol eng"
  by (auto simp: matching_engine_get_order_book_def bind_eq_Some_conv asserts Let_def split: option.splits if_splits)

lemma new_order_tracks:
  assumes run: "matching_engine_process_new_order msg cid ts e = Some e'" and tr: "tracks_symbols e"
    and s: "symbol_ok (no_symbol msg)" and ids: "valid_ids (no_user_id msg) (no_user_order_id msg)"
  shows "tracks_symbols e'"
proof -
  from run obtain r eng1 where g: "matching_engine_get_order_book (en_engine e) (no_symbol msg) = Some (r, eng1)"
    by (auto simp: matching_engine_process_new_order_def bind_eq_Some_conv)
  note same = get_order_book_tracking [OF g]
  show ?thesis
  proof (cases r)
    case None
    with run g same tr show ?thesis
      by (auto simp: matching_engine_process_new_order_def bind_eq_Some_conv en_add_def intro: tracks_symbols_same)
  next
    case (Some i)
    with run g ids obtain ok m' c where
      m: "order_symbol_map_insert (me_order_to_symbol eng1) (order_key (no_user_id msg) (no_user_order_id msg)) (no_symbol msg) = Some (ok, m')"
      and e': "me_order_to_symbol (en_engine e') = m'"
      by (auto simp: matching_engine_process_new_order_def bind_eq_Some_conv make_order_key_eq on_book_def put_ctx_def)
    show ?thesis
      by (rule tracks_symbols_insert [OF tr order_key_not_free [OF ids] s m [unfolded same] e'])
  qed
qed

lemma cancel_order_tracks:
  assumes run: "matching_engine_process_cancel_order msg e = Some e'" and tr: "tracks_symbols e"
  shows "tracks_symbols e'"
proof -
  let ?m = "me_order_to_symbol (en_engine e)"
  from run obtain k where k: "make_order_key (cm_user_id msg) (cm_user_order_id msg) = Some k"
    by (auto simp: matching_engine_process_cancel_order_def bind_eq_Some_conv Let_def)
  show ?thesis
  proof (cases "order_symbol_map_find ?m k")
    case None
    with run k tr show ?thesis
      by (auto simp: matching_engine_process_cancel_order_def bind_eq_Some_conv en_add_def intro: tracks_symbols_same)
  next
    case (Some idx)
    let ?f = "symbol_map_find (me_symbol_map (en_engine e)) (os_symbol (os_slots ?m idx))"
    have "me_order_to_symbol (en_engine e') = snd (order_symbol_map_remove ?m k)"
      using run k Some
      by (cases ?f) (auto simp: matching_engine_process_cancel_order_def bind_eq_Some_conv en_add_def on_book_def Let_def asserts
          split: if_splits)
    then show ?thesis by (rule tracks_symbols_remove [OF tr])
  qed
qed

subsection \<open>Runs\<close>

inductive engine_run :: "bool \<Rightarrow> engine_ctx \<Rightarrow> bool" where
  start: "memory_pools_init pool = Some p \<Longrightarrow> engine_run False \<lparr>en_engine = matching_engine_init eng, en_pool = p, en_out = []\<rparr>"
| message: "engine_run False e \<Longrightarrow> admissible e msg \<Longrightarrow> msg \<noteq> INPUT_MSG_FLUSH \<Longrightarrow>
    matching_engine_process_message msg cid ts e = Some e' \<Longrightarrow> engine_run False e'"
| flush: "engine_run False e \<Longrightarrow> admissible e INPUT_MSG_FLUSH \<Longrightarrow>
    matching_engine_process_message INPUT_MSG_FLUSH cid ts e = Some e' \<Longrightarrow> engine_run True e'"
| continued: "engine_run True e \<Longrightarrow> matching_engine_continue_flush e = Some (b, e') \<Longrightarrow> engine_run True e'"
| flushed: "engine_run True e \<Longrightarrow> \<not> matching_engine_has_flush_in_progress (en_engine e) \<Longrightarrow> engine_run False e"
| disconnect: "engine_run False e \<Longrightarrow> matching_engine_cancel_client_orders cid e = Some (n, e') \<Longrightarrow> engine_run False e'"
| drain: "engine_run f e \<Longrightarrow> engine_run f (e\<lparr>en_out := []\<rparr>)"

inductive_cases engine_run_flushingE: "engine_run True e"

definition books_wf :: "engine_ctx \<Rightarrow> (nat \<Rightarrow> queues) \<Rightarrow> bool" where
  "books_wf e Q \<longleftrightarrow> (\<forall>s b. abs_engine e Q s = Some b \<longrightarrow> book_wf (ab_side b))"

definition run_inv :: "bool \<Rightarrow> engine_ctx \<Rightarrow> bool" where
  "run_inv f e \<longleftrightarrow> tracks_symbols e \<and>
     (if f then \<exists>Q m. flushing e Q m else \<exists>Q. engine_rep e Q \<and> idle e \<and> books_wf e Q)"

lemma book_wf_empty: "book_wf (\<lambda>_. [])"
  by (simp add: book_wf_def uncrossed_def)

lemma run_inv_idle:
  "engine_rep e Q \<Longrightarrow> idle e \<Longrightarrow> books_wf e Q \<Longrightarrow> tracks_symbols e \<Longrightarrow> run_inv False e"
  unfolding run_inv_def by auto

lemma books_wf_upd:
  "books_wf e Q \<Longrightarrow> book_wf (ab_side b) \<Longrightarrow> abs_engine e' Q' = (abs_engine e Q)(s \<mapsto> b) \<Longrightarrow> books_wf e' Q'"
  by (auto simp: books_wf_def split: if_splits)

lemma books_wf_book_of: "books_wf e Q \<Longrightarrow> book_wf (ab_side (book_of (abs_engine e Q) s))"
  by (auto simp: books_wf_def book_of_def empty_abook_def book_wf_empty split: option.splits)

lemma spec_cancels_wf: "book_wf (ab_side b) \<Longrightarrow> book_wf (ab_side (fst (spec_cancels b ks)))"
  by (induction ks arbitrary: b) (auto simp: split_beta spec_cancel_wf)

text \<open>With a free slot in the pool no level can hold 8192 orders.\<close>

lemma small_levels_free:
  assumes rep: "engine_rep e Q" and free: "p_free_count (en_pool e) > 0" and i: "i < me_num_books (en_engine e)"
  shows "small_levels (Q i)"
  unfolding small_levels_def
proof (intro allI ballI)
  fix d q
  assume q: "q \<in> set (Q i d)"
  have ok: "book_ok (book_ctx i e) (Q i)" using engine_repD(8) [OF rep i] by (simp add: book_rep_def)
  have "distinct (concat (Q i d))" using book_okD(5) [OF ok] all_orders_side(2) by blast
  then have "distinct q" using q by (metis distinct_concat_iff)
  have "set q \<subseteq> allocated (en_pool e)" using q all_orders_side(1) [of "Q i" d] book_okD(6) [OF ok] by auto
  then have "card (set q) \<le> card (allocated (en_pool e))" by (rule card_mono [OF pool.used_finite [OF engine_repD(2) [OF rep]]])
  then show "length q < MAX_ORDERS_IN_POOL"
    using card_allocated [OF engine_repD(2) [OF rep]] free distinct_card [OF \<open>distinct q\<close>] by linarith
qed

subsection \<open>Every operation keeps the invariant and never aborts\<close>

lemma new_order_step:
  assumes rep: "engine_rep e Q" and idle: "idle e" and wf: "books_wf e Q" and t: "takes_new_order e msg"
  shows "\<exists>e' Q'. matching_engine_process_new_order msg cid ts e = Some e' \<and> engine_rep e' Q' \<and> idle e' \<and> books_wf e' Q'"
proof -
  let ?E = "abs_engine e Q" and ?s = "no_symbol msg"
  have s: "symbol_ok ?s" using t by (simp add: takes_new_order_def)
  consider (limit) "?E ?s = None" "me_num_books (en_engine e) = MAX_SYMBOLS"
    | (room) "engine_add_pre e Q msg"
    using takes_engine_add_pre [OF rep t] engine_repD(1) [OF rep] by (metis le_neq_implies_less)
  then show ?thesis
  proof cases
    case limit
    let ?e = "e\<lparr>en_out := emit (en_out e) [ack_of ?s (no_user_id msg) (no_user_order_id msg)]\<rparr>"
    have "engine_rep ?e Q" "abs_engine ?e Q = ?E" by (rule engine_rep_out [OF rep length_emit])+
    then show ?thesis
      using process_new_order_limit [OF rep s limit] wf idle by (intro exI [of _ ?e] exI [of _ Q]) (simp add: books_wf_def idle_def)
  next
    case room
    note wfb = books_wf_book_of [OF wf, of ?s]
    show ?thesis
    proof (cases "allocated (en_pool e) = {..<MAX_ORDERS_IN_POOL}")
      case True
      from process_new_order_full [OF rep room True, of cid ts] obtain e' Q' where
        e': "matching_engine_process_new_order msg cid ts e = Some e'" "engine_rep e' Q'"
          "abs_engine e' Q' = ?E(?s \<mapsto> book_of ?E ?s)" "idle e \<longrightarrow> idle e'" by blast
      with books_wf_upd [OF wf wfb e'(3)] idle show ?thesis by blast
    next
      case False
      let ?r = "spec_add (book_of ?E ?s) (order_of_msg msg cid ts)"
      from process_new_order_ok [OF rep room False, of cid ts] obtain e' Q' where
        e': "matching_engine_process_new_order msg cid ts e = Some e'" "engine_rep e' Q'"
          "abs_engine e' Q' = ?E(?s \<mapsto> fst ?r)" "idle e \<longrightarrow> idle e'" by (auto simp: split_beta)
      have "order_ok (order_of_msg msg cid ts)" using t by (simp add: takes_new_order_def order_ok_def)
      with books_wf_upd [OF wf spec_add_wf [OF wfb] e'(3)] e' idle show ?thesis by blast
    qed
  qed
qed

lemma cancel_order_step:
  assumes rep: "engine_rep e Q" and idle: "idle e" and wf: "books_wf e Q" and tr: "tracks_symbols e"
    and ids: "valid_ids (cm_user_id msg) (cm_user_order_id msg)"
  shows "\<exists>e' Q'. matching_engine_process_cancel_order msg e = Some e' \<and> engine_rep e' Q' \<and> idle e' \<and> books_wf e' Q'"
proof (cases "tracked e (cm_user_id msg) (cm_user_order_id msg)")
  case None
  let ?e = "e\<lparr>en_out := emit (en_out e) [cancel_ack_of ''UNKNOWN'' (cm_user_id msg) (cm_user_order_id msg)]\<rparr>"
  have "engine_rep ?e Q" "abs_engine ?e Q = abs_engine e Q" by (rule engine_rep_out [OF rep length_emit])+
  then show ?thesis
    using process_cancel_order_untracked [OF rep ids None] wf idle by (intro exI [of _ ?e] exI [of _ Q]) (simp add: books_wf_def idle_def)
next
  case (Some s)
  have s: "symbol_ok s" by (rule tracked_symbol_ok [OF tr ids Some])
  show ?thesis
  proof (cases "abs_engine e Q s")
    case None
    from process_cancel_order_no_book [OF rep ids Some s None] obtain e' where
      "matching_engine_process_cancel_order msg e = Some e'" "engine_rep e' Q" "abs_engine e' Q = abs_engine e Q" "idle e \<longrightarrow> idle e'"
      by blast
    with wf idle show ?thesis by (intro exI [of _ e'] exI [of _ Q]) (simp add: books_wf_def)
  next
    case (Some b)
    let ?r = "spec_cancel b (cm_user_id msg) (cm_user_order_id msg)"
    from process_cancel_order_ok [OF rep ids \<open>tracked e _ _ = Some s\<close> Some] obtain e' Q' where
      e': "matching_engine_process_cancel_order msg e = Some e'" "engine_rep e' Q'"
        "abs_engine e' Q' = (abs_engine e Q)(s \<mapsto> fst ?r)" "idle e \<longrightarrow> idle e'" by (auto simp: split_beta)
    have "book_wf (ab_side b)" using wf Some by (auto simp: books_wf_def)
    from books_wf_upd [OF wf spec_cancel_wf [OF this] e'(3)] e' idle show ?thesis by blast
  qed
qed

lemma abs_engine_book:
  assumes rep: "engine_rep e Q" and b: "abs_engine e Q s = Some b"
  shows "\<exists>i<me_num_books (en_engine e). b = abs_book (book_ctx i e) (Q i) \<and> ob_symbol (me_books (en_engine e) i) = s"
proof -
  have s: "symbol_ok s" using b by (auto simp: abs_engine_def split: if_splits)
  from known_book [OF rep s b] show ?thesis by blast
qed

lemma book_abs_engine:
  assumes rep: "engine_rep e Q" and i: "i < me_num_books (en_engine e)"
  shows "abs_engine e Q (ob_symbol (me_books (en_engine e) i)) = Some (abs_book (book_ctx i e) (Q i))"
proof -
  have s: "symbol_ok (ob_symbol (me_books (en_engine e) i))"
    using engine_repD(8) [OF rep i] by (simp add: book_rep_def book_ok_def)
  with engine_repD(11) [OF rep s, of "int i"] i show ?thesis by (auto simp: abs_engine_def)
qed

lemma disconnect_step:
  assumes rep: "engine_rep e Q" and idle: "idle e" and wf: "books_wf e Q"
  shows "\<exists>n e' Q'. matching_engine_cancel_client_orders cid e = Some (n, e') \<and> engine_rep e' Q' \<and> idle e' \<and> books_wf e' Q'
     \<and> me_order_to_symbol (en_engine e') = me_order_to_symbol (en_engine e)"
proof -
  let ?n = "me_num_books (en_engine e)"
  from cancel_client_orders_ok [OF rep, of cid] obtain n e' Q' where
    e': "matching_engine_cancel_client_orders cid e = Some (n, e')" "engine_rep e' Q'" "me_num_books (en_engine e') = ?n"
      "idle e \<longrightarrow> idle e'" "me_order_to_symbol (en_engine e') = me_order_to_symbol (en_engine e)"
      "\<And>i. i < ?n \<Longrightarrow> abs_book (book_ctx i e') (Q' i)
         = fst (spec_cancels (abs_book (book_ctx i e) (Q i)) (scan_keys (book_ctx i e) (Q i) cid))" by blast
  have "book_wf (ab_side b)" if "abs_engine e' Q' s = Some b" for s b
  proof -
    from abs_engine_book [OF e'(2) that] obtain i where
      i: "i < me_num_books (en_engine e')" "b = abs_book (book_ctx i e') (Q' i)" by blast
    then have "i < ?n" using e'(3) by simp
    with book_abs_engine [OF rep] wf have "book_wf (ab_side (abs_book (book_ctx i e) (Q i)))" by (auto simp: books_wf_def)
    with spec_cancels_wf e'(6) [OF \<open>i < ?n\<close>] i(2) show ?thesis by simp
  qed
  with e' idle show ?thesis by (auto simp: books_wf_def)
qed

lemma flush_step_inv:
  assumes rep: "engine_rep e Q" and idle: "idle e" and free: "p_free_count (en_pool e) > 0"
  shows "\<exists>e' Q' m. matching_engine_process_flush e = Some e' \<and> flushing e' Q' m \<and> tracks_symbols e'"
proof -
  from process_flush_ok [OF rep idle] small_levels_free [OF rep free] obtain e' Q' where
    e': "matching_engine_process_flush e = Some e'" "flushing e' Q' (MAX_ORDERS_IN_POOL - FLUSH_BATCH_SIZE)" by blast
  have "tracks_symbols e'"
    using e'(1) by (auto simp: matching_engine_process_flush_def bind_eq_Some_conv tracks_symbols_def symbols_ok_def order_symbol_map_clear_def)
  with e' show ?thesis by blast
qed

lemma continue_tracks:
  assumes fl: "flushing e Q m" and tr: "tracks_symbols e"
  shows "\<exists>b e' Q' m'. matching_engine_continue_flush e = Some (b, e') \<and> flushing e' Q' m' \<and> tracks_symbols e'"
proof -
  from continue_flush_ok [OF fl] obtain b e' Q' where
    e': "matching_engine_continue_flush e = Some (b, e')" "flushing e' Q' (m - FLUSH_BATCH_SIZE)"
      "me_order_to_symbol (en_engine e') = me_order_to_symbol (en_engine e)" by blast
  with tracks_symbols_same [OF tr e'(3)] show ?thesis by blast
qed

lemma flushed_inv:
  assumes fl: "flushing e Q m" and idle: "idle e"
  shows "engine_rep e Q \<and> books_wf e Q"
  using fl flushing_idle(2) [OF fl idle] book_wf_empty by (auto simp: flushing_def books_wf_def)

theorem engine_run_inv: "engine_run f e \<Longrightarrow> run_inv f e"
proof (induction rule: engine_run.induct)
  case (start pool p eng)
  let ?e = "\<lparr>en_engine = matching_engine_init eng, en_pool = p, en_out = []\<rparr>"
  have p: "p = order_pool_init pool" using start by (auto simp: memory_pools_init_def bind_eq_Some_conv asserts Let_def split: if_splits)
  have pool: "pool_ok p" "allocated p = {}" unfolding p by (rule pool_ok_init allocated_init)+
  note init = matching_engine_init_ok [OF pool, where eng = eng]
  have "tracks_symbols ?e" by (simp add: tracks_symbols_def symbols_ok_def matching_engine_init_def order_symbol_map_init_def)
  moreover have "books_wf ?e Q" for Q unfolding books_wf_def init(2) by simp
  ultimately show ?case by (intro run_inv_idle [OF init(1,3)])
next
  case (message e msg cid ts e')
  from message.IH obtain Q where Q: "tracks_symbols e" "engine_rep e Q" "idle e" "books_wf e Q" by (auto simp: run_inv_def)
  show ?case
  proof (cases msg)
    case (INPUT_MSG_NEW_ORDER m)
    with message have run: "matching_engine_process_new_order m cid ts e = Some e'" and t: "takes_new_order e m"
      by (simp_all add: matching_engine_process_message_def)
    have "tracks_symbols e'" using new_order_tracks [OF run Q(1)] t by (simp add: takes_new_order_def)
    with new_order_step [OF Q(2-4) t, of cid ts] run show ?thesis by (auto intro: run_inv_idle)
  next
    case (INPUT_MSG_CANCEL m)
    with message have run: "matching_engine_process_cancel_order m e = Some e'" and ids: "valid_ids (cm_user_id m) (cm_user_order_id m)"
      by (simp_all add: matching_engine_process_message_def)
    with cancel_order_step [OF Q(2-4,1) ids] cancel_order_tracks [OF run Q(1)] show ?thesis by (auto intro: run_inv_idle)
  next
    case INPUT_MSG_FLUSH
    with message show ?thesis by simp
  next
    case (INPUT_MSG_OTHER t)
    with message Q show ?thesis by (auto simp: matching_engine_process_message_def intro: run_inv_idle)
  qed
next
  case (flush e cid ts e')
  from flush.IH obtain Q where "engine_rep e Q" "idle e" by (auto simp: run_inv_def)
  with flush_step_inv [of e Q] flush show ?case by (auto simp: run_inv_def matching_engine_process_message_def)
next
  case (continued e b e')
  then obtain Q m where "flushing e Q m" "tracks_symbols e" by (auto simp: run_inv_def)
  from continue_tracks [OF this] continued show ?case by (auto simp: run_inv_def)
next
  case (flushed e)
  then obtain Q m where fl: "flushing e Q m" and tr: "tracks_symbols e" by (auto simp: run_inv_def)
  then have rep: "engine_rep e Q" by (simp add: flushing_def)
  have idle: "idle e" using flushed(2) no_flush_idle [OF rep] by simp
  with flushed_inv [OF fl idle] tr show ?case by (auto intro: run_inv_idle)
next
  case (disconnect e cid n e')
  then obtain Q where Q: "tracks_symbols e" "engine_rep e Q" "idle e" "books_wf e Q" by (auto simp: run_inv_def)
  from disconnect_step [OF Q(2-4), of cid] disconnect obtain Q' where
    "engine_rep e' Q'" "idle e'" "books_wf e' Q'" "me_order_to_symbol (en_engine e') = me_order_to_symbol (en_engine e)" by auto
  with tracks_symbols_same [OF Q(1)] show ?case by (blast intro: run_inv_idle)
next
  case (drain f e)
  show ?case
  proof (cases f)
    case True
    with drain.IH obtain Q m where "flushing e Q m" "tracks_symbols e" by (auto simp: run_inv_def)
    with True flushing_drain [of e Q m] show ?thesis by (auto simp: run_inv_def tracks_symbols_def)
  next
    case False
    with drain.IH obtain Q where Q: "tracks_symbols e" "engine_rep e Q" "idle e" "books_wf e Q" by (auto simp: run_inv_def)
    have "engine_rep (e\<lparr>en_out := []\<rparr>) Q" "abs_engine (e\<lparr>en_out := []\<rparr>) Q = abs_engine e Q" by (rule engine_rep_out [OF Q(2)], simp)+
    with Q False show ?thesis by (auto intro!: run_inv_idle simp: books_wf_def idle_def tracks_symbols_def)
  qed
qed

text \<open>Progress: in a state of an admissible run no admissible message aborts the program.\<close>

lemma run_message_defined:
  assumes run: "engine_run False e" and adm: "admissible e msg"
  shows "\<exists>e'. matching_engine_process_message msg cid ts e = Some e'"
proof -
  from engine_run_inv [OF run] obtain Q where Q: "engine_rep e Q" "idle e" "books_wf e Q" "tracks_symbols e" by (auto simp: run_inv_def)
  show ?thesis
    using adm new_order_step [OF Q(1-3), of _ cid ts] cancel_order_step [OF Q] flush_step_inv [OF Q(1,2)]
    by (cases msg) (auto simp: matching_engine_process_message_def)
qed

lemma run_continue_defined:
  assumes "engine_run True e"
  shows "\<exists>b e'. matching_engine_continue_flush e = Some (b, e')"
proof -
  from engine_run_inv [OF assms] obtain Q m where "flushing e Q m" "tracks_symbols e" by (auto simp: run_inv_def)
  from continue_tracks [OF this] show ?thesis by blast
qed

lemma run_disconnect_defined:
  assumes "engine_run False e"
  shows "\<exists>n e'. matching_engine_cancel_client_orders cid e = Some (n, e')"
proof -
  from engine_run_inv [OF assms] obtain Q where "engine_rep e Q" "idle e" "books_wf e Q" by (auto simp: run_inv_def)
  from disconnect_step [OF this] show ?thesis by blast
qed

end
