(* ===== verification/ME_Book_Props.thy ===== *)
theory ME_Book_Props
  imports ME_Book_Client
begin

text \<open>
  Consequences of the refinement that speak of the book the way its users do: which orders
  trade, in which order, at which price and for how much (price-time priority), that no
  quantity appears or disappears, and that a cancel undoes the order it names.
\<close>

subsection \<open>The book as one list of orders per side\<close>

lemma flat_abs_sides:
  assumes ok: "book_ok c qs"
  shows "flat (abs_sides c qs d) = map (\<lambda>x. strip (p_orders (cx_pool c) x)) (concat (qs d))"
proof -
  have "length (qs d) = get_num d (cx_book c)" using abs_sides_facts(6) [OF ok] .
  then show ?thesis
    by (simp add: flat_def abs_sides_def abs_side_def map_concat abs_queue_def [abs_def] comp_def)
qed

lemma rep_side_wf:
  assumes rep: "book_rep c qs"
  shows "side_wf d (abs_sides c qs d)"
proof -
  have ok: "book_ok c qs" and ne: "[] \<notin> set (qs d)" using rep by (simp_all add: book_rep_def)
  note facts = abs_sides_facts [OF ok]
  have "level_wf d (abs_sides c qs d ! i)" if i: "i < get_num d (cx_book c)" for i
  proof -
    have "level_rep (p_orders (cx_pool c)) d (get_levels d (cx_book c) i) (qs d ! i)"
      by (rule side_rep_level [OF book_okD(4) [OF ok] i])
    moreover have "qs d ! i \<noteq> []" using ne i facts(6) [of d] by (metis nth_mem)
    ultimately show ?thesis by (auto simp: facts(3) [OF i] level_wf_def level_rep_def abs_queue_def)
  qed
  then show ?thesis using facts(1,4) by (simp add: side_wf_def all_set_conv_all_nth)
qed

lemma rep_priced: "book_rep c qs \<Longrightarrow> priced (abs_sides c qs d)"
  using rep_side_wf [of c qs d] by (auto simp: side_wf_def level_wf_def priced_def resting_def)

definition book_qty :: "ctx \<Rightarrow> queues \<Rightarrow> bool \<Rightarrow> nat" where
  "book_qty c qs d = (\<Sum>x\<leftarrow>concat (qs d). unat (o_remaining_qty (p_orders (cx_pool c) x)))"

definition side_qty :: "side \<Rightarrow> nat" where
  "side_qty ls = (\<Sum>x\<leftarrow>flat ls. qty x)"

lemma book_qty_side: "book_rep c qs \<Longrightarrow> book_qty c qs d = side_qty (abs_sides c qs d)"
  by (simp add: book_qty_def side_qty_def flat_abs_sides book_rep_def comp_def)

lemma side_qty_insert: "side_qty (insert_order d a ls) = side_qty ls + qty a"
  by (induction d a ls rule: insert_order.induct) (auto simp: side_qty_def)

subsection \<open>Matching\<close>

text \<open>
  What an incoming order does to the two sides: \<open>fills\<close>, \<open>leftover\<close> and \<open>wanted\<close> of the
  eligible orders, best price first and oldest first within a price.
\<close>

definition eligible_orders :: "abook \<Rightarrow> order_t \<Rightarrow> order_t list" where
  "eligible_orders b a = (let d = (o_side a \<noteq> SIDE_BUY) in flat (eligible d a (ab_side b d)))"

definition trade_msgs :: "abook \<Rightarrow> order_t \<Rightarrow> output_msg_t list" where
  "trade_msgs b a = map (\<lambda>(x, n). trade_between (ab_symbol b) a x (o_price x) n)
     (fills (o_remaining_qty a) (eligible_orders b a))"

lemma spec_match_sides:
  assumes pr: "priced (ab_side b (o_side a \<noteq> SIDE_BUY))" and m: "spec_match b a = (b', ts)"
  defines "d \<equiv> (o_side a = SIDE_BUY)" and "r \<equiv> wanted (o_remaining_qty a) (eligible_orders b a)"
  shows "ts = trade_msgs b a"
    and "flat (ab_side b' (\<not> d)) = leftover (o_remaining_qty a) (eligible_orders b a)
           @ flat (drop (length (eligible (\<not> d) a (ab_side b (\<not> d)))) (ab_side b (\<not> d)))"
    and "ab_side b' d = (if rests (a\<lparr>o_remaining_qty := r\<rparr>)
           then insert_order d (a\<lparr>o_remaining_qty := r\<rparr>) (ab_side b d) else ab_side b d)"
    and "side_qty (ab_side b (\<not> d)) = side_qty (ab_side b' (\<not> d))
           + (\<Sum>(x, n)\<leftarrow>fills (o_remaining_qty a) (eligible_orders b a). unat n)"
proof -
  obtain a' opp ts' where ml: "match_levels (ab_symbol b) (\<not> d) a (ab_side b (\<not> d)) = (a', opp, ts')"
    by (metis prod_cases3)
  have pr': "priced (ab_side b (\<not> d))" using pr by (simp add: d_def)
  have el: "eligible_orders b a = flat (eligible (\<not> d) a (ab_side b (\<not> d)))"
    by (simp add: eligible_orders_def d_def Let_def)
  note f = match_levels_fills [OF pr' ml, folded el]
  have b': "ab_side b' (\<not> d) = opp" "ts = ts'"
    "ab_side b' d = (if rests a' then insert_order d a' (ab_side b d) else ab_side b d)"
    using m ml by (auto simp: spec_match_def d_def [symmetric] Let_def)
  show "ts = trade_msgs b a" using f b'(2) by (simp add: trade_msgs_def)
  show opp: "flat (ab_side b' (\<not> d)) = leftover (o_remaining_qty a) (eligible_orders b a)
           @ flat (drop (length (eligible (\<not> d) a (ab_side b (\<not> d)))) (ab_side b (\<not> d)))"
    using f b'(1) by simp
  show "ab_side b' d = (if rests (a\<lparr>o_remaining_qty := r\<rparr>)
           then insert_order d (a\<lparr>o_remaining_qty := r\<rparr>) (ab_side b d) else ab_side b d)"
    using f b'(3) by (simp add: r_def)
  show "side_qty (ab_side b (\<not> d)) = side_qty (ab_side b' (\<not> d))
           + (\<Sum>(x, n)\<leftarrow>fills (o_remaining_qty a) (eligible_orders b a). unat n)"
    using qty_leftover [of "o_remaining_qty a" "eligible_orders b a"] flat_eligible [of "ab_side b (\<not> d)" "\<not> d" a]
    unfolding side_qty_def opp by (simp add: el)
qed

text \<open>The quantity traded by a sequence of messages.\<close>

fun msg_qty :: "output_msg_t \<Rightarrow> nat" where
  "msg_qty (OUTPUT_MSG_TRADE t) = unat (tr_quantity t)"
| "msg_qty _ = 0"

definition traded :: "output_msg_t list \<Rightarrow> nat" where
  "traded msgs = (\<Sum>m\<leftarrow>msgs. msg_qty m)"

lemma traded_simps [simp]:
  "traded [] = 0" "traded (m # ms) = msg_qty m + traded ms" "traded (ms @ ms') = traded ms + traded ms'"
  by (simp_all add: traded_def)

lemma msg_qty_simps [simp]:
  "msg_qty (ack_of s u i) = 0" "msg_qty (cancel_ack_of s u i) = 0" "msg_qty (tob_msg s d pq) = 0"
  "msg_qty (trade_between s a x p n) = unat n"
  by (simp_all add: ack_of_def cancel_ack_of_def tob_msg_def trade_between_def split: prod.splits)

lemma traded_trade_msgs: "traded (trade_msgs b a) = (\<Sum>(x, n)\<leftarrow>fills (o_remaining_qty a) (eligible_orders b a). unat n)"
  by (simp add: traded_def trade_msgs_def comp_def case_prod_unfold)

lemma traded_tob: "traded (snd (spec_tob b)) = 0"
  by (simp add: spec_tob_def spec_tob_side_def Let_def)

text \<open>The specification of an added order, with its trades spelled out.\<close>

lemma spec_add_msgs:
  assumes "priced (ab_side b (o_side a \<noteq> SIDE_BUY))"
  shows "snd (spec_add b a) = ack_of (ab_symbol b) (o_user_id a) (o_user_order_id a) # trade_msgs b a
           @ snd (spec_tob (fst (spec_match b a)))"
    and "ab_side (fst (spec_add b a)) = ab_side (fst (spec_match b a))"
proof -
  obtain b1 ts where m: "spec_match b a = (b1, ts)" by (cases "spec_match b a")
  from spec_match_sides(1) [OF assms m] m show
    "snd (spec_add b a) = ack_of (ab_symbol b) (o_user_id a) (o_user_order_id a) # trade_msgs b a @ snd (spec_tob (fst (spec_match b a)))"
    "ab_side (fst (spec_add b a)) = ab_side (fst (spec_match b a))"
    by (simp_all add: spec_add_def spec_tob_def)
qed

lemma add_order_result:
  assumes rep: "book_rep c qs" and pre: "add_pre c qs msg" and room: "allocated (cx_pool c) \<noteq> {..<MAX_ORDERS_IN_POOL}"
  obtains c' qs' where "order_book_add_order msg cid ts c = Some c'" "book_rep c' qs'"
    "abs_book c' qs' = fst (spec_add (abs_book c qs) (order_of_msg msg cid ts))"
    "cx_out c' = emit (cx_out c) (snd (spec_add (abs_book c qs) (order_of_msg msg cid ts)))"
    "others_kept c qs c' qs'"
  using order_book_add_order_ok [OF rep pre room, of cid ts] by (auto simp: split_beta)

lemma ab_side_abs [simp]: "ab_side (abs_book c qs) = abs_sides c qs"
  by (simp add: abs_book_def)

lemma add_order_quantities:
  assumes rep: "book_rep c qs" and pre: "add_pre c qs msg" and room: "allocated (cx_pool c) \<noteq> {..<MAX_ORDERS_IN_POOL}"
  defines "d \<equiv> (no_side msg = SIDE_BUY)"
  shows "\<exists>c' qs' msgs. order_book_add_order msg cid ts c = Some c' \<and> book_rep c' qs' \<and> cx_out c' = emit (cx_out c) msgs
     \<and> book_qty c qs (\<not> d) = book_qty c' qs' (\<not> d) + traded msgs
     \<and> (if no_price msg \<noteq> 0 then book_qty c' qs' d + traded msgs = book_qty c qs d + unat (no_quantity msg)
        else book_qty c' qs' d = book_qty c qs d \<and> traded msgs \<le> unat (no_quantity msg))"
proof -
  define a b where "a = order_of_msg msg cid ts" and "b = abs_book c qs"
  obtain b1 ts' where m: "spec_match b a = (b1, ts')" by (cases "spec_match b a")
  from add_order_result [OF rep pre room, of cid ts, folded a_def b_def] obtain c' qs' where
    c': "order_book_add_order msg cid ts c = Some c'" "book_rep c' qs'" "abs_book c' qs' = fst (spec_add b a)"
      "cx_out c' = emit (cx_out c) (snd (spec_add b a))" by blast
  have pr: "priced (ab_side b (o_side a \<noteq> SIDE_BUY))" using rep_priced [OF rep] by (simp add: b_def)
  note sides = spec_match_sides [OF pr m] and add = spec_add_msgs [OF pr]
  have d: "d \<longleftrightarrow> o_side a = SIDE_BUY" by (simp add: d_def a_def)
  let ?F = "\<Sum>(x, n)\<leftarrow>fills (o_remaining_qty a) (eligible_orders b a). unat n"
  let ?r = "wanted (o_remaining_qty a) (eligible_orders b a)"
  have tr: "traded (snd (spec_add b a)) = ?F" unfolding add(1) by (simp add: traded_trade_msgs traded_tob)
  have after: "abs_sides c' qs' = ab_side b1" using add(2) m by (simp flip: ab_side_abs add: c'(3))
  have q: "book_qty c qs e = side_qty (ab_side b e)" "book_qty c' qs' e = side_qty (ab_side b1 e)" for e
    using book_qty_side [OF rep] book_qty_side [OF c'(2)] after by (simp_all add: b_def)
  have w: "unat ?r + ?F = unat (no_quantity msg)" using unat_wanted [of "o_remaining_qty a" "eligible_orders b a"] by (simp add: a_def)
  have "book_qty c qs (\<not> d) = book_qty c' qs' (\<not> d) + ?F" using sides(4) unfolding q d by simp
  moreover have "book_qty c' qs' d = book_qty c qs d + (if no_price msg \<noteq> 0 then unat ?r else 0)"
    using sides(3) unfolding q d by (auto simp: side_qty_insert rests_def a_def word_gt_0)
  ultimately show ?thesis using c' tr w
    by (intro exI [of _ c'] exI [of _ qs'] exI [of _ "snd (spec_add b a)"]) auto
qed

subsection \<open>A cancel undoes an order that did not trade\<close>

text \<open>No order of a side has the identifiers, and no level is empty.\<close>

definition without :: "u32 \<Rightarrow> u32 \<Rightarrow> side \<Rightarrow> bool" where
  "without u i ls \<longleftrightarrow> (\<forall>l\<in>set ls. snd l \<noteq> [] \<and> (\<forall>x\<in>set (snd l). \<not> has_ids u i x))"

lemma without_Cons: "without u i ((p, q) # ls) \<longleftrightarrow> q \<noteq> [] \<and> filter (\<lambda>x. \<not> has_ids u i x) q = q \<and> without u i ls"
  by (auto simp: without_def filter_id_conv)

lemma remove_order_absent: "without u i ls \<Longrightarrow> remove_order u i ls = ls"
  by (induction ls) (auto simp: without_Cons remove_order_Cons Let_def)

lemma remove_insert_order: "without u i ls \<Longrightarrow> has_ids u i a \<Longrightarrow> remove_order u i (insert_order d a ls) = ls"
  by (induction d a ls rule: insert_order.induct)
     (auto simp: without_Cons remove_order_Cons Let_def remove_order_absent)

lemma insert_order_member: "\<exists>l\<in>set (insert_order d a ls). a \<in> set (snd l)"
  by (induction d a ls rule: insert_order.induct) auto

lemma spec_match_nothing:
  assumes "eligible (o_side a \<noteq> SIDE_BUY) a (ab_side b (o_side a \<noteq> SIDE_BUY)) = []"
  shows "spec_match b a = (if rests a then b\<lparr>ab_side := (ab_side b)((o_side a = SIDE_BUY) := insert_order (o_side a = SIDE_BUY) a (ab_side b (o_side a = SIDE_BUY)))\<rparr> else b, [])"
proof -
  let ?d = "o_side a = SIDE_BUY"
  have "match_levels s (\<not> ?d) a (ab_side b (\<not> ?d)) = (a, ab_side b (\<not> ?d), [])" for s
    using assms by (cases "ab_side b (\<not> ?d)") (auto simp: eligible_def split: if_splits)
  then show ?thesis by (simp add: spec_match_def Let_def fun_upd_idem)
qed

lemma spec_add_cancel:
  assumes wf: "\<And>d. side_wf d (ab_side b d)" and new: "\<not> resting_ids b (o_user_id a) (o_user_order_id a)"
    and lim: "rests a" and no: "eligible (o_side a \<noteq> SIDE_BUY) a (ab_side b (o_side a \<noteq> SIDE_BUY)) = []"
  shows "ab_side (fst (spec_cancel (fst (spec_add b a)) (o_user_id a) (o_user_order_id a))) = ab_side b"
proof -
  let ?u = "o_user_id a" and ?i = "o_user_order_id a" and ?d = "o_side a = SIDE_BUY"
  have wo: "without ?u ?i (ab_side b e)" for e
    using wf [of e] new by (auto simp: without_def side_wf_def level_wf_def resting_ids_def)
  have sides: "ab_side (fst (spec_add b a)) = (ab_side b)(?d := insert_order ?d a (ab_side b ?d))"
    using lim by (simp add: spec_add_def spec_match_nothing [OF no] split_beta)
  have own: "has_ids ?u ?i a" by (simp add: has_ids_def)
  with insert_order_member [of ?d a "ab_side b ?d"] have "resting_ids (fst (spec_add b a)) ?u ?i"
    unfolding resting_ids_def sides by (intro exI [of _ ?d]) auto
  then have "ab_side (fst (spec_cancel (fst (spec_add b a)) ?u ?i)) e = remove_order ?u ?i (ab_side (fst (spec_add b a)) e)" for e
    by (simp add: spec_cancel_side)
  then show ?thesis
    unfolding sides using remove_insert_order [OF wo own] remove_order_absent [OF wo] by (auto simp: fun_eq_iff)
qed

lemma add_then_cancel:
  assumes rep: "book_rep c qs" and pre: "add_pre c qs msg" and room: "allocated (cx_pool c) \<noteq> {..<MAX_ORDERS_IN_POOL}"
    and lim: "no_price msg \<noteq> 0"
    and no: "eligible_orders (abs_book c qs) (order_of_msg msg cid ts) = []"
  shows "\<exists>c1 c2 qs2. order_book_add_order msg cid ts c = Some c1
     \<and> order_book_cancel_order (no_user_id msg) (no_user_order_id msg) c1 = Some c2
     \<and> book_rep c2 qs2 \<and> abs_sides c2 qs2 = abs_sides c qs"
proof -
  define a b where "a = order_of_msg msg cid ts" and "b = abs_book c qs"
  let ?d = "o_side a \<noteq> SIDE_BUY"
  from add_order_result [OF rep pre room, of cid ts, folded a_def b_def] obtain c1 qs1 where
    c1: "order_book_add_order msg cid ts c = Some c1" "book_rep c1 qs1" "abs_book c1 qs1 = fst (spec_add b a)" by blast
  have ids: "valid_ids (no_user_id msg) (no_user_order_id msg)" using pre by (simp add: add_pre_def)
  from order_book_cancel_order_ok [OF c1(2) ids] obtain c2 qs2 where
    c2: "order_book_cancel_order (no_user_id msg) (no_user_order_id msg) c1 = Some c2" "book_rep c2 qs2"
      "abs_book c2 qs2 = fst (spec_cancel (abs_book c1 qs1) (no_user_id msg) (no_user_order_id msg))" by (auto simp: split_beta)
  have wf: "side_wf e (ab_side b e)" for e using rep_side_wf [OF rep] by (simp add: b_def)
  have "snd l \<noteq> []" if "l \<in> set (ab_side b ?d)" for l using wf [of ?d] that by (auto simp: side_wf_def level_wf_def)
  then have "eligible ?d a (ab_side b ?d) = []"
    using no by (cases "ab_side b ?d") (auto simp: eligible_orders_def Let_def eligible_def a_def [symmetric] b_def [symmetric] split: if_splits)
  moreover have "rests a" using pre lim by (simp add: rests_def a_def add_pre_def)
  moreover have "\<not> resting_ids b (o_user_id a) (o_user_order_id a)" using pre lim by (simp add: add_pre_def a_def b_def)
  ultimately have "ab_side (abs_book c2 qs2) = ab_side b"
    using spec_add_cancel [OF wf, of a] by (simp add: c2(3) c1(3) a_def)
  then show ?thesis using c1(1) c2(1,2) by (auto simp: b_def)
qed

subsection \<open>Cancelling a client touches nobody else\<close>

lemma client_keys_others:
  assumes rep: "book_rep c qs" and y: "in_book (abs_book c qs) y" and other: "o_client_id y \<noteq> cid"
    and k: "(u, i) \<in> set (scan_keys c qs cid)"
  shows "\<not> has_ids u i y"
proof
  let ?h = "p_orders (cx_pool c)"
  assume h: "has_ids u i y"
  have ok: "book_ok c qs" using rep by (simp add: book_rep_def)
  from y obtain x where x: "x \<in> set (all_orders qs)" "y = strip (?h x)" unfolding in_book_orders [OF ok] by blast
  from k obtain z where z: "z \<in> set (scanned (qs True) @ scanned (qs False))" "o_client_id (?h z) = cid"
      "u = o_user_id (?h z)" "i = o_user_order_id (?h z)" by (auto simp: scan_keys_def client_keys_def)
  have "z \<in> set (all_orders qs)"
    using z(1) scanned_subset [of "qs True"] scanned_subset [of "qs False"] unfolding all_orders_def set_append by blast
  moreover have "okey ?h x = okey ?h z" using h x(2) z(3,4) by (simp add: has_ids_def okey_def)
  moreover have "inj_on (okey ?h) (set (all_orders qs))" using book_okD(7) [OF ok] by (simp add: map_rep_def)
  ultimately have "x = z" using x(1) by (auto dest: inj_onD)
  with z(2) x(2) other show False by simp
qed

lemma client_cancel_exact:
  assumes rep: "book_rep c qs" and shallow: "\<And>d q. q \<in> set (qs d) \<Longrightarrow> length q \<le> MAX_ORDERS_AT_PRICE_LEVEL"
  shows "\<exists>n c' qs'. order_book_cancel_client_orders cid c = Some (n, c') \<and> book_rep c' qs'
     \<and> (\<forall>y. in_book (abs_book c' qs') y \<longleftrightarrow> in_book (abs_book c qs) y \<and> o_client_id y \<noteq> cid)"
proof -
  from order_book_cancel_client_orders_ok [OF rep, of cid] obtain c' qs' where
    c': "order_book_cancel_client_orders cid c = Some (length (scan_keys c qs cid), c')" "book_rep c' qs'"
      "abs_book c' qs' = fst (spec_cancels (abs_book c qs) (scan_keys c qs cid))" by (auto simp: split_beta)
  have "in_book (abs_book c' qs') y" if "in_book (abs_book c qs) y" "o_client_id y \<noteq> cid" for y
    using that client_keys_others [OF rep that] unfolding c'(3) in_book_cancels by blast
  moreover have "in_book (abs_book c qs) y \<and> o_client_id y \<noteq> cid" if "in_book (abs_book c' qs') y" for y
    by (rule client_gone [OF rep shallow that [unfolded c'(3)]])
  ultimately show ?thesis using c'(1,2) by blast
qed

end
