(* ===== verification/ME_Examples.thy ===== *)
theory ME_Examples
  imports ME_Engine_Run ME_Book_Props
begin

text \<open>
  Concrete states for the witnesses of the properties: a freshly initialised pool, book and
  engine, a few messages, and the states these lead to.  The states after a message are given by
  the refinement lemmas, with their abstract book written out.
\<close>

definition no_order :: order_t where
  "no_order = \<lparr>o_user_id = 0, o_user_order_id = 0, o_price = 0, o_quantity = 0, o_remaining_qty = 0, o_side = 0,
     o_type = 0, o_client_id = 0, o_timestamp = 0, o_next = None, o_prev = None\<rparr>"

definition raw_pool :: order_pool_t where
  "raw_pool = \<lparr>p_orders = (\<lambda>_. no_order), p_free_list = (\<lambda>_. 0), p_free_count = 0, p_total_allocations = 0,
     p_peak_usage = 0, p_allocation_failures = 0\<rparr>"

definition fresh_pool :: order_pool_t where
  "fresh_pool = order_pool_init raw_pool"

lemma fresh_pool_ok: "pool_ok fresh_pool" "allocated fresh_pool = {}" "p_free_count fresh_pool = MAX_ORDERS_IN_POOL"
  "memory_pools_init raw_pool = Some fresh_pool"
  unfolding fresh_pool_def
  by (simp_all only: pool_ok_init allocated_init) (simp_all add: order_pool_init_def memory_pools_init_def asserts Let_def)

lemma pool_slots: "{} \<noteq> {..<MAX_ORDERS_IN_POOL}" "{..<MAX_ORDERS_IN_POOL} \<noteq> {}"
  by (metis lessThan_empty_iff zero_neq_numeral)+

definition ibm_book :: order_book_t where
  "ibm_book = zero_book\<lparr>ob_symbol := ''IBM'', ob_order_map := order_map_clear (ob_order_map zero_book)\<rparr>"

definition ibm_ctx :: ctx where
  "ibm_ctx = \<lparr>cx_book = ibm_book, cx_pool = fresh_pool, cx_out = []\<rparr>"

lemma symbol_ok_ibm: "symbol_ok ''IBM''"
  by (simp add: symbol_ok_def c_string_def)

lemma ibm_book_init: "order_book_init zero_book ''IBM'' = Some ibm_book"
  by (simp add: order_book_init_def asserts ibm_book_def zero_book_def order_map_init_def order_map_clear_def Let_def
      copy_until_nul_takeWhile)

lemma ibm_ctx_rep: "book_rep ibm_ctx (\<lambda>_. [])" "\<not> fs_in_progress (ob_flush_state ibm_book)"
  using order_book_init_ok [OF symbol_ok_ibm fresh_pool_ok(1), of zero_book] by (simp_all add: ibm_book_init ibm_ctx_def)

lemma ibm_ctx_abs: "abs_book ibm_ctx (\<lambda>_. []) = empty_abook ''IBM''"
  by (simp add: abs_book_def abs_sides_def abs_side_def ibm_ctx_def ibm_book_def zero_book_def empty_abook_def get_num_def fun_eq_iff)

lemma ibm_ctx_room: "allocated (cx_pool ibm_ctx) \<noteq> {..<MAX_ORDERS_IN_POOL}" "allocated (cx_pool ibm_ctx) = {}"
  by (simp_all add: ibm_ctx_def fresh_pool_ok pool_slots del: lessThan_eq_iff)

subsection \<open>Messages\<close>

definition sell_msg :: new_order_msg_t where
  "sell_msg = \<lparr>no_user_id = 1, no_user_order_id = 7, no_price = 100, no_quantity = 10, no_side = SIDE_SELL, no_symbol = ''IBM''\<rparr>"

definition buy_msg :: new_order_msg_t where
  "buy_msg = \<lparr>no_user_id = 2, no_user_order_id = 3, no_price = 105, no_quantity = 4, no_side = SIDE_BUY, no_symbol = ''IBM''\<rparr>"

definition low_buy_msg :: new_order_msg_t where
  "low_buy_msg = buy_msg\<lparr>no_price := 90\<rparr>"

lemmas msg_defs = sell_msg_def buy_msg_def low_buy_msg_def

lemma order_map_room_fresh: "order_map_room (ob_order_map ibm_book) k"
  by (simp add: ibm_book_def order_map_room_clear)

lemma ibm_add_pre: "add_pre ibm_ctx (\<lambda>_. []) sell_msg"
  unfolding add_pre_def ibm_ctx_abs
  by (simp add: msg_defs valid_ids_def empty_abook_def resting_ids_def level_room_def ibm_ctx_def order_map_room_fresh)

subsection \<open>A book with one resting order\<close>

definition ask :: order_t where
  "ask = order_of_msg sell_msg 11 0"

definition ask_book :: abook where
  "ask_book = \<lparr>ab_symbol = ''IBM'', ab_side = (\<lambda>d. if d then [] else [(100, [ask])]),
     ab_prev = (\<lambda>d. if d then (0, 0) else (100, 10)), ab_active = (\<lambda>d. \<not> d)\<rparr>"

lemma spec_add_ask: "fst (spec_add (empty_abook ''IBM'') ask) = ask_book"
  by (simp add: spec_add_def spec_match_def spec_tob_def empty_abook_def ask_book_def ask_def msg_defs rests_def Let_def
      queue_qty_def fun_eq_iff order_of_msg_def)

lemma allocated_orders:
  assumes "book_rep c qs" and "others_kept ibm_ctx (\<lambda>_. []) c qs"
  shows "allocated (cx_pool c) = set (all_orders qs)"
  using assms ibm_ctx_room(2) by (auto simp: others_kept_def all_orders_def book_rep_def book_ok_def)

lemma length_orders:
  assumes "book_rep c qs"
  shows "length (all_orders qs) = length (flat (abs_sides c qs True)) + length (flat (abs_sides c qs False))"
  using assms by (simp add: flat_abs_sides book_rep_def all_orders_def)

lemma level_length:
  fixes qs :: queues
  assumes "q \<in> set (qs d)"
  shows "length q \<le> length (all_orders qs)"
proof -
  obtain xs ys where "qs d = xs @ q # ys" using split_list [OF assms] by blast
  then have "length q \<le> length (concat (qs d))" by simp
  also have "\<dots> \<le> length (all_orders qs)" by (simp add: all_orders_side(3) [of qs d])
  finally show ?thesis .
qed

text \<open>The state after \<open>sell_msg\<close>: one order rests, the pool has room and every map has too.\<close>

definition ask_state :: "ctx \<Rightarrow> queues \<Rightarrow> bool" where
  "ask_state c qs \<longleftrightarrow> order_book_add_order sell_msg 11 0 ibm_ctx = Some c \<and> book_rep c qs \<and> abs_book c qs = ask_book
     \<and> allocated (cx_pool c) \<noteq> {..<MAX_ORDERS_IN_POOL} \<and> small_levels qs \<and> \<not> fs_in_progress (ob_flush_state (cx_book c))
     \<and> length (all_orders qs) = 1"

lemma ask_state_ex: "\<exists>c qs. ask_state c qs"
proof -
  from order_book_add_order_ok [OF ibm_ctx_rep(1) ibm_add_pre ibm_ctx_room(1), of 11 0] obtain c qs where
    c: "order_book_add_order sell_msg 11 0 ibm_ctx = Some c" "book_rep c qs"
      "abs_book c qs = fst (spec_add (abs_book ibm_ctx (\<lambda>_. [])) ask)" "others_kept ibm_ctx (\<lambda>_. []) c qs"
      "ob_flush_state (cx_book c) = ob_flush_state (cx_book ibm_ctx)" by (auto simp: ask_def split_beta)
  have abs: "abs_book c qs = ask_book" using c(3) unfolding ibm_ctx_abs spec_add_ask .
  have "abs_sides c qs = ab_side ask_book" using arg_cong [OF abs, of ab_side] by simp
  then have one: "length (all_orders qs) = 1" using length_orders [OF c(2)] by (simp add: ask_book_def)
  then have "card (allocated (cx_pool c)) \<le> 1" unfolding allocated_orders [OF c(2,4)] by (metis card_length)
  then have "allocated (cx_pool c) \<noteq> {..<MAX_ORDERS_IN_POOL}" using card_lessThan [of MAX_ORDERS_IN_POOL] by (metis numeral_le_one_iff semiring_norm(69))
  moreover have "small_levels qs" using one level_length unfolding small_levels_def by (metis le_less_trans one_less_numeral_iff semiring_norm(76))
  ultimately show ?thesis using c abs one ibm_ctx_rep(2) by (auto simp: ask_state_def ibm_ctx_def)
qed

lemma ask_buy_pre:
  assumes "ask_state c qs" and "no_price msg = 0" "side_is_valid (no_side msg)" "0 < no_quantity msg"
    "valid_ids (no_user_id msg) (no_user_order_id msg)"
  shows "add_pre c qs msg"
  using assms by (simp add: add_pre_def)

definition market_msg :: new_order_msg_t where
  "market_msg = buy_msg\<lparr>no_price := 0\<rparr>"

lemma market_pre: "ask_state c qs \<Longrightarrow> add_pre c qs market_msg"
  by (rule ask_buy_pre) (simp_all add: market_msg_def buy_msg_def valid_ids_def)

lemma spec_add_market:
  "ab_side (fst (spec_add ask_book (order_of_msg market_msg 12 1))) = (\<lambda>d. if d then [] else [(100, [ask\<lparr>o_remaining_qty := 6\<rparr>])])"
  by (simp add: spec_add_def spec_match_def spec_tob_def ask_book_def ask_def msg_defs market_msg_def rests_def Let_def can_match_def
      fun_eq_iff order_of_msg_def)

lemma spec_cancel_ask: "ab_side (fst (spec_cancel ask_book 1 7)) = (\<lambda>_. [])"
proof -
  have "resting_ids ask_book 1 7" by (auto simp: resting_ids_def ask_book_def ask_def sell_msg_def has_ids_def intro!: exI [of _ False])
  then show ?thesis
    by (simp add: fun_eq_iff spec_cancel_side) (simp add: remove_order_def ask_book_def ask_def sell_msg_def has_ids_def)
qed

subsection \<open>A fresh engine\<close>

definition raw_engine :: matching_engine_t where
  "raw_engine = \<lparr>me_symbol_map = \<lparr>sm_slots = (\<lambda>_. \<lparr>sm_symbol = [], sm_book_index = 0\<rparr>), sm_count = 0\<rparr>,
     me_order_to_symbol = \<lparr>os_slots = (\<lambda>_. \<lparr>os_order_key = 0, os_symbol = []\<rparr>), os_count = 0, os_tombstone_count = 0\<rparr>,
     me_books = (\<lambda>_. zero_book), me_num_books = 0, me_pools = False\<rparr>"

definition fresh_engine :: engine_ctx where
  "fresh_engine = \<lparr>en_engine = matching_engine_init raw_engine, en_pool = fresh_pool, en_out = []\<rparr>"

abbreviation no_queues :: "nat \<Rightarrow> queues" where
  "no_queues \<equiv> (\<lambda>_ _. [])"

lemma fresh_engine_rep: "engine_rep fresh_engine no_queues" "abs_engine fresh_engine no_queues = Map.empty" "idle fresh_engine"
  unfolding fresh_engine_def by (rule matching_engine_init_ok [OF fresh_pool_ok(1,2)])+

lemma fresh_engine_run: "engine_run False fresh_engine"
  unfolding fresh_engine_def by (rule engine_run.start [OF fresh_pool_ok(4)])

lemma fresh_engine_out: "fresh_engine\<lparr>en_out := []\<rparr> = fresh_engine"
  by (simp add: fresh_engine_def)

lemma fresh_engine_room: "allocated (en_pool fresh_engine) \<noteq> {..<MAX_ORDERS_IN_POOL}" "me_num_books (en_engine fresh_engine) = 0"
  "p_free_count (en_pool fresh_engine) = MAX_ORDERS_IN_POOL"
  by (simp_all add: fresh_engine_def fresh_pool_ok matching_engine_init_def pool_slots)

lemma fresh_engine_takes: "admissible fresh_engine (INPUT_MSG_NEW_ORDER sell_msg)"
proof -
  have "symbol_map_lookup (me_symbol_map (en_engine fresh_engine)) ''IBM'' = None"
    using symbol_map_init_ok(2) [OF symbol_ok_ibm] by (simp add: fresh_engine_def matching_engine_init_def)
  then show ?thesis by (simp add: takes_new_order_def msg_defs symbol_ok_ibm valid_ids_def)
qed

lemma fresh_engine_add_pre: "engine_add_pre fresh_engine no_queues sell_msg"
  by (rule takes_engine_add_pre [OF fresh_engine_rep(1)]) (use fresh_engine_takes in \<open>simp_all add: fresh_engine_room\<close>)

text \<open>The engine after \<open>sell_msg\<close>.\<close>

definition ask_engine :: "engine_ctx \<Rightarrow> (nat \<Rightarrow> queues) \<Rightarrow> bool" where
  "ask_engine e Q \<longleftrightarrow> matching_engine_process_new_order sell_msg 11 0 fresh_engine = Some e \<and> engine_run False e
     \<and> engine_rep e Q \<and> idle e \<and> abs_engine e Q = [''IBM'' \<mapsto> ask_book]"

lemma ask_engine_ex: "\<exists>e Q. ask_engine e Q"
proof -
  from process_new_order_ok [OF fresh_engine_rep(1) fresh_engine_add_pre fresh_engine_room(1), of 11 0] obtain e Q where
    e: "matching_engine_process_new_order sell_msg 11 0 fresh_engine = Some e" "engine_rep e Q" "idle fresh_engine \<longrightarrow> idle e"
      "abs_engine e Q = (abs_engine fresh_engine no_queues)(no_symbol sell_msg \<mapsto>
         fst (spec_add (book_of (abs_engine fresh_engine no_queues) (no_symbol sell_msg)) ask))"
    by (auto simp: split_beta ask_def)
  have "abs_engine e Q = [''IBM'' \<mapsto> ask_book]"
    using e(4) by (simp add: fresh_engine_rep(2) book_of_def spec_add_ask sell_msg_def)
  moreover have "engine_run False e"
    by (rule engine_run.message [OF fresh_engine_run fresh_engine_takes, of 11 0]) (simp_all add: matching_engine_process_message_def e(1))
  ultimately show ?thesis using e fresh_engine_rep(3) by (auto simp: ask_engine_def)
qed

lemma fresh_engine_untracked: "tracked fresh_engine u i = None"
  using order_symbol_map_clear_ok(3) [of "me_order_to_symbol raw_engine" "order_key u i"]
  by (simp add: tracked_def fresh_engine_def matching_engine_init_def order_symbol_map_init_def order_symbol_map_clear_def)

lemma ask_engine_tracked: "\<exists>e Q. ask_engine e Q \<and> tracked e 1 7 = Some ''IBM''"
proof -
  from ask_engine_ex obtain e Q where a: "ask_engine e Q" by blast
  then have run: "matching_engine_process_new_order sell_msg 11 0 fresh_engine = Some e" by (simp add: ask_engine_def)
  let ?k = "order_key 1 7" and ?m = "order_symbol_map_init (me_order_to_symbol raw_engine)"
  have k: "\<not> key_free ?k" by (rule order_key_not_free) (simp add: valid_ids_def)
  from run obtain r eng1 where g: "matching_engine_get_order_book (en_engine fresh_engine) ''IBM'' = Some (r, eng1)"
    by (auto simp: matching_engine_process_new_order_def bind_eq_Some_conv sell_msg_def)
  have m: "me_order_to_symbol eng1 = ?m" using get_order_book_tracking [OF g] by (simp add: fresh_engine_def matching_engine_init_def)
  have "os.place (os_slots ?m) ?k \<noteq> None"
    using os.place_room [of 0 "os_slots ?m" ?k] by (simp add: order_symbol_map_init_def)
  then obtain m' where ins: "order_symbol_map_insert ?m ?k ''IBM'' = Some (True, m')"
    using order_symbol_map_insert_eq [OF k, of ?m "''IBM''"] by (auto split: option.splits)
  have "order_symbol_get m' ?k = Some (order_symbol_copy ''IBM'')"
    by (rule order_symbols.get_inserted [OF order_symbol_map_clear_ok(2) k ins])
  moreover from get_order_book_new [OF fresh_engine_rep(1) symbol_ok_ibm] fresh_engine_rep(2) fresh_engine_room(2) g
  obtain i where "r = Some i" by auto
  with run g m ins have "me_order_to_symbol (en_engine e) = m'"
    by (auto simp: matching_engine_process_new_order_def bind_eq_Some_conv sell_msg_def make_order_key_eq on_book_def valid_ids_def)
  ultimately show ?thesis using a by (auto simp: tracked_def order_symbol_copy_short)
qed

lemma ask_engine_free:
  assumes "ask_engine e Q"
  shows "p_free_count (en_pool e) > 0"
proof -
  have rep: "engine_rep e Q" and E: "abs_engine e Q = [''IBM'' \<mapsto> ask_book]" using assms by (simp_all add: ask_engine_def)
  have "length (all_orders (Q i)) = 1" if i: "i < me_num_books (en_engine e)" for i
  proof -
    have "abs_book (book_ctx i e) (Q i) = ask_book" using book_abs_engine [OF rep i] by (simp add: E split: if_splits)
    then have "abs_sides (book_ctx i e) (Q i) = ab_side ask_book" by (metis ab_side_abs)
    then show ?thesis using length_orders [OF engine_repD(8) [OF rep i]] by (simp add: ask_book_def)
  qed
  then have "card (set (all_orders (Q i))) \<le> 1" if "i < me_num_books (en_engine e)" for i using that card_length by metis
  then have "card (\<Union>i<me_num_books (en_engine e). set (all_orders (Q i))) \<le> (\<Sum>i<me_num_books (en_engine e). 1)"
    by (intro order_trans [OF card_UN_le] sum_mono) auto
  then have "card (allocated (en_pool e)) \<le> 64" unfolding engine_repD(10) [OF rep] using engine_repD(1) [OF rep] by simp
  then show ?thesis using card_allocated [OF engine_repD(2) [OF rep]] by simp
qed

text \<open>An engine with all its books in use, for the symbols of one letter from \<open>A\<close> on.\<close>

definition nth_symbol :: "nat \<Rightarrow> string" where
  "nth_symbol k = [char_of (65 + k)]"

lemma nth_symbol: "k < 64 \<Longrightarrow> symbol_ok (nth_symbol k)" "k < 64 \<Longrightarrow> j < 64 \<Longrightarrow> nth_symbol k = nth_symbol j \<longleftrightarrow> k = j"
  "nth_symbol k \<noteq> ''IBM''"
proof -
  have of: "(of_char (char_of (65 + k)) :: nat) = 65 + k" if "k < 64" for k using that by (simp add: of_char_of)
  show "symbol_ok (nth_symbol k)" if "k < 64"
    using of [OF that] by (auto simp: symbol_ok_def nth_symbol_def c_string_def dest: arg_cong [where f = "of_char :: char \<Rightarrow> nat"])
  show "nth_symbol k = nth_symbol j \<longleftrightarrow> k = j" if "k < 64" "j < 64"
    using of [OF that(1)] of [OF that(2)] by (auto simp: nth_symbol_def)
  show "nth_symbol k \<noteq> ''IBM''" by (simp add: nth_symbol_def)
qed

lemma engine_with_books:
  assumes "n \<le> 64"
  shows "\<exists>e Q. engine_rep e Q \<and> me_num_books (en_engine e) = n \<and> dom (abs_engine e Q) = nth_symbol ` {..<n}"
  using assms
proof (induction n)
  case 0
  show ?case using fresh_engine_rep fresh_engine_room(2) by (intro exI [of _ fresh_engine] exI [of _ no_queues]) simp
next
  case (Suc n)
  then obtain e Q where e: "engine_rep e Q" "me_num_books (en_engine e) = n" "dom (abs_engine e Q) = nth_symbol ` {..<n}" by auto
  have n: "n < 64" "me_num_books (en_engine e) < MAX_SYMBOLS" using Suc.prems e(2) by simp_all
  have "nth_symbol n \<notin> nth_symbol ` {..<n}" using n nth_symbol(2) by auto
  then have new: "abs_engine e Q (nth_symbol n) = None" using e(3) by blast
  from get_order_book_new [OF e(1) nth_symbol(1) [OF n(1)] new n(2)] e obtain eng' Q' where
    r: "engine_rep (e\<lparr>en_engine := eng'\<rparr>) Q'" "me_num_books eng' = Suc n"
    "abs_engine (e\<lparr>en_engine := eng'\<rparr>) Q' = (abs_engine e Q)(nth_symbol n \<mapsto> empty_abook (nth_symbol n))" by blast
  have "dom (abs_engine (e\<lparr>en_engine := eng'\<rparr>) Q') = nth_symbol ` {..<Suc n}"
    unfolding r(3) using e(3) by (metis dom_fun_upd image_insert lessThan_Suc option.distinct(1))
  moreover have "me_num_books (en_engine (e\<lparr>en_engine := eng'\<rparr>)) = Suc n" using r(2) by simp
  ultimately show ?case using r(1) by blast
qed

lemma full_engine_ex: "\<exists>e Q. engine_rep e Q \<and> me_num_books (en_engine e) = MAX_SYMBOLS \<and> abs_engine e Q ''IBM'' = None"
proof -
  from engine_with_books [of 64] obtain e Q where
    "engine_rep e Q" "me_num_books (en_engine e) = 64" "dom (abs_engine e Q) = nth_symbol ` {..<64}" by auto
  with nth_symbol(3) show ?thesis by (metis domIff imageE)
qed

end
