(* ===== verification/ME_Symbol_Router.thy ===== *)
theory ME_Symbol_Router
  imports ME_Prelude
begin

text \<open>
  \<^verbatim>\<open>include/protocol/symbol_router.h\<close>: which of the two processors handles a symbol.  A
  \<^verbatim>\<open>const char*\<close> that may be \<^verbatim>\<open>NULL\<close> is a \<open>string option\<close>; \<^verbatim>\<open>unsigned int\<close> is \<open>u32\<close> and a
  comparison is the word 0 or 1, as in the branch-free code.
\<close>

abbreviation NUM_PROCESSORS :: nat where
  "NUM_PROCESSORS \<equiv> 2"

abbreviation PROCESSOR_ID_A_TO_M :: int where
  "PROCESSOR_ID_A_TO_M \<equiv> 0"

abbreviation PROCESSOR_ID_N_TO_Z :: int where
  "PROCESSOR_ID_N_TO_Z \<equiv> 1"

definition c_bool :: "bool \<Rightarrow> u32" where
  "c_bool b = (if b then 1 else 0)"

text \<open>The first character of a C string, the terminator when it is empty.\<close>

definition first_char :: "string \<Rightarrow> char" where
  "first_char s = (case s of [] \<Rightarrow> CHR 0x00 | c # _ \<Rightarrow> c)"

definition get_processor_id_for_char :: "char \<Rightarrow> int option" where
  "get_processor_id_for_char first =
     (if first = CHR 0x00 then Some PROCESSOR_ID_A_TO_M
      else do {
        let c = (of_char first :: u32);
        let is_lower = c_bool (c \<ge> of_char CHR ''a'') AND c_bool (c \<le> of_char CHR ''z'');
        let c' = c - is_lower * (of_char CHR ''a'' - of_char CHR ''A'');
        let is_upper_n_to_z = c_bool (c' \<ge> of_char CHR ''N'') AND c_bool (c' \<le> of_char CHR ''Z'');
        let result = sint is_upper_n_to_z;
        assert_that (result = 0 \<or> result = 1);
        Some result
      })"

definition get_processor_id_for_symbol :: "string option \<Rightarrow> int option" where
  "get_processor_id_for_symbol symbol =
     (case symbol of
        None \<Rightarrow> Some PROCESSOR_ID_A_TO_M
      | Some s \<Rightarrow>
          if first_char s = CHR 0x00 then Some PROCESSOR_ID_A_TO_M
          else do {
            let c = (of_char (first_char s) :: u32);
            let is_lower = c_bool (c \<ge> of_char CHR ''a'') AND c_bool (c \<le> of_char CHR ''z'');
            let c' = c - is_lower * (of_char CHR ''a'' - of_char CHR ''A'');
            let is_upper_n_to_z = c_bool (c' \<ge> of_char CHR ''N'') AND c_bool (c' \<le> of_char CHR ''Z'');
            let result = sint is_upper_n_to_z;
            assert_that (result = 0 \<or> result = 1);
            Some result
          })"

definition symbol_char_is_valid :: "char \<Rightarrow> bool" where
  "symbol_char_is_valid first =
     (if first = CHR 0x00 then False
      else let c = (of_char first :: u32);
               is_upper = c_bool (c \<ge> of_char CHR ''A'') AND c_bool (c \<le> of_char CHR ''Z'');
               is_lower = c_bool (c \<ge> of_char CHR ''a'') AND c_bool (c \<le> of_char CHR ''z'')
           in is_upper OR is_lower \<noteq> 0)"

definition symbol_is_valid :: "string option \<Rightarrow> bool" where
  "symbol_is_valid symbol =
     (case symbol of
        None \<Rightarrow> False
      | Some s \<Rightarrow>
          if first_char s = CHR 0x00 then False
          else let c = (of_char (first_char s) :: u32);
                   is_upper = c_bool (c \<ge> of_char CHR ''A'') AND c_bool (c \<le> of_char CHR ''Z'');
                   is_lower = c_bool (c \<ge> of_char CHR ''a'') AND c_bool (c \<le> of_char CHR ''z'')
               in is_upper OR is_lower \<noteq> 0)"

definition get_processor_name :: "int \<Rightarrow> string" where
  "get_processor_name processor_id =
     (let names = [''A-M'', ''N-Z'', ''Unknown''] in
      if processor_id < 0 \<or> processor_id \<ge> int NUM_PROCESSORS then names ! 2
      else names ! nat processor_id)"

definition get_processor_id_for_symbol_debug :: "string option \<Rightarrow> int option" where
  "get_processor_id_for_symbol_debug symbol = do {
     result \<leftarrow> get_processor_id_for_symbol symbol;
     assert_that (result \<ge> 0 \<and> result < int NUM_PROCESSORS);
     again \<leftarrow> get_processor_id_for_symbol symbol;
     assert_that (again = result);
     Some result
   }"

subsection \<open>Facts\<close>

text \<open>The partition the comment of the header promises.\<close>

definition n_to_z :: "char \<Rightarrow> bool" where
  "n_to_z c \<longleftrightarrow> c \<in> set ''NOPQRSTUVWXYZnopqrstuvwxyz''"

definition letter :: "char \<Rightarrow> bool" where
  "letter c \<longleftrightarrow> c \<in> set ''ABCDEFGHIJKLMNOPQRSTUVWXYZabcdefghijklmnopqrstuvwxyz''"

lemma char_eq_nat: "c = d \<longleftrightarrow> (of_char c :: nat) = of_char d"
  by simp

lemma n_to_z_code: "n_to_z c \<longleftrightarrow> (let n = (of_char c :: nat) in (78 \<le> n \<and> n \<le> 90) \<or> (110 \<le> n \<and> n \<le> 122))"
  unfolding n_to_z_def Let_def by (simp only: list.set insert_iff empty_iff char_eq_nat) (simp; arith)

lemma letter_code: "letter c \<longleftrightarrow> (let n = (of_char c :: nat) in (65 \<le> n \<and> n \<le> 90) \<or> (97 \<le> n \<and> n \<le> 122))"
  unfolding letter_def Let_def by (simp only: list.set insert_iff empty_iff char_eq_nat) (simp; arith)

lemma unat_of_char: "unat (of_char c :: u32) = of_char c"
proof -
  have "unat (of_nat (of_char c) :: u32) = of_char c mod 2 ^ 32" by (simp add: unat_of_nat)
  also have "\<dots> = of_char c" by (rule mod_less, rule less_trans [OF nat_of_char_less_256]) simp
  finally show ?thesis unfolding of_nat_of_char .
qed

lemma c_bool_simps [simp]: "c_bool a AND c_bool b = c_bool (a \<and> b)" "c_bool a OR c_bool b = c_bool (a \<or> b)"
  "c_bool a \<noteq> 0 \<longleftrightarrow> a" "sint (c_bool a) = (if a then 1 else 0)"
  by (simp_all add: c_bool_def)

text \<open>Clearing the lower-case bit keeps the order of the letters.\<close>

lemma upper_ranges:
  fixes c :: char
  defines "u \<equiv> (of_char c :: u32) - c_bool (of_char CHR ''a'' \<le> (of_char c :: u32) \<and> (of_char c :: u32) \<le> of_char CHR ''z'')
      * (of_char CHR ''a'' - of_char CHR ''A'')"
  shows "of_char CHR ''N'' \<le> u \<and> u \<le> of_char CHR ''Z'' \<longleftrightarrow> n_to_z c"
proof -
  let ?n = "of_char c :: nat"
  have "unat u = (if 97 \<le> ?n \<and> ?n \<le> 122 then ?n - 32 else ?n)"
  proof (cases "97 \<le> ?n \<and> ?n \<le> 122")
    case True
    then have "u = of_char c - 32" by (simp add: u_def word_le_nat_alt unat_of_char c_bool_def)
    moreover have "(32 :: u32) \<le> of_char c" using True by (simp add: word_le_nat_alt unat_of_char)
    ultimately show ?thesis using True by (simp add: unat_sub unat_of_char)
  next
    case False
    then show ?thesis by (auto simp: u_def word_le_nat_alt unat_of_char c_bool_def)
  qed
  then show ?thesis unfolding n_to_z_code Let_def word_le_nat_alt unat_of_char by auto
qed

lemma get_processor_id_for_char_eq: "get_processor_id_for_char c = Some (if n_to_z c then 1 else 0)"
proof (cases "c = CHR 0x00")
  case True
  then show ?thesis by (simp add: get_processor_id_for_char_def n_to_z_def)
next
  case False
  then show ?thesis unfolding get_processor_id_for_char_def Let_def using upper_ranges [of c] by (simp add: asserts)
qed

lemma get_processor_id_for_symbol_char:
  "get_processor_id_for_symbol (Some s) = get_processor_id_for_char (first_char s)"
  by (simp add: get_processor_id_for_symbol_def get_processor_id_for_char_def)

lemma symbol_char_is_valid_eq: "symbol_char_is_valid c \<longleftrightarrow> letter c"
proof -
  have "symbol_char_is_valid c \<longleftrightarrow> c \<noteq> CHR 0x00 \<and> letter c"
    by (simp add: symbol_char_is_valid_def word_le_nat_alt unat_of_char letter_code Let_def)
  then show ?thesis by (auto simp: letter_def)
qed

lemma symbol_is_valid_char: "symbol_is_valid (Some s) = symbol_char_is_valid (first_char s)"
  by (simp add: symbol_is_valid_def symbol_char_is_valid_def)

lemma get_processor_id_for_symbol_debug_eq:
  "get_processor_id_for_symbol_debug symbol = get_processor_id_for_symbol symbol"
  by (cases symbol) (simp_all add: get_processor_id_for_symbol_debug_def get_processor_id_for_symbol_char
      get_processor_id_for_char_eq asserts, simp add: get_processor_id_for_symbol_def)

end
