(* ===== verification/ME_Bytes.thy ===== *)
theory ME_Bytes
  imports ME_Prelude
begin

text \<open>
  Byte buffers, shared by the framing layer and the binary protocol: arrays of bytes with
  the effect of \<^verbatim>\<open>memcpy\<close> and \<^verbatim>\<open>memmove\<close>, and 32-bit integers in network byte order
  (\<^verbatim>\<open>htonl\<close>, \<^verbatim>\<open>ntohl\<close> and a copy).  \<^verbatim>\<open>char\<close> arrays that hold raw data are arrays of \<open>u8\<close>.
\<close>

type_synonym byte_array = "nat \<Rightarrow> u8"

definition arr_read :: "(nat \<Rightarrow> 'a) \<Rightarrow> nat \<Rightarrow> nat \<Rightarrow> 'a list" where
  "arr_read a pos n = map (\<lambda>i. a (pos + i)) [0..<n]"

definition arr_write :: "(nat \<Rightarrow> 'a) \<Rightarrow> nat \<Rightarrow> 'a list \<Rightarrow> (nat \<Rightarrow> 'a)" where
  "arr_write a pos xs = (\<lambda>i. if pos \<le> i \<and> i < pos + length xs then xs ! (i - pos) else a i)"

lemma length_arr_read [simp]: "length (arr_read a p n) = n"
  by (simp add: arr_read_def)

lemma nth_arr_read [simp]: "i < n \<Longrightarrow> arr_read a p n ! i = a (p + i)"
  by (simp add: arr_read_def)

lemma arr_read_list: "p + n \<le> k \<Longrightarrow> arr_read a p n = take n (drop p (arr_list a k))"
  by (rule nth_equalityI) auto

lemma arr_read_write: "arr_read (arr_write a p xs) p (length xs) = xs"
  by (rule nth_equalityI) (auto simp: arr_write_def)

lemma arr_list_write: "p \<le> n \<Longrightarrow> p + length xs = k \<Longrightarrow> n = p \<Longrightarrow> arr_list (arr_write a p xs) k = arr_list a n @ xs"
  by (rule nth_equalityI) (auto simp: arr_write_def nth_append)

lemma arr_list_write_front: "arr_list (arr_write a 0 xs) (length xs) = xs"
  by (rule nth_equalityI) (auto simp: arr_write_def)

subsection \<open>Network byte order\<close>

definition be32 :: "u32 \<Rightarrow> u8 list" where
  "be32 w = [ucast (drop_bit 24 w), ucast (drop_bit 16 w), ucast (drop_bit 8 w), ucast w]"

definition un_be32 :: "u8 list \<Rightarrow> u32" where
  "un_be32 bs = push_bit 24 (ucast (bs ! 0)) OR push_bit 16 (ucast (bs ! 1))
     OR push_bit 8 (ucast (bs ! 2)) OR ucast (bs ! 3)"

lemma length_be32 [simp]: "length (be32 w) = 4"
  by (simp add: be32_def)

lemma bytes_of_word:
  fixes w :: u32
  shows "push_bit 24 (ucast (ucast (drop_bit 24 w) :: u8)) OR push_bit 16 (ucast (ucast (drop_bit 16 w) :: u8))
     OR push_bit 8 (ucast (ucast (drop_bit 8 w) :: u8)) OR ucast (ucast w :: u8) = w" (is "?l = _")
proof (rule bit_word_eqI)
  fix n
  assume "n < LENGTH(32)"
  then consider "n < 8" | "8 \<le> n" "n < 16" | "16 \<le> n" "n < 24" | "24 \<le> n" "n < 32" by fastforce
  then show "bit ?l n = bit w n" by cases (auto simp: bit_simps)
qed

lemma un_be32_be32_append: "un_be32 (be32 w @ xs) = w"
  using bytes_of_word [of w] by (simp add: un_be32_def be32_def)

lemma un_be32_be32 [simp]: "un_be32 (be32 w) = w"
  using un_be32_be32_append [of w "[]"] by simp

lemma un_be32_take: "4 \<le> n \<Longrightarrow> un_be32 (take n bs) = un_be32 bs"
  by (simp add: un_be32_def)

lemma word_of_bytes:
  fixes a b c d :: u8
  defines "w \<equiv> push_bit 24 (ucast a) OR push_bit 16 (ucast b) OR push_bit 8 (ucast c) OR (ucast d :: u32)"
  shows "ucast (drop_bit 24 w) = a" "ucast (drop_bit 16 w) = b" "ucast (drop_bit 8 w) = c" "ucast w = d"
  unfolding w_def by (rule bit_word_eqI; auto simp: bit_simps dest: bit_imp_le_length)+

lemma be32_un_be32: "length bs = 4 \<Longrightarrow> be32 (un_be32 bs) = bs"
proof -
  assume len: "length bs = 4"
  have "bs = [bs ! 0, bs ! 1, bs ! 2, bs ! 3]"
    by (rule nth_equalityI) (auto simp: len less_Suc_eq numeral_eq_Suc)
  then show ?thesis
    unfolding be32_def un_be32_def word_of_bytes by simp
qed

subsection \<open>Bytes and characters\<close>

definition byte_char :: "u8 \<Rightarrow> char" where
  "byte_char b = char_of (unat b)"

lemma unat_of_char_u8: "unat (of_char c :: u8) = of_char c"
proof -
  have "unat (of_nat (of_char c) :: u8) = of_char c mod 256" by (simp add: unat_of_nat)
  then show ?thesis unfolding of_nat_of_char by simp
qed

lemma byte_char_of_char [simp]: "byte_char (of_char c) = c"
  by (simp add: byte_char_def unat_of_char_u8)

lemma of_char_byte_char [simp]: "of_char (byte_char b) = b"
proof -
  have "(of_char (byte_char b) :: u8) = of_nat (of_char (byte_char b))" unfolding of_nat_of_char ..
  also have "\<dots> = of_nat (unat b mod 256)" by (simp add: byte_char_def)
  also have "unat b mod 256 = unat b" using unsigned_less [of b, where ?'a = nat] by simp
  finally show ?thesis by simp
qed

lemma byte_char_0 [simp]: "byte_char 0 = CHR 0x00"
  by (simp add: byte_char_def char_of_def)

lemma map_byte_char [simp]: "map byte_char (map of_char s) = s"
  by (simp add: o_def map_idI)

end
