(* ===== verification/ME_Framing.thy ===== *)
theory ME_Framing
  imports ME_Bytes
begin

text \<open>
  Message framing (\<^verbatim>\<open>src/network/message_framing.c\<close>, \<^verbatim>\<open>include/network/message_framing.h\<close>): every
  message is sent with a four-byte length in network byte order.  The reader accumulates
  what the socket delivers and cuts messages out of it; the writer keeps track of partial
  writes.
\<close>

abbreviation FRAME_HEADER_SIZE :: nat where
  "FRAME_HEADER_SIZE \<equiv> 4"

abbreviation MAX_FRAMED_MESSAGE_SIZE :: nat where
  "MAX_FRAMED_MESSAGE_SIZE \<equiv> 4096"

abbreviation FRAMING_BUFFER_SIZE :: nat where
  "FRAMING_BUFFER_SIZE \<equiv> 4356"

datatype framing_result_t = FRAMING_OK | FRAMING_NEED_MORE_DATA | FRAMING_MESSAGE_READY | FRAMING_ERROR

record framing_read_state_t =
  fr_buffer :: byte_array
  fr_extract_buffer :: byte_array
  fr_buffer_pos :: nat
  fr_expected_length :: nat
  fr_reading_header :: bool

record framing_write_state_t =
  fw_buffer :: byte_array
  fw_total_len :: nat
  fw_bytes_written :: nat

subsection \<open>Reading\<close>

definition framing_read_state_init :: "framing_read_state_t \<Rightarrow> framing_read_state_t option" where
  "framing_read_state_init state = do {
     let state1 = state\<lparr>fr_buffer_pos := 0, fr_expected_length := 0, fr_reading_header := True,
                        fr_buffer := (fr_buffer state)(0 := 0),
                        fr_extract_buffer := (fr_extract_buffer state)(0 := 0)\<rparr>;
     assert_that (fr_buffer_pos state1 = 0);
     Some state1
   }"

definition framing_read_append ::
  "framing_read_state_t \<Rightarrow> u8 list \<Rightarrow> (nat \<times> framing_read_state_t) option" where
  "framing_read_append state data = do {
     assert_that (fr_buffer_pos state \<le> FRAMING_BUFFER_SIZE);
     let len = length data;
     if len = 0 then Some (0, state)
     else do {
       let space_available = FRAMING_BUFFER_SIZE - fr_buffer_pos state;
       let to_copy = (if len < space_available then len else space_available);
       let state1 = (if to_copy > 0
                     then state\<lparr>fr_buffer := arr_write (fr_buffer state) (fr_buffer_pos state) (take to_copy data),
                                fr_buffer_pos := fr_buffer_pos state + to_copy\<rparr>
                     else state);
       assert_that (fr_buffer_pos state1 \<le> FRAMING_BUFFER_SIZE);
       Some (to_copy, state1)
     }
   }"

text \<open>
  The third component of the result is what \<^verbatim>\<open>*msg_data\<close> and \<^verbatim>\<open>*msg_len\<close> describe,
  \<open>None\<close> when the function does not set them.
\<close>

definition framing_read_extract ::
  "framing_read_state_t \<Rightarrow> (framing_result_t \<times> u8 list option \<times> framing_read_state_t) option" where
  "framing_read_extract state = do {
     assert_that (fr_buffer_pos state \<le> FRAMING_BUFFER_SIZE);
     if fr_buffer_pos state < FRAME_HEADER_SIZE then Some (FRAMING_NEED_MORE_DATA, None, state)
     else do {
       let payload_length = un_be32 (arr_read (fr_buffer state) 0 FRAME_HEADER_SIZE);
       if payload_length = 0 then do {
         state1 \<leftarrow> framing_read_state_init state;
         Some (FRAMING_ERROR, None, state1)
       }
       else if payload_length > of_nat MAX_FRAMED_MESSAGE_SIZE then do {
         state1 \<leftarrow> framing_read_state_init state;
         Some (FRAMING_ERROR, None, state1)
       }
       else do {
         let total_message_size = FRAME_HEADER_SIZE + unat payload_length;
         if fr_buffer_pos state < total_message_size then Some (FRAMING_NEED_MORE_DATA, None, state)
         else do {
           assert_that (payload_length \<le> of_nat MAX_FRAMED_MESSAGE_SIZE);
           let extract = arr_write (fr_extract_buffer state) 0
                           (arr_read (fr_buffer state) FRAME_HEADER_SIZE (unat payload_length));
           let remaining = fr_buffer_pos state - total_message_size;
           let buffer = (if remaining > 0
                         then arr_write (fr_buffer state) 0 (arr_read (fr_buffer state) total_message_size remaining)
                         else fr_buffer state);
           let state1 = state\<lparr>fr_extract_buffer := extract, fr_buffer := buffer, fr_buffer_pos := remaining\<rparr>;
           let msg_len = unat payload_length;
           assert_that (fr_buffer_pos state1 \<le> FRAMING_BUFFER_SIZE);
           assert_that (msg_len > 0 \<and> msg_len \<le> MAX_FRAMED_MESSAGE_SIZE);
           Some (FRAMING_MESSAGE_READY, Some (arr_read (fr_extract_buffer state1) 0 msg_len), state1)
         }
       }
     }
   }"

definition framing_read_has_data :: "framing_read_state_t \<Rightarrow> bool" where
  "framing_read_has_data state =
     (if fr_buffer_pos state < FRAME_HEADER_SIZE then False
      else let payload_length = un_be32 (arr_read (fr_buffer state) 0 FRAME_HEADER_SIZE) in
        if payload_length = 0 \<or> payload_length > of_nat MAX_FRAMED_MESSAGE_SIZE then True
        else fr_buffer_pos state \<ge> FRAME_HEADER_SIZE + unat payload_length)"

text \<open>A pointer that may be \<^verbatim>\<open>NULL\<close> is an option.\<close>

definition framing_read_buffered :: "framing_read_state_t option \<Rightarrow> nat" where
  "framing_read_buffered state = (case state of Some s \<Rightarrow> fr_buffer_pos s | None \<Rightarrow> 0)"

subsection \<open>Writing\<close>

definition framing_write_state_init ::
  "framing_write_state_t \<Rightarrow> u8 list \<Rightarrow> (bool \<times> framing_write_state_t) option" where
  "framing_write_state_init state msg = do {
     let msg_len = length msg;
     if msg_len = 0 then Some (False, state)
     else if msg_len > MAX_FRAMED_MESSAGE_SIZE then Some (False, state)
     else do {
       let buffer1 = arr_write (fw_buffer state) 0 (be32 (of_nat msg_len));
       let buffer2 = arr_write buffer1 FRAME_HEADER_SIZE msg;
       let state1 = state\<lparr>fw_buffer := buffer2, fw_total_len := FRAME_HEADER_SIZE + msg_len, fw_bytes_written := 0\<rparr>;
       assert_that (fw_total_len state1 \<le> FRAMING_BUFFER_SIZE);
       Some (True, state1)
     }
   }"

definition framing_write_get_remaining :: "framing_write_state_t \<Rightarrow> u8 list option" where
  "framing_write_get_remaining state = do {
     assert_that (fw_bytes_written state \<le> fw_total_len state);
     Some (arr_read (fw_buffer state) (fw_bytes_written state) (fw_total_len state - fw_bytes_written state))
   }"

definition framing_write_mark_written :: "framing_write_state_t \<Rightarrow> nat \<Rightarrow> framing_write_state_t option" where
  "framing_write_mark_written state len = do {
     assert_that (fw_bytes_written state + len \<le> fw_total_len state);
     Some (state\<lparr>fw_bytes_written := fw_bytes_written state + len\<rparr>)
   }"

definition framing_write_is_complete :: "framing_write_state_t \<Rightarrow> bool" where
  "framing_write_is_complete state = (fw_bytes_written state \<ge> fw_total_len state)"

definition framing_write_remaining :: "framing_write_state_t option \<Rightarrow> nat" where
  "framing_write_remaining state = (case state of Some s \<Rightarrow> fw_total_len s - fw_bytes_written s | None \<Rightarrow> 0)"

text \<open>The output buffer and its length; \<open>None\<close> inside when the function returns false.\<close>

definition frame_message :: "u8 list \<Rightarrow> byte_array \<Rightarrow> (byte_array \<times> nat) option option" where
  "frame_message msg out = do {
     let msg_len = length msg;
     if msg_len = 0 then Some None
     else if msg_len > MAX_FRAMED_MESSAGE_SIZE then Some None
     else do {
       let out1 = arr_write out 0 (be32 (of_nat msg_len));
       let out2 = arr_write out1 FRAME_HEADER_SIZE msg;
       let out_len = FRAME_HEADER_SIZE + msg_len;
       assert_that (out_len = FRAME_HEADER_SIZE + msg_len);
       Some (Some (out2, out_len))
     }
   }"

subsection \<open>The byte stream\<close>

text \<open>The bytes a reader holds, and the bytes of a frame.\<close>

definition pending :: "framing_read_state_t \<Rightarrow> u8 list" where
  "pending state = arr_list (fr_buffer state) (fr_buffer_pos state)"

definition read_ok :: "framing_read_state_t \<Rightarrow> bool" where
  "read_ok state \<longleftrightarrow> fr_buffer_pos state \<le> FRAMING_BUFFER_SIZE"

definition frame :: "u8 list \<Rightarrow> u8 list" where
  "frame msg = be32 (of_nat (length msg)) @ msg"

definition msg_ok :: "u8 list \<Rightarrow> bool" where
  "msg_ok msg \<longleftrightarrow> 0 < length msg \<and> length msg \<le> MAX_FRAMED_MESSAGE_SIZE"

lemma length_pending [simp]: "length (pending state) = fr_buffer_pos state"
  by (simp add: pending_def)

lemma length_frame [simp]: "length (frame m) = 4 + length m"
  by (simp add: frame_def)

lemma arr_list_two_writes:
  "length xs = n \<Longrightarrow> arr_list (arr_write (arr_write a 0 xs) n ys) (n + length ys) = xs @ ys"
  by (rule nth_equalityI) (auto simp: arr_write_def nth_append)

lemma frame_message_ok:
  "msg_ok m \<Longrightarrow> \<exists>out' n. frame_message m out = Some (Some (out', n)) \<and> arr_list out' n = frame m"
  using arr_list_two_writes [of "be32 (of_nat (length m))" 4 out m]
  by (simp add: frame_message_def msg_ok_def asserts Let_def frame_def)

lemma frame_message_frame: "frame_message m out = Some (Some (out', n)) \<Longrightarrow> msg_ok m \<and> arr_list out' n = frame m"
  using frame_message_ok [of m out] by (cases "msg_ok m") (auto simp: frame_message_def msg_ok_def Let_def split: if_splits)

lemma frame_message_refused: "\<not> msg_ok m \<Longrightarrow> frame_message m out = Some None"
  by (auto simp: frame_message_def msg_ok_def Let_def)

lemma framing_read_append_ok:
  assumes "read_ok state"
  shows "\<exists>state'. framing_read_append state data = Some (min (length data) (FRAMING_BUFFER_SIZE - fr_buffer_pos state), state')
     \<and> read_ok state' \<and> pending state' = pending state @ take (FRAMING_BUFFER_SIZE - fr_buffer_pos state) data"
proof -
  let ?sp = "FRAMING_BUFFER_SIZE - fr_buffer_pos state"
  show ?thesis
  proof (cases "data = [] \<or> ?sp = 0")
    case True
    with assms show ?thesis
      by (auto simp: framing_read_append_def read_ok_def asserts Let_def)
  next
    case False
    define k where "k = min (length data) ?sp"
    have k: "0 < k" "fr_buffer_pos state + k \<le> FRAMING_BUFFER_SIZE" "take k data = take ?sp data" "length (take k data) = k"
      using False assms by (auto simp: k_def read_ok_def min_def)
    define st where "st = state\<lparr>fr_buffer := arr_write (fr_buffer state) (fr_buffer_pos state) (take k data),
                                fr_buffer_pos := fr_buffer_pos state + k\<rparr>"
    have "framing_read_append state data = Some (k, st)"
      using False assms k(1,2)
      by (auto simp: framing_read_append_def read_ok_def asserts Let_def st_def k_def min_def)
    moreover have "pending st = pending state @ take ?sp data"
      using arr_list_write [of "fr_buffer_pos state" "fr_buffer_pos state" "take k data"] k(3,4)
      by (simp add: pending_def st_def)
    moreover have "read_ok st" using k(2) by (simp add: read_ok_def st_def)
    ultimately show ?thesis by (auto simp: k_def)
  qed
qed

text \<open>What the header of the pending bytes says.\<close>

definition header :: "u8 list \<Rightarrow> u32" where
  "header bs = un_be32 bs"

lemma header_arr: "4 \<le> fr_buffer_pos state \<Longrightarrow> un_be32 (arr_read (fr_buffer state) 0 FRAME_HEADER_SIZE) = header (pending state)"
  unfolding header_def pending_def
  by (subst arr_read_list [where k = "fr_buffer_pos state"]) (simp_all add: un_be32_take)

lemma header_frame: "length m < 2 ^ 32 \<Longrightarrow> header (frame m @ rest) = of_nat (length m)"
  by (simp add: header_def frame_def un_be32_be32_append)

lemma u32_le_4096: "x \<le> (4096 :: u32) \<longleftrightarrow> unat x \<le> 4096"
  by (simp add: word_le_nat_alt)

lemma framing_read_state_init_ok:
  "\<exists>st. framing_read_state_init state = Some st \<and> read_ok st \<and> pending st = []"
  by (simp add: framing_read_state_init_def asserts read_ok_def pending_def Let_def)

text \<open>The three outcomes of an extraction.\<close>

lemma extract_more:
  assumes "read_ok state"
    and "length (pending state) < 4 \<or>
         (let n = unat (header (pending state)) in 0 < n \<and> n \<le> MAX_FRAMED_MESSAGE_SIZE \<and> length (pending state) < 4 + n)"
  shows "framing_read_extract state = Some (FRAMING_NEED_MORE_DATA, None, state)"
proof (cases "fr_buffer_pos state < 4")
  case True
  with assms(1) show ?thesis by (simp add: framing_read_extract_def read_ok_def asserts)
next
  case False
  then have h: "un_be32 (arr_read (fr_buffer state) 0 FRAME_HEADER_SIZE) = header (pending state)" by (simp add: header_arr)
  with False assms have "header (pending state) \<noteq> 0" "\<not> 4096 < header (pending state)"
    "fr_buffer_pos state < 4 + unat (header (pending state))"
    by (auto simp: Let_def u32_le_4096 not_less)
  with False assms(1) h show ?thesis
    by (simp add: framing_read_extract_def read_ok_def asserts Let_def)
qed

lemma extract_error:
  assumes "read_ok state" and "4 \<le> length (pending state)"
    and bad: "unat (header (pending state)) = 0 \<or> unat (header (pending state)) > MAX_FRAMED_MESSAGE_SIZE"
  shows "\<exists>st. framing_read_extract state = Some (FRAMING_ERROR, None, st) \<and> read_ok st \<and> pending st = []"
proof -
  have h: "un_be32 (arr_read (fr_buffer state) 0 FRAME_HEADER_SIZE) = header (pending state)"
    using assms(2) by (simp add: header_arr)
  from framing_read_state_init_ok [of state] obtain st where
    "framing_read_state_init state = Some st" "read_ok st" "pending st = []" by blast
  moreover from bad have "header (pending state) = 0 \<or> \<not> header (pending state) \<le> 4096"
    by (auto simp: u32_le_4096 unat_eq_zero)
  ultimately show ?thesis using assms(1,2) h
    by (auto simp: framing_read_extract_def read_ok_def asserts Let_def not_le)
qed

lemma extract_ready:
  assumes "read_ok state" and "msg_ok m" and "pending state = frame m @ rest"
  shows "\<exists>st. framing_read_extract state = Some (FRAMING_MESSAGE_READY, Some m, st) \<and> read_ok st \<and> pending st = rest"
proof -
  let ?n = "length m" and ?b = "fr_buffer state" and ?p = "fr_buffer_pos state"
  have n: "0 < ?n" "?n \<le> 4096" using assms(2) by (simp_all add: msg_ok_def)
  have p: "?p = 4 + ?n + length rest" using arg_cong [OF assms(3), of length] by simp
  have h: "un_be32 (arr_read ?b 0 FRAME_HEADER_SIZE) = of_nat ?n"
    using header_arr [of state] header_frame [of m rest] assms(3) n(2) p by simp
  have un: "unat (of_nat ?n :: u32) = ?n" using n(2) by (simp add: unat_of_nat)
  have rd: "arr_read ?b i k = take k (drop i (frame m @ rest))" if "i + k \<le> ?p" for i k
    unfolding arr_read_list [OF that] using assms(3) by (simp only: pending_def)
  have pl: "arr_read ?b 4 ?n = m" and rs: "arr_read ?b (4 + ?n) (length rest) = rest"
    using p by (simp_all add: rd frame_def)
  define buf where "buf = (if 0 < length rest then arr_write ?b 0 rest else ?b)"
  define st where "st = state\<lparr>fr_extract_buffer := arr_write (fr_extract_buffer state) 0 m, fr_buffer := buf, fr_buffer_pos := length rest\<rparr>"
  have le: "(of_nat ?n :: u32) \<le> 4096" "\<not> 4096 < (of_nat ?n :: u32)" "(of_nat ?n :: u32) \<noteq> 0"
    using n un by (simp_all add: u32_le_4096 not_less flip: unat_eq_zero)
  have "framing_read_extract state = Some (FRAMING_MESSAGE_READY, Some m, st)"
    using assms(1) le n p unfolding framing_read_extract_def Let_def h un pl
    by (cases "rest = []") (simp_all add: read_ok_def asserts rs buf_def st_def arr_read_write)
  moreover have "pending st = rest"
    using arr_list_write_front [of ?b rest] by (simp add: pending_def st_def buf_def)
  moreover have "read_ok st" using assms(1) p by (simp add: read_ok_def st_def)
  ultimately show ?thesis by blast
qed

text \<open>
  The reader's loop: extract until no complete frame is left.  The first argument bounds
  the number of rounds; a frame takes at least five bytes, so a round for each pending byte
  is enough.
\<close>

fun extract_all :: "nat \<Rightarrow> framing_read_state_t \<Rightarrow> (u8 list list \<times> framing_read_state_t) option" where
  "extract_all 0 state = Some ([], state)"
| "extract_all (Suc k) state = do {
     (res, msg, state1) \<leftarrow> framing_read_extract state;
     case (res, msg) of
       (FRAMING_MESSAGE_READY, Some m) \<Rightarrow> do {
         (ms, state2) \<leftarrow> extract_all k state1;
         Some (m # ms, state2)
       }
     | _ \<Rightarrow> Some ([], state1)
   }"

text \<open>Receiving chunk after chunk, each followed by the loop.\<close>

fun receive :: "u8 list list \<Rightarrow> framing_read_state_t \<Rightarrow> (u8 list list \<times> framing_read_state_t) option" where
  "receive [] state = Some ([], state)"
| "receive (c # cs) state = do {
     (n, state1) \<leftarrow> framing_read_append state c;
     (ms, state2) \<leftarrow> extract_all (fr_buffer_pos state1) state1;
     (ms', state3) \<leftarrow> receive cs state2;
     Some (ms @ ms', state3)
   }"

text \<open>Some of a frame: a proper prefix of the frame of a message.\<close>

definition partial_frame :: "u8 list \<Rightarrow> bool" where
  "partial_frame bs \<longleftrightarrow> (\<exists>m more. msg_ok m \<and> frame m = bs @ more \<and> more \<noteq> [])"

lemma partial_frame_extract:
  assumes "read_ok state" and "partial_frame (pending state)"
  shows "framing_read_extract state = Some (FRAMING_NEED_MORE_DATA, None, state)"
proof (cases "length (pending state) < 4")
  case False
  from assms(2) obtain m more where m: "msg_ok m" "frame m = pending state @ more" "more \<noteq> []" by (auto simp: partial_frame_def)
  have n: "0 < length m" "length m \<le> 4096" using m(1) by (simp_all add: msg_ok_def)
  have "header (pending state) = header (pending state @ more)"
    using False by (simp add: header_def un_be32_def nth_append)
  also have "\<dots> = of_nat (length m)" using header_frame [of m "[]"] m(2) n(2) by simp
  finally have "unat (header (pending state)) = length m" using n(2) by (simp add: unat_of_nat)
  moreover have "length (pending state) < 4 + length m" using arg_cong [OF m(2), of length] m(3) by (cases more) auto
  ultimately show ?thesis using n by (intro extract_more [OF assms(1)]) (simp add: Let_def)
qed (use extract_more [OF assms(1)] in simp)

lemma partial_frame_Nil: "partial_frame []"
  unfolding partial_frame_def by (rule exI [of _ "[0]"], rule exI [of _ "frame [0]"]) (simp add: msg_ok_def frame_def be32_def)

lemma extract_all_ok:
  assumes "read_ok state" and "pending state = concat (map frame ms) @ part" and "\<forall>m\<in>set ms. msg_ok m" and "partial_frame part"
    and "length ms \<le> k"
  shows "\<exists>st. extract_all k state = Some (ms, st) \<and> read_ok st \<and> pending st = part"
  using assms
proof (induction ms arbitrary: k state)
  case Nil
  then show ?case using partial_frame_extract [of state] by (cases k) auto
next
  case (Cons m ms)
  obtain k' where k: "k = Suc k'" "length ms \<le> k'" using Cons.prems(5) by (cases k) auto
  have "msg_ok m" "pending state = frame m @ (concat (map frame ms) @ part)" using Cons.prems by simp_all
  from extract_ready [OF Cons.prems(1) this] obtain st where
    st: "framing_read_extract state = Some (FRAMING_MESSAGE_READY, Some m, st)" "read_ok st" "pending st = concat (map frame ms) @ part" by blast
  from Cons.IH [OF st(2,3) _ Cons.prems(4) k(2)] Cons.prems(3) obtain st' where
    "extract_all k' st = Some (ms, st')" "read_ok st'" "pending st' = part" by auto
  with st(1) k(1) show ?case by simp
qed

text \<open>Any prefix of a stream of frames is some whole frames and a part of the next one.\<close>

lemma stream_prefix:
  assumes "\<forall>m\<in>set ms. msg_ok m" and "concat (map frame ms) = xs @ ys"
  shows "\<exists>ms1 ms2 part. ms = ms1 @ ms2 \<and> xs = concat (map frame ms1) @ part \<and> partial_frame part
     \<and> concat (map frame ms2) = part @ ys"
  using assms
proof (induction ms arbitrary: xs)
  case Nil
  then show ?case using partial_frame_Nil by auto
next
  case (Cons m ms)
  show ?case
  proof (cases "length xs < length (frame m)")
    case True
    from Cons.prems(2) have eq: "frame m @ concat (map frame ms) = xs @ ys" by simp
    then have "frame m = xs @ drop (length xs) (frame m)"
      using True by (metis append_eq_append_conv_if append_take_drop_id less_imp_le_nat)
    moreover have "drop (length xs) (frame m) \<noteq> []" using True by simp
    moreover have "msg_ok m" using Cons.prems(1) by simp
    ultimately have "partial_frame xs" unfolding partial_frame_def by blast
    with Cons.prems(2) show ?thesis
      by (intro exI [of _ "[]"] exI [of _ "m # ms"] exI [of _ xs]) simp
  next
    case False
    from Cons.prems(2) have eq: "frame m @ concat (map frame ms) = xs @ ys" by simp
    obtain xs' where xs': "xs = frame m @ xs'" and ys': "concat (map frame ms) = xs' @ ys"
    proof -
      from eq obtain us where "frame m = xs @ us \<and> us @ concat (map frame ms) = ys \<or> frame m @ us = xs \<and> concat (map frame ms) = us @ ys"
        unfolding append_eq_append_conv2 by blast
      then show thesis
      proof (elim disjE conjE)
        assume us: "frame m = xs @ us" "us @ concat (map frame ms) = ys"
        with False have "us = []" using arg_cong [OF us(1), of length] by (cases us) auto
        with us that [of "[]"] show thesis by simp
      qed (use that [of us] in simp)
    qed
    from Cons.IH [OF _ ys'] Cons.prems(1) obtain ms1 ms2 part where
      "ms = ms1 @ ms2" "xs' = concat (map frame ms1) @ part" "partial_frame part" "concat (map frame ms2) = part @ ys" by auto
    with xs' show ?thesis by (intro exI [of _ "m # ms1"] exI [of _ ms2] exI [of _ part]) simp
  qed
qed

lemma frame_prefix:
  assumes "msg_ok a" and "msg_ok b" and eq: "frame a @ r = frame b @ s"
  shows "a = b \<and> r = s"
proof -
  have "un_be32 (frame a @ r) = of_nat (length a)" "un_be32 (frame b @ s) = of_nat (length b)" by (simp_all add: frame_def un_be32_be32_append)
  then have "(of_nat (length a) :: u32) = of_nat (length b)" using eq by simp
  moreover have "length a < 2 ^ 32" "length b < 2 ^ 32" using assms(1,2) by (simp_all add: msg_ok_def)
  moreover have "length a mod 2 ^ 32 = length b mod 2 ^ 32" using arg_cong [OF calculation(1), of unat] by (simp add: unat_of_nat)
  ultimately have "length a = length b" by (simp only: mod_less)
  then show ?thesis using eq by (simp add: frame_def be32_def)
qed

lemma length_partial_frame: "partial_frame part \<Longrightarrow> length part < 4 + MAX_FRAMED_MESSAGE_SIZE"
proof -
  assume "partial_frame part"
  then obtain m more where m: "msg_ok m" "frame m = part @ more" "more \<noteq> []" by (auto simp: partial_frame_def)
  from arg_cong [OF m(2), of length] m(1,3) show ?thesis by (cases more) (auto simp: msg_ok_def)
qed

text \<open>The part of the next frame is shorter than that frame.\<close>

lemma length_next_part:
  assumes "partial_frame part" and "\<forall>m\<in>set ms. msg_ok m \<and> length m \<le> M" and "concat (map frame ms) = part @ ys"
  shows "length part \<le> M + 3"
proof (cases ms)
  case Nil
  with assms(3) show ?thesis by simp
next
  case (Cons m ms')
  from assms(1) obtain m' more where m': "msg_ok m'" "frame m' = part @ more" "more \<noteq> []" by (auto simp: partial_frame_def)
  have eq: "frame m @ concat (map frame ms') = part @ ys" using assms(3) Cons by simp
  have "length part < length (frame m)"
  proof (rule ccontr)
    assume "\<not> length part < length (frame m)"
    then have "part = frame m @ drop (length (frame m)) part"
      using arg_cong [OF eq, of "take (length (frame m))"] append_take_drop_id [of "length (frame m)" part] by simp
    then have "frame m' @ [] = frame m @ (drop (length (frame m)) part @ more)" using m'(2) by (metis append.assoc append_Nil2)
    moreover have "msg_ok m" using assms(2) Cons by simp
    ultimately show False using frame_prefix [OF m'(1)] m'(3) by blast
  qed
  then show ?thesis using assms(2) Cons by simp
qed

lemma length_frames: "length ms \<le> length (concat (map frame ms))"
  by (induction ms) auto

text \<open>
  However a stream of frames is cut into chunks, the reader recovers exactly the messages,
  as long as a chunk fits beside an incomplete frame of the longest message.
\<close>

lemma receive_stream:
  assumes "read_ok state" and "\<forall>m\<in>set ms. msg_ok m \<and> length m \<le> M" and "concat (map frame ms) = pending state @ concat cs"
    and "partial_frame (pending state)" and "\<forall>c\<in>set cs. M + 3 + length c \<le> FRAMING_BUFFER_SIZE"
  shows "\<exists>st. receive cs state = Some (ms, st) \<and> read_ok st \<and> pending st = []"
  using assms
proof (induction cs arbitrary: ms state)
  case Nil
  then have eq: "concat (map frame ms) = pending state" by simp
  have "ms = []"
  proof (rule ccontr)
    assume "ms \<noteq> []"
    then obtain m ms' where ms: "ms = m # ms'" by (cases ms) auto
    have "framing_read_extract state = Some (FRAMING_NEED_MORE_DATA, None, state)"
      by (rule partial_frame_extract [OF Nil.prems(1,4)])
    moreover have "\<exists>st. framing_read_extract state = Some (FRAMING_MESSAGE_READY, Some m, st)"
      using extract_ready [OF Nil.prems(1), of m "concat (map frame ms')"] eq Nil.prems(2) by (auto simp: ms)
    ultimately show False by simp
  qed
  with Nil eq show ?case by simp
next
  case (Cons c cs)
  have len: "length (pending state) + length c \<le> FRAMING_BUFFER_SIZE"
    using length_next_part [OF Cons.prems(4,2,3)] Cons.prems(5) by simp
  from framing_read_append_ok [OF Cons.prems(1), of c] obtain st1 where
    st1: "framing_read_append state c = Some (min (length c) (FRAMING_BUFFER_SIZE - fr_buffer_pos state), st1)" "read_ok st1"
      "pending st1 = pending state @ c" using len by auto
  have ok: "\<forall>m\<in>set ms. msg_ok m" using Cons.prems(2) by blast
  from stream_prefix [OF ok, of "pending state @ c" "concat cs"] Cons.prems(3) obtain ms1 ms2 part where
    p: "ms = ms1 @ ms2" "pending state @ c = concat (map frame ms1) @ part" "partial_frame part" "concat (map frame ms2) = part @ concat cs"
    by auto
  have "length ms1 \<le> fr_buffer_pos st1"
    using length_frames [of ms1] arg_cong [OF p(2), of length] arg_cong [OF st1(3), of length] by simp
  from extract_all_ok [OF st1(2) _ _ p(3) this, unfolded st1(3), OF p(2)] Cons.prems(2) p(1) obtain st2 where
    st2: "extract_all (fr_buffer_pos st1) st1 = Some (ms1, st2)" "read_ok st2" "pending st2 = part" by auto
  from Cons.IH [OF st2(2), of ms2] Cons.prems(2,5) p st2(3) obtain st3 where
    "receive cs st2 = Some (ms2, st3)" "read_ok st3" "pending st3 = []" by auto
  with st1(1) st2(1) p(1) show ?case by simp
qed

subsection \<open>Partial writes\<close>

text \<open>
  A sender offers the rest of the frame to the socket, which takes \<open>k\<close> bytes of it; \<open>ks\<close>
  are the amounts taken.
\<close>

fun send_all :: "nat list \<Rightarrow> framing_write_state_t \<Rightarrow> (u8 list \<times> framing_write_state_t) option" where
  "send_all [] state = Some ([], state)"
| "send_all (k # ks) state = do {
     data \<leftarrow> framing_write_get_remaining state;
     state1 \<leftarrow> framing_write_mark_written state k;
     (sent, state2) \<leftarrow> send_all ks state1;
     Some (take k data @ sent, state2)
   }"

lemma send_all_ok:
  assumes "fw_bytes_written state + sum_list ks \<le> fw_total_len state"
  shows "\<exists>st. send_all ks state = Some (take (sum_list ks) (drop (fw_bytes_written state) (arr_list (fw_buffer state) (fw_total_len state))), st)
     \<and> fw_bytes_written st = fw_bytes_written state + sum_list ks \<and> fw_total_len st = fw_total_len state"
  using assms
proof (induction ks arbitrary: state)
  case (Cons k ks)
  define st where "st = state\<lparr>fw_bytes_written := fw_bytes_written state + k\<rparr>"
  let ?bs = "arr_list (fw_buffer state) (fw_total_len state)" and ?w = "fw_bytes_written state"
  have "fw_bytes_written st + sum_list ks \<le> fw_total_len st" using Cons.prems by (simp add: st_def)
  from Cons.IH [OF this] obtain st' where
    st': "send_all ks st = Some (take (sum_list ks) (drop (?w + k) ?bs), st')" "fw_bytes_written st' = ?w + k + sum_list ks"
      "fw_total_len st' = fw_total_len state" by (auto simp: st_def)
  have "arr_read (fw_buffer state) ?w (fw_total_len state - ?w) = drop ?w ?bs"
    using Cons.prems by (subst arr_read_list [where k = "fw_total_len state"]) auto
  moreover have "take k (drop ?w ?bs) @ take (sum_list ks) (drop (?w + k) ?bs) = take (k + sum_list ks) (drop ?w ?bs)"
    by (simp add: take_add add.commute)
  ultimately show ?case using st' Cons.prems
    by (simp add: framing_write_get_remaining_def framing_write_mark_written_def asserts st_def)
qed simp

lemma framing_write_state_init_ok:
  assumes "msg_ok m"
  shows "\<exists>st. framing_write_state_init state m = Some (True, st) \<and> fw_bytes_written st = 0
     \<and> fw_total_len st = length (frame m) \<and> arr_list (fw_buffer st) (fw_total_len st) = frame m"
  using assms arr_list_two_writes [of "be32 (of_nat (length m))" 4 "fw_buffer state" m]
  by (simp add: framing_write_state_init_def msg_ok_def asserts Let_def frame_def)

lemma framing_write_state_init_refused: "\<not> msg_ok m \<Longrightarrow> framing_write_state_init state m = Some (False, state)"
  by (auto simp: framing_write_state_init_def msg_ok_def Let_def)

text \<open>\<open>framing_read_has_data\<close> says whether an extraction would do more than wait.\<close>

lemma framing_read_has_data_iff:
  assumes "read_ok state"
  shows "framing_read_has_data state \<longleftrightarrow> framing_read_extract state \<noteq> Some (FRAMING_NEED_MORE_DATA, None, state)"
proof (cases "fr_buffer_pos state < 4")
  case True
  with extract_more [OF assms] show ?thesis by (simp add: framing_read_has_data_def)
next
  case False
  let ?h = "header (pending state)"
  have h: "un_be32 (arr_read (fr_buffer state) 0 FRAME_HEADER_SIZE) = ?h" using False by (simp add: header_arr)
  show ?thesis
  proof (cases "unat ?h = 0 \<or> unat ?h > MAX_FRAMED_MESSAGE_SIZE")
    case True
    with extract_error [OF assms, of] False have "framing_read_extract state \<noteq> Some (FRAMING_NEED_MORE_DATA, None, state)" by auto
    moreover from True have "?h = 0 \<or> ?h > 4096" by (auto simp: unat_eq_zero word_less_nat_alt)
    ultimately show ?thesis using False h by (simp add: framing_read_has_data_def)
  next
    case ok: False
    then have b: "\<not> (?h = 0 \<or> ?h > 4096)" by (auto simp: unat_eq_zero word_less_nat_alt)
    show ?thesis
    proof (cases "fr_buffer_pos state < 4 + unat ?h")
      case True
      with extract_more [OF assms] ok have "framing_read_extract state = Some (FRAMING_NEED_MORE_DATA, None, state)" by (simp add: Let_def)
      with True b False h show ?thesis by (simp add: framing_read_has_data_def)
    next
      case full: False
      let ?m = "take (unat ?h) (drop 4 (pending state))"
      have "be32 ?h = take 4 (pending state)"
        using be32_un_be32 [of "take 4 (pending state)"] False by (simp add: header_def un_be32_take)
      moreover have "length ?m = unat ?h" using full by simp
      ultimately have "frame ?m = take 4 (pending state) @ ?m" by (simp add: frame_def)
      also have "\<dots> = take (4 + unat ?h) (pending state)" by (simp add: take_add)
      finally have "pending state = frame ?m @ drop (4 + unat ?h) (pending state)" by simp
      moreover have "msg_ok ?m" using ok full by (simp add: msg_ok_def)
      ultimately obtain st where "framing_read_extract state = Some (FRAMING_MESSAGE_READY, Some ?m, st)"
        using extract_ready [OF assms] by blast
      with full b False h show ?thesis by (simp add: framing_read_has_data_def)
    qed
  qed
qed

end
