(* ===== verification/ME_Binary.thy ===== *)
theory ME_Binary
  imports ME_Messages ME_Bytes
begin

text \<open>
  The binary protocol: the packed structures of \<^verbatim>\<open>include/protocol/binary/binary_protocol.h\<close>,
  the server's parser (\<^verbatim>\<open>src/protocol/binary/binary_message_parser.c\<close>) and formatter
  (\<^verbatim>\<open>src/protocol/binary/binary_message_formatter.c\<close>), and the client's encoder and decoder
  (\<^verbatim>\<open>tools/client/codec.c\<close>).

  A packed structure is a record whose 32-bit fields are the four bytes in memory, so that
  \<^verbatim>\<open>htonl\<close> is \<open>be32\<close> and \<^verbatim>\<open>ntohl\<close> is \<open>un_be32\<close>; a cast from a byte pointer reads the fields at
  their offsets.  \<^verbatim>\<open>char symbol[8]\<close> is a list of eight bytes.  The parser's result is the
  message, \<open>None\<close> inside when it returns false.
\<close>

subsection \<open>Wire structures\<close>

abbreviation BINARY_MAGIC :: u8 where "BINARY_MAGIC \<equiv> 0x4D"
abbreviation BINARY_MSG_NEW_ORDER :: u8 where "BINARY_MSG_NEW_ORDER \<equiv> 78"
abbreviation BINARY_MSG_CANCEL :: u8 where "BINARY_MSG_CANCEL \<equiv> 67"
abbreviation BINARY_MSG_FLUSH :: u8 where "BINARY_MSG_FLUSH \<equiv> 70"
abbreviation BINARY_MSG_ACK :: u8 where "BINARY_MSG_ACK \<equiv> 65"
abbreviation BINARY_MSG_CANCEL_ACK :: u8 where "BINARY_MSG_CANCEL_ACK \<equiv> 88"
abbreviation BINARY_MSG_TRADE :: u8 where "BINARY_MSG_TRADE \<equiv> 84"
abbreviation BINARY_MSG_TOP_OF_BOOK :: u8 where "BINARY_MSG_TOP_OF_BOOK \<equiv> 66"
abbreviation BINARY_SYMBOL_LEN :: nat where "BINARY_SYMBOL_LEN \<equiv> 8"

record binary_new_order_t =
  bno_magic :: u8
  bno_msg_type :: u8
  bno_user_id :: "u8 list"
  bno_symbol :: "u8 list"
  bno_price :: "u8 list"
  bno_quantity :: "u8 list"
  bno_side :: u8
  bno_user_order_id :: "u8 list"

record binary_cancel_t =
  bcn_magic :: u8
  bcn_msg_type :: u8
  bcn_user_id :: "u8 list"
  bcn_user_order_id :: "u8 list"

record binary_flush_t =
  bfl_magic :: u8
  bfl_msg_type :: u8

record binary_ack_t =
  bak_magic :: u8
  bak_msg_type :: u8
  bak_symbol :: "u8 list"
  bak_user_id :: "u8 list"
  bak_user_order_id :: "u8 list"

record binary_cancel_ack_t =
  bca_magic :: u8
  bca_msg_type :: u8
  bca_symbol :: "u8 list"
  bca_user_id :: "u8 list"
  bca_user_order_id :: "u8 list"

record binary_trade_t =
  btr_magic :: u8
  btr_msg_type :: u8
  btr_symbol :: "u8 list"
  btr_user_id_buy :: "u8 list"
  btr_user_order_id_buy :: "u8 list"
  btr_user_id_sell :: "u8 list"
  btr_user_order_id_sell :: "u8 list"
  btr_price :: "u8 list"
  btr_quantity :: "u8 list"

record binary_top_of_book_t =
  btb_magic :: u8
  btb_msg_type :: u8
  btb_symbol :: "u8 list"
  btb_side :: u8
  btb_price :: "u8 list"
  btb_quantity :: "u8 list"

text \<open>The layouts: reading a structure from bytes and writing it as bytes.\<close>

definition field :: "nat \<Rightarrow> nat \<Rightarrow> u8 list \<Rightarrow> u8 list" where
  "field off n bs = take n (drop off bs)"

definition cast_new_order :: "u8 list \<Rightarrow> binary_new_order_t" where
  "cast_new_order bs = \<lparr>bno_magic = bs ! 0, bno_msg_type = bs ! 1, bno_user_id = field 2 4 bs,
     bno_symbol = field 6 BINARY_SYMBOL_LEN bs, bno_price = field 14 4 bs, bno_quantity = field 18 4 bs,
     bno_side = bs ! 22, bno_user_order_id = field 23 4 bs\<rparr>"

definition cast_cancel :: "u8 list \<Rightarrow> binary_cancel_t" where
  "cast_cancel bs = \<lparr>bcn_magic = bs ! 0, bcn_msg_type = bs ! 1, bcn_user_id = field 2 4 bs,
     bcn_user_order_id = field 6 4 bs\<rparr>"

definition cast_ack :: "u8 list \<Rightarrow> binary_ack_t" where
  "cast_ack bs = \<lparr>bak_magic = bs ! 0, bak_msg_type = bs ! 1, bak_symbol = field 2 BINARY_SYMBOL_LEN bs,
     bak_user_id = field 10 4 bs, bak_user_order_id = field 14 4 bs\<rparr>"

definition cast_cancel_ack :: "u8 list \<Rightarrow> binary_cancel_ack_t" where
  "cast_cancel_ack bs = \<lparr>bca_magic = bs ! 0, bca_msg_type = bs ! 1, bca_symbol = field 2 BINARY_SYMBOL_LEN bs,
     bca_user_id = field 10 4 bs, bca_user_order_id = field 14 4 bs\<rparr>"

definition cast_trade :: "u8 list \<Rightarrow> binary_trade_t" where
  "cast_trade bs = \<lparr>btr_magic = bs ! 0, btr_msg_type = bs ! 1, btr_symbol = field 2 BINARY_SYMBOL_LEN bs,
     btr_user_id_buy = field 10 4 bs, btr_user_order_id_buy = field 14 4 bs,
     btr_user_id_sell = field 18 4 bs, btr_user_order_id_sell = field 22 4 bs,
     btr_price = field 26 4 bs, btr_quantity = field 30 4 bs\<rparr>"

definition cast_top_of_book :: "u8 list \<Rightarrow> binary_top_of_book_t" where
  "cast_top_of_book bs = \<lparr>btb_magic = bs ! 0, btb_msg_type = bs ! 1, btb_symbol = field 2 BINARY_SYMBOL_LEN bs,
     btb_side = bs ! 10, btb_price = field 11 4 bs, btb_quantity = field 15 4 bs\<rparr>"

definition bytes_new_order :: "binary_new_order_t \<Rightarrow> u8 list" where
  "bytes_new_order m = [bno_magic m, bno_msg_type m] @ bno_user_id m @ bno_symbol m @ bno_price m
     @ bno_quantity m @ [bno_side m] @ bno_user_order_id m"

definition bytes_cancel :: "binary_cancel_t \<Rightarrow> u8 list" where
  "bytes_cancel m = [bcn_magic m, bcn_msg_type m] @ bcn_user_id m @ bcn_user_order_id m"

definition bytes_flush :: "binary_flush_t \<Rightarrow> u8 list" where
  "bytes_flush m = [bfl_magic m, bfl_msg_type m]"

definition bytes_ack :: "binary_ack_t \<Rightarrow> u8 list" where
  "bytes_ack m = [bak_magic m, bak_msg_type m] @ bak_symbol m @ bak_user_id m @ bak_user_order_id m"

definition bytes_cancel_ack :: "binary_cancel_ack_t \<Rightarrow> u8 list" where
  "bytes_cancel_ack m = [bca_magic m, bca_msg_type m] @ bca_symbol m @ bca_user_id m @ bca_user_order_id m"

definition bytes_trade :: "binary_trade_t \<Rightarrow> u8 list" where
  "bytes_trade m = [btr_magic m, btr_msg_type m] @ btr_symbol m @ btr_user_id_buy m @ btr_user_order_id_buy m
     @ btr_user_id_sell m @ btr_user_order_id_sell m @ btr_price m @ btr_quantity m"

definition bytes_top_of_book :: "binary_top_of_book_t \<Rightarrow> u8 list" where
  "bytes_top_of_book m = [btb_magic m, btb_msg_type m] @ btb_symbol m @ [btb_side m] @ btb_price m @ btb_quantity m"

subsection \<open>Helpers\<close>

definition is_binary_message :: "u8 list \<Rightarrow> bool" where
  "is_binary_message data = (if length data < 2 then False else data ! 0 = BINARY_MAGIC)"

definition binary_message_size :: "u8 \<Rightarrow> nat" where
  "binary_message_size msg_type =
     (if msg_type = BINARY_MSG_NEW_ORDER then 27
      else if msg_type = BINARY_MSG_CANCEL then 10
      else if msg_type = BINARY_MSG_FLUSH then 2
      else if msg_type = BINARY_MSG_ACK then 18
      else if msg_type = BINARY_MSG_CANCEL_ACK then 18
      else if msg_type = BINARY_MSG_TRADE then 34
      else if msg_type = BINARY_MSG_TOP_OF_BOOK then 19
      else 0)"

definition binary_message_validate :: "u8 list \<Rightarrow> bool" where
  "binary_message_validate data =
     (if length data < 2 then False
      else if data ! 0 \<noteq> BINARY_MAGIC then False
      else let expected = binary_message_size (data ! 1) in expected > 0 \<and> length data \<ge> expected)"

subsection \<open>The server's parser\<close>

definition copy_symbol :: "u8 list \<Rightarrow> string" where
  "copy_symbol src = copy_until_nul BINARY_SYMBOL_LEN (map byte_char src)"

definition bin_parse_new_order :: "binary_new_order_t \<Rightarrow> input_msg_t option option" where
  "bin_parse_new_order bin_msg = do {
     assert_that (bno_magic bin_msg = BINARY_MAGIC);
     if bno_side bin_msg \<noteq> 66 \<and> bno_side bin_msg \<noteq> 83 then Some None
     else do {
       let msg = \<lparr>no_user_id = un_be32 (bno_user_id bin_msg),
                  no_user_order_id = un_be32 (bno_user_order_id bin_msg),
                  no_price = un_be32 (bno_price bin_msg),
                  no_quantity = un_be32 (bno_quantity bin_msg),
                  no_side = (if bno_side bin_msg = 66 then SIDE_BUY else SIDE_SELL),
                  no_symbol = copy_symbol (bno_symbol bin_msg)\<rparr>;
       if no_quantity msg = 0 then Some None else Some (Some (INPUT_MSG_NEW_ORDER msg))
     }
   }"

definition bin_parse_cancel :: "binary_cancel_t \<Rightarrow> input_msg_t option option" where
  "bin_parse_cancel bin_msg = do {
     assert_that (bcn_magic bin_msg = BINARY_MAGIC);
     Some (Some (INPUT_MSG_CANCEL \<lparr>cm_user_id = un_be32 (bcn_user_id bin_msg),
                                   cm_user_order_id = un_be32 (bcn_user_order_id bin_msg), cm_symbol = []\<rparr>))
   }"

definition bin_parse_flush :: "input_msg_t option option" where
  "bin_parse_flush = Some (Some INPUT_MSG_FLUSH)"

definition binary_message_parser_parse :: "u8 list \<Rightarrow> input_msg_t option option" where
  "binary_message_parser_parse data =
     (let len = length data in
      if len < 2 then Some None
      else if data ! 0 \<noteq> BINARY_MAGIC then Some None
      else let msg_type = data ! 1 in
        if msg_type = BINARY_MSG_NEW_ORDER then
          (if len < 27 then Some None else bin_parse_new_order (cast_new_order data))
        else if msg_type = BINARY_MSG_CANCEL then
          (if len < 10 then Some None else bin_parse_cancel (cast_cancel data))
        else if msg_type = BINARY_MSG_FLUSH then
          (if len < 2 then Some None else bin_parse_flush)
        else Some None)"

subsection \<open>The server's formatter\<close>

text \<open>The formatter's union is the array of its bytes; a format function writes a structure
  at its start and returns the size.\<close>

record binary_message_formatter_t =
  bf_buffer :: byte_array

definition binary_message_formatter_init :: "binary_message_formatter_t \<Rightarrow> binary_message_formatter_t option" where
  "binary_message_formatter_init formatter = do {
     let f = formatter\<lparr>bf_buffer := arr_write (bf_buffer formatter) 0 (replicate 34 0)\<rparr>;
     assert_that (bf_buffer f 0 = 0);
     Some f
   }"

definition format_symbol :: "string \<Rightarrow> u8 list" where
  "format_symbol src = (let cs = map of_char (copy_until_nul BINARY_SYMBOL_LEN src)
                        in cs @ replicate (BINARY_SYMBOL_LEN - length cs) 0)"

definition bin_format_ack ::
  "binary_message_formatter_t \<Rightarrow> ack_msg_t \<Rightarrow> (nat \<times> binary_message_formatter_t) option" where
  "bin_format_ack formatter msg = do {
     let bin = \<lparr>bak_magic = BINARY_MAGIC, bak_msg_type = BINARY_MSG_ACK, bak_symbol = format_symbol (ack_symbol msg),
                bak_user_id = be32 (ack_user_id msg), bak_user_order_id = be32 (ack_user_order_id msg)\<rparr>;
     assert_that (bak_magic bin = BINARY_MAGIC);
     Some (18, formatter\<lparr>bf_buffer := arr_write (bf_buffer formatter) 0 (bytes_ack bin)\<rparr>)
   }"

definition bin_format_cancel_ack ::
  "binary_message_formatter_t \<Rightarrow> cancel_ack_msg_t \<Rightarrow> (nat \<times> binary_message_formatter_t) option" where
  "bin_format_cancel_ack formatter msg = do {
     let bin = \<lparr>bca_magic = BINARY_MAGIC, bca_msg_type = BINARY_MSG_CANCEL_ACK, bca_symbol = format_symbol (ca_symbol msg),
                bca_user_id = be32 (ca_user_id msg), bca_user_order_id = be32 (ca_user_order_id msg)\<rparr>;
     assert_that (bca_magic bin = BINARY_MAGIC);
     Some (18, formatter\<lparr>bf_buffer := arr_write (bf_buffer formatter) 0 (bytes_cancel_ack bin)\<rparr>)
   }"

definition bin_format_trade ::
  "binary_message_formatter_t \<Rightarrow> trade_msg_t \<Rightarrow> (nat \<times> binary_message_formatter_t) option" where
  "bin_format_trade formatter msg = do {
     let bin = \<lparr>btr_magic = BINARY_MAGIC, btr_msg_type = BINARY_MSG_TRADE, btr_symbol = format_symbol (tr_symbol msg),
                btr_user_id_buy = be32 (tr_user_id_buy msg), btr_user_order_id_buy = be32 (tr_user_order_id_buy msg),
                btr_user_id_sell = be32 (tr_user_id_sell msg), btr_user_order_id_sell = be32 (tr_user_order_id_sell msg),
                btr_price = be32 (tr_price msg), btr_quantity = be32 (tr_quantity msg)\<rparr>;
     assert_that (btr_magic bin = BINARY_MAGIC);
     Some (34, formatter\<lparr>bf_buffer := arr_write (bf_buffer formatter) 0 (bytes_trade bin)\<rparr>)
   }"

definition bin_format_top_of_book ::
  "binary_message_formatter_t \<Rightarrow> top_of_book_msg_t \<Rightarrow> (nat \<times> binary_message_formatter_t) option" where
  "bin_format_top_of_book formatter msg = do {
     eliminated \<leftarrow> top_of_book_is_eliminated msg;
     let bin = \<lparr>btb_magic = BINARY_MAGIC, btb_msg_type = BINARY_MSG_TOP_OF_BOOK, btb_symbol = format_symbol (tob_symbol msg),
                btb_side = (if tob_side msg = SIDE_BUY then 66 else 83),
                btb_price = (if eliminated then [0, 0, 0, 0] else be32 (tob_price msg)),
                btb_quantity = (if eliminated then [0, 0, 0, 0] else be32 (tob_total_quantity msg))\<rparr>;
     assert_that (btb_magic bin = BINARY_MAGIC);
     Some (19, formatter\<lparr>bf_buffer := arr_write (bf_buffer formatter) 0 (bytes_top_of_book bin)\<rparr>)
   }"

text \<open>The returned bytes, \<open>None\<close> for the returned \<^verbatim>\<open>NULL\<close>.\<close>

definition binary_message_formatter_format ::
  "binary_message_formatter_t \<Rightarrow> output_msg_t \<Rightarrow> (u8 list option \<times> binary_message_formatter_t) option" where
  "binary_message_formatter_format formatter msg =
     (case msg of
        OUTPUT_MSG_OTHER _ \<Rightarrow> Some (None, formatter)
      | _ \<Rightarrow> do {
          (out_len, f) \<leftarrow> (case msg of
              OUTPUT_MSG_ACK m \<Rightarrow> bin_format_ack formatter m
            | OUTPUT_MSG_CANCEL_ACK m \<Rightarrow> bin_format_cancel_ack formatter m
            | OUTPUT_MSG_TRADE m \<Rightarrow> bin_format_trade formatter m
            | OUTPUT_MSG_TOP_OF_BOOK m \<Rightarrow> bin_format_top_of_book formatter m);
          assert_that (out_len > 0);
          assert_that (bf_buffer f 0 = BINARY_MAGIC);
          Some (Some (arr_read (bf_buffer f) 0 out_len), f)
        })"

subsection \<open>The client's binary encoder and decoder\<close>

definition encode_binary_new_order ::
  "byte_array \<Rightarrow> u32 \<Rightarrow> string \<Rightarrow> u32 \<Rightarrow> u32 \<Rightarrow> u8 \<Rightarrow> u32 \<Rightarrow> nat \<times> byte_array" where
  "encode_binary_new_order buffer user_id symbol price quantity side order_id =
     (let sym_len = (if length symbol > BINARY_SYMBOL_LEN then BINARY_SYMBOL_LEN else length symbol);
          msg = \<lparr>bno_magic = BINARY_MAGIC, bno_msg_type = BINARY_MSG_NEW_ORDER, bno_user_id = be32 user_id,
                 bno_symbol = map of_char (take sym_len symbol) @ replicate (BINARY_SYMBOL_LEN - sym_len) 0,
                 bno_price = be32 price, bno_quantity = be32 quantity, bno_side = side,
                 bno_user_order_id = be32 order_id\<rparr>
      in (27, arr_write buffer 0 (bytes_new_order msg)))"

definition encode_binary_cancel :: "byte_array \<Rightarrow> u32 \<Rightarrow> u32 \<Rightarrow> nat \<times> byte_array" where
  "encode_binary_cancel buffer user_id order_id =
     (let msg = \<lparr>bcn_magic = BINARY_MAGIC, bcn_msg_type = BINARY_MSG_CANCEL, bcn_user_id = be32 user_id,
                 bcn_user_order_id = be32 order_id\<rparr>
      in (10, arr_write buffer 0 (bytes_cancel msg)))"

definition encode_binary_flush :: "byte_array \<Rightarrow> nat \<times> byte_array" where
  "encode_binary_flush buffer =
     (let msg = \<lparr>bfl_magic = BINARY_MAGIC, bfl_msg_type = BINARY_MSG_FLUSH\<rparr>
      in (2, arr_write buffer 0 (bytes_flush msg)))"

text \<open>The 16-byte field after \<^verbatim>\<open>memset\<close> and \<^verbatim>\<open>memcpy\<close> of the eight wire bytes, as a C string.\<close>

definition wire_symbol :: "u8 list \<Rightarrow> string" where
  "wire_symbol bs = copy_until_nul MAX_SYMBOL_LENGTH (map byte_char (bs @ replicate (MAX_SYMBOL_LENGTH - BINARY_SYMBOL_LEN) 0))"

definition decode_binary_output :: "u8 list \<Rightarrow> output_msg_t option" where
  "decode_binary_output data =
     (let len = length data in
      if len < 2 then None
      else if data ! 0 \<noteq> BINARY_MAGIC then None
      else let msg_type = data ! 1 in
        if msg_type = BINARY_MSG_ACK then
          (if len < 18 then None
           else let ack = cast_ack data in
             Some (OUTPUT_MSG_ACK \<lparr>ack_user_id = un_be32 (bak_user_id ack),
               ack_user_order_id = un_be32 (bak_user_order_id ack), ack_symbol = wire_symbol (bak_symbol ack)\<rparr>))
        else if msg_type = BINARY_MSG_CANCEL_ACK then
          (if len < 18 then None
           else let cack = cast_cancel_ack data in
             Some (OUTPUT_MSG_CANCEL_ACK \<lparr>ca_user_id = un_be32 (bca_user_id cack),
               ca_user_order_id = un_be32 (bca_user_order_id cack), ca_symbol = wire_symbol (bca_symbol cack)\<rparr>))
        else if msg_type = BINARY_MSG_TRADE then
          (if len < 34 then None
           else let trade = cast_trade data in
             Some (OUTPUT_MSG_TRADE \<lparr>tr_user_id_buy = un_be32 (btr_user_id_buy trade),
               tr_user_order_id_buy = un_be32 (btr_user_order_id_buy trade),
               tr_user_id_sell = un_be32 (btr_user_id_sell trade),
               tr_user_order_id_sell = un_be32 (btr_user_order_id_sell trade),
               tr_price = un_be32 (btr_price trade), tr_quantity = un_be32 (btr_quantity trade),
               tr_buy_client_id = 0, tr_sell_client_id = 0, tr_symbol = wire_symbol (btr_symbol trade)\<rparr>))
        else if msg_type = BINARY_MSG_TOP_OF_BOOK then
          (if len < 19 then None
           else let tob = cast_top_of_book data in
             Some (OUTPUT_MSG_TOP_OF_BOOK \<lparr>tob_price = un_be32 (btb_price tob),
               tob_total_quantity = un_be32 (btb_quantity tob), tob_side = btb_side tob,
               tob_symbol = wire_symbol (btb_symbol tob)\<rparr>))
        else None)"

subsection \<open>Facts\<close>

lemma length_format_symbol [simp]: "length (format_symbol s) = 8"
  using length_copy_until_nul [of 8 s] by (simp add: format_symbol_def Let_def)

lemma copy_until_nul_append_nul: "c_string s \<Longrightarrow> copy_until_nul n (s @ CHR 0x00 # t) = take n s"
proof -
  assume "c_string s"
  then have "takeWhile (\<lambda>c. c \<noteq> CHR 0x00) (s @ CHR 0x00 # t) = s"
    by (subst takeWhile_append2) (auto simp: c_string_def)
  then show ?thesis by (simp add: copy_until_nul_takeWhile)
qed

lemma copy_padded: "c_string s \<Longrightarrow> length s \<le> n \<Longrightarrow> copy_until_nul n (s @ replicate k (CHR 0x00)) = s"
  by (cases k) (simp_all add: copy_until_nul_append_nul copy_until_nul_c_string)

lemma copy_symbol_padded:
  "c_string s \<Longrightarrow> length s \<le> 8 \<Longrightarrow> copy_symbol (map of_char s @ replicate k 0) = s"
  unfolding copy_symbol_def by (simp add: o_def copy_padded)

lemma wire_symbol_format: "wire_symbol (format_symbol s) = copy_until_nul 8 s"
proof -
  let ?c = "copy_until_nul 8 s"
  have "length ?c \<le> 16" using length_copy_until_nul [of 8 s] by simp
  then show ?thesis
    using copy_padded [of ?c 16 "8 - length ?c + 8"]
    by (simp add: wire_symbol_def format_symbol_def Let_def o_def replicate_add)
qed

lemma field_append: "length xs = off \<Longrightarrow> length ys = n \<Longrightarrow> field off n (xs @ ys @ zs) = ys"
  by (simp add: field_def)

lemma field_Cons [simp]: "field (Suc off) n (x # bs) = field off n bs" "field 0 n bs = take n bs"
  by (simp_all add: field_def)

lemma field_numeral [simp]: "field (numeral k) n (x # bs) = field (pred_numeral k) n bs"
  by (simp add: numeral_eq_Suc)

lemma field_skip: "length xs \<le> off \<Longrightarrow> field off n (xs @ bs) = field (off - length xs) n bs"
  by (simp add: field_def)

text \<open>
  The contract of a packed structure: its bytes have the declared size and a cast of them,
  whatever follows, is the structure.  So what is written to the front of a buffer is read
  back from it.
\<close>

locale packed_struct =
  fixes to_bytes :: "'s \<Rightarrow> u8 list"
    and cast :: "u8 list \<Rightarrow> 's"
    and struct_size :: nat
    and ok :: "'s \<Rightarrow> bool"
  assumes cast_bytes: "ok m \<Longrightarrow> cast (to_bytes m @ rest) = m"
    and length_bytes: "ok m \<Longrightarrow> length (to_bytes m) = struct_size"
    and size_pos: "2 \<le> struct_size"
begin

lemma cast_same: "ok m \<Longrightarrow> cast (to_bytes m) = m"
  using cast_bytes [of m "[]"] by simp

lemma written: "ok m \<Longrightarrow> arr_read (arr_write a 0 (to_bytes m)) 0 struct_size = to_bytes m"
  using arr_read_write [of a 0 "to_bytes m"] length_bytes [of m] by simp

lemma written_first: "ok m \<Longrightarrow> arr_write a 0 (to_bytes m) 0 = to_bytes m ! 0"
  using length_bytes [of m] size_pos by (simp add: arr_write_def)

end

definition new_order_lens :: "binary_new_order_t \<Rightarrow> bool" where
  "new_order_lens m \<longleftrightarrow> length (bno_user_id m) = 4 \<and> length (bno_symbol m) = 8 \<and> length (bno_price m) = 4
     \<and> length (bno_quantity m) = 4 \<and> length (bno_user_order_id m) = 4"

interpretation pnew: packed_struct bytes_new_order cast_new_order 27 new_order_lens
  by unfold_locales (simp_all add: new_order_lens_def cast_new_order_def bytes_new_order_def field_def nth_append)

definition cancel_lens :: "binary_cancel_t \<Rightarrow> bool" where
  "cancel_lens m \<longleftrightarrow> length (bcn_user_id m) = 4 \<and> length (bcn_user_order_id m) = 4"

interpretation pcancel: packed_struct bytes_cancel cast_cancel 10 cancel_lens
  by unfold_locales (simp_all add: cancel_lens_def cast_cancel_def bytes_cancel_def field_def)

definition ack_lens :: "binary_ack_t \<Rightarrow> bool" where
  "ack_lens m \<longleftrightarrow> length (bak_symbol m) = 8 \<and> length (bak_user_id m) = 4 \<and> length (bak_user_order_id m) = 4"

interpretation pack: packed_struct bytes_ack cast_ack 18 ack_lens
  by unfold_locales (simp_all add: ack_lens_def cast_ack_def bytes_ack_def field_def)

definition cancel_ack_lens :: "binary_cancel_ack_t \<Rightarrow> bool" where
  "cancel_ack_lens m \<longleftrightarrow> length (bca_symbol m) = 8 \<and> length (bca_user_id m) = 4 \<and> length (bca_user_order_id m) = 4"

interpretation pcancel_ack: packed_struct bytes_cancel_ack cast_cancel_ack 18 cancel_ack_lens
  by unfold_locales (simp_all add: cancel_ack_lens_def cast_cancel_ack_def bytes_cancel_ack_def field_def)

definition trade_lens :: "binary_trade_t \<Rightarrow> bool" where
  "trade_lens m \<longleftrightarrow> length (btr_symbol m) = 8 \<and> length (btr_user_id_buy m) = 4 \<and> length (btr_user_order_id_buy m) = 4
     \<and> length (btr_user_id_sell m) = 4 \<and> length (btr_user_order_id_sell m) = 4 \<and> length (btr_price m) = 4 \<and> length (btr_quantity m) = 4"

interpretation ptrade: packed_struct bytes_trade cast_trade 34 trade_lens
  by unfold_locales (simp_all add: trade_lens_def cast_trade_def bytes_trade_def field_def)

definition top_of_book_lens :: "binary_top_of_book_t \<Rightarrow> bool" where
  "top_of_book_lens m \<longleftrightarrow> length (btb_symbol m) = 8 \<and> length (btb_price m) = 4 \<and> length (btb_quantity m) = 4"

interpretation ptob: packed_struct bytes_top_of_book cast_top_of_book 19 top_of_book_lens
  by unfold_locales (simp_all add: top_of_book_lens_def cast_top_of_book_def bytes_top_of_book_def field_def nth_append)

text \<open>What the client encodes, the server parses.\<close>

lemma new_order_roundtrip:
  assumes "c_string symbol" and "length symbol \<le> 8" and "side_is_valid side" and "quantity \<noteq> 0"
    and enc: "encode_binary_new_order buffer user_id symbol price quantity side order_id = (n, buffer')"
  shows "binary_message_parser_parse (arr_read buffer' 0 n) = Some (Some (INPUT_MSG_NEW_ORDER
     \<lparr>no_user_id = user_id, no_user_order_id = order_id, no_price = price, no_quantity = quantity, no_side = side, no_symbol = symbol\<rparr>))"
proof -
  define m where "m = \<lparr>bno_magic = BINARY_MAGIC, bno_msg_type = BINARY_MSG_NEW_ORDER, bno_user_id = be32 user_id,
     bno_symbol = map of_char (take (length symbol) symbol) @ replicate (BINARY_SYMBOL_LEN - length symbol) 0,
     bno_price = be32 price, bno_quantity = be32 quantity, bno_side = side, bno_user_order_id = be32 order_id\<rparr>"
  have ok: "new_order_lens m" using assms(2) by (simp add: m_def new_order_lens_def)
  have "n = 27" "buffer' = arr_write buffer 0 (bytes_new_order m)"
    using enc assms(2) unfolding encode_binary_new_order_def Let_def m_def by auto
  then have "arr_read buffer' 0 n = bytes_new_order m" by (simp add: pnew.written [OF ok])
  moreover have "bytes_new_order m ! 0 = BINARY_MAGIC" "bytes_new_order m ! 1 = BINARY_MSG_NEW_ORDER"
    by (simp_all add: bytes_new_order_def m_def)
  ultimately have "binary_message_parser_parse (arr_read buffer' 0 n) = bin_parse_new_order m"
    using pnew.length_bytes [OF ok] pnew.cast_same [OF ok] by (simp add: binary_message_parser_parse_def)
  then show ?thesis using assms(1-4)
    by (auto simp: m_def bin_parse_new_order_def asserts copy_symbol_padded side_is_valid_def)
qed

lemma cancel_roundtrip:
  assumes enc: "encode_binary_cancel buffer user_id order_id = (n, buffer')"
  shows "binary_message_parser_parse (arr_read buffer' 0 n)
     = Some (Some (INPUT_MSG_CANCEL \<lparr>cm_user_id = user_id, cm_user_order_id = order_id, cm_symbol = []\<rparr>))"
proof -
  define m where "m = \<lparr>bcn_magic = BINARY_MAGIC, bcn_msg_type = BINARY_MSG_CANCEL, bcn_user_id = be32 user_id, bcn_user_order_id = be32 order_id\<rparr>"
  have ok: "cancel_lens m" by (simp add: m_def cancel_lens_def)
  have "n = 10" "buffer' = arr_write buffer 0 (bytes_cancel m)"
    using enc unfolding encode_binary_cancel_def Let_def m_def by auto
  then have "arr_read buffer' 0 n = bytes_cancel m" by (simp add: pcancel.written [OF ok])
  moreover have "bytes_cancel m ! 0 = BINARY_MAGIC" "bytes_cancel m ! 1 = BINARY_MSG_CANCEL"
    by (simp_all add: bytes_cancel_def m_def)
  ultimately have "binary_message_parser_parse (arr_read buffer' 0 n) = bin_parse_cancel m"
    using pcancel.length_bytes [OF ok] pcancel.cast_same [OF ok] by (simp add: binary_message_parser_parse_def)
  then show ?thesis by (simp add: m_def bin_parse_cancel_def asserts)
qed

lemma flush_roundtrip:
  assumes enc: "encode_binary_flush buffer = (n, buffer')"
  shows "binary_message_parser_parse (arr_read buffer' 0 n) = Some (Some INPUT_MSG_FLUSH)"
proof -
  have "n = length [BINARY_MAGIC, BINARY_MSG_FLUSH]" "buffer' = arr_write buffer 0 [BINARY_MAGIC, BINARY_MSG_FLUSH]"
    using enc by (simp_all add: encode_binary_flush_def bytes_flush_def)
  then have "arr_read buffer' 0 n = [BINARY_MAGIC, BINARY_MSG_FLUSH]" by (simp only: arr_read_write)
  then show ?thesis by (simp add: binary_message_parser_parse_def bin_parse_flush_def)
qed

text \<open>The parser never aborts, and every order it accepts is well formed.\<close>

lemma parser_total: "binary_message_parser_parse data \<noteq> None"
  by (simp add: binary_message_parser_parse_def bin_parse_new_order_def bin_parse_cancel_def bin_parse_flush_def
      cast_new_order_def cast_cancel_def asserts Let_def)

lemma parser_accepts:
  assumes "binary_message_parser_parse data = Some (Some msg)"
  shows "case msg of
     INPUT_MSG_NEW_ORDER m \<Rightarrow> side_is_valid (no_side m) \<and> 0 < no_quantity m \<and> c_string (no_symbol m) \<and> length (no_symbol m) \<le> 8
   | INPUT_MSG_OTHER _ \<Rightarrow> False | _ \<Rightarrow> True"
  using assms length_copy_until_nul [of 8]
  by (auto simp: binary_message_parser_parse_def bin_parse_new_order_def bin_parse_cancel_def bin_parse_flush_def
      copy_symbol_def word_neq_0_conv Let_def asserts split: if_splits)

text \<open>A message the parser accepts passes \<open>binary_message_validate\<close>.\<close>

lemma parser_validates:
  "binary_message_parser_parse data = Some (Some msg) \<Longrightarrow> binary_message_validate data"
  by (auto simp: binary_message_parser_parse_def binary_message_validate_def binary_message_size_def Let_def split: if_splits)

text \<open>What the server formats, the client decodes.\<close>

definition wire_msg :: "output_msg_t \<Rightarrow> output_msg_t" where
  "wire_msg msg = (case msg of
     OUTPUT_MSG_ACK m \<Rightarrow> OUTPUT_MSG_ACK (m\<lparr>ack_symbol := copy_until_nul 8 (ack_symbol m)\<rparr>)
   | OUTPUT_MSG_CANCEL_ACK m \<Rightarrow> OUTPUT_MSG_CANCEL_ACK (m\<lparr>ca_symbol := copy_until_nul 8 (ca_symbol m)\<rparr>)
   | OUTPUT_MSG_TRADE m \<Rightarrow> OUTPUT_MSG_TRADE (m\<lparr>tr_symbol := copy_until_nul 8 (tr_symbol m), tr_buy_client_id := 0, tr_sell_client_id := 0\<rparr>)
   | OUTPUT_MSG_TOP_OF_BOOK m \<Rightarrow> OUTPUT_MSG_TOP_OF_BOOK (m\<lparr>tob_symbol := copy_until_nul 8 (tob_symbol m)\<rparr>)
   | OUTPUT_MSG_OTHER t \<Rightarrow> OUTPUT_MSG_OTHER t)"

definition formattable :: "output_msg_t \<Rightarrow> bool" where
  "formattable msg = (case msg of OUTPUT_MSG_OTHER _ \<Rightarrow> False | OUTPUT_MSG_TOP_OF_BOOK m \<Rightarrow> side_is_valid (tob_side m) | _ \<Rightarrow> True)"

definition out_type :: "output_msg_t \<Rightarrow> u8" where
  "out_type msg = (case msg of OUTPUT_MSG_ACK _ \<Rightarrow> BINARY_MSG_ACK | OUTPUT_MSG_CANCEL_ACK _ \<Rightarrow> BINARY_MSG_CANCEL_ACK
     | OUTPUT_MSG_TRADE _ \<Rightarrow> BINARY_MSG_TRADE | OUTPUT_MSG_TOP_OF_BOOK _ \<Rightarrow> BINARY_MSG_TOP_OF_BOOK | OUTPUT_MSG_OTHER t \<Rightarrow> t)"

lemma un_be32_zero [simp]: "un_be32 [0, 0, 0, 0] = 0"
  by (simp add: un_be32_def)

lemma format_ack_decode:
  "\<exists>bs f'. binary_message_formatter_format f (OUTPUT_MSG_ACK m) = Some (Some bs, f') \<and> length bs = 18
     \<and> bs ! 0 = BINARY_MAGIC \<and> bs ! 1 = BINARY_MSG_ACK \<and> decode_binary_output bs = Some (wire_msg (OUTPUT_MSG_ACK m))"
proof -
  define w where "w = \<lparr>bak_magic = BINARY_MAGIC, bak_msg_type = BINARY_MSG_ACK, bak_symbol = format_symbol (ack_symbol m),
                bak_user_id = be32 (ack_user_id m), bak_user_order_id = be32 (ack_user_order_id m)\<rparr>"
  have ok: "ack_lens w" by (simp add: w_def ack_lens_def)
  have h: "bytes_ack w ! 0 = BINARY_MAGIC" "bytes_ack w ! Suc 0 = BINARY_MSG_ACK" by (simp_all add: bytes_ack_def w_def)
  have "bin_format_ack f m = Some (18, f\<lparr>bf_buffer := arr_write (bf_buffer f) 0 (bytes_ack w)\<rparr>)"
    by (simp add: bin_format_ack_def asserts w_def)
  then have "binary_message_formatter_format f (OUTPUT_MSG_ACK m) = Some (Some (bytes_ack w), f\<lparr>bf_buffer := arr_write (bf_buffer f) 0 (bytes_ack w)\<rparr>)"
    using h by (simp add: binary_message_formatter_format_def asserts pack.written [OF ok] pack.written_first [OF ok])
  moreover have "decode_binary_output (bytes_ack w) = Some (wire_msg (OUTPUT_MSG_ACK m))"
    using pack.cast_same [OF ok] pack.length_bytes [OF ok] h
    by (simp add: decode_binary_output_def wire_msg_def) (simp add: w_def wire_symbol_format)
  ultimately show ?thesis using pack.length_bytes [OF ok] h by auto
qed

lemma format_cancel_ack_decode:
  "\<exists>bs f'. binary_message_formatter_format f (OUTPUT_MSG_CANCEL_ACK m) = Some (Some bs, f') \<and> length bs = 18
     \<and> bs ! 0 = BINARY_MAGIC \<and> bs ! 1 = BINARY_MSG_CANCEL_ACK \<and> decode_binary_output bs = Some (wire_msg (OUTPUT_MSG_CANCEL_ACK m))"
proof -
  define w where "w = \<lparr>bca_magic = BINARY_MAGIC, bca_msg_type = BINARY_MSG_CANCEL_ACK, bca_symbol = format_symbol (ca_symbol m),
                bca_user_id = be32 (ca_user_id m), bca_user_order_id = be32 (ca_user_order_id m)\<rparr>"
  have ok: "cancel_ack_lens w" by (simp add: w_def cancel_ack_lens_def)
  have h: "bytes_cancel_ack w ! 0 = BINARY_MAGIC" "bytes_cancel_ack w ! Suc 0 = BINARY_MSG_CANCEL_ACK" by (simp_all add: bytes_cancel_ack_def w_def)
  have "bin_format_cancel_ack f m = Some (18, f\<lparr>bf_buffer := arr_write (bf_buffer f) 0 (bytes_cancel_ack w)\<rparr>)"
    by (simp add: bin_format_cancel_ack_def asserts w_def)
  then have "binary_message_formatter_format f (OUTPUT_MSG_CANCEL_ACK m) = Some (Some (bytes_cancel_ack w), f\<lparr>bf_buffer := arr_write (bf_buffer f) 0 (bytes_cancel_ack w)\<rparr>)"
    using h by (simp add: binary_message_formatter_format_def asserts pcancel_ack.written [OF ok] pcancel_ack.written_first [OF ok])
  moreover have "decode_binary_output (bytes_cancel_ack w) = Some (wire_msg (OUTPUT_MSG_CANCEL_ACK m))"
    using pcancel_ack.cast_same [OF ok] pcancel_ack.length_bytes [OF ok] h
    by (simp add: decode_binary_output_def wire_msg_def) (simp add: w_def wire_symbol_format)
  ultimately show ?thesis using pcancel_ack.length_bytes [OF ok] h by auto
qed

lemma format_trade_decode:
  "\<exists>bs f'. binary_message_formatter_format f (OUTPUT_MSG_TRADE m) = Some (Some bs, f') \<and> length bs = 34
     \<and> bs ! 0 = BINARY_MAGIC \<and> bs ! 1 = BINARY_MSG_TRADE \<and> decode_binary_output bs = Some (wire_msg (OUTPUT_MSG_TRADE m))"
proof -
  define w where "w = \<lparr>btr_magic = BINARY_MAGIC, btr_msg_type = BINARY_MSG_TRADE, btr_symbol = format_symbol (tr_symbol m),
                btr_user_id_buy = be32 (tr_user_id_buy m), btr_user_order_id_buy = be32 (tr_user_order_id_buy m),
                btr_user_id_sell = be32 (tr_user_id_sell m), btr_user_order_id_sell = be32 (tr_user_order_id_sell m),
                btr_price = be32 (tr_price m), btr_quantity = be32 (tr_quantity m)\<rparr>"
  have ok: "trade_lens w" by (simp add: w_def trade_lens_def)
  have h: "bytes_trade w ! 0 = BINARY_MAGIC" "bytes_trade w ! Suc 0 = BINARY_MSG_TRADE" by (simp_all add: bytes_trade_def w_def)
  have "bin_format_trade f m = Some (34, f\<lparr>bf_buffer := arr_write (bf_buffer f) 0 (bytes_trade w)\<rparr>)"
    by (simp add: bin_format_trade_def asserts w_def)
  then have "binary_message_formatter_format f (OUTPUT_MSG_TRADE m) = Some (Some (bytes_trade w), f\<lparr>bf_buffer := arr_write (bf_buffer f) 0 (bytes_trade w)\<rparr>)"
    using h by (simp add: binary_message_formatter_format_def asserts ptrade.written [OF ok] ptrade.written_first [OF ok])
  moreover have "decode_binary_output (bytes_trade w) = Some (wire_msg (OUTPUT_MSG_TRADE m))"
    using ptrade.cast_same [OF ok] ptrade.length_bytes [OF ok] h
    by (simp add: decode_binary_output_def wire_msg_def) (simp add: w_def wire_symbol_format)
  ultimately show ?thesis using ptrade.length_bytes [OF ok] h by auto
qed

lemma format_top_of_book_decode:
  assumes side: "side_is_valid (tob_side m)"
  shows "\<exists>bs f'. binary_message_formatter_format f (OUTPUT_MSG_TOP_OF_BOOK m) = Some (Some bs, f') \<and> length bs = 19
     \<and> bs ! 0 = BINARY_MAGIC \<and> bs ! 1 = BINARY_MSG_TOP_OF_BOOK \<and> decode_binary_output bs = Some (wire_msg (OUTPUT_MSG_TOP_OF_BOOK m))"
proof -
  define w where "w = \<lparr>btb_magic = BINARY_MAGIC, btb_msg_type = BINARY_MSG_TOP_OF_BOOK, btb_symbol = format_symbol (tob_symbol m),
                btb_side = (if tob_side m = SIDE_BUY then 66 else 83),
                btb_price = (if tob_price m = 0 \<and> tob_total_quantity m = 0 then [0, 0, 0, 0] else be32 (tob_price m)),
                btb_quantity = (if tob_price m = 0 \<and> tob_total_quantity m = 0 then [0, 0, 0, 0] else be32 (tob_total_quantity m))\<rparr>"
  have ok: "top_of_book_lens w" by (simp add: w_def top_of_book_lens_def)
  have h: "bytes_top_of_book w ! 0 = BINARY_MAGIC" "bytes_top_of_book w ! Suc 0 = BINARY_MSG_TOP_OF_BOOK" by (simp_all add: bytes_top_of_book_def w_def)
  have "bin_format_top_of_book f m = Some (19, f\<lparr>bf_buffer := arr_write (bf_buffer f) 0 (bytes_top_of_book w)\<rparr>)"
    using side by (simp add: bin_format_top_of_book_def asserts w_def top_of_book_is_eliminated_def)
  then have "binary_message_formatter_format f (OUTPUT_MSG_TOP_OF_BOOK m) = Some (Some (bytes_top_of_book w), f\<lparr>bf_buffer := arr_write (bf_buffer f) 0 (bytes_top_of_book w)\<rparr>)"
    using h by (simp add: binary_message_formatter_format_def asserts ptob.written [OF ok] ptob.written_first [OF ok])
  moreover have "decode_binary_output (bytes_top_of_book w) = Some (wire_msg (OUTPUT_MSG_TOP_OF_BOOK m))"
    using ptob.cast_same [OF ok] ptob.length_bytes [OF ok] h
    by (simp add: decode_binary_output_def wire_msg_def) (use side in \<open>auto simp: w_def wire_symbol_format side_is_valid_def\<close>)
  ultimately show ?thesis using ptob.length_bytes [OF ok] h by auto
qed

lemma validate_out:
  assumes "bs ! 0 = BINARY_MAGIC" and "bs ! 1 = t" and "length bs = binary_message_size t" and "2 \<le> binary_message_size t"
  shows "binary_message_validate bs"
  using assms by (simp add: binary_message_validate_def Let_def)

lemma out_sizes:
  "binary_message_size BINARY_MSG_ACK = 18" "binary_message_size BINARY_MSG_CANCEL_ACK = 18"
  "binary_message_size BINARY_MSG_TRADE = 34" "binary_message_size BINARY_MSG_TOP_OF_BOOK = 19"
  by (simp_all add: binary_message_size_def)

lemma format_decode:
  assumes "formattable msg"
  shows "\<exists>bs f'. binary_message_formatter_format f msg = Some (Some bs, f') \<and> length bs = binary_message_size (out_type msg)
     \<and> binary_message_validate bs \<and> decode_binary_output bs = Some (wire_msg msg)"
proof (cases msg)
  case (OUTPUT_MSG_ACK m)
  from format_ack_decode [of f m] validate_out [of _ BINARY_MSG_ACK] show ?thesis
    unfolding OUTPUT_MSG_ACK out_type_def output_msg_t.case out_sizes by fastforce
next
  case (OUTPUT_MSG_CANCEL_ACK m)
  from format_cancel_ack_decode [of f m] validate_out [of _ BINARY_MSG_CANCEL_ACK] show ?thesis
    unfolding OUTPUT_MSG_CANCEL_ACK out_type_def output_msg_t.case out_sizes by fastforce
next
  case (OUTPUT_MSG_TRADE m)
  from format_trade_decode [of f m] validate_out [of _ BINARY_MSG_TRADE] show ?thesis
    unfolding OUTPUT_MSG_TRADE out_type_def output_msg_t.case out_sizes by fastforce
next
  case (OUTPUT_MSG_TOP_OF_BOOK m)
  with assms have "side_is_valid (tob_side m)" by (simp add: formattable_def)
  from format_top_of_book_decode [OF this, of f] validate_out [of _ BINARY_MSG_TOP_OF_BOOK] show ?thesis
    unfolding OUTPUT_MSG_TOP_OF_BOOK out_type_def output_msg_t.case out_sizes by fastforce
qed (use assms in \<open>simp add: formattable_def\<close>)

lemma format_other: "binary_message_formatter_format f (OUTPUT_MSG_OTHER t) = Some (None, f)"
  by (simp add: binary_message_formatter_format_def)

end
