(* ===== verification/ME_Queue.thy ===== *)
theory ME_Queue
  imports ME_Prelude
begin

text \<open>
  The single-producer single-consumer queue of \<^verbatim>\<open>include/threading/lockfree_queue.h\<close>, with
  its default size of 65536 slots.  The header defines it by a macro with the element type and a
  name prefix as parameters; here the element type is a type variable and the prefix is
  \<open>queue_\<close>.  \<^verbatim>\<open>size_t\<close> is a 64-bit word.  A slot of the ring stays unused, so a queue holds
  at most 65535 elements.

  The first part is the operations as functions, and that they implement a bounded FIFO list
  (locale \<open>fifo\<close>).  The second part is the concurrent use: the producer and the
  consumer are two threads whose steps, one access to the shared structure each, interleave
  freely.  The loads and stores of the two indices are acquire and release, so an interleaving of
  single steps is all that one thread can see of the other.
\<close>

abbreviation LOCKFREE_QUEUE_SIZE :: nat where
  "LOCKFREE_QUEUE_SIZE \<equiv> 65536"

abbreviation LOCKFREE_QUEUE_MASK :: u64 where
  "LOCKFREE_QUEUE_MASK \<equiv> 65535"

record producer_stats_t =
  ps_total_enqueues :: u64
  ps_failed_enqueues :: u64
  ps_peak_size :: u64

record consumer_stats_t =
  cs_total_dequeues :: u64
  cs_batch_dequeues :: u64

record 'a queue_t =
  q_head :: u64
  q_tail :: u64
  q_producer_stats :: producer_stats_t
  q_consumer_stats :: consumer_stats_t
  q_buffer :: "nat \<Rightarrow> 'a"

subsection \<open>Operations\<close>

definition queue_init :: "'a queue_t \<Rightarrow> 'a queue_t option" where
  "queue_init queue = do {
     let q = queue\<lparr>q_head := 0, q_tail := 0,
                   q_producer_stats := \<lparr>ps_total_enqueues = 0, ps_failed_enqueues = 0, ps_peak_size = 0\<rparr>,
                   q_consumer_stats := \<lparr>cs_total_dequeues = 0, cs_batch_dequeues = 0\<rparr>\<rparr>;
     assert_that (q_head q = 0);
     assert_that (q_tail q = 0);
     Some q
   }"

definition queue_empty :: "'a queue_t \<Rightarrow> bool option" where
  "queue_empty queue = do {
     assert_that (unat (q_head queue) < LOCKFREE_QUEUE_SIZE);
     Some (q_head queue = q_tail queue)
   }"

definition queue_destroy :: "'a queue_t \<Rightarrow> 'a queue_t option" where
  "queue_destroy queue = do {
     e \<leftarrow> queue_empty queue;
     assert_that e;
     Some queue
   }"

definition queue_enqueue :: "'a queue_t \<Rightarrow> 'a \<Rightarrow> bool \<times> 'a queue_t" where
  "queue_enqueue queue item =
     (let current_tail = q_tail queue;
          next_tail = (current_tail + 1) AND LOCKFREE_QUEUE_MASK;
          current_head = q_head queue;
          ps = q_producer_stats queue
      in if next_tail = current_head
         then (False, queue\<lparr>q_producer_stats := ps\<lparr>ps_failed_enqueues := ps_failed_enqueues ps + 1\<rparr>\<rparr>)
         else
           (let q1 = queue\<lparr>q_buffer := (q_buffer queue)(unat current_tail := item), q_tail := next_tail\<rparr>;
                ps1 = ps\<lparr>ps_total_enqueues := ps_total_enqueues ps + 1\<rparr>;
                current_size = (next_tail - current_head) AND LOCKFREE_QUEUE_MASK;
                ps2 = (if current_size > ps_peak_size ps1 then ps1\<lparr>ps_peak_size := current_size\<rparr> else ps1)
            in (True, q1\<lparr>q_producer_stats := ps2\<rparr>)))"

text \<open>The item is the value stored through the out parameter, \<open>None\<close> when the function returns false.\<close>

definition queue_dequeue :: "'a queue_t \<Rightarrow> 'a option \<times> 'a queue_t" where
  "queue_dequeue queue =
     (let current_head = q_head queue;
          current_tail = q_tail queue;
          cs = q_consumer_stats queue
      in if current_head = current_tail then (None, queue)
         else (Some (q_buffer queue (unat current_head)),
               queue\<lparr>q_head := (current_head + 1) AND LOCKFREE_QUEUE_MASK,
                     q_consumer_stats := cs\<lparr>cs_total_dequeues := cs_total_dequeues cs + 1\<rparr>\<rparr>))"

definition queue_dequeue_batch :: "'a queue_t \<Rightarrow> u64 \<Rightarrow> 'a list \<times> 'a queue_t" where
  "queue_dequeue_batch queue max_items =
     (if max_items = 0 then ([], queue)
      else let head = q_head queue; tail = q_tail queue;
               available = (tail - head) AND LOCKFREE_QUEUE_MASK;
               to_dequeue = (if available < max_items then available else max_items);
               cs = q_consumer_stats queue
           in if to_dequeue = 0 then ([], queue)
              else (map (\<lambda>i. q_buffer queue (unat ((head + of_nat i) AND LOCKFREE_QUEUE_MASK))) [0..<unat to_dequeue],
                    queue\<lparr>q_head := (head + to_dequeue) AND LOCKFREE_QUEUE_MASK,
                          q_consumer_stats := cs\<lparr>cs_total_dequeues := cs_total_dequeues cs + to_dequeue,
                                                 cs_batch_dequeues := cs_batch_dequeues cs + 1\<rparr>\<rparr>))"

definition queue_size :: "'a queue_t \<Rightarrow> u64 option" where
  "queue_size queue = do {
     assert_that (unat (q_tail queue) < LOCKFREE_QUEUE_SIZE);
     Some ((q_tail queue - q_head queue) AND LOCKFREE_QUEUE_MASK)
   }"

definition queue_capacity :: "'a queue_t \<Rightarrow> nat" where
  "queue_capacity queue = LOCKFREE_QUEUE_SIZE - 1"

definition queue_verify_invariants :: "'a queue_t \<Rightarrow> bool" where
  "queue_verify_invariants queue =
     (if unat (q_head queue) \<ge> LOCKFREE_QUEUE_SIZE then False
      else if unat (q_tail queue) \<ge> LOCKFREE_QUEUE_SIZE then False
      else let size = (q_tail queue - q_head queue) AND LOCKFREE_QUEUE_MASK in
        if unat size \<ge> LOCKFREE_QUEUE_SIZE then False
        else if ps_total_enqueues (q_producer_stats queue) < cs_total_dequeues (q_consumer_stats queue) then False
        else True)"

text \<open>\<open>(total_enq, total_deq, failed_enq, peak)\<close>\<close>

definition queue_get_stats :: "'a queue_t \<Rightarrow> u64 \<times> u64 \<times> u64 \<times> u64" where
  "queue_get_stats queue =
     (ps_total_enqueues (q_producer_stats queue), cs_total_dequeues (q_consumer_stats queue),
      ps_failed_enqueues (q_producer_stats queue), ps_peak_size (q_producer_stats queue))"

subsection \<open>Index arithmetic\<close>

lemma unat_and_queue_mask: "unat (x AND LOCKFREE_QUEUE_MASK) = unat x mod LOCKFREE_QUEUE_SIZE"
proof -
  have "x AND LOCKFREE_QUEUE_MASK = take_bit 16 x" by (simp add: take_bit_eq_mask mask_eq_exp_minus_1)
  then have "unat (x AND LOCKFREE_QUEUE_MASK) = take_bit 16 (unat x)" by (metis unsigned_take_bit_eq)
  also have "\<dots> = unat x mod LOCKFREE_QUEUE_SIZE" by (simp add: take_bit_eq_mod)
  finally show ?thesis .
qed

lemma unat_add_mod: "unat (x + y) mod LOCKFREE_QUEUE_SIZE = (unat x + unat y) mod LOCKFREE_QUEUE_SIZE" for x y :: u64
  by (simp add: unat_word_ariths mod_mod_cancel)

definition next_ix :: "u64 \<Rightarrow> u64" where
  "next_ix x = (x + 1) AND LOCKFREE_QUEUE_MASK"

definition span :: "u64 \<Rightarrow> u64 \<Rightarrow> nat" where
  "span h t = unat ((t - h) AND LOCKFREE_QUEUE_MASK)"

definition slot_at :: "u64 \<Rightarrow> nat \<Rightarrow> nat" where
  "slot_at h i = (unat h + i) mod LOCKFREE_QUEUE_SIZE"

definition ix_ok :: "u64 \<Rightarrow> bool" where
  "ix_ok x \<longleftrightarrow> unat x < LOCKFREE_QUEUE_SIZE"

lemma span_bound: "span h t < LOCKFREE_QUEUE_SIZE"
  by (simp add: span_def unat_and_queue_mask)

lemma ix_ok_and [simp]: "ix_ok (x AND LOCKFREE_QUEUE_MASK)"
  by (simp add: ix_ok_def unat_and_queue_mask)

lemma ix_ok_next [simp]: "ix_ok (next_ix x)"
  by (simp add: next_ix_def)

lemma span_add: "ix_ok t \<Longrightarrow> (unat h + span h t) mod LOCKFREE_QUEUE_SIZE = unat t"
proof -
  assume "ix_ok t"
  have "(unat h + span h t) mod LOCKFREE_QUEUE_SIZE = unat (h + (t - h)) mod LOCKFREE_QUEUE_SIZE"
    unfolding span_def unat_and_queue_mask unat_add_mod by (simp add: mod_add_right_eq)
  also have "\<dots> = unat t" using \<open>ix_ok t\<close> by (simp add: ix_ok_def)
  finally show ?thesis .
qed

lemma slot_inj_le:
  assumes "slot_at h i = slot_at h j" and "i \<le> j" and "j < LOCKFREE_QUEUE_SIZE"
  shows "i = j"
proof -
  have "LOCKFREE_QUEUE_SIZE dvd (unat h + j) - (unat h + i)"
    using assms(1,2) mod_eq_dvd_iff_nat [of "unat h + i" "unat h + j" LOCKFREE_QUEUE_SIZE] by (simp add: slot_at_def)
  then have "LOCKFREE_QUEUE_SIZE dvd j - i" by simp
  then show ?thesis using assms(2,3) dvd_imp_le [of LOCKFREE_QUEUE_SIZE "j - i"] by (cases "j - i = 0") auto
qed

lemma slot_inj:
  assumes "slot_at h i = slot_at h j" and "i < LOCKFREE_QUEUE_SIZE" and "j < LOCKFREE_QUEUE_SIZE"
  shows "i = j"
  using assms slot_inj_le [of h i j] slot_inj_le [of h j i] by (cases "i \<le> j") auto

lemma slot_span: "ix_ok t \<Longrightarrow> slot_at h (span h t) = unat t"
  using span_add by (simp add: slot_at_def)

lemma span_eqI:
  assumes "ix_ok t" and "slot_at h n = unat t" and "n < LOCKFREE_QUEUE_SIZE"
  shows "span h t = n"
  using slot_inj [of h "span h t" n] slot_span [OF assms(1), of h] assms span_bound by simp

lemma span_0: "ix_ok h \<Longrightarrow> ix_ok t \<Longrightarrow> span h t = 0 \<longleftrightarrow> h = t"
  using slot_span [of t h] by (auto simp: slot_at_def ix_ok_def span_def intro: unsigned_word_eqI)

lemma unat_next: "unat (next_ix x) = Suc (unat x) mod LOCKFREE_QUEUE_SIZE"
  unfolding next_ix_def unat_and_queue_mask unat_add_mod by simp

lemma slot_Suc: "slot_at h (Suc i) = Suc (slot_at h i) mod LOCKFREE_QUEUE_SIZE"
  by (simp add: slot_at_def mod_Suc_eq)

lemma slot_next: "slot_at (next_ix h) i = slot_at h (Suc i)"
  by (simp add: slot_at_def unat_next mod_add_left_eq)

lemma span_tail:
  assumes "ix_ok h" "ix_ok t" "next_ix t \<noteq> h"
  shows "span h (next_ix t) = Suc (span h t)" "Suc (span h t) < LOCKFREE_QUEUE_SIZE"
proof -
  have s: "slot_at h (Suc (span h t)) = unat (next_ix t)"
    using slot_span [OF assms(2), of h] by (simp add: slot_Suc unat_next)
  show lt: "Suc (span h t) < LOCKFREE_QUEUE_SIZE"
  proof (rule ccontr)
    assume "\<not> ?thesis"
    then have "Suc (span h t) = LOCKFREE_QUEUE_SIZE" using span_bound [of h t] by simp
    then have "unat (next_ix t) = unat h" using s assms(1) by (simp add: slot_at_def ix_ok_def)
    with assms(3) show False using unsigned_word_eqI by blast
  qed
  show "span h (next_ix t) = Suc (span h t)" by (rule span_eqI [OF ix_ok_next s lt])
qed

lemma span_full: "ix_ok h \<Longrightarrow> ix_ok t \<Longrightarrow> next_ix t = h \<Longrightarrow> span h t = LOCKFREE_QUEUE_SIZE - 1"
proof -
  assume h: "ix_ok h" "ix_ok t" "next_ix t = h"
  have "slot_at h (LOCKFREE_QUEUE_SIZE - 1) = unat t"
    using h(2) unfolding h(3) [symmetric] slot_at_def unat_next ix_ok_def by (simp add: mod_Suc)
  then show ?thesis by (intro span_eqI [OF h(2)]) auto
qed

lemma span_head:
  assumes "ix_ok h" "ix_ok t" "h \<noteq> t"
  shows "span (next_ix h) t = span h t - 1" "0 < span h t"
proof -
  show p: "0 < span h t" using span_0 [OF assms(1,2)] assms(3) by simp
  have "slot_at (next_ix h) (span h t - 1) = unat t"
    using slot_span [OF assms(2), of h] p by (simp add: slot_next)
  then show "span (next_ix h) t = span h t - 1" using span_bound [of h t] by (intro span_eqI [OF assms(2)]) auto
qed

lemma slot_span_neq:
  assumes "ix_ok h" "ix_ok t" "i < span h t"
  shows "slot_at h i \<noteq> unat t"
  using slot_inj [of h i "span h t"] slot_span [OF assms(2), of h] assms(3) span_bound [of h t] by fastforce

subsection \<open>The queue is a bounded list\<close>

definition contents :: "'a queue_t \<Rightarrow> 'a list" where
  "contents q = map (\<lambda>i. q_buffer q (slot_at (q_head q) i)) [0..<span (q_head q) (q_tail q)]"

definition queue_ok :: "'a queue_t \<Rightarrow> bool" where
  "queue_ok q \<longleftrightarrow> ix_ok (q_head q) \<and> ix_ok (q_tail q)
     \<and> ps_total_enqueues (q_producer_stats q) = cs_total_dequeues (q_consumer_stats q) + of_nat (length (contents q))"

lemma length_contents [simp]: "length (contents q) = span (q_head q) (q_tail q)"
  by (simp add: contents_def)

lemma contents_cong:
  "q_head q' = q_head q \<Longrightarrow> q_tail q' = q_tail q \<Longrightarrow> q_buffer q' = q_buffer q \<Longrightarrow> contents q' = contents q"
  by (simp add: contents_def)

text \<open>Writing the slot at the tail and publishing it appends; moving the head takes elements off the front.\<close>

lemma contents_store:
  assumes "ix_ok (q_head q)" "ix_ok (q_tail q)"
  shows "contents (q\<lparr>q_buffer := (q_buffer q)(unat (q_tail q) := x)\<rparr>) = contents q"
  using slot_span_neq [OF assms] by (auto simp: contents_def)

lemma contents_publish:
  assumes "ix_ok (q_head q)" "ix_ok (q_tail q)" "next_ix (q_tail q) \<noteq> q_head q"
  shows "contents (q\<lparr>q_tail := next_ix (q_tail q)\<rparr>) = contents q @ [q_buffer q (unat (q_tail q))]"
  using span_tail(1) [OF assms] slot_span [OF assms(2), of "q_head q"] by (simp add: contents_def)

lemma slot_add: "slot_at ((h + n) AND LOCKFREE_QUEUE_MASK) i = slot_at h (unat n + i)"
  by (simp add: slot_at_def unat_and_queue_mask unat_add_mod mod_add_left_eq add.assoc)

lemma span_advance:
  assumes "ix_ok h" "ix_ok t" "unat n \<le> span h t"
  shows "span ((h + n) AND LOCKFREE_QUEUE_MASK) t = span h t - unat n"
proof (rule span_eqI [OF assms(2)])
  show "slot_at ((h + n) AND LOCKFREE_QUEUE_MASK) (span h t - unat n) = unat t"
    using slot_span [OF assms(2), of h] assms(3) by (simp add: slot_add)
  show "span h t - unat n < LOCKFREE_QUEUE_SIZE" using span_bound [of h t] by simp
qed

lemma contents_advance:
  assumes "ix_ok (q_head q)" "ix_ok (q_tail q)" "unat n \<le> span (q_head q) (q_tail q)"
  shows "contents (q\<lparr>q_head := (q_head q + n) AND LOCKFREE_QUEUE_MASK\<rparr>) = drop (unat n) (contents q)"
proof (rule nth_equalityI)
  let ?q = "q\<lparr>q_head := (q_head q + n) AND LOCKFREE_QUEUE_MASK\<rparr>"
  show "length (contents ?q) = length (drop (unat n) (contents q))" by (simp add: span_advance [OF assms])
  fix i
  assume "i < length (contents ?q)"
  then have "i < span (q_head q) (q_tail q) - unat n" by (simp add: span_advance [OF assms])
  moreover from this have "unat n + i < span (q_head q) (q_tail q)" by simp
  ultimately show "contents ?q ! i = drop (unat n) (contents q) ! i"
    by (simp add: contents_def span_advance [OF assms] slot_add)
qed

lemma advance_one: "(h + 1) AND LOCKFREE_QUEUE_MASK = next_ix h"
  by (simp add: next_ix_def)

lemma contents_head:
  assumes "ix_ok (q_head q)" "ix_ok (q_tail q)" "q_head q \<noteq> q_tail q"
  shows "contents q = q_buffer q (unat (q_head q)) # contents (q\<lparr>q_head := next_ix (q_head q)\<rparr>)"
proof -
  note h = span_head(2) [OF assms]
  have "contents (q\<lparr>q_head := next_ix (q_head q)\<rparr>) = drop 1 (contents q)"
    using contents_advance [OF assms(1,2), of 1] h by (simp add: advance_one)
  moreover have "contents q ! 0 = q_buffer q (unat (q_head q))" using h assms(1) by (simp add: contents_def slot_at_def ix_ok_def)
  moreover have "contents q \<noteq> []" using h by (metis length_contents length_greater_0_conv)
  ultimately show ?thesis by (cases "contents q") simp_all
qed

lemma contents_take:
  assumes "n \<le> span (q_head q) (q_tail q)"
  shows "map (\<lambda>i. q_buffer q (unat ((q_head q + of_nat i) AND LOCKFREE_QUEUE_MASK))) [0..<n] = take n (contents q)"
proof (rule nth_equalityI)
  fix i assume "i < length (map (\<lambda>i. q_buffer q (unat ((q_head q + of_nat i) AND LOCKFREE_QUEUE_MASK))) [0..<n])"
  then have i: "i < n" by simp
  then have "i < 2 ^ 64" using assms span_bound [of "q_head q" "q_tail q"] by simp
  then have "unat (of_nat i :: u64) = i" by (simp add: unat_of_nat)
  with i assms show "map (\<lambda>i. q_buffer q (unat ((q_head q + of_nat i) AND LOCKFREE_QUEUE_MASK))) [0..<n] ! i = take n (contents q) ! i"
    by (simp add: contents_def unat_and_queue_mask unat_add_mod slot_at_def)
qed (use assms in simp)

lemma queue_init_ok: "\<exists>q'. queue_init q = Some q' \<and> queue_ok q' \<and> contents q' = []"
  by (simp add: queue_init_def asserts queue_ok_def ix_ok_def contents_def span_def)

lemma queue_enqueue_ok:
  assumes ok: "queue_ok q" and e: "queue_enqueue q x = (b, q')"
  shows "b \<longleftrightarrow> length (contents q) < LOCKFREE_QUEUE_SIZE - 1" and "queue_ok q'"
    and "contents q' = (if b then contents q @ [x] else contents q)"
proof -
  let ?h = "q_head q" and ?t = "q_tail q"
  have ix: "ix_ok ?h" "ix_ok ?t" using ok by (simp_all add: queue_ok_def)
  define q1 where "q1 = q\<lparr>q_buffer := (q_buffer q)(unat ?t := x)\<rparr>"
  have b: "b \<longleftrightarrow> next_ix ?t \<noteq> ?h" using e by (auto simp: queue_enqueue_def Let_def next_ix_def split: if_splits)
  show len: "b \<longleftrightarrow> length (contents q) < LOCKFREE_QUEUE_SIZE - 1"
    using span_tail(2) [OF ix] span_full [OF ix] unfolding b length_contents by fastforce
  show c: "contents q' = (if b then contents q @ [x] else contents q)"
  proof (cases b)
    case True
    have "contents q' = contents (q1\<lparr>q_tail := next_ix ?t\<rparr>)"
      using e True by (intro contents_cong) (auto simp: queue_enqueue_def Let_def q1_def next_ix_def split: if_splits)
    then show ?thesis
      using contents_publish [of q1] contents_store [OF ix, of x] True b ix by (simp add: q1_def)
  next
    case False
    with e have "contents q' = contents q" by (intro contents_cong) (auto simp: queue_enqueue_def Let_def split: if_splits)
    with False show ?thesis by simp
  qed
  have st: "ps_total_enqueues (q_producer_stats q') = ps_total_enqueues (q_producer_stats q) + (if b then 1 else 0)"
    "q_consumer_stats q' = q_consumer_stats q" "q_head q' = ?h" "ix_ok (q_tail q')"
    using e ix by (auto simp: queue_enqueue_def Let_def split: if_splits)
  have len': "length (contents q') = length (contents q) + (if b then 1 else 0)" unfolding c by simp
  have "ps_total_enqueues (q_producer_stats q') = cs_total_dequeues (q_consumer_stats q') + of_nat (length (contents q'))"
    unfolding st(1,2) len' of_nat_add using ok by (cases b) (simp_all only: queue_ok_def if_True if_False of_nat_1 semiring_1_class.of_nat_0 add.assoc)
  with st(3,4) ix show "queue_ok q'" unfolding queue_ok_def by (simp only: simp_thms)
qed

lemma queue_dequeue_ok:
  assumes ok: "queue_ok q" and d: "queue_dequeue q = (r, q')"
  shows "r = (case contents q of [] \<Rightarrow> None | x # _ \<Rightarrow> Some x)" and "queue_ok q'" and "contents q' = tl (contents q)"
proof -
  let ?h = "q_head q" and ?t = "q_tail q"
  have ix: "ix_ok ?h" "ix_ok ?t" using ok by (simp_all add: queue_ok_def)
  show "r = (case contents q of [] \<Rightarrow> None | x # _ \<Rightarrow> Some x)" "queue_ok q'" "contents q' = tl (contents q)"
  proof (atomize (full), cases "?h = ?t")
    case True
    then have "contents q = []" using span_0 [OF ix] by (simp add: contents_def)
    with True d ok show "r = (case contents q of [] \<Rightarrow> None | x # _ \<Rightarrow> Some x) \<and> queue_ok q' \<and> contents q' = tl (contents q)"
      by (auto simp: queue_dequeue_def Let_def)
  next
    case False
    have q': "q' = q\<lparr>q_head := next_ix ?h, q_consumer_stats := (q_consumer_stats q)\<lparr>cs_total_dequeues := cs_total_dequeues (q_consumer_stats q) + 1\<rparr>\<rparr>"
      and r: "r = Some (q_buffer q (unat ?h))"
      using d False by (auto simp: queue_dequeue_def Let_def next_ix_def)
    have "contents q' = contents (q\<lparr>q_head := next_ix ?h\<rparr>)" unfolding q' by (rule contents_cong) simp_all
    then have c: "contents q = q_buffer q (unat ?h) # contents q'" using contents_head [OF ix False] by simp
    have "length (contents q) = Suc (length (contents q'))" unfolding c by simp
    then have "queue_ok q'" using ok ix unfolding queue_ok_def by (simp add: q')
    with r c show "r = (case contents q of [] \<Rightarrow> None | x # _ \<Rightarrow> Some x) \<and> queue_ok q' \<and> contents q' = tl (contents q)" by simp
  qed
qed

lemma queue_dequeue_batch_ok:
  assumes ok: "queue_ok q" and d: "queue_dequeue_batch q m = (xs, q')"
  shows "xs = take (unat m) (contents q)" and "queue_ok q'" and "contents q' = drop (unat m) (contents q)"
proof -
  let ?h = "q_head q" and ?t = "q_tail q"
  let ?a = "(?t - ?h) AND LOCKFREE_QUEUE_MASK"
  define n where "n = (if ?a < m then ?a else m)"
  have ix: "ix_ok ?h" "ix_ok ?t" using ok by (simp_all add: queue_ok_def)
  have a: "unat ?a = length (contents q)" by (simp add: span_def)
  have n: "unat n = min (length (contents q)) (unat m)" by (simp add: n_def word_less_nat_alt a)
  show "xs = take (unat m) (contents q)" "queue_ok q'" "contents q' = drop (unat m) (contents q)"
  proof (atomize (full), cases "n = 0")
    case True
    then have "unat m = 0 \<or> contents q = []" using n by (simp add: min_def del: length_contents split: if_splits)
    moreover have "xs = [] \<and> q' = q" using d True by (auto simp: queue_dequeue_batch_def Let_def n_def split: if_splits)
    ultimately show "xs = take (unat m) (contents q) \<and> queue_ok q' \<and> contents q' = drop (unat m) (contents q)" using ok by auto
  next
    case False
    then have m: "m \<noteq> 0" by (auto simp: n_def)
    have nl: "unat n \<le> span ?h ?t" using n by simp
    have q': "q' = q\<lparr>q_head := (?h + n) AND LOCKFREE_QUEUE_MASK, q_consumer_stats := (q_consumer_stats q)\<lparr>
        cs_total_dequeues := cs_total_dequeues (q_consumer_stats q) + n, cs_batch_dequeues := cs_batch_dequeues (q_consumer_stats q) + 1\<rparr>\<rparr>"
      and xs: "xs = map (\<lambda>i. q_buffer q (unat ((?h + of_nat i) AND LOCKFREE_QUEUE_MASK))) [0..<unat n]"
      using d False m by (auto simp: queue_dequeue_batch_def Let_def n_def)
    have "xs = take (unat n) (contents q)" unfolding xs by (rule contents_take [OF nl])
    then have x: "xs = take (unat m) (contents q)" by (simp add: n min_def)
    have "contents q' = contents (q\<lparr>q_head := (?h + n) AND LOCKFREE_QUEUE_MASK\<rparr>)" unfolding q' by (rule contents_cong) simp_all
    then have c: "contents q' = drop (unat n) (contents q)" using contents_advance [OF ix nl] by simp
    have "of_nat (length (contents q')) = (of_nat (length (contents q)) - n :: u64)"
      unfolding c length_drop using nl by (simp add: of_nat_diff)
    then have "queue_ok q'" using ok ix unfolding queue_ok_def by (simp add: q' del: length_contents)
    with x c show "xs = take (unat m) (contents q) \<and> queue_ok q' \<and> contents q' = drop (unat m) (contents q)"
      unfolding n by (simp add: min_def)
  qed
qed

lemma queue_observers:
  assumes "queue_ok q"
  shows "queue_size q = Some (of_nat (length (contents q)))" and "queue_empty q = Some (contents q = [])"
    and "queue_destroy q = (if contents q = [] then Some q else None)"
    and "length (contents q) \<le> queue_capacity q"
    and "unat (cs_total_dequeues (q_consumer_stats q)) + length (contents q) < 2 ^ 64 \<Longrightarrow> queue_verify_invariants q"
proof -
  have ix: "ix_ok (q_head q)" "ix_ok (q_tail q)" using assms by (simp_all add: queue_ok_def)
  show "queue_size q = Some (of_nat (length (contents q)))"
    using ix by (simp add: queue_size_def asserts ix_ok_def span_def)
  have e: "contents q = [] \<longleftrightarrow> q_head q = q_tail q" using span_0 [OF ix] by (metis length_0_conv length_contents)
  show emp: "queue_empty q = Some (contents q = [])" using ix e by (simp add: queue_empty_def asserts ix_ok_def)
  show "queue_destroy q = (if contents q = [] then Some q else None)" by (simp add: queue_destroy_def emp asserts)
  show "length (contents q) \<le> queue_capacity q" using span_bound [of "q_head q" "q_tail q"] by (simp add: queue_capacity_def)
  show "queue_verify_invariants q" if "unat (cs_total_dequeues (q_consumer_stats q)) + length (contents q) < 2 ^ 64"
  proof -
    have "unat (of_nat (length (contents q)) :: u64) = length (contents q)" using that by (simp add: unat_of_nat)
    with that have "unat (ps_total_enqueues (q_producer_stats q)) = unat (cs_total_dequeues (q_consumer_stats q)) + length (contents q)"
      using assms unfolding queue_ok_def by (simp add: unat_word_ariths)
    then have "cs_total_dequeues (q_consumer_stats q) \<le> ps_total_enqueues (q_producer_stats q)" by (simp add: word_le_nat_alt)
    with ix show ?thesis by (auto simp: queue_verify_invariants_def ix_ok_def unat_and_queue_mask Let_def)
  qed
qed

subsection \<open>The interface of the queue\<close>

text \<open>What a thread that sends or receives through the queue relies on.\<close>

locale fifo =
  fixes enq :: "'q \<Rightarrow> 'a \<Rightarrow> bool \<times> 'q"
    and deq :: "'q \<Rightarrow> 'a option \<times> 'q"
    and cont :: "'q \<Rightarrow> 'a list"
    and invar :: "'q \<Rightarrow> bool"
    and cap :: nat
  assumes enq_law: "invar q \<Longrightarrow> enq q x = (b, q') \<Longrightarrow>
        invar q' \<and> (b \<longleftrightarrow> length (cont q) < cap) \<and> cont q' = (if b then cont q @ [x] else cont q)"
    and deq_law: "invar q \<Longrightarrow> deq q = (r, q') \<Longrightarrow>
        invar q' \<and> r = (case cont q of [] \<Rightarrow> None | x # _ \<Rightarrow> Some x) \<and> cont q' = tl (cont q)"
begin

fun enq_all :: "'q \<Rightarrow> 'a list \<Rightarrow> nat \<times> 'q" where
  "enq_all q [] = (0, q)"
| "enq_all q (x # xs) = (let (b, q1) = enq q x; (n, q2) = enq_all q1 xs in ((if b then 1 else 0) + n, q2))"

fun deq_all :: "nat \<Rightarrow> 'q \<Rightarrow> 'a list \<times> 'q" where
  "deq_all 0 q = ([], q)"
| "deq_all (Suc n) q = (case deq q of (None, q1) \<Rightarrow> ([], q1) | (Some x, q1) \<Rightarrow> (let (xs, q2) = deq_all n q1 in (x # xs, q2)))"

lemma enq_all_ok:
  "invar q \<Longrightarrow> enq_all q xs = (n, q') \<Longrightarrow>
     invar q' \<and> n = min (length xs) (cap - length (cont q)) \<and> cont q' = cont q @ take n xs"
proof (induction xs arbitrary: q n q')
  case (Cons x xs)
  obtain b q1 where e: "enq q x = (b, q1)" by (cases "enq q x")
  obtain m q2 where a: "enq_all q1 xs = (m, q2)" by (cases "enq_all q1 xs")
  note l = enq_law [OF Cons.prems(1) e]
  from Cons.IH [OF _ a] l have i: "invar q2" "m = min (length xs) (cap - length (cont q1))" "cont q2 = cont q1 @ take m xs" by blast+
  have r: "n = (if b then 1 else 0) + m" "q' = q2" using Cons.prems(2) e a by auto
  show ?case
  proof (cases b)
    case True
    with l i r show ?thesis by auto
  next
    case False
    with l i r show ?thesis by auto
  qed
qed simp

lemma deq_all_ok:
  "invar q \<Longrightarrow> deq_all n q = (xs, q') \<Longrightarrow> invar q' \<and> xs = take n (cont q) \<and> cont q' = drop n (cont q)"
proof (induction n arbitrary: q xs q')
  case (Suc n)
  obtain r q1 where d: "deq q = (r, q1)" by (cases "deq q")
  note l = deq_law [OF Suc.prems(1) d]
  show ?case
  proof (cases "cont q")
    case Nil
    with l Suc.prems(2) d show ?thesis by auto
  next
    case (Cons y ys)
    obtain zs q2 where z: "deq_all n q1 = (zs, q2)" by (cases "deq_all n q1")
    from Suc.IH [OF _ z] l Cons Suc.prems(2) d z show ?thesis by auto
  qed
qed simp

text \<open>What goes in comes out, in order.\<close>

lemma through:
  assumes "invar q" and "cont q = []" and "enq_all q xs = (n, q1)" and "deq_all (length xs) q1 = (ys, q2)" and "length xs \<le> cap"
  shows "n = length xs \<and> ys = xs \<and> cont q2 = []"
  using enq_all_ok [OF assms(1,3)] deq_all_ok [OF _ assms(4)] assms(2,5) by auto

end

text \<open>Batches: a batch is as good as that many single elements.\<close>

locale batch_fifo = fifo enq deq cont invar cap
  for enq :: "'q \<Rightarrow> 'a \<Rightarrow> bool \<times> 'q" and deq cont invar cap +
  fixes deq_many :: "'q \<Rightarrow> u64 \<Rightarrow> 'a list \<times> 'q"
  assumes many_law: "invar q \<Longrightarrow> deq_many q m = (xs, q') \<Longrightarrow>
      invar q' \<and> xs = take (unat m) (cont q) \<and> cont q' = drop (unat m) (cont q)"
begin

lemma many_single:
  assumes "invar q" and "deq_many q m = (xs, q1)" and "deq_all (unat m) q = (ys, q2)"
  shows "xs = ys \<and> cont q1 = cont q2"
  using many_law [OF assms(1,2)] deq_all_ok [OF assms(1,3)] by simp

end

interpretation lq: batch_fifo queue_enqueue queue_dequeue contents queue_ok "LOCKFREE_QUEUE_SIZE - 1" queue_dequeue_batch
proof unfold_locales
  fix q :: "'a queue_t" and x b q'
  assume "queue_ok q" "queue_enqueue q x = (b, q')"
  from queue_enqueue_ok [OF this] show "queue_ok q' \<and> b = (length (contents q) < LOCKFREE_QUEUE_SIZE - 1)
      \<and> contents q' = (if b then contents q @ [x] else contents q)" by blast
next
  fix q :: "'a queue_t" and r q'
  assume "queue_ok q" "queue_dequeue q = (r, q')"
  from queue_dequeue_ok [OF this] show "queue_ok q' \<and> r = (case contents q of [] \<Rightarrow> None | x # _ \<Rightarrow> Some x) \<and> contents q' = tl (contents q)"
    by blast
next
  fix q :: "'a queue_t" and m xs q'
  assume "queue_ok q" "queue_dequeue_batch q m = (xs, q')"
  from queue_dequeue_batch_ok [OF this] show "queue_ok q' \<and> xs = take (unat m) (contents q) \<and> contents q' = drop (unat m) (contents q)"
    by blast
qed

subsection \<open>Producer and consumer at the same time\<close>

text \<open>
  Where the two threads are.  Producer: before the load of the head, before the store of the item, before the
  publication of the tail, before the statistics.  Consumer: before the load of the tail, before the
  read of the item, before the publication of the head, before the statistics; in a batch the items are
  read one by one.
\<close>

datatype 'a producer =
    P_idle
  | P_load_head 'a u64
  | P_store 'a u64 u64
  | P_publish 'a u64 u64
  | P_stats u64 u64

datatype 'a consumer =
    C_idle
  | C_load_tail u64
  | C_read u64
  | C_publish 'a u64
  | C_stats
  | C_batch_tail u64 u64
  | C_copy u64 u64 "'a list"
  | C_batch_stats u64

text \<open>\<open>sent\<close>: the items published so far; \<open>got\<close>: the items taken so far.\<close>

record 'a spsc =
  sh :: "'a queue_t"
  prod :: "'a producer"
  cons :: "'a consumer"
  sent :: "'a list"
  got :: "'a list"

inductive producer_step :: "'a spsc \<Rightarrow> 'a spsc \<Rightarrow> bool" where
  load_tail: "prod s = P_idle \<Longrightarrow> producer_step s (s\<lparr>prod := P_load_head item (q_tail (sh s))\<rparr>)"
| full: "prod s = P_load_head item t \<Longrightarrow> (t + 1) AND LOCKFREE_QUEUE_MASK = q_head (sh s) \<Longrightarrow>
    producer_step s (s\<lparr>prod := P_idle, sh := (sh s)\<lparr>q_producer_stats := (q_producer_stats (sh s))\<lparr>
      ps_failed_enqueues := ps_failed_enqueues (q_producer_stats (sh s)) + 1\<rparr>\<rparr>\<rparr>)"
| load_head: "prod s = P_load_head item t \<Longrightarrow> (t + 1) AND LOCKFREE_QUEUE_MASK \<noteq> q_head (sh s) \<Longrightarrow>
    producer_step s (s\<lparr>prod := P_store item t (q_head (sh s))\<rparr>)"
| store: "prod s = P_store item t h \<Longrightarrow>
    producer_step s (s\<lparr>prod := P_publish item t h, sh := (sh s)\<lparr>q_buffer := (q_buffer (sh s))(unat t := item)\<rparr>\<rparr>)"
| publish: "prod s = P_publish item t h \<Longrightarrow>
    producer_step s (s\<lparr>prod := P_stats ((t + 1) AND LOCKFREE_QUEUE_MASK) h,
      sh := (sh s)\<lparr>q_tail := (t + 1) AND LOCKFREE_QUEUE_MASK\<rparr>, sent := sent s @ [item]\<rparr>)"
| stats: "prod s = P_stats next_tail h \<Longrightarrow> ps = (q_producer_stats (sh s))\<lparr>
      ps_total_enqueues := ps_total_enqueues (q_producer_stats (sh s)) + 1\<rparr> \<Longrightarrow>
    producer_step s (s\<lparr>prod := P_idle, sh := (sh s)\<lparr>q_producer_stats :=
      (if (next_tail - h) AND LOCKFREE_QUEUE_MASK > ps_peak_size ps
       then ps\<lparr>ps_peak_size := (next_tail - h) AND LOCKFREE_QUEUE_MASK\<rparr> else ps)\<rparr>\<rparr>)"

inductive consumer_step :: "'a spsc \<Rightarrow> 'a spsc \<Rightarrow> bool" where
  load_head: "cons s = C_idle \<Longrightarrow> consumer_step s (s\<lparr>cons := C_load_tail (q_head (sh s))\<rparr>)"
| empty_queue: "cons s = C_load_tail h \<Longrightarrow> h = q_tail (sh s) \<Longrightarrow> consumer_step s (s\<lparr>cons := C_idle\<rparr>)"
| load_tail: "cons s = C_load_tail h \<Longrightarrow> h \<noteq> q_tail (sh s) \<Longrightarrow> consumer_step s (s\<lparr>cons := C_read h\<rparr>)"
| read: "cons s = C_read h \<Longrightarrow> consumer_step s (s\<lparr>cons := C_publish (q_buffer (sh s) (unat h)) h\<rparr>)"
| publish: "cons s = C_publish item h \<Longrightarrow>
    consumer_step s (s\<lparr>cons := C_stats, sh := (sh s)\<lparr>q_head := (h + 1) AND LOCKFREE_QUEUE_MASK\<rparr>, got := got s @ [item]\<rparr>)"
| stats: "cons s = C_stats \<Longrightarrow> consumer_step s (s\<lparr>cons := C_idle, sh := (sh s)\<lparr>q_consumer_stats := (q_consumer_stats (sh s))\<lparr>
      cs_total_dequeues := cs_total_dequeues (q_consumer_stats (sh s)) + 1\<rparr>\<rparr>\<rparr>)"
| batch: "cons s = C_idle \<Longrightarrow> m \<noteq> 0 \<Longrightarrow> consumer_step s (s\<lparr>cons := C_batch_tail m (q_head (sh s))\<rparr>)"
| batch_size: "cons s = C_batch_tail m h \<Longrightarrow> a = (q_tail (sh s) - h) AND LOCKFREE_QUEUE_MASK \<Longrightarrow>
    n = (if a < m then a else m) \<Longrightarrow> consumer_step s (s\<lparr>cons := (if n = 0 then C_idle else C_copy h n [])\<rparr>)"
| copy: "cons s = C_copy h n items \<Longrightarrow> length items < unat n \<Longrightarrow> consumer_step s (s\<lparr>cons :=
      C_copy h n (items @ [q_buffer (sh s) (unat ((h + of_nat (length items)) AND LOCKFREE_QUEUE_MASK))])\<rparr>)"
| batch_publish: "cons s = C_copy h n items \<Longrightarrow> length items = unat n \<Longrightarrow>
    consumer_step s (s\<lparr>cons := C_batch_stats n, sh := (sh s)\<lparr>q_head := (h + n) AND LOCKFREE_QUEUE_MASK\<rparr>, got := got s @ items\<rparr>)"
| batch_stats: "cons s = C_batch_stats n \<Longrightarrow> cs = q_consumer_stats (sh s) \<Longrightarrow>
    consumer_step s (s\<lparr>cons := C_idle, sh := (sh s)\<lparr>q_consumer_stats := cs\<lparr>cs_total_dequeues := cs_total_dequeues cs + n,
      cs_batch_dequeues := cs_batch_dequeues cs + 1\<rparr>\<rparr>\<rparr>)"

inductive spsc_run :: "'a spsc \<Rightarrow> bool" where
  start: "queue_init q = Some q' \<Longrightarrow> spsc_run \<lparr>sh = q', prod = P_idle, cons = C_idle, sent = [], got = []\<rparr>"
| producer: "spsc_run s \<Longrightarrow> producer_step s s' \<Longrightarrow> spsc_run s'"
| consumer: "spsc_run s \<Longrightarrow> consumer_step s s' \<Longrightarrow> spsc_run s'"

inductive_cases producer_stepE: "producer_step s s'"
inductive_cases consumer_stepE: "consumer_step s s'"

subsection \<open>Invariant\<close>

definition producer_inv :: "'a queue_t \<Rightarrow> 'a producer \<Rightarrow> bool" where
  "producer_inv q p = (case p of
     P_idle \<Rightarrow> True
   | P_load_head item t \<Rightarrow> t = q_tail q
   | P_store item t h \<Rightarrow> t = q_tail q \<and> next_ix t \<noteq> q_head q
   | P_publish item t h \<Rightarrow> t = q_tail q \<and> next_ix t \<noteq> q_head q \<and> q_buffer q (unat t) = item
   | P_stats next_tail h \<Rightarrow> True)"

definition consumer_inv :: "'a queue_t \<Rightarrow> 'a consumer \<Rightarrow> bool" where
  "consumer_inv q c = (case c of
     C_load_tail h \<Rightarrow> h = q_head q
   | C_read h \<Rightarrow> h = q_head q \<and> h \<noteq> q_tail q
   | C_publish item h \<Rightarrow> h = q_head q \<and> h \<noteq> q_tail q \<and> item = q_buffer q (unat h)
   | C_batch_tail m h \<Rightarrow> h = q_head q
   | C_copy h n items \<Rightarrow> h = q_head q \<and> unat n \<le> length (contents q) \<and> length items \<le> unat n
       \<and> items = take (length items) (contents q)
   | _ \<Rightarrow> True)"

definition spsc_inv :: "'a spsc \<Rightarrow> bool" where
  "spsc_inv s \<longleftrightarrow> ix_ok (q_head (sh s)) \<and> ix_ok (q_tail (sh s)) \<and> sent s = got s @ contents (sh s)
     \<and> producer_inv (sh s) (prod s) \<and> consumer_inv (sh s) (cons s)"

lemma contents_simps [simp]:
  "contents (q\<lparr>q_producer_stats := ps\<rparr>) = contents q" "contents (q\<lparr>q_consumer_stats := cs\<rparr>) = contents q"
  by (simp_all add: contents_def)

lemma inv_stats [simp]:
  "producer_inv (q\<lparr>q_producer_stats := ps\<rparr>) p = producer_inv q p" "producer_inv (q\<lparr>q_consumer_stats := cs\<rparr>) p = producer_inv q p"
  "consumer_inv (q\<lparr>q_producer_stats := ps\<rparr>) c = consumer_inv q c" "consumer_inv (q\<lparr>q_consumer_stats := cs\<rparr>) c = consumer_inv q c"
  by (simp_all add: producer_inv_def consumer_inv_def split: producer.splits consumer.splits)

lemma inv_idle [simp]: "producer_inv q P_idle" "consumer_inv q C_idle" "producer_inv q (P_stats t h)" "consumer_inv q C_stats"
  "consumer_inv q (C_batch_stats n)"
  by (simp_all add: producer_inv_def consumer_inv_def)

lemma nonempty_contents: "ix_ok (q_head q) \<Longrightarrow> ix_ok (q_tail q) \<Longrightarrow> q_head q \<noteq> q_tail q \<longleftrightarrow> contents q \<noteq> []"
  using span_0 [of "q_head q" "q_tail q"] by (metis length_0_conv length_contents)

text \<open>The store of the producer goes to a slot the consumer does not read.\<close>

lemma store_keeps_consumer:
  assumes ix: "ix_ok (q_head q)" "ix_ok (q_tail q)" and c: "consumer_inv q c"
  shows "consumer_inv (q\<lparr>q_buffer := (q_buffer q)(unat (q_tail q) := item)\<rparr>) c"
proof -
  have "unat (q_head q) \<noteq> unat (q_tail q)" if "q_head q \<noteq> q_tail q" using that unsigned_word_eqI by blast
  then show ?thesis using c by (auto simp: consumer_inv_def contents_store [OF ix] simp del: length_contents split: consumer.splits)
qed

lemma publish_keeps_consumer:
  assumes ix: "ix_ok (q_head q)" "ix_ok (q_tail q)" and room: "next_ix (q_tail q) \<noteq> q_head q" and c: "consumer_inv q c"
  shows "consumer_inv (q\<lparr>q_tail := next_ix (q_tail q)\<rparr>) c"
  using c room by (auto simp: consumer_inv_def contents_publish [OF ix room] simp del: length_contents split: consumer.splits)

lemma producer_step_inv:
  assumes inv: "spsc_inv s" and step: "producer_step s s'"
  shows "spsc_inv s'"
proof -
  let ?q = "sh s"
  have ix: "ix_ok (q_head ?q)" "ix_ok (q_tail ?q)" and eq: "sent s = got s @ contents ?q"
    and p: "producer_inv ?q (prod s)" and c: "consumer_inv ?q (cons s)" using inv by (simp_all add: spsc_inv_def)
  from step show ?thesis
  proof (cases rule: producer_step.cases)
    case (load_tail item)
    then show ?thesis using inv by (simp add: spsc_inv_def producer_inv_def)
  next
    case (full item t)
    then show ?thesis using inv by (simp add: spsc_inv_def)
  next
    case (load_head item t)
    then show ?thesis using inv by (simp add: spsc_inv_def producer_inv_def next_ix_def)
  next
    case (store item t h)
    then have t: "t = q_tail ?q" "next_ix t \<noteq> q_head ?q" using p by (auto simp: producer_inv_def)
    show ?thesis
      using ix eq c t store_keeps_consumer [OF ix c, of item] contents_store [OF ix, of item]
      unfolding store(1) by (simp add: spsc_inv_def producer_inv_def)
  next
    case (publish item t h)
    then have t: "t = q_tail ?q" "next_ix t \<noteq> q_head ?q" "q_buffer ?q (unat t) = item" using p by (auto simp: producer_inv_def)
    have room: "next_ix (q_tail ?q) \<noteq> q_head ?q" using t by simp
    show ?thesis
      using ix eq t publish_keeps_consumer [OF ix room c] contents_publish [OF ix room]
      unfolding publish(1) spsc_inv_def by (simp add: next_ix_def [symmetric])
  next
    case (stats next_tail h ps)
    then show ?thesis using inv by (simp add: spsc_inv_def)
  qed
qed

text \<open>When the head moves, the room for the producer only grows.\<close>

lemma advance_keeps_room:
  assumes ix: "ix_ok (q_head q)" "ix_ok (q_tail q)" and n: "unat n \<le> length (contents q)" and room: "next_ix (q_tail q) \<noteq> q_head q"
  shows "next_ix (q_tail q) \<noteq> (q_head q + n) AND LOCKFREE_QUEUE_MASK"
proof
  let ?h = "(q_head q + n) AND LOCKFREE_QUEUE_MASK"
  assume "next_ix (q_tail q) = ?h"
  from span_full [OF ix_ok_and ix(2) this] have "span ?h (q_tail q) = LOCKFREE_QUEUE_SIZE - 1" .
  moreover have "span ?h (q_tail q) \<le> span (q_head q) (q_tail q)" using span_advance [OF ix] n by simp
  moreover have "Suc (span (q_head q) (q_tail q)) < LOCKFREE_QUEUE_SIZE" by (rule span_tail(2) [OF ix room])
  ultimately show False by simp
qed

lemma advance_keeps_producer:
  assumes ix: "ix_ok (q_head q)" "ix_ok (q_tail q)" and n: "unat n \<le> length (contents q)" and p: "producer_inv q p"
  shows "producer_inv (q\<lparr>q_head := (q_head q + n) AND LOCKFREE_QUEUE_MASK\<rparr>) p"
  using p advance_keeps_room [OF ix n] by (auto simp: producer_inv_def split: producer.splits)

lemma advance_inv:
  assumes inv: "spsc_inv s" and n: "unat n \<le> length (contents (sh s))" and items: "items = take (unat n) (contents (sh s))"
    and c: "\<And>q. consumer_inv q c"
  shows "spsc_inv (s\<lparr>cons := c, sh := (sh s)\<lparr>q_head := (q_head (sh s) + n) AND LOCKFREE_QUEUE_MASK\<rparr>, got := got s @ items\<rparr>)"
proof -
  let ?q = "sh s"
  have ix: "ix_ok (q_head ?q)" "ix_ok (q_tail ?q)" and eq: "sent s = got s @ contents ?q"
    and p: "producer_inv ?q (prod s)" using inv by (simp_all add: spsc_inv_def)
  have "unat n \<le> span (q_head ?q) (q_tail ?q)" using n by simp
  from contents_advance [OF ix this] advance_keeps_producer [OF ix n p] ix(2) eq c items show ?thesis
    by (simp add: spsc_inv_def)
qed

lemma consumer_step_inv:
  assumes inv: "spsc_inv s" and step: "consumer_step s s'"
  shows "spsc_inv s'"
proof -
  let ?q = "sh s"
  have ix: "ix_ok (q_head ?q)" "ix_ok (q_tail ?q)" and eq: "sent s = got s @ contents ?q"
    and p: "producer_inv ?q (prod s)" and c: "consumer_inv ?q (cons s)" using inv by (simp_all add: spsc_inv_def)
  from step show ?thesis
  proof (cases rule: consumer_step.cases)
    case (publish item h)
    then have h: "h = q_head ?q" "h \<noteq> q_tail ?q" "item = q_buffer ?q (unat h)" using c by (auto simp: consumer_inv_def)
    have c1: "contents ?q \<noteq> []" "contents ?q = item # contents (?q\<lparr>q_head := next_ix (q_head ?q)\<rparr>)"
      using contents_head [OF ix] nonempty_contents [OF ix] h by auto
    then have "unat 1 \<le> length (contents ?q)" "[item] = take (unat 1) (contents ?q)"
      by (metis One_nat_def Suc_leI length_greater_0_conv unat_1) (metis c1(2) take0 take_Suc_Cons unat_1 One_nat_def)
    from advance_inv [OF inv this, of C_stats] show ?thesis unfolding publish(1) h(1) by simp
  next
    case (batch_size m h a n)
    then have h: "h = q_head ?q" using c by (simp add: consumer_inv_def)
    have a: "unat a = length (contents ?q)" unfolding batch_size(3) h by (simp add: span_def)
    have "unat n \<le> unat a" using batch_size(4) by (simp add: word_less_nat_alt split: if_splits)
    then have "consumer_inv ?q (C_copy h n [])" using h a by (simp add: consumer_inv_def del: length_contents)
    then show ?thesis using inv unfolding batch_size(1) by (simp add: spsc_inv_def)
  next
    case (copy h n items)
    then have h: "h = q_head ?q" "unat n \<le> length (contents ?q)" "items = take (length items) (contents ?q)"
      using c by (auto simp: consumer_inv_def)
    let ?i = "length items"
    have i: "?i < length (contents ?q)" using h(2) copy(3) by simp
    have "Suc ?i \<le> span (q_head ?q) (q_tail ?q)" using i by simp
    from arg_cong [OF contents_take [OF this], of last]
    have "q_buffer ?q (unat ((h + of_nat ?i) AND LOCKFREE_QUEUE_MASK)) = contents ?q ! ?i"
      using i h(1) by (simp add: take_Suc_conv_app_nth del: length_contents)
    then have "items @ [q_buffer ?q (unat ((h + of_nat ?i) AND LOCKFREE_QUEUE_MASK))] = take (Suc ?i) (contents ?q)"
      using i h(3) by (metis take_Suc_conv_app_nth)
    then have "consumer_inv ?q (C_copy h n (items @ [q_buffer ?q (unat ((h + of_nat ?i) AND LOCKFREE_QUEUE_MASK))]))"
      using h copy(3) by (simp add: consumer_inv_def)
    then show ?thesis using inv unfolding copy(1) by (simp add: spsc_inv_def)
  next
    case (batch_publish h n items)
    then have "h = q_head ?q" "unat n \<le> length (contents ?q)" "items = take (unat n) (contents ?q)"
      using c by (auto simp: consumer_inv_def)
    with advance_inv [OF inv this(2,3), of "C_batch_stats n"] show ?thesis unfolding batch_publish(1) by simp
  qed (use inv in \<open>simp_all add: spsc_inv_def consumer_inv_def\<close>)
qed

theorem spsc_run_inv: "spsc_run s \<Longrightarrow> spsc_inv s"
proof (induction rule: spsc_run.induct)
  case (start q q')
  with queue_init_ok [of q] show ?case by (auto simp: spsc_inv_def queue_ok_def)
qed (blast intro: producer_step_inv consumer_step_inv)+

subsection \<open>What the threads see\<close>

lemma run_fifo:
  assumes "spsc_run s"
  shows "\<exists>pend. sent s = got s @ pend \<and> length pend \<le> LOCKFREE_QUEUE_SIZE - 1 \<and> pend = contents (sh s)"
proof -
  have "length (contents (sh s)) < LOCKFREE_QUEUE_SIZE" by (simp add: span_bound)
  with spsc_run_inv [OF assms] show ?thesis by (auto simp: spsc_inv_def simp del: length_contents)
qed

lemma run_no_race:
  assumes run: "spsc_run s" and p: "prod s = P_store item t h"
  shows "cons s = C_read h' \<Longrightarrow> unat t \<noteq> unat h'"
    and "cons s = C_copy h' n items \<Longrightarrow> length items < unat n \<Longrightarrow> unat t \<noteq> unat ((h' + of_nat (length items)) AND LOCKFREE_QUEUE_MASK)"
proof -
  let ?q = "sh s"
  from spsc_run_inv [OF run] have ix: "ix_ok (q_head ?q)" "ix_ok (q_tail ?q)" and pi: "producer_inv ?q (prod s)" and ci: "consumer_inv ?q (cons s)"
    by (simp_all add: spsc_inv_def)
  have t: "t = q_tail ?q" using pi p by (simp add: producer_inv_def)
  show "unat t \<noteq> unat h'" if "cons s = C_read h'"
    using ci that t by (auto simp: consumer_inv_def dest: unsigned_word_eqI)
  show "unat t \<noteq> unat ((h' + of_nat (length items)) AND LOCKFREE_QUEUE_MASK)" if "cons s = C_copy h' n items" "length items < unat n"
  proof -
    have h: "h' = q_head ?q" "unat n \<le> span (q_head ?q) (q_tail ?q)" using ci that by (simp_all add: consumer_inv_def)
    then have i: "length items < span (q_head ?q) (q_tail ?q)" using that(2) by simp
    then have "unat (of_nat (length items) :: u64) = length items" using span_bound [of "q_head ?q" "q_tail ?q"] by (simp add: unat_of_nat)
    then have "unat ((h' + of_nat (length items)) AND LOCKFREE_QUEUE_MASK) = slot_at (q_head ?q) (length items)"
      by (simp add: unat_and_queue_mask unat_add_mod slot_at_def h(1))
    with slot_span_neq [OF ix i] t show ?thesis by simp
  qed
qed

text \<open>Neither thread waits for the other: each can always make its next step.\<close>

lemma producer_can_step: "\<exists>s'. producer_step s s'"
proof (cases "prod s")
  case (P_load_head item t)
  then show ?thesis by (cases "(t + 1) AND LOCKFREE_QUEUE_MASK = q_head (sh s)") (blast intro: producer_step.intros)+
qed (blast intro: producer_step.intros)+

lemma consumer_can_step:
  assumes "spsc_run s"
  shows "\<exists>s'. consumer_step s s'"
proof (cases "cons s")
  case (C_load_tail h)
  then show ?thesis by (cases "h = q_tail (sh s)") (blast intro: consumer_step.intros)+
next
  case (C_copy h n items)
  with spsc_run_inv [OF assms] have "length items \<le> unat n" by (simp add: spsc_inv_def consumer_inv_def)
  with C_copy show ?thesis by (cases "length items = unat n") (auto intro!: exI intro: consumer_step.intros)
qed (blast intro: consumer_step.intros)+

subsection \<open>The steps are the steps of the functions\<close>

text \<open>A thread that runs alone does what the function says.\<close>

lemma enqueue_steps:
  assumes "prod s = P_idle"
  shows "\<exists>s'. producer_step\<^sup>*\<^sup>* s s' \<and> prod s' = P_idle \<and> sh s' = snd (queue_enqueue (sh s) item)
     \<and> cons s' = cons s \<and> got s' = got s \<and> sent s' = sent s @ (if fst (queue_enqueue (sh s) item) then [item] else [])"
proof -
  let ?t = "q_tail (sh s)" and ?h = "q_head (sh s)"
  let ?n = "(?t + 1) AND LOCKFREE_QUEUE_MASK"
  let ?s1 = "s\<lparr>prod := P_load_head item ?t\<rparr>"
  have 1: "producer_step s ?s1" by (rule producer_step.load_tail [OF assms])
  show ?thesis
  proof (cases "?n = ?h")
    case True
    from producer_step.full [of ?s1 item ?t] True obtain s2 where
      "producer_step ?s1 s2" "s2 = ?s1\<lparr>prod := P_idle, sh := snd (queue_enqueue (sh s) item)\<rparr>"
      by (simp add: queue_enqueue_def Let_def)
    with 1 True show ?thesis
      by (intro exI [of _ s2]) (auto simp: queue_enqueue_def Let_def intro: converse_rtranclp_into_rtranclp)
  next
    case False
    let ?q3 = "(sh s)\<lparr>q_buffer := (q_buffer (sh s))(unat ?t := item)\<rparr>"
    let ?s2 = "s\<lparr>prod := P_store item ?t ?h\<rparr>" and ?s3 = "s\<lparr>prod := P_publish item ?t ?h, sh := ?q3\<rparr>"
    let ?s4 = "s\<lparr>prod := P_stats ?n ?h, sh := ?q3\<lparr>q_tail := ?n\<rparr>, sent := sent s @ [item]\<rparr>"
    let ?s5 = "?s4\<lparr>prod := P_idle, sh := snd (queue_enqueue (sh s) item)\<rparr>"
    have 2: "producer_step ?s1 ?s2" using producer_step.load_head [of ?s1 item ?t] False by simp
    have 3: "producer_step ?s2 ?s3" using producer_step.store [of ?s2 item ?t ?h] by simp
    have 4: "producer_step ?s3 ?s4" using producer_step.publish [of ?s3 item ?t ?h] by simp
    have 5: "producer_step ?s4 ?s5" using producer_step.stats [of ?s4 ?n ?h] False by (simp add: queue_enqueue_def Let_def)
    have "producer_step\<^sup>*\<^sup>* s ?s5"
      using 1 2 3 4 5 by (meson converse_rtranclp_into_rtranclp rtranclp.rtrancl_refl)
    with False show ?thesis by (intro exI [of _ ?s5]) (simp add: queue_enqueue_def Let_def)
  qed
qed

lemma dequeue_steps:
  assumes "cons s = C_idle"
  shows "\<exists>s'. consumer_step\<^sup>*\<^sup>* s s' \<and> cons s' = C_idle \<and> sh s' = snd (queue_dequeue (sh s))
     \<and> prod s' = prod s \<and> sent s' = sent s \<and> got s' = got s @ (case fst (queue_dequeue (sh s)) of Some x \<Rightarrow> [x] | None \<Rightarrow> [])"
proof -
  let ?t = "q_tail (sh s)" and ?h = "q_head (sh s)"
  let ?s1 = "s\<lparr>cons := C_load_tail ?h\<rparr>"
  have 1: "consumer_step s ?s1" by (rule consumer_step.load_head [OF assms])
  show ?thesis
  proof (cases "?h = ?t")
    case True
    let ?s2 = "s\<lparr>cons := C_idle\<rparr>"
    have "consumer_step ?s1 ?s2" using consumer_step.empty_queue [of ?s1 ?h] True by simp
    with 1 have "consumer_step\<^sup>*\<^sup>* s ?s2" by (meson converse_rtranclp_into_rtranclp rtranclp.rtrancl_refl)
    with True show ?thesis by (intro exI [of _ ?s2]) (simp add: queue_dequeue_def)
  next
    case False
    let ?x = "q_buffer (sh s) (unat ?h)"
    let ?s2 = "s\<lparr>cons := C_read ?h\<rparr>" and ?s3 = "s\<lparr>cons := C_publish ?x ?h\<rparr>"
    let ?s4 = "s\<lparr>cons := C_stats, sh := (sh s)\<lparr>q_head := (?h + 1) AND LOCKFREE_QUEUE_MASK\<rparr>, got := got s @ [?x]\<rparr>"
    let ?s5 = "?s4\<lparr>cons := C_idle, sh := snd (queue_dequeue (sh s))\<rparr>"
    have 2: "consumer_step ?s1 ?s2" using consumer_step.load_tail [of ?s1 ?h] False by simp
    have 3: "consumer_step ?s2 ?s3" using consumer_step.read [of ?s2 ?h] by simp
    have 4: "consumer_step ?s3 ?s4" using consumer_step.publish [of ?s3 ?x ?h] by simp
    have 5: "consumer_step ?s4 ?s5" using consumer_step.stats [of ?s4] False by (simp add: queue_dequeue_def Let_def)
    have "consumer_step\<^sup>*\<^sup>* s ?s5"
      using 1 2 3 4 5 by (meson converse_rtranclp_into_rtranclp rtranclp.rtrancl_refl)
    with False show ?thesis by (intro exI [of _ ?s5]) (simp add: queue_dequeue_def Let_def)
  qed
qed

end
