(* ===== verification/ME_Csv.thy ===== *)
theory ME_Csv
  imports ME_Messages ME_Bytes
begin

text \<open>
  The CSV requests: the parser of the server (\<^verbatim>\<open>src/protocol/csv/message_parser.c\<close>) and the CSV
  encoders of the client (\<^verbatim>\<open>tools/client/codec.c\<close>).  A C string is the list of its characters
  before the terminator.  What the sources use of the C library is modelled here too: \<^verbatim>\<open>isspace\<close> in
  the C locale, \<^verbatim>\<open>strtoul\<close> with base 10 and a 64-bit \<^verbatim>\<open>unsigned long\<close>, \<^verbatim>\<open>%u\<close>, \<^verbatim>\<open>%s\<close> and
  \<^verbatim>\<open>%c\<close> of \<^verbatim>\<open>snprintf\<close>.
\<close>

abbreviation MAX_LINE_LENGTH :: nat where "MAX_LINE_LENGTH \<equiv> 1024"
abbreviation MAX_TOKENS :: nat where "MAX_TOKENS \<equiv> 16"
abbreviation MAX_TOKEN_LENGTH :: nat where "MAX_TOKEN_LENGTH \<equiv> 128"
abbreviation MAX_TRIM_ITERATIONS :: nat where "MAX_TRIM_ITERATIONS \<equiv> 1024"
abbreviation MAX_SPLIT_ITERATIONS :: nat where "MAX_SPLIT_ITERATIONS \<equiv> 1024"

subsection \<open>The C library\<close>

definition isspace :: "char \<Rightarrow> bool" where
  "isspace c = (c = CHR '' '' \<or> c = CHR 0x09 \<or> c = CHR 0x0A \<or> c = CHR 0x0B \<or> c = CHR 0x0C \<or> c = CHR 0x0D)"

definition isdigit :: "char \<Rightarrow> bool" where
  "isdigit c = ((48 :: nat) \<le> of_char c \<and> of_char c \<le> (57 :: nat))"

definition digit_value :: "char \<Rightarrow> nat" where
  "digit_value c = of_char c - 48"

fun read_digits :: "nat \<Rightarrow> string \<Rightarrow> nat \<times> string" where
  "read_digits acc [] = (acc, [])"
| "read_digits acc (c # cs) = (if isdigit c then read_digits (acc * 10 + digit_value c) cs else (acc, c # cs))"

text \<open>The results: the value, whether \<^verbatim>\<open>errno\<close> is \<^verbatim>\<open>ERANGE\<close>, and the rest of the string at \<^verbatim>\<open>endptr\<close>.\<close>

definition strtoul :: "string \<Rightarrow> nat \<times> bool \<times> string" where
  "strtoul s =
     (let s1 = dropWhile isspace s;
          neg = (s1 \<noteq> [] \<and> hd s1 = CHR ''-'');
          s2 = (if s1 \<noteq> [] \<and> (hd s1 = CHR ''-'' \<or> hd s1 = CHR ''+'') then tl s1 else s1)
      in if s2 = [] \<or> \<not> isdigit (hd s2) then (0, False, s)
         else let (v, rest) = read_digits 0 s2 in
           if v \<ge> 2 ^ 64 then (2 ^ 64 - 1, True, rest)
           else ((if neg then (2 ^ 64 - v) mod 2 ^ 64 else v), False, rest))"

definition digit_char :: "nat \<Rightarrow> char" where
  "digit_char d = char_of (48 + d)"

fun show_nat :: "nat \<Rightarrow> string" where
  "show_nat n = (if n < 10 then [digit_char n] else show_nat (n div 10) @ [digit_char (n mod 10)])"

declare show_nat.simps [simp del]

definition fmt_u :: "u32 \<Rightarrow> string" where
  "fmt_u x = show_nat (unat x)"

definition fmt_c :: "u8 \<Rightarrow> string" where
  "fmt_c x = [byte_char x]"

subsection \<open>The parser\<close>

record message_parser_t =
  mp_line_buffer :: string
  mp_tokens :: "nat \<Rightarrow> string"
  mp_num_tokens :: nat

definition message_parser_init :: "message_parser_t \<Rightarrow> message_parser_t option" where
  "message_parser_init parser = do {
     let p = \<lparr>mp_line_buffer = [], mp_tokens = (\<lambda>_. []), mp_num_tokens = 0\<rparr>;
     assert_that (mp_num_tokens p = 0);
     Some p
   }"

text \<open>The two bounded loops of \<open>trim_whitespace\<close>; the second one runs on the reversed string and keeps one character.\<close>

fun skip_spaces :: "nat \<Rightarrow> string \<Rightarrow> string" where
  "skip_spaces 0 s = s"
| "skip_spaces (Suc n) [] = []"
| "skip_spaces (Suc n) (c # s) = (if isspace c then skip_spaces n s else c # s)"

fun drop_end :: "nat \<Rightarrow> string \<Rightarrow> string" where
  "drop_end 0 s = s"
| "drop_end (Suc n) (c # d # s) = (if isspace c then drop_end n (d # s) else c # d # s)"
| "drop_end (Suc n) s = s"

definition trim_whitespace :: "string \<Rightarrow> string" where
  "trim_whitespace str =
     (if str = [] then []
      else let start = skip_spaces MAX_TRIM_ITERATIONS str in
        if start = [] then [] else rev (drop_end MAX_TRIM_ITERATIONS (rev start)))"

text \<open>
  The loop of \<open>split_string\<close>: \<open>cur\<close> are the characters from \<^verbatim>\<open>start\<close> to \<^verbatim>\<open>end\<close>, the
  third argument those from \<^verbatim>\<open>end\<close> on.  The result is \<^verbatim>\<open>token_count\<close>, the tokens, and both parts.
\<close>

fun split_loop :: "nat \<Rightarrow> string \<Rightarrow> string \<Rightarrow> char \<Rightarrow> nat \<Rightarrow> nat \<Rightarrow> (nat \<Rightarrow> string) \<Rightarrow> nat \<times> (nat \<Rightarrow> string) \<times> string \<times> string" where
  "split_loop 0 cur rest delimiter max_tokens token_count tokens = (token_count, tokens, cur, rest)"
| "split_loop (Suc n) cur [] delimiter max_tokens token_count tokens = (token_count, tokens, cur, [])"
| "split_loop (Suc n) cur (c # rest) delimiter max_tokens token_count tokens =
     (if token_count < max_tokens then
        if c = delimiter
        then split_loop n [] rest delimiter max_tokens (token_count + 1) (tokens(token_count := take (MAX_TOKEN_LENGTH - 1) cur))
        else split_loop n (cur @ [c]) rest delimiter max_tokens token_count tokens
      else (token_count, tokens, cur, c # rest))"

definition split_string :: "string \<Rightarrow> char \<Rightarrow> (nat \<Rightarrow> string) \<Rightarrow> nat \<Rightarrow> (nat \<times> (nat \<Rightarrow> string)) option" where
  "split_string str delimiter tokens max_tokens = do {
     assert_that (max_tokens > 0);
     let (token_count, tokens', cur, rest) = split_loop MAX_SPLIT_ITERATIONS [] str delimiter max_tokens 0 tokens;
     Some (if token_count < max_tokens \<and> cur @ rest \<noteq> []
           then (token_count + 1, tokens'(token_count := take (MAX_TOKEN_LENGTH - 1) cur))
           else (token_count, tokens'))
   }"

definition parse_uint32 :: "string \<Rightarrow> u32" where
  "parse_uint32 str =
     (if str = [] then 0
      else let s = dropWhile isspace str in
        if s \<noteq> [] \<and> hd s = CHR ''-'' then 0
        else let (val, erange, endptr) = strtoul s in
          if erange then 0
          else if endptr = s then 0
          else if dropWhile isspace endptr \<noteq> [] then 0
          else if val > 2 ^ 32 - 1 then 0
          else of_nat val)"

definition parse_side :: "string \<Rightarrow> u8 option" where
  "parse_side str =
     (if str = [] then None
      else let c = hd str in
        if c = CHR ''B'' \<or> c = CHR ''b'' then Some SIDE_BUY
        else if c = CHR ''S'' \<or> c = CHR ''s'' then Some SIDE_SELL
        else None)"

text \<open>\<open>Some None\<close> is the result false.\<close>

definition parse_new_order :: "message_parser_t \<Rightarrow> input_msg_t option option" where
  "parse_new_order parser =
     (let tokens = mp_tokens parser in
      if mp_num_tokens parser \<noteq> 7 then Some None
      else let user_id = parse_uint32 (tokens 1) in
        if user_id = 0 \<and> \<not> (tokens 1 \<noteq> [] \<and> hd (tokens 1) = CHR ''0'') then Some None
        else let sym_len = length (tokens 2) in
          if sym_len = 0 then Some None
          else let sym_len' = (if sym_len \<ge> MAX_SYMBOL_LENGTH then MAX_SYMBOL_LENGTH - 1 else sym_len);
                   symbol = take sym_len' (tokens 2);
                   price = parse_uint32 (tokens 3);
                   quantity = parse_uint32 (tokens 4)
               in if quantity = 0 then Some None
                  else case parse_side (tokens 5) of
                      None \<Rightarrow> Some None
                    | Some side \<Rightarrow> do {
                        let user_order_id = parse_uint32 (tokens 6);
                        msg \<leftarrow> make_new_order_msg \<lparr>no_user_id = user_id, no_user_order_id = user_order_id, no_price = price,
                                 no_quantity = quantity, no_side = side, no_symbol = symbol\<rparr>;
                        assert_that (input_msg_type msg = 0);
                        Some (Some msg)
                      })"

definition parse_cancel :: "message_parser_t \<Rightarrow> input_msg_t option option" where
  "parse_cancel parser =
     (if mp_num_tokens parser \<noteq> 3 then Some None
      else do {
        msg \<leftarrow> make_cancel_msg \<lparr>cm_user_id = parse_uint32 (mp_tokens parser 1),
                 cm_user_order_id = parse_uint32 (mp_tokens parser 2), cm_symbol = []\<rparr>;
        assert_that (input_msg_type msg = 1);
        Some (Some msg)
      })"

definition parse_flush :: "message_parser_t \<Rightarrow> input_msg_t option option" where
  "parse_flush parser =
     (if mp_num_tokens parser \<noteq> 1 then Some None
      else do {
        let msg = make_flush_msg;
        assert_that (input_msg_type msg = 2);
        Some (Some msg)
      })"

definition parse_by_type :: "char \<Rightarrow> message_parser_t \<Rightarrow> input_msg_t option option" where
  "parse_by_type msg_type parser =
     (if msg_type = CHR ''N'' \<or> msg_type = CHR ''n'' then parse_new_order parser
      else if msg_type = CHR ''C'' \<or> msg_type = CHR ''c'' then parse_cancel parser
      else if msg_type = CHR ''F'' \<or> msg_type = CHR ''f'' then parse_flush parser
      else Some None)"

definition message_parser_parse :: "message_parser_t \<Rightarrow> string \<Rightarrow> (input_msg_t option \<times> message_parser_t) option" where
  "message_parser_parse parser line = do {
     let line_len = (if length line \<ge> MAX_LINE_LENGTH then MAX_LINE_LENGTH - 1 else length line);
     let buf = trim_whitespace (take line_len line);
     let parser1 = parser\<lparr>mp_line_buffer := buf\<rparr>;
     if buf = [] \<or> hd buf = CHR ''#'' then Some (None, parser1)
     else do {
       (n, toks) \<leftarrow> split_string buf (CHR '','') (mp_tokens parser1) MAX_TOKENS;
       if n = 0 then Some (None, parser1\<lparr>mp_num_tokens := n, mp_tokens := toks\<rparr>)
       else do {
         let toks' = (\<lambda>i. if i < n \<and> i < MAX_TOKENS then trim_whitespace (toks i) else toks i);
         let parser2 = parser1\<lparr>mp_num_tokens := n, mp_tokens := toks'\<rparr>;
         if toks' 0 = [] then Some (None, parser2)
         else do {
           let msg_type = hd (toks' 0);
           r \<leftarrow> parse_by_type msg_type parser2;
           Some (r, parser2)
         }
       }
     }
   }"

subsection \<open>The encoders of the client\<close>

text \<open>The text \<^verbatim>\<open>snprintf\<close> leaves in the buffer is cut at its size; a cut text is reported as length 0.\<close>

definition snprintf :: "nat \<Rightarrow> string \<Rightarrow> nat \<times> string" where
  "snprintf buffer_size text = (length text, take (buffer_size - 1) text)"

definition encoded_len :: "nat \<Rightarrow> nat \<Rightarrow> nat" where
  "encoded_len buffer_size len = (if len > 0 \<and> len < buffer_size then len else 0)"

definition encode_csv_new_order :: "nat \<Rightarrow> u32 \<Rightarrow> string \<Rightarrow> u32 \<Rightarrow> u32 \<Rightarrow> u8 \<Rightarrow> u32 \<Rightarrow> nat \<times> string" where
  "encode_csv_new_order buffer_size user_id symbol price quantity side order_id =
     (let (len, buffer) = snprintf buffer_size (''N, '' @ fmt_u user_id @ '', '' @ symbol @ '', '' @ fmt_u price @ '', ''
            @ fmt_u quantity @ '', '' @ fmt_c side @ '', '' @ fmt_u order_id @ [CHR 0x0A])
      in (encoded_len buffer_size len, buffer))"

definition encode_csv_cancel :: "nat \<Rightarrow> u32 \<Rightarrow> u32 \<Rightarrow> nat \<times> string" where
  "encode_csv_cancel buffer_size user_id order_id =
     (let (len, buffer) = snprintf buffer_size (''C, '' @ fmt_u user_id @ '', '' @ fmt_u order_id @ [CHR 0x0A])
      in (encoded_len buffer_size len, buffer))"

definition encode_csv_flush :: "nat \<Rightarrow> nat \<times> string" where
  "encode_csv_flush buffer_size =
     (let (len, buffer) = snprintf buffer_size (''F'' @ [CHR 0x0A]) in (encoded_len buffer_size len, buffer))"

subsection \<open>Numbers\<close>

lemma of_char_digit_char: "d < 10 \<Longrightarrow> of_char (digit_char d) = (48 + d :: nat)"
  by (simp add: digit_char_def)

lemma isspace_code: "isspace c \<Longrightarrow> (of_char c :: nat) \<le> 32"
  by (auto simp: isspace_def)

lemma char_code_neq: "(of_char c :: nat) \<noteq> of_char d \<Longrightarrow> c \<noteq> d"
  by auto

lemma digit_facts:
  assumes "d < 10"
  shows "isdigit (digit_char d)" "digit_value (digit_char d) = d" "\<not> isspace (digit_char d)" "digit_char d \<noteq> CHR '',''"
    "digit_char d \<noteq> CHR ''-''" "digit_char d \<noteq> CHR ''+''"
proof -
  note c = of_char_digit_char [OF assms]
  show "isdigit (digit_char d)" "digit_value (digit_char d) = d" using assms by (simp_all add: isdigit_def digit_value_def c)
  show "\<not> isspace (digit_char d)" using isspace_code [of "digit_char d"] by (auto simp: c)
  show "digit_char d \<noteq> CHR '',''" "digit_char d \<noteq> CHR ''-''" "digit_char d \<noteq> CHR ''+''"
    by (rule char_code_neq; simp add: c)+
qed

lemma read_show_nat: "read_digits a (show_nat n @ r) = read_digits (a * 10 ^ length (show_nat n) + n) r"
proof (induction n arbitrary: a r rule: show_nat.induct)
  case (1 n)
  show ?case
  proof (cases "n < 10")
    case True
    then show ?thesis by (simp add: show_nat.simps [of n] digit_facts)
  next
    case False
    have d: "n mod 10 < 10" by simp
    have "read_digits a (show_nat n @ r) = read_digits a (show_nat (n div 10) @ digit_char (n mod 10) # r)"
      using False by (simp add: show_nat.simps [of n])
    also have "\<dots> = read_digits ((a * 10 ^ length (show_nat (n div 10)) + n div 10) * 10 + n mod 10) r"
      by (simp add: 1 [OF False] digit_facts [OF d])
    also have "(a * 10 ^ length (show_nat (n div 10)) + n div 10) * 10 + n mod 10 = a * 10 ^ length (show_nat n) + n"
      using False by (simp add: show_nat.simps [of n] algebra_simps)
    finally show ?thesis .
  qed
qed

lemma show_nat_chars: "c \<in> set (show_nat n) \<Longrightarrow> \<exists>d<10. c = digit_char d"
proof (induction n rule: show_nat.induct)
  case (1 n)
  show ?case
  proof (cases "n < 10")
    case True
    with 1(2) show ?thesis by (auto simp: show_nat.simps [of n])
  next
    case False
    with 1 show ?thesis by (auto simp: show_nat.simps [of n] intro: exI [of _ "n mod 10"])
  qed
qed

lemma show_nat_ne: "show_nat n \<noteq> []"
  by (subst show_nat.simps) simp

lemma length_show_nat: "n < 10 ^ k \<Longrightarrow> 0 < k \<Longrightarrow> length (show_nat n) \<le> k"
proof (induction n arbitrary: k rule: show_nat.induct)
  case (1 n)
  show ?case
  proof (cases "n < 10")
    case True
    then show ?thesis using 1(3) by (simp add: show_nat.simps [of n])
  next
    case False
    then obtain j where k: "k = Suc j" "0 < j" using 1(2,3) by (cases k; cases "k = 1") auto
    then have "n div 10 < 10 ^ j" using 1(2) by (simp add: div_less_iff_less_mult)
    from 1(1) [OF False this k(2)] k False show ?thesis by (simp add: show_nat.simps [of n])
  qed
qed

lemma length_fmt_u: "length (fmt_u x) \<le> 10"
proof -
  have "unat x < 2 ^ 32" using unsigned_less [of x, where ?'a = nat] by simp
  then show ?thesis unfolding fmt_u_def by (intro length_show_nat) auto
qed

lemma fmt_u_chars: "c \<in> set (fmt_u x) \<Longrightarrow> \<not> isspace c \<and> c \<noteq> CHR '','' \<and> c \<noteq> CHR ''-''"
  using show_nat_chars [of c "unat x"] digit_facts by (fastforce simp: fmt_u_def)

lemma fmt_u_ne [simp]: "fmt_u x \<noteq> []"
  by (simp add: fmt_u_def show_nat_ne)

lemma parse_uint32_fmt: "parse_uint32 (fmt_u x) = x"
proof -
  let ?s = "fmt_u x"
  have hd: "hd ?s \<in> set ?s" by simp
  then obtain d where d: "d < 10" "hd ?s = digit_char d" using show_nat_chars by (auto simp: fmt_u_def)
  have dw: "dropWhile isspace ?s = ?s" using fmt_u_chars [OF hd] by (cases ?s) auto
  have v: "unat x < 2 ^ 32" using unsigned_less [of x, where ?'a = nat] by simp
  have "read_digits 0 ?s = (unat x, [])" using read_show_nat [of 0 "unat x" "[]"] by (simp add: fmt_u_def)
  then have st: "strtoul ?s = (unat x, False, [])"
    using v d digit_facts [OF d(1)] by (simp add: strtoul_def dw Let_def)
  show ?thesis
    using v d digit_facts [OF d(1)] fmt_u_ne [of x, symmetric] by (simp add: parse_uint32_def dw st Let_def)
qed

lemma fmt_u_0: "fmt_u 0 = ''0''"
proof -
  have "digit_char 0 = CHR ''0''" by (rule of_char_eqI [where ?'a = nat]) (simp add: of_char_digit_char)
  then show ?thesis by (simp add: fmt_u_def show_nat.simps)
qed

subsection \<open>Trimming\<close>

lemma skip_spaces_dropWhile: "length s \<le> n \<Longrightarrow> skip_spaces n s = dropWhile isspace s"
  by (induction n s rule: skip_spaces.induct) auto

lemma drop_end_dropWhile: "length s \<le> n \<Longrightarrow> \<exists>c\<in>set s. \<not> isspace c \<Longrightarrow> drop_end n s = dropWhile isspace s"
  by (induction n s rule: drop_end.induct) auto

lemma trim_whitespace_eq:
  assumes "length s \<le> MAX_TRIM_ITERATIONS"
  shows "trim_whitespace s = rev (dropWhile isspace (rev (dropWhile isspace s)))"
proof (cases "dropWhile isspace s = []")
  case True
  with assms have "skip_spaces MAX_TRIM_ITERATIONS s = []" by (simp only: skip_spaces_dropWhile)
  then have "trim_whitespace s = []" by (simp add: trim_whitespace_def)
  then show ?thesis unfolding True by simp
next
  case False
  then have "\<exists>c\<in>set (rev (dropWhile isspace s)). \<not> isspace c" by (metis hd_dropWhile hd_in_set set_rev)
  moreover have "length (rev (dropWhile isspace s)) \<le> MAX_TRIM_ITERATIONS"
    using assms length_dropWhile_le [of isspace s] by simp
  ultimately have "drop_end MAX_TRIM_ITERATIONS (rev (dropWhile isspace s)) = dropWhile isspace (rev (dropWhile isspace s))"
    by (intro drop_end_dropWhile) auto
  with False assms show ?thesis by (auto simp: trim_whitespace_def skip_spaces_dropWhile Let_def)
qed

text \<open>A text without white space at its ends.\<close>

definition trimmed :: "string \<Rightarrow> bool" where
  "trimmed s \<longleftrightarrow> s \<noteq> [] \<and> \<not> isspace (hd s) \<and> \<not> isspace (last s)"

lemma trim_trimmed:
  assumes "trimmed s" and "\<forall>c\<in>set pre. isspace c" and "\<forall>c\<in>set post. isspace c" and "length (pre @ s @ post) \<le> MAX_TRIM_ITERATIONS"
  shows "trim_whitespace (pre @ s @ post) = s"
proof -
  have "dropWhile isspace (pre @ s @ post) = s @ post"
    using assms(1,2) by (cases s) (auto simp: trimmed_def dropWhile_append2)
  moreover have "dropWhile isspace (rev (s @ post)) = rev s"
    using assms(1,3) dropWhile_append2 [of "rev post" isspace "rev s"]
    by (cases s rule: rev_cases) (auto simp: trimmed_def)
  ultimately show ?thesis using trim_whitespace_eq [OF assms(4)] by simp
qed

lemma trimmed_fmt_u: "trimmed (fmt_u x)"
  using fmt_u_chars [of "hd (fmt_u x)" x] fmt_u_chars [of "last (fmt_u x)" x] by (simp add: trimmed_def)

subsection \<open>Splitting\<close>

text \<open>The tokens of a line, put together with the delimiter between them.\<close>

fun join_tokens :: "char \<Rightarrow> string list \<Rightarrow> string" where
  "join_tokens d [] = []"
| "join_tokens d [t] = t"
| "join_tokens d (t # u # ts) = t @ d # join_tokens d (u # ts)"

lemma split_loop_token:
  "d \<notin> set w \<Longrightarrow> k < m \<Longrightarrow> split_loop (length w + n) cur (w @ r) d m k toks = split_loop n (cur @ w) r d m k toks"
  by (induction w arbitrary: cur) auto

lemma split_loop_end: "split_loop n cur [] d m k toks = (k, toks, cur, [])"
  by (cases n) auto

lemma split_loop_tokens:
  assumes "ts \<noteq> []" and "\<forall>t\<in>set ts. d \<notin> set t" and "k + length ts \<le> m" and "length (join_tokens d ts) \<le> n"
  shows "\<exists>toks'. split_loop n [] (join_tokens d ts) d m k toks = (k + length ts - 1, toks', last ts, [])
     \<and> (\<forall>i<length ts - 1. toks' (k + i) = take (MAX_TOKEN_LENGTH - 1) (ts ! i)) \<and> (\<forall>i<k. toks' i = toks i)"
  using assms
proof (induction d ts arbitrary: k n toks rule: join_tokens.induct)
  case (1 d)
  then show ?case by simp
next
  case (2 d t)
  then obtain j where "n = length t + j" by (auto simp: le_iff_add)
  with 2 show ?case using split_loop_token [of d t k m j "[]" "[]" toks] by (simp add: split_loop_end)
next
  case (3 d t u ts)
  then obtain j where n: "n = length t + Suc j" and j: "length (join_tokens d (u # ts)) \<le> j"
    by (auto simp: le_iff_add)
  from 3 have p: "\<forall>t\<in>set (u # ts). d \<notin> set t" "k + 1 + length (u # ts) \<le> m" by auto
  let ?toks = "toks(k := take (MAX_TOKEN_LENGTH - 1) t)"
  have "split_loop n [] (join_tokens d (t # u # ts)) d m k toks
      = split_loop j [] (join_tokens d (u # ts)) d m (k + 1) ?toks"
    using 3(3,4) split_loop_token [of d t k m "Suc j" "[]" "d # join_tokens d (u # ts)" toks] n by simp
  moreover obtain toks' where
      "split_loop j [] (join_tokens d (u # ts)) d m (k + 1) ?toks = (k + 1 + length (u # ts) - 1, toks', last (u # ts), [])"
      and t1: "\<forall>i<length (u # ts) - 1. toks' (k + 1 + i) = take (MAX_TOKEN_LENGTH - 1) ((u # ts) ! i)"
      and t2: "\<forall>i<k + 1. toks' i = ?toks i"
    using 3(1) [OF _ p j, of ?toks] by blast
  moreover have "toks' (k + i) = take (MAX_TOKEN_LENGTH - 1) ((t # u # ts) ! i)" if "i < length (t # u # ts) - 1" for i
    using t1 t2 that by (cases i) auto
  ultimately show ?case using t2 by auto
qed

lemma split_string_tokens:
  assumes "ts \<noteq> []" and "\<forall>t\<in>set ts. d \<notin> set t \<and> length t < MAX_TOKEN_LENGTH" and "length ts \<le> m" and "last ts \<noteq> []"
    and "length (join_tokens d ts) \<le> MAX_SPLIT_ITERATIONS"
  shows "\<exists>toks'. split_string (join_tokens d ts) d toks m = Some (length ts, toks') \<and> (\<forall>i<length ts. toks' i = ts ! i)"
proof -
  have ne: "0 < length ts" using assms(1) by simp
  from assms have pre: "\<forall>t\<in>set ts. d \<notin> set t" "0 + length ts \<le> m" "0 < m" using less_le_trans [OF ne assms(3)] by auto
  obtain toks' where r: "split_loop MAX_SPLIT_ITERATIONS [] (join_tokens d ts) d m 0 toks = (length ts - 1, toks', last ts, [])"
    and t: "\<forall>i<length ts - 1. toks' i = take (MAX_TOKEN_LENGTH - 1) (ts ! i)"
    using split_loop_tokens [OF assms(1) pre(1,2) assms(5), of toks] by auto
  have len: "take (MAX_TOKEN_LENGTH - 1) (ts ! i) = ts ! i" if "i < length ts" for i
    using assms(2) nth_mem [OF that] by fastforce
  have l: "last ts = ts ! (length ts - 1)" "length ts - 1 < length ts" "length ts - 1 < m" "length ts - 1 + 1 = length ts"
    using ne assms(3) less_le_trans [of "length ts - 1" "length ts" m] by (auto simp: last_conv_nth)
  let ?toks = "toks'(length ts - 1 := take (MAX_TOKEN_LENGTH - 1) (last ts))"
  have "split_string (join_tokens d ts) d toks m = Some (length ts, ?toks)"
    using r pre(3) l assms(4) by (simp add: split_string_def)
  moreover have "?toks i = ts ! i" if "i < length ts" for i
    using t len that l by (auto simp: less_Suc_eq)
  ultimately show ?thesis by blast
qed

text \<open>Every token comes from the line, and the first one is the text before the first delimiter.\<close>

lemma split_loop_set:
  "split_loop n cur r d m k toks = (k', toks', cur', r') \<Longrightarrow> \<forall>i<k. set (toks i) \<subseteq> A \<Longrightarrow> set cur \<subseteq> A \<Longrightarrow> set r \<subseteq> A
   \<Longrightarrow> (\<forall>i<k'. set (toks' i) \<subseteq> A) \<and> set cur' \<subseteq> A"
proof (induction n cur r d m k toks rule: split_loop.induct)
  case (3 n cur c rest d m k toks)
  have t: "set (take (MAX_TOKEN_LENGTH - 1) cur) \<subseteq> A" by (rule order_trans [OF set_take_subset 3(5)])
  show ?case
  proof (cases "k < m")
    case False
    then show ?thesis using 3(3-5) by auto
  next
    case True
    show ?thesis
    proof (cases "c = d")
      case c: True
      have "\<forall>i<k + 1. set ((toks(k := take (MAX_TOKEN_LENGTH - 1) cur)) i) \<subseteq> A" using 3(4) t by (auto simp: less_Suc_eq)
      moreover have "split_loop n [] rest d m (k + 1) (toks(k := take (MAX_TOKEN_LENGTH - 1) cur)) = (k', toks', cur', r')"
        using 3(3) True c by simp
      moreover have "set [] \<subseteq> A" "set rest \<subseteq> A" using 3(6) by auto
      ultimately show ?thesis using 3(1) [OF True c] by blast
    qed (use 3 True in auto)
  qed
qed auto

lemma split_string_set:
  assumes "split_string str d toks m = Some (n, toks')" and "i < n"
  shows "set (toks' i) \<subseteq> set str"
proof -
  obtain k tk cur r where l: "split_loop MAX_SPLIT_ITERATIONS [] str d m 0 toks = (k, tk, cur, r)" by (metis prod_cases4)
  have s: "\<forall>i<k. set (tk i) \<subseteq> set str" "set cur \<subseteq> set str" using split_loop_set [OF l, of "set str"] by auto
  have t: "set (take (MAX_TOKEN_LENGTH - 1) cur) \<subseteq> set str" by (rule order_trans [OF set_take_subset s(2)])
  have "(n, toks') = (k, tk) \<or> (n, toks') = (k + 1, tk(k := take (MAX_TOKEN_LENGTH - 1) cur))"
    using assms(1) l by (simp add: split_string_def bind_assert_that_Some split: if_splits)
  then show ?thesis using s(1) t assms(2) by (elim disjE) (cases "i = k"; simp)+
qed

lemma split_loop_keeps: "split_loop n cur r d m k toks = (k', toks', cur', r') \<Longrightarrow> k \<le> k' \<and> (\<forall>i<k. toks' i = toks i)"
  by (induction n cur r d m k toks rule: split_loop.induct) (fastforce split: if_splits)+

lemma split_string_first:
  assumes "split_string str d toks m = Some (n, toks')" and "0 < n" and "length str \<le> MAX_SPLIT_ITERATIONS"
  shows "toks' 0 = take (MAX_TOKEN_LENGTH - 1) (takeWhile (\<lambda>c. c \<noteq> d) str)"
proof -
  define w where "w = takeWhile (\<lambda>c. c \<noteq> d) str"
  have w: "d \<notin> set w" unfolding w_def by (auto dest: set_takeWhileD)
  have m: "0 < m" using assms(1) by (simp add: split_string_def asserts split: if_splits)
  have str: "str = w @ dropWhile (\<lambda>c. c \<noteq> d) str" by (simp add: w_def)
  obtain k tk cur r where l: "split_loop MAX_SPLIT_ITERATIONS [] str d m 0 toks = (k, tk, cur, r)" by (metis prod_cases4)
  show ?thesis
  proof (cases "dropWhile (\<lambda>c. c \<noteq> d) str")
    case Nil
    with str have s: "str = w @ []" by simp
    obtain j where "MAX_SPLIT_ITERATIONS = length w + j" using assms(3) s by (auto simp: le_iff_add)
    with split_loop_token [OF w m, of j "[]" "[]" toks] l s have "k = 0" "cur = w" "r = []" by (auto simp: split_loop_end)
    with l assms(1,2) m show ?thesis by (auto simp: split_string_def w_def split: if_splits)
  next
    case (Cons c rest)
    then have "c = d" by (simp add: dropWhile_eq_Cons_conv)
    with str Cons have s: "str = w @ d # rest" by simp
    from assms(3) s have "Suc (length w) \<le> MAX_SPLIT_ITERATIONS" by simp
    then obtain j where j: "MAX_SPLIT_ITERATIONS = length w + Suc j" by (metis add_Suc add_Suc_right le_Suc_ex)
    have "split_loop j [] rest d m 1 (toks(0 := take (MAX_TOKEN_LENGTH - 1) w)) = (k, tk, cur, r)"
      using split_loop_token [OF w m, of "Suc j" "[]" "d # rest" toks] l s j m by simp
    from split_loop_keeps [OF this] have "tk 0 = take (MAX_TOKEN_LENGTH - 1) w" "1 \<le> k" by auto
    with l assms(1) show ?thesis by (auto simp: split_string_def bind_assert_that_Some w_def [symmetric] split: if_splits)
  qed
qed

subsection \<open>Lines\<close>

text \<open>A line as the client writes it: the fields, each but the first after a comma and a space.\<close>

fun spaced :: "string list \<Rightarrow> string list" where
  "spaced [] = []"
| "spaced (t # ts) = t # map ((#) (CHR '' '')) ts"

definition csv_line :: "string list \<Rightarrow> string" where
  "csv_line ts = join_tokens (CHR '','') (spaced ts)"

definition csv_field :: "string \<Rightarrow> bool" where
  "csv_field t \<longleftrightarrow> trimmed t \<and> CHR '','' \<notin> set t \<and> length t < MAX_TOKEN_LENGTH - 1"

lemma join_tokens_hd: "ts \<noteq> [] \<Longrightarrow> hd ts \<noteq> [] \<Longrightarrow> join_tokens d ts \<noteq> [] \<and> hd (join_tokens d ts) = hd (hd ts)"
  by (cases "(d, ts)" rule: join_tokens.cases) auto

lemma join_tokens_ne: "ts \<noteq> [] \<Longrightarrow> last ts \<noteq> [] \<Longrightarrow> join_tokens d ts \<noteq> []"
  by (cases "(d, ts)" rule: join_tokens.cases) auto

lemma join_tokens_last: "ts \<noteq> [] \<Longrightarrow> last ts \<noteq> [] \<Longrightarrow> last (join_tokens d ts) = last (last ts)"
  by (induction d ts rule: join_tokens.induct) (auto simp: join_tokens_ne)

lemma spaced_length [simp]: "length (spaced ts) = length ts"
  by (cases ts) auto

lemma spaced_nth: "i < length ts \<Longrightarrow> spaced ts ! i = (if i = 0 then [] else '' '') @ ts ! i"
  by (cases ts; cases i) auto

lemma spaced_trim:
  assumes "csv_field (ts ! i)" and "i < length ts"
  shows "trim_whitespace (spaced ts ! i) = ts ! i"
  using assms trim_trimmed [of "ts ! i" "if i = 0 then [] else '' ''" "[]"]
  by (auto simp: spaced_nth csv_field_def isspace_def split: if_splits)

lemma spaced_fields:
  assumes "\<forall>t\<in>set ts. csv_field t" and "t \<in> set (spaced ts)"
  shows "CHR '','' \<notin> set t" "length t < MAX_TOKEN_LENGTH" "t \<noteq> []"
  using assms by (cases ts; auto simp: csv_field_def trimmed_def)+

lemma trimmed_csv_line:
  assumes "ts \<noteq> []" and "\<forall>t\<in>set ts. csv_field t"
  shows "trimmed (csv_line ts)" "hd (csv_line ts) = hd (hd ts)"
proof -
  have ne: "spaced ts \<noteq> []" "hd (spaced ts) = hd ts" using assms(1) by (cases ts; simp)+
  have l: "last (spaced ts) \<noteq> []" "last (last (spaced ts)) = last (last ts)"
    using assms by (cases ts; auto simp: last_map csv_field_def trimmed_def)+
  have f: "trimmed (hd ts)" "trimmed (last ts)" using assms by (auto simp: csv_field_def)
  have h: "csv_line ts \<noteq> [] \<and> hd (csv_line ts) = hd (hd ts)"
    using join_tokens_hd [OF ne(1)] ne(2) f(1) by (simp add: csv_line_def trimmed_def)
  then show "hd (csv_line ts) = hd (hd ts)" by simp
  show "trimmed (csv_line ts)"
    using h f join_tokens_last [OF ne(1) l(1)] l(2) by (simp add: trimmed_def csv_line_def)
qed

lemma parse_csv_line:
  assumes "ts \<noteq> []" and "\<forall>t\<in>set ts. csv_field t" and "length ts \<le> MAX_TOKENS" and "length (csv_line ts) + 1 < MAX_LINE_LENGTH"
    and "hd (hd ts) \<noteq> CHR ''#''"
  shows "\<exists>p'. mp_num_tokens p' = length ts \<and> (\<forall>i<length ts. mp_tokens p' i = ts ! i)
     \<and> message_parser_parse p (csv_line ts @ [CHR 0x0A]) = Option.bind (parse_by_type (hd (hd ts)) p') (\<lambda>r. Some (r, p'))"
proof -
  let ?line = "csv_line ts @ [CHR 0x0A]" and ?buf = "csv_line ts"
  note t = trimmed_csv_line [OF assms(1,2)]
  have trim: "trim_whitespace ?line = ?buf"
    using trim_trimmed [OF t(1), of "[]" "[CHR 0x0A]"] assms(4) by (simp add: isspace_def)
  have buf: "?buf \<noteq> []" "hd ?buf \<noteq> CHR ''#''" using t assms(5) by (auto simp: trimmed_def)
  have "spaced ts \<noteq> []" using assms(1) by (cases ts) auto
  moreover from this have "last (spaced ts) \<noteq> []" using spaced_fields(3) [OF assms(2)] last_in_set by blast
  moreover have "\<forall>t\<in>set (spaced ts). CHR '','' \<notin> set t \<and> length t < MAX_TOKEN_LENGTH"
    using spaced_fields(1,2) [OF assms(2)] by blast
  ultimately obtain toks where sp: "split_string ?buf (CHR '','') (mp_tokens p) MAX_TOKENS = Some (length ts, toks)"
    and tk: "\<forall>i<length ts. toks i = spaced ts ! i"
    using split_string_tokens [of "spaced ts" "CHR '',''" MAX_TOKENS "mp_tokens p"] assms(3,4) unfolding csv_line_def by auto
  let ?toks = "\<lambda>i. if i < length ts \<and> i < MAX_TOKENS then trim_whitespace (toks i) else toks i"
  let ?p = "p\<lparr>mp_line_buffer := ?buf, mp_num_tokens := length ts, mp_tokens := ?toks\<rparr>"
  have v: "?toks i = ts ! i" if "i < length ts" for i
    using that tk spaced_trim [of ts i] assms(2,3) by simp
  have v0: "?toks 0 = hd ts" using v [of 0] assms(1) by (simp add: hd_conv_nth)
  have len: "length ts \<noteq> 0" "hd ts \<noteq> []" using assms(1,2) by (auto simp: csv_field_def trimmed_def)
  have "message_parser_parse p ?line = Option.bind (parse_by_type (hd (hd ts)) ?p) (\<lambda>r. Some (r, ?p))"
    using assms(4) buf sp v0 len by (simp add: message_parser_parse_def trim Let_def)
  moreover have "mp_num_tokens ?p = length ts \<and> (\<forall>i<length ts. mp_tokens ?p i = ts ! i)" using v by simp
  ultimately show ?thesis by blast
qed

subsection \<open>Requests\<close>

lemma csv_field_fmt_u: "csv_field (fmt_u x)"
  using trimmed_fmt_u [of x] length_fmt_u [of x] fmt_u_chars [of "CHR '',''" x] by (auto simp: csv_field_def)

lemma fmt_c_side: "fmt_c SIDE_BUY = ''B''" "fmt_c SIDE_SELL = ''S''"
  using byte_char_of_char [of "CHR ''B''"] byte_char_of_char [of "CHR ''S''"] by (simp_all add: fmt_c_def)

lemma csv_field_side: "side_is_valid side \<Longrightarrow> csv_field (fmt_c side) \<and> parse_side (fmt_c side) = Some side"
  by (auto simp: side_is_valid_def csv_field_def trimmed_def fmt_c_side parse_side_def isspace_def)

lemma snprintf_fits: "length t < bs \<Longrightarrow> 0 < length t \<Longrightarrow> snprintf bs t = (length t, t) \<and> encoded_len bs (length t) = length t"
  by (simp add: snprintf_def encoded_len_def)

lemma length_csv_line: "length (csv_line ts) \<le> sum_list (map (\<lambda>t. length t + 2) ts)"
proof -
  have "length (join_tokens d us) \<le> sum_list (map (\<lambda>t. length t + 1) us)" for d us
    by (induction d us rule: join_tokens.induct) auto
  then have "length (csv_line ts) \<le> sum_list (map (\<lambda>t. length t + 1) (spaced ts))" unfolding csv_line_def .
  also have "\<dots> \<le> sum_list (map (\<lambda>t. length t + 2) ts)" by (cases ts) (auto simp: o_def intro: sum_list_mono)
  finally show ?thesis .
qed

definition csv_symbol :: "string \<Rightarrow> bool" where
  "csv_symbol s \<longleftrightarrow> trimmed s \<and> CHR '','' \<notin> set s \<and> length s < MAX_SYMBOL_LENGTH"

lemma parse_uint32_field: "parse_uint32 (fmt_u x) = x" "x = 0 \<Longrightarrow> hd (fmt_u x) = CHR ''0''"
  by (simp_all add: parse_uint32_fmt fmt_u_0)

lemma csv_new_order_roundtrip:
  assumes "csv_symbol symbol" and "side_is_valid side" and "quantity \<noteq> 0" and "100 \<le> buffer_size"
  shows "\<exists>n buffer p'. encode_csv_new_order buffer_size user_id symbol price quantity side order_id = (n, buffer) \<and> 0 < n \<and> n < 100
     \<and> message_parser_parse p (take n buffer) = Some (Some (INPUT_MSG_NEW_ORDER
         \<lparr>no_user_id = user_id, no_user_order_id = order_id, no_price = price, no_quantity = quantity,
          no_side = side, no_symbol = symbol\<rparr>), p')"
proof -
  define ts where "ts = [''N'', fmt_u user_id, symbol, fmt_u price, fmt_u quantity, fmt_c side, fmt_u order_id]"
  let ?text = "csv_line ts @ [CHR 0x0A]"
  have sym: "csv_field symbol" "symbol \<noteq> []" "take (length symbol) symbol = symbol"
    using assms(1) by (auto simp: csv_symbol_def csv_field_def trimmed_def)
  have f: "\<forall>t\<in>set ts. csv_field t"
    using sym csv_field_fmt_u csv_field_side [OF assms(2)]
    by (auto simp: ts_def csv_field_def trimmed_def isspace_def)
  have len: "length ?text < 100"
    using length_csv_line [of ts] assms(1) length_fmt_u [of user_id] length_fmt_u [of price] length_fmt_u [of quantity] length_fmt_u [of order_id]
    by (simp add: ts_def csv_symbol_def fmt_c_def)
  have l: "ts \<noteq> []" "length ts = 7" "hd (hd ts) = CHR ''N''" by (simp_all add: ts_def)
  obtain p' where p': "mp_num_tokens p' = 7" "\<forall>i<7. mp_tokens p' i = ts ! i"
      "message_parser_parse p ?text = Option.bind (parse_by_type (CHR ''N'') p') (\<lambda>r. Some (r, p'))"
    using parse_csv_line [of ts p] f len l by auto
  have tok: "mp_tokens p' (Suc 0) = fmt_u user_id" "mp_tokens p' 2 = symbol" "mp_tokens p' 3 = fmt_u price" "mp_tokens p' 4 = fmt_u quantity"
      "mp_tokens p' 5 = fmt_c side" "mp_tokens p' 6 = fmt_u order_id"
    using p'(2) by (simp_all add: ts_def)
  have "parse_new_order p' = Some (Some (INPUT_MSG_NEW_ORDER \<lparr>no_user_id = user_id, no_user_order_id = order_id, no_price = price,
      no_quantity = quantity, no_side = side, no_symbol = symbol\<rparr>))"
    using assms(1,2,3) sym parse_uint32_field csv_field_side [OF assms(2)]
    by (simp add: parse_new_order_def p'(1) tok Let_def make_new_order_msg_def csv_symbol_def)
  then have "message_parser_parse p ?text = Some (Some (INPUT_MSG_NEW_ORDER \<lparr>no_user_id = user_id, no_user_order_id = order_id,
      no_price = price, no_quantity = quantity, no_side = side, no_symbol = symbol\<rparr>), p')"
    using p'(3) by (simp add: parse_by_type_def)
  moreover have "encode_csv_new_order buffer_size user_id symbol price quantity side order_id = (length ?text, ?text)"
  proof -
    have "?text = ''N, '' @ fmt_u user_id @ '', '' @ symbol @ '', '' @ fmt_u price @ '', '' @ fmt_u quantity @ '', '' @ fmt_c side @ '', ''
        @ fmt_u order_id @ [CHR 0x0A]"
      by (simp add: csv_line_def ts_def)
    then show ?thesis using snprintf_fits [of ?text buffer_size] len assms(4) unfolding encode_csv_new_order_def by auto
  qed
  ultimately show ?thesis using len by auto
qed

lemma csv_cancel_roundtrip:
  assumes "100 \<le> buffer_size"
  shows "\<exists>n buffer p'. encode_csv_cancel buffer_size user_id order_id = (n, buffer) \<and> 0 < n \<and> n < 100
     \<and> message_parser_parse p (take n buffer) = (if user_id = 0 then None
         else Some (Some (INPUT_MSG_CANCEL \<lparr>cm_user_id = user_id, cm_user_order_id = order_id, cm_symbol = []\<rparr>), p'))"
proof -
  define ts where "ts = [''C'', fmt_u user_id, fmt_u order_id]"
  let ?text = "csv_line ts @ [CHR 0x0A]"
  have f: "\<forall>t\<in>set ts. csv_field t" using csv_field_fmt_u by (auto simp: ts_def csv_field_def trimmed_def isspace_def)
  have len: "length ?text < 100"
    using length_csv_line [of ts] length_fmt_u [of user_id] length_fmt_u [of order_id] by (simp add: ts_def)
  have l: "ts \<noteq> []" "length ts = 3" "hd (hd ts) = CHR ''C''" by (simp_all add: ts_def)
  obtain p' where p': "mp_num_tokens p' = 3" "\<forall>i<3. mp_tokens p' i = ts ! i"
      "message_parser_parse p ?text = Option.bind (parse_by_type (CHR ''C'') p') (\<lambda>r. Some (r, p'))"
    using parse_csv_line [of ts p] f len l by auto
  have tok: "mp_tokens p' (Suc 0) = fmt_u user_id" "mp_tokens p' 2 = fmt_u order_id" using p'(2) by (simp_all add: ts_def)
  have "message_parser_parse p ?text = (if user_id = 0 then None
      else Some (Some (INPUT_MSG_CANCEL \<lparr>cm_user_id = user_id, cm_user_order_id = order_id, cm_symbol = []\<rparr>), p'))"
    using p'(3) by (simp add: parse_by_type_def parse_cancel_def p'(1) tok make_cancel_msg_def parse_uint32_fmt)
  moreover have "encode_csv_cancel buffer_size user_id order_id = (length ?text, ?text)"
    using snprintf_fits [of ?text buffer_size] len assms by (auto simp: encode_csv_cancel_def csv_line_def ts_def)
  ultimately show ?thesis using len by auto
qed

lemma csv_flush_roundtrip:
  assumes "100 \<le> buffer_size"
  shows "\<exists>n buffer p'. encode_csv_flush buffer_size = (n, buffer) \<and> 0 < n \<and> n < 100
     \<and> message_parser_parse p (take n buffer) = Some (Some INPUT_MSG_FLUSH, p')"
proof -
  have "\<forall>t\<in>set [''F'']. csv_field t" by (simp add: csv_field_def trimmed_def isspace_def)
  then obtain p' where "mp_num_tokens p' = 1" "message_parser_parse p (''F'' @ [CHR 0x0A]) = Option.bind (parse_by_type (CHR ''F'') p') (\<lambda>r. Some (r, p'))"
    using parse_csv_line [of "[''F'']" p] by (auto simp: csv_line_def)
  then have "message_parser_parse p (''F'' @ [CHR 0x0A]) = Some (Some INPUT_MSG_FLUSH, p')"
    by (simp add: parse_by_type_def parse_flush_def make_flush_msg_def)
  then show ?thesis using assms by (auto simp: encode_csv_flush_def snprintf_def encoded_len_def)
qed

subsection \<open>What the parser accepts\<close>

lemma parse_side_valid: "parse_side s = Some side \<Longrightarrow> side_is_valid side"
  by (auto simp: parse_side_def Let_def side_is_valid_def split: if_splits)

lemma parse_new_order_total: "parse_new_order p \<noteq> None"
  by (auto simp: parse_new_order_def Let_def make_new_order_msg_def dest: parse_side_valid split: option.splits)

lemma parse_new_order_accepts:
  assumes "parse_new_order p = Some (Some msg)" and "\<forall>i<mp_num_tokens p. c_string (mp_tokens p i)"
  shows "\<exists>m. msg = INPUT_MSG_NEW_ORDER m \<and> side_is_valid (no_side m) \<and> 0 < no_quantity m \<and> symbol_ok (no_symbol m)"
proof -
  have n: "mp_num_tokens p = 7" "mp_tokens p 2 \<noteq> []" using assms(1) by (auto simp: parse_new_order_def Let_def split: if_splits)
  then have sym: "c_string (mp_tokens p 2)" using assms(2) by simp
  show ?thesis
    using assms(1) n sym c_string_take [OF sym]
    by (auto simp: parse_new_order_def Let_def make_new_order_msg_def symbol_ok_def word_gt_0 bind_assert_that_Some
        split: if_splits option.splits)
qed

lemma skip_spaces_suffix: "set (skip_spaces n s) \<subseteq> set s \<and> length (skip_spaces n s) \<le> length s"
  by (induction n s rule: skip_spaces.induct) auto

lemma drop_end_suffix: "set (drop_end n s) \<subseteq> set s \<and> length (drop_end n s) \<le> length s"
  by (induction n s rule: drop_end.induct) auto

lemma trim_whitespace_part: "set (trim_whitespace s) \<subseteq> set s \<and> length (trim_whitespace s) \<le> length s"
proof -
  let ?k = "skip_spaces MAX_TRIM_ITERATIONS s"
  have "trim_whitespace s = [] \<or> trim_whitespace s = rev (drop_end MAX_TRIM_ITERATIONS (rev ?k))"
    by (simp add: trim_whitespace_def Let_def)
  then show ?thesis
    using skip_spaces_suffix [of MAX_TRIM_ITERATIONS s] drop_end_suffix [of MAX_TRIM_ITERATIONS "rev ?k"]
    by (elim disjE) auto
qed

lemmas trim_whitespace_set = trim_whitespace_part [THEN conjunct1]

lemma skip_spaces_hd: "s \<noteq> [] \<Longrightarrow> \<not> isspace (hd s) \<Longrightarrow> skip_spaces n s = s"
  by (cases "(n, s)" rule: skip_spaces.cases) auto

lemma drop_end_last: "s \<noteq> [] \<Longrightarrow> drop_end n s \<noteq> [] \<and> last (drop_end n s) = last s"
  by (induction n s rule: drop_end.induct) auto

lemma trim_whitespace_hd: "s \<noteq> [] \<Longrightarrow> \<not> isspace (hd s) \<Longrightarrow> trim_whitespace s \<noteq> [] \<and> hd (trim_whitespace s) = hd s"
  using drop_end_last [of "rev s" MAX_TRIM_ITERATIONS] by (auto simp: trim_whitespace_def skip_spaces_hd hd_rev last_rev)

lemma trimmed_trim_whitespace:
  assumes "length s \<le> MAX_TRIM_ITERATIONS" and "trim_whitespace s \<noteq> []"
  shows "\<not> isspace (hd (trim_whitespace s))"
proof -
  let ?d = "dropWhile isspace s"
  have ne: "?d \<noteq> []" using assms trim_whitespace_eq by fastforce
  then have h: "\<not> isspace (hd ?d)" by (simp add: hd_dropWhile)
  with trim_whitespace_hd [OF ne h] trim_whitespace_eq [OF assms(1)] trim_whitespace_eq [of ?d] assms(1)
  show ?thesis using length_dropWhile_le [of isspace s] by (simp add: dropWhile_idem)
qed

text \<open>The three ways through \<open>message_parser_parse\<close>: nothing to parse, or the tokens of the line.\<close>

lemma message_parser_parse_cases:
  obtains p' where "message_parser_parse p line = Some (None, p')"
  | p' where "message_parser_parse p line = Option.bind (parse_by_type (hd (trim_whitespace (take (MAX_LINE_LENGTH - 1) line))) p') (\<lambda>r. Some (r, p'))"
      and "\<forall>i<mp_num_tokens p'. set (mp_tokens p' i) \<subseteq> set line"
proof -
  define buf where "buf = trim_whitespace (take (MAX_LINE_LENGTH - 1) line)"
  have cut: "take (if length line \<ge> MAX_LINE_LENGTH then MAX_LINE_LENGTH - 1 else length line) line = take (MAX_LINE_LENGTH - 1) line"
    by auto
  have unf: "message_parser_parse p line =
      (if buf = [] \<or> hd buf = CHR ''#'' then Some (None, p\<lparr>mp_line_buffer := buf\<rparr>)
       else Option.bind (split_string buf (CHR '','') (mp_tokens p) MAX_TOKENS) (\<lambda>(n, toks).
         if n = 0 then Some (None, p\<lparr>mp_line_buffer := buf, mp_num_tokens := n, mp_tokens := toks\<rparr>)
         else let toks' = (\<lambda>i. if i < n \<and> i < MAX_TOKENS then trim_whitespace (toks i) else toks i);
                  p' = p\<lparr>mp_line_buffer := buf, mp_num_tokens := n, mp_tokens := toks'\<rparr>
              in if toks' 0 = [] then Some (None, p') else Option.bind (parse_by_type (hd (toks' 0)) p') (\<lambda>r. Some (r, p'))))"
    unfolding message_parser_parse_def Let_def cut buf_def by simp
  have sub: "set buf \<subseteq> set line" unfolding buf_def using trim_whitespace_set set_take_subset by (rule order_trans)
  show thesis
  proof (cases "buf = [] \<or> hd buf = CHR ''#''")
    case True
    show thesis by (rule that(1)) (use True in \<open>simp add: unf\<close>)
  next
    case False
    then have h: "\<not> isspace (hd buf)"
      using trimmed_trim_whitespace [of "take (MAX_LINE_LENGTH - 1) line"] by (simp add: buf_def)
    have len: "length buf \<le> MAX_SPLIT_ITERATIONS"
      using trim_whitespace_part [of "take (MAX_LINE_LENGTH - 1) line"] by (simp add: buf_def)
    obtain n toks where sp: "split_string buf (CHR '','') (mp_tokens p) MAX_TOKENS = Some (n, toks)"
      unfolding split_string_def by (cases "split_loop MAX_SPLIT_ITERATIONS [] buf (CHR '','') MAX_TOKENS 0 (mp_tokens p)") fastforce
    let ?toks = "\<lambda>i. if i < n \<and> i < MAX_TOKENS then trim_whitespace (toks i) else toks i"
    let ?p = "p\<lparr>mp_line_buffer := buf, mp_num_tokens := n, mp_tokens := ?toks\<rparr>"
    show thesis
    proof (cases "n = 0 \<or> ?toks 0 = []")
      case True
      then show thesis
        using that(1) False sp by (cases "n = 0") (auto simp: unf Let_def)
    next
      case n: False
      then have n': "n \<noteq> 0" "trim_whitespace (toks 0) \<noteq> []" by (auto split: if_splits)
      from n have t0: "toks 0 = take (MAX_TOKEN_LENGTH - 1) (takeWhile (\<lambda>c. c \<noteq> CHR '','') buf)" "toks 0 \<noteq> []"
        using split_string_first [OF sp _ len] by (auto simp: trim_whitespace_def)
      then have "hd (toks 0) = hd buf" using False by (cases buf) (auto split: if_splits)
      with h trim_whitespace_hd [OF t0(2)] n have "hd (?toks 0) = hd buf" by simp
      then have "message_parser_parse p line = Option.bind (parse_by_type (hd buf) ?p) (\<lambda>r. Some (r, ?p))"
        using False n' sp by (simp add: unf Let_def)
      moreover have "\<forall>i<mp_num_tokens ?p. set (mp_tokens ?p i) \<subseteq> set line"
        using split_string_set [OF sp] sub trim_whitespace_set by (auto split: if_splits) blast+
      ultimately show thesis using that(2) [of ?p] unfolding buf_def by blast
    qed
  qed
qed

lemma csv_parser_accepts:
  assumes "message_parser_parse p line = Some (Some msg, p')" and "c_string line"
  shows "case msg of
      INPUT_MSG_NEW_ORDER m \<Rightarrow> side_is_valid (no_side m) \<and> 0 < no_quantity m \<and> symbol_ok (no_symbol m)
    | INPUT_MSG_CANCEL m \<Rightarrow> cm_user_id m \<noteq> 0 | INPUT_MSG_FLUSH \<Rightarrow> True | _ \<Rightarrow> False"
proof (cases rule: message_parser_parse_cases [of p line])
  case (1 q)
  with assms(1) show ?thesis by simp
next
  case (2 q)
  have c: "\<forall>i<mp_num_tokens q. c_string (mp_tokens q i)" using 2(2) assms(2) by (auto simp: c_string_def)
  obtain ch where "parse_by_type ch q = Some (Some msg)"
    using trans [OF 2(1) [symmetric] assms(1)] by (auto simp: bind_eq_Some_conv)
  then show ?thesis
    using parse_new_order_accepts [OF _ c, of msg]
    by (auto simp: parse_by_type_def parse_cancel_def parse_flush_def make_cancel_msg_def make_flush_msg_def bind_assert_that_Some
        split: if_splits)
qed

lemma csv_parser_total:
  assumes "hd (trim_whitespace (take (MAX_LINE_LENGTH - 1) line)) \<notin> {CHR ''C'', CHR ''c''}"
  shows "message_parser_parse p line \<noteq> None"
proof (cases rule: message_parser_parse_cases [of p line])
  case (2 q)
  then show ?thesis using assms parse_new_order_total [of q] by (auto simp: parse_by_type_def parse_flush_def make_flush_msg_def)
qed simp

end
