(* ===== verification/ME_Envelope.thy ===== *)
theory ME_Envelope
  imports ME_Messages
begin

text \<open>
  \<^verbatim>\<open>include/protocol/message_types_extended.h\<close>: client identifiers, UDP addresses and the
  envelopes that carry a message with its client through the queues.  The alignment bytes of
  the envelopes, which nothing reads, are left out.
\<close>

abbreviation CLIENT_ID_BROADCAST :: u32 where "CLIENT_ID_BROADCAST \<equiv> 0"
abbreviation CLIENT_ID_UDP_BASE :: u32 where "CLIENT_ID_UDP_BASE \<equiv> 0x80000000"
abbreviation CLIENT_ID_INVALID :: u32 where "CLIENT_ID_INVALID \<equiv> 0xFFFFFFFF"

definition client_id_is_udp :: "u32 \<Rightarrow> bool" where
  "client_id_is_udp client_id = (client_id > CLIENT_ID_UDP_BASE)"

definition client_id_is_tcp :: "u32 \<Rightarrow> bool" where
  "client_id_is_tcp client_id = (client_id > 0 \<and> client_id \<le> CLIENT_ID_UDP_BASE)"

definition client_id_is_valid :: "u32 \<Rightarrow> bool" where
  "client_id_is_valid client_id = (client_id \<noteq> CLIENT_ID_BROADCAST \<and> client_id \<noteq> CLIENT_ID_INVALID)"

record udp_client_addr_t =
  ua_addr :: u32
  ua_port :: u16
  ua_pad :: u16

definition udp_client_addr_equal :: "udp_client_addr_t \<Rightarrow> udp_client_addr_t \<Rightarrow> bool" where
  "udp_client_addr_equal a b = (ua_addr a = ua_addr b \<and> ua_port a = ua_port b)"

definition udp_client_addr_is_empty :: "udp_client_addr_t \<Rightarrow> bool" where
  "udp_client_addr_is_empty a = (ua_addr a = 0 \<and> ua_port a = 0)"

type_synonym client_protocol_t = u8

abbreviation CLIENT_PROTOCOL_UNKNOWN :: client_protocol_t where "CLIENT_PROTOCOL_UNKNOWN \<equiv> 0"
abbreviation CLIENT_PROTOCOL_BINARY :: client_protocol_t where "CLIENT_PROTOCOL_BINARY \<equiv> 1"
abbreviation CLIENT_PROTOCOL_CSV :: client_protocol_t where "CLIENT_PROTOCOL_CSV \<equiv> 2"

definition client_protocol_is_valid :: "client_protocol_t \<Rightarrow> bool" where
  "client_protocol_is_valid proto = (proto \<le> CLIENT_PROTOCOL_CSV)"

record input_msg_envelope_t =
  ie_msg :: input_msg_t
  ie_client_id :: u32
  ie_client_addr :: udp_client_addr_t
  ie_sequence :: u64

record output_msg_envelope_t =
  oe_msg :: output_msg_t
  oe_client_id :: u32
  oe_sequence :: u64

definition create_input_envelope_udp :: "input_msg_t \<Rightarrow> u32 \<Rightarrow> udp_client_addr_t \<Rightarrow> u64 \<Rightarrow> input_msg_envelope_t option" where
  "create_input_envelope_udp msg client_id client_addr sequence = do {
     assert_that (input_msg_type_is_valid (input_msg_type msg));
     let envelope = \<lparr>ie_msg = msg, ie_client_id = client_id, ie_client_addr = client_addr, ie_sequence = sequence\<rparr>;
     assert_that (input_msg_type (ie_msg envelope) = input_msg_type msg);
     Some envelope
   }"

definition create_input_envelope :: "input_msg_t \<Rightarrow> u32 \<Rightarrow> u64 \<Rightarrow> input_msg_envelope_t option" where
  "create_input_envelope msg client_id sequence = do {
     assert_that (input_msg_type_is_valid (input_msg_type msg));
     let envelope = \<lparr>ie_msg = msg, ie_client_id = client_id, ie_client_addr = \<lparr>ua_addr = 0, ua_port = 0, ua_pad = 0\<rparr>, ie_sequence = sequence\<rparr>;
     assert_that (input_msg_type (ie_msg envelope) = input_msg_type msg);
     Some envelope
   }"

definition create_output_envelope :: "output_msg_t \<Rightarrow> u32 \<Rightarrow> u64 \<Rightarrow> output_msg_envelope_t option" where
  "create_output_envelope msg client_id sequence = do {
     assert_that (output_msg_type_is_valid (output_msg_type msg));
     let envelope = \<lparr>oe_msg = msg, oe_client_id = client_id, oe_sequence = sequence\<rparr>;
     assert_that (output_msg_type (oe_msg envelope) = output_msg_type msg);
     Some envelope
   }"

definition envelope_is_broadcast :: "output_msg_envelope_t \<Rightarrow> bool option" where
  "envelope_is_broadcast env = do {
     assert_that (output_msg_type_is_valid (output_msg_type (oe_msg env)));
     Some (oe_client_id env = CLIENT_ID_BROADCAST)
   }"

definition envelope_is_for_client :: "output_msg_envelope_t \<Rightarrow> u32 \<Rightarrow> bool option" where
  "envelope_is_for_client env client_id = do {
     assert_that (client_id_is_valid client_id);
     Some (oe_client_id env = client_id \<or> oe_client_id env = CLIENT_ID_BROADCAST)
   }"

lemma create_output_envelope_ok:
  "output_msg_type_is_valid (output_msg_type msg) \<Longrightarrow>
   create_output_envelope msg client_id sequence = Some \<lparr>oe_msg = msg, oe_client_id = client_id, oe_sequence = sequence\<rparr>"
  by (simp add: create_output_envelope_def)

lemma udp_client_addr_equal_trans:
  "udp_client_addr_equal a b \<Longrightarrow> udp_client_addr_equal b c \<Longrightarrow> udp_client_addr_equal a c"
  "udp_client_addr_equal a b \<Longrightarrow> udp_client_addr_equal b a" "udp_client_addr_equal a a"
  by (auto simp: udp_client_addr_equal_def)

end
