(* ===== verification/ME_Registry.thy ===== *)
theory ME_Registry
  imports ME_Envelope
begin

text \<open>
  The client registry (\<^verbatim>\<open>src/threading/client_registry.c\<close>, \<^verbatim>\<open>include/threading/client_registry.h\<close>): a
  hash table of the connected clients by identifier.  Every operation runs under the registry's
  read-write lock, so the model is sequential; the calls on the lock, which the code asserts to
  succeed, are left out.  The clock is the argument \<open>now\<close>.  The two counters of identifiers are
  \<^verbatim>\<open>atomic_uint_fast32_t\<close>, 64 bits wide on the x86-64 GNU target; their values are cut to 32 bits when
  they are used.  The union of the handles is a datatype with one constructor per member.

  An insertion probes the whole table for a free slot, a lookup only 256 slots: the invariant
  \<open>registry_ok\<close> says that every client is within reach of its lookup, which holds as long as
  at most 256 clients are registered at a time.
\<close>

abbreviation CLIENT_REGISTRY_HASH_SIZE :: nat where "CLIENT_REGISTRY_HASH_SIZE \<equiv> 16384"
abbreviation REGISTRY_PROBE_LENGTH :: nat where "REGISTRY_PROBE_LENGTH \<equiv> 256"

datatype transport_type_t = TRANSPORT_UNKNOWN | TRANSPORT_TCP | TRANSPORT_UDP

datatype client_handle_t = Tcp_fd int | Udp_addr udp_client_addr_t

record client_entry_t =
  ce_last_seen :: u64
  ce_messages_sent :: u64
  ce_messages_received :: u64
  ce_handle :: client_handle_t
  ce_client_id :: u32
  ce_transport :: transport_type_t
  ce_protocol :: client_protocol_t
  ce_active :: bool

record client_registry_t =
  cr_entries :: "nat \<Rightarrow> client_entry_t"
  cr_next_tcp_id :: u64
  cr_next_udp_id :: u64
  cr_tcp_client_count :: u64
  cr_udp_client_count :: u64
  cr_total_tcp_connections :: u64
  cr_total_udp_connections :: u64

record client_registry_stats_t =
  st_tcp_clients_active :: u32
  st_udp_clients_active :: u32
  st_tcp_connections_total :: u64
  st_udp_connections_total :: u64

subsection \<open>The operations\<close>

definition hash_client_id :: "u32 \<Rightarrow> u32" where
  "hash_client_id client_id =
     (let hash = 2166136261;
          hash = (hash XOR (client_id AND 0xFF)) * 16777619;
          hash = (hash XOR (drop_bit 8 client_id AND 0xFF)) * 16777619;
          hash = (hash XOR (drop_bit 16 client_id AND 0xFF)) * 16777619;
          hash = (hash XOR (drop_bit 24 client_id AND 0xFF)) * 16777619
      in hash)"

definition snapshot_entry :: "client_entry_t \<Rightarrow> client_entry_t \<Rightarrow> client_entry_t" where
  "snapshot_entry src dst = dst\<lparr>ce_last_seen := ce_last_seen src, ce_handle := ce_handle src, ce_client_id := ce_client_id src,
     ce_transport := ce_transport src, ce_protocol := ce_protocol src, ce_active := ce_active src,
     ce_messages_sent := ce_messages_sent src, ce_messages_received := ce_messages_received src\<rparr>"

text \<open>The slot searches return \<open>None\<close> for \<open>-1\<close>.\<close>

definition find_slot_by_id :: "client_registry_t \<Rightarrow> u32 \<Rightarrow> bool \<Rightarrow> nat option option" where
  "find_slot_by_id registry client_id find_empty = do {
     assert_that (client_id \<noteq> 0);
     let start = unat (hash_client_id client_id) mod CLIENT_REGISTRY_HASH_SIZE;
     let max_probes = min CLIENT_REGISTRY_HASH_SIZE REGISTRY_PROBE_LENGTH;
     Some (for_return max_probes 0 (\<lambda>i.
       let idx = (start + i) mod CLIENT_REGISTRY_HASH_SIZE; entry = cr_entries registry idx in
       if \<not> ce_active entry then (if find_empty then Some idx else None)
       else if ce_client_id entry = client_id then Some idx
       else None))
   }"

definition find_slot_by_udp_addr :: "client_registry_t \<Rightarrow> udp_client_addr_t \<Rightarrow> nat option" where
  "find_slot_by_udp_addr registry addr =
     for_return CLIENT_REGISTRY_HASH_SIZE 0 (\<lambda>i.
       let entry = cr_entries registry i in
       if ce_active entry \<and> ce_transport entry = TRANSPORT_UDP
          \<and> (case ce_handle entry of Udp_addr a \<Rightarrow> udp_client_addr_equal a addr | Tcp_fd _ \<Rightarrow> False)
       then Some i else None)"

definition find_empty_slot :: "client_registry_t \<Rightarrow> u32 \<Rightarrow> nat option" where
  "find_empty_slot registry hint_id =
     (let start = unat (hash_client_id hint_id) mod CLIENT_REGISTRY_HASH_SIZE in
      for_return CLIENT_REGISTRY_HASH_SIZE 0 (\<lambda>i.
        let idx = (start + i) mod CLIENT_REGISTRY_HASH_SIZE in
        if \<not> ce_active (cr_entries registry idx) then Some idx else None))"

definition zero_entry :: client_entry_t where
  "zero_entry = \<lparr>ce_last_seen = 0, ce_messages_sent = 0, ce_messages_received = 0, ce_handle = Tcp_fd 0, ce_client_id = 0,
     ce_transport = TRANSPORT_UNKNOWN, ce_protocol = CLIENT_PROTOCOL_UNKNOWN, ce_active = False\<rparr>"

definition client_registry_init :: "client_registry_t \<Rightarrow> client_registry_t option" where
  "client_registry_init registry = do {
     let registry1 = registry\<lparr>cr_entries := (\<lambda>_. zero_entry), cr_next_tcp_id := 1, cr_next_udp_id := ucast (CLIENT_ID_UDP_BASE + 1),
           cr_tcp_client_count := 0, cr_udp_client_count := 0, cr_total_tcp_connections := 0, cr_total_udp_connections := 0\<rparr>;
     assert_that (cr_tcp_client_count registry1 = 0);
     Some registry1
   }"

text \<open>The new entry, which the three functions that add a client fill in the same way.\<close>

definition new_entry :: "u32 \<Rightarrow> transport_type_t \<Rightarrow> client_handle_t \<Rightarrow> u64 \<Rightarrow> client_entry_t" where
  "new_entry client_id transport handle now =
     \<lparr>ce_last_seen = now, ce_messages_sent = 0, ce_messages_received = 0, ce_handle = handle, ce_client_id = client_id,
      ce_transport = transport, ce_protocol = CLIENT_PROTOCOL_UNKNOWN, ce_active = True\<rparr>"

definition client_registry_add_tcp :: "int \<Rightarrow> u64 \<Rightarrow> client_registry_t \<Rightarrow> (u32 \<times> client_registry_t) option" where
  "client_registry_add_tcp tcp_fd now registry = do {
     assert_that (tcp_fd \<ge> 0);
     let client_id = ucast (cr_next_tcp_id registry);
     let registry1 = registry\<lparr>cr_next_tcp_id := cr_next_tcp_id registry + 1\<rparr>;
     let (client_id, registry2) = (if client_id \<ge> CLIENT_ID_UDP_BASE then (1, registry1\<lparr>cr_next_tcp_id := 2\<rparr>) else (client_id, registry1));
     case find_empty_slot registry2 client_id of
       None \<Rightarrow> Some (0, registry2)
     | Some slot \<Rightarrow> Some (client_id, registry2\<lparr>
         cr_entries := (cr_entries registry2)(slot := new_entry client_id TRANSPORT_TCP (Tcp_fd tcp_fd) now),
         cr_tcp_client_count := cr_tcp_client_count registry2 + 1,
         cr_total_tcp_connections := cr_total_tcp_connections registry2 + 1\<rparr>)
   }"

definition client_registry_add_udp :: "udp_client_addr_t \<Rightarrow> u64 \<Rightarrow> client_registry_t \<Rightarrow> (u32 \<times> client_registry_t) option" where
  "client_registry_add_udp addr now registry = do {
     let client_id = ucast (cr_next_udp_id registry);
     let registry1 = registry\<lparr>cr_next_udp_id := cr_next_udp_id registry + 1\<rparr>;
     let (client_id, registry2) = (if client_id = 0 then (CLIENT_ID_UDP_BASE + 1, registry1\<lparr>cr_next_udp_id := ucast (CLIENT_ID_UDP_BASE + 2)\<rparr>)
                                   else (client_id, registry1));
     case find_empty_slot registry2 client_id of
       None \<Rightarrow> Some (0, registry2)
     | Some slot \<Rightarrow> Some (client_id, registry2\<lparr>
         cr_entries := (cr_entries registry2)(slot := new_entry client_id TRANSPORT_UDP (Udp_addr addr) now),
         cr_udp_client_count := cr_udp_client_count registry2 + 1,
         cr_total_udp_connections := cr_total_udp_connections registry2 + 1\<rparr>)
   }"

text \<open>
  The search under the read lock and the search under the write lock see the same registry
  when no other thread comes between; the code after the second one is that of \<open>client_registry_add_udp\<close>.
\<close>

definition client_registry_get_or_add_udp :: "udp_client_addr_t \<Rightarrow> u64 \<Rightarrow> client_registry_t \<Rightarrow> (u32 \<times> client_registry_t) option" where
  "client_registry_get_or_add_udp addr now registry =
     (case find_slot_by_udp_addr registry addr of
        Some slot \<Rightarrow> Some (ce_client_id (cr_entries registry slot), registry)
      | None \<Rightarrow> (case find_slot_by_udp_addr registry addr of
            Some slot \<Rightarrow> Some (ce_client_id (cr_entries registry slot), registry)
          | None \<Rightarrow> client_registry_add_udp addr now registry))"

definition client_registry_remove :: "u32 \<Rightarrow> client_registry_t \<Rightarrow> (bool \<times> client_registry_t) option" where
  "client_registry_remove client_id registry =
     (if client_id = 0 \<or> client_id = CLIENT_ID_BROADCAST then Some (False, registry)
      else do {
        found \<leftarrow> find_slot_by_id registry client_id False;
        case found of
          None \<Rightarrow> Some (False, registry)
        | Some slot \<Rightarrow> do {
            let entry = cr_entries registry slot;
            let registry1 =
              (if ce_transport entry = TRANSPORT_TCP then registry\<lparr>cr_tcp_client_count := cr_tcp_client_count registry - 1\<rparr>
               else if ce_transport entry = TRANSPORT_UDP then registry\<lparr>cr_udp_client_count := cr_udp_client_count registry - 1\<rparr>
               else registry);
            Some (True, registry1\<lparr>cr_entries := (cr_entries registry)(slot :=
              entry\<lparr>ce_active := False, ce_client_id := 0, ce_transport := TRANSPORT_UNKNOWN, ce_protocol := CLIENT_PROTOCOL_UNKNOWN,
                    ce_handle := Tcp_fd (-1), ce_last_seen := 0, ce_messages_sent := 0, ce_messages_received := 0\<rparr>)\<rparr>)
          }
      })"

definition client_registry_find :: "client_registry_t \<Rightarrow> u32 \<Rightarrow> client_entry_t \<Rightarrow> (bool \<times> client_entry_t) option" where
  "client_registry_find registry client_id out_entry =
     (if client_id = 0 \<or> client_id = CLIENT_ID_BROADCAST then Some (False, out_entry)
      else do {
        found \<leftarrow> find_slot_by_id registry client_id False;
        case found of
          None \<Rightarrow> Some (False, out_entry)
        | Some slot \<Rightarrow>
            if \<not> ce_active (cr_entries registry slot) then Some (False, out_entry)
            else Some (True, snapshot_entry (cr_entries registry slot) out_entry)
      })"

definition client_registry_find_udp_by_addr :: "client_registry_t \<Rightarrow> udp_client_addr_t \<Rightarrow> u32 option" where
  "client_registry_find_udp_by_addr registry addr =
     (case find_slot_by_udp_addr registry addr of None \<Rightarrow> None | Some slot \<Rightarrow> Some (ce_client_id (cr_entries registry slot)))"

definition client_registry_get_protocol :: "client_registry_t \<Rightarrow> u32 \<Rightarrow> client_protocol_t option" where
  "client_registry_get_protocol registry client_id =
     (if client_id = 0 \<or> client_id = CLIENT_ID_BROADCAST then Some CLIENT_PROTOCOL_UNKNOWN
      else do {
        found \<leftarrow> find_slot_by_id registry client_id False;
        case found of
          None \<Rightarrow> Some CLIENT_PROTOCOL_UNKNOWN
        | Some slot \<Rightarrow>
            if \<not> ce_active (cr_entries registry slot) then Some CLIENT_PROTOCOL_UNKNOWN
            else Some (ce_protocol (cr_entries registry slot))
      })"

definition client_registry_get_transport :: "client_registry_t \<Rightarrow> u32 \<Rightarrow> transport_type_t option" where
  "client_registry_get_transport registry client_id =
     (if client_id = 0 \<or> client_id = CLIENT_ID_BROADCAST then Some TRANSPORT_UNKNOWN
      else do {
        found \<leftarrow> find_slot_by_id registry client_id False;
        case found of
          None \<Rightarrow> Some TRANSPORT_UNKNOWN
        | Some slot \<Rightarrow>
            if \<not> ce_active (cr_entries registry slot) then Some TRANSPORT_UNKNOWN
            else Some (ce_transport (cr_entries registry slot))
      })"

text \<open>The updates of one entry: the lookup, the test of \<open>ce_active\<close> and the change of the entry.\<close>

definition update_entry :: "u32 \<Rightarrow> (client_entry_t \<Rightarrow> client_entry_t) \<Rightarrow> client_registry_t \<Rightarrow> (bool \<times> client_registry_t) option" where
  "update_entry client_id change registry =
     (if client_id = 0 \<or> client_id = CLIENT_ID_BROADCAST then Some (False, registry)
      else do {
        found \<leftarrow> find_slot_by_id registry client_id False;
        case found of
          None \<Rightarrow> Some (False, registry)
        | Some slot \<Rightarrow>
            if \<not> ce_active (cr_entries registry slot) then Some (False, registry)
            else Some (True, registry\<lparr>cr_entries := (cr_entries registry)(slot := change (cr_entries registry slot))\<rparr>)
      })"

definition client_registry_set_protocol :: "u32 \<Rightarrow> client_protocol_t \<Rightarrow> client_registry_t \<Rightarrow> (bool \<times> client_registry_t) option" where
  "client_registry_set_protocol client_id protocol registry =
     update_entry client_id (\<lambda>entry. if ce_protocol entry = CLIENT_PROTOCOL_UNKNOWN then entry\<lparr>ce_protocol := protocol\<rparr> else entry) registry"

definition client_registry_touch :: "u32 \<Rightarrow> u64 \<Rightarrow> client_registry_t \<Rightarrow> client_registry_t option" where
  "client_registry_touch client_id now registry =
     map_option snd (update_entry client_id (\<lambda>entry. entry\<lparr>ce_last_seen := now\<rparr>) registry)"

definition client_registry_inc_received :: "u32 \<Rightarrow> client_registry_t \<Rightarrow> client_registry_t option" where
  "client_registry_inc_received client_id registry =
     map_option snd (update_entry client_id (\<lambda>entry. entry\<lparr>ce_messages_received := ce_messages_received entry + 1\<rparr>) registry)"

definition client_registry_inc_sent :: "u32 \<Rightarrow> client_registry_t \<Rightarrow> client_registry_t option" where
  "client_registry_inc_sent client_id registry =
     map_option snd (update_entry client_id (\<lambda>entry. entry\<lparr>ce_messages_sent := ce_messages_sent entry + 1\<rparr>) registry)"

text \<open>The loops of the three iterations: the callback returns whether to go on, and its user data.\<close>

fun foreach_entries :: "(client_entry_t \<Rightarrow> bool) \<Rightarrow> (client_entry_t \<Rightarrow> 'u \<Rightarrow> bool \<times> 'u) \<Rightarrow> client_entry_t list \<Rightarrow> u32 \<Rightarrow> 'u \<Rightarrow> u32 \<times> 'u" where
  "foreach_entries selected callback [] count user_data = (count, user_data)"
| "foreach_entries selected callback (entry # entries) count user_data =
     (if ce_active entry \<and> selected entry
      then let (go_on, user_data') = callback entry user_data in
        if go_on then foreach_entries selected callback entries (count + 1) user_data' else (count + 1, user_data')
      else foreach_entries selected callback entries count user_data)"

definition client_registry_foreach :: "client_registry_t \<Rightarrow> (client_entry_t \<Rightarrow> 'u \<Rightarrow> bool \<times> 'u) \<Rightarrow> 'u \<Rightarrow> u32 \<times> 'u" where
  "client_registry_foreach registry callback user_data =
     foreach_entries (\<lambda>_. True) callback (arr_list (cr_entries registry) CLIENT_REGISTRY_HASH_SIZE) 0 user_data"

definition client_registry_foreach_tcp :: "client_registry_t \<Rightarrow> (client_entry_t \<Rightarrow> 'u \<Rightarrow> bool \<times> 'u) \<Rightarrow> 'u \<Rightarrow> u32 \<times> 'u" where
  "client_registry_foreach_tcp registry callback user_data =
     foreach_entries (\<lambda>entry. ce_transport entry = TRANSPORT_TCP) callback (arr_list (cr_entries registry) CLIENT_REGISTRY_HASH_SIZE) 0 user_data"

definition client_registry_foreach_udp :: "client_registry_t \<Rightarrow> (client_entry_t \<Rightarrow> 'u \<Rightarrow> bool \<times> 'u) \<Rightarrow> 'u \<Rightarrow> u32 \<times> 'u" where
  "client_registry_foreach_udp registry callback user_data =
     foreach_entries (\<lambda>entry. ce_transport entry = TRANSPORT_UDP) callback (arr_list (cr_entries registry) CLIENT_REGISTRY_HASH_SIZE) 0 user_data"

fun collect_ids :: "nat \<Rightarrow> client_entry_t list \<Rightarrow> u32 list \<Rightarrow> u32 list" where
  "collect_ids max_ids [] out_ids = out_ids"
| "collect_ids max_ids (entry # entries) out_ids =
     (if length out_ids < max_ids
      then collect_ids max_ids entries (if ce_active entry then out_ids @ [ce_client_id entry] else out_ids)
      else out_ids)"

definition client_registry_get_all_ids :: "client_registry_t \<Rightarrow> u32 \<Rightarrow> u32 list option" where
  "client_registry_get_all_ids registry max_ids = do {
     assert_that (max_ids > 0);
     Some (collect_ids (unat max_ids) (arr_list (cr_entries registry) CLIENT_REGISTRY_HASH_SIZE) [])
   }"

definition client_registry_get_stats :: "client_registry_t \<Rightarrow> client_registry_stats_t" where
  "client_registry_get_stats registry =
     \<lparr>st_tcp_clients_active = ucast (cr_tcp_client_count registry), st_udp_clients_active = ucast (cr_udp_client_count registry),
      st_tcp_connections_total = cr_total_tcp_connections registry, st_udp_connections_total = cr_total_udp_connections registry\<rparr>"

subsection \<open>The table as a map\<close>

definition reg_probe :: "u32 \<Rightarrow> nat \<Rightarrow> nat" where
  "reg_probe client_id i = (unat (hash_client_id client_id) mod CLIENT_REGISTRY_HASH_SIZE + i) mod CLIENT_REGISTRY_HASH_SIZE"

definition members :: "(nat \<Rightarrow> client_entry_t) \<Rightarrow> u32 \<Rightarrow> client_entry_t option" where
  "members E c = for_return CLIENT_REGISTRY_HASH_SIZE 0 (\<lambda>i. if ce_active (E i) \<and> ce_client_id (E i) = c then Some (E i) else None)"

definition used_slots :: "(nat \<Rightarrow> client_entry_t) \<Rightarrow> nat set" where
  "used_slots E = {i. i < CLIENT_REGISTRY_HASH_SIZE \<and> ce_active (E i)}"

text \<open>Every client has an identifier of its own, other than 0, and is in reach of a lookup.\<close>

definition table_ok :: "(nat \<Rightarrow> client_entry_t) \<Rightarrow> bool" where
  "table_ok E \<longleftrightarrow> inj_on (\<lambda>i. ce_client_id (E i)) (used_slots E)
     \<and> (\<forall>i\<in>used_slots E. ce_client_id (E i) \<noteq> 0 \<and> (\<exists>d<REGISTRY_PROBE_LENGTH. i = reg_probe (ce_client_id (E i)) d))"

lemma reg_probe_bound [simp]: "reg_probe c d < CLIENT_REGISTRY_HASH_SIZE"
  by (simp add: reg_probe_def)

lemma finite_used [simp]: "finite (used_slots E)"
  by (simp add: used_slots_def)

lemma members_None: "members E c = None \<longleftrightarrow> (\<forall>i\<in>used_slots E. ce_client_id (E i) \<noteq> c)"
  by (auto simp: members_def for_return_None used_slots_def)

lemma members_slot:
  assumes "inj_on (\<lambda>i. ce_client_id (E i)) (used_slots E)" and "i \<in> used_slots E"
  shows "members E (ce_client_id (E i)) = Some (E i)"
proof (cases "members E (ce_client_id (E i))")
  case None
  with assms(2) show ?thesis by (auto simp: members_None)
next
  case (Some e)
  then obtain j where "j \<in> used_slots E" "ce_client_id (E j) = ce_client_id (E i)" "e = E j"
    by (auto simp: members_def for_return_Some used_slots_def split: if_splits)
  with assms Some show ?thesis by (auto dest: inj_onD)
qed

lemma members_Some:
  assumes "inj_on (\<lambda>i. ce_client_id (E i)) (used_slots E)"
  shows "members E c = Some e \<longleftrightarrow> (\<exists>i\<in>used_slots E. ce_client_id (E i) = c \<and> E i = e)"
proof
  assume "members E c = Some e"
  then show "\<exists>i\<in>used_slots E. ce_client_id (E i) = c \<and> E i = e"
    by (auto simp: members_def for_return_Some used_slots_def split: if_splits)
next
  assume "\<exists>i\<in>used_slots E. ce_client_id (E i) = c \<and> E i = e"
  then show "members E c = Some e" using members_slot [OF assms] by auto
qed

lemma map_eqI: "(\<And>k v. f k = Some v \<longleftrightarrow> g k = Some v) \<Longrightarrow> f = g"
  by (rule ext) (metis not_Some_eq)

lemma used_insert: "i < CLIENT_REGISTRY_HASH_SIZE \<Longrightarrow> used_slots (E(i := e)) = (if ce_active e then insert i (used_slots E) else used_slots E - {i})"
  by (auto simp: used_slots_def)

lemma members_insert:
  assumes ok: "table_ok E" and i: "i \<notin> used_slots E" "i = reg_probe (ce_client_id e) d" "d < REGISTRY_PROBE_LENGTH"
    and e: "ce_active e" "ce_client_id e \<noteq> 0" "members E (ce_client_id e) = None"
  shows "table_ok (E(i := e))" and "members (E(i := e)) = (members E)(ce_client_id e \<mapsto> e)"
proof -
  let ?E = "E(i := e)"
  have u: "used_slots ?E = insert i (used_slots E)" using used_insert [of i E e] i(2) e(1) by simp
  have fresh: "\<forall>j\<in>used_slots E. ce_client_id (E j) \<noteq> ce_client_id e" using e(3) by (simp add: members_None)
  have inj: "inj_on (\<lambda>j. ce_client_id (?E j)) (used_slots ?E)"
    using ok i(1) fresh unfolding table_ok_def u by (auto simp: inj_on_def)
  show "table_ok ?E" unfolding table_ok_def u using inj u ok i e(2) by (auto simp: table_ok_def)
  have inj0: "inj_on (\<lambda>j. ce_client_id (E j)) (used_slots E)" using ok by (simp add: table_ok_def)
  note m = members_Some [OF inj, unfolded u]
  show "members ?E = (members E)(ce_client_id e \<mapsto> e)"
    by (rule map_eqI, unfold m) (use fresh i(1) in \<open>auto simp: members_Some [OF inj0]\<close>)
qed

lemma members_delete:
  assumes ok: "table_ok E" and i: "i \<in> used_slots E" and e: "\<not> ce_active e"
  shows "table_ok (E(i := e))" and "members (E(i := e)) = (members E)(ce_client_id (E i) := None)"
proof -
  let ?E = "E(i := e)"
  have iN: "i < CLIENT_REGISTRY_HASH_SIZE" using i by (simp add: used_slots_def)
  have u: "used_slots ?E = used_slots E - {i}" using used_insert [OF iN] e by simp
  have inj0: "inj_on (\<lambda>j. ce_client_id (E j)) (used_slots E)" using ok by (simp add: table_ok_def)
  then have inj: "inj_on (\<lambda>j. ce_client_id (?E j)) (used_slots ?E)" unfolding u by (auto simp: inj_on_def)
  show "table_ok ?E" unfolding table_ok_def u using inj u ok by (auto simp: table_ok_def)
  note m = members_Some [OF inj, unfolded u]
  have other: "j = i" if "j \<in> used_slots E" "ce_client_id (E j) = ce_client_id (E i)" for j
    using inj_onD [OF inj0 _ that(1) i] that(2) by simp
  show "members ?E = (members E)(ce_client_id (E i) := None)"
    by (rule map_eqI, unfold m) (use other in \<open>auto simp: members_Some [OF inj0]\<close>)
qed

lemma members_change:
  assumes ok: "table_ok E" and i: "i \<in> used_slots E" and e: "ce_active e" "ce_client_id e = ce_client_id (E i)"
  shows "table_ok (E(i := e))" and "members (E(i := e)) = (members E)(ce_client_id (E i) \<mapsto> e)"
proof -
  let ?E = "E(i := e)"
  have iN: "i < CLIENT_REGISTRY_HASH_SIZE" using i by (simp add: used_slots_def)
  have u: "used_slots ?E = used_slots E" using used_insert [OF iN] e(1) i by auto
  have id: "ce_client_id (?E j) = ce_client_id (E j)" for j using e(2) by simp
  have inj0: "inj_on (\<lambda>j. ce_client_id (E j)) (used_slots E)" using ok by (simp add: table_ok_def)
  show "table_ok ?E" using ok unfolding table_ok_def u id by simp
  have inj: "inj_on (\<lambda>j. ce_client_id (?E j)) (used_slots ?E)" using inj0 unfolding u id .
  note m = members_Some [OF inj, unfolded u]
  have other: "j = i" if "j \<in> used_slots E" "ce_client_id (E j) = ce_client_id (E i)" for j
    using inj_onD [OF inj0 _ that(1) i] that(2) by simp
  show "members ?E = (members E)(ce_client_id (E i) \<mapsto> e)"
    by (rule map_eqI, unfold m) (use i e other in \<open>auto simp: members_Some [OF inj0] split: if_splits\<close>, metis)
qed

subsection \<open>The searches\<close>

lemma find_slot_by_id_cases:
  assumes ok: "table_ok (cr_entries reg)" and c: "c \<noteq> 0"
  obtains (found) i where "find_slot_by_id reg c False = Some (Some i)" "i \<in> used_slots (cr_entries reg)"
      "ce_client_id (cr_entries reg i) = c" "members (cr_entries reg) c = Some (cr_entries reg i)"
  | (missing) "find_slot_by_id reg c False = Some None" "members (cr_entries reg) c = None"
proof -
  let ?E = "cr_entries reg"
  let ?body = "\<lambda>d. if \<not> ce_active (?E (reg_probe c d)) then None
    else if ce_client_id (?E (reg_probe c d)) = c then Some (reg_probe c d) else None"
  have unf: "find_slot_by_id reg c False = Some (for_return REGISTRY_PROBE_LENGTH 0 ?body)"
    using c by (simp add: find_slot_by_id_def reg_probe_def Let_def cong: if_cong)
  show thesis
  proof (cases "for_return REGISTRY_PROBE_LENGTH 0 ?body")
    case (Some i)
    then obtain d where "?body d = Some i" by (auto simp: for_return_Some)
    then have e: "i = reg_probe c d" "ce_active (?E i)" "ce_client_id (?E i) = c" by (auto split: if_splits)
    then have i: "i \<in> used_slots ?E" "ce_client_id (?E i) = c" by (simp_all add: used_slots_def)
    with members_slot [of ?E i] ok show thesis using found [OF _ i] unf Some by (auto simp: table_ok_def)
  next
    case None
    have "members ?E c = None"
    proof (rule ccontr)
      assume "members ?E c \<noteq> None"
      then obtain i where "i \<in> used_slots ?E" "ce_client_id (?E i) = c" by (auto simp: members_None)
      moreover from this ok obtain d where "d < REGISTRY_PROBE_LENGTH" "i = reg_probe c d" by (auto simp: table_ok_def)
      ultimately show False using None by (auto simp: for_return_None used_slots_def)
    qed
    with None unf show thesis using missing by simp
  qed
qed

lemma reg_probe_inj: "inj_on (reg_probe c) {..<CLIENT_REGISTRY_HASH_SIZE}"
proof (rule inj_onI)
  fix i j
  assume ij: "i \<in> {..<CLIENT_REGISTRY_HASH_SIZE}" "j \<in> {..<CLIENT_REGISTRY_HASH_SIZE}" and eq: "reg_probe c i = reg_probe c j"
  define s where "s = unat (hash_client_id c) mod CLIENT_REGISTRY_HASH_SIZE"
  have "s < CLIENT_REGISTRY_HASH_SIZE" by (simp add: s_def)
  moreover have "(s + i) mod CLIENT_REGISTRY_HASH_SIZE = (s + j) mod CLIENT_REGISTRY_HASH_SIZE"
    using eq by (simp add: reg_probe_def s_def)
  ultimately show "i = j" using ij by (simp add: mod_if split: if_splits)
qed

text \<open>With at most 255 clients, a new one finds a place that lookups reach.\<close>

lemma find_empty_slot_ok:
  assumes "card (used_slots (cr_entries reg)) < REGISTRY_PROBE_LENGTH"
  obtains d where "find_empty_slot reg c = Some (reg_probe c d)" "d < REGISTRY_PROBE_LENGTH" "reg_probe c d \<notin> used_slots (cr_entries reg)"
proof -
  let ?E = "cr_entries reg"
  let ?free = "\<lambda>d. \<not> ce_active (?E (reg_probe c d))"
  have "\<exists>d<REGISTRY_PROBE_LENGTH. ?free d"
  proof (rule ccontr)
    assume "\<not> (\<exists>d<REGISTRY_PROBE_LENGTH. ?free d)"
    then have sub: "reg_probe c ` {..<REGISTRY_PROBE_LENGTH} \<subseteq> used_slots ?E" by (auto simp: used_slots_def)
    have "inj_on (reg_probe c) {..<REGISTRY_PROBE_LENGTH}" by (rule inj_on_subset [OF reg_probe_inj]) auto
    then have "card (reg_probe c ` {..<REGISTRY_PROBE_LENGTH}) = REGISTRY_PROBE_LENGTH" by (simp add: card_image)
    with card_mono [OF finite_used sub] assms show False by simp
  qed
  define d where "d = (LEAST d. ?free d)"
  obtain d0 where d0: "d0 < REGISTRY_PROBE_LENGTH" "?free d0" using \<open>\<exists>d<REGISTRY_PROBE_LENGTH. ?free d\<close> by blast
  have d: "?free d" "d \<le> d0" unfolding d_def by (rule LeastI [of ?free, OF d0(2)], rule Least_le [of ?free, OF d0(2)])
  have before: "\<forall>j<d. \<not> ?free j" unfolding d_def using not_less_Least [of _ ?free] by blast
  have "find_empty_slot reg c = Some (reg_probe c d)"
    unfolding find_empty_slot_def Let_def for_return_Some reg_probe_def [symmetric]
    using d(1) before order_le_less_trans [OF d(2) d0(1)] by (intro exI [of _ d]) simp
  moreover have "reg_probe c d \<notin> used_slots ?E" using d(1) by (simp add: used_slots_def)
  ultimately show thesis using that order_le_less_trans [OF d(2) d0(1)] by blast
qed

subsection \<open>The invariant\<close>

definition clients :: "client_registry_t \<Rightarrow> u32 \<Rightarrow> client_entry_t option" where
  "clients reg = members (cr_entries reg)"

definition of_kind :: "(nat \<Rightarrow> client_entry_t) \<Rightarrow> transport_type_t \<Rightarrow> nat set" where
  "of_kind E t = {i \<in> used_slots E. ce_transport (E i) = t}"

definition entry_ok :: "client_registry_t \<Rightarrow> client_entry_t \<Rightarrow> bool" where
  "entry_ok reg e = (case ce_transport e of
     TRANSPORT_TCP \<Rightarrow> (\<exists>fd. ce_handle e = Tcp_fd fd) \<and> unat (ce_client_id e) < unat (cr_next_tcp_id reg)
   | TRANSPORT_UDP \<Rightarrow> (\<exists>a. ce_handle e = Udp_addr a) \<and> 2 ^ 31 < unat (ce_client_id e) \<and> unat (ce_client_id e) < unat (cr_next_udp_id reg)
   | TRANSPORT_UNKNOWN \<Rightarrow> False)"

definition registry_ok :: "client_registry_t \<Rightarrow> bool" where
  "registry_ok reg \<longleftrightarrow> table_ok (cr_entries reg) \<and> (\<forall>i\<in>used_slots (cr_entries reg). entry_ok reg (cr_entries reg i))
     \<and> cr_tcp_client_count reg = of_nat (card (of_kind (cr_entries reg) TRANSPORT_TCP))
     \<and> cr_udp_client_count reg = of_nat (card (of_kind (cr_entries reg) TRANSPORT_UDP))
     \<and> 0 < unat (cr_next_tcp_id reg) \<and> unat (cr_next_tcp_id reg) \<le> 2 ^ 31
     \<and> 2 ^ 31 < unat (cr_next_udp_id reg) \<and> unat (cr_next_udp_id reg) \<le> 2 ^ 32"

text \<open>There is room for a client of one kind: fewer than 256 clients, and an identifier not given out yet.\<close>

definition tcp_room :: "client_registry_t \<Rightarrow> bool" where
  "tcp_room reg \<longleftrightarrow> card (used_slots (cr_entries reg)) < REGISTRY_PROBE_LENGTH \<and> unat (cr_next_tcp_id reg) < 2 ^ 31"

definition udp_room :: "client_registry_t \<Rightarrow> bool" where
  "udp_room reg \<longleftrightarrow> card (used_slots (cr_entries reg)) < REGISTRY_PROBE_LENGTH \<and> unat (cr_next_udp_id reg) < 2 ^ 32"

lemma client_registry_init_ok: "\<exists>reg'. client_registry_init reg = Some reg' \<and> registry_ok reg' \<and> clients reg' = Map.empty \<and> tcp_room reg' \<and> udp_room reg'"
proof -
  have u: "used_slots (\<lambda>_. zero_entry) = {}" by (simp add: used_slots_def zero_entry_def)
  have m: "members (\<lambda>_. zero_entry) = Map.empty" by (rule ext) (simp add: members_None u)
  show ?thesis
    by (simp add: client_registry_init_def registry_ok_def table_ok_def of_kind_def clients_def tcp_room_def udp_room_def u m)
qed

lemma of_kind_insert:
  assumes "i < CLIENT_REGISTRY_HASH_SIZE" and "i \<notin> used_slots E" and "ce_active e"
  shows "of_kind (E(i := e)) t = (if ce_transport e = t then insert i (of_kind E t) else of_kind E t)"
    and "card (of_kind (E(i := e)) t) = (if ce_transport e = t then Suc (card (of_kind E t)) else card (of_kind E t))"
proof -
  show k: "of_kind (E(i := e)) t = (if ce_transport e = t then insert i (of_kind E t) else of_kind E t)"
    using assms by (auto simp: of_kind_def used_slots_def)
  have "finite (of_kind E t)" "i \<notin> of_kind E t" using assms(2) by (auto simp: of_kind_def)
  then show "card (of_kind (E(i := e)) t) = (if ce_transport e = t then Suc (card (of_kind E t)) else card (of_kind E t))"
    unfolding k by simp
qed

lemma of_kind_remove:
  assumes "i \<in> used_slots E" and "\<not> ce_active e"
  shows "of_kind (E(i := e)) t = of_kind E t - {i}"
    and "card (of_kind (E(i := e)) t) = (if ce_transport (E i) = t then card (of_kind E t) - 1 else card (of_kind E t))"
    and "ce_transport (E i) = t \<Longrightarrow> 0 < card (of_kind E t)"
proof -
  show k: "of_kind (E(i := e)) t = of_kind E t - {i}" using assms by (auto simp: of_kind_def used_slots_def)
  have f: "finite (of_kind E t)" "i \<in> of_kind E t \<longleftrightarrow> ce_transport (E i) = t" using assms(1) by (auto simp: of_kind_def)
  then show "card (of_kind (E(i := e)) t) = (if ce_transport (E i) = t then card (of_kind E t) - 1 else card (of_kind E t))"
    unfolding k by simp
  show "0 < card (of_kind E t)" if "ce_transport (E i) = t" using f that by (auto simp: card_gt_0_iff)
qed

text \<open>A new client in a slot a lookup reaches.\<close>

lemma registry_insert:
  assumes ok: "registry_ok reg" and i: "reg_probe c d \<notin> used_slots (cr_entries reg)" "d < REGISTRY_PROBE_LENGTH"
    and c: "c \<noteq> 0" "clients reg c = None"
    and e: "e = new_entry c t h now" and t: "t = TRANSPORT_TCP \<or> t = TRANSPORT_UDP"
    and reg': "cr_entries reg' = (cr_entries reg)(reg_probe c d := e)" "entry_ok reg' e"
      "\<forall>e. entry_ok reg e \<longrightarrow> entry_ok reg' e"
      "cr_tcp_client_count reg' = cr_tcp_client_count reg + (if t = TRANSPORT_TCP then 1 else 0)"
      "cr_udp_client_count reg' = cr_udp_client_count reg + (if t = TRANSPORT_UDP then 1 else 0)"
      "0 < unat (cr_next_tcp_id reg')" "unat (cr_next_tcp_id reg') \<le> 2 ^ 31"
      "2 ^ 31 < unat (cr_next_udp_id reg')" "unat (cr_next_udp_id reg') \<le> 2 ^ 32"
  shows "registry_ok reg'" and "clients reg' = (clients reg)(c \<mapsto> e)"
proof -
  let ?E = "cr_entries reg" and ?i = "reg_probe c d"
  have ef: "ce_active e" "ce_client_id e = c" "ce_transport e = t" by (simp_all add: e new_entry_def)
  have tab: "table_ok ?E" using ok by (simp add: registry_ok_def)
  note m = members_insert [OF tab i(1) _ i(2) ef(1)]
  have m1: "table_ok (?E(?i := e))" and m2: "members (?E(?i := e)) = (members ?E)(c \<mapsto> e)"
    using m c ef by (auto simp: clients_def)
  show "clients reg' = (clients reg)(c \<mapsto> e)" by (simp add: clients_def reg'(1) m2)
  have u: "used_slots (?E(?i := e)) = insert ?i (used_slots ?E)" using used_insert [of ?i ?E e] ef by simp
  have "\<forall>j\<in>used_slots (cr_entries reg'). entry_ok reg' (cr_entries reg' j)"
    using ok reg'(2,3) i(1) unfolding reg'(1) u by (auto simp: registry_ok_def)
  moreover note of_kind_insert(2) [OF reg_probe_bound i(1) ef(1)]
  ultimately show "registry_ok reg'"
    using ok m1 reg'(4-) ef(3) t unfolding registry_ok_def reg'(1) by (auto simp: of_nat_Suc add.commute)
qed

subsection \<open>The operations keep the invariant and act as on a map\<close>

lemma unat_cut: "unat (x :: u64) < 2 ^ 32 \<Longrightarrow> unat (ucast x :: u32) = unat x"
  by (simp add: unsigned_ucast_eq take_bit_nat_eq_self_iff)

lemma unat_inc: "unat (x :: u64) < 2 ^ 32 \<Longrightarrow> unat (x + 1) = Suc (unat x)"
  by (simp add: unat_word_ariths)

lemma clients_range:
  assumes ok: "registry_ok reg"
  shows "clients reg c = None \<or> unat c < unat (cr_next_tcp_id reg) \<or> (2 ^ 31 < unat c \<and> unat c < unat (cr_next_udp_id reg))"
proof (cases "clients reg c = None")
  case False
  then obtain i where "i \<in> used_slots (cr_entries reg)" "ce_client_id (cr_entries reg i) = c"
    by (auto simp: clients_def members_None)
  with ok have "entry_ok reg (cr_entries reg i)" "ce_client_id (cr_entries reg i) = c" by (auto simp: registry_ok_def)
  then show ?thesis by (auto simp: entry_ok_def split: transport_type_t.splits)
qed simp

lemma client_registry_add_tcp_ok:
  assumes ok: "registry_ok reg" and room: "tcp_room reg" and fd: "0 \<le> fd"
  shows "\<exists>c reg'. client_registry_add_tcp fd now reg = Some (c, reg') \<and> registry_ok reg' \<and> c \<noteq> 0 \<and> client_id_is_tcp c
     \<and> clients reg c = None \<and> clients reg' = (clients reg)(c \<mapsto> new_entry c TRANSPORT_TCP (Tcp_fd fd) now)"
proof -
  define c :: u32 where "c = ucast (cr_next_tcp_id reg)"
  define reg1 where "reg1 = reg\<lparr>cr_next_tcp_id := cr_next_tcp_id reg + 1\<rparr>"
  have n: "0 < unat (cr_next_tcp_id reg)" "unat (cr_next_tcp_id reg) < 2 ^ 31" using ok room by (auto simp: registry_ok_def tcp_room_def)
  then have cu: "unat c = unat (cr_next_tcp_id reg)" by (simp add: c_def unat_cut)
  then have c: "c \<noteq> 0" "\<not> c \<ge> CLIENT_ID_UDP_BASE" using n by (auto simp: word_le_nat_alt)
  have new: "clients reg c = None"
    using clients_range [OF ok, of c] cu n ok by (auto simp: registry_ok_def)
  obtain d where d: "find_empty_slot reg1 c = Some (reg_probe c d)" "d < REGISTRY_PROBE_LENGTH" "reg_probe c d \<notin> used_slots (cr_entries reg)"
    using find_empty_slot_ok [of reg1 c] room by (auto simp: reg1_def tcp_room_def)
  define e where "e = new_entry c TRANSPORT_TCP (Tcp_fd fd) now"
  define reg' where "reg' = reg1\<lparr>cr_entries := (cr_entries reg1)(reg_probe c d := e), cr_tcp_client_count := cr_tcp_client_count reg1 + 1,
      cr_total_tcp_connections := cr_total_tcp_connections reg1 + 1\<rparr>"
  have i: "unat (cr_next_tcp_id reg') = Suc (unat (cr_next_tcp_id reg))" using n by (simp add: reg'_def reg1_def unat_inc)
  have f: "cr_entries reg' = (cr_entries reg)(reg_probe c d := e)" "cr_tcp_client_count reg' = cr_tcp_client_count reg + 1"
      "cr_udp_client_count reg' = cr_udp_client_count reg" "cr_next_udp_id reg' = cr_next_udp_id reg"
    by (simp_all add: reg'_def reg1_def)
  have mono: "\<forall>e. entry_ok reg e \<longrightarrow> entry_ok reg' e" "entry_ok reg' e"
    using i f(4) cu by (auto simp: entry_ok_def e_def new_entry_def split: transport_type_t.splits)
  have "registry_ok reg'" "clients reg' = (clients reg)(c \<mapsto> e)"
    using registry_insert [OF ok d(3,2) c(1) new e_def _ f(1) mono(2,1)] f(2-) i n ok by (auto simp: registry_ok_def)
  moreover have "client_registry_add_tcp fd now reg = Some (c, reg')"
    using fd c(2) d(1) by (simp add: client_registry_add_tcp_def c_def [symmetric] reg1_def [symmetric] reg'_def e_def Let_def)
  moreover have "client_id_is_tcp c" using c by (auto simp: client_id_is_tcp_def word_gt_0)
  ultimately show ?thesis using c(1) new unfolding e_def by blast
qed

lemma client_registry_add_udp_ok:
  assumes ok: "registry_ok reg" and room: "udp_room reg"
  shows "\<exists>c reg'. client_registry_add_udp addr now reg = Some (c, reg') \<and> registry_ok reg' \<and> c \<noteq> 0 \<and> client_id_is_udp c
     \<and> clients reg c = None \<and> clients reg' = (clients reg)(c \<mapsto> new_entry c TRANSPORT_UDP (Udp_addr addr) now)"
proof -
  define c :: u32 where "c = ucast (cr_next_udp_id reg)"
  define reg1 where "reg1 = reg\<lparr>cr_next_udp_id := cr_next_udp_id reg + 1\<rparr>"
  have n: "2 ^ 31 < unat (cr_next_udp_id reg)" "unat (cr_next_udp_id reg) < 2 ^ 32" using ok room by (auto simp: registry_ok_def udp_room_def)
  then have cu: "unat c = unat (cr_next_udp_id reg)" by (simp add: c_def unat_cut)
  then have c: "c \<noteq> 0" "client_id_is_udp c" using n by (auto simp: client_id_is_udp_def word_less_nat_alt)
  have new: "clients reg c = None"
    using clients_range [OF ok, of c] cu n ok by (auto simp: registry_ok_def)
  obtain d where d: "find_empty_slot reg1 c = Some (reg_probe c d)" "d < REGISTRY_PROBE_LENGTH" "reg_probe c d \<notin> used_slots (cr_entries reg)"
    using find_empty_slot_ok [of reg1 c] room by (auto simp: reg1_def udp_room_def)
  define e where "e = new_entry c TRANSPORT_UDP (Udp_addr addr) now"
  define reg' where "reg' = reg1\<lparr>cr_entries := (cr_entries reg1)(reg_probe c d := e), cr_udp_client_count := cr_udp_client_count reg1 + 1,
      cr_total_udp_connections := cr_total_udp_connections reg1 + 1\<rparr>"
  have i: "unat (cr_next_udp_id reg') = Suc (unat (cr_next_udp_id reg))" using n by (simp add: reg'_def reg1_def unat_inc)
  have f: "cr_entries reg' = (cr_entries reg)(reg_probe c d := e)" "cr_udp_client_count reg' = cr_udp_client_count reg + 1"
      "cr_tcp_client_count reg' = cr_tcp_client_count reg" "cr_next_tcp_id reg' = cr_next_tcp_id reg"
    by (simp_all add: reg'_def reg1_def)
  have mono: "\<forall>e. entry_ok reg e \<longrightarrow> entry_ok reg' e" "entry_ok reg' e"
    using i f(4) cu n by (auto simp: entry_ok_def e_def new_entry_def split: transport_type_t.splits)
  have "registry_ok reg'" "clients reg' = (clients reg)(c \<mapsto> e)"
    using registry_insert [OF ok d(3,2) c(1) new e_def _ f(1) mono(2,1)] f(2-) i n ok by (auto simp: registry_ok_def)
  moreover have "client_registry_add_udp addr now reg = Some (c, reg')"
    using c(1) d(1) by (simp add: client_registry_add_udp_def c_def [symmetric] reg1_def [symmetric] reg'_def e_def Let_def)
  ultimately show ?thesis using c new unfolding e_def by blast
qed

lemma client_registry_remove_ok:
  assumes ok: "registry_ok reg"
  shows "\<exists>reg'. client_registry_remove c reg = Some (clients reg c \<noteq> None, reg') \<and> registry_ok reg' \<and> clients reg' = (clients reg)(c := None)
     \<and> card (used_slots (cr_entries reg')) = card (used_slots (cr_entries reg)) - (if clients reg c = None then 0 else 1)
     \<and> cr_next_tcp_id reg' = cr_next_tcp_id reg \<and> cr_next_udp_id reg' = cr_next_udp_id reg"
proof (cases "c = 0")
  case True
  have "clients reg 0 = None" using ok by (auto simp: registry_ok_def clients_def table_ok_def members_None)
  then show ?thesis using ok True by (simp add: client_registry_remove_def fun_upd_idem)
next
  case False
  let ?E = "cr_entries reg"
  have tab: "table_ok ?E" using ok by (simp add: registry_ok_def)
  show ?thesis
  proof (cases rule: find_slot_by_id_cases [OF tab False])
    case 2
    then show ?thesis using ok False by (simp add: client_registry_remove_def clients_def fun_upd_idem)
  next
    case (1 i)
    note found = 1
    define e where "e = (?E i)\<lparr>ce_active := False, ce_client_id := 0, ce_transport := TRANSPORT_UNKNOWN, ce_protocol := CLIENT_PROTOCOL_UNKNOWN,
        ce_handle := Tcp_fd (-1), ce_last_seen := 0, ce_messages_sent := 0, ce_messages_received := 0\<rparr>"
    define reg1 where "reg1 = (if ce_transport (?E i) = TRANSPORT_TCP then reg\<lparr>cr_tcp_client_count := cr_tcp_client_count reg - 1\<rparr>
        else if ce_transport (?E i) = TRANSPORT_UDP then reg\<lparr>cr_udp_client_count := cr_udp_client_count reg - 1\<rparr> else reg)"
    define reg' where "reg' = reg1\<lparr>cr_entries := ?E(i := e)\<rparr>"
    have a: "\<not> ce_active e" by (simp add: e_def)
    have run: "client_registry_remove c reg = Some (True, reg')"
      using False found(1) by (simp add: client_registry_remove_def reg'_def reg1_def e_def Let_def)
    note m = members_delete [OF tab found(2) a]
    have iN: "i < CLIENT_REGISTRY_HASH_SIZE" using found(2) by (simp add: used_slots_def)
    have u: "used_slots (?E(i := e)) = used_slots ?E - {i}" using used_insert [OF iN] a by simp
    have f: "cr_entries reg' = ?E(i := e)" "cr_next_tcp_id reg' = cr_next_tcp_id reg" "cr_next_udp_id reg' = cr_next_udp_id reg"
      by (simp_all add: reg'_def reg1_def)
    have en: "entry_ok reg' x = entry_ok reg x" for x by (simp add: entry_ok_def f split: transport_type_t.splits)
    have counts: "cr_tcp_client_count reg' = cr_tcp_client_count reg - (if ce_transport (?E i) = TRANSPORT_TCP then 1 else 0)"
        "cr_udp_client_count reg' = cr_udp_client_count reg - (if ce_transport (?E i) = TRANSPORT_UDP then 1 else 0)"
      by (auto simp: reg'_def reg1_def)
    have "registry_ok reg'"
      unfolding registry_ok_def f u en
      using ok m(1) counts of_kind_remove(2,3) [OF found(2) a] by (auto simp: registry_ok_def of_nat_diff)
    moreover have "clients reg' = (clients reg)(c := None)" using m(2) found(3) by (simp add: clients_def f)
    moreover have "card (used_slots (cr_entries reg')) = card (used_slots ?E) - 1" using found(2) unfolding f u by simp
    ultimately show ?thesis using run found(4) f by (auto simp: clients_def)
  qed
qed

lemma client_registry_find_ok:
  assumes ok: "registry_ok reg"
  shows "client_registry_find reg c out = Some (case clients reg c of None \<Rightarrow> (False, out) | Some e \<Rightarrow> (True, e))"
proof (cases "c = 0")
  case True
  have "clients reg 0 = None" using ok by (auto simp: registry_ok_def clients_def table_ok_def members_None)
  then show ?thesis using True by (simp add: client_registry_find_def)
next
  case False
  have tab: "table_ok (cr_entries reg)" using ok by (simp add: registry_ok_def)
  show ?thesis
  proof (cases rule: find_slot_by_id_cases [OF tab False])
    case (1 i)
    then have "ce_active (cr_entries reg i)" by (simp add: used_slots_def)
    with 1 False show ?thesis by (simp add: client_registry_find_def clients_def snapshot_entry_def)
  next
    case 2
    with False show ?thesis by (simp add: client_registry_find_def clients_def)
  qed
qed

text \<open>An update of one entry that keeps what the invariant speaks of.\<close>

lemma update_entry_ok:
  assumes ok: "registry_ok reg"
    and change: "\<And>e. ce_active (change e) = ce_active e \<and> ce_client_id (change e) = ce_client_id e
        \<and> ce_transport (change e) = ce_transport e \<and> ce_handle (change e) = ce_handle e"
  shows "\<exists>reg'. update_entry c change reg = Some (clients reg c \<noteq> None, reg') \<and> registry_ok reg'
     \<and> clients reg' = (case clients reg c of None \<Rightarrow> clients reg | Some e \<Rightarrow> (clients reg)(c \<mapsto> change e))"
proof (cases "c = 0")
  case True
  have "clients reg 0 = None" using ok by (auto simp: registry_ok_def clients_def table_ok_def members_None)
  then show ?thesis using ok True by (simp add: update_entry_def)
next
  case False
  let ?E = "cr_entries reg"
  have tab: "table_ok ?E" using ok by (simp add: registry_ok_def)
  show ?thesis
  proof (cases rule: find_slot_by_id_cases [OF tab False])
    case 2
    with False ok show ?thesis by (simp add: update_entry_def clients_def)
  next
    case (1 i)
    then have a: "ce_active (?E i)" by (simp add: used_slots_def)
    define reg' where "reg' = reg\<lparr>cr_entries := ?E(i := change (?E i))\<rparr>"
    have run: "update_entry c change reg = Some (True, reg')"
      using False 1(1) a by (simp add: update_entry_def reg'_def)
    have m: "table_ok (?E(i := change (?E i)))" "members (?E(i := change (?E i))) = (members ?E)(c \<mapsto> change (?E i))"
      using members_change [OF tab 1(2), of "change (?E i)"] change a 1(3) by auto
    have iN: "i < CLIENT_REGISTRY_HASH_SIZE" using 1(2) by (simp add: used_slots_def)
    have u: "used_slots (?E(i := change (?E i))) = used_slots ?E" using used_insert [OF iN] change a 1(2) by auto
    have k: "of_kind (?E(i := change (?E i))) t = of_kind ?E t" for t using change unfolding of_kind_def u by auto
    have en: "entry_ok reg' e = entry_ok reg e" "entry_ok reg (change e) = entry_ok reg e" for e
      using change by (auto simp: entry_ok_def reg'_def split: transport_type_t.splits)
    have "registry_ok reg'"
      using ok m(1) u k en unfolding registry_ok_def by (simp add: reg'_def)
    moreover have "clients reg' = (clients reg)(c \<mapsto> change (?E i))" using m(2) by (simp add: clients_def reg'_def)
    ultimately show ?thesis using run 1(4) by (auto simp: clients_def)
  qed
qed

definition udp_client :: "client_registry_t \<Rightarrow> udp_client_addr_t \<Rightarrow> u32 \<Rightarrow> bool" where
  "udp_client reg addr c \<longleftrightarrow> (\<exists>e a. clients reg c = Some e \<and> ce_transport e = TRANSPORT_UDP \<and> ce_handle e = Udp_addr a \<and> udp_client_addr_equal a addr)"

lemma find_slot_by_udp_addr_cases:
  assumes ok: "registry_ok reg"
  obtains (found) i where "find_slot_by_udp_addr reg addr = Some i" "udp_client reg addr (ce_client_id (cr_entries reg i))"
  | (missing) "find_slot_by_udp_addr reg addr = None" "\<And>c. \<not> udp_client reg addr c"
proof -
  let ?E = "cr_entries reg"
  have inj: "inj_on (\<lambda>i. ce_client_id (?E i)) (used_slots ?E)" using ok by (simp add: registry_ok_def table_ok_def)
  show thesis
  proof (cases "find_slot_by_udp_addr reg addr")
    case (Some i)
    then have i: "i \<in> used_slots ?E" "ce_transport (?E i) = TRANSPORT_UDP" "\<exists>a. ce_handle (?E i) = Udp_addr a \<and> udp_client_addr_equal a addr"
      by (auto simp: find_slot_by_udp_addr_def for_return_Some used_slots_def Let_def split: if_splits client_handle_t.splits)
    then have "udp_client reg addr (ce_client_id (?E i))"
      using members_slot [OF inj i(1)] by (auto simp: udp_client_def clients_def)
    with Some show thesis by (rule found)
  next
    case None
    have "\<not> udp_client reg addr c" for c
    proof
      assume "udp_client reg addr c"
      then obtain i a where "i \<in> used_slots ?E" "ce_transport (?E i) = TRANSPORT_UDP" "ce_handle (?E i) = Udp_addr a" "udp_client_addr_equal a addr"
        by (auto simp: udp_client_def clients_def members_Some [OF inj])
      with None show False by (auto simp: find_slot_by_udp_addr_def for_return_None used_slots_def Let_def)
    qed
    with None show thesis by (rule missing)
  qed
qed

lemma client_registry_get_or_add_udp_ok:
  assumes ok: "registry_ok reg" and room: "udp_room reg"
  shows "\<exists>c reg'. client_registry_get_or_add_udp addr now reg = Some (c, reg') \<and> registry_ok reg' \<and> udp_client reg' addr c
     \<and> (if \<exists>c'. udp_client reg addr c' then reg' = reg
        else clients reg c = None \<and> clients reg' = (clients reg)(c \<mapsto> new_entry c TRANSPORT_UDP (Udp_addr addr) now))
     \<and> (\<forall>now'. client_registry_get_or_add_udp addr now' reg' = Some (c, reg'))"
proof (cases rule: find_slot_by_udp_addr_cases [OF ok, of addr])
  case (1 i)
  then have "client_registry_get_or_add_udp addr now' reg = Some (ce_client_id (cr_entries reg i), reg)" for now'
    by (simp add: client_registry_get_or_add_udp_def)
  with 1(2) ok show ?thesis by auto
next
  case 2
  obtain c reg' where add: "client_registry_add_udp addr now reg = Some (c, reg')" "registry_ok reg'" "clients reg c = None"
      "clients reg' = (clients reg)(c \<mapsto> new_entry c TRANSPORT_UDP (Udp_addr addr) now)"
    using client_registry_add_udp_ok [OF ok room, of addr now] by blast
  have c: "udp_client reg' addr c" by (simp add: udp_client_def add(4) new_entry_def udp_client_addr_equal_trans(3))
  have only: "c' = c" if "udp_client reg' addr c'" for c'
    using that 2(2) [of c'] by (auto simp: udp_client_def add(4) split: if_splits)
  have again: "client_registry_get_or_add_udp addr now' reg' = Some (c, reg')" for now'
  proof (cases rule: find_slot_by_udp_addr_cases [OF add(2), of addr])
    case (1 i)
    with only show ?thesis by (simp add: client_registry_get_or_add_udp_def)
  next
    case 2
    with c show ?thesis by blast
  qed
  have "client_registry_get_or_add_udp addr now reg = Some (c, reg')"
    using 2(1) add(1) by (simp add: client_registry_get_or_add_udp_def)
  with add c again 2(2) show ?thesis by auto
qed

lemma client_registry_set_protocol_ok:
  assumes ok: "registry_ok reg"
  shows "\<exists>reg'. client_registry_set_protocol c p reg = Some (clients reg c \<noteq> None, reg') \<and> registry_ok reg'
     \<and> clients reg' = (case clients reg c of None \<Rightarrow> clients reg
         | Some e \<Rightarrow> (clients reg)(c \<mapsto> if ce_protocol e = CLIENT_PROTOCOL_UNKNOWN then e\<lparr>ce_protocol := p\<rparr> else e))"
  unfolding client_registry_set_protocol_def by (rule update_entry_ok [OF ok]) simp

subsection \<open>Iteration\<close>

lemma foreach_entries_all:
  "foreach_entries selected (\<lambda>e u. (True, f e u)) es n u
     = (n + of_nat (length (filter (\<lambda>e. ce_active e \<and> selected e) es)), fold f (filter (\<lambda>e. ce_active e \<and> selected e) es) u)"
  by (induction es arbitrary: n u) (auto simp: add.assoc)

lemma collect_ids_eq:
  "length out \<le> m \<Longrightarrow> collect_ids m es out = take m (out @ map ce_client_id (filter ce_active es))"
  by (induction es arbitrary: out) (auto simp: take_Cons' Suc_diff_Suc)

lemma client_registry_get_all_ids_ok:
  assumes ok: "registry_ok reg" and max: "card (used_slots (cr_entries reg)) \<le> unat max_ids" "max_ids \<noteq> 0"
  shows "\<exists>ids. client_registry_get_all_ids reg max_ids = Some ids \<and> distinct ids \<and> set ids = dom (clients reg)"
proof -
  let ?E = "cr_entries reg" and ?N = CLIENT_REGISTRY_HASH_SIZE
  define slots where "slots = filter (\<lambda>i. ce_active (?E i)) [0..<?N]"
  have ids: "map ce_client_id (filter ce_active (arr_list ?E ?N)) = map (\<lambda>i. ce_client_id (?E i)) slots"
    by (simp add: slots_def arr_list_def filter_map o_def)
  have slots_set: "set slots = used_slots ?E" "distinct slots" by (auto simp: slots_def used_slots_def)
  then have len: "length slots = card (used_slots ?E)" by (metis distinct_card)
  have inj: "inj_on (\<lambda>i. ce_client_id (?E i)) (used_slots ?E)" using ok by (simp add: registry_ok_def table_ok_def)
  have "client_registry_get_all_ids reg max_ids = Some (map (\<lambda>i. ce_client_id (?E i)) slots)"
    using max len ids by (simp add: client_registry_get_all_ids_def collect_ids_eq word_gt_0)
  moreover have "distinct (map (\<lambda>i. ce_client_id (?E i)) slots)" using inj slots_set by (simp add: distinct_map)
  moreover have "set (map (\<lambda>i. ce_client_id (?E i)) slots) = dom (clients reg)"
    using slots_set(1) by (auto simp: dom_def clients_def members_Some [OF inj])
  ultimately show ?thesis by blast
qed

subsection \<open>Beyond the probe limit\<close>

text \<open>
  When the 256 slots a lookup probes are in use and a further slot is free, a new client is
  accepted and can afterwards be neither found nor removed.
\<close>

lemma add_tcp_out_of_reach:
  assumes fd: "0 \<le> fd" and n: "0 < unat (cr_next_tcp_id reg)" "unat (cr_next_tcp_id reg) < 2 ^ 31"
    and c: "c = ucast (cr_next_tcp_id reg)"
    and full: "\<forall>d<REGISTRY_PROBE_LENGTH. ce_active (cr_entries reg (reg_probe c d)) \<and> ce_client_id (cr_entries reg (reg_probe c d)) \<noteq> c"
    and free: "\<exists>i<CLIENT_REGISTRY_HASH_SIZE. \<not> ce_active (cr_entries reg i)"
  shows "\<exists>reg'. client_registry_add_tcp fd now reg = Some (c, reg') \<and> client_registry_find reg' c out = Some (False, out)
     \<and> client_registry_remove c reg' = Some (False, reg')"
proof -
  define reg1 where "reg1 = reg\<lparr>cr_next_tcp_id := cr_next_tcp_id reg + 1\<rparr>"
  have cu: "unat c = unat (cr_next_tcp_id reg)" using n by (simp add: c unat_cut)
  then have c0: "c \<noteq> 0" "\<not> c \<ge> CLIENT_ID_UDP_BASE" using n by (auto simp: word_le_nat_alt)
  obtain i where i: "i < CLIENT_REGISTRY_HASH_SIZE" "\<not> ce_active (cr_entries reg i)" using free by blast
  have "reg_probe c ` {..<CLIENT_REGISTRY_HASH_SIZE} = {..<CLIENT_REGISTRY_HASH_SIZE}"
    by (rule endo_inj_surj) (auto intro: reg_probe_inj)
  with i(1) obtain d0 where "d0 < CLIENT_REGISTRY_HASH_SIZE" "i = reg_probe c d0" by (auto simp: set_eq_iff image_iff)
  with i(2) have "find_empty_slot reg1 c \<noteq> None"
    by (auto simp: find_empty_slot_def for_return_None Let_def reg_probe_def reg1_def)
  then obtain s where s: "find_empty_slot reg1 c = Some s" by blast
  then have free_s: "\<not> ce_active (cr_entries reg s)"
    by (auto simp: find_empty_slot_def for_return_Some Let_def reg1_def split: if_splits)
  define reg' where "reg' = reg1\<lparr>cr_entries := (cr_entries reg1)(s := new_entry c TRANSPORT_TCP (Tcp_fd fd) now),
      cr_tcp_client_count := cr_tcp_client_count reg1 + 1, cr_total_tcp_connections := cr_total_tcp_connections reg1 + 1\<rparr>"
  have "ce_client_id (cr_entries reg' (reg_probe c d)) \<noteq> c" if "d < REGISTRY_PROBE_LENGTH" for d
    using full that free_s by (auto simp: reg'_def reg1_def)
  then have "find_slot_by_id reg' c False = Some None"
    using c0(1) by (auto simp: find_slot_by_id_def for_return_None Let_def reg_probe_def)
  moreover have "client_registry_add_tcp fd now reg = Some (c, reg')"
    using fd c0(2) s by (simp add: client_registry_add_tcp_def c [symmetric] reg1_def [symmetric] reg'_def Let_def)
  ultimately show ?thesis using c0(1) by (simp add: client_registry_find_def client_registry_remove_def)
qed

subsection \<open>The registry as a directory\<close>

text \<open>What the transports rely on: a directory that gives out names and forgets them again.\<close>

locale directory =
  fixes invar :: "'r \<Rightarrow> bool"
    and dir :: "'r \<Rightarrow> u32 \<Rightarrow> 'e option"
    and room :: "'r \<Rightarrow> bool"
    and register :: "'h \<Rightarrow> 'r \<Rightarrow> (u32 \<times> 'r) option"
    and entry_for :: "'h \<Rightarrow> u32 \<Rightarrow> 'e"
    and unregister :: "u32 \<Rightarrow> 'r \<Rightarrow> (bool \<times> 'r) option"
  assumes register_law: "invar r \<Longrightarrow> room r \<Longrightarrow>
      \<exists>c r'. register h r = Some (c, r') \<and> invar r' \<and> dir r c = None \<and> dir r' = (dir r)(c \<mapsto> entry_for h c)"
    and unregister_law: "invar r \<Longrightarrow> \<exists>r'. unregister c r = Some (dir r c \<noteq> None, r') \<and> invar r' \<and> dir r' = (dir r)(c := None)"
begin

lemma register_unregister:
  assumes "invar r" and "room r"
  obtains c r1 r2 where "register h r = Some (c, r1)" "dir r1 c = Some (entry_for h c)" "unregister c r1 = Some (True, r2)" "invar r2" "dir r2 = dir r"
proof -
  obtain c r1 where 1: "register h r = Some (c, r1)" "invar r1" "dir r c = None" "dir r1 = (dir r)(c \<mapsto> entry_for h c)"
    using register_law [OF assms] by blast
  obtain r2 where "unregister c r1 = Some (dir r1 c \<noteq> None, r2)" "invar r2" "dir r2 = (dir r1)(c := None)"
    using unregister_law [OF 1(2)] by blast
  with 1 that [of c r1 r2] show thesis by (simp add: fun_upd_idem)
qed

end

interpretation udp_dir: directory registry_ok clients udp_room "\<lambda>(addr, now). client_registry_add_udp addr now"
    "\<lambda>(addr, now) c. new_entry c TRANSPORT_UDP (Udp_addr addr) now" client_registry_remove
proof unfold_locales
  fix r :: client_registry_t and h :: "udp_client_addr_t \<times> u64"
  assume "registry_ok r" "udp_room r"
  from client_registry_add_udp_ok [OF this, of "fst h" "snd h"]
  show "\<exists>c r'. (case h of (addr, now) \<Rightarrow> client_registry_add_udp addr now) r = Some (c, r') \<and> registry_ok r' \<and> clients r c = None
      \<and> clients r' = (clients r)(c \<mapsto> (case h of (addr, now) \<Rightarrow> \<lambda>c. new_entry c TRANSPORT_UDP (Udp_addr addr) now) c)"
    by (auto simp: split_beta)
next
  fix r :: client_registry_t and c
  assume "registry_ok r"
  from client_registry_remove_ok [OF this]
  show "\<exists>r'. client_registry_remove c r = Some (clients r c \<noteq> None, r') \<and> registry_ok r' \<and> clients r' = (clients r)(c := None)" by blast
qed

interpretation tcp_dir: directory registry_ok clients tcp_room "\<lambda>(fd, now). client_registry_add_tcp (int fd) now"
    "\<lambda>(fd, now) c. new_entry c TRANSPORT_TCP (Tcp_fd (int fd)) now" client_registry_remove
proof unfold_locales
  fix r :: client_registry_t and h :: "nat \<times> u64"
  assume "registry_ok r" "tcp_room r"
  from client_registry_add_tcp_ok [OF this, of "int (fst h)" "snd h"]
  show "\<exists>c r'. (case h of (fd, now) \<Rightarrow> client_registry_add_tcp (int fd) now) r = Some (c, r') \<and> registry_ok r' \<and> clients r c = None
      \<and> clients r' = (clients r)(c \<mapsto> (case h of (fd, now) \<Rightarrow> \<lambda>c. new_entry c TRANSPORT_TCP (Tcp_fd (int fd)) now) c)"
    by (auto simp: split_beta)
qed (use client_registry_remove_ok in blast)

end
