(* ===== verification/ME_Outputs.thy ===== *)
theory ME_Outputs
  imports ME_Engine_Run ME_Binary
begin

text \<open>
  Everything the engine puts into its output buffer can be sent: it is an acknowledgement, a
  cancel acknowledgement, a trade or a top-of-book message with a valid side.  Shown for every
  operation that writes to the buffer, and so for every state of an admissible run of the engine.
\<close>

named_theorems outs \<open>operations keep the output buffer sendable\<close>

definition outs_ok :: "output_buffer_t \<Rightarrow> bool" where
  "outs_ok buf \<longleftrightarrow> (\<forall>m\<in>set buf. formattable m)"

lemma outs_ok_Nil [simp]: "outs_ok []"
  by (simp add: outs_ok_def)

lemma assert_that_eq [simp]: "assert_that b = Some u \<longleftrightarrow> b"
  by (cases b) auto

lemma option_bindE:
  assumes "Option.bind x f = Some y"
  obtains a where "x = Some a" "f a = Some y"
  using assms by (auto simp: bind_eq_Some_conv)

lemma outs_add [outs]: "output_buffer_add buf m = Some buf' \<Longrightarrow> formattable m \<Longrightarrow> outs_ok buf \<Longrightarrow> outs_ok buf'"
  by (auto simp: output_buffer_add_def outs_ok_def bind_assert_that_Some split: if_splits)

lemma formattable_made [outs]:
  "make_ack_msg s u i = Some m \<Longrightarrow> formattable m"
  "make_cancel_ack_msg s u i = Some m \<Longrightarrow> formattable m"
  "make_top_of_book_msg s sd p q = Some m \<Longrightarrow> formattable m"
  "make_top_of_book_eliminated_msg s sd = Some m \<Longrightarrow> formattable m"
  by (auto simp: make_ack_msg_def make_cancel_ack_msg_def make_top_of_book_msg_def make_top_of_book_eliminated_msg_def
      formattable_def bind_eq_Some_conv bind_assert_that_Some)

lemma formattable_trade [simp]: "formattable (OUTPUT_MSG_TRADE t)"
  by (simp add: formattable_def)

subsection \<open>The book\<close>

lemma outs_execute_trade [outs]:
  assumes "execute_trade bid li a p price c = Some (b, c')" and "outs_ok (cx_out c)"
  shows "outs_ok (cx_out c')"
proof -
  have "output_buffer_add (cx_out c) (OUTPUT_MSG_TRADE t) = Some out \<Longrightarrow> outs_ok out" for t out
    using outs_add [OF _ formattable_trade assms(2)] by blast
  then show ?thesis
    using assms(1) unfolding execute_trade_def Let_def
    by (auto simp: bind_eq_Some_conv split_beta split: if_splits)
qed

lemma outs_match_level_loop [outs]:
  "match_level_loop n bid order p c = Some c' \<Longrightarrow> outs_ok (cx_out c) \<Longrightarrow> outs_ok (cx_out c')"
proof (induction n bid order p c rule: match_level_loop.induct)
  case (2 n bid order p c)
  show ?case
  proof (cases p)
    case (Some q)
    show ?thesis
    proof (cases "o_remaining_qty (p_orders (cx_pool c) order) > 0")
      case True
      with 2(2) Some obtain f c1 where "execute_trade bid 0 order q (l_price (get_levels bid (cx_book c) 0)) c = Some (f, c1)"
          "match_level_loop n bid order (o_next (p_orders (cx_pool c) q)) c1 = Some c'"
        by (auto simp: bind_eq_Some_conv)
      with 2(1) [OF True Some refl this(1) refl] outs_execute_trade 2(3) show ?thesis by blast
    qed (use 2 in simp)
  qed (use 2 in \<open>auto split: if_splits\<close>)
qed simp

lemma outs_match_loop [outs]:
  "match_loop n bid order c = Some c' \<Longrightarrow> outs_ok (cx_out c) \<Longrightarrow> outs_ok (cx_out c')"
proof (induction n bid order c rule: match_loop.induct)
  case (2 n bid order c)
  show ?case
    using 2 by (auto simp: Let_def bind_eq_Some_conv split: if_splits prod.splits dest!: outs_match_level_loop)
qed simp

lemma outs_match_order [outs]: "match_order order c = Some c' \<Longrightarrow> outs_ok (cx_out c) \<Longrightarrow> outs_ok (cx_out c')"
  by (auto simp: match_order_def match_buy_order_def match_sell_order_def bind_assert_that_Some split: if_splits dest: outs_match_loop)

lemma outs_add_to_book [outs]:
  assumes "add_to_book order c = Some c'" and "outs_ok (cx_out c)"
  shows "outs_ok (cx_out c')"
proof -
  have "add_order_to_level bid li order c1 = Some c2 \<Longrightarrow> cx_out c2 = cx_out c1" for bid li c1 c2
    by (auto simp: add_order_to_level_def Let_def bind_eq_Some_conv split_beta)
  then show ?thesis
    using assms by (auto simp: add_to_book_def Let_def bind_eq_Some_conv split_beta split: if_splits)
qed

lemma outs_tob_message [outs]: "tob_message s sd p q a out = Some out' \<Longrightarrow> outs_ok out \<Longrightarrow> outs_ok out'"
  by (auto simp: tob_message_def bind_eq_Some_conv split: if_splits dest!: outs_add dest: formattable_made)

lemma outs_check_tob_changes [outs]:
  assumes "check_tob_changes c = Some c'" and "outs_ok (cx_out c)"
  shows "outs_ok (cx_out c')"
proof -
  have if_tob: "outs_ok out'" if "(if b then tob_message s sd p q a out else Some out) = Some out'" "outs_ok out" for b s sd p q a out out'
    using that outs_tob_message by (auto split: if_splits)
  obtain b1 s1 d1 p1 q1 a1 b2 s2 d2 p2 q2 a2 out1 out2 where
    "(if b1 then tob_message s1 d1 p1 q1 a1 (cx_out c) else Some (cx_out c)) = Some out1"
    "(if b2 then tob_message s2 d2 p2 q2 a2 out1 else Some out1) = Some out2" "cx_out c' = out2"
    using assms(1) unfolding check_tob_changes_def Let_def by (elim option_bindE) (rule that, assumption, assumption, auto)
  with if_tob assms(2) show ?thesis by blast
qed

lemma outs_add_order [outs]:
  assumes "order_book_add_order msg cid ts c = Some c'" and "outs_ok (cx_out c)"
  shows "outs_ok (cx_out c')"
proof -
  obtain slot pool1 where a: "order_pool_alloc (cx_pool c) = Some (slot, pool1)"
    using assms(1) by (auto simp: order_book_add_order_def bind_eq_Some_conv)
  then show ?thesis
    using assms by (cases slot) (auto simp: order_book_add_order_def Let_def bind_eq_Some_conv split: if_splits elim!: outs)
qed

lemma outs_cancel_order [outs]:
  assumes "order_book_cancel_order u i c = Some c'" and "outs_ok (cx_out c)"
  shows "outs_ok (cx_out c')"
proof -
  obtain key slot where k: "make_order_key u i = Some key" "order_map_find (ob_order_map (cx_book c)) key = Some slot"
    using assms(1) by (auto simp: order_book_cancel_order_def Let_def bind_eq_Some_conv)
  then show ?thesis
    using assms by (cases slot) (auto simp: order_book_cancel_order_def Let_def bind_eq_Some_conv split_beta split: if_splits elim!: outs)
qed

lemma outs_cancel_keys: "cancel_keys keys c = Some c' \<Longrightarrow> outs_ok (cx_out c) \<Longrightarrow> outs_ok (cx_out c')"
  by (induction keys c rule: cancel_keys.induct) (auto simp: bind_eq_Some_conv dest: outs_cancel_order)

lemma outs_cancel_client_orders [outs]:
  "order_book_cancel_client_orders cid c = Some (n, c') \<Longrightarrow> outs_ok (cx_out c) \<Longrightarrow> outs_ok (cx_out c')"
  by (auto simp: order_book_cancel_client_orders_def Let_def bind_eq_Some_conv dest: outs_cancel_keys)

lemma outs_flush_level_loop:
  "flush_level_loop n s h cur out = Some (n', cur', out') \<Longrightarrow> outs_ok out \<Longrightarrow> outs_ok out'"
proof (induction n s h cur out rule: flush_level_loop.induct)
  case (3 budget s h order out)
  then obtain m out1 where m: "make_cancel_ack_msg s (o_user_id (h order)) (o_user_order_id (h order)) = Some m"
      "output_buffer_add out m = Some out1" "flush_level_loop budget s h (o_next (h order)) out1 = Some (n', cur', out')"
    by (auto simp: bind_eq_Some_conv)
  from 3(1) [OF m] show ?case using outs_add [OF m(2) formattable_made(2) [OF m(1)] 3(3)] .
qed auto

lemma outs_flush_process_side:
  "flush_process_side s h levels n lv cur dn budget out = Some (lv', cur', dn', budget', out') \<Longrightarrow> outs_ok out \<Longrightarrow> outs_ok out'"
proof (induction s h levels n lv cur dn budget out rule: flush_process_side.induct)
  case (1 s h levels n lv cur dn budget out)
  show ?case
  proof (cases "\<not> dn \<and> 0 < budget \<and> \<not> lv \<ge> n")
    case False
    with 1(2,3) show ?thesis by (auto simp: flush_process_side.simps [of s h levels n lv cur dn budget out] split: if_splits)
  next
    case True
    then obtain b2 cur2 out2 where s: "flush_level_loop budget s h (if cur = None then l_orders_head (levels lv) else cur) out = Some (b2, cur2, out2)"
        "flush_process_side s h levels n (if cur2 = None then lv + 1 else lv) cur2 dn b2 out2 = Some (lv', cur', dn', budget', out')"
      using 1(2) unfolding flush_process_side.simps [of s h levels n lv cur dn budget out]
      by (auto simp: Let_def bind_eq_Some_conv)
    from 1(1) [OF _ _ refl s(1) refl refl refl s(2)] True outs_flush_level_loop [OF s(1) 1(3)] show ?thesis by auto
  qed
qed

lemma outs_flush_finalize: "flush_finalize c = Some c' \<Longrightarrow> outs_ok (cx_out c) \<Longrightarrow> outs_ok (cx_out c')"
  by (auto simp: flush_finalize_def Let_def bind_eq_Some_conv dest!: outs_check_tob_changes)

lemma outs_flush [outs]:
  assumes "order_book_flush c = Some (b, c')" and "outs_ok (cx_out c)"
  shows "outs_ok (cx_out c')"
proof -
  have side: "outs_ok out'"
    if "(if q then Option.bind (flush_process_side s h l n lv cur dn k out) (\<lambda>p. Some (r p)) else Some r') = Some x"
      "outs_ok out" "\<And>lv' cur' dn' k' out2. t (r (lv', cur', dn', k', out2)) = out2" "t r' = out" "t x = out'"
    for q s h l n lv cur dn k out r r' x t and out'
    using that outs_flush_process_side by (auto simp: bind_eq_Some_conv split: if_splits)
  obtain t2 where t: "outs_ok (cx_out c) \<longrightarrow> outs_ok (snd t2)"
    and 3: "(b, c') = (False, c\<lparr>cx_book := (cx_book c)\<lparr>ob_flush_state := fst t2\<rparr>, cx_out := snd t2\<rparr>)
        \<or> flush_finalize (c\<lparr>cx_book := (cx_book c)\<lparr>ob_flush_state := fst t2\<rparr>, cx_out := snd t2\<rparr>) = Some c'"
    using assms(1) unfolding order_book_flush_def Let_def split_beta
  proof (elim option_bindE, goal_cases)
    case (1 t1 t2)
    have "outs_ok (cx_out c) \<longrightarrow> outs_ok (snd (snd t1))" using side [OF 1(2), where t = "\<lambda>x. snd (snd x)"] by auto
    moreover have "outs_ok (snd (snd t1)) \<longrightarrow> outs_ok (snd t2)" using side [OF 1(3), where t = snd] by auto
    ultimately have "outs_ok (cx_out c) \<longrightarrow> outs_ok (snd t2)" by blast
    moreover have "(b, c') = (False, c\<lparr>cx_book := (cx_book c)\<lparr>ob_flush_state := fst t2\<rparr>, cx_out := snd t2\<rparr>)
        \<or> flush_finalize (c\<lparr>cx_book := (cx_book c)\<lparr>ob_flush_state := fst t2\<rparr>, cx_out := snd t2\<rparr>) = Some c'"
    proof (cases "fs_bids_done (fst t2) \<and> fs_asks_done (fst t2)")
      case True
      then have "Option.bind (flush_finalize (c\<lparr>cx_book := (cx_book c)\<lparr>ob_flush_state := fst t2\<rparr>, cx_out := snd t2\<rparr>)) (\<lambda>c2. Some (True, c2)) = Some (b, c')"
        using 1(4) by (simp only: if_True simp_thms)
      then show ?thesis by (auto elim!: option_bindE)
    next
      case False
      then show ?thesis using 1(4) by (simp only: if_False option.inject) simp
    qed
    ultimately show ?case by (rule that)
  qed
  with assms(2) show ?thesis using 3 outs_flush_finalize by auto
qed

subsection \<open>The engine\<close>

lemma outs_on_book [outs]:
  assumes "on_book i f e = Some e'" and "outs_ok (en_out e)"
    and "\<And>c c'. f c = Some c' \<Longrightarrow> outs_ok (cx_out c) \<Longrightarrow> outs_ok (cx_out c')"
  shows "outs_ok (en_out e')"
  using assms by (auto simp: on_book_def bind_eq_Some_conv book_ctx_def put_ctx_def)

lemma outs_on_book_with:
  assumes "on_book_with i f e = Some (r, e')" and "outs_ok (en_out e)"
    and "\<And>c r c'. f c = Some (r, c') \<Longrightarrow> outs_ok (cx_out c) \<Longrightarrow> outs_ok (cx_out c')"
  shows "outs_ok (en_out e')"
  using assms by (auto simp: on_book_with_def bind_eq_Some_conv book_ctx_def put_ctx_def)

lemma outs_book_loop:
  assumes step: "\<And>i acc e acc' e'. f i acc e = Some (acc', e') \<Longrightarrow> outs_ok (en_out e) \<Longrightarrow> outs_ok (en_out e')"
  shows "book_loop is f acc e = Some (acc', e') \<Longrightarrow> outs_ok (en_out e) \<Longrightarrow> outs_ok (en_out e')"
proof (induction "is" arbitrary: acc e)
  case (Cons i "is")
  then obtain acc1 e1 where "f i acc e = Some (acc1, e1)" "book_loop is f acc1 e1 = Some (acc', e')"
    by (auto simp: bind_eq_Some_conv)
  with Cons step show ?case by blast
qed simp

lemma outs_en_add [outs]: "en_add m e = Some e' \<Longrightarrow> formattable m \<Longrightarrow> outs_ok (en_out e) \<Longrightarrow> outs_ok (en_out e')"
  by (auto simp: en_add_def bind_eq_Some_conv elim: outs_add)

lemma outs_process_new_order:
  assumes "matching_engine_process_new_order msg cid ts e = Some e'" and "outs_ok (en_out e)"
  shows "outs_ok (en_out e')"
proof -
  obtain book engine1 where g: "matching_engine_get_order_book (en_engine e) (no_symbol msg) = Some (book, engine1)"
    using assms(1) by (auto simp: matching_engine_process_new_order_def bind_eq_Some_conv)
  show ?thesis
  proof (cases book)
    case None
    with assms g show ?thesis by (auto simp: matching_engine_process_new_order_def bind_eq_Some_conv elim!: outs)
  next
    case (Some i)
    with assms(1) g obtain e1 where "on_book i (order_book_add_order msg cid ts) e1 = Some e'" "en_out e1 = en_out e"
      by (auto simp: matching_engine_process_new_order_def bind_eq_Some_conv)
    with outs_on_book [OF this(1)] outs_add_order assms(2) show ?thesis by metis
  qed
qed

lemma outs_process_cancel_order:
  assumes "matching_engine_process_cancel_order msg e = Some e'" and "outs_ok (en_out e)"
  shows "outs_ok (en_out e')"
proof -
  have on: "outs_ok (en_out e1)" if "on_book i (order_book_cancel_order u j) e = Some e1" for i u j e1
    using outs_on_book [OF that assms(2)] outs_cancel_order by blast
  have add: "outs_ok (en_out e1)" if "make_cancel_ack_msg s u j = Some m" "en_add m e = Some e1" for s u j m e1
    using outs_en_add [OF that(2) formattable_made(2) [OF that(1)] assms(2)] .
  obtain key where k: "make_order_key (cm_user_id msg) (cm_user_order_id msg) = Some key"
    using assms(1) by (auto simp: matching_engine_process_cancel_order_def Let_def bind_eq_Some_conv)
  show ?thesis
  proof (cases "order_symbol_map_find (me_order_to_symbol (en_engine e)) key")
    case None
    with assms(1) k show ?thesis by (auto simp: matching_engine_process_cancel_order_def Let_def bind_eq_Some_conv dest: add)
  next
    case (Some entry)
    with assms(1) k show ?thesis
      by (cases "symbol_map_find (me_symbol_map (en_engine e)) (os_symbol (os_slots (me_order_to_symbol (en_engine e)) entry))")
         (auto simp: matching_engine_process_cancel_order_def Let_def bind_eq_Some_conv dest: add on)
  qed
qed

lemma outs_flush_all:
  "matching_engine_process_flush e = Some e' \<Longrightarrow> outs_ok (en_out e) \<Longrightarrow> outs_ok (en_out e')"
  "matching_engine_continue_flush e = Some (b, e') \<Longrightarrow> outs_ok (en_out e) \<Longrightarrow> outs_ok (en_out e')"
  "matching_engine_cancel_client_orders cid e = Some (n, e') \<Longrightarrow> outs_ok (en_out e) \<Longrightarrow> outs_ok (en_out e')"
proof -
  note fl = outs_on_book_with [OF _ _ outs_flush] and cl = outs_on_book_with [OF _ _ outs_cancel_client_orders]
  show "outs_ok (en_out e')" if run: "matching_engine_process_flush e = Some e'" and ok: "outs_ok (en_out e)"
  proof -
    obtain e1 where "matching_engine_start_flush e = Some e1" and e': "en_out e' = en_out e1"
      using run by (auto simp: matching_engine_process_flush_def bind_eq_Some_conv)
    then obtain u where "book_loop (book_indices (en_engine e)) (\<lambda>i _ e. Option.bind (on_book_with i order_book_flush e) (\<lambda>(book_done, e'). Some ((), e')))
        () e = Some (u, e1)"
      by (auto simp: matching_engine_start_flush_def bind_eq_Some_conv)
    then have "outs_ok (en_out e1)" using ok by (rule outs_book_loop [rotated]) (auto simp: bind_eq_Some_conv dest: fl)
    with e' show ?thesis by simp
  qed
  show "outs_ok (en_out e')" if "matching_engine_continue_flush e = Some (b, e')" "outs_ok (en_out e)"
    using that unfolding matching_engine_continue_flush_def matching_engine_process_flush_iteration_def
    by (rule outs_book_loop [rotated]) (auto simp: bind_eq_Some_conv split: if_splits dest: fl)
  show "outs_ok (en_out e')" if "matching_engine_cancel_client_orders cid e = Some (n, e')" "outs_ok (en_out e)"
    using that unfolding matching_engine_cancel_client_orders_def
    by (rule outs_book_loop [rotated]) (auto simp: bind_eq_Some_conv dest: cl)
qed

lemma outs_process_message:
  "matching_engine_process_message msg cid ts e = Some e' \<Longrightarrow> outs_ok (en_out e) \<Longrightarrow> outs_ok (en_out e')"
  using outs_process_new_order outs_process_cancel_order outs_flush_all(1)
  by (auto simp: matching_engine_process_message_def split: input_msg_t.splits)

lemma engine_run_outs: "engine_run f e \<Longrightarrow> outs_ok (en_out e)"
  by (induction rule: engine_run.induct) (auto dest: outs_process_message outs_flush_all)

end
