(* ===== verification/ME_Processor.thy ===== *)
theory ME_Processor
  imports ME_Outputs ME_Envelope ME_Queue
begin

text \<open>
  The processor thread (\<^verbatim>\<open>src/threading/processor.c\<close>, \<^verbatim>\<open>include/threading/processor.h\<close>): it takes batches of
  requests from the input queue, gives each to the matching engine and routes what the engine
  emits to the output queue.  \<open>proc_ctx\<close> holds the processor structure with what its pointers
  refer to: the engine (with the pool and the output buffer) and the two queues;
  \<open>thread_locals\<close> are the local variables of \<open>processor_thread\<close>.  One pass through its loop is
  \<open>processor_iteration\<close>; \<open>clock i\<close> is the time stamp the engine reads at the \<open>i\<close>-th message of the batch.
  Waiting (\<^verbatim>\<open>sched_yield\<close>, \<^verbatim>\<open>nanosleep\<close>, prefetches) and printing have no effect on this state.
\<close>

abbreviation PROCESSOR_BATCH_SIZE :: u64 where "PROCESSOR_BATCH_SIZE \<equiv> 32"
abbreviation PROCESSOR_SPIN_ITERATIONS :: int where "PROCESSOR_SPIN_ITERATIONS \<equiv> 100"
abbreviation STATS_FLUSH_INTERVAL :: u64 where "STATS_FLUSH_INTERVAL \<equiv> 1000"

record processor_config_t =
  pc_tcp_mode :: bool
  pc_spin_wait :: bool
  pc_processor_id :: int

record processor_stats_t =
  pst_messages_processed :: u64
  pst_batches_processed :: u64
  pst_output_messages :: u64
  pst_trades_processed :: u64
  pst_empty_polls :: u64
  pst_output_queue_full :: u64

record processor_t =
  pr_config :: processor_config_t
  pr_running :: bool
  pr_started :: bool
  pr_output_sequence :: u64
  pr_stats :: processor_stats_t

record proc_ctx =
  px_processor :: processor_t
  px_engine :: engine_ctx
  px_input :: "input_msg_envelope_t queue_t"
  px_output :: "output_msg_envelope_t queue_t"

record thread_locals =
  lv_messages :: u64
  lv_batches :: u64
  lv_outputs :: u64
  lv_trades :: u64
  lv_empty_polls :: u64
  lv_queue_full :: u64
  lv_sequence :: u64
  lv_spin_count :: int
  lv_since_last_flush :: u64
  lv_flush_client_id :: u32

definition zero_stats :: processor_stats_t where
  "zero_stats = \<lparr>pst_messages_processed = 0, pst_batches_processed = 0, pst_output_messages = 0, pst_trades_processed = 0,
     pst_empty_polls = 0, pst_output_queue_full = 0\<rparr>"

definition processor_init :: "processor_config_t \<Rightarrow> processor_t \<Rightarrow> (bool \<times> processor_t) option" where
  "processor_init config processor = do {
     let p = \<lparr>pr_config = config, pr_running = False, pr_started = False, pr_output_sequence = 0, pr_stats = zero_stats\<rparr>;
     assert_that (\<not> pr_running p);
     Some (True, p)
   }"

definition processor_cleanup :: "processor_t \<Rightarrow> processor_t option" where
  "processor_cleanup processor = do {
     assert_that (\<not> pr_running processor);
     Some processor
   }"

definition processor_get_stats :: "processor_t \<Rightarrow> u64 \<times> u64 \<times> u64 \<times> u64" where
  "processor_get_stats processor =
     (pst_messages_processed (pr_stats processor), pst_batches_processed (pr_stats processor),
      pst_output_messages (pr_stats processor), pst_trades_processed (pr_stats processor))"

definition enqueue_output ::
  "output_msg_t \<Rightarrow> u32 \<Rightarrow> u64 \<Rightarrow> proc_ctx \<Rightarrow> thread_locals \<Rightarrow> (bool \<times> proc_ctx \<times> thread_locals) option" where
  "enqueue_output msg client_id seq s l = do {
     env \<leftarrow> create_output_envelope msg client_id seq;
     let (ok, q) = queue_enqueue (px_output s) env;
     Some (if ok then (True, s\<lparr>px_output := q\<rparr>, l\<lparr>lv_outputs := lv_outputs l + 1\<rparr>)
           else (False, s\<lparr>px_output := q\<rparr>, l\<lparr>lv_queue_full := lv_queue_full l + 1\<rparr>))
   }"

text \<open>The loop of \<open>drain_output_buffer\<close> over the messages of the buffer.\<close>

fun drain_loop :: "output_msg_t list \<Rightarrow> u32 \<Rightarrow> proc_ctx \<Rightarrow> thread_locals \<Rightarrow> (proc_ctx \<times> thread_locals) option" where
  "drain_loop [] client_id s l = Some (s, l)"
| "drain_loop (out_msg # msgs) client_id s l = do {
     let seq = lv_sequence l;
     let l1 = l\<lparr>lv_sequence := lv_sequence l + 1\<rparr>;
     (s', l') \<leftarrow>
       (case out_msg of
          OUTPUT_MSG_TRADE t \<Rightarrow> do {
            let l2 = l1\<lparr>lv_trades := lv_trades l1 + 1\<rparr>;
            let buy_client = tr_buy_client_id t;
            let sell_client = tr_sell_client_id t;
            (ok1, s3, l3) \<leftarrow> enqueue_output out_msg buy_client seq s l2;
            if buy_client \<noteq> sell_client then do {
              (ok2, s4, l4) \<leftarrow> enqueue_output out_msg sell_client seq s3 l3;
              Some (s4, l4)
            } else Some (s3, l3)
          }
        | _ \<Rightarrow> do {
            (ok1, s3, l3) \<leftarrow> enqueue_output out_msg client_id seq s l1;
            Some (s3, l3)
          });
     drain_loop msgs client_id s' l'
   }"

definition set_out :: "output_buffer_t \<Rightarrow> proc_ctx \<Rightarrow> proc_ctx" where
  "set_out out s = s\<lparr>px_engine := (px_engine s)\<lparr>en_out := out\<rparr>\<rparr>"

definition drain_output_buffer :: "u32 \<Rightarrow> proc_ctx \<Rightarrow> thread_locals \<Rightarrow> (proc_ctx \<times> thread_locals) option" where
  "drain_output_buffer client_id s l = do {
     (s', l') \<leftarrow> drain_loop (en_out (px_engine s)) client_id s l;
     Some (set_out [] s', l')
   }"

text \<open>Phases 3 and 4: the messages of a batch.\<close>

fun process_batch :: "(nat \<Rightarrow> u64) \<Rightarrow> nat \<Rightarrow> input_msg_envelope_t list \<Rightarrow> proc_ctx \<Rightarrow> thread_locals \<Rightarrow> (proc_ctx \<times> thread_locals) option" where
  "process_batch clock i [] s l = Some (s, l)"
| "process_batch clock i (envelope # batch) s l = do {
     let msg = ie_msg envelope;
     let client_id = ie_client_id envelope;
     let s1 = set_out [] s;
     let l1 = (if msg = INPUT_MSG_FLUSH then l\<lparr>lv_flush_client_id := client_id\<rparr> else l);
     e \<leftarrow> matching_engine_process_message msg client_id (clock i) (px_engine s1);
     (s2, l2) \<leftarrow> drain_output_buffer client_id (s1\<lparr>px_engine := e\<rparr>) l1;
     process_batch clock (Suc i) batch s2 (l2\<lparr>lv_messages := lv_messages l2 + 1\<rparr>)
   }"

definition add_stats :: "thread_locals \<Rightarrow> processor_stats_t \<Rightarrow> processor_stats_t" where
  "add_stats l st =
     \<lparr>pst_messages_processed = pst_messages_processed st + lv_messages l, pst_batches_processed = pst_batches_processed st + lv_batches l,
      pst_output_messages = pst_output_messages st + lv_outputs l, pst_trades_processed = pst_trades_processed st + lv_trades l,
      pst_empty_polls = pst_empty_polls st + lv_empty_polls l, pst_output_queue_full = pst_output_queue_full st + lv_queue_full l\<rparr>"

definition store_stats :: "proc_ctx \<Rightarrow> thread_locals \<Rightarrow> proc_ctx" where
  "store_stats s l = s\<lparr>px_processor := (px_processor s)\<lparr>pr_stats := add_stats l (pr_stats (px_processor s)), pr_output_sequence := lv_sequence l\<rparr>\<rparr>"

definition reset_counters :: "thread_locals \<Rightarrow> thread_locals" where
  "reset_counters l = l\<lparr>lv_messages := 0, lv_batches := 0, lv_outputs := 0, lv_trades := 0, lv_empty_polls := 0, lv_queue_full := 0,
     lv_since_last_flush := 0\<rparr>"

definition continue_flush_phase :: "proc_ctx \<Rightarrow> thread_locals \<Rightarrow> (bool \<times> proc_ctx \<times> thread_locals) option" where
  "continue_flush_phase s l =
     (if matching_engine_has_flush_in_progress (en_engine (px_engine s)) then do {
        let s1 = set_out [] s;
        (flush_done, e) \<leftarrow> matching_engine_continue_flush (px_engine s1);
        let s2 = s1\<lparr>px_engine := e\<rparr>;
        (s3, l3) \<leftarrow> (if length (en_out e) > 0 then drain_output_buffer (lv_flush_client_id l) s2 l else Some (s2, l));
        Some (flush_done, s3, l3)
      } else Some (True, s, l))"

text \<open>Phases 1 to 5: the next batch, from the dequeue to the statistics.\<close>

definition batch_phase :: "(nat \<Rightarrow> u64) \<Rightarrow> proc_ctx \<Rightarrow> thread_locals \<Rightarrow> (proc_ctx \<times> thread_locals) option" where
  "batch_phase clock s l = do {
     let (batch, q) = queue_dequeue_batch (px_input s) PROCESSOR_BATCH_SIZE;
     let s1 = s\<lparr>px_input := q\<rparr>;
     if length batch = 0 then
       (let l1 = l\<lparr>lv_empty_polls := lv_empty_polls l + 1\<rparr> in
        Some (s1, if pc_spin_wait (pr_config (px_processor s1))
                  then (let sc = lv_spin_count l1 + 1 in l1\<lparr>lv_spin_count := (if sc \<ge> PROCESSOR_SPIN_ITERATIONS then 0 else sc)\<rparr>)
                  else l1))
     else do {
       (s2, l2) \<leftarrow> process_batch clock 0 batch s1 (l\<lparr>lv_spin_count := 0, lv_batches := lv_batches l + 1\<rparr>);
       let l3 = l2\<lparr>lv_since_last_flush := lv_since_last_flush l2 + of_nat (length batch)\<rparr>;
       Some (if lv_since_last_flush l3 \<ge> STATS_FLUSH_INTERVAL then (store_stats s2 l3, reset_counters l3) else (s2, l3))
     }
   }"

definition processor_iteration :: "(nat \<Rightarrow> u64) \<Rightarrow> proc_ctx \<Rightarrow> thread_locals \<Rightarrow> (proc_ctx \<times> thread_locals) option" where
  "processor_iteration clock s l = do {
     (go_on, s1, l1) \<leftarrow> continue_flush_phase s l;
     if \<not> go_on then Some (s1, l1) else batch_phase clock s1 l1
   }"

text \<open>
  The whole thread, when the shutdown flag is seen after \<open>n\<close> iterations; \<open>others k\<close> is what the other
  threads do to the two queues before an iteration.
\<close>

definition thread_start :: "proc_ctx \<Rightarrow> proc_ctx \<times> thread_locals" where
  "thread_start s =
     (s\<lparr>px_processor := (px_processor s)\<lparr>pr_started := True, pr_running := True\<rparr>\<rparr>,
      \<lparr>lv_messages = 0, lv_batches = 0, lv_outputs = 0, lv_trades = 0, lv_empty_polls = 0, lv_queue_full = 0,
       lv_sequence = pr_output_sequence (px_processor s), lv_spin_count = 0, lv_since_last_flush = 0, lv_flush_client_id = 0\<rparr>)"

fun processor_loop :: "nat \<Rightarrow> (nat \<Rightarrow> nat \<Rightarrow> u64) \<Rightarrow> (nat \<Rightarrow> proc_ctx \<Rightarrow> proc_ctx) \<Rightarrow> proc_ctx \<Rightarrow> thread_locals \<Rightarrow> (proc_ctx \<times> thread_locals) option" where
  "processor_loop 0 clock others s l = Some (s, l)"
| "processor_loop (Suc n) clock others s l = do {
     (s', l') \<leftarrow> processor_iteration (clock n) (others n s) l;
     processor_loop n clock others s' l'
   }"

definition processor_thread :: "nat \<Rightarrow> (nat \<Rightarrow> nat \<Rightarrow> u64) \<Rightarrow> (nat \<Rightarrow> proc_ctx \<Rightarrow> proc_ctx) \<Rightarrow> proc_ctx \<Rightarrow> proc_ctx option" where
  "processor_thread n clock others s = do {
     let (s0, l0) = thread_start s;
     (s1, l1) \<leftarrow> processor_loop n clock others s0 l0;
     let s2 = store_stats s1 l1;
     Some (s2\<lparr>px_processor := (px_processor s2)\<lparr>pr_running := False\<rparr>\<rparr>)
   }"

text \<open>The loop of \<open>processor_cancel_client_orders\<close>: \<open>i\<close> counts the messages.\<close>

fun cancel_enqueue_loop :: "output_msg_t list \<Rightarrow> u32 \<Rightarrow> u64 \<Rightarrow> u64 \<Rightarrow> proc_ctx \<Rightarrow> proc_ctx option" where
  "cancel_enqueue_loop [] client_id local_seq i s = Some s"
| "cancel_enqueue_loop (out_msg # msgs) client_id local_seq i s = do {
     envelope \<leftarrow> create_output_envelope out_msg client_id (local_seq + i);
     let (ok, q) = queue_enqueue (px_output s) envelope;
     let st = pr_stats (px_processor s);
     let st' = (if \<not> ok then st\<lparr>pst_output_queue_full := pst_output_queue_full st + 1\<rparr>
                else st\<lparr>pst_output_messages := pst_output_messages st + 1\<rparr>);
     cancel_enqueue_loop msgs client_id local_seq (i + 1)
       (s\<lparr>px_output := q, px_processor := (px_processor s)\<lparr>pr_stats := st'\<rparr>\<rparr>)
   }"

definition processor_cancel_client_orders :: "u32 \<Rightarrow> proc_ctx \<Rightarrow> proc_ctx option" where
  "processor_cancel_client_orders client_id s = do {
     assert_that (client_id > 0);
     (cancelled, e) \<leftarrow> matching_engine_cancel_client_orders client_id ((px_engine s)\<lparr>en_out := []\<rparr>);
     let local_seq = pr_output_sequence (px_processor s);
     let s1 = s\<lparr>px_engine := e\<lparr>en_out := en_out (px_engine s)\<rparr>,
                px_processor := (px_processor s)\<lparr>pr_output_sequence := local_seq + of_nat (length (en_out e))\<rparr>\<rparr>;
     cancel_enqueue_loop (en_out e) client_id local_seq 0 s1
   }"

section \<open>Routing\<close>

text \<open>
  What is sent for the messages of one buffer: a trade goes to the buyer and, when it is another
  client, to the seller, everything else to the client whose request was processed; the copies of
  a message share its sequence number.
\<close>

fun recipients :: "u32 \<Rightarrow> output_msg_t \<Rightarrow> u32 list" where
  "recipients c (OUTPUT_MSG_TRADE t) =
     tr_buy_client_id t # (if tr_buy_client_id t \<noteq> tr_sell_client_id t then [tr_sell_client_id t] else [])"
| "recipients c _ = [c]"

fun routed :: "u32 \<Rightarrow> u64 \<Rightarrow> output_msg_t list \<Rightarrow> output_msg_envelope_t list" where
  "routed c seq [] = []"
| "routed c seq (m # ms) = map (\<lambda>r. \<lparr>oe_msg = m, oe_client_id = r, oe_sequence = seq\<rparr>) (recipients c m) @ routed c (seq + 1) ms"

fun route_all :: "u64 \<Rightarrow> (u32 \<times> output_msg_t list) list \<Rightarrow> output_msg_envelope_t list" where
  "route_all seq [] = []"
| "route_all seq ((c, ms) # outs) = routed c seq ms @ route_all (seq + of_nat (length ms)) outs"

definition is_trade :: "output_msg_t \<Rightarrow> bool" where
  "is_trade m = (case m of OUTPUT_MSG_TRADE _ \<Rightarrow> True | _ \<Rightarrow> False)"

text \<open>Offering envelopes to the output queue: what fits is appended, the rest is counted.\<close>

definition deliver :: "output_msg_envelope_t list \<Rightarrow> proc_ctx \<Rightarrow> thread_locals \<Rightarrow> proc_ctx \<times> thread_locals" where
  "deliver xs s l = (let (n, q) = lq.enq_all (px_output s) xs in
     (s\<lparr>px_output := q\<rparr>, l\<lparr>lv_outputs := lv_outputs l + of_nat n, lv_queue_full := lv_queue_full l + of_nat (length xs - n)\<rparr>))"

definition count_outs :: "output_msg_t list \<Rightarrow> thread_locals \<Rightarrow> thread_locals" where
  "count_outs ms l = l\<lparr>lv_sequence := lv_sequence l + of_nat (length ms), lv_trades := lv_trades l + of_nat (length (filter is_trade ms))\<rparr>"

lemma enq_all_append:
  "lq.enq_all q (xs @ ys) = (let (n, q1) = lq.enq_all q xs; (m, q2) = lq.enq_all q1 ys in (n + m, q2))"
  by (induction xs arbitrary: q) (auto simp: Let_def split: prod.splits)

lemma enq_all_le: "fst (lq.enq_all q xs) \<le> length xs"
  by (induction xs arbitrary: q) (auto simp: Let_def split_beta intro: le_SucI)

lemma deliver_Nil [simp]: "deliver [] s l = (s, l)"
  by (simp add: deliver_def)

lemma deliver_append: "deliver (xs @ ys) s l = (case deliver xs s l of (s', l') \<Rightarrow> deliver ys s' l')"
proof -
  obtain n q where 1: "lq.enq_all (px_output s) xs = (n, q)" by fastforce
  obtain m q' where 2: "lq.enq_all q ys = (m, q')" by fastforce
  have "n \<le> length xs" "m \<le> length ys" using enq_all_le [of "px_output s" xs] enq_all_le [of q ys] 1 2 by simp_all
  then have "length xs + length ys - (n + m) = (length xs - n) + (length ys - m)" by simp
  then show ?thesis by (simp add: deliver_def enq_all_append 1 2 add.assoc)
qed

lemma deliver_one:
  "deliver [x] s l = (case queue_enqueue (px_output s) x of (ok, q) \<Rightarrow>
     (s\<lparr>px_output := q\<rparr>, if ok then l\<lparr>lv_outputs := lv_outputs l + 1\<rparr> else l\<lparr>lv_queue_full := lv_queue_full l + 1\<rparr>))"
  by (simp add: deliver_def split_beta)

lemma formattable_valid: "formattable m \<Longrightarrow> output_msg_type_is_valid (output_msg_type m)"
  by (cases m) (auto simp: formattable_def output_msg_type_is_valid_def)

lemma enqueue_output_deliver:
  assumes "formattable m"
  shows "enqueue_output m c seq s l =
    (let env = \<lparr>oe_msg = m, oe_client_id = c, oe_sequence = seq\<rparr> in Some (fst (queue_enqueue (px_output s) env), deliver [env] s l))"
  by (simp add: enqueue_output_def create_output_envelope_ok [OF formattable_valid [OF assms]] deliver_one split_beta Let_def)

lemma deliver_frame:
  "deliver xs s l = (s', l') \<Longrightarrow> lv_sequence l' = lv_sequence l \<and> lv_trades l' = lv_trades l
     \<and> px_engine s' = px_engine s \<and> px_input s' = px_input s \<and> px_processor s' = px_processor s"
  by (auto simp: deliver_def split_beta Let_def)

lemma deliver_local:
  "deliver xs s (l\<lparr>lv_sequence := a\<rparr>) = map_prod id (\<lambda>l'. l'\<lparr>lv_sequence := a\<rparr>) (deliver xs s l)"
  "deliver xs s (l\<lparr>lv_trades := b\<rparr>) = map_prod id (\<lambda>l'. l'\<lparr>lv_trades := b\<rparr>) (deliver xs s l)"
  "deliver xs s (l\<lparr>lv_messages := d\<rparr>) = map_prod id (\<lambda>l'. l'\<lparr>lv_messages := d\<rparr>) (deliver xs s l)"
  "deliver xs s (l\<lparr>lv_flush_client_id := f\<rparr>) = map_prod id (\<lambda>l'. l'\<lparr>lv_flush_client_id := f\<rparr>) (deliver xs s l)"
  "deliver xs (set_out out s) l = map_prod (set_out out) id (deliver xs s l)"
  "deliver xs (s\<lparr>px_engine := e\<rparr>) l = map_prod (px_engine_update (\<lambda>_. e)) id (deliver xs s l)"
  by (simp_all add: deliver_def set_out_def split_beta Let_def)

lemma deliver_pair: "deliver [x, y] s l = (case deliver [x] s l of (s', l') \<Rightarrow> deliver [y] s' l')"
  using deliver_append [of "[x]" "[y]"] by simp

lemma trades_kept: "lv_trades l = t \<Longrightarrow> l\<lparr>lv_sequence := a, lv_trades := t\<rparr> = l\<lparr>lv_sequence := a\<rparr>"
  by (cases l) simp

lemma drain_loop_step:
  assumes m: "formattable m"
    and d: "deliver (map (\<lambda>r. \<lparr>oe_msg = m, oe_client_id = r, oe_sequence = lv_sequence l\<rparr>) (recipients c m)) s l = (s1, l1)"
  shows "drain_loop (m # ms) c s l = drain_loop ms c s1 (count_outs [m] l1)"
proof -
  note fr = deliver_frame [OF d]
  show ?thesis
  proof (cases m)
    case (OUTPUT_MSG_TRADE t)
    with m d fr show ?thesis
      by (cases "tr_buy_client_id t = tr_sell_client_id t")
        (auto simp: enqueue_output_deliver Let_def deliver_local deliver_pair count_outs_def is_trade_def split: prod.splits)
  qed (use m d fr in \<open>simp_all add: enqueue_output_deliver Let_def deliver_local count_outs_def is_trade_def trades_kept\<close>)
qed

lemma drain_loop_deliver:
  assumes "outs_ok ms"
  shows "drain_loop ms c s l = Some (map_prod id (count_outs ms) (deliver (routed c (lv_sequence l) ms) s l))"
  using assms
proof (induction ms arbitrary: s l)
  case Nil
  then show ?case by (simp add: count_outs_def)
next
  case (Cons m ms)
  then have m: "formattable m" and ms: "outs_ok ms" by (simp_all add: outs_ok_def)
  obtain s1 l1 where 1: "deliver (map (\<lambda>r. \<lparr>oe_msg = m, oe_client_id = r, oe_sequence = lv_sequence l\<rparr>) (recipients c m)) s l = (s1, l1)"
    by fastforce
  obtain s2 l2 where 2: "deliver (routed c (lv_sequence l + 1) ms) s1 l1 = (s2, l2)" by fastforce
  show ?case unfolding drain_loop_step [OF m 1] Cons.IH [OF ms]
    by (simp add: deliver_append 1 2 count_outs_def deliver_local deliver_frame [OF 1] deliver_frame [OF 2] add.assoc)
qed

section \<open>A batch\<close>

text \<open>
  The reference: the engine is given the messages one after the other, each with an empty buffer;
  the result pairs every message's client with what the engine emitted for it.
\<close>

fun engine_batch :: "(nat \<Rightarrow> u64) \<Rightarrow> nat \<Rightarrow> input_msg_envelope_t list \<Rightarrow> engine_ctx \<Rightarrow> ((u32 \<times> output_msg_t list) list \<times> engine_ctx) option" where
  "engine_batch clock i [] e = Some ([], e)"
| "engine_batch clock i (env # batch) e = do {
     e1 \<leftarrow> matching_engine_process_message (ie_msg env) (ie_client_id env) (clock i) (e\<lparr>en_out := []\<rparr>);
     (outs, e2) \<leftarrow> engine_batch clock (Suc i) batch (e1\<lparr>en_out := []\<rparr>);
     Some ((ie_client_id env, en_out e1) # outs, e2)
   }"

fun flush_client :: "input_msg_envelope_t list \<Rightarrow> u32 \<Rightarrow> u32" where
  "flush_client [] c = c"
| "flush_client (env # batch) c = flush_client batch (if ie_msg env = INPUT_MSG_FLUSH then ie_client_id env else c)"

definition all_outs :: "(u32 \<times> output_msg_t list) list \<Rightarrow> output_msg_t list" where
  "all_outs outs = concat (map snd outs)"

lemma all_outs_simps [simp]: "all_outs [] = []" "all_outs ((c, ms) # outs) = ms @ all_outs outs"
  by (simp_all add: all_outs_def)

definition count_batch :: "input_msg_envelope_t list \<Rightarrow> (u32 \<times> output_msg_t list) list \<Rightarrow> thread_locals \<Rightarrow> thread_locals" where
  "count_batch batch outs l = (count_outs (all_outs outs) l)\<lparr>lv_messages := lv_messages l + of_nat (length batch),
     lv_flush_client_id := flush_client batch (lv_flush_client_id l)\<rparr>"

lemma deliver_frame':
  "deliver xs s l = (s', l') \<Longrightarrow> lv_messages l' = lv_messages l \<and> lv_flush_client_id l' = lv_flush_client_id l"
  by (auto simp: deliver_def split_beta Let_def)

lemma drain_output_buffer_deliver:
  assumes "outs_ok (en_out (px_engine s))" and "deliver (routed c (lv_sequence l) (en_out (px_engine s))) s l = (s', l')"
  shows "drain_output_buffer c s l = Some (set_out [] s', count_outs (en_out (px_engine s)) l')"
  by (simp add: drain_output_buffer_def drain_loop_deliver [OF assms(1)] assms(2))

lemma count_one:
  "count_batch [env] [(c, ms)] l =
     (let l' = count_outs ms (if ie_msg env = INPUT_MSG_FLUSH then l\<lparr>lv_flush_client_id := ie_client_id env\<rparr> else l)
      in l'\<lparr>lv_messages := lv_messages l' + 1\<rparr>)"
  by (cases l) (simp add: count_batch_def count_outs_def)

theorem process_batch_refines:
  "process_batch clock i batch s l =
     (case engine_batch clock i batch (px_engine s) of
        None \<Rightarrow> None
      | Some (outs, e) \<Rightarrow> Some (case deliver (route_all (lv_sequence l) outs) s l of (s', l') \<Rightarrow>
          (s'\<lparr>px_engine := e\<rparr>, count_batch batch outs l')))"
proof (induction batch arbitrary: i s l)
  case Nil
  then show ?case by (simp add: count_batch_def count_outs_def)
next
  case (Cons env batch)
  define l0 where "l0 = (if ie_msg env = INPUT_MSG_FLUSH then l\<lparr>lv_flush_client_id := ie_client_id env\<rparr> else l)"
  show ?case
  proof (cases "matching_engine_process_message (ie_msg env) (ie_client_id env) (clock i) ((px_engine s)\<lparr>en_out := []\<rparr>)")
    case None
    then show ?thesis by (simp add: set_out_def)
  next
    case (Some e1)
    have ok: "outs_ok (en_out e1)" using outs_process_message [OF Some] by simp
    obtain s1 l1 where 1: "deliver (routed (ie_client_id env) (lv_sequence l) (en_out e1)) s l = (s1, l1)" by fastforce
    note fr = deliver_frame [OF 1] deliver_frame' [OF 1]
    have d: "deliver (routed (ie_client_id env) (lv_sequence l0) (en_out e1)) ((set_out [] s)\<lparr>px_engine := e1\<rparr>) l0
        = (s1\<lparr>px_engine := e1\<rparr>, if ie_msg env = INPUT_MSG_FLUSH then l1\<lparr>lv_flush_client_id := ie_client_id env\<rparr> else l1)"
      by (simp add: l0_def deliver_local 1 set_out_def)
    note dr = drain_output_buffer_deliver [of "(set_out [] s)\<lparr>px_engine := e1\<rparr>", simplified, OF ok d]
    have step: "process_batch clock i (env # batch) s l = process_batch clock (Suc i) batch (s1\<lparr>px_engine := e1\<lparr>en_out := []\<rparr>\<rparr>) (count_batch [env] [(ie_client_id env, en_out e1)] l1)"
      using Some dr by (simp add: set_out_def Let_def l0_def [symmetric] count_one)
    show ?thesis
    proof (cases "engine_batch clock (Suc i) batch (e1\<lparr>en_out := []\<rparr>)")
      case None
      then show ?thesis unfolding step Cons.IH by (simp add: Some)
    next
      case (Some r)
      obtain outs e where r: "r = (outs, e)" by fastforce
      obtain s2 l2 where 2: "deliver (route_all (lv_sequence l + of_nat (length (en_out e1))) outs) s1 l1 = (s2, l2)" by fastforce
      show ?thesis unfolding step Cons.IH
        by (simp add: Some \<open>matching_engine_process_message _ _ _ _ = Some e1\<close> r deliver_append 1)
         (simp add: count_batch_def count_outs_def deliver_local fr 2 deliver_frame [OF 2] deliver_frame' [OF 2] add.assoc)
    qed
  qed
qed

section \<open>The engine behind a batch\<close>

text \<open>
  A batch the engine can take: no flush is in progress when a message is processed and every message
  is admissible in the state it meets.
\<close>

fun batch_ok :: "(nat \<Rightarrow> u64) \<Rightarrow> nat \<Rightarrow> input_msg_envelope_t list \<Rightarrow> engine_ctx \<Rightarrow> bool" where
  "batch_ok clock i [] e = True"
| "batch_ok clock i (env # batch) e =
     (\<not> matching_engine_has_flush_in_progress (en_engine e) \<and> admissible (e\<lparr>en_out := []\<rparr>) (ie_msg env)
      \<and> (case matching_engine_process_message (ie_msg env) (ie_client_id env) (clock i) (e\<lparr>en_out := []\<rparr>) of
            None \<Rightarrow> True
          | Some e1 \<Rightarrow> batch_ok clock (Suc i) batch (e1\<lparr>en_out := []\<rparr>)))"

lemma run_phase:
  assumes "engine_run f e"
  shows "engine_run (matching_engine_has_flush_in_progress (en_engine e)) e"
proof (cases f)
  case True
  with assms show ?thesis by (cases "matching_engine_has_flush_in_progress (en_engine e)") (auto intro: engine_run.flushed)
next
  case False
  with assms have "\<not> matching_engine_has_flush_in_progress (en_engine e)"
    using engine_run_inv [OF assms] no_flush_idle by (auto simp: run_inv_def)
  with assms False show ?thesis by simp
qed

lemma run_message:
  assumes "engine_run False e" and "admissible e msg" and "matching_engine_process_message msg cid ts e = Some e'"
  shows "\<exists>f. engine_run f e'"
  using assms engine_run.message engine_run.flush by (cases "msg = INPUT_MSG_FLUSH") blast+

lemma engine_batch_defined:
  assumes "engine_run f e" and "batch_ok clock i batch e"
  shows "\<exists>outs e' f'. engine_batch clock i batch e = Some (outs, e') \<and> engine_run f' e' \<and> length outs = length batch
     \<and> map fst outs = map ie_client_id batch"
  using assms
proof (induction batch arbitrary: i e f)
  case (Cons env batch)
  have run: "engine_run False (e\<lparr>en_out := []\<rparr>)" using engine_run.drain [OF run_phase [OF Cons.prems(1)]] Cons.prems(2) by simp
  have adm: "admissible (e\<lparr>en_out := []\<rparr>) (ie_msg env)" using Cons.prems(2) by simp
  from run_message_defined [OF run adm] obtain e1
    where e1: "matching_engine_process_message (ie_msg env) (ie_client_id env) (clock i) (e\<lparr>en_out := []\<rparr>) = Some e1" by blast
  from run_message [OF run adm e1] obtain f1 where "engine_run f1 (e1\<lparr>en_out := []\<rparr>)" using engine_run.drain by blast
  from Cons.IH [OF this, of "Suc i"] Cons.prems(2) e1 show ?case by auto
qed auto

section \<open>One pass through the loop\<close>

text \<open>
  The reference for one iteration: continue a flush and, when none is left, hand the engine the
  next batch.  The result names the requests taken and the outputs with their clients.
\<close>

definition engine_iteration ::
  "(nat \<Rightarrow> u64) \<Rightarrow> u32 \<Rightarrow> input_msg_envelope_t list \<Rightarrow> engine_ctx \<Rightarrow>
   (input_msg_envelope_t list \<times> (u32 \<times> output_msg_t list) list \<times> engine_ctx) option" where
  "engine_iteration clock c batch e =
     (if matching_engine_has_flush_in_progress (en_engine e) then do {
        (fin, e1) \<leftarrow> matching_engine_continue_flush (e\<lparr>en_out := []\<rparr>);
        if fin then do {
          (outs, e2) \<leftarrow> engine_batch clock 0 batch (e1\<lparr>en_out := []\<rparr>);
          Some (batch, (c, en_out e1) # outs, e2)
        } else Some ([], [(c, en_out e1)], e1\<lparr>en_out := []\<rparr>)
      } else do {
        (outs, e2) \<leftarrow> engine_batch clock 0 batch e;
        Some (batch, outs, e2)
      })"

lemma engine_iteration_simps:
  "\<not> matching_engine_has_flush_in_progress (en_engine e) \<Longrightarrow>
     engine_iteration clock c batch e = Some (taken, outs, e') \<longleftrightarrow> engine_batch clock 0 batch e = Some (outs, e') \<and> taken = batch"
  "matching_engine_has_flush_in_progress (en_engine e) \<Longrightarrow> matching_engine_continue_flush (e\<lparr>en_out := []\<rparr>) = Some (fin, e1) \<Longrightarrow> fin \<Longrightarrow>
     engine_iteration clock c batch e = Some (taken, outs, e') \<longleftrightarrow>
       (\<exists>outs'. engine_batch clock 0 batch (e1\<lparr>en_out := []\<rparr>) = Some (outs', e') \<and> taken = batch \<and> outs = (c, en_out e1) # outs')"
  "matching_engine_has_flush_in_progress (en_engine e) \<Longrightarrow> matching_engine_continue_flush (e\<lparr>en_out := []\<rparr>) = Some (fin, e1) \<Longrightarrow> \<not> fin \<Longrightarrow>
     engine_iteration clock c batch e = Some (taken, outs, e') \<longleftrightarrow> taken = [] \<and> outs = [(c, en_out e1)] \<and> e' = e1\<lparr>en_out := []\<rparr>"
  by (auto simp: engine_iteration_def bind_eq_Some_conv)

text \<open>The counters of a run: what is stored and what the thread still holds.\<close>

definition totals :: "proc_ctx \<Rightarrow> thread_locals \<Rightarrow> processor_stats_t" where
  "totals s l = add_stats l (pr_stats (px_processor s))"

lemma continue_flush_phase_deliver:
  assumes "matching_engine_has_flush_in_progress (en_engine (px_engine s))"
    and c: "matching_engine_continue_flush ((px_engine s)\<lparr>en_out := []\<rparr>) = Some (fin, e1)"
    and d: "deliver (routed (lv_flush_client_id l) (lv_sequence l) (en_out e1)) s l = (s1, l1)"
  shows "continue_flush_phase s l = Some (fin, s1\<lparr>px_engine := e1\<lparr>en_out := []\<rparr>\<rparr>, count_outs (en_out e1) l1)"
proof -
  have ok: "outs_ok (en_out e1)" using outs_flush_all(2) [OF c] by simp
  have d': "deliver (routed (lv_flush_client_id l) (lv_sequence l) (en_out e1)) (s\<lparr>px_engine := e1\<rparr>) l = (s1\<lparr>px_engine := e1\<rparr>, l1)"
    by (simp add: deliver_local d)
  show ?thesis
  proof (cases "en_out e1 = []")
    case True
    with d have "s1 = s" "l1 = l" by simp_all
    with True show ?thesis using assms(1) c by (simp add: continue_flush_phase_def set_out_def count_outs_def)
  next
    case False
    with drain_output_buffer_deliver [of "s\<lparr>px_engine := e1\<rparr>", simplified, OF ok d'] show ?thesis
      using assms(1) c by (simp add: continue_flush_phase_def set_out_def Let_def)
  qed
qed

lemma deliver_contents:
  assumes ok: "queue_ok (px_output s)" and d: "deliver xs s l = (s', l')"
  shows "queue_ok (px_output s')"
    and "contents (px_output s') = contents (px_output s) @ take (LOCKFREE_QUEUE_SIZE - 1 - length (contents (px_output s))) xs"
    and "lv_outputs l' = lv_outputs l + of_nat (min (length xs) (LOCKFREE_QUEUE_SIZE - 1 - length (contents (px_output s))))"
    and "lv_queue_full l' = lv_queue_full l + of_nat (length xs - (LOCKFREE_QUEUE_SIZE - 1 - length (contents (px_output s))))"
proof -
  obtain n q where e: "lq.enq_all (px_output s) xs = (n, q)" by fastforce
  note r = lq.enq_all_ok [OF ok e]
  from d e have s': "s' = s\<lparr>px_output := q\<rparr>" "lv_outputs l' = lv_outputs l + of_nat n" "lv_queue_full l' = lv_queue_full l + of_nat (length xs - n)"
    by (auto simp: deliver_def)
  show "queue_ok (px_output s')" using s' r by simp
  show "contents (px_output s') = contents (px_output s) @ take (LOCKFREE_QUEUE_SIZE - 1 - length (contents (px_output s))) xs"
    using s' r by (simp add: min_def)
  show "lv_outputs l' = lv_outputs l + of_nat (min (length xs) (LOCKFREE_QUEUE_SIZE - 1 - length (contents (px_output s))))"
    using s' r by simp
  have "length xs - n = length xs - (LOCKFREE_QUEUE_SIZE - 1 - length (contents (px_output s)))" using r by simp
  with s' show "lv_queue_full l' = lv_queue_full l + of_nat (length xs - (LOCKFREE_QUEUE_SIZE - 1 - length (contents (px_output s))))" by simp
qed

text \<open>Which part of the state an iteration leaves: \<open>outcome\<close> relates it to what was taken, emitted and delivered.\<close>

definition outcome ::
  "input_msg_envelope_t list \<Rightarrow> (u32 \<times> output_msg_t list) list \<Rightarrow> proc_ctx \<Rightarrow> thread_locals \<Rightarrow> proc_ctx \<Rightarrow> thread_locals \<Rightarrow> bool" where
  "outcome taken outs s l s' l' \<longleftrightarrow>
     (case deliver (route_all (lv_sequence l) outs) s l of (sd, ld) \<Rightarrow>
        px_output s' = px_output sd
        \<and> lv_sequence l' = lv_sequence l + of_nat (length (all_outs outs))
        \<and> pst_messages_processed (totals s' l') = pst_messages_processed (totals s l) + of_nat (length taken)
        \<and> pst_output_messages (totals s' l') = pst_output_messages (totals s l) + (lv_outputs ld - lv_outputs l)
        \<and> pst_output_queue_full (totals s' l') = pst_output_queue_full (totals s l) + (lv_queue_full ld - lv_queue_full l)
        \<and> pst_trades_processed (totals s' l') = pst_trades_processed (totals s l) + of_nat (length (filter is_trade (all_outs outs))))"

lemma deliver_input:
  "deliver xs (s\<lparr>px_input := q\<rparr>) l = map_prod (px_input_update (\<lambda>_. q)) id (deliver xs s l)"
  "deliver xs s (l\<lparr>lv_spin_count := a, lv_batches := b\<rparr>) = map_prod id (\<lambda>l'. l'\<lparr>lv_spin_count := a, lv_batches := b\<rparr>) (deliver xs s l)"
  by (simp_all add: deliver_def split_beta Let_def)

lemma batch_phase_outcome:
  assumes q: "queue_ok (px_input s)"
    and b: "engine_batch clock 0 (take 32 (contents (px_input s))) (px_engine s) = Some (outs, e)"
  shows "\<exists>s' l'. batch_phase clock s l = Some (s', l') \<and> px_engine s' = e \<and> queue_ok (px_input s')
     \<and> contents (px_input s') = drop 32 (contents (px_input s)) \<and> outcome (take 32 (contents (px_input s))) outs s l s' l'"
proof -
  obtain batch q' where d: "queue_dequeue_batch (px_input s) PROCESSOR_BATCH_SIZE = (batch, q')" by fastforce
  from queue_dequeue_batch_ok [OF q d] have bq: "batch = take 32 (contents (px_input s))" "queue_ok q'" "contents q' = drop 32 (contents (px_input s))"
    by simp_all
  show ?thesis
  proof (cases "batch = []")
    case True
    with b bq have "outs = []" "e = px_engine s" by simp_all
    with True d bq show ?thesis
      by (simp add: batch_phase_def outcome_def totals_def add_stats_def Let_def)
  next
    case False
    obtain sd ld where dl: "deliver (route_all (lv_sequence l) outs) s l = (sd, ld)" by fastforce
    have fr: "px_processor sd = px_processor s" "lv_messages ld = lv_messages l" "lv_trades ld = lv_trades l" "lv_sequence ld = lv_sequence l"
      using deliver_frame [OF dl] deliver_frame' [OF dl] by simp_all
    have pb: "process_batch clock 0 batch (s\<lparr>px_input := q'\<rparr>) (l\<lparr>lv_spin_count := 0, lv_batches := lv_batches l + 1\<rparr>)
        = Some (sd\<lparr>px_input := q', px_engine := e\<rparr>, count_batch batch outs (ld\<lparr>lv_spin_count := 0, lv_batches := lv_batches l + 1\<rparr>))"
      using b dl by (simp add: process_batch_refines bq(1) deliver_input)
    show ?thesis
      using False d bq(2,3) pb dl fr unfolding bq(1) [symmetric]
      by (simp add: batch_phase_def Let_def outcome_def totals_def add_stats_def store_stats_def reset_counters_def
          count_batch_def count_outs_def algebra_simps)
  qed
qed

lemma route_all_append: "route_all seq (xs @ ys) = route_all seq xs @ route_all (seq + of_nat (length (all_outs xs))) ys"
  by (induction xs arbitrary: seq) (auto simp: add.assoc)

lemma outcome_trans:
  assumes 1: "outcome t1 o1 s l s1 l1" and 2: "outcome t2 o2 s1 l1 s2 l2"
  shows "outcome (t1 @ t2) (o1 @ o2) s l s2 l2"
proof -
  obtain sd ld where d: "deliver (route_all (lv_sequence l) o1) s l = (sd, ld)" by fastforce
  obtain n q where e: "lq.enq_all (px_output s1) (route_all (lv_sequence l1) o2) = (n, q)" by fastforce
  have seq: "lv_sequence l1 = lv_sequence l + of_nat (length (all_outs o1))" and out: "px_output s1 = px_output sd"
    using 1 d by (auto simp: outcome_def)
  define r where "r = route_all (lv_sequence l1) o2"
  have D: "deliver (route_all (lv_sequence l) (o1 @ o2)) s l = (sd\<lparr>px_output := q\<rparr>,
      ld\<lparr>lv_outputs := lv_outputs ld + of_nat n, lv_queue_full := lv_queue_full ld + of_nat (length r - n)\<rparr>)"
    using e d unfolding route_all_append deliver_append seq [symmetric] out r_def [symmetric] by (simp add: deliver_def)
  have D2: "deliver (route_all (lv_sequence l1) o2) s1 l1 = (s1\<lparr>px_output := q\<rparr>,
      l1\<lparr>lv_outputs := lv_outputs l1 + of_nat n, lv_queue_full := lv_queue_full l1 + of_nat (length r - n)\<rparr>)"
    using e by (simp add: deliver_def r_def)
  show ?thesis using 1 2 seq unfolding outcome_def d D D2 by (simp add: all_outs_def algebra_simps)
qed

lemma continue_flush_phase_outcome:
  assumes f: "matching_engine_has_flush_in_progress (en_engine (px_engine s))"
    and c: "matching_engine_continue_flush ((px_engine s)\<lparr>en_out := []\<rparr>) = Some (fin, e1)"
  shows "\<exists>s1 l1. continue_flush_phase s l = Some (fin, s1, l1) \<and> px_engine s1 = e1\<lparr>en_out := []\<rparr> \<and> px_input s1 = px_input s
     \<and> outcome [] [(lv_flush_client_id l, en_out e1)] s l s1 l1"
proof -
  obtain s1 l1 where d: "deliver (routed (lv_flush_client_id l) (lv_sequence l) (en_out e1)) s l = (s1, l1)" by fastforce
  show ?thesis
    using continue_flush_phase_deliver [OF f c d] d deliver_frame [OF d] deliver_frame' [OF d]
    by (simp add: outcome_def totals_def add_stats_def count_outs_def algebra_simps)
qed

theorem processor_iteration_outcome:
  assumes q: "queue_ok (px_input s)"
    and it: "engine_iteration clock (lv_flush_client_id l) (take 32 (contents (px_input s))) (px_engine s) = Some (taken, outs, e)"
  shows "\<exists>s' l'. processor_iteration clock s l = Some (s', l') \<and> px_engine s' = e \<and> queue_ok (px_input s')
     \<and> contents (px_input s) = taken @ contents (px_input s') \<and> outcome taken outs s l s' l'"
proof (cases "matching_engine_has_flush_in_progress (en_engine (px_engine s))")
  case False
  note eit = engine_iteration_simps(1) [OF False, THEN iffD1, OF it]
  note b = eit [THEN conjunct1] and t = eit [THEN conjunct2]
  have "processor_iteration clock s l = batch_phase clock s l"
    using False by (simp add: processor_iteration_def continue_flush_phase_def)
  with batch_phase_outcome [OF q b, of l] show ?thesis unfolding t by (metis append_take_drop_id)
next
  case True
  have "matching_engine_continue_flush ((px_engine s)\<lparr>en_out := []\<rparr>) \<noteq> None"
  proof
    assume "matching_engine_continue_flush ((px_engine s)\<lparr>en_out := []\<rparr>) = None"
    with True it show False by (simp add: engine_iteration_def)
  qed
  then obtain fin e1 where c: "matching_engine_continue_flush ((px_engine s)\<lparr>en_out := []\<rparr>) = Some (fin, e1)" by fast
  from continue_flush_phase_outcome [OF True c, of l] obtain s1 l1 where
    1: "continue_flush_phase s l = Some (fin, s1, l1)" "px_engine s1 = e1\<lparr>en_out := []\<rparr>" "px_input s1 = px_input s"
      "outcome [] [(lv_flush_client_id l, en_out e1)] s l s1 l1" by blast
  show ?thesis
  proof (cases fin)
    case False
    then have "taken = []" "outs = [(lv_flush_client_id l, en_out e1)]" "e = e1\<lparr>en_out := []\<rparr>"
      using engine_iteration_simps(3) [OF True c False, THEN iffD1, OF it] by blast+
    with 1 False q show ?thesis by (simp add: processor_iteration_def)
  next
    case fin: True
    note eit = engine_iteration_simps(2) [OF True c fin, THEN iffD1, OF it]
    then obtain outs' where b: "engine_batch clock 0 (take 32 (contents (px_input s1))) (px_engine s1) = Some (outs', e)"
      and t: "taken = take 32 (contents (px_input s))" "outs = (lv_flush_client_id l, en_out e1) # outs'"
      unfolding 1 by blast
    have "queue_ok (px_input s1)" using q 1 by simp
    from batch_phase_outcome [OF this b, of l1] obtain s' l' where
      2: "batch_phase clock s1 l1 = Some (s', l')" "px_engine s' = e" "queue_ok (px_input s')"
        "contents (px_input s') = drop 32 (contents (px_input s))" "outcome taken outs' s1 l1 s' l'"
      unfolding 1 t by blast
    from outcome_trans [OF 1(4) 2(5)] have "outcome taken outs s l s' l'" by (simp add: t)
    with 1 2 fin show ?thesis by (simp add: processor_iteration_def t(1))
  qed
qed

text \<open>
  A processor in operation: its engine is in a state of an admissible run and both queues are well formed.  An
  iteration takes at most 32 requests and, when the engine can take them, goes through and keeps this.
\<close>

definition proc_ok :: "proc_ctx \<Rightarrow> bool" where
  "proc_ok s \<longleftrightarrow> (\<exists>f. engine_run f (px_engine s)) \<and> queue_ok (px_input s) \<and> queue_ok (px_output s)"

definition next_batch_ok :: "(nat \<Rightarrow> u64) \<Rightarrow> proc_ctx \<Rightarrow> bool" where
  "next_batch_ok clock s =
     (let batch = take 32 (contents (px_input s)) in
      if matching_engine_has_flush_in_progress (en_engine (px_engine s))
      then (case matching_engine_continue_flush ((px_engine s)\<lparr>en_out := []\<rparr>) of
              Some (True, e1) \<Rightarrow> batch_ok clock 0 batch (e1\<lparr>en_out := []\<rparr>)
            | _ \<Rightarrow> True)
      else batch_ok clock 0 batch (px_engine s))"

lemma engine_iteration_defined:
  assumes run: "engine_run f (px_engine s)" and ok: "next_batch_ok clock s"
  shows "\<exists>taken outs e f'. engine_iteration clock c (take 32 (contents (px_input s))) (px_engine s) = Some (taken, outs, e) \<and> engine_run f' e"
proof (cases "matching_engine_has_flush_in_progress (en_engine (px_engine s))")
  case False
  with ok have "batch_ok clock 0 (take 32 (contents (px_input s))) (px_engine s)" by (simp add: next_batch_ok_def)
  from engine_batch_defined [OF run this] show ?thesis using False by (auto simp: engine_iteration_def)
next
  case True
  have r: "engine_run True ((px_engine s)\<lparr>en_out := []\<rparr>)" using engine_run.drain [OF run_phase [OF run]] True by simp
  from run_continue_defined [OF this] obtain fin e1 where
    c: "matching_engine_continue_flush ((px_engine s)\<lparr>en_out := []\<rparr>) = Some (fin, e1)" by blast
  have r1: "engine_run True (e1\<lparr>en_out := []\<rparr>)" by (rule engine_run.drain [OF engine_run.continued [OF r c]])
  show ?thesis
  proof (cases fin)
    case False
    with r1 True c show ?thesis by (auto simp: engine_iteration_def)
  next
    case fin: True
    with ok True c have "batch_ok clock 0 (take 32 (contents (px_input s))) (e1\<lparr>en_out := []\<rparr>)" by (simp add: next_batch_ok_def)
    from engine_batch_defined [OF r1 this] show ?thesis using True c fin by (auto simp: engine_iteration_def)
  qed
qed

theorem processor_iteration_ok:
  assumes ok: "proc_ok s" and b: "next_batch_ok clock s"
  shows "\<exists>s' l' taken outs. processor_iteration clock s l = Some (s', l') \<and> proc_ok s'
     \<and> engine_iteration clock (lv_flush_client_id l) (take 32 (contents (px_input s))) (px_engine s) = Some (taken, outs, px_engine s')
     \<and> contents (px_input s) = taken @ contents (px_input s')
     \<and> contents (px_output s') = contents (px_output s)
         @ take (LOCKFREE_QUEUE_SIZE - 1 - length (contents (px_output s))) (route_all (lv_sequence l) outs)
     \<and> outcome taken outs s l s' l'"
proof -
  from ok obtain f where run: "engine_run f (px_engine s)" and q: "queue_ok (px_input s)" "queue_ok (px_output s)" by (auto simp: proc_ok_def)
  from engine_iteration_defined [OF run b] obtain taken outs e f' where
    it: "engine_iteration clock (lv_flush_client_id l) (take 32 (contents (px_input s))) (px_engine s) = Some (taken, outs, e)" "engine_run f' e"
    by blast
  from processor_iteration_outcome [OF q(1) it(1)] obtain s' l' where
    s': "processor_iteration clock s l = Some (s', l')" "px_engine s' = e" "queue_ok (px_input s')"
      "contents (px_input s) = taken @ contents (px_input s')" "outcome taken outs s l s' l'" by blast
  obtain sd ld where d: "deliver (route_all (lv_sequence l) outs) s l = (sd, ld)" by fastforce
  then have "px_output s' = px_output sd" using s'(5) by (simp add: outcome_def)
  with deliver_contents(1,2) [OF q(2) d] s' it show ?thesis by (auto simp: proc_ok_def)
qed

text \<open>The guard is needed: the thread aborts with the engine, for example on a cancel with a reserved pair of identifiers.\<close>

definition first_fatal :: "(nat \<Rightarrow> u64) \<Rightarrow> input_msg_envelope_t list \<Rightarrow> engine_ctx \<Rightarrow> bool" where
  "first_fatal clock batch e \<longleftrightarrow> \<not> matching_engine_has_flush_in_progress (en_engine e) \<and> (case batch of [] \<Rightarrow> False
     | env # _ \<Rightarrow> matching_engine_process_message (ie_msg env) (ie_client_id env) (clock 0) (e\<lparr>en_out := []\<rparr>) = None)"

lemma first_fatal_cancel:
  "\<not> matching_engine_has_flush_in_progress (en_engine e) \<Longrightarrow> ie_msg env = INPUT_MSG_CANCEL m \<Longrightarrow> \<not> valid_ids (cm_user_id m) (cm_user_order_id m) \<Longrightarrow>
    first_fatal clock (env # batch) e"
  by (simp add: first_fatal_def matching_engine_process_message_def matching_engine_process_cancel_order_def make_order_key_eq)

lemma processor_iteration_fatal:
  assumes q: "queue_ok (px_input s)" and f: "first_fatal clock (contents (px_input s)) (px_engine s)"
  shows "processor_iteration clock s l = None"
proof -
  from f obtain env rest where c: "contents (px_input s) = env # rest" by (auto simp: first_fatal_def split: list.splits)
  obtain batch q' where d: "queue_dequeue_batch (px_input s) PROCESSOR_BATCH_SIZE = (batch, q')" by fastforce
  from queue_dequeue_batch_ok [OF q d] have "batch = env # take 31 rest" by (simp add: c)
  with d f show ?thesis by (simp add: processor_iteration_def continue_flush_phase_def batch_phase_def first_fatal_def c set_out_def Let_def)
qed

section \<open>A client disconnects\<close>

fun addressed :: "u32 \<Rightarrow> u64 \<Rightarrow> output_msg_t list \<Rightarrow> output_msg_envelope_t list" where
  "addressed c seq [] = []"
| "addressed c seq (m # ms) = \<lparr>oe_msg = m, oe_client_id = c, oe_sequence = seq\<rparr> # addressed c (seq + 1) ms"

lemma length_addressed [simp]: "length (addressed c seq ms) = length ms"
  by (induction ms arbitrary: seq) auto

lemma cancel_enqueue_loop_ok:
  assumes "outs_ok ms" and "lq.enq_all (px_output s) (addressed c (seq + i) ms) = (n, q)"
  shows "\<exists>s'. cancel_enqueue_loop ms c seq i s = Some s' \<and> px_output s' = q \<and> px_engine s' = px_engine s \<and> px_input s' = px_input s
     \<and> pr_output_sequence (px_processor s') = pr_output_sequence (px_processor s)
     \<and> pst_output_messages (pr_stats (px_processor s')) = pst_output_messages (pr_stats (px_processor s)) + of_nat n
     \<and> pst_output_queue_full (pr_stats (px_processor s')) = pst_output_queue_full (pr_stats (px_processor s)) + of_nat (length ms - n)"
  using assms
proof (induction ms arbitrary: i s n)
  case (Cons m ms)
  then have m: "formattable m" and ms: "outs_ok ms" by (simp_all add: outs_ok_def)
  obtain b q1 where 1: "queue_enqueue (px_output s) \<lparr>oe_msg = m, oe_client_id = c, oe_sequence = seq + i\<rparr> = (b, q1)" by fastforce
  obtain k q2 where 2: "lq.enq_all q1 (addressed c (seq + (i + 1)) ms) = (k, q2)" by fastforce
  from Cons.prems(2) 1 2 have n: "n = (if b then 1 else 0) + k" "q = q2" by (simp_all add: add.assoc)
  have k: "k \<le> length ms" using enq_all_le [of q1 "addressed c (seq + (i + 1)) ms"] 2 by simp
  define st where "st = pr_stats (px_processor s)"
  define s1 where "s1 = s\<lparr>px_output := q1, px_processor := (px_processor s)\<lparr>pr_stats :=
      (if \<not> b then st\<lparr>pst_output_queue_full := pst_output_queue_full st + 1\<rparr> else st\<lparr>pst_output_messages := pst_output_messages st + 1\<rparr>)\<rparr>\<rparr>"
  have step: "cancel_enqueue_loop (m # ms) c seq i s = cancel_enqueue_loop ms c seq (i + 1) s1"
    using 1 by (simp add: create_output_envelope_ok [OF formattable_valid [OF m]] s1_def st_def Let_def)
  have "lq.enq_all (px_output s1) (addressed c (seq + (i + 1)) ms) = (k, q)" using 2 n by (simp add: s1_def)
  from Cons.IH [OF ms this] show ?case using n k unfolding step by (auto simp: s1_def st_def Suc_diff_le algebra_simps)
qed auto

theorem processor_cancel_client_orders_ok:
  assumes run: "engine_run False (px_engine s)" and q: "queue_ok (px_output s)" and c: "client_id > 0"
  shows "\<exists>s' k e. processor_cancel_client_orders client_id s = Some s'
     \<and> matching_engine_cancel_client_orders client_id ((px_engine s)\<lparr>en_out := []\<rparr>) = Some (k, e)
     \<and> px_engine s' = e\<lparr>en_out := en_out (px_engine s)\<rparr> \<and> engine_run False e \<and> queue_ok (px_output s') \<and> px_input s' = px_input s
     \<and> contents (px_output s') = contents (px_output s)
         @ take (LOCKFREE_QUEUE_SIZE - 1 - length (contents (px_output s)))
             (addressed client_id (pr_output_sequence (px_processor s)) (en_out e))
     \<and> pr_output_sequence (px_processor s') = pr_output_sequence (px_processor s) + of_nat (length (en_out e))"
proof -
  have run0: "engine_run False ((px_engine s)\<lparr>en_out := []\<rparr>)" by (rule engine_run.drain [OF run])
  from run_disconnect_defined [OF this] obtain k e where
    e: "matching_engine_cancel_client_orders client_id ((px_engine s)\<lparr>en_out := []\<rparr>) = Some (k, e)" by blast
  have run': "engine_run False e" by (rule engine_run.disconnect [OF run0 e])
  define xs where "xs = addressed client_id (pr_output_sequence (px_processor s)) (en_out e)"
  obtain n q' where eq: "lq.enq_all (px_output s) xs = (n, q')" by fastforce
  define s1 where "s1 = s\<lparr>px_engine := e\<lparr>en_out := en_out (px_engine s)\<rparr>,
      px_processor := (px_processor s)\<lparr>pr_output_sequence := pr_output_sequence (px_processor s) + of_nat (length (en_out e))\<rparr>\<rparr>"
  have "lq.enq_all (px_output s1) (addressed client_id (pr_output_sequence (px_processor s) + 0) (en_out e)) = (n, q')"
    using eq by (simp add: s1_def xs_def)
  from cancel_enqueue_loop_ok [OF engine_run_outs [OF run'] this] obtain s' where
    s': "cancel_enqueue_loop (en_out e) client_id (pr_output_sequence (px_processor s)) 0 s1 = Some s'" "px_output s' = q'"
      "px_engine s' = px_engine s1" "px_input s' = px_input s1" "pr_output_sequence (px_processor s') = pr_output_sequence (px_processor s1)"
    by blast
  have "processor_cancel_client_orders client_id s = Some s'"
    using c e s'(1) by (simp add: processor_cancel_client_orders_def Let_def s1_def)
  moreover have "queue_ok q'" "contents q' = contents (px_output s) @ take (LOCKFREE_QUEUE_SIZE - 1 - length (contents (px_output s))) xs"
    using lq.enq_all_ok [OF q eq] by (auto simp: min_def)
  ultimately show ?thesis using e run' s'(2-5) by (simp add: s1_def xs_def)
qed

end
