(* ===== verification/ME_Csv_Output.thy ===== *)
theory ME_Csv_Output
  imports ME_Csv ME_Binary
begin

text \<open>
  Responses as text: the formatter of the server (\<^verbatim>\<open>protocol/csv/message_formatter.c\<close>) and the
  client's decoder for the lines it writes (\<^verbatim>\<open>decode_csv_output\<close> of \<^verbatim>\<open>tools/client/codec.c\<close>), with
  \<^verbatim>\<open>strtok_r\<close> and \<^verbatim>\<open>atoi\<close> of the C library, and the codec object of the client that picks between
  the text and the binary encoding.  \<^verbatim>\<open>atoi\<close> of a number that is no \<^verbatim>\<open>int\<close> is undefined, here \<open>None\<close>.
  The conversions used by the formatter cannot fail, so \<^verbatim>\<open>snprintf\<close> never returns a negative number.
\<close>

abbreviation MAX_OUTPUT_LINE_LENGTH :: nat where "MAX_OUTPUT_LINE_LENGTH \<equiv> 512"
abbreviation CODEC_MAX_MESSAGE_SIZE :: nat where "CODEC_MAX_MESSAGE_SIZE \<equiv> 1024"
abbreviation newline :: char where "newline \<equiv> CHR 0x0A"

section \<open>The formatter\<close>

record message_formatter_t =
  mf_buffer :: string

definition message_formatter_init :: "message_formatter_t \<Rightarrow> message_formatter_t option" where
  "message_formatter_init formatter = do {
     let f = formatter\<lparr>mf_buffer := []\<rparr>;
     assert_that (mf_buffer f = []);
     Some f
   }"

text \<open>The text of a message, as the format strings give it.\<close>

definition output_text :: "output_msg_t \<Rightarrow> string" where
  "output_text msg =
     (case msg of
        OUTPUT_MSG_ACK m \<Rightarrow> ''A, '' @ ack_symbol m @ '', '' @ fmt_u (ack_user_id m) @ '', '' @ fmt_u (ack_user_order_id m) @ [newline]
      | OUTPUT_MSG_CANCEL_ACK m \<Rightarrow> ''C, '' @ ca_symbol m @ '', '' @ fmt_u (ca_user_id m) @ '', '' @ fmt_u (ca_user_order_id m) @ [newline]
      | OUTPUT_MSG_TRADE m \<Rightarrow> ''T, '' @ tr_symbol m @ '', '' @ fmt_u (tr_user_id_buy m) @ '', '' @ fmt_u (tr_user_order_id_buy m) @ '', ''
          @ fmt_u (tr_user_id_sell m) @ '', '' @ fmt_u (tr_user_order_id_sell m) @ '', '' @ fmt_u (tr_price m) @ '', ''
          @ fmt_u (tr_quantity m) @ [newline]
      | OUTPUT_MSG_TOP_OF_BOOK m \<Rightarrow>
          (if tob_price m = 0 \<and> tob_total_quantity m = 0
           then ''B, '' @ tob_symbol m @ '', '' @ fmt_c (tob_side m) @ '', -, -'' @ [newline]
           else ''B, '' @ tob_symbol m @ '', '' @ fmt_c (tob_side m) @ '', '' @ fmt_u (tob_price m) @ '', ''
             @ fmt_u (tob_total_quantity m) @ [newline])
      | OUTPUT_MSG_OTHER _ \<Rightarrow> ''UNKNOWN'' @ [newline])"

definition message_formatter_format :: "message_formatter_t \<Rightarrow> output_msg_t \<Rightarrow> (string \<times> message_formatter_t) option" where
  "message_formatter_format formatter msg = do {
     let (written, buffer) = snprintf MAX_OUTPUT_LINE_LENGTH (output_text msg);
     let buffer' = (if written \<ge> MAX_OUTPUT_LINE_LENGTH then take (MAX_OUTPUT_LINE_LENGTH - 1) buffer else buffer);
     assert_that (length buffer' < MAX_OUTPUT_LINE_LENGTH);
     Some (buffer', formatter\<lparr>mf_buffer := buffer'\<rparr>)
   }"

text \<open>The helpers for single messages: the number of characters and the buffer, or \<open>- 1\<close> and an empty buffer.\<close>

definition format_checked :: "nat \<Rightarrow> string \<Rightarrow> (int \<times> string) option" where
  "format_checked buffer_size text = do {
     assert_that (buffer_size > 0);
     let (written, buffer) = snprintf buffer_size text;
     Some (if written \<ge> buffer_size then (-1, []) else (int written, buffer))
   }"

definition format_ack :: "nat \<Rightarrow> ack_msg_t \<Rightarrow> (int \<times> string) option" where
  "format_ack buffer_size msg = format_checked buffer_size
     (''A, '' @ fmt_u (ack_user_id msg) @ '', '' @ fmt_u (ack_user_order_id msg) @ [newline])"

definition format_cancel_ack :: "nat \<Rightarrow> cancel_ack_msg_t \<Rightarrow> (int \<times> string) option" where
  "format_cancel_ack buffer_size msg = format_checked buffer_size
     (''C, '' @ fmt_u (ca_user_id msg) @ '', '' @ fmt_u (ca_user_order_id msg) @ [newline])"

definition format_trade :: "nat \<Rightarrow> trade_msg_t \<Rightarrow> (int \<times> string) option" where
  "format_trade buffer_size msg = format_checked buffer_size
     (''T, '' @ fmt_u (tr_user_id_buy msg) @ '', '' @ fmt_u (tr_user_order_id_buy msg) @ '', '' @ fmt_u (tr_user_id_sell msg) @ '', ''
      @ fmt_u (tr_user_order_id_sell msg) @ '', '' @ fmt_u (tr_price msg) @ '', '' @ fmt_u (tr_quantity msg) @ [newline])"

definition format_top_of_book :: "nat \<Rightarrow> top_of_book_msg_t \<Rightarrow> (int \<times> string) option" where
  "format_top_of_book buffer_size msg = do {
     assert_that (buffer_size > 0);
     eliminated \<leftarrow> top_of_book_is_eliminated msg;
     format_checked buffer_size
       (if eliminated then ''B, '' @ fmt_c (tob_side msg) @ '', -, -'' @ [newline]
        else ''B, '' @ fmt_c (tob_side msg) @ '', '' @ fmt_u (tob_price msg) @ '', '' @ fmt_u (tob_total_quantity msg) @ [newline])
   }"

section \<open>The decoder\<close>

definition strtok_r :: "char \<Rightarrow> string \<Rightarrow> (string \<times> string) option" where
  "strtok_r d s = (let s' = dropWhile (\<lambda>c. c = d) s in
     if s' = [] then None else Some (takeWhile (\<lambda>c. c \<noteq> d) s', drop 1 (dropWhile (\<lambda>c. c \<noteq> d) s')))"

definition atoi :: "string \<Rightarrow> int option" where
  "atoi s =
     (let s1 = dropWhile isspace s;
          neg = (s1 \<noteq> [] \<and> hd s1 = CHR ''-'');
          s2 = (if s1 \<noteq> [] \<and> (hd s1 = CHR ''-'' \<or> hd s1 = CHR ''+'') then tl s1 else s1);
          v = (if neg then - int (fst (read_digits 0 s2)) else int (fst (read_digits 0 s2)))
      in if - (2 ^ 31) \<le> v \<and> v < 2 ^ 31 then Some v else None)"

definition skip_blanks :: "string \<Rightarrow> string" where
  "skip_blanks s = dropWhile (\<lambda>c. c = CHR '' '') s"

definition lead_char :: "string \<Rightarrow> char" where
  "lead_char s = (case s of [] \<Rightarrow> CHR 0x00 | c # _ \<Rightarrow> c)"

text \<open>
  Reading a field: the outer \<open>None\<close> is an undefined conversion, the inner one the absence of a
  token.  \<open>need\<close> is \<^verbatim>\<open>if (!token) return false\<close>.
\<close>

definition need :: "'a option \<Rightarrow> ('a \<Rightarrow> 'b option option) \<Rightarrow> 'b option option" where
  "need x f = (case x of None \<Rightarrow> Some None | Some a \<Rightarrow> f a)"

definition next_uint :: "string \<Rightarrow> (u32 \<Rightarrow> string \<Rightarrow> 'b option option) \<Rightarrow> 'b option option" where
  "next_uint save f = need (strtok_r (CHR '','') save) (\<lambda>(token, save').
     Option.bind (atoi token) (\<lambda>v. f (word_of_int v) save'))"

definition next_symbol :: "nat \<Rightarrow> string \<Rightarrow> (string \<Rightarrow> string \<Rightarrow> 'b option option) \<Rightarrow> 'b option option" where
  "next_symbol dest_size save f = need (strtok_r (CHR '','') save) (\<lambda>(token, save'). f (take (dest_size - 1) (skip_blanks token)) save')"

definition next_price :: "string \<Rightarrow> (u32 \<Rightarrow> string \<Rightarrow> 'b option option) \<Rightarrow> 'b option option" where
  "next_price save f = need (strtok_r (CHR '','') save) (\<lambda>(token, save').
     let token' = skip_blanks token in
     if lead_char token' = CHR ''-'' then f 0 save'
     else Option.bind (atoi token') (\<lambda>v. f (word_of_int v) save'))"

text \<open>The line after the line end is cut off: the type, then the fields of that type.\<close>

definition decode_fields :: "string \<Rightarrow> output_msg_t option option" where
  "decode_fields line =
     need (strtok_r (CHR '','') line) (\<lambda>(token, save).
       let msg_type = lead_char (skip_blanks token) in
       if msg_type = CHR ''A'' then
         next_symbol MAX_SYMBOL_LENGTH save (\<lambda>symbol save1.
         next_uint save1 (\<lambda>user_id save2.
         next_uint save2 (\<lambda>user_order_id save3.
         Some (Some (OUTPUT_MSG_ACK \<lparr>ack_user_id = user_id, ack_user_order_id = user_order_id, ack_symbol = symbol\<rparr>)))))
       else if msg_type = CHR ''C'' then
         next_symbol MAX_SYMBOL_LENGTH save (\<lambda>symbol save1.
         next_uint save1 (\<lambda>user_id save2.
         next_uint save2 (\<lambda>user_order_id save3.
         Some (Some (OUTPUT_MSG_CANCEL_ACK \<lparr>ca_user_id = user_id, ca_user_order_id = user_order_id, ca_symbol = symbol\<rparr>)))))
       else if msg_type = CHR ''T'' then
         next_symbol MAX_SYMBOL_LENGTH save (\<lambda>symbol save1.
         next_uint save1 (\<lambda>user_id_buy save2.
         next_uint save2 (\<lambda>user_order_id_buy save3.
         next_uint save3 (\<lambda>user_id_sell save4.
         next_uint save4 (\<lambda>user_order_id_sell save5.
         next_uint save5 (\<lambda>price save6.
         next_uint save6 (\<lambda>quantity save7.
         Some (Some (OUTPUT_MSG_TRADE \<lparr>tr_user_id_buy = user_id_buy, tr_user_order_id_buy = user_order_id_buy,
           tr_user_id_sell = user_id_sell, tr_user_order_id_sell = user_order_id_sell, tr_price = price, tr_quantity = quantity,
           tr_buy_client_id = 0, tr_sell_client_id = 0, tr_symbol = symbol\<rparr>)))))))))
       else if msg_type = CHR ''B'' then
         next_symbol 15 save (\<lambda>symbol save1.
         need (strtok_r (CHR '','') save1) (\<lambda>(token2, save2).
         next_price save2 (\<lambda>price save3.
         next_price save3 (\<lambda>total_quantity save4.
         Some (Some (OUTPUT_MSG_TOP_OF_BOOK \<lparr>tob_price = price, tob_total_quantity = total_quantity,
           tob_side = of_char (lead_char (skip_blanks token2)), tob_symbol = symbol\<rparr>))))))
       else Some None)"

definition decode_csv_output :: "string \<Rightarrow> output_msg_t option option" where
  "decode_csv_output data =
     (if length data \<ge> 512 then Some None
      else let line = takeWhile (\<lambda>c. c \<noteq> CHR 0x00) data;
               line1 = takeWhile (\<lambda>c. c \<noteq> newline) line;
               line2 = takeWhile (\<lambda>c. c \<noteq> CHR 0x0D) line1
           in decode_fields line2)"

section \<open>The codec of the client\<close>

datatype encoding_type_t = ENCODING_AUTO | ENCODING_BINARY | ENCODING_CSV

record codec_t =
  cd_send_encoding :: encoding_type_t
  cd_detected_encoding :: encoding_type_t
  cd_encoding_detected :: bool
  cd_csv_parser :: message_parser_t
  cd_csv_formatter :: message_formatter_t
  cd_binary_formatter :: binary_message_formatter_t
  cd_encode_buffer :: byte_array
  cd_encode_len :: nat
  cd_messages_encoded :: u64
  cd_messages_decoded :: u64
  cd_decode_errors :: u64

definition codec_init :: "codec_t \<Rightarrow> encoding_type_t \<Rightarrow> codec_t option" where
  "codec_init c send_encoding = do {
     p \<leftarrow> message_parser_init (cd_csv_parser c);
     f \<leftarrow> message_formatter_init (cd_csv_formatter c);
     b \<leftarrow> binary_message_formatter_init \<lparr>bf_buffer = (\<lambda>_. 0)\<rparr>;
     Some \<lparr>cd_send_encoding = (if send_encoding = ENCODING_AUTO then ENCODING_BINARY else send_encoding),
           cd_detected_encoding = ENCODING_AUTO, cd_encoding_detected = False, cd_csv_parser = p, cd_csv_formatter = f,
           cd_binary_formatter = b, cd_encode_buffer = (\<lambda>_. 0), cd_encode_len = 0,
           cd_messages_encoded = 0, cd_messages_decoded = 0, cd_decode_errors = 0\<rparr>
   }"

definition codec_reset :: "codec_t \<Rightarrow> codec_t" where
  "codec_reset c = c\<lparr>cd_detected_encoding := ENCODING_AUTO, cd_encoding_detected := False, cd_messages_encoded := 0,
     cd_messages_decoded := 0, cd_decode_errors := 0\<rparr>"

text \<open>The end of the three encoders: the result is what lies at \<^verbatim>\<open>*out_data\<close>, of length \<^verbatim>\<open>*out_len\<close>.\<close>

definition finish_encode :: "codec_t \<Rightarrow> nat \<times> byte_array \<Rightarrow> u8 list option \<times> codec_t" where
  "finish_encode c r = (case r of (len, buffer) \<Rightarrow>
     (let c1 = c\<lparr>cd_encode_len := len, cd_encode_buffer := buffer\<rparr> in
      if cd_encode_len c1 = 0 then (None, c1)
      else (Some (arr_read (cd_encode_buffer c1) 0 (cd_encode_len c1)), c1\<lparr>cd_messages_encoded := cd_messages_encoded c1 + 1\<rparr>)))"

definition csv_bytes :: "byte_array \<Rightarrow> nat \<times> string \<Rightarrow> nat \<times> byte_array" where
  "csv_bytes buffer r = (fst r, arr_write buffer 0 (map of_char (snd r) @ [0]))"

definition codec_encode_new_order ::
  "codec_t \<Rightarrow> u32 \<Rightarrow> string \<Rightarrow> u32 \<Rightarrow> u32 \<Rightarrow> u8 \<Rightarrow> u32 \<Rightarrow> u8 list option \<times> codec_t" where
  "codec_encode_new_order c user_id symbol price quantity side order_id = finish_encode c
     (if cd_send_encoding c = ENCODING_BINARY
      then encode_binary_new_order (cd_encode_buffer c) user_id symbol price quantity side order_id
      else csv_bytes (cd_encode_buffer c) (encode_csv_new_order CODEC_MAX_MESSAGE_SIZE user_id symbol price quantity side order_id))"

definition codec_encode_cancel :: "codec_t \<Rightarrow> u32 \<Rightarrow> u32 \<Rightarrow> u8 list option \<times> codec_t" where
  "codec_encode_cancel c user_id order_id = finish_encode c
     (if cd_send_encoding c = ENCODING_BINARY
      then encode_binary_cancel (cd_encode_buffer c) user_id order_id
      else csv_bytes (cd_encode_buffer c) (encode_csv_cancel CODEC_MAX_MESSAGE_SIZE user_id order_id))"

definition codec_encode_flush :: "codec_t \<Rightarrow> u8 list option \<times> codec_t" where
  "codec_encode_flush c = finish_encode c
     (if cd_send_encoding c = ENCODING_BINARY
      then encode_binary_flush (cd_encode_buffer c)
      else csv_bytes (cd_encode_buffer c) (encode_csv_flush CODEC_MAX_MESSAGE_SIZE))"

definition codec_detect_encoding :: "u8 list \<Rightarrow> encoding_type_t" where
  "codec_detect_encoding data =
     (if length data = 0 then ENCODING_AUTO
      else if is_binary_message data then ENCODING_BINARY
      else ENCODING_CSV)"

definition codec_decode_response :: "codec_t \<Rightarrow> u8 list \<Rightarrow> (output_msg_t option \<times> codec_t) option" where
  "codec_decode_response c data =
     (if length data = 0 then Some (None, c\<lparr>cd_decode_errors := cd_decode_errors c + 1\<rparr>)
      else do {
        let encoding = codec_detect_encoding data;
        let c1 = (if \<not> cd_encoding_detected c then c\<lparr>cd_detected_encoding := encoding, cd_encoding_detected := True\<rparr> else c);
        r \<leftarrow> (if encoding = ENCODING_BINARY then Some (decode_binary_output data) else decode_csv_output (map byte_char data));
        Some (r, if r \<noteq> None then c1\<lparr>cd_messages_decoded := cd_messages_decoded c1 + 1\<rparr>
                 else c1\<lparr>cd_decode_errors := cd_decode_errors c1 + 1\<rparr>)
      })"

definition codec_format_output :: "codec_t \<Rightarrow> output_msg_t \<Rightarrow> (string \<times> codec_t) option" where
  "codec_format_output c msg = do {
     (text, f) \<leftarrow> message_formatter_format (cd_csv_formatter c) msg;
     Some (text, c\<lparr>cd_csv_formatter := f\<rparr>)
   }"

definition codec_format_input :: "input_msg_t \<Rightarrow> nat \<Rightarrow> nat \<times> string" where
  "codec_format_input msg buffer_size = snprintf buffer_size
     (case msg of
        INPUT_MSG_NEW_ORDER m \<Rightarrow> ''N, '' @ fmt_u (no_user_id m) @ '', '' @ no_symbol m @ '', '' @ fmt_u (no_price m) @ '', ''
          @ fmt_u (no_quantity m) @ '', '' @ fmt_c (no_side m) @ '', '' @ fmt_u (no_user_order_id m)
      | INPUT_MSG_CANCEL m \<Rightarrow> ''C, '' @ fmt_u (cm_user_id m) @ '', '' @ fmt_u (cm_user_order_id m)
      | INPUT_MSG_FLUSH \<Rightarrow> ''F''
      | INPUT_MSG_OTHER _ \<Rightarrow> ''UNKNOWN'')"

definition codec_get_send_encoding :: "codec_t \<Rightarrow> encoding_type_t" where
  "codec_get_send_encoding c = cd_send_encoding c"

definition codec_get_detected_encoding :: "codec_t \<Rightarrow> encoding_type_t" where
  "codec_get_detected_encoding c = cd_detected_encoding c"

definition codec_is_encoding_detected :: "codec_t \<Rightarrow> bool" where
  "codec_is_encoding_detected c = cd_encoding_detected c"

definition output_msg_type_str :: "u8 \<Rightarrow> string" where
  "output_msg_type_str t = (if t = 0 then ''ACK'' else if t = 1 then ''CANCEL_ACK'' else if t = 2 then ''TRADE''
     else if t = 3 then ''TOP_OF_BOOK'' else ''UNKNOWN'')"

section \<open>Reading back what was written\<close>

lemma strtok_r_field:
  assumes "CHR '','' \<notin> set w"
  shows "strtok_r (CHR '','') (CHR '' '' # w @ CHR '','' # r) = Some (CHR '' '' # w, r)"
    and "strtok_r (CHR '','') (CHR '' '' # w) = Some (CHR '' '' # w, [])"
proof -
  have *: "\<forall>c\<in>set w. c \<noteq> CHR '',''" using assms by auto
  then have "takeWhile (\<lambda>c. c \<noteq> CHR '','') w = w" "dropWhile (\<lambda>c. c \<noteq> CHR '','') w = []"
    by (simp_all add: takeWhile_eq_all_conv dropWhile_eq_Nil_conv)
  with * show "strtok_r (CHR '','') (CHR '' '' # w @ CHR '','' # r) = Some (CHR '' '' # w, r)"
    and "strtok_r (CHR '','') (CHR '' '' # w) = Some (CHR '' '' # w, [])"
    unfolding strtok_r_def Let_def by (simp_all add: takeWhile_append2 dropWhile_append2 del: dropWhile_eq_Nil_conv)
qed

lemma fmt_u_comma: "CHR '','' \<notin> set (fmt_u x)"
  using fmt_u_chars by blast

lemma dropWhile_fmt_u: "dropWhile isspace (fmt_u x) = fmt_u x"
  using fmt_u_chars [of "hd (fmt_u x)" x] by (cases "fmt_u x") auto

lemma hd_fmt_u: "\<exists>d<10. hd (fmt_u x) = digit_char d"
  using show_nat_chars [of "hd (fmt_u x)" "unat x"] by (simp add: fmt_u_def show_nat_ne)

lemma atoi_fmt_u:
  assumes "unat x < 2 ^ 31"
  shows "atoi (fmt_u x) = Some (int (unat x))" and "atoi (CHR '' '' # fmt_u x) = Some (int (unat x))"
proof -
  obtain d where d: "d < 10" "hd (fmt_u x) = digit_char d" using hd_fmt_u by blast
  have r: "read_digits 0 (fmt_u x) = (unat x, [])" using read_show_nat [of 0 "unat x" "[]"] by (simp add: fmt_u_def)
  have "isspace (CHR '' '')" by (simp add: isspace_def)
  then have w: "dropWhile isspace (CHR '' '' # fmt_u x) = fmt_u x" by (simp add: dropWhile_fmt_u)
  have i: "int (unat x) < 2 ^ 31" using assms by (metis of_nat_less_iff of_nat_numeral of_nat_power)
  have "- (2 ^ 31) \<le> int (unat x)" by (rule order_trans [of _ 0]) simp_all
  with i show "atoi (fmt_u x) = Some (int (unat x))" "atoi (CHR '' '' # fmt_u x) = Some (int (unat x))"
    using d digit_facts [OF d(1)] unfolding atoi_def w dropWhile_fmt_u Let_def by (simp_all add: r)
qed

lemma word_of_unat: "word_of_int (int (unat x)) = x" for x :: u32
  by simp

lemma next_uint_fmt_u:
  assumes "unat x < 2 ^ 31"
  shows "next_uint (CHR '' '' # fmt_u x @ CHR '','' # r) f = f x r" and "next_uint (CHR '' '' # fmt_u x) f = f x []"
  by (simp_all add: next_uint_def need_def strtok_r_field [OF fmt_u_comma] atoi_fmt_u(2) [OF assms])

lemma skip_blanks_fmt_u: "skip_blanks (CHR '' '' # fmt_u x) = fmt_u x"
  using fmt_u_chars [of "hd (fmt_u x)" x] by (cases "fmt_u x") (auto simp: skip_blanks_def isspace_def)

lemma lead_char_fmt_u: "lead_char (fmt_u x) \<noteq> CHR ''-''"
  using fmt_u_chars [of "hd (fmt_u x)" x] by (cases "fmt_u x") (auto simp: lead_char_def)

lemma next_price_fmt_u:
  assumes "unat x < 2 ^ 31"
  shows "next_price (CHR '' '' # fmt_u x @ CHR '','' # r) f = f x r" and "next_price (CHR '' '' # fmt_u x) f = f x []"
  by (simp_all add: next_price_def need_def strtok_r_field [OF fmt_u_comma] skip_blanks_fmt_u lead_char_fmt_u atoi_fmt_u(1) [OF assms] Let_def)

lemma next_price_dash: "next_price (CHR '' '' # CHR ''-'' # CHR '','' # r) f = f 0 r" "next_price '' -'' f = f 0 []"
  using strtok_r_field [of "''-''"] by (simp_all add: next_price_def need_def skip_blanks_def lead_char_def)

text \<open>A symbol that survives: no separator or line end, no leading blank, and short enough for the field.\<close>

definition plain_symbol :: "nat \<Rightarrow> string \<Rightarrow> bool" where
  "plain_symbol n s \<longleftrightarrow> {CHR '','', CHR 0x00, newline, CHR 0x0D} \<inter> set s = {} \<and> (s \<noteq> [] \<longrightarrow> hd s \<noteq> CHR '' '') \<and> length s < n"

lemma next_symbol_plain:
  assumes "plain_symbol n s"
  shows "next_symbol n (CHR '' '' # s @ CHR '','' # r) f = f s r"
proof -
  have "CHR '','' \<notin> set s" "length s \<le> n - 1" using assms by (auto simp: plain_symbol_def)
  moreover have "skip_blanks (CHR '' '' # s) = s" using assms by (cases s) (auto simp: plain_symbol_def skip_blanks_def)
  ultimately show ?thesis by (simp add: next_symbol_def need_def strtok_r_field)
qed

definition line_char :: "char \<Rightarrow> bool" where
  "line_char c \<longleftrightarrow> c \<noteq> CHR 0x00 \<and> c \<noteq> newline \<and> c \<noteq> CHR 0x0D"

lemma strip_line:
  assumes "\<forall>c\<in>set body. line_char c"
  shows "takeWhile (\<lambda>c. c \<noteq> CHR 0x0D) (takeWhile (\<lambda>c. c \<noteq> newline) (takeWhile (\<lambda>c. c \<noteq> CHR 0x00) (body @ [newline]))) = body"
proof -
  have "takeWhile (\<lambda>c. c \<noteq> CHR 0x00) (body @ [newline]) = body @ [newline]"
    using assms by (auto simp: takeWhile_eq_all_conv line_char_def)
  moreover have "takeWhile (\<lambda>c. c \<noteq> newline) (body @ [newline]) = body"
    using assms by (simp add: takeWhile_append2 line_char_def)
  moreover have "takeWhile (\<lambda>c. c \<noteq> CHR 0x0D) body = body"
    using assms by (simp add: takeWhile_eq_all_conv line_char_def)
  ultimately show ?thesis by simp
qed

lemma line_char_fmt_u: "\<forall>c\<in>set (fmt_u x). line_char c"
proof
  fix c assume "c \<in> set (fmt_u x)"
  then obtain d where d: "d < 10" "c = digit_char d" using show_nat_chars by (auto simp: fmt_u_def)
  then have "(of_char c :: nat) = 48 + d" by (simp add: of_char_digit_char)
  then show "line_char c" unfolding line_char_def by (intro conjI char_code_neq) simp_all
qed

text \<open>
  The messages the client reads back: the numbers are below \<open>2 ^ 31\<close>, where \<^verbatim>\<open>atoi\<close> is defined, and the
  symbol fits the field; the two client identifiers of a trade are not sent.
\<close>

definition csv_decodable :: "output_msg_t \<Rightarrow> bool" where
  "csv_decodable msg = (case msg of
     OUTPUT_MSG_ACK m \<Rightarrow> plain_symbol MAX_SYMBOL_LENGTH (ack_symbol m) \<and> unat (ack_user_id m) < 2 ^ 31 \<and> unat (ack_user_order_id m) < 2 ^ 31
   | OUTPUT_MSG_CANCEL_ACK m \<Rightarrow> plain_symbol MAX_SYMBOL_LENGTH (ca_symbol m) \<and> unat (ca_user_id m) < 2 ^ 31 \<and> unat (ca_user_order_id m) < 2 ^ 31
   | OUTPUT_MSG_TRADE m \<Rightarrow> plain_symbol MAX_SYMBOL_LENGTH (tr_symbol m) \<and> unat (tr_user_id_buy m) < 2 ^ 31 \<and> unat (tr_user_order_id_buy m) < 2 ^ 31
       \<and> unat (tr_user_id_sell m) < 2 ^ 31 \<and> unat (tr_user_order_id_sell m) < 2 ^ 31 \<and> unat (tr_price m) < 2 ^ 31 \<and> unat (tr_quantity m) < 2 ^ 31
   | OUTPUT_MSG_TOP_OF_BOOK m \<Rightarrow> plain_symbol 15 (tob_symbol m) \<and> side_is_valid (tob_side m) \<and> unat (tob_price m) < 2 ^ 31
       \<and> unat (tob_total_quantity m) < 2 ^ 31
   | OUTPUT_MSG_OTHER _ \<Rightarrow> False)"

definition csv_msg :: "output_msg_t \<Rightarrow> output_msg_t" where
  "csv_msg msg = (case msg of OUTPUT_MSG_TRADE m \<Rightarrow> OUTPUT_MSG_TRADE (m\<lparr>tr_buy_client_id := 0, tr_sell_client_id := 0\<rparr>) | _ \<Rightarrow> msg)"

text \<open>The line without its end, in the form the decoder takes apart.\<close>

definition output_fields :: "output_msg_t \<Rightarrow> string list" where
  "output_fields msg = (case msg of
     OUTPUT_MSG_ACK m \<Rightarrow> [''A'', ack_symbol m, fmt_u (ack_user_id m), fmt_u (ack_user_order_id m)]
   | OUTPUT_MSG_CANCEL_ACK m \<Rightarrow> [''C'', ca_symbol m, fmt_u (ca_user_id m), fmt_u (ca_user_order_id m)]
   | OUTPUT_MSG_TRADE m \<Rightarrow> [''T'', tr_symbol m, fmt_u (tr_user_id_buy m), fmt_u (tr_user_order_id_buy m),
       fmt_u (tr_user_id_sell m), fmt_u (tr_user_order_id_sell m), fmt_u (tr_price m), fmt_u (tr_quantity m)]
   | OUTPUT_MSG_TOP_OF_BOOK m \<Rightarrow>
       (if tob_price m = 0 \<and> tob_total_quantity m = 0 then [''B'', tob_symbol m, fmt_c (tob_side m), ''-'', ''-'']
        else [''B'', tob_symbol m, fmt_c (tob_side m), fmt_u (tob_price m), fmt_u (tob_total_quantity m)])
   | OUTPUT_MSG_OTHER _ \<Rightarrow> [''UNKNOWN''])"

lemma output_text_fields: "output_text msg = csv_line (output_fields msg) @ [newline]"
  by (cases msg) (simp_all add: output_text_def output_fields_def csv_line_def)

definition field_ok :: "string \<Rightarrow> bool" where
  "field_ok t \<longleftrightarrow> (\<forall>c\<in>set t. line_char c) \<and> length t < MAX_SYMBOL_LENGTH"

lemma field_ok_simps [simp]:
  "field_ok (fmt_u x)" "field_ok ''A''" "field_ok ''B''" "field_ok ''C''" "field_ok ''T''" "field_ok ''-''"
  using line_char_fmt_u length_fmt_u [of x] by (auto simp: field_ok_def line_char_def)

lemma field_ok_plain: "plain_symbol n s \<Longrightarrow> n \<le> MAX_SYMBOL_LENGTH \<Longrightarrow> field_ok s"
  by (auto simp: field_ok_def plain_symbol_def line_char_def)

lemma field_ok_side: "side_is_valid sd \<Longrightarrow> field_ok (fmt_c sd)"
  using fmt_c_side by (auto simp: side_is_valid_def field_ok_def line_char_def)

lemma line_char_sep: "line_char (CHR '','')" "line_char (CHR '' '')"
  by (simp_all add: line_char_def)

lemma set_join_tokens: "set (join_tokens d us) \<subseteq> insert d (\<Union>t\<in>set us. set t)"
  by (induction us rule: induct_list012) auto

lemma set_spaced: "t \<in> set (spaced ts) \<Longrightarrow> \<exists>u\<in>set ts. set t \<subseteq> insert (CHR '' '') (set u)"
  by (cases ts) auto

lemma csv_line_chars:
  assumes "\<forall>t\<in>set ts. field_ok t" and "c \<in> set (csv_line ts)"
  shows "line_char c"
proof (cases "c = CHR '',''")
  case False
  with assms(2) obtain t where t: "t \<in> set (spaced ts)" "c \<in> set t" using set_join_tokens unfolding csv_line_def by fast
  from set_spaced [OF t(1)] obtain u where "u \<in> set ts" "set t \<subseteq> insert (CHR '' '') (set u)" by blast
  with t(2) assms(1) show ?thesis using line_char_sep(2) unfolding field_ok_def by blast
qed (simp add: line_char_sep)

lemma output_fields_ok:
  assumes "csv_decodable msg"
  shows "\<forall>t\<in>set (output_fields msg). field_ok t"
proof (cases msg)
  case (OUTPUT_MSG_TOP_OF_BOOK m)
  then have "field_ok (tob_symbol m)" "field_ok (fmt_c (tob_side m))"
    using assms field_ok_plain [of 15] field_ok_side by (auto simp: csv_decodable_def)
  with OUTPUT_MSG_TOP_OF_BOOK show ?thesis by (simp add: output_fields_def)
qed (use assms field_ok_plain [of MAX_SYMBOL_LENGTH] in \<open>simp_all add: csv_decodable_def output_fields_def\<close>)

lemma sum_list_bound: "\<forall>x\<in>set xs. f x \<le> (k :: nat) \<Longrightarrow> sum_list (map f xs) \<le> length xs * k"
  by (induction xs) auto

lemma length_output_text:
  assumes "csv_decodable msg"
  shows "length (output_text msg) < 200"
proof -
  have "\<forall>t\<in>set (output_fields msg). length t + 2 \<le> 17" using output_fields_ok [OF assms] by (auto simp: field_ok_def)
  from sum_list_bound [OF this] have "sum_list (map (\<lambda>t. length t + 2) (output_fields msg)) \<le> length (output_fields msg) * 17" .
  moreover have "length (output_fields msg) \<le> 8" by (cases msg) (simp_all add: output_fields_def)
  ultimately show ?thesis using length_csv_line [of "output_fields msg"] by (simp add: output_text_fields)
qed

lemma strtok_r_type: "c \<noteq> CHR '','' \<Longrightarrow> strtok_r (CHR '','') (c # CHR '','' # r) = Some ([c], r)"
  by (simp add: strtok_r_def)

lemma first_type: "lead_char (skip_blanks [c]) = (if c = CHR '' '' then CHR 0x00 else c)"
  by (simp add: lead_char_def skip_blanks_def)

lemma side_token:
  assumes "side_is_valid sd"
  shows "strtok_r (CHR '','') (CHR '' '' # fmt_c sd @ CHR '','' # r) = Some (CHR '' '' # fmt_c sd, r)"
    and "of_char (lead_char (skip_blanks (CHR '' '' # fmt_c sd))) = sd"
proof -
  have "fmt_c sd = ''B'' \<or> fmt_c sd = ''S''" using assms fmt_c_side by (auto simp: side_is_valid_def)
  then show "strtok_r (CHR '','') (CHR '' '' # fmt_c sd @ CHR '','' # r) = Some (CHR '' '' # fmt_c sd, r)"
    by (intro strtok_r_field(1)) auto
  from \<open>fmt_c sd = ''B'' \<or> fmt_c sd = ''S''\<close> have "lead_char (skip_blanks (CHR '' '' # fmt_c sd)) = byte_char sd"
    by (auto simp: lead_char_def skip_blanks_def fmt_c_def)
  then show "of_char (lead_char (skip_blanks (CHR '' '' # fmt_c sd))) = sd" by simp
qed

lemmas decode_csv_line = next_symbol_plain next_uint_fmt_u next_price_fmt_u next_price_dash strtok_r_type first_type side_token
  need_def csv_line_def output_fields_def csv_decodable_def csv_msg_def decode_fields_def

lemma decode_csv_output_line:
  assumes "csv_decodable msg"
  shows "decode_csv_output (output_text msg) = Some (Some (csv_msg msg))"
proof -
  have n: "\<not> length (output_text msg) \<ge> 512" using length_output_text [OF assms] by simp
  have strip: "takeWhile (\<lambda>c. c \<noteq> CHR 0x0D) (takeWhile (\<lambda>c. c \<noteq> newline) (takeWhile (\<lambda>c. c \<noteq> CHR 0x00) (output_text msg))) = csv_line (output_fields msg)"
    unfolding output_text_fields by (rule strip_line) (use csv_line_chars [OF output_fields_ok [OF assms]] in blast)
  have d: "decode_csv_output (output_text msg) = decode_fields (csv_line (output_fields msg))"
    unfolding decode_csv_output_def decode_fields_def Let_def strip using n by simp
  show ?thesis unfolding d
  proof (cases msg)
    case (OUTPUT_MSG_TOP_OF_BOOK m)
    with assms show "decode_fields (csv_line (output_fields msg)) = Some (Some (csv_msg msg))"
      by (cases m) (simp add: decode_csv_line)
  qed (use assms in \<open>simp_all add: decode_csv_line\<close>)
qed

lemma message_formatter_format_total: "\<exists>text f'. message_formatter_format f msg = Some (text, f') \<and> length text < MAX_OUTPUT_LINE_LENGTH"
  by (simp add: message_formatter_format_def snprintf_def Let_def)

lemma message_formatter_format_fits:
  assumes "csv_decodable msg"
  shows "message_formatter_format f msg = Some (output_text msg, f\<lparr>mf_buffer := output_text msg\<rparr>)"
  using length_output_text [OF assms] by (simp add: message_formatter_format_def snprintf_def Let_def)

text \<open>Every response is decoded under the encoding it was sent in, whatever the codec was told to send.\<close>

definition saw :: "encoding_type_t \<Rightarrow> codec_t \<Rightarrow> codec_t" where
  "saw enc c = (if cd_encoding_detected c then c else c\<lparr>cd_detected_encoding := enc, cd_encoding_detected := True\<rparr>)
     \<lparr>cd_messages_decoded := cd_messages_decoded c + 1\<rparr>"

lemma output_text_hd: "csv_decodable msg \<Longrightarrow> output_text msg \<noteq> [] \<and> hd (output_text msg) \<noteq> CHR ''M''"
  by (cases msg) (simp_all add: output_text_def csv_decodable_def)

lemma codec_decode_csv:
  assumes "csv_decodable msg"
  shows "codec_decode_response c (map of_char (output_text msg)) = Some (Some (csv_msg msg), saw ENCODING_CSV c)"
proof -
  have h: "output_text msg \<noteq> []" "hd (output_text msg) \<noteq> CHR ''M''" using output_text_hd [OF assms] by simp_all
  have "of_char (CHR ''M'') = BINARY_MAGIC" by simp
  then have "byte_char BINARY_MAGIC = CHR ''M''" by (metis byte_char_of_char)
  then have "of_char (hd (output_text msg)) \<noteq> BINARY_MAGIC" using h(2) by (metis byte_char_of_char)
  with h(1) have "map of_char (output_text msg) ! 0 \<noteq> BINARY_MAGIC" by (cases "output_text msg") simp_all
  then have "codec_detect_encoding (map of_char (output_text msg)) = ENCODING_CSV"
    using h(1) by (simp add: codec_detect_encoding_def is_binary_message_def)
  with h(1) show ?thesis by (simp add: codec_decode_response_def decode_csv_output_line [OF assms] saw_def Let_def del: map_map)
qed

lemma codec_decode_binary:
  assumes "formattable msg"
  shows "\<exists>bs f'. binary_message_formatter_format f msg = Some (Some bs, f')
     \<and> codec_decode_response c bs = Some (Some (wire_msg msg), saw ENCODING_BINARY c)"
proof -
  from format_decode [OF assms, of f] obtain bs f' where
    bs: "binary_message_formatter_format f msg = Some (Some bs, f')" "decode_binary_output bs = Some (wire_msg msg)" by blast
  then have "2 \<le> length bs" "bs ! 0 = BINARY_MAGIC" by (auto simp: decode_binary_output_def Let_def split: if_splits)
  then have "codec_detect_encoding bs = ENCODING_BINARY" "length bs \<noteq> 0" by (auto simp: codec_detect_encoding_def is_binary_message_def)
  with bs show ?thesis by (simp add: codec_decode_response_def saw_def Let_def)
qed

text \<open>A request goes out in the encoding of the codec, and the parser for that encoding gives it back.\<close>

definition server_reads :: "encoding_type_t \<Rightarrow> message_parser_t \<Rightarrow> u8 list \<Rightarrow> input_msg_t option option" where
  "server_reads enc p bs = (if enc = ENCODING_BINARY then binary_message_parser_parse bs
     else map_option fst (message_parser_parse p (map byte_char bs)))"

lemma csv_bytes_read:
  assumes "n \<le> length b"
  shows "map byte_char (arr_read (snd (csv_bytes buffer (n, b))) 0 n) = take n b"
  using assms by (intro nth_equalityI) (auto simp: csv_bytes_def arr_write_def nth_append)

lemma finish_encode_ok: "0 < n \<Longrightarrow> fst (finish_encode c (n, buffer)) = Some (arr_read buffer 0 n)"
  by (simp add: finish_encode_def)

lemma finish_encode_csv:
  assumes "r = (n, b)" and "0 < n" and "n \<le> length b"
  shows "\<exists>bs. fst (finish_encode c (csv_bytes buffer r)) = Some bs \<and> map byte_char bs = take n b"
  using assms csv_bytes_read [of n b buffer] finish_encode_ok [of n c] by (simp add: csv_bytes_def)

lemma encode_csv_len:
  "encode_csv_new_order bs u s p q sd i = (n, b) \<Longrightarrow> 0 < n \<Longrightarrow> n \<le> length b"
  "encode_csv_cancel bs u i = (n, b) \<Longrightarrow> 0 < n \<Longrightarrow> n \<le> length b"
  "encode_csv_flush bs = (n, b) \<Longrightarrow> 0 < n \<Longrightarrow> n \<le> length b"
  by (auto simp: encode_csv_new_order_def encode_csv_cancel_def encode_csv_flush_def snprintf_def encoded_len_def split: if_splits)

lemma codec_encode_new_order_ok:
  assumes sym: "csv_symbol symbol" "c_string symbol" "length symbol \<le> 8" and side: "side_is_valid side" and q: "quantity \<noteq> 0"
  shows "\<exists>bs. fst (codec_encode_new_order c user_id symbol price quantity side order_id) = Some bs
     \<and> server_reads (cd_send_encoding c) p bs = Some (Some (INPUT_MSG_NEW_ORDER
         \<lparr>no_user_id = user_id, no_user_order_id = order_id, no_price = price, no_quantity = quantity, no_side = side, no_symbol = symbol\<rparr>))"
proof (cases "cd_send_encoding c = ENCODING_BINARY")
  case True
  obtain n b where e: "encode_binary_new_order (cd_encode_buffer c) user_id symbol price quantity side order_id = (n, b)" by fastforce
  then have "0 < n" by (auto simp: encode_binary_new_order_def Let_def)
  with True e new_order_roundtrip [OF sym(2,3) side q e] show ?thesis
    by (simp add: codec_encode_new_order_def finish_encode_ok server_reads_def)
next
  case False
  obtain n b p' where e: "encode_csv_new_order CODEC_MAX_MESSAGE_SIZE user_id symbol price quantity side order_id = (n, b)" "0 < n"
    "message_parser_parse p (take n b) = Some (Some (INPUT_MSG_NEW_ORDER
         \<lparr>no_user_id = user_id, no_user_order_id = order_id, no_price = price, no_quantity = quantity, no_side = side, no_symbol = symbol\<rparr>), p')"
    using csv_new_order_roundtrip [OF sym(1) side q, of CODEC_MAX_MESSAGE_SIZE user_id price order_id p] by auto
  from finish_encode_csv [OF e(1,2) encode_csv_len(1) [OF e(1,2)], of c "cd_encode_buffer c"] e(3) False show ?thesis
    by (auto simp: codec_encode_new_order_def server_reads_def)
qed

lemma codec_encode_cancel_ok:
  assumes "user_id \<noteq> 0"
  shows "\<exists>bs. fst (codec_encode_cancel c user_id order_id) = Some bs
     \<and> server_reads (cd_send_encoding c) p bs = Some (Some (INPUT_MSG_CANCEL \<lparr>cm_user_id = user_id, cm_user_order_id = order_id, cm_symbol = []\<rparr>))"
proof (cases "cd_send_encoding c = ENCODING_BINARY")
  case True
  obtain n b where e: "encode_binary_cancel (cd_encode_buffer c) user_id order_id = (n, b)" by fastforce
  then have "0 < n" by (auto simp: encode_binary_cancel_def Let_def)
  with True e cancel_roundtrip [OF e] show ?thesis by (simp add: codec_encode_cancel_def finish_encode_ok server_reads_def)
next
  case False
  obtain n b p' where e: "encode_csv_cancel CODEC_MAX_MESSAGE_SIZE user_id order_id = (n, b)" "0 < n"
    "message_parser_parse p (take n b) = Some (Some (INPUT_MSG_CANCEL \<lparr>cm_user_id = user_id, cm_user_order_id = order_id, cm_symbol = []\<rparr>), p')"
    using csv_cancel_roundtrip [of CODEC_MAX_MESSAGE_SIZE user_id order_id p] assms by auto
  from finish_encode_csv [OF e(1,2) encode_csv_len(2) [OF e(1,2)], of c "cd_encode_buffer c"] e(3) False show ?thesis
    by (auto simp: codec_encode_cancel_def server_reads_def)
qed

lemma codec_encode_flush_ok:
  "\<exists>bs. fst (codec_encode_flush c) = Some bs \<and> server_reads (cd_send_encoding c) p bs = Some (Some INPUT_MSG_FLUSH)"
proof (cases "cd_send_encoding c = ENCODING_BINARY")
  case True
  obtain n b where e: "encode_binary_flush (cd_encode_buffer c) = (n, b)" by fastforce
  then have "0 < n" by (auto simp: encode_binary_flush_def Let_def)
  with True e flush_roundtrip [OF e] show ?thesis by (simp add: codec_encode_flush_def finish_encode_ok server_reads_def)
next
  case False
  obtain n b p' where e: "encode_csv_flush CODEC_MAX_MESSAGE_SIZE = (n, b)" "0 < n"
    "message_parser_parse p (take n b) = Some (Some INPUT_MSG_FLUSH, p')"
    using csv_flush_roundtrip [of CODEC_MAX_MESSAGE_SIZE p] by auto
  from finish_encode_csv [OF e(1,2) encode_csv_len(3) [OF e(1,2)], of c "cd_encode_buffer c"] e(3) False show ?thesis
    by (auto simp: codec_encode_flush_def server_reads_def)
qed

end
