(* ===== verification/ME_Unified.thy ===== *)
theory ME_Unified
  imports ME_Processor ME_Registry ME_Csv_Output ME_Framing
begin

text \<open>
  The unified server, input side (\<^verbatim>\<open>include/modes/unified_mode.h\<close>, \<^verbatim>\<open>modes/unified_internal.h\<close>, and of
  \<^verbatim>\<open>modes/unified_mode.c\<close>, \<^verbatim>\<open>unified_tcp.c\<close> and \<^verbatim>\<open>unified_udp.c\<close> everything between a received block of bytes
  and the input queues of the processors): the map from users to clients, the choice of the
  processor, the detection of the protocol, the three ways a TCP stream is cut into messages,
  and the messages of a datagram.  \<open>unified_server_t\<close> holds the structure with what its pointers
  refer to, except the engines and pools, which belong to the processors.  \<open>us_wire\<close> is the trace of what
  was given to the operating system to send, with the result of the call.  Debug counters and
  printing are left out.
\<close>

abbreviation MAX_USER_ID_MAPPINGS :: nat where "MAX_USER_ID_MAPPINGS \<equiv> 65536"
abbreviation TCP_RECV_BUFFER_SIZE :: nat where "TCP_RECV_BUFFER_SIZE \<equiv> 65536"
abbreviation MAX_UDP_PACKET_SIZE :: nat where "MAX_UDP_PACKET_SIZE \<equiv> 65507"

record unified_config_t =
  uc_tcp_port :: u16
  uc_udp_port :: u16
  uc_multicast_port :: u16
  uc_multicast_group :: "string option"
  uc_single_processor :: bool
  uc_quiet_mode :: bool
  uc_binary_default :: bool
  uc_disable_tcp :: bool
  uc_disable_udp :: bool
  uc_disable_multicast :: bool

definition unified_config_init :: "unified_config_t \<Rightarrow> unified_config_t" where
  "unified_config_init config = config\<lparr>uc_tcp_port := 1234, uc_udp_port := 1235, uc_multicast_port := 1236,
     uc_multicast_group := Some ''239.255.0.1'', uc_single_processor := False, uc_quiet_mode := False, uc_binary_default := False,
     uc_disable_tcp := False, uc_disable_udp := False, uc_disable_multicast := False\<rparr>"

record user_client_mapping_t =
  um_user_id :: u32
  um_client_id :: u32
  um_active :: bool

type_synonym user_client_map_t = "nat \<Rightarrow> user_client_mapping_t"

datatype dest = To_tcp int | To_udp udp_client_addr_t | To_multicast

record unified_server_t =
  us_config :: unified_config_t
  us_input_queue_0 :: "input_msg_envelope_t queue_t"
  us_input_queue_1 :: "input_msg_envelope_t queue_t option"
  us_output_queue_0 :: "output_msg_envelope_t queue_t"
  us_output_queue_1 :: "output_msg_envelope_t queue_t option"
  us_registry :: client_registry_t
  us_user_map :: user_client_map_t
  us_udp_fd :: int
  us_multicast_fd :: int
  us_bin_formatter :: binary_message_formatter_t
  us_csv_formatter :: message_formatter_t
  us_tcp_messages_received :: u64
  us_udp_messages_received :: u64
  us_messages_routed :: u64
  us_multicast_messages :: u64
  us_tob_broadcasts :: u64
  us_wire :: "(dest \<times> u8 list \<times> int) list"

section \<open>Users and clients\<close>

definition user_client_map_init :: "user_client_map_t \<Rightarrow> user_client_map_t" where
  "user_client_map_init umap = (\<lambda>_. \<lparr>um_user_id = 0, um_client_id = 0, um_active = False\<rparr>)"

definition user_client_map_set :: "user_client_map_t \<Rightarrow> u32 \<Rightarrow> u32 \<Rightarrow> user_client_map_t" where
  "user_client_map_set umap user_id client_id =
     (if user_id = 0 then umap
      else let slot = unat user_id mod MAX_USER_ID_MAPPINGS in
        umap(slot := (umap slot)\<lparr>um_user_id := user_id, um_client_id := client_id, um_active := True\<rparr>))"

definition user_client_map_get :: "user_client_map_t \<Rightarrow> u32 \<Rightarrow> u32" where
  "user_client_map_get umap user_id =
     (if user_id = 0 then 0
      else let slot = unat user_id mod MAX_USER_ID_MAPPINGS in
        if um_active (umap slot) \<and> um_user_id (umap slot) = user_id then um_client_id (umap slot) else 0)"

section \<open>Routing a request\<close>

definition unified_detect_protocol :: "u8 list \<Rightarrow> client_protocol_t" where
  "unified_detect_protocol data =
     (if length data = 0 then CLIENT_PROTOCOL_UNKNOWN
      else if data ! 0 = BINARY_MAGIC then CLIENT_PROTOCOL_BINARY
      else if data ! 0 = of_char (CHR ''N'') \<or> data ! 0 = of_char (CHR ''C'') \<or> data ! 0 = of_char (CHR ''F'') then CLIENT_PROTOCOL_CSV
      else CLIENT_PROTOCOL_UNKNOWN)"

text \<open>The symbol is \<open>None\<close> for a null pointer.\<close>

definition get_processor_for_symbol :: "string option \<Rightarrow> int" where
  "get_processor_for_symbol symbol =
     (case symbol of
        None \<Rightarrow> 0
      | Some s \<Rightarrow>
          if s = [] \<or> hd s = CHR 0x00 then 0
          else let first = (of_char (hd s) :: nat);
                   first' = (if first \<ge> of_char (CHR ''a'') \<and> first \<le> of_char (CHR ''z'') then first - of_char (CHR ''a'') + of_char (CHR ''A'') else first)
               in if first' \<ge> of_char (CHR ''A'') \<and> first' \<le> of_char (CHR ''M'') then 0 else 1)"

definition unified_route_input :: "input_msg_t \<Rightarrow> u32 \<Rightarrow> udp_client_addr_t option \<Rightarrow> unified_server_t \<Rightarrow> unified_server_t option" where
  "unified_route_input input client_id udp_addr server = do {
     let server1 = (case input of
         INPUT_MSG_NEW_ORDER m \<Rightarrow> server\<lparr>us_user_map := user_client_map_set (us_user_map server) (no_user_id m) client_id\<rparr>
       | _ \<Rightarrow> server);
     let envelope = \<lparr>ie_msg = input, ie_client_id = client_id,
           ie_client_addr = (case udp_addr of Some a \<Rightarrow> a | None \<Rightarrow> \<lparr>ua_addr = 0, ua_port = 0, ua_pad = 0\<rparr>), ie_sequence = 0\<rparr>;
     let symbol = (case input of INPUT_MSG_NEW_ORDER m \<Rightarrow> Some (no_symbol m) | _ \<Rightarrow> None);
     if uc_single_processor (us_config server1) \<or> get_processor_for_symbol symbol = 0
     then Some (server1\<lparr>us_input_queue_0 := snd (queue_enqueue (us_input_queue_0 server1) envelope)\<rparr>)
     else case us_input_queue_1 server1 of
         None \<Rightarrow> None
       | Some q \<Rightarrow> Some (server1\<lparr>us_input_queue_1 := Some (snd (queue_enqueue q envelope))\<rparr>)
   }"

text \<open>What every accepted message goes through, in all receiving threads.\<close>

definition accept_tcp :: "u32 \<Rightarrow> input_msg_t \<Rightarrow> unified_server_t \<Rightarrow> unified_server_t option" where
  "accept_tcp client_id input server = do {
     s1 \<leftarrow> unified_route_input input client_id None server;
     let s2 = s1\<lparr>us_tcp_messages_received := us_tcp_messages_received s1 + 1\<rparr>;
     reg \<leftarrow> client_registry_inc_received client_id (us_registry s2);
     Some (s2\<lparr>us_registry := reg\<rparr>)
   }"

definition accept_udp :: "u32 \<Rightarrow> udp_client_addr_t \<Rightarrow> input_msg_t \<Rightarrow> unified_server_t \<Rightarrow> unified_server_t option" where
  "accept_udp client_id addr input server = do {
     s1 \<leftarrow> unified_route_input input client_id (Some addr) server;
     let s2 = s1\<lparr>us_udp_messages_received := us_udp_messages_received s1 + 1\<rparr>;
     reg \<leftarrow> client_registry_inc_received client_id (us_registry s2);
     Some (s2\<lparr>us_registry := reg\<rparr>)
   }"

section \<open>The TCP client handler\<close>

datatype framing_type_t = FRAMING_UNKNOWN | FRAMING_LENGTH_PREFIXED | FRAMING_RAW_BINARY | FRAMING_CSV

definition detect_framing :: "u8 list \<Rightarrow> framing_type_t" where
  "detect_framing data =
     (if length data < 4 then FRAMING_UNKNOWN
      else if data ! 0 = BINARY_MAGIC then FRAMING_RAW_BINARY
      else if data ! 0 = of_char (CHR ''N'') \<or> data ! 0 = of_char (CHR ''C'') \<or> data ! 0 = of_char (CHR ''F'') then FRAMING_CSV
      else let potential_len = un_be32 data in
        if potential_len > 0 \<and> potential_len < 1000 \<and> length data > 4 \<and> data ! 4 = BINARY_MAGIC then FRAMING_LENGTH_PREFIXED
        else FRAMING_UNKNOWN)"

text \<open>
  The three loops over the receive buffer: \<open>buf\<close> is the part not yet processed, the result the
  part that is kept when the loop ends.
\<close>

definition parse_binary :: "u32 \<Rightarrow> u8 list \<Rightarrow> unified_server_t \<Rightarrow> unified_server_t option" where
  "parse_binary client_id msg server = do {
     r \<leftarrow> binary_message_parser_parse msg;
     case r of Some input \<Rightarrow> accept_tcp client_id input server | None \<Rightarrow> Some server
   }"

function process_length_prefixed :: "u32 \<Rightarrow> u8 list \<Rightarrow> unified_server_t \<Rightarrow> (u8 list \<times> unified_server_t) option" where
  "process_length_prefixed client_id buf server =
     (if length buf < 4 then Some (buf, server)
      else let msg_len = un_be32 buf in
        if msg_len = 0 \<or> msg_len > 10000 then process_length_prefixed client_id (drop 1 buf) server
        else if length buf < 4 + unat msg_len then Some (buf, server)
        else if buf ! 4 \<noteq> BINARY_MAGIC then process_length_prefixed client_id (drop (4 + unat msg_len) buf) server
        else do {
          server' \<leftarrow> parse_binary client_id (take (unat msg_len) (drop 4 buf)) server;
          process_length_prefixed client_id (drop (4 + unat msg_len) buf) server'
        })"
  by pat_completeness auto
termination by (relation "measure (\<lambda>(_, buf, _). length buf)") auto

definition raw_size :: "u8 \<Rightarrow> nat option" where
  "raw_size t = (if t = of_char (CHR ''N'') then Some 27 else if t = of_char (CHR ''C'') then Some 10
     else if t = of_char (CHR ''F'') then Some 2 else None)"

function process_raw_binary :: "(u8 list \<Rightarrow> unified_server_t \<Rightarrow> unified_server_t option) \<Rightarrow> u8 list \<Rightarrow> unified_server_t \<Rightarrow> (u8 list \<times> unified_server_t) option" where
  "process_raw_binary accept buf server =
     (if length buf < 2 then Some (buf, server)
      else if buf ! 0 \<noteq> BINARY_MAGIC then process_raw_binary accept (drop 1 buf) server
      else case raw_size (buf ! 1) of
          None \<Rightarrow> process_raw_binary accept (drop 1 buf) server
        | Some msg_size \<Rightarrow>
            if length buf < msg_size then Some (buf, server)
            else do {
              server' \<leftarrow> accept (take msg_size buf) server;
              process_raw_binary accept (drop msg_size buf) server'
            })"
  by pat_completeness auto
termination
  by (relation "measure (\<lambda>(_, buf, _). length buf)") (auto simp: raw_size_def split: if_splits)

text \<open>A line ends at a line feed; the parser sees it up to its first zero byte.\<close>

function process_csv :: "u32 \<Rightarrow> message_parser_t \<Rightarrow> u8 list \<Rightarrow> unified_server_t \<Rightarrow> (u8 list \<times> message_parser_t \<times> unified_server_t) option" where
  "process_csv client_id parser buf server =
     (let line = takeWhile (\<lambda>b. b \<noteq> 10) buf in
      if length line = length buf then Some (buf, parser, server)
      else do {
        (r, parser') \<leftarrow> message_parser_parse parser (takeWhile (\<lambda>c. c \<noteq> CHR 0x00) (map byte_char line));
        server' \<leftarrow> (case r of Some input \<Rightarrow> accept_tcp client_id input server | None \<Rightarrow> Some server);
        process_csv client_id parser' (drop (length line + 1) buf) server'
      })"
  by pat_completeness auto
termination
proof (relation "measure (\<lambda>(_, _, buf, _). length buf)", goal_cases)
  case (2 client_id parser buf server line r b r' server')
  then have "0 < length buf" by (cases buf) auto
  with 2 show ?case by simp
qed simp

record tcp_handler =
  th_buffer :: "u8 list"
  th_framing :: framing_type_t
  th_protocol :: client_protocol_t
  th_csv_parser :: message_parser_t

text \<open>One block of received bytes: detection of the framing, the loop for it, and what stays in the buffer.\<close>

definition set_framing :: "u32 \<Rightarrow> framing_type_t \<Rightarrow> tcp_handler \<Rightarrow> unified_server_t \<Rightarrow> (tcp_handler \<times> unified_server_t) option" where
  "set_framing client_id framing h server = do {
     let h1 = h\<lparr>th_framing := framing\<rparr>;
     if framing = FRAMING_LENGTH_PREFIXED \<or> framing = FRAMING_RAW_BINARY then do {
       (ok, reg) \<leftarrow> client_registry_set_protocol client_id CLIENT_PROTOCOL_BINARY (us_registry server);
       Some (h1\<lparr>th_protocol := CLIENT_PROTOCOL_BINARY\<rparr>, server\<lparr>us_registry := reg\<rparr>)
     } else if framing = FRAMING_CSV then do {
       (ok, reg) \<leftarrow> client_registry_set_protocol client_id CLIENT_PROTOCOL_CSV (us_registry server);
       Some (h1\<lparr>th_protocol := CLIENT_PROTOCOL_CSV\<rparr>, server\<lparr>us_registry := reg\<rparr>)
     } else Some (h1, server)
   }"

definition note_framing :: "u32 \<Rightarrow> tcp_handler \<Rightarrow> unified_server_t \<Rightarrow> (tcp_handler \<times> unified_server_t) option" where
  "note_framing client_id h server =
     (if th_framing h = FRAMING_UNKNOWN \<and> length (th_buffer h) \<ge> 5
      then set_framing client_id (detect_framing (th_buffer h)) h server
      else Some (h, server))"

definition process_buffer :: "u32 \<Rightarrow> tcp_handler \<Rightarrow> unified_server_t \<Rightarrow> (tcp_handler \<times> unified_server_t) option" where
  "process_buffer client_id h server =
     (case th_framing h of
        FRAMING_LENGTH_PREFIXED \<Rightarrow> do {
          (rest, server') \<leftarrow> process_length_prefixed client_id (th_buffer h) server;
          Some (h\<lparr>th_buffer := rest\<rparr>, server')
        }
      | FRAMING_RAW_BINARY \<Rightarrow> do {
          (rest, server') \<leftarrow> process_raw_binary (parse_binary client_id) (th_buffer h) server;
          Some (h\<lparr>th_buffer := rest\<rparr>, server')
        }
      | FRAMING_CSV \<Rightarrow> do {
          (rest, parser, server') \<leftarrow> process_csv client_id (th_csv_parser h) (th_buffer h) server;
          Some (h\<lparr>th_buffer := rest, th_csv_parser := parser\<rparr>, server')
        }
      | FRAMING_UNKNOWN \<Rightarrow> Some (h, server))"

definition tcp_received :: "u32 \<Rightarrow> u8 list \<Rightarrow> tcp_handler \<Rightarrow> unified_server_t \<Rightarrow> (tcp_handler \<times> unified_server_t) option" where
  "tcp_received client_id bytes h server = do {
     (h1, server1) \<leftarrow> note_framing client_id (h\<lparr>th_buffer := th_buffer h @ bytes\<rparr>) server;
     process_buffer client_id h1 server1
   }"

text \<open>
  The handler of a connection, given what reaches its socket until the shutdown flag is seen.  A call of \<^verbatim>\<open>recv\<close> returns at most
  the bytes the buffer has space for, and the rest of a block waits for the next call;
  a call for no bytes, when the buffer is full, returns 0 and ends the connection like an end of file.
\<close>

datatype recv_result = Recv_bytes "u8 list" | Recv_closed | Recv_again | Recv_error

primrec recv_work :: "recv_result \<Rightarrow> nat" where
  "recv_work (Recv_bytes bytes) = length bytes + 1"
| "recv_work Recv_closed = 1"
| "recv_work Recv_again = 1"
| "recv_work Recv_error = 1"

function handler_loop :: "u32 \<Rightarrow> recv_result list \<Rightarrow> tcp_handler \<Rightarrow> unified_server_t \<Rightarrow> unified_server_t option" where
  "handler_loop client_id [] h server = Some server"
| "handler_loop client_id (r # rs) h server =
     (let space = TCP_RECV_BUFFER_SIZE - length (th_buffer h) in
      if space = 0 then Some server
      else case r of
          Recv_bytes bytes \<Rightarrow>
            if length bytes = 0 then Some server
            else do {
              (h', server') \<leftarrow> tcp_received client_id (take space bytes) h server;
              handler_loop client_id (if length bytes \<le> space then rs else Recv_bytes (drop space bytes) # rs) h' server'
            }
        | Recv_closed \<Rightarrow> Some server
        | Recv_again \<Rightarrow> handler_loop client_id rs h server
        | Recv_error \<Rightarrow> Some server)"
  by pat_completeness auto
termination by (relation "measure (\<lambda>(_, rs, _, _). sum_list (map recv_work rs))") auto

definition tcp_client_handler :: "u32 \<Rightarrow> recv_result list \<Rightarrow> unified_server_t \<Rightarrow> unified_server_t option" where
  "tcp_client_handler client_id rs server = do {
     parser \<leftarrow> message_parser_init \<lparr>mp_line_buffer = [], mp_tokens = (\<lambda>_. []), mp_num_tokens = 0\<rparr>;
     server1 \<leftarrow> handler_loop client_id rs
       \<lparr>th_buffer = [], th_framing = FRAMING_UNKNOWN, th_protocol = CLIENT_PROTOCOL_UNKNOWN, th_csv_parser = parser\<rparr> server;
     (ok, reg) \<leftarrow> client_registry_remove client_id (us_registry server1);
     Some (server1\<lparr>us_registry := reg\<rparr>)
   }"

text \<open>An accepted connection: the identifier of its handler, or \<open>None\<close> when the registry is full.\<close>

definition tcp_accepted :: "int \<Rightarrow> u64 \<Rightarrow> unified_server_t \<Rightarrow> (u32 option \<times> unified_server_t) option" where
  "tcp_accepted client_fd now server = do {
     (client_id, reg) \<leftarrow> client_registry_add_tcp client_fd now (us_registry server);
     Some (if client_id = 0 then None else Some client_id, server\<lparr>us_registry := reg\<rparr>)
   }"

declare process_length_prefixed.simps [simp del] process_raw_binary.simps [simp del] process_csv.simps [simp del]

section \<open>The UDP receiver\<close>

definition parse_binary_udp :: "u32 \<Rightarrow> udp_client_addr_t \<Rightarrow> u8 list \<Rightarrow> unified_server_t \<Rightarrow> unified_server_t option" where
  "parse_binary_udp client_id addr msg server = do {
     r \<leftarrow> binary_message_parser_parse msg;
     case r of Some input \<Rightarrow> accept_udp client_id addr input server | None \<Rightarrow> Some server
   }"

function udp_csv :: "u32 \<Rightarrow> udp_client_addr_t \<Rightarrow> message_parser_t \<Rightarrow> string \<Rightarrow> unified_server_t \<Rightarrow> (message_parser_t \<times> unified_server_t) option" where
  "udp_csv client_id addr parser text server =
     (if text = [] then Some (parser, server)
      else let line = takeWhile (\<lambda>c. c \<noteq> newline) text; next_line = drop (length line + 1) text in
        if line = [] \<or> hd line = CHR 0x0D then udp_csv client_id addr parser next_line server
        else do {
          (r, parser') \<leftarrow> message_parser_parse parser line;
          server' \<leftarrow> (case r of Some input \<Rightarrow> accept_udp client_id addr input server | None \<Rightarrow> Some server);
          udp_csv client_id addr parser' next_line server'
        })"
  by pat_completeness auto
termination by (relation "measure (\<lambda>(_, _, _, text, _). length text)") auto

declare udp_csv.simps [simp del]

text \<open>
  The protocol of the sender, noted when it is first recognised, and the messages of a datagram.  The
  terminating zero of a CSV datagram is written behind the received bytes; the buffer has
  \<open>MAX_UDP_PACKET_SIZE\<close> bytes, so the write is outside of it, \<open>None\<close>, for a datagram of that size.
\<close>

definition note_protocol :: "u32 \<Rightarrow> u8 list \<Rightarrow> unified_server_t \<Rightarrow> (client_protocol_t \<times> unified_server_t) option" where
  "note_protocol client_id data server = do {
     known \<leftarrow> client_registry_get_protocol (us_registry server) client_id;
     if known = CLIENT_PROTOCOL_UNKNOWN then do {
       let protocol = unified_detect_protocol data;
       if protocol \<noteq> CLIENT_PROTOCOL_UNKNOWN then do {
         (ok, reg) \<leftarrow> client_registry_set_protocol client_id protocol (us_registry server);
         Some (protocol, server\<lparr>us_registry := reg\<rparr>)
       } else Some (protocol, server)
     } else Some (known, server)
   }"

definition udp_messages :: "client_protocol_t \<Rightarrow> u32 \<Rightarrow> udp_client_addr_t \<Rightarrow> u8 list \<Rightarrow> message_parser_t \<Rightarrow> unified_server_t
    \<Rightarrow> (message_parser_t \<times> unified_server_t) option" where
  "udp_messages protocol client_id addr data parser server =
     (if protocol = CLIENT_PROTOCOL_BINARY then do {
        (rest, s) \<leftarrow> process_raw_binary (parse_binary_udp client_id addr) data server;
        Some (parser, s)
      } else do {
        assert_that (length data < MAX_UDP_PACKET_SIZE);
        udp_csv client_id addr parser (takeWhile (\<lambda>c. c \<noteq> CHR 0x00) (map byte_char data)) server
      })"

definition udp_datagram :: "udp_client_addr_t \<Rightarrow> u64 \<Rightarrow> u64 \<Rightarrow> u8 list \<Rightarrow> message_parser_t \<Rightarrow> unified_server_t \<Rightarrow> (message_parser_t \<times> unified_server_t) option" where
  "udp_datagram addr now now_after data parser server = do {
     (client_id, reg) \<leftarrow> client_registry_get_or_add_udp addr now (us_registry server);
     let s1 = server\<lparr>us_registry := reg\<rparr>;
     if client_id = 0 then Some (parser, s1)
     else do {
       (protocol, s2) \<leftarrow> note_protocol client_id data s1;
       (parser', s3) \<leftarrow> udp_messages protocol client_id addr data parser s2;
       reg3 \<leftarrow> client_registry_touch client_id now_after (us_registry s3);
       Some (parser', s3\<lparr>us_registry := reg3\<rparr>)
     }
   }"

text \<open>The loop of the receiver, given the results of its calls of \<^verbatim>\<open>recvfrom\<close>: a call that fails or returns no bytes is repeated.\<close>

type_synonym datagram = "udp_client_addr_t \<times> u64 \<times> u64 \<times> u8 list"

fun udp_receiver_loop :: "datagram option list \<Rightarrow> message_parser_t \<Rightarrow> unified_server_t \<Rightarrow> unified_server_t option" where
  "udp_receiver_loop [] parser server = Some server"
| "udp_receiver_loop (None # rs) parser server = udp_receiver_loop rs parser server"
| "udp_receiver_loop (Some (addr, now, now_after, data) # rs) parser server =
     (if length data = 0 then udp_receiver_loop rs parser server
      else do {
        (parser', server') \<leftarrow> udp_datagram addr now now_after data parser server;
        udp_receiver_loop rs parser' server'
      })"

definition unified_udp_receiver :: "datagram option list \<Rightarrow> unified_server_t \<Rightarrow> unified_server_t option" where
  "unified_udp_receiver rs server = do {
     parser \<leftarrow> message_parser_init \<lparr>mp_line_buffer = [], mp_tokens = (\<lambda>_. []), mp_num_tokens = 0\<rparr>;
     udp_receiver_loop rs parser server
   }"

end
