(* ===== verification/ME_Unified_Router.thy ===== *)
theory ME_Unified_Router
  imports ME_Unified
begin

text \<open>
  The unified server, output side (\<^verbatim>\<open>modes/unified_router.c\<close>): the thread that takes the envelopes from
  the output queues of the processors, formats each message for the protocol of its
  recipients and sends it.  The result of a system call that sends is the parameter \<open>net\<close>, given
  the number of calls before it, the destination and the bytes: the number of bytes sent, or \<open>-1\<close>; a call
  that is interrupted is repeated, so \<open>net\<close> is the result of the last attempt.
\<close>

type_synonym net = "nat \<Rightarrow> dest \<Rightarrow> u8 list \<Rightarrow> int"

definition transmit :: "net \<Rightarrow> dest \<Rightarrow> u8 list \<Rightarrow> unified_server_t \<Rightarrow> int \<times> unified_server_t" where
  "transmit net d bytes server =
     (let r = net (length (us_wire server)) d bytes in (r, server\<lparr>us_wire := us_wire server @ [(d, bytes, r)]\<rparr>))"

definition tcp_send_with_framing :: "net \<Rightarrow> int \<Rightarrow> u8 list \<Rightarrow> bool \<Rightarrow> unified_server_t \<Rightarrow> int \<times> unified_server_t" where
  "tcp_send_with_framing net fd data use_length_prefix server =
     (if fd < 0 \<or> length data = 0 then (-1, server)
      else if use_length_prefix
      then (let (sent, server') = transmit net (To_tcp fd) (be32 (of_nat (length data)) @ data) server
            in (if sent = 4 + int (length data) then int (length data) else -1, server'))
      else transmit net (To_tcp fd) data server)"

definition unified_send_multicast :: "net \<Rightarrow> output_msg_t \<Rightarrow> unified_server_t \<Rightarrow> unified_server_t option" where
  "unified_send_multicast net msg server =
     (if us_multicast_fd server < 0 then Some server
      else do {
        (r, f) \<leftarrow> binary_message_formatter_format (us_bin_formatter server) msg;
        let s1 = server\<lparr>us_bin_formatter := f\<rparr>;
        case r of
          None \<Rightarrow> Some s1
        | Some data \<Rightarrow>
            if length data > 0 then
              (let (sent, s2) = transmit net To_multicast data s1 in
               Some (s2\<lparr>us_multicast_messages := us_multicast_messages s2 + 1\<rparr>))
            else Some s1
      })"

text \<open>The bytes for a client: \<open>None\<close> when there is nothing to send.\<close>

definition c_bytes :: "string \<Rightarrow> u8 list" where
  "c_bytes text = map of_char (takeWhile (\<lambda>c. c \<noteq> CHR 0x00) text)"

definition format_for :: "client_protocol_t \<Rightarrow> output_msg_t \<Rightarrow> unified_server_t \<Rightarrow> (u8 list option \<times> unified_server_t) option" where
  "format_for protocol msg server =
     (if protocol = CLIENT_PROTOCOL_BINARY then do {
        (r, f) \<leftarrow> binary_message_formatter_format (us_bin_formatter server) msg;
        Some (r, server\<lparr>us_bin_formatter := f\<rparr>)
      } else do {
        (text, f) \<leftarrow> message_formatter_format (us_csv_formatter server) msg;
        Some (Some (c_bytes text), server\<lparr>us_csv_formatter := f\<rparr>)
      })"

definition unified_send_to_client :: "net \<Rightarrow> u32 \<Rightarrow> output_msg_t \<Rightarrow> unified_server_t \<Rightarrow> (bool \<times> unified_server_t) option" where
  "unified_send_to_client net client_id msg server =
     (if client_id = 0 then Some (False, server)
      else do {
        (found, entry) \<leftarrow> client_registry_find (us_registry server) client_id zero_entry;
        if \<not> found then Some (False, server)
        else if \<not> ce_active entry then Some (False, server)
        else do {
          (r, s1) \<leftarrow> format_for (ce_protocol entry) msg server;
          case r of
            None \<Rightarrow> Some (False, s1)
          | Some data \<Rightarrow>
              if length data = 0 then Some (False, s1)
              else do {
                (success, s2) \<leftarrow>
                  (case (ce_transport entry, ce_handle entry) of
                     (TRANSPORT_TCP, Tcp_fd fd) \<Rightarrow>
                       if fd \<ge> 0 then
                         (let (sent, s2) = tcp_send_with_framing net fd data (ce_protocol entry = CLIENT_PROTOCOL_BINARY) s1
                          in Some (sent = int (length data), s2))
                       else Some (False, s1)
                   | (TRANSPORT_UDP, Udp_addr a) \<Rightarrow>
                       (let (sent, s2) = transmit net (To_udp a) data s1 in Some (sent = int (length data), s2))
                   | (TRANSPORT_UNKNOWN, _) \<Rightarrow> Some (False, s1)
                   | _ \<Rightarrow> None);
                if success then do {
                  reg \<leftarrow> client_registry_inc_sent client_id (us_registry s2);
                  Some (True, s2\<lparr>us_registry := reg\<rparr>)
                } else Some (False, s2)
              }
        }
      })"

abbreviation MAX_REGISTERED_CLIENTS :: u32 where "MAX_REGISTERED_CLIENTS \<equiv> 8192"

fun broadcast_loop :: "net \<Rightarrow> u8 list \<Rightarrow> u8 list option \<Rightarrow> u32 list \<Rightarrow> unified_server_t \<Rightarrow> unified_server_t option" where
  "broadcast_loop net csv_data bin_data [] server = Some server"
| "broadcast_loop net csv_data bin_data (c # client_ids) server = do {
     (found, entry) \<leftarrow> client_registry_find (us_registry server) c zero_entry;
     if \<not> found \<or> \<not> ce_active entry then broadcast_loop net csv_data bin_data client_ids server
     else do {
       let is_binary = (ce_protocol entry = CLIENT_PROTOCOL_BINARY);
       let data = (if is_binary then (case bin_data of Some d \<Rightarrow> d | None \<Rightarrow> []) else csv_data);
       if length data = 0 then broadcast_loop net csv_data bin_data client_ids server
       else do {
         s1 \<leftarrow> (case (ce_transport entry, ce_handle entry) of
                  (TRANSPORT_TCP, Tcp_fd fd) \<Rightarrow> Some (if fd \<ge> 0 then snd (tcp_send_with_framing net fd data is_binary server) else server)
                | (TRANSPORT_UDP, Udp_addr a) \<Rightarrow> Some (snd (transmit net (To_udp a) data server))
                | (TRANSPORT_UNKNOWN, _) \<Rightarrow> Some server
                | _ \<Rightarrow> None);
         reg \<leftarrow> client_registry_inc_sent c (us_registry s1);
         broadcast_loop net csv_data bin_data client_ids (s1\<lparr>us_registry := reg\<rparr>)
       }
     }
   }"

definition unified_broadcast_to_all :: "net \<Rightarrow> output_msg_t \<Rightarrow> unified_server_t \<Rightarrow> unified_server_t option" where
  "unified_broadcast_to_all net msg server = do {
     (text, cf) \<leftarrow> message_formatter_format (us_csv_formatter server) msg;
     (bin_data, bf) \<leftarrow> binary_message_formatter_format (us_bin_formatter server) msg;
     client_ids \<leftarrow> client_registry_get_all_ids (us_registry server) MAX_REGISTERED_CLIENTS;
     s1 \<leftarrow> broadcast_loop net (c_bytes text) bin_data client_ids (server\<lparr>us_csv_formatter := cf, us_bin_formatter := bf\<rparr>);
     Some (s1\<lparr>us_tob_broadcasts := us_tob_broadcasts s1 + 1\<rparr>)
   }"

text \<open>The recipients by the type of the message, then the multicast group.\<close>

definition send_to_recipients :: "net \<Rightarrow> output_msg_t \<Rightarrow> u32 \<Rightarrow> unified_server_t \<Rightarrow> unified_server_t option" where
  "send_to_recipients net msg originator server =
     (case msg of
         OUTPUT_MSG_ACK _ \<Rightarrow> map_option snd (unified_send_to_client net originator msg server)
       | OUTPUT_MSG_CANCEL_ACK _ \<Rightarrow> map_option snd (unified_send_to_client net originator msg server)
       | OUTPUT_MSG_TRADE t \<Rightarrow> do {
           let buyer_client = user_client_map_get (us_user_map server) (tr_user_id_buy t);
           let seller_client = user_client_map_get (us_user_map server) (tr_user_id_sell t);
           s1 \<leftarrow> (if buyer_client \<noteq> 0 then map_option snd (unified_send_to_client net buyer_client msg server) else Some server);
           if seller_client \<noteq> 0 \<and> seller_client \<noteq> buyer_client
           then map_option snd (unified_send_to_client net seller_client msg s1) else Some s1
         }
       | OUTPUT_MSG_TOP_OF_BOOK _ \<Rightarrow> unified_broadcast_to_all net msg server
       | OUTPUT_MSG_OTHER _ \<Rightarrow> Some server)"

definition process_output_envelope :: "net \<Rightarrow> output_msg_envelope_t \<Rightarrow> unified_server_t \<Rightarrow> unified_server_t option" where
  "process_output_envelope net envelope server = do {
     s1 \<leftarrow> send_to_recipients net (oe_msg envelope) (oe_client_id envelope) server;
     s2 \<leftarrow> unified_send_multicast net (oe_msg envelope) s1;
     Some (s2\<lparr>us_messages_routed := us_messages_routed s2 + 1\<rparr>)
   }"

text \<open>One pass through the loop of the router thread: at most one envelope from each queue.\<close>

definition route_queue_0 :: "net \<Rightarrow> unified_server_t \<Rightarrow> unified_server_t option" where
  "route_queue_0 net server = do {
     let (r, q) = queue_dequeue (us_output_queue_0 server);
     let s = server\<lparr>us_output_queue_0 := q\<rparr>;
     case r of Some envelope \<Rightarrow> process_output_envelope net envelope s | None \<Rightarrow> Some s
   }"

definition route_queue_1 :: "net \<Rightarrow> unified_server_t \<Rightarrow> unified_server_t option" where
  "route_queue_1 net server =
     (case us_output_queue_1 server of
        None \<Rightarrow> Some server
      | Some q1 \<Rightarrow> do {
          let (r, q) = queue_dequeue q1;
          let s = server\<lparr>us_output_queue_1 := Some q\<rparr>;
          case r of Some envelope \<Rightarrow> process_output_envelope net envelope s | None \<Rightarrow> Some s
        })"

definition router_iteration :: "net \<Rightarrow> unified_server_t \<Rightarrow> unified_server_t option" where
  "router_iteration net server = Option.bind (route_queue_0 net server) (route_queue_1 net)"

fun router_loop :: "nat \<Rightarrow> net \<Rightarrow> unified_server_t \<Rightarrow> unified_server_t option" where
  "router_loop 0 net server = Some server"
| "router_loop (Suc n) net server = Option.bind (router_iteration net server) (router_loop n net)"

end
