(* ===== verification/ME_Unified_Stream.thy ===== *)
theory ME_Unified_Stream
  imports ME_Unified
begin

text \<open>
  Cutting the byte stream of a TCP connection into messages.  A TCP stream arrives in blocks the
  sender does not control; each of the three loops over the receive buffer takes what is complete
  and leaves the rest.  The locale \<open>consumer\<close> states what makes such a loop independent of the blocks;
  it is interpreted for the three loops, and the handler as a whole inherits it.
\<close>

locale consumer =
  fixes run :: "'b list \<Rightarrow> 's \<Rightarrow> ('b list \<times> 's) option"
  assumes run_append: "run (a @ b) s = Option.bind (run a s) (\<lambda>(rest, s'). run (rest @ b) s')"
begin

fun run_blocks :: "'b list list \<Rightarrow> 'b list \<Rightarrow> 's \<Rightarrow> ('b list \<times> 's) option" where
  "run_blocks [] rest s = Some (rest, s)"
| "run_blocks (b # bs) rest s = Option.bind (run (rest @ b) s) (\<lambda>(rest', s'). run_blocks bs rest' s')"

lemma run_blocks_concat: "run_blocks (b # bs) rest s = run (rest @ concat (b # bs)) s"
proof (induction bs arbitrary: b rest s)
  case Nil
  then show ?case by (cases "run (rest @ b) s") auto
next
  case (Cons b' bs)
  have "run_blocks (b # b' # bs) rest s = Option.bind (run (rest @ b) s) (\<lambda>(rest', s'). run (rest' @ concat (b' # bs)) s')"
    unfolding run_blocks.simps(2) [of b "b' # bs"] Cons.IH ..
  also have "\<dots> = run ((rest @ b) @ concat (b' # bs)) s" unfolding run_append [of "rest @ b"] ..
  finally show ?case by simp
qed

theorem cut_invariant:
  assumes "concat (b # bs) = concat (c # cs)"
  shows "run_blocks (b # bs) rest s = run_blocks (c # cs) rest s"
  unfolding run_blocks_concat assms ..

end

section \<open>The loops of the handler\<close>

lemma un_be32_append: "4 \<le> length a \<Longrightarrow> un_be32 (a @ b) = un_be32 a"
  by (cases a) (auto simp: un_be32_def nth_append)

lemma process_length_prefixed_append:
  "process_length_prefixed client_id (a @ b) s =
     Option.bind (process_length_prefixed client_id a s) (\<lambda>(rest, s'). process_length_prefixed client_id (rest @ b) s')"
proof (induction client_id a s rule: process_length_prefixed.induct)
  case (1 client_id a s)
  show ?case
  proof (cases "length a < 4 \<or> \<not> (un_be32 a = 0 \<or> un_be32 a > 10000) \<and> length a < 4 + unat (un_be32 a)")
    case True
    then have "process_length_prefixed client_id a s = Some (a, s)" by (subst process_length_prefixed.simps) (auto simp: Let_def)
    then show ?thesis by simp
  next
    case False
    then have l: "\<not> length a < 4" "un_be32 (a @ b) = un_be32 a" by (auto simp: un_be32_append)
    show ?thesis
    proof (cases "un_be32 a = 0 \<or> un_be32 a > 10000")
      case True
      then have "process_length_prefixed client_id (a @ b) s = process_length_prefixed client_id (drop 1 a @ b) s"
        "process_length_prefixed client_id a s = process_length_prefixed client_id (drop 1 a) s"
        using l by (subst process_length_prefixed.simps, simp add: Let_def)+
      with "1.IH"(1) [OF l(1) refl True] show ?thesis by simp
    next
      case False
      define n where "n = 4 + unat (un_be32 a)"
      have n: "n \<le> length a" using \<open>\<not> (length a < 4 \<or> _)\<close> False by (auto simp: n_def)
      have pos: "0 < unat (un_be32 a)" using False by (simp add: unat_gt_0)
      then have four: "(a @ b) ! 4 = a ! 4" "take (unat (un_be32 a)) (drop 4 (a @ b)) = take (unat (un_be32 a)) (drop 4 a)" "drop n (a @ b) = drop n a @ b"
        using n by (auto simp: n_def nth_append)
      define msg where "msg = take (unat (un_be32 a)) (drop 4 a)"
      have ab: "process_length_prefixed client_id (a @ b) s =
          (if a ! 4 \<noteq> BINARY_MAGIC then process_length_prefixed client_id (drop n a @ b) s
           else Option.bind (parse_binary client_id msg s) (process_length_prefixed client_id (drop n a @ b)))"
        using l n False by (subst process_length_prefixed.simps) (simp add: Let_def four(1,2) four(3) [unfolded n_def] n_def msg_def)
      have a: "process_length_prefixed client_id a s =
          (if a ! 4 \<noteq> BINARY_MAGIC then process_length_prefixed client_id (drop n a) s
           else Option.bind (parse_binary client_id msg s) (process_length_prefixed client_id (drop n a)))"
        using l n False by (subst process_length_prefixed.simps) (simp add: Let_def n_def msg_def)
      have n': "\<not> length a < 4 + unat (un_be32 a)" using n by (simp add: n_def)
      show ?thesis
      proof (cases "a ! 4 = BINARY_MAGIC")
        case True
        with "1.IH"(3) [OF l(1) refl False n'] show ?thesis
          unfolding ab a by (cases "parse_binary client_id msg s") (auto simp: n_def msg_def)
      next
        case False': False
        with "1.IH"(2) [OF l(1) refl False n'] show ?thesis unfolding ab a by (simp add: n_def)
      qed
    qed
  qed
qed

lemma process_raw_binary_append:
  "process_raw_binary accept (a @ b) s =
     Option.bind (process_raw_binary accept a s) (\<lambda>(rest, s'). process_raw_binary accept (rest @ b) s')"
proof (induction accept a s rule: process_raw_binary.induct)
  case (1 accept a s)
  show ?case
  proof (cases "length a < 2")
    case True
    then have "process_raw_binary accept a s = Some (a, s)" by (subst process_raw_binary.simps) simp
    then show ?thesis by simp
  next
    case False
    then have nth: "(a @ b) ! 0 = a ! 0" "(a @ b) ! 1 = a ! 1" "drop 1 (a @ b) = drop 1 a @ b" "\<not> length (a @ b) < 2" by (auto simp: nth_append)
    show ?thesis
    proof (cases "a ! 0 \<noteq> BINARY_MAGIC \<or> raw_size (a ! 1) = None")
      case True
      then have "process_raw_binary accept (a @ b) s = process_raw_binary accept (drop 1 a @ b) s"
        "process_raw_binary accept a s = process_raw_binary accept (drop 1 a) s"
        using False nth by (subst process_raw_binary.simps, auto)+
      with True "1.IH"(1,2) [OF False] show ?thesis by auto
    next
      case magic: False
      then obtain n where n: "raw_size (a ! 1) = Some n" "a ! 0 = BINARY_MAGIC" by auto
      show ?thesis
      proof (cases "length a < n")
        case True
        with n False have "process_raw_binary accept a s = Some (a, s)" by (subst process_raw_binary.simps) simp
        then show ?thesis by simp
      next
        case long: False
        have "process_raw_binary accept (a @ b) s = Option.bind (accept (take n a) s) (process_raw_binary accept (drop n a @ b))"
          using n nth long by (subst process_raw_binary.simps) auto
        moreover have "process_raw_binary accept a s = Option.bind (accept (take n a) s) (process_raw_binary accept (drop n a))"
          using n False long by (subst process_raw_binary.simps) auto
        ultimately show ?thesis
          using "1.IH"(3) [OF False _ n(1) long] n(2) by (cases "accept (take n a) s") auto
      qed
    qed
  qed
qed

definition csv_run :: "u32 \<Rightarrow> u8 list \<Rightarrow> message_parser_t \<times> unified_server_t \<Rightarrow> (u8 list \<times> message_parser_t \<times> unified_server_t) option" where
  "csv_run client_id buf ps = process_csv client_id (fst ps) buf (snd ps)"

lemma process_csv_append:
  "process_csv client_id p (a @ b) s =
     Option.bind (process_csv client_id p a s) (\<lambda>(rest, p', s'). process_csv client_id p' (rest @ b) s')"
proof (induction client_id p a s rule: process_csv.induct)
  case (1 client_id p a s)
  define line where "line = takeWhile (\<lambda>c. c \<noteq> 10) a"
  show ?case
  proof (cases "length line = length a")
    case True
    then have "process_csv client_id p a s = Some (a, p, s)" by (subst process_csv.simps) (simp add: line_def)
    then show ?thesis by simp
  next
    case False
    have le: "length line \<le> length a" by (simp add: line_def length_takeWhile_le)
    with False have lt: "length line < length a" by simp
    have "\<not> (\<forall>c\<in>set a. c \<noteq> 10)"
    proof
      assume "\<forall>c\<in>set a. c \<noteq> 10"
      then have "line = a" unfolding line_def by (simp add: takeWhile_eq_all_conv)
      with False show False by simp
    qed
    then have ab: "takeWhile (\<lambda>c. c \<noteq> 10) (a @ b) = line" by (auto simp: line_def takeWhile_append)
    define rd where "rd = Option.bind (message_parser_parse p (takeWhile (\<lambda>c. c \<noteq> CHR 0x00) (map byte_char line)))
      (\<lambda>(r, p'). Option.bind (case r of Some input \<Rightarrow> accept_tcp client_id input s | None \<Rightarrow> Some s) (\<lambda>s'. Some (p', s')))"
    have 2: "process_csv client_id p (a @ b) s = Option.bind rd (\<lambda>(p', s'). process_csv client_id p' (drop (length line + 1) a @ b) s')"
      using lt by (subst process_csv.simps) (simp add: ab rd_def Let_def case_prod_unfold)
    have 3: "process_csv client_id p a s = Option.bind rd (\<lambda>(p', s'). process_csv client_id p' (drop (length line + 1) a) s')"
      using lt by (subst process_csv.simps) (simp add: line_def [symmetric] rd_def Let_def case_prod_unfold)
    show ?thesis
    proof (cases rd)
      case None
      then show ?thesis unfolding 2 3 by simp
    next
      case (Some ps)
      then obtain r p' s' where m: "message_parser_parse p (takeWhile (\<lambda>c. c \<noteq> CHR 0x00) (map byte_char line)) = Some (r, p')"
        "(case r of Some input \<Rightarrow> accept_tcp client_id input s | None \<Rightarrow> Some s) = Some s'" "ps = (p', s')"
        unfolding rd_def by (auto simp: bind_eq_Some_conv)
      from "1.IH" [OF line_def False m(1) refl m(2)] show ?thesis unfolding 2 3 Some m(3) by simp
    qed
  qed
qed

interpretation length_prefixed: consumer "process_length_prefixed client_id"
  by unfold_locales (rule process_length_prefixed_append)

interpretation raw_binary: consumer "process_raw_binary accept"
  by unfold_locales (rule process_raw_binary_append)

interpretation csv_lines: consumer "csv_run client_id"
proof
  fix a b and s :: "message_parser_t \<times> unified_server_t"
  show "csv_run client_id (a @ b) s = Option.bind (csv_run client_id a s) (\<lambda>(rest, s'). csv_run client_id (rest @ b) s')"
    unfolding csv_run_def process_csv_append [of client_id "fst s" a b] by (simp add: case_prod_unfold)
qed

section \<open>The handler\<close>

lemma process_buffer_append:
  "process_buffer c (h\<lparr>th_buffer := a @ b\<rparr>) s =
     Option.bind (process_buffer c (h\<lparr>th_buffer := a\<rparr>) s) (\<lambda>(h', s'). process_buffer c (h'\<lparr>th_buffer := th_buffer h' @ b\<rparr>) s')"
proof (cases "th_framing h")
  case FRAMING_LENGTH_PREFIXED
  then show ?thesis
    by (simp add: process_buffer_def process_length_prefixed_append [of c a b] case_prod_unfold)
next
  case FRAMING_RAW_BINARY
  then show ?thesis
    by (simp add: process_buffer_def process_raw_binary_append [of _ a b] case_prod_unfold)
next
  case FRAMING_CSV
  then show ?thesis
    by (simp add: process_buffer_def process_csv_append [of c _ a b] case_prod_unfold)
qed (simp add: process_buffer_def)

lemma process_buffer_framing: "process_buffer c h s = Some (h', s') \<Longrightarrow> th_framing h' = th_framing h"
  by (auto simp: process_buffer_def bind_eq_Some_conv split: framing_type_t.splits)

lemma detect_framing_append:
  assumes "5 \<le> length a"
  shows "detect_framing (a @ b) = detect_framing a"
proof -
  have "(a @ b) ! 0 = a ! 0" "(a @ b) ! 4 = a ! 4" "un_be32 (a @ b) = un_be32 a"
    using assms by (auto simp: un_be32_append intro: nth_append_left)
  with assms show ?thesis unfolding detect_framing_def by (simp add: Let_def)
qed

lemma set_framing_buffer:
  "set_framing c f (h\<lparr>th_buffer := a\<rparr>) s = map_option (apfst (\<lambda>h'. h'\<lparr>th_buffer := a\<rparr>)) (set_framing c f h s)"
  by (cases h) (simp add: set_framing_def Let_def map_option_bind case_prod_unfold comp_def)

lemma set_framing_Some: "set_framing c f h s = Some (h', s') \<Longrightarrow> th_framing h' = f \<and> th_buffer h' = th_buffer h"
  by (auto simp: set_framing_def Let_def bind_eq_Some_conv split: if_splits)

text \<open>The handler as a consumer of bytes: the buffer is what is left over.\<close>

definition handler_run :: "u32 \<Rightarrow> u8 list \<Rightarrow> tcp_handler \<times> unified_server_t \<Rightarrow> (u8 list \<times> tcp_handler \<times> unified_server_t) option" where
  "handler_run c buf hs = map_option (\<lambda>(h', s'). (th_buffer h', h', s'))
     (Option.bind (note_framing c ((fst hs)\<lparr>th_buffer := buf\<rparr>) (snd hs)) (\<lambda>(h1, s1). process_buffer c h1 s1))"

lemma tcp_received_run:
  "tcp_received c bytes h s = map_option snd (handler_run c (th_buffer h @ bytes) (h, s))"
  by (simp add: tcp_received_def handler_run_def option.map_comp comp_def case_prod_unfold option.map_ident)

lemma handler_run_known:
  "th_framing h \<noteq> FRAMING_UNKNOWN \<Longrightarrow>
   handler_run c buf (h, s) = map_option (\<lambda>(h', s'). (th_buffer h', h', s')) (process_buffer c (h\<lparr>th_buffer := buf\<rparr>) s)"
  by (simp add: handler_run_def note_framing_def)

lemma handler_run_known_append:
  assumes "th_framing h \<noteq> FRAMING_UNKNOWN"
  shows "handler_run c (a @ b) (h, s) = Option.bind (handler_run c a (h, s)) (\<lambda>(rest, hs'). handler_run c (rest @ b) hs')"
proof (cases "process_buffer c (h\<lparr>th_buffer := a\<rparr>) s")
  case None
  then show ?thesis using assms by (simp add: handler_run_known process_buffer_append [of c a b h])
next
  case (Some r)
  obtain h' s' where r: "r = (h', s')" by fastforce
  with Some process_buffer_framing [of c "h\<lparr>th_buffer := a\<rparr>" s h' s'] assms have "th_framing h' \<noteq> FRAMING_UNKNOWN" by simp
  with Some r show ?thesis using assms by (simp add: handler_run_known process_buffer_append [of c a b h])
qed

lemma handler_run_unknown:
  assumes "th_framing h = FRAMING_UNKNOWN" and "5 \<le> length buf"
  shows "handler_run c buf (h, s) = Option.bind (set_framing c (detect_framing buf) h s) (\<lambda>(h1, s1). 
     if th_framing h1 = FRAMING_UNKNOWN then Some (buf, h1\<lparr>th_buffer := buf\<rparr>, s1) else handler_run c buf (h1, s1))"
proof (cases "set_framing c (detect_framing buf) h s")
  case None
  with assms show ?thesis by (simp add: handler_run_def note_framing_def set_framing_buffer)
next
  case (Some r)
  obtain h1 s1 where r: "r = (h1, s1)" by fastforce
  then show ?thesis
    using assms Some by (cases "th_framing h1 = FRAMING_UNKNOWN")
      (simp_all add: handler_run_def note_framing_def set_framing_buffer process_buffer_def)
qed

lemma handler_run_buffer: "handler_run c buf (h\<lparr>th_buffer := x\<rparr>, s) = handler_run c buf (h, s)"
  by (simp add: handler_run_def)

interpretation tcp_stream: consumer "handler_run c"
proof
  fix a b and hs :: "tcp_handler \<times> unified_server_t"
  obtain h s where hs: "hs = (h, s)" by fastforce
  show "handler_run c (a @ b) hs = Option.bind (handler_run c a hs) (\<lambda>(rest, hs'). handler_run c (rest @ b) hs')"
  proof (cases "th_framing h = FRAMING_UNKNOWN")
    case False
    then show ?thesis unfolding hs by (rule handler_run_known_append)
  next
    case unknown: True
    show ?thesis
    proof (cases "5 \<le> length a")
      case False
      then have "handler_run c a (h, s) = Some (a, h\<lparr>th_buffer := a\<rparr>, s)"
        using unknown by (simp add: handler_run_def note_framing_def process_buffer_def)
      then show ?thesis unfolding hs by (simp add: handler_run_buffer)
    next
      case True
      note d = detect_framing_append [OF True, of b]
      show ?thesis
      proof (cases "set_framing c (detect_framing a) h s")
        case None
        with True unknown show ?thesis unfolding hs by (simp add: handler_run_unknown d)
      next
        case (Some r)
        obtain h1 s1 where r: "r = (h1, s1)" by fastforce
        note h1 = set_framing_Some [OF Some [unfolded r]]
        show ?thesis
        proof (cases "th_framing h1 = FRAMING_UNKNOWN")
          case True
          then have df: "detect_framing a = FRAMING_UNKNOWN" using h1 by simp
          have "set_framing c FRAMING_UNKNOWN h1 s1 = Some (h1, s1)"
            using Some [unfolded r df] by (auto simp: set_framing_def Let_def)
          with True Some r unknown \<open>5 \<le> length a\<close> df show ?thesis
            unfolding hs by (simp add: handler_run_unknown d handler_run_buffer)
        next
          case False
          with Some r unknown \<open>5 \<le> length a\<close> handler_run_known_append [OF False, of c a b s1] show ?thesis
            unfolding hs by (simp add: handler_run_unknown d)
        qed
      qed
    qed
  qed
qed

text \<open>
  What the handler does with a sequence of blocks while its buffer has space for them; \<open>handler_loop\<close> closes the connection when the buffer
  is full (\<open>handler_loop_received\<close> in \<open>ME_Unified_Requests\<close> relates the two).
\<close>

fun received_all :: "u32 \<Rightarrow> u8 list list \<Rightarrow> tcp_handler \<Rightarrow> unified_server_t \<Rightarrow> (tcp_handler \<times> unified_server_t) option" where
  "received_all c [] h s = Some (h, s)"
| "received_all c (b # bs) h s = Option.bind (tcp_received c b h s) (\<lambda>(h', s'). received_all c bs h' s')"

lemma handler_run_rest: "handler_run c buf hs = Some (rest, h', s') \<Longrightarrow> th_buffer h' = rest"
  by (auto simp: handler_run_def)

lemma received_all_blocks: "received_all c bs h s = map_option snd (tcp_stream.run_blocks c bs (th_buffer h) (h, s))"
proof (induction bs arbitrary: h s)
  case (Cons b bs)
  show ?case
  proof (cases "handler_run c (th_buffer h @ b) (h, s)")
    case None
    then show ?thesis by (simp add: tcp_received_run)
  next
    case (Some r)
    obtain rest h' s' where r: "r = (rest, h', s')" using prod_cases3 by blast
    with Some handler_run_rest have "th_buffer h' = rest" by blast
    with Some r Cons.IH [of h' s'] show ?thesis by (simp add: tcp_received_run)
  qed
qed simp

theorem received_cut_invariant:
  assumes "concat (b # bs) = concat (c # cs)"
  shows "received_all i (b # bs) h s = received_all i (c # cs) h s"
  unfolding received_all_blocks tcp_stream.cut_invariant [OF assms] ..

lemma received_all_once: "received_all i (b # bs) h s = tcp_received i (concat (b # bs)) h s"
  using received_cut_invariant [of b bs "concat (b # bs)" "[]"]
  by (cases "tcp_received i (concat (b # bs)) h s") auto

end
