(* ===== verification/ME_Unified_Input.thy ===== *)
theory ME_Unified_Input
  imports ME_Unified_Stream
begin

text \<open>
  The input side of the unified server at work: the map from users to clients as a
  direct-mapped table, the queue a request ends up in, the invariant of the server that
  every received byte keeps, and what the server makes of the stream of requests of a client.
\<close>

section \<open>The map from users to clients\<close>

text \<open>
  A table with one entry per slot, where a key takes over the slot of another key it collides
  with.  After any sequence of writes a key has the value of the last write to its slot, if that was its own.
\<close>

locale direct_mapped =
  fixes lookup :: "'m \<Rightarrow> 'k \<Rightarrow> 'v" and store :: "'m \<Rightarrow> 'k \<Rightarrow> 'v \<Rightarrow> 'm"
    and slot :: "'k \<Rightarrow> 'i" and valid :: "'k \<Rightarrow> bool" and nothing :: 'v
  assumes lookup_store: "lookup (store m k v) k' =
      (if \<not> valid k then lookup m k' else if k' = k then v
       else if slot k' = slot k \<and> valid k' then nothing else lookup m k')"
begin

fun writes :: "('k \<times> 'v) list \<Rightarrow> 'm \<Rightarrow> 'm" where
  "writes [] m = m"
| "writes (kv # kvs) m = writes kvs (store m (fst kv) (snd kv))"

lemma writes_append: "writes (a @ b) m = writes b (writes a m)"
  by (induction a arbitrary: m) auto

lemma lookup_writes:
  assumes "valid k" and "\<forall>kv\<in>set kvs. valid (fst kv)"
  shows "lookup (writes kvs m) k =
     (case filter (\<lambda>kv. slot (fst kv) = slot k) (rev kvs) of
        [] \<Rightarrow> lookup m k
      | kv # _ \<Rightarrow> if fst kv = k then snd kv else nothing)"
  using assms(2)
proof (induction kvs rule: rev_induct)
  case (snoc kv kvs)
  then show ?case using assms(1) by (auto simp: writes_append lookup_store)
qed simp

corollary own_slot:
  assumes "valid k" and "\<forall>kv\<in>set kvs. valid (fst kv) \<and> (slot (fst kv) = slot k \<longrightarrow> fst kv = k)"
  shows "lookup (writes kvs m) k = (case filter (\<lambda>kv. fst kv = k) (rev kvs) of [] \<Rightarrow> lookup m k | kv # _ \<Rightarrow> snd kv)"
proof -
  have "filter (\<lambda>kv. slot (fst kv) = slot k) (rev kvs) = filter (\<lambda>kv. fst kv = k) (rev kvs)"
    using assms(2) by (intro filter_cong) auto
  with lookup_writes [of k kvs m] assms have
    "lookup (writes kvs m) k = (case filter (\<lambda>kv. fst kv = k) (rev kvs) of [] \<Rightarrow> lookup m k | kv # _ \<Rightarrow> if fst kv = k then snd kv else nothing)"
    by simp
  also have "\<dots> = (case filter (\<lambda>kv. fst kv = k) (rev kvs) of [] \<Rightarrow> lookup m k | kv # _ \<Rightarrow> snd kv)"
  proof (cases "filter (\<lambda>kv. fst kv = k) (rev kvs)")
    case (Cons kv r)
    then have "fst kv = k" by (auto simp: filter_eq_Cons_iff)
    with Cons show ?thesis by simp
  qed simp
  finally show ?thesis .
qed

end

definition user_slot :: "u32 \<Rightarrow> nat" where
  "user_slot u = unat u mod MAX_USER_ID_MAPPINGS"

lemma user_client_map_get_set:
  "user_client_map_get (user_client_map_set m u c) v =
     (if u = 0 then user_client_map_get m v else if v = u then c
      else if user_slot v = user_slot u \<and> v \<noteq> 0 then 0 else user_client_map_get m v)"
  by (cases "u = 0"; cases "v = 0"; cases "v = u"; cases "user_slot v = user_slot u")
    (simp_all add: user_client_map_get_def user_client_map_set_def user_slot_def [symmetric] Let_def)

interpretation users: direct_mapped user_client_map_get user_client_map_set user_slot "\<lambda>u. u \<noteq> 0" 0
  by unfold_locales (simp add: user_client_map_get_set)

lemma user_client_map_get_init [simp]: "user_client_map_get (user_client_map_init m) u = 0"
  by (simp add: user_client_map_get_def user_client_map_init_def Let_def)

section \<open>Routing\<close>

definition second_ok :: "bool \<Rightarrow> 'a queue_t option \<Rightarrow> bool" where
  "second_ok single q \<longleftrightarrow> (case q of None \<Rightarrow> single | Some q' \<Rightarrow> queue_ok q')"

lemma second_ok_Some [simp]: "second_ok single (Some q) \<longleftrightarrow> queue_ok q"
  by (simp add: second_ok_def)

definition server_ok :: "unified_server_t \<Rightarrow> bool" where
  "server_ok s \<longleftrightarrow> queue_ok (us_input_queue_0 s) \<and> queue_ok (us_output_queue_0 s)
     \<and> second_ok (uc_single_processor (us_config s)) (us_input_queue_1 s)
     \<and> second_ok (uc_single_processor (us_config s)) (us_output_queue_1 s)
     \<and> registry_ok (us_registry s)"

text \<open>The requests that wait for the two processors, and the processor of a request.\<close>

definition waiting :: "unified_server_t \<Rightarrow> bool \<Rightarrow> input_msg_envelope_t list" where
  "waiting s second = (if second then (case us_input_queue_1 s of None \<Rightarrow> [] | Some q \<Rightarrow> contents q) else contents (us_input_queue_0 s))"

lemma waiting_update [simp]:
  "waiting (s\<lparr>us_registry := r\<rparr>) = waiting s" "waiting (s\<lparr>us_tcp_messages_received := n\<rparr>) = waiting s"
  "waiting (s\<lparr>us_udp_messages_received := n\<rparr>) = waiting s"
  by (simp_all add: waiting_def fun_eq_iff)

definition input_symbol :: "input_msg_t \<Rightarrow> string option" where
  "input_symbol input = (case input of INPUT_MSG_NEW_ORDER m \<Rightarrow> Some (no_symbol m) | _ \<Rightarrow> None)"

definition to_second :: "unified_server_t \<Rightarrow> input_msg_t \<Rightarrow> bool" where
  "to_second s input \<longleftrightarrow> \<not> uc_single_processor (us_config s) \<and> get_processor_for_symbol (input_symbol input) \<noteq> 0"

definition envelope_of :: "u32 \<Rightarrow> udp_client_addr_t option \<Rightarrow> input_msg_t \<Rightarrow> input_msg_envelope_t" where
  "envelope_of c addr input = \<lparr>ie_msg = input, ie_client_id = c,
     ie_client_addr = (case addr of Some a \<Rightarrow> a | None \<Rightarrow> \<lparr>ua_addr = 0, ua_port = 0, ua_pad = 0\<rparr>), ie_sequence = 0\<rparr>"

definition put :: "'a \<Rightarrow> 'a list \<Rightarrow> 'a list" where
  "put x xs = (if length xs < LOCKFREE_QUEUE_SIZE - 1 then xs @ [x] else xs)"

definition users_after :: "u32 \<Rightarrow> input_msg_t \<Rightarrow> user_client_map_t \<Rightarrow> user_client_map_t" where
  "users_after c input m = (case input of INPUT_MSG_NEW_ORDER o' \<Rightarrow> user_client_map_set m (no_user_id o') c | _ \<Rightarrow> m)"

lemma enqueue_put: "queue_ok q \<Longrightarrow> queue_ok (snd (queue_enqueue q x)) \<and> contents (snd (queue_enqueue q x)) = put x (contents q)"
  using queue_enqueue_ok [of q x] by (cases "queue_enqueue q x") (auto simp: put_def)

lemma unified_route_input_eq:
  "unified_route_input input c addr s =
     (if \<not> to_second s input
      then Some (s\<lparr>us_user_map := users_after c input (us_user_map s),
                   us_input_queue_0 := snd (queue_enqueue (us_input_queue_0 s) (envelope_of c addr input))\<rparr>)
      else map_option (\<lambda>q. s\<lparr>us_user_map := users_after c input (us_user_map s),
             us_input_queue_1 := Some (snd (queue_enqueue q (envelope_of c addr input)))\<rparr>) (us_input_queue_1 s))"
  by (cases input; cases "us_input_queue_1 s")
    (simp_all add: unified_route_input_def to_second_def input_symbol_def envelope_of_def users_after_def)

lemma unified_route_input_ok:
  assumes ok: "server_ok s"
  obtains s' q0 q1 where "unified_route_input input c addr s = Some s'" and "server_ok s'"
    and "s' = s\<lparr>us_input_queue_0 := q0, us_input_queue_1 := q1, us_user_map := users_after c input (us_user_map s)\<rparr>"
    and "waiting s' = (waiting s)(to_second s input := put (envelope_of c addr input) (waiting s (to_second s input)))"
proof (cases "to_second s input")
  case False
  define s' where "s' = s\<lparr>us_user_map := users_after c input (us_user_map s),
      us_input_queue_0 := snd (queue_enqueue (us_input_queue_0 s) (envelope_of c addr input))\<rparr>"
  from ok enqueue_put [of "us_input_queue_0 s" "envelope_of c addr input"] have "server_ok s'"
    and "waiting s' = (waiting s)(False := put (envelope_of c addr input) (waiting s False))"
    by (simp_all add: server_ok_def s'_def waiting_def fun_eq_iff)
  with False show thesis
    by (intro that [of s' "us_input_queue_1 s'" "us_input_queue_0 s'"]) (simp_all add: unified_route_input_eq s'_def)
next
  case True
  with ok obtain q where q: "us_input_queue_1 s = Some q" "queue_ok q"
    by (auto simp: server_ok_def to_second_def second_ok_def split: option.splits)
  define s' where "s' = s\<lparr>us_user_map := users_after c input (us_user_map s),
      us_input_queue_1 := Some (snd (queue_enqueue q (envelope_of c addr input)))\<rparr>"
  from ok q enqueue_put [of q "envelope_of c addr input"] have "server_ok s'"
    and "waiting s' = (waiting s)(True := put (envelope_of c addr input) (waiting s True))"
    by (simp_all add: server_ok_def s'_def waiting_def fun_eq_iff)
  with True q show thesis
    by (intro that [of s' "us_input_queue_1 s'" "us_input_queue_0 s'"]) (simp_all add: unified_route_input_eq s'_def)
qed


text \<open>What each accepted message does, and a list of them; the rest of the server is as before.\<close>

fun accept_all :: "u32 \<Rightarrow> input_msg_t list \<Rightarrow> unified_server_t \<Rightarrow> unified_server_t option" where
  "accept_all c [] s = Some s"
| "accept_all c (m # ms) s = Option.bind (accept_tcp c m s) (accept_all c ms)"

fun put_all :: "(input_msg_t \<Rightarrow> bool) \<Rightarrow> (input_msg_t \<Rightarrow> 'e) \<Rightarrow> input_msg_t list \<Rightarrow> (bool \<Rightarrow> 'e list) \<Rightarrow> bool \<Rightarrow> 'e list" where
  "put_all second env [] w = w"
| "put_all second env (m # ms) w = put_all second env ms (w(second m := put (env m) (w (second m))))"

text \<open>The descriptors and addresses of the clients.\<close>

definition handles :: "client_registry_t \<Rightarrow> u32 \<Rightarrow> client_handle_t option" where
  "handles reg c = map_option ce_handle (clients reg c)"

lemma handles_dom: "handles reg' = handles reg \<Longrightarrow> dom (clients reg') = dom (clients reg)"
  unfolding handles_def fun_eq_iff dom_def by (metis (mono_tags) map_option_is_None)

definition same_server :: "unified_server_t \<Rightarrow> unified_server_t \<Rightarrow> bool" where
  "same_server s s' \<longleftrightarrow> us_config s' = us_config s \<and> us_output_queue_0 s' = us_output_queue_0 s \<and> us_output_queue_1 s' = us_output_queue_1 s
     \<and> us_wire s' = us_wire s \<and> us_udp_fd s' = us_udp_fd s \<and> us_multicast_fd s' = us_multicast_fd s
     \<and> handles (us_registry s') = handles (us_registry s)"

lemma same_server_refl [simp]: "same_server s s"
  by (simp add: same_server_def)

lemma same_server_trans: "same_server s s' \<Longrightarrow> same_server s' s'' \<Longrightarrow> same_server s s''"
  by (simp add: same_server_def)

lemma same_server_second: "same_server s s' \<Longrightarrow> to_second s' = to_second s"
  by (simp add: same_server_def to_second_def fun_eq_iff)

lemma client_registry_inc_received_ok:
  assumes "registry_ok reg"
  obtains reg' where "client_registry_inc_received c reg = Some reg'" "registry_ok reg'" "handles reg' = handles reg"
proof -
  from update_entry_ok [OF assms, of "\<lambda>e. e\<lparr>ce_messages_received := ce_messages_received e + 1\<rparr>" c] obtain reg' where
    "update_entry c (\<lambda>e. e\<lparr>ce_messages_received := ce_messages_received e + 1\<rparr>) reg = Some (clients reg c \<noteq> None, reg')" "registry_ok reg'"
    "clients reg' = (case clients reg c of None \<Rightarrow> clients reg | Some e \<Rightarrow> (clients reg)(c \<mapsto> e\<lparr>ce_messages_received := ce_messages_received e + 1\<rparr>))"
    by auto
  then show thesis
    by (intro that [of reg']) (auto simp: client_registry_inc_received_def handles_def fun_eq_iff split: option.splits)
qed

text \<open>Both receivers route a message, count it and note it at the client.\<close>

lemma accept_counted_ok:
  assumes ok: "server_ok s"
  obtains s1 reg where "unified_route_input input c addr s = Some s1"
    and "client_registry_inc_received c (us_registry s1) = Some reg"
    and "server_ok (s1\<lparr>us_tcp_messages_received := n, us_udp_messages_received := k, us_registry := reg\<rparr>)"
    and "same_server s (s1\<lparr>us_tcp_messages_received := n, us_udp_messages_received := k, us_registry := reg\<rparr>)"
    and "us_user_map s1 = users_after c input (us_user_map s)"
    and "us_tcp_messages_received s1 = us_tcp_messages_received s" and "us_udp_messages_received s1 = us_udp_messages_received s"
    and "waiting s1 = (waiting s)(to_second s input := put (envelope_of c addr input) (waiting s (to_second s input)))"
proof -
  from unified_route_input_ok [OF ok, of input c addr] obtain s1 q0 q1 where s1: "unified_route_input input c addr s = Some s1" "server_ok s1"
    and eq: "s1 = s\<lparr>us_input_queue_0 := q0, us_input_queue_1 := q1, us_user_map := users_after c input (us_user_map s)\<rparr>"
    and w: "waiting s1 = (waiting s)(to_second s input := put (envelope_of c addr input) (waiting s (to_second s input)))"
    by blast
  from s1 have "registry_ok (us_registry s1)" by (simp add: server_ok_def)
  then obtain reg where reg: "client_registry_inc_received c (us_registry s1) = Some reg" "registry_ok reg"
    "handles reg = handles (us_registry s1)" by (rule client_registry_inc_received_ok)
  show thesis
  proof (rule that [of s1 reg])
    show "server_ok (s1\<lparr>us_tcp_messages_received := n, us_udp_messages_received := k, us_registry := reg\<rparr>)"
      using s1(2) reg(2) by (simp add: server_ok_def)
    show "same_server s (s1\<lparr>us_tcp_messages_received := n, us_udp_messages_received := k, us_registry := reg\<rparr>)"
      using reg(3) by (simp add: same_server_def eq)
  qed (use s1(1) reg(1) w in \<open>simp_all add: eq\<close>)
qed

lemma accept_tcp_ok:
  assumes ok: "server_ok s"
  obtains s' where "accept_tcp c input s = Some s'" and "server_ok s'" and "same_server s s'"
    and "us_user_map s' = users_after c input (us_user_map s)"
    and "us_tcp_messages_received s' = us_tcp_messages_received s + 1"
    and "waiting s' = (waiting s)(to_second s input := put (envelope_of c None input) (waiting s (to_second s input)))"
proof (rule accept_counted_ok [OF ok, where input = input and c = c and addr = None and n = "us_tcp_messages_received s + 1" and k = "us_udp_messages_received s"], goal_cases)
  case (1 s1 reg)
  define s' where "s' = s1\<lparr>us_tcp_messages_received := us_tcp_messages_received s + 1, us_udp_messages_received := us_udp_messages_received s, us_registry := reg\<rparr>"
  have "s' = s1\<lparr>us_tcp_messages_received := us_tcp_messages_received s1 + 1, us_registry := reg\<rparr>"
    unfolding s'_def 1(7,8) [symmetric] by (cases s1) simp
  with 1 have "accept_tcp c input s = Some s'" by (simp add: accept_tcp_def)
  with 1 show ?case by (intro that [of s']) (simp_all add: s'_def)
qed

lemma accept_udp_ok:
  assumes ok: "server_ok s"
  obtains s' where "accept_udp c addr input s = Some s'" and "server_ok s'" and "same_server s s'"
    and "us_user_map s' = users_after c input (us_user_map s)"
    and "us_udp_messages_received s' = us_udp_messages_received s + 1"
    and "waiting s' = (waiting s)(to_second s input := put (envelope_of c (Some addr) input) (waiting s (to_second s input)))"
proof (rule accept_counted_ok [OF ok, where input = input and c = c and addr = "Some addr" and n = "us_tcp_messages_received s" and k = "us_udp_messages_received s + 1"], goal_cases)
  case (1 s1 reg)
  define s' where "s' = s1\<lparr>us_tcp_messages_received := us_tcp_messages_received s, us_udp_messages_received := us_udp_messages_received s + 1, us_registry := reg\<rparr>"
  have "s' = s1\<lparr>us_udp_messages_received := us_udp_messages_received s1 + 1, us_registry := reg\<rparr>"
    unfolding s'_def 1(7,8) [symmetric] by (cases s1) simp
  with 1 have "accept_udp c addr input s = Some s'" by (simp add: accept_udp_def)
  with 1 show ?case by (intro that [of s']) (simp_all add: s'_def)
qed


lemma accept_all_append: "accept_all c (a @ b) s = Option.bind (accept_all c a s) (accept_all c b)"
  by (induction a arbitrary: s) (simp_all split: Option.bind_split)

lemma accept_all_ok:
  assumes "server_ok s"
  obtains s' where "accept_all c ms s = Some s'" and "server_ok s'" and "same_server s s'"
    and "us_user_map s' = fold (users_after c) ms (us_user_map s)"
    and "us_tcp_messages_received s' = us_tcp_messages_received s + of_nat (length ms)"
    and "waiting s' = put_all (to_second s) (envelope_of c None) ms (waiting s)"
  using assms
proof (induction ms arbitrary: s thesis)
  case (Cons m ms)
  from Cons.prems(2) obtain s1 where s1: "accept_tcp c m s = Some s1" "server_ok s1" "same_server s s1"
    "us_user_map s1 = users_after c m (us_user_map s)" "us_tcp_messages_received s1 = us_tcp_messages_received s + 1"
    "waiting s1 = (waiting s)(to_second s m := put (envelope_of c None m) (waiting s (to_second s m)))"
    by (rule accept_tcp_ok)
  from Cons.IH [OF _ s1(2)] obtain s' where s': "accept_all c ms s1 = Some s'" "server_ok s'" "same_server s1 s'"
    "us_user_map s' = fold (users_after c) ms (us_user_map s1)" "us_tcp_messages_received s' = us_tcp_messages_received s1 + of_nat (length ms)"
    "waiting s' = put_all (to_second s1) (envelope_of c None) ms (waiting s1)" by blast
  show ?case
    by (rule Cons.prems(1) [of s'])
      (use s1 s' same_server_trans [OF s1(3) s'(3)] same_server_second [OF s1(3)] in simp_all)
qed simp

text \<open>With enough room in both queues nothing is dropped: each queue receives its requests in the order they came.\<close>

lemma put_all_room:
  assumes "\<forall>k. length (w k) + length (filter (\<lambda>m. second m = k) ms) < LOCKFREE_QUEUE_SIZE"
  shows "put_all second env ms w = (\<lambda>k. w k @ map env (filter (\<lambda>m. second m = k) ms))"
  using assms
proof (induction ms arbitrary: w)
  case (Cons m ms)
  from Cons.prems have "length (w (second m)) < LOCKFREE_QUEUE_SIZE - 1" by (auto dest: spec [of _ "second m"])
  then have p: "put (env m) (w (second m)) = w (second m) @ [env m]" by (simp add: put_def)
  have "\<forall>k. length ((w(second m := w (second m) @ [env m])) k) + length (filter (\<lambda>m. second m = k) ms) < LOCKFREE_QUEUE_SIZE"
    using Cons.prems by (auto split: if_splits)
  from Cons.IH [OF this] have "put_all second env (m # ms) w =
      (\<lambda>k. (w(second m := w (second m) @ [env m])) k @ map env (filter (\<lambda>m. second m = k) ms))" by (simp only: put_all.simps p)
  then show ?case by (simp only:) (auto simp: fun_eq_iff)
qed simp

section \<open>Received bytes\<close>

text \<open>
  Whatever bytes arrive on a connection that speaks a binary protocol, the server stays as it should be and
  the messages found are accepted one by one.  A CSV line can stop it, by the assertion that a cancel fails.
\<close>

lemma parse_binary_ok:
  assumes "server_ok s"
  obtains s' ms where "parse_binary c msg s = Some s'" "accept_all c ms s = Some s'"
proof -
  from parser_total obtain r where r: "binary_message_parser_parse msg = Some r" by blast
  from accept_tcp_ok [OF assms] obtain s' where "accept_tcp c (the r) s = Some s'" by metis
  with r show thesis
    by (cases r) (auto simp: parse_binary_def intro: that [of s "[]"] that [of s' "[the r]"])
qed


lemma process_length_prefixed_ok:
  assumes "server_ok s"
  obtains rest s' ms where "process_length_prefixed c buf s = Some (rest, s')" "accept_all c ms s = Some s'"
  using assms
proof (induction c buf s arbitrary: thesis rule: process_length_prefixed.induct)
  case (1 c buf s)
  let ?n = "un_be32 buf"
  consider (short) "length buf < 4" | (bad) "\<not> length buf < 4" "?n = 0 \<or> ?n > 10000"
    | (part) "\<not> length buf < 4" "\<not> (?n = 0 \<or> ?n > 10000)" "length buf < 4 + unat ?n"
    | (skip) "\<not> length buf < 4" "\<not> (?n = 0 \<or> ?n > 10000)" "\<not> length buf < 4 + unat ?n" "buf ! 4 \<noteq> BINARY_MAGIC"
    | (msg) "\<not> length buf < 4" "\<not> (?n = 0 \<or> ?n > 10000)" "\<not> length buf < 4 + unat ?n" "\<not> buf ! 4 \<noteq> BINARY_MAGIC"
    by blast
  then show ?case
  proof cases
    case short
    then show ?thesis by (intro "1.prems"(1) [of buf s "[]"]) (simp_all add: process_length_prefixed.simps [of c buf])
  next
    case bad
    with "1.IH"(1) [OF bad(1) refl bad(2) _ "1.prems"(2)] "1.prems"(1) show ?thesis
      by (auto simp: process_length_prefixed.simps [of c buf] Let_def)
  next
    case part
    then show ?thesis by (intro "1.prems"(1) [of buf s "[]"]) (simp_all add: process_length_prefixed.simps [of c buf] Let_def)
  next
    case skip
    with "1.IH"(2) [OF skip(1) refl skip(2,3,4) _ "1.prems"(2)] "1.prems"(1) show ?thesis
      by (auto simp: process_length_prefixed.simps [of c buf] Let_def)
  next
    case msg
    from parse_binary_ok [OF "1.prems"(2)] obtain s1 ms1 where s1: "parse_binary c (take (unat ?n) (drop 4 buf)) s = Some s1" "accept_all c ms1 s = Some s1"
      by blast
    with accept_all_ok [OF "1.prems"(2), of c ms1] have "server_ok s1" by auto
    with "1.IH"(3) [OF msg(1) refl msg(2-4) s1(1)] obtain rest s' ms where
      "process_length_prefixed c (drop (4 + unat ?n) buf) s1 = Some (rest, s')" "accept_all c ms s1 = Some s'" by blast
    with s1 msg show ?thesis
      by (intro "1.prems"(1) [of rest s' "ms1 @ ms"]) (simp_all add: process_length_prefixed.simps [of c buf] Let_def accept_all_append)
  qed
qed


text \<open>The loop over raw binary messages serves both transports; \<open>done\<close> relates a server to one that accepted some messages.\<close>

locale acceptor =
  fixes accept :: "u8 list \<Rightarrow> unified_server_t \<Rightarrow> unified_server_t option"
    and accepted :: "input_msg_t list \<Rightarrow> unified_server_t \<Rightarrow> unified_server_t option"
  assumes accept_law: "server_ok s \<Longrightarrow> \<exists>s' ms. accept msg s = Some s' \<and> accepted ms s = Some s'"
    and accepted_ok: "server_ok s \<Longrightarrow> accepted ms s = Some s' \<Longrightarrow> server_ok s'"
    and accepted_append: "accepted (a @ b) s = Option.bind (accepted a s) (accepted b)"
    and accepted_Nil: "accepted [] s = Some s"
begin

lemma raw_binary_accepts:
  assumes "server_ok s"
  shows "\<exists>rest s' ms. process_raw_binary accept buf s = Some (rest, s') \<and> accepted ms s = Some s'"
  using assms
proof (induction buf arbitrary: s rule: length_induct)
  case (1 buf)
  note run = process_raw_binary.simps [of accept buf s]
  consider (short) "length buf < 2" | (skip) "\<not> length buf < 2" "buf ! 0 \<noteq> BINARY_MAGIC \<or> raw_size (buf ! 1) = None"
    | (part) n where "\<not> length buf < 2" "buf ! 0 = BINARY_MAGIC" "raw_size (buf ! 1) = Some n" "length buf < n"
    | (msg) n where "\<not> length buf < 2" "buf ! 0 = BINARY_MAGIC" "raw_size (buf ! 1) = Some n" "\<not> length buf < n"
    by fastforce
  then show ?case
  proof cases
    case short
    then have "process_raw_binary accept buf s = Some (buf, s)" by (simp add: run)
    with accepted_Nil [of s] show ?thesis by blast
  next
    case skip
    then have "process_raw_binary accept buf s = process_raw_binary accept (drop 1 buf) s" by (auto simp: run)
    moreover from skip(1) have "length (drop 1 buf) < length buf" by simp
    ultimately show ?thesis using "1.IH" "1.prems" by metis
  next
    case (part n)
    then have "process_raw_binary accept buf s = Some (buf, s)" by (simp add: run)
    with accepted_Nil [of s] show ?thesis by blast
  next
    case (msg n)
    from accept_law [OF "1.prems"] obtain s1 ms1 where s1: "accept (take n buf) s = Some s1" "accepted ms1 s = Some s1" by blast
    from msg(3) have "0 < n" by (auto simp: raw_size_def split: if_splits)
    with msg have "length (drop n buf) < length buf" by simp
    with "1.IH" accepted_ok [OF "1.prems" s1(2)] obtain rest s' ms where
      r: "process_raw_binary accept (drop n buf) s1 = Some (rest, s')" "accepted ms s1 = Some s'" by blast
    from msg s1(1) r(1) have "process_raw_binary accept buf s = Some (rest, s')" by (simp add: run)
    moreover from s1(2) r(2) have "accepted (ms1 @ ms) s = Some s'" by (simp add: accepted_append)
    ultimately show ?thesis by blast
  qed
qed

end

fun accept_all_udp :: "u32 \<Rightarrow> udp_client_addr_t \<Rightarrow> input_msg_t list \<Rightarrow> unified_server_t \<Rightarrow> unified_server_t option" where
  "accept_all_udp c addr [] s = Some s"
| "accept_all_udp c addr (m # ms) s = Option.bind (accept_udp c addr m s) (accept_all_udp c addr ms)"

lemma accept_all_udp_ok:
  assumes "server_ok s"
  obtains s' where "accept_all_udp c addr ms s = Some s'" and "server_ok s'" and "same_server s s'"
    and "us_user_map s' = fold (users_after c) ms (us_user_map s)"
    and "us_udp_messages_received s' = us_udp_messages_received s + of_nat (length ms)"
    and "waiting s' = put_all (to_second s) (envelope_of c (Some addr)) ms (waiting s)"
  using assms
proof (induction ms arbitrary: s thesis)
  case (Cons m ms)
  from Cons.prems(2) obtain s1 where s1: "accept_udp c addr m s = Some s1" "server_ok s1" "same_server s s1"
    "us_user_map s1 = users_after c m (us_user_map s)" "us_udp_messages_received s1 = us_udp_messages_received s + 1"
    "waiting s1 = (waiting s)(to_second s m := put (envelope_of c (Some addr) m) (waiting s (to_second s m)))"
    by (rule accept_udp_ok)
  from Cons.IH [OF _ s1(2)] obtain s' where s': "accept_all_udp c addr ms s1 = Some s'" "server_ok s'" "same_server s1 s'"
    "us_user_map s' = fold (users_after c) ms (us_user_map s1)" "us_udp_messages_received s' = us_udp_messages_received s1 + of_nat (length ms)"
    "waiting s' = put_all (to_second s1) (envelope_of c (Some addr)) ms (waiting s1)" by blast
  show ?case
    by (rule Cons.prems(1) [of s'])
      (use s1 s' same_server_trans [OF s1(3) s'(3)] same_server_second [OF s1(3)] in simp_all)
qed simp

interpretation tcp_binary: acceptor "parse_binary c" "accept_all c"
proof
  fix s s' msg ms
  assume ok: "server_ok s"
  show "\<exists>s' ms. parse_binary c msg s = Some s' \<and> accept_all c ms s = Some s'" by (rule parse_binary_ok [OF ok]) blast
  assume "accept_all c ms s = Some s'"
  with accept_all_ok [OF ok, of c ms] show "server_ok s'" by auto
qed (simp_all add: accept_all_append)

lemma parse_binary_udp_ok:
  assumes "server_ok s"
  shows "\<exists>s' ms. parse_binary_udp c addr msg s = Some s' \<and> accept_all_udp c addr ms s = Some s'"
proof -
  from parser_total obtain r where r: "binary_message_parser_parse msg = Some r" by blast
  from accept_udp_ok [OF assms] obtain s' where "accept_udp c addr (the r) s = Some s'" by metis
  with r show ?thesis
    by (cases r) (auto simp: parse_binary_udp_def intro: exI [of _ "[]"] exI [of _ "[the r]"])
qed

interpretation udp_binary: acceptor "parse_binary_udp c addr" "accept_all_udp c addr"
proof
  fix s s' ms
  assume ok: "server_ok s" and "accept_all_udp c addr ms s = Some s'"
  with accept_all_udp_ok [OF ok, of c addr ms] show "server_ok s'" by auto
next
  show "accept_all_udp c addr (a @ b) s = Option.bind (accept_all_udp c addr a s) (accept_all_udp c addr b)" for a b s
    by (induction a arbitrary: s) (simp_all split: Option.bind_split)
qed (blast intro: parse_binary_udp_ok | simp)+


lemma process_csv_accepts:
  assumes "process_csv c p buf s = Some (rest, p', s')"
  shows "\<exists>ms. accept_all c ms s = Some s'"
  using assms
proof (induction buf arbitrary: p s rule: length_induct)
  case (1 buf)
  define line where "line = takeWhile (\<lambda>b. b \<noteq> 10) buf"
  note run = process_csv.simps [of c p buf s, folded line_def, unfolded Let_def]
  show ?case
  proof (cases "length line = length buf")
    case True
    with "1.prems" have "accept_all c [] s = Some s'" by (simp add: run)
    then show ?thesis by blast
  next
    case False
    with "1.prems" obtain r p1 s1 where r: "(case r of Some input \<Rightarrow> accept_tcp c input s | None \<Rightarrow> Some s) = Some s1"
      and rest: "process_csv c p1 (drop (length line + 1) buf) s1 = Some (rest, p', s')"
      by (auto simp: run bind_eq_Some_conv)
    from r have "accept_all c (case r of Some input \<Rightarrow> [input] | None \<Rightarrow> []) s = Some s1" by (auto split: option.splits)
    moreover have "length (drop (length line + 1) buf) < length buf" using False by (cases buf) (auto simp: line_def)
    with "1.IH" rest obtain ms where "accept_all c ms s1 = Some s'" by blast
    ultimately have "accept_all c ((case r of Some input \<Rightarrow> [input] | None \<Rightarrow> []) @ ms) s = Some s'"
      by (simp add: accept_all_append)
    then show ?thesis by blast
  qed
qed

lemma process_buffer_accepts:
  assumes ok: "server_ok s" and run: "process_buffer c h s = Some (h', s')"
  shows "\<exists>ms. accept_all c ms s = Some s'"
proof (cases "th_framing h")
  case FRAMING_UNKNOWN
  with run have "accept_all c [] s = Some s'" by (simp add: process_buffer_def)
  then show ?thesis by blast
next
  case FRAMING_LENGTH_PREFIXED
  from ok obtain rest s1 ms where "process_length_prefixed c (th_buffer h) s = Some (rest, s1)" "accept_all c ms s = Some s1"
    by (rule process_length_prefixed_ok)
  with FRAMING_LENGTH_PREFIXED run show ?thesis by (auto simp: process_buffer_def)
next
  case FRAMING_RAW_BINARY
  from tcp_binary.raw_binary_accepts [OF ok] obtain rest s1 ms where
    "process_raw_binary (parse_binary c) (th_buffer h) s = Some (rest, s1)" "accept_all c ms s = Some s1" by blast
  with FRAMING_RAW_BINARY run show ?thesis by (auto simp: process_buffer_def)
next
  case FRAMING_CSV
  with run obtain rest p' where "process_csv c (th_csv_parser h) (th_buffer h) s = Some (rest, p', s')"
    by (auto simp: process_buffer_def bind_eq_Some_conv)
  then show ?thesis by (rule process_csv_accepts)
qed

lemma process_buffer_total:
  assumes ok: "server_ok s" and "th_framing h \<noteq> FRAMING_CSV"
  shows "process_buffer c h s \<noteq> None"
proof (cases "th_framing h")
  case FRAMING_LENGTH_PREFIXED
  from ok obtain rest s1 ms where "process_length_prefixed c (th_buffer h) s = Some (rest, s1)" "accept_all c ms s = Some s1"
    by (rule process_length_prefixed_ok)
  with FRAMING_LENGTH_PREFIXED show ?thesis by (simp add: process_buffer_def)
next
  case FRAMING_RAW_BINARY
  from tcp_binary.raw_binary_accepts [OF ok] obtain rest s1 ms where
    "process_raw_binary (parse_binary c) (th_buffer h) s = Some (rest, s1)" "accept_all c ms s = Some s1" by blast
  with FRAMING_RAW_BINARY show ?thesis by (simp add: process_buffer_def)
qed (use assms in \<open>simp_all add: process_buffer_def\<close>)

text \<open>Noting the framing touches the entry of the client in the registry only.\<close>

lemma set_protocol_ok:
  assumes "registry_ok reg"
  obtains reg' b where "client_registry_set_protocol c p reg = Some (b, reg')" "registry_ok reg'" "handles reg' = handles reg"
proof -
  from client_registry_set_protocol_ok [OF assms, of c p] obtain reg' where
    r: "client_registry_set_protocol c p reg = Some (clients reg c \<noteq> None, reg')" "registry_ok reg'"
    and m: "clients reg' = (case clients reg c of None \<Rightarrow> clients reg
         | Some e \<Rightarrow> (clients reg)(c \<mapsto> if ce_protocol e = CLIENT_PROTOCOL_UNKNOWN then e\<lparr>ce_protocol := p\<rparr> else e))" by blast
  from m have "handles reg' = handles reg" by (cases "clients reg c") (auto simp: handles_def fun_eq_iff)
  with r show thesis by (rule that)
qed

lemma set_framing_ok:
  assumes ok: "server_ok s"
  obtains h' reg where "set_framing c f h s = Some (h', s\<lparr>us_registry := reg\<rparr>)" "registry_ok reg"
    "handles reg = handles (us_registry s)"
proof -
  define p where "p = (if f = FRAMING_CSV then CLIENT_PROTOCOL_CSV else CLIENT_PROTOCOL_BINARY)"
  from ok have r: "registry_ok (us_registry s)" by (simp add: server_ok_def)
  then obtain reg b where reg: "client_registry_set_protocol c p (us_registry s) = Some (b, reg)" "registry_ok reg"
    "handles reg = handles (us_registry s)" by (rule set_protocol_ok)
  show thesis
  proof (cases "f = FRAMING_UNKNOWN")
    case True
    with r show thesis by (intro that [of "h\<lparr>th_framing := f\<rparr>" "us_registry s"]) (simp_all add: set_framing_def)
  next
    case False
    with reg show thesis
      by (intro that [of "h\<lparr>th_framing := f, th_protocol := p\<rparr>" reg]) (cases f; simp add: set_framing_def p_def)+
  qed
qed

lemma note_framing_ok:
  assumes ok: "server_ok s"
  obtains h' reg where "note_framing c h s = Some (h', s\<lparr>us_registry := reg\<rparr>)" "registry_ok reg"
    "handles reg = handles (us_registry s)"
proof (cases "th_framing h = FRAMING_UNKNOWN \<and> length (th_buffer h) \<ge> 5")
  case True
  then show thesis using set_framing_ok [OF ok, of c "detect_framing (th_buffer h)" h] that by (auto simp: note_framing_def)
next
  case False
  then show thesis using ok by (intro that [of h "us_registry s"]) (auto simp: note_framing_def server_ok_def)
qed

theorem tcp_received_ok:
  assumes ok: "server_ok s" and run: "tcp_received c bytes h s = Some (h', s')"
  shows "server_ok s'" and "same_server s s'"
    and "\<exists>reg ms. accept_all c ms (s\<lparr>us_registry := reg\<rparr>) = Some s'"
proof -
  from note_framing_ok [OF ok, of c "h\<lparr>th_buffer := th_buffer h @ bytes\<rparr>"] obtain h1 reg where
    n: "note_framing c (h\<lparr>th_buffer := th_buffer h @ bytes\<rparr>) s = Some (h1, s\<lparr>us_registry := reg\<rparr>)" "registry_ok reg"
      "handles reg = handles (us_registry s)" by blast
  with ok have ok1: "server_ok (s\<lparr>us_registry := reg\<rparr>)" and same: "same_server s (s\<lparr>us_registry := reg\<rparr>)"
    by (simp_all add: server_ok_def same_server_def)
  from run n have "process_buffer c h1 (s\<lparr>us_registry := reg\<rparr>) = Some (h', s')" by (simp add: tcp_received_def)
  from process_buffer_accepts [OF ok1 this] obtain ms where ms: "accept_all c ms (s\<lparr>us_registry := reg\<rparr>) = Some s'" by blast
  from accept_all_ok [OF ok1, of c ms] ms same_server_trans [OF same] show "server_ok s'" "same_server s s'" by auto
  from ms show "\<exists>reg ms. accept_all c ms (s\<lparr>us_registry := reg\<rparr>) = Some s'" by blast
qed


definition csv_start :: "u8 \<Rightarrow> bool" where
  "csv_start b \<longleftrightarrow> b = of_char (CHR ''N'') \<or> b = of_char (CHR ''C'') \<or> b = of_char (CHR ''F'')"

lemma detect_framing_csv: "detect_framing data = FRAMING_CSV \<Longrightarrow> csv_start (data ! 0)"
  by (simp add: detect_framing_def csv_start_def Let_def split: if_splits)

lemma note_framing_Some:
  assumes "note_framing c h s = Some (h1, s1)"
  shows "th_buffer h1 = th_buffer h \<and> (th_framing h1 = th_framing h \<or> th_framing h1 = detect_framing (th_buffer h))"
proof (cases "th_framing h = FRAMING_UNKNOWN \<and> length (th_buffer h) \<ge> 5")
  case True
  with assms have "set_framing c (detect_framing (th_buffer h)) h s = Some (h1, s1)" by (simp add: note_framing_def)
  from set_framing_Some [OF this] show ?thesis by simp
next
  case False
  with assms show ?thesis by (auto simp: note_framing_def)
qed

theorem tcp_received_total:
  assumes ok: "server_ok s" and f: "th_framing h \<noteq> FRAMING_CSV" and start: "\<not> csv_start ((th_buffer h @ bytes) ! 0)"
  shows "tcp_received c bytes h s \<noteq> None"
proof -
  from note_framing_ok [OF ok, of c "h\<lparr>th_buffer := th_buffer h @ bytes\<rparr>"] obtain h1 reg where
    n: "note_framing c (h\<lparr>th_buffer := th_buffer h @ bytes\<rparr>) s = Some (h1, s\<lparr>us_registry := reg\<rparr>)" "registry_ok reg"
      "handles reg = handles (us_registry s)" by blast
  have "detect_framing (th_buffer h @ bytes) \<noteq> FRAMING_CSV" using start detect_framing_csv by blast
  with note_framing_Some [OF n(1)] f have "th_framing h1 \<noteq> FRAMING_CSV" by auto
  moreover from ok n have "server_ok (s\<lparr>us_registry := reg\<rparr>)" by (simp add: server_ok_def)
  ultimately have "process_buffer c h1 (s\<lparr>us_registry := reg\<rparr>) \<noteq> None" by (intro process_buffer_total)
  with n(1) show ?thesis by (simp add: tcp_received_def)
qed

end
