(* ===== verification/ME_Unified_Requests.thy ===== *)
theory ME_Unified_Requests
  imports ME_Unified_Input
begin

text \<open>
  From the client to the input queues: the requests a client encodes (\<^verbatim>\<open>tools/client/codec.c\<close>), sent as
  frames on a TCP connection or as datagrams, and what the unified server makes of the bytes.
\<close>

section \<open>Encoded requests\<close>

definition encode_request :: "codec_t \<Rightarrow> input_msg_t \<Rightarrow> u8 list option \<times> codec_t" where
  "encode_request c m = (case m of
     INPUT_MSG_NEW_ORDER o' \<Rightarrow> codec_encode_new_order c (no_user_id o') (no_symbol o') (no_price o') (no_quantity o') (no_side o') (no_user_order_id o')
   | INPUT_MSG_CANCEL x \<Rightarrow> codec_encode_cancel c (cm_user_id x) (cm_user_order_id x)
   | INPUT_MSG_FLUSH \<Rightarrow> codec_encode_flush c
   | INPUT_MSG_OTHER _ \<Rightarrow> (None, c))"

definition sendable :: "input_msg_t \<Rightarrow> bool" where
  "sendable m = (case m of
     INPUT_MSG_NEW_ORDER o' \<Rightarrow> csv_symbol (no_symbol o') \<and> (\<forall>c\<in>set (no_symbol o'). line_char c) \<and> length (no_symbol o') \<le> 8
       \<and> side_is_valid (no_side o') \<and> no_quantity o' \<noteq> 0
   | INPUT_MSG_CANCEL x \<Rightarrow> cm_user_id x \<noteq> 0 \<and> cm_symbol x = []
   | INPUT_MSG_FLUSH \<Rightarrow> True
   | INPUT_MSG_OTHER _ \<Rightarrow> False)"

fun encode_requests :: "codec_t \<Rightarrow> input_msg_t list \<Rightarrow> u8 list list option" where
  "encode_requests c [] = Some []"
| "encode_requests c (m # ms) = (case encode_request c m of
     (None, _) \<Rightarrow> None
   | (Some bs, c') \<Rightarrow> map_option ((#) bs) (encode_requests c' ms))"

lemma finish_encode_keeps [simp]: "cd_send_encoding (snd (finish_encode c r)) = cd_send_encoding c"
  by (simp add: finish_encode_def Let_def split: prod.split)

lemma encode_request_keeps [simp]: "cd_send_encoding (snd (encode_request c m)) = cd_send_encoding c"
  by (simp add: encode_request_def codec_encode_new_order_def codec_encode_cancel_def codec_encode_flush_def split: input_msg_t.split)

subsection \<open>Binary\<close>

text \<open>A message that the parser reads to its end, as the encoder writes it.\<close>

definition carries :: "u8 list \<Rightarrow> input_msg_t \<Rightarrow> bool" where
  "carries bs m \<longleftrightarrow> binary_message_parser_parse bs = Some (Some m) \<and> 2 \<le> length bs \<and> raw_size (bs ! 1) = Some (length bs)"

lemma carries_start:
  assumes "carries bs m"
  shows "bs ! 0 = BINARY_MAGIC \<and> 2 \<le> length bs \<and> length bs \<le> 27 \<and> bs \<noteq> []"
proof -
  from assms have "binary_message_validate bs" by (auto simp: carries_def intro: parser_validates)
  with assms show ?thesis by (auto simp: carries_def binary_message_validate_def raw_size_def split: if_splits)
qed

lemma encode_binary_carries:
  assumes "cd_send_encoding c = ENCODING_BINARY" and "sendable m"
  shows "\<exists>bs. fst (encode_request c m) = Some bs \<and> carries bs m"
proof (cases m)
  case (INPUT_MSG_NEW_ORDER o')
  obtain n b where e: "encode_binary_new_order (cd_encode_buffer c) (no_user_id o') (no_symbol o') (no_price o') (no_quantity o') (no_side o')
      (no_user_order_id o') = (n, b)" by fastforce
  then have n: "n = 27" "b 1 = BINARY_MSG_NEW_ORDER"
    by (auto simp: encode_binary_new_order_def Let_def arr_write_def bytes_new_order_def)
  have "c_string (no_symbol o')" using INPUT_MSG_NEW_ORDER assms(2) by (auto simp: sendable_def c_string_def line_char_def)
  with new_order_roundtrip [OF _ _ _ _ e] INPUT_MSG_NEW_ORDER assms(2)
  have "binary_message_parser_parse (arr_read b 0 n) = Some (Some m)" by (simp add: sendable_def)
  with n e INPUT_MSG_NEW_ORDER assms(1) show ?thesis
    by (simp add: encode_request_def codec_encode_new_order_def finish_encode_ok carries_def raw_size_def)
next
  case (INPUT_MSG_CANCEL x)
  obtain n b where e: "encode_binary_cancel (cd_encode_buffer c) (cm_user_id x) (cm_user_order_id x) = (n, b)" by fastforce
  then have n: "n = 10" "b 1 = BINARY_MSG_CANCEL"
    by (auto simp: encode_binary_cancel_def Let_def arr_write_def bytes_cancel_def)
  from cancel_roundtrip [OF e] INPUT_MSG_CANCEL assms(2) have "binary_message_parser_parse (arr_read b 0 n) = Some (Some m)"
    by (cases x) (simp add: sendable_def)
  with n e INPUT_MSG_CANCEL assms(1) show ?thesis
    by (simp add: encode_request_def codec_encode_cancel_def finish_encode_ok carries_def raw_size_def)
next
  case INPUT_MSG_FLUSH
  obtain n b where e: "encode_binary_flush (cd_encode_buffer c) = (n, b)" by fastforce
  then have n: "n = 2" "b 1 = BINARY_MSG_FLUSH" by (auto simp: encode_binary_flush_def Let_def arr_write_def bytes_flush_def)
  from flush_roundtrip [OF e] INPUT_MSG_FLUSH have "binary_message_parser_parse (arr_read b 0 n) = Some (Some m)" by simp
  with n e INPUT_MSG_FLUSH assms(1) show ?thesis
    by (simp add: encode_request_def codec_encode_flush_def finish_encode_ok carries_def raw_size_def)
next
  case (INPUT_MSG_OTHER t)
  with assms(2) show ?thesis by (simp add: sendable_def)
qed

lemma encode_requests_binary:
  assumes "cd_send_encoding c = ENCODING_BINARY" and "\<forall>m\<in>set ms. sendable m"
  obtains bss where "encode_requests c ms = Some bss" and "list_all2 carries bss ms"
  using assms
proof (induction ms arbitrary: c thesis)
  case (Cons m ms)
  from Cons.prems obtain bs where bs: "fst (encode_request c m) = Some bs" "carries bs m"
    using encode_binary_carries [of c m] by auto
  from Cons.IH [of "snd (encode_request c m)"] Cons.prems(2,3) obtain bss where
    "encode_requests (snd (encode_request c m)) ms = Some bss" "list_all2 carries bss ms" by auto
  with bs show ?case by (intro Cons.prems(1) [of "bs # bss"]) (auto split: prod.split)
qed simp


lemma unat_frame_length: "length bs \<le> 27 \<Longrightarrow> unat (of_nat (length bs) :: u32) = length bs"
  by (simp add: unat_of_nat)

lemma process_frame:
  assumes "carries bs m"
  shows "process_length_prefixed c (frame bs @ r) s = Option.bind (accept_tcp c m s) (process_length_prefixed c r)"
proof -
  let ?n = "of_nat (length bs) :: u32"
  note st = carries_start [OF assms]
  then have n: "unat ?n = length bs" by (simp add: unat_frame_length)
  have un: "un_be32 (frame bs @ r) = ?n" by (simp add: frame_def un_be32_be32_append)
  have "?n \<noteq> 0" using n st by auto
  moreover have "\<not> ?n > 10000" using n st by (simp add: word_less_nat_alt)
  moreover have "(frame bs @ r) ! 4 = BINARY_MAGIC" using st by (simp add: frame_def nth_append)
  moreover have "take (length bs) (drop 4 (frame bs @ r)) = bs" and "drop (4 + length bs) (frame bs @ r) = r"
    by (simp_all add: frame_def)
  moreover have "parse_binary c bs s = accept_tcp c m s" using assms by (simp add: parse_binary_def carries_def)
  ultimately show ?thesis
    by (subst process_length_prefixed.simps) (simp add: un n)
qed

lemma process_frames:
  assumes "list_all2 carries bss ms"
  shows "process_length_prefixed c (concat (map frame bss) @ r) s = Option.bind (accept_all c ms s) (process_length_prefixed c r)"
  using assms
proof (induction bss ms arbitrary: s rule: list_all2_induct)
  case (Cons bs bss m ms)
  then show ?case by (simp add: process_frame [of bs m] split: Option.bind_split)
qed simp

text \<open>The framing is told from the first byte behind the length of the first frame.\<close>

lemma detect_framing_frame:
  assumes len: "0 < length bs" "length bs < 1000"
  shows "detect_framing (frame bs @ r) = (if bs ! 0 = BINARY_MAGIC then FRAMING_LENGTH_PREFIXED else FRAMING_UNKNOWN)"
proof -
  let ?n = "of_nat (length bs) :: u32"
  have n: "unat ?n = length bs" using len by (simp add: unat_of_nat)
  have un: "un_be32 (frame bs @ r) = ?n" by (simp add: frame_def un_be32_be32_append)
  have "?n > 0" using n len by (simp add: word_less_nat_alt)
  moreover have "?n < 1000" using n len by (simp add: word_less_nat_alt)
  moreover have "(frame bs @ r) ! 4 = bs ! 0" using len by (simp add: frame_def nth_append)
  moreover have "drop_bit 24 ?n = 0" using n len by (simp add: drop_bit_eq_div div_word_less word_less_nat_alt)
  then have "(frame bs @ r) ! 0 = 0" by (simp add: frame_def be32_def)
  ultimately show ?thesis using len by (simp add: detect_framing_def un Let_def)
qed

definition new_handler :: "message_parser_t \<Rightarrow> tcp_handler" where
  "new_handler p = \<lparr>th_buffer = [], th_framing = FRAMING_UNKNOWN, th_protocol = CLIENT_PROTOCOL_UNKNOWN, th_csv_parser = p\<rparr>"

subsection \<open>CSV\<close>

definition request_fields :: "input_msg_t \<Rightarrow> string list" where
  "request_fields m = (case m of
     INPUT_MSG_NEW_ORDER o' \<Rightarrow> [''N'', fmt_u (no_user_id o'), no_symbol o', fmt_u (no_price o'), fmt_u (no_quantity o'), fmt_c (no_side o'), fmt_u (no_user_order_id o')]
   | INPUT_MSG_CANCEL x \<Rightarrow> [''C'', fmt_u (cm_user_id x), fmt_u (cm_user_order_id x)]
   | INPUT_MSG_FLUSH \<Rightarrow> [''F'']
   | INPUT_MSG_OTHER _ \<Rightarrow> [])"

definition csv_request :: "u8 list \<Rightarrow> input_msg_t \<Rightarrow> bool" where
  "csv_request bs m \<longleftrightarrow> bs = map of_char (csv_line (request_fields m) @ [newline]) \<and> length bs < 100
     \<and> (\<forall>p. \<exists>p'. message_parser_parse p (csv_line (request_fields m)) = Some (Some m, p'))
     \<and> newline \<notin> set (csv_line (request_fields m)) \<and> CHR 0x00 \<notin> set (csv_line (request_fields m))"

lemma trim_whitespace_newline:
  assumes "length l < MAX_TRIM_ITERATIONS"
  shows "trim_whitespace (l @ [newline]) = trim_whitespace l"
proof -
  have sp: "isspace newline" by (simp add: isspace_def)
  show ?thesis
  proof (cases "\<forall>c\<in>set l. isspace c")
    case True
    then have e: "dropWhile isspace l = []" "dropWhile isspace (l @ [newline]) = []" using sp by simp_all
    from assms have "length (l @ [newline]) \<le> MAX_TRIM_ITERATIONS" "length l \<le> MAX_TRIM_ITERATIONS" by simp_all
    then show ?thesis by (simp only: trim_whitespace_eq e)
  next
    case False
    with assms sp show ?thesis by (auto simp: trim_whitespace_eq dropWhile_append)
  qed
qed

lemma message_parser_parse_newline:
  assumes "length l + 1 < MAX_LINE_LENGTH"
  shows "message_parser_parse p (l @ [newline]) = message_parser_parse p l"
proof -
  from assms have "trim_whitespace (l @ [newline]) = trim_whitespace l" by (intro trim_whitespace_newline) simp
  with assms show ?thesis by (simp add: message_parser_parse_def)
qed


lemma field_ok_letter: "field_ok ''N''" "field_ok ''C''" "field_ok ''F''"
  by (simp_all add: field_ok_def line_char_def)

lemma request_fields_ok:
  assumes "sendable m"
  shows "\<forall>t\<in>set (request_fields m). field_ok t" and "length (csv_line (request_fields m)) < 99" and "csv_line (request_fields m) \<noteq> []"
    and "csv_start (of_char (hd (csv_line (request_fields m))))"
proof -
  show "\<forall>t\<in>set (request_fields m). field_ok t"
  proof (cases m)
    case (INPUT_MSG_NEW_ORDER o')
    with assms have "field_ok (no_symbol o')" by (simp add: sendable_def field_ok_def csv_symbol_def)
    moreover from INPUT_MSG_NEW_ORDER assms have "field_ok (fmt_c (no_side o'))" by (intro field_ok_side) (simp add: sendable_def)
    ultimately show ?thesis using INPUT_MSG_NEW_ORDER by (simp add: request_fields_def field_ok_letter)
  qed (simp_all add: request_fields_def field_ok_letter)
  show "length (csv_line (request_fields m)) < 99"
  proof (cases m)
    case (INPUT_MSG_NEW_ORDER o')
    with assms show ?thesis
      using length_csv_line [of "request_fields m"] length_fmt_u [of "no_user_id o'"] length_fmt_u [of "no_price o'"]
        length_fmt_u [of "no_quantity o'"] length_fmt_u [of "no_user_order_id o'"]
      by (simp add: request_fields_def sendable_def fmt_c_def)
  next
    case (INPUT_MSG_CANCEL x)
    then show ?thesis
      using length_csv_line [of "request_fields m"] length_fmt_u [of "cm_user_id x"] length_fmt_u [of "cm_user_order_id x"]
      by (simp add: request_fields_def)
  qed (use assms length_csv_line [of "request_fields m"] in \<open>simp_all add: request_fields_def sendable_def\<close>)
  show "csv_line (request_fields m) \<noteq> []" "csv_start (of_char (hd (csv_line (request_fields m))))"
    using assms by (cases m; simp add: request_fields_def sendable_def csv_line_def csv_start_def)+
qed

definition csv_encoded :: "input_msg_t \<Rightarrow> nat \<times> string" where
  "csv_encoded m = (case m of
     INPUT_MSG_NEW_ORDER o' \<Rightarrow> encode_csv_new_order CODEC_MAX_MESSAGE_SIZE (no_user_id o') (no_symbol o') (no_price o') (no_quantity o') (no_side o') (no_user_order_id o')
   | INPUT_MSG_CANCEL x \<Rightarrow> encode_csv_cancel CODEC_MAX_MESSAGE_SIZE (cm_user_id x) (cm_user_order_id x)
   | INPUT_MSG_FLUSH \<Rightarrow> encode_csv_flush CODEC_MAX_MESSAGE_SIZE
   | INPUT_MSG_OTHER _ \<Rightarrow> (0, []))"

lemma csv_encoded_text:
  assumes s: "sendable m" and l: "l = csv_line (request_fields m) @ [newline]"
  shows "csv_encoded m = (length l, l)"
proof -
  have "snprintf CODEC_MAX_MESSAGE_SIZE l = (length l, l) \<and> encoded_len CODEC_MAX_MESSAGE_SIZE (length l) = length l"
    using request_fields_ok(2) [OF s] l by (intro snprintf_fits) simp_all
  then show ?thesis using s unfolding l
    by (cases m) (simp_all add: csv_encoded_def encode_csv_new_order_def encode_csv_cancel_def encode_csv_flush_def request_fields_def
      csv_line_def sendable_def)
qed

lemma csv_encoded_read:
  assumes "sendable m"
  shows "\<exists>n b p'. csv_encoded m = (n, b) \<and> message_parser_parse p (take n b) = Some (Some m, p')"
proof (cases m)
  case (INPUT_MSG_NEW_ORDER o')
  with assms csv_new_order_roundtrip [of "no_symbol o'" "no_side o'" "no_quantity o'" CODEC_MAX_MESSAGE_SIZE "no_user_id o'" "no_price o'" "no_user_order_id o'" p]
  show ?thesis by (auto simp: csv_encoded_def sendable_def)
next
  case (INPUT_MSG_CANCEL x)
  then have "m = INPUT_MSG_CANCEL \<lparr>cm_user_id = cm_user_id x, cm_user_order_id = cm_user_order_id x, cm_symbol = []\<rparr>"
    using assms by (cases x) (simp add: sendable_def)
  with INPUT_MSG_CANCEL assms csv_cancel_roundtrip [of CODEC_MAX_MESSAGE_SIZE "cm_user_id x" "cm_user_order_id x" p] show ?thesis
    by (auto simp: csv_encoded_def sendable_def)
next
  case INPUT_MSG_FLUSH
  with csv_flush_roundtrip [of CODEC_MAX_MESSAGE_SIZE p] show ?thesis by (auto simp: csv_encoded_def)
qed (use assms in \<open>simp add: sendable_def\<close>)

lemma csv_line_read:
  assumes "sendable m"
  shows "\<exists>p'. message_parser_parse p (csv_line (request_fields m)) = Some (Some m, p')"
  using csv_encoded_read [OF assms, of p] csv_encoded_text [OF assms refl] message_parser_parse_newline [of "csv_line (request_fields m)" p]
    request_fields_ok(2) [OF assms] by auto

lemma encode_csv_request:
  assumes enc: "cd_send_encoding c \<noteq> ENCODING_BINARY" and s: "sendable m"
  shows "\<exists>bs. fst (encode_request c m) = Some bs \<and> csv_request bs m"
proof -
  define l where "l = csv_line (request_fields m) @ [newline]"
  have "fst (encode_request c m) = fst (finish_encode c (csv_bytes (cd_encode_buffer c) (length l, l)))"
    using enc s csv_encoded_text [OF s l_def]
    by (cases m) (simp_all add: encode_request_def codec_encode_new_order_def codec_encode_cancel_def codec_encode_flush_def csv_encoded_def sendable_def)
  moreover obtain bs where bs: "fst (finish_encode c (csv_bytes (cd_encode_buffer c) (length l, l))) = Some bs" "map byte_char bs = take (length l) l"
    using finish_encode_csv [OF refl, of "length l" l c "cd_encode_buffer c"] by (auto simp: l_def)
  moreover from bs(2) have "bs = map of_char l" by (metis map_map map_idI of_char_byte_char comp_apply take_all order_refl)
  moreover have "csv_request (map of_char l) m"
    using csv_line_chars [OF request_fields_ok(1) [OF s]] request_fields_ok(2) [OF s] csv_line_read [OF s]
    by (auto simp: csv_request_def l_def line_char_def)
  ultimately show ?thesis by simp
qed


text \<open>Lines on a connection without frames, and a datagram with one request.\<close>

lemma no_newline_bytes:
  assumes "newline \<notin> set line"
  shows "(10 :: u8) \<notin> set (map of_char line)"
proof
  assume "(10 :: u8) \<in> set (map of_char line)"
  then obtain ch where ch: "ch \<in> set line" "of_char ch = (10 :: u8)" by auto
  have "of_char newline = (10 :: u8)" by simp
  then have "ch = newline" using ch(2) by (metis byte_char_of_char)
  with ch(1) assms show False by simp
qed

lemma csv_request_line:
  assumes "csv_request bs m"
  obtains line where "bs = map of_char line @ [10]" and "newline \<notin> set line" and "CHR 0x00 \<notin> set line"
    and "\<forall>p. \<exists>p'. message_parser_parse p line = Some (Some m, p')"
  using assms by (intro that [of "csv_line (request_fields m)"]) (auto simp: csv_request_def)

lemma takeWhile_line:
  assumes "x \<notin> set l"
  shows "takeWhile (\<lambda>b. b \<noteq> x) (l @ x # r) = l"
  using assms by (induction l) auto

lemma process_csv_line:
  assumes "newline \<notin> set line" and "CHR 0x00 \<notin> set line"
  shows "process_csv c p (map of_char line @ 10 # r) s = Option.bind (message_parser_parse p line)
     (\<lambda>(m, p'). Option.bind (case m of Some input \<Rightarrow> accept_tcp c input s | None \<Rightarrow> Some s) (process_csv c p' r))"
proof -
  let ?buf = "map of_char line @ 10 # r"
  have t: "takeWhile (\<lambda>b. b \<noteq> 10) ?buf = map of_char line" by (rule takeWhile_line [OF no_newline_bytes [OF assms(1)]])
  have nul: "takeWhile (\<lambda>ch. ch \<noteq> CHR 0x00) line = line" using assms(2) by (auto simp: takeWhile_eq_all_conv)
  have "length (map of_char line :: u8 list) \<noteq> length ?buf" "drop (length (map of_char line :: u8 list) + 1) ?buf = r" by simp_all
  then show ?thesis unfolding process_csv.simps [of c p ?buf s] t Let_def map_byte_char nul by simp
qed

lemma process_csv_request:
  assumes "csv_request bs m"
  obtains p' where "process_csv c p (bs @ r) s = Option.bind (accept_tcp c m s) (process_csv c p' r)"
proof -
  from assms obtain line where l: "bs = map of_char line @ [10]" "newline \<notin> set line" "CHR 0x00 \<notin> set line"
    "\<forall>p. \<exists>p'. message_parser_parse p line = Some (Some m, p')" by (rule csv_request_line)
  then obtain p' where "message_parser_parse p line = Some (Some m, p')" by blast
  with process_csv_line [OF l(2,3), of c p r s] show thesis by (intro that [of p']) (simp add: l(1))
qed

lemma process_csv_requests:
  assumes "list_all2 csv_request bss ms"
  shows "\<exists>p'. process_csv c p (concat bss @ r) s = Option.bind (accept_all c ms s) (process_csv c p' r)"
  using assms
proof (induction bss ms arbitrary: p s rule: list_all2_induct)
  case (Cons bs bss m ms)
  from Cons.hyps(1) obtain p1 where p1: "process_csv c p (bs @ concat bss @ r) s = Option.bind (accept_tcp c m s) (process_csv c p1 (concat bss @ r))"
    by (rule process_csv_request)
  show ?case
  proof (cases "accept_tcp c m s")
    case None
    with p1 show ?thesis by simp
  next
    case (Some s1)
    with p1 Cons.IH [of p1 s1] show ?thesis by auto
  qed
qed auto


lemma detect_csv:
  assumes "csv_start (buf ! 0)" and "4 \<le> length buf"
  shows "detect_framing buf = FRAMING_CSV"
  using assms by (auto simp: detect_framing_def csv_start_def)

subsection \<open>Raw binary\<close>

lemma process_raw_request:
  assumes "carries bs m"
  shows "process_raw_binary accept (bs @ r) s = Option.bind (accept bs s) (process_raw_binary accept r)"
proof -
  note st = carries_start [OF assms]
  from assms have size: "raw_size (bs ! 1) = Some (length bs)" by (simp add: carries_def)
  from st have "(bs @ r) ! 0 = BINARY_MAGIC" "(bs @ r) ! 1 = bs ! 1" by (simp_all add: nth_append)
  with st size show ?thesis by (subst process_raw_binary.simps) simp
qed

lemma process_raw_requests:
  assumes "list_all2 carries bss ms"
  shows "process_raw_binary (parse_binary c) (concat bss @ r) s = Option.bind (accept_all c ms s) (process_raw_binary (parse_binary c) r)"
  using assms
proof (induction bss ms arbitrary: s rule: list_all2_induct)
  case (Cons bs bss m ms)
  then have "parse_binary c bs s = accept_tcp c m s" by (simp add: parse_binary_def carries_def)
  with Cons show ?case by (simp add: process_raw_request [of bs m] split: Option.bind_split)
qed simp

section \<open>A connection\<close>

text \<open>
  What a server has to show for a list of requests: its invariant, the users of the orders, and each
  request in the queue of its processor, in the order they came.
\<close>

definition took :: "u32 \<Rightarrow> udp_client_addr_t option \<Rightarrow> input_msg_t list \<Rightarrow> unified_server_t \<Rightarrow> unified_server_t \<Rightarrow> bool" where
  "took c addr ms s s' \<longleftrightarrow> server_ok s' \<and> same_server s s' \<and> us_user_map s' = fold (users_after c) ms (us_user_map s)
     \<and> waiting s' = put_all (to_second s) (envelope_of c addr) ms (waiting s)"

lemma registry_update_ok:
  assumes "server_ok s" and "registry_ok reg" and "handles reg = handles (us_registry s)"
  shows "server_ok (s\<lparr>us_registry := reg\<rparr>)" and "same_server s (s\<lparr>us_registry := reg\<rparr>)"
  using assms by (simp_all add: server_ok_def same_server_def)

lemma accept_all_took:
  assumes ok: "server_ok s" and reg: "registry_ok reg" "handles reg = handles (us_registry s)"
  obtains s' where "accept_all c ms (s\<lparr>us_registry := reg\<rparr>) = Some s'" and "took c None ms s s'"
proof -
  note r = registry_update_ok [OF ok reg]
  from r(1) obtain s' where s': "accept_all c ms (s\<lparr>us_registry := reg\<rparr>) = Some s'" "server_ok s'" "same_server (s\<lparr>us_registry := reg\<rparr>) s'"
    "us_user_map s' = fold (users_after c) ms (us_user_map (s\<lparr>us_registry := reg\<rparr>))"
    "us_tcp_messages_received s' = us_tcp_messages_received (s\<lparr>us_registry := reg\<rparr>) + of_nat (length ms)"
    "waiting s' = put_all (to_second (s\<lparr>us_registry := reg\<rparr>)) (envelope_of c None) ms (waiting (s\<lparr>us_registry := reg\<rparr>))"
    by (rule accept_all_ok)
  with same_server_trans [OF r(2) s'(3)] show thesis
    by (intro that) (simp_all add: took_def same_server_second [OF r(2)])
qed

lemma received_detected:
  assumes ok: "server_ok s" and len: "5 \<le> length buf" and cut: "concat blocks = buf"
    and det: "detect_framing buf = f" "f \<noteq> FRAMING_UNKNOWN"
    and run: "\<And>h1 s1. th_framing h1 = f \<Longrightarrow> th_buffer h1 = buf \<Longrightarrow>
      \<exists>h'. th_buffer h' = [] \<and> process_buffer c h1 s1 = map_option (Pair h') (accept_all c ms s1)"
  shows "\<exists>h' s'. received_all c blocks (new_handler p) s = Some (h', s') \<and> th_buffer h' = [] \<and> took c None ms s s'"
proof -
  let ?h = "new_handler p"
  from len cut have "concat blocks \<noteq> []" by (metis list.size(3) not_numeral_le_zero)
  then obtain b bs' where blocks: "blocks = b # bs'" by (cases blocks) auto
  from set_framing_ok [OF ok, of c f "?h\<lparr>th_buffer := buf\<rparr>"] obtain h1 reg where
    sf: "set_framing c f (?h\<lparr>th_buffer := buf\<rparr>) s = Some (h1, s\<lparr>us_registry := reg\<rparr>)" "registry_ok reg"
      "handles reg = handles (us_registry s)" by blast
  from set_framing_Some [OF sf(1)] have h1: "th_framing h1 = f" "th_buffer h1 = buf" by simp_all
  from ok sf(2,3) obtain s' where s': "accept_all c ms (s\<lparr>us_registry := reg\<rparr>) = Some s'" "took c None ms s s'" by (rule accept_all_took)
  from run [OF h1, of "s\<lparr>us_registry := reg\<rparr>"] s'(1) obtain h' where
    h': "th_buffer h' = []" "process_buffer c h1 (s\<lparr>us_registry := reg\<rparr>) = Some (h', s')" by auto
  from sf(1) det len h'(2) have "tcp_received c buf ?h s = Some (h', s')"
    by (simp add: tcp_received_def note_framing_def new_handler_def)
  then have "received_all c blocks ?h s = Some (h', s')"
    using received_all_once [of c b bs' ?h s] cut blocks by simp
  with h'(1) s'(2) show ?thesis by blast
qed

text \<open>The server receives the requests of a client in arbitrary blocks: as frames, as raw binary messages or as lines.\<close>

theorem received_frames:
  assumes ok: "server_ok s" and cs: "list_all2 carries bss ms" and ms: "ms \<noteq> []" and cut: "concat blocks = concat (map frame bss)"
  shows "\<exists>h' s'. received_all c blocks (new_handler p) s = Some (h', s') \<and> th_buffer h' = [] \<and> took c None ms s s'"
proof -
  let ?buf = "concat (map frame bss)"
  from cs ms obtain bs m bss' where bs: "bss = bs # bss'" "carries bs m" by (cases bss; cases ms) auto
  from bs carries_start [OF bs(2)] have len: "5 \<le> length ?buf" and det: "detect_framing ?buf = FRAMING_LENGTH_PREFIXED"
    by (simp_all add: detect_framing_frame)
  show ?thesis
  proof (rule received_detected [OF ok len cut det])
    fix h1 :: tcp_handler and s1 assume "th_framing h1 = FRAMING_LENGTH_PREFIXED" "th_buffer h1 = ?buf"
    then show "\<exists>h'. th_buffer h' = [] \<and> process_buffer c h1 s1 = map_option (Pair h') (accept_all c ms s1)"
      using process_frames [OF cs, of c "[]" s1]
      by (intro exI [of _ "h1\<lparr>th_buffer := []\<rparr>"]) (cases "accept_all c ms s1"; simp add: process_buffer_def process_length_prefixed.simps [of c "[]"])
  qed simp
qed

theorem received_lines:
  assumes ok: "server_ok s" and cs: "list_all2 csv_request bss ms" and sd: "\<forall>m\<in>set ms. sendable m" and len: "5 \<le> length (concat bss)"
    and cut: "concat blocks = concat bss"
  shows "\<exists>h' s'. received_all c blocks (new_handler p) s = Some (h', s') \<and> th_buffer h' = [] \<and> took c None ms s s'"
proof -
  from len obtain bs bss' where bs: "bss = bs # bss'" by (cases bss) auto
  with cs obtain m ms' where m: "ms = m # ms'" "csv_request bs m" by (cases ms) auto
  with sd request_fields_ok(3,4) [of m] have "csv_start (concat bss ! 0)"
    by (cases "csv_line (request_fields m)") (auto simp: bs csv_request_def)
  with len have det: "detect_framing (concat bss) = FRAMING_CSV" by (intro detect_csv) simp_all
  show ?thesis
  proof (rule received_detected [OF ok len cut det])
    fix h1 :: tcp_handler and s1 assume h1: "th_framing h1 = FRAMING_CSV" "th_buffer h1 = concat bss"
    from process_csv_requests [OF cs, of c "th_csv_parser h1" "[]" s1] obtain p' where
      "process_csv c (th_csv_parser h1) (concat bss) s1 = Option.bind (accept_all c ms s1) (process_csv c p' [])" by auto
    then show "\<exists>h'. th_buffer h' = [] \<and> process_buffer c h1 s1 = map_option (Pair h') (accept_all c ms s1)" using h1
      by (intro exI [of _ "h1\<lparr>th_buffer := [], th_csv_parser := p'\<rparr>"])
        (cases "accept_all c ms s1"; simp add: process_buffer_def process_csv.simps [of c p' "[]"])
  qed simp
qed

text \<open>Lines inside frames, which is how the client sends them, are not recognised: nothing is taken and the bytes stay in the buffer.\<close>

theorem received_framed_lines:
  assumes "0 < length bs" and "length bs < 1000" and "bs ! 0 \<noteq> BINARY_MAGIC" and cut: "concat (b # blocks) = frame bs @ r"
  shows "received_all c (b # blocks) (new_handler p) s = Some ((new_handler p)\<lparr>th_buffer := frame bs @ r\<rparr>, s)"
proof -
  have "detect_framing (frame bs @ r) = FRAMING_UNKNOWN" using assms(1-3) by (simp add: detect_framing_frame)
  then have "tcp_received c (frame bs @ r) (new_handler p) s = Some ((new_handler p)\<lparr>th_buffer := frame bs @ r\<rparr>, s)"
    by (simp add: tcp_received_def note_framing_def set_framing_def process_buffer_def new_handler_def)
  then show ?thesis using received_all_once [of c b blocks "new_handler p" s] cut by simp
qed


text \<open>The loops only ever shorten the buffer, so a short stream never fills it and the handler reads it to its end.\<close>

lemma process_length_prefixed_shorter: "process_length_prefixed c buf s = Some (rest, s') \<Longrightarrow> length rest \<le> length buf"
proof (induction c buf s rule: process_length_prefixed.induct)
  case (1 c buf s)
  show ?case
  proof (cases "length buf < 4 \<or> (\<not> (un_be32 buf = 0 \<or> un_be32 buf > 10000) \<and> length buf < 4 + unat (un_be32 buf))")
    case True
    with "1.prems" have "rest = buf" by (subst (asm) process_length_prefixed.simps) (auto simp: Let_def split: if_splits)
    then show ?thesis by simp
  next
    case False
    let ?bad = "un_be32 buf = 0 \<or> un_be32 buf > 10000"
    from False have four: "\<not> length buf < 4" by simp
    consider (bad) ?bad | (skip) "\<not> ?bad" "buf ! 4 \<noteq> BINARY_MAGIC" | (msg) "\<not> ?bad" "\<not> buf ! 4 \<noteq> BINARY_MAGIC" by blast
    then show ?thesis
    proof cases
      case bad
      with "1.prems" four have "process_length_prefixed c (drop 1 buf) s = Some (rest, s')"
        by (subst (asm) process_length_prefixed.simps) (simp add: Let_def)
      with "1.IH"(1) [OF four refl bad] show ?thesis by simp
    next
      case skip
      with "1.prems" False have "process_length_prefixed c (drop (4 + unat (un_be32 buf)) buf) s = Some (rest, s')"
        by (subst (asm) process_length_prefixed.simps) (simp add: Let_def)
      with "1.IH"(2) [OF four refl skip(1) _ skip(2)] False skip(1) show ?thesis by simp
    next
      case msg
      with "1.prems" False obtain s1 where s1: "parse_binary c (take (unat (un_be32 buf)) (drop 4 buf)) s = Some s1"
        and "process_length_prefixed c (drop (4 + unat (un_be32 buf)) buf) s1 = Some (rest, s')"
        by (subst (asm) process_length_prefixed.simps) (auto simp: Let_def bind_eq_Some_conv)
      with "1.IH"(3) [OF four refl msg(1) _ msg(2) s1] False msg(1) show ?thesis by simp
    qed
  qed
qed

lemma process_raw_binary_shorter: "process_raw_binary accept buf s = Some (rest, s') \<Longrightarrow> length rest \<le> length buf"
proof (induction buf arbitrary: s rule: length_induct)
  case (1 buf)
  have less: "length (drop n buf) < length buf" if "0 < n" "\<not> length buf < 2" for n using that by simp
  from "1.prems" show ?case
    by (subst (asm) process_raw_binary.simps)
      (force simp: raw_size_def bind_eq_Some_conv split: if_splits dest: "1.IH" [rule_format, OF less, rotated 2])
qed


lemma process_csv_shorter: "process_csv c p buf s = Some (rest, p', s') \<Longrightarrow> length rest \<le> length buf"
proof (induction buf arbitrary: p s rule: length_induct)
  case (1 buf)
  define line where "line = takeWhile (\<lambda>b. b \<noteq> 10) buf"
  note run = process_csv.simps [of c p buf s, folded line_def, unfolded Let_def]
  show ?case
  proof (cases "length line = length buf")
    case True
    with "1.prems" show ?thesis by (simp add: run)
  next
    case False
    with "1.prems" obtain p1 s1 where "process_csv c p1 (drop (length line + 1) buf) s1 = Some (rest, p', s')"
      by (auto simp: run bind_eq_Some_conv)
    moreover have "length (drop (length line + 1) buf) < length buf" using False by (cases buf) (auto simp: line_def)
    ultimately show ?thesis using "1.IH" by fastforce
  qed
qed

lemma process_buffer_shorter:
  assumes "process_buffer c h s = Some (h', s')"
  shows "length (th_buffer h') \<le> length (th_buffer h)"
proof (cases "th_framing h")
  case FRAMING_LENGTH_PREFIXED
  with assms obtain rest where "process_length_prefixed c (th_buffer h) s = Some (rest, s')" "h' = h\<lparr>th_buffer := rest\<rparr>"
    by (auto simp: process_buffer_def bind_eq_Some_conv)
  then show ?thesis by (auto dest: process_length_prefixed_shorter)
next
  case FRAMING_RAW_BINARY
  with assms obtain rest where "process_raw_binary (parse_binary c) (th_buffer h) s = Some (rest, s')" "h' = h\<lparr>th_buffer := rest\<rparr>"
    by (auto simp: process_buffer_def bind_eq_Some_conv)
  then show ?thesis by (auto dest: process_raw_binary_shorter)
next
  case FRAMING_CSV
  with assms obtain rest p' where "process_csv c (th_csv_parser h) (th_buffer h) s = Some (rest, p', s')"
    "h' = h\<lparr>th_buffer := rest, th_csv_parser := p'\<rparr>"
    by (auto simp: process_buffer_def bind_eq_Some_conv)
  then show ?thesis by (auto dest: process_csv_shorter)
next
  case FRAMING_UNKNOWN
  with assms show ?thesis by (simp add: process_buffer_def)
qed

lemma tcp_received_shorter:
  assumes "tcp_received c bytes h s = Some (h', s')"
  shows "length (th_buffer h') \<le> length (th_buffer h) + length bytes"
proof -
  from assms obtain h1 s1 where "note_framing c (h\<lparr>th_buffer := th_buffer h @ bytes\<rparr>) s = Some (h1, s1)" "process_buffer c h1 s1 = Some (h', s')"
    by (auto simp: tcp_received_def bind_eq_Some_conv)
  with note_framing_Some process_buffer_shorter show ?thesis by fastforce
qed

lemma handler_loop_received:
  assumes "\<forall>b\<in>set blocks. b \<noteq> []" and "length (th_buffer h) + length (concat blocks) < TCP_RECV_BUFFER_SIZE"
  shows "handler_loop c (map Recv_bytes blocks @ rs) h s = Option.bind (received_all c blocks h s) (\<lambda>(h', s'). handler_loop c rs h' s')"
  using assms
proof (induction blocks arbitrary: h s)
  case (Cons b blocks)
  show ?case
  proof (cases "tcp_received c b h s")
    case None
    with Cons.prems show ?thesis by simp
  next
    case (Some hs)
    obtain h' s' where hs: "hs = (h', s')" by (cases hs)
    with Some tcp_received_shorter [of c b h s h' s'] Cons.prems(2) have "length (th_buffer h') + length (concat blocks) < TCP_RECV_BUFFER_SIZE" by simp
    moreover have "length b \<le> TCP_RECV_BUFFER_SIZE - length (th_buffer h)" using Cons.prems(2) by simp
    ultimately show ?thesis using Cons.IH [of h' s'] Cons.prems Some hs by (simp add: Let_def)
  qed
qed simp

lemma message_parser_init_total: "message_parser_init p \<noteq> None"
  by (simp add: message_parser_init_def asserts)

definition gone :: "u32 \<Rightarrow> unified_server_t \<Rightarrow> unified_server_t \<Rightarrow> bool" where
  "gone c s s' \<longleftrightarrow> (\<exists>reg. s' = s\<lparr>us_registry := reg\<rparr> \<and> registry_ok reg \<and> clients reg = (clients (us_registry s))(c := None))"

text \<open>
  A connection from the first byte to its end: the handler takes every request of the stream, however it arrives, and
  then removes the client.
\<close>

lemma tcp_session:
  assumes blocks: "\<forall>b\<in>set blocks. b \<noteq> []" "length (concat blocks) < TCP_RECV_BUFFER_SIZE"
    and rec: "\<And>p. \<exists>h' s1. received_all c blocks (new_handler p) s = Some (h', s1) \<and> th_buffer h' = [] \<and> took c None ms s s1"
  shows "\<exists>s1 s'. tcp_client_handler c (map Recv_bytes blocks @ [Recv_closed]) s = Some s' \<and> took c None ms s s1 \<and> gone c s1 s'"
proof -
  from message_parser_init_total obtain p where p: "message_parser_init \<lparr>mp_line_buffer = [], mp_tokens = (\<lambda>_. []), mp_num_tokens = 0\<rparr> = Some p"
    by blast
  from rec [of p] obtain h' s1 where r: "received_all c blocks (new_handler p) s = Some (h', s1)" "th_buffer h' = []" "took c None ms s s1" by blast
  have "handler_loop c (map Recv_bytes blocks @ [Recv_closed]) (new_handler p) s = Some s1"
    using handler_loop_received [OF blocks(1), of "new_handler p" c "[Recv_closed]" s] blocks(2) r by (simp add: new_handler_def)
  moreover from r(3) have "registry_ok (us_registry s1)" by (simp add: took_def server_ok_def)
  with client_registry_remove_ok [of "us_registry s1" c] obtain reg where
    "client_registry_remove c (us_registry s1) = Some (clients (us_registry s1) c \<noteq> None, reg)" "registry_ok reg" "clients reg = (clients (us_registry s1))(c := None)"
    by blast
  ultimately show ?thesis using p r(3) by (auto simp: tcp_client_handler_def new_handler_def [symmetric] gone_def)
qed

end
