(* ===== verification/ME_Unified_Datagrams.thy ===== *)
theory ME_Unified_Datagrams
  imports ME_Unified_Requests
begin

text \<open>
  The UDP receiver of the unified server: a datagram with a request of a client, in either
  encoding, registers its sender and ends in the queue of the processor; an arbitrary datagram
  keeps the server as it should be.
\<close>

lemma client_registry_get_protocol_ok:
  assumes ok: "registry_ok reg"
  shows "client_registry_get_protocol reg c = Some (case clients reg c of None \<Rightarrow> CLIENT_PROTOCOL_UNKNOWN | Some e \<Rightarrow> ce_protocol e)"
proof (cases "c = 0")
  case True
  have "clients reg 0 = None" using ok by (auto simp: registry_ok_def clients_def table_ok_def members_None)
  then show ?thesis using True by (simp add: client_registry_get_protocol_def)
next
  case False
  have tab: "table_ok (cr_entries reg)" using ok by (simp add: registry_ok_def)
  show ?thesis
  proof (cases rule: find_slot_by_id_cases [OF tab False])
    case (1 i)
    then have "ce_active (cr_entries reg i)" by (simp add: used_slots_def)
    with 1 False show ?thesis by (simp add: client_registry_get_protocol_def clients_def)
  next
    case 2
    with False show ?thesis by (simp add: client_registry_get_protocol_def clients_def)
  qed
qed

lemma client_registry_touch_ok:
  assumes "registry_ok reg"
  obtains reg' where "client_registry_touch c now reg = Some reg'" "registry_ok reg'" "handles reg' = handles reg"
proof -
  from update_entry_ok [OF assms, of "\<lambda>e. e\<lparr>ce_last_seen := now\<rparr>" c] obtain reg' where
    r: "update_entry c (\<lambda>e. e\<lparr>ce_last_seen := now\<rparr>) reg = Some (clients reg c \<noteq> None, reg')" "registry_ok reg'"
    and m: "clients reg' = (case clients reg c of None \<Rightarrow> clients reg | Some e \<Rightarrow> (clients reg)(c \<mapsto> e\<lparr>ce_last_seen := now\<rparr>))" by auto
  from m have "handles reg' = handles reg" by (cases "clients reg c") (auto simp: handles_def fun_eq_iff)
  with r show thesis by (intro that [of reg']) (simp_all add: client_registry_touch_def)
qed

section \<open>The steps of the receiver\<close>

definition udp_protocol :: "client_protocol_t \<Rightarrow> u8 list \<Rightarrow> client_protocol_t" where
  "udp_protocol known data = (if known = CLIENT_PROTOCOL_UNKNOWN then unified_detect_protocol data else known)"

lemma note_protocol_ok:
  assumes ok: "registry_ok reg"
    and known: "known = (case clients reg c of None \<Rightarrow> CLIENT_PROTOCOL_UNKNOWN | Some e \<Rightarrow> ce_protocol e)"
  obtains reg2 where "registry_ok reg2" "handles reg2 = handles reg"
    "note_protocol c data (s\<lparr>us_registry := reg\<rparr>) = Some (udp_protocol known data, s\<lparr>us_registry := reg2\<rparr>)"
proof -
  have get: "client_registry_get_protocol reg c = Some known" using client_registry_get_protocol_ok [OF ok, of c] known by simp
  show thesis
  proof (cases "known = CLIENT_PROTOCOL_UNKNOWN \<and> unified_detect_protocol data \<noteq> CLIENT_PROTOCOL_UNKNOWN")
  case True
  from ok obtain reg2 b where "client_registry_set_protocol c (unified_detect_protocol data) reg = Some (b, reg2)" "registry_ok reg2"
    "handles reg2 = handles reg" by (rule set_protocol_ok)
  with True show thesis
    by (intro that [of reg2]) (simp_all add: note_protocol_def get udp_protocol_def)
next
  case False
  with ok show thesis
    by (intro that [of reg]) (auto simp: note_protocol_def get udp_protocol_def)
  qed
qed

lemma udp_datagram_steps:
  assumes add: "client_registry_get_or_add_udp addr now (us_registry s) = Some (c, reg)" "c \<noteq> 0" "registry_ok reg"
    and known: "known = (case clients reg c of None \<Rightarrow> CLIENT_PROTOCOL_UNKNOWN | Some e \<Rightarrow> ce_protocol e)"
  obtains reg2 where "registry_ok reg2" "handles reg2 = handles reg"
    and "udp_datagram addr now now' data p s = Option.bind (udp_messages (udp_protocol known data) c addr data p (s\<lparr>us_registry := reg2\<rparr>))
      (\<lambda>(p', s'). Option.bind (client_registry_touch c now' (us_registry s')) (\<lambda>reg3. Some (p', s'\<lparr>us_registry := reg3\<rparr>)))"
proof -
  from add(3) known obtain reg2 where "registry_ok reg2" "handles reg2 = handles reg"
    "note_protocol c data (s\<lparr>us_registry := reg\<rparr>) = Some (udp_protocol known data, s\<lparr>us_registry := reg2\<rparr>)" by (rule note_protocol_ok)
  with add show thesis by (intro that) (simp_all add: udp_datagram_def)
qed

lemma udp_client_nonzero:
  assumes "registry_ok reg" and "udp_client reg addr c"
  shows "c \<noteq> 0"
proof
  assume "c = 0"
  moreover have "clients reg 0 = None" using assms(1) by (auto simp: registry_ok_def clients_def table_ok_def members_None)
  ultimately show False using assms(2) by (simp add: udp_client_def)
qed

text \<open>
  The sender of a datagram is registered, its messages are processed in a server that differs in the registry
  only, and its entry is touched.
\<close>

theorem udp_datagram_processed:
  assumes ok: "server_ok s" and room: "udp_room (us_registry s)"
  obtains c reg known where "client_registry_get_or_add_udp addr now (us_registry s) = Some (c, reg)" and "udp_client reg addr c"
    and "server_ok (s\<lparr>us_registry := reg\<rparr>)"
    and "\<exists>e. clients reg c = Some e \<and> known = ce_protocol e"
    and "\<And>ms. (\<And>s2. server_ok s2 \<Longrightarrow> \<exists>p'. udp_messages (udp_protocol known data) c addr data p s2 = map_option (Pair p') (accept_all_udp c addr ms s2))
      \<Longrightarrow> \<exists>p' s'. udp_datagram addr now now' data p s = Some (p', s') \<and> took c (Some addr) ms (s\<lparr>us_registry := reg\<rparr>) s'"
proof -
  from ok have "registry_ok (us_registry s)" by (simp add: server_ok_def)
  from client_registry_get_or_add_udp_ok [OF this room, of addr now] obtain c reg where
    add: "client_registry_get_or_add_udp addr now (us_registry s) = Some (c, reg)" "registry_ok reg" "udp_client reg addr c" by blast
  define known where "known = (case clients reg c of None \<Rightarrow> CLIENT_PROTOCOL_UNKNOWN | Some e \<Rightarrow> ce_protocol e)"
  have c: "c \<noteq> 0" using udp_client_nonzero add(2,3) by blast
  from ok add(2) have ok1: "server_ok (s\<lparr>us_registry := reg\<rparr>)" by (simp add: server_ok_def)
  show thesis
  proof (rule that [OF add(1,3) ok1])
    show "\<exists>e. clients reg c = Some e \<and> known = ce_protocol e" using add(3) by (auto simp: udp_client_def known_def)
  next
    fix ms
    assume msgs: "\<And>s2. server_ok s2 \<Longrightarrow> \<exists>p'. udp_messages (udp_protocol known data) c addr data p s2 = map_option (Pair p') (accept_all_udp c addr ms s2)"
    from udp_datagram_steps [OF add(1) c add(2) known_def, where now' = now' and data = data and p = p] obtain reg2 where
      r2: "registry_ok reg2" "handles reg2 = handles reg"
      and run: "udp_datagram addr now now' data p s = Option.bind (udp_messages (udp_protocol known data) c addr data p (s\<lparr>us_registry := reg2\<rparr>))
        (\<lambda>(p', s'). Option.bind (client_registry_touch c now' (us_registry s')) (\<lambda>reg3. Some (p', s'\<lparr>us_registry := reg3\<rparr>)))" by blast
    let ?s1 = "s\<lparr>us_registry := reg\<rparr>" and ?s2 = "s\<lparr>us_registry := reg2\<rparr>"
    have eq: "?s2 = ?s1\<lparr>us_registry := reg2\<rparr>" by simp
    note r = registry_update_ok [OF ok1, of reg2, folded eq]
    from r(1) r2 have ok2: "server_ok ?s2" by simp
    from accept_all_udp_ok [OF this, of c addr ms] obtain s3 where s3: "accept_all_udp c addr ms ?s2 = Some s3" "server_ok s3" "same_server ?s2 s3"
      "us_user_map s3 = fold (users_after c) ms (us_user_map ?s2)" "waiting s3 = put_all (to_second ?s2) (envelope_of c (Some addr)) ms (waiting ?s2)"
      by metis
    from msgs [OF ok2] s3(1) obtain p' where p': "udp_messages (udp_protocol known data) c addr data p ?s2 = Some (p', s3)" by auto
    from s3(2) have "registry_ok (us_registry s3)" by (simp add: server_ok_def)
    then obtain reg3 where r3: "client_registry_touch c now' (us_registry s3) = Some reg3" "registry_ok reg3" "handles reg3 = handles (us_registry s3)"
      by (rule client_registry_touch_ok)
    note t = registry_update_ok [OF s3(2) r3(2,3)]
    from r(2) r2 have same: "same_server ?s1 ?s2" by simp
    from same_server_trans [OF same_server_trans [OF same s3(3)] t(2)] t(1) s3(4,5) same_server_second [OF same]
    have "took c (Some addr) ms ?s1 (s3\<lparr>us_registry := reg3\<rparr>)" by (simp add: took_def)
    with run p' r3(1) show "\<exists>p' s'. udp_datagram addr now now' data p s = Some (p', s') \<and> took c (Some addr) ms ?s1 s'" by simp
  qed
qed


section \<open>One request\<close>

lemma udp_messages_binary:
  assumes "carries data m"
  shows "udp_messages CLIENT_PROTOCOL_BINARY c addr data p s = map_option (Pair p) (accept_all_udp c addr [m] s)"
proof -
  have "parse_binary_udp c addr data s = accept_udp c addr m s" using assms by (simp add: parse_binary_udp_def carries_def)
  with process_raw_request [OF assms, of "parse_binary_udp c addr" "[]" s] show ?thesis
    by (cases "accept_udp c addr m s") (simp_all add: udp_messages_def process_raw_binary.simps [of _ "[]"])
qed

lemma udp_messages_csv:
  assumes "csv_request data m" and "sendable m"
  shows "\<exists>p'. udp_messages CLIENT_PROTOCOL_CSV c addr data p s = map_option (Pair p') (accept_all_udp c addr [m] s)"
proof -
  let ?l = "csv_line (request_fields m)"
  from assms(1) have data: "data = map of_char (?l @ [newline])" "length data < 100" "newline \<notin> set ?l" "CHR 0x00 \<notin> set ?l"
    unfolding csv_request_def by blast+
  have "\<forall>c\<in>set (?l @ [newline]). c \<noteq> CHR 0x00" using data(4) by auto
  then have "takeWhile (\<lambda>c. c \<noteq> CHR 0x00) (?l @ [newline]) = ?l @ [newline]" by (simp only: takeWhile_eq_all_conv)
  then have read: "takeWhile (\<lambda>c. c \<noteq> CHR 0x00) (map byte_char data) = ?l @ [newline]" unfolding data(1) map_byte_char .
  have line: "takeWhile (\<lambda>c. c \<noteq> newline) (?l @ [newline]) = ?l" using takeWhile_line [OF data(3), of "[]"] by simp
  from assms(1) obtain p' where p': "message_parser_parse p ?l = Some (Some m, p')" by (auto simp: csv_request_def)
  note start = request_fields_ok(3,4) [OF assms(2)]
  then have "hd ?l \<noteq> CHR 0x0D" by (auto simp: csv_start_def)
  with start(1) p' have "udp_csv c addr p (?l @ [newline]) s = Option.bind (accept_udp c addr m s) (udp_csv c addr p' [])"
    by (subst udp_csv.simps) (simp add: line Let_def)
  then show ?thesis using data(2)
    by (intro exI [of _ p']) (cases "accept_udp c addr m s"; simp add: udp_messages_def read udp_csv.simps [of c addr p' "[]"])
qed

lemma detect_requests:
  shows "carries data m \<Longrightarrow> unified_detect_protocol data = CLIENT_PROTOCOL_BINARY"
    and "csv_request data m \<Longrightarrow> sendable m \<Longrightarrow> unified_detect_protocol data = CLIENT_PROTOCOL_CSV"
proof -
  show "carries data m \<Longrightarrow> unified_detect_protocol data = CLIENT_PROTOCOL_BINARY"
    using carries_start [of data m] by (simp add: unified_detect_protocol_def)
  assume csv: "csv_request data m" "sendable m"
  with request_fields_ok(3,4) [OF csv(2)] have "data \<noteq> []" "csv_start (data ! 0)"
    by (cases "csv_line (request_fields m)"; simp add: csv_request_def)+
  then show "unified_detect_protocol data = CLIENT_PROTOCOL_CSV"
    by (auto simp: unified_detect_protocol_def csv_start_def)
qed

definition speaks :: "client_registry_t \<Rightarrow> udp_client_addr_t \<Rightarrow> client_protocol_t \<Rightarrow> bool" where
  "speaks reg addr q \<longleftrightarrow> (\<forall>c e. udp_client reg addr c \<longrightarrow> clients reg c = Some e \<longrightarrow> ce_protocol e = CLIENT_PROTOCOL_UNKNOWN \<or> ce_protocol e = q)"

lemma speaks_added:
  assumes "registry_ok reg" "udp_room reg" and "client_registry_get_or_add_udp addr now reg = Some (c, reg')"
    and "speaks reg addr q" and "clients reg' c = Some e"
  shows "ce_protocol e = CLIENT_PROTOCOL_UNKNOWN \<or> ce_protocol e = q"
proof -
  from client_registry_get_or_add_udp_ok [OF assms(1,2), of addr now] assms(3) have
    "udp_client reg' addr c" and r: "if \<exists>c'. udp_client reg addr c' then reg' = reg
        else clients reg c = None \<and> clients reg' = (clients reg)(c \<mapsto> new_entry c TRANSPORT_UDP (Udp_addr addr) now)" by auto
  with assms(4,5) show ?thesis by (auto simp: speaks_def new_entry_def split: if_splits)
qed

theorem udp_request:
  assumes ok: "server_ok s" and room: "udp_room (us_registry s)" and sd: "sendable m"
    and data: "if q = CLIENT_PROTOCOL_BINARY then carries data m else csv_request data m" and q: "q = CLIENT_PROTOCOL_BINARY \<or> q = CLIENT_PROTOCOL_CSV"
    and sp: "speaks (us_registry s) addr q"
  shows "\<exists>c reg p' s'. client_registry_get_or_add_udp addr now (us_registry s) = Some (c, reg) \<and> udp_client reg addr c
     \<and> udp_datagram addr now now' data p s = Some (p', s') \<and> took c (Some addr) [m] (s\<lparr>us_registry := reg\<rparr>) s'"
proof (rule udp_datagram_processed [OF ok room, of addr now data p now'], goal_cases)
  case (1 c reg known)
  from 1(4) obtain e where e: "clients reg c = Some e" "known = ce_protocol e" by blast
  from ok have "registry_ok (us_registry s)" by (simp add: server_ok_def)
  from speaks_added [OF this room 1(1) sp e(1)] e(2) have "known = CLIENT_PROTOCOL_UNKNOWN \<or> known = q" by simp
  with data q detect_requests [of data m] sd have u: "udp_protocol known data = q" by (auto simp: udp_protocol_def split: if_splits)
  have "\<exists>p'. udp_messages (udp_protocol known data) c addr data p s2 = map_option (Pair p') (accept_all_udp c addr [m] s2)" for s2
    using data q udp_messages_binary [of data m c addr p s2] udp_messages_csv [of data m c addr p s2] sd unfolding u by auto
  with 1(5) [of "[m]"] 1(1,2) show ?case by blast
qed


section \<open>Any datagram\<close>

lemma udp_csv_accepts:
  assumes "udp_csv c addr p chars s = Some (p', s')"
  shows "\<exists>ms. accept_all_udp c addr ms s = Some s'"
  using assms
proof (induction chars arbitrary: p s rule: length_induct)
  case (1 chars)
  define line where "line = takeWhile (\<lambda>ch. ch \<noteq> newline) chars"
  note run = udp_csv.simps [of c addr p chars s, folded line_def, unfolded Let_def]
  show ?case
  proof (cases "chars = []")
    case True
    have "accept_all_udp c addr [] s = Some s'" using "1.prems" unfolding run by (simp add: True)
    then show ?thesis by blast
  next
    case False
    then have less: "length (drop (length line + 1) chars) < length chars" by simp
    show ?thesis
    proof (cases "line = [] \<or> hd line = CHR 0x0D")
      case True
      with False "1.prems" have "udp_csv c addr p (drop (length line + 1) chars) s = Some (p', s')" by (simp add: run)
      with "1.IH" less show ?thesis by blast
    next
      case skip: False
      with False "1.prems" obtain r p1 s1 where r: "(case r of Some input \<Rightarrow> accept_udp c addr input s | None \<Rightarrow> Some s) = Some s1"
        and rest: "udp_csv c addr p1 (drop (length line + 1) chars) s1 = Some (p', s')"
        by (auto simp: run bind_eq_Some_conv)
      from "1.IH" less rest obtain ms where "accept_all_udp c addr ms s1 = Some s'" by blast
      with r have "accept_all_udp c addr ((case r of Some input \<Rightarrow> [input] | None \<Rightarrow> []) @ ms) s = Some s'"
        by (auto split: option.splits)
      then show ?thesis by blast
    qed
  qed
qed

lemma udp_messages_accepts:
  assumes "server_ok s" and "udp_messages q c addr data p s = Some (p', s')"
  shows "\<exists>ms. accept_all_udp c addr ms s = Some s'"
proof (cases "q = CLIENT_PROTOCOL_BINARY")
  case True
  from udp_binary.raw_binary_accepts [OF assms(1), of c addr data] obtain rest s1 ms where
    "process_raw_binary (parse_binary_udp c addr) data s = Some (rest, s1)" "accept_all_udp c addr ms s = Some s1" by blast
  with True assms(2) show ?thesis by (auto simp: udp_messages_def)
next
  case False
  with assms(2) have "udp_csv c addr p (takeWhile (\<lambda>c. c \<noteq> CHR 0x00) (map byte_char data)) s = Some (p', s')"
    by (auto simp: udp_messages_def assert_that_def split: if_splits)
  then show ?thesis by (rule udp_csv_accepts)
qed

lemma udp_datagram_keeps:
  assumes ok: "server_ok s" and room: "udp_room (us_registry s)" and run: "udp_datagram addr now now' data p s = Some (p', s')"
  shows "server_ok s' \<and> us_config s' = us_config s \<and> us_output_queue_0 s' = us_output_queue_0 s \<and> us_output_queue_1 s' = us_output_queue_1 s
     \<and> (\<forall>i h. handles (us_registry s') i = Some h \<longrightarrow> handles (us_registry s) i = Some h \<or> h = Udp_addr addr)"
proof -
  from ok have "registry_ok (us_registry s)" by (simp add: server_ok_def)
  from client_registry_get_or_add_udp_ok [OF this room, of addr now] obtain c reg where
    add: "client_registry_get_or_add_udp addr now (us_registry s) = Some (c, reg)" "registry_ok reg" "udp_client reg addr c"
    and new: "if \<exists>c'. udp_client (us_registry s) addr c' then reg = us_registry s
      else clients (us_registry s) c = None \<and> clients reg = (clients (us_registry s))(c \<mapsto> new_entry c TRANSPORT_UDP (Udp_addr addr) now)" by blast
  from new have new: "\<forall>i h. handles reg i = Some h \<longrightarrow> handles (us_registry s) i = Some h \<or> h = Udp_addr addr"
    by (auto simp: handles_def new_entry_def split: if_splits)
  have c: "c \<noteq> 0" using udp_client_nonzero add(2,3) by blast
  define known where "known = (case clients reg c of None \<Rightarrow> CLIENT_PROTOCOL_UNKNOWN | Some e \<Rightarrow> ce_protocol e)"
  define q where "q = udp_protocol known data"
  from udp_datagram_steps [OF add(1) c add(2) known_def, where now' = now' and data = data and p = p, folded q_def] obtain reg2 where
    r2: "registry_ok reg2" "handles reg2 = handles reg" and u: "udp_datagram addr now now' data p s = Option.bind (udp_messages q c addr data p (s\<lparr>us_registry := reg2\<rparr>))
      (\<lambda>(p', s'). Option.bind (client_registry_touch c now' (us_registry s')) (\<lambda>reg3. Some (p', s'\<lparr>us_registry := reg3\<rparr>)))" by blast
  from run u obtain p2 s2 where m: "udp_messages q c addr data p (s\<lparr>us_registry := reg2\<rparr>) = Some (p2, s2)"
    and t: "Option.bind (client_registry_touch c now' (us_registry s2)) (\<lambda>reg3. Some (p2, s2\<lparr>us_registry := reg3\<rparr>)) = Some (p', s')"
    by (cases "udp_messages q c addr data p (s\<lparr>us_registry := reg2\<rparr>)") auto
  from t obtain reg3 where s2: "client_registry_touch c now' (us_registry s2) = Some reg3" "s' = s2\<lparr>us_registry := reg3\<rparr>"
    by (cases "client_registry_touch c now' (us_registry s2)") auto
  from ok r2(1) have ok2: "server_ok (s\<lparr>us_registry := reg2\<rparr>)" by (simp add: server_ok_def)
  from udp_messages_accepts [OF ok2 m] obtain ms where ms: "accept_all_udp c addr ms (s\<lparr>us_registry := reg2\<rparr>) = Some s2" by blast
  with accept_all_udp_ok [OF ok2, of c addr ms] have a: "server_ok s2" "same_server (s\<lparr>us_registry := reg2\<rparr>) s2" by auto
  from a(1) have "registry_ok (us_registry s2)" by (simp add: server_ok_def)
  with client_registry_touch_ok [of "us_registry s2" c now'] s2(1) have "registry_ok reg3" "handles reg3 = handles (us_registry s2)" by auto
  with a s2(2) r2(2) new show ?thesis by (simp add: server_ok_def same_server_def)
qed

text \<open>A datagram of the largest size from a sender that is not known yet.\<close>

lemma udp_messages_binary_total:
  assumes "server_ok s"
  shows "\<exists>p' s'. udp_messages CLIENT_PROTOCOL_BINARY c addr data p s = Some (p', s') \<and> server_ok s'"
proof -
  from udp_binary.raw_binary_accepts [OF assms, of c addr data] obtain rest s' ms where
    "process_raw_binary (parse_binary_udp c addr) data s = Some (rest, s')" "accept_all_udp c addr ms s = Some s'" by blast
  with accept_all_udp_ok [OF assms, of c addr ms] show ?thesis by (auto simp: udp_messages_def)
qed

theorem udp_datagram_largest:
  assumes ok: "server_ok s" and room: "udp_room (us_registry s)" and new: "\<not> (\<exists>c. udp_client (us_registry s) addr c)"
    and len: "length data = MAX_UDP_PACKET_SIZE"
  shows "udp_datagram addr now now' data p s = None \<longleftrightarrow> data ! 0 \<noteq> BINARY_MAGIC"
proof -
  from ok have "registry_ok (us_registry s)" by (simp add: server_ok_def)
  from client_registry_get_or_add_udp_ok [OF this room, of addr now] new obtain c reg where
    add: "client_registry_get_or_add_udp addr now (us_registry s) = Some (c, reg)" "registry_ok reg" "udp_client reg addr c"
      "clients reg = (clients (us_registry s))(c \<mapsto> new_entry c TRANSPORT_UDP (Udp_addr addr) now)" by auto
  have c: "c \<noteq> 0" using udp_client_nonzero add(2,3) by blast
  have known: "CLIENT_PROTOCOL_UNKNOWN = (case clients reg c of None \<Rightarrow> CLIENT_PROTOCOL_UNKNOWN | Some e \<Rightarrow> ce_protocol e)"
    by (simp add: add(4) new_entry_def)
  have q: "udp_protocol CLIENT_PROTOCOL_UNKNOWN data = unified_detect_protocol data" by (simp add: udp_protocol_def)
  from udp_datagram_steps [OF add(1) c add(2) known, where now' = now' and data = data and p = p, unfolded q] obtain reg2 where
    r2: "registry_ok reg2" and u: "udp_datagram addr now now' data p s = Option.bind (udp_messages (unified_detect_protocol data) c addr data p (s\<lparr>us_registry := reg2\<rparr>))
      (\<lambda>(p', s'). Option.bind (client_registry_touch c now' (us_registry s')) (\<lambda>reg3. Some (p', s'\<lparr>us_registry := reg3\<rparr>)))" by blast
  show ?thesis
  proof (cases "data ! 0 = BINARY_MAGIC")
    case True
    with len have b: "unified_detect_protocol data = CLIENT_PROTOCOL_BINARY" by (auto simp: unified_detect_protocol_def)
    from ok r2 have "server_ok (s\<lparr>us_registry := reg2\<rparr>)" by (simp add: server_ok_def)
    from udp_messages_binary_total [OF this, of c addr data p] obtain p' s' where
      m: "udp_messages CLIENT_PROTOCOL_BINARY c addr data p (s\<lparr>us_registry := reg2\<rparr>) = Some (p', s')" "server_ok s'" by blast
    from m(2) have "registry_ok (us_registry s')" by (simp add: server_ok_def)
    then obtain reg3 where "client_registry_touch c now' (us_registry s') = Some reg3" by (rule client_registry_touch_ok)
    with True u m(1) b show ?thesis by simp
  next
    case False
    then have "unified_detect_protocol data \<noteq> CLIENT_PROTOCOL_BINARY" by (simp add: unified_detect_protocol_def)
    with False u len show ?thesis by (simp add: udp_messages_def assert_that_def)
  qed
qed

end
