(* ===== verification/ME_Unified_Output.thy ===== *)
theory ME_Unified_Output
  imports ME_Unified_Router ME_Unified_Datagrams
begin

text \<open>
  The output side of the unified server at work: what an output message becomes on the wire, to
  whom it goes, and that each of its recipients can read it.
\<close>

section \<open>Entries of the registry\<close>

lemma clients_entry:
  assumes "registry_ok reg" and "clients reg c = Some e"
  shows "c \<noteq> 0" and "ce_active e" and "ce_client_id e = c" and "entry_ok reg e"
proof -
  have tab: "table_ok (cr_entries reg)" using assms(1) by (simp add: registry_ok_def)
  then have "inj_on (\<lambda>i. ce_client_id (cr_entries reg i)) (used_slots (cr_entries reg))" by (simp add: table_ok_def)
  from members_Some [OF this, of c e] assms(2) obtain i where i: "i \<in> used_slots (cr_entries reg)" "ce_client_id (cr_entries reg i) = c" "cr_entries reg i = e"
    by (auto simp: clients_def)
  with tab assms(1) show "c \<noteq> 0" "ce_active e" "ce_client_id e = c" "entry_ok reg e"
    by (auto simp: table_ok_def used_slots_def registry_ok_def)
qed

text \<open>Two registries that agree on where their clients are and how to speak to them.\<close>

definition same_entry :: "client_entry_t \<Rightarrow> client_entry_t \<Rightarrow> bool" where
  "same_entry e e' \<longleftrightarrow> ce_handle e' = ce_handle e \<and> ce_transport e' = ce_transport e \<and> ce_protocol e' = ce_protocol e"

definition same_clients :: "client_registry_t \<Rightarrow> client_registry_t \<Rightarrow> bool" where
  "same_clients reg reg' \<longleftrightarrow> (\<forall>c. rel_option same_entry (clients reg c) (clients reg' c))"

lemma same_entry_refl [simp]: "same_entry e e"
  by (simp add: same_entry_def)

lemma same_entry_trans: "same_entry a b \<Longrightarrow> same_entry b c \<Longrightarrow> same_entry a c"
  by (simp add: same_entry_def)

lemma same_clients_refl [simp]: "same_clients reg reg"
  by (simp add: same_clients_def option.rel_refl)

lemma same_clients_trans: "same_clients a b \<Longrightarrow> same_clients b c \<Longrightarrow> same_clients a c"
  unfolding same_clients_def option.rel_sel by (meson same_entry_trans)

lemma same_clients_None: "same_clients a b \<Longrightarrow> clients b c = None \<longleftrightarrow> clients a c = None"
  by (auto simp: same_clients_def option.rel_sel dest: spec [of _ c])

lemma same_clients_Some:
  assumes "same_clients a b" and "clients a c = Some e"
  obtains e' where "clients b c = Some e'" "same_entry e e'"
  using assms unfolding same_clients_def by (metis option_rel_Some1)

lemma client_registry_inc_sent_ok:
  assumes "registry_ok reg"
  obtains reg' where "client_registry_inc_sent c reg = Some reg'" "registry_ok reg'" "same_clients reg reg'"
proof -
  from update_entry_ok [OF assms, of "\<lambda>e. e\<lparr>ce_messages_sent := ce_messages_sent e + 1\<rparr>" c] obtain reg' where
    r: "update_entry c (\<lambda>e. e\<lparr>ce_messages_sent := ce_messages_sent e + 1\<rparr>) reg = Some (clients reg c \<noteq> None, reg')" "registry_ok reg'"
    and m: "clients reg' = (case clients reg c of None \<Rightarrow> clients reg | Some e \<Rightarrow> (clients reg)(c \<mapsto> e\<lparr>ce_messages_sent := ce_messages_sent e + 1\<rparr>))" by auto
  have "same_clients reg reg'"
    by (cases "clients reg c") (auto simp: same_clients_def m option.rel_refl same_entry_def)
  with r show thesis by (intro that) (simp_all add: client_registry_inc_sent_def)
qed

section \<open>What a client reads\<close>

definition readable :: "client_entry_t \<Rightarrow> output_msg_t \<Rightarrow> bool" where
  "readable e msg \<longleftrightarrow> (if ce_protocol e = CLIENT_PROTOCOL_BINARY then formattable msg else csv_decodable msg)"

definition reads_as :: "client_protocol_t \<Rightarrow> output_msg_t \<Rightarrow> u8 list \<Rightarrow> bool" where
  "reads_as q msg data \<longleftrightarrow> msg_ok data \<and> (\<forall>cd. codec_decode_response cd data =
     (if q = CLIENT_PROTOCOL_BINARY then Some (Some (wire_msg msg), saw ENCODING_BINARY cd) else Some (Some (csv_msg msg), saw ENCODING_CSV cd)))"

text \<open>On a TCP connection a binary message is framed, everything else is sent as it is.\<close>

definition dest_of :: "client_entry_t \<Rightarrow> dest" where
  "dest_of e = (case ce_handle e of Tcp_fd fd \<Rightarrow> To_tcp fd | Udp_addr a \<Rightarrow> To_udp a)"

definition on_wire :: "client_entry_t \<Rightarrow> output_msg_t \<Rightarrow> dest \<times> u8 list \<times> int \<Rightarrow> bool" where
  "on_wire e msg w \<longleftrightarrow> fst w = dest_of e \<and> (\<exists>data. reads_as (ce_protocol e) msg data
     \<and> fst (snd w) = (if ce_transport e = TRANSPORT_TCP \<and> ce_protocol e = CLIENT_PROTOCOL_BINARY then frame data else data))"

lemma on_wire_same: "same_entry e e' \<Longrightarrow> on_wire e' msg w = on_wire e msg w"
  by (simp add: on_wire_def same_entry_def dest_of_def)

lemma c_bytes_text:
  assumes "csv_decodable msg"
  shows "c_bytes (output_text msg) = map of_char (output_text msg)"
proof -
  have "\<forall>c\<in>set (csv_line (output_fields msg)). line_char c" using csv_line_chars [OF output_fields_ok [OF assms]] by blast
  then have "\<forall>c\<in>set (output_text msg). c \<noteq> CHR 0x00" by (auto simp: output_text_fields line_char_def)
  then have "takeWhile (\<lambda>c. c \<noteq> CHR 0x00) (output_text msg) = output_text msg" by (simp only: takeWhile_eq_all_conv)
  then show ?thesis by (simp only: c_bytes_def)
qed

lemma binary_reads_as:
  assumes "formattable msg"
  obtains bs f' where "binary_message_formatter_format f msg = Some (Some bs, f')" "reads_as CLIENT_PROTOCOL_BINARY msg bs"
proof -
  from format_decode [OF assms, of f] obtain bs f' where bs: "binary_message_formatter_format f msg = Some (Some bs, f')"
    "length bs = binary_message_size (out_type msg)" "binary_message_validate bs" by blast
  with codec_decode_binary [OF assms, of f] have "reads_as CLIENT_PROTOCOL_BINARY msg bs"
    by (fastforce simp: reads_as_def msg_ok_def binary_message_size_def binary_message_validate_def split: if_splits)
  with bs(1) show thesis by (rule that)
qed

lemma csv_reads_as:
  assumes "csv_decodable msg" and "q \<noteq> CLIENT_PROTOCOL_BINARY"
  shows "reads_as q msg (map of_char (output_text msg))"
  using assms codec_decode_csv [OF assms(1)] length_output_text [OF assms(1)] output_text_hd [OF assms(1)]
  by (auto simp: reads_as_def msg_ok_def)

lemma reads_as_pos: "reads_as q msg data \<Longrightarrow> 0 < length data"
  by (simp add: reads_as_def msg_ok_def)


section \<open>Sending\<close>

text \<open>Sending changes the formatters, the counters and the wire only.\<close>

definition kept :: "unified_server_t \<Rightarrow> unified_server_t \<Rightarrow> bool" where
  "kept s s' \<longleftrightarrow> us_config s' = us_config s \<and> us_input_queue_0 s' = us_input_queue_0 s \<and> us_input_queue_1 s' = us_input_queue_1 s
     \<and> us_output_queue_0 s' = us_output_queue_0 s \<and> us_output_queue_1 s' = us_output_queue_1 s \<and> us_user_map s' = us_user_map s
     \<and> us_multicast_fd s' = us_multicast_fd s \<and> registry_ok (us_registry s') \<and> same_clients (us_registry s) (us_registry s')"

lemma kept_refl: "server_ok s \<Longrightarrow> kept s s"
  by (simp add: kept_def server_ok_def)

lemma kept_trans: "kept a b \<Longrightarrow> kept b c \<Longrightarrow> kept a c"
  using same_clients_trans by (auto simp: kept_def)

lemma kept_ok: "server_ok s \<Longrightarrow> kept s s' \<Longrightarrow> server_ok s'"
  by (simp add: kept_def server_ok_def)

definition fd_ok :: "client_entry_t \<Rightarrow> bool" where
  "fd_ok e = (case ce_handle e of Tcp_fd fd \<Rightarrow> 0 \<le> fd | Udp_addr _ \<Rightarrow> True)"

definition can_read :: "unified_server_t \<Rightarrow> output_msg_t \<Rightarrow> u32 \<Rightarrow> bool" where
  "can_read s msg c \<longleftrightarrow> (\<forall>e. clients (us_registry s) c = Some e \<longrightarrow> readable e msg \<and> fd_ok e)"

definition delivered :: "output_msg_t \<Rightarrow> unified_server_t \<Rightarrow> u32 list \<Rightarrow> (dest \<times> u8 list \<times> int) list \<Rightarrow> bool" where
  "delivered msg s cs ws \<longleftrightarrow> list_all2 (\<lambda>c w. \<exists>e. clients (us_registry s) c = Some e \<and> on_wire e msg w) cs ws"

definition registered :: "unified_server_t \<Rightarrow> u32 list \<Rightarrow> u32 list" where
  "registered s cs = filter (\<lambda>c. clients (us_registry s) c \<noteq> None) cs"

lemma same_clients_facts:
  assumes sc: "same_clients (us_registry s) (us_registry s')"
  shows "registered s' cs = registered s cs" and "delivered msg s' cs ws = delivered msg s cs ws" and "can_read s' msg c = can_read s msg c"
proof -
  have iff: "(\<exists>e. clients (us_registry s') c = Some e \<and> P e) \<longleftrightarrow> (\<exists>e. clients (us_registry s) c = Some e \<and> P e)"
    if "\<And>e e'. same_entry e e' \<Longrightarrow> P e' = P e" for P c
    using sc [unfolded same_clients_def, rule_format, of c] that by (cases "clients (us_registry s) c"; cases "clients (us_registry s') c") auto
  show "registered s' cs = registered s cs" using same_clients_None [OF sc] by (simp add: registered_def)
  show "delivered msg s' cs ws = delivered msg s cs ws" unfolding delivered_def
    by (intro arg_cong [where f = "\<lambda>P. list_all2 P cs ws"] ext iff) (simp add: on_wire_same)
  have "(\<exists>e. clients (us_registry s') c = Some e \<and> \<not> (readable e msg \<and> fd_ok e)) \<longleftrightarrow> (\<exists>e. clients (us_registry s) c = Some e \<and> \<not> (readable e msg \<and> fd_ok e))"
    by (rule iff) (simp add: readable_def fd_ok_def same_entry_def)
  then show "can_read s' msg c = can_read s msg c" unfolding can_read_def by blast
qed

lemmas kept_clients = same_clients_facts [OF kept_def [THEN iffD1, THEN conjunct2, THEN conjunct2, THEN conjunct2, THEN conjunct2, THEN conjunct2,
  THEN conjunct2, THEN conjunct2, THEN conjunct2]]

lemma format_for_ok:
  assumes "if q = CLIENT_PROTOCOL_BINARY then formattable msg else csv_decodable msg"
  obtains data bf cf where "format_for q msg s = Some (Some data, s\<lparr>us_bin_formatter := bf, us_csv_formatter := cf\<rparr>)" "reads_as q msg data"
proof (cases "q = CLIENT_PROTOCOL_BINARY")
  case True
  with assms have "formattable msg" by simp
  then obtain bs f' where "binary_message_formatter_format (us_bin_formatter s) msg = Some (Some bs, f')" "reads_as CLIENT_PROTOCOL_BINARY msg bs"
    by (rule binary_reads_as)
  with True show thesis by (intro that [of bs "us_csv_formatter s" f']) (simp_all add: format_for_def)
next
  case False
  with assms have d: "csv_decodable msg" by simp
  with False show thesis
    by (intro that [of "map of_char (output_text msg)" "(us_csv_formatter s)\<lparr>mf_buffer := output_text msg\<rparr>" "us_bin_formatter s"])
      (simp_all add: format_for_def message_formatter_format_fits [OF d] c_bytes_text csv_reads_as)
qed

text \<open>The system calls for one client, in the two places that make them.\<close>

definition send_entry :: "net \<Rightarrow> client_entry_t \<Rightarrow> u8 list \<Rightarrow> unified_server_t \<Rightarrow> int \<times> unified_server_t" where
  "send_entry net e data s = (case ce_handle e of
     Tcp_fd fd \<Rightarrow> tcp_send_with_framing net fd data (ce_protocol e = CLIENT_PROTOCOL_BINARY) s
   | Udp_addr a \<Rightarrow> transmit net (To_udp a) data s)"

lemma send_entry_wire:
  assumes e: "entry_ok reg e" "fd_ok e" and data: "reads_as (ce_protocol e) msg data"
  obtains r w where "send_entry net e data s = (r, s\<lparr>us_wire := us_wire s @ [w]\<rparr>)" "on_wire e msg w"
proof (cases "ce_handle e")
  case (Tcp_fd fd)
  with e have t: "ce_transport e = TRANSPORT_TCP" "0 \<le> fd" by (auto simp: entry_ok_def fd_ok_def split: transport_type_t.splits)
  define bytes where "bytes = (if ce_protocol e = CLIENT_PROTOCOL_BINARY then frame data else data)"
  define w where "w = (To_tcp fd, bytes, net (length (us_wire s)) (To_tcp fd) bytes)"
  have "snd (send_entry net e data s) = s\<lparr>us_wire := us_wire s @ [w]\<rparr>"
    using t reads_as_pos [OF data]
    by (simp add: send_entry_def Tcp_fd tcp_send_with_framing_def transmit_def case_prod_unfold Let_def w_def bytes_def frame_def)
  then have "send_entry net e data s = (fst (send_entry net e data s), s\<lparr>us_wire := us_wire s @ [w]\<rparr>)" by (metis prod.collapse)
  moreover have "on_wire e msg w" using data t by (auto simp: on_wire_def w_def bytes_def dest_of_def Tcp_fd)
  ultimately show thesis by (rule that)
next
  case (Udp_addr a)
  with e have t: "ce_transport e = TRANSPORT_UDP" by (auto simp: entry_ok_def split: transport_type_t.splits)
  define w where "w = (To_udp a, data, net (length (us_wire s)) (To_udp a) data)"
  have "send_entry net e data s = (net (length (us_wire s)) (To_udp a) data, s\<lparr>us_wire := us_wire s @ [w]\<rparr>)"
    by (simp add: send_entry_def Udp_addr transmit_def Let_def w_def)
  moreover have "on_wire e msg w" using data t by (auto simp: on_wire_def w_def dest_of_def Udp_addr)
  ultimately show thesis by (rule that)
qed


lemma unified_send_to_client_eq:
  assumes reg: "registry_ok (us_registry s)" and e: "clients (us_registry s) c = Some e" "fd_ok e"
    and data: "format_for (ce_protocol e) msg s = Some (Some data, s1)" "0 < length data"
  shows "unified_send_to_client net c msg s = (let (sent, s2) = send_entry net e data s1 in
     if sent = int (length data) then map_option (\<lambda>reg. (True, s2\<lparr>us_registry := reg\<rparr>)) (client_registry_inc_sent c (us_registry s2))
     else Some (False, s2))"
proof -
  note en = clients_entry [OF reg e(1)]
  have find: "client_registry_find (us_registry s) c zero_entry = Some (True, e)" by (simp add: client_registry_find_ok [OF reg] e(1))
  show ?thesis
  proof (cases "ce_handle e")
    case (Tcp_fd fd)
    with en(4) e(2) have "ce_transport e = TRANSPORT_TCP" "0 \<le> fd" by (auto simp: entry_ok_def fd_ok_def split: transport_type_t.splits)
    with en find data Tcp_fd show ?thesis
      by (cases "tcp_send_with_framing net fd data (ce_protocol e = CLIENT_PROTOCOL_BINARY) s1")
        (simp add: unified_send_to_client_def send_entry_def map_conv_bind_option comp_def)
  next
    case (Udp_addr a)
    with en(4) have "ce_transport e = TRANSPORT_UDP" by (auto simp: entry_ok_def split: transport_type_t.splits)
    with en find data Udp_addr show ?thesis
      by (cases "transmit net (To_udp a) data s1") (simp add: unified_send_to_client_def send_entry_def map_conv_bind_option comp_def)
  qed
qed

lemma unified_send_to_client_ok:
  assumes ok: "server_ok s" and rd: "can_read s msg c"
  obtains b s' ws where "unified_send_to_client net c msg s = Some (b, s')" "kept s s'" "us_wire s' = us_wire s @ ws" "delivered msg s (registered s [c]) ws"
proof (cases "clients (us_registry s) c")
  case None
  from ok have reg: "registry_ok (us_registry s)" by (simp add: server_ok_def)
  with None have "unified_send_to_client net c msg s = Some (False, s)"
    by (simp add: unified_send_to_client_def client_registry_find_ok)
  then show thesis using None kept_refl [OF ok] by (intro that [of False s "[]"]) (simp_all add: registered_def delivered_def)
next
  case (Some e)
  from ok have reg: "registry_ok (us_registry s)" by (simp add: server_ok_def)
  note en = clients_entry [OF reg Some]
  from rd Some have re: "readable e msg" "fd_ok e" by (auto simp: can_read_def)
  from re(1) have "if ce_protocol e = CLIENT_PROTOCOL_BINARY then formattable msg else csv_decodable msg" by (simp add: readable_def)
  then obtain data bf cf where f: "format_for (ce_protocol e) msg s = Some (Some data, s\<lparr>us_bin_formatter := bf, us_csv_formatter := cf\<rparr>)"
    "reads_as (ce_protocol e) msg data" by (rule format_for_ok)
  define s1 where "s1 = s\<lparr>us_bin_formatter := bf, us_csv_formatter := cf\<rparr>"
  from en(4) re(2) f(2) obtain r w where w: "send_entry net e data s1 = (r, s1\<lparr>us_wire := us_wire s1 @ [w]\<rparr>)" "on_wire e msg w"
    by (rule send_entry_wire)
  from reg have "registry_ok (us_registry (s1\<lparr>us_wire := us_wire s1 @ [w]\<rparr>))" by (simp add: s1_def)
  then obtain reg' where reg': "client_registry_inc_sent c (us_registry (s1\<lparr>us_wire := us_wire s1 @ [w]\<rparr>)) = Some reg'" "registry_ok reg'"
    "same_clients (us_registry (s1\<lparr>us_wire := us_wire s1 @ [w]\<rparr>)) reg'" by (rule client_registry_inc_sent_ok)
  define reg2 where "reg2 = (if r = int (length data) then reg' else us_registry s)"
  define s' where "s' = s1\<lparr>us_wire := us_wire s1 @ [w], us_registry := reg2\<rparr>"
  have "s1\<lparr>us_wire := us_wire s1 @ [w]\<rparr> = s1\<lparr>us_wire := us_wire s1 @ [w], us_registry := us_registry s\<rparr>" by (simp add: s1_def)
  then have "unified_send_to_client net c msg s = Some (r = int (length data), s')"
    using unified_send_to_client_eq [OF reg Some re(2) f(1) [folded s1_def] reads_as_pos [OF f(2)], of net] w(1) reg'(1)
    by (simp add: s'_def reg2_def)
  moreover have "kept s s'" using reg' reg by (simp add: kept_def s'_def s1_def reg2_def)
  moreover have "us_wire s' = us_wire s @ [w]" by (simp add: s'_def s1_def)
  moreover have "delivered msg s (registered s [c]) [w]" using Some w(2) by (simp add: delivered_def registered_def)
  ultimately show thesis by (rule that)
qed


section \<open>Broadcasting\<close>

lemma delivered_append: "delivered msg s a x \<Longrightarrow> delivered msg s b y \<Longrightarrow> delivered msg s (a @ b) (x @ y)"
  by (simp add: delivered_def list_all2_appendI)

lemma broadcast_step:
  assumes reg: "registry_ok (us_registry s)" and e: "clients (us_registry s) c = Some e" "fd_ok e"
    and data: "(if ce_protocol e = CLIENT_PROTOCOL_BINARY then (case bin of Some d \<Rightarrow> d | None \<Rightarrow> []) else csv) = data" "0 < length data"
  shows "broadcast_loop net csv bin (c # cs) s = (let s1 = snd (send_entry net e data s) in
     Option.bind (client_registry_inc_sent c (us_registry s1)) (\<lambda>reg. broadcast_loop net csv bin cs (s1\<lparr>us_registry := reg\<rparr>)))"
proof -
  note en = clients_entry [OF reg e(1)]
  have find: "client_registry_find (us_registry s) c zero_entry = Some (True, e)" by (simp add: client_registry_find_ok [OF reg] e(1))
  show ?thesis
  proof (cases "ce_handle e")
    case (Tcp_fd fd)
    with en(4) e(2) have "ce_transport e = TRANSPORT_TCP" "0 \<le> fd" by (auto simp: entry_ok_def fd_ok_def split: transport_type_t.splits)
    with en find data(2) Tcp_fd show ?thesis by (simp add: data(1) send_entry_def Let_def)
  next
    case (Udp_addr a)
    with en(4) have "ce_transport e = TRANSPORT_UDP" by (auto simp: entry_ok_def split: transport_type_t.splits)
    with en find data(2) Udp_addr show ?thesis by (simp add: data(1) send_entry_def Let_def)
  qed
qed

lemma broadcast_loop_ok:
  assumes "server_ok s" and "\<forall>c\<in>set cs. can_read s msg c"
    and "reads_as CLIENT_PROTOCOL_BINARY msg bin" and "reads_as CLIENT_PROTOCOL_CSV msg csv"
  obtains s' ws where "broadcast_loop net csv (Some bin) cs s = Some s'" "kept s s'" "us_wire s' = us_wire s @ ws" "delivered msg s (registered s cs) ws"
  using assms(1,2)
proof (induction cs arbitrary: s thesis)
  case Nil
  show ?case by (rule Nil(1) [of s "[]"]) (simp_all add: kept_refl [OF Nil(2)] delivered_def registered_def)
next
  case (Cons c cs)
  from Cons.prems(2) have reg: "registry_ok (us_registry s)" by (simp add: server_ok_def)
  show ?case
  proof (cases "clients (us_registry s) c")
    case None
    then have "broadcast_loop net csv (Some bin) (c # cs) s = broadcast_loop net csv (Some bin) cs s" "registered s (c # cs) = registered s cs"
      by (simp_all add: client_registry_find_ok [OF reg] registered_def)
    with Cons.IH [OF _ Cons.prems(2)] Cons.prems(1,3) show ?thesis by auto
  next
    case (Some e)
    note en = clients_entry [OF reg Some]
    from Cons.prems(3) Some have fd: "fd_ok e" by (auto simp: can_read_def)
    define data where "data = (if ce_protocol e = CLIENT_PROTOCOL_BINARY then bin else csv)"
    have rd: "reads_as (ce_protocol e) msg data" using assms(3,4) by (auto simp: data_def reads_as_def)
    from en(4) fd rd obtain r w where w: "send_entry net e data s = (r, s\<lparr>us_wire := us_wire s @ [w]\<rparr>)" "on_wire e msg w" by (rule send_entry_wire)
    from reg obtain reg' where r: "client_registry_inc_sent c (us_registry s) = Some reg'" "registry_ok reg'" "same_clients (us_registry s) reg'"
      by (rule client_registry_inc_sent_ok)
    define s1 where "s1 = s\<lparr>us_wire := us_wire s @ [w], us_registry := reg'\<rparr>"
    have k: "kept s s1" using r by (simp add: kept_def s1_def)
    note kc = kept_clients [OF k]
    have "broadcast_loop net csv (Some bin) (c # cs) s = broadcast_loop net csv (Some bin) cs s1"
      using broadcast_step [OF reg Some fd, of "Some bin" csv data net cs] reads_as_pos [OF rd] w(1) r(1) by (simp add: data_def s1_def)
    moreover from Cons.IH [OF _ kept_ok [OF Cons.prems(2) k]] Cons.prems(3) kc(3) obtain s' ws where
      s': "broadcast_loop net csv (Some bin) cs s1 = Some s'" "kept s1 s'" "us_wire s' = us_wire s1 @ ws" "delivered msg s1 (registered s1 cs) ws"
      by (metis list.set_intros(2))
    moreover have "delivered msg s (registered s (c # cs)) (w # ws)"
      using s'(4) Some w(2) kc by (simp add: delivered_def registered_def)
    ultimately show ?thesis using kept_trans [OF k] by (intro Cons.prems(1) [of s' "w # ws"]) (simp_all add: s1_def)
  qed
qed


definition all_read :: "unified_server_t \<Rightarrow> output_msg_t \<Rightarrow> bool" where
  "all_read s msg \<longleftrightarrow> formattable msg \<and> csv_decodable msg \<and> (\<forall>c e. clients (us_registry s) c = Some e \<longrightarrow> fd_ok e)"

lemma all_read_iff: "all_read s msg \<longleftrightarrow> formattable msg \<and> csv_decodable msg \<and> (\<forall>c. can_read s msg c)"
  by (auto simp: all_read_def can_read_def readable_def)

lemma all_read_can: "all_read s msg \<Longrightarrow> can_read s msg c"
  by (simp add: all_read_iff)

lemma all_read_kept: "kept s s' \<Longrightarrow> all_read s' msg = all_read s msg"
  using kept_clients(3) [of s s' msg] by (simp add: all_read_iff)

lemma unified_broadcast_to_all_ok:
  assumes ok: "server_ok s" and rd: "all_read s msg"
    and room: "card (used_slots (cr_entries (us_registry s))) \<le> unat MAX_REGISTERED_CLIENTS"
  obtains s' ids ws where "unified_broadcast_to_all net msg s = Some s'" "kept s s'" "us_wire s' = us_wire s @ ws"
    "delivered msg s ids ws" "distinct ids" "set ids = dom (clients (us_registry s))"
proof -
  from ok have reg: "registry_ok (us_registry s)" by (simp add: server_ok_def)
  from rd have f: "formattable msg" and d: "csv_decodable msg" by (simp_all add: all_read_def)
  from f obtain bin bf where bin: "binary_message_formatter_format (us_bin_formatter s) msg = Some (Some bin, bf)" "reads_as CLIENT_PROTOCOL_BINARY msg bin"
    by (rule binary_reads_as)
  from client_registry_get_all_ids_ok [OF reg room] obtain ids where
    ids: "client_registry_get_all_ids (us_registry s) MAX_REGISTERED_CLIENTS = Some ids" "distinct ids" "set ids = dom (clients (us_registry s))" by auto
  define cf where "cf = (us_csv_formatter s)\<lparr>mf_buffer := output_text msg\<rparr>"
  define s0 where "s0 = s\<lparr>us_csv_formatter := cf, us_bin_formatter := bf\<rparr>"
  have k0: "kept s s0" using reg by (simp add: kept_def s0_def)
  note kc = kept_clients [OF k0]
  have "reads_as CLIENT_PROTOCOL_CSV msg (map of_char (output_text msg))" by (intro csv_reads_as [OF d]) simp
  with kept_ok [OF ok k0] bin(2) all_read_can [OF rd] kc(3) obtain s1 ws where
    s1: "broadcast_loop net (map of_char (output_text msg)) (Some bin) ids s0 = Some s1" "kept s0 s1" "us_wire s1 = us_wire s0 @ ws"
      "delivered msg s0 (registered s0 ids) ws"
    using broadcast_loop_ok [of s0 ids msg bin "map of_char (output_text msg)" net] by metis
  define s' where "s' = s1\<lparr>us_tob_broadcasts := us_tob_broadcasts s1 + 1\<rparr>"
  have all: "registered s ids = ids" using ids(3) by (auto simp: registered_def intro!: filter_True)
  have "unified_broadcast_to_all net msg s = Some s'"
    using bin(1) ids(1) s1(1) by (simp add: unified_broadcast_to_all_def message_formatter_format_fits [OF d] c_bytes_text [OF d] s0_def cf_def s'_def)
  moreover have "kept s s'" using kept_trans [OF k0 s1(2)] by (simp add: kept_def s'_def)
  moreover have "us_wire s' = us_wire s @ ws" using s1(3) by (simp add: s'_def s0_def)
  moreover have "delivered msg s ids ws" using s1(4) kc all by simp
  ultimately show thesis using ids(2,3) by (intro that)
qed

section \<open>Envelopes\<close>

definition on_multicast :: "unified_server_t \<Rightarrow> output_msg_t \<Rightarrow> (dest \<times> u8 list \<times> int) list \<Rightarrow> bool" where
  "on_multicast s msg ws \<longleftrightarrow> (if us_multicast_fd s < 0 then ws = [] else \<exists>bs r. ws = [(To_multicast, bs, r)] \<and> reads_as CLIENT_PROTOCOL_BINARY msg bs)"

lemma unified_send_multicast_ok:
  assumes ok: "server_ok s" and f: "formattable msg"
  obtains s' ws where "unified_send_multicast net msg s = Some s'" "kept s s'" "us_wire s' = us_wire s @ ws" "on_multicast s msg ws"
proof (cases "us_multicast_fd s < 0")
  case True
  with kept_refl [OF ok] show thesis by (intro that [of s "[]"]) (simp_all add: unified_send_multicast_def on_multicast_def)
next
  case False
  from f obtain bin bf where bin: "binary_message_formatter_format (us_bin_formatter s) msg = Some (Some bin, bf)" "reads_as CLIENT_PROTOCOL_BINARY msg bin"
    by (rule binary_reads_as)
  define w where "w = (To_multicast, bin, net (length (us_wire s)) To_multicast bin)"
  define s' where "s' = s\<lparr>us_bin_formatter := bf, us_wire := us_wire s @ [w], us_multicast_messages := us_multicast_messages s + 1\<rparr>"
  have "unified_send_multicast net msg s = Some s'"
    using False bin(1) reads_as_pos [OF bin(2)] by (simp add: unified_send_multicast_def transmit_def Let_def s'_def w_def)
  moreover have "kept s s'" using ok by (simp add: kept_def s'_def server_ok_def)
  ultimately show thesis using False bin(2) by (intro that [of s' "[w]"]) (simp_all add: s'_def w_def on_multicast_def)
qed

definition parties :: "unified_server_t \<Rightarrow> trade_msg_t \<Rightarrow> u32 list" where
  "parties s t = (let b = user_client_map_get (us_user_map s) (tr_user_id_buy t); a = user_client_map_get (us_user_map s) (tr_user_id_sell t)
     in (if b \<noteq> 0 then [b] else []) @ (if a \<noteq> 0 \<and> a \<noteq> b then [a] else []))"

definition audience :: "unified_server_t \<Rightarrow> output_msg_envelope_t \<Rightarrow> u32 list \<Rightarrow> bool" where
  "audience s env cs = (case oe_msg env of
     OUTPUT_MSG_ACK _ \<Rightarrow> cs = registered s [oe_client_id env]
   | OUTPUT_MSG_CANCEL_ACK _ \<Rightarrow> cs = registered s [oe_client_id env]
   | OUTPUT_MSG_TRADE t \<Rightarrow> cs = registered s (parties s t)
   | OUTPUT_MSG_TOP_OF_BOOK _ \<Rightarrow> distinct cs \<and> set cs = dom (clients (us_registry s))
   | OUTPUT_MSG_OTHER _ \<Rightarrow> cs = [])"

lemma send_each:
  assumes ok: "server_ok s" and rd: "all_read s msg"
  obtains s' ws where "(if c \<noteq> 0 then map_option snd (unified_send_to_client net c msg s) else Some s) = Some s'" "kept s s'"
    "us_wire s' = us_wire s @ ws" "delivered msg s (registered s (if c \<noteq> 0 then [c] else [])) ws"
proof (cases "c = 0")
  case True
  with kept_refl [OF ok] show thesis by (intro that [of s "[]"]) (simp_all add: registered_def delivered_def)
next
  case False
  from unified_send_to_client_ok [OF ok all_read_can [OF rd]] obtain b s' ws where
    "unified_send_to_client net c msg s = Some (b, s')" "kept s s'" "us_wire s' = us_wire s @ ws" "delivered msg s (registered s [c]) ws" by blast
  with False show thesis by (intro that [of s' ws]) simp_all
qed

lemma send_parties:
  assumes ok: "server_ok s" and rd: "all_read s msg"
  obtains s1 s' ws where "(if b \<noteq> 0 then map_option snd (unified_send_to_client net b msg s) else Some s) = Some s1"
    and "(if a \<noteq> 0 \<and> a \<noteq> b then map_option snd (unified_send_to_client net a msg s1) else Some s1) = Some s'"
    and "kept s s'" "us_wire s' = us_wire s @ ws"
    and "delivered msg s (registered s ((if b \<noteq> 0 then [b] else []) @ (if a \<noteq> 0 \<and> a \<noteq> b then [a] else []))) ws"
proof -
  from ok rd obtain s1 w1 where s1: "(if b \<noteq> 0 then map_option snd (unified_send_to_client net b msg s) else Some s) = Some s1" "kept s s1"
    "us_wire s1 = us_wire s @ w1" "delivered msg s (registered s (if b \<noteq> 0 then [b] else [])) w1" by (rule send_each)
  define a' where "a' = (if a \<noteq> b then a else 0)"
  note kc = kept_clients [OF s1(2)]
  from kept_ok [OF ok s1(2)] rd all_read_kept [OF s1(2), of msg] obtain s' w2 where
    s': "(if a' \<noteq> 0 then map_option snd (unified_send_to_client net a' msg s1) else Some s1) = Some s'" "kept s1 s'"
    "us_wire s' = us_wire s1 @ w2" "delivered msg s1 (registered s1 (if a' \<noteq> 0 then [a'] else [])) w2" using send_each by metis
  have eq: "(if a' \<noteq> 0 then [a'] else []) = (if a \<noteq> 0 \<and> a \<noteq> b then [a] else [])" by (simp add: a'_def)
  from s'(1) have "(if a \<noteq> 0 \<and> a \<noteq> b then map_option snd (unified_send_to_client net a msg s1) else Some s1) = Some s'"
    by (auto simp: a'_def split: if_splits)
  moreover have "delivered msg s (registered s ((if b \<noteq> 0 then [b] else []) @ (if a \<noteq> 0 \<and> a \<noteq> b then [a] else []))) (w1 @ w2)"
    using delivered_append [OF s1(4), of "registered s (if a \<noteq> 0 \<and> a \<noteq> b then [a] else [])" w2] s'(4) kc unfolding eq by (simp add: registered_def)
  ultimately show thesis using s1(1,3) s'(3) kept_trans [OF s1(2) s'(2)] by (intro that [of s1 s' "w1 @ w2"]) simp_all
qed


definition few_clients :: "unified_server_t \<Rightarrow> bool" where
  "few_clients s \<longleftrightarrow> card (dom (clients (us_registry s))) \<le> unat MAX_REGISTERED_CLIENTS"

lemma card_clients:
  assumes "registry_ok reg"
  shows "card (used_slots (cr_entries reg)) = card (dom (clients reg))"
proof -
  let ?E = "cr_entries reg"
  have inj: "inj_on (\<lambda>i. ce_client_id (?E i)) (used_slots ?E)" using assms by (simp add: registry_ok_def table_ok_def)
  have "dom (clients reg) = (\<lambda>i. ce_client_id (?E i)) ` used_slots ?E"
    by (auto simp: clients_def members_Some [OF inj]) blast
  with card_image [OF inj] show ?thesis by simp
qed

lemma process_originator:
  assumes ok: "server_ok s" and rd: "all_read s msg"
  shows "\<exists>s' ws. map_option snd (unified_send_to_client net c msg s) = Some s' \<and> kept s s' \<and> us_wire s' = us_wire s @ ws
     \<and> delivered msg s (registered s [c]) ws"
proof -
  from unified_send_to_client_ok [OF ok all_read_can [OF rd]] obtain b s' ws where
    "unified_send_to_client net c msg s = Some (b, s')" "kept s s'" "us_wire s' = us_wire s @ ws" "delivered msg s (registered s [c]) ws" by blast
  then show ?thesis by (intro exI [of _ s'] exI [of _ ws]) simp
qed

lemma process_parties:
  assumes ok: "server_ok s" and rd: "all_read s msg" and msg: "msg = OUTPUT_MSG_TRADE t"
  shows "\<exists>s' ws. send_to_recipients net msg c s = Some s' \<and> kept s s' \<and> us_wire s' = us_wire s @ ws \<and> delivered msg s (registered s (parties s t)) ws"
proof -
  define b where "b = user_client_map_get (us_user_map s) (tr_user_id_buy t)"
  define a where "a = user_client_map_get (us_user_map s) (tr_user_id_sell t)"
  from ok rd obtain s1 s' ws where
    run: "(if b \<noteq> 0 then map_option snd (unified_send_to_client net b msg s) else Some s) = Some s1"
      "(if a \<noteq> 0 \<and> a \<noteq> b then map_option snd (unified_send_to_client net a msg s1) else Some s1) = Some s'"
    and s': "kept s s'" "us_wire s' = us_wire s @ ws"
      "delivered msg s (registered s ((if b \<noteq> 0 then [b] else []) @ (if a \<noteq> 0 \<and> a \<noteq> b then [a] else []))) ws" by (rule send_parties)
  have "send_to_recipients net msg c s = Some s'"
    using run by (simp only: send_to_recipients_def msg Let_def output_msg_t.case b_def [symmetric] a_def [symmetric] Option.bind.bind_lunit)
  with s' show ?thesis by (auto simp: parties_def Let_def a_def b_def)
qed

lemma send_to_recipients_ok:
  assumes ok: "server_ok s" and rd: "all_read s (oe_msg env)" and few: "few_clients s"
  shows "\<exists>s' cs ws. send_to_recipients net (oe_msg env) (oe_client_id env) s = Some s' \<and> kept s s' \<and> us_wire s' = us_wire s @ ws
     \<and> delivered (oe_msg env) s cs ws \<and> audience s env cs"
proof (cases "oe_msg env")
  case (OUTPUT_MSG_TRADE t)
  with process_parties [OF ok rd OUTPUT_MSG_TRADE, of net "oe_client_id env"] show ?thesis by (auto simp: audience_def)
next
  case (OUTPUT_MSG_TOP_OF_BOOK t)
  from ok have "registry_ok (us_registry s)" by (simp add: server_ok_def)
  with few have "card (used_slots (cr_entries (us_registry s))) \<le> unat MAX_REGISTERED_CLIENTS" unfolding few_clients_def by (simp only: card_clients)
  with ok rd obtain s' ids ws where "unified_broadcast_to_all net (oe_msg env) s = Some s'" "kept s s'" "us_wire s' = us_wire s @ ws"
    "delivered (oe_msg env) s ids ws" "distinct ids" "set ids = dom (clients (us_registry s))" by (rule unified_broadcast_to_all_ok)
  then show ?thesis using OUTPUT_MSG_TOP_OF_BOOK
    by (intro exI [of _ s'] exI [of _ ids] exI [of _ ws]) (simp add: send_to_recipients_def audience_def)
next
  case (OUTPUT_MSG_OTHER t)
  with rd show ?thesis by (simp add: all_read_def formattable_def)
next
  case (OUTPUT_MSG_ACK m)
  then have eqs: "send_to_recipients net (oe_msg env) (oe_client_id env) s = map_option snd (unified_send_to_client net (oe_client_id env) (oe_msg env) s)"
    "audience s env (registered s [oe_client_id env])" by (simp_all add: send_to_recipients_def audience_def)
  show ?thesis using process_originator [OF ok rd, of net "oe_client_id env"] eqs(2) unfolding eqs(1) by blast
next
  case (OUTPUT_MSG_CANCEL_ACK m)
  then have eqs: "send_to_recipients net (oe_msg env) (oe_client_id env) s = map_option snd (unified_send_to_client net (oe_client_id env) (oe_msg env) s)"
    "audience s env (registered s [oe_client_id env])" by (simp_all add: send_to_recipients_def audience_def)
  show ?thesis using process_originator [OF ok rd, of net "oe_client_id env"] eqs(2) unfolding eqs(1) by blast
qed

text \<open>What an envelope becomes on the wire: the message to its audience, and to the multicast group.\<close>

definition served :: "unified_server_t \<Rightarrow> output_msg_envelope_t \<Rightarrow> (dest \<times> u8 list \<times> int) list \<Rightarrow> bool" where
  "served s env w \<longleftrightarrow> (\<exists>cs ws mc. w = ws @ mc \<and> delivered (oe_msg env) s cs ws \<and> audience s env cs \<and> on_multicast s (oe_msg env) mc)"

definition ready :: "unified_server_t \<Rightarrow> output_msg_envelope_t \<Rightarrow> bool" where
  "ready s env \<longleftrightarrow> all_read s (oe_msg env) \<and> few_clients s"

theorem process_output_envelope_ok:
  assumes ok: "server_ok s" and rd: "ready s env"
  obtains s' w where "process_output_envelope net env s = Some s'" "kept s s'" "us_wire s' = us_wire s @ w" "served s env w"
proof -
  from rd have rd': "all_read s (oe_msg env)" "few_clients s" by (simp_all add: ready_def)
  from send_to_recipients_ok [OF ok rd', of net] obtain s1 cs ws where s1: "send_to_recipients net (oe_msg env) (oe_client_id env) s = Some s1" "kept s s1"
    "us_wire s1 = us_wire s @ ws" "delivered (oe_msg env) s cs ws" "audience s env cs" by blast
  from rd'(1) have "formattable (oe_msg env)" by (simp add: all_read_def)
  with kept_ok [OF ok s1(2)] obtain s2 mc where s2: "unified_send_multicast net (oe_msg env) s1 = Some s2" "kept s1 s2" "us_wire s2 = us_wire s1 @ mc"
    "on_multicast s1 (oe_msg env) mc" by (rule unified_send_multicast_ok)
  have "kept s (s2\<lparr>us_messages_routed := us_messages_routed s2 + 1\<rparr>)" using kept_trans [OF s1(2) s2(2)] by (simp add: kept_def)
  moreover have "on_multicast s (oe_msg env) mc" using s2(4) s1(2) by (simp add: on_multicast_def kept_def)
  with s1(4,5) have "served s env (ws @ mc)" by (auto simp: served_def)
  ultimately show thesis using s1 s2
    by (intro that [of "s2\<lparr>us_messages_routed := us_messages_routed s2 + 1\<rparr>" "ws @ mc"]) (simp_all add: process_output_envelope_def)
qed

text \<open>To whom an envelope goes depends on the registry, the user map and the multicast socket only, which routing keeps.\<close>

definition same_audience :: "unified_server_t \<Rightarrow> unified_server_t \<Rightarrow> bool" where
  "same_audience s s' \<longleftrightarrow> us_user_map s' = us_user_map s \<and> us_multicast_fd s' = us_multicast_fd s \<and> same_clients (us_registry s) (us_registry s')"

lemma kept_same_audience: "kept s s' \<Longrightarrow> same_audience s s'"
  by (simp add: kept_def same_audience_def)


lemma same_audience_trans: "same_audience a b \<Longrightarrow> same_audience b c \<Longrightarrow> same_audience a c"
  using same_clients_trans by (auto simp: same_audience_def)

lemma same_audience_served:
  assumes "same_audience s s'"
  shows "served s' env w = served s env w" and "ready s' env = ready s env"
proof -
  from assms have sc: "same_clients (us_registry s) (us_registry s')" and um: "us_user_map s' = us_user_map s" and fd: "us_multicast_fd s' = us_multicast_fd s"
    by (simp_all add: same_audience_def)
  note f = same_clients_facts [OF sc]
  have d: "dom (clients (us_registry s')) = dom (clients (us_registry s))" using same_clients_None [OF sc] by (simp add: dom_def)
  have p: "parties s' t = parties s t" for t by (simp add: parties_def um)
  have "audience s' env cs = audience s env cs" for cs by (simp add: audience_def f(1) d p split: output_msg_t.split)
  then show "served s' env w = served s env w" by (simp add: served_def f(2) on_multicast_def fd)
  show "ready s' env = ready s env" by (simp add: ready_def all_read_iff f(3) few_clients_def d)
qed

section \<open>The router thread\<close>

definition sending :: "unified_server_t \<Rightarrow> bool \<Rightarrow> output_msg_envelope_t list" where
  "sending s second = (if second then (case us_output_queue_1 s of None \<Rightarrow> [] | Some q \<Rightarrow> contents q) else contents (us_output_queue_0 s))"

text \<open>The envelopes in the order the router takes them: one from each queue in turn.\<close>

fun alternate :: "nat \<Rightarrow> 'a list \<Rightarrow> 'a list \<Rightarrow> 'a list" where
  "alternate 0 xs ys = []"
| "alternate (Suc n) xs ys = take 1 xs @ take 1 ys @ alternate n (drop 1 xs) (drop 1 ys)"

definition head_served :: "net \<Rightarrow> output_msg_envelope_t list \<Rightarrow> unified_server_t \<Rightarrow> unified_server_t option" where
  "head_served net xs s = (case xs of [] \<Rightarrow> Some s | env # _ \<Rightarrow> process_output_envelope net env s)"

lemma head_served_ok:
  assumes ok: "server_ok s" and rd: "\<forall>env\<in>set (take 1 xs). ready s env"
  obtains s' ws where "head_served net xs s = Some s'" "kept s s'" "us_wire s' = us_wire s @ concat ws" "list_all2 (served s) (take 1 xs) ws"
proof (cases xs)
  case Nil
  with kept_refl [OF ok] show thesis by (intro that [of s "[]"]) (simp_all add: head_served_def)
next
  case (Cons env r)
  with rd have "ready s env" by simp
  with ok obtain s' w where "process_output_envelope net env s = Some s'" "kept s s'" "us_wire s' = us_wire s @ w" "served s env w"
    by (rule process_output_envelope_ok)
  with Cons show thesis by (intro that [of s' "[w]"]) (simp_all add: head_served_def)
qed

lemma queue_dequeue_head:
  assumes "queue_ok q"
  obtains q' where "queue_dequeue q = (case contents q of [] \<Rightarrow> None | x # _ \<Rightarrow> Some x, q')" "queue_ok q'" "contents q' = drop 1 (contents q)"
proof -
  obtain r q' where "queue_dequeue q = (r, q')" by fastforce
  with queue_dequeue_ok [OF assms this] show thesis by (intro that [of q']) (simp_all add: drop_Suc)
qed

definition step_ok :: "bool \<Rightarrow> unified_server_t \<Rightarrow> unified_server_t \<Rightarrow> (dest \<times> u8 list \<times> int) list list \<Rightarrow> bool" where
  "step_ok k s s' ws \<longleftrightarrow> server_ok s' \<and> same_audience s s' \<and> sending s' = (sending s)(k := drop 1 (sending s k))
     \<and> us_wire s' = us_wire s @ concat ws \<and> list_all2 (served s) (take 1 (sending s k)) ws"

lemma sent_head_ok:
  assumes s0: "server_ok s0" "same_audience s s0" "us_wire s0 = us_wire s" "sending s0 = (sending s)(k := drop 1 (sending s k))"
    and rd: "\<forall>env\<in>set (take 1 (sending s k)). ready s env"
  shows "\<exists>s' ws. head_served net (sending s k) s0 = Some s' \<and> step_ok k s s' ws"
proof -
  from rd same_audience_served(2) [OF s0(2)] have "\<forall>env\<in>set (take 1 (sending s k)). ready s0 env" by simp
  with s0(1) obtain s' ws where s': "head_served net (sending s k) s0 = Some s'" "kept s0 s'" "us_wire s' = us_wire s0 @ concat ws"
    "list_all2 (served s0) (take 1 (sending s k)) ws" by (rule head_served_ok)
  have "sending s' = sending s0" using s'(2) by (simp add: kept_def sending_def fun_eq_iff)
  moreover have "served s0 = served s" by (intro ext same_audience_served(1) [OF s0(2)])
  ultimately have "step_ok k s s' ws"
    using s0 s' kept_ok [OF s0(1) s'(2)] same_audience_trans [OF s0(2) kept_same_audience [OF s'(2)]] by (simp add: step_ok_def)
  with s'(1) show ?thesis by blast
qed

lemma route_queue_0_ok:
  assumes ok: "server_ok s" and rd: "\<forall>env\<in>set (take 1 (sending s False)). ready s env"
  shows "\<exists>s' ws. route_queue_0 net s = Some s' \<and> step_ok False s s' ws"
proof -
  from ok have "queue_ok (us_output_queue_0 s)" by (simp add: server_ok_def)
  then obtain q where q: "queue_dequeue (us_output_queue_0 s) = (case contents (us_output_queue_0 s) of [] \<Rightarrow> None | x # _ \<Rightarrow> Some x, q)" "queue_ok q"
    "contents q = drop 1 (contents (us_output_queue_0 s))" by (rule queue_dequeue_head)
  define s0 where "s0 = s\<lparr>us_output_queue_0 := q\<rparr>"
  have "route_queue_0 net s = head_served net (sending s False) s0"
    using q(1) by (simp add: route_queue_0_def head_served_def sending_def s0_def split: list.split)
  moreover have "server_ok s0" "same_audience s s0" "us_wire s0 = us_wire s" "sending s0 = (sending s)(False := drop 1 (sending s False))"
    using ok q by (simp_all add: server_ok_def s0_def same_audience_def sending_def fun_eq_iff)
  ultimately show ?thesis using sent_head_ok [of s0 s False net] rd by simp
qed

lemma route_queue_1_ok:
  assumes ok: "server_ok s" and rd: "\<forall>env\<in>set (take 1 (sending s True)). ready s env"
  shows "\<exists>s' ws. route_queue_1 net s = Some s' \<and> step_ok True s s' ws"
proof (cases "us_output_queue_1 s")
  case None
  then have "sending s True = []" by (simp add: sending_def)
  then have "step_ok True s s []" using ok by (auto simp: step_ok_def same_audience_def fun_upd_idem)
  with None show ?thesis by (auto simp: route_queue_1_def)
next
  case (Some q1)
  with ok have "queue_ok q1" by (simp add: server_ok_def)
  then obtain q where q: "queue_dequeue q1 = (case contents q1 of [] \<Rightarrow> None | x # _ \<Rightarrow> Some x, q)" "queue_ok q"
    "contents q = drop 1 (contents q1)" by (rule queue_dequeue_head)
  define s0 where "s0 = s\<lparr>us_output_queue_1 := Some q\<rparr>"
  have "route_queue_1 net s = head_served net (sending s True) s0"
    using q(1) Some by (simp add: route_queue_1_def head_served_def sending_def s0_def split: list.split)
  moreover have "server_ok s0" "same_audience s s0" "us_wire s0 = us_wire s" "sending s0 = (sending s)(True := drop 1 (sending s True))"
    using ok q Some by (simp_all add: server_ok_def s0_def same_audience_def sending_def fun_eq_iff)
  ultimately show ?thesis using sent_head_ok [of s0 s True net] rd by simp
qed

lemma router_iteration_ok:
  assumes ok: "server_ok s" and rd: "\<forall>k. \<forall>env\<in>set (take 1 (sending s k)). ready s env"
  shows "\<exists>s' ws. router_iteration net s = Some s' \<and> server_ok s' \<and> same_audience s s' \<and> sending s' = (\<lambda>k. drop 1 (sending s k))
     \<and> us_wire s' = us_wire s @ concat ws \<and> list_all2 (served s) (take 1 (sending s False) @ take 1 (sending s True)) ws"
proof -
  from route_queue_0_ok [OF ok] rd obtain s1 w1 where s1: "route_queue_0 net s = Some s1" "step_ok False s s1 w1" by blast
  then have st: "server_ok s1" "same_audience s s1" "sending s1 True = sending s True" by (simp_all add: step_ok_def)
  from rd same_audience_served(2) [OF st(2)] st(3) have "\<forall>env\<in>set (take 1 (sending s1 True)). ready s1 env" by simp
  from route_queue_1_ok [OF st(1) this] obtain s2 w2 where s2: "route_queue_1 net s1 = Some s2" "step_ok True s1 s2 w2" by blast
  have same: "served s1 = served s" by (intro ext same_audience_served(1) [OF st(2)])
  have "sending s2 = (\<lambda>k. drop 1 (sending s k))" using s1(2) s2(2) by (auto simp: step_ok_def fun_eq_iff)
  moreover have "us_wire s2 = us_wire s @ concat (w1 @ w2)" using s1(2) s2(2) by (simp add: step_ok_def)
  moreover have "list_all2 (served s) (take 1 (sending s False) @ take 1 (sending s True)) (w1 @ w2)"
    using s1(2) s2(2) st(3) same by (intro list_all2_appendI) (simp_all add: step_ok_def)
  moreover have "server_ok s2" "same_audience s s2" using s2(2) same_audience_trans [OF st(2)] by (simp_all add: step_ok_def)
  ultimately show ?thesis using s1(1) s2(1) by (intro exI [of _ s2] exI [of _ "w1 @ w2"]) (simp add: router_iteration_def)
qed

text \<open>
  However long the thread runs, it has taken the envelopes from the two queues in turn, and each has been served
  on the wire before the next.
\<close>

theorem router_loop_ok:
  assumes "server_ok s" and "\<forall>k. \<forall>env\<in>set (sending s k). ready s env"
  shows "\<exists>s' ws. router_loop n net s = Some s' \<and> server_ok s' \<and> same_audience s s' \<and> (\<forall>k. sending s' k = drop n (sending s k))
     \<and> us_wire s' = us_wire s @ concat ws \<and> list_all2 (served s) (alternate n (sending s False) (sending s True)) ws"
  using assms
proof (induction n arbitrary: s)
  case 0
  then show ?case by (auto simp: same_audience_def intro!: exI [of _ "[]"])
next
  case (Suc n)
  from Suc.prems(2) have "\<forall>k. \<forall>env\<in>set (take 1 (sending s k)). ready s env" by (meson in_set_takeD)
  from router_iteration_ok [OF Suc.prems(1) this] obtain s1 w1 where s1: "router_iteration net s = Some s1" "server_ok s1" "same_audience s s1"
    "sending s1 = (\<lambda>k. drop 1 (sending s k))" "us_wire s1 = us_wire s @ concat w1"
    "list_all2 (served s) (take 1 (sending s False) @ take 1 (sending s True)) w1" by blast
  have "\<forall>k. \<forall>env\<in>set (sending s1 k). ready s1 env"
    using Suc.prems(2) same_audience_served(2) [OF s1(3)] s1(4) by (auto dest: in_set_dropD)
  from Suc.IH [OF s1(2) this] obtain s' w2 where s': "router_loop n net s1 = Some s'" "server_ok s'" "same_audience s1 s'"
    "\<forall>k. sending s' k = drop n (sending s1 k)" "us_wire s' = us_wire s1 @ concat w2"
    "list_all2 (served s1) (alternate n (sending s1 False) (sending s1 True)) w2" by blast
  have same: "served s1 = served s" by (intro ext same_audience_served(1) [OF s1(3)])
  have "list_all2 (served s) (alternate (Suc n) (sending s False) (sending s True)) (w1 @ w2)"
    using list_all2_appendI [OF s1(6) s'(6) [unfolded same]] s1(4) by simp
  moreover have "\<forall>k. sending s' k = drop (Suc n) (sending s k)" using s'(4) s1(4) by simp
  ultimately show ?case using s1(1,5) s'(1,2,5) same_audience_trans [OF s1(3) s'(3)]
    by (intro exI [of _ s'] exI [of _ "w1 @ w2"]) simp
qed


section \<open>A trade\<close>

text \<open>
  The processor puts a trade between two clients into the output queue once for each of them, and the
  router sends each of the two envelopes to both parties: each party gets the trade twice.
\<close>

lemma served_trade:
  assumes "served s env w" and "oe_msg env = OUTPUT_MSG_TRADE t" and "registered s (parties s t) = cs"
  shows "\<exists>ws mc. w = ws @ mc \<and> delivered (OUTPUT_MSG_TRADE t) s cs ws \<and> on_multicast s (OUTPUT_MSG_TRADE t) mc"
  using assms by (auto simp: served_def audience_def)

theorem trade_sent_twice:
  assumes ok: "server_ok s" and rd: "all_read s (OUTPUT_MSG_TRADE t)" "few_clients s"
    and two: "tr_buy_client_id t \<noteq> tr_sell_client_id t" "sending s False = routed c seq [OUTPUT_MSG_TRADE t]" "sending s True = []"
    and b: "user_client_map_get (us_user_map s) (tr_user_id_buy t) = b" "clients (us_registry s) b \<noteq> None"
    and a: "user_client_map_get (us_user_map s) (tr_user_id_sell t) = a" "clients (us_registry s) a \<noteq> None" and ne: "a \<noteq> b"
  shows "\<exists>s' w1 m1 w2 m2. router_loop 2 net s = Some s' \<and> sending s' False = [] \<and> us_wire s' = us_wire s @ (w1 @ m1) @ (w2 @ m2)
     \<and> delivered (OUTPUT_MSG_TRADE t) s [b, a] w1 \<and> delivered (OUTPUT_MSG_TRADE t) s [b, a] w2
     \<and> on_multicast s (OUTPUT_MSG_TRADE t) m1 \<and> on_multicast s (OUTPUT_MSG_TRADE t) m2"
proof -
  from ok have reg: "registry_ok (us_registry s)" by (simp add: server_ok_def)
  have "b \<noteq> 0" "a \<noteq> 0" using a(2) b(2) clients_entry(1) [OF reg] by auto
  then have par: "registered s (parties s t) = [b, a]" using a b ne by (simp add: parties_def registered_def)
  obtain e1 e2 where e: "sending s False = [e1, e2]" "oe_msg e1 = OUTPUT_MSG_TRADE t" "oe_msg e2 = OUTPUT_MSG_TRADE t"
    using two by simp
  with rd two(3) have "\<forall>k. \<forall>env\<in>set (sending s k). ready s env" by (simp add: ready_def all_bool_eq)
  from router_loop_ok [OF ok this, of 2 net] obtain s' ws where s': "router_loop 2 net s = Some s'" "\<forall>k. sending s' k = drop 2 (sending s k)"
    "us_wire s' = us_wire s @ concat ws" "list_all2 (served s) (alternate 2 (sending s False) (sending s True)) ws" by blast
  from s'(4) e(1) two(3) obtain x y where ws: "ws = [x, y]" "served s e1 x" "served s e2 y"
    by (auto simp: numeral_2_eq_2 list_all2_Cons1)
  from served_trade [OF ws(2) e(2) par] served_trade [OF ws(3) e(3) par] obtain w1 m1 w2 m2 where
    "x = w1 @ m1" "delivered (OUTPUT_MSG_TRADE t) s [b, a] w1" "on_multicast s (OUTPUT_MSG_TRADE t) m1"
    "y = w2 @ m2" "delivered (OUTPUT_MSG_TRADE t) s [b, a] w2" "on_multicast s (OUTPUT_MSG_TRADE t) m2" by blast
  then show ?thesis using s' ws(1) e(1)
    by (intro exI [of _ s'] exI [of _ w1] exI [of _ m1] exI [of _ w2] exI [of _ m2]) simp
qed

end
