(* ===== verification/ME_Unified_Safe.thy ===== *)
theory ME_Unified_Safe
  imports ME_Unified_Output
begin

text \<open>
  The router thread never stops on a message the engine can emit, whatever the clients are, whatever their
  connections do, and also where a line does not fit or a number is not readable for the client.
\<close>

lemma kept_update [simp]:
  "kept s (s'\<lparr>us_bin_formatter := bf\<rparr>) = kept s s'" "kept s (s'\<lparr>us_csv_formatter := cf\<rparr>) = kept s s'"
  "kept s (s'\<lparr>us_wire := w\<rparr>) = kept s s'" "kept s (s'\<lparr>us_tob_broadcasts := n\<rparr>) = kept s s'"
  "kept s (s'\<lparr>us_multicast_messages := n\<rparr>) = kept s s'" "kept s (s'\<lparr>us_messages_routed := n\<rparr>) = kept s s'"
  by (simp_all add: kept_def)

lemma kept_registry: "kept s s' \<Longrightarrow> registry_ok reg \<Longrightarrow> same_clients (us_registry s') reg \<Longrightarrow> kept s (s'\<lparr>us_registry := reg\<rparr>)"
  by (auto simp: kept_def intro: same_clients_trans)

lemma format_for_total:
  assumes ok: "server_ok s" and f: "formattable msg"
  shows "\<exists>r s'. format_for q msg s = Some (r, s') \<and> kept s s'"
proof (cases "q = CLIENT_PROTOCOL_BINARY")
  case True
  from f obtain bs bf where "binary_message_formatter_format (us_bin_formatter s) msg = Some (Some bs, bf)" "reads_as CLIENT_PROTOCOL_BINARY msg bs"
    by (rule binary_reads_as)
  with True show ?thesis using kept_refl [OF ok] by (simp add: format_for_def)
next
  case False
  from message_formatter_format_total [of "us_csv_formatter s" msg] obtain line cf where "message_formatter_format (us_csv_formatter s) msg = Some (line, cf)"
    by blast
  with False show ?thesis using kept_refl [OF ok] by (simp add: format_for_def)
qed

lemma transmit_kept [simp]: "kept s (snd (transmit net d bytes s')) = kept s s'"
  by (simp add: transmit_def Let_def)

lemma tcp_send_kept [simp]: "kept s (snd (tcp_send_with_framing net fd bytes b s')) = kept s s'"
  by (simp add: tcp_send_with_framing_def case_prod_unfold Let_def)

lemma unified_send_to_client_total:
  assumes ok: "server_ok s" and f: "formattable msg"
  shows "\<exists>b s'. unified_send_to_client net c msg s = Some (b, s') \<and> kept s s'"
proof -
  from ok have reg: "registry_ok (us_registry s)" by (simp add: server_ok_def)
  show ?thesis
  proof (cases "c = 0 \<or> clients (us_registry s) c = None")
    case True
    with kept_refl [OF ok] show ?thesis by (auto simp: unified_send_to_client_def client_registry_find_ok [OF reg])
  next
    case False
    then obtain e where c: "c \<noteq> 0" and e: "clients (us_registry s) c = Some e" by blast
    note en = clients_entry [OF reg e]
    from format_for_total [OF ok f, of "ce_protocol e"] obtain r s1 where s1: "format_for (ce_protocol e) msg s = Some (r, s1)" "kept s s1" by blast
    define sends where "sends data = (case (ce_transport e, ce_handle e) of
       (TRANSPORT_TCP, Tcp_fd fd) \<Rightarrow>
         if fd \<ge> 0 then (let (sent, s2) = tcp_send_with_framing net fd data (ce_protocol e = CLIENT_PROTOCOL_BINARY) s1 in Some (sent = int (length data), s2))
         else Some (False, s1)
     | (TRANSPORT_UDP, Udp_addr a) \<Rightarrow> (let (sent, s2) = transmit net (To_udp a) data s1 in Some (sent = int (length data), s2))
     | (TRANSPORT_UNKNOWN, _) \<Rightarrow> Some (False, s1)
     | _ \<Rightarrow> None)" for data
    have sends: "\<exists>b s2. sends data = Some (b, s2) \<and> kept s s2" for data
      using en(4) s1(2)
      by (cases "ce_transport e"; cases "ce_handle e") (auto simp: sends_def entry_ok_def case_prod_unfold Let_def)
    have sent: "\<exists>b s'. Option.bind (sends data) (\<lambda>(b, s2). if b then Option.bind (client_registry_inc_sent c (us_registry s2)) (\<lambda>reg. Some (True, s2\<lparr>us_registry := reg\<rparr>))
        else Some (False, s2)) = Some (b, s') \<and> kept s s'" for data
    proof -
      from sends [of data] obtain b s2 where s2: "sends data = Some (b, s2)" "kept s s2" by blast
      from kept_ok [OF ok s2(2)] have "registry_ok (us_registry s2)" by (simp add: server_ok_def)
      then obtain reg' where "client_registry_inc_sent c (us_registry s2) = Some reg'" "registry_ok reg'" "same_clients (us_registry s2) reg'"
        by (rule client_registry_inc_sent_ok)
      with s2 kept_registry [OF s2(2), of reg'] show ?thesis by (cases b) auto
    qed
    have "unified_send_to_client net c msg s = (case r of None \<Rightarrow> Some (False, s1) | Some data \<Rightarrow> if length data = 0 then Some (False, s1)
        else Option.bind (sends data) (\<lambda>(b, s2). if b then Option.bind (client_registry_inc_sent c (us_registry s2)) (\<lambda>reg. Some (True, s2\<lparr>us_registry := reg\<rparr>))
          else Some (False, s2)))"
      using c en(2) s1(1) by (cases r) (simp_all add: unified_send_to_client_def client_registry_find_ok [OF reg] e sends_def)
    with s1(2) sent show ?thesis by (cases r) auto
  qed
qed


lemma broadcast_loop_total:
  assumes "server_ok s"
  shows "\<exists>s'. broadcast_loop net csv bin cs s = Some s' \<and> kept s s'"
  using assms
proof (induction cs arbitrary: s)
  case (Cons c cs)
  from Cons.prems have reg: "registry_ok (us_registry s)" by (simp add: server_ok_def)
  show ?case
  proof (cases "clients (us_registry s) c")
    case None
    with Cons show ?thesis by (simp add: client_registry_find_ok [OF reg])
  next
    case (Some e)
    note en = clients_entry [OF reg Some]
    define data where "data = (if ce_protocol e = CLIENT_PROTOCOL_BINARY then (case bin of Some d \<Rightarrow> d | None \<Rightarrow> []) else csv)"
    define sends where "sends = (case (ce_transport e, ce_handle e) of
        (TRANSPORT_TCP, Tcp_fd fd) \<Rightarrow> Some (if fd \<ge> 0 then snd (tcp_send_with_framing net fd data (ce_protocol e = CLIENT_PROTOCOL_BINARY) s) else s)
      | (TRANSPORT_UDP, Udp_addr a) \<Rightarrow> Some (snd (transmit net (To_udp a) data s))
      | (TRANSPORT_UNKNOWN, _) \<Rightarrow> Some s
      | _ \<Rightarrow> None)"
    have run: "broadcast_loop net csv bin (c # cs) s = (if length data = 0 then broadcast_loop net csv bin cs s
        else Option.bind sends (\<lambda>s1. Option.bind (client_registry_inc_sent c (us_registry s1)) (\<lambda>reg. broadcast_loop net csv bin cs (s1\<lparr>us_registry := reg\<rparr>))))"
      using en(2) Some by (cases "ce_transport e"; cases "ce_handle e") (simp_all add: client_registry_find_ok [OF reg] sends_def data_def Let_def)
    have "\<exists>s1. sends = Some s1 \<and> kept s s1"
      using en(4) kept_refl [OF Cons.prems] by (cases "ce_transport e"; cases "ce_handle e") (auto simp: sends_def entry_ok_def)
    then obtain s1 where s1: "sends = Some s1" "kept s s1" by blast
    from kept_ok [OF Cons.prems s1(2)] have "registry_ok (us_registry s1)" by (simp add: server_ok_def)
    then obtain reg' where r: "client_registry_inc_sent c (us_registry s1) = Some reg'" "registry_ok reg'" "same_clients (us_registry s1) reg'"
      by (rule client_registry_inc_sent_ok)
    note k = kept_registry [OF s1(2) r(2,3)]
    from Cons.IH [OF kept_ok [OF Cons.prems k]] Cons.IH [OF Cons.prems] s1(1) r(1) kept_trans [OF k]
    show ?thesis unfolding run by (cases "length data = 0") auto
  qed
qed (simp add: kept_refl)

lemma unified_broadcast_to_all_total:
  assumes ok: "server_ok s" and f: "formattable msg"
  shows "\<exists>s'. unified_broadcast_to_all net msg s = Some s' \<and> kept s s'"
proof -
  from message_formatter_format_total [of "us_csv_formatter s" msg] obtain line cf where l: "message_formatter_format (us_csv_formatter s) msg = Some (line, cf)" by blast
  from f obtain bin bf where b: "binary_message_formatter_format (us_bin_formatter s) msg = Some (Some bin, bf)" "reads_as CLIENT_PROTOCOL_BINARY msg bin" by (rule binary_reads_as)
  obtain ids where i: "client_registry_get_all_ids (us_registry s) MAX_REGISTERED_CLIENTS = Some ids" by (simp add: client_registry_get_all_ids_def)
  have k: "kept s (s\<lparr>us_csv_formatter := cf, us_bin_formatter := bf\<rparr>)" using kept_refl [OF ok] by simp
  from broadcast_loop_total [OF kept_ok [OF ok k], of net "c_bytes line" "Some bin" ids] obtain s1 where
    "broadcast_loop net (c_bytes line) (Some bin) ids (s\<lparr>us_csv_formatter := cf, us_bin_formatter := bf\<rparr>) = Some s1" "kept (s\<lparr>us_csv_formatter := cf, us_bin_formatter := bf\<rparr>) s1"
    by blast
  with l b(1) i kept_trans [OF k] show ?thesis by (simp add: unified_broadcast_to_all_def)
qed

lemma send_snd_total:
  assumes "server_ok s" and "formattable msg"
  shows "\<exists>s'. map_option snd (unified_send_to_client net c msg s) = Some s' \<and> kept s s'"
  using unified_send_to_client_total [OF assms, of net c] by auto

lemma send_to_recipients_total:
  assumes ok: "server_ok s" and f: "formattable msg"
  shows "\<exists>s'. send_to_recipients net msg c s = Some s' \<and> kept s s'"
proof (cases msg)
  case (OUTPUT_MSG_TRADE t)
  define b where "b = user_client_map_get (us_user_map s) (tr_user_id_buy t)"
  define a where "a = user_client_map_get (us_user_map s) (tr_user_id_sell t)"
  obtain s1 where s1: "(if b \<noteq> 0 then map_option snd (unified_send_to_client net b msg s) else Some s) = Some s1" "kept s s1"
    using send_snd_total [OF ok f, of net b] kept_refl [OF ok] by (cases "b = 0") auto
  obtain s2 where s2: "(if a \<noteq> 0 \<and> a \<noteq> b then map_option snd (unified_send_to_client net a msg s1) else Some s1) = Some s2" "kept s1 s2"
    using send_snd_total [OF kept_ok [OF ok s1(2)] f, of net a] kept_refl [OF kept_ok [OF ok s1(2)]] by (cases "a \<noteq> 0 \<and> a \<noteq> b") auto
  have "send_to_recipients net msg c s = Some s2"
    using s1(1) s2(1) unfolding OUTPUT_MSG_TRADE
    by (simp only: send_to_recipients_def Let_def output_msg_t.case b_def [symmetric] a_def [symmetric] Option.bind.bind_lunit)
  with kept_trans [OF s1(2) s2(2)] show ?thesis by blast
qed (use ok f send_snd_total [OF ok f] unified_broadcast_to_all_total [OF ok f, of net] kept_refl [OF ok] in \<open>simp_all add: send_to_recipients_def\<close>)

theorem process_output_envelope_total:
  assumes ok: "server_ok s" and f: "formattable (oe_msg env)"
  shows "\<exists>s'. process_output_envelope net env s = Some s' \<and> kept s s'"
proof -
  from send_to_recipients_total [OF ok f, of net "oe_client_id env"] obtain s1 where
    s1: "send_to_recipients net (oe_msg env) (oe_client_id env) s = Some s1" "kept s s1" by blast
  from kept_ok [OF ok s1(2)] f obtain s2 mc where "unified_send_multicast net (oe_msg env) s1 = Some s2" "kept s1 s2" "us_wire s2 = us_wire s1 @ mc"
    "on_multicast s1 (oe_msg env) mc" by (rule unified_send_multicast_ok)
  with s1 kept_trans [OF s1(2)] show ?thesis by (simp add: process_output_envelope_def)
qed


text \<open>One pass of the router over queues that hold messages of the engine.\<close>

definition queued_ok :: "unified_server_t \<Rightarrow> bool" where
  "queued_ok s \<longleftrightarrow> (\<forall>k. \<forall>env\<in>set (sending s k). formattable (oe_msg env))"

lemma head_served_total:
  assumes "server_ok s" and "\<forall>env\<in>set xs. formattable (oe_msg env)"
  shows "\<exists>s'. head_served net xs s = Some s' \<and> kept s s'"
  using assms process_output_envelope_total [OF assms(1)] kept_refl [OF assms(1)] by (cases xs) (simp_all add: head_served_def)

lemma sent_head_total:
  assumes ok: "server_ok s0" and w: "sending s0 = (sending s)(k := drop 1 (sending s k))" and q: "queued_ok s"
  shows "\<exists>s'. head_served net (sending s k) s0 = Some s' \<and> kept s0 s' \<and> sending s' = (sending s)(k := drop 1 (sending s k)) \<and> queued_ok s'"
proof -
  from q have "\<forall>env\<in>set (sending s k). formattable (oe_msg env)" by (simp add: queued_ok_def)
  from head_served_total [OF ok this] obtain s' where s': "head_served net (sending s k) s0 = Some s'" "kept s0 s'" by blast
  have "sending s' = sending s0" using s'(2) by (simp add: kept_def sending_def fun_eq_iff)
  moreover have "queued_ok s'" using q w calculation by (auto simp: queued_ok_def dest: in_set_dropD)
  ultimately show ?thesis using s' w by auto
qed

lemma route_queue_0_total:
  assumes ok: "server_ok s" and q: "queued_ok s"
  shows "\<exists>s'. route_queue_0 net s = Some s' \<and> server_ok s' \<and> same_audience s s' \<and> sending s' = (sending s)(False := drop 1 (sending s False)) \<and> queued_ok s'
     \<and> us_input_queue_0 s' = us_input_queue_0 s \<and> us_input_queue_1 s' = us_input_queue_1 s \<and> us_config s' = us_config s"
proof -
  from ok have "queue_ok (us_output_queue_0 s)" by (simp add: server_ok_def)
  then obtain q' where q': "queue_dequeue (us_output_queue_0 s) = (case contents (us_output_queue_0 s) of [] \<Rightarrow> None | x # _ \<Rightarrow> Some x, q')" "queue_ok q'"
    "contents q' = drop 1 (contents (us_output_queue_0 s))" by (rule queue_dequeue_head)
  define s0 where "s0 = s\<lparr>us_output_queue_0 := q'\<rparr>"
  have run: "route_queue_0 net s = head_served net (sending s False) s0"
    using q'(1) by (simp add: route_queue_0_def head_served_def sending_def s0_def split: list.split)
  have s0: "server_ok s0" "same_audience s s0" "sending s0 = (sending s)(False := drop 1 (sending s False))"
    using ok q' by (simp_all add: server_ok_def s0_def same_audience_def sending_def fun_eq_iff)
  from sent_head_total [OF s0(1,3) q] obtain s' where s': "head_served net (sending s False) s0 = Some s'" "kept s0 s'"
    "sending s' = (sending s)(False := drop 1 (sending s False))" "queued_ok s'" by blast
  have "us_input_queue_0 s' = us_input_queue_0 s" "us_input_queue_1 s' = us_input_queue_1 s" "us_config s' = us_config s"
    using s'(2) by (simp_all add: kept_def s0_def)
  with s' kept_ok [OF s0(1) s'(2)] same_audience_trans [OF s0(2) kept_same_audience [OF s'(2)]] show ?thesis by (simp add: run)
qed

lemma route_queue_1_total:
  assumes ok: "server_ok s" and q: "queued_ok s"
  shows "\<exists>s'. route_queue_1 net s = Some s' \<and> server_ok s' \<and> same_audience s s' \<and> sending s' = (sending s)(True := drop 1 (sending s True)) \<and> queued_ok s'
     \<and> us_input_queue_0 s' = us_input_queue_0 s \<and> us_input_queue_1 s' = us_input_queue_1 s \<and> us_config s' = us_config s"
proof (cases "us_output_queue_1 s")
  case None
  then have "sending s True = []" by (simp add: sending_def)
  with None ok q show ?thesis by (auto simp: route_queue_1_def same_audience_def fun_upd_idem)
next
  case (Some q1)
  with ok have "queue_ok q1" by (simp add: server_ok_def)
  then obtain q' where q': "queue_dequeue q1 = (case contents q1 of [] \<Rightarrow> None | x # _ \<Rightarrow> Some x, q')" "queue_ok q'"
    "contents q' = drop 1 (contents q1)" by (rule queue_dequeue_head)
  define s0 where "s0 = s\<lparr>us_output_queue_1 := Some q'\<rparr>"
  have run: "route_queue_1 net s = head_served net (sending s True) s0"
    using q'(1) Some by (simp add: route_queue_1_def head_served_def sending_def s0_def split: list.split)
  have s0: "server_ok s0" "same_audience s s0" "sending s0 = (sending s)(True := drop 1 (sending s True))"
    using ok q' Some by (simp_all add: server_ok_def s0_def same_audience_def sending_def fun_eq_iff)
  from sent_head_total [OF s0(1,3) q] obtain s' where s': "head_served net (sending s True) s0 = Some s'" "kept s0 s'"
    "sending s' = (sending s)(True := drop 1 (sending s True))" "queued_ok s'" by blast
  have "us_input_queue_0 s' = us_input_queue_0 s" "us_input_queue_1 s' = us_input_queue_1 s" "us_config s' = us_config s"
    using s'(2) by (simp_all add: kept_def s0_def)
  with s' kept_ok [OF s0(1) s'(2)] same_audience_trans [OF s0(2) kept_same_audience [OF s'(2)]] show ?thesis by (simp add: run)
qed

theorem router_iteration_total:
  assumes ok: "server_ok s" and q: "queued_ok s"
  shows "\<exists>s'. router_iteration net s = Some s' \<and> server_ok s' \<and> queued_ok s' \<and> same_audience s s' \<and> sending s' = (\<lambda>k. drop 1 (sending s k))
     \<and> us_input_queue_0 s' = us_input_queue_0 s \<and> us_input_queue_1 s' = us_input_queue_1 s \<and> us_config s' = us_config s"
proof -
  from route_queue_0_total [OF assms, of net] obtain s1 where s1: "route_queue_0 net s = Some s1" "server_ok s1" "same_audience s s1"
    "sending s1 = (sending s)(False := drop 1 (sending s False))" "queued_ok s1"
    "us_input_queue_0 s1 = us_input_queue_0 s" "us_input_queue_1 s1 = us_input_queue_1 s" "us_config s1 = us_config s" by blast
  from route_queue_1_total [OF s1(2,5), of net] obtain s2 where s2: "route_queue_1 net s1 = Some s2" "server_ok s2" "same_audience s1 s2"
    "sending s2 = (sending s1)(True := drop 1 (sending s1 True))" "queued_ok s2"
    "us_input_queue_0 s2 = us_input_queue_0 s1" "us_input_queue_1 s2 = us_input_queue_1 s1" "us_config s2 = us_config s1" by blast
  have "sending s2 = (\<lambda>k. drop 1 (sending s k))" using s1(4) s2(4) by (auto simp: fun_eq_iff)
  with s1 s2 same_audience_trans [OF s1(3) s2(3)] show ?thesis by (simp add: router_iteration_def)
qed

end
