(* ===== verification/ME_Unified_System.thy ===== *)
theory ME_Unified_System
  imports ME_Unified_Safe
begin

text \<open>
  The unified server as a whole (\<^verbatim>\<open>modes/unified_mode.c\<close>): creation and destruction of its parts, and the
  interleaving of its threads.  The memory the allocator hands out has arbitrary contents
  (\<open>server_memory\<close>); allocation, sockets and threads succeed.  The
  steps of the threads are the bodies of their loops: a connection is accepted, a block of bytes
  or a datagram arrives, a connection ends, a processor or the router goes through its loop once.

  The steps interleave in any order, but each of them is one atomic pass.  Inside a pass the queues have one producer and one consumer; two handlers
  that enqueue at the same time (\<^verbatim>\<open>unified_tcp.c\<close>: every connection has its own thread, and all of them enqueue into the same single-producer queues) are not modelled.
  The passes considered are guarded: a processor takes a batch its engine can take (\<open>next_batch_ok\<close>), and the registry has room for a
  new connection or sender (\<open>tcp_room\<close>, \<open>udp_room\<close>).  A block is what one call of \<^verbatim>\<open>recv\<close> delivers: not empty, and at most what the buffer of the handler has space for.
\<close>

section \<open>Creation and destruction\<close>

record server_memory =
  sv_pool_0 :: order_pool_t
  sv_pool_1 :: order_pool_t
  sv_engine_0 :: matching_engine_t
  sv_engine_1 :: matching_engine_t
  sv_input_0 :: "input_msg_envelope_t queue_t"
  sv_input_1 :: "input_msg_envelope_t queue_t"
  sv_output_0 :: "output_msg_envelope_t queue_t"
  sv_output_1 :: "output_msg_envelope_t queue_t"
  sv_registry :: client_registry_t
  sv_user_map :: user_client_map_t
  sv_processor :: processor_t

definition init_memory_and_engines :: "unified_config_t \<Rightarrow> server_memory \<Rightarrow> (engine_ctx \<times> engine_ctx option) option" where
  "init_memory_and_engines config mem = do {
     pool_0 \<leftarrow> memory_pools_init (sv_pool_0 mem);
     let engine_0 = \<lparr>en_engine = matching_engine_init (sv_engine_0 mem), en_pool = pool_0, en_out = []\<rparr>;
     if uc_single_processor config then Some (engine_0, None)
     else do {
       pool_1 \<leftarrow> memory_pools_init (sv_pool_1 mem);
       Some (engine_0, Some \<lparr>en_engine = matching_engine_init (sv_engine_1 mem), en_pool = pool_1, en_out = []\<rparr>)
     }
   }"

definition init_queues :: "server_memory \<Rightarrow> unified_server_t \<Rightarrow> unified_server_t option" where
  "init_queues mem server = do {
     i0 \<leftarrow> queue_init (sv_input_0 mem);
     o0 \<leftarrow> queue_init (sv_output_0 mem);
     let s = server\<lparr>us_input_queue_0 := i0, us_output_queue_0 := o0\<rparr>;
     if uc_single_processor (us_config server) then Some s
     else do {
       i1 \<leftarrow> queue_init (sv_input_1 mem);
       o1 \<leftarrow> queue_init (sv_output_1 mem);
       Some (s\<lparr>us_input_queue_1 := Some i1, us_output_queue_1 := Some o1\<rparr>)
     }
   }"

definition init_client_tracking :: "server_memory \<Rightarrow> unified_server_t \<Rightarrow> unified_server_t option" where
  "init_client_tracking mem server = do {
     reg \<leftarrow> client_registry_init (sv_registry mem);
     Some (server\<lparr>us_registry := reg, us_user_map := user_client_map_init (sv_user_map mem)\<rparr>)
   }"

text \<open>
  The queues and engines are destroyed when they exist, in the order of the code; destroying a queue that is not empty
  fails an assertion.  The registry and the user map only give back their locks.
\<close>

definition destroy_optional :: "('a \<Rightarrow> 'a option) \<Rightarrow> 'a option \<Rightarrow> unit option" where
  "destroy_optional destroy x = (case x of None \<Rightarrow> Some () | Some y \<Rightarrow> map_option (\<lambda>_. ()) (destroy y))"

definition cleanup_server :: "unified_server_t \<Rightarrow> engine_ctx option \<Rightarrow> engine_ctx option \<Rightarrow> unit option" where
  "cleanup_server server engine_0 engine_1 = do {
     destroy_optional queue_destroy (Some (us_input_queue_0 server));
     destroy_optional queue_destroy (us_input_queue_1 server);
     destroy_optional queue_destroy (Some (us_output_queue_0 server));
     destroy_optional queue_destroy (us_output_queue_1 server);
     destroy_optional matching_engine_destroy engine_0;
     destroy_optional matching_engine_destroy engine_1
   }"

text \<open>A processor: its record and engine, and the local variables of its thread; its queues are those of the server.\<close>

record unified_system =
  sy_server :: unified_server_t
  sy_proc :: "bool \<Rightarrow> (proc_ctx \<times> thread_locals) option"
  sy_handlers :: "u32 \<Rightarrow> tcp_handler option"
  sy_udp_parser :: message_parser_t

definition start_processor :: "int \<Rightarrow> server_memory \<Rightarrow> engine_ctx \<Rightarrow> input_msg_envelope_t queue_t \<Rightarrow> output_msg_envelope_t queue_t
    \<Rightarrow> (proc_ctx \<times> thread_locals) option" where
  "start_processor n mem engine input output = do {
     (ok, p) \<leftarrow> processor_init \<lparr>pc_tcp_mode = False, pc_spin_wait = False, pc_processor_id = n\<rparr> (sv_processor mem);
     Some (thread_start \<lparr>px_processor = p, px_engine = engine, px_input = input, px_output = output\<rparr>)
   }"

definition blank_parser :: message_parser_t where
  "blank_parser = \<lparr>mp_line_buffer = [], mp_tokens = (\<lambda>_. []), mp_num_tokens = 0\<rparr>"

text \<open>The server as \<^verbatim>\<open>calloc\<close> returns it, with the configuration, the closed sockets and the formatters; the pointers to the queues are null.\<close>

definition calloc_server :: "unified_config_t \<Rightarrow> server_memory \<Rightarrow> binary_message_formatter_t \<Rightarrow> unified_server_t" where
  "calloc_server config mem bf = \<lparr>us_config = config, us_input_queue_0 = sv_input_0 mem, us_input_queue_1 = None, us_output_queue_0 = sv_output_0 mem,
        us_output_queue_1 = None, us_registry = sv_registry mem, us_user_map = sv_user_map mem, us_udp_fd = -1, us_multicast_fd = -1,
        us_bin_formatter = bf, us_csv_formatter = \<lparr>mf_buffer = []\<rparr>, us_tcp_messages_received = 0, us_udp_messages_received = 0,
        us_messages_routed = 0, us_multicast_messages = 0, us_tob_broadcasts = 0, us_wire = []\<rparr>"

definition open_sockets :: "int \<Rightarrow> int \<Rightarrow> unified_server_t \<Rightarrow> unified_server_t" where
  "open_sockets udp_fd multicast_fd server = server\<lparr>us_udp_fd := udp_fd, us_multicast_fd := multicast_fd\<rparr>"

definition start_second :: "server_memory \<Rightarrow> engine_ctx option \<Rightarrow> unified_server_t \<Rightarrow> (proc_ctx \<times> thread_locals) option option" where
  "start_second mem engine server =
     (case (engine, us_input_queue_1 server, us_output_queue_1 server) of
        (Some e, Some i, Some q) \<Rightarrow> map_option Some (start_processor 1 mem e i q)
      | _ \<Rightarrow> Some None)"

definition unified_start :: "unified_config_t \<Rightarrow> server_memory \<Rightarrow> int \<Rightarrow> int \<Rightarrow> unified_system option" where
  "unified_start config mem udp_fd multicast_fd = do {
     bf \<leftarrow> binary_message_formatter_init \<lparr>bf_buffer = (\<lambda>_. 0)\<rparr>;
     (e0, e1) \<leftarrow> init_memory_and_engines config mem;
     s1 \<leftarrow> init_queues mem (calloc_server config mem bf);
     s2 \<leftarrow> init_client_tracking mem s1;
     let s3 = open_sockets udp_fd multicast_fd s2;
     p0 \<leftarrow> start_processor 0 mem e0 (us_input_queue_0 s3) (us_output_queue_0 s3);
     p1 \<leftarrow> start_second mem e1 s3;
     parser \<leftarrow> message_parser_init blank_parser;
     Some \<lparr>sy_server = s3, sy_proc = (\<lambda>k. if k then p1 else Some p0), sy_handlers = (\<lambda>_. None), sy_udp_parser = parser\<rparr>
   }"

section \<open>The threads\<close>

definition attach :: "bool \<Rightarrow> unified_server_t \<Rightarrow> proc_ctx \<Rightarrow> proc_ctx" where
  "attach k s p = (if k then
       (case (us_input_queue_1 s, us_output_queue_1 s) of (Some i, Some q) \<Rightarrow> p\<lparr>px_input := i, px_output := q\<rparr> | _ \<Rightarrow> p)
     else p\<lparr>px_input := us_input_queue_0 s, px_output := us_output_queue_0 s\<rparr>)"

definition detach :: "bool \<Rightarrow> proc_ctx \<Rightarrow> unified_server_t \<Rightarrow> unified_server_t" where
  "detach k p s = (if k then s\<lparr>us_input_queue_1 := Some (px_input p), us_output_queue_1 := Some (px_output p)\<rparr>
     else s\<lparr>us_input_queue_0 := px_input p, us_output_queue_0 := px_output p\<rparr>)"

inductive unified_step :: "unified_system \<Rightarrow> unified_system \<Rightarrow> bool" where
  accept: "0 \<le> fd \<Longrightarrow> tcp_room (us_registry (sy_server sys)) \<Longrightarrow> tcp_accepted fd now (sy_server sys) = Some (Some c, s) \<Longrightarrow>
    message_parser_init blank_parser = Some p \<Longrightarrow>
    unified_step sys (sys\<lparr>sy_server := s, sy_handlers := (sy_handlers sys)(c \<mapsto> new_handler p)\<rparr>)"
| receive: "sy_handlers sys c = Some h \<Longrightarrow> bytes \<noteq> [] \<Longrightarrow> length (th_buffer h) + length bytes \<le> TCP_RECV_BUFFER_SIZE \<Longrightarrow>
    tcp_received c bytes h (sy_server sys) = Some (h', s) \<Longrightarrow>
    unified_step sys (sys\<lparr>sy_server := s, sy_handlers := (sy_handlers sys)(c \<mapsto> h')\<rparr>)"
| close: "sy_handlers sys c = Some h \<Longrightarrow> client_registry_remove c (us_registry (sy_server sys)) = Some (b, reg) \<Longrightarrow>
    unified_step sys (sys\<lparr>sy_server := (sy_server sys)\<lparr>us_registry := reg\<rparr>, sy_handlers := (sy_handlers sys)(c := None)\<rparr>)"
| datagram: "udp_room (us_registry (sy_server sys)) \<Longrightarrow> udp_datagram addr now now' data (sy_udp_parser sys) (sy_server sys) = Some (p', s) \<Longrightarrow>
    unified_step sys (sys\<lparr>sy_server := s, sy_udp_parser := p'\<rparr>)"
| processor: "sy_proc sys k = Some (p, l) \<Longrightarrow> next_batch_ok clock (attach k (sy_server sys) p) \<Longrightarrow>
    processor_iteration clock (attach k (sy_server sys) p) l = Some (p', l') \<Longrightarrow>
    unified_step sys (sys\<lparr>sy_server := detach k p' (sy_server sys), sy_proc := (sy_proc sys)(k := Some (p', l'))\<rparr>)"
| router: "router_iteration net (sy_server sys) = Some s \<Longrightarrow> unified_step sys (sys\<lparr>sy_server := s\<rparr>)"

inductive unified_run :: "unified_system \<Rightarrow> bool" where
  start: "unified_start config mem udp_fd multicast_fd = Some sys \<Longrightarrow> unified_run sys"
| step: "unified_run sys \<Longrightarrow> unified_step sys sys' \<Longrightarrow> unified_run sys'"


section \<open>The invariant\<close>

definition fds_ok :: "client_registry_t \<Rightarrow> bool" where
  "fds_ok reg \<longleftrightarrow> (\<forall>c h. handles reg c = Some h \<longrightarrow> (case h of Tcp_fd fd \<Rightarrow> 0 \<le> fd | Udp_addr _ \<Rightarrow> True))"

lemma fds_ok_clients: "fds_ok reg \<longleftrightarrow> (\<forall>c e. clients reg c = Some e \<longrightarrow> fd_ok e)"
  by (auto simp: fds_ok_def handles_def fd_ok_def)

definition engines_ok :: "unified_system \<Rightarrow> bool" where
  "engines_ok sys \<longleftrightarrow> (\<forall>k p l. sy_proc sys k = Some (p, l) \<longrightarrow> (\<exists>f. engine_run f (px_engine p))
     \<and> (k \<longrightarrow> \<not> uc_single_processor (us_config (sy_server sys))))"

definition system_ok :: "unified_system \<Rightarrow> bool" where
  "system_ok sys \<longleftrightarrow> server_ok (sy_server sys) \<and> queued_ok (sy_server sys) \<and> engines_ok sys \<and> fds_ok (us_registry (sy_server sys))"

lemma waiting_cong: "us_input_queue_0 s = us_input_queue_0 s' \<Longrightarrow> us_input_queue_1 s = us_input_queue_1 s' \<Longrightarrow> waiting s = waiting s'"
  by (simp add: waiting_def fun_eq_iff)

lemma sending_cong: "us_output_queue_0 s = us_output_queue_0 s' \<Longrightarrow> us_output_queue_1 s = us_output_queue_1 s' \<Longrightarrow> sending s = sending s'"
  by (simp add: sending_def fun_eq_iff)

lemma queue_init_cases:
  obtains q' where "queue_init q = Some q'" "queue_ok q'" "contents q' = []"
  using queue_init_ok [of q] by blast

lemma start_processor_ok:
  obtains p l where "start_processor n mem e i q = Some (p, l)" "px_engine p = e"
  by (simp add: start_processor_def processor_init_def thread_start_def asserts)

lemma init_queues_ok:
  assumes "us_input_queue_1 s = None" and "us_output_queue_1 s = None"
  obtains s' where "init_queues mem s = Some s'" "queue_ok (us_input_queue_0 s')" "queue_ok (us_output_queue_0 s')"
    "contents (us_input_queue_0 s') = []" "contents (us_output_queue_0 s') = []" "us_config s' = us_config s" "us_wire s' = us_wire s"
    "if uc_single_processor (us_config s) then us_input_queue_1 s' = None \<and> us_output_queue_1 s' = None
     else \<exists>i q. us_input_queue_1 s' = Some i \<and> us_output_queue_1 s' = Some q \<and> queue_ok i \<and> queue_ok q \<and> contents i = [] \<and> contents q = []"
proof -
  obtain i0 where i0: "queue_init (sv_input_0 mem) = Some i0" "queue_ok i0" "contents i0 = []" by (rule queue_init_cases)
  obtain o0 where o0: "queue_init (sv_output_0 mem) = Some o0" "queue_ok o0" "contents o0 = []" by (rule queue_init_cases)
  obtain i1 where i1: "queue_init (sv_input_1 mem) = Some i1" "queue_ok i1" "contents i1 = []" by (rule queue_init_cases)
  obtain o1 where o1: "queue_init (sv_output_1 mem) = Some o1" "queue_ok o1" "contents o1 = []" by (rule queue_init_cases)
  define s0 where "s0 = s\<lparr>us_input_queue_0 := i0, us_output_queue_0 := o0\<rparr>"
  define s' where "s' = (if uc_single_processor (us_config s) then s0 else s0\<lparr>us_input_queue_1 := Some i1, us_output_queue_1 := Some o1\<rparr>)"
  show thesis
    by (rule that [of s']) (use assms i0 o0 i1 o1 in \<open>simp_all add: init_queues_def s'_def s0_def\<close>)
qed

text \<open>A server that has just been started: everything is empty and as it should be.\<close>

definition fresh_system :: "unified_config_t \<Rightarrow> unified_system \<Rightarrow> bool" where
  "fresh_system config sys \<longleftrightarrow> system_ok sys \<and> us_config (sy_server sys) = config \<and> clients (us_registry (sy_server sys)) = Map.empty
     \<and> waiting (sy_server sys) = (\<lambda>_. []) \<and> sending (sy_server sys) = (\<lambda>_. []) \<and> (\<forall>u. user_client_map_get (us_user_map (sy_server sys)) u = 0)
     \<and> us_wire (sy_server sys) = [] \<and> (sy_proc sys True = None \<longleftrightarrow> uc_single_processor config) \<and> sy_proc sys False \<noteq> None
     \<and> tcp_room (us_registry (sy_server sys)) \<and> udp_room (us_registry (sy_server sys))"


lemma memory_pools_init_total: "\<exists>p. memory_pools_init pool = Some p"
  by (simp add: memory_pools_init_def order_pool_init_def asserts Let_def)

lemma binary_formatter_init_total: "\<exists>f. binary_message_formatter_init formatter = Some f"
  by (simp add: binary_message_formatter_init_def asserts arr_write_def)

lemma message_parser_init_cases:
  obtains p' where "message_parser_init p = Some p'"
  using message_parser_init_total [of p] by blast

lemma init_memory_and_engines_ok:
  obtains e0 e1 where "init_memory_and_engines config mem = Some (e0, e1)" "engine_run False e0" "\<forall>e. e1 = Some e \<longrightarrow> engine_run False e"
    "e1 = None \<longleftrightarrow> uc_single_processor config"
proof -
  from memory_pools_init_total [of "sv_pool_0 mem"] obtain p0 where p0: "memory_pools_init (sv_pool_0 mem) = Some p0" by blast
  from memory_pools_init_total [of "sv_pool_1 mem"] obtain p1 where p1: "memory_pools_init (sv_pool_1 mem) = Some p1" by blast
  show thesis
    by (rule that [of "\<lparr>en_engine = matching_engine_init (sv_engine_0 mem), en_pool = p0, en_out = []\<rparr>"
          "if uc_single_processor config then None else Some \<lparr>en_engine = matching_engine_init (sv_engine_1 mem), en_pool = p1, en_out = []\<rparr>"])
      (simp_all add: init_memory_and_engines_def p0 p1 engine_run.start [OF p0] engine_run.start [OF p1])
qed

lemma init_server_ok:
  obtains s1 s2 where "init_queues mem (calloc_server config mem bf) = Some s1" "init_client_tracking mem s1 = Some s2"
    "server_ok s2" "us_config s2 = config" "clients (us_registry s2) = Map.empty" "waiting s2 = (\<lambda>_. [])" "sending s2 = (\<lambda>_. [])"
    "\<forall>u. user_client_map_get (us_user_map s2) u = 0" "us_wire s2 = []" "tcp_room (us_registry s2)" "udp_room (us_registry s2)"
    "us_input_queue_1 s2 = None \<longleftrightarrow> uc_single_processor config" "us_output_queue_1 s2 = None \<longleftrightarrow> uc_single_processor config"
proof -
  have "us_input_queue_1 (calloc_server config mem bf) = None" "us_output_queue_1 (calloc_server config mem bf) = None" by (simp_all add: calloc_server_def)
  then obtain s1 where s1: "init_queues mem (calloc_server config mem bf) = Some s1" "queue_ok (us_input_queue_0 s1)" "queue_ok (us_output_queue_0 s1)"
    "contents (us_input_queue_0 s1) = []" "contents (us_output_queue_0 s1) = []" "us_config s1 = us_config (calloc_server config mem bf)"
    "us_wire s1 = us_wire (calloc_server config mem bf)"
    "if uc_single_processor (us_config (calloc_server config mem bf)) then us_input_queue_1 s1 = None \<and> us_output_queue_1 s1 = None
     else \<exists>i q. us_input_queue_1 s1 = Some i \<and> us_output_queue_1 s1 = Some q \<and> queue_ok i \<and> queue_ok q \<and> contents i = [] \<and> contents q = []"
    by (rule init_queues_ok)
  have c: "us_config s1 = config" "us_wire s1 = []" using s1(6,7) by (simp_all add: calloc_server_def)
  from client_registry_init_ok [of "sv_registry mem"] obtain reg where reg: "client_registry_init (sv_registry mem) = Some reg" "registry_ok reg"
    "clients reg = Map.empty" "tcp_room reg" "udp_room reg" by blast
  define s2 where "s2 = s1\<lparr>us_registry := reg, us_user_map := user_client_map_init (sv_user_map mem)\<rparr>"
  have q1: "if uc_single_processor config then us_input_queue_1 s1 = None \<and> us_output_queue_1 s1 = None
     else \<exists>i q. us_input_queue_1 s1 = Some i \<and> us_output_queue_1 s1 = Some q \<and> queue_ok i \<and> queue_ok q \<and> contents i = [] \<and> contents q = []"
    using s1(8) by (simp add: calloc_server_def)
  have "init_client_tracking mem s1 = Some s2" by (simp add: init_client_tracking_def reg(1) s2_def)
  moreover have "server_ok s2" using s1(2,3) q1 c reg(2) by (cases "uc_single_processor config") (auto simp: server_ok_def s2_def second_ok_def)
  moreover have "waiting s2 = (\<lambda>_. [])" "sending s2 = (\<lambda>_. [])"
    using s1(4,5) q1 by (cases "uc_single_processor config"; auto simp: waiting_def sending_def s2_def fun_eq_iff)+
  moreover have "us_input_queue_1 s2 = None \<longleftrightarrow> uc_single_processor config" "us_output_queue_1 s2 = None \<longleftrightarrow> uc_single_processor config"
    using q1 by (cases "uc_single_processor config"; auto simp: s2_def)+
  ultimately show thesis using c reg by (intro that [OF s1(1), of s2]) (simp_all add: s2_def)
qed

lemma start_second_ok:
  assumes e: "\<forall>e. e1 = Some e \<longrightarrow> engine_run False e" "e1 = None \<longleftrightarrow> single"
    and q: "us_input_queue_1 s = None \<longleftrightarrow> single" "us_output_queue_1 s = None \<longleftrightarrow> single"
  obtains p1 where "start_second mem e1 s = Some p1" "p1 = None \<longleftrightarrow> single" "\<forall>p l. p1 = Some (p, l) \<longrightarrow> engine_run False (px_engine p)"
proof (cases single)
  case True
  with e show thesis by (intro that [of None]) (simp_all add: start_second_def)
next
  case False
  with e q obtain e' i o' where x: "e1 = Some e'" "us_input_queue_1 s = Some i" "us_output_queue_1 s = Some o'" by blast
  obtain p l where "start_processor 1 mem e' i o' = Some (p, l)" "px_engine p = e'" by (rule start_processor_ok)
  with x e(1) False show thesis by (intro that [of "Some (p, l)"]) (simp_all add: start_second_def)
qed

theorem unified_start_ok:
  obtains sys where "unified_start config mem udp_fd multicast_fd = Some sys" "fresh_system config sys"
proof -
  from binary_formatter_init_total obtain bf where bf: "binary_message_formatter_init \<lparr>bf_buffer = (\<lambda>_. 0)\<rparr> = Some bf" by blast
  obtain e0 e1 where e: "init_memory_and_engines config mem = Some (e0, e1)" "engine_run False e0" "\<forall>e. e1 = Some e \<longrightarrow> engine_run False e"
    "e1 = None \<longleftrightarrow> uc_single_processor config" by (rule init_memory_and_engines_ok)
  obtain s1 s2 where s: "init_queues mem (calloc_server config mem bf) = Some s1" "init_client_tracking mem s1 = Some s2"
    "server_ok s2" "us_config s2 = config" "clients (us_registry s2) = Map.empty" "waiting s2 = (\<lambda>_. [])" "sending s2 = (\<lambda>_. [])"
    "\<forall>u. user_client_map_get (us_user_map s2) u = 0" "us_wire s2 = []" "tcp_room (us_registry s2)" "udp_room (us_registry s2)"
    "us_input_queue_1 s2 = None \<longleftrightarrow> uc_single_processor config" "us_output_queue_1 s2 = None \<longleftrightarrow> uc_single_processor config" by (rule init_server_ok)
  define s3 where "s3 = open_sockets udp_fd multicast_fd s2"
  have s3: "server_ok s3" "waiting s3 = (\<lambda>_. [])" "sending s3 = (\<lambda>_. [])"
    using s(3,6,7) waiting_cong [of s3 s2] sending_cong [of s3 s2] by (simp_all add: s3_def open_sockets_def server_ok_def)
  obtain p0 l0 where p0: "start_processor 0 mem e0 (us_input_queue_0 s3) (us_output_queue_0 s3) = Some (p0, l0)" "px_engine p0 = e0" by (rule start_processor_ok)
  obtain pr where pr: "message_parser_init blank_parser = Some pr" by (rule message_parser_init_cases)
  have "us_input_queue_1 s3 = None \<longleftrightarrow> uc_single_processor config" "us_output_queue_1 s3 = None \<longleftrightarrow> uc_single_processor config"
    using s(12,13) by (simp_all add: s3_def open_sockets_def)
  with e(3,4) obtain p1 where p1: "start_second mem e1 s3 = Some p1" "p1 = None \<longleftrightarrow> uc_single_processor config"
    "\<forall>p l. p1 = Some (p, l) \<longrightarrow> engine_run False (px_engine p)" by (rule start_second_ok)
  define sys where "sys = \<lparr>sy_server = s3, sy_proc = (\<lambda>k. if k then p1 else Some (p0, l0)), sy_handlers = (\<lambda>_. None), sy_udp_parser = pr\<rparr>"
  have "unified_start config mem udp_fd multicast_fd = Some sys"
    using bf e(1) s(1,2) p0(1) pr p1(1) by (simp add: unified_start_def s3_def [symmetric] sys_def)
  moreover have "us_config s3 = config" using s(4) by (simp add: s3_def open_sockets_def)
  with p0(2) e(2) p1(2,3) have "engines_ok sys" by (auto simp: engines_ok_def sys_def)
  moreover have "queued_ok s3" by (simp add: queued_ok_def s3(3))
  ultimately show thesis using s s3 p1(2)
    by (intro that [of sys]) (simp_all add: fresh_system_def system_ok_def sys_def s3_def open_sockets_def fds_ok_clients)
qed

section \<open>Every step keeps the invariant\<close>

lemma server_ok_second:
  assumes "server_ok s" and "\<not> uc_single_processor (us_config s)"
  obtains i q where "us_input_queue_1 s = Some i" "us_output_queue_1 s = Some q" "queue_ok i" "queue_ok q"
  using assms by (cases "us_input_queue_1 s"; cases "us_output_queue_1 s") (simp_all add: server_ok_def second_ok_def)

text \<open>What a receiving thread does: the processors and the output queues are not touched.\<close>

lemma server_step_ok:
  assumes "system_ok sys" and "server_ok s" and "us_config s = us_config (sy_server sys)" and "sending s = sending (sy_server sys)"
    and "fds_ok (us_registry s)" and "sy_server sys' = s" and "sy_proc sys' = sy_proc sys"
  shows "system_ok sys'"
  using assms by (simp add: system_ok_def queued_ok_def engines_ok_def)

lemma same_server_sending:
  "same_server s s' \<Longrightarrow> us_config s' = us_config s \<and> sending s' = sending s \<and> fds_ok (us_registry s') = fds_ok (us_registry s)"
  using sending_cong [of s' s] by (simp add: same_server_def fds_ok_def)

lemma same_clients_handles: "same_clients reg reg' \<Longrightarrow> handles reg' = handles reg"
proof
  fix c assume "same_clients reg reg'"
  then have "rel_option same_entry (clients reg c) (clients reg' c)" by (simp add: same_clients_def)
  then show "handles reg' c = handles reg c" by (cases rule: option.rel_cases) (auto simp: handles_def same_entry_def)
qed


lemma accept_step:
  assumes ok: "system_ok sys" and fd: "0 \<le> fd" and room: "tcp_room (us_registry (sy_server sys))" and run: "tcp_accepted fd now (sy_server sys) = Some (r, s)"
  shows "server_ok s \<and> us_config s = us_config (sy_server sys) \<and> sending s = sending (sy_server sys) \<and> fds_ok (us_registry s) \<and> r \<noteq> None"
proof -
  from ok have sok: "server_ok (sy_server sys)" by (simp add: system_ok_def)
  then have "registry_ok (us_registry (sy_server sys))" by (simp add: server_ok_def)
  from client_registry_add_tcp_ok [OF this room fd, of now] obtain c reg where
    reg: "client_registry_add_tcp fd now (us_registry (sy_server sys)) = Some (c, reg)" "registry_ok reg" "c \<noteq> 0"
      "clients reg = (clients (us_registry (sy_server sys)))(c \<mapsto> new_entry c TRANSPORT_TCP (Tcp_fd fd) now)" by blast
  from ok fd reg(4) have "fds_ok reg" by (auto simp: system_ok_def fds_ok_clients fd_ok_def new_entry_def)
  moreover from reg run have s: "s = (sy_server sys)\<lparr>us_registry := reg\<rparr>" "r \<noteq> None" by (auto simp: tcp_accepted_def)
  ultimately show ?thesis using sok reg(2) sending_cong [of s "sy_server sys"] by (simp add: server_ok_def)
qed

lemma close_step:
  assumes ok: "system_ok sys" and run: "client_registry_remove c (us_registry (sy_server sys)) = Some (b, reg)"
  shows "server_ok ((sy_server sys)\<lparr>us_registry := reg\<rparr>)" and "sending ((sy_server sys)\<lparr>us_registry := reg\<rparr>) = sending (sy_server sys)"
    and "fds_ok reg"
proof -
  from ok have sok: "server_ok (sy_server sys)" by (simp add: system_ok_def)
  then have "registry_ok (us_registry (sy_server sys))" by (simp add: server_ok_def)
  from client_registry_remove_ok [OF this, of c] run have r: "registry_ok reg" "clients reg = (clients (us_registry (sy_server sys)))(c := None)" by auto
  with ok show "fds_ok reg" by (auto simp: system_ok_def fds_ok_clients)
  from r(1) sok show "server_ok ((sy_server sys)\<lparr>us_registry := reg\<rparr>)" by (simp add: server_ok_def)
  show "sending ((sy_server sys)\<lparr>us_registry := reg\<rparr>) = sending (sy_server sys)" by (rule sending_cong) simp_all
qed

text \<open>The processors: what they take from the input queue of the server and what they add to the output queue.\<close>

lemma engine_batch_outs:
  "engine_batch clock i batch e = Some (outs, e') \<Longrightarrow> \<forall>m\<in>set (all_outs outs). formattable m"
proof (induction clock i batch e arbitrary: outs e' rule: engine_batch.induct)
  case (2 clock i env batch e)
  then obtain e1 outs1 e2 where r: "matching_engine_process_message (ie_msg env) (ie_client_id env) (clock i) (e\<lparr>en_out := []\<rparr>) = Some e1"
    "engine_batch clock (Suc i) batch (e1\<lparr>en_out := []\<rparr>) = Some (outs1, e2)" "outs = (ie_client_id env, en_out e1) # outs1"
    by (auto simp: bind_eq_Some_conv)
  from outs_process_message [OF r(1)] have "outs_ok (en_out e1)" by simp
  with "2.IH" [OF r(1,2)] r(3) show ?case by (auto simp: outs_ok_def)
qed simp

lemma engine_iteration_outs:
  assumes "engine_iteration clock c batch e = Some (taken, outs, e')"
  shows "\<forall>m\<in>set (all_outs outs). formattable m"
proof (cases "matching_engine_has_flush_in_progress (en_engine e)")
  case True
  with assms obtain fin e1 where c: "matching_engine_continue_flush (e\<lparr>en_out := []\<rparr>) = Some (fin, e1)"
    and r: "fin \<Longrightarrow> \<exists>o1 e2. engine_batch clock 0 batch (e1\<lparr>en_out := []\<rparr>) = Some (o1, e2) \<and> outs = (c, en_out e1) # o1"
      "\<not> fin \<Longrightarrow> outs = [(c, en_out e1)]"
    by (auto simp: engine_iteration_def bind_eq_Some_conv split: if_splits)
  from outs_flush_all(2) [OF c] have "outs_ok (en_out e1)" by simp
  with r engine_batch_outs show ?thesis by (cases fin) (fastforce simp: outs_ok_def)+
next
  case False
  with assms show ?thesis by (auto simp: engine_iteration_def bind_eq_Some_conv dest: engine_batch_outs)
qed

lemma routed_msgs: "oe_msg ` set (routed c seq ms) = set ms"
proof (induction ms arbitrary: seq)
  case (Cons m ms)
  have "recipients c m \<noteq> []" by (cases m) simp_all
  then have "oe_msg ` set (map (\<lambda>r. \<lparr>oe_msg = m, oe_client_id = r, oe_sequence = seq\<rparr>) (recipients c m)) = {m}" by (cases "recipients c m") auto
  with Cons show ?case by (simp add: image_Un)
qed simp

lemma route_all_msgs: "oe_msg ` set (route_all seq outs) = set (all_outs outs)"
  by (induction seq outs rule: route_all.induct) (simp_all add: image_Un routed_msgs)

lemma attach_ok:
  assumes ok: "server_ok s" and k: "k \<longrightarrow> \<not> uc_single_processor (us_config s)"
  shows "queue_ok (px_input (attach k s p))" "queue_ok (px_output (attach k s p))" "px_engine (attach k s p) = px_engine p"
    "contents (px_input (attach k s p)) = waiting s k" "contents (px_output (attach k s p)) = sending s k"
proof -
  have "k \<Longrightarrow> \<exists>i q. us_input_queue_1 s = Some i \<and> us_output_queue_1 s = Some q \<and> queue_ok i \<and> queue_ok q" using server_ok_second [OF ok] k by metis
  with ok show "queue_ok (px_input (attach k s p))" "queue_ok (px_output (attach k s p))" "px_engine (attach k s p) = px_engine p"
    "contents (px_input (attach k s p)) = waiting s k" "contents (px_output (attach k s p)) = sending s k"
    by (cases k; auto simp: attach_def server_ok_def waiting_def sending_def)+
qed

lemma detach_ok:
  assumes "server_ok s" and "k \<longrightarrow> \<not> uc_single_processor (us_config s)" and "queue_ok (px_input p)" "queue_ok (px_output p)"
  shows "server_ok (detach k p s)" "us_config (detach k p s) = us_config s"
    "waiting (detach k p s) = (waiting s)(k := contents (px_input p))" "sending (detach k p s) = (sending s)(k := contents (px_output p))"
  using assms by (cases k; simp add: detach_def server_ok_def waiting_def sending_def fun_eq_iff)+

lemma processor_step:
  assumes ok: "system_ok sys" and p: "sy_proc sys k = Some (p, l)" and nb: "next_batch_ok clock (attach k (sy_server sys) p)"
  shows "\<exists>p' l' taken outs. processor_iteration clock (attach k (sy_server sys) p) l = Some (p', l')
     \<and> (\<exists>f. engine_run f (px_engine p')) \<and> server_ok (detach k p' (sy_server sys)) \<and> queued_ok (detach k p' (sy_server sys))
     \<and> us_config (detach k p' (sy_server sys)) = us_config (sy_server sys)
     \<and> engine_iteration clock (lv_flush_client_id l) (take 32 (waiting (sy_server sys) k)) (px_engine p) = Some (taken, outs, px_engine p')
     \<and> waiting (sy_server sys) k = taken @ waiting (detach k p' (sy_server sys)) k
     \<and> sending (detach k p' (sy_server sys)) = (sending (sy_server sys))(k := sending (sy_server sys) k
         @ take (LOCKFREE_QUEUE_SIZE - 1 - length (sending (sy_server sys) k)) (route_all (lv_sequence l) outs))"
proof -
  let ?s = "sy_server sys"
  from ok p have s: "server_ok ?s" "queued_ok ?s" and k: "k \<longrightarrow> \<not> uc_single_processor (us_config ?s)" and run: "\<exists>f. engine_run f (px_engine p)"
    by (auto simp: system_ok_def engines_ok_def)
  note at = attach_ok [OF s(1) k, of p]
  have "proc_ok (attach k ?s p)" using at run by (simp add: proc_ok_def)
  from processor_iteration_ok [OF this nb, of l] obtain p' l' taken outs where r:
    "processor_iteration clock (attach k ?s p) l = Some (p', l')" "proc_ok p'"
    "engine_iteration clock (lv_flush_client_id l) (take 32 (waiting ?s k)) (px_engine p) = Some (taken, outs, px_engine p')"
    "waiting ?s k = taken @ contents (px_input p')"
    "contents (px_output p') = sending ?s k @ take (LOCKFREE_QUEUE_SIZE - 1 - length (sending ?s k)) (route_all (lv_sequence l) outs)"
    using at by auto
  from r(2) have q: "queue_ok (px_input p')" "queue_ok (px_output p')" "\<exists>f. engine_run f (px_engine p')" by (simp_all add: proc_ok_def)
  note dt = detach_ok [OF s(1) k q(1,2)]
  have "\<forall>env\<in>set (route_all (lv_sequence l) outs). formattable (oe_msg env)"
    using engine_iteration_outs [OF r(3)] route_all_msgs [of "lv_sequence l" outs] by blast
  with s(2) r(5) dt(4) have "queued_ok (detach k p' ?s)" by (auto simp: queued_ok_def dest: in_set_takeD)
  with r q dt show ?thesis by (intro exI [of _ p'] exI [of _ l'] exI [of _ taken] exI [of _ outs]) simp
qed

theorem unified_step_ok:
  assumes "unified_step sys sys'" and "system_ok sys"
  shows "system_ok sys'"
  using assms
proof cases
  case (accept fd now c s p)
  with accept_step [OF assms(2)] show ?thesis by (intro server_step_ok [OF assms(2), of s]) auto
next
  case (receive c h bytes h' s)
  from assms(2) have "server_ok (sy_server sys)" and fds: "fds_ok (us_registry (sy_server sys))" by (simp_all add: system_ok_def)
  from this(1) tcp_received_ok(1,2) [OF this(1) receive(5)] same_server_sending fds receive show ?thesis
    by (intro server_step_ok [OF assms(2), of s]) auto
next
  case (close c h b reg)
  with close_step [OF assms(2) close(3)] show ?thesis
    by (intro server_step_ok [OF assms(2), of "(sy_server sys)\<lparr>us_registry := reg\<rparr>"]) simp_all
next
  case (datagram addr now now' data p' s)
  from assms(2) have "server_ok (sy_server sys)" by (simp add: system_ok_def)
  note k = udp_datagram_keeps [OF this datagram(2,3)]
  with assms(2) have "fds_ok (us_registry s)" by (fastforce simp: system_ok_def fds_ok_def)
  with k sending_cong [of s "sy_server sys"] datagram show ?thesis by (intro server_step_ok [OF assms(2), of s]) auto
next
  case (processor k p l clock p' l')
  from processor_step [OF assms(2) processor(2,3)] processor(4) have
    "(\<exists>f. engine_run f (px_engine p')) \<and> server_ok (detach k p' (sy_server sys)) \<and> queued_ok (detach k p' (sy_server sys))
     \<and> us_config (detach k p' (sy_server sys)) = us_config (sy_server sys)" by auto
  with assms(2) processor(1,2) show ?thesis by (auto simp: system_ok_def engines_ok_def detach_def split: if_splits)
next
  case (router net s)
  from assms(2) have "server_ok (sy_server sys)" "queued_ok (sy_server sys)" by (simp_all add: system_ok_def)
  from router_iteration_total [OF this, of net] router(2) have "server_ok s" "queued_ok s" "us_config s = us_config (sy_server sys)"
    "handles (us_registry s) = handles (us_registry (sy_server sys))" by (auto simp: same_audience_def dest: same_clients_handles)
  with assms(2) router(1) show ?thesis by (simp add: system_ok_def engines_ok_def fds_ok_def)
qed

theorem unified_run_ok: "unified_run sys \<Longrightarrow> system_ok sys"
proof (induction rule: unified_run.induct)
  case (start config mem udp_fd multicast_fd sys)
  from unified_start_ok [of config mem udp_fd multicast_fd] start show ?case by (auto simp: fresh_system_def)
next
  case (step sys sys')
  then show ?case by (blast intro: unified_step_ok)
qed

end
