(* ===== verification/ME_Unified_Run.thy ===== *)
theory ME_Unified_Run
  imports ME_Unified_System "HOL-Library.Multiset"
begin

text \<open>
  What holds of the unified server as a whole: the operations of its threads that no state of a guarded run can make
  abort, the way of a request from the bytes a client writes to the bytes its recipients are sent, and the end of the
  server.
\<close>

section \<open>The end of the server\<close>

lemma destroy_optional_simps [simp]:
  "destroy_optional f None = Some ()" "destroy_optional f (Some x) = map_option (\<lambda>_. ()) (f x)"
  by (simp_all add: destroy_optional_def)

lemma destroy_second:
  assumes "second_ok single q"
  shows "destroy_optional queue_destroy q = (if (case q of None \<Rightarrow> [] | Some q' \<Rightarrow> contents q') = [] then Some () else None)"
proof (cases q)
  case (Some a)
  with assms have "queue_ok a" by simp
  from queue_observers(3) [OF this] Some show ?thesis by simp
qed simp

definition destroyable :: "engine_ctx option \<Rightarrow> bool" where
  "destroyable e \<longleftrightarrow> (case e of None \<Rightarrow> True | Some e' \<Rightarrow> (\<exists>f. engine_run f e') \<and> 0 < p_free_count (en_pool e'))"

lemma engine_run_rep:
  assumes "engine_run f e"
  obtains Q where "engine_rep e Q"
  using engine_run_inv [OF assms] by (auto simp: run_inv_def flushing_def split: if_splits)

lemma destroy_engine_ok: "destroyable e \<Longrightarrow> destroy_optional matching_engine_destroy e = Some ()"
proof (cases e)
  case (Some e')
  moreover assume "destroyable e"
  ultimately obtain f where f: "engine_run f e'" "0 < p_free_count (en_pool e')" by (auto simp: destroyable_def)
  from f(1) obtain Q where Q: "engine_rep e' Q" by (rule engine_run_rep)
  from matching_engine_destroy_ok [OF Q] small_levels_free [OF Q f(2)] Some show ?thesis by auto
qed simp

theorem cleanup_server_ok:
  assumes ok: "server_ok s" and e: "destroyable e0" "destroyable e1"
  shows "cleanup_server s e0 e1 = (if \<forall>k. waiting s k = [] \<and> sending s k = [] then Some () else None)"
proof -
  have all: "(\<forall>k. waiting s k = [] \<and> sending s k = []) \<longleftrightarrow>
      contents (us_input_queue_0 s) = [] \<and> (case us_input_queue_1 s of None \<Rightarrow> [] | Some q' \<Rightarrow> contents q') = []
      \<and> contents (us_output_queue_0 s) = [] \<and> (case us_output_queue_1 s of None \<Rightarrow> [] | Some q' \<Rightarrow> contents q') = []"
    unfolding waiting_def sending_def by (metis (full_types))
  have q: "queue_ok (us_input_queue_0 s)" "queue_ok (us_output_queue_0 s)" "second_ok (uc_single_processor (us_config s)) (us_input_queue_1 s)"
    "second_ok (uc_single_processor (us_config s)) (us_output_queue_1 s)" using ok by (simp_all add: server_ok_def)
  show ?thesis unfolding all
    by (simp add: cleanup_server_def destroy_second [OF q(3)] destroy_second [OF q(4)] queue_observers(3) [OF q(1)] queue_observers(3) [OF q(2)]
        destroy_engine_ok [OF e(1)] destroy_engine_ok [OF e(2)])
qed

section \<open>A line that ends the server\<close>

lemma cancel_zero_line:
  obtains line where "encode_csv_cancel CODEC_MAX_MESSAGE_SIZE 0 oid = (length line + 1, line @ [newline])"
    "\<forall>p. message_parser_parse p line = None" "newline \<notin> set line" "CHR 0x00 \<notin> set line" "hd line = CHR ''C''" "5 \<le> length line"
proof -
  define ts where "ts = [''C'', fmt_u 0, fmt_u oid]"
  define line where "line = csv_line ts"
  have ok: "\<forall>t\<in>set ts. field_ok t" by (simp add: ts_def field_ok_letter)
  have len: "length line < 99" using length_csv_line [of ts] length_fmt_u [of 0] length_fmt_u [of oid] by (simp add: ts_def line_def)
  have "snprintf CODEC_MAX_MESSAGE_SIZE (line @ [newline]) = (length (line @ [newline]), line @ [newline])
     \<and> encoded_len CODEC_MAX_MESSAGE_SIZE (length (line @ [newline])) = length (line @ [newline])"
    using len by (intro snprintf_fits) simp_all
  then have e: "encode_csv_cancel CODEC_MAX_MESSAGE_SIZE 0 oid = (length line + 1, line @ [newline])"
    by (simp add: encode_csv_cancel_def line_def ts_def csv_line_def)
  with csv_cancel_roundtrip [of CODEC_MAX_MESSAGE_SIZE 0 oid] have "\<forall>p. message_parser_parse p (line @ [newline]) = None" by fastforce
  with message_parser_parse_newline [of line] len have "\<forall>p. message_parser_parse p line = None" by simp
  moreover have chars: "newline \<notin> set line" "CHR 0x00 \<notin> set line"
    using csv_line_chars [OF ok] by (auto simp: line_def line_char_def)
  moreover have "hd line = CHR ''C''" "5 \<le> length line" by (simp_all add: line_def ts_def csv_line_def)
  ultimately show thesis using e by (intro that [of line])
qed

theorem cancel_zero_aborts:
  assumes "encode_csv_cancel CODEC_MAX_MESSAGE_SIZE 0 oid = (n, buffer)"
  shows "tcp_received c (map of_char (take n buffer)) (new_handler p) s = None"
proof -
  obtain line where l: "encode_csv_cancel CODEC_MAX_MESSAGE_SIZE 0 oid = (length line + 1, line @ [newline])"
    "\<forall>p. message_parser_parse p line = None" "newline \<notin> set line" "CHR 0x00 \<notin> set line" "hd line = CHR ''C''" "5 \<le> length line"
    by (rule cancel_zero_line)
  define buf where "buf = (map of_char (take n buffer) :: u8 list)"
  have buf: "buf = map of_char line @ 10 # []" using l(1) assms by (auto simp: buf_def)
  have "buf ! 0 = of_char (CHR ''C'')" using l(5,6) by (cases line) (simp_all add: buf)
  then have det: "detect_framing buf = FRAMING_CSV" using l(6) by (intro detect_csv) (simp_all add: csv_start_def buf)
  show ?thesis
  proof (cases "note_framing c ((new_handler p)\<lparr>th_buffer := buf\<rparr>) s")
    case (Some hs)
    obtain h1 s1 where hs: "hs = (h1, s1)" by fastforce
    have "set_framing c FRAMING_CSV ((new_handler p)\<lparr>th_buffer := buf\<rparr>) s = Some (h1, s1)"
      using Some l(6) det by (simp add: note_framing_def new_handler_def hs buf)
    from set_framing_Some [OF this] have "th_framing h1 = FRAMING_CSV" "th_buffer h1 = buf" by simp_all
    then have "process_buffer c h1 s1 = None"
      using process_csv_line [OF l(3,4), of c "th_csv_parser h1" "[]" s1] l(2) by (simp add: process_buffer_def buf)
    then show ?thesis using Some by (simp add: tcp_received_def hs buf_def [symmetric] new_handler_def)
  qed (simp add: tcp_received_def buf_def [symmetric] new_handler_def)
qed

section \<open>Nothing else aborts\<close>

theorem unified_never_stuck:
  assumes "system_ok sys"
  shows "router_iteration net (sy_server sys) \<noteq> None"
    and "sy_proc sys k = Some (p, l) \<Longrightarrow> next_batch_ok clock (attach k (sy_server sys) p) \<Longrightarrow> processor_iteration clock (attach k (sy_server sys) p) l \<noteq> None"
    and "tcp_room (us_registry (sy_server sys)) \<Longrightarrow> 0 \<le> fd \<Longrightarrow> tcp_accepted fd now (sy_server sys) \<noteq> None"
    and "th_framing h \<noteq> FRAMING_CSV \<Longrightarrow> \<not> csv_start ((th_buffer h @ bytes) ! 0) \<Longrightarrow> tcp_received c bytes h (sy_server sys) \<noteq> None"
    and "client_registry_remove c (us_registry (sy_server sys)) \<noteq> None"
    and "sy_proc sys k = Some (p, l) \<Longrightarrow> first_fatal clock (waiting (sy_server sys) k) (px_engine p) \<Longrightarrow> processor_iteration clock (attach k (sy_server sys) p) l = None"
proof -
  from assms have ok: "server_ok (sy_server sys)" "queued_ok (sy_server sys)" "registry_ok (us_registry (sy_server sys))"
    by (simp_all add: system_ok_def server_ok_def)
  show "router_iteration net (sy_server sys) \<noteq> None" using router_iteration_total [OF ok(1,2), of net] by auto
  show "sy_proc sys k = Some (p, l) \<Longrightarrow> next_batch_ok clock (attach k (sy_server sys) p) \<Longrightarrow> processor_iteration clock (attach k (sy_server sys) p) l \<noteq> None"
    using processor_step [OF assms] by blast
  show "tcp_room (us_registry (sy_server sys)) \<Longrightarrow> 0 \<le> fd \<Longrightarrow> tcp_accepted fd now (sy_server sys) \<noteq> None"
    using client_registry_add_tcp_ok [OF ok(3), of fd now] by (auto simp: tcp_accepted_def)
  show "th_framing h \<noteq> FRAMING_CSV \<Longrightarrow> \<not> csv_start ((th_buffer h @ bytes) ! 0) \<Longrightarrow> tcp_received c bytes h (sy_server sys) \<noteq> None"
    by (rule tcp_received_total [OF ok(1)])
  show "client_registry_remove c (us_registry (sy_server sys)) \<noteq> None" using client_registry_remove_ok [OF ok(3), of c] by auto
  show "processor_iteration clock (attach k (sy_server sys) p) l = None" if "sy_proc sys k = Some (p, l)" "first_fatal clock (waiting (sy_server sys) k) (px_engine p)"
  proof -
    have "k \<longrightarrow> \<not> uc_single_processor (us_config (sy_server sys))" using assms that(1) by (auto simp: system_ok_def engines_ok_def)
    from attach_ok [OF ok(1) this, of p] that(2) show ?thesis by (intro processor_iteration_fatal) simp_all
  qed
qed

section \<open>From the request to the answers\<close>

lemma put_all_one:
  assumes one: "\<forall>m\<in>set ms. second m = k" and room: "length (w k) + length ms < LOCKFREE_QUEUE_SIZE"
  shows "put_all second env ms w k = w k @ map env ms"
  using assms
proof (induction ms arbitrary: w)
  case (Cons m ms)
  then have "put (env m) (w k) = w k @ [env m]" by (simp add: put_def)
  with Cons show ?case by simp
qed simp

lemma alternate_one: "alternate n xs [] = take n xs" "alternate n [] xs = take n xs"
proof -
  have step: "take 1 ys @ take m (drop 1 ys) = take (Suc m) ys" for m and ys :: "'a list" by (cases ys) simp_all
  show "alternate n xs [] = take n xs" by (induction n arbitrary: xs) (simp_all only: alternate.simps step [symmetric] take_0 take_Nil drop_Nil append_Nil)
  show "alternate n [] xs = take n xs" by (induction n arbitrary: xs) (simp_all only: alternate.simps step [symmetric] take_0 take_Nil drop_Nil append_Nil)
qed

lemma mset_alternate: "length xs \<le> n \<Longrightarrow> length ys \<le> n \<Longrightarrow> mset (alternate n xs ys) = mset xs + mset ys"
proof (induction n arbitrary: xs ys)
  case (Suc n)
  have split: "mset zs = mset (take 1 zs) + mset (drop 1 zs)" for zs :: "'a list"
    by (metis append_take_drop_id mset_append)
  from Suc.IH [of "drop 1 xs" "drop 1 ys"] Suc.prems show ?case by (simp add: split [of xs] split [of ys])
qed simp

lemma detach_same_audience: "registry_ok (us_registry s) \<Longrightarrow> same_audience s (detach k p s)"
  by (simp add: same_audience_def detach_def)

text \<open>The state in which the requests \<open>ms\<close> of client \<open>c\<close> meet one idle processor, and what its engine answers.\<close>

definition answers :: "(nat \<Rightarrow> u64) \<Rightarrow> u32 \<Rightarrow> input_msg_t list \<Rightarrow> engine_ctx \<Rightarrow> (u32 \<times> output_msg_t list) list \<Rightarrow> engine_ctx \<Rightarrow> bool" where
  "answers clock c ms e outs e' \<longleftrightarrow> \<not> matching_engine_has_flush_in_progress (en_engine e)
     \<and> batch_ok clock 0 (map (envelope_of c None) ms) e \<and> engine_batch clock 0 (map (envelope_of c None) ms) e = Some (outs, e')
     \<and> (\<forall>m\<in>set (all_outs outs). csv_decodable m)"

lemma all_read_outs:
  assumes "answers clock c ms e outs e'" and "fds_ok (us_registry s)" and "few_clients s"
  shows "\<forall>env\<in>set (route_all seq outs). ready s env"
proof -
  have "\<forall>m\<in>set (all_outs outs). formattable m" using assms(1) engine_batch_outs by (auto simp: answers_def)
  with assms have "\<forall>m\<in>set (all_outs outs). all_read s m" by (simp add: answers_def all_read_def fds_ok_clients)
  then show ?thesis using assms(3) route_all_msgs [of seq outs] by (auto simp: ready_def)
qed

lemma processor_answers:
  assumes ok: "system_ok sys" and p: "sy_proc sys k = Some (p, l)" and w: "waiting (sy_server sys) k = map (envelope_of c None) ms"
    and len: "length ms \<le> 32" and quiet: "sending (sy_server sys) = (\<lambda>_. [])"
    and ans: "answers clock c ms (px_engine p) outs e'" and room: "length (route_all (lv_sequence l) outs) < LOCKFREE_QUEUE_SIZE"
  shows "\<exists>p' l'. processor_iteration clock (attach k (sy_server sys) p) l = Some (p', l') \<and> px_engine p' = e'
     \<and> server_ok (detach k p' (sy_server sys)) \<and> waiting (detach k p' (sy_server sys)) k = []
     \<and> sending (detach k p' (sy_server sys)) = (\<lambda>_. [])(k := route_all (lv_sequence l) outs)"
proof -
  let ?s = "sy_server sys"
  have "server_ok ?s" "k \<longrightarrow> \<not> uc_single_processor (us_config ?s)" using ok p by (auto simp: system_ok_def engines_ok_def)
  note at = attach_ok [OF this, of p]
  have "next_batch_ok clock (attach k ?s p)"
    unfolding next_batch_ok_def Let_def at(3,4) w using ans len by (simp only: answers_def take_all length_map if_False)
  from processor_step [OF ok p this] obtain p' l' taken outs' where
    q: "processor_iteration clock (attach k ?s p) l = Some (p', l')" "server_ok (detach k p' ?s)"
      "engine_iteration clock (lv_flush_client_id l) (take 32 (waiting ?s k)) (px_engine p) = Some (taken, outs', px_engine p')"
      "waiting ?s k = taken @ waiting (detach k p' ?s) k"
      "sending (detach k p' ?s) = (sending ?s)(k := sending ?s k @ take (LOCKFREE_QUEUE_SIZE - 1 - length (sending ?s k)) (route_all (lv_sequence l) outs'))"
    by blast
  have e: "outs' = outs" "px_engine p' = e'" "taken = map (envelope_of c None) ms"
    using q(3) ans len w by (auto simp: answers_def engine_iteration_simps(1))
  have "sending (detach k p' ?s) = (\<lambda>_. [])(k := route_all (lv_sequence l) outs)" "waiting (detach k p' ?s) k = []"
    using q(4,5) quiet room e w by (simp_all only: fun_upd_apply) auto
  with q(1,2) e(2) show ?thesis by blast
qed

theorem request_to_wire:
  assumes ok: "system_ok sys" and p: "sy_proc sys k = Some (p, l)" and few: "few_clients (sy_server sys)"
    and quiet: "waiting (sy_server sys) k = []" "\<forall>j. sending (sy_server sys) j = []"
    and ms: "\<forall>m\<in>set ms. to_second (sy_server sys) m = k" "ms \<noteq> []" "length ms \<le> 32"
    and rec: "\<exists>h s1. received_all c blocks (new_handler pr) (sy_server sys) = Some (h, s1) \<and> th_buffer h = [] \<and> took c None ms (sy_server sys) s1"
    and ans: "answers clock c ms (px_engine p) outs e'" and room: "length (route_all (lv_sequence l) outs) < LOCKFREE_QUEUE_SIZE"
  shows "\<exists>h s1 p' l' s2 ws. received_all c blocks (new_handler pr) (sy_server sys) = Some (h, s1) \<and> th_buffer h = []
     \<and> processor_iteration clock (attach k s1 p) l = Some (p', l') \<and> px_engine p' = e'
     \<and> router_loop (length (route_all (lv_sequence l) outs)) net (detach k p' s1) = Some s2
     \<and> waiting (detach k p' s1) k = [] \<and> (\<forall>j. sending s2 j = []) \<and> us_wire s2 = us_wire (sy_server sys) @ concat ws
     \<and> list_all2 (served s1) (route_all (lv_sequence l) outs) ws"
proof -
  let ?s = "sy_server sys" and ?n = "length (route_all (lv_sequence l) outs)"
  from rec obtain h s1 where r: "received_all c blocks (new_handler pr) ?s = Some (h, s1)" "th_buffer h = []" and t: "took c None ms ?s s1" by blast
  from t have s1: "server_ok s1" "same_server ?s s1" by (simp_all add: took_def)
  have w1: "waiting s1 k = map (envelope_of c None) ms"
    using t ms quiet(1) put_all_one [of ms "to_second ?s" k "waiting ?s"] by (simp add: took_def)
  have snd1: "sending s1 = (\<lambda>_. [])" "fds_ok (us_registry s1)" "us_config s1 = us_config ?s" "sending s1 = sending ?s"
    using same_server_sending [OF s1(2)] quiet(2) ok by (auto simp: system_ok_def)
  have few1: "few_clients s1" using few handles_dom [of "us_registry s1" "us_registry ?s"] s1(2) by (simp add: few_clients_def same_server_def)
  define sys1 where "sys1 = sys\<lparr>sy_server := s1\<rparr>"
  have ok1: "system_ok sys1" by (rule server_step_ok [OF ok s1(1) snd1(3,4,2)]) (simp_all add: sys1_def)
  have p1: "sy_proc sys1 k = Some (p, l)" "sy_server sys1 = s1" using p by (simp_all add: sys1_def)
  have "waiting (sy_server sys1) k = map (envelope_of c None) ms" "sending (sy_server sys1) = (\<lambda>_. [])" using w1 snd1(1) p1(2) by simp_all
  from processor_answers [OF ok1 p1(1) this(1) ms(3) this(2) ans room, unfolded p1(2)] obtain p' l' where
    q: "processor_iteration clock (attach k s1 p) l = Some (p', l')" "server_ok (detach k p' s1)" "px_engine p' = e'"
    and d: "sending (detach k p' s1) = (\<lambda>_. [])(k := route_all (lv_sequence l) outs)" "waiting (detach k p' s1) k = []" by blast
  have sa: "same_audience s1 (detach k p' s1)" using s1(1) by (intro detach_same_audience) (simp add: server_ok_def)
  have rd: "\<forall>j. \<forall>env\<in>set (sending (detach k p' s1) j). ready (detach k p' s1) env"
    using all_read_outs [OF ans snd1(2) few1] same_audience_served(2) [OF sa] by (simp add: d(1))
  from router_loop_ok [OF q(2) rd, of ?n net] obtain s2 ws where
    s2: "router_loop ?n net (detach k p' s1) = Some s2" "\<forall>j. sending s2 j = drop ?n (sending (detach k p' s1) j)"
      "us_wire s2 = us_wire (detach k p' s1) @ concat ws" "list_all2 (served (detach k p' s1)) (alternate ?n (sending (detach k p' s1) False) (sending (detach k p' s1) True)) ws"
    by blast
  have "served (detach k p' s1) = served s1" using same_audience_served(1) [OF sa] by (intro ext)
  then have "list_all2 (served s1) (route_all (lv_sequence l) outs) ws"
    using s2(4) unfolding d(1) by (simp add: alternate_one split: if_splits)
  moreover have "us_wire (detach k p' s1) = us_wire ?s" using s1(2) by (simp add: detach_def same_server_def)
  ultimately show ?thesis using r q(1,3) d s2(1-3)
    by (intro exI [of _ h] exI [of _ s1] exI [of _ p'] exI [of _ l'] exI [of _ s2] exI [of _ ws]) simp
qed

end
