(* ===== verification/ME_Unified_Examples.thy ===== *)
theory ME_Unified_Examples
  imports ME_Unified_Run ME_Examples
begin

text \<open>
  Concrete states of the unified server for the witnesses: a server that has just been started, with a fresh engine in
  its first processor, the same with one TCP connection, and the answer of the engine to a cancel.
\<close>

definition small_config :: unified_config_t where
  "small_config = \<lparr>uc_tcp_port = 1234, uc_udp_port = 1235, uc_multicast_port = 1236, uc_multicast_group = None, uc_single_processor = True,
     uc_quiet_mode = True, uc_binary_default = False, uc_disable_tcp = False, uc_disable_udp = False, uc_disable_multicast = True\<rparr>"

lemma start_engine:
  assumes "unified_start config mem udp_fd multicast_fd = Some sys" and "sv_pool_0 mem = raw_pool" and "sv_engine_0 mem = raw_engine"
  shows "\<exists>p l. sy_proc sys False = Some (p, l) \<and> px_engine p = fresh_engine \<and> lv_sequence l = 0"
proof -
  from assms(1) obtain e0 e1 p0 l0 i q where e: "init_memory_and_engines config mem = Some (e0, e1)"
    and p: "start_processor 0 mem e0 i q = Some (p0, l0)" "sy_proc sys False = Some (p0, l0)"
    by (auto simp: unified_start_def Let_def bind_eq_Some_conv)
  have "e0 = fresh_engine"
    using e assms(2,3) fresh_pool_ok(4) by (auto simp: init_memory_and_engines_def fresh_engine_def Let_def bind_eq_Some_conv split: if_splits)
  then have "px_engine p0 = fresh_engine \<and> lv_sequence l0 = 0"
    using p(1) by (auto simp: start_processor_def bind_eq_Some_conv processor_init_def thread_start_def asserts)
  with p(2) show ?thesis by blast
qed

text \<open>A running server with nothing to do.\<close>

definition idle_server :: "unified_system \<Rightarrow> bool" where
  "idle_server sys \<longleftrightarrow> unified_run sys \<and> fresh_system small_config sys
     \<and> (\<exists>p l. sy_proc sys False = Some (p, l) \<and> px_engine p = fresh_engine \<and> lv_sequence l = 0)"

lemma idle_server_ex: "\<exists>sys. idle_server sys"
proof -
  define mem :: server_memory where "mem = undefined\<lparr>sv_pool_0 := raw_pool, sv_engine_0 := raw_engine\<rparr>"
  obtain sys where s: "unified_start small_config mem 5 (-1) = Some sys" "fresh_system small_config sys" by (rule unified_start_ok)
  then show ?thesis using start_engine [OF s(1)] unified_run.start [OF s(1)] by (auto simp: idle_server_def mem_def)
qed

lemma idle_server_facts:
  assumes "idle_server sys"
  shows "system_ok sys" "server_ok (sy_server sys)" "waiting (sy_server sys) k = []" "sending (sy_server sys) k = []"
    "clients (us_registry (sy_server sys)) = Map.empty" "tcp_room (us_registry (sy_server sys))" "udp_room (us_registry (sy_server sys))"
    "user_client_map_get (us_user_map (sy_server sys)) u = 0" "uc_single_processor (us_config (sy_server sys))" "few_clients (sy_server sys)"
  using assms by (auto simp: idle_server_def fresh_system_def small_config_def system_ok_def few_clients_def)

text \<open>The same with one TCP connection, on descriptor 7.\<close>

definition connected_server :: "unified_system \<Rightarrow> u32 \<Rightarrow> bool" where
  "connected_server sys c \<longleftrightarrow> unified_run sys \<and> handles (us_registry (sy_server sys)) c = Some (Tcp_fd 7) \<and> few_clients (sy_server sys)
     \<and> (\<forall>k. waiting (sy_server sys) k = [] \<and> sending (sy_server sys) k = []) \<and> us_wire (sy_server sys) = []
     \<and> uc_single_processor (us_config (sy_server sys)) \<and> (\<exists>p l. sy_proc sys False = Some (p, l) \<and> px_engine p = fresh_engine \<and> lv_sequence l = 0)"

lemma connected_server_ex: "\<exists>sys c. connected_server sys c"
proof -
  from idle_server_ex obtain sys where i: "idle_server sys" by blast
  note f = idle_server_facts [OF i]
  let ?s = "sy_server sys"
  have reg: "registry_ok (us_registry ?s)" using f(2) by (simp add: server_ok_def)
  obtain c reg' where a: "client_registry_add_tcp 7 0 (us_registry ?s) = Some (c, reg')" "c \<noteq> 0"
    "clients reg' = (clients (us_registry ?s))(c \<mapsto> new_entry c TRANSPORT_TCP (Tcp_fd 7) 0)"
    using client_registry_add_tcp_ok [OF reg f(6), of 7 0] by auto
  from message_parser_init_total obtain pr where pr: "message_parser_init blank_parser = Some pr" by blast
  have "tcp_accepted 7 0 ?s = Some (Some c, ?s\<lparr>us_registry := reg'\<rparr>)" using a(1,2) by (simp add: tcp_accepted_def)
  then have "unified_step sys (sys\<lparr>sy_server := ?s\<lparr>us_registry := reg'\<rparr>, sy_handlers := (sy_handlers sys)(c \<mapsto> new_handler pr)\<rparr>)"
    by (intro unified_step.accept [of 7]) (simp_all add: f pr)
  then have "unified_run (sys\<lparr>sy_server := ?s\<lparr>us_registry := reg'\<rparr>, sy_handlers := (sy_handlers sys)(c \<mapsto> new_handler pr)\<rparr>)"
    using i by (auto simp: idle_server_def intro: unified_run.step)
  moreover have "handles reg' c = Some (Tcp_fd 7)" "card (dom (clients reg')) = 1" using a(3) f(5) by (simp_all add: handles_def new_entry_def)
  moreover have "sending (?s\<lparr>us_registry := reg'\<rparr>) = sending ?s" by (rule sending_cong) simp_all
  ultimately show ?thesis using f i
    by (intro exI [of _ "sys\<lparr>sy_server := ?s\<lparr>us_registry := reg'\<rparr>, sy_handlers := (sy_handlers sys)(c \<mapsto> new_handler pr)\<rparr>"] exI [of _ c])
      (auto simp: connected_server_def few_clients_def idle_server_def fresh_system_def)
qed

text \<open>The request of the examples: a cancel of an order nobody entered, and its answer.\<close>

definition cancel_request :: input_msg_t where
  "cancel_request = INPUT_MSG_CANCEL \<lparr>cm_user_id = 1, cm_user_order_id = 7, cm_symbol = []\<rparr>"

definition cancel_answer :: output_msg_t where
  "cancel_answer = OUTPUT_MSG_CANCEL_ACK \<lparr>ca_user_id = 1, ca_user_order_id = 7, ca_symbol = ''UNKNOWN''\<rparr>"

lemma cancel_request_sendable: "sendable cancel_request"
  by (simp add: sendable_def cancel_request_def)

lemma cancel_encoded:
  "\<exists>cd bs. cd_send_encoding cd = ENCODING_BINARY \<and> encode_requests cd [cancel_request] = Some [bs] \<and> carries bs cancel_request"
proof -
  define cd :: codec_t where "cd = undefined\<lparr>cd_send_encoding := ENCODING_BINARY\<rparr>"
  have cd: "cd_send_encoding cd = ENCODING_BINARY" by (simp add: cd_def)
  have "\<forall>m\<in>set [cancel_request]. sendable m" using cancel_request_sendable by simp
  with cd obtain bss where "encode_requests cd [cancel_request] = Some bss" "list_all2 carries bss [cancel_request]" by (rule encode_requests_binary)
  then show ?thesis using cd unfolding list_all2_Cons2 by blast
qed

lemma cancel_answer_ok: "formattable cancel_answer" "csv_decodable cancel_answer"
  by (simp_all add: formattable_def csv_decodable_def cancel_answer_def plain_symbol_def)

lemma cancel_answered: "\<exists>e'. answers clock c [cancel_request] fresh_engine [(c, [cancel_answer])] e'"
proof -
  let ?m = "\<lparr>cm_user_id = 1, cm_user_order_id = 7, cm_symbol = []\<rparr>"
  have idle: "\<not> matching_engine_has_flush_in_progress (en_engine fresh_engine)"
    using no_flush_idle [OF fresh_engine_rep(1)] fresh_engine_rep(3) by blast
  have adm: "admissible fresh_engine cancel_request" by (simp add: cancel_request_def valid_ids_def)
  from run_message_defined [OF fresh_engine_run adm] obtain e where
    e: "matching_engine_process_message cancel_request c (clock 0) fresh_engine = Some e" by blast
  have "valid_ids (cm_user_id ?m) (cm_user_order_id ?m)" "tracked fresh_engine (cm_user_id ?m) (cm_user_order_id ?m) = None"
    by (simp_all add: valid_ids_def fresh_engine_untracked)
  from process_cancel_order_untracked [OF fresh_engine_rep(1) this] e have "en_out e = emit [] [cancel_ack_of ''UNKNOWN'' 1 7]"
    by (auto simp: cancel_request_def matching_engine_process_message_def fresh_engine_def)
  then have out: "en_out e = [cancel_answer]" by (simp add: emit_def cancel_ack_of_def cancel_answer_def)
  show ?thesis
    using idle adm e out cancel_answer_ok(2)
    by (intro exI [of _ "e\<lparr>en_out := []\<rparr>"]) (simp add: answers_def envelope_of_def fresh_engine_out all_outs_def)
qed

text \<open>The server with this answer to be sent.\<close>

lemma answer_waiting:
  "\<exists>s. server_ok s \<and> sending s False = [\<lparr>oe_msg = cancel_answer, oe_client_id = 1, oe_sequence = 0\<rparr>] \<and> sending s True = []
     \<and> clients (us_registry s) = Map.empty"
proof -
  from idle_server_ex obtain sys where i: "idle_server sys" by blast
  let ?s = "sy_server sys" and ?env = "\<lparr>oe_msg = cancel_answer, oe_client_id = 1, oe_sequence = 0\<rparr>"
  note f = idle_server_facts [OF i]
  have q: "queue_ok (us_output_queue_0 ?s)" "contents (us_output_queue_0 ?s) = []" using f(2) f(4) [of False] by (simp_all add: server_ok_def sending_def)
  let ?s' = "?s\<lparr>us_output_queue_0 := snd (queue_enqueue (us_output_queue_0 ?s) ?env)\<rparr>"
  from enqueue_put [OF q(1), of ?env] q(2) have "server_ok ?s'" "sending ?s' False = [?env]" using f(2) by (simp_all add: server_ok_def sending_def put_def)
  moreover have "sending ?s' True = []" using f(4) [of True] by (simp add: sending_def)
  ultimately show ?thesis using f(5) by (intro exI [of _ ?s']) simp
qed

text \<open>Two clients, and a trade of users 1 and 2 between them waiting to be sent.\<close>

definition small_trade :: trade_msg_t where
  "small_trade = \<lparr>tr_user_id_buy = 1, tr_user_order_id_buy = 7, tr_user_id_sell = 2, tr_user_order_id_sell = 8, tr_price = 100, tr_quantity = 10,
     tr_buy_client_id = 3, tr_sell_client_id = 4, tr_symbol = ''IBM''\<rparr>"

lemma two_clients: "\<exists>reg b a. registry_ok reg \<and> clients reg b \<noteq> None \<and> clients reg a \<noteq> None \<and> a \<noteq> b \<and> fds_ok reg \<and> finite (dom (clients reg)) \<and> card (dom (clients reg)) \<le> 2"
proof -
  obtain reg where reg: "registry_ok reg" "clients reg = Map.empty" "tcp_room reg" "udp_room reg" using client_registry_init_ok by blast
  from client_registry_add_tcp_ok [OF reg(1,3), of 7 1] obtain b reg1 where
    1: "client_registry_add_tcp 7 1 reg = Some (b, reg1)" "registry_ok reg1" "clients reg1 = [b \<mapsto> new_entry b TRANSPORT_TCP (Tcp_fd 7) 1]" using reg(2) by auto
  have "cr_next_udp_id reg1 = cr_next_udp_id reg"
    using 1(1) by (auto simp: client_registry_add_tcp_def bind_eq_Some_conv Let_def split: if_splits option.splits)
  then have "udp_room reg1" using reg(4) card_clients [OF 1(2)] 1(3) by (simp add: udp_room_def)
  from client_registry_get_or_add_udp_ok [OF 1(2) this, of "\<lparr>ua_addr = 1, ua_port = 2, ua_pad = 0\<rparr>" 1] obtain a reg2 where
    2: "registry_ok reg2" "udp_client reg2 \<lparr>ua_addr = 1, ua_port = 2, ua_pad = 0\<rparr> a"
      "if \<exists>c'. udp_client reg1 \<lparr>ua_addr = 1, ua_port = 2, ua_pad = 0\<rparr> c' then reg2 = reg1
       else clients reg1 a = None \<and> clients reg2 = (clients reg1)(a \<mapsto> new_entry a TRANSPORT_UDP (Udp_addr \<lparr>ua_addr = 1, ua_port = 2, ua_pad = 0\<rparr>) 1)" by blast
  have "\<not> (\<exists>c'. udp_client reg1 \<lparr>ua_addr = 1, ua_port = 2, ua_pad = 0\<rparr> c')" by (auto simp: udp_client_def 1(3) new_entry_def split: if_splits)
  with 2 have m: "a \<noteq> b" "clients reg2 = [b \<mapsto> new_entry b TRANSPORT_TCP (Tcp_fd 7) 1, a \<mapsto> new_entry a TRANSPORT_UDP (Udp_addr \<lparr>ua_addr = 1, ua_port = 2, ua_pad = 0\<rparr>) 1]"
    by (auto simp: 1(3) split: if_splits)
  then have "fds_ok reg2" by (auto simp: fds_ok_clients fd_ok_def new_entry_def)
  moreover have "dom (clients reg2) = {a, b}" by (auto simp: m(2))
  ultimately show ?thesis using 2(1) m by (intro exI [of _ reg2] exI [of _ b] exI [of _ a]) (simp add: card_insert_if)
qed

definition trade_server :: "unified_server_t \<Rightarrow> u32 \<Rightarrow> u32 \<Rightarrow> bool" where
  "trade_server s b a \<longleftrightarrow> server_ok s \<and> all_read s (OUTPUT_MSG_TRADE small_trade) \<and> few_clients s
     \<and> sending s False = routed 1 0 [OUTPUT_MSG_TRADE small_trade] \<and> sending s True = []
     \<and> user_client_map_get (us_user_map s) 1 = b \<and> clients (us_registry s) b \<noteq> None
     \<and> user_client_map_get (us_user_map s) 2 = a \<and> clients (us_registry s) a \<noteq> None \<and> a \<noteq> b"

lemma trade_server_ex: "\<exists>s b a. trade_server s b a"
proof -
  from idle_server_ex obtain sys where i: "idle_server sys" by blast
  from two_clients obtain reg b a where r: "registry_ok reg" "clients reg b \<noteq> None" "clients reg a \<noteq> None" "a \<noteq> b" "fds_ok reg" "card (dom (clients reg)) \<le> 2" by blast
  let ?s = "sy_server sys" and ?m = "OUTPUT_MSG_TRADE small_trade"
  note f = idle_server_facts [OF i]
  have q: "queue_ok (us_output_queue_0 ?s)" "contents (us_output_queue_0 ?s) = []" using f(2) f(4) [of False] by (simp_all add: server_ok_def sending_def)
  let ?e1 = "\<lparr>oe_msg = ?m, oe_client_id = 3, oe_sequence = 0\<rparr>" and ?e2 = "\<lparr>oe_msg = ?m, oe_client_id = 4, oe_sequence = 0\<rparr>"
  define q1 where "q1 = snd (queue_enqueue (us_output_queue_0 ?s) ?e1)"
  define q2 where "q2 = snd (queue_enqueue q1 ?e2)"
  have q1: "queue_ok q1" "contents q1 = [?e1]" using enqueue_put [OF q(1), of ?e1] q(2) by (simp_all add: q1_def put_def)
  have q2: "queue_ok q2" "contents q2 = [?e1, ?e2]" using enqueue_put [OF q1(1), of ?e2] q1(2) by (simp_all add: q2_def put_def)
  define s where "s = ?s\<lparr>us_output_queue_0 := q2, us_registry := reg,
     us_user_map := user_client_map_set (user_client_map_set (us_user_map ?s) 1 b) 2 a\<rparr>"
  have "server_ok s" using f(2) q2(1) r(1) by (simp add: s_def server_ok_def)
  moreover have "sending s False = routed 1 0 [?m]" "sending s True = []" using q2(2) f(4) [of True] by (simp_all add: s_def sending_def small_trade_def)
  moreover have "all_read s ?m" "few_clients s" using r(5,6)
    by (simp_all add: s_def all_read_def few_clients_def fds_ok_clients formattable_def csv_decodable_def plain_symbol_def small_trade_def)
  moreover have "user_client_map_get (us_user_map s) 1 = b" "user_client_map_get (us_user_map s) 2 = a"
    by (simp_all add: s_def user_client_map_get_set user_slot_def)
  moreover have "us_registry s = reg" by (simp add: s_def)
  ultimately show ?thesis using r(2-4) by (intro exI [of _ s] exI [of _ b] exI [of _ a]) (simp add: trade_server_def)
qed

end
