(* ===== verification/ME_Tcp_Connection.thy ===== *)
theory ME_Tcp_Connection
  imports ME_Queue ME_Framing ME_Messages
begin

text \<open>
  The connections of the TCP mode (\<^verbatim>\<open>network/tcp_connection.c\<close> and \<^verbatim>\<open>.h\<close>): a table of at most 100 clients, each
  with the queue of the messages for it and the state of its framed stream in both directions.  The
  identifier of a client is its slot plus one.  A pointer to a client is its slot; the closing of a socket and its options are calls of the operating
  system and have no effect on the table.  The lock makes each operation one step; the time is an argument.
\<close>

abbreviation MAX_TCP_CLIENTS :: nat where "MAX_TCP_CLIENTS \<equiv> 100"

record sockaddr_in =
  sin_addr :: u32
  sin_port :: u16

record tcp_client_t =
  tc_socket_fd :: int
  tc_client_id :: u32
  tc_active :: bool
  tc_has_pending_write :: bool
  tc_addr :: sockaddr_in
  tc_output_queue :: "output_msg_t queue_t"
  tc_read_state :: framing_read_state_t
  tc_write_state :: framing_write_state_t
  tc_connected_at :: u64
  tc_messages_received :: u64
  tc_messages_sent :: u64
  tc_bytes_received :: u64
  tc_bytes_sent :: u64

record tcp_client_registry_t =
  tg_clients :: "nat \<Rightarrow> tcp_client_t"
  tg_active_count :: nat

section \<open>The table\<close>

text \<open>The structure after \<^verbatim>\<open>memset\<close> with the fields the loop sets; the first constructor of a message has the type 0.\<close>

definition zero_queue :: "'a \<Rightarrow> 'a queue_t" where
  "zero_queue x = \<lparr>q_head = 0, q_tail = 0, q_producer_stats = \<lparr>ps_total_enqueues = 0, ps_failed_enqueues = 0, ps_peak_size = 0\<rparr>,
     q_consumer_stats = \<lparr>cs_total_dequeues = 0, cs_batch_dequeues = 0\<rparr>, q_buffer = (\<lambda>_. x)\<rparr>"

definition zero_write_state :: framing_write_state_t where
  "zero_write_state = \<lparr>fw_buffer = (\<lambda>_. 0), fw_total_len = 0, fw_bytes_written = 0\<rparr>"

definition zero_client :: tcp_client_t where
  "zero_client = \<lparr>tc_socket_fd = -1, tc_client_id = 0, tc_active = False, tc_has_pending_write = False, tc_addr = \<lparr>sin_addr = 0, sin_port = 0\<rparr>,
     tc_output_queue = zero_queue (OUTPUT_MSG_ACK \<lparr>ack_user_id = 0, ack_user_order_id = 0, ack_symbol = []\<rparr>),
     tc_read_state = \<lparr>fr_buffer = (\<lambda>_. 0), fr_extract_buffer = (\<lambda>_. 0), fr_buffer_pos = 0, fr_expected_length = 0, fr_reading_header = False\<rparr>,
     tc_write_state = zero_write_state, tc_connected_at = 0, tc_messages_received = 0, tc_messages_sent = 0, tc_bytes_received = 0, tc_bytes_sent = 0\<rparr>"

definition tcp_client_registry_init :: "tcp_client_registry_t \<Rightarrow> tcp_client_registry_t" where
  "tcp_client_registry_init registry = \<lparr>tg_clients = (\<lambda>_. zero_client), tg_active_count = 0\<rparr>"

definition tcp_client_registry_destroy :: "tcp_client_registry_t \<Rightarrow> tcp_client_registry_t option" where
  "tcp_client_registry_destroy registry =
     (if \<forall>i\<in>set [0..<MAX_TCP_CLIENTS]. tc_active (tg_clients registry i) \<longrightarrow> queue_destroy (tc_output_queue (tg_clients registry i)) \<noteq> None
      then Some registry else None)"

definition put_client :: "nat \<Rightarrow> tcp_client_t \<Rightarrow> tcp_client_registry_t \<Rightarrow> tcp_client_registry_t" where
  "put_client i client registry = registry\<lparr>tg_clients := (tg_clients registry)(i := client)\<rparr>"

text \<open>The identifier, or \<open>None\<close> when the table is full.\<close>

definition tcp_client_add :: "int \<Rightarrow> sockaddr_in \<Rightarrow> u64 \<Rightarrow> tcp_client_registry_t \<Rightarrow> (u32 option \<times> tcp_client_registry_t) option" where
  "tcp_client_add socket_fd addr now registry = do {
     assert_that (socket_fd \<ge> 0);
     if tg_active_count registry \<ge> MAX_TCP_CLIENTS then Some (None, registry)
     else case find (\<lambda>i. \<not> tc_active (tg_clients registry i)) [0..<MAX_TCP_CLIENTS] of
         None \<Rightarrow> Some (None, registry)
       | Some i \<Rightarrow> do {
           let id = of_nat (i + 1);
           let client = (tg_clients registry i)\<lparr>tc_socket_fd := socket_fd, tc_client_id := id, tc_addr := addr, tc_active := True,
                 tc_has_pending_write := False\<rparr>;
           rs \<leftarrow> framing_read_state_init (tc_read_state client);
           q \<leftarrow> queue_init (tc_output_queue client);
           let client1 = client\<lparr>tc_read_state := rs, tc_write_state := zero_write_state, tc_output_queue := q, tc_connected_at := now,
                 tc_messages_received := 0, tc_messages_sent := 0, tc_bytes_received := 0, tc_bytes_sent := 0\<rparr>;
           Some (Some id, (put_client i client1 registry)\<lparr>tg_active_count := tg_active_count registry + 1\<rparr>)
         }
   }"

definition tcp_client_remove :: "u32 \<Rightarrow> tcp_client_registry_t \<Rightarrow> tcp_client_registry_t option" where
  "tcp_client_remove client_id registry =
     (if client_id = 0 \<or> client_id > of_nat MAX_TCP_CLIENTS then Some registry
      else let i = unat client_id - 1; client = tg_clients registry i in
        if \<not> tc_active client then Some registry
        else do {
          q \<leftarrow> queue_destroy (tc_output_queue client);
          let client1 = client\<lparr>tc_output_queue := q, tc_active := False, tc_socket_fd := -1, tc_client_id := 0, tc_has_pending_write := False\<rparr>;
          Some ((put_client i client1 registry)\<lparr>tg_active_count := (if tg_active_count registry > 0 then tg_active_count registry - 1 else 0)\<rparr>)
        })"

definition tcp_client_get :: "tcp_client_registry_t \<Rightarrow> u32 \<Rightarrow> nat option" where
  "tcp_client_get registry client_id =
     (if client_id = 0 \<or> client_id > of_nat MAX_TCP_CLIENTS then None
      else let i = unat client_id - 1 in if \<not> tc_active (tg_clients registry i) then None else Some i)"

definition tcp_client_get_active_count :: "tcp_client_registry_t \<Rightarrow> nat" where
  "tcp_client_get_active_count registry = tg_active_count registry"

definition tcp_client_enqueue_output :: "nat \<Rightarrow> output_msg_t \<Rightarrow> tcp_client_registry_t \<Rightarrow> bool \<times> tcp_client_registry_t" where
  "tcp_client_enqueue_output i msg registry =
     (let client = tg_clients registry i in
      if \<not> tc_active client then (False, registry)
      else (let (ok, q) = queue_enqueue (tc_output_queue client) msg in (ok, put_client i (client\<lparr>tc_output_queue := q\<rparr>) registry)))"

definition tcp_client_dequeue_output :: "nat \<Rightarrow> tcp_client_registry_t \<Rightarrow> output_msg_t option \<times> tcp_client_registry_t" where
  "tcp_client_dequeue_output i registry =
     (let client = tg_clients registry i; (msg, q) = queue_dequeue (tc_output_queue client)
      in (msg, put_client i (client\<lparr>tc_output_queue := q\<rparr>) registry))"

text \<open>The loop stops when \<open>max_clients\<close> identifiers are stored; the count is set to 0 in any case.\<close>

fun disconnect_loop :: "nat list \<Rightarrow> nat \<Rightarrow> tcp_client_registry_t \<Rightarrow> (u32 list \<times> tcp_client_registry_t) option" where
  "disconnect_loop [] max_clients registry = Some ([], registry)"
| "disconnect_loop (i # is) max_clients registry =
     (if max_clients = 0 then Some ([], registry)
      else let client = tg_clients registry i in
        if tc_active client then do {
          q \<leftarrow> queue_destroy (tc_output_queue client);
          let client1 = client\<lparr>tc_output_queue := q, tc_active := False, tc_socket_fd := -1, tc_client_id := 0\<rparr>;
          (ids, registry') \<leftarrow> disconnect_loop is (max_clients - 1) (put_client i client1 registry);
          Some (tc_client_id client # ids, registry')
        } else disconnect_loop is max_clients registry)"

definition tcp_client_disconnect_all :: "nat \<Rightarrow> tcp_client_registry_t \<Rightarrow> (u32 list \<times> tcp_client_registry_t) option" where
  "tcp_client_disconnect_all max_clients registry = do {
     assert_that (max_clients > 0);
     (ids, registry') \<leftarrow> disconnect_loop [0..<MAX_TCP_CLIENTS] max_clients registry;
     Some (ids, registry'\<lparr>tg_active_count := 0\<rparr>)
   }"

section \<open>The invariant\<close>

definition tcp_id :: "nat \<Rightarrow> u32" where
  "tcp_id i = of_nat (i + 1)"

definition live :: "tcp_client_registry_t \<Rightarrow> nat set" where
  "live reg = {i. i < MAX_TCP_CLIENTS \<and> tc_active (tg_clients reg i)}"

definition write_ok :: "framing_write_state_t \<Rightarrow> bool" where
  "write_ok st \<longleftrightarrow> fw_bytes_written st \<le> fw_total_len st \<and> fw_total_len st \<le> FRAMING_BUFFER_SIZE"

definition client_ok :: "nat \<Rightarrow> tcp_client_t \<Rightarrow> bool" where
  "client_ok i c \<longleftrightarrow> tc_active c \<and> tc_client_id c = tcp_id i \<and> 0 \<le> tc_socket_fd c \<and> queue_ok (tc_output_queue c)
     \<and> read_ok (tc_read_state c) \<and> write_ok (tc_write_state c)"

definition tcp_registry_ok :: "tcp_client_registry_t \<Rightarrow> bool" where
  "tcp_registry_ok reg \<longleftrightarrow> tg_active_count reg = card (live reg) \<and> (\<forall>i\<in>live reg. client_ok i (tg_clients reg i))"

text \<open>The table as a map from identifiers to clients.\<close>

definition tcp_table :: "tcp_client_registry_t \<Rightarrow> u32 \<Rightarrow> tcp_client_t option" where
  "tcp_table reg c = map_option (tg_clients reg) (tcp_client_get reg c)"

lemma tcp_id_inj: "i < MAX_TCP_CLIENTS \<Longrightarrow> unat (tcp_id i) = i + 1"
  by (simp only: tcp_id_def unat_of_nat) simp

lemma tcp_id_eq: "i < MAX_TCP_CLIENTS \<Longrightarrow> j < MAX_TCP_CLIENTS \<Longrightarrow> tcp_id i = tcp_id j \<longleftrightarrow> i = j"
  by (metis tcp_id_inj add_right_cancel)

lemma tcp_id_range: "c \<noteq> 0 \<and> \<not> c > (of_nat MAX_TCP_CLIENTS :: u32) \<longleftrightarrow> (\<exists>i<MAX_TCP_CLIENTS. c = tcp_id i)"
proof
  assume c: "c \<noteq> 0 \<and> \<not> c > (of_nat MAX_TCP_CLIENTS :: u32)"
  then have "unat c \<noteq> 0" "unat c \<le> 100" by (simp_all add: unat_eq_0 word_less_nat_alt)
  then show "\<exists>i<MAX_TCP_CLIENTS. c = tcp_id i" by (intro exI [of _ "unat c - 1"]) (simp add: tcp_id_def)
next
  assume "\<exists>i<MAX_TCP_CLIENTS. c = tcp_id i"
  then obtain i where i: "i < MAX_TCP_CLIENTS" "c = tcp_id i" by blast
  from tcp_id_inj [OF i(1)] have "unat c = i + 1" by (simp add: i(2))
  with i(1) show "c \<noteq> 0 \<and> \<not> c > (of_nat MAX_TCP_CLIENTS :: u32)" by (auto simp: word_less_nat_alt)
qed

lemma tcp_client_get_eq: "tcp_client_get reg c = (if \<exists>i\<in>live reg. c = tcp_id i then Some (unat c - 1) else None)"
proof (cases "\<exists>i<MAX_TCP_CLIENTS. c = tcp_id i")
  case True
  then obtain i where i: "i < MAX_TCP_CLIENTS" "c = tcp_id i" by blast
  have c: "\<not> (c = 0 \<or> c > of_nat MAX_TCP_CLIENTS)" using tcp_id_range [of c] True by simp
  have u: "unat c - 1 = i" using tcp_id_inj [OF i(1)] i(2) by simp
  have "(\<exists>j\<in>live reg. c = tcp_id j) \<longleftrightarrow> tc_active (tg_clients reg i)"
  proof
    assume "\<exists>j\<in>live reg. c = tcp_id j"
    then obtain j where "j \<in> live reg" "c = tcp_id j" by blast
    moreover from this have "j = i" using tcp_id_inj [of j] u by (simp add: live_def)
    ultimately show "tc_active (tg_clients reg i)" by (simp add: live_def)
  qed (use i in \<open>auto simp: live_def\<close>)
  then show ?thesis unfolding tcp_client_get_def Let_def u using c by simp
next
  case False
  with tcp_id_range [of c] have "c = 0 \<or> c > of_nat MAX_TCP_CLIENTS" by blast
  moreover from False have "\<not> (\<exists>i\<in>live reg. c = tcp_id i)" by (auto simp: live_def)
  ultimately show ?thesis by (auto simp: tcp_client_get_def)
qed

lemma tcp_client_get_live: "i \<in> live reg \<Longrightarrow> tcp_client_get reg (tcp_id i) = Some i"
  using tcp_id_inj [of i] by (auto simp: tcp_client_get_eq live_def)

lemma tcp_client_get_Some: "tcp_client_get reg c = Some i \<longleftrightarrow> i \<in> live reg \<and> c = tcp_id i"
proof
  assume a: "tcp_client_get reg c = Some i"
  then obtain j where j: "j \<in> live reg" "c = tcp_id j" by (auto simp: tcp_client_get_eq split: if_splits)
  with tcp_client_get_live [OF j(1)] a show "i \<in> live reg \<and> c = tcp_id i" by simp
qed (use tcp_client_get_live in blast)

lemma tcp_table_live: "i \<in> live reg \<Longrightarrow> tcp_table reg (tcp_id i) = Some (tg_clients reg i)"
  using tcp_client_get_live [of i reg] by (simp add: tcp_table_def)

lemma tcp_table_Some: "tcp_table reg c = Some t \<longleftrightarrow> (\<exists>i\<in>live reg. c = tcp_id i \<and> t = tg_clients reg i)"
  by (auto simp: tcp_table_def tcp_client_get_Some)

lemma tcp_table_None: "tcp_table reg c = None \<longleftrightarrow> \<not> (\<exists>i\<in>live reg. c = tcp_id i)"
  by (auto simp: tcp_table_def tcp_client_get_eq)

text \<open>A client is changed, appears, or disappears.\<close>

lemma live_put: "i < MAX_TCP_CLIENTS \<Longrightarrow> live (put_client i c reg) = (if tc_active c then insert i (live reg) else live reg - {i})"
  by (auto simp: live_def put_client_def)

lemma finite_live [simp]: "finite (live reg)"
  by (rule finite_subset [of _ "{..<MAX_TCP_CLIENTS}"]) (auto simp: live_def)

lemma tcp_table_put:
  assumes i: "i < MAX_TCP_CLIENTS"
  shows "tcp_table (put_client i c reg) = (tcp_table reg)(tcp_id i := (if tc_active c then Some c else None))"
proof
  fix d
  have "tcp_table (put_client i c reg) d = Some t \<longleftrightarrow> ((tcp_table reg)(tcp_id i := (if tc_active c then Some c else None))) d = Some t" for t
  proof (cases "d = tcp_id i")
    case True
    have eq: "j < MAX_TCP_CLIENTS \<Longrightarrow> tcp_id i = tcp_id j \<longleftrightarrow> j = i" for j using tcp_id_eq [OF i] by metis
    have "tcp_table (put_client i c reg) d = Some t \<longleftrightarrow> i \<in> live (put_client i c reg) \<and> t = tg_clients (put_client i c reg) i"
      unfolding tcp_table_Some True using eq by (auto simp: live_def)
    then show ?thesis by (auto simp: live_put [OF i] True) (simp_all add: put_client_def)
  next
    case False
    then show ?thesis by (auto simp: tcp_table_Some live_put [OF i]) (auto simp: put_client_def split: if_splits)
  qed
  then show "tcp_table (put_client i c reg) d = ((tcp_table reg)(tcp_id i := (if tc_active c then Some c else None))) d"
    by (metis option.exhaust)
qed

lemma put_client_simps [simp]: "tg_clients (put_client i c reg) = (tg_clients reg)(i := c)" "tg_active_count (put_client i c reg) = tg_active_count reg"
  by (simp_all add: put_client_def)

lemma count_update [simp]: "live (reg\<lparr>tg_active_count := n\<rparr>) = live reg" "tcp_table (reg\<lparr>tg_active_count := n\<rparr>) = tcp_table reg"
  by (simp_all add: live_def tcp_table_def tcp_client_get_def fun_eq_iff)

lemma client_ok_active: "client_ok i c \<Longrightarrow> tc_active c"
  by (simp add: client_ok_def)

lemma live_bound: "i \<in> live reg \<Longrightarrow> i < MAX_TCP_CLIENTS"
  by (simp add: live_def)

lemma tcp_registry_ok_client: "tcp_registry_ok reg \<Longrightarrow> i \<in> live reg \<Longrightarrow> client_ok i (tg_clients reg i)"
  by (simp add: tcp_registry_ok_def)

lemma put_client_ok:
  assumes ok: "tcp_registry_ok reg" and i: "i \<in> live reg" and c: "client_ok i c"
  shows "tcp_registry_ok (put_client i c reg)" and "live (put_client i c reg) = live reg" and "tcp_table (put_client i c reg) = (tcp_table reg)(tcp_id i \<mapsto> c)"
proof -
  show l: "live (put_client i c reg) = live reg" using i client_ok_active [OF c] by (auto simp: live_put [OF live_bound [OF i]])
  show "tcp_registry_ok (put_client i c reg)" using ok c unfolding tcp_registry_ok_def l by (simp add: put_client_def)
  show "tcp_table (put_client i c reg) = (tcp_table reg)(tcp_id i \<mapsto> c)" using client_ok_active [OF c] by (simp add: tcp_table_put [OF live_bound [OF i]])
qed

section \<open>The operations\<close>

theorem tcp_client_registry_init_ok: "tcp_registry_ok (tcp_client_registry_init reg)" "tcp_table (tcp_client_registry_init reg) = Map.empty" "live (tcp_client_registry_init reg) = {}"
proof -
  show l: "live (tcp_client_registry_init reg) = {}" by (simp add: live_def tcp_client_registry_init_def zero_client_def)
  show "tcp_registry_ok (tcp_client_registry_init reg)" unfolding tcp_registry_ok_def l by (simp add: tcp_client_registry_init_def)
  show "tcp_table (tcp_client_registry_init reg) = Map.empty" by (rule ext) (simp add: tcp_table_None l)
qed

text \<open>A new client has an empty queue, nothing read and nothing to write.\<close>

definition blank_client :: "int \<Rightarrow> tcp_client_t \<Rightarrow> bool" where
  "blank_client fd c \<longleftrightarrow> tc_socket_fd c = fd \<and> contents (tc_output_queue c) = [] \<and> pending (tc_read_state c) = [] \<and> \<not> tc_has_pending_write c
     \<and> tc_messages_received c = 0"

lemma find_upt: "find P [0..<n] = Some i \<longleftrightarrow> i < n \<and> P i \<and> (\<forall>j<i. \<not> P j)" "find P [0..<n] = None \<longleftrightarrow> (\<forall>j<n. \<not> P j)"
  by (auto simp: find_Some_iff find_None_iff)

lemma find_free:
  assumes "card (live reg) < MAX_TCP_CLIENTS"
  obtains i where "find (\<lambda>i. \<not> tc_active (tg_clients reg i)) [0..<MAX_TCP_CLIENTS] = Some i" "i < MAX_TCP_CLIENTS" "i \<notin> live reg" "\<forall>j<i. j \<in> live reg"
proof -
  have "live reg \<noteq> {..<MAX_TCP_CLIENTS}" using assms by (metis card_lessThan less_irrefl)
  moreover have "live reg \<subseteq> {..<MAX_TCP_CLIENTS}" by (auto simp: live_def)
  ultimately obtain j where "j < MAX_TCP_CLIENTS" "j \<notin> live reg" by blast
  then have "find (\<lambda>i. \<not> tc_active (tg_clients reg i)) [0..<MAX_TCP_CLIENTS] \<noteq> None" unfolding find_upt by (auto simp: live_def)
  then obtain i where i: "find (\<lambda>i. \<not> tc_active (tg_clients reg i)) [0..<MAX_TCP_CLIENTS] = Some i" by blast
  then have "i < MAX_TCP_CLIENTS \<and> \<not> tc_active (tg_clients reg i) \<and> (\<forall>j<i. tc_active (tg_clients reg j))" unfolding find_upt by simp
  then show thesis by (intro that [OF i]) (auto simp: live_def)
qed

theorem tcp_client_add_ok:
  assumes ok: "tcp_registry_ok reg" and room: "card (live reg) < MAX_TCP_CLIENTS" and fd: "0 \<le> fd"
  shows "\<exists>i t reg'. tcp_client_add fd addr now reg = Some (Some (tcp_id i), reg') \<and> i < MAX_TCP_CLIENTS \<and> i \<notin> live reg \<and> (\<forall>j<i. j \<in> live reg)
     \<and> tcp_registry_ok reg' \<and> tcp_table reg' = (tcp_table reg)(tcp_id i \<mapsto> t) \<and> tg_clients reg' = (tg_clients reg)(i := t) \<and> live reg' = insert i (live reg)
     \<and> client_ok i t \<and> blank_client fd t"
proof -
  from room obtain i where i: "find (\<lambda>i. \<not> tc_active (tg_clients reg i)) [0..<MAX_TCP_CLIENTS] = Some i" "i < MAX_TCP_CLIENTS" "i \<notin> live reg" "\<forall>j<i. j \<in> live reg"
    by (rule find_free)
  from framing_read_state_init_ok [of "tc_read_state (tg_clients reg i)"] obtain rs where
    rs: "framing_read_state_init (tc_read_state (tg_clients reg i)) = Some rs" "read_ok rs" "pending rs = []" by blast
  from queue_init_ok [of "tc_output_queue (tg_clients reg i)"] obtain q where
    q: "queue_init (tc_output_queue (tg_clients reg i)) = Some q" "queue_ok q" "contents q = []" by blast
  define t where "t = (tg_clients reg i)\<lparr>tc_socket_fd := fd, tc_client_id := tcp_id i, tc_addr := addr, tc_active := True,
     tc_has_pending_write := False, tc_read_state := rs, tc_write_state := zero_write_state, tc_output_queue := q, tc_connected_at := now,
     tc_messages_received := 0, tc_messages_sent := 0, tc_bytes_received := 0, tc_bytes_sent := 0\<rparr>"
  define reg' where "reg' = (put_client i t reg)\<lparr>tg_active_count := tg_active_count reg + 1\<rparr>"
  have count: "tg_active_count reg = card (live reg)" using ok by (simp add: tcp_registry_ok_def)
  have add: "tcp_client_add fd addr now reg = Some (Some (tcp_id i), reg')"
    using fd room i(1) rs(1) q(1) count by (simp add: tcp_client_add_def asserts tcp_id_def reg'_def t_def Let_def)
  have t: "client_ok i t" "blank_client fd t"
    using fd rs q by (simp_all add: t_def client_ok_def blank_client_def write_ok_def zero_write_state_def)
  have cl: "tg_clients reg' = (tg_clients reg)(i := t)" by (simp add: reg'_def put_client_def)
  have l: "live reg' = insert i (live reg)"
    using live_put [OF i(2), of t reg] client_ok_active [OF t(1)] by (simp add: reg'_def)
  have tab: "tcp_table reg' = (tcp_table reg)(tcp_id i \<mapsto> t)"
    using tcp_table_put [OF i(2), of t reg] client_ok_active [OF t(1)] by (simp add: reg'_def)
  have "tcp_registry_ok reg'"
    using ok t(1) i(3) unfolding tcp_registry_ok_def l by (auto simp: reg'_def)
  with add i t cl l tab show ?thesis by blast
qed

lemma tcp_client_add_full:
  assumes "tcp_registry_ok reg" and "live reg = {..<MAX_TCP_CLIENTS}" and "0 \<le> fd"
  shows "tcp_client_add fd addr now reg = Some (None, reg)"
  using assms by (simp add: tcp_client_add_def asserts tcp_registry_ok_def)

text \<open>A client with messages in its queue cannot be removed: the assertion of the queue fails.\<close>

theorem tcp_client_remove_ok:
  assumes ok: "tcp_registry_ok reg" and i: "i \<in> live reg"
  shows "if contents (tc_output_queue (tg_clients reg i)) = []
     then \<exists>reg'. tcp_client_remove (tcp_id i) reg = Some reg' \<and> tcp_registry_ok reg' \<and> live reg' = live reg - {i} \<and> tcp_table reg' = (tcp_table reg)(tcp_id i := None)
       \<and> (\<forall>j\<in>live reg'. tg_clients reg' j = tg_clients reg j)
     else tcp_client_remove (tcp_id i) reg = None"
proof -
  let ?c = "tg_clients reg i"
  have b: "i < MAX_TCP_CLIENTS" by (rule live_bound [OF i])
  have c: "client_ok i ?c" by (rule tcp_registry_ok_client [OF ok i])
  have u: "unat (tcp_id i) - 1 = i" "\<not> (tcp_id i = 0 \<or> tcp_id i > of_nat MAX_TCP_CLIENTS)"
    using tcp_id_inj [OF b] tcp_id_range [of "tcp_id i"] b by auto
  define t where "t = ?c\<lparr>tc_active := False, tc_socket_fd := -1, tc_client_id := 0, tc_has_pending_write := False\<rparr>"
  have count: "tg_active_count reg = card (live reg)" "0 < card (live reg)" using ok i by (auto simp: tcp_registry_ok_def card_gt_0_iff)
  define reg' where "reg' = (put_client i t reg)\<lparr>tg_active_count := tg_active_count reg - 1\<rparr>"
  have d: "queue_destroy (tc_output_queue ?c) = (if contents (tc_output_queue ?c) = [] then Some (tc_output_queue ?c) else None)"
    using c by (intro queue_observers(3)) (simp add: client_ok_def)
  have r: "tcp_client_remove (tcp_id i) reg = (if contents (tc_output_queue ?c) = [] then Some reg' else None)"
    unfolding tcp_client_remove_def Let_def u(1) d using u(2) client_ok_active [OF c] count by (simp add: reg'_def t_def)
  have l: "live reg' = live reg - {i}" using live_put [OF b, of t reg] by (simp add: reg'_def t_def)
  have "tcp_table reg' = (tcp_table reg)(tcp_id i := None)"
    using tcp_table_put [OF b, of t reg] by (simp add: reg'_def t_def)
  moreover have same: "\<forall>j\<in>live reg'. tg_clients reg' j = tg_clients reg j" unfolding l by (auto simp: reg'_def)
  moreover have "tcp_registry_ok reg'"
    using ok same i count unfolding tcp_registry_ok_def l by (auto simp: reg'_def)
  ultimately show ?thesis using r l by auto
qed

lemma tcp_client_remove_absent: "tcp_table reg c = None \<Longrightarrow> tcp_client_remove c reg = Some reg"
  by (auto simp: tcp_table_def tcp_client_get_def tcp_client_remove_def Let_def split: if_splits)

lemma tcp_client_enqueue_output_ok:
  assumes ok: "tcp_registry_ok reg" and i: "i \<in> live reg"
  shows "\<exists>b q reg'. tcp_client_enqueue_output i m reg = (b, reg') \<and> b = (length (contents (tc_output_queue (tg_clients reg i))) < LOCKFREE_QUEUE_SIZE - 1)
     \<and> reg' = put_client i ((tg_clients reg i)\<lparr>tc_output_queue := q\<rparr>) reg \<and> tcp_registry_ok reg' \<and> live reg' = live reg \<and> queue_ok q
     \<and> contents q = (if b then contents (tc_output_queue (tg_clients reg i)) @ [m] else contents (tc_output_queue (tg_clients reg i)))"
proof -
  let ?c = "tg_clients reg i"
  have c: "client_ok i ?c" by (rule tcp_registry_ok_client [OF ok i])
  obtain b q where e: "queue_enqueue (tc_output_queue ?c) m = (b, q)" by fastforce
  from c have "queue_ok (tc_output_queue ?c)" by (simp add: client_ok_def)
  note q = queue_enqueue_ok [OF this e]
  have c': "client_ok i (?c\<lparr>tc_output_queue := q\<rparr>)" using c q by (simp add: client_ok_def)
  have "tcp_client_enqueue_output i m reg = (b, put_client i (?c\<lparr>tc_output_queue := q\<rparr>) reg)"
    using client_ok_active [OF c] e by (simp add: tcp_client_enqueue_output_def Let_def)
  with q put_client_ok [OF ok i c'] show ?thesis by (intro exI [of _ b] exI [of _ q]) auto
qed

end
