(* ===== verification/ME_Output_Router.thy ===== *)
theory ME_Output_Router
  imports ME_Tcp_Connection ME_Unified_Output
begin

text \<open>
  The output router of the TCP and UDP modes (\<^verbatim>\<open>threading/output_router.c\<close> and \<^verbatim>\<open>.h\<close>): a thread that takes batches of envelopes from the output queues of
  the processors, puts each message into the queue of its client and, when enabled, sends it to a multicast group.
  The context is modelled with what its pointers refer to.  The results of the system calls are arguments; \<open>or_mcast_wire\<close> is the trace of the datagrams
  given to \<^verbatim>\<open>sendto\<close>, and \<open>net\<close> tells from the number of earlier ones and the bytes whether the call succeeds.
\<close>

abbreviation ROUTER_BATCH_SIZE :: u64 where "ROUTER_BATCH_SIZE \<equiv> 32"
abbreviation MAX_DRAIN_ITERATIONS :: nat where "MAX_DRAIN_ITERATIONS \<equiv> 100"

record output_router_mcast_config_t =
  rm_multicast_group :: string
  rm_port :: u16
  rm_ttl :: u8
  rm_use_binary_output :: bool

record output_router_config_t =
  rc_tcp_mode :: bool

record output_router_context_t =
  or_config :: output_router_config_t
  or_client_registry :: tcp_client_registry_t
  or_input_queue_0 :: "output_msg_envelope_t queue_t"
  or_input_queue_1 :: "output_msg_envelope_t queue_t option"
  or_num_input_queues :: int
  or_shutdown_flag :: bool
  or_mcast_enabled :: bool
  or_mcast_config :: output_router_mcast_config_t
  or_mcast_sockfd :: int
  or_mcast_addr :: sockaddr_in
  or_messages_routed :: u64
  or_messages_dropped :: u64
  or_messages_from_processor :: "u64 \<times> u64"
  or_mcast_messages :: u64
  or_mcast_errors :: u64
  or_mcast_wire :: "u8 list list"

section \<open>Initialisation\<close>

definition zero_mcast_config :: output_router_mcast_config_t where
  "zero_mcast_config = \<lparr>rm_multicast_group = [], rm_port = 0, rm_ttl = 0, rm_use_binary_output = False\<rparr>"

definition clear_router :: "output_router_config_t \<Rightarrow> output_router_context_t \<Rightarrow> output_router_context_t" where
  "clear_router config ctx = ctx\<lparr>or_config := config, or_mcast_enabled := False, or_mcast_config := zero_mcast_config, or_mcast_sockfd := -1,
     or_mcast_addr := \<lparr>sin_addr = 0, sin_port = 0\<rparr>, or_messages_routed := 0, or_messages_dropped := 0, or_messages_from_processor := (0, 0),
     or_mcast_messages := 0, or_mcast_errors := 0\<rparr>"

definition output_router_init :: "output_router_config_t \<Rightarrow> tcp_client_registry_t \<Rightarrow> output_msg_envelope_t queue_t \<Rightarrow> bool \<Rightarrow>
    output_router_context_t \<Rightarrow> output_router_context_t option" where
  "output_router_init config client_registry input_queue shutdown_flag ctx = do {
     let ctx1 = (clear_router config ctx)\<lparr>or_client_registry := client_registry, or_input_queue_0 := input_queue, or_input_queue_1 := None,
           or_num_input_queues := 1, or_shutdown_flag := shutdown_flag\<rparr>;
     assert_that (or_num_input_queues ctx1 = 1);
     Some ctx1
   }"

definition output_router_init_dual :: "output_router_config_t \<Rightarrow> tcp_client_registry_t \<Rightarrow> output_msg_envelope_t queue_t \<Rightarrow> output_msg_envelope_t queue_t \<Rightarrow> bool \<Rightarrow>
    output_router_context_t \<Rightarrow> output_router_context_t option" where
  "output_router_init_dual config client_registry input_queue_0 input_queue_1 shutdown_flag ctx = do {
     let ctx1 = (clear_router config ctx)\<lparr>or_client_registry := client_registry, or_input_queue_0 := input_queue_0, or_input_queue_1 := Some input_queue_1,
           or_num_input_queues := 2, or_shutdown_flag := shutdown_flag\<rparr>;
     assert_that (or_num_input_queues ctx1 = 2);
     Some ctx1
   }"

text \<open>The port in network byte order, as a little-endian machine reads the two bytes.\<close>

definition htons :: "u16 \<Rightarrow> u16" where
  "htons x = push_bit 8 x OR drop_bit 8 x"

lemma htons_htons: "htons (htons x) = x"
  by (rule bit_word_eqI) (auto simp: htons_def bit_simps)

text \<open>The descriptor of the socket, negative for a failure, and the address \<^verbatim>\<open>inet_pton\<close> reads; failures of the options are only reported.\<close>

definition setup_multicast_socket :: "int \<Rightarrow> u32 option \<Rightarrow> output_router_context_t \<Rightarrow> (bool \<times> output_router_context_t) option" where
  "setup_multicast_socket fd addr ctx = do {
     assert_that (rm_multicast_group (or_mcast_config ctx) \<noteq> []);
     let ctx1 = ctx\<lparr>or_mcast_sockfd := fd\<rparr>;
     if fd < 0 then Some (False, ctx1)
     else do {
       let ctx2 = ctx1\<lparr>or_mcast_addr := \<lparr>sin_addr = 0, sin_port = htons (rm_port (or_mcast_config ctx1))\<rparr>\<rparr>;
       Some (case addr of
           None \<Rightarrow> (False, ctx2\<lparr>or_mcast_sockfd := -1\<rparr>)
         | Some a \<Rightarrow> (True, ctx2\<lparr>or_mcast_addr := (or_mcast_addr ctx2)\<lparr>sin_addr := a\<rparr>\<rparr>))
     }
   }"

definition cleanup_multicast_socket :: "output_router_context_t \<Rightarrow> output_router_context_t" where
  "cleanup_multicast_socket ctx = (if or_mcast_sockfd ctx \<ge> 0 then ctx\<lparr>or_mcast_sockfd := -1\<rparr> else ctx)"

definition output_router_enable_multicast :: "string \<Rightarrow> u16 \<Rightarrow> u8 \<Rightarrow> bool \<Rightarrow> int \<Rightarrow> u32 option \<Rightarrow> output_router_context_t \<Rightarrow> (bool \<times> output_router_context_t) option" where
  "output_router_enable_multicast multicast_group port ttl use_binary fd addr ctx = do {
     assert_that (multicast_group \<noteq> []);
     let ctx1 = ctx\<lparr>or_mcast_config := \<lparr>rm_multicast_group = snd (snprintf 64 multicast_group), rm_port = port, rm_ttl = ttl, rm_use_binary_output = use_binary\<rparr>\<rparr>;
     (ok, ctx2) \<leftarrow> setup_multicast_socket fd addr ctx1;
     Some (if \<not> ok then (False, ctx2) else (True, ctx2\<lparr>or_mcast_enabled := True\<rparr>))
   }"

definition output_router_cleanup :: "output_router_context_t \<Rightarrow> output_router_context_t" where
  "output_router_cleanup ctx = cleanup_multicast_socket ctx"

section \<open>Routing\<close>

type_synonym mcast_net = "nat \<Rightarrow> u8 list \<Rightarrow> bool"

definition mcast_payload :: "bool \<Rightarrow> output_msg_t \<Rightarrow> u8 list option option" where
  "mcast_payload use_binary msg =
     (if use_binary then do {
        (r, f) \<leftarrow> binary_message_formatter_format \<lparr>bf_buffer = (\<lambda>_. 0)\<rparr> msg;
        Some (case r of None \<Rightarrow> None | Some d \<Rightarrow> if length d = 0 then None else Some d)
      } else do {
        (str, f) \<leftarrow> message_formatter_format \<lparr>mf_buffer = []\<rparr> msg;
        Some (Some (c_bytes str))
      })"

definition broadcast_to_multicast :: "mcast_net \<Rightarrow> output_msg_t \<Rightarrow> output_router_context_t \<Rightarrow> (bool \<times> output_router_context_t) option" where
  "broadcast_to_multicast net msg ctx =
     (if \<not> or_mcast_enabled ctx \<or> or_mcast_sockfd ctx < 0 then Some (False, ctx)
      else do {
        payload \<leftarrow> mcast_payload (rm_use_binary_output (or_mcast_config ctx)) msg;
        case payload of
          None \<Rightarrow> Some (False, ctx)
        | Some d \<Rightarrow>
            (let ctx1 = ctx\<lparr>or_mcast_wire := or_mcast_wire ctx @ [d]\<rparr> in
             if \<not> net (length (or_mcast_wire ctx)) d then Some (False, ctx1\<lparr>or_mcast_errors := or_mcast_errors ctx1 + 1\<rparr>)
             else Some (True, ctx1\<lparr>or_mcast_messages := or_mcast_messages ctx1 + 1\<rparr>))
      })"

definition route_single_message :: "mcast_net \<Rightarrow> output_msg_envelope_t \<Rightarrow> output_router_context_t \<Rightarrow> (bool \<times> output_router_context_t) option" where
  "route_single_message net envelope ctx = do {
     let (routed_to_client, ctx1) =
       (if rc_tcp_mode (or_config ctx)
        then (case tcp_client_get (or_client_registry ctx) (oe_client_id envelope) of
            None \<Rightarrow> (False, ctx)
          | Some i \<Rightarrow> let (ok, registry) = tcp_client_enqueue_output i (oe_msg envelope) (or_client_registry ctx)
                      in (ok, ctx\<lparr>or_client_registry := registry\<rparr>))
        else (True, ctx));
     if or_mcast_enabled ctx1 then do {
       (sent, ctx2) \<leftarrow> broadcast_to_multicast net (oe_msg envelope) ctx1;
       Some (routed_to_client, ctx2)
     } else Some (routed_to_client, ctx1)
   }"

text \<open>The messages of a batch, with the counters.\<close>

fun route_batch :: "mcast_net \<Rightarrow> bool \<Rightarrow> output_msg_envelope_t list \<Rightarrow> output_router_context_t \<Rightarrow> output_router_context_t option" where
  "route_batch net second [] ctx = Some ctx"
| "route_batch net second (envelope # batch) ctx = do {
     (ok, ctx1) \<leftarrow> route_single_message net envelope ctx;
     let ctx2 = (if ok then ctx1\<lparr>or_messages_routed := or_messages_routed ctx1 + 1\<rparr> else ctx1\<lparr>or_messages_dropped := or_messages_dropped ctx1 + 1\<rparr>);
     let ctx3 = ctx2\<lparr>or_messages_from_processor :=
           (if second then apsnd (\<lambda>n. n + 1) (or_messages_from_processor ctx2) else apfst (\<lambda>n. n + 1) (or_messages_from_processor ctx2))\<rparr>;
     route_batch net second batch ctx3
   }"

definition process_queue_batch :: "mcast_net \<Rightarrow> bool \<Rightarrow> output_router_context_t \<Rightarrow> (nat \<times> output_router_context_t) option" where
  "process_queue_batch net second ctx =
     (if second then (case or_input_queue_1 ctx of
          None \<Rightarrow> None
        | Some q \<Rightarrow> let (batch, q') = queue_dequeue_batch q ROUTER_BATCH_SIZE in
            map_option (Pair (length batch)) (route_batch net second batch (ctx\<lparr>or_input_queue_1 := Some q'\<rparr>)))
      else let (batch, q') = queue_dequeue_batch (or_input_queue_0 ctx) ROUTER_BATCH_SIZE in
        map_option (Pair (length batch)) (route_batch net second batch (ctx\<lparr>or_input_queue_0 := q'\<rparr>)))"

text \<open>One round over the input queues; a missing queue is skipped.\<close>

definition router_round :: "mcast_net \<Rightarrow> output_router_context_t \<Rightarrow> (nat \<times> output_router_context_t) option" where
  "router_round net ctx = do {
     (n0, ctx1) \<leftarrow> (if or_num_input_queues ctx > 0 then process_queue_batch net False ctx else Some (0, ctx));
     (n1, ctx2) \<leftarrow> (if or_num_input_queues ctx1 > 1 \<and> or_input_queue_1 ctx1 \<noteq> None then process_queue_batch net True ctx1 else Some (0, ctx1));
     Some (n0 + n1, ctx2)
   }"

text \<open>After the shutdown flag is seen the rounds go on until one finds nothing, at most 100 times.\<close>

fun drain_rounds :: "nat \<Rightarrow> mcast_net \<Rightarrow> output_router_context_t \<Rightarrow> output_router_context_t option" where
  "drain_rounds 0 net ctx = Some ctx"
| "drain_rounds (Suc k) net ctx = do {
     (n, ctx1) \<leftarrow> router_round net ctx;
     if n > 0 then drain_rounds k net ctx1 else Some ctx1
   }"

fun router_rounds :: "(output_router_context_t \<Rightarrow> output_router_context_t) list \<Rightarrow> mcast_net \<Rightarrow> output_router_context_t \<Rightarrow> output_router_context_t option" where
  "router_rounds [] net ctx = Some ctx"
| "router_rounds (others # rounds) net ctx =
     (let ctx1 = others ctx in
      if or_shutdown_flag ctx1 then drain_rounds MAX_DRAIN_ITERATIONS net ctx1
      else do {
        (n, ctx2) \<leftarrow> router_round net ctx1;
        router_rounds rounds net ctx2
      })"

end
