(* ===== verification/ME_Tcp_Listener.thy ===== *)
theory ME_Tcp_Listener
  imports ME_Tcp_Connection ME_Symbol_Router ME_Unified
begin

text \<open>
  The event loop of the TCP mode (\<^verbatim>\<open>network/tcp_listener.c\<close> and \<^verbatim>\<open>.h\<close>, as compiled for Linux): connections are accepted, framed requests
  are read, parsed, checked and given to the queue of their processor, and queued answers are framed
  and written.  The structure is modelled with what its pointers refer to: the table of clients, the input queues and
  the shutdown flag.  \<open>tl_epoll\<close> is the interest list of the epoll instance: for a registered descriptor, whether it waits for
  writability; modifying an entry changes it, and closing a descriptor removes it.  \<open>tl_wire\<close> is the trace of the bytes that
  \<^verbatim>\<open>write\<close> accepted.  The results of the system calls are arguments.  Printing is left out.
\<close>

abbreviation MAX_READ_BUFFER :: nat where "MAX_READ_BUFFER \<equiv> 4096"
abbreviation MAX_MESSAGES_PER_READ :: nat where "MAX_MESSAGES_PER_READ \<equiv> 64"
abbreviation MAX_FORMAT_BUFFER :: nat where "MAX_FORMAT_BUFFER \<equiv> 2048"

record tcp_listener_config_t =
  lc_port :: u16
  lc_listen_backlog :: int
  lc_use_binary_output :: bool

text \<open>The variables of the thread; the binary parser has no state.\<close>

record tls_parsers =
  tls_csv_parser :: message_parser_t
  tls_csv_formatter :: message_formatter_t
  tls_binary_formatter :: binary_message_formatter_t
  tls_initialized :: bool

record tcp_listener_context_t =
  tl_config :: tcp_listener_config_t
  tl_listen_fd :: int
  tl_epoll_fd :: int
  tl_client_registry :: tcp_client_registry_t
  tl_input_queue_0 :: "input_msg_envelope_t queue_t"
  tl_input_queue_1 :: "input_msg_envelope_t queue_t option"
  tl_num_input_queues :: int
  tl_shutdown_flag :: bool
  tl_total_connections :: u64
  tl_total_messages_received :: u64
  tl_total_messages_sent :: u64
  tl_total_bytes_received :: u64
  tl_total_bytes_sent :: u64
  tl_messages_to_processor :: "u64 \<times> u64"
  tl_parse_errors :: u64
  tl_queue_full_drops :: u64
  tl_tls :: tls_parsers
  tl_epoll :: "int \<rightharpoonup> bool"
  tl_wire :: "(int \<times> u8 list) list"

definition ensure_parsers_initialized :: "tls_parsers \<Rightarrow> tls_parsers option" where
  "ensure_parsers_initialized tls =
     (if tls_initialized tls then Some tls
      else do {
        p \<leftarrow> message_parser_init (tls_csv_parser tls);
        f \<leftarrow> message_formatter_init (tls_csv_formatter tls);
        b \<leftarrow> binary_message_formatter_init (tls_binary_formatter tls);
        Some \<lparr>tls_csv_parser = p, tls_csv_formatter = f, tls_binary_formatter = b, tls_initialized = True\<rparr>
      })"

section \<open>Routing a request\<close>

definition get_symbol_from_input_msg :: "input_msg_t \<Rightarrow> string option" where
  "get_symbol_from_input_msg msg =
     (case msg of INPUT_MSG_NEW_ORDER m \<Rightarrow> Some (no_symbol m) | INPUT_MSG_CANCEL m \<Rightarrow> Some (cm_symbol m)
      | INPUT_MSG_FLUSH \<Rightarrow> None | INPUT_MSG_OTHER _ \<Rightarrow> None)"

definition enqueue_to :: "bool \<Rightarrow> input_msg_envelope_t \<Rightarrow> tcp_listener_context_t \<Rightarrow> (bool \<times> tcp_listener_context_t) option" where
  "enqueue_to second envelope ctx =
     (if second then (case tl_input_queue_1 ctx of None \<Rightarrow> None
        | Some q \<Rightarrow> let (ok, q') = queue_enqueue q envelope in Some (ok, ctx\<lparr>tl_input_queue_1 := Some q'\<rparr>))
      else let (ok, q') = queue_enqueue (tl_input_queue_0 ctx) envelope in Some (ok, ctx\<lparr>tl_input_queue_0 := q'\<rparr>))"

definition count_to :: "bool \<Rightarrow> tcp_listener_context_t \<Rightarrow> tcp_listener_context_t" where
  "count_to second ctx = ctx\<lparr>tl_messages_to_processor :=
     (if second then apsnd (\<lambda>n. n + 1) (tl_messages_to_processor ctx) else apfst (\<lambda>n. n + 1) (tl_messages_to_processor ctx))\<rparr>"

definition count_drop :: "tcp_listener_context_t \<Rightarrow> tcp_listener_context_t" where
  "count_drop ctx = ctx\<lparr>tl_queue_full_drops := tl_queue_full_drops ctx + 1\<rparr>"

definition route_message_to_queues :: "input_msg_envelope_t \<Rightarrow> input_msg_t \<Rightarrow> tcp_listener_context_t \<Rightarrow> (bool \<times> tcp_listener_context_t) option" where
  "route_message_to_queues envelope msg ctx =
     (if tl_num_input_queues ctx = 1 then do {
        (ok, c1) \<leftarrow> enqueue_to False envelope ctx;
        Some (if ok then (True, count_to False c1) else (False, count_drop c1))
      } else let symbol = get_symbol_from_input_msg msg in
        if msg = INPUT_MSG_FLUSH \<or> \<not> symbol_is_valid symbol then do {
          (success_0, c1) \<leftarrow> enqueue_to False envelope ctx;
          (success_1, c2) \<leftarrow> enqueue_to True envelope c1;
          let c3 = (if success_0 then count_to False c2 else c2);
          let c4 = (if success_1 then count_to True c3 else c3);
          Some (success_0 \<and> success_1, if \<not> success_0 \<or> \<not> success_1 then count_drop c4 else c4)
        } else do {
          processor_id \<leftarrow> get_processor_id_for_symbol symbol;
          assert_that (processor_id \<ge> 0 \<and> processor_id < 2);
          (ok, c1) \<leftarrow> enqueue_to (processor_id \<noteq> 0) envelope ctx;
          Some (if ok then (True, count_to (processor_id \<noteq> 0) c1) else (False, count_drop c1))
        })"

section \<open>The interest list and the table\<close>

definition set_client :: "nat \<Rightarrow> tcp_client_t \<Rightarrow> tcp_listener_context_t \<Rightarrow> tcp_listener_context_t" where
  "set_client i client ctx = ctx\<lparr>tl_client_registry := put_client i client (tl_client_registry ctx)\<rparr>"

definition client_at :: "tcp_listener_context_t \<Rightarrow> nat \<Rightarrow> tcp_client_t" where
  "client_at ctx i = tg_clients (tl_client_registry ctx) i"

definition epoll_mod :: "int \<Rightarrow> bool \<Rightarrow> tcp_listener_context_t \<Rightarrow> tcp_listener_context_t" where
  "epoll_mod fd out ctx = ctx\<lparr>tl_epoll := (if tl_epoll ctx fd = None then tl_epoll ctx else (tl_epoll ctx)(fd \<mapsto> out))\<rparr>"

definition epoll_del :: "int \<Rightarrow> tcp_listener_context_t \<Rightarrow> tcp_listener_context_t" where
  "epoll_del fd ctx = ctx\<lparr>tl_epoll := (tl_epoll ctx)(fd := None)\<rparr>"

definition disconnect_client :: "u32 \<Rightarrow> tcp_listener_context_t \<Rightarrow> tcp_listener_context_t option" where
  "disconnect_client client_id ctx =
     (case tcp_client_get (tl_client_registry ctx) client_id of
        None \<Rightarrow> Some ctx
      | Some i \<Rightarrow> do {
          let ctx1 = epoll_del (tc_socket_fd (client_at ctx i)) ctx;
          registry \<leftarrow> tcp_client_remove client_id (tl_client_registry ctx1);
          Some (ctx1\<lparr>tl_client_registry := registry\<rparr>)
        })"

section \<open>A new connection\<close>

text \<open>
  What the calls return: a descriptor with the address of the peer, whether it could be made non-blocking, and whether it could be registered; the
  closing of a rejected descriptor has no effect on the state.
\<close>

datatype accept_result = Accept_failed | Accepted int sockaddr_in bool bool

definition handle_new_connection :: "accept_result \<Rightarrow> u64 \<Rightarrow> tcp_listener_context_t \<Rightarrow> tcp_listener_context_t option" where
  "handle_new_connection r now ctx =
     (case r of
        Accept_failed \<Rightarrow> Some ctx
      | Accepted client_fd addr nonblocking registered \<Rightarrow>
          if \<not> nonblocking then Some ctx
          else do {
            (added, registry) \<leftarrow> tcp_client_add client_fd addr now (tl_client_registry ctx);
            let ctx1 = ctx\<lparr>tl_client_registry := registry\<rparr>;
            case added of
              None \<Rightarrow> Some ctx1
            | Some client_id \<Rightarrow>
                if \<not> registered then do {
                  registry' \<leftarrow> tcp_client_remove client_id registry;
                  Some (ctx1\<lparr>tl_client_registry := registry'\<rparr>)
                } else Some (ctx1\<lparr>tl_epoll := (tl_epoll ctx1)(client_fd \<mapsto> False), tl_total_connections := tl_total_connections ctx1 + 1\<rparr>)
          })"

section \<open>Reading\<close>

definition parse_input :: "u8 list \<Rightarrow> tls_parsers \<Rightarrow> (input_msg_t option \<times> tls_parsers) option" where
  "parse_input msg_data tls =
     (if length msg_data > 0 \<and> msg_data ! 0 = 0x4D then map_option (\<lambda>r. (r, tls)) (binary_message_parser_parse msg_data)
      else if length msg_data < MAX_READ_BUFFER then do {
        (r, p) \<leftarrow> message_parser_parse (tls_csv_parser tls) (takeWhile (\<lambda>c. c \<noteq> CHR 0x00) (map byte_char msg_data));
        Some (r, tls\<lparr>tls_csv_parser := p\<rparr>)
      } else Some (None, tls))"

definition valid_user :: "u32 \<Rightarrow> input_msg_t \<Rightarrow> bool" where
  "valid_user client_id msg =
     (case msg of INPUT_MSG_NEW_ORDER m \<Rightarrow> no_user_id m = client_id | INPUT_MSG_CANCEL m \<Rightarrow> cm_user_id m = client_id
      | INPUT_MSG_FLUSH \<Rightarrow> True | INPUT_MSG_OTHER _ \<Rightarrow> True)"

text \<open>One extracted message: parsed, checked and routed.\<close>

definition take_message :: "nat \<Rightarrow> u32 \<Rightarrow> u8 list \<Rightarrow> tcp_listener_context_t \<Rightarrow> tcp_listener_context_t option" where
  "take_message i client_id msg_data ctx = do {
     (parsed, tls) \<leftarrow> parse_input msg_data (tl_tls ctx);
     let ctx1 = ctx\<lparr>tl_tls := tls\<rparr>;
     case parsed of
       None \<Rightarrow> Some (ctx1\<lparr>tl_parse_errors := tl_parse_errors ctx1 + 1\<rparr>)
     | Some input \<Rightarrow>
         if \<not> valid_user client_id input then Some ctx1
         else do {
           envelope \<leftarrow> create_input_envelope input client_id (tc_messages_received (client_at ctx1 i));
           (ok, ctx2) \<leftarrow> route_message_to_queues envelope input ctx1;
           if ok then (let client = client_at ctx2 i in
             Some ((set_client i (client\<lparr>tc_messages_received := tc_messages_received client + 1\<rparr>) ctx2)
                     \<lparr>tl_total_messages_received := tl_total_messages_received ctx2 + 1\<rparr>))
           else Some ctx2
         }
   }"

fun read_loop :: "nat \<Rightarrow> nat \<Rightarrow> u32 \<Rightarrow> tcp_listener_context_t \<Rightarrow> tcp_listener_context_t option" where
  "read_loop 0 i client_id ctx = Some ctx"
| "read_loop (Suc k) i client_id ctx = do {
     let client = client_at ctx i;
     (result, msg, rs) \<leftarrow> framing_read_extract (tc_read_state client);
     let ctx1 = set_client i (client\<lparr>tc_read_state := rs\<rparr>) ctx;
     case (result, msg) of
       (FRAMING_NEED_MORE_DATA, _) \<Rightarrow> Some ctx1
     | (FRAMING_ERROR, _) \<Rightarrow> disconnect_client client_id ctx1
     | (FRAMING_MESSAGE_READY, Some msg_data) \<Rightarrow> do {
         assert_that (length msg_data > 0);
         ctx2 \<leftarrow> take_message i client_id msg_data ctx1;
         read_loop k i client_id ctx2
       }
     | _ \<Rightarrow> None
   }"

definition handle_client_read :: "recv_result \<Rightarrow> u32 \<Rightarrow> tcp_listener_context_t \<Rightarrow> tcp_listener_context_t option" where
  "handle_client_read r client_id ctx =
     (case tcp_client_get (tl_client_registry ctx) client_id of
        None \<Rightarrow> Some ctx
      | Some i \<Rightarrow> do {
          tls \<leftarrow> ensure_parsers_initialized (tl_tls ctx);
          let ctx1 = ctx\<lparr>tl_tls := tls\<rparr>;
          case r of
            Recv_again \<Rightarrow> Some ctx1
          | Recv_error \<Rightarrow> disconnect_client client_id ctx1
          | Recv_closed \<Rightarrow> disconnect_client client_id ctx1
          | Recv_bytes buffer \<Rightarrow> if length buffer = 0 then disconnect_client client_id ctx1 else do {
              let n = length buffer;
              let client = (client_at ctx1 i)\<lparr>tc_bytes_received := tc_bytes_received (client_at ctx1 i) + of_nat n\<rparr>;
              let ctx2 = ctx1\<lparr>tl_total_bytes_received := tl_total_bytes_received ctx1 + of_nat n\<rparr>;
              (consumed, rs) \<leftarrow> framing_read_append (tc_read_state client) buffer;
              if consumed < n then do {
                rs' \<leftarrow> framing_read_state_init rs;
                Some (set_client i (client\<lparr>tc_read_state := rs'\<rparr>) ctx2)
              } else read_loop MAX_MESSAGES_PER_READ i client_id (set_client i (client\<lparr>tc_read_state := rs\<rparr>) ctx2)
            }
        })"

section \<open>Writing\<close>

datatype write_result = Written nat | Write_again | Write_error

text \<open>What the accounting of \<open>n\<close> written bytes does, and of a message that is out.\<close>

definition note_written :: "nat \<Rightarrow> nat \<Rightarrow> u8 list \<Rightarrow> tcp_listener_context_t \<Rightarrow> tcp_listener_context_t option" where
  "note_written i n data ctx = do {
     let client = client_at ctx i;
     ws \<leftarrow> framing_write_mark_written (tc_write_state client) n;
     Some ((set_client i (client\<lparr>tc_write_state := ws, tc_bytes_sent := tc_bytes_sent client + of_nat n\<rparr>) ctx)
       \<lparr>tl_total_bytes_sent := tl_total_bytes_sent ctx + of_nat n, tl_wire := tl_wire ctx @ [(tc_socket_fd client, take n data)]\<rparr>)
   }"

definition note_sent :: "nat \<Rightarrow> tcp_listener_context_t \<Rightarrow> tcp_listener_context_t" where
  "note_sent i ctx =
     (let client = client_at ctx i in
      (set_client i (client\<lparr>tc_has_pending_write := False, tc_messages_sent := tc_messages_sent client + 1\<rparr>) ctx)
        \<lparr>tl_total_messages_sent := tl_total_messages_sent ctx + 1\<rparr>)"

definition handle_client_write :: "(u8 list \<Rightarrow> write_result) \<Rightarrow> u32 \<Rightarrow> tcp_listener_context_t \<Rightarrow> tcp_listener_context_t option" where
  "handle_client_write write client_id ctx =
     (case tcp_client_get (tl_client_registry ctx) client_id of
        None \<Rightarrow> Some ctx
      | Some i \<Rightarrow>
          if \<not> tc_has_pending_write (client_at ctx i) then Some ctx
          else do {
            data \<leftarrow> framing_write_get_remaining (tc_write_state (client_at ctx i));
            case write data of
              Write_again \<Rightarrow> Some ctx
            | Write_error \<Rightarrow> disconnect_client client_id ctx
            | Written n \<Rightarrow> do {
                ctx1 \<leftarrow> note_written i n data ctx;
                Some (if framing_write_is_complete (tc_write_state (client_at ctx1 i))
                      then epoll_mod (tc_socket_fd (client_at ctx1 i)) False (note_sent i ctx1) else ctx1)
              }
          })"

text \<open>
  The bytes of a message, \<open>[]\<close> when it cannot be formatted.  A text of 2048 characters or more would leave the buffer unwritten and read behind it; this is \<open>None\<close>.
\<close>

definition format_output :: "bool \<Rightarrow> output_msg_t \<Rightarrow> tls_parsers \<Rightarrow> (u8 list \<times> tls_parsers) option" where
  "format_output use_binary msg tls =
     (if use_binary then do {
        (r, f) \<leftarrow> binary_message_formatter_format (tls_binary_formatter tls) msg;
        Some (case r of Some d \<Rightarrow> if length d \<le> MAX_FORMAT_BUFFER then d else [] | None \<Rightarrow> [], tls\<lparr>tls_binary_formatter := f\<rparr>)
      } else do {
        (str, f) \<leftarrow> message_formatter_format (tls_csv_formatter tls) msg;
        let d = map of_char (takeWhile (\<lambda>c. c \<noteq> CHR 0x00) str);
        assert_that (length d < MAX_FORMAT_BUFFER);
        Some (d, tls\<lparr>tls_csv_formatter := f\<rparr>)
      })"

definition try_write :: "(u8 list \<Rightarrow> write_result) \<Rightarrow> nat \<Rightarrow> tcp_listener_context_t \<Rightarrow> tcp_listener_context_t option" where
  "try_write write i ctx = do {
     data \<leftarrow> framing_write_get_remaining (tc_write_state (client_at ctx i));
     let fd = tc_socket_fd (client_at ctx i);
     case write data of
       Written n \<Rightarrow>
         if n > 0 then do {
           ctx1 \<leftarrow> note_written i n data ctx;
           Some (if framing_write_is_complete (tc_write_state (client_at ctx1 i)) then note_sent i ctx1 else epoll_mod fd True ctx1)
         } else Some (epoll_mod fd True ctx)
     | Write_error \<Rightarrow> disconnect_client (tc_client_id (client_at ctx i)) ctx
     | Write_again \<Rightarrow> Some (epoll_mod fd True ctx)
   }"

definition process_output_queue :: "(u8 list \<Rightarrow> write_result) \<Rightarrow> nat \<Rightarrow> tcp_listener_context_t \<Rightarrow> tcp_listener_context_t option" where
  "process_output_queue write i ctx =
     (if \<not> tc_active (client_at ctx i) \<or> tc_has_pending_write (client_at ctx i) then Some ctx
      else let (next, registry) = tcp_client_dequeue_output i (tl_client_registry ctx); ctx1 = ctx\<lparr>tl_client_registry := registry\<rparr> in
        case next of
          None \<Rightarrow> Some ctx1
        | Some msg \<Rightarrow> do {
            (formatted, tls) \<leftarrow> format_output (lc_use_binary_output (tl_config ctx1)) msg (tl_tls ctx1);
            let ctx2 = ctx1\<lparr>tl_tls := tls\<rparr>;
            if length formatted = 0 then Some ctx2
            else do {
              (ok, ws) \<leftarrow> framing_write_state_init (tc_write_state (client_at ctx2 i)) formatted;
              let client = (client_at ctx2 i)\<lparr>tc_write_state := ws\<rparr>;
              if \<not> ok then Some (set_client i client ctx2)
              else try_write write i (set_client i (client\<lparr>tc_has_pending_write := True\<rparr>) ctx2)
            }
          })"

fun process_output_clients :: "(nat \<Rightarrow> u8 list \<Rightarrow> write_result) \<Rightarrow> nat list \<Rightarrow> tcp_listener_context_t \<Rightarrow> tcp_listener_context_t option" where
  "process_output_clients write [] ctx = Some ctx"
| "process_output_clients write (i # is) ctx = do {
     ctx1 \<leftarrow> process_output_queue (write i) i ctx;
     process_output_clients write is ctx1
   }"

definition process_output_queues :: "(nat \<Rightarrow> u8 list \<Rightarrow> write_result) \<Rightarrow> tcp_listener_context_t \<Rightarrow> tcp_listener_context_t option" where
  "process_output_queues write ctx = do {
     tls \<leftarrow> ensure_parsers_initialized (tl_tls ctx);
     process_output_clients write [0..<MAX_TCP_CLIENTS] (ctx\<lparr>tl_tls := tls\<rparr>)
   }"

section \<open>The event loop\<close>

text \<open>One event, with what the calls it leads to return.\<close>

record epoll_event =
  ev_fd :: int
  ev_error :: bool
  ev_in :: bool
  ev_out :: bool
  ev_accept :: accept_result
  ev_time :: u64
  ev_read :: recv_result
  ev_write :: "u8 list \<Rightarrow> write_result"

definition find_client :: "int \<Rightarrow> tcp_listener_context_t \<Rightarrow> nat option" where
  "find_client fd ctx = find (\<lambda>j. tc_active (client_at ctx j) \<and> tc_socket_fd (client_at ctx j) = fd) [0..<MAX_TCP_CLIENTS]"

text \<open>Whether the loop goes on, and the context.  \<open>client\<close> is a pointer: its identifier is read again before the second call.\<close>

definition dispatch_event :: "epoll_event \<Rightarrow> tcp_listener_context_t \<Rightarrow> (bool \<times> tcp_listener_context_t) option" where
  "dispatch_event ev ctx =
     (if ev_error ev then
        (if ev_fd ev = tl_listen_fd ctx then Some (False, ctx)
         else case find_client (ev_fd ev) ctx of
             None \<Rightarrow> Some (True, ctx)
           | Some j \<Rightarrow> map_option (Pair True) (disconnect_client (tc_client_id (client_at ctx j)) ctx))
      else if ev_fd ev = tl_listen_fd ctx then map_option (Pair True) (handle_new_connection (ev_accept ev) (ev_time ev) ctx)
      else case find_client (ev_fd ev) ctx of
          None \<Rightarrow> Some (True, ctx)
        | Some j \<Rightarrow> do {
            ctx1 \<leftarrow> (if ev_in ev then handle_client_read (ev_read ev) (tc_client_id (client_at ctx j)) ctx else Some ctx);
            ctx2 \<leftarrow> (if ev_out ev then handle_client_write (ev_write ev) (tc_client_id (client_at ctx1 j)) ctx1 else Some ctx1);
            Some (True, ctx2)
          })"

fun dispatch_events :: "epoll_event list \<Rightarrow> tcp_listener_context_t \<Rightarrow> (bool \<times> tcp_listener_context_t) option" where
  "dispatch_events [] ctx = Some (True, ctx)"
| "dispatch_events (ev # evs) ctx = do {
     (go, ctx1) \<leftarrow> dispatch_event ev ctx;
     if go then dispatch_events evs ctx1 else Some (False, ctx1)
   }"

datatype wait_result = Wait_interrupted | Wait_error | Wait_events "epoll_event list"

definition listener_iteration :: "(nat \<Rightarrow> u8 list \<Rightarrow> write_result) \<Rightarrow> wait_result \<Rightarrow> tcp_listener_context_t \<Rightarrow> (bool \<times> tcp_listener_context_t) option" where
  "listener_iteration write r ctx = do {
     ctx1 \<leftarrow> process_output_queues write ctx;
     case r of
       Wait_interrupted \<Rightarrow> Some (True, ctx1)
     | Wait_error \<Rightarrow> Some (False, ctx1)
     | Wait_events evs \<Rightarrow> dispatch_events evs ctx1
   }"

section \<open>Start and end of the thread\<close>

text \<open>The variables of the thread and the state of the operating system are not part of the structure that is cleared.\<close>

definition clear_context :: "tcp_listener_config_t \<Rightarrow> tcp_listener_context_t \<Rightarrow> tcp_listener_context_t" where
  "clear_context config ctx = ctx\<lparr>tl_config := config, tl_listen_fd := -1, tl_epoll_fd := -1,
     tl_total_connections := 0, tl_total_messages_received := 0, tl_total_messages_sent := 0, tl_total_bytes_received := 0,
     tl_total_bytes_sent := 0, tl_messages_to_processor := (0, 0), tl_parse_errors := 0, tl_queue_full_drops := 0\<rparr>"

definition tcp_listener_init :: "tcp_listener_config_t \<Rightarrow> tcp_client_registry_t \<Rightarrow> input_msg_envelope_t queue_t \<Rightarrow> bool \<Rightarrow>
    tcp_listener_context_t \<Rightarrow> tcp_listener_context_t" where
  "tcp_listener_init config client_registry input_queue shutdown_flag ctx =
     (clear_context config ctx)\<lparr>tl_client_registry := client_registry, tl_input_queue_0 := input_queue, tl_input_queue_1 := None,
        tl_num_input_queues := 1, tl_shutdown_flag := shutdown_flag\<rparr>"

definition tcp_listener_init_dual :: "tcp_listener_config_t \<Rightarrow> tcp_client_registry_t \<Rightarrow> input_msg_envelope_t queue_t \<Rightarrow> input_msg_envelope_t queue_t \<Rightarrow>
    bool \<Rightarrow> tcp_listener_context_t \<Rightarrow> tcp_listener_context_t" where
  "tcp_listener_init_dual config client_registry input_queue_0 input_queue_1 shutdown_flag ctx =
     (clear_context config ctx)\<lparr>tl_client_registry := client_registry, tl_input_queue_0 := input_queue_0, tl_input_queue_1 := Some input_queue_1,
        tl_num_input_queues := 2, tl_shutdown_flag := shutdown_flag\<rparr>"

definition tcp_listener_cleanup :: "tcp_listener_context_t \<Rightarrow> tcp_listener_context_t" where
  "tcp_listener_cleanup ctx =
     (let ctx1 = (if tl_epoll_fd ctx \<ge> 0 then ctx\<lparr>tl_epoll_fd := -1, tl_epoll := Map.empty\<rparr> else ctx)
      in if tl_listen_fd ctx1 \<ge> 0 then ctx1\<lparr>tl_listen_fd := -1\<rparr> else ctx1)"

definition tcp_listener_reset_stats :: "tcp_listener_context_t \<Rightarrow> tcp_listener_context_t" where
  "tcp_listener_reset_stats ctx = ctx\<lparr>tl_total_connections := 0, tl_total_messages_received := 0, tl_total_messages_sent := 0,
     tl_total_bytes_received := 0, tl_total_bytes_sent := 0, tl_parse_errors := 0, tl_queue_full_drops := 0, tl_messages_to_processor := (0, 0)\<rparr>"

text \<open>What the calls of the set-up return: descriptors, negative for a failure, and whether a call succeeded.\<close>

record setup_results =
  sr_socket :: int
  sr_reuseaddr :: bool
  sr_nonblocking :: bool
  sr_bind :: bool
  sr_listen :: bool
  sr_epoll :: int
  sr_ctl :: bool

definition setup_listening_socket :: "setup_results \<Rightarrow> tcp_listener_context_t \<Rightarrow> (bool \<times> tcp_listener_context_t) option" where
  "setup_listening_socket r ctx = do {
     assert_that (tl_listen_fd ctx = -1);
     let ctx1 = ctx\<lparr>tl_listen_fd := sr_socket r\<rparr>;
     Some (if sr_socket r < 0 then (False, ctx1)
           else if \<not> sr_reuseaddr r \<or> \<not> sr_nonblocking r \<or> \<not> sr_bind r \<or> \<not> sr_listen r then (False, ctx1\<lparr>tl_listen_fd := -1\<rparr>)
           else (True, ctx1))
   }"

definition setup_event_loop :: "setup_results \<Rightarrow> tcp_listener_context_t \<Rightarrow> (bool \<times> tcp_listener_context_t) option" where
  "setup_event_loop r ctx = do {
     assert_that (tl_listen_fd ctx \<ge> 0);
     let ctx1 = ctx\<lparr>tl_epoll_fd := sr_epoll r\<rparr>;
     Some (if sr_epoll r < 0 then (False, ctx1)
           else if \<not> sr_ctl r then (False, ctx1\<lparr>tl_epoll_fd := -1\<rparr>)
           else (True, ctx1\<lparr>tl_epoll := Map.empty(tl_listen_fd ctx \<mapsto> False)\<rparr>))
   }"

text \<open>
  The loop, given for each pass what the other threads do to the shared state before it and what the calls return; the
  list ends where the observation ends.
\<close>

fun listener_loop :: "((tcp_listener_context_t \<Rightarrow> tcp_listener_context_t) \<times> (nat \<Rightarrow> u8 list \<Rightarrow> write_result) \<times> wait_result) list \<Rightarrow>
    tcp_listener_context_t \<Rightarrow> tcp_listener_context_t option" where
  "listener_loop [] ctx = Some ctx"
| "listener_loop ((others, write, r) # passes) ctx =
     (let ctx1 = others ctx in
      if tl_shutdown_flag ctx1 then Some (tcp_listener_cleanup ctx1)
      else do {
        (go, ctx2) \<leftarrow> listener_iteration write r ctx1;
        if go then listener_loop passes ctx2 else Some (tcp_listener_cleanup ctx2)
      })"

definition tcp_listener_thread :: "setup_results \<Rightarrow> ((tcp_listener_context_t \<Rightarrow> tcp_listener_context_t) \<times> (nat \<Rightarrow> u8 list \<Rightarrow> write_result) \<times> wait_result) list \<Rightarrow>
    tcp_listener_context_t \<Rightarrow> tcp_listener_context_t option" where
  "tcp_listener_thread sr passes ctx = do {
     (ok, ctx1) \<leftarrow> setup_listening_socket sr ctx;
     if \<not> ok then Some (ctx1\<lparr>tl_shutdown_flag := True\<rparr>)
     else do {
       (ok', ctx2) \<leftarrow> setup_event_loop sr ctx1;
       if \<not> ok' then Some (ctx2\<lparr>tl_shutdown_flag := True\<rparr>)
       else listener_loop passes ctx2
     }
   }"

end
