(* ===== verification/ME_Tcp_Input.thy ===== *)
theory ME_Tcp_Input
  imports ME_Tcp_Listener ME_Unified_Requests
begin

text \<open>
  The input side of the TCP mode at work: which processors get a request, what a read can do to the listener whatever the
  bytes are, and what becomes of a stream of framed requests.
\<close>

section \<open>The queues of the processors\<close>

definition inbox :: "tcp_listener_context_t \<Rightarrow> bool \<Rightarrow> input_msg_envelope_t list" where
  "inbox ctx second = (if second then (case tl_input_queue_1 ctx of None \<Rightarrow> [] | Some q \<Rightarrow> contents q) else contents (tl_input_queue_0 ctx))"

definition dual :: "tcp_listener_context_t \<Rightarrow> bool" where
  "dual ctx \<longleftrightarrow> tl_num_input_queues ctx \<noteq> 1"

definition queues_ok :: "tcp_listener_context_t \<Rightarrow> bool" where
  "queues_ok ctx \<longleftrightarrow> queue_ok (tl_input_queue_0 ctx) \<and> second_ok (\<not> dual ctx) (tl_input_queue_1 ctx)"

text \<open>The processors a request is for: in the dual mode both get what has no symbol to decide by.\<close>

definition goes_to :: "bool \<Rightarrow> input_msg_t \<Rightarrow> bool \<Rightarrow> bool" where
  "goes_to two m second \<longleftrightarrow>
     (if \<not> two then \<not> second
      else case get_symbol_from_input_msg m of None \<Rightarrow> True | Some s \<Rightarrow> letter (first_char s) \<longrightarrow> second = n_to_z (first_char s))"

definition has_room :: "tcp_listener_context_t \<Rightarrow> bool \<Rightarrow> bool" where
  "has_room ctx second \<longleftrightarrow> length (inbox ctx second) < LOCKFREE_QUEUE_SIZE - 1"

text \<open>Nothing but the queues and their counters differs.\<close>

definition only_queues :: "tcp_listener_context_t \<Rightarrow> tcp_listener_context_t \<Rightarrow> bool" where
  "only_queues ctx ctx' \<longleftrightarrow> (\<exists>q0 q1 n d. ctx' = ctx\<lparr>tl_input_queue_0 := q0, tl_input_queue_1 := q1, tl_messages_to_processor := n, tl_queue_full_drops := d\<rparr>)"

lemma only_queuesI:
  "ctx' = ctx\<lparr>tl_input_queue_0 := tl_input_queue_0 ctx', tl_input_queue_1 := tl_input_queue_1 ctx', tl_messages_to_processor := tl_messages_to_processor ctx',
     tl_queue_full_drops := tl_queue_full_drops ctx'\<rparr> \<Longrightarrow> only_queues ctx ctx'"
  unfolding only_queues_def by blast

lemma only_queues_trans: "only_queues a b \<Longrightarrow> only_queues b c \<Longrightarrow> only_queues a c"
  unfolding only_queues_def by force

lemma only_queues_same:
  assumes "only_queues a b"
  shows "tl_client_registry b = tl_client_registry a" "tl_epoll b = tl_epoll a" "tl_wire b = tl_wire a" "tl_config b = tl_config a"
    "tl_listen_fd b = tl_listen_fd a" "dual b = dual a" "tl_num_input_queues b = tl_num_input_queues a" "tl_tls b = tl_tls a"
    "tl_total_messages_received b = tl_total_messages_received a" "tl_shutdown_flag b = tl_shutdown_flag a"
  using assms unfolding only_queues_def dual_def by auto

lemma count_only_queues: "only_queues ctx (count_to second ctx)" "only_queues ctx (count_drop ctx)"
  by (rule only_queuesI, simp add: count_to_def count_drop_def)+

lemma count_inbox [simp]: "inbox (count_to second ctx) = inbox ctx" "inbox (count_drop ctx) = inbox ctx"
    "queues_ok (count_to second ctx) = queues_ok ctx" "queues_ok (count_drop ctx) = queues_ok ctx"
  by (simp_all add: fun_eq_iff inbox_def count_to_def count_drop_def queues_ok_def dual_def)

lemma enqueue_to_ok:
  assumes ok: "queues_ok ctx" and "second \<longrightarrow> dual ctx"
  obtains ctx' where "enqueue_to second e ctx = Some (has_room ctx second, ctx')" "queues_ok ctx'" "only_queues ctx ctx'"
    "inbox ctx' = (inbox ctx)(second := put e (inbox ctx second))"
proof (cases second)
  case False
  obtain b q where e: "queue_enqueue (tl_input_queue_0 ctx) e = (b, q)" by fastforce
  have "queue_ok (tl_input_queue_0 ctx)" using ok by (simp add: queues_ok_def)
  note q = queue_enqueue_ok [OF this e] enqueue_put [OF this, of e, unfolded e]
  show thesis
  proof (rule that [of "ctx\<lparr>tl_input_queue_0 := q\<rparr>"])
    show "enqueue_to second e ctx = Some (has_room ctx second, ctx\<lparr>tl_input_queue_0 := q\<rparr>)"
      using False e q(1) by (simp add: enqueue_to_def has_room_def inbox_def)
    show "queues_ok (ctx\<lparr>tl_input_queue_0 := q\<rparr>)" using ok q by (simp add: queues_ok_def dual_def)
    show "only_queues ctx (ctx\<lparr>tl_input_queue_0 := q\<rparr>)" by (rule only_queuesI) simp
    show "inbox (ctx\<lparr>tl_input_queue_0 := q\<rparr>) = (inbox ctx)(second := put e (inbox ctx second))"
      using False q by (simp add: fun_eq_iff inbox_def)
  qed
next
  case True
  with assms obtain q1 where q1: "tl_input_queue_1 ctx = Some q1" "queue_ok q1"
    by (auto simp: queues_ok_def second_ok_def split: option.splits)
  obtain b q where e: "queue_enqueue q1 e = (b, q)" by fastforce
  note q = queue_enqueue_ok [OF q1(2) e] enqueue_put [OF q1(2), of e, unfolded e]
  show thesis
  proof (rule that [of "ctx\<lparr>tl_input_queue_1 := Some q\<rparr>"])
    show "enqueue_to second e ctx = Some (has_room ctx second, ctx\<lparr>tl_input_queue_1 := Some q\<rparr>)"
      using True e q(1) by (simp add: enqueue_to_def has_room_def inbox_def q1)
    show "queues_ok (ctx\<lparr>tl_input_queue_1 := Some q\<rparr>)" using ok q by (simp add: queues_ok_def dual_def)
    show "only_queues ctx (ctx\<lparr>tl_input_queue_1 := Some q\<rparr>)" by (rule only_queuesI) simp
    show "inbox (ctx\<lparr>tl_input_queue_1 := Some q\<rparr>) = (inbox ctx)(second := put e (inbox ctx second))"
      using True q by (simp add: fun_eq_iff inbox_def q1)
  qed
qed

definition delivered_to :: "input_msg_t \<Rightarrow> input_msg_envelope_t \<Rightarrow> tcp_listener_context_t \<Rightarrow> bool \<Rightarrow> input_msg_envelope_t list" where
  "delivered_to m e ctx second = (if goes_to (dual ctx) m second then put e (inbox ctx second) else inbox ctx second)"

lemma symbol_choice:
  "(m = INPUT_MSG_FLUSH \<or> \<not> symbol_is_valid (get_symbol_from_input_msg m)) \<longleftrightarrow> (case get_symbol_from_input_msg m of None \<Rightarrow> True | Some s \<Rightarrow> \<not> letter (first_char s))"
  by (cases m) (simp_all add: get_symbol_from_input_msg_def symbol_is_valid_char symbol_char_is_valid_eq, simp_all add: symbol_is_valid_def)

theorem route_message_to_queues_ok:
  assumes ok: "queues_ok ctx"
  obtains ctx' where "route_message_to_queues e m ctx = Some (\<forall>second. goes_to (dual ctx) m second \<longrightarrow> has_room ctx second, ctx')"
    "queues_ok ctx'" "only_queues ctx ctx'" "inbox ctx' = delivered_to m e ctx"
proof (cases "dual ctx")
  case False
  then obtain c1 where c1: "enqueue_to False e ctx = Some (has_room ctx False, c1)" "queues_ok c1" "only_queues ctx c1"
    "inbox c1 = (inbox ctx)(False := put e (inbox ctx False))" using enqueue_to_ok [OF ok, of False e] by blast
  let ?c = "if has_room ctx False then count_to False c1 else count_drop c1"
  have "only_queues ctx ?c" using only_queues_trans [OF c1(3)] count_only_queues [of c1] by simp
  moreover have "inbox ?c = delivered_to m e ctx" using False by (simp add: c1(4) delivered_to_def goes_to_def fun_eq_iff)
  ultimately show thesis
    using False c1(1,2) by (intro that [of ?c]) (auto simp: route_message_to_queues_def dual_def goes_to_def)
next
  case True
  have one: "tl_num_input_queues ctx \<noteq> 1" using True by (simp add: dual_def)
  show thesis
  proof (cases "case get_symbol_from_input_msg m of None \<Rightarrow> True | Some s \<Rightarrow> \<not> letter (first_char s)")
    case all: True
    then have g: "goes_to (dual ctx) m second" for second using True by (auto simp: goes_to_def split: option.splits)
    obtain c1 where c1: "enqueue_to False e ctx = Some (has_room ctx False, c1)" "queues_ok c1" "only_queues ctx c1"
      "inbox c1 = (inbox ctx)(False := put e (inbox ctx False))" using enqueue_to_ok [OF ok, of False e] by blast
    have "True \<longrightarrow> dual c1" using True only_queues_same(6) [OF c1(3)] by simp
    from enqueue_to_ok [OF c1(2) this, of e] obtain c2 where c2: "enqueue_to True e c1 = Some (has_room c1 True, c2)" "queues_ok c2" "only_queues c1 c2"
      "inbox c2 = (inbox c1)(True := put e (inbox c1 True))" by blast
    have r: "has_room c1 True = has_room ctx True" by (simp add: has_room_def c1(4))
    define c3 where "c3 = (if has_room ctx False then count_to False c2 else c2)"
    define c4 where "c4 = (if has_room ctx True then count_to True c3 else c3)"
    define c5 where "c5 = (if \<not> has_room ctx False \<or> \<not> has_room ctx True then count_drop c4 else c4)"
    have o2: "only_queues ctx c2" using only_queues_trans [OF c1(3) c2(3)] .
    have o3: "only_queues ctx c3" using o2 only_queues_trans [OF o2 count_only_queues(1)] by (simp add: c3_def)
    have o4: "only_queues ctx c4" using o3 only_queues_trans [OF o3 count_only_queues(1)] by (simp add: c4_def)
    have o5: "only_queues ctx c5" using o4 only_queues_trans [OF o4 count_only_queues(2)] by (simp add: c5_def)
    have i: "inbox c5 = inbox c2" "queues_ok c5 = queues_ok c2" by (simp_all add: c3_def c4_def c5_def)
    have "route_message_to_queues e m ctx = Some (\<forall>second. goes_to (dual ctx) m second \<longrightarrow> has_room ctx second, c5)"
      unfolding route_message_to_queues_def Let_def using one all symbol_choice [of m] c1(1) c2(1) g
      by (simp add: r c3_def c4_def c5_def Let_def all_bool_eq conj_commute)
    moreover have "inbox c5 = delivered_to m e ctx" by (simp add: i c2(4) c1(4) delivered_to_def g fun_eq_iff)
    ultimately show thesis using that [of c5] i c2(2) o5 by simp
  next
    case False
    then obtain s where s: "get_symbol_from_input_msg m = Some s" "letter (first_char s)" by (auto split: option.splits)
    let ?b = "n_to_z (first_char s)"
    have g: "goes_to (dual ctx) m second \<longleftrightarrow> second = ?b" for second using True s by (auto simp: goes_to_def)
    have p: "get_processor_id_for_symbol (Some s) = Some (if ?b then 1 else 0)" by (simp add: get_processor_id_for_symbol_char get_processor_id_for_char_eq)
    have "?b \<longrightarrow> dual ctx" using True by simp
    from enqueue_to_ok [OF ok this, of e] obtain c1 where c1: "enqueue_to ?b e ctx = Some (has_room ctx ?b, c1)" "queues_ok c1" "only_queues ctx c1"
      "inbox c1 = (inbox ctx)(?b := put e (inbox ctx ?b))" by blast
    let ?c = "if has_room ctx ?b then count_to ?b c1 else count_drop c1"
    have "only_queues ctx ?c" using only_queues_trans [OF c1(3)] count_only_queues [of c1] by simp
    moreover have "inbox ?c = delivered_to m e ctx" by (simp add: c1(4) delivered_to_def g fun_eq_iff)
    moreover have "route_message_to_queues e m ctx = Some (\<forall>second. goes_to (dual ctx) m second \<longrightarrow> has_room ctx second, ?c)"
      unfolding route_message_to_queues_def Let_def using one False symbol_choice [of m] c1(1) s(1)
      by (cases ?b) (simp_all add: p asserts g ex_bool_eq)
    ultimately show thesis using c1(2) by (intro that [of ?c]) auto
  qed
qed

section \<open>A read, whatever the bytes\<close>

definition same_world :: "tcp_listener_context_t \<Rightarrow> tcp_listener_context_t \<Rightarrow> bool" where
  "same_world ctx ctx' \<longleftrightarrow> tl_epoll ctx' = tl_epoll ctx \<and> tl_wire ctx' = tl_wire ctx \<and> tl_config ctx' = tl_config ctx \<and> tl_listen_fd ctx' = tl_listen_fd ctx
     \<and> tl_num_input_queues ctx' = tl_num_input_queues ctx \<and> tl_shutdown_flag ctx' = tl_shutdown_flag ctx"

text \<open>What arrives in the queues names the client it came from, and no other user.\<close>

definition stamped :: "u32 \<Rightarrow> tcp_listener_context_t \<Rightarrow> tcp_listener_context_t \<Rightarrow> bool" where
  "stamped c ctx ctx' \<longleftrightarrow> (\<forall>second. \<exists>new. inbox ctx' second = inbox ctx second @ new
     \<and> (\<forall>e\<in>set new. ie_client_id e = c \<and> valid_user c (ie_msg e) \<and> goes_to (dual ctx) (ie_msg e) second))"

definition read_effect :: "nat \<Rightarrow> u32 \<Rightarrow> tcp_listener_context_t \<Rightarrow> tcp_listener_context_t \<Rightarrow> bool" where
  "read_effect i c ctx ctx' \<longleftrightarrow> queues_ok ctx' \<and> same_world ctx ctx' \<and> stamped c ctx ctx'
     \<and> (\<exists>rs n b. read_ok rs \<and> tl_client_registry ctx' =
          put_client i ((client_at ctx i)\<lparr>tc_read_state := rs, tc_messages_received := n, tc_bytes_received := b\<rparr>) (tl_client_registry ctx))"

lemma put_client_twice [simp]: "put_client i t (put_client i t' reg) = put_client i t reg"
  by (simp add: put_client_def)

lemma put_client_same [simp]: "put_client i (tg_clients reg i) reg = reg"
  by (simp add: put_client_def)

lemma set_client_simps [simp]:
  "inbox (set_client i t ctx) = inbox ctx" "queues_ok (set_client i t ctx) = queues_ok ctx" "client_at (set_client i t ctx) i = t"
  "dual (set_client i t ctx) = dual ctx" "tl_client_registry (set_client i t ctx) = put_client i t (tl_client_registry ctx)"
  "tl_tls (set_client i t ctx) = tl_tls ctx" "tl_config (set_client i t ctx) = tl_config ctx" "tl_epoll (set_client i t ctx) = tl_epoll ctx"
  "tl_wire (set_client i t ctx) = tl_wire ctx" "has_room (set_client i t ctx) = has_room ctx" "same_world ctx' (set_client i t ctx) = same_world ctx' ctx"
  by (simp_all add: set_client_def fun_eq_iff inbox_def queues_ok_def dual_def client_at_def has_room_def same_world_def)

lemma context_simps [simp]:
  "inbox (ctx\<lparr>tl_tls := t\<rparr>) = inbox ctx" "queues_ok (ctx\<lparr>tl_tls := t\<rparr>) = queues_ok ctx" "client_at (ctx\<lparr>tl_tls := t\<rparr>) i = client_at ctx i" "dual (ctx\<lparr>tl_tls := t\<rparr>) = dual ctx"
  "inbox (ctx\<lparr>tl_parse_errors := n\<rparr>) = inbox ctx" "queues_ok (ctx\<lparr>tl_parse_errors := n\<rparr>) = queues_ok ctx" "client_at (ctx\<lparr>tl_parse_errors := n\<rparr>) i = client_at ctx i"
  "inbox (ctx\<lparr>tl_total_messages_received := n\<rparr>) = inbox ctx" "queues_ok (ctx\<lparr>tl_total_messages_received := n\<rparr>) = queues_ok ctx"
  "inbox (ctx\<lparr>tl_total_bytes_received := n\<rparr>) = inbox ctx" "queues_ok (ctx\<lparr>tl_total_bytes_received := n\<rparr>) = queues_ok ctx"
  "client_at (ctx\<lparr>tl_total_messages_received := n\<rparr>) i = client_at ctx i" "client_at (ctx\<lparr>tl_total_bytes_received := n\<rparr>) i = client_at ctx i"
  "dual (ctx\<lparr>tl_parse_errors := n\<rparr>) = dual ctx" "dual (ctx\<lparr>tl_total_messages_received := n\<rparr>) = dual ctx" "dual (ctx\<lparr>tl_total_bytes_received := n\<rparr>) = dual ctx"
  "has_room (ctx\<lparr>tl_tls := t\<rparr>) = has_room ctx"
  by (simp_all add: fun_eq_iff inbox_def queues_ok_def dual_def client_at_def has_room_def)

lemma same_world_simps [simp]:
  "same_world ctx ctx" "same_world ctx (ctx'\<lparr>tl_tls := t\<rparr>) = same_world ctx ctx'" "same_world ctx (ctx'\<lparr>tl_parse_errors := n\<rparr>) = same_world ctx ctx'"
  "same_world ctx (ctx'\<lparr>tl_total_messages_received := n\<rparr>) = same_world ctx ctx'" "same_world ctx (ctx'\<lparr>tl_total_bytes_received := n\<rparr>) = same_world ctx ctx'"
  by (simp_all add: same_world_def)

lemma same_world_dual: "same_world ctx ctx' \<Longrightarrow> dual ctx' = dual ctx"
  by (simp add: same_world_def dual_def)

lemma same_world_trans: "same_world a b \<Longrightarrow> same_world b c \<Longrightarrow> same_world a c"
  by (simp add: same_world_def)

lemma stamped_refl: "inbox ctx' = inbox ctx \<Longrightarrow> stamped c ctx ctx'"
  by (auto simp: stamped_def)

lemma stamped_trans:
  assumes "stamped c a b" and "stamped c b d" and "dual b = dual a"
  shows "stamped c a d"
  unfolding stamped_def
proof
  fix second
  from assms(1) obtain n1 where "inbox b second = inbox a second @ n1"
    "\<forall>e\<in>set n1. ie_client_id e = c \<and> valid_user c (ie_msg e) \<and> goes_to (dual a) (ie_msg e) second" unfolding stamped_def by blast
  moreover from assms(2) obtain n2 where "inbox d second = inbox b second @ n2"
    "\<forall>e\<in>set n2. ie_client_id e = c \<and> valid_user c (ie_msg e) \<and> goes_to (dual a) (ie_msg e) second" unfolding stamped_def assms(3) by blast
  ultimately show "\<exists>new. inbox d second = inbox a second @ new
     \<and> (\<forall>e\<in>set new. ie_client_id e = c \<and> valid_user c (ie_msg e) \<and> goes_to (dual a) (ie_msg e) second)"
    by (intro exI [of _ "n1 @ n2"]) auto
qed

lemma read_effect_trans:
  assumes "read_effect i c a b" and "read_effect i c b d"
  shows "read_effect i c a d"
proof -
  from assms(1) obtain rs n k where r: "tl_client_registry b = put_client i ((client_at a i)\<lparr>tc_read_state := rs, tc_messages_received := n, tc_bytes_received := k\<rparr>) (tl_client_registry a)"
    unfolding read_effect_def by blast
  then have "client_at b i = (client_at a i)\<lparr>tc_read_state := rs, tc_messages_received := n, tc_bytes_received := k\<rparr>" by (simp add: client_at_def)
  with r assms(2) have "\<exists>rs n k. read_ok rs \<and> tl_client_registry d =
     put_client i ((client_at a i)\<lparr>tc_read_state := rs, tc_messages_received := n, tc_bytes_received := k\<rparr>) (tl_client_registry a)"
    unfolding read_effect_def by auto
  with assms show ?thesis unfolding read_effect_def
    by (meson same_world_trans stamped_trans same_world_dual)
qed

lemma read_effectI:
  assumes "queues_ok ctx" and "read_ok rs" and "same_world ctx ctx'" and "queues_ok ctx'" and "inbox ctx' = inbox ctx"
    and "tl_client_registry ctx' = put_client i ((client_at ctx i)\<lparr>tc_read_state := rs, tc_messages_received := n, tc_bytes_received := b\<rparr>) (tl_client_registry ctx)"
  shows "read_effect i c ctx ctx'"
  unfolding read_effect_def using assms stamped_refl by blast

text \<open>A message that stops the program: only the text of a cancel can.\<close>

definition aborting :: "u8 list \<Rightarrow> bool" where
  "aborting bs \<longleftrightarrow> (\<exists>tls. parse_input bs tls = None)"

lemma aborting_cancel:
  assumes "aborting bs"
  shows "hd (trim_whitespace (take (MAX_LINE_LENGTH - 1) (takeWhile (\<lambda>c. c \<noteq> CHR 0x00) (map byte_char bs)))) \<in> {CHR ''C'', CHR ''c''}"
proof -
  from assms obtain tls where "parse_input bs tls = None" by (auto simp: aborting_def)
  then have "message_parser_parse (tls_csv_parser tls) (takeWhile (\<lambda>c. c \<noteq> CHR 0x00) (map byte_char bs)) = None"
    using parser_total [of bs] by (auto simp: parse_input_def bind_eq_None_conv case_prod_unfold split: if_splits)
  with csv_parser_total show ?thesis by blast
qed

lemma parse_input_type:
  assumes "parse_input bs tls = Some (Some m, tls')"
  shows "input_msg_type_is_valid (input_msg_type m)"
proof -
  have "m \<noteq> INPUT_MSG_OTHER t" for t
  proof (cases "0 < length bs \<and> bs ! 0 = 0x4D")
    case True
    with assms have "binary_message_parser_parse bs = Some (Some m)" by (simp add: parse_input_def)
    from parser_accepts [OF this] show ?thesis by auto
  next
    case False
    with assms obtain p' where p: "message_parser_parse (tls_csv_parser tls) (takeWhile (\<lambda>c. c \<noteq> CHR 0x00) (map byte_char bs)) = Some (Some m, p')"
      by (auto simp: parse_input_def bind_eq_Some_conv split: if_splits)
    have "c_string (takeWhile (\<lambda>c. c \<noteq> CHR 0x00) (map byte_char bs))" by (auto simp: c_string_def dest: set_takeWhileD)
    from csv_parser_accepts [OF p this] show ?thesis by auto
  qed
  then show ?thesis by (cases m) (auto simp: input_msg_type_is_valid_def)
qed

lemma delivered_to_new: "\<exists>new. delivered_to m e ctx second = inbox ctx second @ new \<and> set new \<subseteq> {e} \<and> (new \<noteq> [] \<longrightarrow> goes_to (dual ctx) m second)"
  by (cases "goes_to (dual ctx) m second"; cases "length (inbox ctx second) < LOCKFREE_QUEUE_SIZE - 1") (simp_all add: delivered_to_def put_def)

definition envelope :: "u32 \<Rightarrow> u64 \<Rightarrow> input_msg_t \<Rightarrow> input_msg_envelope_t" where
  "envelope c n m = \<lparr>ie_msg = m, ie_client_id = c, ie_client_addr = \<lparr>ua_addr = 0, ua_port = 0, ua_pad = 0\<rparr>, ie_sequence = n\<rparr>"

lemma envelope_simps [simp]: "ie_msg (envelope c n m) = m" "ie_client_id (envelope c n m) = c" "ie_sequence (envelope c n m) = n"
  by (simp_all add: envelope_def)

lemma take_message_valid:
  assumes ok: "queues_ok ctx" and parse: "parse_input bs (tl_tls ctx) = Some (Some m, tls)" and v: "valid_user c m"
  shows "\<exists>ctx'. take_message i c bs ctx = Some ctx' \<and> same_world ctx ctx' \<and> queues_ok ctx' \<and> tl_tls ctx' = tls
     \<and> inbox ctx' = delivered_to m (envelope c (tc_messages_received (client_at ctx i)) m) ctx
     \<and> tl_client_registry ctx' = put_client i ((client_at ctx i)\<lparr>tc_messages_received := tc_messages_received (client_at ctx i)
          + (if \<forall>second. goes_to (dual ctx) m second \<longrightarrow> has_room ctx second then 1 else 0)\<rparr>) (tl_client_registry ctx)"
proof -
  let ?t = "client_at ctx i" and ?e = "envelope c (tc_messages_received (client_at ctx i)) m"
  let ?b = "\<forall>second. goes_to (dual ctx) m second \<longrightarrow> has_room ctx second"
  define c1 where "c1 = ctx\<lparr>tl_tls := tls\<rparr>"
  have ok1: "queues_ok c1" "dual c1 = dual ctx" "has_room c1 = has_room ctx" "delivered_to m ?e c1 = delivered_to m ?e ctx"
    using ok by (simp_all add: c1_def delivered_to_def fun_eq_iff)
  have e: "create_input_envelope m c (tc_messages_received ?t) = Some ?e"
    using parse_input_type [OF parse] by (simp add: create_input_envelope_def envelope_def)
  from route_message_to_queues_ok [OF ok1(1), of ?e m] obtain c2 where c2:
    "route_message_to_queues ?e m c1 = Some (?b, c2)" "queues_ok c2" "only_queues c1 c2" "inbox c2 = delivered_to m ?e ctx" unfolding ok1 by blast
  note same = only_queues_same [OF c2(3)]
  have t2: "client_at c2 i = ?t" using same(1) by (simp add: client_at_def c1_def)
  define c3 where "c3 = (if ?b then (set_client i (?t\<lparr>tc_messages_received := tc_messages_received ?t + 1\<rparr>) c2)\<lparr>tl_total_messages_received := tl_total_messages_received c2 + 1\<rparr> else c2)"
  have "take_message i c bs ctx = Some c3"
    using parse v e c2(1) t2 by (simp add: take_message_def c1_def [symmetric] c3_def split del: if_split) (auto simp: Let_def)
  moreover have "same_world ctx c3" using same by (simp add: c3_def same_world_def set_client_def c1_def)
  moreover have "queues_ok c3" "inbox c3 = delivered_to m ?e ctx" "tl_tls c3 = tls" using c2 same(8) by (simp_all add: c3_def c1_def)
  moreover have "tl_client_registry c3 = put_client i (?t\<lparr>tc_messages_received := tc_messages_received ?t + (if ?b then 1 else 0)\<rparr>) (tl_client_registry ctx)"
    using same(1) by (auto simp: c3_def c1_def client_at_def)
  ultimately show ?thesis by blast
qed

lemma take_message_skip:
  assumes parse: "parse_input bs (tl_tls ctx) = Some (r, tls)" and r: "\<forall>m. r = Some m \<longrightarrow> \<not> valid_user c m"
  shows "take_message i c bs ctx = Some (if r = None then ctx\<lparr>tl_tls := tls, tl_parse_errors := tl_parse_errors ctx + 1\<rparr> else ctx\<lparr>tl_tls := tls\<rparr>)"
  using assms by (auto simp: take_message_def split: option.splits)

lemma client_self: "put_client i (client_at ctx i) (tl_client_registry ctx) = tl_client_registry ctx"
  by (simp add: client_at_def)

lemma take_message_effect:
  assumes ok: "queues_ok ctx" and rs: "read_ok (tc_read_state (client_at ctx i))" and p: "parse_input bs (tl_tls ctx) \<noteq> None"
  shows "\<exists>ctx'. take_message i c bs ctx = Some ctx' \<and> read_effect i c ctx ctx' \<and> tc_read_state (client_at ctx' i) = tc_read_state (client_at ctx i)"
proof -
  let ?t = "client_at ctx i"
  from p obtain r tls where tls: "parse_input bs (tl_tls ctx) = Some (r, tls)" by fastforce
  have same: "?t\<lparr>tc_read_state := tc_read_state ?t, tc_messages_received := n, tc_bytes_received := tc_bytes_received ?t\<rparr> = ?t\<lparr>tc_messages_received := n\<rparr>" for n by simp
  show ?thesis
  proof (cases "\<exists>m. r = Some m \<and> valid_user c m")
    case False
    let ?c = "if r = None then ctx\<lparr>tl_tls := tls, tl_parse_errors := tl_parse_errors ctx + 1\<rparr> else ctx\<lparr>tl_tls := tls\<rparr>"
    have "read_effect i c ctx ?c"
      using ok client_self [of i ctx]
      by (intro read_effectI [OF ok rs, where n = "tc_messages_received ?t" and b = "tc_bytes_received ?t"]) auto
    moreover have "take_message i c bs ctx = Some ?c" using False tls by (intro take_message_skip) auto
    ultimately show ?thesis by (intro exI [of _ ?c]) simp
  next
    case True
    then obtain m where m: "r = Some m" "valid_user c m" by blast
    from take_message_valid [OF ok tls [unfolded m(1)] m(2)] obtain c' n where c': "take_message i c bs ctx = Some c'" "same_world ctx c'" "queues_ok c'"
      "inbox c' = delivered_to m (envelope c (tc_messages_received ?t) m) ctx"
      "tl_client_registry c' = put_client i (?t\<lparr>tc_messages_received := n\<rparr>) (tl_client_registry ctx)" by blast
    have "stamped c ctx c'" unfolding stamped_def
    proof
      fix second
      from delivered_to_new [of m "envelope c (tc_messages_received ?t) m" ctx second] c'(4) obtain new where
        "inbox c' second = inbox ctx second @ new" "set new \<subseteq> {envelope c (tc_messages_received ?t) m}" "new \<noteq> [] \<longrightarrow> goes_to (dual ctx) m second" by auto
      then show "\<exists>new. inbox c' second = inbox ctx second @ new \<and> (\<forall>e\<in>set new. ie_client_id e = c \<and> valid_user c (ie_msg e) \<and> goes_to (dual ctx) (ie_msg e) second)"
        using m by (intro exI [of _ new]) auto
    qed
    with c' rs have "read_effect i c ctx c'" unfolding read_effect_def same [symmetric] by blast
    with c'(1,5) show ?thesis by (intro exI [of _ c']) (simp add: client_at_def)
  qed
qed

text \<open>The loop ends in one of three ways: with a context, by disconnecting the client, or at a message that stops the program.\<close>

lemma framing_read_extract_cases:
  assumes "read_ok st"
  obtains "framing_read_extract st = Some (FRAMING_NEED_MORE_DATA, None, st)"
  | st' where "framing_read_extract st = Some (FRAMING_ERROR, None, st')" "read_ok st'"
  | m rest st' where "framing_read_extract st = Some (FRAMING_MESSAGE_READY, Some m, st')" "read_ok st'" "msg_ok m" "pending st = frame m @ rest" "pending st' = rest"
proof (cases "length (pending st) < 4")
  case True
  with extract_more [OF assms] that(1) show thesis by simp
next
  case False
  let ?n = "unat (header (pending st))"
  show thesis
  proof (cases "?n = 0 \<or> ?n > MAX_FRAMED_MESSAGE_SIZE")
    case True
    with extract_error [OF assms _ True] False that(2) show thesis by force
  next
    case in_range: False
    show thesis
    proof (cases "length (pending st) < 4 + ?n")
      case True
      with extract_more [OF assms] in_range that(1) show thesis by (simp add: Let_def)
    next
      case enough: False
      define m where "m = take ?n (drop 4 (pending st))"
      have len: "length m = ?n" using enough by (simp add: m_def)
      have "be32 (header (pending st)) = take 4 (pending st)" using False be32_un_be32 [of "take 4 (pending st)"] by (simp add: header_def un_be32_take)
      then have "pending st = frame m @ drop (4 + ?n) (pending st)"
        by (simp add: frame_def len, metis append_take_drop_id drop_drop m_def add.commute append_assoc)
      moreover have "msg_ok m" using in_range len by (auto simp: msg_ok_def)
      ultimately show thesis using extract_ready [OF assms] that(3) by blast
    qed
  qed
qed

text \<open>The messages at the front of a buffer.\<close>

definition holds_message :: "u8 list \<Rightarrow> u8 list \<Rightarrow> bool" where
  "holds_message buf m \<longleftrightarrow> (\<exists>ms rest. (\<forall>x\<in>set (ms @ [m]). msg_ok x) \<and> buf = concat (map frame (ms @ [m])) @ rest)"

lemma holds_message_first: "msg_ok m \<Longrightarrow> holds_message (frame m @ rest) m"
  unfolding holds_message_def by (intro exI [of _ "[]"] exI [of _ rest]) simp

lemma holds_message_later:
  assumes "msg_ok m" and "holds_message rest m'"
  shows "holds_message (frame m @ rest) m'"
proof -
  from assms(2) obtain ms r where "\<forall>x\<in>set (ms @ [m']). msg_ok x" "rest = concat (map frame (ms @ [m'])) @ r" unfolding holds_message_def by blast
  with assms(1) show ?thesis unfolding holds_message_def by (intro exI [of _ "m # ms"] exI [of _ r]) auto
qed

theorem read_loop_effect:
  assumes "queues_ok ctx" and "read_ok (tc_read_state (client_at ctx i))"
  shows "(\<exists>ctx1. read_effect i c ctx ctx1 \<and> (read_loop k i c ctx = Some ctx1 \<or> read_loop k i c ctx = disconnect_client c ctx1))
     \<or> read_loop k i c ctx = None \<and> (\<exists>m. holds_message (pending (tc_read_state (client_at ctx i))) m \<and> aborting m)"
  using assms
proof (induction k arbitrary: ctx)
  case 0
  have "read_effect i c ctx ctx"
    using 0 client_self [of i ctx]
    by (intro read_effectI [OF 0, where n = "tc_messages_received (client_at ctx i)" and b = "tc_bytes_received (client_at ctx i)"]) simp_all
  then show ?case by auto
next
  case (Suc k)
  let ?t = "client_at ctx i"
  have eff: "read_effect i c ctx (set_client i (?t\<lparr>tc_read_state := st'\<rparr>) ctx)" if "read_ok st'" for st'
    using Suc.prems(1) by (intro read_effectI [OF Suc.prems(1) that, where n = "tc_messages_received ?t" and b = "tc_bytes_received ?t"]) simp_all
  from Suc.prems(2) show ?case
  proof (cases rule: framing_read_extract_cases)
    case 1
    with eff [OF Suc.prems(2)] show ?thesis by (intro disjI1 exI [of _ "set_client i (?t\<lparr>tc_read_state := tc_read_state ?t\<rparr>) ctx"]) simp
  next
    case (2 st')
    with eff [OF 2(2)] show ?thesis by (intro disjI1 exI [of _ "set_client i (?t\<lparr>tc_read_state := st'\<rparr>) ctx"]) simp
  next
    case (3 m rest st')
    define c1 where "c1 = set_client i (?t\<lparr>tc_read_state := st'\<rparr>) ctx"
    have c1: "queues_ok c1" "read_ok (tc_read_state (client_at c1 i))" using Suc.prems 3(2) by (simp_all add: c1_def)
    have m: "m \<noteq> []" using 3(3) by (auto simp: msg_ok_def)
    have step: "read_loop (Suc k) i c ctx = Option.bind (take_message i c m c1) (read_loop k i c)"
      using 3(1) m by (simp add: c1_def asserts)
    show ?thesis
    proof (cases "parse_input m (tl_tls c1)")
      case None
      then have "take_message i c m c1 = None" "aborting m" by (auto simp: take_message_def aborting_def)
      then show ?thesis using step holds_message_first [OF 3(3), of rest] 3(4) by auto
    next
      case (Some r)
      from take_message_effect [OF c1, of m c] Some have "\<exists>c2. take_message i c m c1 = Some c2 \<and> read_effect i c c1 c2 \<and> tc_read_state (client_at c2 i) = st'"
        by (simp add: c1_def)
      then obtain c2 where c2: "take_message i c m c1 = Some c2" "read_effect i c c1 c2" "tc_read_state (client_at c2 i) = st'" by blast
      have "read_effect i c ctx c2" using read_effect_trans [OF eff [OF 3(2)] c2(2) [unfolded c1_def]] .
      moreover have "queues_ok c2" using c2(2) by (simp add: read_effect_def)
      moreover have "holds_message rest m' \<Longrightarrow> holds_message (pending (tc_read_state ?t)) m'" for m'
        using holds_message_later [OF 3(3)] 3(4) by simp
      ultimately show ?thesis using Suc.IH [of c2] step c2(1,3) 3(2,5) by (auto intro: read_effect_trans)
    qed
  qed
qed

lemma ensure_parsers_total: "\<exists>tls'. ensure_parsers_initialized tls = Some tls'"
  by (auto simp: ensure_parsers_initialized_def message_parser_init_def message_formatter_init_def binary_message_formatter_init_def asserts arr_write_def)

lemma bytes_then_state: "(x :: tcp_client_t)\<lparr>tc_bytes_received := b, tc_read_state := st\<rparr> = x\<lparr>tc_read_state := st, tc_bytes_received := b\<rparr>"
  by (cases x) simp

theorem handle_client_read_effect:
  assumes ok: "queues_ok ctx" "tcp_registry_ok (tl_client_registry ctx)" and i: "i \<in> live (tl_client_registry ctx)"
  shows "(\<exists>ctx1. read_effect i (tcp_id i) ctx ctx1 \<and> (handle_client_read r (tcp_id i) ctx = Some ctx1 \<or> handle_client_read r (tcp_id i) ctx = disconnect_client (tcp_id i) ctx1))
     \<or> handle_client_read r (tcp_id i) ctx = None \<and> (\<exists>bs m. r = Recv_bytes bs \<and> holds_message (pending (tc_read_state (client_at ctx i)) @ bs) m \<and> aborting m)"
proof -
  let ?t = "client_at ctx i" and ?c = "tcp_id i"
  have "client_ok i ?t" using tcp_registry_ok_client [OF ok(2) i] by (simp add: client_at_def)
  then have rs: "read_ok (tc_read_state ?t)" by (simp add: client_ok_def)
  obtain tls where tls: "ensure_parsers_initialized (tl_tls ctx) = Some tls" using ensure_parsers_total by blast
  note get = tcp_client_get_live [OF i]
  define c1 where "c1 = ctx\<lparr>tl_tls := tls\<rparr>"
  have e1: "read_effect i ?c ctx c1"
    using ok(1) client_self [of i ctx]
    by (intro read_effectI [OF ok(1) rs, where n = "tc_messages_received ?t" and b = "tc_bytes_received ?t"]) (simp_all add: c1_def)
  show ?thesis
  proof (cases "\<exists>bs. r = Recv_bytes bs \<and> bs \<noteq> []")
    case False
    have "handle_client_read r ?c ctx = Some c1 \<or> handle_client_read r ?c ctx = disconnect_client ?c c1"
      using False get tls by (cases r) (auto simp: handle_client_read_def c1_def)
    with e1 show ?thesis by blast
  next
    case True
    then obtain bs where bs: "r = Recv_bytes bs" "bs \<noteq> []" by blast
    from framing_read_append_ok [OF rs, of bs] obtain st where
      st: "framing_read_append (tc_read_state ?t) bs = Some (min (length bs) (FRAMING_BUFFER_SIZE - fr_buffer_pos (tc_read_state ?t)), st)"
      "read_ok st" "pending st = pending (tc_read_state ?t) @ take (FRAMING_BUFFER_SIZE - fr_buffer_pos (tc_read_state ?t)) bs" by blast
    let ?n = "min (length bs) (FRAMING_BUFFER_SIZE - fr_buffer_pos (tc_read_state ?t))"
    define t where "t = ?t\<lparr>tc_bytes_received := tc_bytes_received ?t + of_nat (length bs)\<rparr>"
    define c2 where "c2 = c1\<lparr>tl_total_bytes_received := tl_total_bytes_received c1 + of_nat (length bs)\<rparr>"
    have e2: "read_effect i ?c ctx (set_client i (t\<lparr>tc_read_state := st'\<rparr>) c2)" if "read_ok st'" for st'
      using ok(1) by (intro read_effectI [OF ok(1) that, where n = "tc_messages_received ?t" and b = "tc_bytes_received ?t + of_nat (length bs)"])
        (simp_all add: c1_def c2_def t_def bytes_then_state)
    have run: "handle_client_read r ?c ctx = (if ?n < length bs then Option.bind (framing_read_state_init st) (\<lambda>st'. Some (set_client i (t\<lparr>tc_read_state := st'\<rparr>) c2))
       else read_loop MAX_MESSAGES_PER_READ i ?c (set_client i (t\<lparr>tc_read_state := st\<rparr>) c2))"
      using bs get tls st(1) by (simp add: handle_client_read_def c1_def c2_def t_def Let_def)
    show ?thesis
    proof (cases "?n < length bs")
      case True
      from framing_read_state_init_ok [of st] obtain st' where "framing_read_state_init st = Some st'" "read_ok st'" by blast
      with run True e2 show ?thesis by auto
    next
      case False
      let ?c3 = "set_client i (t\<lparr>tc_read_state := st\<rparr>) c2"
      have c3: "queues_ok ?c3" "read_ok (tc_read_state (client_at ?c3 i))" using e2 [OF st(2)] st(2) by (simp_all add: read_effect_def)
      have p: "pending st = pending (tc_read_state ?t) @ bs" using st(3) False by simp
      from read_loop_effect [OF c3, of ?c MAX_MESSAGES_PER_READ] show ?thesis
        using run False bs(1) read_effect_trans [OF e2 [OF st(2)]] p by (auto simp del: read_loop.simps)
    qed
  qed
qed

end
