(* ===== verification/ME_Tcp_Output.thy ===== *)
theory ME_Tcp_Output
  imports ME_Tcp_Input ME_Unified_Output
begin

text \<open>
  The output side of the TCP mode at work: the messages queued for a client reach its socket as one stream of frames, whatever part
  of it each call of \<^verbatim>\<open>write\<close> accepts.
\<close>

section \<open>The bytes of a message\<close>

definition fresh_tls :: tls_parsers where
  "fresh_tls = \<lparr>tls_csv_parser = \<lparr>mp_line_buffer = [], mp_tokens = (\<lambda>_. []), mp_num_tokens = 0\<rparr>, tls_csv_formatter = \<lparr>mf_buffer = []\<rparr>,
     tls_binary_formatter = \<lparr>bf_buffer = (\<lambda>_. 0)\<rparr>, tls_initialized = False\<rparr>"

definition out_bytes :: "bool \<Rightarrow> output_msg_t \<Rightarrow> u8 list" where
  "out_bytes use_binary m = (case format_output use_binary m fresh_tls of Some (d, _) \<Rightarrow> d | None \<Rightarrow> [])"

text \<open>Messages that can be sent; whether a client can read the text of a message is another matter.\<close>

definition good_out :: "bool \<Rightarrow> output_msg_t \<Rightarrow> bool" where
  "good_out use_binary m \<longleftrightarrow> formattable m"

lemma arr_front: "n \<le> length xs \<Longrightarrow> arr_read (arr_write a 0 xs) 0 n = take n xs" "xs \<noteq> [] \<Longrightarrow> arr_write a 0 xs 0 = xs ! 0"
  by (auto intro!: nth_equalityI simp: arr_write_def)

lemma binary_bytes_same:
  "map_option fst (binary_message_formatter_format f m) = map_option fst (binary_message_formatter_format g m)"
  by (cases m)
    (simp_all add: binary_message_formatter_format_def bin_format_ack_def bin_format_cancel_ack_def bin_format_trade_def bin_format_top_of_book_def
      top_of_book_is_eliminated_def asserts arr_front bytes_ack_def bytes_cancel_ack_def bytes_trade_def bytes_top_of_book_def)

text \<open>The text of a message, cut where the formatter cuts it.\<close>

lemma message_formatter_cut:
  "message_formatter_format f m = Some (take (MAX_OUTPUT_LINE_LENGTH - 1) (output_text m), f\<lparr>mf_buffer := take (MAX_OUTPUT_LINE_LENGTH - 1) (output_text m)\<rparr>)"
  by (simp add: message_formatter_format_def snprintf_def Let_def asserts min_def)

lemma cut_text:
  assumes "formattable m"
  shows "takeWhile (\<lambda>c. c \<noteq> CHR 0x00) (take (MAX_OUTPUT_LINE_LENGTH - 1) (output_text m)) \<noteq> []"
    and "length (takeWhile (\<lambda>c. c \<noteq> CHR 0x00) (take (MAX_OUTPUT_LINE_LENGTH - 1) (output_text m))) < MAX_FORMAT_BUFFER"
proof -
  have "\<exists>c cs. output_text m = c # cs \<and> c \<noteq> CHR 0x00" using assms by (cases m) (simp_all add: output_text_def formattable_def)
  then show "takeWhile (\<lambda>c. c \<noteq> CHR 0x00) (take (MAX_OUTPUT_LINE_LENGTH - 1) (output_text m)) \<noteq> []" by (auto simp: take_Cons')
  show "length (takeWhile (\<lambda>c. c \<noteq> CHR 0x00) (take (MAX_OUTPUT_LINE_LENGTH - 1) (output_text m))) < MAX_FORMAT_BUFFER"
    using length_takeWhile_le [of "\<lambda>c. c \<noteq> CHR 0x00" "take (MAX_OUTPUT_LINE_LENGTH - 1) (output_text m)"] by simp
qed

lemma format_output_bytes:
  assumes "good_out b m"
  obtains tls' where "format_output b m tls = Some (out_bytes b m, tls')" "msg_ok (out_bytes b m)"
proof (cases b)
  case True
  have f: "formattable m" using assms by (simp add: good_out_def)
  from f obtain bs f' where bs: "binary_message_formatter_format (tls_binary_formatter tls) m = Some (Some bs, f')" "reads_as CLIENT_PROTOCOL_BINARY m bs"
    by (rule binary_reads_as)
  from f obtain bs0 f0 where bs0: "binary_message_formatter_format (tls_binary_formatter fresh_tls) m = Some (Some bs0, f0)" by (rule binary_reads_as)
  have "bs0 = bs" using binary_bytes_same [of "tls_binary_formatter tls" m "tls_binary_formatter fresh_tls"] bs(1) bs0 by simp
  moreover have "length bs \<le> MAX_FORMAT_BUFFER"
  proof -
    from format_decode [OF f, of "tls_binary_formatter tls"] bs(1) have "length bs = binary_message_size (out_type m)" by auto
    with f show ?thesis by (cases m) (simp_all add: formattable_def out_type_def binary_message_size_def)
  qed
  ultimately show thesis using True bs bs0 by (intro that [of "tls\<lparr>tls_binary_formatter := f'\<rparr>"]) (simp_all add: out_bytes_def format_output_def reads_as_def)
next
  case False
  note c = cut_text [OF assms [unfolded good_out_def]]
  with False show thesis
    by (intro that [of "tls\<lparr>tls_csv_formatter := (tls_csv_formatter tls)\<lparr>mf_buffer := take (MAX_OUTPUT_LINE_LENGTH - 1) (output_text m)\<rparr>\<rparr>"])
      (simp_all add: out_bytes_def format_output_def message_formatter_cut Let_def asserts msg_ok_def)
qed

lemma out_bytes_ok: "good_out b m \<Longrightarrow> msg_ok (out_bytes b m)"
  by (erule format_output_bytes [of b m fresh_tls])

text \<open>What a client reads.\<close>

lemma out_bytes_read:
  assumes "if b then formattable m else csv_decodable m"
  shows "reads_as (if b then CLIENT_PROTOCOL_BINARY else CLIENT_PROTOCOL_CSV) m (out_bytes b m)"
proof (cases b)
  case True
  with assms obtain bs f where "binary_message_formatter_format (tls_binary_formatter fresh_tls) m = Some (Some bs, f)" "reads_as CLIENT_PROTOCOL_BINARY m bs"
    using binary_reads_as [of m] by metis
  moreover have "length bs \<le> MAX_FORMAT_BUFFER" using calculation format_decode [of m "tls_binary_formatter fresh_tls"] assms True
    by (cases m) (auto simp: formattable_def out_type_def binary_message_size_def)
  ultimately show ?thesis using True by (simp add: out_bytes_def format_output_def)
next
  case False
  with assms have d: "csv_decodable m" by simp
  have "length (takeWhile (\<lambda>c. c \<noteq> CHR 0x00) (output_text m)) < MAX_FORMAT_BUFFER"
    using length_output_text [OF d] length_takeWhile_le [of "\<lambda>c. c \<noteq> CHR 0x00" "output_text m"] by linarith
  moreover have "map of_char (takeWhile (\<lambda>c. c \<noteq> CHR 0x00) (output_text m)) = (map of_char (output_text m) :: u8 list)" using c_bytes_text [OF d] unfolding c_bytes_def .
  ultimately show ?thesis using False csv_reads_as [OF d]
    by (simp add: out_bytes_def format_output_def message_formatter_format_fits [OF d] Let_def asserts)
qed

section \<open>The stream to a client\<close>

definition sent_to :: "tcp_listener_context_t \<Rightarrow> int \<Rightarrow> u8 list" where
  "sent_to ctx fd = concat (map snd (filter (\<lambda>w. fst w = fd) (tl_wire ctx)))"

definition unsent :: "tcp_client_t \<Rightarrow> u8 list" where
  "unsent t = (if tc_has_pending_write t then drop (fw_bytes_written (tc_write_state t)) (arr_list (fw_buffer (tc_write_state t)) (fw_total_len (tc_write_state t))) else [])"

definition outstanding :: "bool \<Rightarrow> tcp_client_t \<Rightarrow> u8 list" where
  "outstanding b t = unsent t @ concat (map (\<lambda>m. frame (out_bytes b m)) (contents (tc_output_queue t)))"

text \<open>All bytes for a client, those it got and those it will get.\<close>

definition stream :: "tcp_listener_context_t \<Rightarrow> nat \<Rightarrow> u8 list" where
  "stream ctx i = sent_to ctx (tc_socket_fd (client_at ctx i)) @ outstanding (lc_use_binary_output (tl_config ctx)) (client_at ctx i)"

definition client_writes_ok :: "bool \<Rightarrow> tcp_client_t \<Rightarrow> bool" where
  "client_writes_ok b t \<longleftrightarrow> (tc_has_pending_write t \<longrightarrow> fw_bytes_written (tc_write_state t) < fw_total_len (tc_write_state t))
     \<and> (\<forall>m\<in>set (contents (tc_output_queue t)). good_out b m)"

text \<open>
  Registered descriptors belong to different clients, a client waits for writability exactly when it has something unsent, and everything queued can be sent.
\<close>

definition listener_ok :: "tcp_listener_context_t \<Rightarrow> bool" where
  "listener_ok ctx \<longleftrightarrow> queues_ok ctx \<and> tcp_registry_ok (tl_client_registry ctx)
     \<and> inj_on (\<lambda>i. tc_socket_fd (client_at ctx i)) (live (tl_client_registry ctx))
     \<and> (\<forall>i\<in>live (tl_client_registry ctx). client_writes_ok (lc_use_binary_output (tl_config ctx)) (client_at ctx i)
          \<and> tl_epoll ctx (tc_socket_fd (client_at ctx i)) = Some (tc_has_pending_write (client_at ctx i))
          \<and> tc_socket_fd (client_at ctx i) \<noteq> tl_listen_fd ctx)"

text \<open>The effect of writing for the client \<open>i\<close>: its stream is the same, and nothing else changes.\<close>

definition out_step :: "nat \<Rightarrow> tcp_listener_context_t \<Rightarrow> tcp_listener_context_t \<Rightarrow> bool" where
  "out_step i ctx ctx' \<longleftrightarrow>
     tl_client_registry ctx' = put_client i (client_at ctx' i) (tl_client_registry ctx) \<and> client_ok i (client_at ctx' i)
     \<and> client_writes_ok (lc_use_binary_output (tl_config ctx)) (client_at ctx' i)
     \<and> tc_socket_fd (client_at ctx' i) = tc_socket_fd (client_at ctx i) \<and> tc_read_state (client_at ctx' i) = tc_read_state (client_at ctx i)
     \<and> tc_messages_received (client_at ctx' i) = tc_messages_received (client_at ctx i)
     \<and> (\<exists>k. contents (tc_output_queue (client_at ctx' i)) = drop k (contents (tc_output_queue (client_at ctx i))))
     \<and> stream ctx' i = stream ctx i \<and> (\<exists>bs. tl_wire ctx' = tl_wire ctx @ map (Pair (tc_socket_fd (client_at ctx i))) bs)
     \<and> (\<forall>fd. fd \<noteq> tc_socket_fd (client_at ctx i) \<longrightarrow> tl_epoll ctx' fd = tl_epoll ctx fd)
     \<and> inbox ctx' = inbox ctx \<and> queues_ok ctx' = queues_ok ctx \<and> tl_config ctx' = tl_config ctx \<and> tl_listen_fd ctx' = tl_listen_fd ctx
     \<and> tl_num_input_queues ctx' = tl_num_input_queues ctx \<and> tl_shutdown_flag ctx' = tl_shutdown_flag ctx"

definition write_effect :: "nat \<Rightarrow> tcp_listener_context_t \<Rightarrow> tcp_listener_context_t \<Rightarrow> bool" where
  "write_effect i ctx ctx' \<longleftrightarrow> out_step i ctx ctx' \<and> tl_epoll ctx' (tc_socket_fd (client_at ctx' i)) = Some (tc_has_pending_write (client_at ctx' i))"

lemma out_step_trans:
  assumes 1: "out_step i a b" and 2: "out_step i b c"
  shows "out_step i a c"
proof -
  have "tl_client_registry c = put_client i (client_at c i) (tl_client_registry a)" using 1 2 unfolding out_step_def by (metis put_client_twice)
  moreover from 1 2 obtain k l where "contents (tc_output_queue (client_at b i)) = drop k (contents (tc_output_queue (client_at a i)))"
    "contents (tc_output_queue (client_at c i)) = drop l (contents (tc_output_queue (client_at b i)))" unfolding out_step_def by blast
  then have "\<exists>k. contents (tc_output_queue (client_at c i)) = drop k (contents (tc_output_queue (client_at a i)))" by (intro exI [of _ "l + k"]) simp
  moreover from 1 2 obtain v w where "tl_wire b = tl_wire a @ map (Pair (tc_socket_fd (client_at a i))) v"
    "tl_wire c = tl_wire b @ map (Pair (tc_socket_fd (client_at a i))) w" unfolding out_step_def by metis
  then have "\<exists>bs. tl_wire c = tl_wire a @ map (Pair (tc_socket_fd (client_at a i))) bs" by (intro exI [of _ "v @ w"]) simp
  ultimately show ?thesis using 1 2 unfolding out_step_def by simp
qed

lemma write_effect_trans: "out_step i a b \<Longrightarrow> write_effect i b c \<Longrightarrow> write_effect i a c"
  unfolding write_effect_def by (blast intro: out_step_trans)

lemma remaining_unsent:
  assumes "write_ok (tc_write_state t)" and "tc_has_pending_write t"
  shows "framing_write_get_remaining (tc_write_state t) = Some (unsent t)"
proof -
  have "arr_read (fw_buffer (tc_write_state t)) (fw_bytes_written (tc_write_state t)) (fw_total_len (tc_write_state t) - fw_bytes_written (tc_write_state t))
     = take (fw_total_len (tc_write_state t) - fw_bytes_written (tc_write_state t)) (drop (fw_bytes_written (tc_write_state t)) (arr_list (fw_buffer (tc_write_state t)) (fw_total_len (tc_write_state t))))"
    using assms(1) by (intro arr_read_list) (simp add: write_ok_def)
  then show ?thesis using assms by (simp add: framing_write_get_remaining_def unsent_def write_ok_def asserts)
qed

lemma length_unsent: "tc_has_pending_write t \<Longrightarrow> length (unsent t) = fw_total_len (tc_write_state t) - fw_bytes_written (tc_write_state t)"
  by (simp add: unsent_def)

text \<open>\<open>n\<close> bytes are accepted, and the message may be complete; the interest list is adjusted.\<close>

definition after_write :: "nat \<Rightarrow> bool \<Rightarrow> tcp_listener_context_t \<Rightarrow> tcp_listener_context_t" where
  "after_write i complete ctx = (if complete then note_sent i ctx else ctx)\<lparr>tl_epoll := (tl_epoll ctx)(tc_socket_fd (client_at ctx i) \<mapsto> \<not> complete)\<rparr>"

lemma client_at_updates [simp]:
  "client_at (ctx\<lparr>tl_epoll := e\<rparr>) i = client_at ctx i" "client_at (ctx\<lparr>tl_total_messages_sent := n\<rparr>) i = client_at ctx i"
  "client_at (ctx\<lparr>tl_total_bytes_sent := n, tl_wire := w\<rparr>) i = client_at ctx i"
  by (simp_all add: client_at_def)

lemma note_written_ok:
  assumes "fw_bytes_written (tc_write_state (client_at ctx i)) + n \<le> fw_total_len (tc_write_state (client_at ctx i))"
    and "t = (client_at ctx i)\<lparr>tc_write_state := (tc_write_state (client_at ctx i))\<lparr>fw_bytes_written := fw_bytes_written (tc_write_state (client_at ctx i)) + n\<rparr>,
       tc_bytes_sent := tc_bytes_sent (client_at ctx i) + of_nat n\<rparr>"
  shows "note_written i n data ctx = Some ((set_client i t ctx)\<lparr>tl_total_bytes_sent := tl_total_bytes_sent ctx + of_nat n,
     tl_wire := tl_wire ctx @ [(tc_socket_fd (client_at ctx i), take n data)]\<rparr>)"
  using assms by (simp add: note_written_def framing_write_mark_written_def asserts Let_def)

lemma written_effect:
  assumes t: "t = client_at ctx i" and c: "client_ok i t" "client_writes_ok (lc_use_binary_output (tl_config ctx)) t" "tc_has_pending_write t" and n: "n \<le> length (unsent t)"
  obtains ctx1 where "note_written i n (unsent t) ctx = Some ctx1" "framing_write_is_complete (tc_write_state (client_at ctx1 i)) \<longleftrightarrow> n = length (unsent t)"
    "tc_socket_fd (client_at ctx1 i) = tc_socket_fd t" "tl_epoll ctx1 = tl_epoll ctx" "write_effect i ctx (after_write i (n = length (unsent t)) ctx1)"
    "tl_wire (after_write i (n = length (unsent t)) ctx1) = tl_wire ctx @ [(tc_socket_fd t, take n (unsent t))]"
proof -
  let ?ws = "tc_write_state t" and ?b = "lc_use_binary_output (tl_config ctx)"
  have w: "fw_bytes_written ?ws \<le> fw_total_len ?ws" "fw_total_len ?ws \<le> FRAMING_BUFFER_SIZE" using c(1) by (simp_all add: client_ok_def write_ok_def)
  have len: "length (unsent t) = fw_total_len ?ws - fw_bytes_written ?ws" by (rule length_unsent [OF c(3)])
  have lt: "fw_bytes_written ?ws + n \<le> fw_total_len ?ws" using n len w by linarith
  define t1 where "t1 = t\<lparr>tc_write_state := ?ws\<lparr>fw_bytes_written := fw_bytes_written ?ws + n\<rparr>, tc_bytes_sent := tc_bytes_sent t + of_nat n\<rparr>"
  define c1 where "c1 = (set_client i t1 ctx)\<lparr>tl_total_bytes_sent := tl_total_bytes_sent ctx + of_nat n, tl_wire := tl_wire ctx @ [(tc_socket_fd t, take n (unsent t))]\<rparr>"
  have nw: "note_written i n (unsent t) ctx = Some c1" using note_written_ok [of ctx i n t1] lt t by (simp add: t1_def c1_def)
  have at1: "client_at c1 i = t1" by (simp add: c1_def)
  have fin: "framing_write_is_complete (tc_write_state t1) \<longleftrightarrow> n = length (unsent t)" using lt len by (auto simp: t1_def framing_write_is_complete_def)
  define t2 where "t2 = (if n = length (unsent t) then t1\<lparr>tc_has_pending_write := False, tc_messages_sent := tc_messages_sent t1 + 1\<rparr> else t1)"
  let ?c2 = "after_write i (n = length (unsent t)) c1"
  have reg: "tl_client_registry ?c2 = put_client i t2 (tl_client_registry ctx)" "tl_wire ?c2 = tl_wire ctx @ [(tc_socket_fd t, take n (unsent t))]"
      "tl_config ?c2 = tl_config ctx" "tl_epoll ?c2 = (tl_epoll ctx)(tc_socket_fd t \<mapsto> tc_has_pending_write t2)"
    using c(3) by (simp_all add: after_write_def note_sent_def at1 t2_def Let_def, simp_all add: c1_def t1_def set_client_def)
  have q2: "contents (tc_output_queue t2) = contents (tc_output_queue t)" by (simp add: t2_def t1_def)
  have u2: "unsent t2 = drop n (unsent t)"
    using c(3) lt len by (auto simp: unsent_def t2_def t1_def add.commute)
  have at2: "client_at ?c2 i = t2" using reg(1) by (simp add: client_at_def)
  have "client_ok i t2" using c(1) lt w(2) by (auto simp: t2_def t1_def client_ok_def write_ok_def)
  moreover have "client_writes_ok ?b t2" using c(2) lt len unfolding client_writes_ok_def q2 by (auto simp: t2_def t1_def)
  moreover have fd2: "tc_socket_fd t2 = tc_socket_fd t" by (simp add: t2_def t1_def)
  moreover have "stream ?c2 i = stream ctx i"
    unfolding stream_def at2 t [symmetric] reg(3) outstanding_def q2 u2 sent_to_def reg(2) fd2 by simp
  moreover have "tc_read_state t2 = tc_read_state t" "tc_messages_received t2 = tc_messages_received t" by (simp_all add: t2_def t1_def)
  moreover have "\<exists>bs. tl_wire ?c2 = tl_wire ctx @ map (Pair (tc_socket_fd t)) bs" unfolding reg(2) by (intro exI [of _ "[take n (unsent t)]"]) simp
  moreover have "inbox ?c2 = inbox ctx \<and> queues_ok ?c2 = queues_ok ctx \<and> tl_listen_fd ?c2 = tl_listen_fd ctx \<and> tl_num_input_queues ?c2 = tl_num_input_queues ctx
      \<and> tl_shutdown_flag ?c2 = tl_shutdown_flag ctx"
    by (simp add: after_write_def note_sent_def c1_def set_client_def Let_def) (simp add: inbox_def queues_ok_def dual_def fun_eq_iff)
  ultimately have "write_effect i ctx ?c2"
    unfolding write_effect_def out_step_def at2 t [symmetric] using reg q2 by (intro conjI) (auto intro: exI [of _ 0])
  then show thesis using that [OF nw] fin at1 reg(2) by (simp add: t1_def c1_def)
qed

section \<open>The two ways to write\<close>

definition write_fits :: "(u8 list \<Rightarrow> write_result) \<Rightarrow> bool" where
  "write_fits write \<longleftrightarrow> (\<forall>data n. write data = Written n \<longrightarrow> n \<le> length data)"

lemma listener_ok_client:
  assumes "listener_ok ctx" and "i \<in> live (tl_client_registry ctx)"
  shows "client_ok i (client_at ctx i)" "client_writes_ok (lc_use_binary_output (tl_config ctx)) (client_at ctx i)"
    "tl_epoll ctx (tc_socket_fd (client_at ctx i)) = Some (tc_has_pending_write (client_at ctx i))" "tc_client_id (client_at ctx i) = tcp_id i"
    "tc_active (client_at ctx i)"
  using assms tcp_registry_ok_client [of "tl_client_registry ctx" i] by (auto simp: listener_ok_def client_at_def client_ok_def)

lemma write_effect_refl:
  assumes "listener_ok ctx" and "i \<in> live (tl_client_registry ctx)"
  shows "write_effect i ctx ctx"
  using listener_ok_client [OF assms] by (auto simp: write_effect_def out_step_def client_self intro: exI [of _ 0] exI [of _ "[]"])

lemma after_write_eq:
  assumes "tl_epoll ctx (tc_socket_fd (client_at ctx i)) = Some (\<not> complete)"
  shows "after_write i complete ctx = (if complete then note_sent i ctx else ctx)"
proof -
  have "(tl_epoll ctx)(tc_socket_fd (client_at ctx i) \<mapsto> \<not> complete) = tl_epoll ctx" using assms by (auto simp: fun_eq_iff)
  then show ?thesis by (cases ctx) (simp add: after_write_def note_sent_def set_client_def Let_def)
qed

lemma after_write_mod:
  assumes "tl_epoll ctx (tc_socket_fd (client_at ctx i)) \<noteq> None"
  shows "after_write i True ctx = epoll_mod (tc_socket_fd (client_at ctx i)) False (note_sent i ctx)" "after_write i False ctx = epoll_mod (tc_socket_fd (client_at ctx i)) True ctx"
  using assms by (auto simp: after_write_def epoll_mod_def note_sent_def set_client_def Let_def)

theorem handle_client_write_effect:
  assumes ok: "listener_ok ctx" and i: "i \<in> live (tl_client_registry ctx)" and w: "write_fits write"
  shows "(\<exists>ctx'. handle_client_write write (tcp_id i) ctx = Some ctx' \<and> write_effect i ctx ctx') \<or> handle_client_write write (tcp_id i) ctx = disconnect_client (tcp_id i) ctx"
proof (cases "tc_has_pending_write (client_at ctx i)")
  case False
  then show ?thesis using write_effect_refl [OF ok i] tcp_client_get_live [OF i] by (simp add: handle_client_write_def)
next
  case True
  let ?t = "client_at ctx i"
  note c = listener_ok_client [OF ok i]
  have rem: "framing_write_get_remaining (tc_write_state ?t) = Some (unsent ?t)" using c(1) True by (intro remaining_unsent) (simp_all add: client_ok_def)
  show ?thesis
  proof (cases "write (unsent ?t)")
    case (Written n)
    with w have "n \<le> length (unsent ?t)" by (simp add: write_fits_def)
    from written_effect [OF refl c(1,2) True this] obtain c1 where c1: "note_written i n (unsent ?t) ctx = Some c1"
      "framing_write_is_complete (tc_write_state (client_at c1 i)) \<longleftrightarrow> n = length (unsent ?t)" "tc_socket_fd (client_at c1 i) = tc_socket_fd ?t"
      "tl_epoll c1 = tl_epoll ctx" "write_effect i ctx (after_write i (n = length (unsent ?t)) c1)" by blast
    have "handle_client_write write (tcp_id i) ctx = Some (after_write i (n = length (unsent ?t)) c1)"
      using True rem Written c1(1-4) c(3) tcp_client_get_live [OF i] after_write_mod(1) [of c1 i] after_write_eq [of c1 i False]
      by (auto simp: handle_client_write_def)
    with c1(5) show ?thesis by blast
  qed (use True rem write_effect_refl [OF ok i] tcp_client_get_live [OF i] in \<open>simp_all add: handle_client_write_def\<close>)
qed

text \<open>The next message of a client is taken from its queue and becomes the frame to send.\<close>

lemma out_step_update:
  assumes "client_ok i t" and "client_writes_ok (lc_use_binary_output (tl_config ctx)) t" and "tc_socket_fd t = tc_socket_fd (client_at ctx i)"
    and "tc_read_state t = tc_read_state (client_at ctx i)" and "tc_messages_received t = tc_messages_received (client_at ctx i)"
    and "contents (tc_output_queue t) = drop k (contents (tc_output_queue (client_at ctx i)))"
    and "outstanding (lc_use_binary_output (tl_config ctx)) t = outstanding (lc_use_binary_output (tl_config ctx)) (client_at ctx i)"
  shows "out_step i ctx (set_client i t (ctx\<lparr>tl_tls := tls\<rparr>))"
proof -
  let ?c = "set_client i t (ctx\<lparr>tl_tls := tls\<rparr>)"
  have at: "client_at ?c i = t" by simp
  have "stream ?c i = stream ctx i" unfolding stream_def at sent_to_def using assms(3,7) by simp
  moreover have "tl_listen_fd ?c = tl_listen_fd ctx" "tl_num_input_queues ?c = tl_num_input_queues ctx" "tl_shutdown_flag ?c = tl_shutdown_flag ctx"
    by (simp_all add: set_client_def)
  ultimately show ?thesis using assms unfolding out_step_def at by (auto intro: exI [of _ "[]"])
qed

lemma try_write_effect:
  assumes c: "client_ok i (client_at ctx i)" "client_writes_ok (lc_use_binary_output (tl_config ctx)) (client_at ctx i)" "tc_has_pending_write (client_at ctx i)"
    and e: "tl_epoll ctx (tc_socket_fd (client_at ctx i)) = Some False" and w: "write_fits write"
  shows "(\<exists>ctx'. try_write write i ctx = Some ctx' \<and> write_effect i ctx ctx') \<or> try_write write i ctx = disconnect_client (tcp_id i) ctx"
proof -
  let ?t = "client_at ctx i"
  have rem: "framing_write_get_remaining (tc_write_state ?t) = Some (unsent ?t)" using c(1,3) by (intro remaining_unsent) (simp_all add: client_ok_def)
  have id: "tc_client_id ?t = tcp_id i" using c(1) by (simp add: client_ok_def)
  have later: "write_effect i ctx (epoll_mod (tc_socket_fd ?t) True ctx)"
  proof -
    let ?c = "epoll_mod (tc_socket_fd ?t) True ctx"
    have at: "client_at ?c i = ?t" by (simp add: epoll_mod_def)
    have "stream ?c i = stream ctx i" unfolding stream_def at by (simp add: sent_to_def epoll_mod_def)
    moreover have "inbox ?c = inbox ctx" "queues_ok ?c = queues_ok ctx" by (simp_all add: epoll_mod_def inbox_def queues_ok_def dual_def fun_eq_iff)
    moreover have "tl_client_registry ?c = put_client i ?t (tl_client_registry ctx)" by (simp add: epoll_mod_def client_self)
    ultimately show ?thesis unfolding write_effect_def out_step_def at using c e
      by (auto simp: epoll_mod_def intro: exI [of _ 0] exI [of _ "[]"])
  qed
  show ?thesis
  proof (cases "write (unsent ?t)")
    case (Written n)
    with w have n: "n \<le> length (unsent ?t)" by (simp add: write_fits_def)
    have pos: "0 < length (unsent ?t)" using c(2,3) length_unsent [OF c(3)] by (simp add: client_writes_ok_def)
    from written_effect [OF refl c n] obtain c1 where c1: "note_written i n (unsent ?t) ctx = Some c1"
      "framing_write_is_complete (tc_write_state (client_at c1 i)) \<longleftrightarrow> n = length (unsent ?t)" "tc_socket_fd (client_at c1 i) = tc_socket_fd ?t"
      "tl_epoll c1 = tl_epoll ctx" "write_effect i ctx (after_write i (n = length (unsent ?t)) c1)" by blast
    show ?thesis
    proof (cases "n = 0")
      case True
      then show ?thesis using rem Written later by (simp add: try_write_def)
    next
      case False
      have "try_write write i ctx = Some (after_write i (n = length (unsent ?t)) c1)"
        using False rem Written c1(1-4) e after_write_mod(2) [of c1 i] after_write_eq [of c1 i True] by (auto simp: try_write_def)
      with c1(5) show ?thesis by blast
    qed
  qed (use rem later id in \<open>simp_all add: try_write_def\<close>)
qed

text \<open>What is ready to be sent when the next message has been framed.\<close>

definition write_ready :: "nat \<Rightarrow> tcp_listener_context_t \<Rightarrow> bool" where
  "write_ready i ctx \<longleftrightarrow> client_ok i (client_at ctx i) \<and> client_writes_ok (lc_use_binary_output (tl_config ctx)) (client_at ctx i) \<and> tc_has_pending_write (client_at ctx i)
     \<and> tl_epoll ctx (tc_socket_fd (client_at ctx i)) = Some False"

lemma process_output_queue_next:
  assumes ok: "listener_ok ctx" and i: "i \<in> live (tl_client_registry ctx)" and idle: "\<not> tc_has_pending_write (client_at ctx i)"
    and m: "contents (tc_output_queue (client_at ctx i)) \<noteq> []"
  obtains ctx1 where "process_output_queue write i ctx = try_write write i ctx1" "out_step i ctx ctx1" "write_ready i ctx1" "tl_wire ctx1 = tl_wire ctx"
proof -
  let ?t = "client_at ctx i" and ?b = "lc_use_binary_output (tl_config ctx)"
  note c = listener_ok_client [OF ok i]
  from m obtain m ms where Cons: "contents (tc_output_queue ?t) = m # ms" by (cases "contents (tc_output_queue ?t)") auto
  obtain r q where d: "queue_dequeue (tc_output_queue ?t) = (r, q)" by fastforce
  have "queue_ok (tc_output_queue ?t)" using c(1) by (simp add: client_ok_def)
  note q = queue_dequeue_ok [OF this d]
  define t1 where "t1 = ?t\<lparr>tc_output_queue := q\<rparr>"
  have deq: "tcp_client_dequeue_output i (tl_client_registry ctx) = (r, put_client i t1 (tl_client_registry ctx))"
    using d by (simp add: tcp_client_dequeue_output_def client_at_def t1_def Let_def)
  have ok1: "client_ok i t1" using c(1) q(2) by (simp add: t1_def client_ok_def)
  have r: "r = Some m" "contents q = ms" using q Cons by simp_all
  have m: "good_out ?b m" using c(2) Cons by (simp add: client_writes_ok_def)
  from m obtain tls where f: "format_output ?b m (tl_tls ctx) = Some (out_bytes ?b m, tls)" by (rule format_output_bytes)
  from framing_write_state_init_ok [OF out_bytes_ok [OF m], of "tc_write_state ?t"] obtain ws where
    ws: "framing_write_state_init (tc_write_state ?t) (out_bytes ?b m) = Some (True, ws)" "fw_bytes_written ws = 0"
      "fw_total_len ws = length (frame (out_bytes ?b m))" "arr_list (fw_buffer ws) (fw_total_len ws) = frame (out_bytes ?b m)" by blast
  have ne: "out_bytes ?b m \<noteq> []" using out_bytes_ok [OF m] by (auto simp: msg_ok_def)
  define t2 where "t2 = t1\<lparr>tc_write_state := ws, tc_has_pending_write := True\<rparr>"
  define c2 where "c2 = set_client i t2 (ctx\<lparr>tl_tls := tls\<rparr>)"
  have run: "process_output_queue write i ctx = try_write write i c2"
    using idle c(5) deq r(1) f ne ws(1) by (simp add: process_output_queue_def Let_def) (simp add: c2_def t1_def t2_def set_client_def client_at_def)
  have len: "length (frame (out_bytes ?b m)) \<le> FRAMING_BUFFER_SIZE" using out_bytes_ok [OF m] by (simp add: msg_ok_def)
  have t2: "client_ok i t2" "client_writes_ok ?b t2" "tc_has_pending_write t2"
    using ok1 ws c(2) Cons r(2) len by (simp_all add: t2_def t1_def client_ok_def write_ok_def client_writes_ok_def)
  have "outstanding ?b t2 = outstanding ?b ?t" using idle ws r(2) Cons by (simp add: outstanding_def unsent_def t2_def t1_def)
  then have "out_step i ctx c2" unfolding c2_def using t2 Cons r(2) by (intro out_step_update [where k = 1]) (simp_all add: t2_def t1_def)
  moreover have "write_ready i c2" using t2 c(3) idle by (simp add: write_ready_def c2_def) (simp add: t2_def t1_def)
  ultimately show thesis using that [OF run] by (simp add: c2_def)
qed

lemma process_output_queue_empty:
  assumes ok: "listener_ok ctx" and i: "i \<in> live (tl_client_registry ctx)" and m: "contents (tc_output_queue (client_at ctx i)) = []"
  shows "\<exists>ctx'. process_output_queue write i ctx = Some ctx' \<and> write_effect i ctx ctx'"
proof (cases "tc_has_pending_write (client_at ctx i)")
  case True
  with write_effect_refl [OF ok i] show ?thesis by (simp add: process_output_queue_def)
next
  case False
  let ?t = "client_at ctx i"
  note c = listener_ok_client [OF ok i]
  obtain r q where d: "queue_dequeue (tc_output_queue ?t) = (r, q)" by fastforce
  have "queue_ok (tc_output_queue ?t)" using c(1) by (simp add: client_ok_def)
  note q = queue_dequeue_ok [OF this d]
  define t1 where "t1 = ?t\<lparr>tc_output_queue := q\<rparr>"
  have r: "r = None" "contents q = []" using q m by simp_all
  have run: "process_output_queue write i ctx = Some (set_client i t1 ctx)"
    using False c(5) d r(1) by (simp add: process_output_queue_def tcp_client_dequeue_output_def Let_def) (simp add: t1_def set_client_def client_at_def)
  have "out_step i ctx (set_client i t1 (ctx\<lparr>tl_tls := tl_tls ctx\<rparr>))"
    using c(1,2) m q(2) r(2) by (intro out_step_update [where k = 0]) (simp_all add: t1_def client_ok_def client_writes_ok_def outstanding_def unsent_def)
  then have "write_effect i ctx (set_client i t1 ctx)" using c(3) by (simp add: write_effect_def t1_def)
  with run show ?thesis by blast
qed

theorem process_output_queue_effect:
  assumes ok: "listener_ok ctx" and i: "i \<in> live (tl_client_registry ctx)" and w: "write_fits write"
  shows "\<exists>ctx1. out_step i ctx ctx1 \<and> (process_output_queue write i ctx = Some ctx1 \<and> write_effect i ctx ctx1
     \<or> process_output_queue write i ctx = disconnect_client (tcp_id i) ctx1)"
proof (cases "tc_has_pending_write (client_at ctx i) \<or> contents (tc_output_queue (client_at ctx i)) = []")
  case True
  have "\<exists>ctx'. process_output_queue write i ctx = Some ctx' \<and> write_effect i ctx ctx'"
    using True process_output_queue_empty [OF ok i] write_effect_refl [OF ok i] by (auto simp: process_output_queue_def)
  then show ?thesis by (auto simp: write_effect_def)
next
  case False
  then have "\<not> tc_has_pending_write (client_at ctx i)" "contents (tc_output_queue (client_at ctx i)) \<noteq> []" by simp_all
  from process_output_queue_next [OF ok i this] obtain c1 where
    c1: "process_output_queue write i ctx = try_write write i c1" "out_step i ctx c1" "write_ready i c1" by blast
  from try_write_effect [of i c1, OF _ _ _ _ w] c1(3) have
    "(\<exists>ctx'. try_write write i c1 = Some ctx' \<and> write_effect i c1 ctx') \<or> try_write write i c1 = disconnect_client (tcp_id i) c1" by (simp add: write_ready_def)
  then show ?thesis unfolding c1(1) using c1(2) write_effect_trans [OF c1(2)] by (auto simp: write_effect_def)
qed

section \<open>A peer that takes something\<close>

definition takes :: "(u8 list \<Rightarrow> write_result) \<Rightarrow> bool" where
  "takes write \<longleftrightarrow> (\<forall>data. data \<noteq> [] \<longrightarrow> (\<exists>n>0. n \<le> length data \<and> write data = Written n))"

definition left_over :: "tcp_listener_context_t \<Rightarrow> nat \<Rightarrow> nat" where
  "left_over ctx i = length (outstanding (lc_use_binary_output (tl_config ctx)) (client_at ctx i))"

lemma stream_left_over:
  assumes "stream ctx' i = stream ctx i" and "tc_socket_fd (client_at ctx' i) = tc_socket_fd (client_at ctx i)"
    and "tl_wire ctx' = tl_wire ctx @ map (Pair (tc_socket_fd (client_at ctx i))) bs"
  shows "left_over ctx' i + length (concat bs) = left_over ctx i"
proof -
  have "sent_to ctx' (tc_socket_fd (client_at ctx i)) = sent_to ctx (tc_socket_fd (client_at ctx i)) @ concat bs"
    by (simp add: sent_to_def assms(3) o_def)
  with arg_cong [OF assms(1), of length] assms(2) show ?thesis by (simp add: stream_def left_over_def)
qed

lemma try_write_takes:
  assumes r: "write_ready i ctx" and w: "takes write"
  shows "\<exists>ctx'. try_write write i ctx = Some ctx' \<and> write_effect i ctx ctx' \<and> left_over ctx' i < left_over ctx i"
proof -
  let ?t = "client_at ctx i"
  have c: "client_ok i ?t" "client_writes_ok (lc_use_binary_output (tl_config ctx)) ?t" "tc_has_pending_write ?t" "tl_epoll ctx (tc_socket_fd ?t) = Some False"
    using r by (simp_all add: write_ready_def)
  have rem: "framing_write_get_remaining (tc_write_state ?t) = Some (unsent ?t)" using c(1,3) by (intro remaining_unsent) (simp_all add: client_ok_def)
  have pos: "unsent ?t \<noteq> []" using c(2,3) length_unsent [OF c(3)] by (auto simp: client_writes_ok_def)
  with w obtain n where n: "0 < n" "n \<le> length (unsent ?t)" "write (unsent ?t) = Written n" unfolding takes_def by blast
  from written_effect [OF refl c(1-3) n(2)] obtain c1 where c1: "note_written i n (unsent ?t) ctx = Some c1"
    "framing_write_is_complete (tc_write_state (client_at c1 i)) \<longleftrightarrow> n = length (unsent ?t)" "tc_socket_fd (client_at c1 i) = tc_socket_fd ?t"
    "tl_epoll c1 = tl_epoll ctx" "write_effect i ctx (after_write i (n = length (unsent ?t)) c1)"
    "tl_wire (after_write i (n = length (unsent ?t)) c1) = tl_wire ctx @ [(tc_socket_fd ?t, take n (unsent ?t))]" by blast
  have "try_write write i ctx = Some (after_write i (n = length (unsent ?t)) c1)"
    using n rem c1(1-4) c(4) after_write_mod(2) [of c1 i] after_write_eq [of c1 i True] by (auto simp: try_write_def)
  moreover have "left_over (after_write i (n = length (unsent ?t)) c1) i < left_over ctx i"
    using stream_left_over [of "after_write i (n = length (unsent ?t)) c1" i ctx "[take n (unsent ?t)]"] c1(5,6) n pos by (simp add: write_effect_def out_step_def)
  ultimately show ?thesis using c1(5) by blast
qed

lemma handle_client_write_takes:
  assumes ok: "listener_ok ctx" and i: "i \<in> live (tl_client_registry ctx)" and w: "takes write"
  shows "\<exists>ctx'. handle_client_write write (tcp_id i) ctx = Some ctx' \<and> write_effect i ctx ctx' \<and> (tc_has_pending_write (client_at ctx i) \<longrightarrow> left_over ctx' i < left_over ctx i)"
proof (cases "tc_has_pending_write (client_at ctx i)")
  case False
  then show ?thesis using write_effect_refl [OF ok i] tcp_client_get_live [OF i] by (simp add: handle_client_write_def)
next
  case True
  let ?t = "client_at ctx i"
  note c = listener_ok_client [OF ok i]
  have rem: "framing_write_get_remaining (tc_write_state ?t) = Some (unsent ?t)" using c(1) True by (intro remaining_unsent) (simp_all add: client_ok_def)
  have pos: "unsent ?t \<noteq> []" using c(2) length_unsent [OF True] True by (auto simp: client_writes_ok_def)
  with w obtain n where n: "0 < n" "n \<le> length (unsent ?t)" "write (unsent ?t) = Written n" unfolding takes_def by blast
  from written_effect [OF refl c(1,2) True n(2)] obtain c1 where c1: "note_written i n (unsent ?t) ctx = Some c1"
    "framing_write_is_complete (tc_write_state (client_at c1 i)) \<longleftrightarrow> n = length (unsent ?t)" "tc_socket_fd (client_at c1 i) = tc_socket_fd ?t"
    "tl_epoll c1 = tl_epoll ctx" "write_effect i ctx (after_write i (n = length (unsent ?t)) c1)"
    "tl_wire (after_write i (n = length (unsent ?t)) c1) = tl_wire ctx @ [(tc_socket_fd ?t, take n (unsent ?t))]" by blast
  have "handle_client_write write (tcp_id i) ctx = Some (after_write i (n = length (unsent ?t)) c1)"
    using True rem n(3) c1(1-4) c(3) tcp_client_get_live [OF i] after_write_mod(1) [of c1 i] after_write_eq [of c1 i False] by (auto simp: handle_client_write_def)
  moreover have "left_over (after_write i (n = length (unsent ?t)) c1) i < left_over ctx i"
    using stream_left_over [of "after_write i (n = length (unsent ?t)) c1" i ctx "[take n (unsent ?t)]"] c1(5,6) n pos by (simp add: write_effect_def out_step_def)
  ultimately show ?thesis using c1(5) by blast
qed

end
