(* ===== verification/ME_Tcp_Stream.thy ===== *)
theory ME_Tcp_Stream
  imports ME_Tcp_Input
begin

text \<open>
  What becomes of the framed requests of a client of the TCP mode: each read takes at most 64 of them; a stream that arrives in small blocks is taken
  completely and in order, and a burst is not.
\<close>

definition framed_as :: "u8 list \<Rightarrow> input_msg_t \<Rightarrow> bool" where
  "framed_as bs m \<longleftrightarrow> 2 \<le> length bs \<and> length bs \<le> 100 \<and> (\<forall>tls. \<exists>tls'. parse_input bs tls = Some (Some m, tls'))"

lemma framed_as_msg_ok: "framed_as bs m \<Longrightarrow> msg_ok bs"
  by (auto simp: framed_as_def msg_ok_def)

lemma framed_as_binary:
  assumes "carries bs m"
  shows "framed_as bs m"
proof -
  have "2 \<le> length bs" "length bs \<le> 27" "bs ! 0 = 0x4D" using carries_start [OF assms] by auto
  with assms show ?thesis by (auto simp: framed_as_def parse_input_def carries_def)
qed

lemma framed_as_csv:
  assumes r: "csv_request bs m" and s: "sendable m"
  shows "framed_as bs m"
proof -
  let ?l = "csv_line (request_fields m)"
  have bs: "bs = map of_char (?l @ [newline])" "length bs < 100" "CHR 0x00 \<notin> set ?l" and
    p: "\<And>p. \<exists>p'. message_parser_parse p ?l = Some (Some m, p')" using r by (auto simp: csv_request_def)
  have "?l \<noteq> []" "csv_start (of_char (hd ?l))" using request_fields_ok [OF s] by auto
  then have "bs ! 0 \<noteq> 0x4D" "2 \<le> length bs" by (cases ?l; auto simp: bs csv_start_def)+
  moreover have t: "takeWhile (\<lambda>c. c \<noteq> CHR 0x00) (map byte_char bs) = ?l @ [newline]"
  proof -
    have "map byte_char bs = ?l @ [newline]" unfolding bs(1) map_map by (rule map_idI) (simp only: o_apply byte_char_of_char)
    moreover have "\<forall>c\<in>set (?l @ [newline]). c \<noteq> CHR 0x00" using bs(3) by auto
    ultimately show ?thesis by (simp only: takeWhile_eq_all_conv)
  qed
  moreover have "length ?l + 1 < MAX_LINE_LENGTH" using bs(1,2) by simp
  ultimately have "parse_input bs tls = map_option (apsnd (\<lambda>p'. tls\<lparr>tls_csv_parser := p'\<rparr>)) (message_parser_parse (tls_csv_parser tls) ?l)" for tls
    using bs(2) by (cases "message_parser_parse (tls_csv_parser tls) ?l") (simp_all add: parse_input_def message_parser_parse_newline case_prod_unfold apsnd_def map_prod_def)
  with p have "\<exists>tls'. parse_input bs tls = Some (Some m, tls')" for tls by fastforce
  with \<open>2 \<le> length bs\<close> bs(2) show ?thesis by (simp add: framed_as_def)
qed

section \<open>The requests a read takes\<close>

fun numbered :: "u32 \<Rightarrow> u64 \<Rightarrow> input_msg_t list \<Rightarrow> input_msg_envelope_t list" where
  "numbered c n [] = []"
| "numbered c n (m # ms) = envelope c n m # numbered c (n + 1) ms"

lemma numbered_append: "numbered c n (a @ b) = numbered c n a @ numbered c (n + of_nat (length a)) b"
  by (induction a arbitrary: n) (simp_all add: add.assoc)

lemma length_numbered [simp]: "length (numbered c n ms) = length ms"
  by (induction ms arbitrary: n) simp_all

text \<open>The requests \<open>ms\<close> are in the queues, with consecutive numbers, and \<open>rest\<close> is left in the buffer.\<close>

definition took_requests :: "nat \<Rightarrow> u32 \<Rightarrow> input_msg_t list \<Rightarrow> u8 list \<Rightarrow> tcp_listener_context_t \<Rightarrow> tcp_listener_context_t \<Rightarrow> bool" where
  "took_requests i c ms rest ctx ctx' \<longleftrightarrow> queues_ok ctx' \<and> same_world ctx ctx'
     \<and> (\<forall>second. inbox ctx' second = inbox ctx second @ filter (\<lambda>e. goes_to (dual ctx) (ie_msg e) second) (numbered c (tc_messages_received (client_at ctx i)) ms))
     \<and> (\<exists>rs b. read_ok rs \<and> pending rs = rest \<and> tl_client_registry ctx' =
          put_client i ((client_at ctx i)\<lparr>tc_read_state := rs, tc_messages_received := tc_messages_received (client_at ctx i) + of_nat (length ms), tc_bytes_received := b\<rparr>)
            (tl_client_registry ctx))"

lemma took_requests_client:
  assumes "took_requests i c ms rest ctx ctx'"
  obtains rs b where "read_ok rs" "pending rs = rest" "client_at ctx' i =
     (client_at ctx i)\<lparr>tc_read_state := rs, tc_messages_received := tc_messages_received (client_at ctx i) + of_nat (length ms), tc_bytes_received := b\<rparr>"
    "tl_client_registry ctx' = put_client i (client_at ctx' i) (tl_client_registry ctx)"
proof -
  from assms obtain rs b where "read_ok rs" "pending rs = rest" "tl_client_registry ctx' =
     put_client i ((client_at ctx i)\<lparr>tc_read_state := rs, tc_messages_received := tc_messages_received (client_at ctx i) + of_nat (length ms), tc_bytes_received := b\<rparr>)
       (tl_client_registry ctx)" unfolding took_requests_def by blast
  then show thesis by (intro that [of rs b]) (simp_all add: client_at_def)
qed

lemma took_requests_trans:
  assumes 1: "took_requests i c ms1 r1 a b" and 2: "took_requests i c ms2 r2 b d"
  shows "took_requests i c (ms1 @ ms2) r2 a d"
proof -
  from 1 obtain rs1 b1 where t1: "client_at b i =
     (client_at a i)\<lparr>tc_read_state := rs1, tc_messages_received := tc_messages_received (client_at a i) + of_nat (length ms1), tc_bytes_received := b1\<rparr>"
    "tl_client_registry b = put_client i (client_at b i) (tl_client_registry a)" by (rule took_requests_client)
  from 2 obtain rs2 b2 where t2: "read_ok rs2" "pending rs2 = r2" "client_at d i =
     (client_at b i)\<lparr>tc_read_state := rs2, tc_messages_received := tc_messages_received (client_at b i) + of_nat (length ms2), tc_bytes_received := b2\<rparr>"
    "tl_client_registry d = put_client i (client_at d i) (tl_client_registry b)" by (rule took_requests_client)
  have "tl_client_registry d = put_client i ((client_at a i)\<lparr>tc_read_state := rs2,
     tc_messages_received := tc_messages_received (client_at a i) + of_nat (length (ms1 @ ms2)), tc_bytes_received := b2\<rparr>) (tl_client_registry a)"
    using t1 t2 by (simp add: add.assoc)
  moreover have "dual b = dual a" "same_world a d" using 1 2 same_world_dual same_world_trans unfolding took_requests_def by blast+
  ultimately show ?thesis using 1 2 t1(1) t2(1,2) unfolding took_requests_def numbered_append by auto
qed

lemma took_requests_registry:
  assumes "took_requests i c ms rest ctx ctx'" and "tcp_registry_ok (tl_client_registry ctx)" and "i \<in> live (tl_client_registry ctx)"
  shows "tcp_registry_ok (tl_client_registry ctx') \<and> live (tl_client_registry ctx') = live (tl_client_registry ctx)"
proof -
  from assms(1) obtain rs b where t: "read_ok rs" "client_at ctx' i =
     (client_at ctx i)\<lparr>tc_read_state := rs, tc_messages_received := tc_messages_received (client_at ctx i) + of_nat (length ms), tc_bytes_received := b\<rparr>"
    "tl_client_registry ctx' = put_client i (client_at ctx' i) (tl_client_registry ctx)" by (rule took_requests_client)
  from tcp_registry_ok_client [OF assms(2,3)] t(1,2) have "client_ok i (client_at ctx' i)" by (simp add: client_ok_def client_at_def)
  from put_client_ok [OF assms(2,3) this] t(3) show ?thesis by simp
qed

lemma took_none:
  assumes "queues_ok ctx" and "read_ok rs" and "pending rs = rest" and "queues_ok ctx'" and "same_world ctx ctx'" and "inbox ctx' = inbox ctx"
    and "tl_client_registry ctx' = put_client i ((client_at ctx i)\<lparr>tc_read_state := rs, tc_bytes_received := b\<rparr>) (tl_client_registry ctx)"
  shows "took_requests i c [] rest ctx ctx'"
  using assms unfolding took_requests_def by (intro conjI exI [of _ rs] exI [of _ b]) auto

lemma take_message_request:
  assumes ok: "queues_ok ctx" and f: "framed_as bs m" and v: "valid_user c m" and rs: "read_ok (tc_read_state (client_at ctx i))"
    and room: "\<And>second. length (inbox ctx second) < LOCKFREE_QUEUE_SIZE - 1"
  shows "\<exists>ctx'. take_message i c bs ctx = Some ctx' \<and> took_requests i c [m] (pending (tc_read_state (client_at ctx i))) ctx ctx'"
proof -
  from f obtain tls where tls: "parse_input bs (tl_tls ctx) = Some (Some m, tls)" by (auto simp: framed_as_def)
  have r: "has_room ctx second" for second using room by (simp add: has_room_def)
  from take_message_valid [OF ok tls v, of i] obtain ctx' where c: "take_message i c bs ctx = Some ctx'" "same_world ctx ctx'" "queues_ok ctx'"
    "inbox ctx' = delivered_to m (envelope c (tc_messages_received (client_at ctx i)) m) ctx"
    "tl_client_registry ctx' = put_client i ((client_at ctx i)\<lparr>tc_messages_received := tc_messages_received (client_at ctx i) + 1\<rparr>) (tl_client_registry ctx)"
    using r by auto
  have "took_requests i c [m] (pending (tc_read_state (client_at ctx i))) ctx ctx'"
    unfolding took_requests_def using c rs room
    by (intro conjI allI exI [of _ "tc_read_state (client_at ctx i)"] exI [of _ "tc_bytes_received (client_at ctx i)"]) (simp_all add: delivered_to_def put_def)
  with c(1) show ?thesis by blast
qed

lemma read_loop_requests:
  assumes "queues_ok ctx" and "read_ok (tc_read_state (client_at ctx i))" and "list_all2 framed_as bss ms" and "\<forall>m\<in>set ms. valid_user c m"
    and "pending (tc_read_state (client_at ctx i)) = concat (map frame bss) @ part" and "partial_frame part"
    and "\<And>second. length (inbox ctx second) + length ms < LOCKFREE_QUEUE_SIZE"
  shows "\<exists>ctx'. read_loop k i c ctx = Some ctx' \<and> took_requests i c (take k ms) (concat (map frame (drop k bss)) @ part) ctx ctx'"
  using assms
proof (induction k arbitrary: ctx bss ms)
  case 0
  then show ?case by (auto intro!: took_none [OF 0(1,2), where b = "tc_bytes_received (client_at ctx i)"] simp: client_self)
next
  case (Suc k)
  let ?t = "client_at ctx i"
  show ?case
  proof (cases bss)
    case Nil
    with Suc.prems(3,5,6) have part: "partial_frame (pending (tc_read_state ?t))" "ms = []" "pending (tc_read_state ?t) = part" by auto
    let ?c = "set_client i (?t\<lparr>tc_read_state := tc_read_state ?t\<rparr>) ctx"
    have "read_loop (Suc k) i c ctx = Some ?c" using partial_frame_extract [OF Suc.prems(2) part(1)] by simp
    moreover have "took_requests i c [] part ctx ?c"
      using Suc.prems(1) part(3) by (intro took_none [OF Suc.prems(1,2), where b = "tc_bytes_received ?t"]) simp_all
    ultimately show ?thesis using Nil part(2) by auto
  next
    case (Cons bs bss')
    with Suc.prems(3) obtain m ms' where ms: "ms = m # ms'" "framed_as bs m" "list_all2 framed_as bss' ms'" by (auto simp: list_all2_Cons1)
    from extract_ready [OF Suc.prems(2) framed_as_msg_ok [OF ms(2)], of "concat (map frame bss') @ part"] Suc.prems(5) Cons obtain st where
      st: "framing_read_extract (tc_read_state ?t) = Some (FRAMING_MESSAGE_READY, Some bs, st)" "read_ok st" "pending st = concat (map frame bss') @ part" by auto
    define c1 where "c1 = set_client i (?t\<lparr>tc_read_state := st\<rparr>) ctx"
    have t1: "took_requests i c [] (pending st) ctx c1"
      using Suc.prems(1) by (intro took_none [OF Suc.prems(1) st(2) refl, where b = "tc_bytes_received ?t"]) (simp_all add: c1_def)
    have "\<exists>c2. take_message i c bs c1 = Some c2 \<and> took_requests i c [m] (pending (tc_read_state (client_at c1 i))) c1 c2"
    proof (rule take_message_request [OF _ ms(2)])
      show "queues_ok c1" "read_ok (tc_read_state (client_at c1 i))" using Suc.prems(1) st(2) by (simp_all add: c1_def)
      show "valid_user c m" using Suc.prems(4) ms(1) by simp
      show "length (inbox c1 second) < LOCKFREE_QUEUE_SIZE - 1" for second using Suc.prems(7) [of second] ms(1) by (simp add: c1_def)
    qed
    then obtain c2 where c2: "take_message i c bs c1 = Some c2" "took_requests i c [m] (pending st) c1 c2" by (auto simp: c1_def)
    have t2: "took_requests i c [m] (pending st) ctx c2" using took_requests_trans [OF t1 c2(2)] by simp
    from t2 obtain rs b where t: "read_ok rs" "pending rs = pending st" "client_at c2 i =
       ?t\<lparr>tc_read_state := rs, tc_messages_received := tc_messages_received ?t + of_nat (length [m]), tc_bytes_received := b\<rparr>" by (rule took_requests_client)
    have l: "length (inbox c2 second) + length ms' < LOCKFREE_QUEUE_SIZE" for second
    proof -
      have "length (inbox c2 second) \<le> length (inbox ctx second) + 1" using t2 unfolding took_requests_def by auto
      with Suc.prems(7) [of second] ms(1) show ?thesis by simp
    qed
    have "queues_ok c2" using t2 by (simp add: took_requests_def)
    from Suc.IH [OF this _ ms(3) _ _ Suc.prems(6) l] t st(3) Suc.prems(4) ms(1) obtain c3 where
      c3: "read_loop k i c c2 = Some c3" "took_requests i c (take k ms') (concat (map frame (drop k bss')) @ part) c2 c3" by auto
    have "bs \<noteq> []" using ms(2) by (auto simp: framed_as_def)
    then have "read_loop (Suc k) i c ctx = Some c3" using st(1) c2(1) c3(1) by (simp add: c1_def asserts)
    with took_requests_trans [OF t2 c3(2)] show ?thesis using ms(1) Cons by simp
  qed
qed

text \<open>One read, when the received bytes fit.\<close>

lemma read_block:
  assumes ok: "queues_ok ctx" "tcp_registry_ok (tl_client_registry ctx)" and i: "i \<in> live (tl_client_registry ctx)"
    and fs: "list_all2 framed_as bss ms" and v: "\<forall>m\<in>set ms. valid_user (tcp_id i) m" and b: "b \<noteq> []"
    and p: "pending (tc_read_state (client_at ctx i)) @ b = concat (map frame bss) @ part" "partial_frame part"
    and fits: "length (concat (map frame bss) @ part) \<le> FRAMING_BUFFER_SIZE"
    and room: "\<And>second. length (inbox ctx second) + length ms < LOCKFREE_QUEUE_SIZE"
  shows "\<exists>ctx'. handle_client_read (Recv_bytes b) (tcp_id i) ctx = Some ctx'
     \<and> took_requests i (tcp_id i) (take MAX_MESSAGES_PER_READ ms) (concat (map frame (drop MAX_MESSAGES_PER_READ bss)) @ part) ctx ctx'"
proof -
  let ?t = "client_at ctx i" and ?c = "tcp_id i"
  have "client_ok i ?t" using tcp_registry_ok_client [OF ok(2) i] by (simp add: client_at_def)
  then have rs: "read_ok (tc_read_state ?t)" by (simp add: client_ok_def)
  obtain tls where tls: "ensure_parsers_initialized (tl_tls ctx) = Some tls" using ensure_parsers_total by blast
  have len: "fr_buffer_pos (tc_read_state ?t) + length b \<le> FRAMING_BUFFER_SIZE" using arg_cong [OF p(1), of length] fits by simp
  then have "min (length b) (FRAMING_BUFFER_SIZE - fr_buffer_pos (tc_read_state ?t)) = length b" by simp
  with framing_read_append_ok [OF rs, of b] len obtain st where
    st: "framing_read_append (tc_read_state ?t) b = Some (length b, st)" "read_ok st" "pending st = concat (map frame bss) @ part"
    using p(1) by auto
  define c1 where "c1 = set_client i (?t\<lparr>tc_bytes_received := tc_bytes_received ?t + of_nat (length b), tc_read_state := st\<rparr>)
     (ctx\<lparr>tl_tls := tls, tl_total_bytes_received := tl_total_bytes_received ctx + of_nat (length b)\<rparr>)"
  have run: "handle_client_read (Recv_bytes b) ?c ctx = read_loop MAX_MESSAGES_PER_READ i ?c c1"
    using b tcp_client_get_live [OF i] tls st(1) by (simp add: handle_client_read_def c1_def Let_def)
  have c1: "queues_ok c1" "inbox c1 = inbox ctx" "tc_read_state (client_at c1 i) = st" using ok(1) by (simp_all add: c1_def)
  have t1: "took_requests i ?c [] (pending st) ctx c1"
    using ok(1) by (intro took_none [OF ok(1) st(2) refl, where b = "tc_bytes_received ?t + of_nat (length b)"]) (simp_all add: c1_def bytes_then_state)
  from read_loop_requests [OF c1(1) _ fs v _ p(2), where k = MAX_MESSAGES_PER_READ] c1 st room obtain c2 where
    c2: "read_loop MAX_MESSAGES_PER_READ i ?c c1 = Some c2"
      "took_requests i ?c (take MAX_MESSAGES_PER_READ ms) (concat (map frame (drop MAX_MESSAGES_PER_READ bss)) @ part) c1 c2" by auto
  with took_requests_trans [OF t1 c2(2)] run show ?thesis by simp
qed

section \<open>Small blocks, and a burst\<close>

fun read_blocks :: "u8 list list \<Rightarrow> u32 \<Rightarrow> tcp_listener_context_t \<Rightarrow> tcp_listener_context_t option" where
  "read_blocks [] c ctx = Some ctx"
| "read_blocks (b # bs) c ctx = Option.bind (handle_client_read (Recv_bytes b) c ctx) (read_blocks bs c)"

lemma framed_as_all: "list_all2 framed_as bss ms \<Longrightarrow> \<forall>bs\<in>set bss. msg_ok bs"
  by (induction rule: list_all2_induct) (auto simp: framed_as_msg_ok)

lemma length_framed: "list_all2 framed_as bss ms \<Longrightarrow> 6 * length bss \<le> length (concat (map frame bss)) \<and> length (concat (map frame bss)) \<le> 104 * length bss"
  by (induction rule: list_all2_induct) (auto simp: framed_as_def)

text \<open>What is left in the buffer before a request is complete is short.\<close>

lemma partial_request:
  assumes "read_ok st" and "partial_frame (pending st)" and fs: "list_all2 framed_as bss ms" and eq: "concat (map frame bss) = pending st @ r"
  shows "length (pending st) < 104" and "r = [] \<Longrightarrow> bss = []"
proof -
  have "bss = [] \<and> pending st = [] \<or> (\<exists>bs bss' m ms'. bss = bs # bss' \<and> ms = m # ms' \<and> framed_as bs m \<and> length (pending st) < length (frame bs))"
  proof (cases bss)
    case (Cons bs bss')
    with fs obtain m ms' where ms: "ms = m # ms'" "framed_as bs m" by (auto simp: list_all2_Cons1)
    have "length (pending st) < length (frame bs)"
    proof (rule ccontr)
      assume "\<not> ?thesis"
      then have "frame bs = take (length (frame bs)) (pending st)"
        using arg_cong [OF eq, of "take (length (frame bs))"] Cons by simp
      then have "pending st = frame bs @ drop (length (frame bs)) (pending st)" by (metis append_take_drop_id)
      from extract_ready [OF assms(1) framed_as_msg_ok [OF ms(2)] this] partial_frame_extract [OF assms(1,2)] show False by auto
    qed
    with Cons ms show ?thesis by blast
  qed (use eq in simp)
  then show "length (pending st) < 104" "r = [] \<Longrightarrow> bss = []"
    using arg_cong [OF eq, of length] by (auto simp: framed_as_def)
qed

theorem read_stream:
  assumes "queues_ok ctx" "tcp_registry_ok (tl_client_registry ctx)" and "i \<in> live (tl_client_registry ctx)"
    and "list_all2 framed_as bss ms" and "\<forall>m\<in>set ms. valid_user (tcp_id i) m"
    and "concat (map frame bss) = pending (tc_read_state (client_at ctx i)) @ concat blocks" and "partial_frame (pending (tc_read_state (client_at ctx i)))"
    and "\<forall>b\<in>set blocks. b \<noteq> [] \<and> length b \<le> 256"
    and "\<And>second. length (inbox ctx second) + length ms < LOCKFREE_QUEUE_SIZE"
  shows "\<exists>ctx'. read_blocks blocks (tcp_id i) ctx = Some ctx' \<and> took_requests i (tcp_id i) ms [] ctx ctx'"
  using assms
proof (induction blocks arbitrary: ctx bss ms)
  case Nil
  let ?st = "tc_read_state (client_at ctx i)"
  have rs: "read_ok ?st" using tcp_registry_ok_client [OF Nil(2,3)] by (simp add: client_ok_def client_at_def)
  have "bss = []" using partial_request(2) [OF rs Nil(7,4), of "[]"] Nil(6) by simp
  with Nil have "ms = []" "pending ?st = []" by auto
  then show ?case using Nil(1) rs by (auto intro!: took_none [where rs = ?st and b = "tc_bytes_received (client_at ctx i)"] simp: client_self)
next
  case (Cons b blocks)
  let ?st = "tc_read_state (client_at ctx i)" and ?c = "tcp_id i"
  have rs: "read_ok ?st" using tcp_registry_ok_client [OF Cons.prems(2,3)] by (simp add: client_ok_def client_at_def)
  from stream_prefix [OF framed_as_all [OF Cons.prems(4)], of "pending ?st @ b" "concat blocks"] Cons.prems(6) obtain bss1 bss2 part where
    p: "bss = bss1 @ bss2" "pending ?st @ b = concat (map frame bss1) @ part" "partial_frame part" "concat (map frame bss2) = part @ concat blocks" by auto
  from Cons.prems(4) p(1) obtain ms1 ms2 where ms: "ms = ms1 @ ms2" "list_all2 framed_as bss1 ms1" "list_all2 framed_as bss2 ms2"
    by (auto simp: list_all2_append1)
  have small: "length (pending ?st @ b) \<le> 103 + 256"
    using partial_request(1) [OF rs Cons.prems(7,4), of "concat (b # blocks)"] Cons.prems(6,8) by auto
  have "6 * length bss1 \<le> 103 + 256" using length_framed [OF ms(2)] arg_cong [OF p(2), of length] small by simp
  moreover have "length bss1 = length ms1" using ms(2) by (rule list_all2_lengthD)
  ultimately have few: "length ms1 \<le> MAX_MESSAGES_PER_READ" "length bss1 \<le> MAX_MESSAGES_PER_READ" by linarith+
  have fits: "length (concat (map frame bss1) @ part) \<le> FRAMING_BUFFER_SIZE" unfolding p(2) [symmetric] using small by linarith
  have v: "\<forall>m\<in>set ms1. valid_user ?c m" "b \<noteq> []" using Cons.prems(5,8) ms(1) by auto
  have room: "length (inbox ctx second) + length ms1 < LOCKFREE_QUEUE_SIZE" for second using Cons.prems(9) [of second] ms(1) by simp
  from read_block [OF Cons.prems(1-3) ms(2) v p(2,3) fits room] few obtain c1 where
    c1: "handle_client_read (Recv_bytes b) ?c ctx = Some c1" "took_requests i ?c ms1 part ctx c1" by auto
  from c1(2) obtain rs1 b1 where t: "pending rs1 = part" "client_at c1 i =
     (client_at ctx i)\<lparr>tc_read_state := rs1, tc_messages_received := tc_messages_received (client_at ctx i) + of_nat (length ms1), tc_bytes_received := b1\<rparr>"
    by (rule took_requests_client)
  have reg: "tcp_registry_ok (tl_client_registry c1)" "i \<in> live (tl_client_registry c1)" "queues_ok c1"
    using took_requests_registry [OF c1(2) Cons.prems(2,3)] Cons.prems(3) c1(2) by (auto simp: took_requests_def)
  have room2: "length (inbox c1 second) + length ms2 < LOCKFREE_QUEUE_SIZE" for second
  proof -
    have "length (inbox c1 second) \<le> length (inbox ctx second) + length ms1"
      using c1(2) length_filter_le [of _ "numbered ?c (tc_messages_received (client_at ctx i)) ms1"] by (auto simp: took_requests_def)
    with Cons.prems(9) [of second] ms(1) show ?thesis by simp
  qed
  from Cons.IH [OF reg(3,1,2) ms(3) _ _ _ _ room2] Cons.prems(5,8) ms(1) p(3,4) t obtain c2 where
    c2: "read_blocks blocks ?c c1 = Some c2" "took_requests i ?c ms2 [] c1 c2" by auto
  with took_requests_trans [OF c1(2) c2(2)] c1(1) ms(1) show ?case by simp
qed

text \<open>
  A burst: the first read takes 64 requests and leaves the others in the buffer; when the bytes of the next read do not fit beside them, the buffer is
  cleared, with all requests in it.
\<close>

lemma read_overflow:
  assumes ok: "queues_ok ctx" "tcp_registry_ok (tl_client_registry ctx)" and i: "i \<in> live (tl_client_registry ctx)"
    and over: "length (pending (tc_read_state (client_at ctx i))) + length b > FRAMING_BUFFER_SIZE"
  shows "\<exists>ctx'. handle_client_read (Recv_bytes b) (tcp_id i) ctx = Some ctx' \<and> took_requests i (tcp_id i) [] [] ctx ctx'"
proof -
  let ?t = "client_at ctx i" and ?c = "tcp_id i"
  have "client_ok i ?t" using tcp_registry_ok_client [OF ok(2) i] by (simp add: client_at_def)
  then have rs: "read_ok (tc_read_state ?t)" by (simp add: client_ok_def)
  then have b: "b \<noteq> []" using over by (auto simp: read_ok_def)
  obtain tls where tls: "ensure_parsers_initialized (tl_tls ctx) = Some tls" using ensure_parsers_total by blast
  have "FRAMING_BUFFER_SIZE - fr_buffer_pos (tc_read_state ?t) < length b" using over rs by (simp add: read_ok_def)
  with framing_read_append_ok [OF rs, of b] obtain n st where
    st: "framing_read_append (tc_read_state ?t) b = Some (n, st)" "n < length b" by auto
  from framing_read_state_init_ok [of st] obtain st' where st': "framing_read_state_init st = Some st'" "read_ok st'" "pending st' = []" by blast
  define c1 where "c1 = set_client i (?t\<lparr>tc_bytes_received := tc_bytes_received ?t + of_nat (length b), tc_read_state := st'\<rparr>)
     (ctx\<lparr>tl_tls := tls, tl_total_bytes_received := tl_total_bytes_received ctx + of_nat (length b)\<rparr>)"
  have "handle_client_read (Recv_bytes b) ?c ctx = Some c1"
    using b tcp_client_get_live [OF i] tls st st'(1) by (simp add: handle_client_read_def c1_def Let_def)
  moreover have "took_requests i ?c [] [] ctx c1"
    using ok(1) by (intro took_none [OF ok(1) st'(2,3), where b = "tc_bytes_received ?t + of_nat (length b)"]) (simp_all add: c1_def bytes_then_state)
  ultimately show ?thesis by blast
qed

theorem burst_lost:
  assumes ok: "queues_ok ctx" "tcp_registry_ok (tl_client_registry ctx)" and i: "i \<in> live (tl_client_registry ctx)"
    and fs: "list_all2 framed_as bss ms" and v: "\<forall>m\<in>set ms. valid_user (tcp_id i) m" and ne: "bss \<noteq> []"
    and new: "pending (tc_read_state (client_at ctx i)) = []" and b: "length (concat (map frame bss)) \<le> MAX_READ_BUFFER"
    and over: "length (concat (map frame (drop MAX_MESSAGES_PER_READ bss))) + length b2 > FRAMING_BUFFER_SIZE"
    and room: "\<And>second. length (inbox ctx second) + length ms < LOCKFREE_QUEUE_SIZE"
  shows "\<exists>ctx'. read_blocks [concat (map frame bss), b2] (tcp_id i) ctx = Some ctx' \<and> took_requests i (tcp_id i) (take MAX_MESSAGES_PER_READ ms) [] ctx ctx'"
proof -
  let ?c = "tcp_id i"
  have "0 < length (concat (map frame bss))" using ne length_framed [OF fs] by (cases bss) simp_all
  then have "concat (map frame bss) \<noteq> []" unfolding length_greater_0_conv .
  moreover have "length (concat (map frame bss) @ []) \<le> FRAMING_BUFFER_SIZE" using b by simp
  ultimately obtain c1 where c1: "handle_client_read (Recv_bytes (concat (map frame bss))) ?c ctx = Some c1"
    "took_requests i ?c (take MAX_MESSAGES_PER_READ ms) (concat (map frame (drop MAX_MESSAGES_PER_READ bss))) ctx c1"
    using read_block [OF ok i fs v _ _ partial_frame_Nil _ room, of "concat (map frame bss)"] new by auto
  have reg: "tcp_registry_ok (tl_client_registry c1)" "i \<in> live (tl_client_registry c1)" "queues_ok c1"
    using took_requests_registry [OF c1(2) ok(2) i] i c1(2) by (auto simp: took_requests_def)
  from c1(2) obtain rs n where "pending rs = concat (map frame (drop MAX_MESSAGES_PER_READ bss))" "client_at c1 i = (client_at ctx i)\<lparr>tc_read_state := rs,
     tc_messages_received := tc_messages_received (client_at ctx i) + of_nat (length (take MAX_MESSAGES_PER_READ ms)), tc_bytes_received := n\<rparr>"
    by (rule took_requests_client)
  with over have "length (pending (tc_read_state (client_at c1 i))) + length b2 > FRAMING_BUFFER_SIZE" by simp
  from read_overflow [OF reg(3,1,2) this] obtain c2 where c2: "handle_client_read (Recv_bytes b2) ?c c1 = Some c2" "took_requests i ?c [] [] c1 c2" by blast
  with took_requests_trans [OF c1(2) c2(2)] c1(1) show ?thesis by simp
qed

end
