(* ===== verification/ME_Tcp_Safe.thy ===== *)
theory ME_Tcp_Safe
  imports ME_Tcp_Output ME_Tcp_Stream
begin

text \<open>
  The event loop of the TCP mode as a whole: the invariant every event keeps, the only ways it can abort, and the delivery of what is queued for the clients.
\<close>

section \<open>The effects keep the invariant\<close>

abbreviation lives :: "tcp_listener_context_t \<Rightarrow> nat set" where "lives ctx \<equiv> live (tl_client_registry ctx)"

abbreviation fd_of :: "tcp_listener_context_t \<Rightarrow> nat \<Rightarrow> int" where "fd_of ctx i \<equiv> tc_socket_fd (client_at ctx i)"

abbreviation queued :: "tcp_listener_context_t \<Rightarrow> nat \<Rightarrow> output_msg_t list" where "queued ctx i \<equiv> contents (tc_output_queue (client_at ctx i))"

definition conn_ok :: "tcp_listener_context_t \<Rightarrow> nat \<Rightarrow> bool" where
  "conn_ok ctx j \<longleftrightarrow> client_writes_ok (lc_use_binary_output (tl_config ctx)) (client_at ctx j)
     \<and> tl_epoll ctx (fd_of ctx j) = Some (tc_has_pending_write (client_at ctx j)) \<and> fd_of ctx j \<noteq> tl_listen_fd ctx"

text \<open>The invariant, apart from the connection \<open>i\<close>.\<close>

definition ok_but :: "nat \<Rightarrow> tcp_listener_context_t \<Rightarrow> bool" where
  "ok_but i ctx \<longleftrightarrow> queues_ok ctx \<and> tcp_registry_ok (tl_client_registry ctx) \<and> inj_on (fd_of ctx) (lives ctx) \<and> (\<forall>j\<in>lives ctx - {i}. conn_ok ctx j)"

lemma listener_ok_but: "listener_ok ctx \<Longrightarrow> ok_but i ctx"
  by (auto simp: listener_ok_def ok_but_def conn_ok_def)

lemma listener_okI: "ok_but i ctx \<Longrightarrow> (i \<in> lives ctx \<Longrightarrow> conn_ok ctx i) \<Longrightarrow> listener_ok ctx"
  unfolding listener_ok_def ok_but_def conn_ok_def [symmetric] by blast

lemma listener_ok_conn: "listener_ok ctx \<Longrightarrow> i \<in> lives ctx \<Longrightarrow> conn_ok ctx i"
  by (simp add: listener_ok_def conn_ok_def)

lemma client_at_put:
  assumes "tl_client_registry ctx' = put_client i t (tl_client_registry ctx)"
  shows "client_at ctx' j = (if j = i then t else client_at ctx j)"
  using assms by (simp add: client_at_def)

text \<open>One client is replaced by another in the same slot with the same descriptor.\<close>

lemma put_ok_but:
  assumes ok: "listener_ok ctx" and i: "i \<in> lives ctx" and t: "client_ok i t" "tc_socket_fd t = fd_of ctx i"
    and r: "tl_client_registry ctx' = put_client i t (tl_client_registry ctx)" and q: "queues_ok ctx'"
    and same: "tl_config ctx' = tl_config ctx" "tl_listen_fd ctx' = tl_listen_fd ctx" "\<And>fd. fd \<noteq> fd_of ctx i \<Longrightarrow> tl_epoll ctx' fd = tl_epoll ctx fd"
  shows "ok_but i ctx'" and "lives ctx' = lives ctx"
proof -
  have reg: "tcp_registry_ok (tl_client_registry ctx)" and inj: "inj_on (fd_of ctx) (lives ctx)" using ok by (simp_all add: listener_ok_def)
  note p = put_client_ok [OF reg i t(1)]
  show l: "lives ctx' = lives ctx" unfolding r by (rule p(2))
  have fd: "fd_of ctx' = fd_of ctx" by (rule ext) (simp add: client_at_put [OF r] t(2))
  have "conn_ok ctx' j" if "j \<in> lives ctx" "j \<noteq> i" for j
  proof -
    have "fd_of ctx j \<noteq> fd_of ctx i" using inj that i by (auto dest: inj_onD)
    with listener_ok_conn [OF ok that(1)] that(2) same show ?thesis by (simp add: conn_ok_def client_at_put [OF r])
  qed
  then show "ok_but i ctx'" unfolding ok_but_def l fd using q p(1) r inj by simp
qed

lemma read_effect_ok:
  assumes ok: "listener_ok ctx" and i: "i \<in> lives ctx" and e: "read_effect i c ctx ctx'"
  shows "listener_ok ctx'" and "lives ctx' = lives ctx" and "queued ctx' = queued ctx" and "fd_of ctx' = fd_of ctx" and "tl_wire ctx' = tl_wire ctx"
    and "\<And>j. j \<noteq> i \<Longrightarrow> client_at ctx' j = client_at ctx j" and "\<And>b. outstanding b (client_at ctx' j) = outstanding b (client_at ctx j)"
proof -
  from e obtain rs n b where r: "tl_client_registry ctx' = put_client i ((client_at ctx i)\<lparr>tc_read_state := rs, tc_messages_received := n, tc_bytes_received := b\<rparr>) (tl_client_registry ctx)"
    and rs: "read_ok rs" and q: "queues_ok ctx'" and w: "same_world ctx ctx'" unfolding read_effect_def by blast
  let ?t = "(client_at ctx i)\<lparr>tc_read_state := rs, tc_messages_received := n, tc_bytes_received := b\<rparr>"
  have t: "client_ok i ?t" using listener_ok_client(1) [OF ok i] rs by (simp add: client_ok_def)
  have b: "ok_but i ctx'" "lives ctx' = lives ctx"
    using put_ok_but [OF ok i t _ r q] w by (simp_all add: same_world_def)
  have "conn_ok ctx' i" using listener_ok_conn [OF ok i] w by (simp add: conn_ok_def client_at_put [OF r] same_world_def client_writes_ok_def)
  with b show "listener_ok ctx'" by (intro listener_okI)
  show "lives ctx' = lives ctx" by (rule b(2))
  show "queued ctx' = queued ctx" "fd_of ctx' = fd_of ctx" by (simp_all add: fun_eq_iff client_at_put [OF r])
  show "tl_wire ctx' = tl_wire ctx" using w by (simp add: same_world_def)
  show "\<And>j. j \<noteq> i \<Longrightarrow> client_at ctx' j = client_at ctx j" by (simp add: client_at_put [OF r])
  show "\<And>b. outstanding b (client_at ctx' j) = outstanding b (client_at ctx j)" by (simp add: client_at_put [OF r] outstanding_def unsent_def)
qed

lemma out_step_ok:
  assumes ok: "listener_ok ctx" and i: "i \<in> lives ctx" and e: "out_step i ctx ctx'"
  shows "ok_but i ctx'" and "lives ctx' = lives ctx" and "fd_of ctx' = fd_of ctx" and "\<exists>k. queued ctx' i = drop k (queued ctx i)"
    and "\<And>j. j \<noteq> i \<Longrightarrow> client_at ctx' j = client_at ctx j"
proof -
  from e have r: "tl_client_registry ctx' = put_client i (client_at ctx' i) (tl_client_registry ctx)" and t: "client_ok i (client_at ctx' i)" "fd_of ctx' i = fd_of ctx i"
    and q: "queues_ok ctx'" and same: "tl_config ctx' = tl_config ctx" "tl_listen_fd ctx' = tl_listen_fd ctx" "\<And>fd. fd \<noteq> fd_of ctx i \<Longrightarrow> tl_epoll ctx' fd = tl_epoll ctx fd"
    and k: "\<exists>k. queued ctx' i = drop k (queued ctx i)"
    using ok unfolding out_step_def by (auto simp: listener_ok_def)
  show "ok_but i ctx'" by (rule put_ok_but(1) [OF ok i t r q same])
  show "lives ctx' = lives ctx" by (rule put_ok_but(2) [OF ok i t r q same])
  show at: "client_at ctx' j = client_at ctx j" if "j \<noteq> i" for j using client_at_put [OF r, of j] that by simp
  show "fd_of ctx' = fd_of ctx" using at t(2) by (metis ext)
  show "\<exists>k. queued ctx' i = drop k (queued ctx i)" by (rule k)
qed

lemma write_effect_ok:
  assumes "listener_ok ctx" and "i \<in> lives ctx" and "write_effect i ctx ctx'"
  shows "listener_ok ctx'"
proof (rule listener_okI)
  have e: "out_step i ctx ctx'" using assms(3) by (simp add: write_effect_def)
  show "ok_but i ctx'" by (rule out_step_ok(1) [OF assms(1,2) e])
  show "conn_ok ctx' i" using assms(3) listener_ok_conn [OF assms(1,2)] unfolding write_effect_def out_step_def conn_ok_def by metis
qed

lemma disconnect_client_ok:
  assumes ok: "ok_but i ctx" and i: "i \<in> lives ctx"
  shows "if queued ctx i = [] then \<exists>ctx'. disconnect_client (tcp_id i) ctx = Some ctx' \<and> listener_ok ctx' \<and> lives ctx' = lives ctx - {i}
       \<and> (\<forall>j\<in>lives ctx'. client_at ctx' j = client_at ctx j) \<and> inbox ctx' = inbox ctx \<and> tl_wire ctx' = tl_wire ctx \<and> tl_config ctx' = tl_config ctx
       \<and> tl_listen_fd ctx' = tl_listen_fd ctx \<and> tl_num_input_queues ctx' = tl_num_input_queues ctx \<and> tl_shutdown_flag ctx' = tl_shutdown_flag ctx
     else disconnect_client (tcp_id i) ctx = None"
proof -
  have reg: "tcp_registry_ok (tl_client_registry ctx)" and inj: "inj_on (fd_of ctx) (lives ctx)" using ok by (simp_all add: ok_but_def)
  note r = tcp_client_remove_ok [OF reg i] and get = tcp_client_get_live [OF i]
  show ?thesis
  proof (cases "queued ctx i = []")
    case False
    with r show ?thesis by (simp add: disconnect_client_def get client_at_def epoll_del_def)
  next
    case True
    with r obtain reg' where reg': "tcp_client_remove (tcp_id i) (tl_client_registry ctx) = Some reg'" "tcp_registry_ok reg'" "live reg' = lives ctx - {i}"
      "\<forall>j\<in>live reg'. tg_clients reg' j = tg_clients (tl_client_registry ctx) j" by (auto simp: client_at_def)
    define ctx' where "ctx' = (epoll_del (fd_of ctx i) ctx)\<lparr>tl_client_registry := reg'\<rparr>"
    have run: "disconnect_client (tcp_id i) ctx = Some ctx'" using reg'(1) by (simp add: disconnect_client_def get ctx'_def epoll_del_def)
    have l: "lives ctx' = lives ctx - {i}" using reg'(3) by (simp add: ctx'_def)
    have same: "client_at ctx' j = client_at ctx j" if "j \<in> lives ctx'" for j using that reg'(4) by (simp add: ctx'_def client_at_def)
    have "inj_on (fd_of ctx') (lives ctx')" using inj same unfolding l by (auto simp: inj_on_def)
    moreover have "conn_ok ctx' j" if j: "j \<in> lives ctx'" for j
    proof -
      have "j \<in> lives ctx" "j \<noteq> i" using j l by auto
      moreover from this have "fd_of ctx j \<noteq> fd_of ctx i" using inj i by (auto dest: inj_onD)
      ultimately show ?thesis using ok same [OF j] by (auto simp: ok_but_def conn_ok_def ctx'_def epoll_del_def)
    qed
    moreover have "inbox ctx' = inbox ctx" "queues_ok ctx' = queues_ok ctx" by (simp_all add: ctx'_def epoll_del_def inbox_def queues_ok_def dual_def fun_eq_iff)
    ultimately have "listener_ok ctx'" using ok reg'(2) unfolding listener_ok_def conn_ok_def [symmetric] by (simp add: ok_but_def ctx'_def)
    with run l same \<open>inbox ctx' = inbox ctx\<close> True show ?thesis by (auto simp: ctx'_def epoll_del_def)
  qed
qed

section \<open>A new connection\<close>

definition accept_ok :: "accept_result \<Rightarrow> tcp_listener_context_t \<Rightarrow> bool" where
  "accept_ok r ctx \<longleftrightarrow> (\<forall>fd addr nb rg. r = Accepted fd addr nb rg \<longrightarrow> 0 \<le> fd \<and> fd \<noteq> tl_listen_fd ctx \<and> fd \<notin> fd_of ctx ` lives ctx)"

theorem handle_new_connection_ok:
  assumes ok: "listener_ok ctx" and r: "accept_ok r ctx"
  shows "\<exists>ctx'. handle_new_connection r now ctx = Some ctx' \<and> listener_ok ctx' \<and> inbox ctx' = inbox ctx \<and> tl_wire ctx' = tl_wire ctx \<and> tl_config ctx' = tl_config ctx
     \<and> tl_listen_fd ctx' = tl_listen_fd ctx \<and> (\<forall>j\<in>lives ctx. j \<in> lives ctx' \<and> client_at ctx' j = client_at ctx j) \<and> (\<forall>j\<in>lives ctx' - lives ctx. queued ctx' j = [])"
proof (cases "\<exists>fd addr rg. r = Accepted fd addr True rg")
  case False
  then have "handle_new_connection r now ctx = Some ctx" by (cases r) (auto simp: handle_new_connection_def)
  with ok show ?thesis by auto
next
  case True
  then obtain fd addr rg where a: "r = Accepted fd addr True rg" by blast
  with r have fd: "0 \<le> fd" "fd \<noteq> tl_listen_fd ctx" "fd \<notin> fd_of ctx ` lives ctx" unfolding accept_ok_def by blast+
  have reg: "tcp_registry_ok (tl_client_registry ctx)" and inj: "inj_on (fd_of ctx) (lives ctx)" using ok by (simp_all add: listener_ok_def)
  show ?thesis
  proof (cases "card (lives ctx) < MAX_TCP_CLIENTS")
    case False
    then have "tcp_client_add fd addr now (tl_client_registry ctx) = Some (None, tl_client_registry ctx)"
      using reg fd(1) by (simp add: tcp_client_add_def tcp_registry_ok_def asserts)
    then have "handle_new_connection r now ctx = Some ctx" by (simp add: handle_new_connection_def a)
    with ok show ?thesis by auto
  next
    case room: True
    from tcp_client_add_ok [OF reg room fd(1), of addr now] obtain i t reg' where
      add: "tcp_client_add fd addr now (tl_client_registry ctx) = Some (Some (tcp_id i), reg')" and i: "i < MAX_TCP_CLIENTS" "i \<notin> lives ctx" and
      reg': "tcp_registry_ok reg'" "tg_clients reg' = (tg_clients (tl_client_registry ctx))(i := t)" "live reg' = insert i (lives ctx)" "client_ok i t" "blank_client fd t" by blast
    have same: "tg_clients reg' j = client_at ctx j" if "j \<in> lives ctx" for j using that i(2) by (auto simp: reg'(2) client_at_def)
    show ?thesis
    proof (cases rg)
      case False
      have il: "i \<in> live reg'" using reg'(3) by simp
      have "contents (tc_output_queue (tg_clients reg' i)) = []" using reg'(2,5) by (simp add: blank_client_def)
      with tcp_client_remove_ok [OF reg'(1) il] obtain reg2 where reg2: "tcp_client_remove (tcp_id i) reg' = Some reg2" "tcp_registry_ok reg2"
        "live reg2 = live reg' - {i}" "\<forall>j\<in>live reg2. tg_clients reg2 j = tg_clients reg' j" by auto
      have l: "live reg2 = lives ctx" using reg2(3) reg'(3) i(2) by auto
      define ctx' where "ctx' = ctx\<lparr>tl_client_registry := reg2\<rparr>"
      have run: "handle_new_connection r now ctx = Some ctx'" using False add reg2(1) by (simp add: handle_new_connection_def a ctx'_def)
      have at: "client_at ctx' j = client_at ctx j" if "j \<in> lives ctx" for j using that same reg2(4) l by (simp add: ctx'_def client_at_def)
      have "inbox ctx' = inbox ctx" "queues_ok ctx' = queues_ok ctx" "lives ctx' = lives ctx" using l by (simp_all add: ctx'_def inbox_def queues_ok_def dual_def fun_eq_iff)
      moreover from this have "listener_ok ctx'"
        using ok reg2(2) at inj_on_cong [of "lives ctx" "fd_of ctx'" "fd_of ctx"] unfolding listener_ok_def by (simp add: ctx'_def)
      ultimately show ?thesis using run at by (auto simp: ctx'_def)
    next
      case True
      define ctx' where "ctx' = ctx\<lparr>tl_client_registry := reg', tl_epoll := (tl_epoll ctx)(fd \<mapsto> False), tl_total_connections := tl_total_connections ctx + 1\<rparr>"
      have run: "handle_new_connection r now ctx = Some ctx'" using True add by (simp add: handle_new_connection_def a ctx'_def)
      have at: "client_at ctx' j = client_at ctx j" if "j \<in> lives ctx" for j using that same by (simp add: ctx'_def client_at_def)
      have ati: "client_at ctx' i = t" by (simp add: ctx'_def client_at_def reg'(2))
      have l: "lives ctx' = insert i (lives ctx)" by (simp add: ctx'_def reg'(3))
      have t: "tc_socket_fd t = fd" "contents (tc_output_queue t) = []" "\<not> tc_has_pending_write t" using reg'(5) by (simp_all add: blank_client_def)
      have q: "inbox ctx' = inbox ctx" "queues_ok ctx' = queues_ok ctx" by (simp_all add: ctx'_def inbox_def queues_ok_def dual_def fun_eq_iff)
      have "inj_on (fd_of ctx') (lives ctx)" using inj inj_on_cong [of "lives ctx" "fd_of ctx'" "fd_of ctx"] at by simp
      moreover have "fd_of ctx' ` lives ctx = fd_of ctx ` lives ctx" using at by (intro image_cong) simp_all
      ultimately have "inj_on (fd_of ctx') (lives ctx')" unfolding l inj_on_insert ati t(1) using fd(3) i(2) by simp
      moreover have "conn_ok ctx' i" using t fd(2) by (simp add: conn_ok_def ati client_writes_ok_def) (simp add: ctx'_def)
      moreover have "conn_ok ctx' j" if "j \<in> lives ctx" for j
        using listener_ok_conn [OF ok that] at [OF that] fd(3) that by (auto simp: conn_ok_def ctx'_def)
      ultimately have "listener_ok ctx'" using ok q reg'(1) unfolding listener_ok_def conn_ok_def [symmetric] l by (auto simp: ctx'_def)
      moreover have "tl_wire ctx' = tl_wire ctx" "tl_config ctx' = tl_config ctx" "tl_listen_fd ctx' = tl_listen_fd ctx" by (simp_all add: ctx'_def)
      moreover have "\<forall>j\<in>lives ctx. j \<in> lives ctx' \<and> client_at ctx' j = client_at ctx j" using at l by simp
      moreover have "\<forall>j\<in>lives ctx' - lives ctx. queued ctx' j = []" using l ati t(2) by auto
      ultimately show ?thesis using run q(1) by blast
    qed
  qed
qed

section \<open>Events\<close>

text \<open>New requests in the queues are those of the user they came from.\<close>

definition only_own :: "tcp_listener_context_t \<Rightarrow> tcp_listener_context_t \<Rightarrow> bool" where
  "only_own ctx ctx' \<longleftrightarrow> (\<forall>k. \<exists>new. inbox ctx' k = inbox ctx k @ new \<and> (\<forall>e\<in>set new. valid_user (ie_client_id e) (ie_msg e)))"

lemma only_own_same: "inbox ctx' = inbox ctx \<Longrightarrow> only_own ctx ctx'"
  by (simp add: only_own_def)

lemma only_own_trans:
  assumes "only_own a b" and "only_own b c"
  shows "only_own a c"
  unfolding only_own_def
proof
  fix k
  from assms obtain x y where "inbox b k = inbox a k @ x" "inbox c k = inbox b k @ y" "\<forall>e\<in>set x. valid_user (ie_client_id e) (ie_msg e)" "\<forall>e\<in>set y. valid_user (ie_client_id e) (ie_msg e)"
    unfolding only_own_def by metis
  then show "\<exists>new. inbox c k = inbox a k @ new \<and> (\<forall>e\<in>set new. valid_user (ie_client_id e) (ie_msg e))" by (intro exI [of _ "x @ y"]) auto
qed

lemma stamped_only_own: "stamped c ctx ctx' \<Longrightarrow> only_own ctx ctx'"
  unfolding stamped_def only_own_def by metis

text \<open>Nothing is queued for the clients by the listener itself.\<close>

definition calm :: "tcp_listener_context_t \<Rightarrow> tcp_listener_context_t \<Rightarrow> bool" where
  "calm ctx ctx' \<longleftrightarrow> only_own ctx ctx' \<and> tl_num_input_queues ctx' = tl_num_input_queues ctx \<and> tl_config ctx' = tl_config ctx \<and> tl_listen_fd ctx' = tl_listen_fd ctx
     \<and> (\<forall>j\<in>lives ctx'. queued ctx' j \<noteq> [] \<longrightarrow> j \<in> lives ctx \<and> queued ctx j \<noteq> [])"

lemma calm_refl: "calm ctx ctx" and calm_trans: "calm a b \<Longrightarrow> calm b c \<Longrightarrow> calm a c"
  using only_own_trans by (auto simp: calm_def only_own_same)

lemma out_step_calm:
  assumes "listener_ok ctx" and "i \<in> lives ctx" and "out_step i ctx ctx'"
  shows "calm ctx ctx'"
proof -
  note o = out_step_ok [OF assms]
  from o(4) obtain k where "queued ctx' i = drop k (queued ctx i)" by blast
  then have "queued ctx j \<noteq> []" if "queued ctx' j \<noteq> []" for j using that o(5) [of j] by (metis drop_Nil)
  with assms(3) o(2) show ?thesis by (auto simp: calm_def out_step_def only_own_same)
qed

lemma read_effect_calm: "listener_ok ctx \<Longrightarrow> i \<in> lives ctx \<Longrightarrow> read_effect i c ctx ctx' \<Longrightarrow> calm ctx ctx'"
  using read_effect_ok(2,3) [of ctx i c ctx'] by (auto simp: calm_def read_effect_def same_world_def fun_eq_iff intro: stamped_only_own)

definition settled :: "tcp_listener_context_t \<Rightarrow> tcp_listener_context_t option \<Rightarrow> bool" where
  "settled ctx r \<longleftrightarrow> (case r of Some ctx' \<Rightarrow> listener_ok ctx' \<and> calm ctx ctx' | None \<Rightarrow> \<exists>j\<in>lives ctx. queued ctx j \<noteq> [])"

lemma settled_simps: "settled ctx (Some ctx') \<longleftrightarrow> listener_ok ctx' \<and> calm ctx ctx'" "settled ctx None \<longleftrightarrow> (\<exists>j\<in>lives ctx. queued ctx j \<noteq> [])"
  by (simp_all add: settled_def)

lemma settled_calm: "calm a b \<Longrightarrow> settled b r \<Longrightarrow> settled a r"
  using calm_trans [of a b] by (cases r) (auto simp: settled_simps calm_def)

lemma disconnect_settled:
  assumes "ok_but i ctx" and "i \<in> lives ctx"
  shows "settled ctx (disconnect_client (tcp_id i) ctx)"
  using disconnect_client_ok [OF assms] assms(2) by (auto simp: settled_simps calm_def only_own_same split: if_splits)

lemma handle_client_write_settled:
  assumes ok: "listener_ok ctx" and w: "write_fits write"
  shows "settled ctx (handle_client_write write c ctx)"
proof (cases "tcp_client_get (tl_client_registry ctx) c")
  case None
  with ok show ?thesis by (simp add: handle_client_write_def settled_simps calm_refl)
next
  case (Some i)
  then have i: "i \<in> lives ctx" "c = tcp_id i" by (simp_all add: tcp_client_get_Some)
  from handle_client_write_effect [OF ok i(1) w] show ?thesis
    using i write_effect_ok [OF ok i(1)] out_step_calm [OF ok i(1)] disconnect_settled [OF listener_ok_but [OF ok] i(1)]
    by (auto simp: settled_simps write_effect_def)
qed

lemma process_output_queue_settled:
  assumes ok: "listener_ok ctx" and w: "write_fits write" and i: "i < MAX_TCP_CLIENTS"
  shows "settled ctx (process_output_queue write i ctx)"
proof (cases "i \<in> lives ctx")
  case False
  with i have "\<not> tc_active (client_at ctx i)" by (simp add: live_def client_at_def)
  with ok show ?thesis by (simp add: process_output_queue_def settled_simps calm_refl)
next
  case True
  from process_output_queue_effect [OF ok True w] obtain c1 where c1: "out_step i ctx c1"
    "process_output_queue write i ctx = Some c1 \<and> write_effect i ctx c1 \<or> process_output_queue write i ctx = disconnect_client (tcp_id i) c1" by blast
  have "i \<in> lives c1" using out_step_ok(2) [OF ok True c1(1)] True by simp
  then show ?thesis
    using c1 write_effect_ok [OF ok True] out_step_calm [OF ok True c1(1)] settled_calm disconnect_settled [OF out_step_ok(1) [OF ok True c1(1)]]
    by (auto simp: settled_simps)
qed

lemma process_output_clients_settled:
  assumes "listener_ok ctx" and "\<And>i. write_fits (write i)" and "\<forall>i\<in>set is. i < MAX_TCP_CLIENTS"
  shows "settled ctx (process_output_clients write is ctx)"
  using assms
proof (induction "is" arbitrary: ctx)
  case Nil
  then show ?case by (simp add: settled_simps calm_refl)
next
  case (Cons i "is")
  from process_output_queue_settled [OF Cons.prems(1,2), of i] Cons.prems(3) have "settled ctx (process_output_queue (write i) i ctx)" by simp
  with Cons show ?case by (cases "process_output_queue (write i) i ctx") (auto simp: settled_simps intro: settled_calm)
qed

text \<open>Reading may also meet a message that stops the program.\<close>

definition bad_read :: "recv_result \<Rightarrow> nat \<Rightarrow> tcp_listener_context_t \<Rightarrow> bool" where
  "bad_read r i ctx \<longleftrightarrow> (\<exists>bs m. r = Recv_bytes bs \<and> holds_message (pending (tc_read_state (client_at ctx i)) @ bs) m \<and> aborting m)"

lemma handle_client_read_settled:
  assumes ok: "listener_ok ctx" and i: "i \<in> lives ctx"
  shows "settled ctx (handle_client_read r (tcp_id i) ctx) \<or> handle_client_read r (tcp_id i) ctx = None \<and> bad_read r i ctx"
proof -
  have "queues_ok ctx" "tcp_registry_ok (tl_client_registry ctx)" using ok by (simp_all add: listener_ok_def)
  from handle_client_read_effect [OF this i, of r] show ?thesis
  proof (elim disjE exE conjE)
    fix c1
    assume e: "read_effect i (tcp_id i) ctx c1"
    have c1: "listener_ok c1" "i \<in> lives c1" "calm ctx c1" using read_effect_ok(1,2) [OF ok i e] read_effect_calm [OF ok i e] i by simp_all
    {
      assume "handle_client_read r (tcp_id i) ctx = Some c1"
      with c1 show ?thesis by (simp add: settled_simps)
    }
    {
      assume "handle_client_read r (tcp_id i) ctx = disconnect_client (tcp_id i) c1"
      with settled_calm [OF c1(3) disconnect_settled [OF listener_ok_but [OF c1(1)] c1(2)]] show ?thesis by simp
    }
  qed (auto simp: bad_read_def)
qed

definition event_ok :: "epoll_event \<Rightarrow> tcp_listener_context_t \<Rightarrow> bool" where
  "event_ok ev ctx \<longleftrightarrow> accept_ok (ev_accept ev) ctx \<and> write_fits (ev_write ev)"

text \<open>The bytes an event delivers hold a message that stops the program.\<close>

definition bad_event :: "epoll_event \<Rightarrow> tcp_listener_context_t \<Rightarrow> bool" where
  "bad_event ev ctx \<longleftrightarrow> ev_in ev \<and> (\<exists>i\<in>lives ctx. fd_of ctx i = ev_fd ev \<and> bad_read (ev_read ev) i ctx)"

lemma find_client_Some:
  assumes "find_client fd ctx = Some j"
  shows "j \<in> lives ctx" "fd_of ctx j = fd"
proof -
  have "j < MAX_TCP_CLIENTS \<and> tc_active (client_at ctx j) \<and> fd_of ctx j = fd" using assms unfolding find_client_def find_upt by simp
  then show "j \<in> lives ctx" "fd_of ctx j = fd" by (simp_all add: live_def client_at_def)
qed

lemma handle_new_connection_queues: "handle_new_connection r now ctx = Some ctx' \<Longrightarrow> tl_num_input_queues ctx' = tl_num_input_queues ctx"
  by (auto simp: handle_new_connection_def bind_eq_Some_conv Let_def split: accept_result.splits if_splits option.splits)

lemma new_connection_settled:
  assumes "listener_ok ctx" and "accept_ok r ctx"
  shows "settled ctx (handle_new_connection r now ctx)"
proof -
  from handle_new_connection_ok [OF assms, of now] obtain ctx' where c: "handle_new_connection r now ctx = Some ctx'" "listener_ok ctx'" "tl_config ctx' = tl_config ctx"
    "tl_listen_fd ctx' = tl_listen_fd ctx" "\<forall>j\<in>lives ctx. j \<in> lives ctx' \<and> client_at ctx' j = client_at ctx j" "\<forall>j\<in>lives ctx' - lives ctx. queued ctx' j = []"
    "inbox ctx' = inbox ctx" by blast
  have "queued ctx' j \<noteq> [] \<longrightarrow> j \<in> lives ctx \<and> queued ctx j \<noteq> []" if "j \<in> lives ctx'" for j using c(5,6) that by (metis DiffI)
  then have "calm ctx ctx'" unfolding calm_def using c(3,4) handle_new_connection_queues [OF c(1)] only_own_same [OF c(7)] by blast
  with c(1,2) show ?thesis by (simp only: settled_simps)
qed

theorem dispatch_event_settled:
  assumes ok: "listener_ok ctx" and ev: "event_ok ev ctx"
  shows "settled ctx (map_option snd (dispatch_event ev ctx)) \<or> dispatch_event ev ctx = None \<and> bad_event ev ctx"
proof (cases "find_client (ev_fd ev) ctx")
  case None
  then show ?thesis using ok ev new_connection_settled [OF ok, of "ev_accept ev" "ev_time ev"]
    by (simp add: dispatch_event_def settled_simps calm_refl event_ok_def option.map_comp o_def option.map_ident)
next
  case (Some j)
  note j = find_client_Some [OF Some]
  have id: "tc_client_id (client_at ctx j) = tcp_id j" by (rule listener_ok_client(4) [OF ok j(1)])
  have "conn_ok ctx j" by (rule listener_ok_conn [OF ok j(1)])
  then have fd: "ev_fd ev \<noteq> tl_listen_fd ctx" using j(2) by (simp add: conn_ok_def)
  show ?thesis
  proof (cases "ev_error ev")
    case True
    then show ?thesis using Some fd id disconnect_settled [OF listener_ok_but [OF ok] j(1)] by (simp add: dispatch_event_def option.map_comp o_def option.map_ident)
  next
    case False
    let ?r = "if ev_in ev then handle_client_read (ev_read ev) (tcp_id j) ctx else Some ctx"
    have run: "map_option snd (dispatch_event ev ctx) = Option.bind ?r (\<lambda>c1. if ev_out ev then handle_client_write (ev_write ev) (tc_client_id (client_at c1 j)) c1 else Some c1)"
      using False Some fd id by (auto simp: dispatch_event_def o_def split: bind_split)
    have "settled ctx ?r \<or> ?r = None \<and> bad_event ev ctx"
      using handle_client_read_settled [OF ok j(1), of "ev_read ev"] ok j by (auto simp: bad_event_def settled_simps calm_refl)
    then show ?thesis
    proof
      assume r: "settled ctx ?r"
      show ?thesis
      proof (cases ?r)
        case None
        with r run show ?thesis by (simp only: bind.simps simp_thms)
      next
        case (Some c1)
        with r have c1: "listener_ok c1" "calm ctx c1" by (simp_all only: settled_simps)
        have "settled c1 (if ev_out ev then handle_client_write (ev_write ev) (tc_client_id (client_at c1 j)) c1 else Some c1)"
          using handle_client_write_settled [OF c1(1)] ev c1(1) by (simp add: event_ok_def settled_simps calm_refl)
        from settled_calm [OF c1(2) this] run Some show ?thesis by (simp only: bind.simps simp_thms)
      qed
    next
      assume "?r = None \<and> bad_event ev ctx"
      with run show ?thesis by (simp only: bind.simps option.map_disc_iff simp_thms)
    qed
  qed
qed

text \<open>
  A list of events, each of which finds what the events before it left: what the kernel promises of them (\<open>events_ok\<close>), and that one of them delivers
  a message that stops the program (\<open>meets_bad\<close>).
\<close>

fun events_ok :: "epoll_event list \<Rightarrow> tcp_listener_context_t \<Rightarrow> bool" where
  "events_ok [] ctx \<longleftrightarrow> True"
| "events_ok (ev # evs) ctx \<longleftrightarrow> event_ok ev ctx \<and> (\<forall>ctx'. dispatch_event ev ctx = Some (True, ctx') \<longrightarrow> events_ok evs ctx')"

fun meets_bad :: "epoll_event list \<Rightarrow> tcp_listener_context_t \<Rightarrow> bool" where
  "meets_bad [] ctx \<longleftrightarrow> False"
| "meets_bad (ev # evs) ctx \<longleftrightarrow> bad_event ev ctx \<or> (\<exists>ctx'. dispatch_event ev ctx = Some (True, ctx') \<and> meets_bad evs ctx')"

lemma dispatch_events_settled:
  assumes "listener_ok ctx" and "events_ok evs ctx"
  shows "settled ctx (map_option snd (dispatch_events evs ctx)) \<or> dispatch_events evs ctx = None \<and> meets_bad evs ctx"
  using assms
proof (induction evs arbitrary: ctx)
  case (Cons ev evs)
  then consider "settled ctx (map_option snd (dispatch_event ev ctx))" | "dispatch_event ev ctx = None" "bad_event ev ctx"
    using dispatch_event_settled [OF Cons.prems(1), of ev] by auto
  then show ?case
  proof cases
    case s: 1
    show ?thesis
    proof (cases "dispatch_event ev ctx")
      case None
      with s show ?thesis by simp
    next
      case (Some gc)
      then obtain go c1 where gc: "dispatch_event ev ctx = Some (go, c1)" by (cases gc) auto
      with s have c1: "listener_ok c1" "calm ctx c1" by (simp_all add: settled_simps)
      show ?thesis
      proof (cases go)
        case True
        with gc Cons.prems(2) have "events_ok evs c1" by simp
        from Cons.IH [OF c1(1) this] settled_calm [OF c1(2)] True gc show ?thesis by auto
      qed (use gc c1 in \<open>simp add: settled_simps\<close>)
    qed
  qed simp
qed (simp add: settled_simps calm_refl)

text \<open>One of the messages a pass of the loop receives stops the program.\<close>

definition bad_pass :: "(nat \<Rightarrow> u8 list \<Rightarrow> write_result) \<Rightarrow> wait_result \<Rightarrow> tcp_listener_context_t \<Rightarrow> bool" where
  "bad_pass write r ctx \<longleftrightarrow> (\<exists>ctx1 evs. process_output_queues write ctx = Some ctx1 \<and> r = Wait_events evs \<and> meets_bad evs ctx1)"

theorem listener_iteration_settled:
  assumes ok: "listener_ok ctx" and w: "\<And>i. write_fits (write i)"
    and r: "\<And>ctx1 evs. process_output_queues write ctx = Some ctx1 \<Longrightarrow> r = Wait_events evs \<Longrightarrow> events_ok evs ctx1"
  shows "settled ctx (map_option snd (listener_iteration write r ctx)) \<or> listener_iteration write r ctx = None \<and> bad_pass write r ctx"
proof -
  obtain tls where tls: "ensure_parsers_initialized (tl_tls ctx) = Some tls" using ensure_parsers_total by blast
  define c0 where "c0 = ctx\<lparr>tl_tls := tls\<rparr>"
  have ok0: "listener_ok c0" using ok by (simp add: listener_ok_def c0_def)
  have calm0: "calm ctx c0" by (simp add: calm_def c0_def only_own_same)
  have run: "process_output_queues write ctx = process_output_clients write [0..<MAX_TCP_CLIENTS] c0" by (simp only: process_output_queues_def tls bind.simps c0_def)
  have "settled c0 (process_output_clients write [0..<MAX_TCP_CLIENTS] c0)" by (rule process_output_clients_settled [OF ok0 w]) (auto simp only: set_upt atLeastLessThan_iff)
  then have s: "settled ctx (process_output_queues write ctx)" unfolding run by (rule settled_calm [OF calm0])
  show ?thesis
  proof (cases "process_output_queues write ctx")
    case None
    with s show ?thesis by (simp add: listener_iteration_def)
  next
    case (Some c1)
    with s have c1: "listener_ok c1" "calm ctx c1" by (simp_all add: settled_simps)
    show ?thesis
    proof (cases r)
      case (Wait_events evs)
      with r [OF Some] have "events_ok evs c1" by simp
      from dispatch_events_settled [OF c1(1) this] settled_calm [OF c1(2)] Some Wait_events show ?thesis by (auto simp: listener_iteration_def bad_pass_def)
    qed (use Some c1 in \<open>simp_all add: listener_iteration_def settled_simps\<close>)
  qed
qed

section \<open>Whose requests a pass takes\<close>

text \<open>
  The requests that are added to the queues carry one of the identifiers \<open>C\<close>, and its user.  The identifiers of the clients
  on whose descriptors data was waiting when an event of the list was dispatched are \<open>readers\<close>.
\<close>

definition adds_for :: "u32 set \<Rightarrow> tcp_listener_context_t \<Rightarrow> tcp_listener_context_t \<Rightarrow> bool" where
  "adds_for C ctx ctx' \<longleftrightarrow> (\<forall>k. \<exists>new. inbox ctx' k = inbox ctx k @ new \<and> (\<forall>e\<in>set new. ie_client_id e \<in> C \<and> valid_user (ie_client_id e) (ie_msg e)))"

definition event_readers :: "epoll_event \<Rightarrow> tcp_listener_context_t \<Rightarrow> u32 set" where
  "event_readers ev ctx = (if ev_in ev then tcp_id ` {i \<in> lives ctx. fd_of ctx i = ev_fd ev} else {})"

fun readers :: "epoll_event list \<Rightarrow> tcp_listener_context_t \<Rightarrow> u32 set" where
  "readers [] ctx = {}"
| "readers (ev # evs) ctx = event_readers ev ctx \<union> (case dispatch_event ev ctx of Some (True, ctx') \<Rightarrow> readers evs ctx' | _ \<Rightarrow> {})"

lemma adds_for_same: "inbox ctx' = inbox ctx \<Longrightarrow> adds_for C ctx ctx'"
  by (simp add: adds_for_def)

lemma adds_for_trans:
  assumes "adds_for C a b" and "adds_for D b c"
  shows "adds_for (C \<union> D) a c"
  unfolding adds_for_def
proof
  fix k
  from assms obtain x y where "inbox b k = inbox a k @ x" "inbox c k = inbox b k @ y" "\<forall>e\<in>set x. ie_client_id e \<in> C \<and> valid_user (ie_client_id e) (ie_msg e)"
    "\<forall>e\<in>set y. ie_client_id e \<in> D \<and> valid_user (ie_client_id e) (ie_msg e)" unfolding adds_for_def by metis
  then show "\<exists>new. inbox c k = inbox a k @ new \<and> (\<forall>e\<in>set new. ie_client_id e \<in> C \<union> D \<and> valid_user (ie_client_id e) (ie_msg e))"
    by (intro exI [of _ "x @ y"]) auto
qed

lemma stamped_adds: "stamped c ctx ctx' \<Longrightarrow> c \<in> C \<Longrightarrow> adds_for C ctx ctx'"
  unfolding stamped_def adds_for_def by metis

lemma disconnect_inbox:
  assumes "ok_but i ctx" and "i \<in> lives ctx" and "disconnect_client (tcp_id i) ctx = Some ctx'"
  shows "inbox ctx' = inbox ctx"
  using disconnect_client_ok [OF assms(1,2)] assms(3) by (auto split: if_splits)

lemma handle_client_write_inbox:
  assumes ok: "listener_ok ctx" and w: "write_fits write" and run: "handle_client_write write c ctx = Some ctx'"
  shows "inbox ctx' = inbox ctx"
proof (cases "tcp_client_get (tl_client_registry ctx) c")
  case None
  with run show ?thesis by (simp add: handle_client_write_def)
next
  case (Some i)
  then have i: "i \<in> lives ctx" "c = tcp_id i" by (simp_all add: tcp_client_get_Some)
  from handle_client_write_effect [OF ok i(1) w] run i(2) disconnect_inbox [OF listener_ok_but [OF ok] i(1)] show ?thesis
    by (auto simp: write_effect_def out_step_def)
qed

lemma process_output_queue_inbox:
  assumes ok: "listener_ok ctx" and w: "write_fits write" and i: "i < MAX_TCP_CLIENTS" and run: "process_output_queue write i ctx = Some ctx'"
  shows "inbox ctx' = inbox ctx"
proof (cases "i \<in> lives ctx")
  case False
  with i have "\<not> tc_active (client_at ctx i)" by (simp add: live_def client_at_def)
  with run show ?thesis by (simp add: process_output_queue_def)
next
  case True
  from process_output_queue_effect [OF ok True w] obtain c1 where c1: "out_step i ctx c1"
    "process_output_queue write i ctx = Some c1 \<and> write_effect i ctx c1 \<or> process_output_queue write i ctx = disconnect_client (tcp_id i) c1" by blast
  have "i \<in> lives c1" using out_step_ok(2) [OF ok True c1(1)] True by simp
  moreover have "inbox c1 = inbox ctx" using c1(1) by (simp add: out_step_def)
  ultimately show ?thesis using c1(2) run disconnect_inbox [OF out_step_ok(1) [OF ok True c1(1)]] by auto
qed

lemma process_output_clients_inbox:
  assumes "listener_ok ctx" and "\<And>i. write_fits (write i)" and "\<forall>i\<in>set is. i < MAX_TCP_CLIENTS" and "process_output_clients write is ctx = Some ctx'"
  shows "inbox ctx' = inbox ctx"
  using assms
proof (induction "is" arbitrary: ctx)
  case (Cons i "is")
  then obtain c1 where c1: "process_output_queue (write i) i ctx = Some c1" "process_output_clients write is c1 = Some ctx'" by (auto simp: bind_eq_Some_conv)
  have "i < MAX_TCP_CLIENTS" using Cons.prems(3) by simp
  have "listener_ok c1" using process_output_queue_settled [OF Cons.prems(1) Cons.prems(2) [of i] \<open>i < MAX_TCP_CLIENTS\<close>] c1(1) by (simp add: settled_simps)
  from Cons.IH [OF this Cons.prems(2) _ c1(2)] Cons.prems(3) process_output_queue_inbox [OF Cons.prems(1,2) \<open>i < MAX_TCP_CLIENTS\<close> c1(1)] show ?case by simp
qed simp

lemma process_output_queues_inbox:
  assumes ok: "listener_ok ctx" and w: "\<And>i. write_fits (write i)" and run: "process_output_queues write ctx = Some ctx'"
  shows "listener_ok ctx'" and "inbox ctx' = inbox ctx"
proof -
  obtain tls where tls: "ensure_parsers_initialized (tl_tls ctx) = Some tls" using ensure_parsers_total by blast
  have ok0: "listener_ok (ctx\<lparr>tl_tls := tls\<rparr>)" using ok by (simp add: listener_ok_def)
  have r: "process_output_clients write [0..<MAX_TCP_CLIENTS] (ctx\<lparr>tl_tls := tls\<rparr>) = Some ctx'" using run by (simp only: process_output_queues_def tls bind.simps)
  have b: "\<forall>i\<in>set [0..<MAX_TCP_CLIENTS]. i < MAX_TCP_CLIENTS" by (auto simp only: set_upt atLeastLessThan_iff)
  show "listener_ok ctx'" using process_output_clients_settled [of "ctx\<lparr>tl_tls := tls\<rparr>" "write", OF ok0 w b] r by (simp add: settled_simps del: process_output_clients.simps)
  have "inbox ctx' = inbox (ctx\<lparr>tl_tls := tls\<rparr>)" by (rule process_output_clients_inbox [OF ok0 w b r])
  then show "inbox ctx' = inbox ctx" by simp
qed

lemma dispatch_event_adds:
  assumes ok: "listener_ok ctx" and ev: "event_ok ev ctx" and run: "dispatch_event ev ctx = Some (go, ctx')"
  shows "adds_for (event_readers ev ctx) ctx ctx'"
proof (cases "find_client (ev_fd ev) ctx")
  case None
  with run ok ev handle_new_connection_ok [OF ok, of "ev_accept ev" "ev_time ev"] show ?thesis
    by (intro adds_for_same) (auto simp: dispatch_event_def event_ok_def split: if_splits)
next
  case (Some j)
  note j = find_client_Some [OF Some]
  have id: "tc_client_id (client_at ctx j) = tcp_id j" by (rule listener_ok_client(4) [OF ok j(1)])
  have "conn_ok ctx j" by (rule listener_ok_conn [OF ok j(1)])
  then have fd: "ev_fd ev \<noteq> tl_listen_fd ctx" using j(2) by (simp add: conn_ok_def)
  show ?thesis
  proof (cases "ev_error ev")
    case True
    then show ?thesis using run Some fd id disconnect_inbox [OF listener_ok_but [OF ok] j(1)] by (auto simp: dispatch_event_def intro: adds_for_same)
  next
    case False
    with run Some fd obtain c1 where
      c1: "(if ev_in ev then handle_client_read (ev_read ev) (tc_client_id (client_at ctx j)) ctx else Some ctx) = Some c1"
        "(if ev_out ev then handle_client_write (ev_write ev) (tc_client_id (client_at c1 j)) c1 else Some c1) = Some ctx'"
      by (auto simp: dispatch_event_def bind_eq_Some_conv)
    have "listener_ok c1 \<and> adds_for (event_readers ev ctx) ctx c1"
    proof (cases "ev_in ev")
      case True
      then have rd: "handle_client_read (ev_read ev) (tcp_id j) ctx = Some c1" and mem: "tcp_id j \<in> event_readers ev ctx" using c1(1) j id by (auto simp: event_readers_def)
      have "listener_ok c1" using handle_client_read_settled [OF ok j(1), of "ev_read ev"] rd by (auto simp: settled_simps)
      moreover from ok have "queues_ok ctx" "tcp_registry_ok (tl_client_registry ctx)" by (simp_all add: listener_ok_def)
      from handle_client_read_effect [OF this j(1), of "ev_read ev"] rd obtain c0 where
        c0: "read_effect j (tcp_id j) ctx c0" "c1 = c0 \<or> disconnect_client (tcp_id j) c0 = Some c1" by auto
      have "listener_ok c0" "j \<in> lives c0" using read_effect_ok(1,2) [OF ok j(1) c0(1)] j(1) by simp_all
      then have "inbox c1 = inbox c0" using c0(2) disconnect_inbox [OF listener_ok_but] by blast
      moreover have "adds_for (event_readers ev ctx) ctx c0" using c0(1) stamped_adds [OF _ mem] by (simp add: read_effect_def)
      ultimately show ?thesis by (simp add: adds_for_def)
    qed (use c1(1) ok in \<open>simp add: adds_for_same\<close>)
    then show ?thesis using c1(2) ev handle_client_write_inbox [of c1 "ev_write ev"] by (auto simp: event_ok_def adds_for_def split: if_splits)
  qed
qed

lemma dispatch_events_adds:
  assumes "listener_ok ctx" and "events_ok evs ctx" and "dispatch_events evs ctx = Some (go, ctx')"
  shows "adds_for (readers evs ctx) ctx ctx'"
  using assms
proof (induction evs arbitrary: ctx)
  case (Cons ev evs)
  then obtain go1 c1 where c1: "dispatch_event ev ctx = Some (go1, c1)" by (auto simp: bind_eq_Some_conv)
  have ev: "event_ok ev ctx" using Cons.prems(2) by simp
  note a = dispatch_event_adds [OF Cons.prems(1) ev c1]
  have ok1: "listener_ok c1" using dispatch_event_settled [OF Cons.prems(1) ev] c1 by (auto simp: settled_simps)
  show ?case
  proof (cases go1)
    case True
    with Cons.prems(2,3) c1 have "events_ok evs c1" "dispatch_events evs c1 = Some (go, ctx')" by simp_all
    from adds_for_trans [OF a Cons.IH [OF ok1 this]] True c1 show ?thesis by simp
  next
    case False
    with Cons.prems(3) c1 have "ctx' = c1" by simp
    with a show ?thesis unfolding adds_for_def readers.simps by (metis UnI1)
  qed
qed (simp add: adds_for_same)

theorem listener_iteration_adds:
  assumes ok: "listener_ok ctx" and w: "\<And>i. write_fits (write i)"
    and r: "\<And>ctx1 evs. process_output_queues write ctx = Some ctx1 \<Longrightarrow> r = Wait_events evs \<Longrightarrow> events_ok evs ctx1"
    and run: "listener_iteration write r ctx = Some (go, ctx')"
  obtains ctx1 where "process_output_queues write ctx = Some ctx1" "listener_ok ctx1" "inbox ctx1 = inbox ctx"
    "adds_for (case r of Wait_events evs \<Rightarrow> readers evs ctx1 | _ \<Rightarrow> {}) ctx ctx'"
proof -
  from run obtain c1 where c1: "process_output_queues write ctx = Some c1" by (auto simp: listener_iteration_def bind_eq_Some_conv)
  note i = process_output_queues_inbox [OF ok w c1]
  have "adds_for (case r of Wait_events evs \<Rightarrow> readers evs c1 | _ \<Rightarrow> {}) c1 ctx'"
  proof (cases r)
    case (Wait_events evs)
    then show ?thesis using dispatch_events_adds [OF i(1) r [OF c1 Wait_events]] run c1 by (simp add: listener_iteration_def)
  qed (use run c1 in \<open>simp_all add: listener_iteration_def adds_for_same\<close>)
  with that c1 i show thesis by (simp add: adds_for_def)
qed

section \<open>A message that aborts\<close>

lemma read_aborts:
  assumes ok: "listener_ok ctx" and i: "i \<in> lives ctx" and p: "pending (tc_read_state (client_at ctx i)) = []"
    and m: "msg_ok m" "\<forall>tls. parse_input m tls = None"
  shows "handle_client_read (Recv_bytes (frame m)) (tcp_id i) ctx = None"
proof -
  have rs: "read_ok (tc_read_state (client_at ctx i))" using listener_ok_client [OF ok i] by (simp add: client_ok_def)
  have pos: "fr_buffer_pos (tc_read_state (client_at ctx i)) = 0" using arg_cong [OF p, of length] by simp
  have len: "length (frame m) \<le> 4356" "frame m \<noteq> []" using m(1) by (auto simp: msg_ok_def frame_def be32_def)
  from framing_read_append_ok [OF rs, of "frame m"] pos len p obtain st where
    st: "framing_read_append (tc_read_state (client_at ctx i)) (frame m) = Some (length (frame m), st)" "read_ok st" "pending st = frame m @ []" by auto
  obtain st' where st': "framing_read_extract st = Some (FRAMING_MESSAGE_READY, Some m, st')" using extract_ready [OF st(2) m(1) st(3)] by blast
  obtain tls where tls: "ensure_parsers_initialized (tl_tls ctx) = Some tls" using ensure_parsers_total by blast
  have "read_loop MAX_MESSAGES_PER_READ i c ctx' = None" if "tc_read_state (client_at ctx' i) = st" for c ctx'
  proof -
    have k: "MAX_MESSAGES_PER_READ = Suc 63" by simp
    show ?thesis unfolding k read_loop.simps using that st' m by (simp add: take_message_def Let_def bind_eq_None_conv)
  qed
  with st(1) tls len(2) tcp_client_get_live [OF i] show ?thesis by (simp add: handle_client_read_def Let_def)
qed

end
