(* ===== verification/ME_Tcp_Delivery.thy ===== *)
theory ME_Tcp_Delivery
  imports ME_Tcp_Safe
begin

text \<open>
  The delivery of queued answers: while the peers take something of what they are offered, passes of the event loop
  bring everything queued for a client to its socket, as a stream of frames.
\<close>

section \<open>What a pass does to all clients\<close>

definition flows :: "tcp_listener_context_t \<Rightarrow> tcp_listener_context_t \<Rightarrow> bool" where
  "flows ctx ctx' \<longleftrightarrow> listener_ok ctx' \<and> lives ctx' = lives ctx \<and> tl_config ctx' = tl_config ctx \<and> tl_listen_fd ctx' = tl_listen_fd ctx
     \<and> (\<forall>j\<in>lives ctx. fd_of ctx' j = fd_of ctx j \<and> stream ctx' j = stream ctx j \<and> left_over ctx' j \<le> left_over ctx j)"

lemma flows_refl: "listener_ok ctx \<Longrightarrow> flows ctx ctx"
  by (simp add: flows_def)

lemma flows_trans: "flows a b \<Longrightarrow> flows b c \<Longrightarrow> flows a c"
  unfolding flows_def by (metis order_trans)

lemma write_effect_flows:
  assumes ok: "listener_ok ctx" and i: "i \<in> lives ctx" and e: "write_effect i ctx ctx'"
  shows "flows ctx ctx'"
proof -
  have o: "out_step i ctx ctx'" using e by (simp add: write_effect_def)
  note f = out_step_ok [OF ok i o]
  from o obtain bs where w: "tl_wire ctx' = tl_wire ctx @ map (Pair (fd_of ctx i)) bs" and s: "stream ctx' i = stream ctx i"
    and cfg: "tl_config ctx' = tl_config ctx" "tl_listen_fd ctx' = tl_listen_fd ctx" unfolding out_step_def by blast
  have fd: "fd_of ctx' j = fd_of ctx j" for j using f(3) by (rule fun_cong)
  have "stream ctx' j = stream ctx j \<and> left_over ctx' j \<le> left_over ctx j" if j: "j \<in> lives ctx" for j
  proof (cases "j = i")
    case True
    then show ?thesis using stream_left_over [OF s fd w] s by simp
  next
    case False
    then have "fd_of ctx i \<noteq> fd_of ctx j" using ok i j by (auto simp: listener_ok_def dest: inj_onD)
    then have "sent_to ctx' (fd_of ctx j) = sent_to ctx (fd_of ctx j)" by (simp add: sent_to_def w)
    then show ?thesis using f(5) [OF False] by (simp add: stream_def left_over_def cfg)
  qed
  then show ?thesis using write_effect_ok [OF ok i e] f(2) cfg fd unfolding flows_def by blast
qed

lemma process_output_queue_takes:
  assumes ok: "listener_ok ctx" and w: "takes write" and i: "i < MAX_TCP_CLIENTS"
  shows "\<exists>ctx'. process_output_queue write i ctx = Some ctx' \<and> flows ctx ctx' \<and> (\<forall>j\<in>lives ctx. j \<noteq> i \<longrightarrow> client_at ctx' j = client_at ctx j)
     \<and> (i \<in> lives ctx \<longrightarrow> (if tc_has_pending_write (client_at ctx i) then client_at ctx' i = client_at ctx i
          else queued ctx i \<noteq> [] \<longrightarrow> left_over ctx' i < left_over ctx i))"
proof (cases "i \<in> lives ctx \<and> \<not> tc_has_pending_write (client_at ctx i)")
  case False
  with i have "process_output_queue write i ctx = Some ctx" by (auto simp: process_output_queue_def live_def client_at_def)
  with False flows_refl [OF ok] show ?thesis by auto
next
  case True
  then have l: "i \<in> lives ctx" and idle: "\<not> tc_has_pending_write (client_at ctx i)" by simp_all
  have "\<exists>ctx'. process_output_queue write i ctx = Some ctx' \<and> write_effect i ctx ctx' \<and> (queued ctx i \<noteq> [] \<longrightarrow> left_over ctx' i < left_over ctx i)"
  proof (cases "queued ctx i = []")
    case True
    then show ?thesis using process_output_queue_empty [OF ok l True] by auto
  next
    case False
    from process_output_queue_next [OF ok l idle False] obtain c1 where
      c1: "process_output_queue write i ctx = try_write write i c1" "out_step i ctx c1" "write_ready i c1" "tl_wire c1 = tl_wire ctx" by blast
    from try_write_takes [OF c1(3) w] obtain c2 where c2: "try_write write i c1 = Some c2" "write_effect i c1 c2" "left_over c2 i < left_over c1 i" by blast
    have "left_over c1 i = left_over ctx i"
      using stream_left_over [of c1 i ctx "[]"] c1(2,4) by (simp add: out_step_def)
    with c1(1) c2 write_effect_trans [OF c1(2) c2(2)] show ?thesis by auto
  qed
  then obtain ctx' where c: "process_output_queue write i ctx = Some ctx'" "write_effect i ctx ctx'" "queued ctx i \<noteq> [] \<longrightarrow> left_over ctx' i < left_over ctx i" by blast
  have "\<forall>j\<in>lives ctx. j \<noteq> i \<longrightarrow> client_at ctx' j = client_at ctx j" using out_step_ok(5) [OF ok l] c(2) by (simp add: write_effect_def)
  with c write_effect_flows [OF ok l c(2)] idle show ?thesis by auto
qed

lemma process_output_clients_takes:
  assumes "listener_ok ctx" and "\<And>i. takes (write i)" and "\<forall>i\<in>set is. i < MAX_TCP_CLIENTS" and "distinct is"
  shows "\<exists>ctx'. process_output_clients write is ctx = Some ctx' \<and> flows ctx ctx' \<and> (\<forall>j\<in>lives ctx. j \<notin> set is \<longrightarrow> client_at ctx' j = client_at ctx j)
     \<and> (\<forall>i\<in>lives ctx \<inter> set is. if tc_has_pending_write (client_at ctx i) then client_at ctx' i = client_at ctx i
          else queued ctx i \<noteq> [] \<longrightarrow> left_over ctx' i < left_over ctx i)"
  using assms
proof (induction "is" arbitrary: ctx)
  case Nil
  then show ?case by (simp add: flows_refl)
next
  case (Cons i "is")
  from process_output_queue_takes [OF Cons.prems(1,2), of i i] Cons.prems(3) obtain c1 where c1: "process_output_queue (write i) i ctx = Some c1" "flows ctx c1"
    "\<forall>j\<in>lives ctx. j \<noteq> i \<longrightarrow> client_at c1 j = client_at ctx j"
    "i \<in> lives ctx \<longrightarrow> (if tc_has_pending_write (client_at ctx i) then client_at c1 i = client_at ctx i else queued ctx i \<noteq> [] \<longrightarrow> left_over c1 i < left_over ctx i)" by auto
  have l: "lives c1 = lives ctx" "listener_ok c1" "tl_config c1 = tl_config ctx" using c1(2) by (simp_all add: flows_def)
  from Cons.IH [OF l(2) Cons.prems(2)] Cons.prems(3,4) obtain c2 where c2: "process_output_clients write is c1 = Some c2" "flows c1 c2"
    "\<forall>j\<in>lives ctx. j \<notin> set is \<longrightarrow> client_at c2 j = client_at c1 j"
    "\<forall>j\<in>lives ctx \<inter> set is. if tc_has_pending_write (client_at c1 j) then client_at c2 j = client_at c1 j else queued c1 j \<noteq> [] \<longrightarrow> left_over c2 j < left_over c1 j"
    unfolding l(1) by auto
  have "if tc_has_pending_write (client_at ctx j) then client_at c2 j = client_at ctx j else queued ctx j \<noteq> [] \<longrightarrow> left_over c2 j < left_over ctx j"
    if j: "j \<in> lives ctx" "j = i \<or> j \<in> set is" for j
  proof (cases "j = i")
    case True
    then have "client_at c2 i = client_at c1 i" using c2(3) j(1) Cons.prems(4) by simp
    moreover from this have "left_over c2 i = left_over c1 i" using c2(2) by (simp add: left_over_def flows_def)
    ultimately show ?thesis using c1(4) j(1) True by simp
  next
    case False
    then have "client_at c1 j = client_at ctx j" using c1(3) j(1) by simp
    moreover from this have "left_over c1 j = left_over ctx j" by (simp add: left_over_def l(3))
    moreover have "if tc_has_pending_write (client_at c1 j) then client_at c2 j = client_at c1 j else queued c1 j \<noteq> [] \<longrightarrow> left_over c2 j < left_over c1 j"
      using c2(4) j False by blast
    ultimately show ?thesis by (simp split: if_splits)
  qed
  then have "\<forall>j\<in>lives ctx \<inter> set (i # is). if tc_has_pending_write (client_at ctx j) then client_at c2 j = client_at ctx j else queued ctx j \<noteq> [] \<longrightarrow> left_over c2 j < left_over ctx j"
    by simp
  moreover have "\<forall>j\<in>lives ctx. j \<notin> set (i # is) \<longrightarrow> client_at c2 j = client_at ctx j" using c1(3) c2(3) by simp
  moreover have "process_output_clients write (i # is) ctx = Some c2" using c1(1) c2(1) by simp
  ultimately show ?case using flows_trans [OF c1(2) c2(2)] by blast
qed

section \<open>Passes of the event loop\<close>

text \<open>A pass in which the descriptor of a client becomes writable, and nothing else happens.\<close>

definition writable :: "int \<Rightarrow> (u8 list \<Rightarrow> write_result) \<Rightarrow> epoll_event" where
  "writable fd write = \<lparr>ev_fd = fd, ev_error = False, ev_in = False, ev_out = True, ev_accept = Accept_failed, ev_time = 0, ev_read = Recv_again, ev_write = write\<rparr>"

fun delivery_passes :: "(u8 list \<Rightarrow> write_result) list \<Rightarrow> int \<Rightarrow> tcp_listener_context_t \<Rightarrow> tcp_listener_context_t option" where
  "delivery_passes [] fd ctx = Some ctx"
| "delivery_passes (write # ws) fd ctx =
     Option.bind (listener_iteration (\<lambda>_. write) (Wait_events [writable fd write]) ctx) (\<lambda>(go, ctx1). if go then delivery_passes ws fd ctx1 else Some ctx1)"

lemma find_client_live:
  assumes ok: "listener_ok ctx" and i: "i \<in> lives ctx"
  shows "find_client (fd_of ctx i) ctx = Some i"
proof -
  have inj: "inj_on (fd_of ctx) (lives ctx)" using ok by (simp add: listener_ok_def)
  have "\<not> (tc_active (client_at ctx j) \<and> fd_of ctx j = fd_of ctx i)" if "j < i" for j
  proof
    assume a: "tc_active (client_at ctx j) \<and> fd_of ctx j = fd_of ctx i"
    then have "j \<in> lives ctx" using that i by (auto simp: live_def client_at_def)
    with inj i a that show False by (auto dest: inj_onD)
  qed
  then show ?thesis using i unfolding find_client_def find_upt by (simp add: live_def client_at_def)
qed

lemma delivery_pass:
  assumes ok: "listener_ok ctx" and i: "i \<in> lives ctx" and w: "takes write"
  shows "\<exists>ctx'. listener_iteration (\<lambda>_. write) (Wait_events [writable (fd_of ctx i) write]) ctx = Some (True, ctx') \<and> flows ctx ctx'
     \<and> (left_over ctx i \<noteq> 0 \<longrightarrow> left_over ctx' i < left_over ctx i)"
proof -
  obtain tls where tls: "ensure_parsers_initialized (tl_tls ctx) = Some tls" using ensure_parsers_total by blast
  define c0 where "c0 = ctx\<lparr>tl_tls := tls\<rparr>"
  have ok0: "listener_ok c0" using ok by (simp add: listener_ok_def c0_def)
  have at0: "client_at c0 j = client_at ctx j" "left_over c0 j = left_over ctx j" "stream c0 j = stream ctx j" for j
    by (simp_all add: c0_def left_over_def stream_def sent_to_def)
  have f0: "flows ctx c0" using ok0 at0 by (simp add: flows_def) (simp add: c0_def)
  have i0: "i \<in> lives c0 \<inter> set [0..<MAX_TCP_CLIENTS]" using i unfolding set_upt by (simp add: c0_def live_def)
  have bound: "\<forall>j\<in>set [0..<MAX_TCP_CLIENTS]. j < MAX_TCP_CLIENTS" unfolding set_upt by simp
  have "takes ((\<lambda>_::nat. write) j)" for j using w by simp
  from process_output_clients_takes [OF ok0 this bound distinct_upt] i0 obtain c1 where
    c1: "process_output_clients (\<lambda>_. write) [0..<MAX_TCP_CLIENTS] c0 = Some c1" "flows c0 c1"
      "if tc_has_pending_write (client_at ctx i) then client_at c1 i = client_at ctx i else queued ctx i \<noteq> [] \<longrightarrow> left_over c1 i < left_over ctx i"
    unfolding at0 by blast
  have f1: "flows ctx c1" by (rule flows_trans [OF f0 c1(2)])
  then have l1: "listener_ok c1" "i \<in> lives c1" "fd_of c1 i = fd_of ctx i" "tl_config c1 = tl_config ctx" "left_over c1 i \<le> left_over ctx i" using i by (auto simp: flows_def)
  from handle_client_write_takes [OF l1(1,2) w] obtain c2 where c2: "handle_client_write write (tcp_id i) c1 = Some c2" "write_effect i c1 c2"
    "tc_has_pending_write (client_at c1 i) \<longrightarrow> left_over c2 i < left_over c1 i" by blast
  have f2: "flows c1 c2" by (rule write_effect_flows [OF l1(1,2) c2(2)])
  then have le: "left_over c2 i \<le> left_over c1 i" using l1(2) by (simp add: flows_def)
  have "fd_of c1 i \<noteq> tl_listen_fd c1" using listener_ok_conn [OF l1(1,2)] by (simp add: conn_ok_def)
  then have "dispatch_event (writable (fd_of ctx i) write) c1 = Some (True, c2)"
    using find_client_live [OF l1(1,2)] l1(3) listener_ok_client(4) [OF l1(1,2)] c2(1) by (simp add: dispatch_event_def writable_def)
  then have "listener_iteration (\<lambda>_. write) (Wait_events [writable (fd_of ctx i) write]) ctx = Some (True, c2)"
    unfolding listener_iteration_def process_output_queues_def tls c0_def [symmetric] bind.simps c1(1) by simp
  moreover have "left_over c2 i < left_over ctx i" if "left_over ctx i \<noteq> 0"
  proof (cases "tc_has_pending_write (client_at ctx i)")
    case True
    with c1(3) c2(3) l1(5) show ?thesis by simp
  next
    case False
    then have "queued ctx i \<noteq> []" using that by (auto simp: left_over_def outstanding_def unsent_def)
    with False c1(3) le show ?thesis by simp
  qed
  ultimately show ?thesis using flows_trans [OF f1 f2] by blast
qed

theorem delivery_passes_deliver:
  assumes "listener_ok ctx" and "i \<in> lives ctx" and "\<forall>write\<in>set ws. takes write" and "left_over ctx i \<le> length ws"
  shows "\<exists>ctx'. delivery_passes ws (fd_of ctx i) ctx = Some ctx' \<and> flows ctx ctx' \<and> left_over ctx' i = 0"
  using assms
proof (induction ws arbitrary: ctx)
  case Nil
  then show ?case by (simp add: flows_refl)
next
  case (Cons w ws)
  from delivery_pass [OF Cons.prems(1,2), of w] Cons.prems(3) obtain c1 where
    c1: "listener_iteration (\<lambda>_. w) (Wait_events [writable (fd_of ctx i) w]) ctx = Some (True, c1)" "flows ctx c1" "left_over ctx i \<noteq> 0 \<longrightarrow> left_over c1 i < left_over ctx i" by auto
  have l: "listener_ok c1" "i \<in> lives c1" "fd_of c1 i = fd_of ctx i" "left_over c1 i \<le> left_over ctx i" using c1(2) Cons.prems(2) by (auto simp: flows_def)
  have "left_over c1 i \<le> length ws" using Cons.prems(4) c1(3) l(4) by (cases "left_over ctx i = 0") auto
  from Cons.IH [OF l(1,2) _ this] Cons.prems(3) obtain c2 where "delivery_passes ws (fd_of ctx i) c1 = Some c2" "flows c1 c2" "left_over c2 i = 0" unfolding l(3) by auto
  with c1(1) flows_trans [OF c1(2)] show ?case by auto
qed

corollary delivered_stream:
  assumes ok: "listener_ok ctx" and i: "i \<in> lives ctx" and w: "\<forall>write\<in>set ws. takes write" "left_over ctx i \<le> length ws"
  shows "\<exists>ctx'. delivery_passes ws (fd_of ctx i) ctx = Some ctx' \<and> listener_ok ctx' \<and> queued ctx' i = []
     \<and> sent_to ctx' (fd_of ctx i) = sent_to ctx (fd_of ctx i) @ unsent (client_at ctx i)
          @ concat (map (\<lambda>m. frame (out_bytes (lc_use_binary_output (tl_config ctx)) m)) (queued ctx i))"
proof -
  from delivery_passes_deliver [OF assms] obtain ctx' where c: "delivery_passes ws (fd_of ctx i) ctx = Some ctx'" "flows ctx ctx'" "left_over ctx' i = 0" by blast
  have f: "listener_ok ctx'" "fd_of ctx' i = fd_of ctx i" "stream ctx' i = stream ctx i" "tl_config ctx' = tl_config ctx" "i \<in> lives ctx'" using c(2) i by (auto simp: flows_def)
  have o: "outstanding (lc_use_binary_output (tl_config ctx)) (client_at ctx' i) = []" using c(3) by (simp add: left_over_def f(4))
  then have "concat (map (\<lambda>m. frame (out_bytes (lc_use_binary_output (tl_config ctx)) m)) (queued ctx' i)) = []" by (simp add: outstanding_def)
  then have "queued ctx' i = []" by (cases "queued ctx' i") (auto simp: frame_def be32_def)
  moreover have "sent_to ctx' (fd_of ctx i) = stream ctx i" using f(3) o by (simp add: stream_def f(2,4))
  ultimately show ?thesis using c(1) f(1) by (auto simp: stream_def outstanding_def)
qed

end
