(* ===== verification/ME_Router_Delivery.thy ===== *)
theory ME_Router_Delivery
  imports ME_Output_Router ME_Tcp_Delivery
begin

text \<open>
  The output router at work in the TCP mode: which queue a message ends up in, how much the shutdown drains, and, together with the event loop, that the answers of
  a processor reach the socket of the client they are for.
\<close>

section \<open>The queues of the clients\<close>

text \<open>What an envelope does to the table of clients.\<close>

definition given :: "output_msg_envelope_t \<Rightarrow> tcp_client_registry_t \<Rightarrow> tcp_client_registry_t" where
  "given e reg = (case tcp_client_get reg (oe_client_id e) of None \<Rightarrow> reg | Some i \<Rightarrow> snd (tcp_client_enqueue_output i (oe_msg e) reg))"

abbreviation out_of :: "tcp_client_registry_t \<Rightarrow> nat \<Rightarrow> output_msg_t list" where "out_of reg i \<equiv> contents (tc_output_queue (tg_clients reg i))"

definition put_for :: "nat \<Rightarrow> output_msg_envelope_t \<Rightarrow> output_msg_t list \<Rightarrow> output_msg_t list" where
  "put_for i e xs = (if oe_client_id e = tcp_id i then put (oe_msg e) xs else xs)"

definition more_output :: "tcp_client_registry_t \<Rightarrow> tcp_client_registry_t \<Rightarrow> (nat \<Rightarrow> output_msg_t list \<Rightarrow> output_msg_t list) \<Rightarrow> bool" where
  "more_output reg reg' f \<longleftrightarrow> tcp_registry_ok reg' \<and> live reg' = live reg
     \<and> (\<forall>i\<in>live reg. \<exists>q. tg_clients reg' i = (tg_clients reg i)\<lparr>tc_output_queue := q\<rparr> \<and> contents q = f i (out_of reg i))"

lemma more_output_trans:
  assumes "more_output a b f" and "more_output b c g"
  shows "more_output a c (\<lambda>i. g i \<circ> f i)"
  unfolding more_output_def
proof (intro conjI ballI)
  show "tcp_registry_ok c" "live c = live a" using assms by (simp_all add: more_output_def)
  fix i
  assume "i \<in> live a"
  then obtain p q where "tg_clients b i = (tg_clients a i)\<lparr>tc_output_queue := p\<rparr>" "contents p = f i (out_of a i)"
    "tg_clients c i = (tg_clients b i)\<lparr>tc_output_queue := q\<rparr>" "contents q = g i (out_of b i)" using assms unfolding more_output_def by metis
  then show "\<exists>q. tg_clients c i = (tg_clients a i)\<lparr>tc_output_queue := q\<rparr> \<and> contents q = (g i \<circ> f i) (out_of a i)" by (intro exI [of _ q]) simp
qed

lemma given_ok:
  assumes ok: "tcp_registry_ok reg"
  shows "more_output reg (given e reg) (\<lambda>i. put_for i e)"
proof (cases "tcp_client_get reg (oe_client_id e)")
  case None
  then have "\<forall>i\<in>live reg. oe_client_id e \<noteq> tcp_id i" by (auto simp: tcp_client_get_live)
  with None ok show ?thesis by (auto simp: more_output_def given_def put_for_def intro!: exI)
next
  case (Some i)
  then have i: "i \<in> live reg" "oe_client_id e = tcp_id i" by (simp_all add: tcp_client_get_Some)
  from tcp_client_enqueue_output_ok [OF ok i(1), of "oe_msg e"] obtain b q reg' where r: "tcp_client_enqueue_output i (oe_msg e) reg = (b, reg')"
    "b = (length (out_of reg i) < LOCKFREE_QUEUE_SIZE - 1)" "reg' = put_client i ((tg_clients reg i)\<lparr>tc_output_queue := q\<rparr>) reg" "tcp_registry_ok reg'" "live reg' = live reg"
    "contents q = (if b then out_of reg i @ [oe_msg e] else out_of reg i)" by blast
  have g: "given e reg = reg'" using Some r(1) by (simp add: given_def)
  have "\<exists>q. tg_clients reg' j = (tg_clients reg j)\<lparr>tc_output_queue := q\<rparr> \<and> contents q = put_for j e (out_of reg j)" if "j \<in> live reg" for j
  proof (cases "j = i")
    case True
    then show ?thesis using r(2,3,6) i(2) by (intro exI [of _ q]) (simp add: put_for_def put_def)
  next
    case False
    then have "oe_client_id e \<noteq> tcp_id j" using i that tcp_id_eq [OF live_bound live_bound] by metis
    with False r(3) show ?thesis by (intro exI [of _ "tc_output_queue (tg_clients reg j)"]) (simp add: put_for_def)
  qed
  with g r(4,5) show ?thesis by (simp add: more_output_def)
qed

lemma given_all_ok:
  assumes "tcp_registry_ok reg"
  shows "more_output reg (fold given es reg) (\<lambda>i. fold (put_for i) es)"
  using assms
proof (induction es arbitrary: reg)
  case Nil
  then show ?case by (auto simp: more_output_def intro!: exI)
next
  case (Cons e es)
  note g = given_ok [OF Cons.prems, of e]
  then have "tcp_registry_ok (given e reg)" by (simp add: more_output_def)
  from more_output_trans [OF g Cons.IH [OF this]] show ?case by (simp add: fun_eq_iff o_def)
qed

definition messages_for :: "nat \<Rightarrow> output_msg_envelope_t list \<Rightarrow> output_msg_t list" where
  "messages_for i es = map oe_msg (filter (\<lambda>e. oe_client_id e = tcp_id i) es)"

lemma put_for_all_room:
  assumes "length xs + length es < LOCKFREE_QUEUE_SIZE"
  shows "fold (put_for i) es xs = xs @ messages_for i es"
  using assms by (induction es arbitrary: xs) (simp_all add: put_for_def put_def messages_for_def)

section \<open>A round of the router\<close>

definition outbox :: "output_router_context_t \<Rightarrow> bool \<Rightarrow> output_msg_envelope_t list" where
  "outbox r second = (if second then (case or_input_queue_1 r of None \<Rightarrow> [] | Some q \<Rightarrow> contents q) else contents (or_input_queue_0 r))"

definition router_ok :: "output_router_context_t \<Rightarrow> bool" where
  "router_ok r \<longleftrightarrow> rc_tcp_mode (or_config r) \<and> tcp_registry_ok (or_client_registry r) \<and> queue_ok (or_input_queue_0 r)
     \<and> (case or_input_queue_1 r of None \<Rightarrow> or_num_input_queues r = 1 | Some q \<Rightarrow> queue_ok q \<and> or_num_input_queues r = 2)"

definition mcast_active :: "output_router_context_t \<Rightarrow> bool" where
  "mcast_active r \<longleftrightarrow> or_mcast_enabled r \<and> 0 \<le> or_mcast_sockfd r"

text \<open>Messages that can be sent to the group when there is one.\<close>

definition castable :: "output_router_context_t \<Rightarrow> output_msg_envelope_t list \<Rightarrow> bool" where
  "castable r es \<longleftrightarrow> (mcast_active r \<longrightarrow> (\<forall>e\<in>set es. good_out (rm_use_binary_output (or_mcast_config r)) (oe_msg e)))"

definition cast_of :: "output_router_context_t \<Rightarrow> output_msg_envelope_t list \<Rightarrow> u8 list list" where
  "cast_of r es = (if mcast_active r then map (\<lambda>e. out_bytes (rm_use_binary_output (or_mcast_config r)) (oe_msg e)) es else [])"

lemma mcast_payload_bytes:
  assumes "good_out b m"
  shows "mcast_payload b m = Some (Some (out_bytes b m))"
proof -
  obtain tls where f: "format_output b m fresh_tls = Some (out_bytes b m, tls)" using format_output_bytes [OF assms] by metis
  have ne: "out_bytes b m \<noteq> []" using out_bytes_ok [OF assms] by (auto simp: msg_ok_def)
  show ?thesis
  proof (cases b)
    case True
    from f True obtain r g where r: "binary_message_formatter_format \<lparr>bf_buffer = (\<lambda>_. 0)\<rparr> m = Some (r, g)" "out_bytes b m = (case r of Some d \<Rightarrow> if length d \<le> MAX_FORMAT_BUFFER then d else [] | None \<Rightarrow> [])"
      by (auto simp: format_output_def fresh_tls_def bind_eq_Some_conv)
    with ne have "r = Some (out_bytes b m)" by (auto split: option.splits if_splits)
    with r(1) True ne show ?thesis by (simp add: mcast_payload_def)
  next
    case False
    with f show ?thesis by (auto simp: format_output_def fresh_tls_def mcast_payload_def c_bytes_def bind_eq_Some_conv Let_def bind_assert_that_Some)
  qed
qed

text \<open>What routing leaves as it is.\<close>

definition same_router :: "output_router_context_t \<Rightarrow> output_router_context_t \<Rightarrow> bool" where
  "same_router r r' \<longleftrightarrow> or_config r' = or_config r \<and> or_num_input_queues r' = or_num_input_queues r \<and> or_mcast_enabled r' = or_mcast_enabled r
     \<and> or_mcast_config r' = or_mcast_config r \<and> or_mcast_sockfd r' = or_mcast_sockfd r \<and> or_shutdown_flag r' = or_shutdown_flag r"

lemma same_router_facts:
  assumes "same_router r r'"
  shows "mcast_active r' = mcast_active r" "castable r' es = castable r es" "cast_of r' es = cast_of r es"
proof -
  show m: "mcast_active r' = mcast_active r" using assms by (simp add: same_router_def mcast_active_def)
  show "castable r' es = castable r es" "cast_of r' es = cast_of r es"
    using assms unfolding castable_def cast_of_def m by (simp_all add: same_router_def)
qed

lemma same_router_trans: "same_router a b \<Longrightarrow> same_router b c \<Longrightarrow> same_router a c"
  by (simp add: same_router_def)

lemma route_single_message_ok:
  assumes ok: "rc_tcp_mode (or_config r)" and c: "castable r [e]"
  obtains b r' where "route_single_message net e r = Some (b, r')" "same_router r r'" "or_client_registry r' = given e (or_client_registry r)"
    "or_mcast_wire r' = or_mcast_wire r @ cast_of r [e]" "or_input_queue_0 r' = or_input_queue_0 r" "or_input_queue_1 r' = or_input_queue_1 r"
    "or_messages_routed r' = or_messages_routed r" "or_messages_dropped r' = or_messages_dropped r"
proof -
  obtain b r1 where r1: "(case tcp_client_get (or_client_registry r) (oe_client_id e) of None \<Rightarrow> (False, r)
      | Some i \<Rightarrow> let (ok, registry) = tcp_client_enqueue_output i (oe_msg e) (or_client_registry r) in (ok, r\<lparr>or_client_registry := registry\<rparr>)) = (b, r1)"
    "r1 = r\<lparr>or_client_registry := given e (or_client_registry r)\<rparr>"
    by (cases "tcp_client_get (or_client_registry r) (oe_client_id e)") (auto simp: given_def case_prod_unfold Let_def)
  show thesis
  proof (cases "mcast_active r")
    case False
    then have "route_single_message net e r = Some (b, r1)"
      using ok r1 by (auto simp: route_single_message_def mcast_active_def broadcast_to_multicast_def)
    then show thesis using False by (intro that [of b r1]) (simp_all add: r1(2) same_router_def cast_of_def)
  next
    case True
    let ?b = "rm_use_binary_output (or_mcast_config r)"
    have p: "mcast_payload ?b (oe_msg e) = Some (Some (out_bytes ?b (oe_msg e)))" using c True by (intro mcast_payload_bytes) (simp add: castable_def)
    define r2 where "r2 = (let r2 = r1\<lparr>or_mcast_wire := or_mcast_wire r1 @ [out_bytes ?b (oe_msg e)]\<rparr> in
        if \<not> net (length (or_mcast_wire r1)) (out_bytes ?b (oe_msg e)) then r2\<lparr>or_mcast_errors := or_mcast_errors r2 + 1\<rparr> else r2\<lparr>or_mcast_messages := or_mcast_messages r2 + 1\<rparr>)"
    have "route_single_message net e r = Some (b, r2)"
      using ok r1 True p by (simp add: route_single_message_def broadcast_to_multicast_def mcast_active_def r2_def Let_def)
    then show thesis using True by (intro that [of b r2]) (simp_all add: r2_def r1(2) same_router_def cast_of_def Let_def)
  qed
qed

lemma route_batch_ok:
  "rc_tcp_mode (or_config r) \<Longrightarrow> castable r es \<Longrightarrow> \<exists>r'. route_batch net second es r = Some r' \<and> same_router r r'
     \<and> or_client_registry r' = fold given es (or_client_registry r) \<and> or_mcast_wire r' = or_mcast_wire r @ cast_of r es
     \<and> or_input_queue_0 r' = or_input_queue_0 r \<and> or_input_queue_1 r' = or_input_queue_1 r
     \<and> or_messages_routed r' + or_messages_dropped r' = or_messages_routed r + or_messages_dropped r + of_nat (length es)"
proof (induction es arbitrary: r)
  case Nil
  then show ?case by (simp add: same_router_def cast_of_def)
next
  case (Cons e es)
  have "castable r [e]" using Cons.prems(2) by (auto simp: castable_def)
  from route_single_message_ok [OF Cons.prems(1) this] obtain b r1 where r1: "route_single_message net e r = Some (b, r1)" "same_router r r1"
    "or_client_registry r1 = given e (or_client_registry r)" "or_mcast_wire r1 = or_mcast_wire r @ cast_of r [e]" "or_input_queue_0 r1 = or_input_queue_0 r"
    "or_input_queue_1 r1 = or_input_queue_1 r" "or_messages_routed r1 = or_messages_routed r" "or_messages_dropped r1 = or_messages_dropped r" .
  define r2 where "r2 = (if b then r1\<lparr>or_messages_routed := or_messages_routed r1 + 1\<rparr> else r1\<lparr>or_messages_dropped := or_messages_dropped r1 + 1\<rparr>)"
  define r3 where "r3 = r2\<lparr>or_messages_from_processor := (if second then apsnd (\<lambda>n. n + 1) (or_messages_from_processor r2) else apfst (\<lambda>n. n + 1) (or_messages_from_processor r2))\<rparr>"
  have step: "route_batch net second (e # es) r = route_batch net second es r3" by (simp add: r1(1) r3_def r2_def Let_def)
  have s3: "same_router r r3" using r1(2) by (simp add: same_router_def r3_def r2_def)
  have q3: "or_client_registry r3 = given e (or_client_registry r)" "or_mcast_wire r3 = or_mcast_wire r @ cast_of r [e]" "or_input_queue_0 r3 = or_input_queue_0 r"
    "or_input_queue_1 r3 = or_input_queue_1 r" using r1 by (simp_all add: r3_def r2_def)
  have n3: "or_messages_routed r3 + or_messages_dropped r3 = or_messages_routed r + or_messages_dropped r + 1" using r1 by (simp add: r3_def r2_def)
  have t3: "rc_tcp_mode (or_config r3)" using s3 Cons.prems(1) by (simp add: same_router_def)
  have c3: "castable r3 es" using Cons.prems(2) unfolding same_router_facts(2) [OF s3] by (auto simp: castable_def)
  from Cons.IH [OF t3 c3] obtain r' where r': "route_batch net second es r3 = Some r'" "same_router r3 r'" "or_client_registry r' = fold given es (or_client_registry r3)"
    "or_mcast_wire r' = or_mcast_wire r3 @ cast_of r3 es" "or_input_queue_0 r' = or_input_queue_0 r3" "or_input_queue_1 r' = or_input_queue_1 r3"
    "or_messages_routed r' + or_messages_dropped r' = or_messages_routed r3 + or_messages_dropped r3 + of_nat (length es)" by auto
  have w: "cast_of r [e] @ cast_of r es = cast_of r (e # es)" by (simp add: cast_of_def)
  show ?case using r' q3 n3 same_router_trans [OF s3 r'(2)] step w by (intro exI [of _ r']) (simp add: same_router_facts(3) [OF s3])
qed

text \<open>A batch of one of the queues: up to 32 messages in their order.\<close>

definition both_castable :: "output_router_context_t \<Rightarrow> bool" where
  "both_castable r \<longleftrightarrow> castable r (outbox r False @ outbox r True)"

lemma castable_append [simp]: "castable r (xs @ ys) \<longleftrightarrow> castable r xs \<and> castable r ys"
  by (auto simp: castable_def)

lemma castable_part: "castable r es \<Longrightarrow> castable r (take n es) \<and> castable r (drop n es)"
  unfolding castable_def by (meson in_set_dropD in_set_takeD)

lemma cast_of_append: "cast_of r (xs @ ys) = cast_of r xs @ cast_of r ys"
  by (simp add: cast_of_def)

definition handed_out :: "output_msg_envelope_t list \<Rightarrow> output_router_context_t \<Rightarrow> output_router_context_t \<Rightarrow> bool" where
  "handed_out es r r' \<longleftrightarrow> same_router r r' \<and> router_ok r' \<and> or_client_registry r' = fold given es (or_client_registry r)
     \<and> or_mcast_wire r' = or_mcast_wire r @ cast_of r es
     \<and> or_messages_routed r' + or_messages_dropped r' = or_messages_routed r + or_messages_dropped r + of_nat (length es)"

lemma handed_out_trans: "handed_out xs a b \<Longrightarrow> handed_out ys b c \<Longrightarrow> handed_out (xs @ ys) a c"
  using same_router_trans [of a b c] by (auto simp: handed_out_def cast_of_append same_router_facts(3) [of a b])

lemma handed_out_nothing: "router_ok r \<Longrightarrow> handed_out [] r r"
  by (simp add: handed_out_def same_router_def cast_of_def)

lemma process_queue_batch_ok:
  assumes ok: "router_ok r" and c: "castable r (outbox r second)" and s: "second \<Longrightarrow> or_input_queue_1 r \<noteq> None"
  obtains r' where "process_queue_batch net second r = Some (min 32 (length (outbox r second)), r')" "handed_out (take 32 (outbox r second)) r r'"
    "outbox r' second = drop 32 (outbox r second)" "outbox r' (\<not> second) = outbox r (\<not> second)" "or_input_queue_1 r' = None \<longleftrightarrow> or_input_queue_1 r = None"
proof -
  note f = given_all_ok [OF ok [unfolded router_ok_def, THEN conjunct2, THEN conjunct1], unfolded more_output_def, THEN conjunct1]
  have tm: "rc_tcp_mode (or_config r)" using ok by (simp add: router_ok_def)
  note ct = castable_part [OF c, of 32, THEN conjunct1]
  show thesis
  proof (cases second)
    case True
    with s obtain q where q: "or_input_queue_1 r = Some q" by auto
    have qk: "queue_ok q" using ok q by (simp add: router_ok_def)
    obtain xs q' where d: "queue_dequeue_batch q ROUTER_BATCH_SIZE = (xs, q')" by fastforce
    from queue_dequeue_batch_ok [OF qk d] have b: "queue_ok q'" "xs = take 32 (outbox r second)" "contents q' = drop 32 (outbox r second)"
      using True q by (simp_all add: outbox_def)
    let ?r = "r\<lparr>or_input_queue_1 := Some q'\<rparr>"
    have sr: "same_router r ?r" by (simp add: same_router_def)
    from route_batch_ok [of ?r xs net second] tm ct b(2) obtain r' where r': "route_batch net second xs ?r = Some r'" "same_router ?r r'"
      "or_client_registry r' = fold given xs (or_client_registry r)" "or_mcast_wire r' = or_mcast_wire r @ cast_of r xs"
      "or_input_queue_0 r' = or_input_queue_0 r" "or_input_queue_1 r' = Some q'"
      "or_messages_routed r' + or_messages_dropped r' = or_messages_routed r + or_messages_dropped r + of_nat (length xs)"
      by (auto simp: same_router_facts [OF sr])
    have "handed_out xs r r'" using ok b(1) q r' f [of xs] by (simp add: handed_out_def same_router_def router_ok_def)
    moreover have "process_queue_batch net second r = Some (min 32 (length (outbox r second)), r')"
      using True q d r'(1) b(2) by (simp add: process_queue_batch_def min.commute)
    ultimately show thesis using True q r' b by (intro that [of r']) (simp_all add: outbox_def)
  next
    case False
    have qk: "queue_ok (or_input_queue_0 r)" using ok by (simp add: router_ok_def)
    obtain xs q' where d: "queue_dequeue_batch (or_input_queue_0 r) ROUTER_BATCH_SIZE = (xs, q')" by fastforce
    from queue_dequeue_batch_ok [OF qk d] have b: "queue_ok q'" "xs = take 32 (outbox r second)" "contents q' = drop 32 (outbox r second)"
      using False by (simp_all add: outbox_def)
    let ?r = "r\<lparr>or_input_queue_0 := q'\<rparr>"
    have sr: "same_router r ?r" by (simp add: same_router_def)
    from route_batch_ok [of ?r xs net second] tm ct b(2) obtain r' where r': "route_batch net second xs ?r = Some r'" "same_router ?r r'"
      "or_client_registry r' = fold given xs (or_client_registry r)" "or_mcast_wire r' = or_mcast_wire r @ cast_of r xs"
      "or_input_queue_0 r' = q'" "or_input_queue_1 r' = or_input_queue_1 r"
      "or_messages_routed r' + or_messages_dropped r' = or_messages_routed r + or_messages_dropped r + of_nat (length xs)"
      by (auto simp: same_router_facts [OF sr])
    have "handed_out xs r r'" using ok b(1) r' f [of xs] by (auto simp: handed_out_def same_router_def router_ok_def split: option.splits)
    moreover have "process_queue_batch net second r = Some (min 32 (length (outbox r second)), r')"
      using False d r'(1) b(2) by (simp add: process_queue_batch_def min.commute)
    ultimately show thesis using False r' b by (intro that [of r']) (simp_all add: outbox_def)
  qed
qed

theorem router_round_ok:
  assumes ok: "router_ok r" and c: "both_castable r"
  obtains r' where "router_round net r = Some (min 32 (length (outbox r False)) + min 32 (length (outbox r True)), r')"
    "handed_out (take 32 (outbox r False) @ take 32 (outbox r True)) r r'" "\<And>k. outbox r' k = drop 32 (outbox r k)"
proof -
  have c0: "castable r (outbox r False)" "castable r (outbox r True)" using c by (simp_all add: both_castable_def)
  from process_queue_batch_ok [OF ok c0(1), of net] obtain r1 where r1: "process_queue_batch net False r = Some (min 32 (length (outbox r False)), r1)"
    "handed_out (take 32 (outbox r False)) r r1" "outbox r1 False = drop 32 (outbox r False)" "outbox r1 True = outbox r True"
    "or_input_queue_1 r1 = None \<longleftrightarrow> or_input_queue_1 r = None" by auto
  have sr: "same_router r r1" and ok1: "router_ok r1" using r1(2) by (simp_all add: handed_out_def)
  have n0: "0 < or_num_input_queues r" using ok by (auto simp: router_ok_def split: option.splits)
  show thesis
  proof (cases "or_input_queue_1 r1")
    case None
    then have e: "outbox r True = []" "outbox r1 True = []" using r1(5) by (simp_all add: outbox_def)
    have "router_round net r = Some (min 32 (length (outbox r False)), r1)" using n0 r1(1) None by (simp add: router_round_def)
    then show thesis using r1(2,3) e by (intro that [of r1]) (simp, simp, case_tac k, simp_all)
  next
    case (Some q)
    then have n1: "or_num_input_queues r1 = 2" using ok1 by (simp add: router_ok_def)
    have "castable r1 (outbox r1 True)" using c0(2) r1(4) by (simp add: same_router_facts(2) [OF sr])
    from process_queue_batch_ok [OF ok1 this, of net] Some obtain r2 where r2: "process_queue_batch net True r1 = Some (min 32 (length (outbox r1 True)), r2)"
      "handed_out (take 32 (outbox r1 True)) r1 r2" "outbox r2 True = drop 32 (outbox r1 True)" "outbox r2 False = outbox r1 False" by auto
    have "router_round net r = Some (min 32 (length (outbox r False)) + min 32 (length (outbox r True)), r2)"
      using n0 n1 r1(1,4) r2(1) Some by (simp add: router_round_def)
    then show thesis using handed_out_trans [OF r1(2) r2(2)] r1(3,4) r2(3,4) by (intro that [of r2]) (simp, simp, case_tac k, simp_all)
  qed
qed

section \<open>The drain at the end\<close>

lemma shuffles_append:
  "zs \<in> shuffles xs ys \<Longrightarrow> zs' \<in> shuffles xs' ys' \<Longrightarrow> zs @ zs' \<in> shuffles (xs @ xs') (ys @ ys')"
proof (induction xs ys arbitrary: zs rule: shuffles.induct)
  case (1 ys)
  then have "zs = ys" by simp
  then show ?case using 1(2) by (induction ys arbitrary: zs) (auto intro: Cons_in_shuffles_rightI)
next
  case (2 xs)
  then have "zs = xs" by simp
  then show ?case using 2(2) by (induction xs arbitrary: zs) (auto intro: Cons_in_shuffles_leftI)
next
  case (3 x xs y ys)
  from 3(3) consider (left) ws where "zs = x # ws" "ws \<in> shuffles xs (y # ys)" | (right) ws where "zs = y # ws" "ws \<in> shuffles (x # xs) ys" by auto
  then show ?case
  proof cases
    case left
    then show ?thesis using 3(1) [OF left(2) 3(4)] by (simp add: Cons_in_shuffles_leftI)
  next
    case right
    then show ?thesis using 3(2) [OF right(2) 3(4)] by (simp add: Cons_in_shuffles_rightI)
  qed
qed

lemma append_in_shuffles: "xs @ ys \<in> shuffles xs ys"
  using shuffles_append [of xs xs "[]" ys "[]" ys] by simp

text \<open>Rounds until a round finds nothing: each queue loses its first \<open>32 n\<close> messages, and the order within a queue is kept.\<close>

theorem drain_rounds_ok:
  assumes "router_ok r" and "both_castable r"
  shows "\<exists>r' es. drain_rounds n net r = Some r' \<and> handed_out es r r' \<and> es \<in> shuffles (take (32 * n) (outbox r False)) (take (32 * n) (outbox r True))
     \<and> (\<forall>k. outbox r' k = drop (32 * n) (outbox r k))"
  using assms
proof (induction n arbitrary: r)
  case 0
  then show ?case using handed_out_nothing by auto
next
  case (Suc n)
  from router_round_ok [OF Suc.prems] obtain r1 where r1: "router_round net r = Some (min 32 (length (outbox r False)) + min 32 (length (outbox r True)), r1)"
    "handed_out (take 32 (outbox r False) @ take 32 (outbox r True)) r r1" "\<And>k. outbox r1 k = drop 32 (outbox r k)" by metis
  show ?case
  proof (cases "outbox r False = [] \<and> outbox r True = []")
    case True
    then have "outbox r k = []" for k by (cases k) simp_all
    moreover from this have "outbox r1 k = []" for k by (simp add: r1(3))
    ultimately show ?thesis using r1(1,2) by (intro exI [of _ r1] exI [of _ "[]"]) simp
  next
    case False
    then have n: "min 32 (length (outbox r False)) + min 32 (length (outbox r True)) > 0" by auto
    have "router_ok r1" "same_router r r1" using r1(2) by (simp_all add: handed_out_def)
    moreover have "both_castable r1" using Suc.prems(2) castable_part by (simp add: both_castable_def r1(3) same_router_facts(2) [OF \<open>same_router r r1\<close>])
    ultimately obtain r' es where r': "drain_rounds n net r1 = Some r'" "handed_out es r1 r'" "es \<in> shuffles (take (32 * n) (outbox r1 False)) (take (32 * n) (outbox r1 True))"
      "\<forall>k. outbox r' k = drop (32 * n) (outbox r1 k)" using Suc.IH by blast
    have t: "take 32 (outbox r k) @ take (32 * n) (outbox r1 k) = take (32 * Suc n) (outbox r k)" for k by (simp add: r1(3) take_add)
    have "drain_rounds (Suc n) net r = Some r'" using r1(1) r'(1) n by simp
    moreover have "(take 32 (outbox r False) @ take 32 (outbox r True)) @ es \<in> shuffles (take (32 * Suc n) (outbox r False)) (take (32 * Suc n) (outbox r True))"
      unfolding t [symmetric] by (rule shuffles_append [OF append_in_shuffles r'(3)])
    moreover have "\<forall>k. outbox r' k = drop (32 * Suc n) (outbox r k)" using r'(4) by (simp add: r1(3) add.commute)
    ultimately show ?thesis using handed_out_trans [OF r1(2) r'(2)] by blast
  qed
qed

section \<open>From the processors to the sockets\<close>

text \<open>
  The router puts messages into the table the event loop works on.  Messages that find room are what the event loop has to send to their client.
\<close>

lemma put_for_all_set: "set (fold (put_for i) es xs) \<subseteq> set xs \<union> oe_msg ` set es"
  by (induction es arbitrary: xs) (fastforce simp: put_for_def put_def split: if_splits)+

lemma given_listener:
  assumes ok: "listener_ok ctx" and g: "\<forall>e\<in>set es. good_out (lc_use_binary_output (tl_config ctx)) (oe_msg e)"
    and c': "ctx' = ctx\<lparr>tl_client_registry := fold given es (tl_client_registry ctx)\<rparr>"
  shows "listener_ok ctx'" "lives ctx' = lives ctx"
    and "i \<in> lives ctx \<Longrightarrow> \<exists>q. client_at ctx' i = (client_at ctx i)\<lparr>tc_output_queue := q\<rparr> \<and> contents q = fold (put_for i) es (queued ctx i)"
proof -
  have "tcp_registry_ok (tl_client_registry ctx)" using ok by (simp add: listener_ok_def)
  from given_all_ok [OF this, of es] have m: "tcp_registry_ok (tl_client_registry ctx')" "lives ctx' = lives ctx"
    "\<forall>i\<in>lives ctx. \<exists>q. client_at ctx' i = (client_at ctx i)\<lparr>tc_output_queue := q\<rparr> \<and> contents q = fold (put_for i) es (queued ctx i)"
    by (simp_all add: c' more_output_def client_at_def)
  show "lives ctx' = lives ctx" by (rule m(2))
  show "\<exists>q. client_at ctx' i = (client_at ctx i)\<lparr>tc_output_queue := q\<rparr> \<and> contents q = fold (put_for i) es (queued ctx i)" if "i \<in> lives ctx" using m(3) that by blast
  have fd: "fd_of ctx' j = fd_of ctx j" if "j \<in> lives ctx" for j using m(3) that by fastforce
  have "conn_ok ctx' j" if "j \<in> lives ctx" for j
  proof -
    from m(3) that obtain q where q: "client_at ctx' j = (client_at ctx j)\<lparr>tc_output_queue := q\<rparr>" "contents q = fold (put_for j) es (queued ctx j)" by blast
    have same: "tl_config ctx' = tl_config ctx" "tl_epoll ctx' = tl_epoll ctx" "tl_listen_fd ctx' = tl_listen_fd ctx" by (simp_all add: c')
    have "conn_ok ctx j" using listener_ok_conn [OF ok that] .
    with q g put_for_all_set [of j es "queued ctx j"] show ?thesis by (auto simp: conn_ok_def client_writes_ok_def same)
  qed
  moreover have "inj_on (fd_of ctx') (lives ctx')" using ok fd m(2) by (simp add: listener_ok_def inj_on_def)
  moreover have "queues_ok ctx'" using ok by (simp add: listener_ok_def queues_ok_def dual_def c')
  ultimately show "listener_ok ctx'" using m(1,2) by (simp add: listener_ok_def conn_ok_def)
qed

lemma given_listener_ok:
  assumes ok: "listener_ok ctx" and g: "\<forall>e\<in>set es. good_out (lc_use_binary_output (tl_config ctx)) (oe_msg e)"
    and room: "length (queued ctx i) + length es < LOCKFREE_QUEUE_SIZE" and i: "i \<in> lives ctx"
    and c': "ctx' = ctx\<lparr>tl_client_registry := fold given es (tl_client_registry ctx)\<rparr>"
  shows "queued ctx' i = queued ctx i @ messages_for i es" and "fd_of ctx' i = fd_of ctx i" and "unsent (client_at ctx' i) = unsent (client_at ctx i)"
    and "sent_to ctx' fd = sent_to ctx fd"
proof -
  from given_listener(3) [OF ok g c' i] obtain q where "client_at ctx' i = (client_at ctx i)\<lparr>tc_output_queue := q\<rparr>" "contents q = queued ctx i @ messages_for i es"
    unfolding put_for_all_room [OF room] by blast
  then show "queued ctx' i = queued ctx i @ messages_for i es" "fd_of ctx' i = fd_of ctx i" "unsent (client_at ctx' i) = unsent (client_at ctx i)" by (simp_all add: unsent_def)
  show "sent_to ctx' fd = sent_to ctx fd" by (simp add: sent_to_def c')
qed

text \<open>A round of the router, then passes of the event loop for the client \<open>i\<close>: everything routed to it is on its socket, after what was already due.\<close>

theorem routed_then_delivered:
  assumes ok: "listener_ok ctx" "router_ok r" "or_client_registry r = tl_client_registry ctx" and c: "both_castable r" and i: "i \<in> lives ctx"
    and es: "es = take 32 (outbox r False) @ take 32 (outbox r True)" and g: "\<forall>e\<in>set es. good_out (lc_use_binary_output (tl_config ctx)) (oe_msg e)"
    and room: "length (queued ctx i) + length es < LOCKFREE_QUEUE_SIZE"
    and w: "\<forall>write\<in>set ws. takes write"
      "left_over ctx i + length (concat (map (\<lambda>m. frame (out_bytes (lc_use_binary_output (tl_config ctx)) m)) (messages_for i es))) \<le> length ws"
  shows "\<exists>n r' ctx'. router_round net r = Some (n, r') \<and> (\<forall>k. outbox r' k = drop 32 (outbox r k))
     \<and> delivery_passes ws (fd_of ctx i) (ctx\<lparr>tl_client_registry := or_client_registry r'\<rparr>) = Some ctx' \<and> listener_ok ctx' \<and> queued ctx' i = []
     \<and> sent_to ctx' (fd_of ctx i) = sent_to ctx (fd_of ctx i) @ unsent (client_at ctx i)
          @ concat (map (\<lambda>m. frame (out_bytes (lc_use_binary_output (tl_config ctx)) m)) (queued ctx i @ messages_for i es))"
proof -
  let ?b = "lc_use_binary_output (tl_config ctx)"
  from router_round_ok [OF ok(2) c, of net] obtain n r' where r': "router_round net r = Some (n, r')" "handed_out es r r'" "\<And>k. outbox r' k = drop 32 (outbox r k)"
    unfolding es by metis
  let ?c = "ctx\<lparr>tl_client_registry := or_client_registry r'\<rparr>"
  have "?c = ctx\<lparr>tl_client_registry := fold given es (tl_client_registry ctx)\<rparr>" using r'(2) ok(3) by (simp add: handed_out_def)
  note c = this
  note l = given_listener(1,2) [OF ok(1) g c]
  note li = given_listener_ok [OF ok(1) g room i c]
  have "left_over ?c i \<le> length ws" using w(2) li by (simp add: left_over_def outstanding_def)
  from delivered_stream [OF l(1) _ w(1) this] i l(2) obtain ctx' where "delivery_passes ws (fd_of ?c i) ?c = Some ctx'" "listener_ok ctx'" "queued ctx' i = []"
    "sent_to ctx' (fd_of ?c i) = sent_to ?c (fd_of ?c i) @ unsent (client_at ?c i) @ concat (map (\<lambda>m. frame (out_bytes ?b m)) (queued ?c i))" by auto
  with r' li show ?thesis by auto
qed

end
