(* ===== verification/ME_Tcp_Mode.thy ===== *)
theory ME_Tcp_Mode
  imports ME_Router_Delivery ME_Tcp_Stream ME_Unified_System
begin

text \<open>
  The TCP mode as a whole (\<^verbatim>\<open>modes/tcp_mode.c\<close>): the event loop, one or two processors and the output router, joined by the queues and
  the table of clients.  The memory the allocator hands out has arbitrary contents (\<open>tcp_memory\<close>); threads can be created.
  The steps of the system are the bodies of the loops of its threads, each taken as one atomic pass.  They are guarded: a processor takes a batch only when its engine can take it
  (\<open>next_batch_ok\<close>), and the events of a pass are those epoll and accept promise (\<open>events_ok\<close>).  Every shared structure is kept in one place: the table and the input queues in the
  context of the event loop, the output queues in that of the router.
\<close>

section \<open>Start and end\<close>

record app_config_t =
  ac_tcp_mode :: bool
  ac_port :: u16
  ac_binary_output :: bool
  ac_dual_processor :: bool
  ac_quiet_mode :: bool
  ac_enable_multicast :: bool
  ac_multicast_group :: string
  ac_multicast_port :: u16

definition multicast_is_enabled :: "app_config_t \<Rightarrow> bool" where
  "multicast_is_enabled config = ac_enable_multicast config"

record tcp_memory =
  ta_pool_0 :: order_pool_t
  ta_pool_1 :: order_pool_t
  ta_engine_0 :: matching_engine_t
  ta_engine_1 :: matching_engine_t
  ta_registry :: tcp_client_registry_t
  ta_input_0 :: "input_msg_envelope_t queue_t"
  ta_input_1 :: "input_msg_envelope_t queue_t"
  ta_output_0 :: "output_msg_envelope_t queue_t"
  ta_output_1 :: "output_msg_envelope_t queue_t"

text \<open>What the calls of the start return: whether all allocations succeed, the multicast socket and the address \<^verbatim>\<open>inet_pton\<close> reads.\<close>

record mode_calls =
  mc_allocated :: bool
  mc_mcast_fd :: int
  mc_mcast_addr :: "u32 option"

record tcp_system =
  ts_listener :: tcp_listener_context_t
  ts_router :: output_router_context_t
  ts_proc :: "bool \<Rightarrow> (proc_ctx \<times> thread_locals) option"

text \<open>The contexts after \<^verbatim>\<open>memset\<close>; what the null pointers would refer to is never used.\<close>

definition zero_listener :: "tcp_memory \<Rightarrow> tcp_listener_context_t" where
  "zero_listener mem = \<lparr>tl_config = \<lparr>lc_port = 0, lc_listen_backlog = 0, lc_use_binary_output = False\<rparr>, tl_listen_fd = 0, tl_epoll_fd = 0,
     tl_client_registry = ta_registry mem, tl_input_queue_0 = ta_input_0 mem, tl_input_queue_1 = None, tl_num_input_queues = 0, tl_shutdown_flag = False,
     tl_total_connections = 0, tl_total_messages_received = 0, tl_total_messages_sent = 0, tl_total_bytes_received = 0, tl_total_bytes_sent = 0,
     tl_messages_to_processor = (0, 0), tl_parse_errors = 0, tl_queue_full_drops = 0, tl_tls = fresh_tls, tl_epoll = Map.empty, tl_wire = []\<rparr>"

definition zero_router :: "tcp_memory \<Rightarrow> output_router_context_t" where
  "zero_router mem = \<lparr>or_config = \<lparr>rc_tcp_mode = False\<rparr>, or_client_registry = ta_registry mem, or_input_queue_0 = ta_output_0 mem, or_input_queue_1 = None,
     or_num_input_queues = 0, or_shutdown_flag = False, or_mcast_enabled = False, or_mcast_config = zero_mcast_config, or_mcast_sockfd = 0,
     or_mcast_addr = \<lparr>sin_addr = 0, sin_port = 0\<rparr>, or_messages_routed = 0, or_messages_dropped = 0, or_messages_from_processor = (0, 0),
     or_mcast_messages = 0, or_mcast_errors = 0, or_mcast_wire = []\<rparr>"

definition zero_processor :: processor_t where
  "zero_processor = \<lparr>pr_config = \<lparr>pc_tcp_mode = False, pc_spin_wait = False, pc_processor_id = 0\<rparr>, pr_running = False, pr_started = False,
     pr_output_sequence = 0, pr_stats = zero_stats\<rparr>"

definition tcp_listener_config :: "app_config_t \<Rightarrow> tcp_listener_config_t" where
  "tcp_listener_config config = \<lparr>lc_port = ac_port config, lc_listen_backlog = 10, lc_use_binary_output = ac_binary_output config\<rparr>"

definition start_tcp_processor :: "int \<Rightarrow> engine_ctx \<Rightarrow> input_msg_envelope_t queue_t \<Rightarrow> output_msg_envelope_t queue_t \<Rightarrow> (proc_ctx \<times> thread_locals) option" where
  "start_tcp_processor n engine input output = do {
     (ok, p) \<leftarrow> processor_init \<lparr>pc_tcp_mode = True, pc_spin_wait = False, pc_processor_id = n\<rparr> zero_processor;
     Some (thread_start \<lparr>px_processor = p, px_engine = engine, px_input = input, px_output = output\<rparr>)
   }"

definition enable_configured_multicast :: "app_config_t \<Rightarrow> mode_calls \<Rightarrow> output_router_context_t \<Rightarrow> (bool \<times> output_router_context_t) option" where
  "enable_configured_multicast config calls router =
     (if multicast_is_enabled config
      then output_router_enable_multicast (ac_multicast_group config) (ac_multicast_port config) 1 (ac_binary_output config) (mc_mcast_fd calls) (mc_mcast_addr calls) router
      else Some (True, router))"

text \<open>
  The label \<^verbatim>\<open>cleanup\<close>: the table and the queues are destroyed, which fails an assertion when a queue is not empty, then the engines.
\<close>

definition tcp_cleanup :: "tcp_listener_context_t \<Rightarrow> output_router_context_t \<Rightarrow> engine_ctx \<Rightarrow> engine_ctx option \<Rightarrow> unit option" where
  "tcp_cleanup listener router engine_0 engine_1 = do {
     let router' = output_router_cleanup router;
     tcp_client_registry_destroy (tl_client_registry listener);
     destroy_optional queue_destroy (Some (tl_input_queue_0 listener));
     destroy_optional queue_destroy (tl_input_queue_1 listener);
     destroy_optional queue_destroy (Some (or_input_queue_0 router'));
     destroy_optional queue_destroy (or_input_queue_1 router');
     destroy_optional matching_engine_destroy (Some engine_0);
     destroy_optional matching_engine_destroy engine_1
   }"

text \<open>The start: the result of the function when it fails, or the running system.\<close>

definition run_tcp_single_processor :: "app_config_t \<Rightarrow> tcp_memory \<Rightarrow> mode_calls \<Rightarrow> (int + tcp_system) option" where
  "run_tcp_single_processor config mem calls =
     (if \<not> mc_allocated calls then Some (Inl (-1))
      else do {
        pools \<leftarrow> memory_pools_init (ta_pool_0 mem);
        let engine = \<lparr>en_engine = matching_engine_init (ta_engine_0 mem), en_pool = pools, en_out = []\<rparr>;
        let client_registry = tcp_client_registry_init (ta_registry mem);
        input_queue \<leftarrow> queue_init (ta_input_0 mem);
        output_queue \<leftarrow> queue_init (ta_output_0 mem);
        let listener = tcp_listener_init (tcp_listener_config config) client_registry input_queue False (zero_listener mem);
        processor \<leftarrow> start_tcp_processor 0 engine input_queue output_queue;
        router \<leftarrow> output_router_init \<lparr>rc_tcp_mode = True\<rparr> client_registry output_queue False (zero_router mem);
        (ok, router') \<leftarrow> enable_configured_multicast config calls router;
        if \<not> ok then do {
          tcp_cleanup listener router' engine None;
          Some (Inl 0)
        } else Some (Inr \<lparr>ts_listener = listener, ts_router = router', ts_proc = (\<lambda>k. if k then None else Some processor)\<rparr>)
      })"

definition run_tcp_dual_processor :: "app_config_t \<Rightarrow> tcp_memory \<Rightarrow> mode_calls \<Rightarrow> (int + tcp_system) option" where
  "run_tcp_dual_processor config mem calls =
     (if \<not> mc_allocated calls then Some (Inl (-1))
      else do {
        pools_0 \<leftarrow> memory_pools_init (ta_pool_0 mem);
        pools_1 \<leftarrow> memory_pools_init (ta_pool_1 mem);
        let engine_0 = \<lparr>en_engine = matching_engine_init (ta_engine_0 mem), en_pool = pools_0, en_out = []\<rparr>;
        let engine_1 = \<lparr>en_engine = matching_engine_init (ta_engine_1 mem), en_pool = pools_1, en_out = []\<rparr>;
        let client_registry = tcp_client_registry_init (ta_registry mem);
        input_queue_0 \<leftarrow> queue_init (ta_input_0 mem);
        input_queue_1 \<leftarrow> queue_init (ta_input_1 mem);
        output_queue_0 \<leftarrow> queue_init (ta_output_0 mem);
        output_queue_1 \<leftarrow> queue_init (ta_output_1 mem);
        let listener = tcp_listener_init_dual (tcp_listener_config config) client_registry input_queue_0 input_queue_1 False (zero_listener mem);
        processor_0 \<leftarrow> start_tcp_processor 0 engine_0 input_queue_0 output_queue_0;
        processor_1 \<leftarrow> start_tcp_processor 1 engine_1 input_queue_1 output_queue_1;
        router \<leftarrow> output_router_init_dual \<lparr>rc_tcp_mode = True\<rparr> client_registry output_queue_0 output_queue_1 False (zero_router mem);
        (ok, router') \<leftarrow> enable_configured_multicast config calls router;
        if \<not> ok then do {
          tcp_cleanup listener router' engine_0 (Some engine_1);
          Some (Inl 0)
        } else Some (Inr \<lparr>ts_listener = listener, ts_router = router', ts_proc = (\<lambda>k. Some (if k then processor_1 else processor_0))\<rparr>)
      })"

text \<open>The end of the main thread: every client is disconnected, its orders are cancelled in every processor, and after the threads have ended, the cleanup.\<close>

fun cancel_disconnected :: "u32 list \<Rightarrow> proc_ctx \<Rightarrow> proc_ctx option" where
  "cancel_disconnected [] p = Some p"
| "cancel_disconnected (c # cs) p = Option.bind (processor_cancel_client_orders c p) (cancel_disconnected cs)"

definition cancel_in :: "u32 list \<Rightarrow> (proc_ctx \<times> thread_locals) option \<Rightarrow> (proc_ctx \<times> thread_locals) option option" where
  "cancel_in cs proc = (case proc of None \<Rightarrow> Some None | Some (p, l) \<Rightarrow> map_option (\<lambda>p'. Some (p', l)) (cancel_disconnected cs p))"

definition tcp_mode_disconnect :: "tcp_system \<Rightarrow> tcp_system option" where
  "tcp_mode_disconnect sys = do {
     (disconnected, registry) \<leftarrow> tcp_client_disconnect_all MAX_TCP_CLIENTS (tl_client_registry (ts_listener sys));
     p0 \<leftarrow> cancel_in disconnected (ts_proc sys False);
     p1 \<leftarrow> cancel_in disconnected (ts_proc sys True);
     Some (sys\<lparr>ts_listener := (ts_listener sys)\<lparr>tl_client_registry := registry\<rparr>, ts_proc := (\<lambda>k. if k then p1 else p0)\<rparr>)
   }"

section \<open>The threads\<close>

definition router_of :: "tcp_system \<Rightarrow> output_router_context_t" where
  "router_of sys = (ts_router sys)\<lparr>or_client_registry := tl_client_registry (ts_listener sys)\<rparr>"

definition router_done :: "output_router_context_t \<Rightarrow> tcp_system \<Rightarrow> tcp_system" where
  "router_done r sys = sys\<lparr>ts_router := r, ts_listener := (ts_listener sys)\<lparr>tl_client_registry := or_client_registry r\<rparr>\<rparr>"

definition join_queues :: "bool \<Rightarrow> tcp_system \<Rightarrow> proc_ctx \<Rightarrow> proc_ctx" where
  "join_queues k sys p = (if k then
       (case (tl_input_queue_1 (ts_listener sys), or_input_queue_1 (ts_router sys)) of (Some i, Some q) \<Rightarrow> p\<lparr>px_input := i, px_output := q\<rparr> | _ \<Rightarrow> p)
     else p\<lparr>px_input := tl_input_queue_0 (ts_listener sys), px_output := or_input_queue_0 (ts_router sys)\<rparr>)"

definition split_queues :: "bool \<Rightarrow> proc_ctx \<Rightarrow> tcp_system \<Rightarrow> tcp_system" where
  "split_queues k p sys = (if k
     then sys\<lparr>ts_listener := (ts_listener sys)\<lparr>tl_input_queue_1 := Some (px_input p)\<rparr>, ts_router := (ts_router sys)\<lparr>or_input_queue_1 := Some (px_output p)\<rparr>\<rparr>
     else sys\<lparr>ts_listener := (ts_listener sys)\<lparr>tl_input_queue_0 := px_input p\<rparr>, ts_router := (ts_router sys)\<lparr>or_input_queue_0 := px_output p\<rparr>\<rparr>)"

inductive tcp_step :: "tcp_system \<Rightarrow> tcp_system \<Rightarrow> bool" where
  listen: "tl_listen_fd (ts_listener sys) = -1 \<Longrightarrow> setup_listening_socket sr (ts_listener sys) = Some (True, ctx1) \<Longrightarrow>
    setup_event_loop sr ctx1 = Some (True, ctx2) \<Longrightarrow> tcp_step sys (sys\<lparr>ts_listener := ctx2\<rparr>)"
| listener: "0 \<le> tl_listen_fd (ts_listener sys) \<Longrightarrow> (\<And>i. write_fits (wr i)) \<Longrightarrow>
    (\<And>ctx1 evs. process_output_queues wr (ts_listener sys) = Some ctx1 \<Longrightarrow> r = Wait_events evs \<Longrightarrow> events_ok evs ctx1) \<Longrightarrow>
    listener_iteration wr r (ts_listener sys) = Some (True, ctx) \<Longrightarrow> tcp_step sys (sys\<lparr>ts_listener := ctx\<rparr>)"
| processor: "ts_proc sys k = Some (p, l) \<Longrightarrow> next_batch_ok clock (join_queues k sys p) \<Longrightarrow>
    processor_iteration clock (join_queues k sys p) l = Some (p', l') \<Longrightarrow>
    tcp_step sys ((split_queues k p' sys)\<lparr>ts_proc := (ts_proc sys)(k := Some (p', l'))\<rparr>)"
| router: "router_round net (router_of sys) = Some (n, r) \<Longrightarrow> tcp_step sys (router_done r sys)"

inductive tcp_run :: "tcp_system \<Rightarrow> bool" where
  start_single: "run_tcp_single_processor config mem calls = Some (Inr sys) \<Longrightarrow> tcp_run sys"
| start_dual: "run_tcp_dual_processor config mem calls = Some (Inr sys) \<Longrightarrow> tcp_run sys"
| step: "tcp_run sys \<Longrightarrow> tcp_step sys sys' \<Longrightarrow> tcp_run sys'"

end
