(* ===== verification/ME_Tcp_System.thy ===== *)
theory ME_Tcp_System
  imports ME_Tcp_Mode ME_Unified_Run
begin

text \<open>
  The invariant of the TCP mode, its preservation by every interleaving of its threads, and the way of requests through the
  running system.
\<close>

section \<open>The invariant\<close>

definition tcp_procs_ok :: "tcp_system \<Rightarrow> bool" where
  "tcp_procs_ok sys \<longleftrightarrow> (\<forall>k p l. ts_proc sys k = Some (p, l) \<longrightarrow> (\<exists>f. engine_run f (px_engine p)) \<and> (k \<longrightarrow> or_input_queue_1 (ts_router sys) \<noteq> None))"

definition sendable_outputs :: "tcp_system \<Rightarrow> bool" where
  "sendable_outputs sys \<longleftrightarrow> (\<forall>k. \<forall>e\<in>set (outbox (ts_router sys) k). formattable (oe_msg e))"

definition tcp_mode_ok :: "tcp_system \<Rightarrow> bool" where
  "tcp_mode_ok sys \<longleftrightarrow> listener_ok (ts_listener sys) \<and> router_ok (router_of sys) \<and> sendable_outputs sys \<and> tcp_procs_ok sys
     \<and> (or_input_queue_1 (ts_router sys) \<noteq> None \<longrightarrow> dual (ts_listener sys))"

lemma router_of_simps [simp]:
  "outbox (router_of sys) = outbox (ts_router sys)" "or_client_registry (router_of sys) = tl_client_registry (ts_listener sys)"
  "or_input_queue_1 (router_of sys) = or_input_queue_1 (ts_router sys)"
  by (simp_all add: router_of_def outbox_def fun_eq_iff)

lemma sendable_castable: "sendable_outputs sys \<Longrightarrow> both_castable (router_of sys)"
  by (auto simp: sendable_outputs_def both_castable_def castable_def good_out_def)

lemma listener_ok_fresh:
  assumes "lives ctx = {}" and "queues_ok ctx" and "tcp_registry_ok (tl_client_registry ctx)"
  shows "listener_ok ctx"
  using assms by (simp add: listener_ok_def)

section \<open>The start\<close>

lemma start_tcp_processor_ok:
  obtains p l where "start_tcp_processor n e i q = Some (p, l)" "px_engine p = e" "lv_sequence l = 0" "lv_flush_client_id l = 0"
  by (simp add: start_tcp_processor_def processor_init_def thread_start_def asserts zero_processor_def)

definition same_wiring :: "output_router_context_t \<Rightarrow> output_router_context_t \<Rightarrow> bool" where
  "same_wiring r r' \<longleftrightarrow> or_config r' = or_config r \<and> or_client_registry r' = or_client_registry r \<and> or_input_queue_0 r' = or_input_queue_0 r
     \<and> or_input_queue_1 r' = or_input_queue_1 r \<and> or_num_input_queues r' = or_num_input_queues r \<and> or_mcast_wire r' = or_mcast_wire r"

lemma enable_configured_multicast_same: "enable_configured_multicast config calls r = Some (ok, r') \<Longrightarrow> same_wiring r r'"
  by (auto simp: enable_configured_multicast_def output_router_enable_multicast_def setup_multicast_socket_def same_wiring_def bind_eq_Some_conv Let_def
      bind_assert_that_Some split: if_splits option.splits)

definition multicast_works :: "app_config_t \<Rightarrow> mode_calls \<Rightarrow> bool" where
  "multicast_works config calls \<longleftrightarrow> \<not> ac_enable_multicast config \<or> 0 \<le> mc_mcast_fd calls \<and> mc_mcast_addr calls \<noteq> None"

lemma enable_configured_multicast_result:
  assumes "ac_enable_multicast config \<Longrightarrow> ac_multicast_group config \<noteq> []"
  shows "\<exists>r'. enable_configured_multicast config calls r = Some (multicast_works config calls, r')"
proof (cases "ac_enable_multicast config")
  case True
  have "snd (snprintf 64 (ac_multicast_group config)) \<noteq> []" using assms [OF True] by (simp add: snprintf_def)
  then show ?thesis using True assms
    by (cases "mc_mcast_addr calls") (simp_all add: enable_configured_multicast_def multicast_is_enabled_def output_router_enable_multicast_def setup_multicast_socket_def
        multicast_works_def asserts Let_def)
qed (simp add: enable_configured_multicast_def multicast_is_enabled_def multicast_works_def)

text \<open>A mode that has just been started.\<close>

definition fresh_tcp :: "app_config_t \<Rightarrow> tcp_system \<Rightarrow> bool" where
  "fresh_tcp config sys \<longleftrightarrow> tcp_mode_ok sys \<and> lives (ts_listener sys) = {} \<and> (\<forall>k. inbox (ts_listener sys) k = [] \<and> outbox (ts_router sys) k = [])
     \<and> tl_config (ts_listener sys) = tcp_listener_config config \<and> tl_listen_fd (ts_listener sys) = -1 \<and> tl_wire (ts_listener sys) = []
     \<and> (\<forall>k p l. ts_proc sys k = Some (p, l) \<longrightarrow> engine_run False (px_engine p) \<and> lv_sequence l = 0)
     \<and> ts_proc sys False \<noteq> None \<and> (ts_proc sys True \<noteq> None \<longleftrightarrow> dual (ts_listener sys))"

lemma cleanup_fresh:
  assumes "live (tl_client_registry ctx) = {}" and "queue_ok (tl_input_queue_0 ctx)" "contents (tl_input_queue_0 ctx) = []"
    and "queue_ok (or_input_queue_0 r)" "contents (or_input_queue_0 r) = []"
    and "\<And>q. tl_input_queue_1 ctx = Some q \<Longrightarrow> queue_ok q \<and> contents q = []" and "\<And>q. or_input_queue_1 r = Some q \<Longrightarrow> queue_ok q \<and> contents q = []"
    and "destroyable (Some e0)" "destroyable e1"
  shows "tcp_cleanup ctx r e0 e1 = Some ()"
proof -
  have reg: "tcp_client_registry_destroy (tl_client_registry ctx) = Some (tl_client_registry ctx)"
    using assms(1) unfolding tcp_client_registry_destroy_def set_upt by (auto simp: live_def)
  have r: "or_input_queue_0 (output_router_cleanup r) = or_input_queue_0 r" "or_input_queue_1 (output_router_cleanup r) = or_input_queue_1 r"
    by (simp_all add: output_router_cleanup_def cleanup_multicast_socket_def)
  have i1: "destroy_optional queue_destroy (tl_input_queue_1 ctx) = Some ()" using assms(6) by (cases "tl_input_queue_1 ctx") (auto simp: queue_observers(3))
  have o1: "destroy_optional queue_destroy (or_input_queue_1 r) = Some ()" using assms(7) by (cases "or_input_queue_1 r") (auto simp: queue_observers(3))
  show ?thesis unfolding tcp_cleanup_def Let_def r reg i1 o1 destroy_engine_ok [OF assms(8)] destroy_engine_ok [OF assms(9)]
    using assms(2-5) by (simp add: queue_observers(3))
qed

text \<open>An engine as the start makes it.\<close>

definition new_engine :: "order_pool_t \<Rightarrow> matching_engine_t \<Rightarrow> engine_ctx \<Rightarrow> bool" where
  "new_engine pool engine e \<longleftrightarrow> (\<exists>pool'. memory_pools_init pool = Some pool' \<and> e = \<lparr>en_engine = matching_engine_init engine, en_pool = pool', en_out = []\<rparr>)"

lemma new_engine_ok:
  assumes "new_engine pool engine e"
  shows "engine_run False e" "destroyable (Some e)"
proof -
  from assms obtain p where p: "memory_pools_init pool = Some p" "e = \<lparr>en_engine = matching_engine_init engine, en_pool = p, en_out = []\<rparr>" by (auto simp: new_engine_def)
  show "engine_run False e" unfolding p(2) by (rule engine_run.start [OF p(1)])
  moreover have "0 < p_free_count p" using p(1) by (auto simp: memory_pools_init_def order_pool_init_def Let_def bind_assert_that_Some bind_eq_Some_conv)
  ultimately show "destroyable (Some e)" by (auto simp: destroyable_def p(2))
qed

theorem tcp_single_start:
  assumes a: "mc_allocated calls" and g: "ac_enable_multicast config \<Longrightarrow> ac_multicast_group config \<noteq> []"
  shows "if multicast_works config calls
     then \<exists>sys p l. run_tcp_single_processor config mem calls = Some (Inr sys) \<and> fresh_tcp config sys \<and> \<not> dual (ts_listener sys)
       \<and> ts_proc sys False = Some (p, l) \<and> new_engine (ta_pool_0 mem) (ta_engine_0 mem) (px_engine p)
     else run_tcp_single_processor config mem calls = Some (Inl 0)"
proof -
  obtain pool where pool: "memory_pools_init (ta_pool_0 mem) = Some pool" using memory_pools_init_total by blast
  define e where "e = \<lparr>en_engine = matching_engine_init (ta_engine_0 mem), en_pool = pool, en_out = []\<rparr>"
  have e: "new_engine (ta_pool_0 mem) (ta_engine_0 mem) e" using pool by (auto simp: new_engine_def e_def)
  obtain i where i: "queue_init (ta_input_0 mem) = Some i" "queue_ok i" "contents i = []" by (rule queue_init_cases)
  obtain q where q: "queue_init (ta_output_0 mem) = Some q" "queue_ok q" "contents q = []" by (rule queue_init_cases)
  obtain p l where p: "start_tcp_processor 0 e i q = Some (p, l)" "px_engine p = e" "lv_sequence l = 0" by (rule start_tcp_processor_ok)
  define reg where "reg = tcp_client_registry_init (ta_registry mem)"
  note rg = tcp_client_registry_init_ok [of "ta_registry mem", folded reg_def]
  define ctx where "ctx = tcp_listener_init (tcp_listener_config config) reg i False (zero_listener mem)"
  have c: "tl_client_registry ctx = reg" "tl_input_queue_0 ctx = i" "tl_input_queue_1 ctx = None" "tl_num_input_queues ctx = 1" "tl_config ctx = tcp_listener_config config"
    "tl_listen_fd ctx = -1" "tl_wire ctx = []" by (simp_all add: ctx_def tcp_listener_init_def clear_context_def zero_listener_def)
  obtain r where r: "output_router_init \<lparr>rc_tcp_mode = True\<rparr> reg q False (zero_router mem) = Some r" "or_config r = \<lparr>rc_tcp_mode = True\<rparr>" "or_input_queue_0 r = q"
    "or_input_queue_1 r = None" "or_num_input_queues r = 1" by (simp add: output_router_init_def clear_router_def asserts Let_def)
  from enable_configured_multicast_result [OF g] obtain r' where r': "enable_configured_multicast config calls r = Some (multicast_works config calls, r')" by metis
  from enable_configured_multicast_same [OF this] have w: "or_config r' = \<lparr>rc_tcp_mode = True\<rparr>" "or_input_queue_0 r' = q" "or_input_queue_1 r' = None" "or_num_input_queues r' = 1"
    using r by (simp_all add: same_wiring_def)
  define sys where "sys = \<lparr>ts_listener = ctx, ts_router = r', ts_proc = (\<lambda>k. if k then None else Some (p, l))\<rparr>"
  have run: "run_tcp_single_processor config mem calls = (if multicast_works config calls then Some (Inr sys) else Option.bind (tcp_cleanup ctx r' e None) (\<lambda>_. Some (Inl 0)))"
    unfolding run_tcp_single_processor_def pool bind.simps Let_def e_def [symmetric] i(1) q(1) reg_def [symmetric] ctx_def [symmetric] p(1) r(1)
    using a by (simp add: r' sys_def)
  have box: "inbox ctx k = []" "outbox r' k = []" for k using c i q w by (simp_all add: inbox_def outbox_def)
  have "listener_ok ctx" using c rg i by (intro listener_ok_fresh) (simp_all add: queues_ok_def dual_def second_ok_def)
  moreover have "router_ok (router_of sys)" using w q rg c(1) by (simp add: router_ok_def router_of_def sys_def)
  ultimately have "fresh_tcp config sys" using box c w p rg new_engine_ok(1) [OF e]
    by (auto simp: fresh_tcp_def tcp_mode_ok_def sys_def sendable_outputs_def tcp_procs_ok_def dual_def split: if_splits)
  moreover have "tcp_cleanup ctx r' e None = Some ()"
    by (rule cleanup_fresh) (use c i q w rg new_engine_ok(2) [OF e] in \<open>simp_all add: destroyable_def\<close>)
  ultimately show ?thesis using run e p(2) c(4) by (auto simp: sys_def dual_def)
qed

theorem tcp_dual_start:
  assumes a: "mc_allocated calls" and g: "ac_enable_multicast config \<Longrightarrow> ac_multicast_group config \<noteq> []"
  shows "if multicast_works config calls
     then \<exists>sys p l. run_tcp_dual_processor config mem calls = Some (Inr sys) \<and> fresh_tcp config sys \<and> dual (ts_listener sys)
       \<and> ts_proc sys False = Some (p, l) \<and> new_engine (ta_pool_0 mem) (ta_engine_0 mem) (px_engine p)
     else run_tcp_dual_processor config mem calls = Some (Inl 0)"
proof -
  obtain pool_0 pool_1 where pool: "memory_pools_init (ta_pool_0 mem) = Some pool_0" "memory_pools_init (ta_pool_1 mem) = Some pool_1" using memory_pools_init_total by blast
  define e0 where "e0 = \<lparr>en_engine = matching_engine_init (ta_engine_0 mem), en_pool = pool_0, en_out = []\<rparr>"
  define e1 where "e1 = \<lparr>en_engine = matching_engine_init (ta_engine_1 mem), en_pool = pool_1, en_out = []\<rparr>"
  have e: "new_engine (ta_pool_0 mem) (ta_engine_0 mem) e0" "new_engine (ta_pool_1 mem) (ta_engine_1 mem) e1" using pool by (auto simp: new_engine_def e0_def e1_def)
  obtain i0 where i0: "queue_init (ta_input_0 mem) = Some i0" "queue_ok i0" "contents i0 = []" by (rule queue_init_cases)
  obtain i1 where i1: "queue_init (ta_input_1 mem) = Some i1" "queue_ok i1" "contents i1 = []" by (rule queue_init_cases)
  obtain q0 where q0: "queue_init (ta_output_0 mem) = Some q0" "queue_ok q0" "contents q0 = []" by (rule queue_init_cases)
  obtain q1 where q1: "queue_init (ta_output_1 mem) = Some q1" "queue_ok q1" "contents q1 = []" by (rule queue_init_cases)
  obtain p l where p: "start_tcp_processor 0 e0 i0 q0 = Some (p, l)" "px_engine p = e0" "lv_sequence l = 0" by (rule start_tcp_processor_ok)
  obtain p' l' where p': "start_tcp_processor 1 e1 i1 q1 = Some (p', l')" "px_engine p' = e1" "lv_sequence l' = 0" by (rule start_tcp_processor_ok)
  define reg where "reg = tcp_client_registry_init (ta_registry mem)"
  note rg = tcp_client_registry_init_ok [of "ta_registry mem", folded reg_def]
  define ctx where "ctx = tcp_listener_init_dual (tcp_listener_config config) reg i0 i1 False (zero_listener mem)"
  have c: "tl_client_registry ctx = reg" "tl_input_queue_0 ctx = i0" "tl_input_queue_1 ctx = Some i1" "tl_num_input_queues ctx = 2" "tl_config ctx = tcp_listener_config config"
    "tl_listen_fd ctx = -1" "tl_wire ctx = []" by (simp_all add: ctx_def tcp_listener_init_dual_def clear_context_def zero_listener_def)
  obtain r where r: "output_router_init_dual \<lparr>rc_tcp_mode = True\<rparr> reg q0 q1 False (zero_router mem) = Some r" "or_config r = \<lparr>rc_tcp_mode = True\<rparr>" "or_input_queue_0 r = q0"
    "or_input_queue_1 r = Some q1" "or_num_input_queues r = 2" by (simp add: output_router_init_dual_def clear_router_def asserts Let_def)
  from enable_configured_multicast_result [OF g] obtain r' where r': "enable_configured_multicast config calls r = Some (multicast_works config calls, r')" by metis
  from enable_configured_multicast_same [OF this] have w: "or_config r' = \<lparr>rc_tcp_mode = True\<rparr>" "or_input_queue_0 r' = q0" "or_input_queue_1 r' = Some q1" "or_num_input_queues r' = 2"
    using r by (simp_all add: same_wiring_def)
  define sys where "sys = \<lparr>ts_listener = ctx, ts_router = r', ts_proc = (\<lambda>k. Some (if k then (p', l') else (p, l)))\<rparr>"
  have run: "run_tcp_dual_processor config mem calls = (if multicast_works config calls then Some (Inr sys) else Option.bind (tcp_cleanup ctx r' e0 (Some e1)) (\<lambda>_. Some (Inl 0)))"
    unfolding run_tcp_dual_processor_def pool bind.simps Let_def e0_def [symmetric] e1_def [symmetric] i0(1) i1(1) q0(1) q1(1) reg_def [symmetric] ctx_def [symmetric] p(1) p'(1) r(1)
    using a by (simp add: r' sys_def)
  have box: "inbox ctx k = []" "outbox r' k = []" for k using c i0 i1 q0 q1 w by (simp_all add: inbox_def outbox_def)
  have "listener_ok ctx" using c rg i0 i1 by (intro listener_ok_fresh) (simp_all add: queues_ok_def dual_def)
  moreover have "router_ok (router_of sys)" using w q0 q1 rg c(1) by (simp add: router_ok_def router_of_def sys_def)
  ultimately have "fresh_tcp config sys" using box c w p p' rg new_engine_ok(1) [OF e(1)] new_engine_ok(1) [OF e(2)]
    by (auto simp: fresh_tcp_def tcp_mode_ok_def sys_def sendable_outputs_def tcp_procs_ok_def dual_def split: if_splits)
  moreover have "tcp_cleanup ctx r' e0 (Some e1) = Some ()"
    by (rule cleanup_fresh) (use c i0 i1 q0 q1 w rg new_engine_ok(2) [OF e(1)] new_engine_ok(2) [OF e(2)] in simp_all)
  ultimately show ?thesis using run e p(2) c(4) by (auto simp: sys_def dual_def)
qed

text \<open>A start that succeeds is one of these.\<close>

lemma started_fresh:
  assumes "run_tcp_single_processor config mem calls = Some (Inr sys) \<or> run_tcp_dual_processor config mem calls = Some (Inr sys)"
  shows "fresh_tcp config sys"
proof -
  have a: "mc_allocated calls" using assms by (auto simp: run_tcp_single_processor_def run_tcp_dual_processor_def split: if_splits)
  have g: "ac_enable_multicast config \<Longrightarrow> ac_multicast_group config \<noteq> []"
    using assms by (auto simp: run_tcp_single_processor_def run_tcp_dual_processor_def enable_configured_multicast_def multicast_is_enabled_def
        output_router_enable_multicast_def bind_eq_Some_conv bind_assert_that_Some Let_def split: if_splits)
  from tcp_single_start [OF a g, of mem] tcp_dual_start [OF a g, of mem] assms show ?thesis by (auto split: if_splits)
qed

section \<open>Every step keeps the invariant\<close>

lemma tcp_second:
  assumes "tcp_mode_ok sys" and "or_input_queue_1 (ts_router sys) \<noteq> None"
  obtains i q where "tl_input_queue_1 (ts_listener sys) = Some i" "or_input_queue_1 (ts_router sys) = Some q" "queue_ok i" "queue_ok q"
  using assms by (cases "tl_input_queue_1 (ts_listener sys)") (auto simp: tcp_mode_ok_def listener_ok_def queues_ok_def second_ok_def router_ok_def split: option.splits)

lemma join_queues_ok:
  assumes ok: "tcp_mode_ok sys" and k: "k \<longrightarrow> or_input_queue_1 (ts_router sys) \<noteq> None"
  shows "queue_ok (px_input (join_queues k sys p))" "queue_ok (px_output (join_queues k sys p))" "px_engine (join_queues k sys p) = px_engine p"
    "contents (px_input (join_queues k sys p)) = inbox (ts_listener sys) k" "contents (px_output (join_queues k sys p)) = outbox (ts_router sys) k"
proof -
  have "queue_ok (tl_input_queue_0 (ts_listener sys))" "queue_ok (or_input_queue_0 (ts_router sys))"
    using ok by (simp_all add: tcp_mode_ok_def listener_ok_def queues_ok_def router_ok_def router_of_def)
  moreover have "k \<Longrightarrow> \<exists>i q. tl_input_queue_1 (ts_listener sys) = Some i \<and> or_input_queue_1 (ts_router sys) = Some q \<and> queue_ok i \<and> queue_ok q"
    using tcp_second [OF ok] k by metis
  ultimately show "queue_ok (px_input (join_queues k sys p))" "queue_ok (px_output (join_queues k sys p))" "px_engine (join_queues k sys p) = px_engine p"
    "contents (px_input (join_queues k sys p)) = inbox (ts_listener sys) k" "contents (px_output (join_queues k sys p)) = outbox (ts_router sys) k"
    by (cases k; auto simp: join_queues_def inbox_def outbox_def)+
qed

lemma listener_ok_cong:
  assumes "listener_ok ctx" and "tl_client_registry ctx' = tl_client_registry ctx" and "queues_ok ctx'"
    and "tl_epoll ctx' = tl_epoll ctx" "tl_config ctx' = tl_config ctx" "tl_listen_fd ctx' = tl_listen_fd ctx"
  shows "listener_ok ctx'"
  using assms by (simp add: listener_ok_def client_at_def)

lemma split_queues_ok:
  assumes ok: "tcp_mode_ok sys" and k: "k \<longrightarrow> or_input_queue_1 (ts_router sys) \<noteq> None" and q: "queue_ok (px_input p)" "queue_ok (px_output p)"
  shows "listener_ok (ts_listener (split_queues k p sys))" "router_ok (router_of (split_queues k p sys))"
    "inbox (ts_listener (split_queues k p sys)) = (inbox (ts_listener sys))(k := contents (px_input p))"
    "outbox (ts_router (split_queues k p sys)) = (outbox (ts_router sys))(k := contents (px_output p))"
    "or_input_queue_1 (ts_router (split_queues k p sys)) = None \<longleftrightarrow> or_input_queue_1 (ts_router sys) = None"
    "dual (ts_listener (split_queues k p sys)) = dual (ts_listener sys)"
    "tl_client_registry (ts_listener (split_queues k p sys)) = tl_client_registry (ts_listener sys)"
proof -
  have l: "listener_ok (ts_listener sys)" and r: "router_ok (router_of sys)" using ok by (simp_all add: tcp_mode_ok_def)
  have "queues_ok (ts_listener sys)" using l by (simp add: listener_ok_def)
  then have "queues_ok (ts_listener (split_queues k p sys))" using q by (cases k) (auto simp: split_queues_def queues_ok_def dual_def)
  then show "listener_ok (ts_listener (split_queues k p sys))" by (intro listener_ok_cong [OF l]) (simp_all add: split_queues_def)
  show "router_ok (router_of (split_queues k p sys))" using r q k by (cases k) (auto simp: split_queues_def router_ok_def router_of_def split: option.splits)
  show "or_input_queue_1 (ts_router (split_queues k p sys)) = None \<longleftrightarrow> or_input_queue_1 (ts_router sys) = None" using k by (auto simp: split_queues_def)
qed (auto simp: split_queues_def inbox_def outbox_def dual_def fun_eq_iff)

lemma tcp_processor_fatal:
  assumes ok: "tcp_mode_ok sys" and p: "ts_proc sys k = Some (p, l)" and f: "first_fatal clock (inbox (ts_listener sys) k) (px_engine p)"
  shows "processor_iteration clock (join_queues k sys p) l = None"
proof -
  have "k \<longrightarrow> or_input_queue_1 (ts_router sys) \<noteq> None" using ok p by (auto simp: tcp_mode_ok_def tcp_procs_ok_def)
  from join_queues_ok [OF ok this, where p = p] f show ?thesis by (intro processor_iteration_fatal) simp_all
qed

text \<open>The client's CSV cancel of user 0, framed, stops the event loop that reads it.\<close>

lemma tcp_cancel_zero:
  assumes ok: "listener_ok ctx" and i: "i \<in> lives ctx" and p: "pending (tc_read_state (client_at ctx i)) = []"
    and e: "encode_csv_cancel CODEC_MAX_MESSAGE_SIZE 0 oid = (n, buffer)"
  shows "handle_client_read (Recv_bytes (frame (map of_char (take n buffer)))) (tcp_id i) ctx = None"
proof (rule read_aborts [OF ok i p])
  obtain line where l: "encode_csv_cancel CODEC_MAX_MESSAGE_SIZE 0 oid = (length line + 1, line @ [newline])"
    "\<forall>p. message_parser_parse p line = None" "newline \<notin> set line" "CHR 0x00 \<notin> set line" "hd line = CHR ''C''" "5 \<le> length line"
    by (rule cancel_zero_line)
  have m: "map of_char (take n buffer) = (map of_char (line @ [newline]) :: u8 list)" "n = length line + 1" "take n buffer = line @ [newline]" using e l(1) by auto
  from csv_cancel_roundtrip [of CODEC_MAX_MESSAGE_SIZE 0 oid] e have n: "n < 100" "\<forall>p. message_parser_parse p (line @ [newline]) = None"
    unfolding m(3) [symmetric] by fastforce+
  show "msg_ok (map of_char (take n buffer))" using n(1) l(6) m by (simp add: msg_ok_def)
  have tw: "takeWhile (\<lambda>c. c \<noteq> CHR 0x00) (line @ [newline]) = line @ [newline]" using l(4) by (subst takeWhile_eq_all_conv) auto
  have c: "(of_char (line ! 0) :: u8) \<noteq> 0x4D" using l(5,6) by (cases line) simp_all
  show "\<forall>tls. parse_input (map of_char (take n buffer)) tls = None"
    unfolding m(1) parse_input_def map_map o_def byte_char_of_char map_ident tw using n m(2) l(6) c by (auto simp: nth_append)
qed

lemma tcp_processor_step:
  assumes ok: "tcp_mode_ok sys" and p: "ts_proc sys k = Some (p, l)" and nb: "next_batch_ok clock (join_queues k sys p)"
  shows "\<exists>p' l' taken outs. processor_iteration clock (join_queues k sys p) l = Some (p', l')
     \<and> tcp_mode_ok ((split_queues k p' sys)\<lparr>ts_proc := (ts_proc sys)(k := Some (p', l'))\<rparr>)
     \<and> engine_iteration clock (lv_flush_client_id l) (take 32 (inbox (ts_listener sys) k)) (px_engine p) = Some (taken, outs, px_engine p')
     \<and> inbox (ts_listener sys) k = taken @ contents (px_input p') \<and> inbox (ts_listener (split_queues k p' sys)) = (inbox (ts_listener sys))(k := contents (px_input p'))
     \<and> outbox (ts_router (split_queues k p' sys)) = (outbox (ts_router sys))(k := outbox (ts_router sys) k
         @ take (LOCKFREE_QUEUE_SIZE - 1 - length (outbox (ts_router sys) k)) (route_all (lv_sequence l) outs))"
proof -
  have run: "\<exists>f. engine_run f (px_engine p)" and k: "k \<longrightarrow> or_input_queue_1 (ts_router sys) \<noteq> None" using ok p by (auto simp: tcp_mode_ok_def tcp_procs_ok_def)
  note at = join_queues_ok [OF ok k, where p = p]
  have "proc_ok (join_queues k sys p)" using at run by (simp add: proc_ok_def)
  from processor_iteration_ok [OF this nb, of l] obtain p' l' taken outs where r:
    "processor_iteration clock (join_queues k sys p) l = Some (p', l')" "proc_ok p'"
    "engine_iteration clock (lv_flush_client_id l) (take 32 (inbox (ts_listener sys) k)) (px_engine p) = Some (taken, outs, px_engine p')"
    "inbox (ts_listener sys) k = taken @ contents (px_input p')"
    "contents (px_output p') = outbox (ts_router sys) k @ take (LOCKFREE_QUEUE_SIZE - 1 - length (outbox (ts_router sys) k)) (route_all (lv_sequence l) outs)"
    using at by auto
  from r(2) have q: "queue_ok (px_input p')" "queue_ok (px_output p')" "\<exists>f. engine_run f (px_engine p')" by (simp_all add: proc_ok_def)
  note dt = split_queues_ok [OF ok k q(1,2)]
  have "\<forall>e\<in>set (route_all (lv_sequence l) outs). formattable (oe_msg e)" using engine_iteration_outs [OF r(3)] route_all_msgs [of "lv_sequence l" outs] by blast
  then have out: "\<forall>e\<in>set (contents (px_output p')). formattable (oe_msg e)" using ok unfolding r(5) by (auto simp: tcp_mode_ok_def sendable_outputs_def dest: in_set_takeD)
  let ?s = "(split_queues k p' sys)\<lparr>ts_proc := (ts_proc sys)(k := Some (p', l'))\<rparr>"
  have "sendable_outputs ?s" using ok out by (simp add: sendable_outputs_def dt(4) tcp_mode_ok_def)
  moreover have "router_ok (router_of ?s)" using dt(2) by (simp add: router_of_def)
  moreover have "tcp_procs_ok ?s" using ok q(3) k dt(5) by (auto simp: tcp_procs_ok_def tcp_mode_ok_def split: if_splits)
  ultimately have "tcp_mode_ok ?s" using dt(1,5,6) ok by (simp add: tcp_mode_ok_def)
  with r dt(3,4) show ?thesis by (intro exI [of _ p'] exI [of _ l'] exI [of _ taken] exI [of _ outs]) simp
qed

lemma tcp_router_step:
  assumes ok: "tcp_mode_ok sys"
  shows "\<exists>n r. router_round net (router_of sys) = Some (n, r) \<and> tcp_mode_ok (router_done r sys)"
proof -
  have l: "listener_ok (ts_listener sys)" and ro: "router_ok (router_of sys)" and so: "sendable_outputs sys" using ok by (simp_all add: tcp_mode_ok_def)
  from router_round_ok [OF ro sendable_castable [OF so], of net] obtain n r where r: "router_round net (router_of sys) = Some (n, r)"
    "handed_out (take 32 (outbox (ts_router sys) False) @ take 32 (outbox (ts_router sys) True)) (router_of sys) r" "\<And>k. outbox r k = drop 32 (outbox (ts_router sys) k)" by (metis router_of_simps(1))
  let ?es = "take 32 (outbox (ts_router sys) False) @ take 32 (outbox (ts_router sys) True)"
  have g: "\<forall>e\<in>set ?es. good_out (lc_use_binary_output (tl_config (ts_listener sys))) (oe_msg e)" using so by (auto simp: sendable_outputs_def good_out_def dest: in_set_takeD)
  have c: "ts_listener (router_done r sys) = (ts_listener sys)\<lparr>tl_client_registry := fold given ?es (tl_client_registry (ts_listener sys))\<rparr>"
    using r(2) by (simp add: router_done_def handed_out_def)
  have rk: "router_ok r" "same_router (router_of sys) r" using r(2) by (simp_all add: handed_out_def)
  have "router_of (router_done r sys) = r" by (simp add: router_of_def router_done_def)
  moreover have "or_input_queue_1 r \<noteq> None \<longleftrightarrow> or_input_queue_1 (ts_router sys) \<noteq> None"
    using rk ro by (auto simp: router_ok_def same_router_def split: option.splits)
  moreover have "sendable_outputs (router_done r sys)" using so r(3) by (auto simp: sendable_outputs_def router_done_def dest: in_set_dropD)
  ultimately have "tcp_mode_ok (router_done r sys)" using given_listener(1) [OF l g c] rk(1) ok by (simp add: tcp_mode_ok_def tcp_procs_ok_def) (simp add: router_done_def dual_def)
  with r(1) show ?thesis by blast
qed

lemma listen_ok:
  assumes "lives ctx = {}" and "listener_ok ctx" and "setup_listening_socket sr ctx = Some (True, ctx1)" and "setup_event_loop sr ctx1 = Some (True, ctx2)"
  shows "listener_ok ctx2" "dual ctx2 = dual ctx"
proof -
  from assms(3) have c1: "ctx1 = ctx\<lparr>tl_listen_fd := sr_socket sr\<rparr>" by (auto simp: setup_listening_socket_def bind_assert_that_Some Let_def split: if_splits)
  with assms(4) have c2: "tl_client_registry ctx2 = tl_client_registry ctx" "tl_input_queue_0 ctx2 = tl_input_queue_0 ctx" "tl_input_queue_1 ctx2 = tl_input_queue_1 ctx"
    "tl_num_input_queues ctx2 = tl_num_input_queues ctx" by (auto simp: setup_event_loop_def bind_assert_that_Some Let_def split: if_splits)
  then show "dual ctx2 = dual ctx" by (simp add: dual_def)
  with c2 assms(1,2) show "listener_ok ctx2" by (simp add: listener_ok_def queues_ok_def)
qed

lemma router_ok_registry:
  assumes "router_ok (router_of sys)" and "tcp_registry_ok (tl_client_registry ctx)"
  shows "router_ok (router_of (sys\<lparr>ts_listener := ctx\<rparr>))"
  using assms by (auto simp: router_ok_def router_of_def split: option.splits)

text \<open>Clients only connect once there is a socket to connect to.\<close>

definition tcp_inv :: "tcp_system \<Rightarrow> bool" where
  "tcp_inv sys \<longleftrightarrow> tcp_mode_ok sys \<and> (tl_listen_fd (ts_listener sys) = -1 \<longrightarrow> lives (ts_listener sys) = {})"

theorem tcp_step_ok:
  assumes "tcp_step sys sys'" and ok: "tcp_inv sys"
  shows "tcp_inv sys'"
  using assms(1)
proof cases
  case (listen sr ctx1 ctx2)
  have l: "listener_ok (ts_listener sys)" "lives (ts_listener sys) = {}" using ok listen(2) by (simp_all add: tcp_inv_def tcp_mode_ok_def)
  note lo = listen_ok [OF l(2,1) listen(3,4)]
  have "tl_client_registry ctx2 = tl_client_registry (ts_listener sys)" using listen(3,4)
    by (auto simp: setup_listening_socket_def setup_event_loop_def bind_assert_that_Some Let_def split: if_splits)
  with lo ok listen(1) l(2) show ?thesis by (simp add: tcp_inv_def tcp_mode_ok_def sendable_outputs_def tcp_procs_ok_def router_of_def)
next
  case (listener wr r ctx)
  have l: "listener_ok (ts_listener sys)" using ok by (simp add: tcp_inv_def tcp_mode_ok_def)
  have "settled (ts_listener sys) (map_option snd (listener_iteration wr r (ts_listener sys)))"
    using listener_iteration_settled [of "ts_listener sys" wr r, OF l listener(3) listener(4)] listener(5) by auto
  then have c: "listener_ok ctx" "calm (ts_listener sys) ctx" using listener(5) by (simp_all add: settled_simps)
  then have "router_ok (router_of (sys\<lparr>ts_listener := ctx\<rparr>))" using ok router_ok_registry [of sys ctx] by (simp add: tcp_inv_def tcp_mode_ok_def listener_ok_def)
  with c ok listener(1,2) show ?thesis by (simp add: tcp_inv_def tcp_mode_ok_def sendable_outputs_def tcp_procs_ok_def calm_def dual_def)
next
  case (processor k p l clock p' l')
  have o: "tcp_mode_ok sys" using ok by (simp add: tcp_inv_def)
  from tcp_processor_step [OF o processor(2,3)] processor(1,4) have "tcp_mode_ok sys'" by auto
  moreover have "tl_listen_fd (ts_listener sys') = tl_listen_fd (ts_listener sys)" "lives (ts_listener sys') = lives (ts_listener sys)"
    unfolding processor(1) by (simp_all add: split_queues_def)
  ultimately show ?thesis using ok by (simp add: tcp_inv_def)
next
  case (router net n r)
  have o: "tcp_mode_ok sys" using ok by (simp add: tcp_inv_def)
  from tcp_router_step [OF o, of net] router have "tcp_mode_ok sys'" by auto
  moreover have "lives (ts_listener sys') = lives (ts_listener sys)"
  proof -
    from o have "router_ok (router_of sys)" "both_castable (router_of sys)" using sendable_castable by (simp_all add: tcp_mode_ok_def)
    from router_round_ok [OF this, of net] obtain n' r' es where "router_round net (router_of sys) = Some (n', r')" "handed_out es (router_of sys) r'" by metis
    then have "or_client_registry r = fold given es (tl_client_registry (ts_listener sys))" using router(2) by (simp add: handed_out_def)
    moreover have "tcp_registry_ok (tl_client_registry (ts_listener sys))" using o by (simp add: tcp_mode_ok_def listener_ok_def)
    ultimately show ?thesis unfolding router(1) using given_all_ok by (simp add: router_done_def more_output_def)
  qed
  moreover have "tl_listen_fd (ts_listener sys') = tl_listen_fd (ts_listener sys)" unfolding router(1) by (simp add: router_done_def)
  ultimately show ?thesis using ok by (simp add: tcp_inv_def)
qed

theorem tcp_run_ok: "tcp_run sys \<Longrightarrow> tcp_inv sys"
proof (induction rule: tcp_run.induct)
  case (start_single config mem calls sys)
  then show ?case using started_fresh [of config mem calls sys] by (simp add: tcp_inv_def fresh_tcp_def)
next
  case (start_dual config mem calls sys)
  then show ?case using started_fresh [of config mem calls sys] by (simp add: tcp_inv_def fresh_tcp_def)
next
  case (step sys sys')
  then show ?case by (blast intro: tcp_step_ok)
qed

text \<open>What waits for the processors is, in every interleaving, a request of the user it came from.\<close>

definition own_requests :: "tcp_system \<Rightarrow> bool" where
  "own_requests sys \<longleftrightarrow> (\<forall>k. \<forall>e\<in>set (inbox (ts_listener sys) k). valid_user (ie_client_id e) (ie_msg e))"

lemma own_requests_step:
  assumes "tcp_step sys sys'" and ok: "tcp_inv sys" and own: "own_requests sys"
  shows "own_requests sys'"
  using assms(1)
proof cases
  case (listen sr ctx1 ctx2)
  then have "inbox ctx2 = inbox (ts_listener sys)"
    by (auto simp: setup_listening_socket_def setup_event_loop_def bind_assert_that_Some Let_def inbox_def fun_eq_iff split: if_splits)
  with own listen(1) show ?thesis by (simp add: own_requests_def)
next
  case (listener wr r ctx)
  have l: "listener_ok (ts_listener sys)" using ok by (simp add: tcp_inv_def tcp_mode_ok_def)
  have "settled (ts_listener sys) (map_option snd (listener_iteration wr r (ts_listener sys)))"
    using listener_iteration_settled [of "ts_listener sys" wr r, OF l listener(3) listener(4)] listener(5) by auto
  then have "only_own (ts_listener sys) ctx" using listener(5) by (simp add: settled_simps calm_def)
  with own listener(1) show ?thesis unfolding own_requests_def only_own_def by (simp, metis Un_iff set_append)
next
  case (processor k p l clock p' l')
  have o: "tcp_mode_ok sys" using ok by (simp add: tcp_inv_def)
  from tcp_processor_step [OF o processor(2,3)] processor(4) obtain taken where
    t: "inbox (ts_listener sys) k = taken @ contents (px_input p')" "inbox (ts_listener (split_queues k p' sys)) = (inbox (ts_listener sys))(k := contents (px_input p'))" by auto
  have "\<forall>e\<in>set (contents (px_input p')). valid_user (ie_client_id e) (ie_msg e)" using own t(1) unfolding own_requests_def by (metis Un_iff set_append)
  with own t(2) processor(1) show ?thesis by (auto simp: own_requests_def)
next
  case (router net n r)
  then have "inbox (ts_listener sys') = inbox (ts_listener sys)" by (simp add: router_done_def inbox_def fun_eq_iff)
  with own show ?thesis by (simp add: own_requests_def)
qed

theorem tcp_run_own: "tcp_run sys \<Longrightarrow> own_requests sys"
proof (induction rule: tcp_run.induct)
  case (start_single config mem calls sys)
  then show ?case using started_fresh [of config mem calls sys] by (simp add: own_requests_def fresh_tcp_def)
next
  case (start_dual config mem calls sys)
  then show ?case using started_fresh [of config mem calls sys] by (simp add: own_requests_def fresh_tcp_def)
next
  case (step sys sys')
  then show ?case using own_requests_step tcp_run_ok by blast
qed

section \<open>From the bytes of a request to the bytes of the answers\<close>

lemma took_requests_listener:
  assumes ok: "listener_ok ctx" and i: "i \<in> lives ctx" and t: "took_requests i c ms rest ctx ctx'"
  shows "listener_ok ctx'" "lives ctx' = lives ctx" "fd_of ctx' i = fd_of ctx i" "queued ctx' i = queued ctx i" "unsent (client_at ctx' i) = unsent (client_at ctx i)"
    "sent_to ctx' fd = sent_to ctx fd" "left_over ctx' i = left_over ctx i" "dual ctx' = dual ctx" "tl_config ctx' = tl_config ctx" "tl_listen_fd ctx' = tl_listen_fd ctx"
proof -
  from took_requests_client [OF t] obtain rs b where c: "read_ok rs" "client_at ctx' i =
     (client_at ctx i)\<lparr>tc_read_state := rs, tc_messages_received := tc_messages_received (client_at ctx i) + of_nat (length ms), tc_bytes_received := b\<rparr>"
    "tl_client_registry ctx' = put_client i (client_at ctx' i) (tl_client_registry ctx)" by metis
  have w: "queues_ok ctx'" "same_world ctx ctx'" using t by (simp_all add: took_requests_def)
  then show same: "tl_config ctx' = tl_config ctx" "tl_listen_fd ctx' = tl_listen_fd ctx" "dual ctx' = dual ctx" "sent_to ctx' fd = sent_to ctx fd"
    by (simp_all add: same_world_def dual_def sent_to_def)
  have ck: "client_ok i (client_at ctx' i)" using listener_ok_client(1) [OF ok i] c(1,2) by (simp add: client_ok_def)
  have ep: "tl_epoll ctx' = tl_epoll ctx" using w(2) by (simp add: same_world_def)
  have fd: "fd_of ctx' i = fd_of ctx i" using c(2) by simp
  note pb = put_ok_but [OF ok i ck fd c(3) w(1) same(1,2)]
  show "lives ctx' = lives ctx" using pb(2) ep by simp
  have "conn_ok ctx' i" using listener_ok_conn [OF ok i] c(2) by (simp add: conn_ok_def client_writes_ok_def same ep)
  with pb(1) ep show "listener_ok ctx'" by (intro listener_okI) simp_all
  show "fd_of ctx' i = fd_of ctx i" "queued ctx' i = queued ctx i" "unsent (client_at ctx' i) = unsent (client_at ctx i)" "left_over ctx' i = left_over ctx i"
    using c(2) by (simp_all add: unsent_def left_over_def outstanding_def same)
qed

lemma tcp_mode_ok_listener:
  assumes "tcp_mode_ok sys" and "listener_ok ctx" and "dual ctx = dual (ts_listener sys)"
  shows "tcp_mode_ok (sys\<lparr>ts_listener := ctx\<rparr>)"
  using assms router_ok_registry [of sys ctx] by (simp add: tcp_mode_ok_def sendable_outputs_def tcp_procs_ok_def listener_ok_def)

text \<open>The engine looks at the message and the client of an envelope, and at nothing else.\<close>

abbreviation key_of :: "input_msg_envelope_t \<Rightarrow> input_msg_t \<times> u32" where "key_of e \<equiv> (ie_msg e, ie_client_id e)"

lemma engine_batch_keys:
  "map key_of xs = map key_of ys \<Longrightarrow> engine_batch clock i xs e = engine_batch clock i ys e \<and> batch_ok clock i xs e = batch_ok clock i ys e"
proof (induction xs arbitrary: ys i e)
  case (Cons x xs)
  then obtain y ys' where y: "ys = y # ys'" "ie_msg x = ie_msg y" "ie_client_id x = ie_client_id y" "map key_of xs = map key_of ys'" by (cases ys) auto
  from Cons.IH [OF y(4)] show ?case by (simp add: y(1-3) cong: option.case_cong)
qed simp

lemma numbered_keys: "map key_of (numbered c n ms) = map key_of (map (envelope_of c None) ms)"
  by (induction ms arbitrary: n) (simp_all add: envelope_of_def)

lemma numbered_answers:
  assumes "answers clock c ms e outs e'"
  shows "\<not> matching_engine_has_flush_in_progress (en_engine e)" "batch_ok clock 0 (numbered c n ms) e" "engine_batch clock 0 (numbered c n ms) e = Some (outs, e')"
  using assms engine_batch_keys [OF numbered_keys, of clock 0 c n ms e] by (simp_all add: answers_def)

lemma numbered_filter: "\<forall>m\<in>set ms. P m \<Longrightarrow> filter (\<lambda>e. P (ie_msg e)) (numbered c n ms) = numbered c n ms"
  by (induction ms arbitrary: n) simp_all

lemma tcp_processor_answers:
  assumes ok: "tcp_mode_ok sys" and p: "ts_proc sys k = Some (p, l)" and w: "inbox (ts_listener sys) k = numbered c n ms" and len: "length ms \<le> 32"
    and quiet: "\<And>j. outbox (ts_router sys) j = []" and ans: "answers clock c ms (px_engine p) outs e'"
    and room: "length (route_all (lv_sequence l) outs) < LOCKFREE_QUEUE_SIZE"
  shows "\<exists>p' l'. processor_iteration clock (join_queues k sys p) l = Some (p', l') \<and> px_engine p' = e'
     \<and> tcp_mode_ok ((split_queues k p' sys)\<lparr>ts_proc := (ts_proc sys)(k := Some (p', l'))\<rparr>)
     \<and> inbox (ts_listener (split_queues k p' sys)) k = [] \<and> outbox (ts_router (split_queues k p' sys)) = (\<lambda>_. [])(k := route_all (lv_sequence l) outs)"
proof -
  note a = numbered_answers(1) [OF ans] numbered_answers(2,3) [OF ans, of n]
  have k: "k \<longrightarrow> or_input_queue_1 (ts_router sys) \<noteq> None" using ok p by (auto simp: tcp_mode_ok_def tcp_procs_ok_def)
  note at = join_queues_ok [OF ok k, where p = p]
  have t: "take 32 (numbered c n ms) = numbered c n ms" using len by simp
  have "next_batch_ok clock (join_queues k sys p)" unfolding next_batch_ok_def Let_def at(3,4) w t using a(1,2) by simp
  from tcp_processor_step [OF ok p this] obtain p' l' taken outs' where
    q: "processor_iteration clock (join_queues k sys p) l = Some (p', l')" "tcp_mode_ok ((split_queues k p' sys)\<lparr>ts_proc := (ts_proc sys)(k := Some (p', l'))\<rparr>)"
      "engine_iteration clock (lv_flush_client_id l) (numbered c n ms) (px_engine p) = Some (taken, outs', px_engine p')"
      "numbered c n ms = taken @ contents (px_input p')" "inbox (ts_listener (split_queues k p' sys)) = (inbox (ts_listener sys))(k := contents (px_input p'))"
      "outbox (ts_router (split_queues k p' sys)) = (outbox (ts_router sys))(k := outbox (ts_router sys) k
         @ take (LOCKFREE_QUEUE_SIZE - 1 - length (outbox (ts_router sys) k)) (route_all (lv_sequence l) outs'))"
    unfolding w t by blast
  have e: "outs' = outs" "px_engine p' = e'" "taken = numbered c n ms" using q(3) a by (auto simp: engine_iteration_simps(1))
  have "outbox (ts_router (split_queues k p' sys)) = (\<lambda>_. [])(k := route_all (lv_sequence l) outs)" unfolding q(6) e(1) using quiet room by (simp add: fun_eq_iff)
  moreover have "inbox (ts_listener (split_queues k p' sys)) k = []" using q(4,5) e(3) by simp
  ultimately show ?thesis using q(1,2) e(2) by blast
qed

definition framed_outputs :: "bool \<Rightarrow> output_msg_t list \<Rightarrow> u8 list" where
  "framed_outputs b ms = concat (map (\<lambda>m. frame (out_bytes b m)) ms)"

theorem tcp_exchange_ok:
  assumes ok: "tcp_mode_ok sys" and p: "ts_proc sys k = Some (p, l)" and i: "i \<in> lives (ts_listener sys)"
    and idle: "\<And>j. inbox (ts_listener sys) j = []" "\<And>j. outbox (ts_router sys) j = []" "pending (tc_read_state (client_at (ts_listener sys) i)) = []"
    and req: "list_all2 framed_as bss ms" "\<forall>m\<in>set ms. valid_user (tcp_id i) m" "\<forall>m\<in>set ms. goes_to (dual (ts_listener sys)) m k" "length ms \<le> 32"
    and bl: "concat blocks = concat (map frame bss)" "\<forall>b\<in>set blocks. b \<noteq> [] \<and> length b \<le> 256"
    and ans: "answers clock (tcp_id i) ms (px_engine p) outs e'" and few: "length (route_all (lv_sequence l) outs) \<le> 32"
    and room: "length (queued (ts_listener sys) i) + 32 < LOCKFREE_QUEUE_SIZE"
    and b: "b = lc_use_binary_output (tl_config (ts_listener sys))"
    and ws: "\<forall>write\<in>set ws. takes write" "left_over (ts_listener sys) i + length (framed_outputs b (messages_for i (route_all (lv_sequence l) outs))) \<le> length ws"
  shows "\<exists>ctx1 p' l' sys2 n r ctx2. read_blocks blocks (tcp_id i) (ts_listener sys) = Some ctx1
     \<and> processor_iteration clock (join_queues k (sys\<lparr>ts_listener := ctx1\<rparr>) p) l = Some (p', l') \<and> px_engine p' = e' \<and> sys2 = split_queues k p' (sys\<lparr>ts_listener := ctx1\<rparr>)
     \<and> router_round net (router_of sys2) = Some (n, r) \<and> outbox r k = [] \<and> delivery_passes ws (fd_of (ts_listener sys) i) (ts_listener (router_done r sys2)) = Some ctx2
     \<and> listener_ok ctx2 \<and> queued ctx2 i = []
     \<and> sent_to ctx2 (fd_of (ts_listener sys) i) = sent_to (ts_listener sys) (fd_of (ts_listener sys) i) @ unsent (client_at (ts_listener sys) i)
          @ framed_outputs b (queued (ts_listener sys) i @ messages_for i (route_all (lv_sequence l) outs))"
proof -
  let ?ctx = "ts_listener sys" and ?es = "route_all (lv_sequence l) outs"
  have l: "listener_ok ?ctx" using ok by (simp add: tcp_mode_ok_def)
  then have lq: "queues_ok ?ctx" "tcp_registry_ok (tl_client_registry ?ctx)" by (simp_all add: listener_ok_def)
  have "length (inbox ?ctx j) + length ms < LOCKFREE_QUEUE_SIZE" for j using req(4) by (simp add: idle(1))
  moreover have "partial_frame (pending (tc_read_state (client_at ?ctx i)))" by (simp add: idle(3) partial_frame_Nil)
  ultimately obtain ctx1 where c1: "read_blocks blocks (tcp_id i) ?ctx = Some ctx1" "took_requests i (tcp_id i) ms [] ?ctx ctx1"
    using read_stream [OF lq i req(1,2), of blocks] bl idle(3) by auto
  note t = took_requests_listener [OF l i c1(2)]
  define sys1 where "sys1 = sys\<lparr>ts_listener := ctx1\<rparr>"
  have ok1: "tcp_mode_ok sys1" unfolding sys1_def by (rule tcp_mode_ok_listener [OF ok t(1,8)])
  have in1: "inbox (ts_listener sys1) k = numbered (tcp_id i) (tc_messages_received (client_at ?ctx i)) ms"
    using c1(2) idle(1) numbered_filter [OF req(3)] by (simp add: took_requests_def sys1_def)
  have s1: "ts_proc sys1 k = Some (p, l)" "outbox (ts_router sys1) j = []" for j using p idle(2) by (simp_all add: sys1_def)
  have "length ?es < LOCKFREE_QUEUE_SIZE" using few by simp
  from tcp_processor_answers [OF ok1 s1(1) in1 req(4) s1(2) ans this] obtain p' l' where
    q: "processor_iteration clock (join_queues k sys1 p) l = Some (p', l')" "px_engine p' = e'" "tcp_mode_ok ((split_queues k p' sys1)\<lparr>ts_proc := (ts_proc sys1)(k := Some (p', l'))\<rparr>)"
      "outbox (ts_router (split_queues k p' sys1)) = (\<lambda>_. [])(k := ?es)" by blast
  define sys2 where "sys2 = split_queues k p' sys1"
  define ctx where "ctx = ts_listener sys2"
  have m: "listener_ok ctx" "router_ok (router_of sys2)" "sendable_outputs sys2"
    using q(3) unfolding ctx_def sys2_def [symmetric] by (simp_all add: tcp_mode_ok_def router_of_def sendable_outputs_def)
  have same: "client_at ctx i = client_at ctx1 i" "lives ctx = lives ctx1" "tl_config ctx = tl_config ctx1" "sent_to ctx fd = sent_to ctx1 fd" for fd
    by (simp_all add: ctx_def sys2_def sys1_def split_queues_def client_at_def sent_to_def)
  have es: "?es = take 32 (outbox (router_of sys2) False) @ take 32 (outbox (router_of sys2) True)" using few q(4) by (cases k) (simp_all add: sys2_def)
  have g: "\<forall>e\<in>set ?es. good_out (lc_use_binary_output (tl_config ctx)) (oe_msg e)" using m(3) q(4) by (fastforce simp: sendable_outputs_def good_out_def sys2_def)
  have rm: "length (queued ctx i) + length ?es < LOCKFREE_QUEUE_SIZE" using room few by (simp add: same(1) t(4))
  have b': "b = lc_use_binary_output (tl_config ctx)" using b t(9) same(3) by simp
  have lo: "left_over ctx i + length (concat (map (\<lambda>m. frame (out_bytes (lc_use_binary_output (tl_config ctx)) m)) (messages_for i ?es))) \<le> length ws"
    using ws(2) t(7) unfolding b' [symmetric] by (simp add: left_over_def same(1,3) framed_outputs_def)
  have il: "i \<in> lives ctx" using i t(2) same(2) by simp
  have rc: "or_client_registry (router_of sys2) = tl_client_registry ctx" by (simp add: ctx_def)
  from routed_then_delivered [OF m(1,2) rc sendable_castable [OF m(3)] il es g rm ws(1) lo, of net] obtain n r ctx2 where
    d: "router_round net (router_of sys2) = Some (n, r)" "\<forall>k. outbox r k = drop 32 (outbox (router_of sys2) k)"
      "delivery_passes ws (fd_of ctx i) (ctx\<lparr>tl_client_registry := or_client_registry r\<rparr>) = Some ctx2" "listener_ok ctx2" "queued ctx2 i = []"
      "sent_to ctx2 (fd_of ctx i) = sent_to ctx (fd_of ctx i) @ unsent (client_at ctx i) @ framed_outputs b (queued ctx i @ messages_for i ?es)"
    unfolding b' framed_outputs_def by blast
  have f: "fd_of ctx i = fd_of ?ctx i" "unsent (client_at ctx i) = unsent (client_at ?ctx i)" "queued ctx i = queued ?ctx i" "sent_to ctx fd = sent_to ?ctx fd" for fd
    using t(3-6) same by simp_all
  have "outbox r k = []" using d(2) q(4) few by (simp add: sys2_def)
  moreover have "ts_listener (router_done r sys2) = ctx\<lparr>tl_client_registry := or_client_registry r\<rparr>" by (simp add: router_done_def ctx_def)
  ultimately show ?thesis using c1(1) q(1,2) d(1,3-6) f
    by (intro exI [of _ ctx1] exI [of _ p'] exI [of _ l'] exI [of _ sys2] exI [of _ n] exI [of _ r] exI [of _ ctx2]) (simp add: sys1_def sys2_def)
qed

text \<open>The client's requests, in either encoding.\<close>

lemma encode_requests_framed:
  assumes "cd_send_encoding cd \<in> {ENCODING_BINARY, ENCODING_CSV}" and "\<forall>m\<in>set ms. sendable m" and "encode_requests cd ms = Some bss"
  shows "list_all2 framed_as bss ms"
  using assms
proof (induction ms arbitrary: cd bss)
  case (Cons m ms)
  obtain r cd' where e: "encode_request cd m = (r, cd')" by fastforce
  with Cons.prems(3) obtain bs bss' where b: "r = Some bs" "encode_requests cd' ms = Some bss'" "bss = bs # bss'" by (auto split: option.splits)
  have "cd_send_encoding cd' = cd_send_encoding cd" using encode_request_keeps [of cd m] e by simp
  with Cons.IH [of cd' bss'] Cons.prems(1,2) b(2) have "list_all2 framed_as bss' ms" by simp
  moreover have "framed_as bs m"
    using Cons.prems(1,2) e b(1) encode_binary_carries [of cd m] encode_csv_request [of cd m] framed_as_binary framed_as_csv [of bs m] by (cases "cd_send_encoding cd = ENCODING_BINARY") auto
  ultimately show ?case by (simp add: b(3))
qed simp

end
