(* ===== verification/ME_Tcp_Shutdown.thy ===== *)
theory ME_Tcp_Shutdown
  imports ME_Tcp_System
begin

text \<open>
  The end of the TCP mode: disconnecting every client, and the cleanup.  Both destroy queues, and a queue that is not empty fails an assertion.
\<close>

lemma disconnect_loop_ok:
  assumes "\<forall>i\<in>live reg. client_ok i (tg_clients reg i)" and "distinct is" and "\<forall>i\<in>set is. i < MAX_TCP_CLIENTS" and "length is \<le> n"
  shows "if \<forall>i\<in>set is \<inter> live reg. out_of reg i = []
     then \<exists>reg'. disconnect_loop is n reg = Some (map tcp_id (filter (\<lambda>i. i \<in> live reg) is), reg') \<and> live reg' = live reg - set is
       \<and> (\<forall>j. j \<notin> set is \<longrightarrow> tg_clients reg' j = tg_clients reg j)
     else disconnect_loop is n reg = None"
  using assms
proof (induction "is" arbitrary: n reg)
  case (Cons i "is")
  then obtain m where n: "n = Suc m" "length is \<le> m" by (cases n) auto
  have ib: "i < MAX_TCP_CLIENTS" "i \<notin> set is" using Cons.prems by simp_all
  show ?case
  proof (cases "i \<in> live reg")
    case False
    then have "\<not> tc_active (tg_clients reg i)" using ib by (simp add: live_def)
    then have "disconnect_loop (i # is) n reg = disconnect_loop is n reg" by (simp add: n(1) Let_def)
    moreover have "set (i # is) \<inter> live reg = set is \<inter> live reg" "live reg - set (i # is) = live reg - set is" "filter (\<lambda>i. i \<in> live reg) (i # is) = filter (\<lambda>i. i \<in> live reg) is"
      using False by auto
    moreover have "distinct is" "\<forall>i\<in>set is. i < MAX_TCP_CLIENTS" "length is \<le> n" using Cons.prems(2,3) n by simp_all
    note Cons.IH [OF Cons.prems(1) this]
    ultimately show ?thesis by (simp only: list.set insert_iff de_Morgan_disj) meson
  next
    case True
    then have a: "tc_active (tg_clients reg i)" by (simp add: live_def)
    have ck: "client_ok i (tg_clients reg i)" using Cons.prems(1) True by blast
    then have q: "queue_destroy (tc_output_queue (tg_clients reg i)) = (if out_of reg i = [] then Some (tc_output_queue (tg_clients reg i)) else None)"
      and id: "tc_client_id (tg_clients reg i) = tcp_id i" by (simp_all add: client_ok_def queue_observers(3))
    show ?thesis
    proof (cases "out_of reg i = []")
      case False
      with True a q show ?thesis by (simp add: n(1) Let_def)
    next
      case e: True
      define t where "t = (tg_clients reg i)\<lparr>tc_active := False, tc_socket_fd := -1, tc_client_id := 0\<rparr>"
      define reg1 where "reg1 = put_client i t reg"
      have l1: "live reg1 = live reg - {i}" using live_put [OF ib(1), of t reg] by (simp add: reg1_def t_def)
      have c1: "tg_clients reg1 j = tg_clients reg j" if "j \<noteq> i" for j using that by (simp add: reg1_def)
      have run: "disconnect_loop (i # is) n reg = map_option (apfst ((#) (tcp_id i))) (disconnect_loop is m reg1)"
        using a q e id by (cases "disconnect_loop is m reg1") (auto simp: n(1) Let_def reg1_def t_def)
      have ok1: "\<forall>i\<in>live reg1. client_ok i (tg_clients reg1 i)" using Cons.prems(1) c1 by (simp add: l1)
      have ne: "j \<noteq> i" if "j \<in> set is" for j using that ib(2) by blast
      have same: "(\<forall>j\<in>set is \<inter> live reg1. out_of reg1 j = []) \<longleftrightarrow> (\<forall>j\<in>set (i # is) \<inter> live reg. out_of reg j = [])"
        using e ne c1 by (auto simp: l1)
      have fl: "filter (\<lambda>j. j \<in> live reg1) is = filter (\<lambda>j. j \<in> live reg) is" using ne by (intro filter_cong) (auto simp: l1)
      have "set is \<subseteq> {..<MAX_TCP_CLIENTS}" "distinct is" using Cons.prems(2,3) by auto
      then have "\<forall>i\<in>set is. i < MAX_TCP_CLIENTS" by blast
      from Cons.IH [OF ok1 \<open>distinct is\<close> this n(2)] show ?thesis unfolding same fl run using True c1 l1
        by (cases "\<forall>j\<in>set (i # is) \<inter> live reg. out_of reg j = []") (auto simp del: Int_insert_left_if1)
    qed
  qed
qed simp

text \<open>At the end of the mode: every client goes when no answer is left for any of them, and the process is aborted when one is.\<close>

theorem tcp_client_disconnect_all_ok:
  assumes ok: "tcp_registry_ok reg"
  shows "if \<forall>i\<in>live reg. out_of reg i = []
     then \<exists>reg'. tcp_client_disconnect_all MAX_TCP_CLIENTS reg = Some (map tcp_id (sorted_list_of_set (live reg)), reg') \<and> tcp_registry_ok reg' \<and> live reg' = {}
       \<and> tcp_table reg' = Map.empty
     else tcp_client_disconnect_all MAX_TCP_CLIENTS reg = None"
proof -
  have l: "\<forall>i\<in>live reg. client_ok i (tg_clients reg i)" using ok by (simp add: tcp_registry_ok_def)
  have b: "\<forall>i\<in>set [0..<MAX_TCP_CLIENTS]. i < MAX_TCP_CLIENTS" "length [0..<MAX_TCP_CLIENTS] \<le> MAX_TCP_CLIENTS" unfolding set_upt length_upt by simp_all
  have sub: "live reg \<subseteq> set [0..<MAX_TCP_CLIENTS]" unfolding set_upt by (auto simp: live_def)
  have int: "set [0..<MAX_TCP_CLIENTS] \<inter> live reg = live reg" using sub by blast
  have f: "filter (\<lambda>i. i \<in> live reg) [0..<MAX_TCP_CLIENTS] = sorted_list_of_set (live reg)"
  proof (rule sorted_distinct_set_unique)
    show "sorted (filter (\<lambda>i. i \<in> live reg) [0..<MAX_TCP_CLIENTS])" "distinct (filter (\<lambda>i. i \<in> live reg) [0..<MAX_TCP_CLIENTS])"
      by (rule sorted_wrt_filter [OF sorted_upt], rule distinct_filter [OF distinct_upt])
    show "set (filter (\<lambda>i. i \<in> live reg) [0..<MAX_TCP_CLIENTS]) = set (sorted_list_of_set (live reg))"
      unfolding set_filter set_sorted_list_of_set [OF finite_live] using sub by blast
  qed simp_all
  note d = disconnect_loop_ok [OF l distinct_upt b, unfolded int f]
  show ?thesis
  proof (cases "\<forall>i\<in>live reg. out_of reg i = []")
    case True
    with d obtain reg' where r: "disconnect_loop [0..<MAX_TCP_CLIENTS] MAX_TCP_CLIENTS reg = Some (map tcp_id (sorted_list_of_set (live reg)), reg')"
      "live reg' = live reg - set [0..<MAX_TCP_CLIENTS]" by auto
    have e: "live reg' = {}" using r(2) sub by blast
    then have "tcp_table (reg'\<lparr>tg_active_count := 0\<rparr>) = Map.empty" unfolding count_update by (auto simp: fun_eq_iff tcp_table_None)
    moreover have "tcp_registry_ok (reg'\<lparr>tg_active_count := 0\<rparr>)" using e by (simp add: tcp_registry_ok_def)
    moreover have "tcp_client_disconnect_all MAX_TCP_CLIENTS reg = Some (map tcp_id (sorted_list_of_set (live reg)), reg'\<lparr>tg_active_count := 0\<rparr>)"
      unfolding tcp_client_disconnect_all_def r(1) by (simp add: asserts)
    ultimately show ?thesis using True e by auto
  next
    case False
    with d have "disconnect_loop [0..<MAX_TCP_CLIENTS] MAX_TCP_CLIENTS reg = None" by auto
    with False show ?thesis unfolding tcp_client_disconnect_all_def by (simp add: asserts)
  qed
qed

text \<open>The cleanup: what is left in any queue aborts it.\<close>

lemma tcp_registry_destroy_ok:
  assumes "tcp_mode_ok sys"
  shows "tcp_client_registry_destroy (tl_client_registry (ts_listener sys)) =
     (if \<forall>i\<in>lives (ts_listener sys). queued (ts_listener sys) i = [] then Some (tl_client_registry (ts_listener sys)) else None)"
proof -
  have l: "listener_ok (ts_listener sys)" using assms by (simp add: tcp_mode_ok_def)
  have "\<forall>i\<in>lives (ts_listener sys). queue_ok (tc_output_queue (client_at (ts_listener sys) i))" using listener_ok_client(1) [OF l] by (simp add: client_ok_def)
  then show ?thesis unfolding tcp_client_registry_destroy_def set_upt by (auto simp: live_def client_at_def queue_observers(3) split: if_splits)
qed

theorem tcp_cleanup_ok:
  assumes ok: "tcp_mode_ok sys" and e: "destroyable (Some e0)" "destroyable e1"
  shows "tcp_cleanup (ts_listener sys) (ts_router sys) e0 e1 =
     (if (\<forall>i\<in>lives (ts_listener sys). queued (ts_listener sys) i = []) \<and> (\<forall>k. inbox (ts_listener sys) k = [] \<and> outbox (ts_router sys) k = []) then Some () else None)"
proof -
  let ?c = "ts_listener sys" and ?r = "ts_router sys"
  have l: "listener_ok ?c" and r: "router_ok (router_of sys)" using ok by (simp_all add: tcp_mode_ok_def)
  note reg = tcp_registry_destroy_ok [OF ok]
  have rc: "or_input_queue_0 (output_router_cleanup ?r) = or_input_queue_0 ?r" "or_input_queue_1 (output_router_cleanup ?r) = or_input_queue_1 ?r"
    by (simp_all add: output_router_cleanup_def cleanup_multicast_socket_def)
  have q: "queue_ok (tl_input_queue_0 ?c)" "queue_ok (or_input_queue_0 ?r)" "second_ok (\<not> dual ?c) (tl_input_queue_1 ?c)" "second_ok True (or_input_queue_1 ?r)"
    using l r by (auto simp: listener_ok_def queues_ok_def router_ok_def router_of_def second_ok_def split: option.splits)
  have box: "inbox ?c False = contents (tl_input_queue_0 ?c)" "inbox ?c True = (case tl_input_queue_1 ?c of None \<Rightarrow> [] | Some q' \<Rightarrow> contents q')"
    "outbox ?r False = contents (or_input_queue_0 ?r)" "outbox ?r True = (case or_input_queue_1 ?r of None \<Rightarrow> [] | Some q' \<Rightarrow> contents q')" by (simp_all add: inbox_def outbox_def)
  have all: "(\<forall>k. inbox ?c k = [] \<and> outbox ?r k = []) \<longleftrightarrow> inbox ?c False = [] \<and> inbox ?c True = [] \<and> outbox ?r False = [] \<and> outbox ?r True = []" unfolding all_bool_eq by blast
  show ?thesis unfolding all box tcp_cleanup_def Let_def rc reg
    by (simp add: destroy_second [OF q(3)] destroy_second [OF q(4)] queue_observers(3) [OF q(1)] queue_observers(3) [OF q(2)] destroy_engine_ok [OF e(1)] destroy_engine_ok [OF e(2)]
        del: destroy_optional_simps(2)) (simp add: queue_observers(3) [OF q(1)] queue_observers(3) [OF q(2)] destroy_optional_def)
qed

end
