(* ===== verification/ME_Tcp_Examples.thy ===== *)
theory ME_Tcp_Examples
  imports ME_Tcp_Shutdown ME_Unified_Examples
begin

text \<open>
  Concrete states of the TCP mode for the witnesses: the mode after its start, with the listening socket open and one client connected.
\<close>

definition tcp_config :: "bool \<Rightarrow> app_config_t" where
  "tcp_config binary = \<lparr>ac_tcp_mode = True, ac_port = 1234, ac_binary_output = binary, ac_dual_processor = False, ac_quiet_mode = True, ac_enable_multicast = False,
     ac_multicast_group = [], ac_multicast_port = 0\<rparr>"

definition all_calls_work :: mode_calls where
  "all_calls_work = \<lparr>mc_allocated = True, mc_mcast_fd = -1, mc_mcast_addr = None\<rparr>"

definition sockets_open :: setup_results where
  "sockets_open = \<lparr>sr_socket = 3, sr_reuseaddr = True, sr_nonblocking = True, sr_bind = True, sr_listen = True, sr_epoll = 4, sr_ctl = True\<rparr>"

definition take_all_bytes :: "u8 list \<Rightarrow> write_result" where
  "take_all_bytes data = Written (length data)"

lemma take_all_bytes_ok: "takes take_all_bytes" "write_fits take_all_bytes"
  by (simp_all add: takes_def write_fits_def take_all_bytes_def)

definition connect_event :: epoll_event where
  "connect_event = \<lparr>ev_fd = 3, ev_error = False, ev_in = True, ev_out = False, ev_accept = Accepted 5 \<lparr>sin_addr = 0, sin_port = 0\<rparr> True True, ev_time = 0,
     ev_read = Recv_again, ev_write = take_all_bytes\<rparr>"

lemma no_client_output:
  assumes "\<forall>i\<in>set is. i \<notin> lives ctx" and "\<forall>i\<in>set is. i < MAX_TCP_CLIENTS"
  shows "process_output_clients w is ctx = Some ctx"
  using assms
proof (induction "is")
  case (Cons i "is")
  then have "\<not> tc_active (client_at ctx i)" by (auto simp: live_def client_at_def)
  then have "process_output_queue (w i) i ctx = Some ctx" by (simp add: process_output_queue_def)
  with Cons show ?case by simp
qed simp

text \<open>One client is connected, in the first slot and on descriptor 5, and nothing is under way.\<close>

definition one_client :: "tcp_listener_context_t \<Rightarrow> bool" where
  "one_client ctx \<longleftrightarrow> listener_ok ctx \<and> lives ctx = {0} \<and> fd_of ctx 0 = 5 \<and> queued ctx 0 = [] \<and> pending (tc_read_state (client_at ctx 0)) = []
     \<and> \<not> tc_has_pending_write (client_at ctx 0) \<and> (\<forall>k. inbox ctx k = []) \<and> tl_wire ctx = [] \<and> tc_messages_received (client_at ctx 0) = 0"

lemma connect_first:
  assumes ok: "listener_ok ctx" and l: "lives ctx = {}" and fd: "tl_listen_fd ctx = 3" and e: "\<And>k. inbox ctx k = []" "tl_wire ctx = []"
  obtains ctx' where "listener_iteration (\<lambda>_. take_all_bytes) (Wait_events [connect_event]) ctx = Some (True, ctx')" "one_client ctx'"
    "tl_num_input_queues ctx' = tl_num_input_queues ctx" "tl_config ctx' = tl_config ctx" "tl_listen_fd ctx' = 3"
proof -
  obtain tls where tls: "ensure_parsers_initialized (tl_tls ctx) = Some tls" using ensure_parsers_total by blast
  define c0 where "c0 = ctx\<lparr>tl_tls := tls\<rparr>"
  have c0: "listener_ok c0" "lives c0 = {}" "tl_listen_fd c0 = 3" "inbox c0 = inbox ctx" "tl_wire c0 = []"
    using ok l fd e by (simp_all add: listener_ok_def c0_def queues_ok_def dual_def inbox_def fun_eq_iff)
  have "\<forall>i\<in>set [0..<MAX_TCP_CLIENTS]. i < MAX_TCP_CLIENTS" unfolding set_upt by simp
  then have "process_output_clients (\<lambda>_. take_all_bytes) [0..<MAX_TCP_CLIENTS] c0 = Some c0" using c0(2) by (intro no_client_output) blast+
  then have out: "process_output_queues (\<lambda>_. take_all_bytes) ctx = Some c0"
    unfolding process_output_queues_def tls bind.simps c0_def [symmetric] .
  have acc: "accept_ok (ev_accept connect_event) c0" using c0(2,3) by (simp add: accept_ok_def connect_event_def)
  from handle_new_connection_ok [OF c0(1) acc, of 0] obtain c1 where c1: "handle_new_connection (ev_accept connect_event) 0 c0 = Some c1" "listener_ok c1" "inbox c1 = inbox c0"
    "tl_wire c1 = tl_wire c0" "tl_config c1 = tl_config c0" "tl_listen_fd c1 = tl_listen_fd c0" by blast
  have reg: "tcp_registry_ok (tl_client_registry c0)" using c0(1) by (simp add: listener_ok_def)
  from tcp_client_add_ok [OF reg, of 5 "\<lparr>sin_addr = 0, sin_port = 0\<rparr>" 0] c0(2) obtain i t reg' where
    a: "tcp_client_add 5 \<lparr>sin_addr = 0, sin_port = 0\<rparr> 0 (tl_client_registry c0) = Some (Some (tcp_id i), reg')" "\<forall>j<i. j \<in> ({} :: nat set)"
      "tg_clients reg' = (tg_clients (tl_client_registry c0))(i := t)" "live reg' = {i}" "blank_client 5 t" by auto
  then have i: "i = 0" by auto
  have reg1: "tl_client_registry c1 = reg'" using c1(1) a(1) by (auto simp: handle_new_connection_def connect_event_def)
  have "one_client c1" using c1 c0 e a(3-5) i by (simp add: one_client_def reg1 client_at_def blank_client_def)
  moreover have "dispatch_event connect_event c0 = Some (True, c1)"
    using c0(3) c1(1) by (simp add: dispatch_event_def connect_event_def)
  then have "listener_iteration (\<lambda>_. take_all_bytes) (Wait_events [connect_event]) ctx = Some (True, c1)"
    unfolding listener_iteration_def out bind.simps by simp
  moreover have "tl_num_input_queues c1 = tl_num_input_queues ctx" using handle_new_connection_queues [OF c1(1)] by (simp add: c0_def)
  ultimately show thesis using c1 c0(3) by (intro that [of c1]) (simp_all add: c0_def)
qed

definition idle_tcp :: "bool \<Rightarrow> tcp_system \<Rightarrow> bool" where
  "idle_tcp binary sys \<longleftrightarrow> tcp_run sys \<and> one_client (ts_listener sys) \<and> \<not> dual (ts_listener sys) \<and> lc_use_binary_output (tl_config (ts_listener sys)) = binary
     \<and> tl_listen_fd (ts_listener sys) = 3 \<and> (\<forall>k. outbox (ts_router sys) k = [])
     \<and> (\<exists>p l. ts_proc sys False = Some (p, l) \<and> px_engine p = fresh_engine \<and> lv_sequence l = 0)"

lemma idle_tcp_ex: "\<exists>sys. idle_tcp binary sys"
proof -
  define mem :: tcp_memory where "mem = undefined\<lparr>ta_pool_0 := raw_pool, ta_engine_0 := raw_engine\<rparr>"
  have a: "mc_allocated all_calls_work" "ac_enable_multicast (tcp_config binary) \<Longrightarrow> ac_multicast_group (tcp_config binary) \<noteq> []" "multicast_works (tcp_config binary) all_calls_work"
    by (simp_all add: all_calls_work_def tcp_config_def multicast_works_def)
  from tcp_single_start [OF a(1,2), of mem] a(3) obtain s0 p l where s0: "run_tcp_single_processor (tcp_config binary) mem all_calls_work = Some (Inr s0)"
    "fresh_tcp (tcp_config binary) s0" "\<not> dual (ts_listener s0)" "ts_proc s0 False = Some (p, l)" "new_engine (ta_pool_0 mem) (ta_engine_0 mem) (px_engine p)" by auto
  have e: "px_engine p = fresh_engine" using s0(5) fresh_pool_ok(4) by (auto simp: new_engine_def mem_def fresh_engine_def)
  have f: "tcp_mode_ok s0" "lives (ts_listener s0) = {}" "\<And>k. inbox (ts_listener s0) k = []" "\<And>k. outbox (ts_router s0) k = []" "tl_config (ts_listener s0) = tcp_listener_config (tcp_config binary)"
    "tl_listen_fd (ts_listener s0) = -1" "tl_wire (ts_listener s0) = []" "lv_sequence l = 0" using s0(2,4) by (auto simp: fresh_tcp_def)
  define c1 where "c1 = (ts_listener s0)\<lparr>tl_listen_fd := 3\<rparr>"
  define c2 where "c2 = c1\<lparr>tl_epoll_fd := 4, tl_epoll := [3 \<mapsto> False]\<rparr>"
  have u: "setup_listening_socket sockets_open (ts_listener s0) = Some (True, c1)" "setup_event_loop sockets_open c1 = Some (True, c2)"
    using f(6) by (simp_all add: setup_listening_socket_def setup_event_loop_def sockets_open_def c1_def c2_def asserts Let_def)
  define s1 where "s1 = s0\<lparr>ts_listener := c2\<rparr>"
  have r1: "tcp_run s1" unfolding s1_def using tcp_run.step [OF tcp_run.start_single [OF s0(1)] tcp_step.listen [OF f(6) u]] .
  have ib: "inbox c2 = inbox (ts_listener s0)" by (simp add: c2_def c1_def inbox_def fun_eq_iff)
  have c2: "lives c2 = {}" "tl_listen_fd c2 = 3" "tl_wire c2 = []" "tl_num_input_queues c2 = tl_num_input_queues (ts_listener s0)" "tl_config c2 = tl_config (ts_listener s0)"
    using f(2,7) by (simp_all add: c2_def c1_def)
  have in2: "inbox c2 k = []" for k using f(3) by (simp add: ib)
  have l0: "listener_ok (ts_listener s0)" using f(1) by (simp add: tcp_mode_ok_def)
  have ok2: "listener_ok c2" by (rule listen_ok(1) [OF f(2) l0 u])
  from ok2 c2(1,2) in2 c2(3) obtain c3 where c3: "listener_iteration (\<lambda>_. take_all_bytes) (Wait_events [connect_event]) c2 = Some (True, c3)" "one_client c3"
    "tl_num_input_queues c3 = tl_num_input_queues c2" "tl_config c3 = tl_config c2" "tl_listen_fd c3 = 3" by (rule connect_first)
  have ev: "events_ok evs ctx1" if "process_output_queues (\<lambda>_. take_all_bytes) (ts_listener s1) = Some ctx1" "Wait_events [connect_event] = Wait_events evs" for ctx1 evs
  proof -
    obtain tls where tls: "ensure_parsers_initialized (tl_tls c2) = Some tls" using ensure_parsers_total by blast
    have "\<forall>i\<in>set [0..<MAX_TCP_CLIENTS]. i < MAX_TCP_CLIENTS" unfolding set_upt by simp
    then have "ctx1 = c2\<lparr>tl_tls := tls\<rparr>" using that(1) no_client_output [of "[0..<MAX_TCP_CLIENTS]" "c2\<lparr>tl_tls := tls\<rparr>"] c2(1)
      unfolding process_output_queues_def s1_def by (simp add: tls del: upt_conv_Cons upt_rec_numeral)
    then have "lives ctx1 = {}" "tl_listen_fd ctx1 = 3" using c2 by simp_all
    with that(2) show ?thesis by (auto simp: event_ok_def accept_ok_def connect_event_def take_all_bytes_ok)
  qed
  define s2 where "s2 = s1\<lparr>ts_listener := c3\<rparr>"
  have "tcp_run s2" unfolding s2_def
    by (rule tcp_run.step [OF r1 tcp_step.listener [where wr = "\<lambda>_. take_all_bytes" and r = "Wait_events [connect_event]"]])
      (use c2(2) c3(1) take_all_bytes_ok(2) ev in \<open>simp_all add: s1_def\<close>)
  moreover have "\<not> dual c3" using s0(3) c2(4) c3(3) by (simp add: dual_def)
  ultimately show ?thesis using c3(2,4,5) c2(5) f(4,5,8) e s0(4) unfolding idle_tcp_def
    by (intro exI [of _ s2]) (simp add: s2_def s1_def tcp_listener_config_def tcp_config_def)
qed

text \<open>A flush in the binary encoding has two bytes.\<close>

lemma carries_flush_length: "carries bs INPUT_MSG_FLUSH \<Longrightarrow> length bs = 2"
  by (auto simp: carries_def binary_message_parser_parse_def raw_size_def bin_parse_new_order_def bin_parse_cancel_def Let_def bind_eq_Some_conv split: if_splits option.splits)

text \<open>The same system after it has read a request.\<close>

definition read_event :: "u8 list \<Rightarrow> epoll_event" where
  "read_event bytes = \<lparr>ev_fd = 5, ev_error = False, ev_in = True, ev_out = False, ev_accept = Accept_failed, ev_time = 0, ev_read = Recv_bytes bytes, ev_write = take_all_bytes\<rparr>"

lemma one_client_output:
  assumes o: "one_client ctx"
  obtains ctx' where "process_output_queues (\<lambda>_. take_all_bytes) ctx = Some ctx'" "listener_ok ctx'" "lives ctx' = {0}" "fd_of ctx' 0 = 5"
    "pending (tc_read_state (client_at ctx' 0)) = []" "tc_messages_received (client_at ctx' 0) = 0" "\<And>k. inbox ctx' k = []" "dual ctx' = dual ctx" "tl_listen_fd ctx' = tl_listen_fd ctx"
    "queued ctx' 0 = []" "unsent (client_at ctx' 0) = []" "sent_to ctx' 5 = []" "tl_config ctx' = tl_config ctx"
proof -
  obtain tls where tls: "ensure_parsers_initialized (tl_tls ctx) = Some tls" using ensure_parsers_total by blast
  define c0 where "c0 = ctx\<lparr>tl_tls := tls\<rparr>"
  have "listener_ok ctx" "0 \<in> lives ctx" "queued ctx 0 = []" using o by (simp_all add: one_client_def)
  then have c0: "listener_ok c0" "0 \<in> live (tl_client_registry c0)" "contents (tc_output_queue (client_at c0 0)) = []"
    by (simp add: c0_def listener_ok_def, simp_all add: c0_def)
  from process_output_queue_empty [OF c0] obtain c1 where c1: "process_output_queue take_all_bytes 0 c0 = Some c1" "write_effect 0 c0 c1" by blast
  have o1: "out_step 0 c0 c1" using c1(2) by (simp add: write_effect_def)
  have idle: "\<not> tc_has_pending_write (client_at c0 0)" "sent_to c0 5 = []" "outstanding b (client_at c0 0) = []" for b
    using o by (simp_all add: one_client_def c0_def sent_to_def outstanding_def unsent_def)
  have fd: "fd_of c1 0 = 5" "fd_of c0 0 = 5" "stream c1 0 = stream c0 0" using o1 o by (simp_all add: out_step_def one_client_def c0_def)
  have "stream c0 0 = []" using idle(2,3) fd(2) by (simp add: stream_def)
  with fd have st: "sent_to c1 5 = []" "queued c1 0 = []" "unsent (client_at c1 0) = []"
    by (auto simp: stream_def outstanding_def frame_def be32_def)
  have l1: "lives c1 = {0}" using out_step_ok(2) [OF c0(1,2) o1] o by (simp add: one_client_def c0_def)
  have up: "[0..<MAX_TCP_CLIENTS] = 0 # [1..<MAX_TCP_CLIENTS]" by (rule upt_conv_Cons [of 0 MAX_TCP_CLIENTS, simplified One_nat_def [symmetric]]) simp
  have "process_output_clients (\<lambda>_. take_all_bytes) [1..<MAX_TCP_CLIENTS] c1 = Some c1"
    by (rule no_client_output) (unfold set_upt l1, auto)
  then have "process_output_queues (\<lambda>_. take_all_bytes) ctx = Some c1"
    unfolding process_output_queues_def tls bind.simps c0_def [symmetric] up process_output_clients.simps c1(1) .
  moreover have "inbox c1 = inbox ctx" "tc_read_state (client_at c1 0) = tc_read_state (client_at ctx 0)" "tc_messages_received (client_at c1 0) = tc_messages_received (client_at ctx 0)"
    "fd_of c1 0 = fd_of ctx 0" "dual c1 = dual ctx" "tl_listen_fd c1 = tl_listen_fd ctx" using o1 by (simp_all add: out_step_def c0_def dual_def)
  moreover have "tl_config c1 = tl_config ctx" using o1 by (simp add: out_step_def c0_def)
  ultimately show thesis using that [of c1] write_effect_ok [OF c0(1,2) c1(2)] l1 o st by (simp add: one_client_def)
qed

definition waiting_tcp :: "tcp_system \<Rightarrow> bool" where
  "waiting_tcp sys \<longleftrightarrow> tcp_run sys \<and> inbox (ts_listener sys) False = [envelope 1 0 cancel_request] \<and> lives (ts_listener sys) = {0} \<and> fd_of (ts_listener sys) 0 = 5
     \<and> queued (ts_listener sys) 0 = [] \<and> unsent (client_at (ts_listener sys) 0) = [] \<and> sent_to (ts_listener sys) 5 = []
     \<and> lc_use_binary_output (tl_config (ts_listener sys)) \<and> (\<forall>j. outbox (ts_router sys) j = [])
     \<and> (\<exists>p l. ts_proc sys False = Some (p, l) \<and> px_engine p = fresh_engine \<and> lv_sequence l = 0)"

text \<open>The pass in which it reads the request, from the first client of an idle system.\<close>

definition reading_tcp :: "tcp_system \<Rightarrow> u8 list \<Rightarrow> tcp_listener_context_t \<Rightarrow> tcp_listener_context_t \<Rightarrow> bool" where
  "reading_tcp sys bs c1 c2 \<longleftrightarrow> idle_tcp True sys \<and> process_output_queues (\<lambda>_. take_all_bytes) (ts_listener sys) = Some c1 \<and> events_ok [read_event (frame bs)] c1
     \<and> listener_iteration (\<lambda>_. take_all_bytes) (Wait_events [read_event (frame bs)]) (ts_listener sys) = Some (True, c2)
     \<and> inbox c2 False = [envelope 1 0 cancel_request] \<and> listener_ok c1 \<and> lives c1 = {0} \<and> fd_of c1 0 = 5 \<and> (\<forall>k. inbox c1 k = [])
     \<and> queued c1 0 = [] \<and> unsent (client_at c1 0) = [] \<and> sent_to c1 5 = [] \<and> tl_config c1 = tl_config (ts_listener sys) \<and> took_requests 0 (tcp_id 0) [cancel_request] [] c1 c2"

lemma reading_tcp_ex: "\<exists>sys bs c1 c2. reading_tcp sys bs c1 c2"
proof -
  from idle_tcp_ex [of True] obtain sys where i: "idle_tcp True sys" by blast
  let ?c = "ts_listener sys"
  have f: "tcp_run sys" "one_client ?c" "\<not> dual ?c" "tl_listen_fd ?c = 3" using i by (simp_all add: idle_tcp_def)
  from cancel_encoded obtain bs where bs: "carries bs cancel_request" by blast
  have fa: "framed_as bs cancel_request" by (rule framed_as_binary [OF bs])
  from one_client_output [OF f(2)] obtain c1 where c1: "process_output_queues (\<lambda>_. take_all_bytes) ?c = Some c1" "listener_ok c1" "lives c1 = {0}" "fd_of c1 0 = 5"
    "pending (tc_read_state (client_at c1 0)) = []" "tc_messages_received (client_at c1 0) = 0" "\<And>k. inbox c1 k = []" "dual c1 = dual ?c" "tl_listen_fd c1 = tl_listen_fd ?c"
    "queued c1 0 = []" "unsent (client_at c1 0) = []" "sent_to c1 5 = []" "tl_config c1 = tl_config ?c" by blast
  have q1: "queues_ok c1" "tcp_registry_ok (tl_client_registry c1)" "0 \<in> lives c1" using c1(2,3) by (simp_all add: listener_ok_def)
  have v: "\<forall>m\<in>set [cancel_request]. valid_user (tcp_id 0) m" by (simp add: valid_user_def cancel_request_def tcp_id_def)
  have b: "frame bs \<noteq> []" "length (frame bs) \<le> 256" using carries_start [OF bs] by (auto simp: frame_def be32_def)
  have "\<exists>ctx'. read_blocks [frame bs] (tcp_id 0) c1 = Some ctx' \<and> took_requests 0 (tcp_id 0) [cancel_request] [] c1 ctx'"
    by (rule read_stream [OF q1, of "[bs]"]) (use fa v b c1(5,7) partial_frame_Nil in simp_all)
  then obtain c2 where c2: "handle_client_read (Recv_bytes (frame bs)) (tcp_id 0) c1 = Some c2" "took_requests 0 (tcp_id 0) [cancel_request] [] c1 c2" by (auto simp: bind_eq_Some_conv)
  have ids: "tc_client_id (client_at c1 0) = tcp_id 0" using listener_ok_client(4) [OF c1(2) q1(3)] .
  have fc: "find_client 5 c1 = Some 0" using find_client_live [OF c1(2) q1(3)] c1(4) by simp
  have d: "dispatch_event (read_event (frame bs)) c1 = Some (True, c2)" using fc ids c2(1) f(4) c1(9) by (simp add: dispatch_event_def read_event_def)
  then have it: "listener_iteration (\<lambda>_. take_all_bytes) (Wait_events [read_event (frame bs)]) ?c = Some (True, c2)"
    unfolding listener_iteration_def c1(1) bind.simps by simp
  have "events_ok [read_event (frame bs)] c1"
    using c1(3-5) by (auto simp: event_ok_def accept_ok_def read_event_def take_all_bytes_ok)
  moreover have "inbox c2 False = [envelope 1 0 cancel_request]"
    using c2(2) c1(6,7,8) f(3) by (simp add: took_requests_def goes_to_def tcp_id_def)
  ultimately show ?thesis using i it c1 c2(2) by (intro exI [of _ sys] exI [of _ bs] exI [of _ c1] exI [of _ c2]) (simp add: reading_tcp_def)
qed

lemma waiting_tcp_ex: "\<exists>sys. waiting_tcp sys"
proof -
  from reading_tcp_ex obtain sys bs c1 c2 where r: "reading_tcp sys bs c1 c2" by blast
  then have i: "idle_tcp True sys" and c1: "process_output_queues (\<lambda>_. take_all_bytes) (ts_listener sys) = Some c1" "listener_ok c1" "0 \<in> lives c1"
    and ev: "events_ok [read_event (frame bs)] c1" and c2: "took_requests 0 (tcp_id 0) [cancel_request] [] c1 c2"
    and it: "listener_iteration (\<lambda>_. take_all_bytes) (Wait_events [read_event (frame bs)]) (ts_listener sys) = Some (True, c2)"
    by (simp_all add: reading_tcp_def)
  have f: "tcp_run sys" "tl_listen_fd (ts_listener sys) = 3" using i by (simp_all add: idle_tcp_def)
  have "tcp_run (sys\<lparr>ts_listener := c2\<rparr>)"
    by (rule tcp_run.step [OF f(1) tcp_step.listener [where wr = "\<lambda>_. take_all_bytes" and r = "Wait_events [read_event (frame bs)]"]])
      (use f(2) it take_all_bytes_ok(2) ev c1(1) in simp_all)
  moreover note took_requests_listener [OF c1(2,3) c2]
  ultimately show ?thesis using i r by (intro exI [of _ "sys\<lparr>ts_listener := c2\<rparr>"]) (simp add: waiting_tcp_def idle_tcp_def reading_tcp_def)
qed

text \<open>The system after the processor has answered, and after the router has handed the answer out.\<close>

definition answer_envelope :: output_msg_envelope_t where
  "answer_envelope = \<lparr>oe_msg = cancel_answer, oe_client_id = 1, oe_sequence = 0\<rparr>"

lemma answering_tcp_ex:
  "\<exists>sys. tcp_run sys \<and> outbox (ts_router sys) = (\<lambda>_. [])(False := [answer_envelope]) \<and> lives (ts_listener sys) = {0} \<and> fd_of (ts_listener sys) 0 = 5
     \<and> queued (ts_listener sys) 0 = [] \<and> unsent (client_at (ts_listener sys) 0) = [] \<and> sent_to (ts_listener sys) 5 = [] \<and> lc_use_binary_output (tl_config (ts_listener sys))"
proof -
  from waiting_tcp_ex obtain sys where w: "waiting_tcp sys" by blast
  then obtain p l where p: "ts_proc sys False = Some (p, l)" "px_engine p = fresh_engine" "lv_sequence l = 0" and r: "tcp_run sys"
    and i: "inbox (ts_listener sys) False = numbered 1 0 [cancel_request]" and o: "\<And>j. outbox (ts_router sys) j = []" by (auto simp: waiting_tcp_def)
  have ok: "tcp_mode_ok sys" using tcp_run_ok [OF r] by (simp add: tcp_inv_def)
  from cancel_answered [of "\<lambda>_. 0" 1] obtain e' where ans: "answers (\<lambda>_. 0) 1 [cancel_request] (px_engine p) [(1, [cancel_answer])] e'" unfolding p(2) by blast
  have ra: "route_all (lv_sequence l) [(1, [cancel_answer])] = [answer_envelope]" by (simp add: p(3) cancel_answer_def answer_envelope_def)
  have len: "length [cancel_request] \<le> 32" "length (route_all (lv_sequence l) [(1, [cancel_answer])]) < LOCKFREE_QUEUE_SIZE" unfolding ra by simp_all
  from tcp_processor_answers [OF ok p(1) i len(1) o ans len(2)] obtain p' l' where q: "processor_iteration (\<lambda>_. 0) (join_queues False sys p) l = Some (p', l')"
    "outbox (ts_router (split_queues False p' sys)) = (\<lambda>_. [])(False := [answer_envelope])" unfolding ra by blast
  have nb: "next_batch_ok (\<lambda>_. 0) (join_queues False sys p)"
    using numbered_answers [OF ans] join_queues_ok(3,4) [OF ok, of False p] i by (simp add: next_batch_ok_def Let_def)
  have "tcp_run ((split_queues False p' sys)\<lparr>ts_proc := (ts_proc sys)(False := Some (p', l'))\<rparr>)" by (rule tcp_run.step [OF r tcp_step.processor [OF p(1) nb q(1)]])
  with q(2) w show ?thesis
    by (intro exI [of _ "(split_queues False p' sys)\<lparr>ts_proc := (ts_proc sys)(False := Some (p', l'))\<rparr>"] conjI) (simp_all add: waiting_tcp_def split_queues_def client_at_def sent_to_def)
qed

lemma answered_tcp_ex:
  "\<exists>sys. tcp_run sys \<and> 0 \<in> lives (ts_listener sys) \<and> queued (ts_listener sys) 0 = [cancel_answer] \<and> fd_of (ts_listener sys) 0 = 5
     \<and> True = lc_use_binary_output (tl_config (ts_listener sys)) \<and> sent_to (ts_listener sys) 5 = [] \<and> unsent (client_at (ts_listener sys) 0) = []"
proof -
  from answering_tcp_ex obtain sys where s: "tcp_run sys" "outbox (ts_router sys) = (\<lambda>_. [])(False := [answer_envelope])" "lives (ts_listener sys) = {0}" "fd_of (ts_listener sys) 0 = 5"
    "queued (ts_listener sys) 0 = []" "unsent (client_at (ts_listener sys) 0) = []" "sent_to (ts_listener sys) 5 = []" "lc_use_binary_output (tl_config (ts_listener sys))" by blast
  have ok: "tcp_mode_ok sys" using tcp_run_ok [OF s(1)] by (simp add: tcp_inv_def)
  then have l: "listener_ok (ts_listener sys)" "router_ok (router_of sys)" "both_castable (router_of sys)" using sendable_castable by (simp_all add: tcp_mode_ok_def)
  obtain n r where r: "router_round (\<lambda>_ _. True) (router_of sys) = Some (n, r)" "handed_out [answer_envelope] (router_of sys) r"
    by (rule router_round_ok [OF l(2,3), of "\<lambda>_ _. True"]) (simp add: s(2))
  have c: "ts_listener (router_done r sys) = (ts_listener sys)\<lparr>tl_client_registry := fold given [answer_envelope] (tl_client_registry (ts_listener sys))\<rparr>"
    using r(2) by (simp add: router_done_def handed_out_def)
  have g: "\<forall>e\<in>set [answer_envelope]. good_out (lc_use_binary_output (tl_config (ts_listener sys))) (oe_msg e)" by (simp add: good_out_def answer_envelope_def cancel_answer_ok)
  have z: "0 \<in> lives (ts_listener sys)" using s(3) by simp
  have rm: "length (queued (ts_listener sys) 0) + length [answer_envelope] < LOCKFREE_QUEUE_SIZE" by (simp add: s(5))
  note d = given_listener_ok [OF l(1) g rm z c]
  have "messages_for 0 [answer_envelope] = [cancel_answer]" by (simp add: messages_for_def answer_envelope_def tcp_id_def)
  with d s(4-8) have "queued (ts_listener (router_done r sys)) 0 = [cancel_answer]" "fd_of (ts_listener (router_done r sys)) 0 = 5" "sent_to (ts_listener (router_done r sys)) 5 = []"
    "unsent (client_at (ts_listener (router_done r sys)) 0) = []" by simp_all
  moreover have "0 \<in> lives (ts_listener (router_done r sys))" using given_listener(2) [OF l(1) g c] z by simp
  moreover have "tcp_run (router_done r sys)" by (rule tcp_run.step [OF s(1) tcp_step.router [OF r(1)]])
  ultimately show ?thesis using s(8) c by (intro exI [of _ "router_done r sys"]) simp
qed

end
