(* ===== verification/ME_Udp_Clients.thy ===== *)
theory ME_Udp_Clients
  imports ME_Envelope
begin

text \<open>
  The clients of the UDP mode (\<^verbatim>\<open>network/udp_receiver.c\<close>, lines 42 to 250, and the structures of \<^verbatim>\<open>udp_receiver.h\<close>): a hash table from the
  addresses datagrams come from to the identifiers the engine knows the clients by.  A lookup ends at the first slot that is
  not active, and the entry with the least time is dropped when there are too many; the slot it leaves is not marked.  The time in seconds is the argument \<open>now\<close>; nothing is
  computed with it.
\<close>

abbreviation MAX_UDP_CLIENTS :: nat where "MAX_UDP_CLIENTS \<equiv> 4096"
abbreviation UDP_CLIENT_HASH_SIZE :: nat where "UDP_CLIENT_HASH_SIZE \<equiv> 8192"
abbreviation INT64_MAX :: int where "INT64_MAX \<equiv> 9223372036854775807"

record udp_client_entry_t =
  ue_last_seen :: int
  ue_addr :: udp_client_addr_t
  ue_client_id :: u32
  ue_protocol :: client_protocol_t
  ue_active :: bool

record udp_client_map_t =
  um_entries :: "nat \<Rightarrow> udp_client_entry_t"
  um_count :: u32
  um_next_id :: u32

definition zero_udp_entry :: udp_client_entry_t where
  "zero_udp_entry = \<lparr>ue_last_seen = 0, ue_addr = \<lparr>ua_addr = 0, ua_port = 0, ua_pad = 0\<rparr>, ue_client_id = 0, ue_protocol = 0, ue_active = False\<rparr>"

definition hash_client_addr :: "udp_client_addr_t \<Rightarrow> u32" where
  "hash_client_addr addr =
     (let h = 2166136261;
          h = h XOR ua_addr addr;
          h = h * 16777619;
          h = h XOR ucast (ua_port addr);
          h = h * 16777619
      in h)"

definition client_map_init :: "udp_client_map_t \<Rightarrow> udp_client_map_t" where
  "client_map_init m = m\<lparr>um_entries := (\<lambda>_. zero_udp_entry), um_count := 0, um_next_id := CLIENT_ID_UDP_BASE + 1\<rparr>"

text \<open>The loop from the slot \<open>idx\<close> with \<open>n\<close> probes left: the slot and whether it holds the address, or \<open>None\<close> for a full table.\<close>

fun find_slot_loop :: "nat \<Rightarrow> u32 \<Rightarrow> udp_client_map_t \<Rightarrow> udp_client_addr_t \<Rightarrow> (nat \<times> bool) option" where
  "find_slot_loop 0 idx m addr = None"
| "find_slot_loop (Suc n) idx m addr =
     (let entry = um_entries m (unat idx) in
      if ue_active entry
      then (if udp_client_addr_equal (ue_addr entry) addr then Some (unat idx, True)
            else find_slot_loop n ((idx + 1) AND (of_nat UDP_CLIENT_HASH_SIZE - 1)) m addr)
      else Some (unat idx, False))"

definition client_map_find_slot :: "udp_client_map_t \<Rightarrow> udp_client_addr_t \<Rightarrow> (nat \<times> bool) option" where
  "client_map_find_slot m addr = find_slot_loop UDP_CLIENT_HASH_SIZE (hash_client_addr addr AND (of_nat UDP_CLIENT_HASH_SIZE - 1)) m addr"

text \<open>The slot of the least time below \<open>oldest_time\<close> among the slots from \<open>i\<close> on, if there is one; the first of several.\<close>

fun oldest_loop :: "nat \<Rightarrow> nat \<Rightarrow> udp_client_map_t \<Rightarrow> int \<times> nat option \<Rightarrow> int \<times> nat option" where
  "oldest_loop 0 i m (oldest_time, oldest) = (oldest_time, oldest)"
| "oldest_loop (Suc n) i m (oldest_time, oldest) =
     oldest_loop n (Suc i) m
       (if ue_active (um_entries m i) \<and> ue_last_seen (um_entries m i) < oldest_time then (ue_last_seen (um_entries m i), Some i)
        else (oldest_time, oldest))"

definition client_map_evict_oldest :: "udp_client_map_t \<Rightarrow> udp_client_map_t" where
  "client_map_evict_oldest m =
     (case snd (oldest_loop UDP_CLIENT_HASH_SIZE 0 m (INT64_MAX, None)) of
        None \<Rightarrow> m
      | Some i \<Rightarrow> m\<lparr>um_entries := (um_entries m)(i := (um_entries m i)\<lparr>ue_active := False\<rparr>),
                    um_count := (if um_count m > 0 then um_count m - 1 else um_count m)\<rparr>)"

definition client_map_create :: "nat \<Rightarrow> udp_client_addr_t \<Rightarrow> int \<Rightarrow> udp_client_map_t \<Rightarrow> u32 \<times> udp_client_map_t" where
  "client_map_create idx addr now m =
     (let m1 = (if um_count m \<ge> of_nat MAX_UDP_CLIENTS then client_map_evict_oldest m else m);
          client_id = um_next_id m1;
          m2 = m1\<lparr>um_entries := (um_entries m1)(idx := \<lparr>ue_last_seen = now, ue_addr = addr, ue_client_id = client_id,
                    ue_protocol = CLIENT_PROTOCOL_UNKNOWN, ue_active = True\<rparr>),
                  um_next_id := um_next_id m1 + 1, um_count := um_count m1 + 1\<rparr>
      in (client_id, if um_next_id m2 < CLIENT_ID_UDP_BASE then m2\<lparr>um_next_id := CLIENT_ID_UDP_BASE + 1\<rparr> else m2))"

definition client_map_use :: "udp_client_addr_t \<Rightarrow> int \<Rightarrow> nat \<times> bool \<Rightarrow> udp_client_map_t \<Rightarrow> u32 \<times> udp_client_map_t" where
  "client_map_use addr now slot m =
     (case slot of (idx, exists) \<Rightarrow>
       if exists then (ue_client_id (um_entries m idx), m\<lparr>um_entries := (um_entries m)(idx := (um_entries m idx)\<lparr>ue_last_seen := now\<rparr>)\<rparr>)
       else client_map_create idx addr now m)"

definition client_map_get_or_create :: "udp_client_addr_t \<Rightarrow> int \<Rightarrow> udp_client_map_t \<Rightarrow> u32 \<times> udp_client_map_t" where
  "client_map_get_or_create addr now m =
     (case client_map_find_slot m addr of
        Some slot \<Rightarrow> client_map_use addr now slot m
      | None \<Rightarrow> let m1 = client_map_evict_oldest m in
          (case client_map_find_slot m1 addr of
             None \<Rightarrow> (CLIENT_ID_BROADCAST, m1)
           | Some slot \<Rightarrow> client_map_use addr now slot m1))"

definition client_map_find_addr :: "udp_client_map_t \<Rightarrow> u32 \<Rightarrow> udp_client_addr_t option" where
  "client_map_find_addr m client_id =
     for_return UDP_CLIENT_HASH_SIZE 0 (\<lambda>i.
       let entry = um_entries m i in if ue_active entry \<and> ue_client_id entry = client_id then Some (ue_addr entry) else None)"

definition client_map_get_protocol :: "udp_client_map_t \<Rightarrow> u32 \<Rightarrow> client_protocol_t" where
  "client_map_get_protocol m client_id =
     (case for_return UDP_CLIENT_HASH_SIZE 0 (\<lambda>i.
        let entry = um_entries m i in if ue_active entry \<and> ue_client_id entry = client_id then Some (ue_protocol entry) else None)
      of Some q \<Rightarrow> q | None \<Rightarrow> CLIENT_PROTOCOL_UNKNOWN)"

definition client_map_set_protocol :: "udp_client_addr_t \<Rightarrow> client_protocol_t \<Rightarrow> udp_client_map_t \<Rightarrow> udp_client_map_t" where
  "client_map_set_protocol addr protocol m =
     (case client_map_find_slot m addr of
        Some (idx, True) \<Rightarrow>
          if ue_protocol (um_entries m idx) = CLIENT_PROTOCOL_UNKNOWN
          then m\<lparr>um_entries := (um_entries m)(idx := (um_entries m idx)\<lparr>ue_protocol := protocol\<rparr>)\<rparr> else m
      | _ \<Rightarrow> m)"

section \<open>Probing\<close>

definition peer :: "udp_client_addr_t \<Rightarrow> u32 \<times> u16" where
  "peer a = (ua_addr a, ua_port a)"

definition slot_of :: "udp_client_addr_t \<Rightarrow> nat \<Rightarrow> nat" where
  "slot_of addr k = (unat (hash_client_addr addr) + k) mod UDP_CLIENT_HASH_SIZE"

definition used :: "udp_client_map_t \<Rightarrow> nat set" where
  "used m = {i. i < UDP_CLIENT_HASH_SIZE \<and> ue_active (um_entries m i)}"

definition holds :: "udp_client_map_t \<Rightarrow> nat \<Rightarrow> udp_client_addr_t \<Rightarrow> bool" where
  "holds m i addr \<longleftrightarrow> i \<in> used m \<and> peer (ue_addr (um_entries m i)) = peer addr"

lemma addr_equal_peer: "udp_client_addr_equal a b \<longleftrightarrow> peer a = peer b"
  by (simp add: udp_client_addr_equal_def peer_def)

lemma slot_of_bound [simp]: "slot_of addr k < UDP_CLIENT_HASH_SIZE"
  by (simp add: slot_of_def)

lemma slot_of_peer: "peer a = peer b \<Longrightarrow> slot_of a = slot_of b"
  by (simp add: slot_of_def hash_client_addr_def peer_def fun_eq_iff)

lemma finite_used_entries [simp]: "finite (used m)"
  by (simp add: used_def)

lemma mask_mod: "unat (w AND (of_nat UDP_CLIENT_HASH_SIZE - 1) :: u32) = unat w mod UDP_CLIENT_HASH_SIZE"
proof -
  have "w AND (of_nat UDP_CLIENT_HASH_SIZE - 1) = w AND mask 13" by (simp add: mask_eq_exp_minus_1)
  also have "\<dots> = take_bit 13 w" by (simp add: take_bit_eq_mask)
  finally have "unat (w AND (of_nat UDP_CLIENT_HASH_SIZE - 1)) = take_bit 13 (unat w)" by (simp only: unsigned_take_bit_eq)
  then show ?thesis unfolding take_bit_eq_mod by simp
qed

lemma find_slot_loop_eq:
  assumes "unat idx = slot_of addr k"
  shows "find_slot_loop n idx m addr = for_return n k (\<lambda>k.
     if ue_active (um_entries m (slot_of addr k))
     then (if udp_client_addr_equal (ue_addr (um_entries m (slot_of addr k))) addr then Some (slot_of addr k, True) else None)
     else Some (slot_of addr k, False))"
  using assms
proof (induction n arbitrary: idx k)
  case (Suc n)
  have "unat idx < UDP_CLIENT_HASH_SIZE" using Suc.prems by simp
  then have "unat (idx + 1) = unat idx + 1" by (simp add: unat_word_ariths)
  then have "unat ((idx + 1) AND (of_nat UDP_CLIENT_HASH_SIZE - 1)) = slot_of addr (Suc k)"
    unfolding mask_mod using Suc.prems by (simp add: slot_of_def mod_Suc_eq)
  from Suc.IH [OF this] Suc.prems show ?case by (simp add: Let_def)
qed simp

lemma find_slot_Some:
  "client_map_find_slot m addr = Some (i, e) \<longleftrightarrow>
     (\<exists>k<UDP_CLIENT_HASH_SIZE. i = slot_of addr k \<and> (if e then holds m i addr else i \<notin> used m)
        \<and> (\<forall>j<k. slot_of addr j \<in> used m \<and> \<not> holds m (slot_of addr j) addr))"
proof -
  let ?b = "\<lambda>k. if ue_active (um_entries m (slot_of addr k))
     then (if udp_client_addr_equal (ue_addr (um_entries m (slot_of addr k))) addr then Some (slot_of addr k, True) else None)
     else Some (slot_of addr k, False)"
  have h: "unat (hash_client_addr addr AND (of_nat UDP_CLIENT_HASH_SIZE - 1)) = slot_of addr 0" unfolding mask_mod by (simp add: slot_of_def)
  have "?b k = Some (i, e) \<longleftrightarrow> i = slot_of addr k \<and> (if e then holds m i addr else i \<notin> used m)" for k
    by (auto simp: holds_def used_def addr_equal_peer)
  moreover have "?b k = None \<longleftrightarrow> slot_of addr k \<in> used m \<and> \<not> holds m (slot_of addr k) addr" for k
    by (auto simp: holds_def used_def addr_equal_peer)
  moreover have "client_map_find_slot m addr = Some (i, e) \<longleftrightarrow> (\<exists>k<UDP_CLIENT_HASH_SIZE. ?b k = Some (i, e) \<and> (\<forall>j<k. ?b j = None))"
    unfolding client_map_find_slot_def find_slot_loop_eq [OF h] for_return_Some by simp
  ultimately show ?thesis by (simp only: conj_assoc)
qed

lemma mod_surj:
  assumes "(i::nat) < n"
  shows "\<exists>k<n. (h + k) mod n = i"
proof (intro exI conjI)
  let ?k = "(i + (n - h mod n)) mod n"
  show "?k < n" using assms by simp
  have "h mod n < n" using assms by simp
  then have "h mod n + (i + (n - h mod n)) = i + n" by linarith
  then show "(h + ?k) mod n = i" using assms by (metis mod_add_left_eq mod_add_right_eq mod_add_self2 mod_less)
qed

lemma slot_of_surj:
  assumes "i < UDP_CLIENT_HASH_SIZE"
  obtains k where "k < UDP_CLIENT_HASH_SIZE" "slot_of addr k = i"
  using mod_surj [OF assms] unfolding slot_of_def by blast

text \<open>A table that is not full always offers a slot.\<close>

lemma find_slot_total:
  assumes "card (used m) < UDP_CLIENT_HASH_SIZE"
  obtains i e where "client_map_find_slot m addr = Some (i, e)"
proof -
  have "used m \<noteq> {..<UDP_CLIENT_HASH_SIZE}" using assms by (metis card_lessThan less_irrefl)
  moreover have "used m \<subseteq> {..<UDP_CLIENT_HASH_SIZE}" by (auto simp: used_def)
  ultimately obtain i where i: "i < UDP_CLIENT_HASH_SIZE" "i \<notin> used m" by auto
  from i(1) obtain k where k: "k < UDP_CLIENT_HASH_SIZE" "slot_of addr k = i" by (rule slot_of_surj)
  let ?P = "\<lambda>k. slot_of addr k \<notin> used m \<or> holds m (slot_of addr k) addr"
  define l where "l = (LEAST k. ?P k)"
  have "?P k" using k i by simp
  then have l: "?P l" "l \<le> k" unfolding l_def by (rule LeastI, rule Least_le)
  have n: "\<not> ?P j" if "j < l" for j using that unfolding l_def by (rule not_less_Least)
  have "client_map_find_slot m addr = Some (slot_of addr l, holds m (slot_of addr l) addr)"
    unfolding find_slot_Some using l k(1) n by (intro exI [of _ l]) auto
  then show thesis by (rule that)
qed

section \<open>The oldest client\<close>

lemma oldest_loop_spec:
  assumes "oldest_loop n i m (t, old) = (t', old')"
  shows "if \<exists>j. i \<le> j \<and> j < i + n \<and> ue_active (um_entries m j) \<and> ue_last_seen (um_entries m j) < t
     then \<exists>j. i \<le> j \<and> j < i + n \<and> ue_active (um_entries m j) \<and> old' = Some j \<and> t' = ue_last_seen (um_entries m j) \<and> t' < t
        \<and> (\<forall>l. i \<le> l \<and> l < i + n \<and> ue_active (um_entries m l) \<longrightarrow> t' \<le> ue_last_seen (um_entries m l))
     else t' = t \<and> old' = old"
  using assms
proof (induction n arbitrary: i t old)
  case (Suc n)
  have range: "i \<le> j \<and> j < i + Suc n \<longleftrightarrow> j = i \<or> Suc i \<le> j \<and> j < Suc i + n" for j by auto
  show ?case
  proof (cases "ue_active (um_entries m i) \<and> ue_last_seen (um_entries m i) < t")
    case True
    with Suc.prems have "oldest_loop n (Suc i) m (ue_last_seen (um_entries m i), Some i) = (t', old')" by simp
    from Suc.IH [OF this] True show ?thesis by (smt (verit, best) range)
  next
    case False
    with Suc.prems have "oldest_loop n (Suc i) m (t, old) = (t', old')" by simp
    from Suc.IH [OF this] False show ?thesis by (smt (verit, best) range)
  qed
qed auto

text \<open>
  The table as it should be: the count is right and at most the allowed number, the identifiers are those of UDP clients.  The identifiers are pairwise different as long
  as their counter has not wrapped around, and every address is where its lookup finds it as long as nobody was dropped.
\<close>

abbreviation id_at :: "udp_client_map_t \<Rightarrow> nat \<Rightarrow> u32" where "id_at m i \<equiv> ue_client_id (um_entries m i)"
abbreviation peer_at :: "udp_client_map_t \<Rightarrow> nat \<Rightarrow> u32 \<times> u16" where "peer_at m i \<equiv> peer (ue_addr (um_entries m i))"

definition clients_ok :: "udp_client_map_t \<Rightarrow> bool" where
  "clients_ok m \<longleftrightarrow> unat (um_count m) = card (used m) \<and> card (used m) \<le> MAX_UDP_CLIENTS \<and> CLIENT_ID_UDP_BASE < um_next_id m
     \<and> (\<forall>i\<in>used m. CLIENT_ID_UDP_BASE < id_at m i \<and> ue_last_seen (um_entries m i) < INT64_MAX)"

definition ids_ok :: "udp_client_map_t \<Rightarrow> bool" where
  "ids_ok m \<longleftrightarrow> inj_on (id_at m) (used m) \<and> (\<forall>i\<in>used m. id_at m i < um_next_id m)"

definition chains_ok :: "udp_client_map_t \<Rightarrow> bool" where
  "chains_ok m \<longleftrightarrow> inj_on (peer_at m) (used m)
     \<and> (\<forall>i\<in>used m. \<exists>k<UDP_CLIENT_HASH_SIZE. i = slot_of (ue_addr (um_entries m i)) k \<and> (\<forall>j<k. slot_of (ue_addr (um_entries m i)) j \<in> used m))"

lemma client_map_init_ok: "clients_ok (client_map_init m)" "ids_ok (client_map_init m)" "chains_ok (client_map_init m)" "used (client_map_init m) = {}"
  by (simp_all add: clients_ok_def ids_ok_def chains_ok_def client_map_init_def used_def zero_udp_entry_def)

definition dropped :: "nat \<Rightarrow> udp_client_map_t \<Rightarrow> udp_client_map_t" where
  "dropped j m = m\<lparr>um_entries := (um_entries m)(j := (um_entries m j)\<lparr>ue_active := False\<rparr>), um_count := um_count m - 1\<rparr>"

lemma used_dropped [simp]: "used (dropped j m) = used m - {j}"
  by (auto simp: used_def dropped_def)

lemma dropped_simps [simp]:
  "um_count (dropped j m) = um_count m - 1" "um_next_id (dropped j m) = um_next_id m"
  "um_entries (dropped j m) = (um_entries m)(j := (um_entries m j)\<lparr>ue_active := False\<rparr>)"
  by (simp_all add: dropped_def)

lemma evict_oldest:
  assumes ok: "clients_ok m" and ne: "used m \<noteq> {}"
  obtains j where "j \<in> used m" "\<forall>i\<in>used m. ue_last_seen (um_entries m j) \<le> ue_last_seen (um_entries m i)" "client_map_evict_oldest m = dropped j m"
proof -
  obtain t o' where l: "oldest_loop UDP_CLIENT_HASH_SIZE 0 m (INT64_MAX, None) = (t, o')" by fastforce
  have "\<exists>j<UDP_CLIENT_HASH_SIZE. ue_active (um_entries m j) \<and> ue_last_seen (um_entries m j) < INT64_MAX"
    using ok ne by (auto simp: clients_ok_def used_def)
  with oldest_loop_spec [OF l] obtain j where j: "j < UDP_CLIENT_HASH_SIZE" "ue_active (um_entries m j)" "o' = Some j" "t = ue_last_seen (um_entries m j)"
    "\<forall>i<UDP_CLIENT_HASH_SIZE. ue_active (um_entries m i) \<longrightarrow> t \<le> ue_last_seen (um_entries m i)" by auto
  have "0 < card (used m)" using ne by (simp add: card_gt_0_iff)
  then have "0 < um_count m" using ok by (simp add: clients_ok_def word_less_nat_alt)
  then have "client_map_evict_oldest m = dropped j m" by (simp add: client_map_evict_oldest_def l j(3) dropped_def)
  with j show thesis by (intro that [of j]) (simp_all add: used_def)
qed

section \<open>Registering a client\<close>

definition placed :: "nat \<Rightarrow> udp_client_addr_t \<Rightarrow> int \<Rightarrow> udp_client_map_t \<Rightarrow> udp_client_map_t" where
  "placed i addr now m = m\<lparr>um_entries := (um_entries m)(i := \<lparr>ue_last_seen = now, ue_addr = addr, ue_client_id = um_next_id m, ue_protocol = CLIENT_PROTOCOL_UNKNOWN, ue_active = True\<rparr>),
     um_next_id := (if um_next_id m = 0xFFFFFFFF then CLIENT_ID_UDP_BASE + 1 else um_next_id m + 1), um_count := um_count m + 1\<rparr>"

lemma used_placed [simp]: "i < UDP_CLIENT_HASH_SIZE \<Longrightarrow> used (placed i addr now m) = insert i (used m)"
  by (auto simp: used_def placed_def)

lemma placed_simps [simp]:
  "um_count (placed i addr now m) = um_count m + 1" "um_next_id (placed i addr now m) = (if um_next_id m = 0xFFFFFFFF then CLIENT_ID_UDP_BASE + 1 else um_next_id m + 1)"
  "um_entries (placed i addr now m) = (um_entries m)(i := \<lparr>ue_last_seen = now, ue_addr = addr, ue_client_id = um_next_id m, ue_protocol = CLIENT_PROTOCOL_UNKNOWN, ue_active = True\<rparr>)"
  by (simp_all add: placed_def)

lemma next_id_wrap:
  assumes "CLIENT_ID_UDP_BASE < (n :: u32)"
  shows "n + 1 < CLIENT_ID_UDP_BASE \<longleftrightarrow> n = 0xFFFFFFFF" "n \<noteq> 0xFFFFFFFF \<Longrightarrow> CLIENT_ID_UDP_BASE < n + 1 \<and> n < n + 1"
proof -
  have n: "unat n > 0x80000000" "unat n < 2 ^ 32" using assms unsigned_less [of n, where ?'a = nat] by (simp_all add: word_less_nat_alt)
  have e: "n = 0xFFFFFFFF \<longleftrightarrow> unat n = 0xFFFFFFFF" by (simp add: word_unat_eq_iff)
  have p: "unat (n + 1) = (unat n + 1) mod 2 ^ 32" by (simp add: unat_word_ariths)
  show "n + 1 < CLIENT_ID_UDP_BASE \<longleftrightarrow> n = 0xFFFFFFFF" unfolding e word_less_nat_alt p using n by (cases "unat n = 0xFFFFFFFF") auto
  show "n \<noteq> 0xFFFFFFFF \<Longrightarrow> CLIENT_ID_UDP_BASE < n + 1 \<and> n < n + 1" unfolding e word_less_nat_alt p using n by auto
qed

lemma client_count_bound:
  assumes "clients_ok m"
  shows "4096 \<le> um_count m \<longleftrightarrow> card (used m) = MAX_UDP_CLIENTS"
  using assms by (auto simp: clients_ok_def word_le_nat_alt)

lemma client_map_create_eq:
  assumes "CLIENT_ID_UDP_BASE < um_next_id m"
  shows "client_map_create i addr now m =
     (let m1 = (if um_count m \<ge> of_nat MAX_UDP_CLIENTS then client_map_evict_oldest m else m) in (um_next_id m1, placed i addr now m1))"
proof -
  have "um_next_id (client_map_evict_oldest m) = um_next_id m" by (simp add: client_map_evict_oldest_def split: option.splits)
  with assms show ?thesis using next_id_wrap(1) [OF assms] by (simp add: client_map_create_def placed_def Let_def)
qed

text \<open>What happens to an address: it is known, or it gets a slot and an identifier, and at most one other client is dropped for it.\<close>

lemma get_or_create_cases:
  assumes ok: "clients_ok m"
  obtains (known) i where "client_map_find_slot m addr = Some (i, True)" "holds m i addr"
      "client_map_get_or_create addr now m = (id_at m i, m\<lparr>um_entries := (um_entries m)(i := (um_entries m i)\<lparr>ue_last_seen := now\<rparr>)\<rparr>)"
  | (new) i where "client_map_find_slot m addr = Some (i, False)" "i < UDP_CLIENT_HASH_SIZE" "i \<notin> used m" "card (used m) < MAX_UDP_CLIENTS"
      "client_map_get_or_create addr now m = (um_next_id m, placed i addr now m)"
  | (evict) i j where "client_map_find_slot m addr = Some (i, False)" "i < UDP_CLIENT_HASH_SIZE" "i \<notin> used m" "card (used m) = MAX_UDP_CLIENTS"
      "j \<in> used m" "\<forall>l\<in>used m. ue_last_seen (um_entries m j) \<le> ue_last_seen (um_entries m l)"
      "client_map_get_or_create addr now m = (um_next_id m, placed i addr now (dropped j m))"
proof -
  have n: "CLIENT_ID_UDP_BASE < um_next_id m" and le: "card (used m) \<le> MAX_UDP_CLIENTS" using ok by (simp_all add: clients_ok_def)
  then have "card (used m) < UDP_CLIENT_HASH_SIZE" by simp
  then obtain i e where f: "client_map_find_slot m addr = Some (i, e)" by (rule find_slot_total)
  then have i: "i < UDP_CLIENT_HASH_SIZE" "if e then holds m i addr else i \<notin> used m" unfolding find_slot_Some by auto
  show thesis
  proof (cases e)
    case True
    with f i show thesis by (intro known [of i]) (simp_all add: client_map_get_or_create_def client_map_use_def)
  next
    case False
    note b = client_count_bound [OF ok]
    have g: "client_map_get_or_create addr now m = client_map_create i addr now m" using False f by (simp add: client_map_get_or_create_def client_map_use_def)
    show thesis
    proof (cases "card (used m) = MAX_UDP_CLIENTS")
      case full: True
      then have "used m \<noteq> {}" by auto
      with ok obtain j where "j \<in> used m" "\<forall>i\<in>used m. ue_last_seen (um_entries m j) \<le> ue_last_seen (um_entries m i)" "client_map_evict_oldest m = dropped j m"
        by (rule evict_oldest)
      with False full f i g show thesis by (intro evict [of i j]) (simp_all add: client_map_create_eq [OF n] b Let_def dropped_def)
    next
      case notfull: False
      with False f i g le show thesis by (intro new [of i]) (simp_all add: client_map_create_eq [OF n] b)
    qed
  qed
qed

lemma clients_ok_dropped: "clients_ok m \<Longrightarrow> j \<in> used m \<Longrightarrow> clients_ok (dropped j m)"
proof -
  assume ok: "clients_ok m" and j: "j \<in> used m"
  have "0 < card (used m)" using j by (auto simp: card_gt_0_iff)
  moreover have "unat (um_count m) = card (used m)" using ok by (simp add: clients_ok_def)
  ultimately have "unat (um_count m - 1) = card (used m) - 1" by (subst unat_sub) (simp_all add: word_le_nat_alt)
  moreover have "card (used m - {j}) = card (used m) - 1" using j by simp
  ultimately show ?thesis using ok by (auto simp: clients_ok_def)
qed

lemma clients_ok_placed:
  assumes ok: "clients_ok m" and i: "i < UDP_CLIENT_HASH_SIZE" "i \<notin> used m" and room: "card (used m) < MAX_UDP_CLIENTS" and now: "now < INT64_MAX"
  shows "clients_ok (placed i addr now m)"
proof -
  have n: "CLIENT_ID_UDP_BASE < um_next_id m" and c: "unat (um_count m) = card (used m)" using ok by (simp_all add: clients_ok_def)
  have "unat (um_count m + 1) = card (used m) + 1" using c room by (simp add: unat_word_ariths)
  moreover have "CLIENT_ID_UDP_BASE < um_next_id (placed i addr now m)" using next_id_wrap(2) [OF n] by simp
  ultimately show ?thesis using ok i room now n by (auto simp: clients_ok_def)
qed

lemma ids_ok_dropped: "ids_ok m \<Longrightarrow> ids_ok (dropped j m)"
  by (auto simp: ids_ok_def inj_on_def)

lemma ids_ok_placed:
  assumes "ids_ok m" and "i < UDP_CLIENT_HASH_SIZE" "i \<notin> used m" and "CLIENT_ID_UDP_BASE < um_next_id m" "um_next_id m \<noteq> 0xFFFFFFFF"
  shows "ids_ok (placed i addr now m)"
proof -
  have lt: "um_next_id m < um_next_id m + 1" using next_id_wrap(2) [OF assms(4,5)] by simp
  have old: "id_at m j < um_next_id m" if "j \<in> used m" for j using that assms(1) by (simp add: ids_ok_def)
  have at: "id_at (placed i addr now m) j = (if j = i then um_next_id m else id_at m j)" for j by simp
  have "inj_on (id_at (placed i addr now m)) (insert i (used m))"
    unfolding inj_on_insert
  proof
    show "inj_on (id_at (placed i addr now m)) (used m)" 
    proof -
      have "inj_on (id_at (placed i addr now m)) (used m) = inj_on (id_at m) (used m)" by (rule inj_on_cong) (use assms(3) in auto)
      with assms(1) show ?thesis by (simp only: ids_ok_def)
    qed
    have "\<forall>j\<in>used m. um_next_id m \<noteq> id_at m j" using old by (metis order_less_irrefl)
    then show "id_at (placed i addr now m) i \<notin> id_at (placed i addr now m) ` (used m - {i})" by auto
  qed
  moreover have "\<forall>j\<in>insert i (used m). id_at (placed i addr now m) j < um_next_id m + 1"
    using lt old order_less_trans [OF old lt] by (auto simp: at)
  ultimately show ?thesis using assms(2,5) by (simp add: ids_ok_def)
qed

section \<open>The clients as a map\<close>

definition peers_by_id :: "udp_client_map_t \<Rightarrow> u32 \<rightharpoonup> u32 \<times> u16" where
  "peers_by_id m c = map_option peer (client_map_find_addr m c)"

lemma scan_ids:
  assumes "inj_on (id_at m) (used m)"
  shows "for_return UDP_CLIENT_HASH_SIZE 0 (\<lambda>i. let entry = um_entries m i in if ue_active entry \<and> ue_client_id entry = c then Some (f entry) else None) = Some x
     \<longleftrightarrow> (\<exists>i\<in>used m. id_at m i = c \<and> x = f (um_entries m i))"
proof
  assume "for_return UDP_CLIENT_HASH_SIZE 0 (\<lambda>i. let entry = um_entries m i in if ue_active entry \<and> ue_client_id entry = c then Some (f entry) else None) = Some x"
  then show "\<exists>i\<in>used m. id_at m i = c \<and> x = f (um_entries m i)" unfolding for_return_Some by (auto simp: used_def Let_def split: if_splits)
next
  assume "\<exists>i\<in>used m. id_at m i = c \<and> x = f (um_entries m i)"
  then obtain i where i: "i \<in> used m" "id_at m i = c" "x = f (um_entries m i)" by blast
  have "\<not> (ue_active (um_entries m j) \<and> id_at m j = c)" if "j < i" for j
  proof
    assume a: "ue_active (um_entries m j) \<and> id_at m j = c"
    have "j \<in> used m" using a that i(1) by (simp add: used_def)
    then have "j = i" using inj_onD [OF assms, of j i] a i(1,2) by simp
    with that show False by simp
  qed
  with i show "for_return UDP_CLIENT_HASH_SIZE 0 (\<lambda>i. let entry = um_entries m i in if ue_active entry \<and> ue_client_id entry = c then Some (f entry) else None) = Some x"
    unfolding for_return_Some by (intro exI [of _ i]) (auto simp: used_def Let_def)
qed

lemma peers_by_id_Some:
  assumes "ids_ok m"
  shows "peers_by_id m c = Some p \<longleftrightarrow> (\<exists>i\<in>used m. id_at m i = c \<and> peer_at m i = p)"
  using scan_ids [of m c ue_addr] assms by (auto simp: peers_by_id_def client_map_find_addr_def ids_ok_def)

lemma get_protocol_at:
  assumes "ids_ok m" and "i \<in> used m"
  shows "client_map_get_protocol m (id_at m i) = ue_protocol (um_entries m i)"
  using scan_ids [of m "id_at m i" ue_protocol "ue_protocol (um_entries m i)"] assms by (auto simp: client_map_get_protocol_def ids_ok_def)

lemma dom_peers_by_id:
  assumes "ids_ok m"
  shows "dom (peers_by_id m) = id_at m ` used m"
proof (rule set_eqI)
  fix c
  have "c \<in> dom (peers_by_id m) \<longleftrightarrow> (\<exists>p. peers_by_id m c = Some p)" by (simp add: dom_def)
  also have "\<dots> \<longleftrightarrow> (\<exists>i\<in>used m. id_at m i = c)" unfolding peers_by_id_Some [OF assms] by blast
  finally show "c \<in> dom (peers_by_id m) \<longleftrightarrow> c \<in> id_at m ` used m" by (auto simp: image_iff)
qed

lemma card_peers_by_id: "ids_ok m \<Longrightarrow> card (dom (peers_by_id m)) = card (used m)"
  by (simp add: dom_peers_by_id card_image ids_ok_def)

lemma peers_by_id_fresh: "ids_ok m \<Longrightarrow> peers_by_id m (um_next_id m) = None"
  using peers_by_id_Some [of m "um_next_id m"] unfolding ids_ok_def by (metis option.exhaust order_less_irrefl)

lemma map_eq_SomeI: "(\<And>c p. f c = Some p \<longleftrightarrow> g c = Some p) \<Longrightarrow> f = g"
  by (rule ext) (metis option.exhaust)

lemma peers_by_id_dropped:
  assumes "ids_ok m" and "j \<in> used m"
  shows "peers_by_id (dropped j m) = (peers_by_id m)(id_at m j := None)"
proof (rule map_eq_SomeI)
  fix c p
  have "id_at m i \<noteq> id_at m j" if "i \<in> used m" "i \<noteq> j" for i using that assms by (auto simp: ids_ok_def inj_on_def)
  then show "peers_by_id (dropped j m) c = Some p \<longleftrightarrow> ((peers_by_id m)(id_at m j := None)) c = Some p"
    using assms by (auto simp: peers_by_id_Some [OF assms(1)] peers_by_id_Some [OF ids_ok_dropped [OF assms(1)]] split: if_splits)
qed

lemma peers_by_id_placed:
  assumes "ids_ok m" and "i < UDP_CLIENT_HASH_SIZE" "i \<notin> used m" and "CLIENT_ID_UDP_BASE < um_next_id m" "um_next_id m \<noteq> 0xFFFFFFFF"
  shows "peers_by_id (placed i addr now m) = (peers_by_id m)(um_next_id m \<mapsto> peer addr)" and "peers_by_id m (um_next_id m) = None"
proof -
  note ok' = ids_ok_placed [OF assms, of addr now]
  show none: "peers_by_id m (um_next_id m) = None" by (rule peers_by_id_fresh [OF assms(1)])
  show "peers_by_id (placed i addr now m) = (peers_by_id m)(um_next_id m \<mapsto> peer addr)"
  proof (rule map_eq_SomeI)
    fix c p
    have "peers_by_id (placed i addr now m) c = Some p \<longleftrightarrow> um_next_id m = c \<and> peer addr = p \<or> (\<exists>j\<in>used m. id_at m j = c \<and> peer_at m j = p)"
      unfolding peers_by_id_Some [OF ok'] using assms(2,3) by (auto simp del: split_paired_Ex)
    then show "peers_by_id (placed i addr now m) c = Some p \<longleftrightarrow> ((peers_by_id m)(um_next_id m \<mapsto> peer addr)) c = Some p"
      using none by (auto simp: peers_by_id_Some [OF assms(1), symmetric] split: if_splits)
  qed
qed

lemma touch_same:
  assumes "m' = m\<lparr>um_entries := (um_entries m)(i := (um_entries m i)\<lparr>ue_last_seen := now\<rparr>)\<rparr>"
  shows "used m' = used m" "id_at m' j = id_at m j" "peer_at m' j = peer_at m j" "um_count m' = um_count m" "um_next_id m' = um_next_id m"
    "ue_addr (um_entries m' j) = ue_addr (um_entries m j)" "ue_protocol (um_entries m' j) = ue_protocol (um_entries m j)"
    "ue_last_seen (um_entries m' j) = (if j = i then now else ue_last_seen (um_entries m j))"
  by (auto simp: assms used_def fun_eq_iff)

lemma protocol_same:
  assumes "m' = m\<lparr>um_entries := (um_entries m)(i := (um_entries m i)\<lparr>ue_protocol := q\<rparr>)\<rparr>"
  shows "used m' = used m" "id_at m' j = id_at m j" "peer_at m' j = peer_at m j" "um_count m' = um_count m" "um_next_id m' = um_next_id m"
    "ue_addr (um_entries m' j) = ue_addr (um_entries m j)" "ue_last_seen (um_entries m' j) = ue_last_seen (um_entries m j)"
    "ue_protocol (um_entries m' j) = (if j = i then q else ue_protocol (um_entries m j))"
  by (auto simp: assms used_def fun_eq_iff)

lemma peers_by_id_same:
  assumes "used m' = used m" "\<And>j. id_at m' j = id_at m j" "\<And>j. peer_at m' j = peer_at m j" "um_next_id m' = um_next_id m"
  shows "ids_ok m' = ids_ok m" "ids_ok m \<Longrightarrow> peers_by_id m' = peers_by_id m"
proof -
  show i: "ids_ok m' = ids_ok m" using assms by (simp add: ids_ok_def inj_on_def)
  show "peers_by_id m' = peers_by_id m" if "ids_ok m"
    by (rule map_eq_SomeI) (use that i assms in \<open>simp add: peers_by_id_Some\<close>)
qed

lemma chains_same: "used m' = used m \<Longrightarrow> (\<And>j. ue_addr (um_entries m' j) = ue_addr (um_entries m j)) \<Longrightarrow> chains_ok m' = chains_ok m"
  by (simp add: chains_ok_def)

text \<open>
  Registration as an operation on the map: the client gets an identifier for its address, and the others keep theirs, except one when the table is full.
\<close>

theorem registration:
  assumes ok: "clients_ok m" "ids_ok m" "um_next_id m \<noteq> 0xFFFFFFFF" and now: "now < INT64_MAX" and g: "client_map_get_or_create addr now m = (c, m')"
  shows "clients_ok m'" "ids_ok m'" "client_id_is_udp c"
    "\<exists>gone. peers_by_id m' = (peers_by_id m |` (- gone))(c \<mapsto> peer addr) \<and> (gone = {} \<or> card (dom (peers_by_id m)) = MAX_UDP_CLIENTS \<and> (\<exists>d. gone = {d}) \<and> peers_by_id m c = None)"
proof -
  have n: "CLIENT_ID_UDP_BASE < um_next_id m" using ok by (simp add: clients_ok_def)
  have "clients_ok m' \<and> ids_ok m' \<and> client_id_is_udp c
    \<and> (\<exists>gone. peers_by_id m' = (peers_by_id m |` (- gone))(c \<mapsto> peer addr) \<and> (gone = {} \<or> card (dom (peers_by_id m)) = MAX_UDP_CLIENTS \<and> (\<exists>d. gone = {d}) \<and> peers_by_id m c = None))"
  proof (cases rule: get_or_create_cases [OF ok(1), of addr now])
    case (1 i)
    then have m': "m' = m\<lparr>um_entries := (um_entries m)(i := (um_entries m i)\<lparr>ue_last_seen := now\<rparr>)\<rparr>" and c: "c = id_at m i" using g by simp_all
    note t = touch_same [OF m']
    note r = peers_by_id_same [OF t(1,2,3,5)]
    have i: "i \<in> used m" "peer_at m i = peer addr" using 1(2) by (simp_all add: holds_def)
    have "peers_by_id m c = Some (peer addr)" using i c by (auto simp: peers_by_id_Some [OF ok(2)])
    then have "peers_by_id m' = (peers_by_id m |` (- {}))(c \<mapsto> peer addr)" using r(2) [OF ok(2)] by (simp add: fun_upd_idem restrict_map_def)
    moreover have "clients_ok m'" using ok(1) now by (simp add: clients_ok_def t)
    moreover have "client_id_is_udp c" using ok(1) i c by (simp add: clients_ok_def client_id_is_udp_def)
    ultimately show ?thesis using r(1) ok(2) by blast
  next
    case (2 i)
    then have m': "m' = placed i addr now m" and c: "c = um_next_id m" using g by simp_all
    note r = peers_by_id_placed [OF ok(2) 2(2,3) n ok(3)]
    have "peers_by_id m' = (peers_by_id m |` (- {}))(c \<mapsto> peer addr)" using r m' c by (simp add: restrict_map_def)
    with clients_ok_placed [OF ok(1) 2(2,3,4) now] ids_ok_placed [OF ok(2) 2(2,3) n ok(3)] n show ?thesis
      unfolding m' c client_id_is_udp_def by blast
  next
    case (3 i j)
    then have m': "m' = placed i addr now (dropped j m)" and c: "c = um_next_id m" using g by simp_all
    have d: "clients_ok (dropped j m)" "ids_ok (dropped j m)" using clients_ok_dropped [OF ok(1) 3(5)] ids_ok_dropped [OF ok(2)] by blast+
    have i: "i \<notin> used (dropped j m)" "card (used (dropped j m)) < MAX_UDP_CLIENTS" using 3(3,4,5) by (simp_all add: card_gt_0_iff)
    have n': "CLIENT_ID_UDP_BASE < um_next_id (dropped j m)" "um_next_id (dropped j m) \<noteq> 0xFFFFFFFF" using n ok(3) by simp_all
    note r = peers_by_id_placed [OF d(2) 3(2) i(1) n']
    have none: "peers_by_id m c = None" using peers_by_id_fresh [OF ok(2)] c by simp
    have "peers_by_id m' = (peers_by_id m |` (- {id_at m j}))(c \<mapsto> peer addr)"
      unfolding m' r(1) peers_by_id_dropped [OF ok(2) 3(5)] by (simp add: c restrict_complement_singleton_eq)
    moreover have "card (dom (peers_by_id m)) = MAX_UDP_CLIENTS" using card_peers_by_id [OF ok(2)] 3(4) by simp
    ultimately show ?thesis using clients_ok_placed [OF d(1) 3(2) i now, of addr] ids_ok_placed [OF d(2) 3(2) i(1) n', of addr now] n none
      unfolding m' c client_id_is_udp_def by blast
  qed
  then show "clients_ok m'" "ids_ok m'" "client_id_is_udp c"
    "\<exists>gone. peers_by_id m' = (peers_by_id m |` (- gone))(c \<mapsto> peer addr) \<and> (gone = {} \<or> card (dom (peers_by_id m)) = MAX_UDP_CLIENTS \<and> (\<exists>d. gone = {d}) \<and> peers_by_id m c = None)"
    by blast+
qed

section \<open>While nobody is dropped\<close>

lemma find_known:
  assumes ch: "chains_ok m" and h: "holds m i addr"
  shows "client_map_find_slot m addr = Some (i, True)"
proof -
  have i: "i \<in> used m" and p: "peer (ue_addr (um_entries m i)) = peer addr" using h by (simp_all add: holds_def)
  with ch obtain k where k: "k < UDP_CLIENT_HASH_SIZE" "i = slot_of addr k" "\<forall>j<k. slot_of addr j \<in> used m"
    unfolding chains_ok_def slot_of_peer [OF p] by (metis slot_of_peer)
  define l where "l = (LEAST l. holds m (slot_of addr l) addr)"
  have "holds m (slot_of addr k) addr" using h k(2) by simp
  then have l: "holds m (slot_of addr l) addr" "l \<le> k" unfolding l_def by (rule LeastI, rule Least_le)
  have "\<not> holds m (slot_of addr j) addr" if "j < l" for j using that unfolding l_def by (rule not_less_Least)
  moreover have "slot_of addr l = i" using inj_onD [of "peer_at m" "used m" "slot_of addr l" i] ch l(1) h by (simp add: chains_ok_def holds_def)
  ultimately show ?thesis unfolding find_slot_Some using l(2) k h by (intro exI [of _ l]) auto
qed

lemma chains_ok_placed:
  assumes ch: "chains_ok m" and f: "client_map_find_slot m addr = Some (i, False)"
  shows "chains_ok (placed i addr now m)"
proof -
  from f obtain k where k: "k < UDP_CLIENT_HASH_SIZE" "i = slot_of addr k" "i \<notin> used m" "\<forall>j<k. slot_of addr j \<in> used m" unfolding find_slot_Some by auto
  have i: "i < UDP_CLIENT_HASH_SIZE" using k(2) by simp
  have new: "\<forall>j\<in>used m. peer addr \<noteq> peer_at m j" using find_known [OF ch] f by (force simp: holds_def)
  have at: "ue_addr (um_entries (placed i addr now m) j) = (if j = i then addr else ue_addr (um_entries m j))" for j by simp
  have "inj_on (peer_at (placed i addr now m)) (used m) = inj_on (peer_at m) (used m)" by (rule inj_on_cong) (use k(3) in auto)
  then have "inj_on (peer_at (placed i addr now m)) (insert i (used m))" unfolding inj_on_insert using ch new by (auto simp: chains_ok_def)
  moreover have "\<exists>k<UDP_CLIENT_HASH_SIZE. j = slot_of (ue_addr (um_entries (placed i addr now m) j)) k
      \<and> (\<forall>l<k. slot_of (ue_addr (um_entries (placed i addr now m) j)) l \<in> insert i (used m))" if "j \<in> insert i (used m)" for j
  proof (cases "j = i")
    case True
    with k show ?thesis unfolding at by auto
  next
    case False
    with that ch have "\<exists>k<UDP_CLIENT_HASH_SIZE. j = slot_of (ue_addr (um_entries m j)) k \<and> (\<forall>l<k. slot_of (ue_addr (um_entries m j)) l \<in> used m)"
      by (simp add: chains_ok_def)
    with False show ?thesis unfolding at by auto
  qed
  ultimately show ?thesis unfolding chains_ok_def used_placed [OF i] by blast
qed

text \<open>Below the limit a registration keeps every client, finds the client it knows and gives a new one an identifier of its own.\<close>

theorem registration_stable:
  assumes ok: "clients_ok m" "ids_ok m" "um_next_id m \<noteq> 0xFFFFFFFF" and ch: "chains_ok m" and now: "now < INT64_MAX"
    and room: "card (used m) < MAX_UDP_CLIENTS \<or> peer addr \<in> ran (peers_by_id m)" and g: "client_map_get_or_create addr now m = (c, m')"
  shows "chains_ok m'" "peers_by_id m' = (peers_by_id m)(c \<mapsto> peer addr)" "inj_on (peers_by_id m') (dom (peers_by_id m'))"
    "um_next_id m' = (if peer addr \<in> ran (peers_by_id m) then um_next_id m else um_next_id m + 1)"
    "if peer addr \<in> ran (peers_by_id m) then peers_by_id m c = Some (peer addr) else c = um_next_id m"
proof -
  have n: "CLIENT_ID_UDP_BASE < um_next_id m" using ok by (simp add: clients_ok_def)
  have ran: "p \<in> ran (peers_by_id m) \<longleftrightarrow> (\<exists>i\<in>used m. peer_at m i = p)" for p using peers_by_id_Some [OF ok(2)] by (auto simp: ran_def simp del: split_paired_Ex)
  have unk: "peer addr \<notin> ran (peers_by_id m)" if "client_map_find_slot m addr = Some (i, False)" for i
    unfolding ran using find_known [OF ch, of _ addr] that by (auto simp: holds_def)
  have "chains_ok m' \<and> peers_by_id m' = (peers_by_id m)(c \<mapsto> peer addr) \<and> um_next_id m' = (if peer addr \<in> ran (peers_by_id m) then um_next_id m else um_next_id m + 1)
     \<and> (if peer addr \<in> ran (peers_by_id m) then peers_by_id m c = Some (peer addr) else c = um_next_id m)"
  proof (cases rule: get_or_create_cases [OF ok(1), of addr now])
    case (1 i)
    then have m': "m' = m\<lparr>um_entries := (um_entries m)(i := (um_entries m i)\<lparr>ue_last_seen := now\<rparr>)\<rparr>" and c: "c = id_at m i" using g by simp_all
    note t = touch_same [OF m']
    have i: "i \<in> used m" "peer_at m i = peer addr" using 1(2) by (simp_all add: holds_def)
    then have "peers_by_id m c = Some (peer addr)" "peer addr \<in> ran (peers_by_id m)" using c ran peers_by_id_Some [OF ok(2)] by auto
    with ch show ?thesis using peers_by_id_same(2) [OF t(1,2,3,5) ok(2)] chains_same [OF t(1,6)] t(5) by (simp add: fun_upd_idem)
  next
    case (2 i)
    then have m': "m' = placed i addr now m" and c: "c = um_next_id m" using g by simp_all
    show ?thesis using chains_ok_placed [OF ch 2(1)] peers_by_id_placed(1) [OF ok(2) 2(2,3) n ok(3)] ok(3) unk [OF 2(1)] by (simp add: m' c)
  next
    case (3 i j)
    with room unk [OF 3(1)] show ?thesis by simp
  qed
  moreover have "inj_on (peers_by_id m') (dom (peers_by_id m'))"
  proof -
    have i': "ids_ok m'" by (rule registration(2) [OF ok now g])
    have "chains_ok m'" using calculation by blast
    then have "inj_on (peer_at m') (used m')" by (simp add: chains_ok_def)
    then show ?thesis unfolding inj_on_def dom_peers_by_id [OF i'] using peers_by_id_Some [OF i'] by (smt (verit, best) image_iff)
  qed
  ultimately show "chains_ok m'" "peers_by_id m' = (peers_by_id m)(c \<mapsto> peer addr)" "inj_on (peers_by_id m') (dom (peers_by_id m'))"
    "um_next_id m' = (if peer addr \<in> ran (peers_by_id m) then um_next_id m else um_next_id m + 1)"
    "if peer addr \<in> ran (peers_by_id m) then peers_by_id m c = Some (peer addr) else c = um_next_id m" by blast+
qed

text \<open>A sequence of registrations: the identifiers given.\<close>

fun register_all :: "(udp_client_addr_t \<times> int) list \<Rightarrow> udp_client_map_t \<Rightarrow> u32 list \<times> udp_client_map_t" where
  "register_all [] m = ([], m)"
| "register_all ((addr, now) # xs) m = (let (c, m1) = client_map_get_or_create addr now m; (cs, m2) = register_all xs m1 in (c # cs, m2))"

abbreviation peers :: "(udp_client_addr_t \<times> int) list \<Rightarrow> (u32 \<times> u16) set" where
  "peers xs \<equiv> (\<lambda>x. peer (fst x)) ` set xs"

lemma ran_peers_by_id:
  assumes "ids_ok m"
  shows "ran (peers_by_id m) = peer_at m ` used m"
proof (rule set_eqI)
  fix p
  have "p \<in> ran (peers_by_id m) \<longleftrightarrow> (\<exists>c. peers_by_id m c = Some p)" by (simp add: ran_def)
  also have "\<dots> \<longleftrightarrow> (\<exists>i\<in>used m. peer_at m i = p)" unfolding peers_by_id_Some [OF assms] by blast
  finally show "p \<in> ran (peers_by_id m) \<longleftrightarrow> p \<in> peer_at m ` used m" by (auto simp: image_iff)
qed

lemma card_ran_peers_by_id: "ids_ok m \<Longrightarrow> chains_ok m \<Longrightarrow> card (ran (peers_by_id m)) = card (used m)" "ids_ok m \<Longrightarrow> finite (ran (peers_by_id m))"
  by (simp_all add: ran_peers_by_id card_image chains_ok_def)

lemma peers_by_id_unique:
  assumes "ids_ok m" "chains_ok m" and "peers_by_id m c = Some p" "peers_by_id m d = Some q"
  shows "c = d \<longleftrightarrow> p = q"
  using assms(2-4) unfolding peers_by_id_Some [OF assms(1)] chains_ok_def inj_on_def by (metis assms(3,4) option.inject)

lemma register_all_stable:
  assumes "clients_ok m" "ids_ok m" "chains_ok m" and "card (ran (peers_by_id m) \<union> peers xs) \<le> MAX_UDP_CLIENTS"
    and "unat (um_next_id m) + card (peers xs - ran (peers_by_id m)) < 0xFFFFFFFF" and "\<forall>x\<in>set xs. snd x < INT64_MAX" and "register_all xs m = (cs, m')"
  shows "clients_ok m' \<and> ids_ok m' \<and> chains_ok m' \<and> peers_by_id m \<subseteq>\<^sub>m peers_by_id m' \<and> list_all2 (\<lambda>x c. peers_by_id m' c = Some (peer (fst x))) xs cs"
  using assms
proof (induction xs arbitrary: m cs)
  case (Cons x xs)
  obtain addr now where x: "x = (addr, now)" by fastforce
  obtain c m1 where g: "client_map_get_or_create addr now m = (c, m1)" by fastforce
  obtain cs1 where r: "register_all xs m1 = (cs1, m')" "cs = c # cs1" using Cons.prems(7) g by (auto simp: x split: prod.splits)
  have now: "now < INT64_MAX" using Cons.prems(6) by (simp add: x)
  have fin: "finite (ran (peers_by_id m))" using card_ran_peers_by_id(2) [OF Cons.prems(2)] .
  have "unat (um_next_id m) < 0xFFFFFFFF" using Cons.prems(5) by simp
  then have nw: "um_next_id m \<noteq> 0xFFFFFFFF" by auto
  have room: "card (used m) < MAX_UDP_CLIENTS \<or> peer addr \<in> ran (peers_by_id m)"
  proof (rule disjCI)
    assume "peer addr \<notin> ran (peers_by_id m)"
    then have "card (insert (peer addr) (ran (peers_by_id m))) = Suc (card (used m))" using fin card_ran_peers_by_id(1) [OF Cons.prems(2,3)] by simp
    moreover have "card (insert (peer addr) (ran (peers_by_id m))) \<le> card (ran (peers_by_id m) \<union> peers (x # xs))" by (rule card_mono) (use fin x in auto)
    ultimately show "card (used m) < MAX_UDP_CLIENTS" using Cons.prems(4) by linarith
  qed
  note s = registration_stable [OF Cons.prems(1,2) nw Cons.prems(3) now room g]
  note k = registration(1,2) [OF Cons.prems(1,2) nw now g]
  have none: "peers_by_id m c = None \<or> peers_by_id m c = Some (peer addr)" using s(5) peers_by_id_fresh [OF Cons.prems(2)] by (auto split: if_splits)
  have ran1: "ran (peers_by_id m1) = insert (peer addr) (ran (peers_by_id m))" unfolding s(2)
  proof (cases "peers_by_id m c = None")
    case False
    with none have "peers_by_id m c = Some (peer addr)" by blast
    then show "ran ((peers_by_id m)(c \<mapsto> peer addr)) = insert (peer addr) (ran (peers_by_id m))" by (metis fun_upd_triv insert_absorb ranI)
  qed (rule ran_map_upd)
  then have u: "ran (peers_by_id m1) \<union> peers xs = ran (peers_by_id m) \<union> peers (x # xs)" by (simp add: x)
  have d: "peers xs - ran (peers_by_id m1) = (peers (x # xs) - ran (peers_by_id m)) - {peer addr}" unfolding ran1 by (auto simp: x)
  have sm: "unat (um_next_id m1) + card (peers xs - ran (peers_by_id m1)) < 0xFFFFFFFF"
  proof (cases "peer addr \<in> ran (peers_by_id m)")
    case True
    then have "peers xs - ran (peers_by_id m1) = peers (x # xs) - ran (peers_by_id m)" unfolding d by auto
    with True s(4) Cons.prems(5) show ?thesis by simp
  next
    case False
    have "unat (um_next_id m + 1) = unat (um_next_id m) + 1" using Cons.prems(5) by (simp add: unat_word_ariths)
    moreover have "card (peers xs - ran (peers_by_id m1)) = card (peers (x # xs) - ran (peers_by_id m)) - 1" unfolding d using False by (simp add: x)
    moreover have "0 < card (peers (x # xs) - ran (peers_by_id m))" using False by (auto simp: x card_gt_0_iff)
    ultimately show ?thesis using False s(4) Cons.prems(5) by simp
  qed
  have le: "peers_by_id m \<subseteq>\<^sub>m peers_by_id m1" unfolding s(2) using none by (auto simp: map_le_def)
  from Cons.IH [OF k s(1) _ sm _ r(1)] Cons.prems(4,6) have *: "clients_ok m' \<and> ids_ok m' \<and> chains_ok m' \<and> peers_by_id m1 \<subseteq>\<^sub>m peers_by_id m'
     \<and> list_all2 (\<lambda>x c. peers_by_id m' c = Some (peer (fst x))) xs cs1" unfolding u by (metis list.set_intros(2))
  have "peers_by_id m1 c = Some (peer addr)" by (simp add: s(2))
  then have "c \<in> dom (peers_by_id m1)" "peers_by_id m1 c = Some (peer addr)" by (rule domI, assumption)
  then have "peers_by_id m' c = Some (peer addr)" using * by (simp only: map_le_def)
  with * show ?case unfolding r(2) using map_le_trans [OF le] by (simp only: list_all2_Cons x fst_conv)
qed simp

section \<open>The protocol of a client\<close>

lemma find_slot_same: "used m' = used m \<Longrightarrow> (\<And>j. ue_addr (um_entries m' j) = ue_addr (um_entries m j)) \<Longrightarrow> client_map_find_slot m' a = client_map_find_slot m a"
proof -
  assume "used m' = used m" and "\<And>j. ue_addr (um_entries m' j) = ue_addr (um_entries m j)"
  then have "client_map_find_slot m' a = Some (i, e) \<longleftrightarrow> client_map_find_slot m a = Some (i, e)" for i e by (simp add: find_slot_Some holds_def)
  then show ?thesis by (metis option.exhaust prod.exhaust)
qed

definition same_registration :: "udp_client_map_t \<Rightarrow> udp_client_map_t \<Rightarrow> bool" where
  "same_registration m m' \<longleftrightarrow> (\<exists>f. m' = m\<lparr>um_entries := (\<lambda>i. (um_entries m i)\<lparr>ue_protocol := f i\<rparr>)\<rparr>)"

lemma same_registration_refl: "same_registration m m"
  unfolding same_registration_def by (intro exI [of _ "\<lambda>j. ue_protocol (um_entries m j)"]) simp

lemma set_protocol_same: "same_registration m (client_map_set_protocol addr q m)"
proof -
  have "same_registration m (m\<lparr>um_entries := (um_entries m)(i := (um_entries m i)\<lparr>ue_protocol := q\<rparr>)\<rparr>)" for i
    unfolding same_registration_def by (intro exI [of _ "\<lambda>j. if j = i then q else ue_protocol (um_entries m j)"]) (auto simp: fun_eq_iff)
  then show ?thesis using same_registration_refl [of m] by (auto simp: client_map_set_protocol_def split: option.splits bool.splits)
qed

lemma same_registration_ok:
  assumes "same_registration m m'"
  shows "clients_ok m' = clients_ok m" "ids_ok m' = ids_ok m" "chains_ok m' = chains_ok m" "client_map_find_slot m' a = client_map_find_slot m a"
    "client_map_find_addr m' c = client_map_find_addr m c" "peers_by_id m' = peers_by_id m" "um_next_id m' = um_next_id m" "used m' = used m" "id_at m' i = id_at m i"
proof -
  from assms obtain f where m': "m' = m\<lparr>um_entries := (\<lambda>i. (um_entries m i)\<lparr>ue_protocol := f i\<rparr>)\<rparr>" unfolding same_registration_def by blast
  have u: "used m' = used m" by (simp add: m' used_def)
  then show "clients_ok m' = clients_ok m" "ids_ok m' = ids_ok m" "chains_ok m' = chains_ok m" by (simp_all add: clients_ok_def ids_ok_def chains_ok_def m')
  show "client_map_find_slot m' a = client_map_find_slot m a" using u by (rule find_slot_same) (simp add: m')
  show f: "client_map_find_addr m' c = client_map_find_addr m c" for c by (simp add: client_map_find_addr_def m' Let_def cong: if_cong)
  show "peers_by_id m' = peers_by_id m" using f by (simp add: peers_by_id_def fun_eq_iff)
  show "um_next_id m' = um_next_id m" "used m' = used m" "id_at m' i = id_at m i" using u by (simp_all add: m')
qed

lemma same_registration_trans: "same_registration a b \<Longrightarrow> same_registration b c \<Longrightarrow> same_registration a c"
  unfolding same_registration_def by (elim exE) (simp, blast)

definition protocol_of :: "udp_client_map_t \<Rightarrow> udp_client_addr_t \<Rightarrow> client_protocol_t option" where
  "protocol_of m addr = (case client_map_find_slot m addr of Some (i, True) \<Rightarrow> Some (ue_protocol (um_entries m i)) | _ \<Rightarrow> None)"

lemma protocol_of_set: "protocol_of (client_map_set_protocol addr q m) addr = map_option (\<lambda>p. if p = CLIENT_PROTOCOL_UNKNOWN then q else p) (protocol_of m addr)"
  unfolding protocol_of_def same_registration_ok(4) [OF set_protocol_same]
  by (simp add: client_map_set_protocol_def split: option.splits bool.splits)

lemma find_slot_holds: "client_map_find_slot m addr = Some (i, True) \<Longrightarrow> holds m i addr"
  unfolding find_slot_Some by auto

text \<open>A registration that drops nobody: the client is found under its address, with the protocol it had.\<close>

lemma registration_found:
  assumes ok: "clients_ok m" "ids_ok m" "um_next_id m \<noteq> 0xFFFFFFFF" and now: "now < INT64_MAX" and room: "card (used m) < MAX_UDP_CLIENTS"
    and g: "client_map_get_or_create addr now m = (c, m')"
  shows "\<exists>i. client_map_find_slot m' addr = Some (i, True) \<and> id_at m' i = c"
    and "protocol_of m' addr = Some (case protocol_of m addr of Some p \<Rightarrow> p | None \<Rightarrow> CLIENT_PROTOCOL_UNKNOWN)"
proof -
  have "(\<exists>i. client_map_find_slot m' addr = Some (i, True) \<and> id_at m' i = c) \<and> protocol_of m' addr = Some (case protocol_of m addr of Some p \<Rightarrow> p | None \<Rightarrow> CLIENT_PROTOCOL_UNKNOWN)"
  proof (cases rule: get_or_create_cases [OF ok(1), of addr now])
    case (1 i)
    then have m': "m' = m\<lparr>um_entries := (um_entries m)(i := (um_entries m i)\<lparr>ue_last_seen := now\<rparr>)\<rparr>" and c: "c = id_at m i" using g by simp_all
    note t = touch_same [OF m']
    have "client_map_find_slot m' addr = Some (i, True)" using find_slot_same [OF t(1,6), of addr] 1(1) by simp
    then show ?thesis using 1(1) c t(2,7) by (simp add: protocol_of_def)
  next
    case (2 i)
    then have m': "m' = placed i addr now m" and c: "c = um_next_id m" using g by simp_all
    from 2(1) obtain k where k: "k < UDP_CLIENT_HASH_SIZE" "i = slot_of addr k" "\<forall>j<k. slot_of addr j \<in> used m \<and> \<not> holds m (slot_of addr j) addr" unfolding find_slot_Some by auto
    have "slot_of addr j \<noteq> i" if "j < k" for j using k(3) 2(3) that by auto
    then have "client_map_find_slot m' addr = Some (i, True)" unfolding find_slot_Some
      using k 2(2) by (intro exI [of _ k]) (auto simp: m' holds_def)
    then show ?thesis using 2(1) by (simp add: protocol_of_def m' c)
  next
    case (3 i j)
    with room show ?thesis by simp
  qed
  then show "\<exists>i. client_map_find_slot m' addr = Some (i, True) \<and> id_at m' i = c"
    "protocol_of m' addr = Some (case protocol_of m addr of Some p \<Rightarrow> p | None \<Rightarrow> CLIENT_PROTOCOL_UNKNOWN)" by blast+
qed

lemma get_protocol_of:
  assumes "ids_ok m" and "client_map_find_slot m addr = Some (i, True)"
  shows "client_map_get_protocol m (id_at m i) = the (protocol_of m addr)"
  using get_protocol_at [OF assms(1), of i] find_slot_holds [OF assms(2)] assms(2) by (simp add: holds_def protocol_of_def)

section \<open>A hole in the chain\<close>

text \<open>
  When the dropped client was in the home slot of the new one, the new client is not found under its address: its protocol is not noted, and its next datagram gets another identifier.
\<close>

theorem new_client_lost:
  assumes ok: "clients_ok m" "ids_ok m" "um_next_id m \<noteq> 0xFFFFFFFF" and full: "card (used m) = MAX_UDP_CLIENTS"
    and home: "slot_of a 0 \<in> used m" "\<forall>i\<in>used m. i \<noteq> slot_of a 0 \<longrightarrow> ue_last_seen (um_entries m (slot_of a 0)) < ue_last_seen (um_entries m i)"
    and a: "peer a \<notin> ran (peers_by_id m)" "now < INT64_MAX"
    and g: "client_map_get_or_create a now m = (c, m')"
  shows "peers_by_id m' c = Some (peer a)" and "client_map_get_protocol (client_map_set_protocol a q m') c = CLIENT_PROTOCOL_UNKNOWN"
    and "fst (client_map_get_or_create a now' m') \<noteq> c"
proof -
  have nb: "\<not> holds m i a" for i using a(1) unfolding holds_def ran_peers_by_id [OF ok(2)] by (metis imageI)
  obtain i where i: "i < UDP_CLIENT_HASH_SIZE" "i \<notin> used m" and m': "m' = placed i a now (dropped (slot_of a 0) m)" "c = um_next_id m"
  proof (cases rule: get_or_create_cases [OF ok(1), of a now])
    case (3 i j)
    have "j = slot_of a 0" using 3(5,6) home by (metis not_le)
    with 3 g show thesis by (intro that [of i]) simp_all
  qed (use nb full in simp_all)
  have ok': "clients_ok m'" "ids_ok m'" using registration(1,2) [OF ok a(2) g] .
  have iu: "i \<in> used m'" "id_at m' i = c" "peer_at m' i = peer a" "ue_protocol (um_entries m' i) = CLIENT_PROTOCOL_UNKNOWN" using i by (simp_all add: m')
  then show r: "peers_by_id m' c = Some (peer a)" unfolding peers_by_id_Some [OF ok'(2)] by blast
  have "slot_of a 0 \<notin> used m'" using i home(1) by (auto simp: m')
  then have f: "client_map_find_slot m' a = Some (slot_of a 0, False)" unfolding find_slot_Some by (intro exI [of _ 0]) simp
  then have "client_map_set_protocol a q m' = m'" by (simp add: client_map_set_protocol_def)
  then show "client_map_get_protocol (client_map_set_protocol a q m') c = CLIENT_PROTOCOL_UNKNOWN" using get_protocol_at [OF ok'(2) iu(1)] iu by simp
  have "fst (client_map_get_or_create a now' m') = um_next_id m'" by (cases rule: get_or_create_cases [OF ok'(1), of a now']) (use f in simp_all)
  then show "fst (client_map_get_or_create a now' m') \<noteq> c" using r peers_by_id_fresh [OF ok'(2)] by auto
qed

end
