(* ===== verification/ME_Udp_Receiver.thy ===== *)
theory ME_Udp_Receiver
  imports ME_Udp_Clients ME_Tcp_Connection ME_Symbol_Router ME_Queue ME_Csv ME_Binary
begin

text \<open>
  The UDP server (\<^verbatim>\<open>network/udp_receiver.c\<close> and \<^verbatim>\<open>.h\<close>): datagrams are taken from the socket, their sender is registered, every message in them is parsed and given to the
  queue of its processor, and answers are sent to the address of a client.  The structure is modelled with the queues its pointers refer to; the
  unused buffers and the legacy pointer are left out, and the address of the last sender is kept as the \<^verbatim>\<open>sockaddr_in\<close> that is copied into it.  \<open>ur_wire\<close> is the trace of the datagrams
  that \<^verbatim>\<open>sendto\<close> accepted.

  When a queue is full the thread yields and tries again, up to 1000 times: \<open>yield n\<close> stands for what the other threads do while \<open>n\<close> attempts are left.
\<close>

abbreviation MAX_ROUTE_RETRIES :: nat where "MAX_ROUTE_RETRIES \<equiv> 1000"
abbreviation MAX_INPUT_LINE_LENGTH :: nat where "MAX_INPUT_LINE_LENGTH \<equiv> 256"

record udp_receiver_t =
  ur_output_queue_0 :: "input_msg_envelope_t queue_t"
  ur_output_queue_1 :: "input_msg_envelope_t queue_t option"
  ur_num_output_queues :: int
  ur_port :: u16
  ur_sockfd :: int
  ur_clients :: udp_client_map_t
  ur_last_recv_addr :: sockaddr_in
  ur_last_recv_len :: u32
  ur_last_client_addr :: udp_client_addr_t
  ur_last_client_id :: u32
  ur_running :: bool
  ur_started :: bool
  ur_packets_received :: u64
  ur_packets_sent :: u64
  ur_bytes_received :: u64
  ur_bytes_sent :: u64
  ur_messages_parsed :: u64
  ur_messages_dropped :: u64
  ur_send_errors :: u64
  ur_messages_to_processor :: "u64 \<times> u64"
  ur_sequence :: u64
  ur_csv_parser :: message_parser_t
  ur_wire :: "(sockaddr_in \<times> u8 list) list"

section \<open>Routing\<close>

definition udp_symbol_from_input_msg :: "input_msg_t \<Rightarrow> string option" where
  "udp_symbol_from_input_msg msg =
     (case msg of INPUT_MSG_NEW_ORDER m \<Rightarrow> Some (no_symbol m) | INPUT_MSG_CANCEL m \<Rightarrow> Some (cm_symbol m)
      | INPUT_MSG_FLUSH \<Rightarrow> None | INPUT_MSG_OTHER _ \<Rightarrow> None)"

definition enqueue_for :: "bool \<Rightarrow> input_msg_envelope_t \<Rightarrow> udp_receiver_t \<Rightarrow> (bool \<times> udp_receiver_t) option" where
  "enqueue_for second envelope r =
     (if second then (case ur_output_queue_1 r of None \<Rightarrow> None
        | Some q \<Rightarrow> let (ok, q') = queue_enqueue q envelope in Some (ok, r\<lparr>ur_output_queue_1 := Some q'\<rparr>))
      else let (ok, q') = queue_enqueue (ur_output_queue_0 r) envelope in Some (ok, r\<lparr>ur_output_queue_0 := q'\<rparr>))"

definition count_routed :: "bool \<Rightarrow> udp_receiver_t \<Rightarrow> udp_receiver_t" where
  "count_routed second r = r\<lparr>ur_messages_to_processor :=
     (if second then apsnd (\<lambda>n. n + 1) (ur_messages_to_processor r) else apfst (\<lambda>n. n + 1) (ur_messages_to_processor r))\<rparr>"

fun route_retry :: "(nat \<Rightarrow> udp_receiver_t \<Rightarrow> udp_receiver_t) \<Rightarrow> nat \<Rightarrow> bool \<Rightarrow> input_msg_envelope_t \<Rightarrow> udp_receiver_t \<Rightarrow> (bool \<times> udp_receiver_t) option" where
  "route_retry yield 0 second envelope r = Some (False, r)"
| "route_retry yield (Suc n) second envelope r = do {
     (ok, r1) \<leftarrow> enqueue_for second envelope r;
     if ok then Some (True, count_routed second r1) else route_retry yield n second envelope (yield n r1)
   }"

definition route_message :: "(nat \<Rightarrow> udp_receiver_t \<Rightarrow> udp_receiver_t) \<Rightarrow> input_msg_envelope_t \<Rightarrow> input_msg_t \<Rightarrow> udp_receiver_t \<Rightarrow> (bool \<times> udp_receiver_t) option" where
  "route_message yield envelope msg r =
     (if ur_num_output_queues r = 1 then route_retry yield MAX_ROUTE_RETRIES False envelope r
      else let symbol = udp_symbol_from_input_msg msg in
        if msg = INPUT_MSG_FLUSH \<or> \<not> symbol_is_valid symbol then do {
          (success_0, r1) \<leftarrow> route_retry yield MAX_ROUTE_RETRIES False envelope r;
          (success_1, r2) \<leftarrow> route_retry yield MAX_ROUTE_RETRIES True envelope r1;
          Some (success_0 \<and> success_1, r2)
        } else do {
          processor_id \<leftarrow> get_processor_id_for_symbol symbol;
          route_retry yield MAX_ROUTE_RETRIES (processor_id \<noteq> 0) envelope r
        })"

section \<open>The structure\<close>

text \<open>After \<^verbatim>\<open>memset\<close> and the assignments that both initialisations share; the parser of the text format is initialised.\<close>

definition fresh_receiver :: "input_msg_envelope_t queue_t \<Rightarrow> input_msg_envelope_t queue_t option \<Rightarrow> int \<Rightarrow> u16 \<Rightarrow> udp_receiver_t \<Rightarrow> udp_receiver_t option" where
  "fresh_receiver q0 q1 num port r = do {
     parser \<leftarrow> message_parser_init (ur_csv_parser r);
     Some (r\<lparr>ur_output_queue_0 := q0, ur_output_queue_1 := q1, ur_num_output_queues := num, ur_port := port, ur_sockfd := -1,
       ur_clients := client_map_init (ur_clients r), ur_last_recv_addr := \<lparr>sin_addr = 0, sin_port = 0\<rparr>, ur_last_recv_len := 0,
       ur_last_client_addr := \<lparr>ua_addr = 0, ua_port = 0, ua_pad = 0\<rparr>, ur_last_client_id := 0, ur_running := False, ur_started := False,
       ur_packets_received := 0, ur_packets_sent := 0, ur_bytes_received := 0, ur_bytes_sent := 0, ur_messages_parsed := 0, ur_messages_dropped := 0,
       ur_send_errors := 0, ur_messages_to_processor := (0, 0), ur_sequence := 0, ur_csv_parser := parser\<rparr>)
   }"

definition udp_receiver_init :: "input_msg_envelope_t queue_t \<Rightarrow> u16 \<Rightarrow> udp_receiver_t \<Rightarrow> udp_receiver_t option" where
  "udp_receiver_init output_queue port r = fresh_receiver output_queue None 1 port r"

definition udp_receiver_init_dual :: "input_msg_envelope_t queue_t \<Rightarrow> input_msg_envelope_t queue_t \<Rightarrow> u16 \<Rightarrow> udp_receiver_t \<Rightarrow> udp_receiver_t option" where
  "udp_receiver_init_dual output_queue_0 output_queue_1 port r = fresh_receiver output_queue_0 (Some output_queue_1) 2 port r"

text \<open>What the calls return: the descriptor of \<^verbatim>\<open>socket\<close>, whether \<^verbatim>\<open>bind\<close> and \<^verbatim>\<open>pthread_create\<close> succeed.  A socket option that cannot be set is only reported.\<close>

record udp_calls =
  uk_socket :: int
  uk_bound :: bool
  uk_thread :: bool

definition udp_receiver_setup_socket :: "udp_calls \<Rightarrow> udp_receiver_t \<Rightarrow> (bool \<times> udp_receiver_t) option" where
  "udp_receiver_setup_socket calls r = do {
     assert_that (ur_sockfd r = -1);
     let r1 = r\<lparr>ur_sockfd := uk_socket calls\<rparr>;
     if ur_sockfd r1 < 0 then Some (False, r1)
     else if \<not> uk_bound calls then Some (False, r1\<lparr>ur_sockfd := -1\<rparr>)
     else Some (True, r1)
   }"

definition udp_receiver_start :: "udp_calls \<Rightarrow> udp_receiver_t \<Rightarrow> (bool \<times> udp_receiver_t) option" where
  "udp_receiver_start calls r =
     (if ur_started r then Some (False, r)
      else do {
        let r1 = r\<lparr>ur_started := True\<rparr>;
        (ok, r2) \<leftarrow> udp_receiver_setup_socket calls r1;
        if \<not> ok then Some (False, r2\<lparr>ur_started := False\<rparr>)
        else let r3 = r2\<lparr>ur_running := True\<rparr> in
          if \<not> uk_thread calls then Some (False, r3\<lparr>ur_running := False, ur_started := False, ur_sockfd := -1\<rparr>)
          else Some (True, r3)
      })"

definition udp_receiver_stop :: "udp_receiver_t \<Rightarrow> udp_receiver_t" where
  "udp_receiver_stop r = (if \<not> ur_started r then r else r\<lparr>ur_running := False, ur_started := False\<rparr>)"

definition udp_receiver_destroy :: "udp_receiver_t \<Rightarrow> udp_receiver_t" where
  "udp_receiver_destroy r = (let r1 = udp_receiver_stop r in if ur_sockfd r1 \<ge> 0 then r1\<lparr>ur_sockfd := -1\<rparr> else r1)"

definition udp_receiver_reset_stats :: "udp_receiver_t \<Rightarrow> udp_receiver_t" where
  "udp_receiver_reset_stats r = r\<lparr>ur_packets_received := 0, ur_packets_sent := 0, ur_bytes_received := 0, ur_bytes_sent := 0,
     ur_messages_parsed := 0, ur_messages_dropped := 0, ur_send_errors := 0, ur_messages_to_processor := (0, 0)\<rparr>"

section \<open>Sending\<close>

text \<open>The argument \<open>sendto\<close> is the call: what it returns for an address and the bytes.\<close>

definition udp_transmit :: "(sockaddr_in \<Rightarrow> u8 list \<Rightarrow> int) \<Rightarrow> sockaddr_in \<Rightarrow> u8 list \<Rightarrow> udp_receiver_t \<Rightarrow> bool \<times> udp_receiver_t" where
  "udp_transmit sendto to data r =
     (let sent = sendto to data in
      if sent < 0 then (False, r\<lparr>ur_send_errors := ur_send_errors r + 1\<rparr>)
      else (True, r\<lparr>ur_packets_sent := ur_packets_sent r + 1, ur_bytes_sent := ur_bytes_sent r + of_int sent, ur_wire := ur_wire r @ [(to, data)]\<rparr>))"

definition udp_receiver_send_to_addr :: "(sockaddr_in \<Rightarrow> u8 list \<Rightarrow> int) \<Rightarrow> udp_client_addr_t \<Rightarrow> u8 list \<Rightarrow> udp_receiver_t \<Rightarrow> bool \<times> udp_receiver_t" where
  "udp_receiver_send_to_addr sendto addr data r =
     (if ur_sockfd r < 0 then (False, r)
      else udp_transmit sendto \<lparr>sin_addr = ua_addr addr, sin_port = ua_port addr\<rparr> data r)"

definition udp_receiver_send :: "(sockaddr_in \<Rightarrow> u8 list \<Rightarrow> int) \<Rightarrow> u32 \<Rightarrow> u8 list \<Rightarrow> udp_receiver_t \<Rightarrow> bool \<times> udp_receiver_t" where
  "udp_receiver_send sendto client_id data r =
     (if \<not> client_id_is_udp client_id then (False, r)
      else case client_map_find_addr (ur_clients r) client_id of
        None \<Rightarrow> (False, r\<lparr>ur_send_errors := ur_send_errors r + 1\<rparr>)
      | Some addr \<Rightarrow> udp_receiver_send_to_addr sendto addr data r)"

definition udp_receiver_send_to_last :: "(sockaddr_in \<Rightarrow> u8 list \<Rightarrow> int) \<Rightarrow> u8 list \<Rightarrow> udp_receiver_t \<Rightarrow> bool \<times> udp_receiver_t" where
  "udp_receiver_send_to_last sendto data r =
     (if ur_last_recv_len r = 0 \<or> ur_sockfd r < 0 then (False, r)
      else udp_transmit sendto (ur_last_recv_addr r) data r)"

definition udp_receiver_get_client_protocol :: "udp_receiver_t \<Rightarrow> u32 \<Rightarrow> client_protocol_t" where
  "udp_receiver_get_client_protocol r client_id = client_map_get_protocol (ur_clients r) client_id"

definition udp_receiver_get_or_create_client :: "udp_client_addr_t \<Rightarrow> int \<Rightarrow> udp_receiver_t \<Rightarrow> u32 \<times> udp_receiver_t" where
  "udp_receiver_get_or_create_client addr now r =
     (let (client_id, clients) = client_map_get_or_create addr now (ur_clients r) in (client_id, r\<lparr>ur_clients := clients\<rparr>))"

definition udp_receiver_find_client_addr :: "udp_receiver_t \<Rightarrow> u32 \<Rightarrow> udp_client_addr_t option" where
  "udp_receiver_find_client_addr r client_id = client_map_find_addr (ur_clients r) client_id"

definition udp_receiver_get_client_count :: "udp_receiver_t \<Rightarrow> u32" where
  "udp_receiver_get_client_count r = um_count (ur_clients r)"

section \<open>A datagram\<close>

definition get_binary_message_size :: "u8 \<Rightarrow> nat" where
  "get_binary_message_size msg_type =
     (if msg_type = BINARY_MSG_NEW_ORDER then 27 else if msg_type = BINARY_MSG_CANCEL then 10 else if msg_type = BINARY_MSG_FLUSH then 2 else 0)"

text \<open>The end of both branches: a parsed message is numbered, wrapped and routed.\<close>

definition submit :: "(nat \<Rightarrow> udp_receiver_t \<Rightarrow> udp_receiver_t) \<Rightarrow> u32 \<Rightarrow> udp_client_addr_t \<Rightarrow> input_msg_t option \<Rightarrow> udp_receiver_t \<Rightarrow> udp_receiver_t option" where
  "submit yield client_id client_addr parsed r =
     (case parsed of
        None \<Rightarrow> Some r
      | Some msg \<Rightarrow> do {
          let seq = ur_sequence r;
          let r1 = r\<lparr>ur_sequence := ur_sequence r + 1\<rparr>;
          envelope \<leftarrow> create_input_envelope_udp msg client_id client_addr seq;
          (ok, r2) \<leftarrow> route_message yield envelope msg r1;
          Some (if ok then r2\<lparr>ur_messages_parsed := ur_messages_parsed r2 + 1\<rparr> else r2\<lparr>ur_messages_dropped := ur_messages_dropped r2 + 1\<rparr>)
        })"

definition note_client_protocol :: "udp_client_addr_t \<Rightarrow> client_protocol_t \<Rightarrow> udp_receiver_t \<Rightarrow> udp_receiver_t" where
  "note_client_protocol addr q r = r\<lparr>ur_clients := client_map_set_protocol addr q (ur_clients r)\<rparr>"

abbreviation is_eol :: "u8 \<Rightarrow> bool" where "is_eol b \<equiv> b = 10 \<or> b = 13"

text \<open>The number of bytes consumed.\<close>

definition parse_and_route_message ::
  "(nat \<Rightarrow> udp_receiver_t \<Rightarrow> udp_receiver_t) \<Rightarrow> u8 list \<Rightarrow> u32 \<Rightarrow> udp_client_addr_t \<Rightarrow> udp_receiver_t \<Rightarrow> (nat \<times> udp_receiver_t) option" where
  "parse_and_route_message yield data client_id client_addr r =
     (let remaining = length data in
      if remaining = 0 then Some (0, r)
      else if remaining \<ge> 2 \<and> data ! 0 = BINARY_MAGIC then
        (let msg_size = get_binary_message_size (data ! 1) in
         if msg_size = 0 then Some (1, r)
         else if remaining < msg_size then Some (0, r)
         else do {
           let r1 = note_client_protocol client_addr CLIENT_PROTOCOL_BINARY r;
           parsed \<leftarrow> binary_message_parser_parse (take msg_size data);
           r2 \<leftarrow> submit yield client_id client_addr parsed r1;
           Some (msg_size, r2)
         })
      else do {
        let r1 = note_client_protocol client_addr CLIENT_PROTOCOL_CSV r;
        let line_len = length (takeWhile (\<lambda>b. \<not> is_eol b) data);
        (consumed, r2) \<leftarrow>
          (if line_len > 0 \<and> line_len < MAX_INPUT_LINE_LENGTH then do {
             (parsed, parser) \<leftarrow> message_parser_parse (ur_csv_parser r1) (takeWhile (\<lambda>c. c \<noteq> CHR 0x00) (map byte_char (take line_len data)));
             r2 \<leftarrow> submit yield client_id client_addr parsed (r1\<lparr>ur_csv_parser := parser\<rparr>);
             Some (line_len, r2)
           } else Some (0, r1));
        let consumed' = consumed + length (takeWhile is_eol (drop consumed data));
        Some (if consumed' > 0 then consumed' else 1, r2)
      })"

function datagram_loop :: "(nat \<Rightarrow> udp_receiver_t \<Rightarrow> udp_receiver_t) \<Rightarrow> u8 list \<Rightarrow> u32 \<Rightarrow> udp_client_addr_t \<Rightarrow> udp_receiver_t \<Rightarrow> udp_receiver_t option" where
  "datagram_loop yield data client_id client_addr r =
     (if length data = 0 then Some r
      else do {
        (consumed, r1) \<leftarrow> parse_and_route_message yield data client_id client_addr r;
        if consumed = 0 then Some r1 else datagram_loop yield (drop consumed data) client_id client_addr r1
      })"
  by pat_completeness auto
termination
  by (relation "measure (\<lambda>(yield, data, client_id, client_addr, r). length data)") auto

declare datagram_loop.simps [simp del]

section \<open>The thread\<close>

text \<open>What \<^verbatim>\<open>recvfrom\<close> returns: nothing yet or an error, which are treated alike, or a datagram with its sender.\<close>

datatype udp_recv = Udp_nothing | Udp_datagram sockaddr_in "u8 list"

definition udp_receive :: "(nat \<Rightarrow> udp_receiver_t \<Rightarrow> udp_receiver_t) \<Rightarrow> int \<Rightarrow> udp_recv \<Rightarrow> udp_receiver_t \<Rightarrow> udp_receiver_t option" where
  "udp_receive yield now received r =
     (case received of
        Udp_nothing \<Rightarrow> Some r
      | Udp_datagram from data \<Rightarrow>
          if length data = 0 then Some r
          else
            let r1 = r\<lparr>ur_packets_received := ur_packets_received r + 1, ur_bytes_received := ur_bytes_received r + of_nat (length data)\<rparr>;
                compact_addr = \<lparr>ua_addr = sin_addr from, ua_port = sin_port from, ua_pad = 0\<rparr>;
                (client_id, clients) = client_map_get_or_create compact_addr now (ur_clients r1);
                r2 = r1\<lparr>ur_clients := clients, ur_last_recv_addr := from, ur_last_recv_len := 16,
                        ur_last_client_addr := compact_addr, ur_last_client_id := client_id\<rparr>
            in datagram_loop yield data client_id compact_addr r2)"

fun udp_receiver_thread_func :: "(nat \<Rightarrow> udp_receiver_t \<Rightarrow> udp_receiver_t) \<Rightarrow> (int \<times> udp_recv) list \<Rightarrow> udp_receiver_t \<Rightarrow> udp_receiver_t option" where
  "udp_receiver_thread_func yield [] r = Some r"
| "udp_receiver_thread_func yield ((now, received) # rest) r =
     (if \<not> ur_running r then Some r
      else do {
        r1 \<leftarrow> udp_receive yield now received r;
        udp_receiver_thread_func yield rest r1
      })"

end
