(* ===== verification/ME_Udp_Requests.thy ===== *)
theory ME_Udp_Requests
  imports ME_Udp_Receiver ME_Tcp_Input
begin

text \<open>
  The input side of the UDP mode at work: where a message goes and when it is dropped, what an arbitrary datagram does, and that the requests in a datagram arrive in the
  queues of their processors, in order and under the identifier of their sender.
\<close>

section \<open>The queues\<close>

definition arrivals :: "udp_receiver_t \<Rightarrow> bool \<Rightarrow> input_msg_envelope_t list" where
  "arrivals r second = (if second then (case ur_output_queue_1 r of None \<Rightarrow> [] | Some q \<Rightarrow> contents q) else contents (ur_output_queue_0 r))"

definition two_queues :: "udp_receiver_t \<Rightarrow> bool" where
  "two_queues r \<longleftrightarrow> ur_num_output_queues r \<noteq> 1"

definition udp_queues_ok :: "udp_receiver_t \<Rightarrow> bool" where
  "udp_queues_ok r \<longleftrightarrow> queue_ok (ur_output_queue_0 r) \<and> second_ok (\<not> two_queues r) (ur_output_queue_1 r)"

definition receiver_ok :: "udp_receiver_t \<Rightarrow> bool" where
  "receiver_ok r \<longleftrightarrow> udp_queues_ok r \<and> clients_ok (ur_clients r) \<and> ids_ok (ur_clients r)"

text \<open>What the other threads may do while the receiver yields: the processors take messages from the queues.\<close>

definition only_taken :: "udp_receiver_t \<Rightarrow> udp_receiver_t \<Rightarrow> bool" where
  "only_taken r r' \<longleftrightarrow> (\<exists>q0 q1. r' = r\<lparr>ur_output_queue_0 := q0, ur_output_queue_1 := q1\<rparr>) \<and> udp_queues_ok r' \<and> (\<forall>k. \<exists>n. arrivals r' k = drop n (arrivals r k))"

definition yields_ok :: "(nat \<Rightarrow> udp_receiver_t \<Rightarrow> udp_receiver_t) \<Rightarrow> bool" where
  "yields_ok yield \<longleftrightarrow> (\<forall>n r. udp_queues_ok r \<longrightarrow> only_taken r (yield n r))"

text \<open>Nothing but the queues and the counts of routed messages differs.\<close>

definition routed_only :: "udp_receiver_t \<Rightarrow> udp_receiver_t \<Rightarrow> bool" where
  "routed_only r r' \<longleftrightarrow> (\<exists>q0 q1 n. r' = r\<lparr>ur_output_queue_0 := q0, ur_output_queue_1 := q1, ur_messages_to_processor := n\<rparr>)"

lemma routed_onlyI:
  "r' = r\<lparr>ur_output_queue_0 := ur_output_queue_0 r', ur_output_queue_1 := ur_output_queue_1 r', ur_messages_to_processor := ur_messages_to_processor r'\<rparr> \<Longrightarrow> routed_only r r'"
  unfolding routed_only_def by blast

lemma routed_only_refl [simp]: "routed_only r r"
  by (rule routed_onlyI) simp

lemma routed_only_trans: "routed_only a b \<Longrightarrow> routed_only b c \<Longrightarrow> routed_only a c"
  unfolding routed_only_def by (elim exE, simp del: split_paired_Ex, blast)

lemma routed_only_same:
  assumes "routed_only r r'"
  shows "ur_clients r' = ur_clients r" "ur_num_output_queues r' = ur_num_output_queues r" "ur_sequence r' = ur_sequence r" "ur_csv_parser r' = ur_csv_parser r"
    "two_queues r' = two_queues r" "ur_wire r' = ur_wire r" "ur_sockfd r' = ur_sockfd r" "ur_running r' = ur_running r"
  using assms by (auto simp: routed_only_def two_queues_def)

lemma only_taken_routed: "only_taken r r' \<Longrightarrow> routed_only r r'"
  unfolding only_taken_def by (auto intro!: routed_onlyI)

lemma count_routed_simps [simp]:
  "arrivals (count_routed b r) = arrivals r" "udp_queues_ok (count_routed b r) = udp_queues_ok r" "two_queues (count_routed b r) = two_queues r" "routed_only r (count_routed b r)"
  by (simp_all add: count_routed_def arrivals_def udp_queues_ok_def two_queues_def fun_eq_iff routed_onlyI)

lemma enqueue_for_ok:
  assumes ok: "udp_queues_ok r" and d: "second \<longrightarrow> two_queues r"
  obtains r' where "enqueue_for second e r = Some (length (arrivals r second) < LOCKFREE_QUEUE_SIZE - 1, r')" "udp_queues_ok r'" "routed_only r r'"
    "arrivals r' = (arrivals r)(second := put e (arrivals r second))"
proof (cases second)
  case False
  obtain b q where e: "queue_enqueue (ur_output_queue_0 r) e = (b, q)" by fastforce
  have "queue_ok (ur_output_queue_0 r)" using ok by (simp add: udp_queues_ok_def)
  note q = queue_enqueue_ok [OF this e] enqueue_put [OF this, of e, unfolded e]
  show thesis
    by (rule that [of "r\<lparr>ur_output_queue_0 := q\<rparr>"])
      (use False e q ok in \<open>simp_all add: enqueue_for_def arrivals_def udp_queues_ok_def two_queues_def fun_eq_iff routed_onlyI\<close>)
next
  case True
  with assms obtain q1 where q1: "ur_output_queue_1 r = Some q1" "queue_ok q1"
    by (auto simp: udp_queues_ok_def second_ok_def split: option.splits)
  obtain b q where e: "queue_enqueue q1 e = (b, q)" by fastforce
  note q = queue_enqueue_ok [OF q1(2) e] enqueue_put [OF q1(2), of e, unfolded e]
  show thesis
    by (rule that [of "r\<lparr>ur_output_queue_1 := Some q\<rparr>"])
      (use True e q q1 ok in \<open>simp_all add: enqueue_for_def arrivals_def udp_queues_ok_def two_queues_def fun_eq_iff routed_onlyI\<close>)
qed

section \<open>Routing\<close>

text \<open>With room in the queue the first attempt succeeds.\<close>

lemma route_retry_room:
  assumes ok: "udp_queues_ok r" "second \<longrightarrow> two_queues r" and room: "length (arrivals r second) < LOCKFREE_QUEUE_SIZE - 1" and n: "0 < n"
  obtains r' where "route_retry yield n second e r = Some (True, r')" "udp_queues_ok r'" "routed_only r r'"
    "arrivals r' = (arrivals r)(second := arrivals r second @ [e])"
proof -
  from n obtain n' where n': "n = Suc n'" by (cases n) auto
  from ok obtain r1 where r1: "enqueue_for second e r = Some (length (arrivals r second) < LOCKFREE_QUEUE_SIZE - 1, r1)" "udp_queues_ok r1" "routed_only r r1"
    "arrivals r1 = (arrivals r)(second := put e (arrivals r second))" by (rule enqueue_for_ok)
  with room n' routed_only_trans [OF r1(3)] show thesis
    by (intro that [of "count_routed second r1"]) (simp_all add: put_def)
qed

text \<open>
  Whatever the other threads take meanwhile, the message is appended once or not at all; it is not dropped if the processor takes a message during one of the yields before
  the last attempt.
\<close>

lemma route_retry_ok:
  assumes y: "yields_ok yield" and ok: "udp_queues_ok r" "second \<longrightarrow> two_queues r"
  obtains b r' where "route_retry yield n second e r = Some (b, r')" "udp_queues_ok r'" "routed_only r r'"
    "\<forall>k. \<exists>j. arrivals r' k = drop j (arrivals r k) @ (if b \<and> k = second then [e] else [])"
  using ok
proof (induction n arbitrary: r thesis)
  case 0
  show ?case by (rule "0.prems"(1) [of False r]) (use "0.prems"(2,3) in \<open>auto intro: exI [of _ 0]\<close>)
next
  case (Suc n)
  from Suc.prems(2,3) obtain r1 where r1: "enqueue_for second e r = Some (length (arrivals r second) < LOCKFREE_QUEUE_SIZE - 1, r1)" "udp_queues_ok r1" "routed_only r r1"
    "arrivals r1 = (arrivals r)(second := put e (arrivals r second))" by (rule enqueue_for_ok)
  show ?case
  proof (cases "length (arrivals r second) < LOCKFREE_QUEUE_SIZE - 1")
    case True
    with r1 routed_only_trans [OF r1(3)] show ?thesis
      by (intro Suc.prems(1) [of True "count_routed second r1"]) (auto simp: put_def intro: exI [of _ 0])
  next
    case False
    have same: "arrivals r1 = arrivals r" using False by (auto simp: r1(4) put_def)
    have t: "only_taken r1 (yield n r1)" using y r1(2) by (simp add: yields_ok_def)
    then have q: "udp_queues_ok (yield n r1)" "second \<longrightarrow> two_queues (yield n r1)"
      using Suc.prems(3) routed_only_same(5) [OF r1(3)] routed_only_same(5) [OF only_taken_routed [OF t]] by (simp_all add: only_taken_def)
    from Suc.IH [OF _ q] obtain b r' where r': "route_retry yield n second e (yield n r1) = Some (b, r')" "udp_queues_ok r'" "routed_only (yield n r1) r'"
      "\<forall>k. \<exists>j. arrivals r' k = drop j (arrivals (yield n r1) k) @ (if b \<and> k = second then [e] else [])" by blast
    have "\<forall>k. \<exists>j. arrivals r' k = drop j (arrivals r k) @ (if b \<and> k = second then [e] else [])"
      using r'(4) t unfolding only_taken_def same by (metis drop_drop)
    with False r1(1) r' routed_only_trans [OF routed_only_trans [OF r1(3) only_taken_routed [OF t]] r'(3)] show ?thesis
      by (intro Suc.prems(1) [of b r']) simp_all
  qed
qed

definition makes_room :: "(nat \<Rightarrow> udp_receiver_t \<Rightarrow> udp_receiver_t) \<Rightarrow> nat \<Rightarrow> bool \<Rightarrow> bool" where
  "makes_room yield n second \<longleftrightarrow> (\<forall>r. udp_queues_ok r \<longrightarrow> length (arrivals (yield n r) second) < LOCKFREE_QUEUE_SIZE - 1)"

lemma route_retry_served:
  assumes y: "yields_ok yield" and ok: "udp_queues_ok r" "second \<longrightarrow> two_queues r" and m: "0 < m" "m < n" "makes_room yield m second"
  shows "\<exists>r'. route_retry yield n second e r = Some (True, r')"
  using ok m(2)
proof (induction n arbitrary: r)
  case (Suc n)
  from Suc.prems(1,2) obtain r1 where r1: "enqueue_for second e r = Some (length (arrivals r second) < LOCKFREE_QUEUE_SIZE - 1, r1)" "udp_queues_ok r1" "routed_only r r1"
    by (rule enqueue_for_ok)
  have t: "only_taken r1 (yield n r1)" using y r1(2) by (simp add: yields_ok_def)
  then have q: "udp_queues_ok (yield n r1)" "second \<longrightarrow> two_queues (yield n r1)"
    using Suc.prems(2) routed_only_same(5) [OF r1(3)] routed_only_same(5) [OF only_taken_routed [OF t]] by (simp_all add: only_taken_def)
  have "\<exists>r'. route_retry yield n second e (yield n r1) = Some (True, r')"
  proof (cases "m = n")
    case True
    then have "length (arrivals (yield n r1) second) < LOCKFREE_QUEUE_SIZE - 1" "0 < n" using m(1,3) r1(2) by (simp_all add: makes_room_def)
    with q show ?thesis by (metis route_retry_room)
  next
    case False
    with Suc.IH [OF q] Suc.prems(3) show ?thesis by simp
  qed
  then show ?case using r1(1) by simp
qed simp

lemma udp_symbol_same: "udp_symbol_from_input_msg = get_symbol_from_input_msg"
  by (simp add: fun_eq_iff udp_symbol_from_input_msg_def get_symbol_from_input_msg_def)

text \<open>The three ways a message can go.\<close>

lemma route_message_cases:
  obtains (one) k where "route_message yield e m r = route_retry yield MAX_ROUTE_RETRIES k e r" "\<And>j. goes_to (two_queues r) m j \<longleftrightarrow> j = k" "k \<longrightarrow> two_queues r"
  | (both) "route_message yield e m r = Option.bind (route_retry yield MAX_ROUTE_RETRIES False e r) (\<lambda>(b0, r1).
        Option.bind (route_retry yield MAX_ROUTE_RETRIES True e r1) (\<lambda>(b1, r2). Some (b0 \<and> b1, r2)))" "\<And>j. goes_to (two_queues r) m j" "two_queues r"
proof (cases "two_queues r")
  case False
  then show thesis by (intro one [of False]) (simp_all add: route_message_def two_queues_def goes_to_def)
next
  case True
  show thesis
  proof (cases "case get_symbol_from_input_msg m of None \<Rightarrow> True | Some s \<Rightarrow> \<not> letter (first_char s)")
    case all: True
    then show thesis using True symbol_choice [of m]
      by (intro both) (auto simp: route_message_def two_queues_def udp_symbol_same goes_to_def split: option.splits)
  next
    case False
    then obtain s where s: "get_symbol_from_input_msg m = Some s" "letter (first_char s)" by (auto split: option.splits)
    have p: "get_processor_id_for_symbol (Some s) = Some (if n_to_z (first_char s) then 1 else 0)" by (simp add: get_processor_id_for_symbol_char get_processor_id_for_char_eq)
    show thesis
      by (rule one [of "n_to_z (first_char s)"])
        (use True False symbol_choice [of m] s p in \<open>auto simp: route_message_def two_queues_def udp_symbol_same goes_to_def\<close>)
  qed
qed

lemma route_message_room:
  assumes ok: "udp_queues_ok r" and room: "\<forall>k. length (arrivals r k) < LOCKFREE_QUEUE_SIZE - 1"
  obtains r' where "route_message yield e m r = Some (True, r')" "udp_queues_ok r'" "routed_only r r'"
    "arrivals r' = (\<lambda>k. arrivals r k @ (if goes_to (two_queues r) m k then [e] else []))"
proof (cases rule: route_message_cases [of yield e m r])
  case (one k)
  from ok one(3) room [rule_format, of k] obtain r' where "route_retry yield MAX_ROUTE_RETRIES k e r = Some (True, r')" "udp_queues_ok r'" "routed_only r r'"
    "arrivals r' = (arrivals r)(k := arrivals r k @ [e])" by (rule route_retry_room [where n = MAX_ROUTE_RETRIES and yield = yield and e = e]) simp
  with one show thesis by (intro that [of r']) (simp_all add: fun_eq_iff)
next
  case both
  from ok _ room [rule_format, of False] obtain r1 where r1: "route_retry yield MAX_ROUTE_RETRIES False e r = Some (True, r1)" "udp_queues_ok r1" "routed_only r r1"
    "arrivals r1 = (arrivals r)(False := arrivals r False @ [e])" by (rule route_retry_room [where n = MAX_ROUTE_RETRIES and yield = yield and e = e]) simp_all
  have "True \<longrightarrow> two_queues r1" "length (arrivals r1 True) < LOCKFREE_QUEUE_SIZE - 1" using both(3) routed_only_same(5) [OF r1(3)] room r1(4) by simp_all
  from r1(2) this obtain r2 where "route_retry yield MAX_ROUTE_RETRIES True e r1 = Some (True, r2)" "udp_queues_ok r2" "routed_only r1 r2"
    "arrivals r2 = (arrivals r1)(True := arrivals r1 True @ [e])" by (rule route_retry_room [where n = MAX_ROUTE_RETRIES and yield = yield and e = e]) simp
  with both r1 routed_only_trans [OF r1(3)] show thesis by (intro that [of r2]) (simp_all add: fun_eq_iff)
qed

lemma route_message_ok:
  assumes y: "yields_ok yield" and ok: "udp_queues_ok r"
  obtains b r' where "route_message yield e m r = Some (b, r')" "udp_queues_ok r'" "routed_only r r'"
    "\<forall>k. \<exists>j new. arrivals r' k = drop j (arrivals r k) @ new \<and> set new \<subseteq> {e} \<and> (new \<noteq> [] \<longrightarrow> goes_to (two_queues r) m k)"
proof (cases rule: route_message_cases [of yield e m r])
  case (one k)
  from y ok one(3) obtain b r' where r: "route_retry yield MAX_ROUTE_RETRIES k e r = Some (b, r')" "udp_queues_ok r'" "routed_only r r'"
    "\<forall>k'. \<exists>j. arrivals r' k' = drop j (arrivals r k') @ (if b \<and> k' = k then [e] else [])" by (rule route_retry_ok)
  have "\<exists>j new. arrivals r' i = drop j (arrivals r i) @ new \<and> set new \<subseteq> {e} \<and> (new \<noteq> [] \<longrightarrow> goes_to (two_queues r) m i)" for i
  proof -
    from r(4) obtain j where "arrivals r' i = drop j (arrivals r i) @ (if b \<and> i = k then [e] else [])" by blast
    then show ?thesis using one(2) by (intro exI [of _ j] exI [of _ "if b \<and> i = k then [e] else []"]) auto
  qed
  with one(1) r(1-3) show thesis by (intro that [of b r']) simp_all
next
  case both
  from y ok obtain b0 r1 where r1: "route_retry yield MAX_ROUTE_RETRIES False e r = Some (b0, r1)" "udp_queues_ok r1" "routed_only r r1"
    "\<forall>k'. \<exists>j. arrivals r1 k' = drop j (arrivals r k') @ (if b0 \<and> k' = False then [e] else [])" by (rule route_retry_ok [where second = False]) simp
  have "True \<longrightarrow> two_queues r1" using both(3) routed_only_same(5) [OF r1(3)] by simp
  with y r1(2) obtain b1 r2 where r2: "route_retry yield MAX_ROUTE_RETRIES True e r1 = Some (b1, r2)" "udp_queues_ok r2" "routed_only r1 r2"
    "\<forall>k'. \<exists>j. arrivals r2 k' = drop j (arrivals r1 k') @ (if b1 \<and> k' = True then [e] else [])" by (rule route_retry_ok [where second = True]) blast
  have "\<exists>j new. arrivals r2 i = drop j (arrivals r i) @ new \<and> set new \<subseteq> {e} \<and> (new \<noteq> [] \<longrightarrow> goes_to (two_queues r) m i)" for i
  proof -
    from r1(4) obtain j1 where 1: "arrivals r1 i = drop j1 (arrivals r i) @ (if b0 \<and> i = False then [e] else [])" by blast
    from r2(4) obtain j2 where "arrivals r2 i = drop j2 (arrivals r1 i) @ (if b1 \<and> i = True then [e] else [])" by blast
    then have "arrivals r2 i = drop (j1 + j2) (arrivals r i) @ drop (j2 - (length (arrivals r i) - j1)) (if b0 \<and> i = False then [e] else []) @ (if b1 \<and> i = True then [e] else [])"
      using 1 by (simp add: add.commute)
    moreover have "set (drop (j2 - (length (arrivals r i) - j1)) (if b0 \<and> i = False then [e] else []) @ (if b1 \<and> i = True then [e] else [])) \<subseteq> {e}"
      by (auto split: if_splits dest: in_set_dropD)
    ultimately show ?thesis using both(2) by blast
  qed
  with both(1) r1(1) r2(1-3) routed_only_trans [OF r1(3)] show thesis by (intro that [of "b0 \<and> b1" r2]) simp_all
qed

section \<open>Requests of a client\<close>

definition udp_envelope :: "u32 \<Rightarrow> udp_client_addr_t \<Rightarrow> u64 \<Rightarrow> input_msg_t \<Rightarrow> input_msg_envelope_t" where
  "udp_envelope c addr n m = \<lparr>ie_msg = m, ie_client_id = c, ie_client_addr = addr, ie_sequence = n\<rparr>"

fun udp_envelopes :: "u32 \<Rightarrow> udp_client_addr_t \<Rightarrow> u64 \<Rightarrow> input_msg_t list \<Rightarrow> input_msg_envelope_t list" where
  "udp_envelopes c addr n [] = []"
| "udp_envelopes c addr n (m # ms) = udp_envelope c addr n m # udp_envelopes c addr (n + 1) ms"

lemma udp_envelope_simps [simp]: "ie_msg (udp_envelope c addr n m) = m" "ie_client_id (udp_envelope c addr n m) = c" "ie_client_addr (udp_envelope c addr n m) = addr"
  by (simp_all add: udp_envelope_def)

lemma length_udp_envelopes [simp]: "length (udp_envelopes c addr n ms) = length ms"
  by (induction ms arbitrary: n) auto

lemma udp_envelopes_msgs: "map ie_msg (udp_envelopes c addr n ms) = ms" "e \<in> set (udp_envelopes c addr n ms) \<Longrightarrow> ie_client_id e = c \<and> ie_client_addr e = addr"
  by (induction ms arbitrary: n) auto

text \<open>What the arrival of requests leaves as it was.\<close>

definition same_socket :: "udp_receiver_t \<Rightarrow> udp_receiver_t \<Rightarrow> bool" where
  "same_socket r r' \<longleftrightarrow> ur_sockfd r' = ur_sockfd r \<and> ur_wire r' = ur_wire r \<and> ur_num_output_queues r' = ur_num_output_queues r \<and> ur_running r' = ur_running r
     \<and> ur_started r' = ur_started r"

lemma same_socket_refl [simp]: "same_socket r r"
  by (simp add: same_socket_def)

lemma same_socket_trans: "same_socket a b \<Longrightarrow> same_socket b c \<Longrightarrow> same_socket a c"
  by (simp add: same_socket_def)

lemma same_socket_two: "same_socket r r' \<Longrightarrow> two_queues r' = two_queues r"
  by (simp add: same_socket_def two_queues_def)

lemma routed_only_socket: "routed_only r r' \<Longrightarrow> same_socket r r'"
  by (auto simp: routed_only_def same_socket_def)

lemma receiver_simps [simp]:
  "arrivals (r\<lparr>ur_sequence := s\<rparr>) = arrivals r" "arrivals (r\<lparr>ur_messages_parsed := n\<rparr>) = arrivals r" "arrivals (r\<lparr>ur_messages_dropped := n\<rparr>) = arrivals r"
  "arrivals (r\<lparr>ur_csv_parser := p\<rparr>) = arrivals r" "arrivals (r\<lparr>ur_clients := m\<rparr>) = arrivals r"
  "udp_queues_ok (r\<lparr>ur_sequence := s\<rparr>) = udp_queues_ok r" "udp_queues_ok (r\<lparr>ur_messages_parsed := n\<rparr>) = udp_queues_ok r" "udp_queues_ok (r\<lparr>ur_messages_dropped := n\<rparr>) = udp_queues_ok r"
  "udp_queues_ok (r\<lparr>ur_csv_parser := p\<rparr>) = udp_queues_ok r" "udp_queues_ok (r\<lparr>ur_clients := m\<rparr>) = udp_queues_ok r"
  "two_queues (r\<lparr>ur_sequence := s\<rparr>) = two_queues r" "two_queues (r\<lparr>ur_csv_parser := p\<rparr>) = two_queues r" "two_queues (r\<lparr>ur_clients := m\<rparr>) = two_queues r"
  by (simp_all add: arrivals_def udp_queues_ok_def two_queues_def fun_eq_iff)

lemma note_client_protocol_simps [simp]:
  "arrivals (note_client_protocol addr q r) = arrivals r" "udp_queues_ok (note_client_protocol addr q r) = udp_queues_ok r" "same_socket r (note_client_protocol addr q r)"
  "ur_csv_parser (note_client_protocol addr q r) = ur_csv_parser r" "ur_sequence (note_client_protocol addr q r) = ur_sequence r"
  "ur_clients (note_client_protocol addr q r) = client_map_set_protocol addr q (ur_clients r)" "two_queues (note_client_protocol addr q r) = two_queues r"
  by (simp_all add: note_client_protocol_def same_socket_def)

lemma submit_room:
  assumes ok: "udp_queues_ok r" and room: "\<forall>k. length (arrivals r k) < LOCKFREE_QUEUE_SIZE - 1" and v: "input_msg_type_is_valid (input_msg_type m)"
  obtains r' where "submit yield c addr (Some m) r = Some r'" "udp_queues_ok r'" "same_socket r r'" "ur_clients r' = ur_clients r" "ur_csv_parser r' = ur_csv_parser r"
    "ur_sequence r' = ur_sequence r + 1" "arrivals r' = (\<lambda>k. arrivals r k @ (if goes_to (two_queues r) m k then [udp_envelope c addr (ur_sequence r) m] else []))"
proof -
  let ?r = "r\<lparr>ur_sequence := ur_sequence r + 1\<rparr>" and ?e = "udp_envelope c addr (ur_sequence r) m"
  have e: "create_input_envelope_udp m c addr (ur_sequence r) = Some ?e" using v by (simp add: create_input_envelope_udp_def udp_envelope_def)
  have "udp_queues_ok ?r" "\<forall>k. length (arrivals ?r k) < LOCKFREE_QUEUE_SIZE - 1" using ok room by simp_all
  then obtain r2 where r2: "route_message yield ?e m ?r = Some (True, r2)" "udp_queues_ok r2" "routed_only ?r r2"
    "arrivals r2 = (\<lambda>k. arrivals ?r k @ (if goes_to (two_queues ?r) m k then [?e] else []))" by (rule route_message_room)
  note same = routed_only_same [OF r2(3)] routed_only_socket [OF r2(3)]
  show thesis
    by (rule that [of "r2\<lparr>ur_messages_parsed := ur_messages_parsed r2 + 1\<rparr>"])
      (use r2 same e in \<open>simp_all add: submit_def same_socket_def\<close>)
qed

text \<open>The bytes of a request in the encoding \<open>q\<close>.\<close>

definition udp_request_bytes :: "client_protocol_t \<Rightarrow> u8 list \<Rightarrow> input_msg_t \<Rightarrow> bool" where
  "udp_request_bytes q bs m \<longleftrightarrow> sendable m \<and> (if q = CLIENT_PROTOCOL_BINARY then carries bs m else q = CLIENT_PROTOCOL_CSV \<and> csv_request bs m)"

lemma sendable_valid: "sendable m \<Longrightarrow> input_msg_type_is_valid (input_msg_type m)"
  by (cases m) (simp_all add: sendable_def input_msg_type_is_valid_def)

lemma carries_size:
  assumes "carries bs m"
  shows "get_binary_message_size (bs ! 1) = length bs" and "0 < length bs"
  using assms carries_start [OF assms]
  by (auto simp: carries_def raw_size_def get_binary_message_size_def split: if_splits)

lemma request_start:
  assumes "udp_request_bytes q bs m"
  shows "bs \<noteq> []" "\<not> is_eol (hd bs)"
proof -
  have "bs \<noteq> [] \<and> (bs ! 0 = BINARY_MAGIC \<or> csv_start (bs ! 0))"
  proof (cases "q = CLIENT_PROTOCOL_BINARY")
    case True
    with assms have "carries bs m" by (simp add: udp_request_bytes_def)
    from carries_start [OF this] show ?thesis by simp
  next
    case False
    with assms have c: "csv_request bs m" "sendable m" by (simp_all add: udp_request_bytes_def split: if_splits)
    with request_fields_ok(3,4) [OF c(2)] show ?thesis
      by (cases "csv_line (request_fields m)") (simp_all add: csv_request_def)
  qed
  then show "bs \<noteq> []" "\<not> is_eol (hd bs)" by (auto simp: hd_conv_nth csv_start_def)
qed

text \<open>One request at the head of the datagram.\<close>

definition took_udp :: "u32 \<Rightarrow> udp_client_addr_t \<Rightarrow> client_protocol_t \<Rightarrow> input_msg_t list \<Rightarrow> udp_receiver_t \<Rightarrow> udp_receiver_t \<Rightarrow> bool" where
  "took_udp c addr q ms r r' \<longleftrightarrow> udp_queues_ok r' \<and> same_socket r r' \<and> same_registration (ur_clients r) (ur_clients r')
     \<and> protocol_of (ur_clients r') addr = (if ms = [] then id else map_option (\<lambda>p. if p = CLIENT_PROTOCOL_UNKNOWN then q else p)) (protocol_of (ur_clients r) addr)
     \<and> ur_sequence r' = ur_sequence r + of_nat (length ms)
     \<and> (\<forall>k. arrivals r' k = arrivals r k @ filter (\<lambda>e. goes_to (two_queues r) (ie_msg e) k) (udp_envelopes c addr (ur_sequence r) ms))"

lemma csv_request_chars:
  assumes "csv_request bs m" and "sendable m"
  obtains line where "bs = map of_char line @ [10]" "line \<noteq> []" "length line < 99" "takeWhile (\<lambda>b. \<not> is_eol b) (map of_char line @ 10 # rest) = map of_char line"
    "takeWhile (\<lambda>c. c \<noteq> CHR 0x00) line = line" "\<forall>p. \<exists>p'. message_parser_parse p line = Some (Some m, p')" "csv_start (of_char (hd line))"
proof -
  let ?l = "csv_line (request_fields m)"
  have ch: "\<forall>c\<in>set ?l. line_char c" using csv_line_chars [OF request_fields_ok(1) [OF assms(2)]] by blast
  have "\<not> is_eol (of_char c)" if "c \<in> set ?l" for c
  proof -
    have "line_char c" using ch that by blast
    moreover have "of_char newline = (10 :: u8)" "of_char (CHR 0x0D) = (13 :: u8)" by simp_all
    ultimately show ?thesis by (metis byte_char_of_char line_char_def)
  qed
  then have "takeWhile (\<lambda>b. \<not> is_eol b) (map of_char ?l @ 10 # rest) = map of_char ?l" by (subst takeWhile_append2) auto
  moreover have "takeWhile (\<lambda>c. c \<noteq> CHR 0x00) ?l = ?l" using ch by (simp add: takeWhile_eq_all_conv line_char_def)
  ultimately show thesis using assms(1) request_fields_ok(2,3,4) [OF assms(2)] by (intro that [of ?l]) (simp_all add: csv_request_def)
qed

lemma parse_and_route_request:
  assumes ok: "udp_queues_ok r" and room: "\<forall>k. length (arrivals r k) < LOCKFREE_QUEUE_SIZE - 1" and b: "udp_request_bytes q bs m"
    and rest: "rest = [] \<or> \<not> is_eol (hd rest)"
  obtains r' where "parse_and_route_message yield (bs @ rest) c addr r = Some (length bs, r')" "took_udp c addr q [m] r r'"
proof -
  let ?r = "note_client_protocol addr q r"
  have sd: "sendable m" using b by (simp add: udp_request_bytes_def)
  show thesis
  proof (cases "q = CLIENT_PROTOCOL_BINARY")
    case True
    with b have c: "carries bs m" by (simp add: udp_request_bytes_def)
    note z = carries_size [OF c] carries_start [OF c]
    have "udp_queues_ok ?r" "\<forall>k. length (arrivals ?r k) < LOCKFREE_QUEUE_SIZE - 1" using ok room by simp_all
    from this sendable_valid [OF sd] obtain r' where r': "submit yield c addr (Some m) ?r = Some r'" "udp_queues_ok r'" "same_socket ?r r'" "ur_clients r' = ur_clients ?r"
      "ur_csv_parser r' = ur_csv_parser ?r" "ur_sequence r' = ur_sequence ?r + 1"
      "arrivals r' = (\<lambda>k. arrivals ?r k @ (if goes_to (two_queues ?r) m k then [udp_envelope c addr (ur_sequence ?r) m] else []))" by (rule submit_room)
    have "parse_and_route_message yield (bs @ rest) c addr r = Some (length bs, r')"
      using z c r'(1) True by (simp add: parse_and_route_message_def nth_append carries_def)
    moreover have "took_udp c addr q [m] r r'" using r' same_socket_trans [OF note_client_protocol_simps(3) r'(3)] set_protocol_same protocol_of_set
      by (simp add: took_udp_def)
    ultimately show thesis by (rule that)
  next
    case False
    with b have q: "q = CLIENT_PROTOCOL_CSV" and cs: "csv_request bs m" by (simp_all add: udp_request_bytes_def split: if_splits)
    obtain line where l: "bs = map of_char line @ [10]" "line \<noteq> []" "length line < 99" "takeWhile (\<lambda>b. \<not> is_eol b) (map of_char line @ 10 # rest) = map of_char line"
      "takeWhile (\<lambda>c. c \<noteq> CHR 0x00) line = line" "\<forall>p. \<exists>p'. message_parser_parse p line = Some (Some m, p')" "csv_start (of_char (hd line))"
      using cs sd by (rule csv_request_chars)
    from l(6) obtain p' where p': "message_parser_parse (ur_csv_parser r) line = Some (Some m, p')" by blast
    let ?r1 = "?r\<lparr>ur_csv_parser := p'\<rparr>"
    have "udp_queues_ok ?r1" "\<forall>k. length (arrivals ?r1 k) < LOCKFREE_QUEUE_SIZE - 1" using ok room by simp_all
    from this sendable_valid [OF sd] obtain r' where r': "submit yield c addr (Some m) ?r1 = Some r'" "udp_queues_ok r'" "same_socket ?r1 r'" "ur_clients r' = ur_clients ?r1"
      "ur_csv_parser r' = ur_csv_parser ?r1" "ur_sequence r' = ur_sequence ?r1 + 1"
      "arrivals r' = (\<lambda>k. arrivals ?r1 k @ (if goes_to (two_queues ?r1) m k then [udp_envelope c addr (ur_sequence ?r1) m] else []))" by (rule submit_room)
    have d: "bs @ rest = map of_char line @ 10 # rest" using l(1) by simp
    have h: "(bs @ rest) ! 0 \<noteq> BINARY_MAGIC" using l(2,7) unfolding d by (cases line) (auto simp: csv_start_def)
    have e: "takeWhile is_eol rest = []" using rest by (cases rest) auto
    have t: "takeWhile (\<lambda>c. c \<noteq> CHR 0x00) (map (byte_char \<circ> of_char) line) = line" using l(5) map_byte_char [of line] by simp
    have "parse_and_route_message yield (bs @ rest) c addr r = Some (length bs, r')"
      using h l(2,3,4) p' r'(1) e q unfolding parse_and_route_message_def d by (simp add: l(1) Let_def t)
    moreover have "same_socket r r'" using r'(3) by (simp add: same_socket_def note_client_protocol_def)
    then have "took_udp c addr q [m] r r'" using r' set_protocol_same protocol_of_set by (simp add: took_udp_def)
    ultimately show thesis by (rule that)
  qed
qed

lemma took_udp_trans:
  assumes "took_udp c addr q ms r r1" and "took_udp c addr q ms' r1 r2"
  shows "took_udp c addr q (ms @ ms') r r2"
proof -
  have env: "udp_envelopes c addr n (ms @ ms') = udp_envelopes c addr n ms @ udp_envelopes c addr (n + of_nat (length ms)) ms'" for n
    by (induction ms arbitrary: n) (simp_all add: add.assoc add.commute)
  have "two_queues r1 = two_queues r" using assms(1) same_socket_two by (simp add: took_udp_def)
  moreover have "protocol_of (ur_clients r2) addr = (if ms @ ms' = [] then id else map_option (\<lambda>p. if p = CLIENT_PROTOCOL_UNKNOWN then q else p)) (protocol_of (ur_clients r) addr)"
    using assms by (auto simp: took_udp_def option.map_comp comp_def intro!: option.map_cong)
  moreover have "same_socket r r2" using assms same_socket_trans [of r r1 r2] by (simp add: took_udp_def)
  moreover have "same_registration (ur_clients r) (ur_clients r2)" using assms same_registration_trans [of "ur_clients r" "ur_clients r1"] by (simp add: took_udp_def)
  ultimately show ?thesis using assms by (simp add: took_udp_def env)
qed

lemma took_udp_Nil: "udp_queues_ok r \<Longrightarrow> took_udp c addr q [] r r"
  by (simp add: took_udp_def same_registration_refl)

lemma datagram_requests:
  assumes "udp_queues_ok r" and "\<forall>k. length (arrivals r k) + length ms < LOCKFREE_QUEUE_SIZE" and "list_all2 (udp_request_bytes q) bss ms"
  shows "\<exists>r'. datagram_loop yield (concat bss) c addr r = Some r' \<and> took_udp c addr q ms r r'"
  using assms(3,1,2)
proof (induction arbitrary: r rule: list_all2_induct)
  case Nil
  then show ?case by (auto simp: datagram_loop.simps [of yield "[]"] took_udp_Nil)
next
  case (Cons bs bss m ms)
  have "length (arrivals r k) < LOCKFREE_QUEUE_SIZE - 1" for k using Cons.prems(2) [rule_format, of k] by simp
  then have room: "\<forall>k. length (arrivals r k) < LOCKFREE_QUEUE_SIZE - 1" ..
  have rest: "concat bss = [] \<or> \<not> is_eol (hd (concat bss))"
    using Cons.hyps(2) request_start by (cases bss) (auto simp: list_all2_Cons1)
  from Cons.prems(1) room Cons.hyps(1) rest obtain r1 where r1: "parse_and_route_message yield (bs @ concat bss) c addr r = Some (length bs, r1)" "took_udp c addr q [m] r r1"
    by (rule parse_and_route_request)
  have "length (arrivals r1 k) + length ms < LOCKFREE_QUEUE_SIZE" for k using r1(2) Cons.prems(2) [rule_format, of k] by (simp add: took_udp_def)
  then have q1: "udp_queues_ok r1" "\<forall>k. length (arrivals r1 k) + length ms < LOCKFREE_QUEUE_SIZE" using r1(2) by (simp_all add: took_udp_def)
  from Cons.IH [OF q1] obtain r' where r': "datagram_loop yield (concat bss) c addr r1 = Some r'" "took_udp c addr q ms r1 r'" by blast
  have "datagram_loop yield (concat (bs # bss)) c addr r = Some r'"
    using r1(1) r'(1) request_start(1) [OF Cons.hyps(1)] by (simp add: datagram_loop.simps [of yield "bs @ concat bss"])
  with took_udp_trans [OF r1(2) r'(2)] show ?case by auto
qed

section \<open>Any datagram\<close>

definition udp_effect :: "u32 \<Rightarrow> udp_client_addr_t \<Rightarrow> udp_receiver_t \<Rightarrow> udp_receiver_t \<Rightarrow> bool" where
  "udp_effect c addr r r' \<longleftrightarrow> udp_queues_ok r' \<and> same_socket r r' \<and> same_registration (ur_clients r) (ur_clients r')
     \<and> (\<forall>k. \<exists>j new. arrivals r' k = drop j (arrivals r k) @ new
          \<and> (\<forall>e\<in>set new. ie_client_id e = c \<and> ie_client_addr e = addr \<and> goes_to (two_queues r) (ie_msg e) k))"

lemma udp_effect_refl: "udp_queues_ok r \<Longrightarrow> udp_effect c addr r r"
  by (auto simp: udp_effect_def same_registration_refl intro!: exI [of _ 0] exI [of _ "[]"])

lemma udp_effect_trans:
  assumes 1: "udp_effect c addr r r1" and 2: "udp_effect c addr r1 r2"
  shows "udp_effect c addr r r2"
proof -
  have two: "two_queues r1 = two_queues r" using 1 same_socket_two by (simp add: udp_effect_def)
  have "\<exists>j new. arrivals r2 k = drop j (arrivals r k) @ new \<and> (\<forall>e\<in>set new. ie_client_id e = c \<and> ie_client_addr e = addr \<and> goes_to (two_queues r) (ie_msg e) k)" for k
  proof -
    from 1 obtain j1 n1 where 1: "arrivals r1 k = drop j1 (arrivals r k) @ n1" "\<forall>e\<in>set n1. ie_client_id e = c \<and> ie_client_addr e = addr \<and> goes_to (two_queues r) (ie_msg e) k"
      unfolding udp_effect_def by blast
    from 2 obtain j2 n2 where 2: "arrivals r2 k = drop j2 (arrivals r1 k) @ n2" "\<forall>e\<in>set n2. ie_client_id e = c \<and> ie_client_addr e = addr \<and> goes_to (two_queues r) (ie_msg e) k"
      unfolding udp_effect_def two by blast
    have "arrivals r2 k = drop (j1 + j2) (arrivals r k) @ (drop (j2 - (length (arrivals r k) - j1)) n1 @ n2)" using 1(1) 2(1) by (simp add: add.commute)
    then show ?thesis using 1(2) 2(2)
      by (intro exI [of _ "j1 + j2"] exI [of _ "drop (j2 - (length (arrivals r k) - j1)) n1 @ n2"] conjI) (auto dest: in_set_dropD)
  qed
  with 1 2 show ?thesis unfolding udp_effect_def using same_socket_trans same_registration_trans by blast
qed

lemma submit_ok:
  assumes y: "yields_ok yield" and ok: "udp_queues_ok r" and v: "\<forall>m. parsed = Some m \<longrightarrow> input_msg_type_is_valid (input_msg_type m)"
  shows "\<exists>r'. submit yield c addr parsed r = Some r' \<and> udp_effect c addr r r'"
proof (cases parsed)
  case None
  then show ?thesis using udp_effect_refl [OF ok] by (simp add: submit_def)
next
  case (Some m)
  let ?r = "r\<lparr>ur_sequence := ur_sequence r + 1\<rparr>" and ?e = "udp_envelope c addr (ur_sequence r) m"
  have e: "create_input_envelope_udp m c addr (ur_sequence r) = Some ?e" using v Some by (simp add: create_input_envelope_udp_def udp_envelope_def)
  have "udp_queues_ok ?r" using ok by simp
  with y obtain b r2 where r2: "route_message yield ?e m ?r = Some (b, r2)" "udp_queues_ok r2" "routed_only ?r r2"
    "\<forall>k. \<exists>j new. arrivals r2 k = drop j (arrivals ?r k) @ new \<and> set new \<subseteq> {?e} \<and> (new \<noteq> [] \<longrightarrow> goes_to (two_queues ?r) m k)" by (rule route_message_ok)
  note same = routed_only_same [OF r2(3)] routed_only_socket [OF r2(3)]
  let ?r' = "if b then r2\<lparr>ur_messages_parsed := ur_messages_parsed r2 + 1\<rparr> else r2\<lparr>ur_messages_dropped := ur_messages_dropped r2 + 1\<rparr>"
  have "\<exists>j new. arrivals ?r' k = drop j (arrivals r k) @ new \<and> (\<forall>e\<in>set new. ie_client_id e = c \<and> ie_client_addr e = addr \<and> goes_to (two_queues r) (ie_msg e) k)" for k
  proof -
    from r2(4) [unfolded receiver_simps, rule_format, of k] obtain j new where
      n: "arrivals r2 k = drop j (arrivals r k) @ new" "set new \<subseteq> {?e}" "new \<noteq> [] \<longrightarrow> goes_to (two_queues r) m k" by blast
    have "\<forall>e\<in>set new. ie_client_id e = c \<and> ie_client_addr e = addr \<and> goes_to (two_queues r) (ie_msg e) k"
    proof
      fix e assume "e \<in> set new"
      then have "e = ?e" "new \<noteq> []" using n(2) by auto
      with n(3) show "ie_client_id e = c \<and> ie_client_addr e = addr \<and> goes_to (two_queues r) (ie_msg e) k" by simp
    qed
    with n(1) show ?thesis by auto
  qed
  then have "udp_effect c addr r ?r'" using r2(2) same by (auto simp: udp_effect_def same_socket_def same_registration_refl)
  then show ?thesis using Some e r2(1) by (intro exI [of _ ?r']) (simp add: submit_def)
qed

text \<open>A line that stops the program: the text of a cancel, behind white space.\<close>

definition cancel_text :: "u8 list \<Rightarrow> bool" where
  "cancel_text line \<longleftrightarrow> (case trim_whitespace (take (MAX_LINE_LENGTH - 1) (takeWhile (\<lambda>c. c \<noteq> CHR 0x00) (map byte_char line))) of
     [] \<Rightarrow> False | t # _ \<Rightarrow> t = CHR ''C'' \<or> t = CHR ''c'')"

lemma csv_abort_cancel:
  assumes "message_parser_parse p (takeWhile (\<lambda>c. c \<noteq> CHR 0x00) (map byte_char line)) = None"
  shows "cancel_text line"
proof -
  let ?t = "takeWhile (\<lambda>c. c \<noteq> CHR 0x00) (map byte_char line)"
  have "trim_whitespace (take (MAX_LINE_LENGTH - 1) ?t) \<noteq> []"
  proof
    assume e: "trim_whitespace (take (MAX_LINE_LENGTH - 1) ?t) = []"
    have "take (if length ?t \<ge> MAX_LINE_LENGTH then MAX_LINE_LENGTH - 1 else length ?t) ?t = take (MAX_LINE_LENGTH - 1) ?t" by auto
    then have "message_parser_parse p ?t \<noteq> None" unfolding message_parser_parse_def Let_def e by (simp only: e) simp
    with assms show False by simp
  qed
  moreover have "hd (trim_whitespace (take (MAX_LINE_LENGTH - 1) ?t)) \<in> {CHR ''C'', CHR ''c''}" using csv_parser_total [of ?t p] assms by blast
  ultimately show ?thesis unfolding cancel_text_def by (cases "trim_whitespace (take (MAX_LINE_LENGTH - 1) ?t)") simp_all
qed

lemma parsed_valid:
  "binary_message_parser_parse bs = Some (Some m) \<Longrightarrow> input_msg_type_is_valid (input_msg_type m)"
  "message_parser_parse p (takeWhile (\<lambda>c. c \<noteq> CHR 0x00) cs) = Some (Some m, p') \<Longrightarrow> input_msg_type_is_valid (input_msg_type m)"
proof -
  have "m \<noteq> INPUT_MSG_OTHER t" if "binary_message_parser_parse bs = Some (Some m)" for t using parser_accepts [OF that] by auto
  then show "binary_message_parser_parse bs = Some (Some m) \<Longrightarrow> input_msg_type_is_valid (input_msg_type m)" by (cases m) (auto simp: input_msg_type_is_valid_def)
  have "m \<noteq> INPUT_MSG_OTHER t" if p: "message_parser_parse p (takeWhile (\<lambda>c. c \<noteq> CHR 0x00) cs) = Some (Some m, p')" for t
  proof -
    have "c_string (takeWhile (\<lambda>c. c \<noteq> CHR 0x00) cs)" by (auto simp: c_string_def dest: set_takeWhileD)
    from csv_parser_accepts [OF p this] show ?thesis by auto
  qed
  then show "message_parser_parse p (takeWhile (\<lambda>c. c \<noteq> CHR 0x00) cs) = Some (Some m, p') \<Longrightarrow> input_msg_type_is_valid (input_msg_type m)"
    by (cases m) (auto simp: input_msg_type_is_valid_def)
qed

lemma note_client_protocol_effect: "udp_queues_ok r \<Longrightarrow> udp_effect c addr r (note_client_protocol addr' q r)"
  by (auto simp: udp_effect_def set_protocol_same intro!: exI [of _ 0] exI [of _ "[]"])

lemma csv_parser_effect: "udp_queues_ok r \<Longrightarrow> udp_effect c addr r (r\<lparr>ur_csv_parser := p\<rparr>)"
  by (auto simp: udp_effect_def same_registration_refl same_socket_def intro!: exI [of _ 0] exI [of _ "[]"])

lemma udp_effect_queues: "udp_effect c addr r r' \<Longrightarrow> udp_queues_ok r'"
  by (simp add: udp_effect_def)

lemma parse_and_route_ok:
  assumes y: "yields_ok yield" and ok: "udp_queues_ok r"
  obtains (ok) n r' where "parse_and_route_message yield data c addr r = Some (n, r')" "udp_effect c addr r r'"
  | (abort) "parse_and_route_message yield data c addr r = None" "cancel_text (takeWhile (\<lambda>b. \<not> is_eol b) data)"
proof -
  note n = note_client_protocol_effect [OF assms(2), of c addr addr]
  consider (none) "data = []" | (bin) "2 \<le> length data" "data ! 0 = BINARY_MAGIC" | (csv) "data \<noteq> []" "\<not> (2 \<le> length data \<and> data ! 0 = BINARY_MAGIC)" by blast
  then show thesis
  proof cases
    case none
    with udp_effect_refl [OF assms(2)] show thesis by (intro ok [of 0 r]) (simp_all add: parse_and_route_message_def)
  next
    case bin
    let ?z = "get_binary_message_size (data ! 1)" and ?r = "note_client_protocol addr CLIENT_PROTOCOL_BINARY r"
    from bin have ne: "data \<noteq> []" by auto
    obtain parsed where p: "binary_message_parser_parse (take ?z data) = Some parsed" using parser_total by blast
    then have "\<forall>m. parsed = Some m \<longrightarrow> input_msg_type_is_valid (input_msg_type m)" using parsed_valid(1) by blast
    from submit_ok [OF y udp_effect_queues [OF n] this] obtain r2 where r2: "submit yield c addr parsed ?r = Some r2" "udp_effect c addr ?r r2" by blast
    show thesis
    proof (cases "?z = 0 \<or> length data < ?z")
      case True
      with bin ne udp_effect_refl [OF assms(2)] show thesis by (intro ok [of "if ?z = 0 then 1 else 0" r]) (auto simp: parse_and_route_message_def)
    next
      case False
      with bin ne p r2 udp_effect_trans [OF n r2(2)] show thesis by (intro ok [of ?z r2]) (auto simp: parse_and_route_message_def)
    qed
  next
    case csv
    let ?r = "note_client_protocol addr CLIENT_PROTOCOL_CSV r" and ?l = "takeWhile (\<lambda>b. \<not> is_eol b) data"
    let ?text = "takeWhile (\<lambda>c. c \<noteq> CHR 0x00) (map byte_char ?l)"
    have t: "take (length ?l) data = ?l" by (metis takeWhile_eq_take)
    show thesis
    proof (cases "0 < length ?l \<and> length ?l < MAX_INPUT_LINE_LENGTH")
      case False
      with csv n show thesis
        by (intro ok [of "if length (takeWhile is_eol data) > 0 then length (takeWhile is_eol data) else 1" ?r]) (auto simp: parse_and_route_message_def Let_def)
    next
      case True
      show thesis
      proof (cases "message_parser_parse (ur_csv_parser r) ?text")
        case None
        then have "cancel_text ?l" by (rule csv_abort_cancel)
        moreover have "parse_and_route_message yield data c addr r = None" using csv True None unfolding parse_and_route_message_def Let_def t by auto
        ultimately show thesis by (intro abort)
      next
        case (Some x)
        obtain parsed p' where x: "x = (parsed, p')" by fastforce
        then have "\<forall>m. parsed = Some m \<longrightarrow> input_msg_type_is_valid (input_msg_type m)" using Some parsed_valid(2) by blast
        moreover have c: "udp_effect c addr ?r (?r\<lparr>ur_csv_parser := p'\<rparr>)" by (rule csv_parser_effect [OF udp_effect_queues [OF n]])
        ultimately obtain r2 where r2: "submit yield c addr parsed (?r\<lparr>ur_csv_parser := p'\<rparr>) = Some r2" "udp_effect c addr (?r\<lparr>ur_csv_parser := p'\<rparr>) r2"
          using submit_ok [OF y udp_effect_queues] by metis
        have "parse_and_route_message yield data c addr r = Some (length ?l + length (takeWhile is_eol (drop (length ?l) data)), r2)"
          using csv True Some x r2(1) unfolding parse_and_route_message_def Let_def t by auto
        with udp_effect_trans [OF udp_effect_trans [OF n c] r2(2)] show thesis by (intro ok)
      qed
    qed
  qed
qed

lemma datagram_ok:
  assumes y: "yields_ok yield" and ok: "udp_queues_ok r"
  shows "(\<exists>r'. datagram_loop yield data c addr r = Some r' \<and> udp_effect c addr r r')
     \<or> datagram_loop yield data c addr r = None \<and> (\<exists>n. cancel_text (takeWhile (\<lambda>b. \<not> is_eol b) (drop n data)))"
  using ok
proof (induction data arbitrary: r rule: length_induct)
  case (1 data)
  note unf = datagram_loop.simps [of yield data c addr r]
  show ?case
  proof (cases "data = []")
    case True
    then show ?thesis using udp_effect_refl [OF "1.prems"] unfolding unf by simp
  next
    case False
    show ?thesis
    proof (cases rule: parse_and_route_ok [OF y "1.prems", of data c addr])
      case 2
      then have "datagram_loop yield data c addr r = None" "cancel_text (takeWhile (\<lambda>b. \<not> is_eol b) (drop 0 data))" using False unfolding unf by simp_all
      then show ?thesis by blast
    next
      case (1 n r1)
      note p = 1
      show ?thesis
      proof (cases "n = 0")
        case True
        then show ?thesis using False p by (auto simp: unf)
      next
        case n: False
        have "length (drop n data) < length data" using n False by simp
        with "1.IH" udp_effect_queues [OF p(2)] consider
          r' where "datagram_loop yield (drop n data) c addr r1 = Some r'" "udp_effect c addr r1 r'"
          | k where "datagram_loop yield (drop n data) c addr r1 = None" "cancel_text (takeWhile (\<lambda>b. \<not> is_eol b) (drop k (drop n data)))" by blast
        then show ?thesis
        proof cases
          case 1
          with False n p udp_effect_trans [OF p(2) 1(2)] show ?thesis by (simp add: unf)
        next
          case 2
          then have "cancel_text (takeWhile (\<lambda>b. \<not> is_eol b) (drop (k + n) data))" by simp
          with False n p(1) 2(1) show ?thesis by (auto simp: unf)
        qed
      qed
    qed
  qed
qed

section \<open>The receiver\<close>

definition compact :: "sockaddr_in \<Rightarrow> udp_client_addr_t" where
  "compact a = \<lparr>ua_addr = sin_addr a, ua_port = sin_port a, ua_pad = 0\<rparr>"

definition noted :: "sockaddr_in \<Rightarrow> u32 \<Rightarrow> udp_client_map_t \<Rightarrow> nat \<Rightarrow> udp_receiver_t \<Rightarrow> udp_receiver_t" where
  "noted from c cm n r = r\<lparr>ur_packets_received := ur_packets_received r + 1, ur_bytes_received := ur_bytes_received r + of_nat n, ur_clients := cm,
     ur_last_recv_addr := from, ur_last_recv_len := 16, ur_last_client_addr := compact from, ur_last_client_id := c\<rparr>"

lemma noted_simps [simp]:
  "arrivals (noted from c m n r) = arrivals r" "udp_queues_ok (noted from c m n r) = udp_queues_ok r" "same_socket r (noted from c m n r)" "two_queues (noted from c m n r) = two_queues r"
  "ur_clients (noted from c m n r) = m" "ur_sequence (noted from c m n r) = ur_sequence r"
  by (simp_all add: noted_def arrivals_def udp_queues_ok_def same_socket_def two_queues_def fun_eq_iff)

lemma udp_receive_datagram:
  assumes "data \<noteq> []" and "client_map_get_or_create (compact from) now (ur_clients r) = (c, cm)"
  shows "udp_receive yield now (Udp_datagram from data) r = datagram_loop yield data c (compact from) (noted from c cm (length data) r)"
  using assms by (simp add: udp_receive_def Let_def noted_def compact_def)

text \<open>
  Whatever arrives, the receiver stays as it should be, and what it gives to the processors carries the address it came from and an identifier that stands for that address.  Only the text of a cancel
  can stop it.
\<close>

theorem udp_receive_ok:
  assumes y: "yields_ok yield" and ok: "receiver_ok r" "um_next_id (ur_clients r) \<noteq> 0xFFFFFFFF" and now: "now < INT64_MAX" and d: "data \<noteq> []"
  shows "(\<exists>r' c. udp_receive yield now (Udp_datagram from data) r = Some r' \<and> receiver_ok r' \<and> same_socket r r'
       \<and> client_id_is_udp c \<and> peers_by_id (ur_clients r') c = Some (peer (compact from))
       \<and> (\<forall>k. \<exists>j new. arrivals r' k = drop j (arrivals r k) @ new
            \<and> (\<forall>e\<in>set new. ie_client_id e = c \<and> ie_client_addr e = compact from \<and> goes_to (two_queues r) (ie_msg e) k)))
     \<or> udp_receive yield now (Udp_datagram from data) r = None \<and> (\<exists>n. cancel_text (takeWhile (\<lambda>b. \<not> is_eol b) (drop n data)))"
proof -
  obtain c cm where g: "client_map_get_or_create (compact from) now (ur_clients r) = (c, cm)" by fastforce
  let ?r = "noted from c cm (length data) r"
  have o: "udp_queues_ok r" "clients_ok (ur_clients r)" "ids_ok (ur_clients r)" using ok(1) by (simp_all add: receiver_ok_def)
  note reg = registration [OF o(2,3) ok(2) now g]
  have rc: "peers_by_id cm c = Some (peer (compact from))" using reg(4) by (metis fun_upd_same)
  have q: "udp_queues_ok ?r" using o(1) by simp
  from datagram_ok [OF y q, of data c "compact from"] show ?thesis
  proof (elim disjE exE conjE, goal_cases)
    case (1 r')
    then have e: "udp_queues_ok r'" "same_socket ?r r'" "same_registration cm (ur_clients r')"
      "\<forall>k. \<exists>j new. arrivals r' k = drop j (arrivals r k) @ new \<and> (\<forall>e\<in>set new. ie_client_id e = c \<and> ie_client_addr e = compact from \<and> goes_to (two_queues r) (ie_msg e) k)"
      by (simp_all add: udp_effect_def)
    note s = same_registration_ok [OF e(3)]
    have "receiver_ok r'" using e(1) reg(1,2) by (simp add: receiver_ok_def s)
    moreover have "peers_by_id (ur_clients r') c = Some (peer (compact from))" using rc s(6) by simp
    moreover have "same_socket r r'" by (rule same_socket_trans [OF noted_simps(3) e(2)])
    moreover have "udp_receive yield now (Udp_datagram from data) r = Some r'" using 1(1) udp_receive_datagram [OF d g, of yield] by simp
    ultimately show ?thesis using e(4) reg(3) by (intro disjI1 exI [of _ r'] exI [of _ c] conjI)
  next
    case (2 n)
    then show ?thesis using udp_receive_datagram [OF d g, of yield] by auto
  qed
qed

text \<open>The requests of a client in one datagram.\<close>

theorem udp_receive_requests:
  assumes ok: "receiver_ok r" "um_next_id (ur_clients r) \<noteq> 0xFFFFFFFF" and now: "now < INT64_MAX"
    and req: "list_all2 (udp_request_bytes q) bss ms" "ms \<noteq> []" and room: "\<forall>k. length (arrivals r k) + length ms < LOCKFREE_QUEUE_SIZE"
    and g: "client_map_get_or_create (compact from) now (ur_clients r) = (c, cm)"
  shows "\<exists>r'. udp_receive yield now (Udp_datagram from (concat bss)) r = Some r' \<and> receiver_ok r' \<and> same_socket r r'
     \<and> peers_by_id (ur_clients r') c = Some (peer (compact from)) \<and> client_id_is_udp c \<and> same_registration cm (ur_clients r')
     \<and> protocol_of (ur_clients r') (compact from) = map_option (\<lambda>p. if p = CLIENT_PROTOCOL_UNKNOWN then q else p) (protocol_of cm (compact from))
     \<and> (\<forall>k. arrivals r' k = arrivals r k @ filter (\<lambda>e. goes_to (two_queues r) (ie_msg e) k) (udp_envelopes c (compact from) (ur_sequence r) ms))"
proof -
  let ?r = "noted from c cm (length (concat bss)) r"
  have o: "udp_queues_ok r" "clients_ok (ur_clients r)" "ids_ok (ur_clients r)" using ok(1) by (simp_all add: receiver_ok_def)
  note reg = registration [OF o(2,3) ok(2) now g]
  have rc: "peers_by_id cm c = Some (peer (compact from))" using reg(4) by (metis fun_upd_same)
  have "udp_queues_ok ?r" "\<forall>k. length (arrivals ?r k) + length ms < LOCKFREE_QUEUE_SIZE" using o(1) room by simp_all
  from datagram_requests [OF this req(1), of yield c "compact from"] obtain r' where
    r': "datagram_loop yield (concat bss) c (compact from) ?r = Some r'" "took_udp c (compact from) q ms ?r r'" by blast
  have d: "concat bss \<noteq> []" using req request_start(1) by (cases bss) (auto simp: list_all2_Cons1)
  have t: "udp_queues_ok r'" "same_socket ?r r'" "same_registration cm (ur_clients r')"
    "protocol_of (ur_clients r') (compact from) = map_option (\<lambda>p. if p = CLIENT_PROTOCOL_UNKNOWN then q else p) (protocol_of cm (compact from))"
    "\<forall>k. arrivals r' k = arrivals r k @ filter (\<lambda>e. goes_to (two_queues r) (ie_msg e) k) (udp_envelopes c (compact from) (ur_sequence r) ms)"
    using r'(2) req(2) by (simp_all add: took_udp_def)
  note s = same_registration_ok [OF t(3)]
  have "receiver_ok r'" using t(1) reg(1,2) by (simp add: receiver_ok_def s)
  moreover have "peers_by_id (ur_clients r') c = Some (peer (compact from))" using rc s(6) by simp
  ultimately show ?thesis using r'(1) udp_receive_datagram [OF d g, of yield] t same_socket_trans [OF noted_simps(3) t(2)] reg(3) by metis
qed

section \<open>Too long lines\<close>

lemma set_protocol_twice: "q \<noteq> CLIENT_PROTOCOL_UNKNOWN \<Longrightarrow> client_map_set_protocol addr q (client_map_set_protocol addr q m) = client_map_set_protocol addr q m"
  using same_registration_ok(4) [OF set_protocol_same, of addr q m addr]
  by (auto simp: client_map_set_protocol_def [of addr q "client_map_set_protocol addr q m"] split: option.splits bool.splits)
    (auto simp: client_map_set_protocol_def split: if_splits)

lemma note_twice: "note_client_protocol addr CLIENT_PROTOCOL_CSV (note_client_protocol addr CLIENT_PROTOCOL_CSV r) = note_client_protocol addr CLIENT_PROTOCOL_CSV r"
  by (simp add: note_client_protocol_def set_protocol_twice)

lemma overlong_step:
  assumes "MAX_INPUT_LINE_LENGTH \<le> length line" and "\<forall>b\<in>set line. \<not> is_eol b \<and> b \<noteq> BINARY_MAGIC"
  shows "parse_and_route_message yield (line @ 10 # rest) c addr r = Some (1, note_client_protocol addr CLIENT_PROTOCOL_CSV r)"
proof -
  have "line \<noteq> []" using assms(1) by auto
  then obtain b l where l: "line = b # l" by (cases line) auto
  have t: "takeWhile (\<lambda>b. \<not> is_eol b) (line @ 10 # rest) = line" using assms(2) by (subst takeWhile_append2) auto
  have b: "b \<noteq> BINARY_MAGIC" "\<not> is_eol b" using assms(2) by (auto simp: l)
  have e: "takeWhile is_eol (line @ 10 # rest) = []" using b(2) by (simp add: l)
  have h: "(line @ 10 # rest) ! 0 = b" by (simp add: l)
  have z: "\<not> (0 < length line \<and> length line < MAX_INPUT_LINE_LENGTH)" using assms(1) by simp
  show ?thesis unfolding parse_and_route_message_def Let_def t h using b(1) z by (auto simp: e)
qed

text \<open>A line that is too long is skipped byte by byte, until the rest of it is short enough: its last 255 bytes are read as a message.\<close>

theorem overlong_line_tail:
  assumes "length line = MAX_INPUT_LINE_LENGTH - 1" and "\<forall>b\<in>set (junk @ line). \<not> is_eol b \<and> b \<noteq> BINARY_MAGIC" and "junk \<noteq> []"
  shows "datagram_loop yield (junk @ line @ 10 # rest) c addr r = datagram_loop yield (line @ 10 # rest) c addr (note_client_protocol addr CLIENT_PROTOCOL_CSV r)"
  using assms(2,3)
proof (induction junk arbitrary: r)
  case (Cons b junk)
  let ?n = "note_client_protocol addr CLIENT_PROTOCOL_CSV"
  have "MAX_INPUT_LINE_LENGTH \<le> length (b # junk @ line)" using assms(1) by simp
  from overlong_step [OF this, of yield rest c addr r] Cons.prems(1) have
    "parse_and_route_message yield (b # junk @ line @ 10 # rest) c addr r = Some (1, ?n r)" by simp
  then have step: "datagram_loop yield (b # junk @ line @ 10 # rest) c addr r = datagram_loop yield (junk @ line @ 10 # rest) c addr (?n r)"
    by (simp add: datagram_loop.simps [of yield "b # junk @ line @ 10 # rest"])
  show ?case
  proof (cases "junk = []")
    case True
    with step show ?thesis by simp
  next
    case False
    with Cons.IH [of "?n r"] Cons.prems(1) step show ?thesis by (simp add: note_twice)
  qed
qed simp

section \<open>Starting again\<close>

text \<open>Stopping keeps the socket open: a receiver that was stopped cannot be started again, the assertion on the socket fails.\<close>

lemma restart_aborts:
  assumes "udp_receiver_start calls r = Some (True, r')"
  shows "udp_receiver_start calls' (udp_receiver_stop r') = None"
  using assms by (auto simp: udp_receiver_start_def udp_receiver_setup_socket_def udp_receiver_stop_def bind_assert_that_Some Let_def split: if_splits)

end
