(* ===== verification/ME_Udp_Publisher.thy ===== *)
theory ME_Udp_Publisher
  imports ME_Udp_Receiver ME_Csv_Output
begin

text \<open>
  The output side of the UDP mode (\<^verbatim>\<open>modes/udp_mode.c\<close>, lines 33 to 330): a thread takes the answers from the queues of the processors and sends each to the
  address of its client, in the encoding the client was heard with.  The structure is modelled with the queues and the receiver its pointers refer to;
  \<open>pb_stdout\<close> is what was written to the standard output.  The progress reports of the quiet mode are left out.
\<close>

record udp_output_publisher_ctx_t =
  pb_queue_0 :: "output_msg_envelope_t queue_t"
  pb_queue_1 :: "output_msg_envelope_t queue_t option"
  pb_udp :: udp_receiver_t
  pb_also_write_stdout :: bool
  pb_quiet_mode :: bool
  pb_bin_formatter :: binary_message_formatter_t
  pb_csv_formatter :: message_formatter_t
  pb_messages_sent :: u64
  pb_acks_sent :: u64
  pb_trades_sent :: u64
  pb_cancels_sent :: u64
  pb_tob_updates_sent :: u64
  pb_send_failures :: u64
  pb_broadcast_messages :: u64
  pb_stdout :: "u8 list"

definition track_output_type :: "output_msg_t \<Rightarrow> udp_output_publisher_ctx_t \<Rightarrow> udp_output_publisher_ctx_t" where
  "track_output_type msg ctx =
     (let ctx1 = (case msg of
          OUTPUT_MSG_ACK _ \<Rightarrow> ctx\<lparr>pb_acks_sent := pb_acks_sent ctx + 1\<rparr>
        | OUTPUT_MSG_TRADE _ \<Rightarrow> ctx\<lparr>pb_trades_sent := pb_trades_sent ctx + 1\<rparr>
        | OUTPUT_MSG_CANCEL_ACK _ \<Rightarrow> ctx\<lparr>pb_cancels_sent := pb_cancels_sent ctx + 1\<rparr>
        | OUTPUT_MSG_TOP_OF_BOOK _ \<Rightarrow> ctx\<lparr>pb_tob_updates_sent := pb_tob_updates_sent ctx + 1\<rparr>
        | OUTPUT_MSG_OTHER _ \<Rightarrow> ctx)
      in ctx1\<lparr>pb_messages_sent := pb_messages_sent ctx1 + 1\<rparr>)"

text \<open>The bytes of a message, \<open>None\<close> for a null pointer.\<close>

definition format_answer :: "client_protocol_t \<Rightarrow> output_msg_t \<Rightarrow> udp_output_publisher_ctx_t \<Rightarrow> (u8 list option \<times> udp_output_publisher_ctx_t) option" where
  "format_answer protocol msg ctx =
     (if protocol = CLIENT_PROTOCOL_BINARY then do {
        (data, f) \<leftarrow> binary_message_formatter_format (pb_bin_formatter ctx) msg;
        Some (data, ctx\<lparr>pb_bin_formatter := f\<rparr>)
      } else do {
        (line, f) \<leftarrow> message_formatter_format (pb_csv_formatter ctx) msg;
        Some (Some (map of_char (takeWhile (\<lambda>c. c \<noteq> CHR 0x00) line)), ctx\<lparr>pb_csv_formatter := f\<rparr>)
      })"

definition send_output_to_client :: "(sockaddr_in \<Rightarrow> u8 list \<Rightarrow> int) \<Rightarrow> output_msg_envelope_t \<Rightarrow> udp_output_publisher_ctx_t \<Rightarrow> (bool \<times> udp_output_publisher_ctx_t) option" where
  "send_output_to_client sendto envelope ctx = do {
     let client_id = oe_client_id envelope;
     let known = (if client_id_is_udp client_id then udp_receiver_get_client_protocol (pb_udp ctx) client_id else CLIENT_PROTOCOL_CSV);
     let protocol = (if known = CLIENT_PROTOCOL_UNKNOWN then CLIENT_PROTOCOL_CSV else known);
     (data, ctx1) \<leftarrow> format_answer protocol (oe_msg envelope) ctx;
     case data of
       None \<Rightarrow> Some (False, ctx1)
     | Some bytes \<Rightarrow>
         if length bytes = 0 then Some (False, ctx1)
         else let (success, ctx2) =
                (if client_id = CLIENT_ID_BROADCAST then (True, ctx1\<lparr>pb_broadcast_messages := pb_broadcast_messages ctx1 + 1\<rparr>)
                 else if client_id_is_udp client_id then
                   (let (ok, udp) = udp_receiver_send sendto client_id bytes (pb_udp ctx1) in (ok, ctx1\<lparr>pb_udp := udp\<rparr>))
                 else (False, ctx1))
              in Some (success, if \<not> success \<and> client_id \<noteq> CLIENT_ID_BROADCAST then ctx2\<lparr>pb_send_failures := pb_send_failures ctx2 + 1\<rparr> else ctx2)
   }"

definition udp_process_output_envelope :: "(sockaddr_in \<Rightarrow> u8 list \<Rightarrow> int) \<Rightarrow> output_msg_envelope_t \<Rightarrow> udp_output_publisher_ctx_t \<Rightarrow> udp_output_publisher_ctx_t option" where
  "udp_process_output_envelope sendto envelope ctx = do {
     (success, ctx1) \<leftarrow> send_output_to_client sendto envelope (track_output_type (oe_msg envelope) ctx);
     if pb_also_write_stdout ctx1 \<and> \<not> pb_quiet_mode ctx1 then do {
       let protocol = (if client_id_is_udp (oe_client_id envelope) then udp_receiver_get_client_protocol (pb_udp ctx1) (oe_client_id envelope) else CLIENT_PROTOCOL_CSV);
       (data, ctx2) \<leftarrow> format_answer protocol (oe_msg envelope) ctx1;
       Some (case data of None \<Rightarrow> ctx2 | Some bytes \<Rightarrow> ctx2\<lparr>pb_stdout := pb_stdout ctx2 @ bytes\<rparr>)
     } else Some ctx1
   }"

text \<open>One pass of the loop of each of the two threads.\<close>

definition publish_from_0 :: "(sockaddr_in \<Rightarrow> u8 list \<Rightarrow> int) \<Rightarrow> udp_output_publisher_ctx_t \<Rightarrow> udp_output_publisher_ctx_t option" where
  "publish_from_0 sendto ctx =
     (let (next, q) = queue_dequeue (pb_queue_0 ctx); ctx1 = ctx\<lparr>pb_queue_0 := q\<rparr> in
      case next of None \<Rightarrow> Some ctx1 | Some envelope \<Rightarrow> udp_process_output_envelope sendto envelope ctx1)"

definition publish_from_1 :: "(sockaddr_in \<Rightarrow> u8 list \<Rightarrow> int) \<Rightarrow> udp_output_publisher_ctx_t \<Rightarrow> udp_output_publisher_ctx_t option" where
  "publish_from_1 sendto ctx =
     (case pb_queue_1 ctx of None \<Rightarrow> Some ctx
      | Some q1 \<Rightarrow> let (next, q) = queue_dequeue q1; ctx1 = ctx\<lparr>pb_queue_1 := Some q\<rparr> in
          case next of None \<Rightarrow> Some ctx1 | Some envelope \<Rightarrow> udp_process_output_envelope sendto envelope ctx1)"

definition publisher_pass :: "(sockaddr_in \<Rightarrow> u8 list \<Rightarrow> int) \<Rightarrow> udp_output_publisher_ctx_t \<Rightarrow> udp_output_publisher_ctx_t option" where
  "publisher_pass sendto ctx = do {
     ctx1 \<leftarrow> publish_from_0 sendto ctx;
     publish_from_1 sendto ctx1
   }"

text \<open>The threads, for \<open>n\<close> passes until the shutdown flag is seen.\<close>

fun udp_output_publisher_thread :: "nat \<Rightarrow> (sockaddr_in \<Rightarrow> u8 list \<Rightarrow> int) \<Rightarrow> udp_output_publisher_ctx_t \<Rightarrow> udp_output_publisher_ctx_t option" where
  "udp_output_publisher_thread 0 sendto ctx = Some ctx"
| "udp_output_publisher_thread (Suc n) sendto ctx = Option.bind (publisher_pass sendto ctx) (udp_output_publisher_thread n sendto)"

fun udp_output_publisher_single_thread :: "nat \<Rightarrow> (sockaddr_in \<Rightarrow> u8 list \<Rightarrow> int) \<Rightarrow> udp_output_publisher_ctx_t \<Rightarrow> udp_output_publisher_ctx_t option" where
  "udp_output_publisher_single_thread 0 sendto ctx = Some ctx"
| "udp_output_publisher_single_thread (Suc n) sendto ctx = Option.bind (publish_from_0 sendto ctx) (udp_output_publisher_single_thread n sendto)"

end
