(* ===== verification/ME_Udp_Delivery.thy ===== *)
theory ME_Udp_Delivery
  imports ME_Udp_Requests ME_Udp_Publisher ME_Tcp_Output
begin

text \<open>The output side of the UDP mode at work: which datagrams the answers in the queues become.\<close>

section \<open>The bytes\<close>

definition same_but_formatters :: "udp_output_publisher_ctx_t \<Rightarrow> udp_output_publisher_ctx_t \<Rightarrow> bool" where
  "same_but_formatters ctx ctx' \<longleftrightarrow> (\<exists>b f. ctx' = ctx\<lparr>pb_bin_formatter := b, pb_csv_formatter := f\<rparr>)"

lemma same_but_formatters_intro [simp]: "same_but_formatters ctx (ctx\<lparr>pb_bin_formatter := b\<rparr>)" "same_but_formatters ctx (ctx\<lparr>pb_csv_formatter := f\<rparr>)"
proof -
  have "ctx\<lparr>pb_bin_formatter := b\<rparr> = ctx\<lparr>pb_bin_formatter := b, pb_csv_formatter := pb_csv_formatter ctx\<rparr>" by simp
  then show "same_but_formatters ctx (ctx\<lparr>pb_bin_formatter := b\<rparr>)" unfolding same_but_formatters_def by blast
  have "ctx\<lparr>pb_csv_formatter := f\<rparr> = ctx\<lparr>pb_bin_formatter := pb_bin_formatter ctx, pb_csv_formatter := f\<rparr>" by simp
  then show "same_but_formatters ctx (ctx\<lparr>pb_csv_formatter := f\<rparr>)" unfolding same_but_formatters_def by blast
qed

lemma format_answer_bytes:
  assumes "formattable m"
  obtains ctx' where "format_answer q m ctx = Some (Some (out_bytes (q = CLIENT_PROTOCOL_BINARY) m), ctx')" "same_but_formatters ctx ctx'"
    "out_bytes (q = CLIENT_PROTOCOL_BINARY) m \<noteq> []"
proof -
  let ?b = "q = CLIENT_PROTOCOL_BINARY"
  let ?tls = "fresh_tls\<lparr>tls_csv_formatter := pb_csv_formatter ctx, tls_binary_formatter := pb_bin_formatter ctx\<rparr>"
  have g: "good_out ?b m" using assms by (simp add: good_out_def)
  from format_output_bytes [OF g, of ?tls] obtain tls' where f: "format_output ?b m ?tls = Some (out_bytes ?b m, tls')" "msg_ok (out_bytes ?b m)" by blast
  then have ne: "out_bytes ?b m \<noteq> []" by (auto simp: msg_ok_def)
  show thesis
  proof (cases ?b)
    case True
    then obtain r f' where r: "binary_message_formatter_format (pb_bin_formatter ctx) m = Some (r, f')"
      "out_bytes ?b m = (case r of Some d \<Rightarrow> if length d \<le> MAX_FORMAT_BUFFER then d else [] | None \<Rightarrow> [])"
      using f(1) by (auto simp: format_output_def bind_eq_Some_conv)
    with ne have "r = Some (out_bytes ?b m)" by (auto split: option.splits if_splits)
    with True r(1) ne show thesis
      by (intro that [of "ctx\<lparr>pb_bin_formatter := f'\<rparr>"]) (auto simp: format_answer_def)
  next
    case False
    then obtain str f' where r: "message_formatter_format (pb_csv_formatter ctx) m = Some (str, f')" "out_bytes ?b m = map of_char (takeWhile (\<lambda>c. c \<noteq> CHR 0x00) str)"
      using f(1) by (auto simp: format_output_def bind_eq_Some_conv bind_assert_that_Some Let_def)
    with False ne show thesis
      by (intro that [of "ctx\<lparr>pb_csv_formatter := f'\<rparr>"]) (auto simp: format_answer_def)
  qed
qed

section \<open>One answer\<close>

definition to_sockaddr :: "udp_client_addr_t \<Rightarrow> sockaddr_in" where
  "to_sockaddr a = \<lparr>sin_addr = ua_addr a, sin_port = ua_port a\<rparr>"

text \<open>The datagram an answer becomes: for a client that is peers_by_id, in its encoding.\<close>

definition answer_datagram :: "udp_client_map_t \<Rightarrow> output_msg_envelope_t \<Rightarrow> (sockaddr_in \<times> u8 list) list" where
  "answer_datagram m e =
     (if client_id_is_udp (oe_client_id e)
      then (case client_map_find_addr m (oe_client_id e) of None \<Rightarrow> []
            | Some a \<Rightarrow> [(to_sockaddr a, out_bytes (client_map_get_protocol m (oe_client_id e) = CLIENT_PROTOCOL_BINARY) (oe_msg e))])
      else [])"

text \<open>What publishing leaves as it was, and the datagrams it adds.\<close>

definition published :: "(sockaddr_in \<times> u8 list) list \<Rightarrow> udp_output_publisher_ctx_t \<Rightarrow> udp_output_publisher_ctx_t \<Rightarrow> bool" where
  "published ds ctx ctx' \<longleftrightarrow> (\<exists>n b e. pb_udp ctx' = (pb_udp ctx)\<lparr>ur_packets_sent := n, ur_bytes_sent := b, ur_send_errors := e, ur_wire := ur_wire (pb_udp ctx) @ ds\<rparr>)
     \<and> pb_also_write_stdout ctx' = pb_also_write_stdout ctx \<and> pb_quiet_mode ctx' = pb_quiet_mode ctx
     \<and> (pb_quiet_mode ctx \<or> \<not> pb_also_write_stdout ctx \<longrightarrow> pb_stdout ctx' = pb_stdout ctx)"

lemma published_refl: "published [] ctx ctx"
  unfolding published_def by (intro conjI exI [of _ "ur_packets_sent (pb_udp ctx)"] exI [of _ "ur_bytes_sent (pb_udp ctx)"] exI [of _ "ur_send_errors (pb_udp ctx)"]) simp_all

lemma published_trans:
  assumes "published ds a b" and "published ds' b c"
  shows "published (ds @ ds') a c"
  using assms unfolding published_def by (elim conjE exE) (simp, blast)

lemma published_same:
  assumes "published ds ctx ctx'"
  shows "ur_clients (pb_udp ctx') = ur_clients (pb_udp ctx)" "ur_sockfd (pb_udp ctx') = ur_sockfd (pb_udp ctx)" "ur_wire (pb_udp ctx') = ur_wire (pb_udp ctx) @ ds"
    "arrivals (pb_udp ctx') = arrivals (pb_udp ctx)" "two_queues (pb_udp ctx') = two_queues (pb_udp ctx)" "receiver_ok (pb_udp ctx') = receiver_ok (pb_udp ctx)"
    "same_socket r (pb_udp ctx) \<Longrightarrow> ur_num_output_queues (pb_udp ctx') = ur_num_output_queues r"
  using assms by (auto simp: published_def arrivals_def two_queues_def receiver_ok_def udp_queues_ok_def fun_eq_iff same_socket_def)

lemma formatters_same:
  assumes "same_but_formatters ctx ctx'"
  shows "pb_udp ctx' = pb_udp ctx" "pb_queue_0 ctx' = pb_queue_0 ctx" "pb_queue_1 ctx' = pb_queue_1 ctx" "pb_also_write_stdout ctx' = pb_also_write_stdout ctx"
    "pb_quiet_mode ctx' = pb_quiet_mode ctx" "pb_stdout ctx' = pb_stdout ctx"
  using assms by (auto simp: same_but_formatters_def)

lemma track_same [simp]:
  "pb_udp (track_output_type m ctx) = pb_udp ctx" "pb_queue_0 (track_output_type m ctx) = pb_queue_0 ctx" "pb_queue_1 (track_output_type m ctx) = pb_queue_1 ctx"
  "pb_also_write_stdout (track_output_type m ctx) = pb_also_write_stdout ctx" "pb_quiet_mode (track_output_type m ctx) = pb_quiet_mode ctx" "pb_stdout (track_output_type m ctx) = pb_stdout ctx"
  by (cases m; simp add: track_output_type_def Let_def)+

text \<open>Sending to a client, whether the datagram is accepted or not.\<close>

definition sent_now :: "(sockaddr_in \<Rightarrow> u8 list \<Rightarrow> int) \<Rightarrow> udp_receiver_t \<Rightarrow> (sockaddr_in \<times> u8 list) list \<Rightarrow> (sockaddr_in \<times> u8 list) list" where
  "sent_now sendto r ds = filter (\<lambda>(a, d). 0 \<le> ur_sockfd r \<and> 0 \<le> sendto a d) ds"

lemma udp_receiver_send_ok:
  assumes "client_id_is_udp c"
  shows "\<exists>n b e. snd (udp_receiver_send sendto c bytes r) = r\<lparr>ur_packets_sent := n, ur_bytes_sent := b, ur_send_errors := e, ur_wire := ur_wire r
     @ sent_now sendto r (case client_map_find_addr (ur_clients r) c of None \<Rightarrow> [] | Some a \<Rightarrow> [(to_sockaddr a, bytes)])\<rparr>"
proof -
  note defs = udp_receiver_send_def udp_receiver_send_to_addr_def udp_transmit_def to_sockaddr_def [symmetric] sent_now_def Let_def
  show ?thesis
  proof (cases "client_map_find_addr (ur_clients r) c")
    case None
    with assms show ?thesis by (intro exI [of _ "ur_packets_sent r"] exI [of _ "ur_bytes_sent r"] exI [of _ "ur_send_errors r + 1"]) (simp add: defs)
  next
    case (Some a)
    consider "ur_sockfd r < 0" | "0 \<le> ur_sockfd r" "sendto (to_sockaddr a) bytes < 0" | "0 \<le> ur_sockfd r" "0 \<le> sendto (to_sockaddr a) bytes" by linarith
    then show ?thesis
    proof cases
      case 1
      with Some assms show ?thesis by (intro exI [of _ "ur_packets_sent r"] exI [of _ "ur_bytes_sent r"] exI [of _ "ur_send_errors r"]) (simp add: defs)
    next
      case 2
      with Some assms show ?thesis by (intro exI [of _ "ur_packets_sent r"] exI [of _ "ur_bytes_sent r"] exI [of _ "ur_send_errors r + 1"]) (simp add: defs)
    next
      case 3
      with Some assms show ?thesis
        by (intro exI [of _ "ur_packets_sent r + 1"] exI [of _ "ur_bytes_sent r + of_int (sendto (to_sockaddr a) bytes)"] exI [of _ "ur_send_errors r"]) (simp add: defs)
    qed
  qed
qed

lemma send_output_ok:
  assumes f: "formattable (oe_msg e)"
  obtains b ctx' where "send_output_to_client sendto e ctx = Some (b, ctx')" "published (sent_now sendto (pb_udp ctx) (answer_datagram (ur_clients (pb_udp ctx)) e)) ctx ctx'"
    "pb_queue_0 ctx' = pb_queue_0 ctx" "pb_queue_1 ctx' = pb_queue_1 ctx" "pb_stdout ctx' = pb_stdout ctx"
proof -
  let ?c = "oe_client_id e" and ?m = "ur_clients (pb_udp ctx)"
  define known where "known = (if client_id_is_udp ?c then udp_receiver_get_client_protocol (pb_udp ctx) ?c else CLIENT_PROTOCOL_CSV)"
  define q where "q = (if known = CLIENT_PROTOCOL_UNKNOWN then CLIENT_PROTOCOL_CSV else known)"
  from f obtain ctx1 where c1: "format_answer q (oe_msg e) ctx = Some (Some (out_bytes (q = CLIENT_PROTOCOL_BINARY) (oe_msg e)), ctx1)" "same_but_formatters ctx ctx1"
    "out_bytes (q = CLIENT_PROTOCOL_BINARY) (oe_msg e) \<noteq> []" by (rule format_answer_bytes)
  note s = formatters_same [OF c1(2)]
  let ?bytes = "out_bytes (q = CLIENT_PROTOCOL_BINARY) (oe_msg e)"
  note run = send_output_to_client_def [of sendto e ctx, unfolded Let_def, folded known_def, folded q_def, unfolded c1(1)]
  have p1: "published [] ctx ctx1" using published_refl [of ctx] s by (simp add: published_def)
  show thesis
  proof (cases "client_id_is_udp ?c")
    case True
    have nz: "?c \<noteq> 0" using True by (auto simp: client_id_is_udp_def)
    obtain ok udp where u: "udp_receiver_send sendto ?c ?bytes (pb_udp ctx) = (ok, udp)" by fastforce
    have b: "(q = CLIENT_PROTOCOL_BINARY) = (client_map_get_protocol ?m ?c = CLIENT_PROTOCOL_BINARY)" using True by (auto simp: q_def known_def udp_receiver_get_client_protocol_def)
    have d: "answer_datagram ?m e = (case client_map_find_addr ?m ?c of None \<Rightarrow> [] | Some a \<Rightarrow> [(to_sockaddr a, ?bytes)])" unfolding answer_datagram_def b using True by simp
    let ?c2 = "if ok then ctx1\<lparr>pb_udp := udp\<rparr> else ctx1\<lparr>pb_udp := udp, pb_send_failures := pb_send_failures ctx1 + 1\<rparr>"
    have "send_output_to_client sendto e ctx = Some (ok, ?c2)" unfolding run using True nz c1(3) u s(1) by simp
    moreover have "published (sent_now sendto (pb_udp ctx) (answer_datagram ?m e)) ctx ?c2"
      using udp_receiver_send_ok [OF True, of sendto ?bytes "pb_udp ctx"] s unfolding d u by (auto simp: published_def)
    ultimately show thesis using s by (intro that [of ok ?c2]) auto
  next
    case False
    then have d: "answer_datagram ?m e = []" by (simp add: answer_datagram_def)
    let ?c2 = "if ?c = 0 then ctx1\<lparr>pb_broadcast_messages := pb_broadcast_messages ctx1 + 1\<rparr> else ctx1\<lparr>pb_send_failures := pb_send_failures ctx1 + 1\<rparr>"
    have "send_output_to_client sendto e ctx = Some (?c = 0, ?c2)" unfolding run using False c1(3) by simp
    moreover have "published [] ctx ?c2" using p1 by (simp add: published_def)
    ultimately show thesis using s d by (intro that [of "?c = 0" ?c2]) (auto simp: sent_now_def)
  qed
qed

lemma process_output_ok:
  assumes f: "formattable (oe_msg e)"
  obtains ctx' where "udp_process_output_envelope sendto e ctx = Some ctx'" "published (sent_now sendto (pb_udp ctx) (answer_datagram (ur_clients (pb_udp ctx)) e)) ctx ctx'"
    "pb_queue_0 ctx' = pb_queue_0 ctx" "pb_queue_1 ctx' = pb_queue_1 ctx"
proof -
  let ?t = "track_output_type (oe_msg e) ctx" and ?d = "sent_now sendto (pb_udp ctx) (answer_datagram (ur_clients (pb_udp ctx)) e)"
  from send_output_ok [OF f, of sendto ?t] obtain b c1 where c1: "send_output_to_client sendto e ?t = Some (b, c1)" "published ?d ?t c1"
    "pb_queue_0 c1 = pb_queue_0 ctx" "pb_queue_1 c1 = pb_queue_1 ctx" "pb_stdout c1 = pb_stdout ctx" by auto
  have p1: "published ?d ctx c1" using c1(2) by (simp add: published_def)
  then have w: "pb_also_write_stdout c1 = pb_also_write_stdout ctx" "pb_quiet_mode c1 = pb_quiet_mode ctx" by (simp_all add: published_def)
  show thesis
  proof (cases "pb_also_write_stdout ctx \<and> \<not> pb_quiet_mode ctx")
    case False
    with c1 p1 w show thesis by (intro that [of c1]) (auto simp: udp_process_output_envelope_def)
  next
    case True
    let ?q = "if client_id_is_udp (oe_client_id e) then udp_receiver_get_client_protocol (pb_udp c1) (oe_client_id e) else CLIENT_PROTOCOL_CSV"
    from f obtain c2 where c2: "format_answer ?q (oe_msg e) c1 = Some (Some (out_bytes (?q = CLIENT_PROTOCOL_BINARY) (oe_msg e)), c2)" "same_but_formatters c1 c2"
      by (rule format_answer_bytes)
    note s = formatters_same [OF c2(2)]
    let ?c = "c2\<lparr>pb_stdout := pb_stdout c2 @ out_bytes (?q = CLIENT_PROTOCOL_BINARY) (oe_msg e)\<rparr>"
    have "udp_process_output_envelope sendto e ctx = Some ?c" unfolding udp_process_output_envelope_def c1(1) using True w c2(1) by (simp add: Let_def)
    moreover have "published ?d ctx ?c" using p1 s True by (simp add: published_def)
    ultimately show thesis using s c1(3,4) by (intro that [of ?c]) simp_all
  qed
qed

section \<open>The queues of answers\<close>

definition outgoing :: "udp_output_publisher_ctx_t \<Rightarrow> bool \<Rightarrow> output_msg_envelope_t list" where
  "outgoing ctx second = (if second then (case pb_queue_1 ctx of None \<Rightarrow> [] | Some q \<Rightarrow> contents q) else contents (pb_queue_0 ctx))"

definition publisher_ok :: "udp_output_publisher_ctx_t \<Rightarrow> bool" where
  "publisher_ok ctx \<longleftrightarrow> queue_ok (pb_queue_0 ctx) \<and> (\<forall>q. pb_queue_1 ctx = Some q \<longrightarrow> queue_ok q) \<and> (\<forall>k. \<forall>e\<in>set (outgoing ctx k). formattable (oe_msg e))"

definition datagrams :: "(sockaddr_in \<Rightarrow> u8 list \<Rightarrow> int) \<Rightarrow> udp_receiver_t \<Rightarrow> output_msg_envelope_t list \<Rightarrow> (sockaddr_in \<times> u8 list) list" where
  "datagrams sendto r es = sent_now sendto r (concat (map (answer_datagram (ur_clients r)) es))"

lemma datagrams_append: "datagrams sendto r (a @ b) = datagrams sendto r a @ datagrams sendto r b"
  by (simp add: datagrams_def sent_now_def)

lemma datagrams_same: "ur_clients r' = ur_clients r \<Longrightarrow> ur_sockfd r' = ur_sockfd r \<Longrightarrow> datagrams sendto r' = datagrams sendto r"
  by (simp add: datagrams_def sent_now_def fun_eq_iff)

text \<open>A pass takes the first answer of a queue.\<close>

definition publish_from :: "bool \<Rightarrow> (sockaddr_in \<Rightarrow> u8 list \<Rightarrow> int) \<Rightarrow> udp_output_publisher_ctx_t \<Rightarrow> udp_output_publisher_ctx_t option" where
  "publish_from k = (if k then publish_from_1 else publish_from_0)"

definition passed :: "(sockaddr_in \<Rightarrow> u8 list \<Rightarrow> int) \<Rightarrow> output_msg_envelope_t list \<Rightarrow> (bool \<Rightarrow> output_msg_envelope_t list) \<Rightarrow> udp_output_publisher_ctx_t \<Rightarrow> udp_output_publisher_ctx_t \<Rightarrow> bool" where
  "passed sendto es rest ctx ctx' \<longleftrightarrow> publisher_ok ctx' \<and> outgoing ctx' = rest \<and> published (datagrams sendto (pb_udp ctx) es) ctx ctx'
     \<and> (pb_queue_1 ctx' = None \<longleftrightarrow> pb_queue_1 ctx = None)"

lemma passed_trans:
  assumes 1: "passed sendto es rest ctx ctx1" and 2: "passed sendto es' rest' ctx1 ctx2"
  shows "passed sendto (es @ es') rest' ctx ctx2"
proof -
  have p: "published (datagrams sendto (pb_udp ctx) es) ctx ctx1" using 1 by (simp add: passed_def)
  have "datagrams sendto (pb_udp ctx1) = datagrams sendto (pb_udp ctx)" by (rule datagrams_same) (use published_same [OF p] in simp_all)
  then show ?thesis using 1 2 published_trans [OF p] by (simp add: passed_def datagrams_append)
qed

lemma publish_from_ok:
  assumes ok: "publisher_ok ctx"
  shows "\<exists>ctx'. publish_from k sendto ctx = Some ctx' \<and> passed sendto (take 1 (outgoing ctx k)) ((outgoing ctx)(k := tl (outgoing ctx k))) ctx ctx'"
proof (cases "k \<and> pb_queue_1 ctx = None")
  case True
  then have "outgoing ctx k = []" by (simp add: outgoing_def)
  moreover have "(outgoing ctx)(k := []) = outgoing ctx" using calculation by (simp add: fun_upd_idem)
  ultimately show ?thesis using True ok published_refl [of ctx] by (simp add: publish_from_def publish_from_1_def passed_def datagrams_def sent_now_def)
next
  case False
  define q where "q = (if k then the (pb_queue_1 ctx) else pb_queue_0 ctx)"
  have q: "queue_ok q" "contents q = outgoing ctx k" using ok False by (auto simp: publisher_ok_def q_def outgoing_def split: if_splits)
  obtain nxt q' where d: "queue_dequeue q = (nxt, q')" by fastforce
  note dq = queue_dequeue_ok [OF q(1) d]
  define c1 where "c1 = (if k then ctx\<lparr>pb_queue_1 := Some q'\<rparr> else ctx\<lparr>pb_queue_0 := q'\<rparr>)"
  have run: "publish_from k sendto ctx = (case nxt of None \<Rightarrow> Some c1 | Some e \<Rightarrow> udp_process_output_envelope sendto e c1)"
    using False d by (cases nxt) (auto simp: publish_from_def publish_from_1_def publish_from_0_def c1_def q_def Let_def split: if_splits)
  have udp: "pb_udp c1 = pb_udp ctx" "published ds c1 = published ds ctx" for ds by (simp_all add: c1_def published_def fun_eq_iff)
  have out: "outgoing c' = (outgoing ctx)(k := tl (outgoing ctx k))" "queue_ok (pb_queue_0 c')" "\<forall>q. pb_queue_1 c' = Some q \<longrightarrow> queue_ok q" "(pb_queue_1 c' = None) = (pb_queue_1 ctx = None)"
    if "pb_queue_0 c' = pb_queue_0 c1" "pb_queue_1 c' = pb_queue_1 c1" for c'
    using that ok dq q False by (auto simp: outgoing_def c1_def fun_eq_iff publisher_ok_def)
  have sub: "set (tl (outgoing ctx k)) \<subseteq> set (outgoing ctx k)" by (cases "outgoing ctx k") auto
  have "\<forall>e\<in>set (outgoing ctx j). formattable (oe_msg e)" for j using ok by (simp add: publisher_ok_def)
  then have fm: "\<forall>j. \<forall>e\<in>set (((outgoing ctx)(k := tl (outgoing ctx k))) j). formattable (oe_msg e)" using subsetD [OF sub] by (metis fun_upd_apply)
  show ?thesis
  proof (cases "outgoing ctx k")
    case Nil
    with dq(1) q(2) run have "publish_from k sendto ctx = Some c1" by simp
    moreover have "published [] ctx c1" using udp(2) published_refl [of c1] by simp
    ultimately show ?thesis using Nil out [of c1] fm by (simp add: passed_def publisher_ok_def datagrams_def sent_now_def)
  next
    case (Cons e es)
    with dq(1) q(2) run have r: "publish_from k sendto ctx = udp_process_output_envelope sendto e c1" by simp
    have "formattable (oe_msg e)" using ok Cons by (auto simp: publisher_ok_def dest: spec [of _ k])
    from process_output_ok [OF this, of sendto c1] obtain c2 where c2: "udp_process_output_envelope sendto e c1 = Some c2"
      "published (sent_now sendto (pb_udp c1) (answer_datagram (ur_clients (pb_udp c1)) e)) c1 c2" "pb_queue_0 c2 = pb_queue_0 c1" "pb_queue_1 c2 = pb_queue_1 c1" by blast
    have "published (datagrams sendto (pb_udp ctx) [e]) ctx c2" using c2(2) unfolding udp(2) by (simp add: udp(1) datagrams_def)
    then show ?thesis using r c2(1) out [OF c2(3,4)] fm Cons by (simp add: passed_def publisher_ok_def)
  qed
qed

text \<open>The threads: the answers of a single queue in order, those of two queues in turns.\<close>

fun turns :: "nat \<Rightarrow> 'e list \<Rightarrow> 'e list \<Rightarrow> 'e list" where
  "turns 0 xs ys = []"
| "turns (Suc n) xs ys = take 1 xs @ take 1 ys @ turns n (tl xs) (tl ys)"

lemma single_thread_ok:
  assumes "publisher_ok ctx"
  shows "\<exists>ctx'. udp_output_publisher_single_thread n sendto ctx = Some ctx'
     \<and> passed sendto (take n (outgoing ctx False)) ((outgoing ctx)(False := drop n (outgoing ctx False))) ctx ctx'"
  using assms
proof (induction n arbitrary: ctx)
  case 0
  then show ?case using published_refl [of ctx] by (simp add: passed_def datagrams_def sent_now_def)
next
  case (Suc n)
  from publish_from_ok [OF Suc.prems, of False sendto] obtain c1 where c1: "publish_from_0 sendto ctx = Some c1"
    "passed sendto (take 1 (outgoing ctx False)) ((outgoing ctx)(False := tl (outgoing ctx False))) ctx c1" by (auto simp: publish_from_def)
  then have o: "publisher_ok c1" "outgoing c1 = (outgoing ctx)(False := tl (outgoing ctx False))" by (simp_all add: passed_def)
  from Suc.IH [OF o(1)] obtain c2 where c2: "udp_output_publisher_single_thread n sendto c1 = Some c2"
    "passed sendto (take n (outgoing c1 False)) ((outgoing c1)(False := drop n (outgoing c1 False))) c1 c2" by blast
  have t: "take 1 xs @ take n (tl xs) = take (Suc n) xs" "drop n (tl xs) = drop (Suc n) xs" for xs :: "output_msg_envelope_t list" by (cases xs; simp)+
  have e1: "take 1 (outgoing ctx False) @ take n (outgoing c1 False) = take (Suc n) (outgoing ctx False)" unfolding o(2) by (simp only: t fun_upd_same)
  have e2: "(outgoing c1)(False := drop n (outgoing c1 False)) = (outgoing ctx)(False := drop (Suc n) (outgoing ctx False))" unfolding o(2) by (simp only: t fun_upd_same fun_upd_upd)
  have "udp_output_publisher_single_thread (Suc n) sendto ctx = Some c2" using c1(1) c2(1) by simp
  then show ?case using passed_trans [OF c1(2) c2(2), unfolded e1 e2] by blast
qed

lemma dual_thread_ok:
  assumes "publisher_ok ctx"
  shows "\<exists>ctx'. udp_output_publisher_thread n sendto ctx = Some ctx'
     \<and> passed sendto (turns n (outgoing ctx False) (outgoing ctx True)) (\<lambda>k. drop n (outgoing ctx k)) ctx ctx'"
  using assms
proof (induction n arbitrary: ctx)
  case 0
  then show ?case using published_refl [of ctx] by (simp add: passed_def datagrams_def sent_now_def)
next
  case (Suc n)
  from publish_from_ok [OF Suc.prems, of False sendto] obtain c1 where c1: "publish_from_0 sendto ctx = Some c1"
    "passed sendto (take 1 (outgoing ctx False)) ((outgoing ctx)(False := tl (outgoing ctx False))) ctx c1" by (auto simp: publish_from_def)
  then have o1: "publisher_ok c1" "outgoing c1 = (outgoing ctx)(False := tl (outgoing ctx False))" by (simp_all add: passed_def)
  from publish_from_ok [OF o1(1), of True sendto] obtain c2 where c2: "publish_from_1 sendto c1 = Some c2"
    "passed sendto (take 1 (outgoing c1 True)) ((outgoing c1)(True := tl (outgoing c1 True))) c1 c2" by (auto simp: publish_from_def)
  then have o2: "publisher_ok c2" "outgoing c2 = (\<lambda>k. tl (outgoing ctx k))" using o1(2) by (auto simp: passed_def fun_eq_iff)
  from Suc.IH [OF o2(1)] obtain c3 where c3: "udp_output_publisher_thread n sendto c2 = Some c3"
    "passed sendto (turns n (outgoing c2 False) (outgoing c2 True)) (\<lambda>k. drop n (outgoing c2 k)) c2 c3" by blast
  have t: "drop n (tl xs) = drop (Suc n) xs" for xs :: "output_msg_envelope_t list" by (cases xs) simp_all
  from passed_trans [OF passed_trans [OF c1(2) c2(2)] c3(2)] show ?case
    using c1(1) c2(1) c3(1) o1(2) o2(2) by (simp add: publisher_pass_def t)
qed

end
