(* ===== verification/ME_Udp_Mode.thy ===== *)
theory ME_Udp_Mode
  imports ME_Udp_Delivery ME_Tcp_System
begin

text \<open>
  The UDP mode as a whole (\<^verbatim>\<open>modes/udp_mode.c\<close>, lines 332 to 702): the receiver, one or two processors and the publisher of answers, joined by the queues.  The memory the
  allocator hands out has arbitrary contents (\<open>udp_memory\<close>).  The steps of the system are the bodies of the loops of its threads; a datagram is taken in one step, so that a
  message that finds its queue full is dropped in it.  The steps are guarded: a processor takes a batch only when its engine can take it (\<open>next_batch_ok\<close>), and the receiver has an
  identifier left for a new client and a clock below its largest value.  Every shared structure is kept in one place: the input queues and the table of clients in the receiver,
  the output queues in the publisher.
\<close>

section \<open>Start and end\<close>

record udp_memory =
  uy_pool_0 :: order_pool_t
  uy_pool_1 :: order_pool_t
  uy_engine_0 :: matching_engine_t
  uy_engine_1 :: matching_engine_t
  uy_input_0 :: "input_msg_envelope_t queue_t"
  uy_input_1 :: "input_msg_envelope_t queue_t"
  uy_output_0 :: "output_msg_envelope_t queue_t"
  uy_output_1 :: "output_msg_envelope_t queue_t"
  uy_receiver :: udp_receiver_t
  uy_bin_formatter :: binary_message_formatter_t

text \<open>
  Whether all allocations succeed, and what the calls of the receiver return.  When an allocation fails the functions return 1; on the way they destroy queues that have not
  been initialised, which is not modelled.  Threads can be created.
\<close>

record udp_mode_calls =
  uk_allocated :: bool
  uk_receiver :: udp_calls

record udp_system =
  ud_receiver :: udp_receiver_t
  ud_publisher :: udp_output_publisher_ctx_t
  ud_proc :: "bool \<Rightarrow> (proc_ctx \<times> thread_locals) option"

definition start_udp_processor :: "int \<Rightarrow> engine_ctx \<Rightarrow> input_msg_envelope_t queue_t \<Rightarrow> output_msg_envelope_t queue_t \<Rightarrow> (proc_ctx \<times> thread_locals) option" where
  "start_udp_processor n engine input output = do {
     (ok, p) \<leftarrow> processor_init \<lparr>pc_tcp_mode = False, pc_spin_wait = False, pc_processor_id = n\<rparr> zero_processor;
     Some (thread_start \<lparr>px_processor = p, px_engine = engine, px_input = input, px_output = output\<rparr>)
   }"

text \<open>The publisher after \<^verbatim>\<open>memset\<close> and the assignments of both functions.\<close>

definition configured_publisher ::
  "app_config_t \<Rightarrow> binary_message_formatter_t \<Rightarrow> output_msg_envelope_t queue_t \<Rightarrow> output_msg_envelope_t queue_t option \<Rightarrow> udp_receiver_t \<Rightarrow> udp_output_publisher_ctx_t option" where
  "configured_publisher config raw queue_0 queue_1 receiver = do {
     bin_formatter \<leftarrow> binary_message_formatter_init raw;
     Some \<lparr>pb_queue_0 = queue_0, pb_queue_1 = queue_1, pb_udp = receiver, pb_also_write_stdout = False, pb_quiet_mode = ac_quiet_mode config,
       pb_bin_formatter = bin_formatter, pb_csv_formatter = \<lparr>mf_buffer = []\<rparr>, pb_messages_sent = 0, pb_acks_sent = 0, pb_trades_sent = 0, pb_cancels_sent = 0,
       pb_tob_updates_sent = 0, pb_send_failures = 0, pb_broadcast_messages = 0, pb_stdout = []\<rparr>
   }"

text \<open>From the label \<^verbatim>\<open>cleanup_receiver\<close> on: the queues are destroyed, which fails an assertion when one is not empty, and the engines.\<close>

definition udp_cleanup :: "udp_receiver_t \<Rightarrow> udp_output_publisher_ctx_t \<Rightarrow> engine_ctx \<Rightarrow> engine_ctx option \<Rightarrow> unit option" where
  "udp_cleanup receiver publisher engine_0 engine_1 = do {
     let receiver' = udp_receiver_destroy receiver;
     destroy_optional queue_destroy (Some (ur_output_queue_0 receiver'));
     destroy_optional queue_destroy (ur_output_queue_1 receiver');
     destroy_optional queue_destroy (Some (pb_queue_0 publisher));
     destroy_optional queue_destroy (pb_queue_1 publisher);
     destroy_optional matching_engine_destroy (Some engine_0);
     destroy_optional matching_engine_destroy engine_1
   }"

text \<open>The start: the result of the function when it fails, or the running system.\<close>

definition run_udp_single_processor :: "app_config_t \<Rightarrow> udp_memory \<Rightarrow> udp_mode_calls \<Rightarrow> (int + udp_system) option" where
  "run_udp_single_processor config mem calls =
     (if \<not> uk_allocated calls then Some (Inl 1)
      else do {
        pools \<leftarrow> memory_pools_init (uy_pool_0 mem);
        let engine = \<lparr>en_engine = matching_engine_init (uy_engine_0 mem), en_pool = pools, en_out = []\<rparr>;
        input_queue \<leftarrow> queue_init (uy_input_0 mem);
        output_queue \<leftarrow> queue_init (uy_output_0 mem);
        receiver \<leftarrow> udp_receiver_init input_queue (ac_port config) (uy_receiver mem);
        processor \<leftarrow> start_udp_processor 0 engine input_queue output_queue;
        publisher \<leftarrow> configured_publisher config (uy_bin_formatter mem) output_queue None receiver;
        (ok, receiver') \<leftarrow> udp_receiver_start (uk_receiver calls) receiver;
        if \<not> ok then do {
          udp_cleanup receiver' publisher engine None;
          Some (Inl 1)
        } else Some (Inr \<lparr>ud_receiver = receiver', ud_publisher = publisher, ud_proc = (\<lambda>k. if k then None else Some processor)\<rparr>)
      })"

definition run_udp_dual_processor :: "app_config_t \<Rightarrow> udp_memory \<Rightarrow> udp_mode_calls \<Rightarrow> (int + udp_system) option" where
  "run_udp_dual_processor config mem calls =
     (if \<not> uk_allocated calls then Some (Inl 1)
      else do {
        pools_0 \<leftarrow> memory_pools_init (uy_pool_0 mem);
        pools_1 \<leftarrow> memory_pools_init (uy_pool_1 mem);
        let engine_0 = \<lparr>en_engine = matching_engine_init (uy_engine_0 mem), en_pool = pools_0, en_out = []\<rparr>;
        let engine_1 = \<lparr>en_engine = matching_engine_init (uy_engine_1 mem), en_pool = pools_1, en_out = []\<rparr>;
        input_queue_0 \<leftarrow> queue_init (uy_input_0 mem);
        input_queue_1 \<leftarrow> queue_init (uy_input_1 mem);
        output_queue_0 \<leftarrow> queue_init (uy_output_0 mem);
        output_queue_1 \<leftarrow> queue_init (uy_output_1 mem);
        receiver \<leftarrow> udp_receiver_init_dual input_queue_0 input_queue_1 (ac_port config) (uy_receiver mem);
        processor_0 \<leftarrow> start_udp_processor 0 engine_0 input_queue_0 output_queue_0;
        processor_1 \<leftarrow> start_udp_processor 1 engine_1 input_queue_1 output_queue_1;
        publisher \<leftarrow> configured_publisher config (uy_bin_formatter mem) output_queue_0 (Some output_queue_1) receiver;
        (ok, receiver') \<leftarrow> udp_receiver_start (uk_receiver calls) receiver;
        if \<not> ok then do {
          udp_cleanup receiver' publisher engine_0 (Some engine_1);
          Some (Inl 1)
        } else Some (Inr \<lparr>ud_receiver = receiver', ud_publisher = publisher, ud_proc = (\<lambda>k. Some (if k then processor_1 else processor_0))\<rparr>)
      })"

section \<open>The threads\<close>

definition publisher_of :: "udp_system \<Rightarrow> udp_output_publisher_ctx_t" where
  "publisher_of sys = (ud_publisher sys)\<lparr>pb_udp := ud_receiver sys\<rparr>"

definition publisher_done :: "udp_output_publisher_ctx_t \<Rightarrow> udp_system \<Rightarrow> udp_system" where
  "publisher_done ctx sys = sys\<lparr>ud_publisher := ctx, ud_receiver := pb_udp ctx\<rparr>"

definition udp_attach :: "bool \<Rightarrow> udp_system \<Rightarrow> proc_ctx \<Rightarrow> proc_ctx" where
  "udp_attach k sys p = (if k then
       (case (ur_output_queue_1 (ud_receiver sys), pb_queue_1 (ud_publisher sys)) of (Some i, Some q) \<Rightarrow> p\<lparr>px_input := i, px_output := q\<rparr> | _ \<Rightarrow> p)
     else p\<lparr>px_input := ur_output_queue_0 (ud_receiver sys), px_output := pb_queue_0 (ud_publisher sys)\<rparr>)"

definition udp_detach :: "bool \<Rightarrow> proc_ctx \<Rightarrow> udp_system \<Rightarrow> udp_system" where
  "udp_detach k p sys = (if k
     then sys\<lparr>ud_receiver := (ud_receiver sys)\<lparr>ur_output_queue_1 := Some (px_input p)\<rparr>, ud_publisher := (ud_publisher sys)\<lparr>pb_queue_1 := Some (px_output p)\<rparr>\<rparr>
     else sys\<lparr>ud_receiver := (ud_receiver sys)\<lparr>ur_output_queue_0 := px_input p\<rparr>, ud_publisher := (ud_publisher sys)\<lparr>pb_queue_0 := px_output p\<rparr>\<rparr>)"

text \<open>
  The steps; without a second queue a pass of the publisher is a pass of its version for a single queue.  The counter of identifiers has not wrapped around, and the clock has not
  reached the end of its range.
\<close>

inductive udp_step :: "udp_system \<Rightarrow> udp_system \<Rightarrow> bool" where
  receive: "ur_running (ud_receiver sys) \<Longrightarrow> um_next_id (ur_clients (ud_receiver sys)) \<noteq> 0xFFFFFFFF \<Longrightarrow> now < INT64_MAX \<Longrightarrow>
    udp_receive (\<lambda>_ r. r) now received (ud_receiver sys) = Some r \<Longrightarrow> udp_step sys (sys\<lparr>ud_receiver := r\<rparr>)"
| processor: "ud_proc sys k = Some (p, l) \<Longrightarrow> next_batch_ok clock (udp_attach k sys p) \<Longrightarrow>
    processor_iteration clock (udp_attach k sys p) l = Some (p', l') \<Longrightarrow>
    udp_step sys ((udp_detach k p' sys)\<lparr>ud_proc := (ud_proc sys)(k := Some (p', l'))\<rparr>)"
| publish: "publisher_pass sendto (publisher_of sys) = Some ctx \<Longrightarrow> udp_step sys (publisher_done ctx sys)"

inductive udp_run :: "udp_system \<Rightarrow> bool" where
  start_single: "run_udp_single_processor config mem calls = Some (Inr sys) \<Longrightarrow> udp_run sys"
| start_dual: "run_udp_dual_processor config mem calls = Some (Inr sys) \<Longrightarrow> udp_run sys"
| step: "udp_run sys \<Longrightarrow> udp_step sys sys' \<Longrightarrow> udp_run sys'"

end
