(* ===== verification/ME_Udp_System.thy ===== *)
theory ME_Udp_System
  imports ME_Udp_Mode
begin

text \<open>
  The invariant of the UDP mode, its preservation by every interleaving of its threads, and the way of requests through the running system to the datagrams of their answers.
\<close>

section \<open>The invariant\<close>

definition udp_procs_ok :: "udp_system \<Rightarrow> bool" where
  "udp_procs_ok sys \<longleftrightarrow> (\<forall>k p l. ud_proc sys k = Some (p, l) \<longrightarrow> (\<exists>f. engine_run f (px_engine p)) \<and> (k \<longrightarrow> pb_queue_1 (ud_publisher sys) \<noteq> None))"

definition udp_mode_ok :: "udp_system \<Rightarrow> bool" where
  "udp_mode_ok sys \<longleftrightarrow> receiver_ok (ud_receiver sys) \<and> publisher_ok (ud_publisher sys) \<and> udp_procs_ok sys
     \<and> (pb_queue_1 (ud_publisher sys) \<noteq> None \<longrightarrow> two_queues (ud_receiver sys))"

lemma publisher_of_simps [simp]:
  "outgoing (publisher_of sys) = outgoing (ud_publisher sys)" "publisher_ok (publisher_of sys) = publisher_ok (ud_publisher sys)" "pb_udp (publisher_of sys) = ud_receiver sys"
  "pb_queue_1 (publisher_of sys) = pb_queue_1 (ud_publisher sys)"
  by (simp_all add: publisher_of_def outgoing_def publisher_ok_def fun_eq_iff)

section \<open>The start\<close>

lemma start_udp_processor_ok:
  obtains p l where "start_udp_processor n e i q = Some (p, l)" "px_engine p = e" "lv_sequence l = 0" "lv_flush_client_id l = 0"
  by (simp add: start_udp_processor_def processor_init_def thread_start_def asserts zero_processor_def)

lemma fresh_receiver_ok:
  assumes "queue_ok q0" "contents q0 = []" and "\<And>q. q1 = Some q \<Longrightarrow> queue_ok q \<and> contents q = []" and "num = 1 \<longleftrightarrow> q1 = None"
  obtains r where "fresh_receiver q0 q1 num port raw = Some r" "receiver_ok r" "arrivals r = (\<lambda>_. [])" "peers_by_id (ur_clients r) = Map.empty" "used (ur_clients r) = {}"
    "ur_sockfd r = -1" "\<not> ur_started r" "ur_output_queue_0 r = q0" "ur_output_queue_1 r = q1" "ur_num_output_queues r = num" "um_next_id (ur_clients r) = CLIENT_ID_UDP_BASE + 1"
proof -
  obtain p where p: "message_parser_init (ur_csv_parser raw) = Some p" using message_parser_init_total [of "ur_csv_parser raw"] by blast
  note c = client_map_init_ok [of "ur_clients raw"]
  have e: "peers_by_id (client_map_init (ur_clients raw)) = Map.empty" using dom_peers_by_id [OF c(2)] c(4) by simp
  have f: "fresh_receiver q0 q1 num port raw \<noteq> None" by (simp add: fresh_receiver_def p)
  then obtain r where r: "fresh_receiver q0 q1 num port raw = Some r" by blast
  then have s: "ur_output_queue_0 r = q0" "ur_output_queue_1 r = q1" "ur_num_output_queues r = num" "ur_clients r = client_map_init (ur_clients raw)" "ur_sockfd r = -1" "\<not> ur_started r"
    by (auto simp: fresh_receiver_def p)
  show thesis
    by (rule that [OF r]) (use s assms c e in \<open>auto simp: receiver_ok_def udp_queues_ok_def two_queues_def second_ok_def arrivals_def fun_eq_iff client_map_init_def split: option.splits\<close>)
qed

lemma configured_publisher_ok:
  assumes "queue_ok q0" "contents q0 = []" and "\<And>q. q1 = Some q \<Longrightarrow> queue_ok q \<and> contents q = []"
  obtains ctx where "configured_publisher config raw q0 q1 r = Some ctx" "publisher_ok ctx" "outgoing ctx = (\<lambda>_. [])" "pb_queue_0 ctx = q0" "pb_queue_1 ctx = q1"
    "pb_quiet_mode ctx = ac_quiet_mode config"
proof -
  obtain b where b: "binary_message_formatter_init raw = Some b" by (simp add: binary_message_formatter_init_def asserts arr_write_def Let_def)
  show thesis
    by (rule that) (use assms b in \<open>auto simp: configured_publisher_def publisher_ok_def outgoing_def fun_eq_iff split: option.splits\<close>)
qed

definition receiver_starts :: "udp_calls \<Rightarrow> bool" where
  "receiver_starts calls \<longleftrightarrow> 0 \<le> uk_socket calls \<and> uk_bound calls \<and> uk_thread calls"

lemma udp_receiver_start_ok:
  assumes "ur_sockfd r = -1" "\<not> ur_started r"
  shows "\<exists>r'. udp_receiver_start calls r = Some (receiver_starts calls, r') \<and> ur_output_queue_0 r' = ur_output_queue_0 r \<and> ur_output_queue_1 r' = ur_output_queue_1 r
     \<and> ur_num_output_queues r' = ur_num_output_queues r \<and> ur_clients r' = ur_clients r \<and> (receiver_starts calls \<longrightarrow> ur_running r' \<and> ur_sockfd r' = uk_socket calls)
     \<and> ur_wire r' = ur_wire r \<and> ur_sequence r' = ur_sequence r"
  using assms by (auto simp: udp_receiver_start_def udp_receiver_setup_socket_def receiver_starts_def asserts Let_def)

text \<open>A mode that has just been started.\<close>

definition fresh_udp :: "udp_system \<Rightarrow> bool" where
  "fresh_udp sys \<longleftrightarrow> udp_mode_ok sys \<and> (\<forall>k. arrivals (ud_receiver sys) k = [] \<and> outgoing (ud_publisher sys) k = []) \<and> used (ur_clients (ud_receiver sys)) = {}
     \<and> um_next_id (ur_clients (ud_receiver sys)) = CLIENT_ID_UDP_BASE + 1 \<and> ur_running (ud_receiver sys) \<and> 0 \<le> ur_sockfd (ud_receiver sys)
     \<and> (\<forall>k p l. ud_proc sys k = Some (p, l) \<longrightarrow> engine_run False (px_engine p) \<and> lv_sequence l = 0)
     \<and> ud_proc sys False \<noteq> None \<and> (ud_proc sys True \<noteq> None \<longleftrightarrow> two_queues (ud_receiver sys))"

lemma udp_cleanup_empty:
  assumes "queue_ok (ur_output_queue_0 r)" "contents (ur_output_queue_0 r) = []" "queue_ok (pb_queue_0 ctx)" "contents (pb_queue_0 ctx) = []"
    and "\<And>q. ur_output_queue_1 r = Some q \<Longrightarrow> queue_ok q \<and> contents q = []" "\<And>q. pb_queue_1 ctx = Some q \<Longrightarrow> queue_ok q \<and> contents q = []"
    and "destroyable (Some e0)" "destroyable e1"
  shows "udp_cleanup r ctx e0 e1 = Some ()"
proof -
  have r: "ur_output_queue_0 (udp_receiver_destroy r) = ur_output_queue_0 r" "ur_output_queue_1 (udp_receiver_destroy r) = ur_output_queue_1 r"
    by (simp_all add: udp_receiver_destroy_def udp_receiver_stop_def Let_def)
  have i1: "destroy_optional queue_destroy (ur_output_queue_1 r) = Some ()" using assms(5) by (cases "ur_output_queue_1 r") (auto simp: queue_observers(3))
  have o1: "destroy_optional queue_destroy (pb_queue_1 ctx) = Some ()" using assms(6) by (cases "pb_queue_1 ctx") (auto simp: queue_observers(3))
  show ?thesis unfolding udp_cleanup_def Let_def r i1 o1 destroy_engine_ok [OF assms(7)] destroy_engine_ok [OF assms(8)]
    using assms(1-4) by (simp add: queue_observers(3))
qed

theorem udp_single_start:
  assumes a: "uk_allocated calls"
  shows "if receiver_starts (uk_receiver calls)
     then \<exists>sys p l. run_udp_single_processor config mem calls = Some (Inr sys) \<and> fresh_udp sys \<and> \<not> two_queues (ud_receiver sys)
       \<and> ud_proc sys False = Some (p, l) \<and> new_engine (uy_pool_0 mem) (uy_engine_0 mem) (px_engine p)
     else run_udp_single_processor config mem calls = Some (Inl 1)"
proof -
  obtain pool where pool: "memory_pools_init (uy_pool_0 mem) = Some pool" using memory_pools_init_total by blast
  define e where "e = \<lparr>en_engine = matching_engine_init (uy_engine_0 mem), en_pool = pool, en_out = []\<rparr>"
  have e: "new_engine (uy_pool_0 mem) (uy_engine_0 mem) e" using pool by (auto simp: new_engine_def e_def)
  obtain i where i: "queue_init (uy_input_0 mem) = Some i" "queue_ok i" "contents i = []" by (rule queue_init_cases)
  obtain q where q: "queue_init (uy_output_0 mem) = Some q" "queue_ok q" "contents q = []" by (rule queue_init_cases)
  obtain p l where p: "start_udp_processor 0 e i q = Some (p, l)" "px_engine p = e" "lv_sequence l = 0" by (rule start_udp_processor_ok)
  obtain r where r: "udp_receiver_init i (ac_port config) (uy_receiver mem) = Some r" "receiver_ok r" "arrivals r = (\<lambda>_. [])" "used (ur_clients r) = {}"
    "ur_sockfd r = -1" "\<not> ur_started r" "ur_output_queue_0 r = i" "ur_output_queue_1 r = None" "ur_num_output_queues r = 1" "um_next_id (ur_clients r) = CLIENT_ID_UDP_BASE + 1"
    using fresh_receiver_ok [OF i(2,3), of None 1 "ac_port config" "uy_receiver mem"] unfolding udp_receiver_init_def by auto
  obtain pb where pb: "configured_publisher config (uy_bin_formatter mem) q None r = Some pb" "publisher_ok pb" "outgoing pb = (\<lambda>_. [])" "pb_queue_0 pb = q" "pb_queue_1 pb = None"
    using configured_publisher_ok [OF q(2,3), of None config "uy_bin_formatter mem" r] by auto
  from udp_receiver_start_ok [OF r(5,6), of "uk_receiver calls"] obtain r' where r': "udp_receiver_start (uk_receiver calls) r = Some (receiver_starts (uk_receiver calls), r')"
    "ur_output_queue_0 r' = ur_output_queue_0 r" "ur_output_queue_1 r' = ur_output_queue_1 r" "ur_num_output_queues r' = ur_num_output_queues r" "ur_clients r' = ur_clients r"
    "receiver_starts (uk_receiver calls) \<longrightarrow> ur_running r' \<and> ur_sockfd r' = uk_socket (uk_receiver calls)" by blast
  define sys where "sys = \<lparr>ud_receiver = r', ud_publisher = pb, ud_proc = (\<lambda>k. if k then None else Some (p, l))\<rparr>"
  have run: "run_udp_single_processor config mem calls = (if receiver_starts (uk_receiver calls) then Some (Inr sys) else Option.bind (udp_cleanup r' pb e None) (\<lambda>_. Some (Inl 1)))"
    unfolding run_udp_single_processor_def pool bind.simps Let_def e_def [symmetric] i(1) q(1) r(1) p(1) pb(1) using a by (simp add: r'(1) sys_def)
  have same: "receiver_ok r' = receiver_ok r" "arrivals r' = arrivals r" "two_queues r' = two_queues r"
    using r' by (simp_all add: receiver_ok_def udp_queues_ok_def two_queues_def arrivals_def fun_eq_iff)
  have "fresh_udp sys" if "receiver_starts (uk_receiver calls)"
    using that r same pb p r' new_engine_ok(1) [OF e]
    by (auto simp: fresh_udp_def udp_mode_ok_def sys_def udp_procs_ok_def two_queues_def receiver_starts_def split: if_splits)
  moreover have "udp_cleanup r' pb e None = Some ()"
    by (rule udp_cleanup_empty) (use r r' i q pb new_engine_ok(2) [OF e] in \<open>simp_all add: destroyable_def\<close>)
  moreover have "\<not> two_queues r'" using same(3) r(9) by (simp add: two_queues_def)
  ultimately show ?thesis using run e p(2) by (auto simp: sys_def)
qed

theorem udp_dual_start:
  assumes a: "uk_allocated calls"
  shows "if receiver_starts (uk_receiver calls)
     then \<exists>sys. run_udp_dual_processor config mem calls = Some (Inr sys) \<and> fresh_udp sys \<and> two_queues (ud_receiver sys)
     else run_udp_dual_processor config mem calls = Some (Inl 1)"
proof -
  obtain pool0 pool1 where pool: "memory_pools_init (uy_pool_0 mem) = Some pool0" "memory_pools_init (uy_pool_1 mem) = Some pool1" using memory_pools_init_total by blast
  define e0 e1 where "e0 = \<lparr>en_engine = matching_engine_init (uy_engine_0 mem), en_pool = pool0, en_out = []\<rparr>"
    and "e1 = \<lparr>en_engine = matching_engine_init (uy_engine_1 mem), en_pool = pool1, en_out = []\<rparr>"
  have e: "new_engine (uy_pool_0 mem) (uy_engine_0 mem) e0" "new_engine (uy_pool_1 mem) (uy_engine_1 mem) e1" using pool by (auto simp: new_engine_def e0_def e1_def)
  obtain i0 where i0: "queue_init (uy_input_0 mem) = Some i0" "queue_ok i0" "contents i0 = []" by (rule queue_init_cases)
  obtain i1 where i1: "queue_init (uy_input_1 mem) = Some i1" "queue_ok i1" "contents i1 = []" by (rule queue_init_cases)
  obtain q0 where q0: "queue_init (uy_output_0 mem) = Some q0" "queue_ok q0" "contents q0 = []" by (rule queue_init_cases)
  obtain q1 where q1: "queue_init (uy_output_1 mem) = Some q1" "queue_ok q1" "contents q1 = []" by (rule queue_init_cases)
  obtain p0 l0 where p0: "start_udp_processor 0 e0 i0 q0 = Some (p0, l0)" "px_engine p0 = e0" "lv_sequence l0 = 0" by (rule start_udp_processor_ok)
  obtain p1 l1 where p1: "start_udp_processor 1 e1 i1 q1 = Some (p1, l1)" "px_engine p1 = e1" "lv_sequence l1 = 0" by (rule start_udp_processor_ok)
  obtain r where r: "udp_receiver_init_dual i0 i1 (ac_port config) (uy_receiver mem) = Some r" "receiver_ok r" "arrivals r = (\<lambda>_. [])" "used (ur_clients r) = {}"
    "ur_sockfd r = -1" "\<not> ur_started r" "ur_output_queue_0 r = i0" "ur_output_queue_1 r = Some i1" "ur_num_output_queues r = 2" "um_next_id (ur_clients r) = CLIENT_ID_UDP_BASE + 1"
    using fresh_receiver_ok [OF i0(2,3), of "Some i1" 2 "ac_port config" "uy_receiver mem"] i1(2,3) unfolding udp_receiver_init_dual_def by auto
  obtain pb where pb: "configured_publisher config (uy_bin_formatter mem) q0 (Some q1) r = Some pb" "publisher_ok pb" "outgoing pb = (\<lambda>_. [])" "pb_queue_0 pb = q0" "pb_queue_1 pb = Some q1"
    using configured_publisher_ok [OF q0(2,3), of "Some q1" config "uy_bin_formatter mem" r] q1(2,3) by auto
  from udp_receiver_start_ok [OF r(5,6), of "uk_receiver calls"] obtain r' where r': "udp_receiver_start (uk_receiver calls) r = Some (receiver_starts (uk_receiver calls), r')"
    "ur_output_queue_0 r' = ur_output_queue_0 r" "ur_output_queue_1 r' = ur_output_queue_1 r" "ur_num_output_queues r' = ur_num_output_queues r" "ur_clients r' = ur_clients r"
    "receiver_starts (uk_receiver calls) \<longrightarrow> ur_running r' \<and> ur_sockfd r' = uk_socket (uk_receiver calls)" by blast
  define sys where "sys = \<lparr>ud_receiver = r', ud_publisher = pb, ud_proc = (\<lambda>k. Some (if k then (p1, l1) else (p0, l0)))\<rparr>"
  have run: "run_udp_dual_processor config mem calls = (if receiver_starts (uk_receiver calls) then Some (Inr sys) else Option.bind (udp_cleanup r' pb e0 (Some e1)) (\<lambda>_. Some (Inl 1)))"
    unfolding run_udp_dual_processor_def pool bind.simps Let_def e0_def [symmetric] e1_def [symmetric] i0(1) i1(1) q0(1) q1(1) r(1) p0(1) p1(1) pb(1) using a by (simp add: r'(1) sys_def)
  have same: "receiver_ok r' = receiver_ok r" "arrivals r' = arrivals r" "two_queues r' = two_queues r"
    using r' by (simp_all add: receiver_ok_def udp_queues_ok_def two_queues_def arrivals_def fun_eq_iff)
  have "fresh_udp sys" if "receiver_starts (uk_receiver calls)"
    using that r same pb p0 p1 r' new_engine_ok(1) [OF e(1)] new_engine_ok(1) [OF e(2)]
    by (auto simp: fresh_udp_def udp_mode_ok_def sys_def udp_procs_ok_def two_queues_def receiver_starts_def split: if_splits)
  moreover have "udp_cleanup r' pb e0 (Some e1) = Some ()"
    by (rule udp_cleanup_empty) (use r r' i0 i1 q0 q1 pb new_engine_ok(2) [OF e(1)] new_engine_ok(2) [OF e(2)] in simp_all)
  moreover have "two_queues r'" using same(3) r(9) by (simp add: two_queues_def)
  ultimately show ?thesis using run by (auto simp: sys_def)
qed

section \<open>The steps\<close>

lemma udp_second:
  assumes "udp_mode_ok sys" and "pb_queue_1 (ud_publisher sys) \<noteq> None"
  obtains i q where "ur_output_queue_1 (ud_receiver sys) = Some i" "pb_queue_1 (ud_publisher sys) = Some q" "queue_ok i" "queue_ok q"
  using assms by (auto simp: udp_mode_ok_def receiver_ok_def udp_queues_ok_def second_ok_def publisher_ok_def split: option.splits)

lemma udp_attach_ok:
  assumes ok: "udp_mode_ok sys" and k: "k \<longrightarrow> pb_queue_1 (ud_publisher sys) \<noteq> None"
  shows "queue_ok (px_input (udp_attach k sys p))" "queue_ok (px_output (udp_attach k sys p))" "px_engine (udp_attach k sys p) = px_engine p"
    "contents (px_input (udp_attach k sys p)) = arrivals (ud_receiver sys) k" "contents (px_output (udp_attach k sys p)) = outgoing (ud_publisher sys) k"
proof -
  have "queue_ok (ur_output_queue_0 (ud_receiver sys))" "queue_ok (pb_queue_0 (ud_publisher sys))"
    using ok by (simp_all add: udp_mode_ok_def receiver_ok_def udp_queues_ok_def publisher_ok_def)
  moreover have "k \<Longrightarrow> \<exists>i q. ur_output_queue_1 (ud_receiver sys) = Some i \<and> pb_queue_1 (ud_publisher sys) = Some q \<and> queue_ok i \<and> queue_ok q"
    using udp_second [OF ok] k by metis
  ultimately show "queue_ok (px_input (udp_attach k sys p))" "queue_ok (px_output (udp_attach k sys p))" "px_engine (udp_attach k sys p) = px_engine p"
    "contents (px_input (udp_attach k sys p)) = arrivals (ud_receiver sys) k" "contents (px_output (udp_attach k sys p)) = outgoing (ud_publisher sys) k"
    by (cases k; auto simp: udp_attach_def arrivals_def outgoing_def)+
qed

lemma udp_detach_ok:
  assumes ok: "udp_mode_ok sys" and k: "k \<longrightarrow> pb_queue_1 (ud_publisher sys) \<noteq> None" and q: "queue_ok (px_input p)" "queue_ok (px_output p)"
    and f: "\<forall>e\<in>set (contents (px_output p)). formattable (oe_msg e)"
  shows "receiver_ok (ud_receiver (udp_detach k p sys))" "publisher_ok (ud_publisher (udp_detach k p sys))"
    "arrivals (ud_receiver (udp_detach k p sys)) = (arrivals (ud_receiver sys))(k := contents (px_input p))"
    "outgoing (ud_publisher (udp_detach k p sys)) = (outgoing (ud_publisher sys))(k := contents (px_output p))"
    "pb_queue_1 (ud_publisher (udp_detach k p sys)) = None \<longleftrightarrow> pb_queue_1 (ud_publisher sys) = None"
    "two_queues (ud_receiver (udp_detach k p sys)) = two_queues (ud_receiver sys)"
proof -
  show out: "outgoing (ud_publisher (udp_detach k p sys)) = (outgoing (ud_publisher sys))(k := contents (px_output p))" by (auto simp: udp_detach_def outgoing_def fun_eq_iff)
  have pk: "publisher_ok (ud_publisher sys)" "receiver_ok (ud_receiver sys)" using ok by (simp_all add: udp_mode_ok_def)
  have "queue_ok (pb_queue_0 (ud_publisher (udp_detach k p sys)))" "\<forall>q. pb_queue_1 (ud_publisher (udp_detach k p sys)) = Some q \<longrightarrow> queue_ok q"
    using pk(1) q by (auto simp: udp_detach_def publisher_ok_def)
  moreover have "\<forall>j. \<forall>e\<in>set (((outgoing (ud_publisher sys))(k := contents (px_output p))) j). formattable (oe_msg e)" using pk(1) f by (simp add: publisher_ok_def)
  ultimately show "publisher_ok (ud_publisher (udp_detach k p sys))" unfolding publisher_ok_def out by blast
  show "receiver_ok (ud_receiver (udp_detach k p sys))" using pk(2) q by (auto simp: udp_detach_def receiver_ok_def udp_queues_ok_def two_queues_def)
qed (use k in \<open>auto simp: udp_detach_def arrivals_def two_queues_def fun_eq_iff\<close>)

lemma udp_processor_fatal:
  assumes ok: "udp_mode_ok sys" and p: "ud_proc sys k = Some (p, l)" and f: "first_fatal clock (arrivals (ud_receiver sys) k) (px_engine p)"
  shows "processor_iteration clock (udp_attach k sys p) l = None"
proof -
  have "k \<longrightarrow> pb_queue_1 (ud_publisher sys) \<noteq> None" using ok p by (auto simp: udp_mode_ok_def udp_procs_ok_def)
  from udp_attach_ok [OF ok this, where p = p] f show ?thesis by (intro processor_iteration_fatal) simp_all
qed

lemma udp_processor_step:
  assumes ok: "udp_mode_ok sys" and p: "ud_proc sys k = Some (p, l)" and nb: "next_batch_ok clock (udp_attach k sys p)"
  shows "\<exists>p' l' taken outs. processor_iteration clock (udp_attach k sys p) l = Some (p', l')
     \<and> udp_mode_ok ((udp_detach k p' sys)\<lparr>ud_proc := (ud_proc sys)(k := Some (p', l'))\<rparr>)
     \<and> engine_iteration clock (lv_flush_client_id l) (take 32 (arrivals (ud_receiver sys) k)) (px_engine p) = Some (taken, outs, px_engine p')
     \<and> arrivals (ud_receiver sys) k = taken @ contents (px_input p') \<and> arrivals (ud_receiver (udp_detach k p' sys)) = (arrivals (ud_receiver sys))(k := contents (px_input p'))
     \<and> outgoing (ud_publisher (udp_detach k p' sys)) = (outgoing (ud_publisher sys))(k := outgoing (ud_publisher sys) k
         @ take (LOCKFREE_QUEUE_SIZE - 1 - length (outgoing (ud_publisher sys) k)) (route_all (lv_sequence l) outs))"
proof -
  have run: "\<exists>f. engine_run f (px_engine p)" and k: "k \<longrightarrow> pb_queue_1 (ud_publisher sys) \<noteq> None" using ok p by (auto simp: udp_mode_ok_def udp_procs_ok_def)
  note at = udp_attach_ok [OF ok k, where p = p]
  have "proc_ok (udp_attach k sys p)" using at run by (simp add: proc_ok_def)
  from processor_iteration_ok [OF this nb, of l] obtain p' l' taken outs where r:
    "processor_iteration clock (udp_attach k sys p) l = Some (p', l')" "proc_ok p'"
    "engine_iteration clock (lv_flush_client_id l) (take 32 (arrivals (ud_receiver sys) k)) (px_engine p) = Some (taken, outs, px_engine p')"
    "arrivals (ud_receiver sys) k = taken @ contents (px_input p')"
    "contents (px_output p') = outgoing (ud_publisher sys) k @ take (LOCKFREE_QUEUE_SIZE - 1 - length (outgoing (ud_publisher sys) k)) (route_all (lv_sequence l) outs)"
    using at by auto
  from r(2) have q: "queue_ok (px_input p')" "queue_ok (px_output p')" "\<exists>f. engine_run f (px_engine p')" by (simp_all add: proc_ok_def)
  have "\<forall>e\<in>set (route_all (lv_sequence l) outs). formattable (oe_msg e)" using engine_iteration_outs [OF r(3)] route_all_msgs [of "lv_sequence l" outs] by blast
  then have out: "\<forall>e\<in>set (contents (px_output p')). formattable (oe_msg e)" using ok unfolding r(5) by (auto simp: udp_mode_ok_def publisher_ok_def dest: in_set_takeD)
  note dt = udp_detach_ok [OF ok k q(1,2) out]
  let ?s = "(udp_detach k p' sys)\<lparr>ud_proc := (ud_proc sys)(k := Some (p', l'))\<rparr>"
  have "udp_procs_ok ?s" using ok q(3) dt(5) k unfolding udp_mode_ok_def udp_procs_ok_def by auto
  then have "udp_mode_ok ?s" using dt ok by (simp add: udp_mode_ok_def)
  with r dt show ?thesis by (intro exI [of _ p'] exI [of _ l'] exI [of _ taken] exI [of _ outs]) simp
qed

lemma udp_publish_step:
  assumes ok: "udp_mode_ok sys"
  shows "\<exists>ctx. publisher_pass sendto (publisher_of sys) = Some ctx \<and> udp_mode_ok (publisher_done ctx sys)"
proof -
  have "publisher_ok (publisher_of sys)" using ok by (simp add: udp_mode_ok_def)
  from dual_thread_ok [OF this, of 1 sendto] obtain ctx es rest where c: "publisher_pass sendto (publisher_of sys) = Some ctx" "passed sendto es rest (publisher_of sys) ctx"
    by (auto simp: bind_eq_Some_conv)
  from c(2) have p: "published (datagrams sendto (pb_udp (publisher_of sys)) es) (publisher_of sys) ctx" "publisher_ok ctx" "pb_queue_1 ctx = None \<longleftrightarrow> pb_queue_1 (ud_publisher sys) = None"
    by (simp_all add: passed_def)
  note s = published_same [OF p(1)]
  have "udp_mode_ok (publisher_done ctx sys)" using ok s p by (simp add: udp_mode_ok_def publisher_done_def udp_procs_ok_def)
  with c(1) show ?thesis by blast
qed

lemma no_yield_ok: "yields_ok (\<lambda>_ r. r)"
  unfolding yields_ok_def only_taken_def
proof (intro allI impI conjI)
  fix r :: udp_receiver_t and k
  show "\<exists>q0 q1. r = r\<lparr>ur_output_queue_0 := q0, ur_output_queue_1 := q1\<rparr>" by (intro exI [of _ "ur_output_queue_0 r"] exI [of _ "ur_output_queue_1 r"]) simp
  show "\<exists>n. arrivals r k = drop n (arrivals r k)" by (rule exI [of _ 0]) simp
qed

lemma udp_receive_step:
  assumes ok: "udp_mode_ok sys" and n: "um_next_id (ur_clients (ud_receiver sys)) \<noteq> 0xFFFFFFFF" "now < INT64_MAX"
    and r: "udp_receive (\<lambda>_ r. r) now received (ud_receiver sys) = Some r"
  shows "udp_mode_ok (sys\<lparr>ud_receiver := r\<rparr>)"
proof -
  have o: "receiver_ok (ud_receiver sys)" using ok by (simp add: udp_mode_ok_def)
  have "receiver_ok r \<and> same_socket (ud_receiver sys) r"
  proof (cases "\<exists>from data. received = Udp_datagram from data \<and> data \<noteq> []")
    case True
    then obtain a data where d: "received = Udp_datagram a data" "data \<noteq> []" by blast
    from udp_receive_ok [OF no_yield_ok o n d(2), of a] r show ?thesis unfolding d(1) by auto
  next
    case False
    then have "r = ud_receiver sys" using r by (auto simp: udp_receive_def split: udp_recv.splits)
    with o show ?thesis by simp
  qed
  then show ?thesis using ok same_socket_two [of "ud_receiver sys" r] by (simp add: udp_mode_ok_def udp_procs_ok_def)
qed

theorem udp_run_ok: "udp_run sys \<Longrightarrow> udp_mode_ok sys"
proof (induction rule: udp_run.induct)
  case (start_single config mem calls sys)
  have "uk_allocated calls" using start_single by (auto simp: run_udp_single_processor_def split: if_splits)
  from udp_single_start [OF this, of config mem] start_single show ?case by (auto simp: fresh_udp_def split: if_splits)
next
  case (start_dual config mem calls sys)
  have "uk_allocated calls" using start_dual by (auto simp: run_udp_dual_processor_def split: if_splits)
  from udp_dual_start [OF this, of config mem] start_dual show ?case by (auto simp: fresh_udp_def split: if_splits)
next
  case (step sys sys')
  from step.hyps(2) step.IH show ?case
  proof (cases rule: udp_step.cases)
    case (receive now received r)
    then show ?thesis using udp_receive_step [OF step.IH] by blast
  next
    case (processor k p l clock p' l')
    from udp_processor_step [OF step.IH processor(2,3)] processor(1,4) show ?thesis by auto
  next
    case (publish sendto ctx)
    from udp_publish_step [OF step.IH, of sendto] publish show ?thesis by auto
  qed
qed

section \<open>From the requests to the answers\<close>

text \<open>The client's requests, in either encoding.\<close>

lemma encode_requests_udp:
  assumes "cd_send_encoding cd = (if q = CLIENT_PROTOCOL_BINARY then ENCODING_BINARY else ENCODING_CSV)" and "q \<in> {CLIENT_PROTOCOL_BINARY, CLIENT_PROTOCOL_CSV}"
    and "\<forall>m\<in>set ms. sendable m" and "encode_requests cd ms = Some bss"
  shows "list_all2 (udp_request_bytes q) bss ms"
  using assms
proof (induction ms arbitrary: cd bss)
  case (Cons m ms)
  obtain r cd' where e: "encode_request cd m = (r, cd')" by fastforce
  with Cons.prems(4) obtain bs bss' where b: "r = Some bs" "encode_requests cd' ms = Some bss'" "bss = bs # bss'" by (auto split: option.splits)
  have "cd_send_encoding cd' = cd_send_encoding cd" using encode_request_keeps [of cd m] e by simp
  with Cons.IH [of cd' bss'] Cons.prems(1-3) b(2) have "list_all2 (udp_request_bytes q) bss' ms" by simp
  moreover have "udp_request_bytes q bs m"
    using Cons.prems(1-3) e b(1) encode_binary_carries [of cd m] encode_csv_request [of cd m] by (auto simp: udp_request_bytes_def split: if_splits)
  ultimately show ?case by (simp add: b(3))
qed simp

lemma udp_envelopes_keys: "map key_of (udp_envelopes c addr n ms) = map key_of (map (envelope_of c None) ms)"
  by (induction ms arbitrary: n) (simp_all add: envelope_of_def udp_envelope_def)

lemma udp_answers:
  assumes "answers clock c ms e outs e'"
  shows "\<not> matching_engine_has_flush_in_progress (en_engine e)" "batch_ok clock 0 (udp_envelopes c addr n ms) e" "engine_batch clock 0 (udp_envelopes c addr n ms) e = Some (outs, e')"
  using assms engine_batch_keys [OF udp_envelopes_keys, of clock 0 c addr n ms e] by (simp_all add: answers_def)

lemma udp_envelopes_filter: "\<forall>m\<in>set ms. P m \<Longrightarrow> filter (\<lambda>e. P (ie_msg e)) (udp_envelopes c addr n ms) = udp_envelopes c addr n ms"
  by (induction ms arbitrary: n) simp_all

lemma turns_one: "length xs \<le> n \<Longrightarrow> turns n xs [] = xs" "length xs \<le> n \<Longrightarrow> turns n [] xs = xs"
proof (induction n arbitrary: xs)
  case (Suc n)
  { case 1 with Suc show ?case by (cases xs) simp_all }
  { case 2 with Suc show ?case by (cases xs) simp_all }
qed simp_all

lemma to_sockaddr_peer: "peer a = peer (compact from) \<Longrightarrow> to_sockaddr a = from"
  by (cases "from") (simp add: to_sockaddr_def peer_def compact_def)

text \<open>The answers for a client that was heard with the encoding \<open>q\<close> go to its address in that encoding.\<close>

lemma answer_to_client:
  assumes ok: "clients_ok m" "ids_ok m" "um_next_id m \<noteq> 0xFFFFFFFF" and now: "now < INT64_MAX" and room: "card (used m) < MAX_UDP_CLIENTS"
    and g: "client_map_get_or_create (compact from) now m = (c, m1)" and s: "same_registration m1 m2"
    and p: "protocol_of m2 (compact from) = map_option (\<lambda>p. if p = CLIENT_PROTOCOL_UNKNOWN then q else p) (protocol_of m1 (compact from))"
    and q: "protocol_of m (compact from) \<in> {None, Some CLIENT_PROTOCOL_UNKNOWN, Some q}"
    and e: "oe_client_id e = c"
  shows "answer_datagram m2 e = [(from, out_bytes (q = CLIENT_PROTOCOL_BINARY) (oe_msg e))]"
proof -
  note reg = registration [OF ok now g] and fnd = registration_found [OF ok now room g] and same = same_registration_ok [OF s]
  from fnd(1) obtain i where i: "client_map_find_slot m2 (compact from) = Some (i, True)" "id_at m2 i = c" unfolding same by blast
  have ids: "ids_ok m2" using reg(2) same(2) by simp
  have "client_map_get_protocol m2 c = the (protocol_of m2 (compact from))" using get_protocol_of [OF ids i(1)] i(2) by simp
  also have "\<dots> = q" using p fnd(2) q by (auto split: option.splits)
  finally have pr: "client_map_get_protocol m2 c = q" .
  have "peers_by_id m2 c = Some (peer (compact from))" using reg(4) same(6) by (metis fun_upd_same)
  then obtain a where a: "client_map_find_addr m2 c = Some a" "peer a = peer (compact from)" by (auto simp: peers_by_id_def)
  show ?thesis unfolding answer_datagram_def e pr using reg(3) a(1) to_sockaddr_peer [OF a(2)] by simp
qed

theorem udp_exchange_ok:
  assumes ok: "udp_mode_ok sys" and p: "ud_proc sys k = Some (p, l)"
    and idle: "\<And>j. arrivals (ud_receiver sys) j = []" "\<And>j. outgoing (ud_publisher sys) j = []"
    and cl: "um_next_id (ur_clients (ud_receiver sys)) \<noteq> 0xFFFFFFFF" "card (used (ur_clients (ud_receiver sys))) < MAX_UDP_CLIENTS" "now < INT64_MAX"
      "protocol_of (ur_clients (ud_receiver sys)) (compact from) \<in> {None, Some CLIENT_PROTOCOL_UNKNOWN, Some q}"
    and req: "list_all2 (udp_request_bytes q) bss ms" "ms \<noteq> []" "length ms \<le> 32" "\<forall>m\<in>set ms. goes_to (two_queues (ud_receiver sys)) m k"
    and c: "c = fst (client_map_get_or_create (compact from) now (ur_clients (ud_receiver sys)))"
    and ans: "answers clock c ms (px_engine p) outs e'" and few: "length (route_all (lv_sequence l) outs) \<le> n" "n < LOCKFREE_QUEUE_SIZE"
    and sock: "0 \<le> ur_sockfd (ud_receiver sys)" "\<forall>a d. 0 \<le> sendto a d"
  shows "\<exists>r p' l' sys2 ctx. udp_receive yield now (Udp_datagram from (concat bss)) (ud_receiver sys) = Some r
     \<and> processor_iteration clock (udp_attach k (sys\<lparr>ud_receiver := r\<rparr>) p) l = Some (p', l') \<and> px_engine p' = e' \<and> sys2 = udp_detach k p' (sys\<lparr>ud_receiver := r\<rparr>)
     \<and> udp_output_publisher_thread n sendto (publisher_of sys2) = Some ctx \<and> (\<forall>j. outgoing ctx j = [])
     \<and> ur_wire (pb_udp ctx) = ur_wire (ud_receiver sys) @ concat (map (answer_datagram (ur_clients r)) (route_all (lv_sequence l) outs))
     \<and> (\<forall>e\<in>set (route_all (lv_sequence l) outs). oe_client_id e = c \<longrightarrow> answer_datagram (ur_clients r) e = [(from, out_bytes (q = CLIENT_PROTOCOL_BINARY) (oe_msg e))])"
proof -
  let ?r0 = "ud_receiver sys" and ?es = "route_all (lv_sequence l) outs"
  obtain cm where g: "client_map_get_or_create (compact from) now (ur_clients ?r0) = (c, cm)" using c by (metis prod.collapse)
  have o: "receiver_ok ?r0" "clients_ok (ur_clients ?r0)" "ids_ok (ur_clients ?r0)" using ok by (simp_all add: udp_mode_ok_def receiver_ok_def)
  have room: "\<forall>j. length (arrivals ?r0 j) + length ms < LOCKFREE_QUEUE_SIZE" using idle(1) req(3) by simp
  from udp_receive_requests [OF o(1) cl(1,3) req(1,2) room g, of yield] obtain r where
    r: "udp_receive yield now (Udp_datagram from (concat bss)) ?r0 = Some r" "receiver_ok r" "same_socket ?r0 r" "same_registration cm (ur_clients r)"
      "protocol_of (ur_clients r) (compact from) = map_option (\<lambda>p. if p = CLIENT_PROTOCOL_UNKNOWN then q else p) (protocol_of cm (compact from))"
      "\<forall>j. arrivals r j = arrivals ?r0 j @ filter (\<lambda>e. goes_to (two_queues ?r0) (ie_msg e) j) (udp_envelopes c (compact from) (ur_sequence ?r0) ms)" by blast
  define sys1 where "sys1 = sys\<lparr>ud_receiver := r\<rparr>"
  have s1: "ud_receiver sys1 = r" "ud_publisher sys1 = ud_publisher sys" "ud_proc sys1 k = Some (p, l)" using p by (simp_all add: sys1_def)
  have ok1: "udp_mode_ok sys1" using ok r(2) same_socket_two [OF r(3)] by (simp add: udp_mode_ok_def sys1_def udp_procs_ok_def)
  let ?b = "udp_envelopes c (compact from) (ur_sequence ?r0) ms"
  have in1: "arrivals (ud_receiver sys1) k = ?b" using r(6) idle(1) udp_envelopes_filter [OF req(4)] by (simp add: sys1_def)
  have k: "k \<longrightarrow> pb_queue_1 (ud_publisher sys1) \<noteq> None" using ok1 s1(3) by (auto simp: udp_mode_ok_def udp_procs_ok_def)
  note at = udp_attach_ok [OF ok1 k, where p = p] and a = udp_answers(1) [OF ans] udp_answers(2,3) [OF ans, of "compact from" "ur_sequence ?r0"]
  have t: "take 32 ?b = ?b" using req(3) by simp
  have "next_batch_ok clock (udp_attach k sys1 p)" unfolding next_batch_ok_def Let_def at(3,4) in1 t using a(1,2) by simp
  from udp_processor_step [OF ok1 s1(3) this] obtain p' l' taken outs' where
    pr: "processor_iteration clock (udp_attach k sys1 p) l = Some (p', l')" "udp_mode_ok ((udp_detach k p' sys1)\<lparr>ud_proc := (ud_proc sys1)(k := Some (p', l'))\<rparr>)"
      "engine_iteration clock (lv_flush_client_id l) ?b (px_engine p) = Some (taken, outs', px_engine p')"
      "outgoing (ud_publisher (udp_detach k p' sys1)) = (outgoing (ud_publisher sys1))(k := outgoing (ud_publisher sys1) k
         @ take (LOCKFREE_QUEUE_SIZE - 1 - length (outgoing (ud_publisher sys1) k)) (route_all (lv_sequence l) outs'))" unfolding in1 t by blast
  have e: "outs' = outs" "px_engine p' = e'" using pr(3) a by (auto simp: engine_iteration_simps(1))
  define sys2 where "sys2 = udp_detach k p' sys1"
  have out: "outgoing (ud_publisher sys2) = (\<lambda>_. [])(k := ?es)" unfolding sys2_def pr(4) e(1) using idle(2) s1(2) few by (simp add: fun_eq_iff)
  have "publisher_ok (publisher_of sys2)" using pr(2) by (simp add: udp_mode_ok_def sys2_def)
  from dual_thread_ok [OF this, of n sendto] obtain ctx where
    x: "udp_output_publisher_thread n sendto (publisher_of sys2) = Some ctx"
      "passed sendto (turns n (outgoing (ud_publisher sys2) False) (outgoing (ud_publisher sys2) True)) (\<lambda>j. drop n (outgoing (ud_publisher sys2) j)) (publisher_of sys2) ctx" by auto
  have tu: "turns n (outgoing (ud_publisher sys2) False) (outgoing (ud_publisher sys2) True) = ?es" unfolding out using few(1) by (cases k) (simp_all add: turns_one)
  have cs: "ur_clients (ud_receiver sys2) = ur_clients r" "ur_sockfd (ud_receiver sys2) = ur_sockfd ?r0" "ur_wire (ud_receiver sys2) = ur_wire ?r0"
    using r(3) by (simp_all add: sys2_def udp_detach_def sys1_def same_socket_def)
  have "datagrams sendto (ud_receiver sys2) ?es = concat (map (answer_datagram (ur_clients r)) ?es)"
    using sock by (simp add: datagrams_def sent_now_def cs case_prod_unfold filter_True)
  then have wire: "ur_wire (pb_udp ctx) = ur_wire ?r0 @ concat (map (answer_datagram (ur_clients r)) ?es)"
    using x(2) published_same(3) [of _ "publisher_of sys2" ctx] unfolding passed_def tu by (auto simp: cs)
  have "outgoing ctx j = []" for j using x(2) few(1) unfolding passed_def out by (auto simp: fun_eq_iff)
  moreover have "answer_datagram (ur_clients r) e = [(from, out_bytes (q = CLIENT_PROTOCOL_BINARY) (oe_msg e))]" if "oe_client_id e = c" for e
    by (rule answer_to_client [OF o(2,3) cl(1,3,2) g r(4,5) cl(4) that])
  ultimately show ?thesis using r(1) pr(1) e(2) x(1) wire unfolding sys1_def sys2_def by blast
qed

section \<open>The end\<close>

text \<open>The cleanup succeeds exactly when all queues are empty: nothing drains them after the shutdown flag was seen.\<close>

lemma udp_cleanup_needs_empty:
  assumes ok: "udp_mode_ok sys" and e: "destroyable (Some e0)" "destroyable e1"
  shows "udp_cleanup (ud_receiver sys) (ud_publisher sys) e0 e1 = Some () \<longleftrightarrow> (\<forall>k. arrivals (ud_receiver sys) k = [] \<and> outgoing (ud_publisher sys) k = [])"
proof -
  let ?r = "ud_receiver sys" and ?p = "ud_publisher sys"
  have r: "ur_output_queue_0 (udp_receiver_destroy ?r) = ur_output_queue_0 ?r" "ur_output_queue_1 (udp_receiver_destroy ?r) = ur_output_queue_1 ?r"
    by (simp_all add: udp_receiver_destroy_def udp_receiver_stop_def Let_def)
  have q: "queue_ok (ur_output_queue_0 ?r)" "queue_ok (pb_queue_0 ?p)" using ok by (simp_all add: udp_mode_ok_def receiver_ok_def udp_queues_ok_def publisher_ok_def)
  have d': "destroy_optional queue_destroy (Some (ur_output_queue_0 ?r)) = (if contents (ur_output_queue_0 ?r) = [] then Some () else None)"
    "destroy_optional queue_destroy (Some (pb_queue_0 ?p)) = (if contents (pb_queue_0 ?p) = [] then Some () else None)"
    using q by (simp_all add: destroy_optional_def queue_observers(3))
  have i1: "destroy_optional queue_destroy (ur_output_queue_1 ?r) = (if arrivals ?r True = [] then Some () else None)"
    using ok by (cases "ur_output_queue_1 ?r") (auto simp: destroy_optional_def queue_observers(3) arrivals_def udp_mode_ok_def receiver_ok_def udp_queues_ok_def)
  have o1: "destroy_optional queue_destroy (pb_queue_1 ?p) = (if outgoing ?p True = [] then Some () else None)"
    using ok by (cases "pb_queue_1 ?p") (auto simp: destroy_optional_def queue_observers(3) outgoing_def udp_mode_ok_def publisher_ok_def)
  have z: "arrivals ?r False = contents (ur_output_queue_0 ?r)" "outgoing ?p False = contents (pb_queue_0 ?p)" by (simp_all add: arrivals_def outgoing_def)
  show ?thesis unfolding udp_cleanup_def Let_def r i1 o1 d' destroy_engine_ok [OF e(1)] destroy_engine_ok [OF e(2)] using z by (auto simp: all_bool_eq split: if_splits)
qed

end
