(* ===== verification/ME_Udp_Examples.thy ===== *)
theory ME_Udp_Examples
  imports ME_Udp_System ME_Unified_Examples
begin

text \<open>
  Concrete states of the UDP mode for the witnesses: the mode after its start, and a table of clients that is full.
\<close>

definition udp_config :: app_config_t where
  "udp_config = \<lparr>ac_tcp_mode = False, ac_port = 1234, ac_binary_output = False, ac_dual_processor = False, ac_quiet_mode = True, ac_enable_multicast = False,
     ac_multicast_group = [], ac_multicast_port = 0\<rparr>"

definition udp_calls_work :: udp_mode_calls where
  "udp_calls_work = \<lparr>uk_allocated = True, uk_receiver = undefined\<lparr>uk_socket := 3, uk_bound := True, uk_thread := True\<rparr>\<rparr>"

definition idle_udp :: "udp_system \<Rightarrow> bool" where
  "idle_udp sys \<longleftrightarrow> udp_run sys \<and> fresh_udp sys \<and> \<not> two_queues (ud_receiver sys)
     \<and> (\<exists>p l. ud_proc sys False = Some (p, l) \<and> px_engine p = fresh_engine \<and> lv_sequence l = 0)"

lemma idle_udp_ex: "\<exists>sys. idle_udp sys"
proof -
  define mem :: udp_memory where "mem = undefined\<lparr>uy_pool_0 := raw_pool, uy_engine_0 := raw_engine\<rparr>"
  have a: "uk_allocated udp_calls_work" "receiver_starts (uk_receiver udp_calls_work)" by (simp_all add: udp_calls_work_def receiver_starts_def)
  from udp_single_start [OF a(1), of udp_config mem] a(2) obtain sys p l where s: "run_udp_single_processor udp_config mem udp_calls_work = Some (Inr sys)"
    "fresh_udp sys" "\<not> two_queues (ud_receiver sys)" "ud_proc sys False = Some (p, l)" "new_engine (uy_pool_0 mem) (uy_engine_0 mem) (px_engine p)" by auto
  have "px_engine p = fresh_engine" using s(5) fresh_pool_ok(4) by (auto simp: new_engine_def mem_def fresh_engine_def)
  moreover have "lv_sequence l = 0" using s(2,4) by (auto simp: fresh_udp_def)
  ultimately show ?thesis using s udp_run.start_single [OF s(1)] by (auto simp: idle_udp_def)
qed

lemma idle_udp_facts:
  assumes "idle_udp sys"
  shows "udp_run sys" "arrivals (ud_receiver sys) k = []" "outgoing (ud_publisher sys) k = []" "um_next_id (ur_clients (ud_receiver sys)) = 0x80000001"
    "used (ur_clients (ud_receiver sys)) = {}" "0 \<le> ur_sockfd (ud_receiver sys)" "\<not> two_queues (ud_receiver sys)" "protocol_of (ur_clients (ud_receiver sys)) a = None"
proof -
  have "used (ur_clients (ud_receiver sys)) = {}" using assms by (simp add: idle_udp_def fresh_udp_def)
  then show "protocol_of (ur_clients (ud_receiver sys)) a = None"
    using find_slot_holds [of "ur_clients (ud_receiver sys)" a] by (auto simp: protocol_of_def holds_def split: option.splits bool.splits)
qed (use assms in \<open>simp_all add: idle_udp_def fresh_udp_def\<close>)

text \<open>The greatest number of clients; the one in the home slot of \<open>new_addr\<close> was not heard of for the longest time.\<close>

definition new_addr :: udp_client_addr_t where
  "new_addr = \<lparr>ua_addr = 0, ua_port = 1, ua_pad = 0\<rparr>"

definition from_home :: "nat \<Rightarrow> nat" where
  "from_home i = (i + (UDP_CLIENT_HASH_SIZE - slot_of new_addr 0)) mod UDP_CLIENT_HASH_SIZE"

definition full_clients :: udp_client_map_t where
  "full_clients = \<lparr>um_entries = (\<lambda>i.
       \<lparr>ue_last_seen = int (from_home i), ue_addr = \<lparr>ua_addr = of_nat (from_home i), ua_port = 2, ua_pad = 0\<rparr>, ue_client_id = 0x80000001 + of_nat (from_home i),
         ue_protocol = CLIENT_PROTOCOL_BINARY, ue_active = from_home i < MAX_UDP_CLIENTS\<rparr>),
     um_count = 4096, um_next_id = 0x80001001\<rparr>"

lemma from_home_bij: "bij_betw from_home {..<UDP_CLIENT_HASH_SIZE} {..<UDP_CLIENT_HASH_SIZE}"
proof -
  have s: "slot_of new_addr 0 < UDP_CLIENT_HASH_SIZE" by simp
  have "from_home ((k + slot_of new_addr 0) mod UDP_CLIENT_HASH_SIZE) = k" if "k < UDP_CLIENT_HASH_SIZE" for k
  proof -
    have "k + slot_of new_addr 0 + (UDP_CLIENT_HASH_SIZE - slot_of new_addr 0) = k + UDP_CLIENT_HASH_SIZE" using s by linarith
    then show ?thesis using that unfolding from_home_def mod_add_left_eq by simp
  qed
  then have "k \<in> from_home ` {..<UDP_CLIENT_HASH_SIZE}" if "k < UDP_CLIENT_HASH_SIZE" for k
    using that by (intro image_eqI [of _ _ "(k + slot_of new_addr 0) mod UDP_CLIENT_HASH_SIZE"]) simp_all
  then have "{..<UDP_CLIENT_HASH_SIZE} \<subseteq> from_home ` {..<UDP_CLIENT_HASH_SIZE}" by blast
  moreover have "from_home ` {..<UDP_CLIENT_HASH_SIZE} \<subseteq> {..<UDP_CLIENT_HASH_SIZE}" by (auto simp: from_home_def)
  ultimately have im: "from_home ` {..<UDP_CLIENT_HASH_SIZE} = {..<UDP_CLIENT_HASH_SIZE}" by blast
  then show ?thesis unfolding bij_betw_def using eq_card_imp_inj_on [of "{..<UDP_CLIENT_HASH_SIZE}" from_home] by simp
qed

lemma full_clients_used: "used full_clients = {i. i < UDP_CLIENT_HASH_SIZE \<and> from_home i < MAX_UDP_CLIENTS}"
  by (simp add: used_def full_clients_def)

lemma full_clients_home: "slot_of new_addr 0 \<in> used full_clients" "from_home (slot_of new_addr 0) = 0"
proof -
  have s: "slot_of new_addr 0 < UDP_CLIENT_HASH_SIZE" by simp
  then have "slot_of new_addr 0 + (UDP_CLIENT_HASH_SIZE - slot_of new_addr 0) = UDP_CLIENT_HASH_SIZE" by linarith
  then show "from_home (slot_of new_addr 0) = 0" unfolding from_home_def by simp
  with s show "slot_of new_addr 0 \<in> used full_clients" by (simp add: full_clients_used)
qed

lemma full_clients_inj: "inj_on from_home (used full_clients)"
  using from_home_bij unfolding bij_betw_def by (rule inj_on_subset [OF conjunct1]) (auto simp: full_clients_used)

lemma full_clients_card: "card (used full_clients) = MAX_UDP_CLIENTS"
proof -
  have "from_home ` used full_clients = {..<MAX_UDP_CLIENTS}"
  proof (intro equalityI subsetI)
    fix k assume k: "k \<in> {..<MAX_UDP_CLIENTS}"
    then have "k \<in> from_home ` {..<UDP_CLIENT_HASH_SIZE}" using from_home_bij by (simp add: bij_betw_def)
    with k show "k \<in> from_home ` used full_clients" by (auto simp: full_clients_used)
  qed (auto simp: full_clients_used)
  then show ?thesis using card_image [OF full_clients_inj] by simp
qed

lemma full_clients_id:
  assumes "i \<in> used full_clients"
  shows "unat (id_at full_clients i) = 0x80000001 + from_home i" "unat (fst (peer_at full_clients i)) = from_home i"
proof -
  have "from_home i < 4096" using assms by (simp add: full_clients_used)
  then show "unat (id_at full_clients i) = 0x80000001 + from_home i" "unat (fst (peer_at full_clients i)) = from_home i"
    by (simp_all add: full_clients_def peer_def unat_word_ariths unat_of_nat)
qed

lemma full_clients_ok: "clients_ok full_clients" "ids_ok full_clients" "um_next_id full_clients \<noteq> 0xFFFFFFFF"
proof -
  have u: "unat (um_count full_clients) = 4096" "unat (um_next_id full_clients) = 0x80001001" by (simp_all add: full_clients_def)
  have b: "0x80000000 < unat (id_at full_clients i)" "unat (id_at full_clients i) < 0x80001001" if "i \<in> used full_clients" for i
    using full_clients_id(1) [OF that] that by (simp_all add: full_clients_used)
  have t: "ue_last_seen (um_entries full_clients i) < INT64_MAX" if "i \<in> used full_clients" for i
    using that unfolding full_clients_used by (simp add: full_clients_def)
  show "clients_ok full_clients" using u b t full_clients_card by (simp add: clients_ok_def word_less_nat_alt)
  have "inj_on (id_at full_clients) (used full_clients)"
    using inj_onD [OF full_clients_inj] full_clients_id(1) by (intro inj_onI) (metis add_left_cancel)
  then show "ids_ok full_clients" using b u by (simp add: ids_ok_def word_less_nat_alt)
  show "um_next_id full_clients \<noteq> 0xFFFFFFFF" by (simp add: full_clients_def)
qed

lemma full_clients_oldest:
  "\<forall>i\<in>used full_clients. i \<noteq> slot_of new_addr 0 \<longrightarrow> ue_last_seen (um_entries full_clients (slot_of new_addr 0)) < ue_last_seen (um_entries full_clients i)"
proof (intro ballI impI)
  fix i assume i: "i \<in> used full_clients" "i \<noteq> slot_of new_addr 0"
  then have "from_home i \<noteq> 0" using inj_onD [OF full_clients_inj, of i "slot_of new_addr 0"] full_clients_home by auto
  then show "ue_last_seen (um_entries full_clients (slot_of new_addr 0)) < ue_last_seen (um_entries full_clients i)"
    by (simp add: full_clients_def full_clients_home(2))
qed

lemma new_addr_unknown: "peer new_addr \<notin> ran (peers_by_id full_clients)"
  unfolding ran_peers_by_id [OF full_clients_ok(2)] by (auto simp: full_clients_def new_addr_def peer_def)

text \<open>A newcomer in this table takes the identifier \<open>0x80001001\<close> and loses it with its next datagram.\<close>

lemma new_addr_lost:
  assumes "client_map_get_or_create new_addr 5000 full_clients = (c, m)"
  shows "peers_by_id m c = Some (0, 1)" "client_map_get_protocol (client_map_set_protocol new_addr CLIENT_PROTOCOL_CSV m) c = CLIENT_PROTOCOL_UNKNOWN"
    "fst (client_map_get_or_create new_addr 5001 m) \<noteq> c"
  using new_client_lost [OF full_clients_ok full_clients_card full_clients_home(1) full_clients_oldest new_addr_unknown _ assms]
  by (simp_all add: peer_def new_addr_def)

end
