(* ===== verification/Spec2Isabelle.thy ===== *)
theory Spec2Isabelle
  imports ME_Examples ME_Symbol_Router ME_Framing ME_Binary ME_Queue ME_Csv ME_Registry ME_Processor ME_Csv_Output ME_Unified_Examples ME_Tcp_Examples ME_Udp_Examples
begin

text \<open>
  Verification of the matching engine (\<^verbatim>\<open>src/src\<close>, \<^verbatim>\<open>src/include\<close>, \<^verbatim>\<open>src/tools/client\<close>).

  \<^bold>\<open>The program.\<close>  Clients send new orders, cancels and flushes, as CSV lines or as packed
  binary structures in length-prefixed TCP frames.  The requests pass through a single-producer
  single-consumer queue to a processor thread, one of two chosen by the first letter of the symbol.
  The processor gives each request to its matching engine, which keeps one order book per
  symbol; the answers (acknowledgements, trades, top-of-book changes) pass through another
  queue to the router thread, which formats and sends them to the clients and to a multicast group.  The
  unified server puts these parts together: a thread per TCP connection, one for datagrams, one or two
  processors and the router.  The TCP mode is the other way to put them together: one event loop for all
  connections, one or two processors, and the output router, which hands the answers back to the event loop.  The UDP mode
  is the third: a receiver for datagrams, one or two processors, and a publisher that sends the answers to the addresses of the clients.

  \<^bold>\<open>The model.\<close>  C integers are words of their width; a function that contains assertions returns
  an \<open>option\<close>, \<open>None\<close> being the aborted program; C arrays are functions on indices with the
  number of used cells beside them; pointers into the order pool are optional slot numbers.  The
  theories, with the sources they model:

  \<^item> \<open>ME_Prelude\<close>: words, assertions, loops with an early return, arrays, C strings.
  \<^item> \<open>ME_Messages\<close> (\<^verbatim>\<open>protocol/message_types.h\<close>) and \<open>ME_Order\<close> (\<^verbatim>\<open>core/order.h\<close>; the clock is an argument).
  \<^item> The order book, \<^verbatim>\<open>core/order_book.c\<close> and \<^verbatim>\<open>.h\<close>: \<open>ME_Pool\<close> (memory pool; the locale
    \<open>allocator\<close> is its interface), \<open>ME_Open_Addressing\<close> (linear probing, once for the three hash
    tables, as a locale), \<open>ME_Order_Map\<close>, \<open>ME_Order_List\<close> (intrusive lists), \<open>ME_Price_Levels\<close>
    (sorted arrays, binary search), \<open>ME_Order_Book\<close> (trades, matching loops, resting, cancels, top
    of book, flush, client cancels; state \<open>ctx\<close> = book, pool and output buffer).
  \<^item> Its specification \<open>ME_Book_Spec\<close> (price levels as lists of orders, \<open>spec_add\<close>,
    \<open>spec_cancel\<close>) and the refinement: \<open>ME_Book_Refine\<close> (\<open>book_rep\<close>), \<open>ME_Book_Match\<close>,
    \<open>ME_Book_Ops\<close>, \<open>ME_Book_Cancel\<close>, \<open>ME_Book_Flush\<close>, \<open>ME_Book_Client\<close>; \<open>ME_Book_Props\<close> reads off
    what users of a book rely on.
  \<^item> The engine, \<^verbatim>\<open>core/matching_engine.c\<close> and \<^verbatim>\<open>.h\<close>: \<open>ME_Symbol_Maps\<close>, \<open>ME_Matching_Engine\<close>,
    \<open>ME_Engine_Refine\<close> (an abstract engine is a map from symbols to abstract books),
    \<open>ME_Engine_Flush\<close>, \<open>ME_Engine_Run\<close> (the inductive predicate \<open>engine_run\<close> of the states of admissible runs).
  \<^item> \<open>ME_Symbol_Router\<close> (\<^verbatim>\<open>protocol/symbol_router.h\<close>), \<open>ME_Bytes\<close> and \<open>ME_Framing\<close>
    (\<^verbatim>\<open>network/message_framing.c\<close>), \<open>ME_Binary\<close> (\<^verbatim>\<open>protocol/binary\<close> and the binary half of
    \<^verbatim>\<open>tools/client/codec.c\<close>), \<open>ME_Csv\<close> (\<^verbatim>\<open>protocol/csv/message_parser.c\<close> and the CSV encoders of the
    client).
  \<^item> \<open>ME_Queue\<close> (\<^verbatim>\<open>threading/lockfree_queue.h\<close>): the functions of the macro, the locales
    \<open>fifo\<close> and \<open>batch_fifo\<close> with their interpretation on it, and the concurrent queue as step relations.
  \<^item> \<open>ME_Csv_Output\<close> (\<^verbatim>\<open>protocol/csv/message_formatter.c\<close> and the rest of \<^verbatim>\<open>tools/client/codec.c\<close>): the
    text of the responses, the client's decoder for it and the codec object \<open>codec_t\<close>.
  \<^item> \<open>ME_Envelope\<close> (\<^verbatim>\<open>protocol/message_types_extended.h\<close>): client identifiers and the envelopes in
    the queues.  \<open>ME_Registry\<close> (\<^verbatim>\<open>threading/client_registry.c\<close>): the hash table of the clients,
    abstracted to a map \<open>clients\<close>; the locale \<open>directory\<close> is interpreted for its TCP and its UDP side.
  \<^item> \<open>ME_Outputs\<close>: every message an operation of the book or the engine emits can be sent.
    \<open>ME_Processor\<close> (\<^verbatim>\<open>threading/processor.c\<close>) joins the queues and the engine: \<open>proc_ctx\<close> is the
    processor with the engine and both queues, \<open>thread_locals\<close> the variables of its thread,
    \<open>processor_iteration\<close> a pass through its loop; \<open>engine_iteration\<close>, \<open>route_all\<close> and \<open>deliver\<close> are the
    reference it is compared with.
  \<^item> The unified server, \<^verbatim>\<open>modes/unified_mode.c\<close>, \<^verbatim>\<open>unified_tcp.c\<close>, \<^verbatim>\<open>unified_udp.c\<close>, \<^verbatim>\<open>unified_router.c\<close> and their headers:
    \<open>ME_Unified\<close> (users, routing, TCP handlers, datagrams) and \<open>ME_Unified_Router\<close> (sending) hold the definitions on the
    state \<open>unified_server_t\<close>.  \<open>ME_Unified_Stream\<close>: a stream cut into blocks (locale \<open>consumer\<close>, interpreted for the
    three framings and the handler).  \<open>ME_Unified_Input\<close>: the direct-mapped user map (locale \<open>direct_mapped\<close>),
    the invariant \<open>server_ok\<close>, and the input queues as lists (\<open>waiting\<close>).  \<open>ME_Unified_Requests\<close> and \<open>ME_Unified_Datagrams\<close>:
    what the client encodes is what the server accepts.  \<open>ME_Unified_Output\<close>: what is sent to whom (\<open>served\<close>).
    \<open>ME_Unified_Safe\<close>: the router never aborts.  \<open>ME_Unified_System\<close>: start, clean-up, and the threads as the
    step relation \<open>unified_step\<close> with the states \<open>unified_run\<close> of its guarded runs.  \<open>ME_Unified_Run\<close>: the way from a
    request to its answers, and the end of the server.
  \<^item> The TCP mode.  \<open>ME_Tcp_Connection\<close> (\<^verbatim>\<open>network/tcp_connection.c\<close>): the table of the clients, abstracted to a map
    \<open>tcp_table\<close>.  \<open>ME_Tcp_Listener\<close> (\<^verbatim>\<open>network/tcp_listener.c\<close>): the event loop on the state \<open>tcp_listener_context_t\<close>, with
    the interest list of epoll and the trace of the written bytes beside the fields of the structure.  \<open>ME_Tcp_Input\<close> and
    \<open>ME_Tcp_Stream\<close>: what a read and a stream of frames put into the input queues (\<open>inbox\<close>).  \<open>ME_Tcp_Output\<close>,
    \<open>ME_Tcp_Safe\<close>, \<open>ME_Tcp_Delivery\<close>: partial writes keep the stream of a client, the invariant \<open>listener_ok\<close> of the event loop, and that
    what is queued is delivered.  \<open>ME_Output_Router\<close> (\<^verbatim>\<open>threading/output_router.c\<close>) and \<open>ME_Router_Delivery\<close>: what a round
    and the drain hand out to whom.  \<open>ME_Tcp_Mode\<close> (\<^verbatim>\<open>modes/tcp_mode.c\<close>): start, clean-up, and the threads as the step
    relation \<open>tcp_step\<close> with the states \<open>tcp_run\<close> of its guarded runs; \<open>ME_Tcp_System\<close>: the invariant \<open>tcp_inv\<close> and the way from a
    request to its answers; \<open>ME_Tcp_Shutdown\<close>: the end.
  \<^item> The UDP mode.  \<open>ME_Udp_Clients\<close> (\<^verbatim>\<open>network/udp_receiver.c\<close>, the client map): the hash table of the clients, abstracted to the map \<open>peers_by_id\<close>;
    probing, eviction, the stable identifiers, and the hole that an eviction leaves.  \<open>ME_Udp_Receiver\<close> (the rest of the file): the receiver on the state \<open>udp_receiver_t\<close>,
    with the trace \<open>ur_wire\<close> of the datagrams sent.  \<open>ME_Udp_Requests\<close>: what a datagram puts into the input queues (\<open>arrivals\<close>) and when the receiver
    aborts.  \<open>ME_Udp_Publisher\<close> (\<^verbatim>\<open>modes/udp_mode.c\<close>, first half) and \<open>ME_Udp_Delivery\<close>: the publisher of the answers and what it sends to whom
    (\<open>answer_datagram\<close>).  \<open>ME_Udp_Mode\<close> (second half): start, clean-up, and the threads as the step relation \<open>udp_step\<close> with the states
    \<open>udp_run\<close> of its guarded runs; \<open>ME_Udp_System\<close>: the invariant \<open>udp_mode_ok\<close>, the way from a request to its answers, and the end.
  \<^item> \<open>ME_Examples\<close>, \<open>ME_Unified_Examples\<close>, \<open>ME_Tcp_Examples\<close>, \<open>ME_Udp_Examples\<close>: the concrete states of the witnesses.

  \<^bold>\<open>The properties\<close> are C1 to C40 below: the book (C1-C7), the engine (C8-C12), the
  data structures (C13, C14), the framing (C15), the binary protocol (C16, C17), the queue (C18-C20), the CSV
  requests (C21), the processor thread (C22), the client registry (C23), the responses (C24), the
  unified server (C25-C30), the TCP mode (C31-C37) and the UDP mode (C38-C40).  Beside them stand further theorems on the components, without a number.

  \<^bold>\<open>Bounds and loops.\<close>  The bounded loops of the sources carry their bound as in the code
  (\<open>MAX_MATCH_ITERATIONS\<close> and the rest); the matching loops end because every iteration fills an
  order, and the assertion on the iteration count holds when the opposite side holds fewer
  orders than it, which the guards of the properties state.  The flush loops have measures.
  \<open>flush_run\<close>, \<open>extract_all\<close>, \<open>receive\<close> and \<open>send_all\<close> call the code repeatedly with fuel; the properties
  prove that a stated amount of fuel is enough.  \<open>delivery_passes\<close> is one pass of the event loop per element of a list; as many as
  there are bytes to send are enough.  The threads of the UDP publisher carry the number of their passes; as many as there are waiting answers are enough.

  \<^bold>\<open>Guards.\<close>  \<open>admissible\<close> collects, as an executable test, what the code leaves to its callers:
  a valid side, a positive quantity, a non-empty symbol of at most 15 characters, identifiers other than the
  two reserved pairs and not those of a resting order, room in the order map and the level array, and for a
  flush a free slot in the pool.  \<open>next_batch_ok\<close> asks this of each request of a batch in the state it
  meets, and that no flush is in progress there.  C8 and C9 speak of the runs of the engine with such messages (\<open>engine_run\<close>), and C25, C26, C31 and C38 of the runs of the servers in which
  the processors meet such batches (\<open>unified_run\<close>, \<open>tcp_run\<close>, \<open>udp_run\<close>); outside of them a processor can abort, and does when its engine
  aborts on the next message (\<open>first_fatal\<close>).  Two cases do not abort but leave these runs: a second order with the identifiers of a resting one, and messages that
  follow a flush in the same batch.  \<open>events_ok\<close> is what epoll and accept promise of the events of a pass, no more: messages that make the parser abort are among them, and
  C31 says so (\<open>bad_pass\<close>).  The UDP receiver needs an identifier other than 0xFFFFFFFF for the next client and a clock below its largest value.  A read of a framed stream
  (C15) must fit into the framing buffer beside an incomplete frame.  \<open>tcp_room\<close> and \<open>udp_room\<close> bound the clients by the probe
  length of the lookups, below which the registry is a map; the UDP clients keep their identifiers as long as there are at most 4096 of them.  \<open>sendable\<close> describes the requests both encodings can carry,
  \<open>ready\<close> the answers every client can decode.

  \<^bold>\<open>Memory model.\<close>  The queue's indices are C11 atomics with release stores and acquire loads, and every
  cell is written before the release and read after the acquire; the model interleaves the
  atomic accesses of the two threads, one per step.  C20 is the absence of the data race that
  this rests on.  A step of the unified server, of the TCP mode or of the UDP mode is a whole pass through the loop of one of its threads; the interleaving inside a
  pass, in particular of several connections that enqueue into one input queue, is not part of the model.

  \<^bold>\<open>Not modelled.\<close>  The creation of threads, socket options, the kqueue variant of the event loop, DPDK, the command line and printing: these parts
  are operating system and library calls.  The results of the calls that send, receive, accept and wait are arguments of the model
  (\<open>net\<close>, \<open>recv_result\<close>, \<open>datagram\<close>, \<open>accept_result\<close>, \<open>wait_result\<close>, \<open>write_result\<close>, \<open>udp_recv\<close>, \<open>sendto\<close>).  When an input queue of the UDP mode is full
  the receiver yields and tries again: what the other threads do meanwhile is the argument \<open>yield\<close>, of which the lemmas ask only that it takes messages from the front of the queues; in the
  step relation it does nothing, so that the message is dropped.  The multicast publisher, the transport interface for DPDK with its second
  implementation of sockets, and the interactive part of the client are left out.
\<close>

section \<open>The order book\<close>

text \<open>
  C1.  \<open>order_book_add_order\<close> implements the specification: from a represented book, with
  room in the pool, it does not abort, ends in a represented book, does to the abstract book what
  \<open>spec_add\<close> does, and appends the specified messages to the output buffer (which keeps
  the first 8192).  The orders of other books are not touched.
\<close>

theorem add_order_refines:
  assumes "book_rep c qs" and "add_pre c qs msg" and "allocated (cx_pool c) \<noteq> {..<MAX_ORDERS_IN_POOL}"
  shows "\<exists>c' qs'. order_book_add_order msg client_id ts c = Some c' \<and> book_rep c' qs'
     \<and> (abs_book c' qs', cx_out c') = (let (b, msgs) = spec_add (abs_book c qs) (order_of_msg msg client_id ts)
                                         in (b, emit (cx_out c) msgs))
     \<and> others_kept c qs c' qs'"
  using order_book_add_order_ok [OF assms] by blast

theorem add_order_refines_witness:
  "\<exists>c qs c' qs'. ask_state c qs \<and> order_book_add_order market_msg 12 1 c = Some c' \<and> book_rep c' qs'
     \<and> ab_side (abs_book c' qs') = (\<lambda>d. if d then [] else [(100, [ask\<lparr>o_remaining_qty := 6\<rparr>])])"
proof -
  from ask_state_ex obtain c qs where a: "ask_state c qs" by blast
  then have rep: "book_rep c qs" "allocated (cx_pool c) \<noteq> {..<MAX_ORDERS_IN_POOL}" and abs: "abs_book c qs = ask_book"
    by (simp_all add: ask_state_def)
  from add_order_refines [OF rep(1) market_pre [OF a] rep(2), of 12 1, unfolded abs] obtain c' qs' where
    c': "order_book_add_order market_msg 12 1 c = Some c'" "book_rep c' qs'"
      "abs_book c' qs' = fst (spec_add ask_book (order_of_msg market_msg 12 1))" by (auto simp: split_beta)
  have "ab_side (abs_book c' qs') = (\<lambda>d. if d then [] else [(100, [ask\<lparr>o_remaining_qty := 6\<rparr>])])"
    unfolding c'(3) spec_add_market ..
  with a c'(1,2) show ?thesis by blast
qed

text \<open>
  C2.  Price-time priority.  The trades of an incoming order are with the eligible orders of
  the opposite side, best price first and oldest first at a price, each at the price of the
  resting order; every one of them but the last is filled, and the orders behind the last
  keep their quantity and their place.
\<close>

theorem price_time_priority:
  assumes "book_rep c qs" and "add_pre c qs msg" and "allocated (cx_pool c) \<noteq> {..<MAX_ORDERS_IN_POOL}"
  shows "\<exists>c' qs' tob. order_book_add_order msg cid ts c = Some c' \<and> book_rep c' qs'
     \<and> (let a = order_of_msg msg cid ts; d = (no_side msg \<noteq> SIDE_BUY); s = ob_symbol (cx_book c);
            Q = flat (takeWhile (\<lambda>l. can_match d a (fst l)) (abs_sides c qs d));
            rest = flat (dropWhile (\<lambda>l. can_match d a (fst l)) (abs_sides c qs d))
        in cx_out c' = emit (cx_out c) (ack_of s (no_user_id msg) (no_user_order_id msg)
                 # map (\<lambda>(x, n). trade_between s a x (o_price x) n) (fills (no_quantity msg) Q) @ tob)
           \<and> flat (abs_sides c' qs' d) = leftover (no_quantity msg) Q @ rest \<and> traded tob = 0)"
proof -
  let ?a = "order_of_msg msg cid ts" and ?b = "abs_book c qs" and ?d = "no_side msg \<noteq> SIDE_BUY"
  from add_order_result [OF assms, of cid ts] obtain c' qs' where
    c': "order_book_add_order msg cid ts c = Some c'" "book_rep c' qs'" "abs_book c' qs' = fst (spec_add ?b ?a)"
      "cx_out c' = emit (cx_out c) (snd (spec_add ?b ?a))" by blast
  have pr: "priced (ab_side ?b (o_side ?a \<noteq> SIDE_BUY))" using rep_priced [OF assms(1)] by simp
  obtain b1 ts' where m: "spec_match ?b ?a = (b1, ts')" by (cases "spec_match ?b ?a")
  have "abs_sides c' qs' ?d = ab_side b1 ?d"
    using arg_cong [OF c'(3), of ab_side] spec_add_msgs(2) [OF pr] m by simp
  with c'(1,2,4) spec_match_sides(2) [OF pr m] spec_add_msgs(1) [OF pr] show ?thesis
    by (intro exI [of _ c'] exI [of _ qs'] exI [of _ "snd (spec_tob (fst (spec_match ?b ?a)))"])
       (simp add: Let_def trade_msgs_def eligible_orders_def eligible_def traded_tob dropWhile_eq_drop)
qed

theorem price_time_priority_witness:
  "\<exists>c qs c' tob. ask_state c qs \<and> order_book_add_order market_msg 12 1 c = Some c'
     \<and> cx_out c' = emit (cx_out c) (ack_of ''IBM'' 2 3 # trade_between ''IBM'' (order_of_msg market_msg 12 1) ask 100 4 # tob)"
proof -
  from ask_state_ex obtain c qs where a: "ask_state c qs" by blast
  then have rep: "book_rep c qs" "allocated (cx_pool c) \<noteq> {..<MAX_ORDERS_IN_POOL}" and abs: "abs_book c qs = ask_book"
    by (simp_all add: ask_state_def)
  have "abs_sides c qs = ab_side ask_book" "ob_symbol (cx_book c) = ''IBM''"
    using arg_cong [OF abs, of ab_side] arg_cong [OF abs, of ab_symbol] by (simp_all add: ask_book_def)
  with price_time_priority [OF rep(1) market_pre [OF a] rep(2), of 12 1] a show ?thesis
    by (fastforce simp: Let_def ask_book_def market_msg_def buy_msg_def can_match_def ask_def sell_msg_def)
qed

text \<open>
  C3.  Conservation of quantity.  What an incoming order trades leaves the opposite side and
  nothing else does; what a limit order does not trade is added to its own side, a market order
  adds nothing.  The sums are over the natural numbers, so nothing wraps.
\<close>

theorem quantity_conserved:
  assumes "book_rep c qs" and "add_pre c qs msg" and "allocated (cx_pool c) \<noteq> {..<MAX_ORDERS_IN_POOL}"
  shows "\<exists>c' qs' msgs. order_book_add_order msg cid ts c = Some c' \<and> book_rep c' qs' \<and> cx_out c' = emit (cx_out c) msgs
     \<and> (let d = (no_side msg = SIDE_BUY) in
        book_qty c qs (\<not> d) = book_qty c' qs' (\<not> d) + traded msgs
        \<and> (if no_price msg \<noteq> 0 then book_qty c' qs' d + traded msgs = book_qty c qs d + unat (no_quantity msg)
           else book_qty c' qs' d = book_qty c qs d \<and> traded msgs \<le> unat (no_quantity msg)))"
  using add_order_quantities [OF assms, of cid ts] unfolding Let_def .

theorem quantity_conserved_witness:
  "\<exists>c qs c' qs' msgs. ask_state c qs \<and> order_book_add_order market_msg 12 1 c = Some c' \<and> cx_out c' = emit (cx_out c) msgs
     \<and> book_qty c qs False = book_qty c' qs' False + traded msgs \<and> traded msgs \<le> 4"
proof -
  from ask_state_ex obtain c qs where a: "ask_state c qs" by blast
  then have rep: "book_rep c qs" "allocated (cx_pool c) \<noteq> {..<MAX_ORDERS_IN_POOL}" by (simp_all add: ask_state_def)
  have m: "no_side market_msg = SIDE_BUY" "no_price market_msg = 0" "no_quantity market_msg = 4"
    by (simp_all add: market_msg_def buy_msg_def)
  from quantity_conserved [OF rep(1) market_pre [OF a] rep(2), of 12 1] obtain c' qs' msgs where
    "order_book_add_order market_msg 12 1 c = Some c'" "cx_out c' = emit (cx_out c) msgs"
    "book_qty c qs False = book_qty c' qs' False + traded msgs" "traded msgs \<le> 4" by (auto simp: m)
  with a show ?thesis by blast
qed

text \<open>
  C4.  \<open>order_book_cancel_order\<close> implements \<open>spec_cancel\<close>: an order that rests leaves the
  book and its slot the pool, an unknown one changes nothing; both are acknowledged, and the
  top of the book is published when it changed.
\<close>

theorem cancel_order_refines:
  assumes "book_rep c qs" and "valid_ids u i"
  shows "\<exists>c' qs'. order_book_cancel_order u i c = Some c' \<and> book_rep c' qs'
     \<and> (abs_book c' qs', cx_out c') = (let (b, msgs) = spec_cancel (abs_book c qs) u i in (b, emit (cx_out c) msgs))
     \<and> others_kept c qs c' qs'"
  using order_book_cancel_order_ok [OF assms] by blast

theorem cancel_order_refines_witness:
  "\<exists>c qs c' qs'. ask_state c qs \<and> order_book_cancel_order 1 7 c = Some c' \<and> book_rep c' qs' \<and> ab_side (abs_book c' qs') = (\<lambda>_. [])"
proof -
  from ask_state_ex obtain c qs where a: "ask_state c qs" by blast
  then have rep: "book_rep c qs" and abs: "abs_book c qs = ask_book" by (simp_all add: ask_state_def)
  have "valid_ids 1 7" by (simp add: valid_ids_def)
  from cancel_order_refines [OF rep this, unfolded abs] obtain c' qs' where
    c': "order_book_cancel_order 1 7 c = Some c'" "book_rep c' qs'" "abs_book c' qs' = fst (spec_cancel ask_book 1 7)"
    by (auto simp: split_beta)
  have "ab_side (abs_book c' qs') = (\<lambda>_. [])" unfolding c'(3) spec_cancel_ask ..
  with a c'(1,2) show ?thesis by blast
qed

text \<open>
  C5.  A cancel undoes an order that did not trade: after a limit order that matches nothing
  and a cancel with its identifiers both sides of the book are what they were.
\<close>

theorem add_cancel_roundtrip:
  assumes "book_rep c qs" and "add_pre c qs msg" and "allocated (cx_pool c) \<noteq> {..<MAX_ORDERS_IN_POOL}"
    and "no_price msg \<noteq> 0" and "eligible_orders (abs_book c qs) (order_of_msg msg cid ts) = []"
  shows "\<exists>c1 c2 qs2. order_book_add_order msg cid ts c = Some c1
     \<and> order_book_cancel_order (no_user_id msg) (no_user_order_id msg) c1 = Some c2
     \<and> book_rep c2 qs2 \<and> abs_sides c2 qs2 = abs_sides c qs"
  by (rule add_then_cancel [OF assms])

theorem add_cancel_roundtrip_witness:
  "\<exists>c1 c2 qs2. order_book_add_order sell_msg 11 0 ibm_ctx = Some c1 \<and> order_book_cancel_order 1 7 c1 = Some c2
     \<and> book_rep c2 qs2 \<and> abs_sides c2 qs2 = abs_sides ibm_ctx (\<lambda>_. [])"
proof -
  have none: "eligible_orders (abs_book ibm_ctx (\<lambda>_. [])) (order_of_msg sell_msg 11 0) = []"
    unfolding ibm_ctx_abs by (simp add: eligible_orders_def empty_abook_def eligible_def Let_def)
  have "no_price sell_msg \<noteq> 0" by (simp add: sell_msg_def)
  from add_cancel_roundtrip [OF ibm_ctx_rep(1) ibm_add_pre ibm_ctx_room(1) this none] show ?thesis
    by (simp add: sell_msg_def)
qed

text \<open>
  C6.  A flush of a book ends.  Called with an emptied output buffer until it reports that it
  is done, \<open>order_book_flush\<close> needs one call per 4096 orders and one more; the messages
  are a cancel acknowledgement for every order, bids first, in book order, and the top of book
  eliminations; the book is empty and its slots are free.
\<close>

theorem book_flush_terminates:
  assumes "book_rep c qs" and "\<not> fs_in_progress (ob_flush_state (cx_book c))" and "small_levels qs"
  shows "\<exists>c'. flush_run (Suc (length (all_orders qs) div FLUSH_BATCH_SIZE)) c
        = Some (ack_list (ob_symbol (cx_book c)) (p_orders (cx_pool c)) (all_orders qs) @ snd (spec_clear (abs_book c qs)), c')
     \<and> book_rep c' (\<lambda>_. []) \<and> abs_book c' (\<lambda>_. []) = fst (spec_clear (abs_book c qs))
     \<and> others_kept c qs c' (\<lambda>_. []) \<and> \<not> order_book_flush_in_progress (cx_book c')"
proof -
  have "flush_rest c qs (all_orders qs)" using assms(2) by (simp add: flush_rest_def)
  from flush_run_ok [OF assms(1) this assms(3)] show ?thesis by (simp add: order_book_flush_in_progress_def)
qed

theorem book_flush_terminates_witness:
  "\<exists>c qs msgs c'. ask_state c qs \<and> flush_run 1 c = Some (msgs, c') \<and> book_rep c' (\<lambda>_. [])"
proof -
  from ask_state_ex obtain c qs where a: "ask_state c qs" by blast
  then have "book_rep c qs" "\<not> fs_in_progress (ob_flush_state (cx_book c))" "small_levels qs" "length (all_orders qs) = 1"
    by (simp_all add: ask_state_def)
  with book_flush_terminates [of c qs] a show ?thesis by auto
qed

text \<open>
  C7.  When no price level holds more than 200 orders, \<open>order_book_cancel_client_orders\<close>
  removes exactly the orders of the client: none of it stays and nobody else loses one.
  (The scan of a level stops after 200 orders, so the bound is needed.)
\<close>

theorem client_orders_cancelled:
  assumes "book_rep c qs" and "\<forall>d. \<forall>q\<in>set (qs d). length q \<le> MAX_ORDERS_AT_PRICE_LEVEL"
  shows "\<exists>n c' qs'. order_book_cancel_client_orders cid c = Some (n, c') \<and> book_rep c' qs'
     \<and> (\<forall>y. in_book (abs_book c' qs') y \<longleftrightarrow> in_book (abs_book c qs) y \<and> o_client_id y \<noteq> cid)"
  using client_cancel_exact [OF assms(1)] assms(2) by blast

theorem client_orders_cancelled_witness:
  "\<exists>c qs n c' qs'. ask_state c qs \<and> order_book_cancel_client_orders 11 c = Some (n, c') \<and> book_rep c' qs'
     \<and> in_book (abs_book c qs) ask \<and> \<not> in_book (abs_book c' qs') ask"
proof -
  from ask_state_ex obtain c qs where a: "ask_state c qs" by blast
  then have rep: "book_rep c qs" and one: "length (all_orders qs) = 1" and abs: "abs_book c qs = ask_book" by (simp_all add: ask_state_def)
  have "length q \<le> MAX_ORDERS_AT_PRICE_LEVEL" if "q \<in> set (qs d)" for d q using level_length [of q qs d] that one by simp
  with client_orders_cancelled [OF rep, of 11] obtain n c' qs' where
    "order_book_cancel_client_orders 11 c = Some (n, c')" "book_rep c' qs'"
    "\<forall>y. in_book (abs_book c' qs') y \<longleftrightarrow> in_book (abs_book c qs) y \<and> o_client_id y \<noteq> 11" by blast
  moreover have "in_book (abs_book c qs) ask" "o_client_id ask = 11"
    unfolding abs by (auto simp: in_book_def ask_book_def ask_def intro!: exI [of _ False])
  ultimately show ?thesis using a by blast
qed

section \<open>The matching engine\<close>

text \<open>
  C8.  The engine along its admissible runs.  In every state reached from the initial one by admissible messages, by disconnects, and by flushes that are
  continued to their end before anything else happens, the symbol map leads to the books and the
  orders of the books are exactly the allocated slots of the pool.  Between messages no flush is pending and every book
  is well-formed: levels strictly sorted and not empty, every order on the side and level of its price with
  a positive quantity, and the best bid below the best ask; while a flush goes on, every book it is done with is empty.
\<close>

theorem reachable_books_wf:
  assumes "engine_run f e"
  shows "\<exists>Q. engine_rep e Q
     \<and> (if f then \<forall>i<me_num_books (en_engine e). order_book_flush_in_progress (me_books (en_engine e) i) \<or> Q i = (\<lambda>_. [])
        else idle e \<and> (\<forall>s b. abs_engine e Q s = Some b \<longrightarrow> (\<forall>d. side_wf d (ab_side b d)) \<and> uncrossed (ab_side b)))"
proof (cases f)
  case True
  with engine_run_inv [OF assms] obtain Q m where "flushing e Q m" by (auto simp: run_inv_def)
  then show ?thesis using True by (intro exI [of _ Q]) (auto simp: flushing_def going_def split: if_splits)
next
  case False
  with engine_run_inv [OF assms] show ?thesis by (auto simp: run_inv_def books_wf_def book_wf_def)
qed

theorem reachable_books_wf_witness:
  "\<exists>e Q. matching_engine_process_new_order sell_msg 11 0 fresh_engine = Some e \<and> engine_rep e Q \<and> idle e
     \<and> (\<exists>b. abs_engine e Q ''IBM'' = Some b \<and> (\<forall>d. side_wf d (ab_side b d)) \<and> uncrossed (ab_side b))"
proof -
  from ask_engine_ex obtain e Q where a: "ask_engine e Q" by blast
  then have e: "engine_run False e" "matching_engine_process_new_order sell_msg 11 0 fresh_engine = Some e"
    by (simp_all add: ask_engine_def)
  from reachable_books_wf [OF e(1)] obtain Q' where Q': "engine_rep e Q'" "idle e"
    "\<forall>s b. abs_engine e Q' s = Some b \<longrightarrow> (\<forall>d. side_wf d (ab_side b d)) \<and> uncrossed (ab_side b)" by auto
  have "''IBM'' \<in> dom (abs_engine e Q')"
    using a Q'(1) known_symbols [of e e Q' Q] by (auto simp: ask_engine_def)
  then obtain b where "abs_engine e Q' ''IBM'' = Some b" by blast
  with e(2) Q' show ?thesis by blast
qed

text \<open>
  C9.  No assertion fails along the admissible runs: in a state between messages every admissible message is processed and so is
  the disconnect of any client, and a flush that is going on can be continued.  The guard on identifiers is needed: a cancel goes
  through exactly when its identifiers are not one of the two reserved pairs.
\<close>

theorem engine_never_aborts:
  assumes "engine_run f e"
  shows "if f then matching_engine_continue_flush e \<noteq> None
     else (admissible e msg \<longrightarrow> matching_engine_process_message msg cid ts e \<noteq> None) \<and> matching_engine_cancel_client_orders cid e \<noteq> None
       \<and> (matching_engine_process_message (INPUT_MSG_CANCEL m) cid ts e \<noteq> None \<longleftrightarrow> valid_ids (cm_user_id m) (cm_user_order_id m))"
proof (cases f)
  case True
  then show ?thesis using run_continue_defined [of e] assms by auto
next
  case False
  with assms have run: "engine_run False e" by simp
  have "matching_engine_process_message (INPUT_MSG_CANCEL m) cid ts e = None" if "\<not> valid_ids (cm_user_id m) (cm_user_order_id m)"
    using that by (simp add: matching_engine_process_message_def matching_engine_process_cancel_order_def make_order_key_eq)
  then have "matching_engine_process_message (INPUT_MSG_CANCEL m) cid ts e \<noteq> None \<longleftrightarrow> valid_ids (cm_user_id m) (cm_user_order_id m)"
    using run_message_defined [OF run, of "INPUT_MSG_CANCEL m" cid ts] unfolding admissible.simps by (metis option.distinct(1))
  moreover have "admissible e msg \<longrightarrow> matching_engine_process_message msg cid ts e \<noteq> None"
    using run_message_defined [OF run, of msg cid ts] by auto
  moreover have "matching_engine_cancel_client_orders cid e \<noteq> None" using run_disconnect_defined [OF run, of cid] by auto
  ultimately show ?thesis using False by simp
qed

theorem engine_never_aborts_witness:
  "matching_engine_process_message (INPUT_MSG_NEW_ORDER sell_msg) 11 0 fresh_engine \<noteq> None
     \<and> matching_engine_cancel_client_orders 11 fresh_engine \<noteq> None
     \<and> matching_engine_process_message (INPUT_MSG_CANCEL \<lparr>cm_user_id = 0, cm_user_order_id = 0, cm_symbol = []\<rparr>) 11 0 fresh_engine = None
     \<and> (\<exists>e. matching_engine_process_message INPUT_MSG_FLUSH 11 0 fresh_engine = Some e \<and> matching_engine_continue_flush e \<noteq> None)"
proof -
  note n = engine_never_aborts [OF fresh_engine_run, of "INPUT_MSG_NEW_ORDER sell_msg" 11 0 "\<lparr>cm_user_id = 0, cm_user_order_id = 0, cm_symbol = []\<rparr>"]
  have adm: "admissible fresh_engine INPUT_MSG_FLUSH" by (simp add: fresh_engine_room)
  from run_message_defined [OF fresh_engine_run adm] obtain e where e: "matching_engine_process_message INPUT_MSG_FLUSH 11 0 fresh_engine = Some e" by blast
  have "engine_run True e" by (rule engine_run.flush [OF fresh_engine_run adm e])
  from engine_never_aborts [OF this] e have "\<exists>e. matching_engine_process_message INPUT_MSG_FLUSH 11 0 fresh_engine = Some e \<and> matching_engine_continue_flush e \<noteq> None" by auto
  with n fresh_engine_takes show ?thesis by (simp add: valid_ids_def)
qed

text \<open>
  C10.  A new order goes to the book of its symbol, which is created when the symbol is new, and
  to no other: the books of all other symbols are unchanged, and the output is what the
  specification of that book says.  From then on the order is tracked under that symbol, cut to 14 characters, unless the table of tracked orders refuses it; then its tracking is
  what it was.
\<close>

theorem engine_new_order_refines:
  assumes "engine_rep e Q" and "engine_add_pre e Q msg" and "allocated (en_pool e) \<noteq> {..<MAX_ORDERS_IN_POOL}"
  shows "\<exists>e' Q'. matching_engine_process_message (INPUT_MSG_NEW_ORDER msg) cid ts e = Some e' \<and> engine_rep e' Q'
     \<and> (let (b, msgs) = spec_add (book_of (abs_engine e Q) (no_symbol msg)) (order_of_msg msg cid ts)
        in abs_engine e' Q' = (abs_engine e Q)(no_symbol msg \<mapsto> b) \<and> en_out e' = emit (en_out e) msgs)
     \<and> (\<exists>ok m'. order_symbol_map_insert (me_order_to_symbol (en_engine e)) (order_key (no_user_id msg) (no_user_order_id msg)) (no_symbol msg) = Some (ok, m')
          \<and> tracked e' (no_user_id msg) (no_user_order_id msg)
             = (if ok then Some (order_symbol_copy (no_symbol msg)) else tracked e (no_user_id msg) (no_user_order_id msg)))"
proof -
  have ids: "valid_ids (no_user_id msg) (no_user_order_id msg)" using assms(2) by (simp add: engine_add_pre_def)
  from process_new_order_ok [OF assms, of cid ts] obtain e' Q' where e': "matching_engine_process_new_order msg cid ts e = Some e'" "engine_rep e' Q'"
    "let (b, msgs) = spec_add (book_of (abs_engine e Q) (no_symbol msg)) (order_of_msg msg cid ts)
        in abs_engine e' Q' = (abs_engine e Q)(no_symbol msg \<mapsto> b) \<and> en_out e' = emit (en_out e) msgs"
    "tracking_after e (no_user_id msg) (no_user_order_id msg) (no_symbol msg) e'" by blast
  moreover from e'(4) ids obtain ok m' where
    "order_symbol_map_insert (me_order_to_symbol (en_engine e)) (order_key (no_user_id msg) (no_user_order_id msg)) (no_symbol msg) = Some (ok, m')"
    "tracked e' (no_user_id msg) (no_user_order_id msg)
       = (if ok then Some (order_symbol_copy (no_symbol msg)) else tracked e (no_user_id msg) (no_user_order_id msg))" unfolding tracking_after_def by auto
  ultimately show ?thesis by (intro exI [of _ e'] exI [of _ Q']) (simp add: matching_engine_process_message_def)
qed

theorem engine_new_order_refines_witness:
  "\<exists>e' Q'. matching_engine_process_message (INPUT_MSG_NEW_ORDER sell_msg) 11 0 fresh_engine = Some e' \<and> engine_rep e' Q'
     \<and> abs_engine e' Q' ''IBM'' = Some ask_book \<and> tracked e' 1 7 \<in> {Some ''IBM'', None}"
proof -
  have a: "fst (spec_add (book_of Map.empty (no_symbol sell_msg)) (order_of_msg sell_msg 11 0)) = ask_book"
    using spec_add_ask by (simp add: book_of_def sell_msg_def ask_def)
  have m: "no_symbol sell_msg = ''IBM''" "no_user_id sell_msg = 1" "no_user_order_id sell_msg = 7" by (simp_all add: sell_msg_def)
  from engine_new_order_refines [OF fresh_engine_rep(1) fresh_engine_add_pre fresh_engine_room(1), of 11 0, unfolded fresh_engine_rep(2)]
  obtain e' Q' where e': "matching_engine_process_message (INPUT_MSG_NEW_ORDER sell_msg) 11 0 fresh_engine = Some e'" "engine_rep e' Q'"
    "abs_engine e' Q' = [''IBM'' \<mapsto> ask_book]" "tracked e' 1 7 = Some (order_symbol_copy ''IBM'') \<or> tracked e' 1 7 = tracked fresh_engine 1 7"
    using a by (auto simp: split_beta m split: if_splits)
  then show ?thesis by (intro exI [of _ e'] exI [of _ Q']) (auto simp: order_symbol_copy_short fresh_engine_untracked)
qed

text \<open>
  C11.  A cancel of a tracked order is carried out in the book of the symbol it is tracked under, and in no other.  Its tracking entry is dropped and the tracking of all
  other orders stays; the order is untracked afterwards exactly when that was its only entry.
\<close>

theorem engine_cancel_refines:
  assumes "engine_rep e Q" and "valid_ids (cm_user_id msg) (cm_user_order_id msg)"
    and "tracked e (cm_user_id msg) (cm_user_order_id msg) = Some s" and "abs_engine e Q s = Some b"
  shows "\<exists>e' Q'. matching_engine_process_message (INPUT_MSG_CANCEL msg) cid ts e = Some e' \<and> engine_rep e' Q'
     \<and> (let (b', msgs) = spec_cancel b (cm_user_id msg) (cm_user_order_id msg)
        in abs_engine e' Q' = (abs_engine e Q)(s \<mapsto> b') \<and> en_out e' = emit (en_out e) msgs)
     \<and> (\<forall>u i. valid_ids u i \<and> (u, i) \<noteq> (cm_user_id msg, cm_user_order_id msg) \<longrightarrow> tracked e' u i = tracked e u i)
     \<and> card (tracking_entries e (cm_user_id msg) (cm_user_order_id msg)) = Suc (card (tracking_entries e' (cm_user_id msg) (cm_user_order_id msg)))
     \<and> (tracked e' (cm_user_id msg) (cm_user_order_id msg) = None \<longleftrightarrow> card (tracking_entries e (cm_user_id msg) (cm_user_order_id msg)) = 1)"
proof -
  let ?u = "cm_user_id msg" and ?o = "cm_user_order_id msg"
  from process_cancel_order_ok [OF assms] obtain e' Q' where e':
    "matching_engine_process_cancel_order msg e = Some e'" "engine_rep e' Q'"
    "let (b', msgs) = spec_cancel b ?u ?o in abs_engine e' Q' = (abs_engine e Q)(s \<mapsto> b') \<and> en_out e' = emit (en_out e) msgs"
    "tracking_less e ?u ?o e'" by blast
  from e'(4) obtain idx where idx: "idx \<in> tracking_entries e ?u ?o" "tracking_entries e' ?u ?o = tracking_entries e ?u ?o - {idx}"
    by (auto simp: tracking_less_def)
  have c: "card (tracking_entries e ?u ?o) = Suc (card (tracking_entries e' ?u ?o))"
    unfolding idx(2) by (rule card.remove [OF finite_tracking_entries idx(1)])
  have "tracked e' ?u ?o = None \<longleftrightarrow> card (tracking_entries e ?u ?o) = 1"
    unfolding tracked_entries [OF e'(2) assms(2)] c card_eq_0_iff [of "tracking_entries e' ?u ?o"] One_nat_def nat.inject
    using finite_tracking_entries by simp
  moreover have "\<forall>u i. valid_ids u i \<and> (u, i) \<noteq> (?u, ?o) \<longrightarrow> tracked e' u i = tracked e u i" using e'(4) unfolding tracking_less_def by blast
  moreover have "matching_engine_process_message (INPUT_MSG_CANCEL msg) cid ts e = Some e'" using e'(1) by (simp add: matching_engine_process_message_def)
  ultimately show ?thesis using e'(2,3) c by (intro exI [of _ e'] exI [of _ Q'] conjI) assumption+
qed

theorem engine_cancel_refines_witness:
  "\<exists>e Q e' Q' b. ask_engine e Q \<and> matching_engine_process_message
        (INPUT_MSG_CANCEL \<lparr>cm_user_id = 1, cm_user_order_id = 7, cm_symbol = []\<rparr>) 11 0 e = Some e'
     \<and> engine_rep e' Q' \<and> abs_engine e' Q' ''IBM'' = Some b \<and> ab_side b = (\<lambda>_. [])"
proof -
  from ask_engine_tracked obtain e Q where a: "ask_engine e Q" and tr: "tracked e 1 7 = Some ''IBM''" by blast
  then have rep: "engine_rep e Q" and kn: "abs_engine e Q ''IBM'' = Some ask_book" by (simp_all add: ask_engine_def)
  let ?m = "\<lparr>cm_user_id = 1, cm_user_order_id = 7, cm_symbol = []\<rparr>"
  have "valid_ids (cm_user_id ?m) (cm_user_order_id ?m)" "tracked e (cm_user_id ?m) (cm_user_order_id ?m) = Some ''IBM''"
    using tr by (simp_all add: valid_ids_def)
  from engine_cancel_refines [OF rep this kn, of 11 0] obtain e' Q' where
    e': "matching_engine_process_message (INPUT_MSG_CANCEL ?m) 11 0 e = Some e'" "engine_rep e' Q'"
      "abs_engine e' Q' = (abs_engine e Q)(''IBM'' \<mapsto> fst (spec_cancel ask_book 1 7))" by (auto simp: split_beta)
  with a spec_cancel_ask show ?thesis by (intro exI [of _ e] exI [of _ Q] exI [of _ e'] exI [of _ Q']) simp
qed

text \<open>
  A cancel of an order that is not tracked is answered with a cancel acknowledgement
  for the symbol \<open>UNKNOWN\<close> and changes nothing else.
\<close>

theorem engine_cancel_unknown:
  assumes "engine_rep e Q" and "valid_ids (cm_user_id msg) (cm_user_order_id msg)"
    and "tracked e (cm_user_id msg) (cm_user_order_id msg) = None"
  shows "matching_engine_process_message (INPUT_MSG_CANCEL msg) cid ts e
     = Some (e\<lparr>en_out := emit (en_out e) [cancel_ack_of ''UNKNOWN'' (cm_user_id msg) (cm_user_order_id msg)]\<rparr>)"
  using process_cancel_order_untracked [OF assms] by (simp add: matching_engine_process_message_def)

theorem engine_cancel_unknown_witness:
  "matching_engine_process_message (INPUT_MSG_CANCEL \<lparr>cm_user_id = 1, cm_user_order_id = 7, cm_symbol = []\<rparr>) 11 0 fresh_engine
     = Some (fresh_engine\<lparr>en_out := emit [] [cancel_ack_of ''UNKNOWN'' 1 7]\<rparr>)"
proof -
  let ?m = "\<lparr>cm_user_id = 1, cm_user_order_id = 7, cm_symbol = []\<rparr>"
  have "valid_ids (cm_user_id ?m) (cm_user_order_id ?m)" "tracked fresh_engine (cm_user_id ?m) (cm_user_order_id ?m) = None"
    by (simp_all add: valid_ids_def fresh_engine_untracked)
  from engine_cancel_unknown [OF fresh_engine_rep(1) this] show ?thesis by (simp add: fresh_engine_def)
qed

text \<open>
  When all 64 books are in use, an order for a new symbol is acknowledged and dropped:
  no book and no table changes.
\<close>

theorem engine_symbol_limit:
  assumes "engine_rep e Q" and "symbol_ok (no_symbol msg)" and "abs_engine e Q (no_symbol msg) = None"
    and "me_num_books (en_engine e) = MAX_SYMBOLS"
  shows "matching_engine_process_message (INPUT_MSG_NEW_ORDER msg) cid ts e
     = Some (e\<lparr>en_out := emit (en_out e) [ack_of (no_symbol msg) (no_user_id msg) (no_user_order_id msg)]\<rparr>)"
  using process_new_order_limit [OF assms, of cid ts] by (simp add: matching_engine_process_message_def)

theorem engine_symbol_limit_witness:
  "\<exists>e. me_num_books (en_engine e) = MAX_SYMBOLS \<and> matching_engine_process_message (INPUT_MSG_NEW_ORDER sell_msg) 11 0 e
     = Some (e\<lparr>en_out := emit (en_out e) [ack_of ''IBM'' 1 7]\<rparr>)"
proof -
  from full_engine_ex obtain e Q where
    e: "engine_rep e Q" "me_num_books (en_engine e) = MAX_SYMBOLS" "abs_engine e Q ''IBM'' = None" by blast
  have s: "symbol_ok (no_symbol sell_msg)" "abs_engine e Q (no_symbol sell_msg) = None"
    using symbol_ok_ibm e(3) by (simp_all add: sell_msg_def)
  from engine_symbol_limit [OF e(1) s e(2), of 11 0] e(2) show ?thesis by (auto simp: sell_msg_def)
qed

text \<open>
  When every slot of the pool is in use a new order is dropped: no message, not even
  an acknowledgement, and only the failure counter moves.
\<close>

theorem add_order_pool_full:
  assumes "pool_ok (cx_pool c)" and "allocated (cx_pool c) = {..<MAX_ORDERS_IN_POOL}"
  shows "order_book_add_order msg cid ts c =
     Some (c\<lparr>cx_pool := (cx_pool c)\<lparr>p_allocation_failures := p_allocation_failures (cx_pool c) + 1\<rparr>\<rparr>)"
  using order_pool_alloc_full [OF assms] by (simp add: order_book_add_order_def)

theorem add_order_pool_full_witness:
  "\<exists>c'. order_book_add_order sell_msg 11 0 (ibm_ctx\<lparr>cx_pool := raw_pool\<rparr>) = Some c' \<and> cx_out c' = []
     \<and> p_allocation_failures (cx_pool c') = 1"
proof -
  have "pool_ok raw_pool" "allocated raw_pool = {..<MAX_ORDERS_IN_POOL}"
    by (simp_all add: pool_ok_def allocated_def free_slots_def raw_pool_def)
  with add_order_pool_full [of "ibm_ctx\<lparr>cx_pool := raw_pool\<rparr>" sell_msg 11 0] show ?thesis
    by (simp add: ibm_ctx_def raw_pool_def)
qed

text \<open>
  C12.  A flush of the engine ends after the flush message and at most two continuations, whatever the
  number of books and orders: then no flush is in progress, every book is empty, every slot of the
  pool is free, and the books of all symbols still exist.
\<close>

theorem engine_flush_terminates:
  assumes "engine_run False e" and "p_free_count (en_pool e) > 0"
  shows "\<exists>Q e1 b2 e2 e3 Q3. engine_rep e Q \<and> matching_engine_process_message INPUT_MSG_FLUSH cid ts e = Some e1
     \<and> matching_engine_continue_flush (e1\<lparr>en_out := []\<rparr>) = Some (b2, e2)
     \<and> matching_engine_continue_flush (e2\<lparr>en_out := []\<rparr>) = Some (True, e3)
     \<and> engine_rep e3 Q3 \<and> \<not> matching_engine_has_flush_in_progress (en_engine e3) \<and> allocated (en_pool e3) = {}
     \<and> dom (abs_engine e3 Q3) = dom (abs_engine e Q)
     \<and> (\<forall>s b. abs_engine e3 Q3 s = Some b \<longrightarrow> ab_side b = (\<lambda>_. []))"
proof -
  from engine_run_inv [OF assms(1)] obtain Q where Q: "engine_rep e Q" "idle e" by (auto simp: run_inv_def)
  have "\<forall>i<me_num_books (en_engine e). small_levels (Q i)" using small_levels_free [OF Q(1) assms(2)] by blast
  from flush_terminates [OF Q this] Q(1) show ?thesis by (simp add: matching_engine_process_message_def) blast
qed

theorem engine_flush_terminates_witness:
  "\<exists>e Q e1 b2 e2 e3. ask_engine e Q \<and> abs_engine e Q ''IBM'' = Some ask_book
     \<and> matching_engine_process_message INPUT_MSG_FLUSH 0 0 e = Some e1
     \<and> matching_engine_continue_flush (e1\<lparr>en_out := []\<rparr>) = Some (b2, e2)
     \<and> matching_engine_continue_flush (e2\<lparr>en_out := []\<rparr>) = Some (True, e3) \<and> allocated (en_pool e3) = {}"
proof -
  from ask_engine_ex obtain e Q where a: "ask_engine e Q" by blast
  then have e: "engine_run False e" "p_free_count (en_pool e) > 0" using ask_engine_free by (auto simp: ask_engine_def)
  from engine_flush_terminates [OF e(1,2), of 0 0] obtain e1 b2 e2 e3 where
    "matching_engine_process_message INPUT_MSG_FLUSH 0 0 e = Some e1" "matching_engine_continue_flush (e1\<lparr>en_out := []\<rparr>) = Some (b2, e2)"
    "matching_engine_continue_flush (e2\<lparr>en_out := []\<rparr>) = Some (True, e3)" "allocated (en_pool e3) = {}" by blast
  moreover have "abs_engine e Q ''IBM'' = Some ask_book" using a by (simp add: ask_engine_def)
  ultimately show ?thesis using a by blast
qed

text \<open>
  No order is leaked: \<open>matching_engine_destroy\<close> on an engine of an admissible run gives every
  slot of the pool back.
\<close>

theorem engine_destroy_frees_all:
  assumes "engine_run False e" and "p_free_count (en_pool e) > 0"
  shows "\<exists>e'. matching_engine_destroy e = Some e' \<and> pool_ok (en_pool e') \<and> p_free_count (en_pool e') = MAX_ORDERS_IN_POOL
     \<and> \<not> me_pools (en_engine e')"
proof -
  from engine_run_inv [OF assms(1)] obtain Q where Q: "engine_rep e Q" by (auto simp: run_inv_def)
  have "\<forall>i<me_num_books (en_engine e). small_levels (Q i)" using small_levels_free [OF Q assms(2)] by blast
  from matching_engine_destroy_ok [OF Q this] obtain e' where
    "matching_engine_destroy e = Some e'" "pool_ok (en_pool e')" "allocated (en_pool e') = {}" "\<not> me_pools (en_engine e')" by blast
  with card_allocated [of "en_pool e'"] show ?thesis by auto
qed

theorem engine_destroy_frees_all_witness:
  "\<exists>e e'. matching_engine_process_new_order sell_msg 11 0 fresh_engine = Some e \<and> matching_engine_destroy e = Some e'
     \<and> p_free_count (en_pool e') = MAX_ORDERS_IN_POOL"
proof -
  from ask_engine_ex obtain e Q where "ask_engine e Q" by blast
  then have "engine_run False e" "p_free_count (en_pool e) > 0" "matching_engine_process_new_order sell_msg 11 0 fresh_engine = Some e"
    using ask_engine_free by (auto simp: ask_engine_def)
  with engine_destroy_frees_all [of e] show ?thesis by blast
qed

section \<open>The data structures of the book\<close>

text \<open>
  A slot that \<open>order_pool_alloc\<close> hands out was not in use, and giving it back with
  \<open>order_pool_free\<close> restores exactly the set of slots in use before; the stored orders
  are not touched.
\<close>

theorem pool_alloc_then_free:
  assumes "pool_ok pool" and "order_pool_alloc pool = Some (Some i, pool')"
  shows "i \<notin> allocated pool \<and> allocated pool' = insert i (allocated pool) \<and>
         (\<exists>pool''. order_pool_free pool' i = Some pool'' \<and> pool_ok pool''
            \<and> allocated pool'' = allocated pool \<and> p_orders pool'' = p_orders pool)"
  using assms(1) pool.alloc_release [OF assms]
proof (cases rule: pool.alloc_cases)
  case (fresh j q)
  with assms(2) pool.alloc_release [OF assms] show ?thesis by simp
qed (use assms(2) in simp)

theorem pool_alloc_then_free_witness:
  "\<exists>i pool' pool''. order_pool_alloc fresh_pool = Some (Some i, pool') \<and>
     order_pool_free pool' i = Some pool'' \<and> allocated pool'' = {}"
proof -
  have "order_pool_alloc fresh_pool =
      Some (Some 8191, fresh_pool\<lparr>p_free_count := 8191, p_total_allocations := 1, p_peak_usage := 1\<rparr>)"
    by (simp add: order_pool_alloc_def fresh_pool_def order_pool_init_def asserts)
  from pool_alloc_then_free [OF fresh_pool_ok(1) this] this fresh_pool_ok(2) show ?thesis by auto
qed

text \<open>
  C13.  The order map.  After \<open>order_map_insert\<close> has placed a new key, every lookup by probing
  finds for that key the stored location and for every other key what it found before, in spite of tombstones and
  the bound on the probe length; removing the key restores the map.
\<close>

theorem order_map_insert_find_remove:
  assumes "order_map_ok m" and "\<not> key_free k" and "order_map_lookup m k = None"
    and "order_map_insert m k loc = Some (True, m')" and "\<not> key_free k'"
  shows "order_map_get m' k' = Some (if k' = k then Some loc else order_map_lookup m k')
     \<and> (\<exists>m''. order_map_remove m' k = Some (True, m'') \<and> order_map_ok m'' \<and> order_map_lookup m'' = order_map_lookup m)"
  using order_map.get_after_ins [OF assms] order_map.ins_del [OF assms(1-4)] by blast

theorem order_map_insert_find_remove_witness:
  "\<exists>m'. order_map_insert (ob_order_map ibm_book) 5 (loc_of (\<lambda>_. ask) 3) = Some (True, m')
     \<and> order_map_get m' 5 = Some (Some (loc_of (\<lambda>_. ask) 3))"
proof -
  let ?m = "ob_order_map ibm_book"
  have ok: "order_map_ok ?m" and none: "order_map_lookup ?m 5 = None" and k: "\<not> key_free 5"
    by (simp_all add: ibm_book_def order_map_ok_clear order_map_lookup_clear key_free_def)
  from order_map.ins_room [OF ok k none order_map_room_fresh] obtain m' where
    m': "order_map_insert ?m 5 (loc_of (\<lambda>_. ask) 3) = Some (True, m')" by blast
  from order_map_insert_find_remove [OF ok k none m' k] m' show ?thesis by auto
qed

text \<open>
  C14.  The binary search for a price level finds exactly what a search from the first
  level on would find, on either side.
\<close>

theorem find_price_level_linear:
  assumes "n \<le> MAX_PRICE_LEVELS" and "levels_sorted d (map l_price (arr_list levels n))"
  shows "find_price_level levels n price d
     = Some (case List.find (\<lambda>i. l_price (levels i) = price) [0..<n] of Some i \<Rightarrow> int i | None \<Rightarrow> -1)"
proof -
  from find_price_level_correct [OF assms, of price] obtain r where
    r: "find_price_level levels n price d = Some r"
      "(r = -1 \<and> (\<forall>i<n. l_price (levels i) \<noteq> price)) \<or> (0 \<le> r \<and> nat r < n \<and> l_price (levels (nat r)) = price)" by blast
  have uniq: "i = j" if "i < n" "j < n" "l_price (levels i) = l_price (levels j)" for i j
    using nth_eq_iff_index_eq [OF levels_sorted_distinct [OF assms(2)], of i j] that by simp
  have "List.find (\<lambda>i. l_price (levels i) = price) [0..<n] = (if r = -1 then None else Some (nat r))"
    using r(2)
  proof (elim disjE conjE)
    assume r: "0 \<le> r" "nat r < n" "l_price (levels (nat r)) = price"
    have "l_price (levels ([0..<n] ! j)) \<noteq> price" if "j < nat r" for j using uniq [of j "nat r"] r that by auto
    with r show ?thesis by (simp add: find_Some_iff) (intro exI [of _ "nat r"], simp)
  qed (auto simp: find_None_iff)
  with r show ?thesis by auto
qed

theorem find_price_level_linear_witness:
  "find_price_level (\<lambda>i. if i = 0 then new_level 105 else new_level 100) 2 100 True = Some 1"
proof -
  let ?lv = "\<lambda>i :: nat. if i = 0 then new_level 105 else new_level 100"
  have "levels_sorted True (map l_price (arr_list ?lv 2))"
    by (simp add: levels_sorted_def arr_list_def new_level_def better_def upt_rec)
  from find_price_level_linear [OF _ this, of 100] show ?thesis by (simp add: new_level_def upt_rec)
qed

text \<open>
  \<open>insert_price_level\<close> keeps a side sorted: the new level, empty, stands before the first
  level with a worse price, and all other levels keep their order and contents.
\<close>

theorem insert_price_level_sorted:
  assumes "n < MAX_PRICE_LEVELS" and "levels_sorted d (map l_price (arr_list levels n))" and "\<forall>i<n. l_price (levels i) \<noteq> price"
  shows "\<exists>levels' p. insert_price_level levels n price d = Some (levels', Suc n, int p) \<and> p \<le> n
     \<and> arr_list levels' (Suc n) = take p (arr_list levels n) @ new_level price # drop p (arr_list levels n)
     \<and> levels_sorted d (map l_price (arr_list levels' (Suc n)))"
proof -
  let ?p = "insert_index d price (arr_list levels n)"
  from insert_price_level_eq [OF assms(1), of levels price d] obtain levels' where
    l: "insert_price_level levels n price d = Some (levels', Suc n, int ?p)"
      "arr_list levels' (Suc n) = take ?p (arr_list levels n) @ new_level price # drop ?p (arr_list levels n)" by blast
  have "price \<notin> l_price ` set (arr_list levels n)" using assms(3) by (fastforce simp: in_set_conv_nth)
  with insert_index_sorted [OF assms(2)] insert_index_le [of d price "arr_list levels n"] l show ?thesis
    by (intro exI [of _ levels'] exI [of _ ?p]) simp
qed

theorem insert_price_level_sorted_witness:
  "\<exists>levels' p. insert_price_level (\<lambda>_. new_level 105) 1 100 False = Some (levels', 2, int p)
     \<and> levels_sorted False (map l_price (arr_list levels' 2))"
proof -
  have "levels_sorted False (map l_price (arr_list (\<lambda>_. new_level 105) 1))" "\<forall>i<1. l_price (new_level 105) \<noteq> 100"
    by (simp_all add: levels_sorted_def arr_list_def new_level_def)
  from insert_price_level_sorted [OF _ this] show ?thesis by (auto simp: numeral_2_eq_2)
qed

text \<open>
  The intrusive list of a level: \<open>list_append\<close> adds at the end, \<open>list_remove\<close> takes an order out from any place,
  the forward and backward links of the rest agree, no other order and no payload changes.
\<close>

theorem list_append_remove:
  assumes "dls h hp (xs @ x # ys) tp" and "list_remove h hp tp x = (h1, hp1, tp1)"
    and "list_append h1 hp1 tp1 x = (h2, hp2, tp2)"
  shows "dls h1 hp1 (xs @ ys) tp1 \<and> dls h2 hp2 (xs @ ys @ [x]) tp2 \<and> (\<forall>y. strip (h2 y) = strip (h y))
     \<and> (\<forall>y. y \<notin> set (xs @ x # ys) \<longrightarrow> h2 y = h y)"
proof -
  note r = list_remove_correct [OF assms(1,2)]
  have "x \<notin> set (xs @ ys)" using dls_distinct [OF assms(1)] by auto
  note a = list_append_correct [OF r(1) this assms(3)]
  from r a show ?thesis by auto
qed

theorem list_append_remove_witness:
  "\<exists>h1 hp1 tp1 h2 hp2 tp2. list_append (\<lambda>_. no_order) None None 4 = (h1, hp1, tp1)
     \<and> list_remove h1 hp1 tp1 4 = (h2, hp2, tp2) \<and> dls h2 hp2 [] tp2"
proof -
  obtain h1 hp1 tp1 where l: "list_append (\<lambda>_. no_order) None None 4 = (h1, hp1, tp1)" by (metis prod_cases3)
  have d: "dls h1 hp1 ([] @ 4 # []) tp1" using list_append_correct(1) [of "\<lambda>_. no_order" None "[]" None 4] l by simp
  obtain h2 hp2 tp2 where r: "list_remove h1 hp1 tp1 4 = (h2, hp2, tp2)" by (metis prod_cases3)
  obtain h3 hp3 tp3 where "list_append h2 hp2 tp2 4 = (h3, hp3, tp3)" by (metis prod_cases3)
  from list_append_remove [OF d r this] l r show ?thesis by auto
qed

text \<open>
  Keys.  \<open>make_order_key\<close> aborts exactly on the two pairs of identifiers whose keys
  are the markers of the tables (empty slot and tombstone), and gives different keys to different pairs.
\<close>

theorem make_order_key_injective:
  "(make_order_key u i = None \<longleftrightarrow> (u = 0 \<and> i = 0) \<or> (u = 0xFFFFFFFF \<and> i = 0xFFFFFFFF))
   \<and> (make_order_key u i = Some k \<and> make_order_key u' i' = Some k \<longrightarrow> u = u' \<and> i = i')"
  using make_order_key_eq [of u i] make_order_key_eq [of u' i']
  by (auto simp: valid_ids_def order_key_inject order_key_0 order_key_max split: if_splits)

theorem make_order_key_injective_witness:
  "make_order_key 0 0 = None \<and> make_order_key 1 7 = Some (order_key 1 7) \<and> make_order_key 1 8 \<noteq> Some (order_key 1 7)"
  using make_order_key_injective [of 0 0] make_order_key_injective [of 1 7 "order_key 1 7" 1 8] make_order_key_eq [of 1 7]
  by (auto simp: valid_ids_def)

section \<open>Routing, framing and wire formats\<close>

text \<open>
  The router partitions the symbols: those that begin with a letter N to Z, in either
  case, go to processor 1, all others (also the empty one and none at all) to processor 0; the debug
  variant agrees, and the name and validity functions match.
\<close>

theorem router_partition:
  "get_processor_id_for_symbol (Some s) = Some (if n_to_z (first_char s) then 1 else 0)
   \<and> get_processor_id_for_symbol None = Some 0
   \<and> get_processor_id_for_symbol_debug (Some s) = get_processor_id_for_symbol (Some s)
   \<and> (symbol_is_valid (Some s) \<longleftrightarrow> letter (first_char s))"
  by (simp add: get_processor_id_for_symbol_char get_processor_id_for_char_eq get_processor_id_for_symbol_debug_eq
      symbol_is_valid_char symbol_char_is_valid_eq) (simp add: get_processor_id_for_symbol_def)

text \<open>
  C15.  Framing over a byte stream.  The messages \<open>ms\<close>, framed one by one by \<open>frame_message\<close>, are extracted exactly, in order, and nothing is left in the
  buffer of the receiver, however the stream of frames is cut into reads, provided a read fits into the buffer of 4356 bytes beside an
  incomplete frame of the longest message: reads of up to 4096 bytes when no message is longer than 257 bytes, reads of up to 257 bytes for any messages.
\<close>

theorem framing_stream_roundtrip:
  assumes "framing_read_state_init state = Some st"
    and "list_all2 (\<lambda>m fr. \<exists>out out' n. frame_message m out = Some (Some (out', n)) \<and> fr = arr_list out' n) ms frs" and "concat cs = concat frs"
    and "\<forall>m\<in>set ms. length m \<le> M" and "\<forall>c\<in>set cs. M + 3 + length c \<le> FRAMING_BUFFER_SIZE"
  shows "\<exists>st'. receive cs st = Some (ms, st') \<and> pending st' = []"
proof -
  from framing_read_state_init_ok [of state] assms(1) have st: "read_ok st" "pending st = []" by auto
  have "(\<forall>m\<in>set ms. msg_ok m) \<and> frs = map frame ms"
    using assms(2) by (induction rule: list_all2_induct) (auto dest!: frame_message_frame)
  then have "\<forall>m\<in>set ms. msg_ok m \<and> length m \<le> M" "concat (map frame ms) = pending st @ concat cs" "partial_frame (pending st)"
    using assms(3,4) st(2) partial_frame_Nil by simp_all
  from receive_stream [OF st(1) this assms(5)] show ?thesis by blast
qed

theorem framing_stream_roundtrip_witness:
  "\<exists>st'. receive [[0, 0], [0, 1, 77, 0], [0, 0, 1, 78]] \<lparr>fr_buffer = (\<lambda>_. 0), fr_extract_buffer = (\<lambda>_. 0), fr_buffer_pos = 0,
       fr_expected_length = 0, fr_reading_header = True\<rparr> = Some ([[77], [78]], st') \<and> pending st' = []"
proof -
  let ?st = "\<lparr>fr_buffer = (\<lambda>_. 0), fr_extract_buffer = (\<lambda>_. 0), fr_buffer_pos = 0, fr_expected_length = 0, fr_reading_header = True\<rparr>"
  have "framing_read_state_init ?st = Some ?st" by (simp add: framing_read_state_init_def asserts fun_upd_idem)
  moreover have "list_all2 (\<lambda>m fr. \<exists>out out' n. frame_message m out = Some (Some (out', n)) \<and> fr = arr_list out' n)
      [[77], [78]] [[0, 0, 0, 1, 77], [0, 0, 0, 1, 78]]"
    using frame_message_ok [of "[77]" "\<lambda>_. 0"] frame_message_ok [of "[78]" "\<lambda>_. 0"] by (fastforce simp: msg_ok_def frame_def be32_def)
  moreover have "concat [[0, 0], [0, 1, 77, 0], [0, 0, 1, 78]] = concat [[0, 0, 0, 1, 77], [0, 0, 0, 1, 78 :: u8]]" by simp
  moreover have "\<forall>m\<in>set [[77], [78 :: u8]]. length m \<le> 257" "\<forall>c\<in>set [[0, 0], [0, 1, 77, 0], [0, 0, 1, 78 :: u8]]. 257 + 3 + length c \<le> FRAMING_BUFFER_SIZE"
    by simp_all
  ultimately show ?thesis by (rule framing_stream_roundtrip)
qed

text \<open>
  Sending.  A message of 1 to 4096 bytes is framed, and however the socket splits the writes, the
  bytes sent are the frame of the message and the state then reports completion; any other
  length is refused and the state kept.
\<close>

theorem framing_write_all:
  "(msg_ok m \<and> sum_list ks = length (frame m) \<longrightarrow>
      (\<exists>st st'. framing_write_state_init state m = Some (True, st) \<and> send_all ks st = Some (frame m, st') \<and> framing_write_is_complete st'))
   \<and> (\<not> msg_ok m \<longrightarrow> framing_write_state_init state m = Some (False, state) \<and> frame_message m out = Some None)"
proof (intro conjI impI)
  assume m: "msg_ok m \<and> sum_list ks = length (frame m)"
  with framing_write_state_init_ok [of m state] obtain st where
    st: "framing_write_state_init state m = Some (True, st)" "fw_bytes_written st = 0"
      "fw_total_len st = length (frame m)" "arr_list (fw_buffer st) (fw_total_len st) = frame m" by blast
  have "fw_bytes_written st + sum_list ks \<le> fw_total_len st" using st m by simp
  from send_all_ok [OF this] st m show "\<exists>st st'. framing_write_state_init state m = Some (True, st)
      \<and> send_all ks st = Some (frame m, st') \<and> framing_write_is_complete st'"
    by (auto simp: framing_write_is_complete_def)
qed (simp_all add: framing_write_state_init_refused frame_message_refused)

theorem framing_write_all_witness:
  "\<exists>st st'. framing_write_state_init \<lparr>fw_buffer = (\<lambda>_. 0), fw_total_len = 0, fw_bytes_written = 0\<rparr> [77] = Some (True, st)
     \<and> send_all [3, 2] st = Some ([0, 0, 0, 1, 77], st')"
  using framing_write_all [of "[77]" "[3, 2]" "\<lparr>fw_buffer = (\<lambda>_. 0), fw_total_len = 0, fw_bytes_written = 0\<rparr>"]
  by (auto simp: msg_ok_def frame_def be32_def)

text \<open>
  A header that announces 0 bytes or more than 4096 is an error: it is reported, the state
  is reset, and the next bytes start a new frame.
\<close>

theorem framing_bad_header:
  assumes "read_ok state" and "4 \<le> length (pending state)"
    and "unat (un_be32 (pending state)) = 0 \<or> unat (un_be32 (pending state)) > MAX_FRAMED_MESSAGE_SIZE"
  shows "\<exists>st. framing_read_extract state = Some (FRAMING_ERROR, None, st) \<and> read_ok st \<and> pending st = []"
  using extract_error [OF assms(1,2)] assms(3) by (simp add: header_def)

theorem framing_bad_header_witness:
  "\<exists>st. framing_read_extract \<lparr>fr_buffer = (\<lambda>_. 255), fr_extract_buffer = (\<lambda>_. 0), fr_buffer_pos = 4,
       fr_expected_length = 0, fr_reading_header = True\<rparr> = Some (FRAMING_ERROR, None, st) \<and> pending st = []"
proof -
  let ?st = "\<lparr>fr_buffer = (\<lambda>_. 255), fr_extract_buffer = (\<lambda>_. 0), fr_buffer_pos = 4, fr_expected_length = 0, fr_reading_header = True\<rparr>"
  have p: "pending ?st = [255, 255, 255, 255]" by (simp add: pending_def arr_list_def upt_rec)
  have "unat (un_be32 (pending ?st)) > MAX_FRAMED_MESSAGE_SIZE" unfolding p by (simp add: un_be32_def)
  then have "unat (un_be32 (pending ?st)) = 0 \<or> unat (un_be32 (pending ?st)) > MAX_FRAMED_MESSAGE_SIZE" ..
  from framing_bad_header [OF _ _ this] show ?thesis by (auto simp: read_ok_def p)
qed

text \<open>
  The binary codec of the client and the binary parser of the server agree: every new
  order with a symbol of at most 8 characters, every cancel and every flush arrives as it was sent.
\<close>

theorem binary_request_roundtrip:
  assumes "c_string symbol" and "length symbol \<le> 8" and "side_is_valid side" and "quantity \<noteq> 0"
  shows "(case encode_binary_new_order buffer user_id symbol price quantity side order_id of (n, buffer') \<Rightarrow>
            binary_message_parser_parse (arr_read buffer' 0 n) = Some (Some (INPUT_MSG_NEW_ORDER
              \<lparr>no_user_id = user_id, no_user_order_id = order_id, no_price = price, no_quantity = quantity,
               no_side = side, no_symbol = symbol\<rparr>)))
       \<and> (case encode_binary_cancel buffer user_id order_id of (n, buffer') \<Rightarrow>
            binary_message_parser_parse (arr_read buffer' 0 n)
              = Some (Some (INPUT_MSG_CANCEL \<lparr>cm_user_id = user_id, cm_user_order_id = order_id, cm_symbol = []\<rparr>)))
       \<and> (case encode_binary_flush buffer of (n, buffer') \<Rightarrow>
            binary_message_parser_parse (arr_read buffer' 0 n) = Some (Some INPUT_MSG_FLUSH))"
  using new_order_roundtrip [OF assms] cancel_roundtrip flush_roundtrip by (auto split: prod.splits)

theorem binary_request_roundtrip_witness:
  "case encode_binary_new_order (\<lambda>_. 0) 1 ''IBM'' 100 10 SIDE_BUY 7 of (n, buffer') \<Rightarrow>
     binary_message_parser_parse (arr_read buffer' 0 n) = Some (Some (INPUT_MSG_NEW_ORDER
       \<lparr>no_user_id = 1, no_user_order_id = 7, no_price = 100, no_quantity = 10, no_side = SIDE_BUY, no_symbol = ''IBM''\<rparr>))"
  using binary_request_roundtrip [where symbol = "''IBM''" and side = SIDE_BUY and quantity = 10 and buffer = "\<lambda>_. 0"
      and user_id = 1 and price = 100 and order_id = 7] by (simp add: c_string_def)

text \<open>
  C16.  The binary parser never aborts, whatever the bytes; what it accepts passes
  \<open>binary_message_validate\<close> and has a valid side, a positive quantity and a
  terminated symbol of at most 8 characters.
\<close>

theorem binary_parser_total:
  "binary_message_parser_parse data \<noteq> None
   \<and> (\<forall>msg. binary_message_parser_parse data = Some (Some msg) \<longrightarrow> binary_message_validate data
        \<and> (case msg of
             INPUT_MSG_NEW_ORDER m \<Rightarrow> side_is_valid (no_side m) \<and> 0 < no_quantity m \<and> c_string (no_symbol m) \<and> length (no_symbol m) \<le> 8
           | INPUT_MSG_OTHER _ \<Rightarrow> False | _ \<Rightarrow> True))"
  using parser_total parser_validates parser_accepts by blast

theorem binary_parser_total_witness:
  "binary_message_parser_parse [77, 70] = Some (Some INPUT_MSG_FLUSH) \<and> binary_message_validate [77, 70]"
proof -
  have "binary_message_parser_parse [77, 70] = Some (Some INPUT_MSG_FLUSH)"
    by (simp add: binary_message_parser_parse_def bin_parse_flush_def Let_def)
  with binary_parser_total [of "[77, 70]"] show ?thesis by blast
qed

text \<open>
  C17.  Every output message the engine makes is formatted, to the size of its type, and the
  client decodes it to the same message, with the symbol cut to 8 characters and without the
  client identifiers, which are not on the wire.
\<close>

theorem binary_output_roundtrip:
  assumes "formattable msg"
  shows "\<exists>bs f'. binary_message_formatter_format f msg = Some (Some bs, f') \<and> length bs = binary_message_size (out_type msg)
     \<and> binary_message_validate bs \<and> decode_binary_output bs = Some (wire_msg msg)"
  by (rule format_decode [OF assms])

theorem binary_output_roundtrip_witness:
  "\<exists>bs f'. binary_message_formatter_format \<lparr>bf_buffer = (\<lambda>_. 0)\<rparr> (ack_of ''IBM'' 1 7) = Some (Some bs, f')
     \<and> decode_binary_output bs = Some (ack_of ''IBM'' 1 7)"
proof -
  have "formattable (ack_of ''IBM'' 1 7)" "wire_msg (ack_of ''IBM'' 1 7) = ack_of ''IBM'' 1 7"
    by (simp_all add: formattable_def ack_of_def wire_msg_def copy_until_nul_takeWhile)
  with binary_output_roundtrip [of "ack_of ''IBM'' 1 7" "\<lparr>bf_buffer = (\<lambda>_. 0)\<rparr>"] show ?thesis by auto
qed

section \<open>The queue\<close>

text \<open>
  C18.  The ring buffer implements a bounded first-in first-out queue of 65535 items: an
  enqueue appends unless the queue is full, and reports which; a dequeue takes the oldest item;
  a batch takes the oldest items, as many as asked for and present; the invariant of the indices and
  counters, and the index wrap-around, are kept.
\<close>

theorem queue_refines_fifo:
  assumes "queue_ok q"
  shows "(case queue_enqueue q x of (b, q') \<Rightarrow> queue_ok q' \<and> (b \<longleftrightarrow> length (contents q) < LOCKFREE_QUEUE_SIZE - 1)
            \<and> contents q' = (if b then contents q @ [x] else contents q))
     \<and> (case queue_dequeue q of (r, q') \<Rightarrow> queue_ok q' \<and> r = (case contents q of [] \<Rightarrow> None | y # _ \<Rightarrow> Some y) \<and> contents q' = tl (contents q))
     \<and> (case queue_dequeue_batch q m of (xs, q') \<Rightarrow> queue_ok q' \<and> xs = take (unat m) (contents q) \<and> contents q' = drop (unat m) (contents q))
     \<and> queue_size q = Some (of_nat (length (contents q))) \<and> queue_empty q = Some (contents q = [])"
  using lq.enq_law [OF assms] lq.deq_law [OF assms] lq.many_law [OF assms] queue_observers(1,2) [OF assms]
  by (simp split: prod.splits)

theorem queue_refines_fifo_witness:
  "\<exists>q. queue_ok q \<and> contents q = [7 :: nat] \<and> fst (queue_dequeue q) = Some 7"
proof -
  obtain q0 :: "nat queue_t" where q0: "queue_ok q0" "contents q0 = []" using queue_init_ok by blast
  obtain b q1 where e: "queue_enqueue q0 7 = (b, q1)" by fastforce
  with queue_refines_fifo [OF q0(1), of 7] q0(2) have q1: "queue_ok q1" "contents q1 = [7]" by auto
  then have "fst (queue_dequeue q1) = Some 7" using queue_refines_fifo [OF q1(1), of 0 0] by (auto split: prod.splits)
  with q1 show ?thesis by blast
qed

text \<open>
  C19.  In every interleaving of the atomic steps of one producer and one consumer, what the
  consumer received is a prefix of what the producer published, in the same order, and the
  items in between are the queue's contents: nothing is lost, doubled or reordered, and at most 65535
  items wait.
\<close>

theorem spsc_fifo:
  assumes "spsc_run s"
  shows "sent s = got s @ contents (sh s) \<and> length (contents (sh s)) \<le> LOCKFREE_QUEUE_SIZE - 1"
  using run_fifo [OF assms] by blast

theorem spsc_fifo_witness:
  "\<exists>s. spsc_run s \<and> sent s = [5 :: nat] \<and> got s = [] \<and> sent s = got s @ contents (sh s)"
proof -
  obtain q :: "nat queue_t" where q: "queue_init undefined = Some q" "queue_ok q" "contents q = []" using queue_init_ok by blast
  let ?s = "\<lparr>sh = q, prod = P_idle, cons = C_idle, sent = [], got = []\<rparr>"
  obtain s' where s': "producer_step\<^sup>*\<^sup>* ?s s'" "got s' = []" "sent s' = [] @ (if fst (queue_enqueue q 5) then [5] else [])"
    using enqueue_steps [of ?s 5] by auto
  have "spsc_run ?s" using q(1) by (rule spsc_run.start)
  with s'(1) have run: "spsc_run s'" by (induction rule: rtranclp_induct) (auto intro: spsc_run.producer)
  moreover have "fst (queue_enqueue q 5)"
  proof (cases "queue_enqueue q 5")
    case (Pair b q')
    have "length (contents q) = 0" using q(3) by (simp only: list.size)
    then show ?thesis using queue_enqueue_ok(1) [OF q(2) Pair] Pair by simp
  qed
  ultimately show ?thesis using spsc_fifo [OF run] s' by auto
qed

text \<open>
  C20.  The two threads never touch the same buffer cell: while the producer is about to write a
  cell, the consumer, in a single dequeue or inside a batch, reads another one.
\<close>

theorem spsc_no_data_race:
  assumes "spsc_run s" and "prod s = P_store item t h"
  shows "case cons s of
      C_read h' \<Rightarrow> unat h' \<noteq> unat t
    | C_copy h' n items \<Rightarrow> length items < unat n \<longrightarrow> unat ((h' + of_nat (length items)) AND LOCKFREE_QUEUE_MASK) \<noteq> unat t
    | _ \<Rightarrow> True"
  using run_no_race [OF assms] by (auto split: consumer.splits)

theorem spsc_no_data_race_witness:
  "\<exists>s item h. spsc_run s \<and> prod s = P_store (item :: nat) 1 h
     \<and> (\<exists>h'. cons s = C_read h' \<and> unat h' \<noteq> unat (1 :: u64))"
proof -
  define q :: "nat queue_t" where "q = \<lparr>q_head = 0, q_tail = 0, q_producer_stats = \<lparr>ps_total_enqueues = 0, ps_failed_enqueues = 0, ps_peak_size = 0\<rparr>,
      q_consumer_stats = \<lparr>cs_total_dequeues = 0, cs_batch_dequeues = 0\<rparr>, q_buffer = \<lambda>_. 0\<rparr>"
  let ?s = "\<lparr>sh = q, prod = P_idle, cons = C_idle, sent = [], got = []\<rparr>"
  have init: "queue_init q = Some q" by (simp add: queue_init_def q_def)
  obtain s1 where s1: "producer_step\<^sup>*\<^sup>* ?s s1" "prod s1 = P_idle" "cons s1 = C_idle" "sh s1 = snd (queue_enqueue q 5)"
    using enqueue_steps [of ?s 5] by auto
  have t: "q_tail (sh s1) = 1" "q_head (sh s1) = 0" by (simp_all add: s1(4) queue_enqueue_def q_def Let_def)
  have "spsc_run ?s" using init by (rule spsc_run.start)
  with s1(1) have r1: "spsc_run s1" by (induction rule: rtranclp_induct) (auto intro: spsc_run.producer)
  have r2: "spsc_run (s1\<lparr>prod := P_load_head 6 1\<rparr>)"
    using spsc_run.producer [OF r1 producer_step.load_tail [of s1 6]] s1(2) t by simp
  have r3: "spsc_run (s1\<lparr>prod := P_store 6 1 0\<rparr>)"
    using spsc_run.producer [OF r2 producer_step.load_head [of _ 6 1]] t by simp
  have r4: "spsc_run (s1\<lparr>prod := P_store 6 1 0, cons := C_load_tail 0\<rparr>)"
    using spsc_run.consumer [OF r3 consumer_step.load_head] s1(3) t by simp
  have r5: "spsc_run (s1\<lparr>prod := P_store 6 1 0, cons := C_read 0\<rparr>)"
    using spsc_run.consumer [OF r4 consumer_step.load_tail [of _ 0]] t by simp
  with spsc_no_data_race [OF r5, of 6 1 0] show ?thesis
    by (intro exI [of _ "s1\<lparr>prod := P_store 6 1 0, cons := C_read 0\<rparr>"]) auto
qed

section \<open>The CSV requests\<close>

text \<open>
  What the client writes as CSV the server parses back: new orders with a symbol that
  has no comma and no white space at its ends, any identifiers and price and a positive quantity,
  cancels of a user other than 0, and flushes.
\<close>

theorem csv_request_roundtrip:
  assumes "csv_symbol symbol" and "side_is_valid side" and "quantity \<noteq> 0" and "user \<noteq> 0" and "100 \<le> buffer_size"
  shows "(\<exists>n buffer p'. encode_csv_new_order buffer_size user_id symbol price quantity side order_id = (n, buffer) \<and> 0 < n
       \<and> message_parser_parse p (take n buffer) = Some (Some (INPUT_MSG_NEW_ORDER
           \<lparr>no_user_id = user_id, no_user_order_id = order_id, no_price = price, no_quantity = quantity,
            no_side = side, no_symbol = symbol\<rparr>), p'))
     \<and> (\<exists>n buffer p'. encode_csv_cancel buffer_size user order_id = (n, buffer) \<and> 0 < n
       \<and> message_parser_parse p (take n buffer)
           = Some (Some (INPUT_MSG_CANCEL \<lparr>cm_user_id = user, cm_user_order_id = order_id, cm_symbol = []\<rparr>), p'))
     \<and> (\<exists>n buffer p'. encode_csv_flush buffer_size = (n, buffer) \<and> 0 < n
       \<and> message_parser_parse p (take n buffer) = Some (Some INPUT_MSG_FLUSH, p'))"
  using csv_new_order_roundtrip [OF assms(1,2,3,5), of user_id price order_id p] csv_cancel_roundtrip [OF assms(5), of user order_id p]
    csv_flush_roundtrip [OF assms(5), of p] assms(4) by auto

theorem csv_request_roundtrip_witness:
  "\<exists>n buffer p'. encode_csv_new_order 1024 1 ''IBM'' 100 10 SIDE_BUY 7 = (n, buffer)
     \<and> message_parser_parse \<lparr>mp_line_buffer = [], mp_tokens = (\<lambda>_. []), mp_num_tokens = 0\<rparr> (take n buffer) = Some (Some (INPUT_MSG_NEW_ORDER
         \<lparr>no_user_id = 1, no_user_order_id = 7, no_price = 100, no_quantity = 10, no_side = SIDE_BUY, no_symbol = ''IBM''\<rparr>), p')"
proof -
  have "csv_symbol ''IBM''" by (simp add: csv_symbol_def trimmed_def isspace_def)
  from csv_request_roundtrip [OF this, of SIDE_BUY 10 1 1024 1 100 7 "\<lparr>mp_line_buffer = [], mp_tokens = (\<lambda>_. []), mp_num_tokens = 0\<rparr>"] show ?thesis by auto
qed

text \<open>
  C21.  The CSV parser aborts on no line that does not start with C or c, and what it accepts has
  a valid side, a positive quantity and a non-empty terminated symbol of at most 15 characters, or is a
  cancel of a user other than 0.  Two things it does not protect the server from: the client's own cancel of user 0 makes the parser abort, and identifiers are not
  checked, so that a line of the client for order 0 of user 0 is accepted as an order, on which the engine aborts unless it has no book left for the symbol.
\<close>

theorem csv_parser_safe:
  "(hd (trim_whitespace (take (MAX_LINE_LENGTH - 1) line)) \<notin> {CHR ''C'', CHR ''c''} \<longrightarrow> message_parser_parse p line \<noteq> None)
   \<and> (\<forall>msg p'. c_string line \<and> message_parser_parse p line = Some (Some msg, p') \<longrightarrow>
       (case msg of
          INPUT_MSG_NEW_ORDER m \<Rightarrow> side_is_valid (no_side m) \<and> 0 < no_quantity m \<and> symbol_ok (no_symbol m)
        | INPUT_MSG_CANCEL m \<Rightarrow> cm_user_id m \<noteq> 0 | INPUT_MSG_FLUSH \<Rightarrow> True | _ \<Rightarrow> False))
   \<and> (case encode_csv_cancel 1024 0 order_id of (n, buffer) \<Rightarrow> message_parser_parse p (take n buffer) = None)
   \<and> (csv_symbol symbol \<and> side_is_valid side \<and> quantity \<noteq> 0 \<longrightarrow>
       (case encode_csv_new_order 1024 0 symbol price quantity side 0 of (n, buffer) \<Rightarrow>
          \<exists>msg p'. message_parser_parse p (take n buffer) = Some (Some msg, p')
            \<and> (\<forall>e i engine. matching_engine_get_order_book (en_engine e) symbol = Some (Some i, engine) \<longrightarrow>
                 matching_engine_process_message msg cid ts e = None)))"
proof -
  have "matching_engine_process_message (INPUT_MSG_NEW_ORDER \<lparr>no_user_id = 0, no_user_order_id = 0, no_price = price, no_quantity = quantity,
      no_side = side, no_symbol = symbol\<rparr>) cid ts e = None"
    if "matching_engine_get_order_book (en_engine e) symbol = Some (Some i, engine)" for e i engine
    using that by (simp add: matching_engine_process_message_def matching_engine_process_new_order_def make_order_key_eq valid_ids_def)
  with csv_parser_total [of line p] csv_parser_accepts [of p line] csv_cancel_roundtrip [of 1024 0 order_id p]
    csv_new_order_roundtrip [of symbol side quantity 1024 0 price 0 p] show ?thesis by fastforce
qed

theorem csv_parser_safe_witness:
  "message_parser_parse \<lparr>mp_line_buffer = [], mp_tokens = (\<lambda>_. []), mp_num_tokens = 0\<rparr> ''# note'' \<noteq> None
   \<and> (case encode_csv_new_order 1024 0 ''IBM'' 10 10 SIDE_BUY 0 of (n, buffer) \<Rightarrow>
        \<exists>msg p'. message_parser_parse \<lparr>mp_line_buffer = [], mp_tokens = (\<lambda>_. []), mp_num_tokens = 0\<rparr> (take n buffer) = Some (Some msg, p')
          \<and> matching_engine_process_message msg 11 0 fresh_engine = None)"
proof -
  have "trim_whitespace ''# note'' = ''# note''"
    using trim_trimmed [of "''# note''" "[]" "[]"] by (simp add: trimmed_def isspace_def)
  then have cm: "hd (trim_whitespace (take (MAX_LINE_LENGTH - 1) ''# note'')) \<notin> {CHR ''C'', CHR ''c''}" by simp
  have sym: "csv_symbol ''IBM'' \<and> side_is_valid SIDE_BUY \<and> (10 :: u32) \<noteq> 0" by (simp add: csv_symbol_def trimmed_def isspace_def)
  obtain i engine where "matching_engine_get_order_book (en_engine fresh_engine) ''IBM'' = Some (Some i, engine)"
    using get_order_book_new [OF fresh_engine_rep(1) symbol_ok_ibm] fresh_engine_rep(2) fresh_engine_room(2) by auto
  then show ?thesis
    using csv_parser_safe [where line = "''# note''" and p = "\<lparr>mp_line_buffer = [], mp_tokens = (\<lambda>_. []), mp_num_tokens = 0\<rparr>"
      and symbol = "''IBM''" and side = SIDE_BUY and quantity = 10 and price = 10 and cid = 11 and ts = 0] cm sym
    by (simp only: split_beta) blast
qed

section \<open>The processor thread\<close>

text \<open>A processor over a fresh engine, with one request of client 11 waiting.\<close>

definition sell_envelope :: input_msg_envelope_t where
  "sell_envelope = \<lparr>ie_msg = INPUT_MSG_NEW_ORDER sell_msg, ie_client_id = 11,
     ie_client_addr = \<lparr>ua_addr = 0, ua_port = 0, ua_pad = 0\<rparr>, ie_sequence = 0\<rparr>"

definition new_processor :: processor_t where
  "new_processor = \<lparr>pr_config = \<lparr>pc_tcp_mode = True, pc_spin_wait = False, pc_processor_id = 0\<rparr>, pr_running = True, pr_started = True,
     pr_output_sequence = 0, pr_stats = zero_stats\<rparr>"

definition new_locals :: thread_locals where
  "new_locals = \<lparr>lv_messages = 0, lv_batches = 0, lv_outputs = 0, lv_trades = 0, lv_empty_polls = 0, lv_queue_full = 0,
     lv_sequence = 0, lv_spin_count = 0, lv_since_last_flush = 0, lv_flush_client_id = 0\<rparr>"

lemma one_request:
  "\<exists>s. proc_ok s \<and> contents (px_input s) = [sell_envelope] \<and> contents (px_output s) = [] \<and> px_engine s = fresh_engine
     \<and> px_processor s = new_processor"
proof -
  obtain qi :: "input_msg_envelope_t queue_t" where qi: "queue_ok qi" "contents qi = []" using queue_init_ok by blast
  obtain qo :: "output_msg_envelope_t queue_t" where qo: "queue_ok qo" "contents qo = []" using queue_init_ok by blast
  obtain b qi' where e: "queue_enqueue qi sell_envelope = (b, qi')" by fastforce
  have "length (contents qi) = 0" using qi(2) by (simp only: list.size)
  with queue_enqueue_ok [OF qi(1) e] qi(2) have "queue_ok qi'" "contents qi' = [sell_envelope]" by auto
  with qo fresh_engine_run show ?thesis
    by (intro exI [of _ "\<lparr>px_processor = new_processor, px_engine = fresh_engine, px_input = qi', px_output = qo\<rparr>"]) (auto simp: proc_ok_def)
qed

text \<open>
  C22.  One pass through the loop of the processor thread, in a state with the engine of an admissible run and
  well-formed queues and with a batch the engine can take, goes through and does what the engine does
  with these requests in order: it continues a flush or takes the oldest at most 32 requests from
  the input queue; what the engine emits is appended to the output queue in order, each trade for
  its buyer and its seller, everything else for the requesting client, as far as the queue has room;
  the sequence number and the counters advance by what was emitted, delivered and lost; and the next
  state is again such a state.
\<close>

theorem processor_iteration_refines:
  assumes "proc_ok s" and "next_batch_ok clock s"
  shows "\<exists>s' l' taken outs.
     processor_iteration clock s l = Some (s', l') \<and> proc_ok s'
     \<and> engine_iteration clock (lv_flush_client_id l) (take 32 (contents (px_input s))) (px_engine s) = Some (taken, outs, px_engine s')
     \<and> contents (px_input s) = taken @ contents (px_input s')
     \<and> contents (px_output s') = contents (px_output s)
         @ take (LOCKFREE_QUEUE_SIZE - 1 - length (contents (px_output s))) (route_all (lv_sequence l) outs)
     \<and> lv_sequence l' = lv_sequence l + of_nat (length (all_outs outs))
     \<and> pst_messages_processed (totals s' l') = pst_messages_processed (totals s l) + of_nat (length taken)
     \<and> pst_output_messages (totals s' l') = pst_output_messages (totals s l)
         + of_nat (min (length (route_all (lv_sequence l) outs)) (LOCKFREE_QUEUE_SIZE - 1 - length (contents (px_output s))))
     \<and> pst_trades_processed (totals s' l') = pst_trades_processed (totals s l) + of_nat (length (filter is_trade (all_outs outs)))"
proof -
  from processor_iteration_ok [OF assms, of l] obtain s' l' taken outs where
    r: "processor_iteration clock s l = Some (s', l')" "proc_ok s'"
      "engine_iteration clock (lv_flush_client_id l) (take 32 (contents (px_input s))) (px_engine s) = Some (taken, outs, px_engine s')"
      "contents (px_input s) = taken @ contents (px_input s')"
      "contents (px_output s') = contents (px_output s)
         @ take (LOCKFREE_QUEUE_SIZE - 1 - length (contents (px_output s))) (route_all (lv_sequence l) outs)"
      "outcome taken outs s l s' l'" by blast
  obtain sd ld where d: "deliver (route_all (lv_sequence l) outs) s l = (sd, ld)" by fastforce
  have "queue_ok (px_output s)" using assms(1) by (simp add: proc_ok_def)
  from deliver_contents(3) [OF this d] r show ?thesis by (auto simp: outcome_def d)
qed

theorem processor_iteration_refines_witness:
  "\<exists>s s' l'. proc_ok s \<and> next_batch_ok (\<lambda>_. 0) s \<and> contents (px_input s) = [sell_envelope]
     \<and> processor_iteration (\<lambda>_. 0) s new_locals = Some (s', l') \<and> proc_ok s' \<and> contents (px_input s') = []"
proof -
  obtain s where s: "proc_ok s" "contents (px_input s) = [sell_envelope]" "px_engine s = fresh_engine" using one_request by blast
  have idle: "\<not> matching_engine_has_flush_in_progress (en_engine fresh_engine)"
    using no_flush_idle [OF fresh_engine_rep(1)] fresh_engine_rep(3) by blast
  have ok: "next_batch_ok (\<lambda>_. 0) s"
    using idle fresh_engine_takes by (simp add: next_batch_ok_def s fresh_engine_out sell_envelope_def split: option.splits)
  from processor_iteration_refines [OF s(1) ok, of new_locals] obtain s' l' taken outs where
    r: "processor_iteration (\<lambda>_. 0) s new_locals = Some (s', l')" "proc_ok s'"
      "engine_iteration (\<lambda>_. 0) (lv_flush_client_id new_locals) (take 32 (contents (px_input s))) (px_engine s) = Some (taken, outs, px_engine s')"
      "contents (px_input s) = taken @ contents (px_input s')" by blast
  have "\<not> matching_engine_has_flush_in_progress (en_engine (px_engine s))" using idle s(3) by simp
  from engine_iteration_simps(1) [OF this, THEN iffD1, OF r(3)] have "taken = [sell_envelope]" by (simp add: s(2))
  with r(4) s(2) have "contents (px_input s') = []" by simp
  with s ok r show ?thesis by blast
qed

text \<open>
  When a client disconnects, the processor has the engine cancel its orders and appends the
  resulting messages to the output queue, all addressed to that client and numbered consecutively
  from the current sequence number, as far as there is room.
\<close>

theorem processor_cancel_client_orders_refines:
  assumes "engine_run False (px_engine s)" and "queue_ok (px_output s)" and "client_id > 0"
  shows "\<exists>s' k e. processor_cancel_client_orders client_id s = Some s'
     \<and> matching_engine_cancel_client_orders client_id ((px_engine s)\<lparr>en_out := []\<rparr>) = Some (k, e)
     \<and> px_engine s' = e\<lparr>en_out := en_out (px_engine s)\<rparr> \<and> engine_run False e \<and> queue_ok (px_output s') \<and> px_input s' = px_input s
     \<and> contents (px_output s') = contents (px_output s)
         @ take (LOCKFREE_QUEUE_SIZE - 1 - length (contents (px_output s)))
             (addressed client_id (pr_output_sequence (px_processor s)) (en_out e))
     \<and> pr_output_sequence (px_processor s') = pr_output_sequence (px_processor s) + of_nat (length (en_out e))"
  by (rule processor_cancel_client_orders_ok [OF assms])

theorem processor_cancel_client_orders_refines_witness:
  "\<exists>s s'. engine_run False (px_engine s) \<and> queue_ok (px_output s) \<and> processor_cancel_client_orders 11 s = Some s' \<and> queue_ok (px_output s')"
proof -
  obtain s where s: "proc_ok s" "px_engine s = fresh_engine" using one_request by blast
  then have "engine_run False (px_engine s)" "queue_ok (px_output s)" using fresh_engine_run by (simp_all add: proc_ok_def)
  moreover from processor_cancel_client_orders_refines [OF this, of 11] obtain s' where
    "processor_cancel_client_orders 11 s = Some s'" "queue_ok (px_output s')" by auto
  ultimately show ?thesis by blast
qed

section \<open>The client registry\<close>

text \<open>
  C23.  The registry of clients is a finite map from identifiers to entries: registering a
  connection gives it a fresh identifier of the TCP range and adds its entry alone, the entry is then
  found under the identifier, and removing it gives back the map as it was.
\<close>

theorem registry_register_unregister:
  assumes "registry_ok reg" and "tcp_room reg"
  shows "\<exists>c reg1 reg2. client_registry_add_tcp (int fd) now reg = Some (c, reg1) \<and> client_id_is_tcp c \<and> clients reg c = None
     \<and> clients reg1 = (clients reg)(c \<mapsto> new_entry c TRANSPORT_TCP (Tcp_fd (int fd)) now)
     \<and> client_registry_find reg1 c out = Some (True, new_entry c TRANSPORT_TCP (Tcp_fd (int fd)) now)
     \<and> client_registry_remove c reg1 = Some (True, reg2) \<and> registry_ok reg2 \<and> clients reg2 = clients reg
     \<and> client_registry_find reg2 c out = Some (False, out)"
proof -
  from client_registry_add_tcp_ok [OF assms, of "int fd" now] obtain c reg1 where
    1: "client_registry_add_tcp (int fd) now reg = Some (c, reg1)" "registry_ok reg1" "client_id_is_tcp c" "clients reg c = None"
      "clients reg1 = (clients reg)(c \<mapsto> new_entry c TRANSPORT_TCP (Tcp_fd (int fd)) now)" by auto
  obtain c' r1 reg2 where
    "client_registry_add_tcp (int fd) now reg = Some (c', r1)" "client_registry_remove c' r1 = Some (True, reg2)" "registry_ok reg2" "clients reg2 = clients reg"
    using tcp_dir.register_unregister [OF assms, of "(fd, now)"] unfolding split by blast
  with 1 client_registry_find_ok [OF 1(2), of c out] client_registry_find_ok [of reg2 c out] show ?thesis by auto
qed

theorem registry_register_unregister_witness:
  "\<exists>reg c reg1 reg2. client_registry_add_tcp 7 1 reg = Some (c, reg1) \<and> client_registry_remove c reg1 = Some (True, reg2) \<and> clients reg2 = Map.empty"
proof -
  obtain reg where reg: "registry_ok reg" "tcp_room reg" "clients reg = Map.empty" using client_registry_init_ok by blast
  from registry_register_unregister [OF reg(1,2), of 7 1 undefined] reg(3) show ?thesis by simp blast
qed

text \<open>
  A UDP sender keeps its identifier: the first datagram from an address registers it under a
  fresh identifier, and every later one, whatever its time, is given the same identifier and leaves the
  registry as it is.
\<close>

theorem registry_udp_stable:
  assumes "registry_ok reg" and "udp_room reg"
  shows "\<exists>c reg'. client_registry_get_or_add_udp addr now reg = Some (c, reg') \<and> registry_ok reg' \<and> udp_client reg' addr c
     \<and> (if \<exists>c'. udp_client reg addr c' then reg' = reg
        else clients reg c = None \<and> clients reg' = (clients reg)(c \<mapsto> new_entry c TRANSPORT_UDP (Udp_addr addr) now))
     \<and> (\<forall>now'. client_registry_get_or_add_udp addr now' reg' = Some (c, reg'))"
  by (rule client_registry_get_or_add_udp_ok [OF assms])

theorem registry_udp_stable_witness:
  "\<exists>reg c reg'. client_registry_get_or_add_udp \<lparr>ua_addr = 1, ua_port = 2, ua_pad = 0\<rparr> 5 reg = Some (c, reg') \<and> clients reg c = None
     \<and> client_registry_get_or_add_udp \<lparr>ua_addr = 1, ua_port = 2, ua_pad = 0\<rparr> 6 reg' = Some (c, reg')"
proof -
  obtain reg where reg: "registry_ok reg" "udp_room reg" "clients reg = Map.empty" using client_registry_init_ok by blast
  from registry_udp_stable [OF reg(1,2), of "\<lparr>ua_addr = 1, ua_port = 2, ua_pad = 0\<rparr>" 5] reg(3) show ?thesis
    by (metis option.simps(3))
qed

section \<open>Responses on their way to the client\<close>

text \<open>
  From the engine to the client in the binary protocol: in every state of an admissible run of the
  engine each message in its output buffer is formatted, and the client's codec recognises the bytes as
  binary and decodes the same message, up to the symbol cut to the eight characters of the wire
  format and the internal client identifiers of a trade, which are not sent.
\<close>

theorem engine_output_reaches_client:
  assumes "engine_run f e" and "msg \<in> set (en_out e)"
  shows "\<exists>bs fm'. binary_message_formatter_format fm msg = Some (Some bs, fm')
     \<and> codec_decode_response c bs = Some (Some (wire_msg msg), saw ENCODING_BINARY c)"
  using engine_run_outs [OF assms(1)] assms(2) by (intro codec_decode_binary) (auto simp: outs_ok_def)

theorem engine_output_reaches_client_witness:
  "\<exists>e msg. engine_run False e \<and> msg \<in> set (en_out e) \<and> (\<exists>bs fm'. binary_message_formatter_format \<lparr>bf_buffer = (\<lambda>_. 0)\<rparr> msg = Some (Some bs, fm'))"
proof -
  define msg where "msg = INPUT_MSG_CANCEL \<lparr>cm_user_id = 1, cm_user_order_id = 7, cm_symbol = []\<rparr>"
  have adm: "admissible fresh_engine msg" by (simp add: msg_def valid_ids_def)
  from run_message_defined [OF fresh_engine_run adm] obtain e where e: "matching_engine_process_message msg 11 0 fresh_engine = Some e" by blast
  have run: "engine_run False e" by (rule engine_run.message [OF fresh_engine_run adm _ e]) (simp add: msg_def)
  let ?m = "\<lparr>cm_user_id = 1, cm_user_order_id = 7, cm_symbol = []\<rparr>"
  have "valid_ids (cm_user_id ?m) (cm_user_order_id ?m)" "tracked fresh_engine (cm_user_id ?m) (cm_user_order_id ?m) = None"
    by (simp_all add: valid_ids_def fresh_engine_untracked)
  from process_cancel_order_untracked [OF fresh_engine_rep(1) this] e have "en_out e = emit [] [cancel_ack_of ''UNKNOWN'' 1 7]"
    by (auto simp: msg_def matching_engine_process_message_def fresh_engine_def)
  then have "en_out e \<noteq> []" by (simp add: emit_def)
  then obtain m where "m \<in> set (en_out e)" by (meson list.set_sel(1))
  with run engine_output_reaches_client [OF run this, of "\<lparr>bf_buffer = (\<lambda>_. 0)\<rparr>" undefined] show ?thesis by blast
qed

text \<open>
  C24.  The same in text: the line the server formats for a message whose numbers are below 2147483648 and
  whose symbol fits its field and has no separators is recognised as text by the client's codec and
  decoded to the same message, without the internal client identifiers of a trade; an eliminated
  side is written as dashes and read back as zeros.
\<close>

theorem csv_response_roundtrip:
  assumes "csv_decodable msg"
  shows "\<exists>text f'. message_formatter_format f msg = Some (text, f')
     \<and> codec_decode_response c (map of_char text) = Some (Some (csv_msg msg), saw ENCODING_CSV c)"
  using message_formatter_format_fits [OF assms] codec_decode_csv [OF assms] by blast

definition gone_msg :: output_msg_t where
  "gone_msg = OUTPUT_MSG_TOP_OF_BOOK \<lparr>tob_price = 0, tob_total_quantity = 0, tob_side = SIDE_BUY, tob_symbol = ''IBM''\<rparr>"

theorem csv_response_roundtrip_witness:
  "csv_decodable gone_msg \<and> (\<exists>text f'. message_formatter_format \<lparr>mf_buffer = []\<rparr> gone_msg = Some (text, f') \<and> text = ''B, IBM, B, -, -'' @ [CHR 0x0A]
     \<and> (\<exists>c'. codec_decode_response undefined (map of_char text) = Some (Some gone_msg, c')))"
proof -
  have d: "csv_decodable gone_msg" by (simp add: csv_decodable_def gone_msg_def plain_symbol_def side_is_valid_def)
  have t: "output_text gone_msg = ''B, IBM, B, -, -'' @ [CHR 0x0A]" using fmt_c_side(1) by (simp add: output_text_def gone_msg_def)
  have "csv_msg gone_msg = gone_msg" by (simp add: csv_msg_def gone_msg_def)
  with d t csv_response_roundtrip [OF d, of "\<lparr>mf_buffer = []\<rparr>" undefined] message_formatter_format_fits [OF d] show ?thesis by auto
qed

section \<open>The unified server\<close>

text \<open>
  C25.  The invariant of the running server along its guarded runs.  A step is a whole pass of one thread and the passes come in any order; a connection or a new sender
  is taken on while the registry has room, and a processor takes a batch only when its engine can take it (\<open>next_batch_ok\<close>).  In every state reached this way the
  queues and the registry are well formed, every message waiting to be sent can be
  formatted, every processor has an engine reached by an admissible run, and every TCP client a valid descriptor.
\<close>

theorem unified_server_invariant:
  assumes "unified_run sys"
  shows "server_ok (sy_server sys) \<and> (\<forall>k. \<forall>env\<in>set (sending (sy_server sys) k). formattable (oe_msg env))
     \<and> (\<forall>k p l. sy_proc sys k = Some (p, l) \<longrightarrow> (\<exists>f. engine_run f (px_engine p)))
     \<and> (\<forall>c e. clients (us_registry (sy_server sys)) c = Some e \<longrightarrow> fd_ok e)"
  using unified_run_ok [OF assms] by (auto simp: system_ok_def queued_ok_def engines_ok_def fds_ok_clients)

theorem unified_server_invariant_witness: "\<exists>sys. unified_run sys \<and> server_ok (sy_server sys)"
proof -
  from idle_server_ex obtain sys where "unified_run sys" by (auto simp: idle_server_def)
  with unified_server_invariant [of sys] show ?thesis by blast
qed

text \<open>
  C26.  What can abort the running server.  In every state of a guarded run the router, a processor with a batch its engine can
  take, the listener while the registry has room, the end of a connection and the handler of a connection that does not
  speak CSV go through.  The guards matter: a processor aborts when its engine aborts on the next message, and the line the client's CSV encoder writes for a cancel of user 0
  aborts the server when it is the first on a connection.
\<close>

theorem unified_server_aborts:
  assumes "unified_run sys"
  shows "router_iteration net (sy_server sys) \<noteq> None
     \<and> (\<forall>k p l. sy_proc sys k = Some (p, l) \<and> next_batch_ok clock (attach k (sy_server sys) p)
          \<longrightarrow> processor_iteration clock (attach k (sy_server sys) p) l \<noteq> None)
     \<and> (\<forall>k p l. sy_proc sys k = Some (p, l) \<and> first_fatal clock (waiting (sy_server sys) k) (px_engine p)
          \<longrightarrow> processor_iteration clock (attach k (sy_server sys) p) l = None)
     \<and> (0 \<le> fd \<and> tcp_room (us_registry (sy_server sys)) \<longrightarrow> tcp_accepted fd now (sy_server sys) \<noteq> None)
     \<and> (th_framing h \<noteq> FRAMING_CSV \<and> \<not> csv_start ((th_buffer h @ bytes) ! 0) \<longrightarrow> tcp_received c bytes h (sy_server sys) \<noteq> None)
     \<and> client_registry_remove c (us_registry (sy_server sys)) \<noteq> None
     \<and> (case encode_csv_cancel CODEC_MAX_MESSAGE_SIZE 0 order_id of (n, buffer) \<Rightarrow>
          tcp_received c (map of_char (take n buffer)) (new_handler parser) (sy_server sys) = None)"
proof -
  note ok = unified_run_ok [OF assms]
  from cancel_zero_aborts [of order_id _ _ c parser "sy_server sys"] show ?thesis
    using unified_never_stuck [OF ok] by (auto split: prod.splits)
qed

theorem unified_server_aborts_witness:
  "\<exists>sys p l. unified_run sys \<and> sy_proc sys False = Some (p, l) \<and> router_iteration (\<lambda>_ _ bs. int (length bs)) (sy_server sys) \<noteq> None
     \<and> processor_iteration (\<lambda>_. 0) (attach False (sy_server sys) p) l \<noteq> None"
proof -
  from idle_server_ex obtain sys where i: "idle_server sys" by blast
  then obtain p l where p: "unified_run sys" "sy_proc sys False = Some (p, l)" "px_engine p = fresh_engine" by (auto simp: idle_server_def)
  have "contents (px_input (attach False (sy_server sys) p)) = []"
    using attach_ok(4) [OF idle_server_facts(2) [OF i], of False p] idle_server_facts(3) [OF i] by simp
  then have "next_batch_ok (\<lambda>_. 0) (attach False (sy_server sys) p)" by (auto simp: next_batch_ok_def split: option.splits bool.splits)
  then have "router_iteration (\<lambda>_ _ bs. int (length bs)) (sy_server sys) \<noteq> None" "processor_iteration (\<lambda>_. 0) (attach False (sy_server sys) p) l \<noteq> None"
    using unified_server_aborts [OF p(1), of "\<lambda>_ _ bs. int (length bs)" "\<lambda>_. 0"] p(2) by simp_all
  with p(1,2) show ?thesis by blast
qed

text \<open>
  C27.  A client's TCP session in the binary protocol of less than 65536 bytes, however the network cuts them: the client encodes the
  requests, sends them as frames and closes the connection; the handler accepts exactly these requests in order, for this client, each in the
  queue of the processor of its symbol, and removes the client, provided the queues have room for all of them.  Cancels and flushes carry no symbol and go
  to the queue of processor 0 only, also when there are two processors.
\<close>

theorem tcp_session_roundtrip:
  assumes "server_ok s" and "cd_send_encoding cd = ENCODING_BINARY" and "\<forall>m\<in>set ms. sendable m" and "ms \<noteq> []"
    and "encode_requests cd ms = Some bss" and "concat blocks = concat (map frame bss)" and "\<forall>b\<in>set blocks. b \<noteq> []"
    and "length (concat blocks) < TCP_RECV_BUFFER_SIZE" and "\<forall>k. length (waiting s k) + length ms < LOCKFREE_QUEUE_SIZE"
  shows "\<exists>s'. tcp_client_handler c (map Recv_bytes blocks @ [Recv_closed]) s = Some s' \<and> server_ok s' \<and> clients (us_registry s') c = None
     \<and> waiting s' = (\<lambda>k. waiting s k @ map (envelope_of c None) (filter (\<lambda>m. to_second s m = k) ms))
     \<and> us_user_map s' = fold (users_after c) ms (us_user_map s)"
proof -
  have bss: "list_all2 carries bss ms" using encode_requests_binary [OF assms(2,3)] assms(5) by auto
  have put: "put_all (to_second s) (envelope_of c None) ms (waiting s) = (\<lambda>k. waiting s k @ map (envelope_of c None) (filter (\<lambda>m. to_second s m = k) ms))"
    using assms(9) le_less_trans [OF add_left_mono [OF length_filter_le]] by (intro put_all_room) blast
  from tcp_session [OF assms(7,8) received_frames [OF assms(1) bss assms(4,6)]] obtain s1 s' where
    "tcp_client_handler c (map Recv_bytes blocks @ [Recv_closed]) s = Some s'" "took c None ms s s1" "gone c s1 s'" by blast
  with put show ?thesis by (auto simp: took_def gone_def server_ok_def)
qed

theorem tcp_session_roundtrip_witness:
  "\<exists>cd bs s s'. encode_requests cd [cancel_request] = Some [bs]
     \<and> tcp_client_handler 1 (map Recv_bytes [frame bs] @ [Recv_closed]) s = Some s' \<and> waiting s' False = [envelope_of 1 None cancel_request]"
proof -
  from idle_server_ex obtain sys where i: "idle_server sys" by blast
  from cancel_encoded obtain cd bs where cd: "cd_send_encoding cd = ENCODING_BINARY" "encode_requests cd [cancel_request] = Some [bs]" "carries bs cancel_request"
    by blast
  have sd: "\<forall>m\<in>set [cancel_request]. sendable m" "[cancel_request] \<noteq> []" using cancel_request_sendable by simp_all
  have room: "\<forall>k. length (waiting (sy_server sys) k) + length [cancel_request] < LOCKFREE_QUEUE_SIZE" by (simp add: idle_server_facts [OF i])
  have one: "\<not> to_second (sy_server sys) cancel_request" using idle_server_facts(9) [OF i] by (simp add: to_second_def)
  have b: "concat [frame bs] = concat (map frame [bs])" "\<forall>b\<in>set [frame bs]. b \<noteq> []" "length (concat [frame bs]) < TCP_RECV_BUFFER_SIZE"
    using carries_start [OF cd(3)] by (auto simp: frame_def)
  from tcp_session_roundtrip [OF idle_server_facts(2) [OF i] cd(1) sd cd(2) b room, of 1] obtain s' where
    "tcp_client_handler 1 (map Recv_bytes [frame bs] @ [Recv_closed]) (sy_server sys) = Some s'"
    "waiting s' = (\<lambda>k. waiting (sy_server sys) k @ map (envelope_of 1 None) (filter (\<lambda>m. to_second (sy_server sys) m = k) [cancel_request]))" by blast
  moreover from this(2) have "waiting s' False = [envelope_of 1 None cancel_request]" using one idle_server_facts(3) [OF i] by simp
  ultimately show ?thesis using cd(2) by blast
qed

text \<open>
  C28.  From the bytes of a request to the bytes of the answers.  A client sends requests in the binary protocol, in frames cut in any
  way, to a server whose processor \<open>k\<close> is idle and takes them all; then the handler, one pass of the processor
  and as many passes of the router as there are answers go through, the engine does what it does with these requests in
  order, and every envelope it is answered with is served in order: formatted in the protocol of each recipient, sent to it, and to the multicast group.
\<close>

theorem request_to_answers:
  assumes "unified_run sys" and "sy_proc sys k = Some (p, l)" and "few_clients (sy_server sys)"
    and "waiting (sy_server sys) k = []" and "\<forall>j. sending (sy_server sys) j = []"
    and "\<forall>m\<in>set ms. to_second (sy_server sys) m = k" and "ms \<noteq> []" and "length ms \<le> 32"
    and "cd_send_encoding cd = ENCODING_BINARY" and "\<forall>m\<in>set ms. sendable m"
    and "encode_requests cd ms = Some bss" and "concat blocks = concat (map frame bss)"
    and "answers clock c ms (px_engine p) outs e'" and "length (route_all (lv_sequence l) outs) < LOCKFREE_QUEUE_SIZE"
  shows "\<exists>h s1 p' l' s2 ws. received_all c blocks (new_handler parser) (sy_server sys) = Some (h, s1) \<and> th_buffer h = []
     \<and> processor_iteration clock (attach k s1 p) l = Some (p', l') \<and> px_engine p' = e'
     \<and> router_loop (length (route_all (lv_sequence l) outs)) net (detach k p' s1) = Some s2
     \<and> waiting (detach k p' s1) k = [] \<and> (\<forall>j. sending s2 j = []) \<and> us_wire s2 = us_wire (sy_server sys) @ concat ws
     \<and> list_all2 (served s1) (route_all (lv_sequence l) outs) ws"
proof -
  have ok: "system_ok sys" by (rule unified_run_ok [OF assms(1)])
  then have "server_ok (sy_server sys)" by (simp add: system_ok_def)
  moreover have "list_all2 carries bss ms" using encode_requests_binary [OF assms(9,10)] assms(11) by auto
  ultimately have "\<exists>h s1. received_all c blocks (new_handler parser) (sy_server sys) = Some (h, s1) \<and> th_buffer h = [] \<and> took c None ms (sy_server sys) s1"
    by (rule received_frames [OF _ _ assms(7,12)])
  from request_to_wire [OF ok assms(2-8) this assms(13,14)] show ?thesis .
qed

theorem request_to_answers_witness:
  "\<exists>sys c bs h s1 p l p' l' s2 e x mc. unified_run sys \<and> sy_proc sys False = Some (p, l)
     \<and> received_all c [frame bs] (new_handler blank_parser) (sy_server sys) = Some (h, s1)
     \<and> processor_iteration (\<lambda>_. 0) (attach False s1 p) l = Some (p', l')
     \<and> router_loop 1 (\<lambda>_ _ bs. int (length bs)) (detach False p' s1) = Some s2
     \<and> clients (us_registry s1) c = Some e \<and> ce_handle e = Tcp_fd 7 \<and> us_wire s2 = x # mc \<and> on_wire e cancel_answer x"
proof -
  from connected_server_ex obtain sys c where i: "connected_server sys c" by blast
  then obtain p l where p: "unified_run sys" "sy_proc sys False = Some (p, l)" "px_engine p = fresh_engine" "lv_sequence l = 0"
    and s: "few_clients (sy_server sys)" "waiting (sy_server sys) False = []" "\<forall>j. sending (sy_server sys) j = []" "us_wire (sy_server sys) = []"
      "handles (us_registry (sy_server sys)) c = Some (Tcp_fd 7)" "uc_single_processor (us_config (sy_server sys))" by (auto simp: connected_server_def)
  from cancel_encoded obtain cd bs where cd: "cd_send_encoding cd = ENCODING_BINARY" "encode_requests cd [cancel_request] = Some [bs]" "carries bs cancel_request" by blast
  from cancel_answered [of "\<lambda>_. 0" c] obtain e' where ans: "answers (\<lambda>_. 0) c [cancel_request] (px_engine p) [(c, [cancel_answer])] e'"
    unfolding p(3) by blast
  have ra: "route_all (lv_sequence l) [(c, [cancel_answer])] = [\<lparr>oe_msg = cancel_answer, oe_client_id = c, oe_sequence = 0\<rparr>]"
    by (simp add: p(4) cancel_answer_def)
  have one: "\<forall>m\<in>set [cancel_request]. to_second (sy_server sys) m = False" using s(6) by (simp add: to_second_def)
  have b: "concat [frame bs] = concat (map frame [bs])" "[cancel_request] \<noteq> []" "length [cancel_request] \<le> 32" by simp_all
  have sd: "\<forall>m\<in>set [cancel_request]. sendable m" using cancel_request_sendable by simp
  have room: "length (route_all (lv_sequence l) [(c, [cancel_answer])]) < LOCKFREE_QUEUE_SIZE" unfolding ra by simp
  have len: "length [\<lparr>oe_msg = cancel_answer, oe_client_id = c, oe_sequence = 0\<rparr> :: output_msg_envelope_t] = 1" by simp
  from request_to_answers [OF p(1,2) s(1-3) one b(2,3) cd(1) sd cd(2) b(1) ans room, unfolded ra len, of blank_parser "\<lambda>_ _ bs. int (length bs)"]
  obtain h s1 p' l' s2 ws where r: "received_all c [frame bs] (new_handler blank_parser) (sy_server sys) = Some (h, s1)"
    "processor_iteration (\<lambda>_. 0) (attach False s1 p) l = Some (p', l')" "router_loop 1 (\<lambda>_ _ bs. int (length bs)) (detach False p' s1) = Some s2"
    "us_wire s2 = us_wire (sy_server sys) @ concat ws" "list_all2 (served s1) [\<lparr>oe_msg = cancel_answer, oe_client_id = c, oe_sequence = 0\<rparr>] ws" by blast
  have "system_ok sys" by (rule unified_run_ok [OF p(1)])
  then have "server_ok (sy_server sys)" by (simp add: system_ok_def)
  from received_frames [OF this _ b(2,1), where c = c and p = blank_parser] cd(3) r(1) have "took c None [cancel_request] (sy_server sys) s1" by auto
  then have "handles (us_registry s1) c = Some (Tcp_fd 7)" using s(5) by (simp add: took_def same_server_def)
  then obtain e where e: "clients (us_registry s1) c = Some e" "ce_handle e = Tcp_fd 7" by (auto simp: handles_def)
  from r(5) obtain w where w: "ws = [w]" "served s1 \<lparr>oe_msg = cancel_answer, oe_client_id = c, oe_sequence = 0\<rparr> w" by (auto simp: list_all2_Cons1)
  then obtain x mc where "w = x # mc" "on_wire e cancel_answer x"
    using e(1) by (auto simp: served_def audience_def delivered_def registered_def cancel_answer_def list_all2_Cons1)
  moreover from this have "us_wire s2 = x # mc" using r(4) w(1) s(4) by simp
  ultimately show ?thesis using r(1-3) p(1,2) e by blast
qed

text \<open>
  C29.  The handler of a TCP connection does not depend on how the network cuts the stream: two ways of cutting the same
  bytes into blocks lead to the same handler and the same server, in every framing and also while the framing is being detected.
\<close>

theorem tcp_stream_cut:
  assumes "concat (b # bs) = concat (d # ds)"
  shows "received_all c (b # bs) h s = received_all c (d # ds) h s"
  by (rule received_cut_invariant [OF assms])

theorem tcp_stream_cut_witness:
  "\<forall>h s. received_all 1 [[78], [44, 49], [44]] h s = received_all 1 [[78, 44], [49, 44]] h s"
  by (intro allI tcp_stream_cut) simp

text \<open>
  Frames that do not hold binary messages are not read: when the first frame on a connection has a content that does not start
  with the magic byte, such as the lines the client sends in the CSV encoding, the handler accepts nothing, whatever follows, and
  keeps every byte in its buffer.
\<close>

theorem framed_csv_unread:
  assumes "cd_send_encoding cd = ENCODING_CSV" and "sendable m" and "fst (encode_request cd m) = Some bs" and "concat (b # blocks) = frame bs @ r"
  shows "received_all c (b # blocks) (new_handler p) s = Some ((new_handler p)\<lparr>th_buffer := frame bs @ r\<rparr>, s)"
proof -
  have "csv_request bs m" using encode_csv_request [of cd m] assms(1-3) by auto
  then have bs: "bs = map of_char (csv_line (request_fields m) @ [newline])" "length bs < 100" unfolding csv_request_def by blast+
  have "csv_start (bs ! 0)" using request_fields_ok(3,4) [OF assms(2)] by (cases "csv_line (request_fields m)") (simp_all add: bs(1))
  then have "bs ! 0 \<noteq> BINARY_MAGIC" by (auto simp: csv_start_def)
  then show ?thesis using bs by (intro received_framed_lines [OF _ _ _ assms(4)]) simp_all
qed

theorem framed_csv_unread_witness:
  "\<exists>cd bs. fst (encode_request cd cancel_request) = Some bs
     \<and> (\<forall>s. received_all 1 [frame bs] (new_handler blank_parser) s = Some ((new_handler blank_parser)\<lparr>th_buffer := frame bs\<rparr>, s))"
proof -
  define cd :: codec_t where "cd = undefined\<lparr>cd_send_encoding := ENCODING_CSV\<rparr>"
  have cd: "cd_send_encoding cd = ENCODING_CSV" by (simp add: cd_def)
  with encode_csv_request [of cd, OF _ cancel_request_sendable] obtain bs where bs: "fst (encode_request cd cancel_request) = Some bs" by auto
  from framed_csv_unread [OF cd cancel_request_sendable bs, of "frame bs" "[]" "[]" 1 blank_parser] bs show ?thesis by auto
qed

text \<open>
  A datagram with one request, in the binary or in the CSV encoding, is accepted for its sender: the sender is registered
  when it is new, the request waits in the queue of its processor with the sender's identifier and address, and nothing else waits.
\<close>

theorem udp_request_roundtrip:
  assumes "server_ok s" and "udp_room (us_registry s)" and "sendable m" and "speaks (us_registry s) addr q"
    and "cd_send_encoding cd = (if q = CLIENT_PROTOCOL_BINARY then ENCODING_BINARY else ENCODING_CSV)" and "q \<in> {CLIENT_PROTOCOL_BINARY, CLIENT_PROTOCOL_CSV}"
    and "fst (encode_request cd m) = Some data" and "length (waiting s (to_second s m)) < LOCKFREE_QUEUE_SIZE - 1"
  shows "\<exists>c p' s'. udp_datagram addr now now' data p s = Some (p', s') \<and> server_ok s' \<and> clients (us_registry s') c \<noteq> None
     \<and> (\<exists>reg. client_registry_get_or_add_udp addr now (us_registry s) = Some (c, reg) \<and> udp_client reg addr c)
     \<and> waiting s' = (waiting s)(to_second s m := waiting s (to_second s m) @ [envelope_of c (Some addr) m])"
proof -
  have enc: "if q = CLIENT_PROTOCOL_BINARY then carries data m else csv_request data m"
    using assms(3,5,7) encode_binary_carries [of cd m] encode_csv_request [of cd m] by (auto split: if_splits)
  have q: "q = CLIENT_PROTOCOL_BINARY \<or> q = CLIENT_PROTOCOL_CSV" using assms(6) by simp
  from udp_request [OF assms(1-3) enc q assms(4), of now now' p] obtain c reg p' s' where
    r: "client_registry_get_or_add_udp addr now (us_registry s) = Some (c, reg)" "udp_client reg addr c"
      "udp_datagram addr now now' data p s = Some (p', s')" and t: "took c (Some addr) [m] (s\<lparr>us_registry := reg\<rparr>) s'" by blast
  have w: "waiting (s\<lparr>us_registry := reg\<rparr>) = waiting s" "to_second (s\<lparr>us_registry := reg\<rparr>) = to_second s" by (simp_all add: to_second_def fun_eq_iff)
  have "waiting s' = (waiting s)(to_second s m := waiting s (to_second s m) @ [envelope_of c (Some addr) m])"
    using t assms(8) by (simp add: took_def w put_def)
  moreover have "clients (us_registry s') c \<noteq> None"
    using t r(2) handles_dom [of "us_registry s'" reg] by (auto simp: took_def same_server_def udp_client_def)
  ultimately show ?thesis using r t by (auto simp: took_def)
qed

theorem udp_request_roundtrip_witness:
  "\<exists>cd data s c p' s'. fst (encode_request cd cancel_request) = Some data \<and> server_ok s
     \<and> udp_datagram \<lparr>ua_addr = 1, ua_port = 2, ua_pad = 0\<rparr> 5 6 data blank_parser s = Some (p', s')
     \<and> waiting s' False = [envelope_of c (Some \<lparr>ua_addr = 1, ua_port = 2, ua_pad = 0\<rparr>) cancel_request]"
proof -
  from idle_server_ex obtain sys where i: "idle_server sys" by blast
  let ?s = "sy_server sys" and ?a = "\<lparr>ua_addr = 1, ua_port = 2, ua_pad = 0\<rparr>"
  define cd :: codec_t where "cd = undefined\<lparr>cd_send_encoding := ENCODING_CSV\<rparr>"
  have cd: "cd_send_encoding cd = (if CLIENT_PROTOCOL_CSV = CLIENT_PROTOCOL_BINARY then ENCODING_BINARY else ENCODING_CSV)" by (simp add: cd_def)
  with encode_csv_request [of cd, OF _ cancel_request_sendable] obtain data where data: "fst (encode_request cd cancel_request) = Some data" by auto
  have sp: "speaks (us_registry ?s) ?a CLIENT_PROTOCOL_CSV" by (simp add: speaks_def idle_server_facts [OF i])
  have one: "\<not> to_second ?s cancel_request" using idle_server_facts(9) [OF i] by (simp add: to_second_def)
  have "length (waiting ?s (to_second ?s cancel_request)) < LOCKFREE_QUEUE_SIZE - 1" by (simp add: idle_server_facts(3) [OF i])
  from udp_request_roundtrip [OF idle_server_facts(2,7) [OF i] cancel_request_sendable sp cd _ data this, of 5 6 blank_parser] obtain c p' s' where
    "udp_datagram ?a 5 6 data blank_parser ?s = Some (p', s')"
    "waiting s' = (waiting ?s)(to_second ?s cancel_request := waiting ?s (to_second ?s cancel_request) @ [envelope_of c (Some ?a) cancel_request])" by auto
  moreover from this(2) one have "waiting s' False = [envelope_of c (Some ?a) cancel_request]" by (simp add: idle_server_facts(3) [OF i])
  ultimately show ?thesis using idle_server_facts(2) [OF i] data by blast
qed

text \<open>
  The bound of the receive buffer for datagrams.  A datagram of the largest size from a new sender is processed when it starts with the
  magic byte; otherwise it is treated as text, and the terminating zero is written behind the buffer.
\<close>

theorem udp_buffer_bound:
  assumes "server_ok s" and "udp_room (us_registry s)" and "\<not> (\<exists>c. udp_client (us_registry s) addr c)" and "length data = MAX_UDP_PACKET_SIZE"
  shows "udp_datagram addr now now' data p s = None \<longleftrightarrow> data ! 0 \<noteq> BINARY_MAGIC"
  by (rule udp_datagram_largest [OF assms])

theorem udp_buffer_bound_witness:
  "\<exists>s. server_ok s \<and> udp_datagram \<lparr>ua_addr = 1, ua_port = 2, ua_pad = 0\<rparr> 5 6 (replicate MAX_UDP_PACKET_SIZE 78) blank_parser s = None"
proof -
  from idle_server_ex obtain sys where i: "idle_server sys" by blast
  have "\<not> (\<exists>c. udp_client (us_registry (sy_server sys)) \<lparr>ua_addr = 1, ua_port = 2, ua_pad = 0\<rparr> c)" by (simp add: udp_client_def idle_server_facts [OF i])
  from udp_buffer_bound [OF idle_server_facts(2,7) [OF i] this, of "replicate MAX_UDP_PACKET_SIZE 78" 5 6 blank_parser] idle_server_facts(2) [OF i]
  show ?thesis by auto
qed

text \<open>
  Which client a trade is reported to.  The map from users to clients is direct-mapped: a user is found under the client that
  last sent an order for it, unless an order of another user with the same identifier modulo 65536 came later; then the user
  is not found at all.
\<close>

theorem user_map_last_order:
  assumes "u \<noteq> 0" and "\<forall>r\<in>set rs. fst r \<noteq> 0"
  shows "user_client_map_get (fold (\<lambda>r m. user_client_map_set m (fst r) (snd r)) rs m) u =
     (case filter (\<lambda>r. unat (fst r) mod 65536 = unat u mod 65536) (rev rs) of
        [] \<Rightarrow> user_client_map_get m u | r # _ \<Rightarrow> if fst r = u then snd r else 0)"
proof -
  have "fold (\<lambda>r m. user_client_map_set m (fst r) (snd r)) rs m = users.writes rs m" by (induction rs arbitrary: m) simp_all
  with users.lookup_writes [OF assms, of m] show ?thesis by (simp add: user_slot_def)
qed

theorem user_map_last_order_witness:
  "user_client_map_get (fold (\<lambda>r m. user_client_map_set m (fst r) (snd r)) [(7, 11), (65543, 12)] (\<lambda>_. \<lparr>um_user_id = 0, um_client_id = 0, um_active = False\<rparr>)) 7 = 0"
  using user_map_last_order [of 7 "[(7, 11), (65543, 12)]" "\<lambda>_. \<lparr>um_user_id = 0, um_client_id = 0, um_active = False\<rparr>"] by simp

text \<open>
  The choice of the processor in the unified server agrees with that of the symbol router on exactly the
  symbols that are missing, empty or start with a letter; every other symbol is sent to the other processor.
\<close>

theorem processor_choice_agrees:
  "get_processor_id_for_symbol symbol = Some (get_processor_for_symbol symbol) \<longleftrightarrow>
     (case symbol of None \<Rightarrow> True | Some s \<Rightarrow> first_char s = CHR 0x00 \<or> symbol_is_valid symbol)"
proof (cases symbol)
  case None
  then show ?thesis by (simp add: get_processor_id_for_symbol_def get_processor_for_symbol_def)
next
  case (Some s)
  let ?n = "of_char (first_char s) :: nat"
  have e: "get_processor_for_symbol (Some s) = (if ?n = 0 \<or> 65 \<le> ?n \<and> ?n \<le> 77 \<or> 97 \<le> ?n \<and> ?n \<le> 109 then 0 else 1)"
    by (cases s) (auto simp: get_processor_for_symbol_def first_char_def Let_def char_eq_nat)
  have z: "first_char s = CHR 0x00 \<longleftrightarrow> ?n = 0" by (simp add: char_eq_nat)
  show ?thesis
    using e z n_to_z_code [of "first_char s"] letter_code [of "first_char s"]
    by (auto simp: Some get_processor_id_for_symbol_char get_processor_id_for_char_eq symbol_is_valid_char symbol_char_is_valid_eq Let_def split: if_splits)
qed

text \<open>
  The router empties the output queues: with messages every client can read, as many passes as the longer queue has
  entries send every waiting envelope, taking the two queues in turns: an acknowledgement to its originator, a
  trade to the clients of its buyer and seller, a top of book to every client, each in the recipient's protocol, and everything to the multicast group.
\<close>

theorem router_empties_queues:
  assumes "server_ok s" and "\<forall>k. \<forall>env\<in>set (sending s k). ready s env" and "\<forall>k. length (sending s k) \<le> n"
  shows "\<exists>s' ws. router_loop n net s = Some s' \<and> server_ok s' \<and> (\<forall>k. sending s' k = []) \<and> us_wire s' = us_wire s @ concat ws
     \<and> list_all2 (served s) (alternate n (sending s False) (sending s True)) ws
     \<and> mset (alternate n (sending s False) (sending s True)) = mset (sending s False) + mset (sending s True)"
proof -
  from router_loop_ok [OF assms(1,2), of n net] obtain s' ws where
    "router_loop n net s = Some s'" "server_ok s'" "\<forall>k. sending s' k = drop n (sending s k)" "us_wire s' = us_wire s @ concat ws"
    "list_all2 (served s) (alternate n (sending s False) (sending s True)) ws" by blast
  moreover have "mset (alternate n (sending s False) (sending s True)) = mset (sending s False) + mset (sending s True)"
    using assms(3) by (intro mset_alternate) blast+
  ultimately show ?thesis using assms(3) by auto
qed

theorem router_empties_queues_witness:
  "\<exists>s s'. sending s False = [\<lparr>oe_msg = cancel_answer, oe_client_id = 1, oe_sequence = 0\<rparr>]
     \<and> router_loop 1 (\<lambda>_ _ bs. int (length bs)) s = Some s' \<and> sending s' False = []"
proof -
  obtain s where s: "server_ok s" "sending s False = [\<lparr>oe_msg = cancel_answer, oe_client_id = 1, oe_sequence = 0\<rparr>]" "sending s True = []"
    "clients (us_registry s) = Map.empty" using answer_waiting by blast
  have fs: "sending s k = (if k then [] else [\<lparr>oe_msg = cancel_answer, oe_client_id = 1, oe_sequence = 0\<rparr>])" for k
    using s(2,3) by (cases k) simp_all
  have all: "\<forall>k. \<forall>env\<in>set (sending s k). ready s env" using s(4) cancel_answer_ok by (simp add: fs ready_def all_read_def few_clients_def)
  have "\<forall>k. length (sending s k) \<le> 1" by (simp add: fs)
  from router_empties_queues [OF s(1) all this, of "\<lambda>_ _ bs. int (length bs)"] s(2) show ?thesis by blast
qed

text \<open>
  C30.  A trade between two clients is reported twice.  The processor queues an envelope for each of the two parties, and the router,
  which takes the parties from the map of the users, sends the message of each envelope to both, and twice to the multicast group.
\<close>

theorem trade_reported_twice:
  assumes "server_ok s" and "all_read s (OUTPUT_MSG_TRADE t)" and "few_clients s"
    and "tr_buy_client_id t \<noteq> tr_sell_client_id t" and "sending s False = routed c seq [OUTPUT_MSG_TRADE t]" and "sending s True = []"
    and "user_client_map_get (us_user_map s) (tr_user_id_buy t) = b" and "clients (us_registry s) b \<noteq> None"
    and "user_client_map_get (us_user_map s) (tr_user_id_sell t) = a" and "clients (us_registry s) a \<noteq> None" and "a \<noteq> b"
  shows "\<exists>s' w1 m1 w2 m2. router_loop 2 net s = Some s' \<and> sending s' False = [] \<and> us_wire s' = us_wire s @ (w1 @ m1) @ (w2 @ m2)
     \<and> delivered (OUTPUT_MSG_TRADE t) s [b, a] w1 \<and> delivered (OUTPUT_MSG_TRADE t) s [b, a] w2
     \<and> on_multicast s (OUTPUT_MSG_TRADE t) m1 \<and> on_multicast s (OUTPUT_MSG_TRADE t) m2"
  by (rule trade_sent_twice [OF assms])

theorem trade_reported_twice_witness:
  "\<exists>s s' b a w1 m1 w2 m2. sending s False = routed 1 0 [OUTPUT_MSG_TRADE small_trade] \<and> b \<noteq> a
     \<and> router_loop 2 (\<lambda>_ _ bs. int (length bs)) s = Some s' \<and> us_wire s' = us_wire s @ (w1 @ m1) @ (w2 @ m2)
     \<and> delivered (OUTPUT_MSG_TRADE small_trade) s [b, a] w1 \<and> delivered (OUTPUT_MSG_TRADE small_trade) s [b, a] w2"
proof -
  obtain s b a where s: "trade_server s b a" using trade_server_ex by blast
  then have f: "server_ok s" "all_read s (OUTPUT_MSG_TRADE small_trade)" "few_clients s" "sending s False = routed 1 0 [OUTPUT_MSG_TRADE small_trade]" "sending s True = []"
    "clients (us_registry s) b \<noteq> None" "clients (us_registry s) a \<noteq> None" "a \<noteq> b" unfolding trade_server_def by blast+
  have t: "tr_buy_client_id small_trade \<noteq> tr_sell_client_id small_trade" "user_client_map_get (us_user_map s) (tr_user_id_buy small_trade) = b"
    "user_client_map_get (us_user_map s) (tr_user_id_sell small_trade) = a" using s by (simp_all add: trade_server_def small_trade_def)
  from trade_reported_twice [OF f(1-3) t(1) f(4,5) t(2) f(6) t(3) f(7,8), of "\<lambda>_ _ bs. int (length bs)"] f(4,8) show ?thesis by metis
qed

text \<open>
  The end of the server.  With engines of admissible runs and room in their pools, \<open>cleanup_server\<close> goes through exactly when
  no message is left in any of the queues; it aborts when the threads have stopped with messages still waiting to be processed or sent.
\<close>

theorem shutdown_needs_empty_queues:
  assumes "unified_run sys" and "\<forall>k p l. sy_proc sys k = Some (p, l) \<longrightarrow> 0 < p_free_count (en_pool (px_engine p))"
  shows "cleanup_server (sy_server sys) (map_option (px_engine \<circ> fst) (sy_proc sys False)) (map_option (px_engine \<circ> fst) (sy_proc sys True))
     = (if \<forall>k. waiting (sy_server sys) k = [] \<and> sending (sy_server sys) k = [] then Some () else None)"
proof -
  from unified_run_ok [OF assms(1)] have ok: "server_ok (sy_server sys)" "engines_ok sys" by (simp_all add: system_ok_def)
  have "destroyable (map_option (px_engine \<circ> fst) (sy_proc sys k))" for k
  proof (cases "sy_proc sys k")
    case (Some pl)
    then have "sy_proc sys k = Some (fst pl, snd pl)" by simp
    with ok(2) assms(2) have "(\<exists>f. engine_run f (px_engine (fst pl))) \<and> 0 < p_free_count (en_pool (px_engine (fst pl)))" unfolding engines_ok_def by blast
    with Some show ?thesis by (simp add: destroyable_def)
  qed (simp add: destroyable_def)
  then show ?thesis by (intro cleanup_server_ok [OF ok(1)])
qed

theorem shutdown_needs_empty_queues_witness:
  "\<exists>sys e. unified_run sys \<and> cleanup_server (sy_server sys) (Some e) None = Some ()"
proof -
  from idle_server_ex obtain sys where i: "idle_server sys" by blast
  then obtain p l where p: "unified_run sys" "sy_proc sys False = Some (p, l)" "px_engine p = fresh_engine" "sy_proc sys True = None"
    by (auto simp: idle_server_def fresh_system_def small_config_def)
  have "\<forall>k p l. sy_proc sys k = Some (p, l) \<longrightarrow> 0 < p_free_count (en_pool (px_engine p))"
  proof (intro allI impI)
    fix k p' l' assume "sy_proc sys k = Some (p', l')"
    with p show "0 < p_free_count (en_pool (px_engine p'))" by (cases k) (simp_all add: fresh_engine_room)
  qed
  from shutdown_needs_empty_queues [OF p(1) this] p idle_server_facts(3,4) [OF i] have "cleanup_server (sy_server sys) (Some fresh_engine) None = Some ()" by simp
  with p(1) show ?thesis by blast
qed

section \<open>The TCP mode\<close>

text \<open>
  C31.  The TCP mode, single or dual, along its guarded runs: whole passes of its threads in any order, events that keep to what the kernel promises, and
  batches the engine of the processor can take (\<open>next_batch_ok\<close>).  In every state reached this way the table of clients, the queues
  and the interest list of the event loop agree, every queued answer can be sent, and every processor has an engine reached by an admissible run.  A round of
  the output router does not abort; a pass of a processor does not abort when its engine can take the batch, and aborts when its engine aborts on the first message.  A pass of the event
  loop aborts only when a client with undelivered answers is disconnected in it or a message that is read makes the parser abort; the client's own CSV cancel of user 0 is such a message.
\<close>

theorem tcp_mode_invariant:
  assumes "tcp_run sys"
  shows "listener_ok (ts_listener sys) \<and> router_ok (router_of sys) \<and> sendable_outputs sys \<and> tcp_procs_ok sys
     \<and> router_round net (router_of sys) \<noteq> None
     \<and> (\<forall>k p l. ts_proc sys k = Some (p, l) \<and> next_batch_ok clock (join_queues k sys p) \<longrightarrow> processor_iteration clock (join_queues k sys p) l \<noteq> None)
     \<and> (\<forall>k p l. ts_proc sys k = Some (p, l) \<and> first_fatal clock (inbox (ts_listener sys) k) (px_engine p) \<longrightarrow> processor_iteration clock (join_queues k sys p) l = None)
     \<and> ((\<forall>i. write_fits (wr i)) \<and> (\<forall>ctx evs. process_output_queues wr (ts_listener sys) = Some ctx \<and> r = Wait_events evs \<longrightarrow> events_ok evs ctx)
          \<and> listener_iteration wr r (ts_listener sys) = None \<longrightarrow> (\<exists>i\<in>lives (ts_listener sys). queued (ts_listener sys) i \<noteq> []) \<or> bad_pass wr r (ts_listener sys))
     \<and> (case encode_csv_cancel CODEC_MAX_MESSAGE_SIZE 0 order_id of (n, buffer) \<Rightarrow>
          \<forall>i\<in>lives (ts_listener sys). pending (tc_read_state (client_at (ts_listener sys) i)) = [] \<longrightarrow>
            handle_client_read (Recv_bytes (frame (map of_char (take n buffer)))) (tcp_id i) (ts_listener sys) = None)"
proof -
  have ok: "tcp_mode_ok sys" using tcp_run_ok [OF assms] by (simp add: tcp_inv_def)
  have l: "listener_ok (ts_listener sys)" using ok by (simp add: tcp_mode_ok_def)
  have "router_round net (router_of sys) \<noteq> None" using tcp_router_step [OF ok, of net] by auto
  moreover have "processor_iteration clock (join_queues k sys p) l \<noteq> None" if "ts_proc sys k = Some (p, l)" "next_batch_ok clock (join_queues k sys p)" for k p l
    using tcp_processor_step [OF ok that] by auto
  moreover note tcp_processor_fatal [OF ok, where clock = clock]
  moreover have "(\<exists>i\<in>lives (ts_listener sys). queued (ts_listener sys) i \<noteq> []) \<or> bad_pass wr r (ts_listener sys)"
    if w: "\<forall>i. write_fits (wr i)" and e: "\<forall>ctx evs. process_output_queues wr (ts_listener sys) = Some ctx \<and> r = Wait_events evs \<longrightarrow> events_ok evs ctx"
      and n: "listener_iteration wr r (ts_listener sys) = None"
    using listener_iteration_settled [of "ts_listener sys" wr r, OF l] w e n by (auto simp: settled_simps)
  moreover have "case encode_csv_cancel CODEC_MAX_MESSAGE_SIZE 0 order_id of (n, buffer) \<Rightarrow>
          \<forall>i\<in>lives (ts_listener sys). pending (tc_read_state (client_at (ts_listener sys) i)) = [] \<longrightarrow>
            handle_client_read (Recv_bytes (frame (map of_char (take n buffer)))) (tcp_id i) (ts_listener sys) = None"
    using tcp_cancel_zero [OF l] by (auto split: prod.splits)
  ultimately show ?thesis using ok unfolding tcp_mode_ok_def by blast
qed

theorem tcp_mode_invariant_witness:
  "\<exists>sys. tcp_run sys \<and> lives (ts_listener sys) = {0} \<and> listener_ok (ts_listener sys) \<and> router_round (\<lambda>_ _. True) (router_of sys) \<noteq> None
     \<and> listener_iteration (\<lambda>_. take_all_bytes) Wait_interrupted (ts_listener sys) \<noteq> None
     \<and> (case encode_csv_cancel CODEC_MAX_MESSAGE_SIZE 0 7 of (n, buffer) \<Rightarrow>
          handle_client_read (Recv_bytes (frame (map of_char (take n buffer)))) (tcp_id 0) (ts_listener sys) = None)"
proof -
  from idle_tcp_ex [of True] obtain sys where i: "idle_tcp True sys" by blast
  then have r: "tcp_run sys" "one_client (ts_listener sys)" by (simp_all add: idle_tcp_def)
  note inv = tcp_mode_invariant [OF r(1), of "\<lambda>_ _. True" "\<lambda>_. 0" "\<lambda>_. take_all_bytes" Wait_interrupted 7]
  have "listener_iteration (\<lambda>_. take_all_bytes) Wait_interrupted (ts_listener sys) \<noteq> None"
    using inv r(2) take_all_bytes_ok(2) by (auto simp: one_client_def bad_pass_def)
  moreover have "case encode_csv_cancel CODEC_MAX_MESSAGE_SIZE 0 7 of (n, buffer) \<Rightarrow>
          handle_client_read (Recv_bytes (frame (map of_char (take n buffer)))) (tcp_id 0) (ts_listener sys) = None"
    using inv r(2) by (auto simp: one_client_def split: prod.splits)
  moreover have "router_round (\<lambda>_ _. True) (router_of sys) \<noteq> None" "listener_ok (ts_listener sys)" using inv by blast+
  ultimately show ?thesis using r by (intro exI [of _ sys]) (simp add: one_client_def)
qed

text \<open>
  C32.  Orders and cancels are entered for the user of the connection they came from.  Every request a pass of the event loop adds to the queues carries
  the identifier of a client on whose descriptor data was read in that pass, and its user identifier, if it has one, is that identifier; so in every state of a guarded run the user of each waiting order
  and cancel is the client it is filed under.  Two limits: a flush carries no user, so any client can flush the books; and identifiers belong to slots of the table, so a later connection in the
  slot of a closed one acts as the same user.
\<close>

theorem tcp_no_spoofing:
  assumes "tcp_run sys"
  shows "(\<forall>k. \<forall>e\<in>set (inbox (ts_listener sys) k).
       case ie_msg e of INPUT_MSG_NEW_ORDER m \<Rightarrow> no_user_id m = ie_client_id e | INPUT_MSG_CANCEL m \<Rightarrow> cm_user_id m = ie_client_id e | _ \<Rightarrow> True)
     \<and> inj_on (fd_of (ts_listener sys)) (lives (ts_listener sys))
     \<and> ((\<forall>i. write_fits (wr i)) \<and> (\<forall>ctx evs. process_output_queues wr (ts_listener sys) = Some ctx \<and> r = Wait_events evs \<longrightarrow> events_ok evs ctx)
          \<and> listener_iteration wr r (ts_listener sys) = Some (go, ctx') \<longrightarrow>
        (\<exists>ctx1. process_output_queues wr (ts_listener sys) = Some ctx1 \<and> inj_on (fd_of ctx1) (lives ctx1)
          \<and> (\<forall>k. \<exists>new. inbox ctx' k = inbox (ts_listener sys) k @ new
               \<and> (\<forall>e\<in>set new. \<exists>evs. r = Wait_events evs \<and> ie_client_id e \<in> readers evs ctx1
                    \<and> (case ie_msg e of INPUT_MSG_NEW_ORDER m \<Rightarrow> no_user_id m = ie_client_id e | INPUT_MSG_CANCEL m \<Rightarrow> cm_user_id m = ie_client_id e | _ \<Rightarrow> True)))))"
proof -
  have l: "listener_ok (ts_listener sys)" using tcp_run_ok [OF assms] by (simp add: tcp_inv_def tcp_mode_ok_def)
  have "valid_user (ie_client_id e) (ie_msg e)" if "e \<in> set (inbox (ts_listener sys) k)" for e k using tcp_run_own [OF assms] that by (auto simp: own_requests_def)
  moreover have "\<exists>ctx1. process_output_queues wr (ts_listener sys) = Some ctx1 \<and> inj_on (fd_of ctx1) (lives ctx1)
      \<and> (\<forall>k. \<exists>new. inbox ctx' k = inbox (ts_listener sys) k @ new \<and> (\<forall>e\<in>set new. \<exists>evs. r = Wait_events evs \<and> ie_client_id e \<in> readers evs ctx1
           \<and> valid_user (ie_client_id e) (ie_msg e)))"
    if w: "\<forall>i. write_fits (wr i)" and e: "\<forall>ctx evs. process_output_queues wr (ts_listener sys) = Some ctx \<and> r = Wait_events evs \<longrightarrow> events_ok evs ctx"
      and n: "listener_iteration wr r (ts_listener sys) = Some (go, ctx')"
  proof -
    obtain c1 where c1: "process_output_queues wr (ts_listener sys) = Some c1" "listener_ok c1"
      "adds_for (case r of Wait_events evs \<Rightarrow> readers evs c1 | _ \<Rightarrow> {}) (ts_listener sys) ctx'"
      by (rule listener_iteration_adds [of "ts_listener sys" wr r, OF l _ _ n]) (use w e in auto)
    have mem: "\<exists>evs. r = Wait_events evs \<and> x \<in> readers evs c1" if "x \<in> (case r of Wait_events evs \<Rightarrow> readers evs c1 | _ \<Rightarrow> {})" for x
      using that by (cases r) simp_all
    have "inj_on (fd_of c1) (lives c1)" using c1(2) by (simp add: listener_ok_def)
    with c1(1,3) mem show ?thesis unfolding adds_for_def by meson
  qed
  moreover have "inj_on (fd_of (ts_listener sys)) (lives (ts_listener sys))" using l by (simp add: listener_ok_def)
  ultimately show ?thesis unfolding valid_user_def [symmetric] by blast
qed

theorem tcp_no_spoofing_witness:
  "\<exists>sys bs c1 c2 new. tcp_run sys \<and> listener_iteration (\<lambda>_. take_all_bytes) (Wait_events [read_event (frame bs)]) (ts_listener sys) = Some (True, c2)
     \<and> process_output_queues (\<lambda>_. take_all_bytes) (ts_listener sys) = Some c1 \<and> fd_of c1 0 = 5
     \<and> inbox c2 False = inbox (ts_listener sys) False @ new \<and> envelope 1 0 cancel_request \<in> set new \<and> 1 \<in> readers [read_event (frame bs)] c1"
proof -
  from reading_tcp_ex obtain sys bs c1 c2 where r: "reading_tcp sys bs c1 c2" by blast
  then have i: "idle_tcp True sys" and c1: "process_output_queues (\<lambda>_. take_all_bytes) (ts_listener sys) = Some c1" "fd_of c1 0 = 5"
    and ev: "events_ok [read_event (frame bs)] c1" and new: "inbox c2 False = [envelope 1 0 cancel_request]"
    and it: "listener_iteration (\<lambda>_. take_all_bytes) (Wait_events [read_event (frame bs)]) (ts_listener sys) = Some (True, c2)"
    by (simp_all add: reading_tcp_def)
  have s: "tcp_run sys" "inbox (ts_listener sys) False = []" using i by (simp_all add: idle_tcp_def one_client_def)
  have ev': "\<forall>ctx evs. process_output_queues (\<lambda>_. take_all_bytes) (ts_listener sys) = Some ctx \<and> Wait_events [read_event (frame bs)] = Wait_events evs \<longrightarrow> events_ok evs ctx"
    using c1(1) ev by auto
  from tcp_no_spoofing [OF s(1), of "\<lambda>_. take_all_bytes" "Wait_events [read_event (frame bs)]" True c2] ev' it take_all_bytes_ok(2) c1(1) obtain new where
    n: "inbox c2 False = inbox (ts_listener sys) False @ new" "\<forall>e\<in>set new. ie_client_id e \<in> readers [read_event (frame bs)] c1" by fastforce
  have e: "new = [envelope 1 0 cancel_request]" using n(1) new s(2) by simp
  have "envelope 1 0 cancel_request \<in> set new" unfolding e by simp
  moreover have "1 \<in> readers [read_event (frame bs)] c1" using n(2) unfolding e by (simp del: readers.simps)
  ultimately show ?thesis using s(1) it c1 n(1) by blast
qed

text \<open>
  C33.  From the bytes of a request to the bytes of the answers, in the TCP mode.  The client \<open>i\<close> of an idle system sends requests of its own in either encoding of the
  client codec, in frames that arrive in blocks of at most 256 bytes.  The event loop reads them, one pass of the processor has the engine process them in order, one
  round of the router hands out the answers, and passes of the event loop in which the peer takes at least a byte put every answer for \<open>i\<close> on its connection, framed,
  in order and after what was still due.
\<close>

theorem tcp_request_to_answers:
  assumes "tcp_run sys" and "ts_proc sys k = Some (p, l)" and "i \<in> lives (ts_listener sys)"
    and "\<And>j. inbox (ts_listener sys) j = []" and "\<And>j. outbox (ts_router sys) j = []" and "pending (tc_read_state (client_at (ts_listener sys) i)) = []"
    and "cd_send_encoding cd \<in> {ENCODING_BINARY, ENCODING_CSV}" and "\<forall>m\<in>set ms. sendable m" and "encode_requests cd ms = Some bss"
    and "\<forall>m\<in>set ms. valid_user (tcp_id i) m" and "\<forall>m\<in>set ms. goes_to (dual (ts_listener sys)) m k" and "length ms \<le> 32"
    and "concat blocks = concat (map frame bss)" and "\<forall>b\<in>set blocks. b \<noteq> [] \<and> length b \<le> 256"
    and "answers clock (tcp_id i) ms (px_engine p) outs e'" and "length (route_all (lv_sequence l) outs) \<le> 32"
    and "length (queued (ts_listener sys) i) + 32 < LOCKFREE_QUEUE_SIZE" and "b = lc_use_binary_output (tl_config (ts_listener sys))"
    and "\<forall>write\<in>set ws. takes write" and "left_over (ts_listener sys) i + length (framed_outputs b (messages_for i (route_all (lv_sequence l) outs))) \<le> length ws"
  shows "\<exists>ctx1 p' l' sys2 n r ctx2. read_blocks blocks (tcp_id i) (ts_listener sys) = Some ctx1
     \<and> processor_iteration clock (join_queues k (sys\<lparr>ts_listener := ctx1\<rparr>) p) l = Some (p', l') \<and> px_engine p' = e' \<and> sys2 = split_queues k p' (sys\<lparr>ts_listener := ctx1\<rparr>)
     \<and> router_round net (router_of sys2) = Some (n, r) \<and> outbox r k = [] \<and> delivery_passes ws (fd_of (ts_listener sys) i) (ts_listener (router_done r sys2)) = Some ctx2
     \<and> listener_ok ctx2 \<and> queued ctx2 i = []
     \<and> sent_to ctx2 (fd_of (ts_listener sys) i) = sent_to (ts_listener sys) (fd_of (ts_listener sys) i) @ unsent (client_at (ts_listener sys) i)
          @ framed_outputs b (queued (ts_listener sys) i @ messages_for i (route_all (lv_sequence l) outs))"
proof -
  have ok: "tcp_mode_ok sys" using tcp_run_ok [OF assms(1)] by (simp add: tcp_inv_def)
  have "list_all2 framed_as bss ms" by (rule encode_requests_framed [OF assms(7-9)])
  from tcp_exchange_ok [OF ok assms(2-6) this assms(10-20)] show ?thesis .
qed

theorem tcp_request_to_answers_witness:
  "\<exists>sys bs ctx1 p l p' l' sys2 n r ws ctx2. tcp_run sys \<and> ts_proc sys False = Some (p, l) \<and> read_blocks [frame bs] 1 (ts_listener sys) = Some ctx1
     \<and> processor_iteration (\<lambda>_. 0) (join_queues False (sys\<lparr>ts_listener := ctx1\<rparr>) p) l = Some (p', l') \<and> sys2 = split_queues False p' (sys\<lparr>ts_listener := ctx1\<rparr>)
     \<and> router_round (\<lambda>_ _. True) (router_of sys2) = Some (n, r) \<and> delivery_passes ws 5 (ts_listener (router_done r sys2)) = Some ctx2
     \<and> sent_to ctx2 5 = framed_outputs True [cancel_answer]"
proof -
  from idle_tcp_ex [of True] obtain sys where i: "idle_tcp True sys" by blast
  then obtain p l where p: "ts_proc sys False = Some (p, l)" "px_engine p = fresh_engine" "lv_sequence l = 0" by (auto simp: idle_tcp_def)
  let ?c = "ts_listener sys"
  have f: "tcp_run sys" "lives ?c = {0}" "\<And>j. inbox ?c j = []" "\<And>j. outbox (ts_router sys) j = []" "pending (tc_read_state (client_at ?c 0)) = []" "queued ?c 0 = []" "fd_of ?c 0 = 5"
    "\<not> dual ?c" "unsent (client_at ?c 0) = []" "sent_to ?c 5 = []" "True = lc_use_binary_output (tl_config ?c)"
    using i by (auto simp: idle_tcp_def one_client_def unsent_def sent_to_def)
  from cancel_encoded obtain cd bs where cd: "cd_send_encoding cd \<in> {ENCODING_BINARY, ENCODING_CSV}" "encode_requests cd [cancel_request] = Some [bs]" "carries bs cancel_request" by auto
  from cancel_answered [of "\<lambda>_. 0" 1] obtain e' where ans: "answers (\<lambda>_. 0) (tcp_id 0) [cancel_request] (px_engine p) [(1, [cancel_answer])] e'"
    unfolding p(2) by (auto simp: tcp_id_def)
  have ra: "route_all (lv_sequence l) [(1, [cancel_answer])] = [\<lparr>oe_msg = cancel_answer, oe_client_id = 1, oe_sequence = 0\<rparr>]" by (simp add: p(3) cancel_answer_def)
  have mf: "messages_for 0 (route_all (lv_sequence l) [(1, [cancel_answer])]) = [cancel_answer]" unfolding ra by (simp add: messages_for_def tcp_id_def)
  define ws where "ws = replicate (length (framed_outputs True [cancel_answer])) take_all_bytes"
  have bl: "concat [frame bs] = concat (map frame [bs])" "\<forall>b\<in>set [frame bs]. b \<noteq> [] \<and> length b \<le> 256"
    using carries_start [OF cd(3)] by (auto simp: frame_def be32_def)
  have req: "\<forall>m\<in>set [cancel_request]. sendable m" "\<forall>m\<in>set [cancel_request]. valid_user (tcp_id 0) m" "\<forall>m\<in>set [cancel_request]. goes_to (dual ?c) m False" "length [cancel_request] \<le> 32"
    using cancel_request_sendable f(8) by (simp_all add: valid_user_def cancel_request_def tcp_id_def goes_to_def)
  have i0: "0 \<in> lives ?c" using f(2) by simp
  have "length (queued ?c 0) + 32 < LOCKFREE_QUEUE_SIZE" "length (route_all (lv_sequence l) [(1, [cancel_answer])]) \<le> 32" unfolding ra by (simp_all add: f(6))
  moreover have "\<forall>write\<in>set ws. takes write" by (simp add: ws_def take_all_bytes_ok)
  moreover have "left_over ?c 0 + length (framed_outputs True (messages_for 0 (route_all (lv_sequence l) [(1, [cancel_answer])]))) \<le> length ws"
    unfolding mf by (simp add: ws_def left_over_def outstanding_def f(6,9))
  ultimately show ?thesis
    using tcp_request_to_answers [OF f(1) p(1) i0 f(3-5) cd(1) req(1) cd(2) req(2-4) bl ans _ _ f(11), of ws "\<lambda>_ _. True"] f(1,6,7,9,10) p(1)
    unfolding mf by (simp add: tcp_id_def) metis
qed

text \<open>
  C34.  A burst of requests is not read completely: of the requests in one read at most 64 are taken, the rest stays in the framing buffer, and when the next read does not
  fit behind it, the buffer is emptied: those requests and the new bytes are lost without a message.
\<close>

theorem tcp_burst_lost:
  assumes "tcp_run sys" and "i \<in> lives (ts_listener sys)" and "cd_send_encoding cd \<in> {ENCODING_BINARY, ENCODING_CSV}" and "\<forall>m\<in>set ms. sendable m"
    and "encode_requests cd ms = Some bss" and "\<forall>m\<in>set ms. valid_user (tcp_id i) m" and "ms \<noteq> []" and "pending (tc_read_state (client_at (ts_listener sys) i)) = []"
    and "length (concat (map frame bss)) \<le> MAX_READ_BUFFER" and "length (concat (map frame (drop 64 bss))) + length rest > FRAMING_BUFFER_SIZE"
    and "\<And>k. length (inbox (ts_listener sys) k) + length ms < LOCKFREE_QUEUE_SIZE"
  shows "\<exists>ctx. read_blocks [concat (map frame bss), rest] (tcp_id i) (ts_listener sys) = Some ctx \<and> pending (tc_read_state (client_at ctx i)) = []
     \<and> (\<forall>k. inbox ctx k = inbox (ts_listener sys) k
          @ filter (\<lambda>e. goes_to (dual (ts_listener sys)) (ie_msg e) k) (numbered (tcp_id i) (tc_messages_received (client_at (ts_listener sys) i)) (take 64 ms)))"
proof -
  let ?c = "ts_listener sys"
  have ok: "queues_ok ?c" "tcp_registry_ok (tl_client_registry ?c)" using tcp_run_ok [OF assms(1)] by (simp_all add: tcp_inv_def tcp_mode_ok_def listener_ok_def)
  have fr: "list_all2 framed_as bss ms" by (rule encode_requests_framed [OF assms(3-5)])
  then have "bss \<noteq> []" using assms(7) by auto
  from burst_lost [OF ok assms(2) fr assms(6) this assms(8-11)] obtain ctx where
    c: "read_blocks [concat (map frame bss), rest] (tcp_id i) ?c = Some ctx" "took_requests i (tcp_id i) (take 64 ms) [] ?c ctx" by blast
  from took_requests_client [OF c(2)] obtain rs b where "pending rs = []"
    "client_at ctx i = (client_at ?c i)\<lparr>tc_read_state := rs, tc_messages_received := tc_messages_received (client_at ?c i) + of_nat (length (take 64 ms)), tc_bytes_received := b\<rparr>" by metis
  with c show ?thesis by (auto simp: took_requests_def)
qed

theorem tcp_burst_lost_witness:
  "\<exists>sys cd bss ctx. tcp_run sys \<and> encode_requests cd (replicate 300 INPUT_MSG_FLUSH) = Some bss
     \<and> read_blocks [concat (map frame bss), replicate 4000 0] 1 (ts_listener sys) = Some ctx \<and> length (inbox ctx False) = 64 \<and> pending (tc_read_state (client_at ctx 0)) = []"
proof -
  from idle_tcp_ex [of True] obtain sys where "idle_tcp True sys" by blast
  then have f: "tcp_run sys" "0 \<in> lives (ts_listener sys)" "\<And>j. inbox (ts_listener sys) j = []" "pending (tc_read_state (client_at (ts_listener sys) 0)) = []" "\<not> dual (ts_listener sys)"
    by (auto simp: idle_tcp_def one_client_def)
  define cd :: codec_t where "cd = undefined\<lparr>cd_send_encoding := ENCODING_BINARY\<rparr>"
  define ms where "ms = replicate 300 INPUT_MSG_FLUSH"
  have cd: "cd_send_encoding cd = ENCODING_BINARY" by (simp add: cd_def)
  have ms: "\<forall>m\<in>set ms. sendable m" "\<forall>m\<in>set ms. valid_user (tcp_id 0) m" "ms \<noteq> []" "length ms = 300" by (auto simp: ms_def sendable_def valid_user_def)
  from cd ms(1) obtain bss where bss: "encode_requests cd ms = Some bss" "list_all2 carries bss ms" by (rule encode_requests_binary)
  have len: "length bss = 300" using list_all2_lengthD [OF bss(2)] ms(4) by simp
  have two: "\<forall>bs\<in>set bss. length bs = 2" using bss(2) carries_flush_length unfolding ms_def list_all2_conv_all_nth by (fastforce simp: in_set_conv_nth)
  then have fl: "\<forall>bs\<in>set bss. length (frame bs) = 6" by (simp add: frame_def be32_def)
  have six: "length (concat (map frame bss')) = 6 * length bss'" if "set bss' \<subseteq> set bss" for bss' using that fl by (induction bss') auto
  have "length (concat (map frame bss)) \<le> MAX_READ_BUFFER" "length (concat (map frame (drop 64 bss))) + length (replicate 4000 (0 :: u8)) > FRAMING_BUFFER_SIZE"
    using six [of bss] six [of "drop 64 bss"] set_drop_subset [of 64 bss] len by simp_all
  from tcp_burst_lost [OF f(1,2) _ ms(1) bss(1) ms(2,3) f(4) this] obtain ctx where
    c: "read_blocks [concat (map frame bss), replicate 4000 0] (tcp_id 0) (ts_listener sys) = Some ctx" "pending (tc_read_state (client_at ctx 0)) = []"
      "inbox ctx False = filter (\<lambda>e. goes_to (dual (ts_listener sys)) (ie_msg e) False) (numbered (tcp_id 0) (tc_messages_received (client_at (ts_listener sys) 0)) (take 64 ms))"
    using cd f(3) ms(4) by auto
  have "inbox ctx False = numbered (tcp_id 0) (tc_messages_received (client_at (ts_listener sys) 0)) (take 64 ms)"
    unfolding c(3) by (rule numbered_filter) (simp add: goes_to_def f(5))
  then have "length (inbox ctx False) = 64" using ms(4) by simp
  moreover have "tcp_id 0 = 1" by (simp add: tcp_id_def)
  ultimately show ?thesis using c(1,2) f(1) bss(1) unfolding ms_def by metis
qed

text \<open>
  C35.  Queued answers are delivered: when each time a client's connection is written to the peer takes at least a byte, as many passes of the event loop as bytes are due
  put everything queued for the client on its connection, framed, in order, behind the unsent rest of the frame before; nothing else is sent on it.  The client
  reads the answers as they were meant, when it gets them in binary or when the text can be decoded.
\<close>

theorem tcp_answers_delivered:
  assumes "tcp_run sys" and "i \<in> lives (ts_listener sys)" and "b = lc_use_binary_output (tl_config (ts_listener sys))"
    and "\<forall>write\<in>set ws. takes write" and "left_over (ts_listener sys) i \<le> length ws"
  shows "\<exists>ctx. delivery_passes ws (fd_of (ts_listener sys) i) (ts_listener sys) = Some ctx \<and> listener_ok ctx \<and> queued ctx i = []
     \<and> sent_to ctx (fd_of (ts_listener sys) i) = sent_to (ts_listener sys) (fd_of (ts_listener sys) i) @ unsent (client_at (ts_listener sys) i)
          @ framed_outputs b (queued (ts_listener sys) i)
     \<and> (\<forall>m\<in>set (queued (ts_listener sys) i). b \<or> csv_decodable m \<longrightarrow> reads_as (if b then CLIENT_PROTOCOL_BINARY else CLIENT_PROTOCOL_CSV) m (out_bytes b m))"
proof -
  have ok: "listener_ok (ts_listener sys)" using tcp_run_ok [OF assms(1)] by (simp add: tcp_inv_def tcp_mode_ok_def)
  have "\<forall>m\<in>set (queued (ts_listener sys) i). formattable m" using listener_ok_client(2) [OF ok assms(2)] by (simp add: client_writes_ok_def good_out_def)
  then have "\<forall>m\<in>set (queued (ts_listener sys) i). b \<or> csv_decodable m \<longrightarrow> reads_as (if b then CLIENT_PROTOCOL_BINARY else CLIENT_PROTOCOL_CSV) m (out_bytes b m)"
    using out_bytes_read [of b] by (cases b) simp_all
  with delivered_stream [OF ok assms(2,4,5)] show ?thesis unfolding framed_outputs_def assms(3) by blast
qed

theorem tcp_answers_delivered_witness:
  "\<exists>sys ctx ws. tcp_run sys \<and> 0 \<in> lives (ts_listener sys) \<and> queued (ts_listener sys) 0 = [cancel_answer]
     \<and> delivery_passes ws 5 (ts_listener sys) = Some ctx \<and> queued ctx 0 = [] \<and> sent_to ctx 5 = framed_outputs True [cancel_answer]"
proof -
  from answered_tcp_ex obtain sys where f: "tcp_run sys" "0 \<in> lives (ts_listener sys)" "queued (ts_listener sys) 0 = [cancel_answer]" "fd_of (ts_listener sys) 0 = 5"
    "True = lc_use_binary_output (tl_config (ts_listener sys))" "sent_to (ts_listener sys) 5 = []" "unsent (client_at (ts_listener sys) 0) = []" by blast
  let ?ws = "replicate (left_over (ts_listener sys) 0) take_all_bytes"
  have "\<forall>write\<in>set ?ws. takes write" "left_over (ts_listener sys) 0 \<le> length ?ws" by (simp_all add: take_all_bytes_ok)
  from tcp_answers_delivered [OF f(1,2,5) this] f(3,4,6,7) obtain ctx where "delivery_passes ?ws 5 (ts_listener sys) = Some ctx" "queued ctx 0 = []"
    "sent_to ctx 5 = framed_outputs True [cancel_answer]" by auto
  with f(1-3) show ?thesis by blast
qed

text \<open>
  C36.  The drain of the output router at the end takes at most 3200 messages of each queue: those are handed out, interleaved but in the order of their queue, and
  the rest stays.
\<close>

theorem output_router_drain:
  assumes "tcp_run sys"
  shows "\<exists>r es. drain_rounds MAX_DRAIN_ITERATIONS net (router_of sys) = Some r \<and> or_client_registry r = fold given es (tl_client_registry (ts_listener sys))
     \<and> es \<in> shuffles (take 3200 (outbox (ts_router sys) False)) (take 3200 (outbox (ts_router sys) True)) \<and> (\<forall>k. outbox r k = drop 3200 (outbox (ts_router sys) k))"
proof -
  have ok: "router_ok (router_of sys)" "both_castable (router_of sys)" using tcp_run_ok [OF assms] sendable_castable by (simp_all add: tcp_inv_def tcp_mode_ok_def)
  from drain_rounds_ok [OF ok, of MAX_DRAIN_ITERATIONS net] show ?thesis by (auto simp: handed_out_def)
qed

theorem output_router_drain_witness:
  "\<exists>sys r. tcp_run sys \<and> length (outbox (ts_router sys) False) = 1 \<and> drain_rounds MAX_DRAIN_ITERATIONS (\<lambda>_ _. True) (router_of sys) = Some r \<and> (\<forall>k. outbox r k = [])"
proof -
  from answering_tcp_ex obtain sys where f: "tcp_run sys" "outbox (ts_router sys) = (\<lambda>_. [])(False := [answer_envelope])" by blast
  from output_router_drain [OF f(1), of "\<lambda>_ _. True"] obtain r where "drain_rounds MAX_DRAIN_ITERATIONS (\<lambda>_ _. True) (router_of sys) = Some r"
    "\<forall>k. outbox r k = drop 3200 (outbox (ts_router sys) k)" by blast
  then show ?thesis using f by (intro exI [of _ sys] exI [of _ r]) simp
qed

text \<open>
  C37.  The end of the TCP mode.  The main thread disconnects every client; this works, and leaves an empty table, exactly when no answer is queued for any of them,
  and aborts the process otherwise.  The cleanup aborts unless every queue is empty.
\<close>

theorem tcp_shutdown_aborts:
  assumes "tcp_run sys"
  shows "(if \<forall>i\<in>lives (ts_listener sys). queued (ts_listener sys) i = []
      then \<exists>reg. tcp_client_disconnect_all MAX_TCP_CLIENTS (tl_client_registry (ts_listener sys)) = Some (map tcp_id (sorted_list_of_set (lives (ts_listener sys))), reg)
        \<and> tcp_table reg = Map.empty
      else tcp_mode_disconnect sys = None)
     \<and> (\<forall>e0 e1. destroyable (Some e0) \<and> destroyable e1 \<longrightarrow> tcp_cleanup (ts_listener sys) (ts_router sys) e0 e1 =
          (if (\<forall>i\<in>lives (ts_listener sys). queued (ts_listener sys) i = []) \<and> (\<forall>k. inbox (ts_listener sys) k = [] \<and> outbox (ts_router sys) k = []) then Some () else None))"
proof -
  have ok: "tcp_mode_ok sys" using tcp_run_ok [OF assms] by (simp add: tcp_inv_def)
  then have reg: "tcp_registry_ok (tl_client_registry (ts_listener sys))" by (simp add: tcp_mode_ok_def listener_ok_def)
  note d = tcp_client_disconnect_all_ok [OF reg, folded client_at_def]
  have "if \<forall>i\<in>lives (ts_listener sys). queued (ts_listener sys) i = []
      then \<exists>reg. tcp_client_disconnect_all MAX_TCP_CLIENTS (tl_client_registry (ts_listener sys)) = Some (map tcp_id (sorted_list_of_set (lives (ts_listener sys))), reg)
        \<and> tcp_table reg = Map.empty
      else tcp_mode_disconnect sys = None"
    using d by (cases "\<forall>i\<in>lives (ts_listener sys). queued (ts_listener sys) i = []") (auto simp: tcp_mode_disconnect_def)
  then show ?thesis using tcp_cleanup_ok [OF ok] by blast
qed

theorem tcp_shutdown_aborts_witness:
  "\<exists>sys reg. tcp_run sys \<and> lives (ts_listener sys) = {0} \<and> tcp_client_disconnect_all MAX_TCP_CLIENTS (tl_client_registry (ts_listener sys)) = Some ([1], reg)
     \<and> tcp_cleanup (ts_listener sys) (ts_router sys) fresh_engine None = Some ()"
proof -
  from idle_tcp_ex [of True] obtain sys where i: "idle_tcp True sys" by blast
  then have f: "tcp_run sys" "lives (ts_listener sys) = {0}" "\<forall>i\<in>lives (ts_listener sys). queued (ts_listener sys) i = []" "\<forall>k. inbox (ts_listener sys) k = [] \<and> outbox (ts_router sys) k = []"
    by (auto simp: idle_tcp_def one_client_def)
  note t = tcp_shutdown_aborts [OF f(1)]
  from t f(2,3) obtain reg where "tcp_client_disconnect_all MAX_TCP_CLIENTS (tl_client_registry (ts_listener sys)) = Some ([1], reg)" by (auto simp: tcp_id_def)
  moreover have "destroyable (Some fresh_engine)" "destroyable None" using fresh_engine_run by (auto simp: destroyable_def fresh_engine_def fresh_pool_def order_pool_init_def)
  ultimately show ?thesis using t f by auto
qed

section \<open>The UDP mode\<close>

text \<open>
  C38.  The UDP mode, single or dual, along its guarded runs: whole passes of its threads in any order, and batches the engine of the processor can take (\<open>next_batch_ok\<close>).
  In every state reached this way the queues and the table of clients are well
  formed, the clients have different identifiers, every waiting answer can be formatted, and every processor has an engine reached by an admissible run.  A pass
  of the publisher does not abort; a pass of a processor does not abort when its engine can take the batch, and aborts when its engine aborts on the first message; the receiver, with an identifier
  left for a new client (\<open>um_next_id\<close> is not 0xFFFFFFFF) and a clock below its largest value, aborts on a datagram only when a line of it, read as the parser reads it, starts like a cancel.
\<close>

theorem udp_mode_invariant:
  assumes "udp_run sys"
  shows "receiver_ok (ud_receiver sys) \<and> publisher_ok (ud_publisher sys) \<and> udp_procs_ok sys
     \<and> publisher_pass sendto (publisher_of sys) \<noteq> None
     \<and> (\<forall>k p l. ud_proc sys k = Some (p, l) \<and> next_batch_ok clock (udp_attach k sys p) \<longrightarrow> processor_iteration clock (udp_attach k sys p) l \<noteq> None)
     \<and> (\<forall>k p l. ud_proc sys k = Some (p, l) \<and> first_fatal clock (arrivals (ud_receiver sys) k) (px_engine p) \<longrightarrow> processor_iteration clock (udp_attach k sys p) l = None)
     \<and> (um_next_id (ur_clients (ud_receiver sys)) \<noteq> 0xFFFFFFFF \<and> now < INT64_MAX \<and> yields_ok yield \<and> udp_receive yield now (Udp_datagram from data) (ud_receiver sys) = None
          \<longrightarrow> (\<exists>n. cancel_text (takeWhile (\<lambda>b. \<not> is_eol b) (drop n data))))"
proof -
  have ok: "udp_mode_ok sys" by (rule udp_run_ok [OF assms])
  then have r: "receiver_ok (ud_receiver sys)" "publisher_ok (ud_publisher sys)" "udp_procs_ok sys" by (simp_all add: udp_mode_ok_def)
  have "publisher_pass sendto (publisher_of sys) \<noteq> None" using udp_publish_step [OF ok, of sendto] by auto
  moreover have "processor_iteration clock (udp_attach k sys p) l \<noteq> None" if "ud_proc sys k = Some (p, l)" "next_batch_ok clock (udp_attach k sys p)" for k p l
    using udp_processor_step [OF ok that] by auto
  moreover note udp_processor_fatal [OF ok, where clock = clock]
  moreover have "\<exists>n. cancel_text (takeWhile (\<lambda>b. \<not> is_eol b) (drop n data))"
    if n: "um_next_id (ur_clients (ud_receiver sys)) \<noteq> 0xFFFFFFFF" "now < INT64_MAX" "yields_ok yield" "udp_receive yield now (Udp_datagram from data) (ud_receiver sys) = None"
  proof -
    have "data \<noteq> []" using n(4) by (auto simp: udp_receive_def)
    from udp_receive_ok [OF n(3) r(1) n(1,2) this, of "from"] n(4) show ?thesis by auto
  qed
  ultimately show ?thesis using r by blast
qed

theorem udp_mode_invariant_witness:
  "\<exists>sys. udp_run sys \<and> arrivals (ud_receiver sys) False = [] \<and> publisher_pass (\<lambda>_ d. int (length d)) (publisher_of sys) \<noteq> None
     \<and> udp_receive (\<lambda>_ r. r) 5 (Udp_datagram \<lparr>sin_addr = 1, sin_port = 2\<rparr> [70, 10]) (ud_receiver sys) \<noteq> None"
proof -
  from idle_udp_ex obtain sys where i: "idle_udp sys" by blast
  note f = idle_udp_facts [OF i]
  note inv = udp_mode_invariant [OF f(1), of "\<lambda>_ d. int (length d)" "\<lambda>_. 0" 5 "\<lambda>_ r. r" "\<lparr>sin_addr = 1, sin_port = 2\<rparr>" "[70, 10]"]
  have t: "\<not> cancel_text [70]" "\<not> cancel_text []" by code_simp+
  then have "\<not> cancel_text (takeWhile (\<lambda>b. \<not> is_eol b) (drop n [70, 10]))" for n
    by (cases n; cases "n - 1") simp_all
  with inv no_yield_ok f(4) have "udp_receive (\<lambda>_ r. r) 5 (Udp_datagram \<lparr>sin_addr = 1, sin_port = 2\<rparr> [70, 10]) (ud_receiver sys) \<noteq> None" by auto
  with inv f show ?thesis by blast
qed

text \<open>
  C39.  From the bytes of a request to the bytes of the answers, in the UDP mode.  A client that has not used the other encoding before, new or known, sends requests to an idle
  system in one datagram, in either encoding of the client codec.  The receiver takes them, one pass of the processor has the engine process them in order, and
  passes of the publisher send every answer in order, each in one datagram to the client it is for; the answers for the sender go to the address the datagram came from, in its encoding.
\<close>

theorem udp_request_to_answers:
  assumes "udp_run sys" and "ud_proc sys k = Some (p, l)"
    and "\<And>j. arrivals (ud_receiver sys) j = []" and "\<And>j. outgoing (ud_publisher sys) j = []"
    and "um_next_id (ur_clients (ud_receiver sys)) \<noteq> 0xFFFFFFFF" and "card (used (ur_clients (ud_receiver sys))) < MAX_UDP_CLIENTS" and "now < INT64_MAX"
    and "protocol_of (ur_clients (ud_receiver sys)) (compact from) \<in> {None, Some CLIENT_PROTOCOL_UNKNOWN, Some q}"
    and "cd_send_encoding cd = (if q = CLIENT_PROTOCOL_BINARY then ENCODING_BINARY else ENCODING_CSV)" and "q \<in> {CLIENT_PROTOCOL_BINARY, CLIENT_PROTOCOL_CSV}"
    and "\<forall>m\<in>set ms. sendable m" and "encode_requests cd ms = Some bss"
    and "ms \<noteq> []" and "length ms \<le> 32" and "\<forall>m\<in>set ms. goes_to (two_queues (ud_receiver sys)) m k"
    and "c = fst (client_map_get_or_create (compact from) now (ur_clients (ud_receiver sys)))"
    and "answers clock c ms (px_engine p) outs e'" and "length (route_all (lv_sequence l) outs) \<le> n" and "n < LOCKFREE_QUEUE_SIZE"
    and "0 \<le> ur_sockfd (ud_receiver sys)" and "\<forall>a d. 0 \<le> sendto a d"
  shows "\<exists>r p' l' sys2 ctx. udp_receive yield now (Udp_datagram from (concat bss)) (ud_receiver sys) = Some r
     \<and> processor_iteration clock (udp_attach k (sys\<lparr>ud_receiver := r\<rparr>) p) l = Some (p', l') \<and> px_engine p' = e' \<and> sys2 = udp_detach k p' (sys\<lparr>ud_receiver := r\<rparr>)
     \<and> udp_output_publisher_thread n sendto (publisher_of sys2) = Some ctx \<and> (\<forall>j. outgoing ctx j = [])
     \<and> ur_wire (pb_udp ctx) = ur_wire (ud_receiver sys) @ concat (map (answer_datagram (ur_clients r)) (route_all (lv_sequence l) outs))
     \<and> (\<forall>e\<in>set (route_all (lv_sequence l) outs). oe_client_id e = c \<longrightarrow> answer_datagram (ur_clients r) e = [(from, out_bytes (q = CLIENT_PROTOCOL_BINARY) (oe_msg e))])"
proof -
  have "list_all2 (udp_request_bytes q) bss ms" by (rule encode_requests_udp [OF assms(9-12)])
  from udp_exchange_ok [OF udp_run_ok [OF assms(1)] assms(2-8) this assms(13-21)] show ?thesis .
qed

theorem udp_request_to_answers_witness:
  "\<exists>sys p l bs r p' l' ctx. udp_run sys \<and> ud_proc sys False = Some (p, l) \<and> udp_receive (\<lambda>_ r. r) 5 (Udp_datagram \<lparr>sin_addr = 1, sin_port = 2\<rparr> bs) (ud_receiver sys) = Some r
     \<and> processor_iteration (\<lambda>_. 0) (udp_attach False (sys\<lparr>ud_receiver := r\<rparr>) p) l = Some (p', l')
     \<and> udp_output_publisher_thread 1 (\<lambda>_ d. int (length d)) (publisher_of (udp_detach False p' (sys\<lparr>ud_receiver := r\<rparr>))) = Some ctx
     \<and> ur_wire (pb_udp ctx) = ur_wire (ud_receiver sys) @ [(\<lparr>sin_addr = 1, sin_port = 2\<rparr>, out_bytes True cancel_answer)]"
proof -
  from idle_udp_ex obtain sys where i: "idle_udp sys" by blast
  note f = idle_udp_facts [OF i]
  from i obtain p l where p: "ud_proc sys False = Some (p, l)" "px_engine p = fresh_engine" "lv_sequence l = 0" by (auto simp: idle_udp_def)
  from cancel_encoded obtain cd bs where cd: "cd_send_encoding cd = ENCODING_BINARY" "encode_requests cd [cancel_request] = Some [bs]" by auto
  let ?a = "\<lparr>sin_addr = 1, sin_port = 2\<rparr>"
  define c where "c = fst (client_map_get_or_create (compact ?a) 5 (ur_clients (ud_receiver sys)))"
  from cancel_answered [of "\<lambda>_. 0" c] obtain e' where ans: "answers (\<lambda>_. 0) c [cancel_request] (px_engine p) [(c, [cancel_answer])] e'" unfolding p(2) by blast
  have ra: "route_all (lv_sequence l) [(c, [cancel_answer])] = [\<lparr>oe_msg = cancel_answer, oe_client_id = c, oe_sequence = 0\<rparr>]" by (simp add: p(3) cancel_answer_def)
  have h: "um_next_id (ur_clients (ud_receiver sys)) \<noteq> 0xFFFFFFFF" "card (used (ur_clients (ud_receiver sys))) < MAX_UDP_CLIENTS" "(5::int) < INT64_MAX"
    "protocol_of (ur_clients (ud_receiver sys)) (compact ?a) \<in> {None, Some CLIENT_PROTOCOL_UNKNOWN, Some CLIENT_PROTOCOL_BINARY}"
    "cd_send_encoding cd = (if CLIENT_PROTOCOL_BINARY = CLIENT_PROTOCOL_BINARY then ENCODING_BINARY else ENCODING_CSV)" "CLIENT_PROTOCOL_BINARY \<in> {CLIENT_PROTOCOL_BINARY, CLIENT_PROTOCOL_CSV}"
    "\<forall>m\<in>set [cancel_request]. sendable m" using f(4,5,8) cd(1) cancel_request_sendable by simp_all
  have g: "[cancel_request] \<noteq> []" "length [cancel_request] \<le> 32" "\<forall>m\<in>set [cancel_request]. goes_to (two_queues (ud_receiver sys)) m False" using f(7) by (simp_all add: goes_to_def)
  have n: "length (route_all (lv_sequence l) [(c, [cancel_answer])]) \<le> 1" "1 < LOCKFREE_QUEUE_SIZE" "\<forall>(a :: sockaddr_in) d. 0 \<le> int (length (d :: u8 list))" unfolding ra by simp_all
  from udp_request_to_answers [OF f(1) p(1) f(2,3) h cd(2) g c_def ans n(1,2) f(6) n(3), of "\<lambda>_ r. r"] obtain r p' l' ctx where
    x: "udp_receive (\<lambda>_ r. r) 5 (Udp_datagram ?a (concat [bs])) (ud_receiver sys) = Some r" "processor_iteration (\<lambda>_. 0) (udp_attach False (sys\<lparr>ud_receiver := r\<rparr>) p) l = Some (p', l')"
      "udp_output_publisher_thread 1 (\<lambda>_ d. int (length d)) (publisher_of (udp_detach False p' (sys\<lparr>ud_receiver := r\<rparr>))) = Some ctx"
      "ur_wire (pb_udp ctx) = ur_wire (ud_receiver sys) @ [(?a, out_bytes True cancel_answer)]"
    unfolding ra by auto
  from x(1) have "udp_receive (\<lambda>_ r. r) 5 (Udp_datagram ?a bs) (ud_receiver sys) = Some r" by simp
  with x(2-4) f(1) p(1) show ?thesis by blast
qed

text \<open>
  C40.  The clients of the UDP mode keep their identifiers.  Starting from an empty table, whatever addresses are heard in whatever order: as long as there are at most 4096 of them,
  every datagram is given an identifier under which its own address is registered at the end, so that answers reach their client, two datagrams
  get the same identifier exactly when they come from the same address, and the identifiers are those of UDP clients.
\<close>

theorem udp_clients_stable:
  assumes "register_all xs (client_map_init raw) = (cs, m)" and "card (peers xs) \<le> MAX_UDP_CLIENTS" and "\<forall>x\<in>set xs. snd x < INT64_MAX"
  shows "list_all2 (\<lambda>x c. client_id_is_udp c \<and> map_option peer (client_map_find_addr m c) = Some (peer (fst x))) xs cs
     \<and> (\<forall>i<length xs. \<forall>j<length xs. cs ! i = cs ! j \<longleftrightarrow> peer (fst (xs ! i)) = peer (fst (xs ! j)))"
proof -
  note i = client_map_init_ok [of raw]
  have e: "ran (peers_by_id (client_map_init raw)) = {}" by (simp add: ran_peers_by_id [OF i(2)] i(4))
  have n: "unat (um_next_id (client_map_init raw)) = 0x80000001" by (simp add: client_map_init_def)
  have "card (ran (peers_by_id (client_map_init raw)) \<union> peers xs) \<le> MAX_UDP_CLIENTS"
    "unat (um_next_id (client_map_init raw)) + card (peers xs - ran (peers_by_id (client_map_init raw))) < 0xFFFFFFFF" unfolding e n using assms(2) by simp_all
  from register_all_stable [OF i(1-3) this assms(3,1)] have
    m: "clients_ok m" "ids_ok m" "chains_ok m" and l: "list_all2 (\<lambda>x c. peers_by_id m c = Some (peer (fst x))) xs cs" by blast+
  have "client_id_is_udp c" if "peers_by_id m c = Some p" for c p
    using that m(1) unfolding peers_by_id_Some [OF m(2)] by (auto simp: clients_ok_def client_id_is_udp_def)
  with l have "list_all2 (\<lambda>x c. client_id_is_udp c \<and> map_option peer (client_map_find_addr m c) = Some (peer (fst x))) xs cs"
    unfolding peers_by_id_def by (elim list_all2_mono) blast
  moreover have "cs ! i = cs ! j \<longleftrightarrow> peer (fst (xs ! i)) = peer (fst (xs ! j))" if "i < length xs" "j < length xs" for i j
    using peers_by_id_unique [OF m(2,3)] list_all2_nthD [OF l that(1)] list_all2_nthD [OF l that(2)] by (metis option.inject)
  ultimately show ?thesis by blast
qed

theorem udp_clients_stable_witness:
  "\<exists>a b m. a \<noteq> b \<and> register_all [(\<lparr>ua_addr = 1, ua_port = 2, ua_pad = 0\<rparr>, 5), (\<lparr>ua_addr = 1, ua_port = 3, ua_pad = 0\<rparr>, 6), (\<lparr>ua_addr = 1, ua_port = 2, ua_pad = 0\<rparr>, 7)]
       (client_map_init full_clients) = ([a, b, a], m)
     \<and> map_option peer (client_map_find_addr m a) = Some (1, 2) \<and> map_option peer (client_map_find_addr m b) = Some (1, 3)"
proof -
  let ?xs = "[(\<lparr>ua_addr = 1, ua_port = 2, ua_pad = 0\<rparr>, 5), (\<lparr>ua_addr = 1, ua_port = 3, ua_pad = 0\<rparr>, 6), (\<lparr>ua_addr = 1, ua_port = 2, ua_pad = 0\<rparr>, 7)]"
  obtain cs m where r: "register_all ?xs (client_map_init full_clients) = (cs, m)" by fastforce
  have "card (peers ?xs) \<le> MAX_UDP_CLIENTS" "\<forall>x\<in>set ?xs. snd x < INT64_MAX" by (simp_all add: peer_def card_insert_if)
  note st = udp_clients_stable [OF r this]
  note l = conjunct1 [OF st] and e = conjunct2 [OF st]
  from l obtain a b c where c: "cs = [a, b, c]" by (auto simp: list_all2_Cons1)
  have "a \<noteq> b" "c = a" using e [rule_format, of 0 1] e [rule_format, of 2 0] by (simp_all add: c peer_def)
  with l r show ?thesis unfolding c by (auto simp: peer_def)
qed

end
